(* ===== verification/Prelude.thy ===== *)
theory Prelude
  imports Main "HOL-Library.Word"
begin

text \<open>
  What every component of the model shares: the machine types of the code, the wrap-around
  of its loop counters, raw memory as lists of bytes (little endian, as \<open>memcpy\<close> of an
  integer lays it out on the supported machines), bits of a byte stream, and results that
  carry an error.  \<open>bit_stream\<close> collects the facts about bit positions, \<open>mem\<close> the facts
  about byte buffers.
\<close>

named_theorems bit_stream
named_theorems mem

unbundle bit_operations_syntax

section \<open>Machine types\<close>

type_synonym u8 = "8 word"
type_synonym u16 = "16 word"
type_synonym u32 = "32 word"
type_synonym u64 = "64 word"
type_synonym bytes = "u8 list"

text \<open>
  Counters, lengths and offsets of type \<open>uint32_t\<close> / \<open>uint64_t\<close> are natural numbers whose
  arithmetic is reduced explicitly wherever the code's arithmetic could wrap.
\<close>

abbreviation wrap8 :: "nat \<Rightarrow> nat" where
  "wrap8 n \<equiv> n mod 256"

abbreviation wrap32 :: "nat \<Rightarrow> nat" where
  "wrap32 n \<equiv> n mod 4294967296"

abbreviation wrap64 :: "nat \<Rightarrow> nat" where
  "wrap64 n \<equiv> n mod 18446744073709551616"

lemma unat_bound8: "unat (w :: u8) < 256"
  using unsigned_less [of w] by simp

lemma unat_bound32: "unat (w :: u32) < 4294967296"
  using unsigned_less [of w] by simp

lemma unat_bound64: "unat (w :: u64) < 18446744073709551616"
  using unsigned_less [of w] by simp

section \<open>Results\<close>

text \<open>A function that may fail returns a sum; a run-time error of the machine itself
  (a read or write outside an object) is \<open>None\<close> of an option.\<close>

fun res_bind :: "'e + 'a \<Rightarrow> ('a \<Rightarrow> 'e + 'b) \<Rightarrow> 'e + 'b" where
  "res_bind (Inl e) f = Inl e"
| "res_bind (Inr x) f = f x"

lemma res_bind_eq_Inr: "res_bind r f = Inr y \<longleftrightarrow> (\<exists>x. r = Inr x \<and> f x = Inr y)"
  by (cases r) auto

lemma res_bind_eq_Inl:
  "res_bind r f = Inl e \<longleftrightarrow> r = Inl e \<or> (\<exists>x. r = Inr x \<and> f x = Inl e)"
  by (cases r) auto

section \<open>Decimal rendering\<close>

text \<open>\<open>std::to_string\<close> of an unsigned integer.\<close>

fun digits_of :: "nat \<Rightarrow> string" where
  "digits_of n =
     (if n < 10 then [char_of (48 + n)] else digits_of (n div 10) @ [char_of (48 + n mod 10)])"

declare digits_of.simps [simp del]

lemma digits_of_nonempty [simp]: "digits_of n \<noteq> []"
  by (subst digits_of.simps) simp

lemma digit_char_code: "d < 10 \<Longrightarrow> of_char (char_of (48 + d) :: char) = (48 + d :: nat)"
  by simp

lemma digits_of_set: "c \<in> set (digits_of n) \<Longrightarrow> \<exists>d < 10. c = char_of (48 + d :: nat)"
proof (induction n rule: digits_of.induct)
  case (1 n)
  show ?case
  proof (cases "n < 10")
    case True
    then have "c = char_of (48 + n)" using "1.prems" by (simp add: digits_of.simps [of n])
    then show ?thesis using True by blast
  next
    case False
    have "c \<in> set (digits_of (n div 10)) \<or> c = char_of (48 + n mod 10)"
      using "1.prems" False by (auto simp: digits_of.simps [of n])
    moreover have "n mod 10 < 10" by simp
    ultimately show ?thesis using "1.IH" False by blast
  qed
qed

lemma digits_of_no_underscore: "CHR ''_'' \<notin> set (digits_of n)"
proof
  assume "CHR ''_'' \<in> set (digits_of n)"
  then obtain d :: nat where d: "d < 10" and c: "CHR ''_'' = char_of (48 + d)"
    using digits_of_set by blast
  have "of_char CHR ''_'' = (48 + d :: nat)"
    unfolding c by (rule digit_char_code [OF d])
  with d show False by simp
qed

lemma digits_of_inj: "digits_of m = digits_of n \<Longrightarrow> m = n"
proof (induction m arbitrary: n rule: digits_of.induct)
  case (1 m)
  have last: "last (digits_of k) = char_of (48 + k mod 10)" for k
    by (cases "k < 10") (simp_all add: digits_of.simps [of k])
  have but: "butlast (digits_of k) = (if k < 10 then [] else digits_of (k div 10))" for k
    by (simp add: digits_of.simps [of k])
  have "(48 + m mod 10 :: nat) = 48 + n mod 10"
    using arg_cong [OF "1.prems", of "\<lambda>s. of_char (last s) :: nat"]
    by (simp add: last)
  then have md: "m mod 10 = n mod 10" by simp
  have bl: "(if m < 10 then [] else digits_of (m div 10)) =
      (if n < 10 then [] else digits_of (n div 10))"
    using arg_cong [OF "1.prems", of butlast] by (simp only: but)
  show ?case
  proof (cases "m < 10")
    case True
    with bl have "n < 10" by (metis digits_of_nonempty)
    with True md show ?thesis by simp
  next
    case False
    with bl have "\<not> n < 10" by (metis digits_of_nonempty)
    with False bl have "digits_of (m div 10) = digits_of (n div 10)" by simp
    with "1.IH" [OF False] have "m div 10 = n div 10" by blast
    with md show ?thesis by (metis div_mult_mod_eq)
  qed
qed

section \<open>Byte buffers\<close>

definition slice :: "nat \<Rightarrow> nat \<Rightarrow> 'a list \<Rightarrow> 'a list" where
  "slice off len xs = take len (drop off xs)"

lemma length_slice [simp]: "length (slice off len xs) = min len (length xs - off)"
  by (simp add: slice_def)

lemma slice_0_all [simp]: "slice 0 (length xs) xs = xs"
  by (simp add: slice_def)

lemma slice_append_skip [mem]: "length xs \<le> off \<Longrightarrow> slice off len (xs @ ys) = slice (off - length xs) len ys"
  by (simp add: slice_def)

lemma slice_append_hit [mem]: "off + len \<le> length xs \<Longrightarrow> slice off len (xs @ ys) = slice off len xs"
  by (simp add: slice_def)

lemma nth_slice [mem]: "i < len \<Longrightarrow> off + i < length xs \<Longrightarrow> slice off len xs ! i = xs ! (off + i)"
  by (simp add: slice_def)

lemma slice_slice:
  "a + b \<le> len \<Longrightarrow> slice a b (slice off len xs) = slice (off + a) b xs"
  by (simp add: slice_def drop_take add.commute)

text \<open>Little-endian integers of \<open>n\<close> bytes.\<close>

fun le_bytes :: "nat \<Rightarrow> nat \<Rightarrow> bytes" where
  "le_bytes 0 x = []"
| "le_bytes (Suc n) x = of_nat (x mod 256) # le_bytes n (x div 256)"

fun le_nat :: "bytes \<Rightarrow> nat" where
  "le_nat [] = 0"
| "le_nat (b # bs) = unat b + 256 * le_nat bs"

lemma length_le_bytes [simp]: "length (le_bytes n x) = n"
  by (induction n arbitrary: x) auto

lemma unat_byte_of_nat [simp]: "unat (of_nat (x mod 256) :: u8) = x mod 256"
  by (simp add: unsigned_of_nat take_bit_eq_mod)

lemma le_nat_le_bytes_mod: "le_nat (le_bytes n x) = x mod 256 ^ n"
proof (induction n arbitrary: x)
  case 0
  show ?case by simp
next
  case (Suc n)
  have "x mod 256 + 256 * (x div 256 mod 256 ^ n) = x mod (256 * 256 ^ n)"
    by (simp add: mod_mult2_eq)
  then show ?case using Suc.IH [of "x div 256"] by simp
qed

lemma le_nat_le_bytes [mem]: "x < 256 ^ n \<Longrightarrow> le_nat (le_bytes n x) = x"
  by (simp add: le_nat_le_bytes_mod)

lemma le_nat_bound: "le_nat bs < 256 ^ length bs"
proof (induction bs)
  case Nil
  show ?case by simp
next
  case (Cons b bs)
  from Cons have "256 * le_nat bs + 256 \<le> 256 * 256 ^ length bs" by simp
  with unat_bound8 [of b] show ?case by simp
qed

lemma le_bytes_le_nat: "le_bytes (length bs) (le_nat bs) = bs"
proof (induction bs)
  case Nil
  show ?case by simp
next
  case (Cons b bs)
  have "(unat b + 256 * le_nat bs) mod 256 = unat b"
    and "(unat b + 256 * le_nat bs) div 256 = le_nat bs"
    using unat_bound8 [of b] by simp_all
  with Cons show ?case by simp
qed

section \<open>Bits of a byte stream\<close>

text \<open>Bit \<open>p\<close> of a packed buffer: least significant bit first within each byte.\<close>

definition stream_bit :: "bytes \<Rightarrow> nat \<Rightarrow> bool" where
  "stream_bit bs p = bit (bs ! (p div 8)) (p mod 8)"

lemma stream_bit_append [bit_stream]:
  "p < 8 * length bs \<Longrightarrow> stream_bit (bs @ cs) p = stream_bit bs p"
  by (simp add: stream_bit_def nth_append less_mult_imp_div_less mult.commute)

lemma stream_bit_replicate0 [bit_stream]:
  "p < 8 * n \<Longrightarrow> \<not> stream_bit (replicate n 0) p"
  by (simp add: stream_bit_def less_mult_imp_div_less mult.commute)

text \<open>A low mask written \<open>(1u << n) - 1u\<close>.\<close>

lemma bit_low_mask:
  "bit (push_bit n 1 - 1 :: 'a::len word) j \<longleftrightarrow> j < n \<and> j < LENGTH('a)"
proof -
  have "push_bit n 1 - 1 = (mask n :: 'a word)"
    by (simp add: mask_eq_decr_exp push_bit_eq_mult)
  then show ?thesis by (simp only: bit_mask_iff) (auto simp: bit_mask_iff)
qed

lemma bit_low_mask_pow [bit_stream]:
  "bit (2 ^ n - 1 :: 'a::len word) j \<longleftrightarrow> j < n \<and> j < LENGTH('a)"
  using bit_low_mask [of n j, where 'a = 'a] by simp

lemma unat_and7 [simp]: "unat (x AND (7 :: 'a::len word)) = unat x mod 8" if "3 \<le> LENGTH('a)"
proof -
  have "(7 :: 'a word) = mask 3"
    by (simp add: mask_eq_exp_minus_1)
  then have "x AND 7 = take_bit 3 x"
    by (simp only: take_bit_eq_mask)
  then have "unat (x AND 7) = take_bit 3 (unat x)"
    using that by (simp only: unsigned_take_bit_eq)
  then show ?thesis by (simp add: take_bit_eq_mod)
qed

lemma word_eq_bitsI:
  "(\<And>j. j < LENGTH('a) \<Longrightarrow> bit v j = bit w j) \<Longrightarrow> v = (w :: 'a::len word)"
  by (rule bit_word_eqI) simp

section \<open>Lists updated by index\<close>

lemma map_nth_upt: "n \<le> length xs \<Longrightarrow> map ((!) xs) [0..<n] = take n xs"
  by (rule nth_equalityI) auto

lemma length_concat_uniform:
  "(\<And>xs. xs \<in> set xss \<Longrightarrow> length xs = n) \<Longrightarrow> length (concat xss) = length xss * n"
  by (induction xss) auto

lemma nth_concat_uniform:
  assumes "\<And>xs. xs \<in> set xss \<Longrightarrow> length xs = n" and "i < length xss" and "j < n"
  shows "concat xss ! (i * n + j) = xss ! i ! j"
  using assms
proof (induction xss arbitrary: i)
  case Nil
  then show ?case by simp
next
  case (Cons xs xss)
  from Cons.prems have n: "length xs = n" by simp
  show ?case
  proof (cases i)
    case 0
    then show ?thesis using Cons.prems n by (simp add: nth_append)
  next
    case (Suc k)
    then have "concat xss ! (k * n + j) = xss ! k ! j"
      using Cons by simp
    then show ?thesis using Suc n by (simp add: nth_append add.assoc)
  qed
qed

end
