(* ===== verification/Status_Model.thy ===== *)
theory Status_Model
  imports Prelude
begin

text \<open>
  \<open>vdb::Status\<close> and \<open>vdb::StatusOr\<close> (include/vdb/common/status.h).  A status is a pointer to a
  heap block, null for OK; the block is 4 bytes of message length (little endian), one byte of
  code, then the message.  \<open>status_state\<close> is that representation; \<open>error\<close> (code and message) is
  what the rest of the model carries, and \<open>status_rep\<close> relates the two.
\<close>

section \<open>Codes\<close>

datatype status_code =
    kOk | kInvalidArgument | kNotFound | kAlreadyExists | kIOError | kCorruption
  | kNotSupported | kOutOfMemory | kInternal | kCancelled | kTimeout

fun status_code_byte :: "status_code \<Rightarrow> nat" where
  "status_code_byte kOk = 0"
| "status_code_byte kInvalidArgument = 1"
| "status_code_byte kNotFound = 2"
| "status_code_byte kAlreadyExists = 3"
| "status_code_byte kIOError = 4"
| "status_code_byte kCorruption = 5"
| "status_code_byte kNotSupported = 6"
| "status_code_byte kOutOfMemory = 7"
| "status_code_byte kInternal = 8"
| "status_code_byte kCancelled = 9"
| "status_code_byte kTimeout = 10"

text \<open>\<open>static_cast<StatusCode>\<close> of a byte; \<open>None\<close> for a value that is no enumerator.\<close>

definition status_code_of_byte :: "nat \<Rightarrow> status_code option" where
  "status_code_of_byte b =
     (if b = 0 then Some kOk else if b = 1 then Some kInvalidArgument
      else if b = 2 then Some kNotFound else if b = 3 then Some kAlreadyExists
      else if b = 4 then Some kIOError else if b = 5 then Some kCorruption
      else if b = 6 then Some kNotSupported else if b = 7 then Some kOutOfMemory
      else if b = 8 then Some kInternal else if b = 9 then Some kCancelled
      else if b = 10 then Some kTimeout else None)"

fun status_code_name :: "status_code option \<Rightarrow> string" where
  "status_code_name (Some kOk) = ''OK''"
| "status_code_name (Some kInvalidArgument) = ''InvalidArgument''"
| "status_code_name (Some kNotFound) = ''NotFound''"
| "status_code_name (Some kAlreadyExists) = ''AlreadyExists''"
| "status_code_name (Some kIOError) = ''IOError''"
| "status_code_name (Some kCorruption) = ''Corruption''"
| "status_code_name (Some kNotSupported) = ''NotSupported''"
| "status_code_name (Some kOutOfMemory) = ''OutOfMemory''"
| "status_code_name (Some kInternal) = ''Internal''"
| "status_code_name (Some kCancelled) = ''Cancelled''"
| "status_code_name (Some kTimeout) = ''Timeout''"
| "status_code_name None = ''Unknown''"

lemma status_code_of_byte_inverse [simp]: "status_code_of_byte (status_code_byte c) = Some c"
  by (cases c) (simp_all add: status_code_of_byte_def)

lemma status_code_byte_bound: "status_code_byte c \<le> 10"
  by (cases c) simp_all

section \<open>The heap block\<close>

type_synonym status_state = "bytes option"

definition bytes_of_string :: "string \<Rightarrow> bytes" where
  "bytes_of_string s = map (\<lambda>c. of_nat (of_char c)) s"

definition string_of_bytes :: "bytes \<Rightarrow> string" where
  "string_of_bytes bs = map (\<lambda>b. char_of (unat b)) bs"

lemma string_of_bytes_of_string [simp]: "string_of_bytes (bytes_of_string s) = s"
proof -
  have "char_of (unat (of_nat (of_char c) :: u8)) = c" for c
    by (simp add: unsigned_of_nat take_bit_eq_mod)
  then show ?thesis
    by (simp add: string_of_bytes_def bytes_of_string_def comp_def)
qed

lemma length_bytes_of_string [simp]: "length (bytes_of_string s) = length s"
  by (simp add: bytes_of_string_def)

text \<open>The private constructor \<open>Status(StatusCode, string_view)\<close>; the length is cast to 32 bits
  and the block holds that many bytes of the message.  (For a length within 5 of \<open>2 ^ 32\<close> the
  block the code allocates is too small for what it writes; the theorems stay below.)\<close>

definition status_make :: "status_code \<Rightarrow> string \<Rightarrow> status_state" where
  "status_make code msg =
     (let len = wrap32 (length msg)
      in Some (le_bytes 4 len @ [of_nat (status_code_byte code)] @ take len (bytes_of_string msg)))"

definition status_ok :: "status_state \<Rightarrow> bool" where
  "status_ok st \<longleftrightarrow> st = None"

definition status_code_get :: "status_state \<Rightarrow> status_code option" where
  "status_code_get st =
     (case st of None \<Rightarrow> Some kOk | Some b \<Rightarrow> status_code_of_byte (unat (b ! 4)))"

definition status_message :: "status_state \<Rightarrow> string" where
  "status_message st =
     (case st of None \<Rightarrow> []
      | Some b \<Rightarrow> string_of_bytes (slice 5 (le_nat (slice 0 4 b)) b))"

text \<open>\<open>CopyState\<close>: a fresh block of \<open>length + 5\<close> bytes (a 32-bit sum) with the same bytes; the
  copy constructor keeps null.\<close>

definition status_copy :: "status_state \<Rightarrow> status_state" where
  "status_copy st =
     (case st of None \<Rightarrow> None
      | Some b \<Rightarrow> Some (take (wrap32 (le_nat (slice 0 4 b) + 5)) b))"

text \<open>The move constructor: the target takes the block, the source becomes OK.\<close>

definition status_move :: "status_state \<Rightarrow> status_state \<times> status_state" where
  "status_move st = (st, None)"

definition status_to_string :: "status_state \<Rightarrow> string" where
  "status_to_string st =
     (case st of None \<Rightarrow> ''OK''
      | Some b \<Rightarrow>
          (let msg = status_message st
           in if msg \<noteq> [] then status_code_name (status_code_get st) @ '': '' @ msg
              else status_code_name (status_code_get st)))"

section \<open>Statuses as error values\<close>

type_synonym error = "status_code \<times> string"

text \<open>\<open>Status\<close> as a function result: \<open>Inr ()\<close> is OK.  \<open>StatusOr<T>\<close>: a value or the error.\<close>

type_synonym status = "error + unit"
type_synonym 'a status_or = "error + 'a"

definition status_rep :: "error \<Rightarrow> status_state" where
  "status_rep e = status_make (fst e) (snd e)"

lemma slice_status_block:
  assumes "length lenb = 4"
  shows "slice 0 4 (lenb @ c # m) = lenb" and "(lenb @ c # m) ! 4 = c"
    and "slice 5 n (lenb @ c # m) = take n m"
  using assms by (simp_all add: slice_def nth_append)

lemma status_block:
  assumes "length msg < 4294967296"
  shows "status_make c msg =
    Some (le_bytes 4 (length msg) @ of_nat (status_code_byte c) # bytes_of_string msg)"
  using assms by (simp add: status_make_def Let_def)

lemma status_message_make:
  assumes "length msg < 4294967296"
  shows "status_message (status_make c msg) = msg"
  using assms
  by (simp add: status_block [OF assms] status_message_def slice_status_block
      le_nat_le_bytes_mod)

lemma status_code_make:
  assumes "length msg < 4294967296"
  shows "status_code_get (status_make c msg) = Some c"
proof -
  have "unat (of_nat (status_code_byte c) :: u8) = status_code_byte c"
    using status_code_byte_bound [of c]
    by (simp add: unsigned_of_nat take_bit_eq_mod)
  then show ?thesis
    by (simp add: status_block [OF assms] status_code_get_def slice_status_block)
qed

lemma status_copy_make:
  assumes "length msg < 4294967291"
  shows "status_copy (status_make c msg) = status_make c msg"
proof -
  have len: "length msg < 4294967296" using assms by simp
  show ?thesis
    using assms
    by (simp add: status_block [OF len] status_copy_def slice_status_block le_nat_le_bytes_mod)
qed

text \<open>An error status carries exactly its code and message through its heap block, survives
  copying, and is rendered as the code's name, then a colon and the message unless it is empty.\<close>

theorem status_roundtrip:
  assumes "length msg < 4294967291"
  shows "status_code_get (status_rep (c, msg)) = Some c
    \<and> status_message (status_rep (c, msg)) = msg
    \<and> status_copy (status_rep (c, msg)) = status_rep (c, msg)
    \<and> \<not> status_ok (status_rep (c, msg))
    \<and> status_to_string (status_rep (c, msg)) =
        status_code_name (Some c) @ (if msg = [] then [] else '': '' @ msg)"
proof -
  have len: "length msg < 4294967296" using assms by simp
  obtain b where "status_make c msg = Some b"
    using status_block [OF len] by blast
  then show ?thesis
    using status_message_make [OF len, of c] status_code_make [OF len, of c]
      status_copy_make [OF assms, of c]
    by (simp add: status_rep_def status_to_string_def status_ok_def Let_def)
qed

theorem status_roundtrip_witness:
  "status_message (status_rep (kIOError, ''pread failed'')) = ''pread failed''
   \<and> status_to_string (status_rep (kIOError, ''pread failed'')) = ''IOError: pread failed''"
  using status_roundtrip [of "''pread failed''" kIOError] by simp

end
