(* ===== verification/Common_Types.thy ===== *)
theory Common_Types
  imports Status_Model
begin

text \<open>
  The data types of include/vdb/common/types.h: column data types and cell values (\<open>Datum\<close>),
  locators and address entries, the result classes of the query pipeline.  A \<open>Datum\<close> holds its
  fixed-width value in a union of eight bytes; the model keeps those eight bytes.
\<close>

section \<open>Column data types\<close>

datatype dtype =
    INT8 | INT16 | INT32 | INT64 | UINT8 | UINT16 | UINT32 | UINT64
  | FLOAT16 | FLOAT32 | FLOAT64 | STRING | BYTES
  | VECTOR_FLOAT32 | VECTOR_FLOAT16 | VECTOR_INT8 | VECTOR_UINT8
  | BOOL | TIMESTAMP

fun DTypeSize :: "dtype \<Rightarrow> nat" where
  "DTypeSize INT8 = 1" | "DTypeSize UINT8 = 1" | "DTypeSize BOOL = 1"
| "DTypeSize INT16 = 2" | "DTypeSize UINT16 = 2" | "DTypeSize FLOAT16 = 2"
| "DTypeSize INT32 = 4" | "DTypeSize UINT32 = 4" | "DTypeSize FLOAT32 = 4"
| "DTypeSize INT64 = 8" | "DTypeSize UINT64 = 8" | "DTypeSize FLOAT64 = 8"
| "DTypeSize TIMESTAMP = 8"
| "DTypeSize STRING = 0" | "DTypeSize BYTES = 0"
| "DTypeSize VECTOR_FLOAT32 = 0" | "DTypeSize VECTOR_FLOAT16 = 0"
| "DTypeSize VECTOR_INT8 = 0" | "DTypeSize VECTOR_UINT8 = 0"

definition DTypeIsFixedWidth :: "dtype \<Rightarrow> bool" where
  "DTypeIsFixedWidth dt \<longleftrightarrow> 0 < DTypeSize dt"

definition DTypeIsVector :: "dtype \<Rightarrow> bool" where
  "DTypeIsVector dt \<longleftrightarrow>
     dt = VECTOR_FLOAT32 \<or> dt = VECTOR_FLOAT16 \<or> dt = VECTOR_INT8 \<or> dt = VECTOR_UINT8"

fun DTypeName :: "dtype \<Rightarrow> string" where
  "DTypeName INT8 = ''INT8''" | "DTypeName INT16 = ''INT16''"
| "DTypeName INT32 = ''INT32''" | "DTypeName INT64 = ''INT64''"
| "DTypeName UINT8 = ''UINT8''" | "DTypeName UINT16 = ''UINT16''"
| "DTypeName UINT32 = ''UINT32''" | "DTypeName UINT64 = ''UINT64''"
| "DTypeName FLOAT16 = ''FLOAT16''" | "DTypeName FLOAT32 = ''FLOAT32''"
| "DTypeName FLOAT64 = ''FLOAT64''" | "DTypeName STRING = ''STRING''"
| "DTypeName BYTES = ''BYTES''" | "DTypeName VECTOR_FLOAT32 = ''VECTOR_FLOAT32''"
| "DTypeName VECTOR_FLOAT16 = ''VECTOR_FLOAT16''" | "DTypeName VECTOR_INT8 = ''VECTOR_INT8''"
| "DTypeName VECTOR_UINT8 = ''VECTOR_UINT8''" | "DTypeName BOOL = ''BOOL''"
| "DTypeName TIMESTAMP = ''TIMESTAMP''"

lemma DTypeSize_cases: "DTypeSize dt \<in> {0, 1, 2, 4, 8}"
  by (cases dt) simp_all

lemma DTypeSize_le8: "DTypeSize dt \<le> 8"
  by (cases dt) simp_all

lemma DTypeIsVector_not_fixed: "DTypeIsVector dt \<Longrightarrow> \<not> DTypeIsFixedWidth dt"
  by (auto simp: DTypeIsVector_def DTypeIsFixedWidth_def)

section \<open>Schemas and cell values\<close>

record column_schema =
  cs_id :: nat
  cs_name :: string
  cs_dtype :: dtype
  cs_nullable :: bool

text \<open>\<open>Datum\<close>: \<open>fixed\<close> is the storage of the union, eight bytes.\<close>

record datum =
  d_dtype :: dtype
  d_fixed :: bytes
  d_var :: bytes

definition datum_default :: datum where
  "datum_default = \<lparr>d_dtype = INT64, d_fixed = replicate 8 0, d_var = []\<rparr>"

text \<open>Writing a union member of \<open>length bs\<close> bytes.\<close>

definition union_write :: "bytes \<Rightarrow> bytes \<Rightarrow> bytes" where
  "union_write u bs = bs @ drop (length bs) u"

definition Datum_Int64 :: "u64 \<Rightarrow> datum" where
  "Datum_Int64 v = datum_default\<lparr>d_dtype := INT64,
     d_fixed := union_write (d_fixed datum_default) (le_bytes 8 (unat v))\<rparr>"

definition Datum_UInt64 :: "u64 \<Rightarrow> datum" where
  "Datum_UInt64 v = datum_default\<lparr>d_dtype := UINT64,
     d_fixed := union_write (d_fixed datum_default) (le_bytes 8 (unat v))\<rparr>"

definition Datum_Int32 :: "u32 \<Rightarrow> datum" where
  "Datum_Int32 v = datum_default\<lparr>d_dtype := INT32,
     d_fixed := union_write (d_fixed datum_default) (le_bytes 4 (unat v))\<rparr>"

definition Datum_UInt32 :: "u32 \<Rightarrow> datum" where
  "Datum_UInt32 v = datum_default\<lparr>d_dtype := UINT32,
     d_fixed := union_write (d_fixed datum_default) (le_bytes 4 (unat v))\<rparr>"

definition Datum_Float32 :: "u32 \<Rightarrow> datum" where
  "Datum_Float32 v = datum_default\<lparr>d_dtype := FLOAT32,
     d_fixed := union_write (d_fixed datum_default) (le_bytes 4 (unat v))\<rparr>"

definition Datum_Float64 :: "u64 \<Rightarrow> datum" where
  "Datum_Float64 v = datum_default\<lparr>d_dtype := FLOAT64,
     d_fixed := union_write (d_fixed datum_default) (le_bytes 8 (unat v))\<rparr>"

definition Datum_Bool :: "bool \<Rightarrow> datum" where
  "Datum_Bool v = datum_default\<lparr>d_dtype := BOOL,
     d_fixed := union_write (d_fixed datum_default) [if v then 1 else 0]\<rparr>"

definition Datum_Timestamp :: "u64 \<Rightarrow> datum" where
  "Datum_Timestamp v = datum_default\<lparr>d_dtype := TIMESTAMP,
     d_fixed := union_write (d_fixed datum_default) (le_bytes 8 (unat v))\<rparr>"

definition Datum_String :: "bytes \<Rightarrow> datum" where
  "Datum_String v = datum_default\<lparr>d_dtype := STRING, d_var := v\<rparr>"

definition Datum_Bytes :: "bytes \<Rightarrow> datum" where
  "Datum_Bytes v = datum_default\<lparr>d_dtype := BYTES, d_var := v\<rparr>"

definition datum_byte_size :: "datum \<Rightarrow> nat" where
  "datum_byte_size d =
     (if DTypeIsFixedWidth (d_dtype d) then DTypeSize (d_dtype d) else length (d_var d))"

text \<open>\<open>data()\<close> with \<open>byte_size()\<close>: the bytes that serialise the value.\<close>

definition datum_bytes :: "datum \<Rightarrow> bytes" where
  "datum_bytes d =
     (if DTypeIsFixedWidth (d_dtype d) then take (datum_byte_size d) (d_fixed d) else d_var d)"

text \<open>Every \<open>Datum\<close> the code builds has a union of eight bytes; the bytes a value of the type
  does not use are zero, and a fixed-width value has no variable part.\<close>

definition datum_wf :: "datum \<Rightarrow> bool" where
  "datum_wf d \<longleftrightarrow> length (d_fixed d) = 8
     \<and> drop (DTypeSize (d_dtype d)) (d_fixed d) = replicate (8 - DTypeSize (d_dtype d)) 0
     \<and> (DTypeIsFixedWidth (d_dtype d) \<longrightarrow> d_var d = [])"

lemma length_union_write [simp]: "length (union_write u bs) = max (length bs) (length u)"
  by (simp add: union_write_def)

lemmas datum_factory_defs =
  Datum_Int64_def Datum_UInt64_def Datum_Int32_def Datum_UInt32_def Datum_Float32_def
  Datum_Float64_def Datum_Bool_def Datum_Timestamp_def Datum_String_def Datum_Bytes_def

lemma datum_default_wf: "datum_wf datum_default"
  by (simp add: datum_wf_def datum_default_def)

lemma datum_factories_wf:
  "datum_wf (Datum_Int64 v)" "datum_wf (Datum_UInt64 v)" "datum_wf (Datum_Int32 w)"
  "datum_wf (Datum_UInt32 w)" "datum_wf (Datum_Float32 w)" "datum_wf (Datum_Float64 v)"
  "datum_wf (Datum_Bool b)" "datum_wf (Datum_Timestamp v)" "datum_wf (Datum_String s)"
  "datum_wf (Datum_Bytes s)"
  by (simp_all add: datum_factory_defs datum_wf_def datum_default_def union_write_def
      DTypeIsFixedWidth_def)

lemma length_datum_bytes:
  "length (d_fixed d) = 8 \<Longrightarrow> length (datum_bytes d) = datum_byte_size d"
  using DTypeSize_le8 [of "d_dtype d"] by (simp add: datum_bytes_def datum_byte_size_def)

text \<open>A well-formed fixed-width value is determined by its serialised bytes.\<close>

lemma datum_wf_fixed_eq:
  assumes "datum_wf d" and "DTypeIsFixedWidth (d_dtype d)"
  shows "d = \<lparr>d_dtype = d_dtype d, d_fixed = union_write (replicate 8 0) (datum_bytes d), d_var = []\<rparr>"
proof -
  have "d_fixed d = take (DTypeSize (d_dtype d)) (d_fixed d) @ replicate (8 - DTypeSize (d_dtype d)) 0"
    using assms append_take_drop_id [of "DTypeSize (d_dtype d)" "d_fixed d"]
    by (simp add: datum_wf_def)
  moreover have "length (d_fixed d) = 8" and "d_var d = []"
    using assms by (simp_all add: datum_wf_def)
  ultimately show ?thesis
    using assms(2) DTypeSize_le8 [of "d_dtype d"]
    by (cases d) (simp add: datum_bytes_def datum_byte_size_def union_write_def)
qed

section \<open>Locators and addresses\<close>

datatype payload_mode = kInline | kExtern

fun PayloadModeName :: "payload_mode \<Rightarrow> string" where
  "PayloadModeName kInline = ''Inline''"
| "PayloadModeName kExtern = ''Extern''"

record extern_ref =
  er_file_id :: nat
  er_offset :: nat
  er_length :: nat

record record_locator =
  rl_offset :: nat
  rl_length :: nat
  rl_mode :: payload_mode

record column_locator =
  cl_chunk_id :: nat
  cl_data_offset :: nat
  cl_data_length :: nat
  cl_offset_table_pos :: nat

text \<open>\<open>AddressEntry\<close>: 64-bit offset and 32-bit size of a record in the data file.\<close>

record address_entry =
  ae_offset :: u64
  ae_size :: u32

section \<open>Result classes and read tasks\<close>

datatype result_class = SafeIn | SafeOut | Uncertain

fun ResultClassName :: "result_class \<Rightarrow> string" where
  "ResultClassName SafeIn = ''SafeIn''"
| "ResultClassName SafeOut = ''SafeOut''"
| "ResultClassName Uncertain = ''Uncertain''"

datatype read_task_type = VEC_ONLY | READ_ALL | PAYLOAD

fun ReadTaskTypeName :: "read_task_type \<Rightarrow> string" where
  "ReadTaskTypeName VEC_ONLY = ''VEC_ONLY''"
| "ReadTaskTypeName READ_ALL = ''ALL''"
| "ReadTaskTypeName PAYLOAD = ''PAYLOAD''"

datatype metric_type = L2 | InnerProduct | COSINE

fun MetricTypeName :: "metric_type \<Rightarrow> string" where
  "MetricTypeName L2 = ''L2''"
| "MetricTypeName InnerProduct = ''InnerProduct''"
| "MetricTypeName COSINE = ''COSINE''"

definition kDefaultPageSize :: nat where
  "kDefaultPageSize = 4096"

end
