(* ===== verification/Float_Order.thy ===== *)
theory Float_Order
  imports Prelude
begin

text \<open>
  Comparison of \<open>float\<close> values.  A \<open>float\<close> is its 32-bit IEEE 754 pattern; the comparison
  operators of C++ are false as soon as an operand is a NaN, and otherwise compare signed
  magnitudes (so \<open>-0.0f == 0.0f\<close>).  No arithmetic on floats is modelled here.
\<close>

type_synonym f32 = u32

section \<open>Patterns\<close>

definition f32_mag :: "f32 \<Rightarrow> nat" where
  "f32_mag w = unat w mod 2147483648"

definition f32_neg :: "f32 \<Rightarrow> bool" where
  "f32_neg w \<longleftrightarrow> 2147483648 \<le> unat w"

definition f32_is_nan :: "f32 \<Rightarrow> bool" where
  "f32_is_nan w \<longleftrightarrow> 2139095040 < f32_mag w"

definition f32_key :: "f32 \<Rightarrow> int" where
  "f32_key w = (if f32_neg w then - int (f32_mag w) else int (f32_mag w))"

text \<open>\<open>std::numeric_limits<float>::max()\<close> and \<open>infinity()\<close>.\<close>

definition f32_max :: f32 where
  "f32_max = 0x7F7FFFFF"

definition f32_inf :: f32 where
  "f32_inf = 0x7F800000"

section \<open>Operators\<close>

definition f32_lt :: "f32 \<Rightarrow> f32 \<Rightarrow> bool" where
  "f32_lt a b \<longleftrightarrow> \<not> f32_is_nan a \<and> \<not> f32_is_nan b \<and> f32_key a < f32_key b"

definition f32_le :: "f32 \<Rightarrow> f32 \<Rightarrow> bool" where
  "f32_le a b \<longleftrightarrow> \<not> f32_is_nan a \<and> \<not> f32_is_nan b \<and> f32_key a \<le> f32_key b"

definition f32_gt :: "f32 \<Rightarrow> f32 \<Rightarrow> bool" where
  "f32_gt a b \<longleftrightarrow> f32_lt b a"

definition f32_ge :: "f32 \<Rightarrow> f32 \<Rightarrow> bool" where
  "f32_ge a b \<longleftrightarrow> f32_le b a"

definition f32_eq :: "f32 \<Rightarrow> f32 \<Rightarrow> bool" where
  "f32_eq a b \<longleftrightarrow> \<not> f32_is_nan a \<and> \<not> f32_is_nan b \<and> f32_key a = f32_key b"

lemma f32_lt_irrefl [simp]: "\<not> f32_lt a a"
  by (simp add: f32_lt_def)

lemma f32_lt_trans: "f32_lt a b \<Longrightarrow> f32_lt b c \<Longrightarrow> f32_lt a c"
  by (auto simp: f32_lt_def)

lemma f32_lt_asym: "f32_lt a b \<Longrightarrow> \<not> f32_lt b a"
  by (auto simp: f32_lt_def)

text \<open>On operands that are no NaN the operators are those of the integer keys; this is the
  fact every client uses.\<close>

lemma f32_key_compare:
  assumes "\<not> f32_is_nan a" and "\<not> f32_is_nan b"
  shows "f32_lt a b \<longleftrightarrow> f32_key a < f32_key b" and "f32_le a b \<longleftrightarrow> f32_key a \<le> f32_key b"
    and "f32_eq a b \<longleftrightarrow> f32_key a = f32_key b"
  using assms by (simp_all add: f32_lt_def f32_le_def f32_eq_def)

lemma f32_nan_unordered:
  assumes "f32_is_nan a"
  shows "\<not> f32_lt a b" and "\<not> f32_lt b a" and "\<not> f32_le a b" and "\<not> f32_eq a b"
  using assms by (simp_all add: f32_lt_def f32_le_def f32_eq_def)

lemma f32_max_not_nan [simp]: "\<not> f32_is_nan f32_max" "\<not> f32_is_nan f32_inf"
  by (simp_all add: f32_max_def f32_inf_def f32_is_nan_def f32_mag_def)

lemma f32_key_inf: "f32_key f32_inf = 2139095040" "f32_key f32_max = 2139095039"
  by (simp_all add: f32_key_def f32_neg_def f32_inf_def f32_max_def f32_mag_def)

lemma f32_key_le_mag: "f32_key a \<le> int (f32_mag a)"
  by (simp add: f32_key_def)

lemma f32_key_le_inf: "\<not> f32_is_nan a \<Longrightarrow> f32_key a \<le> f32_key f32_inf"
  using f32_key_le_mag [of a] by (simp add: f32_is_nan_def f32_key_inf)

end
