(* ===== verification/Rabitq_Config.thy ===== *)
theory Rabitq_Config
  imports Common_Types Float_Order
begin

text \<open>
  The RaBitQ configuration of include/vdb/common/types.h: the estimator modes, the sixteen
  layouts of the stage-2 payload (ExData), their names and byte codes as written to disk, and
  the predicates of \<open>RaBitQConfig\<close> that decide which combinations are meaningful.
\<close>

section \<open>Estimator modes\<close>

datatype estimator_mode = kLegacySignedMagnitude | kOfficial1PlusN

fun estimator_mode_code :: "estimator_mode \<Rightarrow> nat" where
  "estimator_mode_code kLegacySignedMagnitude = 0"
| "estimator_mode_code kOfficial1PlusN = 1"

fun RaBitQEstimatorModeName :: "estimator_mode \<Rightarrow> string" where
  "RaBitQEstimatorModeName kOfficial1PlusN = ''official_1_plus_n''"
| "RaBitQEstimatorModeName kLegacySignedMagnitude = ''legacy_signed_magnitude''"

text \<open>The parsers return whether they accepted the text and store through a pointer only then:
  \<open>None\<close> is rejection.\<close>

definition ParseRaBitQEstimatorMode :: "string \<Rightarrow> estimator_mode option" where
  "ParseRaBitQEstimatorMode value =
     (if value = ''legacy'' \<or> value = ''legacy_signed_magnitude'' then Some kLegacySignedMagnitude
      else if value = ''official'' \<or> value = ''official_1_plus_n'' then Some kOfficial1PlusN
      else None)"

definition RaBitQEstimatorModeFromByte :: "nat \<Rightarrow> estimator_mode" where
  "RaBitQEstimatorModeFromByte mode =
     (if mode = estimator_mode_code kOfficial1PlusN then kOfficial1PlusN
      else kLegacySignedMagnitude)"

section \<open>ExData layouts\<close>

datatype ex_layout =
    kGenericPacked | kSplit3TwoPlusOne | kSplit3Bitplanes | kSelectedDirect
  | kSplit1Bitplane | kSplit2Bitplanes | kSplit3TrimmedBitplanes | kSplit3ZeroPlaneElide
  | kVectorBitplanes | kVectorBitplanesPrefetch | kVectorNibble4 | kVector2Bit
  | kSmallLane4Bitplanes | kSmallLane2Bitplanes | kVectorBitplanesMicroBatch
  | kVectorBitMajorTiles

fun ex_layout_code :: "ex_layout \<Rightarrow> nat" where
  "ex_layout_code kGenericPacked = 0"
| "ex_layout_code kSplit3TwoPlusOne = 1"
| "ex_layout_code kSplit3Bitplanes = 2"
| "ex_layout_code kSelectedDirect = 3"
| "ex_layout_code kSplit1Bitplane = 4"
| "ex_layout_code kSplit2Bitplanes = 5"
| "ex_layout_code kSplit3TrimmedBitplanes = 6"
| "ex_layout_code kSplit3ZeroPlaneElide = 7"
| "ex_layout_code kVectorBitplanes = 8"
| "ex_layout_code kVectorBitplanesPrefetch = 9"
| "ex_layout_code kVectorNibble4 = 10"
| "ex_layout_code kVector2Bit = 11"
| "ex_layout_code kSmallLane4Bitplanes = 12"
| "ex_layout_code kSmallLane2Bitplanes = 13"
| "ex_layout_code kVectorBitplanesMicroBatch = 14"
| "ex_layout_code kVectorBitMajorTiles = 15"

fun RaBitQExDataLayoutName :: "ex_layout \<Rightarrow> string" where
  "RaBitQExDataLayoutName kSplit3TwoPlusOne = ''split3_2plus1''"
| "RaBitQExDataLayoutName kSplit3Bitplanes = ''split3_bitplanes''"
| "RaBitQExDataLayoutName kSplit1Bitplane = ''split1_bitplane''"
| "RaBitQExDataLayoutName kSplit2Bitplanes = ''split2_bitplanes''"
| "RaBitQExDataLayoutName kSplit3TrimmedBitplanes = ''split3_trimmed_bitplanes''"
| "RaBitQExDataLayoutName kSplit3ZeroPlaneElide = ''split3_zero_plane_elide''"
| "RaBitQExDataLayoutName kVectorBitplanes = ''vector_bitplanes''"
| "RaBitQExDataLayoutName kVectorBitplanesPrefetch = ''vector_bitplanes_prefetch''"
| "RaBitQExDataLayoutName kVectorBitplanesMicroBatch = ''vector_bitplanes_microbatch''"
| "RaBitQExDataLayoutName kVectorBitMajorTiles = ''vector_bitmajor_tiles''"
| "RaBitQExDataLayoutName kVectorNibble4 = ''vector_nibble4''"
| "RaBitQExDataLayoutName kVector2Bit = ''vector_2bit''"
| "RaBitQExDataLayoutName kSmallLane4Bitplanes = ''small_lane4_bitplanes''"
| "RaBitQExDataLayoutName kSmallLane2Bitplanes = ''small_lane2_bitplanes''"
| "RaBitQExDataLayoutName kSelectedDirect = ''selected_direct''"
| "RaBitQExDataLayoutName kGenericPacked = ''generic_packed''"

text \<open>The accepted spellings, one list per \<open>if\<close> of the source and in its order.\<close>

definition ex_layout_spellings :: "(string list \<times> ex_layout) list" where
  "ex_layout_spellings =
    [([[], ''generic'', ''generic_packed''], kGenericPacked),
     ([''split3_2plus1'', ''2plus1'', ''two_plus_one''], kSplit3TwoPlusOne),
     ([''split3_bitplanes'', ''bitplanes'', ''bitplanes3'', ''1plus1plus1''], kSplit3Bitplanes),
     ([''split2_bitplanes'', ''bitplanes2'', ''1plus1''], kSplit2Bitplanes),
     ([''split1_bitplane'', ''split1_bitplanes'', ''bitplane1'', ''bitplanes1''],
      kSplit1Bitplane),
     ([''split3_trimmed_bitplanes'', ''trimmed_bitplanes'', ''trim_valid_lanes''],
      kSplit3TrimmedBitplanes),
     ([''split3_zero_plane_elide'', ''zero_plane_elide'', ''zero_elide''],
      kSplit3ZeroPlaneElide),
     ([''vector_bitplanes'', ''per_vector_bitplanes'', ''vector_compact'',
       ''lane_major_bitplanes''], kVectorBitplanes),
     ([''vector_bitplanes_prefetch'', ''per_vector_bitplanes_prefetch'',
       ''vector_compact_prefetch'', ''lane_major_bitplanes_prefetch''],
      kVectorBitplanesPrefetch),
     ([''vector_bitplanes_microbatch'', ''per_vector_bitplanes_microbatch'',
       ''vector_compact_microbatch'', ''lane_major_bitplanes_microbatch'',
       ''vector_microbatch''], kVectorBitplanesMicroBatch),
     ([''vector_bitmajor_tiles'', ''bitmajor_tiles'', ''vector_bitplane_tiles'',
       ''cacheline_bitplanes'', ''cacheline_tiles''], kVectorBitMajorTiles),
     ([''vector_nibble4'', ''per_vector_nibble4'', ''vector_4bit_nibble'',
       ''official_4bit_nibble''], kVectorNibble4),
     ([''vector_2bit'', ''per_vector_2bit'', ''vector_twobit'', ''official_2bit''],
      kVector2Bit),
     ([''small_lane4_bitplanes'', ''small_lane4'', ''lane4_bitplanes'', ''batch4_bitplanes''],
      kSmallLane4Bitplanes),
     ([''small_lane2_bitplanes'', ''small_lane2'', ''lane2_bitplanes'', ''batch2_bitplanes''],
      kSmallLane2Bitplanes),
     ([''selected'', ''selected_direct''], kSelectedDirect)]"

fun parse_first :: "(string list \<times> ex_layout) list \<Rightarrow> string \<Rightarrow> ex_layout option" where
  "parse_first [] value = None"
| "parse_first ((names, l) # rest) value =
     (if value \<in> set names then Some l else parse_first rest value)"

definition ParseRaBitQExDataLayout :: "string \<Rightarrow> ex_layout option" where
  "ParseRaBitQExDataLayout value = parse_first ex_layout_spellings value"

definition RaBitQExDataLayoutFromByte :: "nat \<Rightarrow> ex_layout" where
  "RaBitQExDataLayoutFromByte b =
     (if b = ex_layout_code kSplit3TwoPlusOne then kSplit3TwoPlusOne
      else if b = ex_layout_code kSplit3Bitplanes then kSplit3Bitplanes
      else if b = ex_layout_code kSelectedDirect then kSelectedDirect
      else if b = ex_layout_code kSplit1Bitplane then kSplit1Bitplane
      else if b = ex_layout_code kSplit2Bitplanes then kSplit2Bitplanes
      else if b = ex_layout_code kSplit3TrimmedBitplanes then kSplit3TrimmedBitplanes
      else if b = ex_layout_code kSplit3ZeroPlaneElide then kSplit3ZeroPlaneElide
      else if b = ex_layout_code kVectorBitplanes then kVectorBitplanes
      else if b = ex_layout_code kVectorBitplanesPrefetch then kVectorBitplanesPrefetch
      else if b = ex_layout_code kVectorBitplanesMicroBatch then kVectorBitplanesMicroBatch
      else if b = ex_layout_code kVectorBitMajorTiles then kVectorBitMajorTiles
      else if b = ex_layout_code kVectorNibble4 then kVectorNibble4
      else if b = ex_layout_code kVector2Bit then kVector2Bit
      else if b = ex_layout_code kSmallLane4Bitplanes then kSmallLane4Bitplanes
      else if b = ex_layout_code kSmallLane2Bitplanes then kSmallLane2Bitplanes
      else kGenericPacked)"

definition RaBitQExDataLayoutByteValid :: "nat \<Rightarrow> bool" where
  "RaBitQExDataLayoutByteValid b \<longleftrightarrow>
     b = ex_layout_code kGenericPacked \<or> b = ex_layout_code kSplit3TwoPlusOne \<or>
     b = ex_layout_code kSplit3Bitplanes \<or> b = ex_layout_code kSelectedDirect \<or>
     b = ex_layout_code kSplit1Bitplane \<or> b = ex_layout_code kSplit2Bitplanes \<or>
     b = ex_layout_code kSplit3TrimmedBitplanes \<or> b = ex_layout_code kSplit3ZeroPlaneElide \<or>
     b = ex_layout_code kVectorBitplanes \<or> b = ex_layout_code kVectorBitplanesPrefetch \<or>
     b = ex_layout_code kVectorBitplanesMicroBatch \<or> b = ex_layout_code kVectorBitMajorTiles \<or>
     b = ex_layout_code kVectorNibble4 \<or> b = ex_layout_code kVector2Bit \<or>
     b = ex_layout_code kSmallLane4Bitplanes \<or> b = ex_layout_code kSmallLane2Bitplanes"

definition RaBitQResolveSelectedExDataLayoutForBits :: "ex_layout \<Rightarrow> nat \<Rightarrow> ex_layout" where
  "RaBitQResolveSelectedExDataLayoutForBits layout ex_bits =
     (if layout \<noteq> kSelectedDirect then layout
      else if 1 \<le> ex_bits \<and> ex_bits \<le> 3 then kVectorBitMajorTiles
      else if ex_bits = 4 then kVectorNibble4
      else kSelectedDirect)"

definition RaBitQResolveSelectedExDataLayout :: "ex_layout \<Rightarrow> ex_layout" where
  "RaBitQResolveSelectedExDataLayout layout =
     RaBitQResolveSelectedExDataLayoutForBits layout 3"

definition RaBitQDefaultOfficialExDataLayoutForBits :: "nat \<Rightarrow> ex_layout" where
  "RaBitQDefaultOfficialExDataLayoutForBits ex_bits =
     (if 1 \<le> ex_bits \<and> ex_bits \<le> 3 then kVectorBitMajorTiles
      else if ex_bits = 4 then kVectorNibble4
      else kGenericPacked)"

definition RaBitQExDataLayoutDirectBits :: "ex_layout \<Rightarrow> nat" where
  "RaBitQExDataLayoutDirectBits layout =
     (case RaBitQResolveSelectedExDataLayout layout of
        kSplit1Bitplane \<Rightarrow> 1
      | kSplit2Bitplanes \<Rightarrow> 2
      | kSplit3TwoPlusOne \<Rightarrow> 3 | kSplit3Bitplanes \<Rightarrow> 3
      | kSplit3TrimmedBitplanes \<Rightarrow> 3 | kSplit3ZeroPlaneElide \<Rightarrow> 3
      | kVectorBitplanes \<Rightarrow> 0 | kVectorBitplanesPrefetch \<Rightarrow> 0
      | kVectorBitplanesMicroBatch \<Rightarrow> 0 | kVectorBitMajorTiles \<Rightarrow> 0
      | kSmallLane4Bitplanes \<Rightarrow> 0 | kSmallLane2Bitplanes \<Rightarrow> 0
      | kVectorNibble4 \<Rightarrow> 4
      | kVector2Bit \<Rightarrow> 2
      | kGenericPacked \<Rightarrow> 0 | kSelectedDirect \<Rightarrow> 0)"

definition RaBitQExDataLayoutIsDirect :: "ex_layout \<Rightarrow> bool" where
  "RaBitQExDataLayoutIsDirect layout \<longleftrightarrow>
     (let resolved = RaBitQResolveSelectedExDataLayout layout
      in resolved = kSplit3TwoPlusOne \<or> resolved = kSplit3Bitplanes \<or>
         resolved = kSplit1Bitplane \<or> resolved = kSplit2Bitplanes \<or>
         resolved = kSplit3TrimmedBitplanes \<or> resolved = kSplit3ZeroPlaneElide \<or>
         resolved = kVectorBitplanes \<or> resolved = kVectorBitplanesPrefetch \<or>
         resolved = kVectorBitplanesMicroBatch \<or> resolved = kVectorBitMajorTiles \<or>
         resolved = kVectorNibble4 \<or> resolved = kVector2Bit \<or>
         resolved = kSmallLane4Bitplanes \<or> resolved = kSmallLane2Bitplanes)"

section \<open>\<open>RaBitQConfig\<close>\<close>

record rabitq_config =
  rc_bits :: nat
  rc_block_size :: nat
  rc_c_factor :: f32
  rc_storage_version :: nat
  rc_total_bits :: nat
  rc_ex_bits :: nat
  rc_mode :: estimator_mode
  rc_layout :: ex_layout

definition rabitq_config_default :: rabitq_config where
  "rabitq_config_default =
     \<lparr>rc_bits = 1, rc_block_size = 64, rc_c_factor = 0x40B80000, rc_storage_version = 7,
      rc_total_bits = 1, rc_ex_bits = 0, rc_mode = kLegacySignedMagnitude,
      rc_layout = kGenericPacked\<rparr>"

definition uses_official_1_plus_n :: "rabitq_config \<Rightarrow> bool" where
  "uses_official_1_plus_n c \<longleftrightarrow> rc_mode c = kOfficial1PlusN"

definition effective_total_bits :: "rabitq_config \<Rightarrow> nat" where
  "effective_total_bits c = (if uses_official_1_plus_n c then rc_total_bits c else rc_bits c)"

definition stage2_payload_bits :: "rabitq_config \<Rightarrow> nat" where
  "stage2_payload_bits c =
     (if uses_official_1_plus_n c then rc_ex_bits c else if 1 < rc_bits c then rc_bits c else 0)"

definition active_code_bits :: "rabitq_config \<Rightarrow> nat" where
  "active_code_bits c =
     (let payload_bits = stage2_payload_bits c in if 0 < payload_bits then payload_bits else 1)"

definition has_stage2_payload :: "rabitq_config \<Rightarrow> bool" where
  "has_stage2_payload c \<longleftrightarrow> 0 < stage2_payload_bits c"

definition official_bits_valid :: "rabitq_config \<Rightarrow> bool" where
  "official_bits_valid c \<longleftrightarrow>
     \<not> uses_official_1_plus_n c \<or> rc_total_bits c = wrap8 (rc_ex_bits c + 1)"

definition effective_exdata_layout :: "rabitq_config \<Rightarrow> ex_layout" where
  "effective_exdata_layout c =
     (if uses_official_1_plus_n c
      then RaBitQResolveSelectedExDataLayoutForBits (rc_layout c) (rc_ex_bits c)
      else kGenericPacked)"

definition exdata_layout_valid :: "rabitq_config \<Rightarrow> bool" where
  "exdata_layout_valid c =
     (if \<not> uses_official_1_plus_n c then rc_layout c = kGenericPacked
      else let effective = effective_exdata_layout c in
        if effective = kGenericPacked then True
        else if effective = kSplit3TwoPlusOne then rc_ex_bits c = 3
        else if effective = kVectorBitplanes \<or> effective = kVectorBitplanesPrefetch \<or>
                effective = kVectorBitplanesMicroBatch \<or> effective = kSmallLane4Bitplanes \<or>
                effective = kSmallLane2Bitplanes
        then 1 \<le> rc_ex_bits c \<and> rc_ex_bits c \<le> 4
        else if effective = kVectorBitMajorTiles
        then 1 \<le> rc_ex_bits c \<and> rc_ex_bits c \<le> 3
        else let direct_bits = RaBitQExDataLayoutDirectBits effective
             in direct_bits \<noteq> 0 \<and> direct_bits = rc_ex_bits c)"

definition rabitq_config_eq :: "rabitq_config \<Rightarrow> rabitq_config \<Rightarrow> bool" where
  "rabitq_config_eq a b \<longleftrightarrow>
     rc_bits a = rc_bits b \<and> rc_block_size a = rc_block_size b \<and>
     f32_eq (rc_c_factor a) (rc_c_factor b) \<and>
     rc_storage_version a = rc_storage_version b \<and> rc_total_bits a = rc_total_bits b \<and>
     rc_ex_bits a = rc_ex_bits b \<and> rc_mode a = rc_mode b \<and> rc_layout a = rc_layout b"

definition RaBitQFormatKey :: "rabitq_config \<Rightarrow> string" where
  "RaBitQFormatKey c =
     (if uses_official_1_plus_n c then
        (let key = ''official_1_plus_n_total'' @ digits_of (effective_total_bits c) @
                   ''_ex'' @ digits_of (stage2_payload_bits c);
             layout = effective_exdata_layout c
         in if RaBitQExDataLayoutIsDirect layout
            then key @ ''_'' @ RaBitQExDataLayoutName layout
            else if rc_layout c = kSelectedDirect then key @ ''_selected_direct''
            else key)
      else ''legacy_signed_magnitude_bits'' @ digits_of (effective_total_bits c))"

section \<open>Names and byte codes\<close>

lemma ex_layout_code_inject [simp]: "ex_layout_code l = ex_layout_code m \<longleftrightarrow> l = m"
  by (cases l; cases m) simp_all

lemma ex_layout_from_code [simp]: "RaBitQExDataLayoutFromByte (ex_layout_code l) = l"
  by (cases l) (simp_all add: RaBitQExDataLayoutFromByte_def)

lemma ex_layout_parse_name: "ParseRaBitQExDataLayout (RaBitQExDataLayoutName l) = Some l"
  by (cases l) (simp_all add: ParseRaBitQExDataLayout_def ex_layout_spellings_def)

lemma ex_layout_byte_valid_iff: "RaBitQExDataLayoutByteValid b \<longleftrightarrow> b < 16"
  by (simp add: RaBitQExDataLayoutByteValid_def) arith

lemma ex_layout_byte_valid_code: "RaBitQExDataLayoutByteValid b \<longleftrightarrow> (\<exists>l. b = ex_layout_code l)"
proof
  show "RaBitQExDataLayoutByteValid b \<Longrightarrow> \<exists>l. b = ex_layout_code l"
    unfolding RaBitQExDataLayoutByteValid_def by blast
  show "\<exists>l. b = ex_layout_code l \<Longrightarrow> RaBitQExDataLayoutByteValid b"
  proof (elim exE)
    fix l assume "b = ex_layout_code l"
    then show "RaBitQExDataLayoutByteValid b"
      by (cases l) (simp_all add: ex_layout_byte_valid_iff)
  qed
qed

lemma ex_layout_spellings_distinct: "distinct (concat (map fst ex_layout_spellings))"
  by (simp add: ex_layout_spellings_def)

text \<open>For every ExData layout the name parses back to it and the stored byte decodes back to
  it; a byte is accepted as valid exactly when it is some layout's code, and any other byte
  decodes to the generic layout.\<close>

theorem ex_layout_name_byte_roundtrip:
  "ParseRaBitQExDataLayout (RaBitQExDataLayoutName l) = Some l
   \<and> RaBitQExDataLayoutFromByte (ex_layout_code l) = l
   \<and> (RaBitQExDataLayoutByteValid b \<longleftrightarrow> b = ex_layout_code (RaBitQExDataLayoutFromByte b))
   \<and> (\<not> RaBitQExDataLayoutByteValid b \<longleftrightarrow> RaBitQExDataLayoutFromByte b = kGenericPacked \<and> b \<noteq> 0)"
proof -
  have "RaBitQExDataLayoutByteValid b \<longleftrightarrow> b = ex_layout_code (RaBitQExDataLayoutFromByte b)"
    using ex_layout_byte_valid_code [of b] by auto
  moreover have "\<not> RaBitQExDataLayoutByteValid b \<longleftrightarrow>
      RaBitQExDataLayoutFromByte b = kGenericPacked \<and> b \<noteq> 0"
    by (auto simp: RaBitQExDataLayoutByteValid_def RaBitQExDataLayoutFromByte_def)
  ultimately show ?thesis by (simp add: ex_layout_parse_name)
qed

section \<open>Which configurations are valid\<close>

lemma resolve_for_bits_cases:
  "RaBitQResolveSelectedExDataLayoutForBits l n = kSelectedDirect \<longleftrightarrow>
     l = kSelectedDirect \<and> \<not> (1 \<le> n \<and> n \<le> 4)"
  by (auto simp: RaBitQResolveSelectedExDataLayoutForBits_def)

lemma is_direct_iff: "RaBitQExDataLayoutIsDirect l \<longleftrightarrow> l \<noteq> kGenericPacked"
  by (cases l)
    (simp_all add: RaBitQExDataLayoutIsDirect_def RaBitQResolveSelectedExDataLayout_def
      RaBitQResolveSelectedExDataLayoutForBits_def Let_def)

text \<open>The widths each layout is accepted with, as a table.\<close>

fun accepted_ex_bits :: "ex_layout \<Rightarrow> nat list" where
  "accepted_ex_bits kGenericPacked = []"
| "accepted_ex_bits kSplit1Bitplane = [1]"
| "accepted_ex_bits kSplit2Bitplanes = [2]"
| "accepted_ex_bits kVector2Bit = [2]"
| "accepted_ex_bits kSplit3TwoPlusOne = [3]"
| "accepted_ex_bits kSplit3Bitplanes = [3]"
| "accepted_ex_bits kSplit3TrimmedBitplanes = [3]"
| "accepted_ex_bits kSplit3ZeroPlaneElide = [3]"
| "accepted_ex_bits kVectorNibble4 = [4]"
| "accepted_ex_bits kVectorBitMajorTiles = [1, 2, 3]"
| "accepted_ex_bits kVectorBitplanes = [1, 2, 3, 4]"
| "accepted_ex_bits kVectorBitplanesPrefetch = [1, 2, 3, 4]"
| "accepted_ex_bits kVectorBitplanesMicroBatch = [1, 2, 3, 4]"
| "accepted_ex_bits kSmallLane4Bitplanes = [1, 2, 3, 4]"
| "accepted_ex_bits kSmallLane2Bitplanes = [1, 2, 3, 4]"
| "accepted_ex_bits kSelectedDirect = [1, 2, 3, 4]"

lemma exdata_layout_valid_table:
  assumes "uses_official_1_plus_n c"
  shows "exdata_layout_valid c \<longleftrightarrow>
    rc_layout c = kGenericPacked \<or> rc_ex_bits c \<in> set (accepted_ex_bits (rc_layout c))"
  using assms
  by (cases "rc_layout c")
    (auto simp: exdata_layout_valid_def effective_exdata_layout_def Let_def
      RaBitQResolveSelectedExDataLayoutForBits_def RaBitQExDataLayoutDirectBits_def
      RaBitQResolveSelectedExDataLayout_def)

text \<open>C39: an official configuration is valid exactly with the generic layout, at any width, or with
  one of the widths the table gives for its layout; then a layout other than the generic one is
  resolved to a layout with a direct kernel, the selected one to the bit-major tiles up to three bits
  and to nibbles at four.  The default layout is valid for every width.  A legacy configuration is
  valid only with the generic layout.\<close>

theorem exdata_layout_valid_meaning:
  "(uses_official_1_plus_n c \<longrightarrow>
      (exdata_layout_valid c \<longleftrightarrow>
         rc_layout c = kGenericPacked \<or> rc_ex_bits c \<in> set (accepted_ex_bits (rc_layout c)))
      \<and> (exdata_layout_valid c \<and> rc_layout c \<noteq> kGenericPacked \<longrightarrow>
         RaBitQExDataLayoutIsDirect (effective_exdata_layout c)
         \<and> effective_exdata_layout c =
             (if rc_layout c \<noteq> kSelectedDirect then rc_layout c
              else if rc_ex_bits c < 4 then kVectorBitMajorTiles else kVectorNibble4))
      \<and> exdata_layout_valid (c\<lparr>rc_layout := RaBitQDefaultOfficialExDataLayoutForBits (rc_ex_bits c)\<rparr>))
   \<and> (\<not> uses_official_1_plus_n c \<longrightarrow> (exdata_layout_valid c \<longleftrightarrow> rc_layout c = kGenericPacked))"
proof (intro conjI impI)
  assume "uses_official_1_plus_n c"
  then show "exdata_layout_valid c \<longleftrightarrow>
      rc_layout c = kGenericPacked \<or> rc_ex_bits c \<in> set (accepted_ex_bits (rc_layout c))"
    by (rule exdata_layout_valid_table)
next
  assume official: "uses_official_1_plus_n c" and valid: "exdata_layout_valid c \<and> rc_layout c \<noteq> kGenericPacked"
  have bits: "1 \<le> rc_ex_bits c \<and> rc_ex_bits c \<le> 4" if "rc_layout c = kSelectedDirect"
    using valid that by (auto simp: exdata_layout_valid_table [OF official])
  then show effective: "effective_exdata_layout c =
      (if rc_layout c \<noteq> kSelectedDirect then rc_layout c
       else if rc_ex_bits c < 4 then kVectorBitMajorTiles else kVectorNibble4)"
    using official by (auto simp: effective_exdata_layout_def RaBitQResolveSelectedExDataLayoutForBits_def)
  show "RaBitQExDataLayoutIsDirect (effective_exdata_layout c)"
    using valid by (simp add: effective is_direct_iff)
next
  assume "uses_official_1_plus_n c"
  then have "uses_official_1_plus_n (c\<lparr>rc_layout := RaBitQDefaultOfficialExDataLayoutForBits (rc_ex_bits c)\<rparr>)"
    by (simp add: uses_official_1_plus_n_def)
  then show "exdata_layout_valid (c\<lparr>rc_layout := RaBitQDefaultOfficialExDataLayoutForBits (rc_ex_bits c)\<rparr>)"
    by (auto simp: exdata_layout_valid_table RaBitQDefaultOfficialExDataLayoutForBits_def)
next
  assume "\<not> uses_official_1_plus_n c"
  then show "exdata_layout_valid c \<longleftrightarrow> rc_layout c = kGenericPacked"
    by (simp add: exdata_layout_valid_def)
qed

theorem exdata_layout_valid_meaning_witness:
  "effective_exdata_layout
      (rabitq_config_default\<lparr>rc_mode := kOfficial1PlusN, rc_ex_bits := 4, rc_total_bits := 5,
        rc_layout := kSelectedDirect\<rparr>) = kVectorNibble4"
  using exdata_layout_valid_meaning [of "rabitq_config_default\<lparr>rc_mode := kOfficial1PlusN,
      rc_ex_bits := 4, rc_total_bits := 5, rc_layout := kSelectedDirect\<rparr>"]
  by (simp add: uses_official_1_plus_n_def)

section \<open>Format keys\<close>

lemma ex_layout_name_inject: "RaBitQExDataLayoutName l = RaBitQExDataLayoutName m \<Longrightarrow> l = m"
  by (metis ex_layout_parse_name option.inject)

lemma ex_layout_name_nonempty [simp]: "RaBitQExDataLayoutName l \<noteq> []"
  by (cases l) simp_all

lemma split_at_underscore:
  assumes "CHR ''_'' \<notin> set a" and "CHR ''_'' \<notin> set b"
    and "a @ CHR ''_'' # x = b @ CHR ''_'' # y"
  shows "a = b \<and> x = y"
proof -
  have "takeWhile (\<lambda>c. c \<noteq> CHR ''_'') (a @ CHR ''_'' # x) = a"
    and "takeWhile (\<lambda>c. c \<noteq> CHR ''_'') (b @ CHR ''_'' # y) = b"
    using assms(1,2) by (auto simp: takeWhile_append)
  with assms(3) have "a = b" by simp
  with assms(3) show ?thesis by simp
qed

definition official_key_suffix :: "ex_layout \<Rightarrow> string" where
  "official_key_suffix l = (if l = kGenericPacked then [] else ''_'' @ RaBitQExDataLayoutName l)"

lemma format_key_valid:
  assumes "exdata_layout_valid c" and "uses_official_1_plus_n c"
  shows "RaBitQFormatKey c = ''official_1_plus_n_total'' @ digits_of (rc_total_bits c) @
    ''_ex'' @ digits_of (rc_ex_bits c) @ official_key_suffix (effective_exdata_layout c)"
proof -
  have "rc_layout c \<noteq> kSelectedDirect" if "effective_exdata_layout c = kGenericPacked"
    using that assms(2)
    by (auto simp: effective_exdata_layout_def RaBitQResolveSelectedExDataLayoutForBits_def
        split: if_splits)
  then show ?thesis
    using assms
    by (simp add: RaBitQFormatKey_def Let_def is_direct_iff official_key_suffix_def
        effective_total_bits_def stage2_payload_bits_def)
qed

lemma official_suffix_inject:
  assumes "digits_of m @ official_key_suffix k = digits_of n @ official_key_suffix l"
  shows "m = n \<and> k = l"
proof (cases "k = kGenericPacked"; cases "l = kGenericPacked")
  assume "k \<noteq> kGenericPacked" and "l \<noteq> kGenericPacked"
  with assms have "digits_of m @ CHR ''_'' # RaBitQExDataLayoutName k =
      digits_of n @ CHR ''_'' # RaBitQExDataLayoutName l"
    by (simp add: official_key_suffix_def)
  from split_at_underscore [OF digits_of_no_underscore digits_of_no_underscore this]
  show ?thesis using digits_of_inj ex_layout_name_inject by blast
next
  assume *: "k = kGenericPacked" "l = kGenericPacked"
  with assms show ?thesis using digits_of_inj by (simp add: official_key_suffix_def)
next
  assume "k = kGenericPacked" and "l \<noteq> kGenericPacked"
  with assms have "digits_of m = digits_of n @ CHR ''_'' # RaBitQExDataLayoutName l"
    by (simp add: official_key_suffix_def)
  then have "CHR ''_'' \<in> set (digits_of m)" by simp
  then show ?thesis using digits_of_no_underscore by blast
next
  assume "k \<noteq> kGenericPacked" and "l = kGenericPacked"
  with assms have "digits_of m @ CHR ''_'' # RaBitQExDataLayoutName k = digits_of n"
    by (simp add: official_key_suffix_def)
  then have "CHR ''_'' \<in> set (digits_of n)"
    by (metis in_set_conv_decomp)
  then show ?thesis using digits_of_no_underscore by blast
qed

text \<open>C40: two valid configurations with the same format key agree on the estimator mode, the
  reported bits, the stage-2 payload bits and the layout the payload is stored in: the key
  identifies the on-disk format.\<close>

theorem format_key_identifies_format:
  assumes "exdata_layout_valid a" and "exdata_layout_valid b"
    and "RaBitQFormatKey a = RaBitQFormatKey b"
  shows "rc_mode a = rc_mode b \<and> effective_total_bits a = effective_total_bits b
    \<and> stage2_payload_bits a = stage2_payload_bits b
    \<and> effective_exdata_layout a = effective_exdata_layout b"
proof (cases "uses_official_1_plus_n a"; cases "uses_official_1_plus_n b")
  assume o: "uses_official_1_plus_n a" "uses_official_1_plus_n b"
  have "digits_of (rc_total_bits a) @ CHR ''_'' # ''ex'' @ digits_of (rc_ex_bits a) @
      official_key_suffix (effective_exdata_layout a) =
    digits_of (rc_total_bits b) @ CHR ''_'' # ''ex'' @ digits_of (rc_ex_bits b) @
      official_key_suffix (effective_exdata_layout b)"
    using assms(3) by (simp add: format_key_valid [OF assms(1) o(1)] format_key_valid [OF assms(2) o(2)])
  note sp = split_at_underscore [OF digits_of_no_underscore digits_of_no_underscore this]
  from sp have "rc_total_bits a = rc_total_bits b"
    by (blast intro: digits_of_inj)
  moreover from sp have "digits_of (rc_ex_bits a) @ official_key_suffix (effective_exdata_layout a) =
      digits_of (rc_ex_bits b) @ official_key_suffix (effective_exdata_layout b)"
    by simp
  then have "rc_ex_bits a = rc_ex_bits b
      \<and> effective_exdata_layout a = effective_exdata_layout b"
    by (rule official_suffix_inject)
  ultimately show ?thesis using o
    by (simp add: uses_official_1_plus_n_def effective_total_bits_def stage2_payload_bits_def)
next
  assume o: "\<not> uses_official_1_plus_n a" "\<not> uses_official_1_plus_n b"
  then have "digits_of (rc_bits a) = digits_of (rc_bits b)"
    using assms(3) by (simp add: RaBitQFormatKey_def effective_total_bits_def)
  then have "rc_bits a = rc_bits b" by (rule digits_of_inj)
  moreover have "rc_mode a = rc_mode b"
    using o by (cases "rc_mode a"; cases "rc_mode b") (simp_all add: uses_official_1_plus_n_def)
  ultimately show ?thesis
    using o by (simp add: effective_total_bits_def stage2_payload_bits_def effective_exdata_layout_def)
qed (use assms(3) in \<open>auto simp: RaBitQFormatKey_def Let_def split: if_splits\<close>)

theorem format_key_identifies_format_witness:
  "stage2_payload_bits (rabitq_config_default\<lparr>rc_bits := 4, rc_block_size := 32\<rparr>)
     = stage2_payload_bits (rabitq_config_default\<lparr>rc_bits := 4\<rparr>)"
  using format_key_identifies_format
      [of "rabitq_config_default\<lparr>rc_bits := 4, rc_block_size := 32\<rparr>"
          "rabitq_config_default\<lparr>rc_bits := 4\<rparr>"]
  by (simp add: exdata_layout_valid_def uses_official_1_plus_n_def RaBitQFormatKey_def
      effective_total_bits_def rabitq_config_default_def)

end
