(* ===== verification/Dict_Codec.thy ===== *)
theory Dict_Codec
  imports Prelude
begin

text \<open>
  \<open>codec::DictCodec\<close> (src/codec/dict_codec.cpp): dictionary encoding of string columns.  The
  hash map from strings to indices is a HOL map; indices are \<open>uint32_t\<close>.
\<close>

fun build_dict_loop ::
    "bytes list \<Rightarrow> (bytes \<rightharpoonup> nat) \<Rightarrow> bytes list \<Rightarrow> nat list \<Rightarrow> bytes list \<times> nat list" where
  "build_dict_loop [] index_map dict indices = (dict, indices)"
| "build_dict_loop (val # vals) index_map dict indices =
     (case index_map val of
        None \<Rightarrow>
          (let new_idx = wrap32 (length dict)
           in build_dict_loop vals (index_map(val \<mapsto> new_idx)) (dict @ [val]) (indices @ [new_idx]))
      | Some idx \<Rightarrow> build_dict_loop vals index_map dict (indices @ [idx]))"

definition BuildDict :: "bytes list \<Rightarrow> bytes list \<times> nat list" where
  "BuildDict vals = build_dict_loop vals Map.empty [] []"

definition Dict_Decode :: "nat list \<Rightarrow> bytes list \<Rightarrow> bytes list" where
  "Dict_Decode indices dict = map (\<lambda>idx. if idx < length dict then dict ! idx else []) indices"

text \<open>The loop invariant: the map inverts the dictionary.\<close>

definition dict_inv :: "(bytes \<rightharpoonup> nat) \<Rightarrow> bytes list \<Rightarrow> bool" where
  "dict_inv m dict \<longleftrightarrow> distinct dict \<and> (\<forall>v i. m v = Some i \<longleftrightarrow> i < length dict \<and> dict ! i = v)"

lemma dict_inv_None: "dict_inv m dict \<Longrightarrow> m v = None \<longleftrightarrow> v \<notin> set dict"
proof -
  assume "dict_inv m dict"
  then have m: "m v = Some i \<longleftrightarrow> i < length dict \<and> dict ! i = v" for i
    by (simp add: dict_inv_def)
  have "v \<in> set dict \<longleftrightarrow> (\<exists>i. m v = Some i)"
    by (simp only: in_set_conv_nth m)
  then show ?thesis by (cases "m v") simp_all
qed

lemma dict_inv_extend:
  assumes "dict_inv m dict" and "m v = None"
  shows "dict_inv (m(v \<mapsto> length dict)) (dict @ [v])"
  using assms dict_inv_None [OF assms(1), of v]
  by (auto simp: dict_inv_def nth_append less_Suc_eq dest: nth_mem)

lemma build_dict_loop_spec:
  assumes "dict_inv m dict" and "length dict + length vals < 4294967296"
    and "\<forall>i \<in> set indices. i < length dict"
  shows "\<exists>extra new. build_dict_loop vals m dict indices = (dict @ extra, indices @ new)
    \<and> distinct (dict @ extra) \<and> set extra \<subseteq> set vals \<and> set vals \<subseteq> set (dict @ extra)
    \<and> length new = length vals \<and> (\<forall>i \<in> set new. i < length (dict @ extra))
    \<and> map ((!) (dict @ extra)) new = vals"
  using assms
proof (induction vals m dict indices rule: build_dict_loop.induct)
  case (1 m dict indices)
  then show ?case by (auto simp: dict_inv_def)
next
  case (2 v vals m dict indices)
  show ?case
  proof (cases "m v")
    case None
    have w: "wrap32 (length dict) = length dict" using "2.prems"(2) by simp
    have "\<exists>extra new. build_dict_loop vals (m(v \<mapsto> length dict)) (dict @ [v]) (indices @ [length dict])
        = ((dict @ [v]) @ extra, (indices @ [length dict]) @ new)
      \<and> distinct ((dict @ [v]) @ extra) \<and> set extra \<subseteq> set vals
      \<and> set vals \<subseteq> set ((dict @ [v]) @ extra)
      \<and> length new = length vals \<and> (\<forall>i \<in> set new. i < length ((dict @ [v]) @ extra))
      \<and> map ((!) ((dict @ [v]) @ extra)) new = vals"
      using "2.IH"(1) [OF None refl, unfolded w] dict_inv_extend [OF "2.prems"(1) None]
        "2.prems"(2,3) by fastforce
    then obtain extra new where
      "build_dict_loop vals (m(v \<mapsto> length dict)) (dict @ [v]) (indices @ [length dict])
        = ((dict @ [v]) @ extra, (indices @ [length dict]) @ new)"
      "distinct ((dict @ [v]) @ extra)" "set extra \<subseteq> set vals"
      "set vals \<subseteq> set ((dict @ [v]) @ extra)"
      "length new = length vals" "\<forall>i \<in> set new. i < length ((dict @ [v]) @ extra)"
      "map ((!) ((dict @ [v]) @ extra)) new = vals"
      by blast
    then show ?thesis
      using None w
      by (intro exI [of _ "v # extra"] exI [of _ "length dict # new"]) auto
  next
    case (Some idx)
    then have idx: "idx < length dict" "dict ! idx = v"
      using "2.prems"(1) by (auto simp: dict_inv_def)
    have "\<exists>extra new. build_dict_loop vals m dict (indices @ [idx])
        = (dict @ extra, (indices @ [idx]) @ new)
      \<and> distinct (dict @ extra) \<and> set extra \<subseteq> set vals \<and> set vals \<subseteq> set (dict @ extra)
      \<and> length new = length vals \<and> (\<forall>i \<in> set new. i < length (dict @ extra))
      \<and> map ((!) (dict @ extra)) new = vals"
      using "2.IH"(2) [OF Some] "2.prems" idx by simp
    then obtain extra new where
      "build_dict_loop vals m dict (indices @ [idx]) = (dict @ extra, (indices @ [idx]) @ new)"
      "distinct (dict @ extra)" "set extra \<subseteq> set vals" "set vals \<subseteq> set (dict @ extra)"
      "length new = length vals" "\<forall>i \<in> set new. i < length (dict @ extra)"
      "map ((!) (dict @ extra)) new = vals"
      by blast
    then show ?thesis
      using Some idx
      by (intro exI [of _ extra] exI [of _ "idx # new"]) (auto simp: nth_append)
  qed
qed

text \<open>C37: decoding the built dictionary's indices gives the column back; the dictionary holds
  each distinct value once and every index is in range.\<close>

theorem dict_roundtrip:
  assumes "length vals < 4294967296"
  shows "Dict_Decode (snd (BuildDict vals)) (fst (BuildDict vals)) = vals
    \<and> distinct (fst (BuildDict vals)) \<and> set (fst (BuildDict vals)) = set vals
    \<and> (\<forall>i \<in> set (snd (BuildDict vals)). i < length (fst (BuildDict vals)))"
proof -
  have "dict_inv Map.empty []" by (simp add: dict_inv_def)
  from build_dict_loop_spec [OF this, of vals "[]"] assms obtain dict new where
    b: "BuildDict vals = (dict, new)" "distinct dict" "set dict \<subseteq> set vals" "set vals \<subseteq> set dict"
      "\<forall>i \<in> set new. i < length dict" "map ((!) dict) new = vals"
    by (auto simp: BuildDict_def)
  then have "Dict_Decode new dict = vals"
    by (auto simp: Dict_Decode_def intro!: nth_equalityI)
  with b show ?thesis by auto
qed

theorem dict_roundtrip_witness:
  "Dict_Decode (snd (BuildDict [[1], [2], [1]])) (fst (BuildDict [[1], [2], [1]])) = [[1], [2], [1]]"
  using dict_roundtrip [of "[[1], [2], [1]]"] by simp

end
