(* ===== verification/Simd_Lanes.thy ===== *)
theory Simd_Lanes
  imports Prelude
begin

text \<open>
  The vector instructions the code uses.  A register of 32-bit elements is the list of its
  lanes, lane 0 first; a 256-bit register has two 128-bit halves of four lanes, and the shifting
  and shuffling instructions act within each half.  \<open>simd_build\<close> says which code paths the
  build compiled in (CMake defines \<open>VDB_USE_AVX2\<close> whenever it defines \<open>VDB_USE_AVX512\<close>).
\<close>

unbundle bit_operations_syntax

datatype simd_build = Scalar | AVX2 | AVX512

definition uses_avx2 :: "simd_build \<Rightarrow> bool" where
  "uses_avx2 build \<longleftrightarrow> build = AVX2 \<or> build = AVX512"

section \<open>Lane-wise arithmetic\<close>

definition lanes_set1 :: "nat \<Rightarrow> u32 \<Rightarrow> u32 list" where
  "lanes_set1 n x = replicate n x"

definition lanes_srlv :: "u32 list \<Rightarrow> u32 list \<Rightarrow> u32 list" where
  "lanes_srlv xs shifts = map2 (\<lambda>x s. if unat s < 32 then drop_bit (unat s) x else 0) xs shifts"

definition lanes_and :: "u32 list \<Rightarrow> u32 list \<Rightarrow> u32 list" where
  "lanes_and xs ys = map2 (AND) xs ys"

definition lanes_add :: "u32 list \<Rightarrow> u32 list \<Rightarrow> u32 list" where
  "lanes_add xs ys = map2 (+) xs ys"

section \<open>Shifts and shuffles of 128-bit halves\<close>

text \<open>\<open>slli_si128\<close> by \<open>4 * k\<close> bytes on one half, and its 256-bit form.\<close>

definition half_slli :: "nat \<Rightarrow> u32 list \<Rightarrow> u32 list" where
  "half_slli k h = replicate k 0 @ take (4 - k) h"

definition lanes_slli :: "nat \<Rightarrow> u32 list \<Rightarrow> u32 list" where
  "lanes_slli k v = half_slli k (take 4 v) @ half_slli k (drop 4 v)"

text \<open>\<open>_mm_alignr_epi8(a, b, 12)\<close>: the last lane of \<open>b\<close>, then the first three of \<open>a\<close>.\<close>

definition alignr12 :: "u32 list \<Rightarrow> u32 list \<Rightarrow> u32 list" where
  "alignr12 a b = (b ! 3) # take 3 a"

definition unpacklo32 :: "u32 list \<Rightarrow> u32 list \<Rightarrow> u32 list" where
  "unpacklo32 a b = [a ! 0, b ! 0, a ! 1, b ! 1, a ! 4, b ! 4, a ! 5, b ! 5]"

definition unpackhi32 :: "u32 list \<Rightarrow> u32 list \<Rightarrow> u32 list" where
  "unpackhi32 a b = [a ! 2, b ! 2, a ! 3, b ! 3, a ! 6, b ! 6, a ! 7, b ! 7]"

definition unpacklo64 :: "u32 list \<Rightarrow> u32 list \<Rightarrow> u32 list" where
  "unpacklo64 a b = [a ! 0, a ! 1, b ! 0, b ! 1, a ! 4, a ! 5, b ! 4, b ! 5]"

definition unpackhi64 :: "u32 list \<Rightarrow> u32 list \<Rightarrow> u32 list" where
  "unpackhi64 a b = [a ! 2, a ! 3, b ! 2, b ! 3, a ! 6, a ! 7, b ! 6, b ! 7]"

text \<open>\<open>permute2x128\<close> with selectors 0x20 (both low halves) and 0x31 (both high halves).\<close>

definition permute_low :: "u32 list \<Rightarrow> u32 list \<Rightarrow> u32 list" where
  "permute_low a b = take 4 a @ take 4 b"

definition permute_high :: "u32 list \<Rightarrow> u32 list \<Rightarrow> u32 list" where
  "permute_high a b = drop 4 a @ drop 4 b"

lemmas lane_defs = lanes_add_def half_slli_def lanes_slli_def alignr12_def unpacklo32_def
  unpackhi32_def unpacklo64_def unpackhi64_def permute_low_def permute_high_def

section \<open>Extracting single bits\<close>

lemma bit_AND_1: "bit ((x :: 'a::len word) AND 1) j \<longleftrightarrow> j = 0 \<and> bit x 0"
  by (auto simp: bit_and_iff bit_1_iff)

lemma one_bit_value:
  assumes "drop_bit k x AND 1 = (y :: u32)"
  shows "y = (if bit x k then 1 else 0)"
  using assms
  by (auto intro!: word_eq_bitsI simp: bit_AND_1 bit_drop_bit_eq bit_1_iff)

lemma lanes_expand:
  assumes "n \<le> 32"
  shows "lanes_and (lanes_srlv (lanes_set1 n x) (map of_nat [0..<n])) (lanes_set1 n 1) =
    map (\<lambda>i. if bit x i then 1 else 0) [0..<n]"
proof (rule nth_equalityI)
  show "length (lanes_and (lanes_srlv (lanes_set1 n x) (map of_nat [0..<n])) (lanes_set1 n 1)) =
      length (map (\<lambda>i. if bit x i then 1 else 0) [0..<n])"
    by (simp add: lanes_and_def lanes_srlv_def lanes_set1_def)
  fix i
  assume "i < length (lanes_and (lanes_srlv (lanes_set1 n x) (map of_nat [0..<n])) (lanes_set1 n 1))"
  then have i: "i < n" by (simp add: lanes_and_def lanes_srlv_def lanes_set1_def)
  then have "unat (of_nat i :: u32) = i"
    using assms by (simp add: unsigned_of_nat take_bit_eq_mod)
  then have "lanes_and (lanes_srlv (lanes_set1 n x) (map of_nat [0..<n])) (lanes_set1 n 1) ! i =
      drop_bit i x AND 1"
    using i assms by (simp add: lanes_and_def lanes_srlv_def lanes_set1_def)
  also have "\<dots> = (if bit x i then 1 else 0)" by (rule one_bit_value) (rule refl)
  also have "\<dots> = map (\<lambda>i. if bit x i then 1 else 0) [0..<n] ! i" using i by simp
  finally show "lanes_and (lanes_srlv (lanes_set1 n x) (map of_nat [0..<n])) (lanes_set1 n 1) ! i =
      map (\<lambda>i. if bit x i then 1 else 0) [0..<n] ! i" .
qed


text \<open>A list of eight elements, spelled out.\<close>

lemma length8E:
  assumes "length xs = 8"
  obtains a b c d e f g h where "xs = [a, b, c, d, e, f, g, h]"
  using assms by (auto simp: length_Suc_conv numeral_eq_Suc)

end
