(* ===== verification/Bitpack.thy ===== *)
theory Bitpack
  imports Simd_Lanes
begin

text \<open>
  Bit packing: \<open>codec::BitpackCodec\<close> (src/codec/bitpack_codec.cpp) and the unpackers of
  src/simd/bit_unpack.cpp it decodes with.  Packed values follow each other with a fixed bit
  width, least significant bit first.  Reads and writes outside the packed buffer are \<open>None\<close>.
  \<open>bit_pos\<close> and \<open>cur_bit\<close> are \<open>uint32_t\<close> in the code, so their sums are reduced.
\<close>

unbundle bit_operations_syntax

section \<open>Choosing the width\<close>

fun max_value :: "u32 \<Rightarrow> u32 list \<Rightarrow> u32" where
  "max_value m [] = m"
| "max_value m (v # vs) = max_value (if m < v then v else m) vs"

function count_bits :: "u32 \<Rightarrow> nat \<Rightarrow> nat" where
  "count_bits shifted bits =
     (if shifted \<noteq> 0 then count_bits (drop_bit 1 shifted) (wrap8 (bits + 1)) else bits)"
  by pat_completeness auto
termination
proof (relation "measure (\<lambda>(shifted, bits). unat shifted)")
  fix shifted :: u32 and bits :: nat
  assume "shifted \<noteq> 0"
  then have "0 < unat shifted" by (simp add: unat_gt_0)
  then have "unat (drop_bit 1 shifted) < unat shifted"
    unfolding unat_drop_bit_eq by (simp add: drop_bit_eq_div)
  then show "((drop_bit 1 shifted, wrap8 (bits + 1)), shifted, bits)
      \<in> measure (\<lambda>(shifted, bits). unat shifted)"
    by simp
qed simp

declare count_bits.simps [simp del]

definition ComputeMinBitWidth :: "u32 list \<Rightarrow> u32 \<Rightarrow> nat" where
  "ComputeMinBitWidth values max_packable_value =
     (if values = [] then 1
      else let max_val = max_value 0 values in
        if max_packable_value < max_val then 0
        else if max_val = 0 then 1
        else count_bits max_val 0)"

definition EncodedSize :: "nat \<Rightarrow> nat \<Rightarrow> nat" where
  "EncodedSize count bit_width = wrap32 ((count * bit_width + 7) div 8)"

section \<open>Encoding\<close>

function encode_value :: "bytes \<Rightarrow> u32 \<Rightarrow> nat \<Rightarrow> nat \<Rightarrow> bytes option" where
  "encode_value packed val bits_remaining cur_bit =
     (if 0 < bits_remaining then
        let byte_idx = cur_bit div 8;
            bit_off = cur_bit mod 8;
            space = 8 - bit_off;
            to_write = min space bits_remaining;
            mask_w = (ucast (push_bit to_write 1 - 1 :: u32) :: u8)
        in if byte_idx < length packed
           then encode_value
                  (packed[byte_idx := packed ! byte_idx OR
                     ucast (push_bit bit_off (val AND ucast mask_w))])
                  (drop_bit to_write val) (bits_remaining - to_write)
                  (wrap32 (cur_bit + to_write))
           else None
      else Some packed)"
  by pat_completeness auto
termination
  by (relation "measure (\<lambda>(packed, val, bits_remaining, cur_bit). bits_remaining)")
    (auto simp: Let_def)

declare encode_value.simps [simp del]

fun encode_values :: "bytes \<Rightarrow> u32 list \<Rightarrow> nat \<Rightarrow> nat \<Rightarrow> bytes option" where
  "encode_values packed [] bit_width bit_pos = Some packed"
| "encode_values packed (v # vs) bit_width bit_pos =
     (case encode_value packed v bit_width bit_pos of
        None \<Rightarrow> None
      | Some packed' \<Rightarrow> encode_values packed' vs bit_width (wrap32 (bit_pos + bit_width)))"

definition Bitpack_Encode :: "u32 list \<Rightarrow> nat \<Rightarrow> bytes option" where
  "Bitpack_Encode values bit_width =
     encode_values (replicate (EncodedSize (length values) bit_width) 0) values bit_width 0"

section \<open>Decoding\<close>

function read_value :: "bytes \<Rightarrow> nat \<Rightarrow> u32 \<Rightarrow> nat \<Rightarrow> nat \<Rightarrow> u32 option" where
  "read_value packed bit_width val bits_read cur_bit =
     (if bits_read < bit_width then
        let byte_idx = cur_bit div 8;
            bit_off = cur_bit mod 8;
            avail = 8 - bit_off;
            to_read = (if avail < bit_width - bits_read then avail else bit_width - bits_read)
        in if byte_idx < length packed
           then let chunk = drop_bit bit_off (ucast (packed ! byte_idx) :: u32)
                              AND (push_bit to_read 1 - 1)
                in read_value packed bit_width (val OR push_bit bits_read chunk)
                     (bits_read + to_read) (wrap32 (cur_bit + to_read))
           else None
      else Some val)"
  by pat_completeness auto
termination
  by (relation "measure (\<lambda>(packed, bit_width, val, bits_read, cur_bit). bit_width - bits_read)")
    (auto simp: Let_def split: if_splits)

declare read_value.simps [simp del]

fun unpack_loop :: "bytes \<Rightarrow> nat \<Rightarrow> nat \<Rightarrow> nat \<Rightarrow> u32 list option" where
  "unpack_loop packed bit_width bit_pos 0 = Some []"
| "unpack_loop packed bit_width bit_pos (Suc n) =
     (let mask_v = (if bit_width < 32 then push_bit bit_width 1 - 1 else 0xFFFFFFFF :: u32)
      in case read_value packed bit_width 0 0 bit_pos of
           None \<Rightarrow> None
         | Some v \<Rightarrow>
             (case unpack_loop packed bit_width (wrap32 (bit_pos + bit_width)) n of
                None \<Rightarrow> None
              | Some vs \<Rightarrow> Some ((v AND mask_v) # vs)))"

definition BitUnpackScalar :: "bytes \<Rightarrow> nat \<Rightarrow> nat \<Rightarrow> u32 list option" where
  "BitUnpackScalar packed bit_width count = unpack_loop packed bit_width 0 count"

section \<open>The vector paths for one-bit values\<close>

text \<open>One iteration of the AVX2 loop: expand byte \<open>b\<close>.\<close>

definition expand_byte :: "u8 \<Rightarrow> u32 list" where
  "expand_byte b = lanes_and (lanes_srlv (lanes_set1 8 (ucast b)) [0, 1, 2, 3, 4, 5, 6, 7])
     (lanes_set1 8 1)"

fun avx2_full_bytes :: "bytes \<Rightarrow> nat \<Rightarrow> nat \<Rightarrow> u32 list option" where
  "avx2_full_bytes packed b 0 = Some []"
| "avx2_full_bytes packed b (Suc n) =
     (if b < length packed
      then map_option ((@) (expand_byte (packed ! b))) (avx2_full_bytes packed (Suc b) n)
      else None)"

definition BitUnpack1Bit_AVX2 :: "bytes \<Rightarrow> nat \<Rightarrow> u32 list option" where
  "BitUnpack1Bit_AVX2 packed count =
     (let full_bytes = count div 8;
          remaining = count - full_bytes * 8
      in case avx2_full_bytes packed 0 full_bytes of
           None \<Rightarrow> None
         | Some out \<Rightarrow>
             if 0 < remaining then
               if full_bytes < length packed
               then let tail_byte = (ucast (packed ! full_bytes) :: u32)
                    in Some (out @ map (\<lambda>k. drop_bit k tail_byte AND 1) [0..<remaining])
               else None
             else Some out)"

text \<open>One iteration of the AVX-512 loop: expand the 16-bit word at byte \<open>2 * b\<close>.\<close>

definition expand_word :: "u16 \<Rightarrow> u32 list" where
  "expand_word w = lanes_and
     (lanes_srlv (lanes_set1 16 (ucast w)) [0, 1, 2, 3, 4, 5, 6, 7, 8, 9, 10, 11, 12, 13, 14, 15])
     (lanes_set1 16 1)"

fun avx512_full_words :: "bytes \<Rightarrow> nat \<Rightarrow> nat \<Rightarrow> u32 list option" where
  "avx512_full_words packed b 0 = Some []"
| "avx512_full_words packed b (Suc n) =
     (if 2 * b + 1 < length packed
      then map_option ((@) (expand_word (ucast (packed ! (2 * b)) OR
             push_bit 8 (ucast (packed ! (2 * b + 1)))))) (avx512_full_words packed (Suc b) n)
      else None)"

fun avx512_tail :: "bytes \<Rightarrow> nat \<Rightarrow> nat \<Rightarrow> u32 list option" where
  "avx512_tail packed bit_pos 0 = Some []"
| "avx512_tail packed bit_pos (Suc n) =
     (if bit_pos div 8 < length packed
      then map_option ((#) (drop_bit (bit_pos mod 8) (ucast (packed ! (bit_pos div 8)) :: u32) AND 1))
             (avx512_tail packed (wrap32 (bit_pos + 1)) n)
      else None)"

definition BitUnpack1Bit_AVX512 :: "bytes \<Rightarrow> nat \<Rightarrow> u32 list option" where
  "BitUnpack1Bit_AVX512 packed count =
     (let full_16 = count div 16;
          don = full_16 * 16;
          remaining = count - don
      in case avx512_full_words packed 0 full_16 of
           None \<Rightarrow> None
         | Some out \<Rightarrow>
             if 0 < remaining then map_option ((@) out) (avx512_tail packed don remaining)
             else Some out)"

definition BitUnpack :: "simd_build \<Rightarrow> bytes \<Rightarrow> nat \<Rightarrow> nat \<Rightarrow> u32 list option" where
  "BitUnpack build packed bit_width count =
     (if count = 0 then Some []
      else if build = AVX512 \<and> bit_width = 1 then BitUnpack1Bit_AVX512 packed count
      else if build = AVX2 \<and> bit_width = 1 then BitUnpack1Bit_AVX2 packed count
      else BitUnpackScalar packed bit_width count)"

definition Bitpack_Decode :: "simd_build \<Rightarrow> bytes \<Rightarrow> nat \<Rightarrow> nat \<Rightarrow> u32 list option" where
  "Bitpack_Decode build packed bit_width count =
     (if 0 < count then BitUnpack build packed bit_width count else Some [])"

section \<open>Bits written and read\<close>

lemma bit_masked_shift:
  assumes "t \<le> 8 - off" and "j < 8"
  shows "bit (ucast (push_bit off ((val :: u32) AND
      ucast (ucast (push_bit t 1 - 1 :: u32) :: u8))) :: u8) j
    \<longleftrightarrow> off \<le> j \<and> j < off + t \<and> bit val (j - off)"
  using assms
  by (auto simp: bit_ucast_iff bit_push_bit_iff bit_and_iff bit_low_mask_pow)

lemma bit_chunk:
  "bit (drop_bit off (ucast (b :: u8) :: u32) AND (push_bit t 1 - 1)) j
    \<longleftrightarrow> j < t \<and> j < 32 \<and> off + j < 8 \<and> bit b (off + j)"
  by (auto simp: bit_and_iff bit_drop_bit_eq bit_ucast_iff bit_low_mask_pow dest: bit_imp_le_length)

lemma stream_bit_update [bit_stream]:
  assumes "i < length bs"
  shows "stream_bit (bs[i := b]) p = (if p div 8 = i then bit b (p mod 8) else stream_bit bs p)"
  using assms by (auto simp: stream_bit_def nth_list_update)

text \<open>\<open>encode_value\<close> ors the low bits of the value into the stream from \<open>cur_bit\<close> on, and
  changes nothing else.\<close>

lemma encode_value_spec:
  assumes "cur + rem \<le> 8 * length packed" and "cur + rem < 4294967296"
  shows "\<exists>q. encode_value packed v rem cur = Some q \<and> length q = length packed
    \<and> (\<forall>p. stream_bit q p =
        (stream_bit packed p \<or> (cur \<le> p \<and> p < cur + rem \<and> bit v (p - cur))))"
  using assms
proof (induction packed v rem cur rule: encode_value.induct)
  case (1 packed v rem cur)
  show ?case
  proof (cases "0 < rem")
    case False
    then have "rem = 0" by simp
    then show ?thesis by (auto simp: encode_value.simps [of packed v 0 cur])
  next
    case True
    define i where "i = cur div 8"
    define off where "off = cur mod 8"
    define t where "t = min (8 - off) rem"
    define b where "b = packed ! i OR ucast (push_bit off (v AND
      ucast (ucast (push_bit t 1 - 1 :: u32) :: u8)))"
    have cur: "cur = 8 * i + off" and off: "off < 8" by (simp_all add: i_def off_def)
    have t: "0 < t" "t \<le> rem" "t \<le> 8 - off" using True off by (simp_all add: t_def)
    have i: "i < length packed" using "1.prems"(1) True cur by simp
    have w: "wrap32 (cur + t) = cur + t" using "1.prems"(2) t by simp
    have unf: "encode_value packed v rem cur =
        encode_value (packed[i := b]) (drop_bit t v) (rem - t) (cur + t)"
      using True i w
      by (simp add: encode_value.simps [of packed v rem cur] Let_def i_def off_def t_def b_def)
    have "\<exists>q. encode_value (packed[i := b]) (drop_bit t v) (rem - t) (wrap32 (cur + t)) = Some q
        \<and> length q = length (packed[i := b])
        \<and> (\<forall>p. stream_bit q p = (stream_bit (packed[i := b]) p \<or>
            (wrap32 (cur + t) \<le> p \<and> p < wrap32 (cur + t) + (rem - t) \<and>
             bit (drop_bit t v) (p - wrap32 (cur + t)))))"
      by (rule "1.IH" [OF True refl refl refl refl refl, folded i_def off_def, folded t_def,
            folded b_def]) (use "1.prems" i w t in simp_all)
    then obtain q where q: "encode_value (packed[i := b]) (drop_bit t v) (rem - t) (cur + t) = Some q"
      "length q = length packed"
      "\<And>p. stream_bit q p = (stream_bit (packed[i := b]) p \<or>
          (cur + t \<le> p \<and> p < cur + t + (rem - t) \<and> bit (drop_bit t v) (p - (cur + t))))"
      unfolding w by auto
    have b_bit: "bit b j \<longleftrightarrow> bit (packed ! i) j \<or> (off \<le> j \<and> j < off + t \<and> bit v (j - off))"
      if "j < 8" for j
      unfolding b_def bit_or_iff bit_masked_shift [OF t(3) that] ..
    have upd: "stream_bit (packed[i := b]) p =
        (stream_bit packed p \<or> (cur \<le> p \<and> p < cur + t \<and> bit v (p - cur)))" for p
    proof (cases "p div 8 = i")
      case True
      define m where "m = p mod 8"
      have p: "p = 8 * i + m" and m: "m < 8"
        using True by (simp_all add: m_def mult_div_mod_eq flip: True)
      have "stream_bit (packed[i := b]) p = bit b m" and "stream_bit packed p = bit (packed ! i) m"
        using i m by (simp_all add: p stream_bit_update) (simp add: stream_bit_def)
      moreover have "cur \<le> p \<longleftrightarrow> off \<le> m" and "p < cur + t \<longleftrightarrow> m < off + t" and "p - cur = m - off"
        by (simp_all add: p cur)
      ultimately show ?thesis using b_bit [OF m] by simp
    next
      case False
      moreover have "p div 8 = i" if "cur \<le> p" and "p < cur + t"
        using that cur t(3) off by (intro div_nat_eqI) auto
      ultimately show ?thesis using i by (auto simp: stream_bit_update)
    qed
    have "stream_bit q p = (stream_bit packed p \<or> (cur \<le> p \<and> p < cur + rem \<and> bit v (p - cur)))" for p
    proof (cases "p < cur + t")
      case True
      then show ?thesis using t by (auto simp: q(3) upd)
    next
      case False
      then have "t + (p - (cur + t)) = p - cur" by simp
      then show ?thesis using t False by (auto simp: q(3) upd bit_drop_bit_eq)
    qed
    with q unf show ?thesis by auto
  qed
qed

lemma encode_values_spec:
  assumes "0 < bw" and "pos + length vs * bw \<le> 8 * length packed"
    and "pos + length vs * bw < 4294967296"
  shows "\<exists>q. encode_values packed vs bw pos = Some q \<and> length q = length packed
    \<and> (\<forall>p. p < pos \<or> pos + length vs * bw \<le> p \<longrightarrow> stream_bit q p = stream_bit packed p)
    \<and> (\<forall>i < length vs. \<forall>j < bw. stream_bit q (pos + i * bw + j) =
          (stream_bit packed (pos + i * bw + j) \<or> bit (vs ! i) j))"
  using assms
proof (induction vs arbitrary: packed pos)
  case Nil
  then show ?case by simp
next
  case (Cons v vs)
  have b1: "pos + bw \<le> 8 * length packed" and b2: "pos + bw < 4294967296"
    using Cons.prems by simp_all
  from encode_value_spec [OF b1 b2] obtain q1 where
    q1: "encode_value packed v bw pos = Some q1" "length q1 = length packed"
      "\<And>p. stream_bit q1 p = (stream_bit packed p \<or> (pos \<le> p \<and> p < pos + bw \<and> bit v (p - pos)))"
    by blast
  have w: "wrap32 (pos + bw) = pos + bw" using b2 by simp
  have "pos + bw + length vs * bw \<le> 8 * length q1" "pos + bw + length vs * bw < 4294967296"
    using Cons.prems q1(2) by simp_all
  from Cons.IH [OF Cons.prems(1) this] obtain q where
    q: "encode_values q1 vs bw (pos + bw) = Some q" "length q = length q1"
      "\<And>p. p < pos + bw \<or> pos + bw + length vs * bw \<le> p \<Longrightarrow> stream_bit q p = stream_bit q1 p"
      "\<And>i j. i < length vs \<Longrightarrow> j < bw \<Longrightarrow> stream_bit q (pos + bw + i * bw + j) =
          (stream_bit q1 (pos + bw + i * bw + j) \<or> bit (vs ! i) j)"
    by blast
  have outside: "stream_bit q p = stream_bit packed p"
    if "p < pos \<or> pos + length (v # vs) * bw \<le> p" for p
    using that by (auto simp: q(3) q1(3))
  have inside: "stream_bit q (pos + i * bw + j) =
      (stream_bit packed (pos + i * bw + j) \<or> bit ((v # vs) ! i) j)"
    if "i < length (v # vs)" "j < bw" for i j
  proof (cases i)
    case 0
    then show ?thesis using that(2) by (simp add: q(3) q1(3))
  next
    case (Suc k)
    then have "stream_bit q (pos + bw + k * bw + j) =
        (stream_bit q1 (pos + bw + k * bw + j) \<or> bit (vs ! k) j)"
      using that by (simp add: q(4))
    then show ?thesis using Suc by (simp add: q1(3) add.assoc)
  qed
  show ?case
    using q1(1,2) q(1,2) outside inside by (simp add: w)
qed

section \<open>The decoded value\<close>

text \<open>The specification of unpacking: value \<open>i\<close> is the number whose bits are the \<open>bw\<close> bits of
  the stream from \<open>i * bw\<close> on.\<close>

definition packed_value :: "bytes \<Rightarrow> nat \<Rightarrow> nat \<Rightarrow> u32" where
  "packed_value packed pos bw = horner_sum of_bool 2 (map (stream_bit packed) [pos..<pos + bw])"

lemma bit_packed_value [bit_stream]:
  "bit (packed_value packed pos bw) j \<longleftrightarrow> j < 32 \<and> j < bw \<and> stream_bit packed (pos + j)"
  by (auto simp: packed_value_def bit_horner_sum_bit_word_iff)

lemma read_value_spec:
  assumes "bits_read \<le> bw" and "bw \<le> 32"
    and "cur + (bw - bits_read) \<le> 8 * length packed" and "cur + (bw - bits_read) < 4294967296"
  shows "\<exists>w. read_value packed bw val bits_read cur = Some w
    \<and> (\<forall>j < 32. bit w j = (bit val j \<or>
          (bits_read \<le> j \<and> j < bw \<and> stream_bit packed (cur + (j - bits_read)))))"
  using assms
proof (induction packed bw val bits_read cur rule: read_value.induct)
  case (1 packed bw val bits_read cur)
  show ?case
  proof (cases "bits_read < bw")
    case False
    then show ?thesis by (auto simp: read_value.simps [of packed bw val bits_read cur])
  next
    case True
    define i where "i = cur div 8"
    define off where "off = cur mod 8"
    define t where "t = (if 8 - off < bw - bits_read then 8 - off else bw - bits_read)"
    define chunk where "chunk = drop_bit off (ucast (packed ! i) :: u32) AND (push_bit t 1 - 1)"
    define val' where "val' = val OR push_bit bits_read chunk"
    have cur: "cur = 8 * i + off" and off: "off < 8" by (simp_all add: i_def off_def)
    have t: "0 < t" "t \<le> bw - bits_read" "t \<le> 8 - off" using True off by (auto simp: t_def)
    have i: "i < length packed" using "1.prems"(3) True cur by simp
    have w: "wrap32 (cur + t) = cur + t" using "1.prems"(4) t by simp
    have unf: "read_value packed bw val bits_read cur =
        read_value packed bw val' (bits_read + t) (cur + t)"
      using True i w
      by (simp only: read_value.simps [of packed bw val bits_read cur] Let_def i_def off_def
          t_def chunk_def val'_def if_True)
    have "\<exists>w. read_value packed bw val' (bits_read + t) (wrap32 (cur + t)) = Some w
        \<and> (\<forall>j < 32. bit w j = (bit val' j \<or> (bits_read + t \<le> j \<and> j < bw \<and>
              stream_bit packed (wrap32 (cur + t) + (j - (bits_read + t))))))"
      unfolding val'_def chunk_def
      using "1.IH" [OF True refl refl refl refl, folded i_def off_def, folded t_def] i w t "1.prems"
      by simp
    then obtain w where w1: "read_value packed bw val' (bits_read + t) (cur + t) = Some w"
      and w2: "\<And>j. j < 32 \<Longrightarrow> bit w j = (bit val' j \<or> (bits_read + t \<le> j \<and> j < bw \<and>
              stream_bit packed (cur + t + (j - (bits_read + t)))))"
      unfolding w by blast
    have val': "bit val' j = (bit val j \<or> (bits_read \<le> j \<and> j < bits_read + t \<and>
        stream_bit packed (cur + (j - bits_read))))" if "j < 32" for j
    proof -
      have "stream_bit packed (cur + k) = bit (packed ! i) (off + k)" if "k < t" for k
      proof -
        have "off + k < 8" using that t(3) by simp
        then have "(cur + k) div 8 = i" and "(cur + k) mod 8 = off + k"
          unfolding cur by (simp_all add: add.assoc)
        then show ?thesis by (simp add: stream_bit_def)
      qed
      moreover have chunk_bit: "bit chunk k \<longleftrightarrow> k < t \<and> k < 32 \<and> off + k < 8 \<and> bit (packed ! i) (off + k)"
        for k unfolding chunk_def by (rule bit_chunk)
      moreover have "stream_bit packed (cur + (j - bits_read)) = bit (packed ! i) (off + (j - bits_read))"
        if "bits_read \<le> j" and "j < bits_read + t"
        using that calculation(1) [of "j - bits_read"] by simp
      ultimately show ?thesis
        using that t(3)
        by (auto simp: val'_def bit_or_iff bit_push_bit_iff chunk_bit simp del: add_diff_assoc)
    qed
    have "bit w j = (bit val j \<or> (bits_read \<le> j \<and> j < bw \<and>
        stream_bit packed (cur + (j - bits_read))))" if "j < 32" for j
    proof (cases "j < bits_read + t")
      case True
      then show ?thesis using that t by (auto simp: w2 val')
    next
      case False
      have "stream_bit packed (cur + t + (j - (bits_read + t))) =
          stream_bit packed (cur + (j - bits_read))"
        by (rule arg_cong [where f = "stream_bit packed"]) (use False in simp)
      then show ?thesis using that t False by (auto simp: w2 val' simp del: add_diff_assoc)
    qed
    with w1 unf show ?thesis by auto
  qed
qed

lemma read_value_packed:
  assumes "bw \<le> 32" and "pos + bw \<le> 8 * length packed" and "pos + bw < 4294967296"
  shows "read_value packed bw 0 0 pos = Some (packed_value packed pos bw)"
proof -
  have "pos + (bw - 0) \<le> 8 * length packed" and "pos + (bw - 0) < 4294967296"
    using assms by simp_all
  from read_value_spec [where val = 0, OF _ assms(1) this] obtain w where
    w: "read_value packed bw 0 0 pos = Some w"
      "\<And>j. j < 32 \<Longrightarrow> bit w j = (0 \<le> j \<and> j < bw \<and> stream_bit packed (pos + (j - 0)))"
    by auto
  then have "w = packed_value packed pos bw"
    by (intro word_eq_bitsI) (simp add: bit_packed_value)
  with w(1) show ?thesis by simp
qed

lemma packed_value_masked:
  assumes "0 < bw" and "bw \<le> 32"
  shows "packed_value packed pos bw AND
      (if bw < 32 then push_bit bw 1 - 1 else 0xFFFFFFFF) = packed_value packed pos bw"
proof -
  have m: "(0xFFFFFFFF :: u32) = mask 32" by (simp add: mask_eq_exp_minus_1)
  have "bit (0xFFFFFFFF :: u32) j" if "j < 32" for j
    unfolding m using that by (simp only: bit_mask_iff) simp
  then show ?thesis
    using assms by (intro word_eq_bitsI) (auto simp: bit_and_iff bit_packed_value bit_low_mask_pow)
qed

lemma unpack_loop_spec:
  assumes "0 < bw" and "bw \<le> 32" and "pos + n * bw \<le> 8 * length packed"
    and "pos + n * bw < 4294967296"
  shows "unpack_loop packed bw pos n = Some (map (\<lambda>i. packed_value packed (pos + i * bw) bw) [0..<n])"
  using assms
proof (induction n arbitrary: pos)
  case 0
  show ?case by simp
next
  case (Suc n)
  have r: "read_value packed bw 0 0 pos = Some (packed_value packed pos bw)"
    using Suc.prems by (intro read_value_packed) simp_all
  have w: "wrap32 (pos + bw) = pos + bw" using Suc.prems by simp
  have "unpack_loop packed bw (pos + bw) n =
      Some (map (\<lambda>i. packed_value packed (pos + bw + i * bw) bw) [0..<n])"
    using Suc.prems by (intro Suc.IH) simp_all
  then show ?case
    by (simp only: unpack_loop.simps r w option.case Let_def packed_value_masked [OF Suc.prems(1,2)]
        upt_conv_Cons [of 0 "Suc n"] list.map map_Suc_upt [symmetric] map_map comp_def
        mult_Suc add.assoc zero_less_Suc mult_0 add_0_right)
qed

section \<open>All build variants unpack the same values\<close>

lemma packed_value_one:
  "packed_value packed p 1 = (if stream_bit packed p then 1 else 0)"
  by (rule word_eq_bitsI) (auto simp: bit_packed_value bit_1_iff)

lemma expand_byte_bits:
  "expand_byte b = map (\<lambda>i. if bit b i then 1 else 0) [0..<8]"
proof -
  have "[0, 1, 2, 3, 4, 5, 6, 7] = (map of_nat [0..<8] :: u32 list)"
    by (simp add: upt_rec)
  then have "expand_byte b = map (\<lambda>i. if bit (ucast b :: u32) i then 1 else 0) [0..<8]"
    unfolding expand_byte_def by (simp only: lanes_expand)
  then show ?thesis by (simp add: bit_ucast_iff)
qed

lemma expand_word_bits:
  "expand_word w = map (\<lambda>i. if bit w i then 1 else 0) [0..<16]"
proof -
  have "[0, 1, 2, 3, 4, 5, 6, 7, 8, 9, 10, 11, 12, 13, 14, 15] = (map of_nat [0..<16] :: u32 list)"
    by (simp add: upt_rec)
  then have "expand_word w = map (\<lambda>i. if bit (ucast w :: u32) i then 1 else 0) [0..<16]"
    unfolding expand_word_def by (simp only: lanes_expand)
  then show ?thesis by (simp add: bit_ucast_iff)
qed

text \<open>The one-bit values of \<open>n\<close> bits of the stream from bit \<open>p\<close> on.\<close>

definition one_bits :: "bytes \<Rightarrow> nat \<Rightarrow> nat \<Rightarrow> u32 list" where
  "one_bits packed p n = map (\<lambda>i. if stream_bit packed (p + i) then 1 else 0) [0..<n]"

lemma one_bits_append: "one_bits packed p m @ one_bits packed (p + m) n = one_bits packed p (m + n)"
  by (rule nth_equalityI) (auto simp: one_bits_def nth_append)

lemma one_bits_byte: "one_bits packed (8 * b) 8 = expand_byte (packed ! b)"
proof -
  have "stream_bit packed (8 * b + i) = bit (packed ! b) i" if "i < 8" for i
    using that by (simp add: stream_bit_def)
  then show ?thesis by (simp add: one_bits_def expand_byte_bits)
qed

lemma byte_pos: "j < 8 \<Longrightarrow> (8 * a + j) div 8 = a" "j < 8 \<Longrightarrow> (8 * a + j) mod 8 = (j :: nat)"
  by simp_all

lemma one_bits_word:
  "one_bits packed (16 * b) 16 =
    expand_word (ucast (packed ! (2 * b)) OR push_bit 8 (ucast (packed ! (2 * b + 1))))"
proof -
  have "stream_bit packed (16 * b + i) =
      bit (ucast (packed ! (2 * b)) OR push_bit 8 (ucast (packed ! (2 * b + 1))) :: u16) i"
    if "i < 16" for i
  proof (cases "i < 8")
    case True
    then have "(16 * b + i) div 8 = 2 * b" and "(16 * b + i) mod 8 = i"
      using byte_pos [of i "2 * b"] by simp_all
    then show ?thesis
      using True by (simp add: stream_bit_def bit_or_iff bit_ucast_iff bit_push_bit_iff)
  next
    case False
    define k where "k = i - 8"
    have i: "i = 8 + k" and k: "k < 8" using False that by (simp_all add: k_def)
    have "16 * b + i = 8 * (2 * b + 1) + k" using i by simp
    then have "(16 * b + i) div 8 = 2 * b + 1" and "(16 * b + i) mod 8 = k"
      using byte_pos [of k "2 * b + 1"] k by (simp_all only:)
    then show ?thesis
      using i k that
      by (auto simp: stream_bit_def bit_or_iff bit_ucast_iff bit_push_bit_iff
          dest: bit_imp_le_length)
  qed
  then show ?thesis by (simp add: one_bits_def expand_word_bits)
qed

lemma avx2_full_bytes_spec:
  "b + n \<le> length packed \<Longrightarrow> avx2_full_bytes packed b n = Some (one_bits packed (8 * b) (8 * n))"
proof (induction n arbitrary: b)
  case 0
  show ?case by (simp add: one_bits_def)
next
  case (Suc n)
  then have "avx2_full_bytes packed (Suc b) n = Some (one_bits packed (8 * b + 8) (8 * n))"
    using Suc.IH [of "Suc b"] by (simp add: add.commute)
  with Suc.prems show ?case
    by (simp add: one_bits_byte flip: one_bits_append)
qed

lemma avx512_full_words_spec:
  "2 * (b + n) \<le> length packed \<Longrightarrow>
    avx512_full_words packed b n = Some (one_bits packed (16 * b) (16 * n))"
proof (induction n arbitrary: b)
  case 0
  show ?case by (simp add: one_bits_def)
next
  case (Suc n)
  then have "avx512_full_words packed (Suc b) n = Some (one_bits packed (16 * b + 16) (16 * n))"
    using Suc.IH [of "Suc b"] by (simp add: add.commute)
  with Suc.prems show ?case
    by (simp add: one_bits_word flip: one_bits_append)
qed

lemma avx512_tail_spec:
  "p + n \<le> 8 * length packed \<Longrightarrow> p + n < 4294967296 \<Longrightarrow>
    avx512_tail packed p n = Some (one_bits packed p n)"
proof (induction n arbitrary: p)
  case 0
  show ?case by (simp add: one_bits_def)
next
  case (Suc n)
  have i: "p div 8 < length packed" using Suc.prems(1) by (simp add: less_mult_imp_div_less mult.commute)
  have w: "wrap32 (p + 1) = p + 1" using Suc.prems(2) by simp
  have "avx512_tail packed (p + 1) n = Some (one_bits packed (p + 1) n)"
    using Suc.prems by (intro Suc.IH) simp_all
  moreover have "drop_bit (p mod 8) (ucast (packed ! (p div 8)) :: u32) AND 1 =
      (if stream_bit packed p then 1 else 0)"
  proof -
    have "p mod 8 < 32" using mod_less_divisor [of 8 p] by linarith
    then show ?thesis
      using one_bit_value [OF refl, of "p mod 8" "ucast (packed ! (p div 8))"]
      by (simp add: stream_bit_def bit_ucast_iff)
  qed
  moreover have "one_bits packed p 1 = [if stream_bit packed p then 1 else 0]"
    by (simp add: one_bits_def)
  moreover have "one_bits packed p (Suc n) = one_bits packed p 1 @ one_bits packed (p + 1) n"
    using one_bits_append [of packed p 1 n] by simp
  ultimately show ?case
    using i by (simp only: avx512_tail.simps w if_True option.map append.simps)
qed

lemma one_bits_packed_values:
  "one_bits packed 0 n = map (\<lambda>i. packed_value packed (i * 1) 1) [0..<n]"
  by (simp add: one_bits_def packed_value_one [unfolded One_nat_def])

lemma avx2_tail_spec:
  assumes "b < length packed" and "r \<le> 8"
  shows "map (\<lambda>k. drop_bit k (ucast (packed ! b) :: u32) AND 1) [0..<r] = one_bits packed (8 * b) r"
proof -
  have "drop_bit k (ucast (packed ! b) :: u32) AND 1 =
      (if stream_bit packed (8 * b + k) then 1 else 0)" if "k < r" for k
    using that assms one_bit_value [OF refl, of k "ucast (packed ! b)"]
    by (simp add: stream_bit_def bit_ucast_iff)
  then show ?thesis by (simp add: one_bits_def)
qed

lemma BitUnpack1Bit_AVX2_spec:
  assumes "count \<le> 8 * length packed"
  shows "BitUnpack1Bit_AVX2 packed count = Some (one_bits packed 0 count)"
proof -
  define f where "f = count div 8"
  define r where "r = count - f * 8"
  have count: "count = 8 * f + r" and r: "r < 8" by (auto simp: f_def r_def)
  have "avx2_full_bytes packed 0 f = Some (one_bits packed 0 (8 * f))"
    using avx2_full_bytes_spec [of 0 f packed] assms count by simp
  moreover have "0 < r \<Longrightarrow> f < length packed" using assms count by simp
  moreover have "one_bits packed 0 (8 * f) @ one_bits packed (8 * f) r = one_bits packed 0 count"
    using one_bits_append [of packed 0 "8 * f" r] count by simp
  moreover have "f < length packed \<Longrightarrow>
      map (\<lambda>k. drop_bit k (ucast (packed ! f) :: u32) AND 1) [0..<r] = one_bits packed (8 * f) r"
    using r by (intro avx2_tail_spec) simp_all
  moreover have "one_bits packed 0 (8 * f) = one_bits packed 0 count" if "\<not> 0 < r"
    using that count by simp
  ultimately show ?thesis
    unfolding BitUnpack1Bit_AVX2_def Let_def f_def [symmetric] r_def [symmetric]
    by (cases "0 < r") (simp_all only: option.case if_True if_False simp_thms neq0_conv)
qed

lemma BitUnpack1Bit_AVX512_spec:
  assumes "count \<le> 8 * length packed" and "count < 4294967296"
  shows "BitUnpack1Bit_AVX512 packed count = Some (one_bits packed 0 count)"
proof -
  define f where "f = count div 16"
  define r where "r = count - f * 16"
  have count: "count = f * 16 + r" by (auto simp: f_def r_def)
  have full: "avx512_full_words packed 0 f = Some (one_bits packed 0 (f * 16))"
    using avx512_full_words_spec [of 0 f packed] assms count by (simp add: mult.commute)
  have tail: "avx512_tail packed (f * 16) r = Some (one_bits packed (f * 16) r)"
    using assms count by (intro avx512_tail_spec) simp_all
  have "one_bits packed 0 (f * 16) @ one_bits packed (f * 16) r = one_bits packed 0 count"
    using one_bits_append [of packed 0 "f * 16" r] count by simp
  moreover have "one_bits packed 0 (f * 16) = one_bits packed 0 count" if "\<not> 0 < r"
    using that count by simp
  ultimately show ?thesis
    unfolding BitUnpack1Bit_AVX512_def Let_def f_def [symmetric] r_def [symmetric]
    by (cases "0 < r") (simp_all add: full tail)
qed

lemma BitUnpack_spec:
  assumes "0 < bw" and "bw \<le> 32" and "count * bw \<le> 8 * length packed"
    and "count * bw < 4294967296"
  shows "BitUnpack build packed bw count = Some (map (\<lambda>i. packed_value packed (i * bw) bw) [0..<count])"
proof -
  have scalar: "BitUnpackScalar packed bw count =
      Some (map (\<lambda>i. packed_value packed (i * bw) bw) [0..<count])"
    using unpack_loop_spec [OF assms(1,2), of 0 count packed] assms
    by (simp add: BitUnpackScalar_def)
  show ?thesis
  proof (cases "bw = 1")
    case True
    have "BitUnpack1Bit_AVX2 packed count = Some (one_bits packed 0 count)"
      and "BitUnpack1Bit_AVX512 packed count = Some (one_bits packed 0 count)"
      using assms True by (simp_all add: BitUnpack1Bit_AVX2_spec BitUnpack1Bit_AVX512_spec)
    then show ?thesis
      using scalar unfolding BitUnpack_def True one_bits_packed_values by simp
  next
    case False
    with scalar show ?thesis by (simp add: BitUnpack_def)
  qed
qed

section \<open>Round trip\<close>

lemma EncodedSize_bits:
  assumes "count * bw < 4294967289"
  shows "count * bw \<le> 8 * EncodedSize count bw" and "8 * EncodedSize count bw < count * bw + 8"
proof -
  have "(count * bw + 7) div 8 < 4294967296" using assms by simp
  then have "EncodedSize count bw = (count * bw + 7) div 8" by (simp add: EncodedSize_def)
  then show "count * bw \<le> 8 * EncodedSize count bw" and "8 * EncodedSize count bw < count * bw + 8"
    by simp_all
qed

lemma Bitpack_Encode_spec:
  assumes "0 < bw" and "bw \<le> 32" and "length values * bw < 4294967289"
  shows "\<exists>q. Bitpack_Encode values bw = Some q \<and> length q = EncodedSize (length values) bw
    \<and> (\<forall>i < length values. packed_value q (i * bw) bw = take_bit bw (values ! i))"
proof -
  let ?n = "EncodedSize (length values) bw"
  note size = EncodedSize_bits [OF assms(3)]
  have "0 + length values * bw \<le> 8 * length (replicate ?n 0 :: bytes)"
    and "0 + length values * bw < 4294967296"
    using size assms by simp_all
  from encode_values_spec [OF assms(1) this] obtain q where
    q: "encode_values (replicate ?n 0) values bw 0 = Some q" "length q = ?n"
      "\<And>i j. i < length values \<Longrightarrow> j < bw \<Longrightarrow> stream_bit q (0 + i * bw + j) =
        (stream_bit (replicate ?n 0) (0 + i * bw + j) \<or> bit (values ! i) j)"
    by auto
  have "packed_value q (i * bw) bw = take_bit bw (values ! i)" if i: "i < length values" for i
  proof (rule word_eq_bitsI)
    fix j
    have "i * bw + j < 8 * ?n" if "j < bw"
    proof -
      have "Suc i * bw \<le> length values * bw" using i by (intro mult_le_mono1) simp
      with that size(1) show ?thesis by simp
    qed
    then show "bit (packed_value q (i * bw) bw) j = bit (take_bit bw (values ! i)) j"
      using q(3) [OF i, of j]
      by (auto simp: bit_packed_value bit_take_bit_iff stream_bit_replicate0
          dest: bit_imp_le_length)
  qed
  with q show ?thesis by (auto simp: Bitpack_Encode_def)
qed


lemma packed_value_bound: "bw \<le> 32 \<Longrightarrow> unat (packed_value packed pos bw) < 2 ^ bw"
proof -
  have "take_bit bw (packed_value packed pos bw) = packed_value packed pos bw"
    by (rule word_eq_bitsI) (auto simp: bit_take_bit_iff bit_packed_value)
  then have "unat (packed_value packed pos bw) = take_bit bw (unat (packed_value packed pos bw))"
    by (metis unsigned_take_bit_eq)
  then show ?thesis by (metis take_bit_nat_less_exp)
qed

lemma take_bit_small_word:
  assumes "unat (v :: u32) < 2 ^ bw"
  shows "take_bit bw v = v"
proof -
  have "unat (take_bit bw v) = take_bit bw (unat v)" by (simp add: unsigned_take_bit_eq)
  also have "\<dots> = unat v" using assms by (simp add: take_bit_nat_eq_self)
  finally show ?thesis by (simp only: word_unat_eq_iff)
qed

lemma count_bits_spec:
  assumes "unat m < 2 ^ k" and "b + k < 256"
  shows "\<exists>n \<le> k. count_bits m b = b + n \<and> unat m < 2 ^ n \<and> (0 < n \<longrightarrow> 2 ^ (n - 1) \<le> unat m)"
  using assms
proof (induction m b arbitrary: k rule: count_bits.induct)
  case (1 m b)
  show ?case
  proof (cases "m = 0")
    case True
    then show ?thesis by (intro exI [of _ 0]) (simp add: count_bits.simps [of 0 b])
  next
    case False
    then have pos: "0 < unat m" by (simp add: unat_gt_0)
    obtain k' where k: "k = Suc k'" using "1.prems"(1) pos by (cases k) auto
    have half: "unat (drop_bit 1 m) = unat m div 2"
      unfolding unat_drop_bit_eq by (simp add: drop_bit_eq_div)
    have "unat (drop_bit 1 m) < 2 ^ k'" using "1.prems"(1) k unfolding half by simp
    moreover have b: "wrap8 (b + 1) = b + 1" using "1.prems"(2) k by simp
    moreover have "wrap8 (b + 1) + k' < 256" using "1.prems"(2) k unfolding b by simp
    ultimately obtain n where n: "n \<le> k'" "count_bits (drop_bit 1 m) (b + 1) = b + 1 + n"
      "unat m div 2 < 2 ^ n" "0 < n \<longrightarrow> 2 ^ (n - 1) \<le> unat m div 2"
      using "1.IH" [OF False, of k'] unfolding half b by auto
    have "2 ^ n \<le> unat m"
    proof (cases n)
      case 0
      then show ?thesis using pos by simp
    next
      case (Suc j)
      then show ?thesis using n(4) by simp
    qed
    then show ?thesis
      using n k False b
      by (intro exI [of _ "Suc n"]) (auto simp: count_bits.simps [of m b])
  qed
qed

lemma max_value_spec:
  "m \<le> max_value m vs \<and> (\<forall>v \<in> set vs. v \<le> max_value m vs) \<and> max_value m vs \<in> insert m (set vs)"
proof (induction vs arbitrary: m)
  case Nil
  show ?case by simp
next
  case (Cons v vs)
  show ?case using Cons.IH [of v] Cons.IH [of m] by (cases "m < v") auto
qed

lemma ComputeMinBitWidth_spec:
  "ComputeMinBitWidth values max_packable \<le> 32
   \<and> (ComputeMinBitWidth values max_packable = 0 \<longleftrightarrow> (\<exists>v \<in> set values. max_packable < v))
   \<and> (ComputeMinBitWidth values max_packable \<noteq> 0 \<longrightarrow>
        (\<forall>v \<in> set values. unat v < 2 ^ ComputeMinBitWidth values max_packable)
        \<and> (\<forall>w > 0. (\<forall>v \<in> set values. unat v < 2 ^ w) \<longrightarrow>
              ComputeMinBitWidth values max_packable \<le> w))"
proof (cases "values = []")
  case True
  then show ?thesis by (auto simp: ComputeMinBitWidth_def)
next
  case False
  define m where "m = max_value 0 values"
  have max: "v \<le> m" if "v \<in> set values" for v
    using that max_value_spec [of 0 "values"] by (auto simp: m_def)
  have m_in: "m \<noteq> 0 \<Longrightarrow> m \<in> set values"
    using max_value_spec [of 0 "values"] by (auto simp: m_def)
  have too_big: "max_packable < m \<longleftrightarrow> (\<exists>v \<in> set values. max_packable < v)"
  proof
    assume "max_packable < m"
    then have "m \<noteq> 0" by auto
    with m_in \<open>max_packable < m\<close> show "\<exists>v \<in> set values. max_packable < v" by blast
  next
    assume "\<exists>v \<in> set values. max_packable < v"
    then show "max_packable < m" using max order.strict_trans2 by blast
  qed
  obtain n where n: "n \<le> 32" "count_bits m 0 = n" "unat m < 2 ^ n"
      "0 < n \<longrightarrow> 2 ^ (n - 1) \<le> unat m"
    using count_bits_spec [of m 32 0] unat_bound32 [of m] by auto
  have n_pos: "m \<noteq> 0 \<Longrightarrow> 0 < n" using n(3) by (cases n) (auto simp: unat_eq_0)
  consider "max_packable < m" | "\<not> max_packable < m" "m = 0" | "\<not> max_packable < m" "m \<noteq> 0"
    by blast
  then show ?thesis
  proof cases
    case 1
    then have "ComputeMinBitWidth values max_packable = 0"
      using False by (simp add: ComputeMinBitWidth_def m_def Let_def)
    then show ?thesis using 1 too_big by simp
  next
    case 2
    then have "ComputeMinBitWidth values max_packable = 1"
      using False by (simp add: ComputeMinBitWidth_def m_def Let_def)
    moreover have "\<forall>v \<in> set values. unat v < 2 ^ 1" using max 2(2) by fastforce
    ultimately show ?thesis using 2(1) too_big by auto
  next
    case 3
    then have w: "ComputeMinBitWidth values max_packable = n"
      using False n(2) by (simp add: ComputeMinBitWidth_def m_def Let_def)
    have "unat v < 2 ^ n" if "v \<in> set values" for v
      using max [OF that] n(3) by (simp add: word_le_nat_alt)
    moreover have "n \<le> w" if "\<forall>v \<in> set values. unat v < 2 ^ w" for w
    proof -
      have "unat m < 2 ^ w" using that m_in [OF 3(2)] by blast
      moreover have "2 ^ (n - 1) \<le> unat m" using n(4) n_pos [OF 3(2)] by blast
      ultimately have "(2 :: nat) ^ (n - 1) < 2 ^ w" by (rule le_less_trans [rotated])
      then have "n - 1 < w" by (rule power_less_imp_less_exp [rotated]) simp
      then show ?thesis by simp
    qed
    ultimately show ?thesis using 3(1) too_big n(1) n_pos [OF 3(2)] unfolding w by auto
  qed
qed

lemma bitpack_decode_encode:
  assumes "0 < bw" and "bw \<le> 32" and "length values * bw < 4294967289"
    and "\<forall>v \<in> set values. unat v < 2 ^ bw"
  shows "\<exists>p. Bitpack_Encode values bw = Some p \<and> length p = EncodedSize (length values) bw
    \<and> (\<forall>build. Bitpack_Decode build p bw (length values) = Some values)"
proof -
  from Bitpack_Encode_spec [OF assms(1-3)] obtain q where
    q: "Bitpack_Encode values bw = Some q" "length q = EncodedSize (length values) bw"
      "\<And>i. i < length values \<Longrightarrow> packed_value q (i * bw) bw = take_bit bw (values ! i)"
    by blast
  have "map (\<lambda>i. packed_value q (i * bw) bw) [0..<length values] = values"
    using q(3) assms(4) by (intro nth_equalityI) (simp_all add: take_bit_small_word)
  then have "BitUnpack build q bw (length values) = Some values" for build
    using BitUnpack_spec [OF assms(1,2), of "length values" q build] q(2)
      EncodedSize_bits(1) [OF assms(3)] assms(3) by simp
  then show ?thesis using q by (auto simp: Bitpack_Decode_def)
qed

text \<open>C13: the encoder succeeds without touching memory outside its buffer, fills exactly
  \<open>EncodedSize\<close> bytes, and the decoder of every build (scalar, AVX2, AVX-512) gives the values
  back, whenever they fit in the width and the 32-bit bit counter does not wrap.\<close>

theorem bitpack_roundtrip:
  assumes "0 < bw" and "bw \<le> 32" and "length values * bw < 4294967289"
    and "\<forall>v \<in> set values. unat v < 2 ^ bw"
  shows "\<exists>p. Bitpack_Encode values bw = Some p \<and> length p = EncodedSize (length values) bw
    \<and> (\<forall>build. Bitpack_Decode build p bw (length values) = Some values)"
  using bitpack_decode_encode [OF assms] .

theorem bitpack_roundtrip_witness:
  "\<exists>p. Bitpack_Encode [5, 2, 7, 1] 3 = Some p \<and> length p = 2
    \<and> (\<forall>build. Bitpack_Decode build p 3 (length [5, 2, 7, 1 :: u32]) = Some [5, 2, 7, 1])"
  using bitpack_roundtrip [of 3 "[5, 2, 7, 1]"] by (simp add: EncodedSize_def)

text \<open>C14: on any packed buffer that holds the requested values, every build's unpacker returns
  the scalar unpacker's result, and each value is below two to the width.\<close>

theorem simd_unpack_agrees:
  assumes "0 < bw" and "bw \<le> 32" and "count * bw \<le> 8 * length packed"
    and "count * bw < 4294967296"
  shows "BitUnpack build packed bw count = BitUnpackScalar packed bw count
    \<and> (\<exists>vs. BitUnpack build packed bw count = Some vs \<and> length vs = count
        \<and> (\<forall>v \<in> set vs. unat v < 2 ^ bw))"
proof -
  have "BitUnpackScalar packed bw count =
      Some (map (\<lambda>i. packed_value packed (i * bw) bw) [0..<count])"
    using unpack_loop_spec [OF assms(1,2), of 0 count packed] assms
    by (simp add: BitUnpackScalar_def)
  then show ?thesis
    using BitUnpack_spec [OF assms, of build] packed_value_bound [OF assms(2)] by auto
qed

theorem simd_unpack_agrees_witness:
  "BitUnpack AVX2 [0xA5, 0x0F] 1 11 = BitUnpackScalar [0xA5, 0x0F] 1 11"
  using simd_unpack_agrees [of 1 11 "[0xA5, 0x0F]" AVX2] by simp

text \<open>C15: \<open>ComputeMinBitWidth\<close> answers the sentinel 0 exactly when some value exceeds the
  packable maximum; any other answer is a width the codec round-trips the values with, on every
  build, and no narrower width holds them.\<close>

theorem ComputeMinBitWidth_minimal:
  assumes "ComputeMinBitWidth values max_packable = bw" and "length values < 134217727"
  shows "(bw = 0 \<longleftrightarrow> (\<exists>v \<in> set values. max_packable < v))
   \<and> (bw \<noteq> 0 \<longrightarrow>
        (\<exists>p. Bitpack_Encode values bw = Some p
          \<and> (\<forall>build. Bitpack_Decode build p bw (length values) = Some values))
        \<and> (\<forall>w > 0. w < bw \<longrightarrow> (\<exists>v \<in> set values. 2 ^ w \<le> unat v)))"
proof -
  note spec = ComputeMinBitWidth_spec [of "values" max_packable, unfolded assms(1)]
  have bw: "bw \<le> 32" and zero: "bw = 0 \<longleftrightarrow> (\<exists>v \<in> set values. max_packable < v)"
    using spec by blast+
  have fits: "\<forall>v \<in> set values. unat v < 2 ^ bw" if "bw \<noteq> 0" using spec that by blast
  have minimal: "\<exists>v \<in> set values. 2 ^ w \<le> unat v" if "bw \<noteq> 0" "0 < w" "w < bw" for w
    using spec that by (meson leD not_less)
  have "length values * bw \<le> 134217726 * 32" using assms(2) bw by (intro mult_le_mono) simp_all
  then have len: "length values * bw < 4294967289" by simp
  have "\<exists>p. Bitpack_Encode values bw = Some p
      \<and> (\<forall>build. Bitpack_Decode build p bw (length values) = Some values)" if "bw \<noteq> 0"
    using bitpack_decode_encode [OF _ bw len fits [OF that]] that by blast
  then show ?thesis using zero minimal by blast
qed

theorem ComputeMinBitWidth_minimal_witness:
  "\<exists>p. Bitpack_Encode [5, 2] 3 = Some p
    \<and> (\<forall>build. Bitpack_Decode build p 3 (length [5, 2 :: u32]) = Some [5, 2])"
proof -
  have "ComputeMinBitWidth [5, 2] 100 = 3"
    by (simp add: ComputeMinBitWidth_def Let_def count_bits.simps drop_bit_eq_div)
  then show ?thesis using ComputeMinBitWidth_minimal [of "[5, 2]" 100 3] by simp
qed

end
