(* ===== verification/Lane_Loops.thy ===== *)
theory Lane_Loops
  imports Simd_Lanes
begin

text \<open>
  The loops of the interleaving and prefix-sum routines (src/simd/transpose.cpp and
  src/simd/prefix_sum.cpp): \<open>for (; i + 8 <= count; i += 8)\<close> on \<open>uint32_t\<close>, whose additions wrap,
  and the stores into the output arrays.
\<close>

section \<open>Blocks of eight\<close>

text \<open>With \<open>count\<close> within 8 of the end of the 32-bit range \<open>i + 8\<close> wraps to 0 and the loop does not
  end: \<open>None\<close>.\<close>

partial_function (option) loop8 :: "(nat \<Rightarrow> 's \<Rightarrow> 's) \<Rightarrow> nat \<Rightarrow> nat \<Rightarrow> 's \<Rightarrow> (nat \<times> 's) option" where
  "loop8 body count i s =
     (if wrap32 (i + 8) \<le> count then loop8 body count (wrap32 (i + 8)) (body i s) else Some (i, s))"

lemma loop8_rule:
  assumes "count < 4294967288" and "i \<le> count" and "P i s"
    and step: "\<And>j t. j + 8 \<le> count \<Longrightarrow> P j t \<Longrightarrow> P (j + 8) (body j t)"
  shows "\<exists>j t. loop8 body count i s = Some (j, t) \<and> P j t \<and> j \<le> count \<and> count < j + 8"
  using assms(2,3)
proof (induction "count - i" arbitrary: i s rule: less_induct)
  case less
  have w: "wrap32 (i + 8) = i + 8" using less.prems(1) assms(1) by simp
  show ?case
  proof (cases "i + 8 \<le> count")
    case True
    then have "\<exists>j t. loop8 body count (i + 8) (body i s) = Some (j, t) \<and> P j t \<and> j \<le> count \<and> count < j + 8"
      using less.prems by (intro less.hyps step) simp_all
    then show ?thesis using True by (subst loop8.simps) (simp only: w if_True)
  next
    case False
    then show ?thesis using less.prems by (subst loop8.simps) (simp only: w if_False, simp)
  qed
qed

section \<open>Stores\<close>

text \<open>Eight lanes stored at index \<open>at\<close> of an array.\<close>

definition store8 :: "nat \<Rightarrow> u32 list \<Rightarrow> u32 list \<Rightarrow> u32 list" where
  "store8 at lanes out = take at out @ lanes @ drop (at + 8) out"

text \<open>Elements \<open>m\<close> to \<open>n - 1\<close> from index \<open>a\<close> on, stored one by one.\<close>

lemma fold_store:
  assumes "m \<le> n" and "a + n \<le> length xs"
  shows "fold (\<lambda>k xs. xs[a + k := g k]) [m..<n] xs = take (a + m) xs @ map g [m..<n] @ drop (a + n) xs"
  using assms
proof (induction n rule: dec_induct)
  case base
  then show ?case by simp
next
  case (step n)
  then have d: "drop (a + n) xs = xs ! (a + n) # drop (a + Suc n) xs"
    by (simp add: Cons_nth_drop_Suc)
  have "length (take (a + m) xs @ map g [m..<n]) = a + n" using step.hyps step.prems by simp
  then show ?case
    using step by (simp add: d list_update_append flip: append_assoc)
qed

text \<open>Each of the first \<open>n\<close> elements replaced by a function of itself.\<close>

lemma fold_replace:
  assumes "n \<le> length xs"
  shows "fold (\<lambda>k xs. xs[k := f k (xs ! k)]) [0..<n] xs = map (\<lambda>k. f k (xs ! k)) [0..<n] @ drop n xs"
  using assms
proof (induction n)
  case 0
  then show ?case by simp
next
  case (Suc n)
  have "drop n xs = xs ! n # drop (Suc n) xs" using Suc.prems by (simp add: Cons_nth_drop_Suc)
  then show ?case using Suc by (simp add: list_update_append nth_append)
qed

text \<open>An output array of which the first \<open>j\<close> rows of eight are written.\<close>

definition rows_written :: "(nat \<Rightarrow> u32 list) \<Rightarrow> u32 list \<Rightarrow> nat \<Rightarrow> u32 list" where
  "rows_written row out j = concat (map row [0..<j]) @ drop (j * 8) out"

lemma rows_written_0 [simp]: "rows_written row out 0 = out"
  by (simp add: rows_written_def)

lemma length_rows:
  assumes "\<And>j. length (row j) = 8"
  shows "length (concat (map row [0..<j])) = j * 8"
proof -
  have "length (concat (map row [0..<j])) = length (map row [0..<j]) * 8"
    by (rule length_concat_uniform) (use assms in auto)
  then show ?thesis by simp
qed

lemma length_rows_written:
  assumes "\<And>j. length (row j) = 8" and "j * 8 \<le> length out"
  shows "length (rows_written row out j) = length out"
  using assms(2) by (simp add: rows_written_def length_rows [OF assms(1)])

lemma store8_row:
  assumes "\<And>j. length (row j) = 8" and "Suc j * 8 \<le> length out"
  shows "store8 (j * 8) (row j) (rows_written row out j) = rows_written row out (Suc j)"
  using assms(2) length_rows [of row j, OF assms(1)] by (simp add: store8_def rows_written_def add.commute)

lemma store_rows:
  assumes "\<And>j. length (row j) = 8" and "j \<le> n" and "n * 8 \<le> length out"
    and "\<And>i t. j \<le> i \<Longrightarrow> i < n \<Longrightarrow> length t = length out \<Longrightarrow> body i t = store8 (i * 8) (row i) t"
  shows "fold body [j..<n] (rows_written row out j) = rows_written row out n"
  using assms(2,3,4)
proof (induction n rule: dec_induct)
  case base
  then show ?case by simp
next
  case (step n)
  then have "fold body [j..<n] (rows_written row out j) = rows_written row out n" by simp
  moreover have "length (rows_written row out n) = length out"
    using step.prems(1) by (intro length_rows_written assms(1)) simp
  ultimately show ?case
    using step.hyps step.prems store8_row [of row n out, OF assms(1)] by simp
qed

end
