(* ===== verification/Prefix_Sum.thy ===== *)
theory Prefix_Sum
  imports Lane_Loops "HOL-Library.Monad_Syntax"
begin

text \<open>
  Exclusive prefix sums of \<open>uint32_t\<close> arrays (src/simd/prefix_sum.cpp): the scalar loop, the
  AVX2 routine on blocks of eight elements, and the multi-stream form on eight interleaved
  arrays.  Additions and indices wrap at 32 bits.  An array shorter than \<open>count\<close> is accessed out of
  bounds and gives \<open>None\<close>.
\<close>

section \<open>One array\<close>

fun scalar_prefix_loop :: "u32 list \<Rightarrow> u32 \<Rightarrow> u32 list" where
  "scalar_prefix_loop [] running = []"
| "scalar_prefix_loop (x # xs) running = running # scalar_prefix_loop xs (running + x)"

definition ExclusivePrefixSumScalar :: "u32 list \<Rightarrow> nat \<Rightarrow> u32 list option" where
  "ExclusivePrefixSumScalar inp count =
     (if count \<le> length inp then Some (scalar_prefix_loop (take count inp) 0) else None)"

text \<open>The inclusive prefix sums of the eight lanes.\<close>

definition IncPrefixSum8 :: "u32 list \<Rightarrow> u32 list" where
  "IncPrefixSum8 v0 =
     (let v1 = lanes_add v0 (lanes_slli 1 v0);
          v = lanes_add v1 (lanes_slli 2 v1);
          lo = take 4 v;
          lo_total = lo ! 3;
          hi = lanes_add (drop 4 v) (lanes_set1 4 lo_total)
      in lo @ hi)"

definition IncToExcl8 :: "u32 list \<Rightarrow> u32 \<Rightarrow> u32 list" where
  "IncToExcl8 inc running_sum =
     (let lo_inc = take 4 inc;
          hi_inc = drop 4 inc;
          new_lo = alignr12 lo_inc (lanes_set1 4 0);
          new_hi = alignr12 hi_inc lo_inc;
          carry = lanes_set1 4 running_sum
      in lanes_add new_lo carry @ lanes_add new_hi carry)"

definition avx2_prefix_block :: "u32 list \<Rightarrow> nat \<Rightarrow> u32 list \<times> u32 \<Rightarrow> u32 list \<times> u32" where
  "avx2_prefix_block inp i = (\<lambda>(out, running_sum).
     let inc = IncPrefixSum8 (slice i 8 inp);
         ex = IncToExcl8 inc running_sum
     in (out @ ex, running_sum + drop 4 inc ! 3))"

definition ExclusivePrefixSumAVX2 :: "u32 list \<Rightarrow> nat \<Rightarrow> u32 list option" where
  "ExclusivePrefixSumAVX2 inp count =
     (if count \<le> length inp then do {
        (i, out, running_sum) \<leftarrow> loop8 (avx2_prefix_block inp) count 0 ([], 0);
        Some (out @ scalar_prefix_loop (slice i (count - i) inp) running_sum)
      } else None)"

text \<open>With \<open>count = 0\<close> the output is left as it is.\<close>

definition ExclusivePrefixSum :: "simd_build \<Rightarrow> u32 list \<Rightarrow> nat \<Rightarrow> u32 list option" where
  "ExclusivePrefixSum build inp count =
     (if count = 0 then Some []
      else if uses_avx2 build then ExclusivePrefixSumAVX2 inp count
      else ExclusivePrefixSumScalar inp count)"

section \<open>Eight interleaved arrays\<close>

text \<open>Element \<open>j\<close> of stream \<open>k\<close> is at \<open>8 * j + k\<close>; a row is the eight values of one \<open>j\<close>.\<close>

definition multi_scalar_step ::
    "u32 list \<Rightarrow> nat \<Rightarrow> nat \<Rightarrow> u32 list \<times> u32 list \<Rightarrow> u32 list \<times> u32 list" where
  "multi_scalar_step inp num_streams j s =
     (let (running, out) = fold (\<lambda>k (running, out).
            (running[k := running ! k + inp ! wrap32 (j * 8 + k)], out[wrap32 (j * 8 + k) := running ! k]))
            [0..<num_streams] s
      in (running, fold (\<lambda>k out. out[wrap32 (j * 8 + k) := 0]) [num_streams..<8] out))"

definition ExclusivePrefixSumMultiScalar :: "u32 list \<Rightarrow> u32 list \<Rightarrow> nat \<Rightarrow> nat \<Rightarrow> u32 list" where
  "ExclusivePrefixSumMultiScalar interleaved_in out count num_streams =
     snd (fold (multi_scalar_step interleaved_in num_streams) [0..<count] (replicate 8 0, out))"

definition multi_avx2_step :: "u32 list \<Rightarrow> nat \<Rightarrow> u32 list \<times> u32 list \<Rightarrow> u32 list \<times> u32 list" where
  "multi_avx2_step inp j = (\<lambda>(running, out).
     let vals = slice (wrap32 (j * 8)) 8 inp
     in (lanes_add running vals, store8 (wrap32 (j * 8)) running out))"

definition ExclusivePrefixSumMultiAVX2 :: "u32 list \<Rightarrow> u32 list \<Rightarrow> nat \<Rightarrow> nat \<Rightarrow> u32 list" where
  "ExclusivePrefixSumMultiAVX2 interleaved_in out count num_streams =
     snd (fold (multi_avx2_step interleaved_in) [0..<count] (lanes_set1 8 0, out))"

text \<open>The output buffer is passed in: with nothing to do it is left as it is.  The scalar loop keeps
  eight running sums.\<close>

definition ExclusivePrefixSumMulti ::
    "simd_build \<Rightarrow> u32 list \<Rightarrow> u32 list \<Rightarrow> nat \<Rightarrow> nat \<Rightarrow> u32 list option" where
  "ExclusivePrefixSumMulti build interleaved_in out count num_streams =
     (if count = 0 \<or> num_streams = 0 then Some out
      else if count * 8 \<le> length interleaved_in \<and> count * 8 \<le> length out
        \<and> (uses_avx2 build \<or> num_streams \<le> 8)
      then Some (if uses_avx2 build
                 then ExclusivePrefixSumMultiAVX2 interleaved_in out count num_streams
                 else ExclusivePrefixSumMultiScalar interleaved_in out count num_streams)
      else None)"

section \<open>What the sums are\<close>

lemma length_scalar_prefix_loop [simp]: "length (scalar_prefix_loop xs r) = length xs"
  by (induction xs arbitrary: r) auto

lemma nth_scalar_prefix_loop:
  "i < length xs \<Longrightarrow> scalar_prefix_loop xs r ! i = r + sum_list (take i xs)"
proof (induction xs arbitrary: r i)
  case Nil
  then show ?case by simp
next
  case (Cons x xs)
  then show ?case by (cases i) (simp_all add: add.assoc)
qed

lemma scalar_prefix_loop_append:
  "scalar_prefix_loop (xs @ ys) r = scalar_prefix_loop xs r @ scalar_prefix_loop ys (r + sum_list xs)"
  by (induction xs arbitrary: r) (simp_all add: add.assoc)

lemma avx2_block:
  assumes "length v = 8"
  shows "IncToExcl8 (IncPrefixSum8 v) r = scalar_prefix_loop v r"
    and "drop 4 (IncPrefixSum8 v) ! 3 = sum_list v"
proof -
  obtain a b c d e f g h where v: "v = [a, b, c, d, e, f, g, h]"
    by (rule length8E [OF assms])
  have inc: "IncPrefixSum8 v = [a, b + a, c + b + a, d + c + (b + a),
      e + (d + c + (b + a)), f + e + (d + c + (b + a)), g + f + e + (d + c + (b + a)),
      h + g + (f + e) + (d + c + (b + a))]"
    by (simp add: v IncPrefixSum8_def Let_def lane_defs lanes_set1_def numeral_eq_Suc)
  show "drop 4 (IncPrefixSum8 v) ! 3 = sum_list v"
    unfolding inc by (simp add: v algebra_simps)
  show "IncToExcl8 (IncPrefixSum8 v) r = scalar_prefix_loop v r"
    unfolding inc
    by (simp add: v IncToExcl8_def Let_def lane_defs lanes_set1_def numeral_eq_Suc algebra_simps)
qed

text \<open>Every build computes the exclusive prefix sums modulo two to the 32: element \<open>i\<close> is
  the sum of the first \<open>i\<close> inputs.\<close>

lemma ExclusivePrefixSum_correct:
  assumes "count \<le> length inp" and "count < 4294967288"
  shows "ExclusivePrefixSum build inp count = Some (map (\<lambda>i. sum_list (take i inp)) [0..<count])"
proof -
  let ?P = "\<lambda>i (out, r). out = scalar_prefix_loop (take i inp) 0 \<and> r = sum_list (take i inp)"
  have split: "take (i + n) inp = take i inp @ slice i n inp" for i n
    by (simp add: slice_def take_add)
  have "\<exists>i t. loop8 (avx2_prefix_block inp) count 0 ([], 0) = Some (i, t) \<and> ?P i t \<and> i \<le> count \<and> count < i + 8"
  proof (rule loop8_rule)
    fix i t
    assume i: "i + 8 \<le> count" and P: "?P i t"
    obtain out r where t: "t = (out, r)" by (cases t)
    have len: "length (slice i 8 inp) = 8" using i assms(1) by simp
    show "?P (i + 8) (avx2_prefix_block inp i t)"
      using P by (simp add: t avx2_prefix_block_def Let_def avx2_block [OF len] split scalar_prefix_loop_append)
  qed (use assms(2) in simp_all)
  then obtain i out r where l8: "loop8 (avx2_prefix_block inp) count 0 ([], 0) = Some (i, out, r)"
    and P: "?P i (out, r)" and i: "i \<le> count" by auto
  have avx2: "ExclusivePrefixSumAVX2 inp count = Some (scalar_prefix_loop (take count inp) 0)"
    using assms(1) l8 P split [of i "count - i"] i
    by (simp add: ExclusivePrefixSumAVX2_def scalar_prefix_loop_append)
  have "scalar_prefix_loop (take count inp) 0 = map (\<lambda>i. sum_list (take i inp)) [0..<count]"
    using assms by (intro nth_equalityI) (simp_all add: nth_scalar_prefix_loop min.absorb1 min.absorb2)
  then show ?thesis
    using assms avx2 by (auto simp: ExclusivePrefixSum_def ExclusivePrefixSumScalar_def)
qed

section \<open>The interleaved sums\<close>

text \<open>The rows of the result: row \<open>j\<close> holds, for each stream, the sum of its first \<open>j\<close> inputs.\<close>

definition stream_sum :: "u32 list \<Rightarrow> nat \<Rightarrow> nat \<Rightarrow> u32" where
  "stream_sum inp k j = sum_list (map (\<lambda>i. inp ! (i * 8 + k)) [0..<j])"

lemma stream_sum_Suc: "stream_sum inp k (Suc j) = stream_sum inp k j + inp ! (j * 8 + k)"
  by (simp add: stream_sum_def)

definition sum_row :: "u32 list \<Rightarrow> nat \<Rightarrow> u32 list" where
  "sum_row inp j = map (\<lambda>k. stream_sum inp k j) [0..<8]"

lemma length_sum_row [simp]: "length (sum_row inp j) = 8"
  by (simp add: sum_row_def)

lemma sum_row_0: "sum_row inp 0 = replicate 8 0"
  by (intro nth_equalityI) (simp_all add: sum_row_def stream_sum_def)

lemma fold_running:
  assumes "n \<le> length r" and "a + n \<le> length out"
  shows "fold (\<lambda>k (r, out). (r[k := r ! k + f k], out[a + k := r ! k])) [0..<n] (r, out) =
    (map (\<lambda>k. r ! k + f k) [0..<n] @ drop n r, take a out @ take n r @ drop (a + n) out)"
  using assms
proof (induction n)
  case 0
  then show ?case by simp
next
  case (Suc n)
  have dr: "drop n r = r ! n # drop (Suc n) r" using Suc.prems by (simp add: Cons_nth_drop_Suc)
  have do: "drop (a + n) out = out ! (a + n) # drop (a + Suc n) out"
    using Suc.prems by (simp add: Cons_nth_drop_Suc)
  have "length (take a out @ take n r) = a + n" using Suc.prems by simp
  then have "(take a out @ take n r @ drop (a + n) out)[a + n := r ! n] =
      take a out @ take (Suc n) r @ drop (a + Suc n) out"
    using Suc.prems by (simp add: do take_Suc_conv_app_nth list_update_append flip: append_assoc)
  moreover have "(map (\<lambda>k. r ! k + f k) [0..<n] @ drop n r)[n := r ! n + f n] =
      map (\<lambda>k. r ! k + f k) [0..<Suc n] @ drop (Suc n) r"
    by (simp add: dr list_update_append)
  ultimately show ?case using Suc by (simp add: nth_append)
qed

lemma multi_scalar_step_eq:
  assumes "num \<le> 8" and "j < 536870912" and "Suc j * 8 \<le> length out"
    and "\<And>k. num \<le> k \<Longrightarrow> k < 8 \<Longrightarrow> inp ! (j * 8 + k) = 0 \<and> stream_sum inp k j = 0"
  shows "multi_scalar_step inp num j (sum_row inp j, out) = (sum_row inp (Suc j), store8 (j * 8) (sum_row inp j) out)"
proof -
  have w: "wrap32 (j * 8 + k) = j * 8 + k" if "k < 8" for k using that assms(2) by simp
  let ?out1 = "take (j * 8) out @ take num (sum_row inp j) @ drop (j * 8 + num) out"
  have "fold (\<lambda>k (running, out). (running[k := running ! k + inp ! wrap32 (j * 8 + k)],
          out[wrap32 (j * 8 + k) := running ! k])) [0..<num] (sum_row inp j, out) =
      fold (\<lambda>k (r, out). (r[k := r ! k + inp ! (j * 8 + k)], out[j * 8 + k := r ! k])) [0..<num] (sum_row inp j, out)"
    using assms(1) w by (intro fold_cong) auto
  also have "\<dots> = (map (\<lambda>k. sum_row inp j ! k + inp ! (j * 8 + k)) [0..<num] @ drop num (sum_row inp j), ?out1)"
    using assms(1,3) by (intro fold_running) simp_all
  also have "map (\<lambda>k. sum_row inp j ! k + inp ! (j * 8 + k)) [0..<num] @ drop num (sum_row inp j) = sum_row inp (Suc j)"
    using assms(1,4) by (intro nth_equalityI) (auto simp: sum_row_def nth_append stream_sum_Suc)
  finally have run: "fold (\<lambda>k (running, out). (running[k := running ! k + inp ! wrap32 (j * 8 + k)],
          out[wrap32 (j * 8 + k) := running ! k])) [0..<num] (sum_row inp j, out) = (sum_row inp (Suc j), ?out1)" .
  have "fold (\<lambda>k out. out[wrap32 (j * 8 + k) := 0]) [num..<8] ?out1 = fold (\<lambda>k out. out[j * 8 + k := 0]) [num..<8] ?out1"
    using w by (intro fold_cong) auto
  also have "\<dots> = take (j * 8 + num) ?out1 @ map (\<lambda>k. 0) [num..<8] @ drop (j * 8 + 8) ?out1"
    using assms(1,3) by (intro fold_store) simp_all
  also have "\<dots> = take (j * 8) out @ (take num (sum_row inp j) @ map (\<lambda>k. 0) [num..<8]) @ drop (j * 8 + 8) out"
    using assms(1,3) by (simp add: min_def add.commute)
  also have "take num (sum_row inp j) @ map (\<lambda>k. 0) [num..<8] = sum_row inp j"
    using assms(1,4) by (intro nth_equalityI) (auto simp: sum_row_def nth_append)
  finally show ?thesis by (simp add: multi_scalar_step_def run store8_def)
qed

lemma multi_avx2_step_eq:
  assumes "j < 536870912" and "Suc j * 8 \<le> length inp"
  shows "multi_avx2_step inp j (sum_row inp j, out) = (sum_row inp (Suc j), store8 (j * 8) (sum_row inp j) out)"
proof -
  have w: "wrap32 (j * 8) = j * 8" using assms(1) by simp
  have "lanes_add (sum_row inp j) (slice (j * 8) 8 inp) = sum_row inp (Suc j)"
    using assms(2) by (intro nth_equalityI) (simp_all add: lanes_add_def sum_row_def nth_slice stream_sum_Suc)
  then show ?thesis by (simp only: multi_avx2_step_def Let_def w split)
qed

lemma fold_sum_rows:
  assumes "count * 8 \<le> length out"
    and "\<And>j t. j < count \<Longrightarrow> length t = length out \<Longrightarrow>
      step j (sum_row inp j, t) = (sum_row inp (Suc j), store8 (j * 8) (sum_row inp j) t)"
  shows "fold step [0..<count] (sum_row inp 0, out) = (sum_row inp count, rows_written (sum_row inp) out count)"
  using assms
proof (induction count)
  case 0
  then show ?case by simp
next
  case (Suc n)
  have "length (rows_written (sum_row inp) out n) = length out"
    using Suc.prems(1) by (intro length_rows_written) simp_all
  then show ?case
    using Suc store8_row [of "sum_row inp" n out] by simp
qed

lemma ExclusivePrefixSumMulti_spec:
  assumes "0 < count" and "0 < num" and "num \<le> 8" and "count * 8 \<le> length inp"
    and "\<And>j k. j < count \<Longrightarrow> num \<le> k \<Longrightarrow> k < 8 \<Longrightarrow> inp ! (j * 8 + k) = 0"
    and "count \<le> 536870912" and "count * 8 \<le> length out"
  shows "ExclusivePrefixSumMulti build inp out count num =
    Some (concat (map (sum_row inp) [0..<count]) @ drop (count * 8) out)"
proof -
  have unused: "stream_sum inp k j = 0" if "j \<le> count" "num \<le> k" "k < 8" for j k
  proof -
    have "map (\<lambda>i. inp ! (i * 8 + k)) [0..<j] = map (\<lambda>_. 0) [0..<j]"
      using that assms(5) by (intro map_cong refl) simp
    then show ?thesis by (simp only: stream_sum_def sum_list_0)
  qed
  have "fold (multi_scalar_step inp num) [0..<count] (sum_row inp 0, out) =
      (sum_row inp count, rows_written (sum_row inp) out count)"
    using assms(3,5-7) unused by (intro fold_sum_rows multi_scalar_step_eq) simp_all
  moreover have "fold (multi_avx2_step inp) [0..<count] (sum_row inp 0, out) =
      (sum_row inp count, rows_written (sum_row inp) out count)"
    using assms(4,6,7) by (intro fold_sum_rows multi_avx2_step_eq) simp_all
  ultimately show ?thesis
    using assms(1-4,7)
    by (simp add: ExclusivePrefixSumMulti_def ExclusivePrefixSumMultiScalar_def ExclusivePrefixSumMultiAVX2_def
        sum_row_0 lanes_set1_def rows_written_def)
qed

end
