(* ===== verification/Transpose.thy ===== *)
theory Transpose
  imports Lane_Loops "HOL-Library.Monad_Syntax"
begin

text \<open>
  Interleaving eight arrays of \<open>uint32_t\<close> and back (src/simd/transpose.cpp): the scalar loops
  and the AVX2 routines on 8 by 8 blocks.  In the interleaved form element \<open>j\<close> of stream \<open>k\<close>
  is at \<open>8 * j + k\<close>, an index the code computes in \<open>uint32_t\<close>, so it wraps for streams of 2^29
  elements and more.  The output arrays are passed in and written in place.  A stream or buffer that
  is too short is accessed out of bounds: \<open>None\<close>.
\<close>

section \<open>The 8 by 8 block\<close>

definition Transpose8x8AVX2 :: "u32 list list \<Rightarrow> u32 list list" where
  "Transpose8x8AVX2 r =
     (let t0 = unpacklo32 (r ! 0) (r ! 1);
          t1 = unpackhi32 (r ! 0) (r ! 1);
          t2 = unpacklo32 (r ! 2) (r ! 3);
          t3 = unpackhi32 (r ! 2) (r ! 3);
          t4 = unpacklo32 (r ! 4) (r ! 5);
          t5 = unpackhi32 (r ! 4) (r ! 5);
          t6 = unpacklo32 (r ! 6) (r ! 7);
          t7 = unpackhi32 (r ! 6) (r ! 7);
          u0 = unpacklo64 t0 t2;
          u1 = unpackhi64 t0 t2;
          u2 = unpacklo64 t1 t3;
          u3 = unpackhi64 t1 t3;
          u4 = unpacklo64 t4 t6;
          u5 = unpackhi64 t4 t6;
          u6 = unpacklo64 t5 t7;
          u7 = unpackhi64 t5 t7
      in [permute_low u0 u4, permute_low u1 u5, permute_low u2 u6, permute_low u3 u7,
          permute_high u0 u4, permute_high u1 u5, permute_high u2 u6, permute_high u3 u7])"

lemma Transpose8x8AVX2_eq:
  "Transpose8x8AVX2 r = map (\<lambda>j. map (\<lambda>k. r ! k ! j) [0..<8]) [0..<8]"
  by (simp add: Transpose8x8AVX2_def Let_def lane_defs upt_rec numeral_eq_Suc)

section \<open>Streams to interleaved rows\<close>

text \<open>One step of the outer loop: element \<open>j\<close> of each stream, then zeros up to the eighth place.\<close>

definition store_row :: "u32 list list \<Rightarrow> nat \<Rightarrow> nat \<Rightarrow> u32 list \<Rightarrow> u32 list" where
  "store_row streams num_streams j out =
     fold (\<lambda>k out. out[wrap32 (j * 8 + k) := 0]) [num_streams..<8]
       (fold (\<lambda>k out. out[wrap32 (j * 8 + k) := streams ! k ! j]) [0..<num_streams] out)"

definition Transpose8xNScalar :: "u32 list list \<Rightarrow> nat \<Rightarrow> nat \<Rightarrow> nat \<Rightarrow> u32 list \<Rightarrow> u32 list" where
  "Transpose8xNScalar streams num_streams j count out =
     fold (store_row streams num_streams) [j..<count] out"

definition store_block :: "u32 list list \<Rightarrow> nat \<Rightarrow> nat \<Rightarrow> u32 list \<Rightarrow> u32 list" where
  "store_block streams num_streams j out =
     (let r = map (\<lambda>k. if k < num_streams then slice j 8 (streams ! k) else lanes_set1 8 0) [0..<8];
          rows = Transpose8x8AVX2 r
      in fold (\<lambda>i out. store8 (wrap32 ((j + i) * 8)) (rows ! i) out) [0..<8] out)"

text \<open>After the blocks the scalar loop does the rest.\<close>

definition Transpose8xNAVX2 :: "u32 list list \<Rightarrow> nat \<Rightarrow> nat \<Rightarrow> u32 list \<Rightarrow> u32 list option" where
  "Transpose8xNAVX2 streams num_streams count out = do {
     (j, out1) \<leftarrow> loop8 (store_block streams num_streams) count 0 out;
     Some (Transpose8xNScalar streams num_streams j count out1)
   }"

definition Transpose8xN ::
    "simd_build \<Rightarrow> u32 list list \<Rightarrow> u32 list \<Rightarrow> nat \<Rightarrow> nat \<Rightarrow> u32 list option" where
  "Transpose8xN build streams out num_streams count_per_stream =
     (if count_per_stream = 0 \<or> num_streams = 0 then Some out
      else if num_streams \<le> length streams
        \<and> (\<forall>s \<in> set (take num_streams streams). count_per_stream \<le> length s)
        \<and> (count_per_stream - 1) * 8 + max 8 num_streams \<le> length out
      then if uses_avx2 build then Transpose8xNAVX2 streams num_streams count_per_stream out
           else Some (Transpose8xNScalar streams num_streams 0 count_per_stream out)
      else None)"

section \<open>Interleaved rows to streams\<close>

definition load_row :: "u32 list \<Rightarrow> nat \<Rightarrow> nat \<Rightarrow> u32 list list \<Rightarrow> u32 list list" where
  "load_row inp num_streams j streams_out =
     fold (\<lambda>k so. so[k := (so ! k)[j := inp ! wrap32 (j * 8 + k)]]) [0..<num_streams] streams_out"

definition TransposeNx8Scalar :: "u32 list \<Rightarrow> nat \<Rightarrow> nat \<Rightarrow> nat \<Rightarrow> u32 list list \<Rightarrow> u32 list list" where
  "TransposeNx8Scalar inp num_streams j count streams_out =
     fold (load_row inp num_streams) [j..<count] streams_out"

definition load_block :: "u32 list \<Rightarrow> nat \<Rightarrow> nat \<Rightarrow> u32 list list \<Rightarrow> u32 list list" where
  "load_block inp num_streams j streams_out =
     (let rows = Transpose8x8AVX2 (map (\<lambda>i. slice (wrap32 ((j + i) * 8)) 8 inp) [0..<8])
      in fold (\<lambda>k so. so[k := store8 j (rows ! k) (so ! k)]) [0..<num_streams] streams_out)"

definition TransposeNx8AVX2 :: "u32 list \<Rightarrow> nat \<Rightarrow> nat \<Rightarrow> u32 list list \<Rightarrow> u32 list list option" where
  "TransposeNx8AVX2 inp num_streams count streams_out = do {
     (j, so) \<leftarrow> loop8 (load_block inp num_streams) count 0 streams_out;
     Some (TransposeNx8Scalar inp num_streams j count so)
   }"

text \<open>The block loop keeps eight registers, so with AVX2 a ninth stream is out of bounds.\<close>

definition TransposeNx8 ::
    "simd_build \<Rightarrow> u32 list \<Rightarrow> u32 list list \<Rightarrow> nat \<Rightarrow> nat \<Rightarrow> u32 list list option" where
  "TransposeNx8 build inp streams_out num_streams count_per_stream =
     (if count_per_stream = 0 \<or> num_streams = 0 then Some streams_out
      else if num_streams \<le> length streams_out \<and> (uses_avx2 build \<longrightarrow> num_streams \<le> 8)
        \<and> (\<forall>s \<in> set (take num_streams streams_out). count_per_stream \<le> length s)
        \<and> (count_per_stream - 1) * 8 + max 8 num_streams \<le> length inp
      then if uses_avx2 build then TransposeNx8AVX2 inp num_streams count_per_stream streams_out
           else Some (TransposeNx8Scalar inp num_streams 0 count_per_stream streams_out)
      else None)"

section \<open>Both forms, spelled out\<close>

definition interleave_row :: "u32 list list \<Rightarrow> nat \<Rightarrow> nat \<Rightarrow> u32 list" where
  "interleave_row streams num_streams j =
     map (\<lambda>k. if k < num_streams then streams ! k ! j else 0) [0..<8]"

lemma length_interleave_row [simp]: "length (interleave_row streams num j) = 8"
  by (simp add: interleave_row_def)

lemma row_index:
  assumes "(j :: nat) < 536870912" and "k < 8"
  shows "wrap32 (j * 8 + k) = j * 8 + k"
  using assms by simp

lemma store_row_eq:
  assumes "num \<le> 8" and "j < 536870912" and "Suc j * 8 \<le> length out"
  shows "store_row streams num j out = store8 (j * 8) (interleave_row streams num j) out"
proof -
  have cut: "fold (\<lambda>k out. out[wrap32 (j * 8 + k) := g k]) [m..<n] xs =
      fold (\<lambda>k out. out[j * 8 + k := g k]) [m..<n] xs" if "n \<le> 8" for g :: "nat \<Rightarrow> u32" and m n xs
    using that row_index [OF assms(2)] by (intro fold_cong) auto
  have split: "interleave_row streams num j =
      map (\<lambda>k. streams ! k ! j) [0..<num] @ map (\<lambda>k. 0) [num..<8]"
    using assms(1) by (intro nth_equalityI) (auto simp: interleave_row_def nth_append)
  let ?out1 = "take (j * 8) out @ map (\<lambda>k. streams ! k ! j) [0..<num] @ drop (j * 8 + num) out"
  have "fold (\<lambda>k out. out[j * 8 + k := streams ! k ! j]) [0..<num] out = ?out1"
    using assms(1,3) fold_store [of 0 num "j * 8" out] by simp
  moreover have "fold (\<lambda>k out. out[j * 8 + k := 0]) [num..<8] ?out1 =
      take (j * 8 + num) ?out1 @ map (\<lambda>k. 0) [num..<8] @ drop (j * 8 + 8) ?out1"
    using assms(1,3) by (intro fold_store) simp_all
  ultimately show ?thesis
    unfolding store_row_def store8_def split cut [OF assms(1)] cut [OF order_refl]
    using assms(1,3) by (simp add: min_def mult.commute)
qed

lemma scalar_rows:
  assumes "num \<le> 8" and "j \<le> count" and "count \<le> 536870912" and "count * 8 \<le> length out"
  shows "Transpose8xNScalar streams num j count (rows_written (interleave_row streams num) out j)
    = rows_written (interleave_row streams num) out count"
  unfolding Transpose8xNScalar_def
  by (rule store_rows) (use assms in \<open>simp_all add: store_row_eq\<close>)

lemma transpose_block_rows:
  assumes "\<And>k. k < num \<Longrightarrow> count \<le> length (streams ! k)" and "j + 8 \<le> count" and "i < 8"
  shows "Transpose8x8AVX2 (map (\<lambda>k. if k < num then slice j 8 (streams ! k) else lanes_set1 8 0) [0..<8]) ! i
    = interleave_row streams num (j + i)"
proof -
  have "slice j 8 (streams ! k) ! i = streams ! k ! (j + i)" if "k < num" for k
    using that assms(1) [of k] assms(2,3) by (simp add: nth_slice)
  moreover have "lanes_set1 8 0 ! i = 0" using assms(3) by (simp add: lanes_set1_def)
  ultimately show ?thesis
    unfolding Transpose8x8AVX2_eq interleave_row_def using assms(3) by (auto intro!: nth_equalityI)
qed

lemma store_block_rows:
  assumes "\<And>k. k < num \<Longrightarrow> count \<le> length (streams ! k)" and "j + 8 \<le> count"
    and "count \<le> 536870912" and "count * 8 \<le> length out"
  shows "store_block streams num j (rows_written (interleave_row streams num) out j)
    = rows_written (interleave_row streams num) out (j + 8)"
proof -
  let ?rows = "Transpose8x8AVX2 (map (\<lambda>k. if k < num then slice j 8 (streams ! k) else lanes_set1 8 0) [0..<8])"
  have "store_block streams num j t = fold (\<lambda>i. store8 (i * 8) (interleave_row streams num i)) [j..<j + 8] t"
    for t
  proof -
    have "[j..<j + 8] = map (\<lambda>i. j + i) [0..<8]" by (simp only: map_add_upt add.commute)
    then have "fold (\<lambda>i. store8 (i * 8) (interleave_row streams num i)) [j..<j + 8] t =
        fold (\<lambda>i. store8 ((j + i) * 8) (interleave_row streams num (j + i))) [0..<8] t"
      by (simp only: fold_map comp_def)
    also have "\<dots> = fold (\<lambda>i out. store8 (wrap32 ((j + i) * 8)) (?rows ! i) out) [0..<8] t"
    proof (rule fold_cong)
      fix i
      assume "i \<in> set [0..<8]"
      then have i: "i < 8" by simp
      have "wrap32 ((j + i) * 8) = (j + i) * 8" using i assms(2,3) by simp
      then show "store8 ((j + i) * 8) (interleave_row streams num (j + i)) =
          (\<lambda>out. store8 (wrap32 ((j + i) * 8)) (?rows ! i) out)"
        using transpose_block_rows [OF assms(1,2) i] by simp
    qed simp_all
    finally show ?thesis by (simp add: store_block_def Let_def)
  qed
  moreover have "fold (\<lambda>i. store8 (i * 8) (interleave_row streams num i)) [j..<j + 8]
      (rows_written (interleave_row streams num) out j) = rows_written (interleave_row streams num) out (j + 8)"
    by (rule store_rows) (use assms(2,4) in simp_all)
  ultimately show ?thesis by simp
qed

lemma Transpose8xN_spec:
  assumes "0 < count" and "0 < num" and "num \<le> 8" and "num \<le> length streams"
    and "\<And>k. k < num \<Longrightarrow> count \<le> length (streams ! k)"
    and "count \<le> 536870912" and "count * 8 \<le> length out"
  shows "Transpose8xN build streams out num count =
    Some (concat (map (interleave_row streams num) [0..<count]) @ drop (count * 8) out)"
proof -
  let ?W = "rows_written (interleave_row streams num) out"
  have scalar: "Transpose8xNScalar streams num j count (?W j) = ?W count" if "j \<le> count" for j
    using scalar_rows [OF assms(3) that assms(6,7)] .
  have "\<exists>j t. loop8 (store_block streams num) count 0 (?W 0) = Some (j, t) \<and> t = ?W j \<and> j \<le> count \<and> count < j + 8"
  proof (rule loop8_rule)
    fix j t
    assume "j + 8 \<le> count" and "t = ?W j"
    then show "store_block streams num j t = ?W (j + 8)"
      using store_block_rows [OF assms(5) _ assms(6,7)] by simp
  qed (use assms(6) in simp_all)
  then have avx2: "Transpose8xNAVX2 streams num count out = Some (?W count)"
    using scalar by (auto simp: Transpose8xNAVX2_def)
  have "\<forall>s \<in> set (take num streams). count \<le> length s"
    using assms(4,5) by (auto simp: in_set_conv_nth)
  moreover have "(count - 1) * 8 + max 8 num \<le> length out" using assms(1,3,7) by (cases count) simp_all
  ultimately show ?thesis
    using assms(1-4) avx2 scalar [of 0] by (simp add: Transpose8xN_def rows_written_def)
qed

text \<open>The output streams of which the first \<open>j\<close> elements are written.\<close>

definition streams_written :: "u32 list \<Rightarrow> nat \<Rightarrow> u32 list list \<Rightarrow> nat \<Rightarrow> u32 list list" where
  "streams_written inp num out j =
     map (\<lambda>k. map (\<lambda>i. inp ! (i * 8 + k)) [0..<j] @ drop j (out ! k)) [0..<num] @ drop num out"

lemma streams_written_0:
  assumes "num \<le> length out"
  shows "streams_written inp num out 0 = out"
proof -
  have "map ((!) out) [0..<num] = take num out" using assms by (intro nth_equalityI) simp_all
  then show ?thesis by (simp add: streams_written_def)
qed

lemma load_row_eq:
  assumes "num \<le> 8" and "num \<le> length out" and "\<And>k. k < num \<Longrightarrow> j < length (out ! k)" and "j < 536870912"
  shows "load_row inp num j (streams_written inp num out j) = streams_written inp num out (Suc j)"
proof -
  let ?B = "streams_written inp num out"
  have len: "num \<le> length (?B j)" using assms(2) by (simp add: streams_written_def)
  have "(?B j ! k)[j := inp ! wrap32 (j * 8 + k)] =
      map (\<lambda>i. inp ! (i * 8 + k)) [0..<Suc j] @ drop (Suc j) (out ! k)" if "k < num" for k
  proof -
    have "drop j (out ! k) = out ! k ! j # drop (Suc j) (out ! k)"
      using assms(3) [OF that] by (simp add: Cons_nth_drop_Suc)
    then show ?thesis
      using that assms(1,4) by (simp add: streams_written_def nth_append list_update_append)
  qed
  then have "map (\<lambda>k. (?B j ! k)[j := inp ! wrap32 (j * 8 + k)]) [0..<num] @ drop num (?B j) = ?B (Suc j)"
    by (simp add: streams_written_def)
  then show ?thesis
    by (simp only: load_row_def fold_replace [OF len, where f = "\<lambda>k s. s[j := inp ! wrap32 (j * 8 + k)]"])
qed

lemma scalar_streams:
  assumes "num \<le> 8" and "num \<le> length out" and "\<And>k. k < num \<Longrightarrow> count \<le> length (out ! k)"
    and "count \<le> 536870912" and "j \<le> count"
  shows "TransposeNx8Scalar inp num j count (streams_written inp num out j) = streams_written inp num out count"
  using assms(5,4,3)
proof (induction count rule: dec_induct)
  case base
  then show ?case by (simp add: TransposeNx8Scalar_def)
next
  case (step n)
  have "k < num \<Longrightarrow> n < length (out ! k)" for k using step.prems(2) [of k] by simp
  moreover have "TransposeNx8Scalar inp num j n (streams_written inp num out j) = streams_written inp num out n"
    using step.prems by (intro step.IH) (simp_all add: Suc_leD)
  ultimately show ?case
    using step.hyps step.prems(1) load_row_eq [OF assms(1,2), of n inp] by (simp add: TransposeNx8Scalar_def)
qed

lemma load_block_eq:
  assumes "num \<le> 8" and "num \<le> length out" and "\<And>k. k < num \<Longrightarrow> count \<le> length (out ! k)"
    and "count \<le> 536870912" and "count * 8 \<le> length inp" and "j + 8 \<le> count"
  shows "load_block inp num j (streams_written inp num out j) = streams_written inp num out (j + 8)"
proof -
  let ?B = "streams_written inp num out"
  let ?rows = "Transpose8x8AVX2 (map (\<lambda>i. slice (wrap32 ((j + i) * 8)) 8 inp) [0..<8])"
  have len: "num \<le> length (?B j)" using assms(2) by (simp add: streams_written_def)
  have lane: "slice (wrap32 ((j + i) * 8)) 8 inp ! k = inp ! ((j + i) * 8 + k)" if "i < 8" "k < 8" for i k
  proof -
    have "wrap32 ((j + i) * 8) = (j + i) * 8" using that assms(4,6) by simp
    then show ?thesis using that assms(5,6) by (simp only:) (intro nth_slice, simp_all)
  qed
  have rows: "?rows ! k = map (\<lambda>i. inp ! ((j + i) * 8 + k)) [0..<8]" if "k < num" for k
  proof -
    have "?rows ! k = map (\<lambda>i. map (\<lambda>i. slice (wrap32 ((j + i) * 8)) 8 inp) [0..<8] ! i ! k) [0..<8]"
      using that assms(1) by (simp only: Transpose8x8AVX2_eq nth_map_upt diff_zero length_upt add_0)
    also have "\<dots> = map (\<lambda>i. inp ! ((j + i) * 8 + k)) [0..<8]"
      using that assms(1) lane [of _ k] by (intro map_cong refl) simp
    finally show ?thesis .
  qed
  have up: "map f [0..<j + 8] = map f [0..<j] @ map (\<lambda>i. f (j + i)) [0..<8]" for f :: "nat \<Rightarrow> u32"
  proof -
    have "[j..<j + 8] = map (\<lambda>i. j + i) [0..<8]" by (simp only: map_add_upt add.commute)
    then have "[0..<j + 8] = [0..<j] @ map (\<lambda>i. j + i) [0..<8]"
      using upt_add_eq_append [of 0 j 8] by simp
    then show ?thesis by (simp only: map_append map_map comp_def)
  qed
  have "store8 j (?rows ! k) (?B j ! k) =
      map (\<lambda>i. inp ! (i * 8 + k)) [0..<j + 8] @ drop (j + 8) (out ! k)" if "k < num" for k
  proof -
    have b: "?B j ! k = map (\<lambda>i. inp ! (i * 8 + k)) [0..<j] @ drop j (out ! k)"
      using that by (simp add: streams_written_def nth_append)
    show ?thesis unfolding store8_def rows [OF that] b up by (simp add: add.commute)
  qed
  then have "map (\<lambda>k. store8 j (?rows ! k) (?B j ! k)) [0..<num] @ drop num (?B j) = ?B (j + 8)"
    by (simp add: streams_written_def)
  then show ?thesis
    by (simp only: load_block_def Let_def fold_replace [OF len, where f = "\<lambda>k. store8 j (?rows ! k)"])
qed

lemma TransposeNx8_spec:
  assumes "0 < count" and "0 < num" and "num \<le> 8" and "num \<le> length out"
    and "\<And>k. k < num \<Longrightarrow> count \<le> length (out ! k)"
    and "count \<le> 536870912" and "count * 8 \<le> length inp"
  shows "TransposeNx8 build inp out num count =
    Some (map (\<lambda>k. map (\<lambda>j. inp ! (j * 8 + k)) [0..<count] @ drop count (out ! k)) [0..<num] @ drop num out)"
proof -
  let ?B = "streams_written inp num out"
  have scalar: "TransposeNx8Scalar inp num j count (?B j) = ?B count" if "j \<le> count" for j
    using scalar_streams [OF assms(3-6) that] .
  note B0 = streams_written_0 [OF assms(4), of inp]
  have "\<exists>j t. loop8 (load_block inp num) count 0 out = Some (j, t) \<and> t = ?B j \<and> j \<le> count \<and> count < j + 8"
  proof (rule loop8_rule)
    fix j t
    assume "j + 8 \<le> count" and "t = ?B j"
    then show "load_block inp num j t = ?B (j + 8)"
      using load_block_eq [OF assms(3-7)] by simp
  qed (use assms(6) B0 in simp_all)
  then have avx2: "TransposeNx8AVX2 inp num count out = Some (?B count)"
    using scalar by (auto simp: TransposeNx8AVX2_def)
  have "\<forall>s \<in> set (take num out). count \<le> length s"
    using assms(4,5) by (auto simp: in_set_conv_nth)
  moreover have "(count - 1) * 8 + max 8 num \<le> length inp" using assms(1,3,7) by (cases count) simp_all
  ultimately show ?thesis
    using assms(1-4) avx2 scalar [of 0] B0 by (simp add: TransposeNx8_def streams_written_def)
qed

text \<open>C38: for up to eight streams of equal length, at most 2^29 elements each (so that the indices
  do not wrap), transposing to the interleaved form and back returns the streams, whichever of the
  scalar and AVX2 routines a build uses in each direction; the routines write exactly the first
  \<open>count\<close> rows and, of each output stream, the first \<open>count\<close> elements.\<close>

theorem transpose_roundtrip:
  assumes "0 < count" and "count \<le> 536870912" and "0 < length streams" and "length streams \<le> 8"
    and "\<forall>s \<in> set streams. length s = count" and "count * 8 \<le> length buf"
    and "length streams \<le> length out" and "\<forall>s \<in> set out. count \<le> length s"
  shows "\<exists>rows. Transpose8xN build streams buf (length streams) count = Some rows
    \<and> length rows = length buf \<and> drop (count * 8) rows = drop (count * 8) buf
    \<and> TransposeNx8 build' rows out (length streams) count =
        Some (map2 (\<lambda>s old. s @ drop count old) streams out @ drop (length streams) out)"
proof -
  let ?rows = "concat (map (interleave_row streams (length streams)) [0..<count])"
  have to: "Transpose8xN build streams buf (length streams) count = Some (?rows @ drop (count * 8) buf)"
    using assms by (intro Transpose8xN_spec) simp_all
  have len: "length ?rows = count * 8" by (rule length_rows) simp
  have "?rows ! (j * 8 + k) = streams ! k ! j" if "j < count" "k < length streams" for j k
  proof -
    have "?rows ! (j * 8 + k) = map (interleave_row streams (length streams)) [0..<count] ! j ! k"
      using that assms(4) by (intro nth_concat_uniform) auto
    also have "\<dots> = streams ! k ! j" using that assms(4) by (simp add: interleave_row_def)
    finally show ?thesis .
  qed
  moreover have "j * 8 + k < count * 8" if "j < count" "k < length streams" for j k
    using that assms(4) by linarith
  ultimately have "map (\<lambda>j. (?rows @ drop (count * 8) buf) ! (j * 8 + k)) [0..<count] = streams ! k"
    if "k < length streams" for k
    using that len assms(5) by (intro nth_equalityI) (simp_all add: nth_append)
  then have written: "map (\<lambda>k. map (\<lambda>j. (?rows @ drop (count * 8) buf) ! (j * 8 + k)) [0..<count]
        @ drop count (out ! k)) [0..<length streams] = map2 (\<lambda>s old. s @ drop count old) streams out"
    using assms(7) by (intro nth_equalityI) simp_all
  have "TransposeNx8 build' (?rows @ drop (count * 8) buf) out (length streams) count =
      Some (map (\<lambda>k. map (\<lambda>j. (?rows @ drop (count * 8) buf) ! (j * 8 + k)) [0..<count]
        @ drop count (out ! k)) [0..<length streams] @ drop (length streams) out)"
    by (rule TransposeNx8_spec) (use assms len in simp_all)
  then show ?thesis unfolding written using to len assms(6) by simp
qed

theorem transpose_roundtrip_witness:
  "\<exists>rows. Transpose8xN AVX2 [[1, 2], [3, 4], [5, 6]] (replicate 17 9) (length [[1, 2 :: u32], [3, 4], [5, 6]]) 2 = Some rows
    \<and> TransposeNx8 Scalar rows (replicate 8 [0, 0]) (length [[1, 2 :: u32], [3, 4], [5, 6]]) 2 =
        Some (map2 (\<lambda>s old. s @ drop 2 old) [[1, 2], [3, 4], [5, 6]] (replicate 8 [0, 0])
          @ drop (length [[1, 2 :: u32], [3, 4], [5, 6]]) (replicate 8 [0, 0]))"
  using transpose_roundtrip [of 2 "[[1, 2], [3, 4], [5, 6]]" "replicate 17 9" "replicate 8 [0, 0]" AVX2 Scalar]
  by (simp del: drop_replicate) blast

end
