(* ===== verification/Address_Column.thy ===== *)
theory Address_Column
  imports Common_Types Bitpack Prefix_Sum Transpose "HOL-Library.Monad_Syntax"
begin

text \<open>
  \<open>storage::AddressColumn\<close> (src/storage/address_column.cpp) and the gathers of
  src/simd/address_decode.cpp: the record addresses of a cluster, in page units.  V1 keeps one
  base page per block and the bit-packed page counts, and rebuilds the offsets as prefix sums;
  V2 is a raw table.  \<open>None\<close> is a division by zero or an access outside a buffer, \<open>Inl\<close> an error
  status.  The decoder also has the multi-stream path: eight blocks at a time through
  unpack, transpose, interleaved prefix sums and transpose back.
\<close>

section \<open>Data\<close>

datatype addr_format = V1Packed | V2RawTable

record raw_entry =
  re_offset_pages :: nat
  re_size_pages :: nat

record addr_layout =
  al_page_size :: nat
  al_bit_width :: nat
  al_granularity :: nat
  al_fixed_packed :: nat
  al_last_packed :: nat
  al_num_blocks :: nat

record addr_block =
  ab_base :: nat
  ab_packed :: bytes

record enc_column =
  ec_format :: addr_format
  ec_layout :: addr_layout
  ec_blocks :: "addr_block list"
  ec_raw :: "raw_entry list"
  ec_total :: nat


definition kMultiStreamWidth :: nat where
  "kMultiStreamWidth = 8"

section \<open>Encoding\<close>







definition EncodeRawTableV2 :: "address_entry list \<Rightarrow> nat \<Rightarrow> enc_column option" where
  "EncodeRawTableV2 entries page_size =
     (if page_size = 0 \<and> entries \<noteq> [] then None
      else Some \<lparr>ec_format = V2RawTable,
        ec_layout = \<lparr>al_page_size = page_size, al_bit_width = 1, al_granularity = 0,
          al_fixed_packed = 0, al_last_packed = 0, al_num_blocks = 0\<rparr>,
        ec_blocks = [],
        ec_raw = map (\<lambda>e. \<lparr>re_offset_pages = wrap32 (unat (ae_offset e) div page_size),
                           re_size_pages = wrap32 (unat (ae_size e) div page_size)\<rparr>) entries,
        ec_total = wrap32 (length entries)\<rparr>)"

definition ValidateRawTableV2Alignment :: "address_entry list \<Rightarrow> nat \<Rightarrow> bool" where
  "ValidateRawTableV2Alignment entries page_size \<longleftrightarrow>
     page_size \<noteq> 0 \<and> list_all (\<lambda>e. unat (ae_offset e) mod page_size = 0
       \<and> unat (ae_size e) mod page_size = 0) entries"

section \<open>Decoding\<close>

text \<open>Page units back to bytes: the offset is a 64-bit product, the size its low 32 bits.\<close>

definition materialize :: "nat \<Rightarrow> nat \<Rightarrow> u32 \<Rightarrow> u32 \<Rightarrow> address_entry" where
  "materialize base page_size units prefix =
     \<lparr>ae_offset = of_nat ((base + unat prefix) * page_size),
      ae_size = of_nat (unat units * page_size)\<rparr>"

definition DecodeRawEntryV2 :: "raw_entry \<Rightarrow> nat \<Rightarrow> address_entry" where
  "DecodeRawEntryV2 e page_size =
     \<lparr>ae_offset = of_nat (re_offset_pages e * page_size),
      ae_size = of_nat (re_size_pages e * page_size)\<rparr>"

definition round_up8 :: "nat \<Rightarrow> nat" where
  "round_up8 count = wrap32 (wrap32 (count + 7) div 8 * 8)"

definition DecodeSingleBlock ::
    "simd_build \<Rightarrow> addr_layout \<Rightarrow> addr_block \<Rightarrow> nat \<Rightarrow> address_entry list option" where
  "DecodeSingleBlock build layout block record_count =
     (if record_count = 0 then Some []
      else if round_up8 record_count < record_count then None
      else do {
        sizes \<leftarrow> BitUnpack build (ab_packed block) (al_bit_width layout) record_count;
        prefix \<leftarrow> ExclusivePrefixSum build
          (sizes @ replicate (round_up8 record_count - record_count) 0) record_count;
        Some (map2 (materialize (ab_base block) (al_page_size layout)) sizes prefix)
      })"

definition DecodeRawTableV2 :: "enc_column \<Rightarrow> address_entry list status_or" where
  "DecodeRawTableV2 column =
     (if ec_format column \<noteq> V2RawTable then
        Inl (kInvalidArgument, ''column is not V2 raw address table'')
      else if length (ec_raw column) \<noteq> ec_total column then
        Inl (kCorruption, ''raw address entry count mismatch'')
      else Inr (map (\<lambda>e. DecodeRawEntryV2 e (al_page_size (ec_layout column))) (ec_raw column)))"

text \<open>The unpacked blocks, one stream each.\<close>

fun unpack_streams ::
    "simd_build \<Rightarrow> nat \<Rightarrow> nat \<Rightarrow> addr_block list \<Rightarrow> u32 list list option" where
  "unpack_streams build bit_width granularity [] = Some []"
| "unpack_streams build bit_width granularity (block # blocks) = do {
     sizes \<leftarrow> BitUnpack build (ab_packed block) bit_width granularity;
     rest \<leftarrow> unpack_streams build bit_width granularity blocks;
     Some ((sizes @ replicate (round_up8 granularity - granularity) 0) # rest)
   }"

definition DecodeMultiStream ::
    "simd_build \<Rightarrow> addr_layout \<Rightarrow> addr_block list \<Rightarrow> address_entry list option" where
  "DecodeMultiStream build layout blocks =
     (let num_blocks = length blocks; G = al_granularity layout; K = kMultiStreamWidth
      in if num_blocks = 0 then Some []
         else if K < num_blocks \<or> round_up8 G < G \<or> wrap32 (G * K) < G * K then None
         else do {
           streams \<leftarrow> unpack_streams build (al_bit_width layout) G blocks;
           let sizes_soa = streams @ replicate (K - num_blocks) (replicate (round_up8 G) 0);
           interleaved_sizes \<leftarrow> Transpose8xN build sizes_soa (replicate (G * K) 0) num_blocks G;
           interleaved_prefix \<leftarrow>
             ExclusivePrefixSumMulti build interleaved_sizes (replicate (G * K) 0) G num_blocks;
           prefix_soa \<leftarrow>
             TransposeNx8 build interleaved_prefix (replicate K (replicate G 0)) num_blocks G;
           Some (concat (map (\<lambda>k. map (\<lambda>j.
             materialize (ab_base (blocks ! k)) (al_page_size layout)
               (sizes_soa ! k ! j) (prefix_soa ! k ! j)) [0..<G]) [0..<num_blocks]))
         })"

definition BlockRecordCount :: "addr_layout \<Rightarrow> nat \<Rightarrow> nat \<Rightarrow> nat" where
  "BlockRecordCount layout total_records block_idx =
     (if al_num_blocks layout \<le> block_idx then 0
      else if al_num_blocks layout = 0 then 0
      else if block_idx + 1 < al_num_blocks layout then al_granularity layout
      else let regular_records = (al_num_blocks layout - 1) * al_granularity layout
           in if total_records \<le> regular_records then 0
              else total_records - wrap32 regular_records)"

definition BlockPackedSize :: "addr_layout \<Rightarrow> nat \<Rightarrow> nat" where
  "BlockPackedSize layout block_idx =
     (if al_num_blocks layout \<le> block_idx then 0
      else if al_num_blocks layout = 0 then 0
      else if block_idx + 1 < al_num_blocks layout then al_fixed_packed layout
      else al_last_packed layout)"

text \<open>The batches of regular blocks, written one after the other into the
  \<open>total_records\<close> output entries.\<close>

function decode_batches ::
    "simd_build \<Rightarrow> addr_layout \<Rightarrow> nat \<Rightarrow> addr_block list \<Rightarrow> address_entry list
      \<Rightarrow> address_entry list option" where
  "decode_batches build layout total_records blocks out =
     (if blocks = [] then Some out
      else do {
        entries \<leftarrow> DecodeMultiStream build layout (take kMultiStreamWidth blocks);
        if length out + length entries \<le> total_records
        then decode_batches build layout total_records (drop kMultiStreamWidth blocks) (out @ entries)
        else None
      })"
  by pat_completeness auto
termination
  by (relation "measure (\<lambda>(b, l, t, blocks, out). length blocks)")
    (auto simp: kMultiStreamWidth_def)

declare decode_batches.simps [simp del]

definition DecodeBatchBlocks ::
    "simd_build \<Rightarrow> addr_layout \<Rightarrow> addr_block list \<Rightarrow> nat \<Rightarrow> address_entry list status_or option" where
  "DecodeBatchBlocks build layout blocks total_records =
     (if length blocks \<noteq> al_num_blocks layout then
        Some (Inl (kInvalidArgument, ''Address block count does not match layout''))
      else if al_num_blocks layout = 0 then
        (if total_records \<noteq> 0
         then Some (Inl (kCorruption, ''Zero blocks with non-zero total_records''))
         else Some (Inr []))
      else if al_granularity layout = 0 then
        Some (Inl (kCorruption, ''Invalid block granularity''))
      else
        let tail_count = BlockRecordCount layout total_records (al_num_blocks layout - 1);
            has_separate_tail = (tail_count < al_granularity layout
              \<or> al_last_packed layout \<noteq> al_fixed_packed layout);
            num_regular_blocks =
              (if has_separate_tail then al_num_blocks layout - 1 else al_num_blocks layout)
        in do {
          out \<leftarrow> decode_batches build layout total_records (take num_regular_blocks blocks) [];
          out' \<leftarrow> (if has_separate_tail then do {
                    tail_entries \<leftarrow> DecodeSingleBlock build layout (last blocks) tail_count;
                    if length out + tail_count \<le> total_records then Some (out @ tail_entries)
                    else None
                  } else Some out);
          Some (if length out' \<noteq> total_records
                then Inl (kCorruption, ''Decoded address count mismatch'')
                else Inr out')
        })"

definition AddressColumn_Decode ::
    "simd_build \<Rightarrow> enc_column \<Rightarrow> address_entry list status_or option" where
  "AddressColumn_Decode build column =
     (if ec_format column = V2RawTable then Some (DecodeRawTableV2 column)
      else DecodeBatchBlocks build (ec_layout column) (ec_blocks column) (ec_total column))"

section \<open>Gathering candidate addresses\<close>

definition gather :: "('a \<Rightarrow> 'b) \<Rightarrow> 'a list \<Rightarrow> nat list \<Rightarrow> 'b list option" where
  "gather f xs idxs = (if list_all (\<lambda>i. i < length xs) idxs then Some (map (\<lambda>i. f (xs ! i)) idxs) else None)"

definition DecodeAddressBatchRaw ::
    "raw_entry list \<Rightarrow> nat list \<Rightarrow> nat \<Rightarrow> address_entry list option" where
  "DecodeAddressBatchRaw raw_entries vec_idxs page_size =
     gather (\<lambda>e. DecodeRawEntryV2 e page_size) raw_entries vec_idxs"

definition DecodeAddressBatch ::
    "address_entry list \<Rightarrow> nat list \<Rightarrow> address_entry list option" where
  "DecodeAddressBatch decoded_entries vec_idxs = gather id decoded_entries vec_idxs"


section \<open>What a block decodes to\<close>

text \<open>The records of a block, from the packed page counts.\<close>

definition block_entries :: "addr_layout \<Rightarrow> addr_block \<Rightarrow> nat \<Rightarrow> address_entry list" where
  "block_entries layout block n =
     (let sizes = map (\<lambda>i. packed_value (ab_packed block) (i * al_bit_width layout) (al_bit_width layout)) [0..<n]
      in map (\<lambda>i. materialize (ab_base block) (al_page_size layout) (sizes ! i) (sum_list (take i sizes))) [0..<n])"

text \<open>A block holds \<open>n\<close> packed values that the 32-bit bit counter can address.\<close>

definition block_holds :: "addr_layout \<Rightarrow> addr_block \<Rightarrow> nat \<Rightarrow> bool" where
  "block_holds layout block n \<longleftrightarrow> 0 < al_bit_width layout \<and> al_bit_width layout \<le> 32
     \<and> n * al_bit_width layout \<le> 8 * length (ab_packed block)
     \<and> n * al_bit_width layout < 4294967296"

lemma length_block_entries [simp]: "length (block_entries layout block n) = n"
  by (simp add: block_entries_def Let_def)

lemma round_up8_ge: "n \<le> 4294967288 \<Longrightarrow> n \<le> round_up8 n"
proof -
  assume "n \<le> 4294967288"
  then have "(n + 7) div 8 * 8 \<le> 4294967288" and w: "wrap32 (n + 7) = n + 7" by simp_all
  then have "round_up8 n = (n + 7) div 8 * 8"
    unfolding round_up8_def w by (intro mod_less) linarith
  then show ?thesis by simp
qed

lemma block_unpack:
  assumes "block_holds layout block n"
  shows "BitUnpack build (ab_packed block) (al_bit_width layout) n =
    Some (map (\<lambda>i. packed_value (ab_packed block) (i * al_bit_width layout) (al_bit_width layout)) [0..<n])"
  using assms by (intro BitUnpack_spec) (simp_all add: block_holds_def)

lemma DecodeSingleBlock_spec:
  assumes "block_holds layout block n" and "n < 4294967288"
  shows "DecodeSingleBlock build layout block n = Some (block_entries layout block n)"
proof (cases "n = 0")
  case True
  then show ?thesis by (simp add: DecodeSingleBlock_def block_entries_def)
next
  case False
  define sizes where "sizes = map (\<lambda>i. packed_value (ab_packed block) (i * al_bit_width layout)
    (al_bit_width layout)) [0..<n]"
  have len: "length sizes = n" by (simp add: sizes_def)
  have unpack: "BitUnpack build (ab_packed block) (al_bit_width layout) n = Some sizes"
    unfolding sizes_def by (rule block_unpack [OF assms(1)])
  let ?pad = "replicate (round_up8 n - n) (0 :: u32)"
  have "ExclusivePrefixSum build (sizes @ ?pad) n =
      Some (map (\<lambda>i. sum_list (take i (sizes @ ?pad))) [0..<n])"
    by (rule ExclusivePrefixSum_correct) (use assms(2) in \<open>simp_all add: len\<close>)
  moreover have "map (\<lambda>i. sum_list (take i (sizes @ ?pad))) [0..<n] =
      map (\<lambda>i. sum_list (take i sizes)) [0..<n]"
    by (simp add: len)
  moreover have "map2 f sizes (map g [0..<n]) = map (\<lambda>i. f (sizes ! i) (g i)) [0..<n]"
    for f :: "u32 \<Rightarrow> u32 \<Rightarrow> address_entry" and g
    by (intro nth_equalityI) (simp_all add: len)
  ultimately show ?thesis
    using False assms(2) round_up8_ge [of n]
    by (simp add: DecodeSingleBlock_def unpack block_entries_def sizes_def [symmetric])
qed

section \<open>The multi-stream path decodes each block by itself\<close>

lemma unpack_streams_spec:
  assumes "\<forall>block \<in> set blocks. block_holds layout block G"
  shows "unpack_streams build (al_bit_width layout) G blocks = Some (map (\<lambda>block.
    map (\<lambda>i. packed_value (ab_packed block) (i * al_bit_width layout) (al_bit_width layout)) [0..<G]
      @ replicate (round_up8 G - G) 0) blocks)"
  using assms by (induction blocks) (simp_all add: block_unpack)

text \<open>The three middle steps together: each stream becomes its exclusive prefix sums.\<close>

lemma interleaved_rows:
  assumes "m \<le> 8"
  shows "length (concat (map (interleave_row soa m) [0..<G])) = G * 8"
    and "j < G \<Longrightarrow> k < 8 \<Longrightarrow> concat (map (interleave_row soa m) [0..<G]) ! (j * 8 + k) =
      (if k < m then soa ! k ! j else 0)"
proof -
  let ?rows = "map (interleave_row soa m) [0..<G]"
  have uniform: "length r = 8" if "r \<in> set ?rows" for r
    using that by (auto simp: interleave_row_def)
  from uniform have "length (concat ?rows) = length ?rows * 8" by (rule length_concat_uniform)
  then show "length (concat ?rows) = G * 8" by simp
  assume j: "j < G" and k: "k < 8"
  from uniform have "concat ?rows ! (j * 8 + k) = ?rows ! j ! k"
    by (rule nth_concat_uniform) (use j k in simp_all)
  then show "concat ?rows ! (j * 8 + k) = (if k < m then soa ! k ! j else 0)"
    using j k by (simp add: interleave_row_def)
qed

lemma stream_sum_interleaved:
  assumes "m \<le> 8" and "k < m" and "j \<le> G" and "G \<le> length (soa ! k)"
  shows "stream_sum (concat (map (interleave_row soa m) [0..<G])) k j = sum_list (take j (soa ! k))"
proof -
  have "map (\<lambda>i. concat (map (interleave_row soa m) [0..<G]) ! (i * 8 + k)) [0..<j] = take j (soa ! k)"
    using assms by (intro nth_equalityI) (simp_all add: interleaved_rows)
  then show ?thesis by (simp only: stream_sum_def)
qed

lemma prefix_pipeline:
  assumes "0 < m" and "m \<le> 8" and "0 < G" and "length soa = 8" and "length out = 8"
    and "\<And>k. k < m \<Longrightarrow> G \<le> length (soa ! k)" and "\<And>k. k < m \<Longrightarrow> length (out ! k) = G"
    and "G \<le> 536870912" and "length buf = G * 8" and "length buf' = G * 8"
  shows "\<exists>inter prefix. Transpose8xN build soa buf m G = Some inter
    \<and> ExclusivePrefixSumMulti build inter buf' G m = Some prefix
    \<and> TransposeNx8 build prefix out m G =
        Some (map (\<lambda>k. map (\<lambda>j. sum_list (take j (soa ! k))) [0..<G]) [0..<m] @ drop m out)"
proof -
  define inter where "inter = concat (map (interleave_row soa m) [0..<G])"
  define sums where "sums = concat (map (sum_row inter) [0..<G])"
  have to_rows: "Transpose8xN build soa buf m G = Some inter"
    by (subst Transpose8xN_spec) (use assms in \<open>simp_all add: inter_def\<close>)
  have pre: "ExclusivePrefixSumMulti build inter buf' G m = Some sums"
    by (subst ExclusivePrefixSumMulti_spec) (use assms in \<open>simp_all add: inter_def interleaved_rows sums_def\<close>)
  have len: "length sums = G * 8" unfolding sums_def by (rule length_rows) simp
  have "sums ! (j * 8 + k) = sum_list (take j (soa ! k))" if "k < m" "j < G" for k j
  proof -
    have "sums ! (j * 8 + k) = map (sum_row inter) [0..<G] ! j ! k"
      unfolding sums_def by (rule nth_concat_uniform) (use that assms(2) in auto)
    then show ?thesis using that assms(2,6) by (simp add: sum_row_def inter_def stream_sum_interleaved)
  qed
  then have cols: "map (\<lambda>k. map (\<lambda>j. sums ! (j * 8 + k)) [0..<G] @ drop G (out ! k)) [0..<m] =
      map (\<lambda>k. map (\<lambda>j. sum_list (take j (soa ! k))) [0..<G]) [0..<m]"
    using assms(7) by (intro nth_equalityI) simp_all
  have "TransposeNx8 build sums out m G =
      Some (map (\<lambda>k. map (\<lambda>j. sums ! (j * 8 + k)) [0..<G] @ drop G (out ! k)) [0..<m] @ drop m out)"
    using assms(1-3,5,7,8) len by (intro TransposeNx8_spec) simp_all
  then show ?thesis unfolding cols using to_rows pre by blast
qed

lemma DecodeMultiStream_spec:
  assumes "\<forall>block \<in> set blocks. block_holds layout block (al_granularity layout)"
    and "length blocks \<le> 8" and "0 < al_granularity layout"
    and "al_granularity layout * 8 < 4294967296"
  shows "DecodeMultiStream build layout blocks =
    Some (concat (map (\<lambda>block. block_entries layout block (al_granularity layout)) blocks))"
proof (cases "blocks = []")
  case True
  then show ?thesis by (simp add: DecodeMultiStream_def)
next
  case False
  define G where "G = al_granularity layout"
  define m where "m = length blocks"
  define sizes where "sizes block = map (\<lambda>i. packed_value (ab_packed block)
    (i * al_bit_width layout) (al_bit_width layout)) [0..<G]" for block :: addr_block
  let ?pad = "\<lambda>block :: addr_block. sizes block @ replicate (round_up8 G - G) 0"
  define soa where "soa = map ?pad blocks @ replicate (8 - m) (replicate (round_up8 G) 0)"
  let ?out = "replicate 8 (replicate G 0) :: u32 list list"
  have m: "0 < m" "m \<le> 8" using assms(2) False by (simp_all add: m_def)
  have G: "0 < G" "G * 8 < 4294967296" using assms(3,4) by (simp_all add: G_def)
  have len [simp]: "length (sizes block) = G" for block by (simp add: sizes_def)
  have up: "G \<le> round_up8 G" using G by (intro round_up8_ge) simp
  have streams: "unpack_streams build (al_bit_width layout) G blocks = Some (map ?pad blocks)"
    using unpack_streams_spec [OF assms(1), of build] by (simp add: G_def sizes_def)
  have soa_nth: "soa ! k = ?pad (blocks ! k)" if "k < m" for k
    using that by (simp add: soa_def nth_append m_def)
  have "length soa = 8" using m by (simp add: soa_def m_def)
  then obtain inter prefix where pipe: "Transpose8xN build soa (replicate (G * 8) 0) m G = Some inter"
    "ExclusivePrefixSumMulti build inter (replicate (G * 8) 0) G m = Some prefix"
    "TransposeNx8 build prefix ?out m G =
      Some (map (\<lambda>k. map (\<lambda>j. sum_list (take j (soa ! k))) [0..<G]) [0..<m] @ drop m ?out)"
    using prefix_pipeline [OF m G(1), where soa = soa and out = ?out and build = build
        and buf = "replicate (G * 8) 0" and buf' = "replicate (G * 8) 0"]
    using G(2) m(2) by (auto simp: soa_nth)
  have entries: "map (\<lambda>j. materialize (ab_base (blocks ! k)) (al_page_size layout) (soa ! k ! j)
        ((map (\<lambda>k. map (\<lambda>j. sum_list (take j (soa ! k))) [0..<G]) [0..<m] @ drop m ?out) ! k ! j))
        [0..<G] = block_entries layout (blocks ! k) G" if "k < m" for k
    using that
    by (simp add: block_entries_def Let_def nth_append soa_nth flip: sizes_def)
  have all: "map (\<lambda>k. map (\<lambda>j. materialize (ab_base (blocks ! k)) (al_page_size layout) (soa ! k ! j)
        ((map (\<lambda>k. map (\<lambda>j. sum_list (take j (soa ! k))) [0..<G]) [0..<m] @ drop m ?out) ! k ! j))
        [0..<G]) [0..<m] = map (\<lambda>block. block_entries layout block G) blocks"
    by (intro nth_equalityI) (simp_all add: entries [symmetric] m_def)
  have c: "m \<noteq> 0" "\<not> 8 < m" "\<not> round_up8 G < G" "\<not> wrap32 (G * 8) < G * 8"
    using m G up by simp_all
  show ?thesis
    unfolding DecodeMultiStream_def Let_def kMultiStreamWidth_def G_def [symmetric] m_def [symmetric]
    by (simp only: c if_False simp_thms streams soa_def [symmetric] pipe all bind.bind_lunit)
qed


section \<open>Batches\<close>




section \<open>Encodable address lists\<close>





section \<open>Encoding a block\<close>







section \<open>Encoding a column\<close>








section \<open>Properties\<close>



text \<open>C12: decoding up to eight blocks through unpack, transpose, interleaved prefix sums and
  transpose back gives the same records as decoding each block by itself, on every build.\<close>

theorem multi_stream_equals_single:
  assumes "\<forall>block \<in> set blocks. block_holds layout block (al_granularity layout)"
    and "length blocks \<le> 8" and "0 < al_granularity layout"
    and "al_granularity layout * 8 < 4294967296"
  shows "\<exists>parts. list_all2 (\<lambda>block part. DecodeSingleBlock build' layout block (al_granularity layout)
      = Some part) blocks parts
    \<and> DecodeMultiStream build layout blocks = Some (concat parts)"
proof -
  let ?parts = "map (\<lambda>block. block_entries layout block (al_granularity layout)) blocks"
  have "DecodeSingleBlock build' layout block (al_granularity layout) =
      Some (block_entries layout block (al_granularity layout))" if "block \<in> set blocks" for block
    using assms that by (intro DecodeSingleBlock_spec) simp_all
  then have "list_all2 (\<lambda>block part. DecodeSingleBlock build' layout block (al_granularity layout)
      = Some part) blocks ?parts"
    by (simp add: list_all2_conv_all_nth)
  then show ?thesis using DecodeMultiStream_spec [OF assms, of build] by blast
qed

theorem multi_stream_equals_single_witness:
  "\<exists>parts. DecodeMultiStream AVX2
      \<lparr>al_page_size = 4096, al_bit_width = 2, al_granularity = 4, al_fixed_packed = 1,
        al_last_packed = 1, al_num_blocks = 2\<rparr>
      [\<lparr>ab_base = 3, ab_packed = [0xB4]\<rparr>, \<lparr>ab_base = 20, ab_packed = [0x1B]\<rparr>] = Some (concat parts)
    \<and> length parts = 2"
proof -
  let ?layout = "\<lparr>al_page_size = 4096, al_bit_width = 2, al_granularity = 4, al_fixed_packed = 1,
    al_last_packed = 1, al_num_blocks = 2\<rparr>"
  obtain parts where "list_all2 (\<lambda>block part. DecodeSingleBlock Scalar ?layout block 4 = Some part)
      [\<lparr>ab_base = 3, ab_packed = [0xB4]\<rparr>, \<lparr>ab_base = 20, ab_packed = [0x1B]\<rparr>] parts"
    "DecodeMultiStream AVX2 ?layout
      [\<lparr>ab_base = 3, ab_packed = [0xB4]\<rparr>, \<lparr>ab_base = 20, ab_packed = [0x1B]\<rparr>] = Some (concat parts)"
    using multi_stream_equals_single [of
        "[\<lparr>ab_base = 3, ab_packed = [0xB4]\<rparr>, \<lparr>ab_base = 20, ab_packed = [0x1B]\<rparr>]" ?layout Scalar AVX2]
    by (auto simp: block_holds_def)
  moreover from this(1) have "length parts = 2" by (auto simp: list_all2_Cons1)
  ultimately show ?thesis by blast
qed

text \<open>The raw table keeps the low 32 bits of a page number.\<close>

definition raw_table_entry :: "nat \<Rightarrow> address_entry \<Rightarrow> address_entry" where
  "raw_table_entry page_size e = e\<lparr>ae_offset := of_nat (unat (ae_offset e) mod (4294967296 * page_size))\<rparr>"

lemma raw_entry_decoded:
  assumes "unat (ae_offset e) mod page_size = 0" and "unat (ae_size e) mod page_size = 0"
  shows "DecodeRawEntryV2 \<lparr>re_offset_pages = wrap32 (unat (ae_offset e) div page_size),
      re_size_pages = wrap32 (unat (ae_size e) div page_size)\<rparr> page_size = raw_table_entry page_size e"
proof -
  have "unat (ae_size e) div page_size < 4294967296"
    using unat_bound32 [of "ae_size e"] div_le_dividend [of "unat (ae_size e)" page_size] by linarith
  moreover have exact: "unat (ae_offset e) div page_size * page_size = unat (ae_offset e)"
    "unat (ae_size e) div page_size * page_size = unat (ae_size e)"
    using assms by (metis dvd_div_mult_self mod_eq_0_iff_dvd)+
  moreover have "wrap32 (unat (ae_offset e) div page_size) * page_size =
      unat (ae_offset e) mod (4294967296 * page_size)"
    using mult_mod_left [of "unat (ae_offset e) div page_size" 4294967296 page_size] exact(1) by simp
  ultimately show ?thesis by (simp add: DecodeRawEntryV2_def raw_table_entry_def)
qed

lemma raw_table_entry_iff:
  assumes "0 < page_size"
  shows "raw_table_entry page_size e = e \<longleftrightarrow> unat (ae_offset e) < 4294967296 * page_size"
proof
  assume "raw_table_entry page_size e = e"
  then have "ae_offset e = of_nat (unat (ae_offset e) mod (4294967296 * page_size))"
    by (metis raw_table_entry_def address_entry.select_convs(1) address_entry.surjective
        address_entry.update_convs(1))
  then have "unat (ae_offset e) = unat (of_nat (unat (ae_offset e) mod (4294967296 * page_size)) :: u64)"
    by simp
  also have "\<dots> \<le> unat (ae_offset e) mod (4294967296 * page_size)"
    by (simp add: unat_of_nat)
  also have "\<dots> < 4294967296 * page_size" using assms by simp
  finally show "unat (ae_offset e) < 4294967296 * page_size" .
next
  assume "unat (ae_offset e) < 4294967296 * page_size"
  then show "raw_table_entry page_size e = e" by (simp add: raw_table_entry_def)
qed

text \<open>C16: entries that pass the alignment check decode from the raw table, and gather from it, to
  themselves with the offset reduced modulo 2^32 pages; so they survive exactly when every offset is
  below 2^32 pages, which the alignment check does not look at and the encoder does not report.\<close>

theorem raw_table_roundtrip:
  assumes "ValidateRawTableV2Alignment entries page_size" and "length entries < 4294967296"
  shows "\<exists>column. EncodeRawTableV2 entries page_size = Some column
    \<and> AddressColumn_Decode build column = Some (Inr (map (raw_table_entry page_size) entries))
    \<and> DecodeAddressBatchRaw (ec_raw column) idxs page_size =
        DecodeAddressBatch (map (raw_table_entry page_size) entries) idxs
    \<and> (AddressColumn_Decode build column = Some (Inr entries) \<longleftrightarrow>
        (\<forall>e \<in> set entries. unat (ae_offset e) < 4294967296 * page_size))"
proof -
  have ps: "page_size \<noteq> 0" using assms(1) by (simp add: ValidateRawTableV2Alignment_def)
  have dec: "DecodeRawEntryV2 \<lparr>re_offset_pages = wrap32 (unat (ae_offset e) div page_size),
      re_size_pages = wrap32 (unat (ae_size e) div page_size)\<rparr> page_size = raw_table_entry page_size e"
    if "e \<in> set entries" for e
    using assms(1) that by (intro raw_entry_decoded) (auto simp: ValidateRawTableV2Alignment_def list_all_iff)
  define raw where "raw = map (\<lambda>e. \<lparr>re_offset_pages = wrap32 (unat (ae_offset e) div page_size),
    re_size_pages = wrap32 (unat (ae_size e) div page_size)\<rparr>) entries"
  define column where "column = \<lparr>ec_format = V2RawTable,
    ec_layout = \<lparr>al_page_size = page_size, al_bit_width = 1, al_granularity = 0,
      al_fixed_packed = 0, al_last_packed = 0, al_num_blocks = 0\<rparr>,
    ec_blocks = [], ec_raw = raw, ec_total = wrap32 (length entries)\<rparr>"
  have "map (\<lambda>e. DecodeRawEntryV2 e page_size) raw = map (raw_table_entry page_size) entries"
    unfolding raw_def map_map comp_def by (intro map_cong refl dec)
  then have decoded: "AddressColumn_Decode build column = Some (Inr (map (raw_table_entry page_size) entries))"
    using assms(2) by (simp add: AddressColumn_Decode_def DecodeRawTableV2_def column_def raw_def)
  have "gather (\<lambda>e. DecodeRawEntryV2 e page_size) raw idxs =
      gather id (map (raw_table_entry page_size) entries) idxs"
    using dec by (auto simp: gather_def list_all_iff raw_def)
  then have gathered: "DecodeAddressBatchRaw (ec_raw column) idxs page_size =
      DecodeAddressBatch (map (raw_table_entry page_size) entries) idxs"
    using ps by (simp add: DecodeAddressBatchRaw_def DecodeAddressBatch_def column_def)
  have "map (raw_table_entry page_size) entries = entries \<longleftrightarrow>
      (\<forall>e \<in> set entries. raw_table_entry page_size e = e)"
    by (simp add: list_eq_iff_nth_eq all_set_conv_all_nth)
  then have survive: "AddressColumn_Decode build column = Some (Inr entries) \<longleftrightarrow>
      (\<forall>e \<in> set entries. unat (ae_offset e) < 4294967296 * page_size)"
    using ps by (simp add: decoded raw_table_entry_iff)
  have "EncodeRawTableV2 entries page_size = Some column"
    using ps by (simp add: EncodeRawTableV2_def column_def raw_def)
  then show ?thesis using decoded gathered survive by blast
qed

theorem raw_table_roundtrip_witness:
  "\<exists>column. EncodeRawTableV2 [\<lparr>ae_offset = 4294967297, ae_size = 1\<rparr>] 1 = Some column
    \<and> AddressColumn_Decode Scalar column = Some (Inr [\<lparr>ae_offset = 1, ae_size = 1\<rparr>])"
  using raw_table_roundtrip [of "[\<lparr>ae_offset = 4294967297, ae_size = 1\<rparr>]" 1 Scalar]
  by (auto simp: ValidateRawTableV2Alignment_def raw_table_entry_def)

text \<open>The final count check comes after the entries were written: a layout with more regular
  blocks than the record count allows writes past the output first.\<close>

lemma decode_overruns_before_count_check:
  "DecodeBatchBlocks Scalar \<lparr>al_page_size = 4096, al_bit_width = 8, al_granularity = 2,
      al_fixed_packed = 2, al_last_packed = 2, al_num_blocks = 2\<rparr>
    [\<lparr>ab_base = 0, ab_packed = [1, 1]\<rparr>, \<lparr>ab_base = 0, ab_packed = [1, 1]\<rparr>] 1 = None"
proof -
  let ?layout = "\<lparr>al_page_size = 4096, al_bit_width = 8, al_granularity = 2,
    al_fixed_packed = 2, al_last_packed = 2, al_num_blocks = 2\<rparr>"
  have "DecodeMultiStream Scalar ?layout [\<lparr>ab_base = 0, ab_packed = [1, 1]\<rparr>] =
      Some (block_entries ?layout \<lparr>ab_base = 0, ab_packed = [1, 1]\<rparr> 2)"
    by (subst DecodeMultiStream_spec) (simp_all add: block_holds_def)
  then show ?thesis
    by (simp add: DecodeBatchBlocks_def BlockRecordCount_def decode_batches.simps kMultiStreamWidth_def)
qed

end
