(* ===== verification/Append_Log.thy ===== *)
theory Append_Log
  imports Prelude
begin

text \<open>
  The interface shared by the append-only writers (column chunks and data files): an operation
  that appends the bytes of a value to the writer's content and returns where they are.
  \<open>append_log\<close> states the laws.
  The clients read by the returned locations; their lemmas are proved here once.
\<close>

section \<open>Sequences of appends\<close>

fun put_all :: "('s \<Rightarrow> 'v \<Rightarrow> ('s \<times> 'l) option) \<Rightarrow> 's \<Rightarrow> 'v list \<Rightarrow> ('s \<times> 'l list) option" where
  "put_all put s [] = Some (s, [])"
| "put_all put s (v # vs) =
     (case put s v of
        None \<Rightarrow> None
      | Some (s1, l) \<Rightarrow>
          (case put_all put s1 vs of
             None \<Rightarrow> None
           | Some (s2, ls) \<Rightarrow> Some (s2, l # ls)))"

lemma put_all_Cons_E:
  assumes "put_all put s (v # vs) = Some (s2, ls0)"
  obtains s1 l ls where "put s v = Some (s1, l)" and "put_all put s1 vs = Some (s2, ls)"
    and "ls0 = l # ls"
  using assms by (auto split: option.splits)

lemma put_all_length: "put_all put s vs = Some (s', ls) \<Longrightarrow> length ls = length vs"
  by (induction vs arbitrary: s ls) (auto split: option.splits)

lemma put_all_take:
  "put_all put s vs = Some (s', ls) \<Longrightarrow> \<exists>s1. put_all put s (take n vs) = Some (s1, take n ls)"
proof (induction vs arbitrary: s ls n)
  case (Cons v vs)
  from Cons.prems obtain s1 l ls1 where step: "put s v = Some (s1, l)" "put_all put s1 vs = Some (s', ls1)" "ls = l # ls1"
    by (rule put_all_Cons_E)
  then show ?case using Cons.IH [of s1 ls1 "n - 1"] by (cases n) auto
qed simp

section \<open>The laws\<close>

locale append_log =
  fixes ok :: "'s \<Rightarrow> bool"
    and content :: "'s \<Rightarrow> bytes"
    and put :: "'s \<Rightarrow> 'v \<Rightarrow> ('s \<times> 'l) option"
    and valid :: "'s \<Rightarrow> 'v \<Rightarrow> bool"
    and limit :: nat
    and enc :: "'s \<Rightarrow> 'v \<Rightarrow> bytes"
    and pos :: "'l \<Rightarrow> nat"
    and len :: "'l \<Rightarrow> nat"
  assumes put_ok: "ok s \<Longrightarrow> put s v = Some (s', l) \<Longrightarrow> ok s'"
    and put_enc: "ok s \<Longrightarrow> put s v = Some (s', l) \<Longrightarrow> enc s' w = enc s w"
    and put_valid: "ok s \<Longrightarrow> put s v = Some (s', l) \<Longrightarrow> valid s' w = valid s w"
    and put_content: "ok s \<Longrightarrow> put s v = Some (s', l) \<Longrightarrow> content s' = content s @ enc s v"
    and put_place: "ok s \<Longrightarrow> put s v = Some (s', l) \<Longrightarrow> valid s v \<Longrightarrow> length (content s') < limit
      \<Longrightarrow> pos l = length (content s) \<and> len l = length (enc s v)"
begin

lemma put_all_content:
  assumes "ok s" and "put_all put s vs = Some (s', ls)"
  shows "ok s' \<and> content s' = content s @ concat (map (enc s) vs) \<and> enc s' = enc s"
  using assms
proof (induction vs arbitrary: s ls)
  case Nil
  then show ?case by simp
next
  case (Cons v vs)
  from Cons.prems(2) obtain s1 l ls1 where step: "put s v = Some (s1, l)"
    and rest: "put_all put s1 vs = Some (s', ls1)"
    by (rule put_all_Cons_E)
  have "enc s1 = enc s" using put_enc [OF Cons.prems(1) step] by (simp add: fun_eq_iff)
  then show ?case
    using Cons.IH [OF put_ok [OF Cons.prems(1) step] rest] put_content [OF Cons.prems(1) step] by simp
qed

text \<open>Every value is found at its returned place, whatever was appended after it.\<close>

lemma put_all_slices:
  assumes "ok s" and "put_all put s vs = Some (s', ls)" and "\<forall>v \<in> set vs. valid s v"
    and "length (content s') < limit" and "i < length vs"
  shows "slice (pos (ls ! i)) (len (ls ! i)) (content s') = enc s (vs ! i)
    \<and> length (content s) \<le> pos (ls ! i) \<and> pos (ls ! i) + len (ls ! i) \<le> length (content s')"
  using assms
proof (induction vs arbitrary: s ls i)
  case Nil
  then show ?case by simp
next
  case (Cons v vs)
  from Cons.prems(2) obtain s1 l ls1 where step: "put s v = Some (s1, l)"
    and rest: "put_all put s1 vs = Some (s', ls1)" and ls: "ls = l # ls1"
    by (rule put_all_Cons_E)
  note ok1 = put_ok [OF Cons.prems(1) step]
  note all = put_all_content [OF ok1 rest]
  show ?case
  proof (cases i)
    case 0
    have "length (content s1) < limit" using all Cons.prems(4) by simp
    with put_place [OF Cons.prems(1) step] Cons.prems(3) have place:
      "pos l = length (content s)" "len l = length (enc s v)"
      by simp_all
    have "content s' = content s @ enc s v @ concat (map (enc s1) vs)"
      using all put_content [OF Cons.prems(1) step] by simp
    then show ?thesis using 0 ls place by (simp add: slice_def)
  next
    case (Suc k)
    have "enc s1 = enc s" using put_enc [OF Cons.prems(1) step] by (simp add: fun_eq_iff)
    moreover have "\<forall>v \<in> set vs. valid s1 v"
      using Cons.prems(3) put_valid [OF Cons.prems(1) step] by simp
    moreover have "length (content s) \<le> length (content s1)"
      using put_content [OF Cons.prems(1) step] by simp
    ultimately show ?thesis
      using Suc ls Cons.IH [OF ok1 rest _ Cons.prems(4)] Cons.prems(3,5) by fastforce
  qed
qed

text \<open>The places follow each other without a gap, starting at the end of the old content.\<close>

lemma put_all_places:
  assumes "ok s" and "put_all put s vs = Some (s', ls)" and "\<forall>v \<in> set vs. valid s v"
    and "length (content s') < limit"
  shows "successively (\<lambda>a b. pos b = pos a + len a) ls
    \<and> (ls \<noteq> [] \<longrightarrow> pos (hd ls) = length (content s))
    \<and> (\<forall>l \<in> set ls. pos l + len l \<le> length (content s'))"
  using assms
proof (induction vs arbitrary: s ls)
  case Nil
  then show ?case by simp
next
  case (Cons v vs)
  from Cons.prems(2) obtain s1 l ls1 where step: "put s v = Some (s1, l)"
    and rest: "put_all put s1 vs = Some (s', ls1)" and ls: "ls = l # ls1"
    by (rule put_all_Cons_E)
  note ok1 = put_ok [OF Cons.prems(1) step]
  note all = put_all_content [OF ok1 rest]
  note c1 = put_content [OF Cons.prems(1) step]
  have "length (content s1) < limit" using all Cons.prems(4) by simp
  with put_place [OF Cons.prems(1) step] Cons.prems(3) have place:
    "pos l = length (content s)" "len l = length (enc s v)"
    by simp_all
  have ih: "successively (\<lambda>a b. pos b = pos a + len a) ls1
      \<and> (ls1 \<noteq> [] \<longrightarrow> pos (hd ls1) = length (content s1))
      \<and> (\<forall>l \<in> set ls1. pos l + len l \<le> length (content s'))"
    by (rule Cons.IH [OF ok1 rest _ Cons.prems(4)])
      (use Cons.prems(3) put_valid [OF Cons.prems(1) step] in simp)
  then show ?case using ls place c1 all by (cases ls1) auto
qed

end

end
