(* ===== verification/File_IO.thy ===== *)
theory File_IO
  imports Status_Model
begin

text \<open>
  The loops around \<open>pread\<close> and \<open>pwrite\<close> that the writers and readers share (the same loop is
  written out in src/columns/column_chunk_reader.cpp, column_chunk_writer.cpp, column_store.cpp
  and src/storage/data_file_reader.cpp, with its own error texts).  The system calls are
  parameters: functions from position and request to what the kernel transferred.
\<close>

section \<open>Files\<close>

text \<open>The bytes of a file, and a positional write (a gap before the position reads as zeros).\<close>

definition write_at :: "bytes \<Rightarrow> nat \<Rightarrow> bytes \<Rightarrow> bytes" where
  "write_at file pos bs =
     take pos (file @ replicate (pos - length file) 0) @ bs @ drop (pos + length bs) file"

section \<open>Writing through short writes\<close>

text \<open>\<open>pwrite pos data\<close> is what the kernel answers: an error (\<open>None\<close>) or the number of bytes
  taken from the front of \<open>data\<close>.  The loop of the code runs until all bytes are written; it does
  not end when the kernel keeps answering 0, which is the result \<open>None\<close> of the loop.\<close>

partial_function (option) pwrite_loop ::
    "(nat \<Rightarrow> bytes \<Rightarrow> nat option) \<Rightarrow> error \<Rightarrow> bytes \<Rightarrow> nat \<Rightarrow> bytes \<Rightarrow> (error + bytes) option" where
  "pwrite_loop pwrite err file pos data =
     (if data = [] then Some (Inr file)
      else case pwrite pos data of
        None \<Rightarrow> Some (Inl err)
      | Some n \<Rightarrow> pwrite_loop pwrite err (write_at file pos (take n data)) (pos + n) (drop n data))"

lemma length_write_at: "length (write_at file pos bs) = max (length file) (pos + length bs)"
  by (simp add: write_at_def)

lemma write_at_append:
  "write_at (write_at fl pos a) (pos + length a) b = write_at fl pos (a @ b)"
proof -
  define z where "z = take pos (fl @ replicate (pos - length fl) 0)"
  define W where "W = write_at fl pos a"
  have z: "length z = pos" by (simp add: z_def)
  have w: "W = z @ a @ drop (pos + length a) fl" by (simp add: W_def write_at_def z_def)
  have A: "take (pos + length a) (W @ replicate (pos + length a - length W) 0) = z @ a"
    unfolding w by (simp add: z)
  have B: "drop (pos + length a + length b) W = drop (pos + length a + length b) fl"
    unfolding w by (simp add: z add.commute)
  have "write_at W (pos + length a) b = (z @ a) @ b @ drop (pos + length a + length b) fl"
    unfolding write_at_def [of W] A B ..
  also have "\<dots> = write_at fl pos (a @ b)" by (simp add: write_at_def z_def add.assoc)
  finally show ?thesis by (simp only: W_def)
qed

lemma write_at_Nil: "pos \<le> length file \<Longrightarrow> write_at file pos [] = file"
  by (simp add: write_at_def)

lemma slice_write_at:
  assumes "p + n \<le> length bs"
  shows "slice (pos + p) n (write_at file pos bs) = slice p n bs"
proof -
  have "length (take pos (file @ replicate (pos - length file) 0)) = pos" by simp
  then show ?thesis
    unfolding write_at_def using assms by (simp add: slice_append_skip slice_append_hit)
qed

text \<open>The kernel's side: it takes at least one byte of a non-empty request.\<close>

definition pwrite_takes :: "(nat \<Rightarrow> bytes \<Rightarrow> nat option) \<Rightarrow> bool" where
  "pwrite_takes pwrite \<longleftrightarrow>
     (\<forall>pos data. data \<noteq> [] \<longrightarrow> (\<exists>n. pwrite pos data = Some n \<and> 0 < n \<and> n \<le> length data))"

lemma pwrite_loop_spec:
  assumes "pwrite_takes pwrite" and "pos \<le> length fl"
  shows "pwrite_loop pwrite err fl pos data = Some (Inr (write_at fl pos data))"
  using assms(2)
proof (induction "length data" arbitrary: fl pos data rule: less_induct)
  case less
  show ?case
  proof (cases "data = []")
    case True
    then show ?thesis using less.prems by (simp add: pwrite_loop.simps write_at_Nil)
  next
    case False
    then obtain n where n: "pwrite pos data = Some n" "0 < n" "n \<le> length data"
      using assms(1) by (auto simp: pwrite_takes_def)
    have step: "pwrite_loop pwrite err fl pos data =
        pwrite_loop pwrite err (write_at fl pos (take n data)) (pos + n) (drop n data)"
      using False n(1) by (simp add: pwrite_loop.simps [of pwrite err fl pos data])
    have "pwrite_loop pwrite err (write_at fl pos (take n data)) (pos + n) (drop n data) =
        Some (Inr (write_at (write_at fl pos (take n data)) (pos + n) (drop n data)))"
      using n False by (intro less.hyps) (simp_all add: length_write_at)
    moreover have "write_at (write_at fl pos (take n data)) (pos + n) (drop n data) =
        write_at fl pos data"
      using write_at_append [of fl pos "take n data" "drop n data"] n by simp
    ultimately show ?thesis using step by simp
  qed
qed

text \<open>A kernel that keeps taking nothing keeps the loop running.\<close>

lemma pwrite_loop_zero:
  assumes "pwrite_loop pwrite err fl pos data = Some r"
  shows "pwrite = (\<lambda>pos data. Some 0) \<longrightarrow> data = []"
  by (rule pwrite_loop.raw_induct [of
        "\<lambda>pwrite err fl pos data r. pwrite = (\<lambda>pos data. Some 0) \<longrightarrow> data = []", OF _ assms])
    (fastforce split: if_splits)

lemma pwrite_loop_stuck:
  "data \<noteq> [] \<Longrightarrow> pwrite_loop (\<lambda>pos data. Some 0) err fl pos data = None"
  using pwrite_loop_zero by (metis not_Some_eq)

section \<open>Reading through short reads\<close>

text \<open>\<open>pread pos n\<close> is what the kernel answers: \<open>None\<close> for an error, else the bytes read; no
  bytes is the end of the file.\<close>

function pread_loop :: 
    "error \<Rightarrow> error \<Rightarrow> (nat \<Rightarrow> nat \<Rightarrow> bytes option) \<Rightarrow> nat \<Rightarrow> nat \<Rightarrow> bytes \<Rightarrow> bytes status_or" where
  "pread_loop e_fail e_eof pread pos remaining acc =
     (if 0 < remaining then
        (case pread pos remaining of
           None \<Rightarrow> Inl e_fail
         | Some bs \<Rightarrow>
             if bs = [] then Inl e_eof
             else pread_loop e_fail e_eof pread (pos + length bs) (remaining - length bs) (acc @ bs))
      else Inr acc)"
  by pat_completeness auto
termination
  by (relation "measure (\<lambda>(e1, e2, pread, pos, remaining, acc). remaining)") (auto simp: length_greater_0_conv [symmetric] simp del: length_greater_0_conv)

declare pread_loop.simps [simp del]

text \<open>The kernel's side: it returns at least one byte of the file before its end.\<close>

definition pread_reads :: "(nat \<Rightarrow> nat \<Rightarrow> bytes option) \<Rightarrow> bytes \<Rightarrow> bool" where
  "pread_reads pread file \<longleftrightarrow> (\<forall>pos n. \<exists>m. pread pos n = Some (slice pos m file) \<and> m \<le> n
     \<and> (0 < n \<and> pos < length file \<longrightarrow> 0 < m))"

lemma pread_loop_spec:
  assumes "pread_reads pread file" and "pos + n \<le> length file"
  shows "pread_loop e_fail e_eof pread pos n acc = Inr (acc @ slice pos n file)"
  using assms
proof (induction e_fail e_eof pread pos n acc rule: pread_loop.induct)
  case (1 e_fail e_eof pread pos n acc)
  show ?case
  proof (cases "0 < n")
    case False
    then show ?thesis by (simp add: pread_loop.simps [of e_fail e_eof pread pos 0] slice_def)
  next
    case True
    from "1.prems"(1) obtain m where m: "pread pos n = Some (slice pos m file)" "m \<le> n"
      "pos < length file \<longrightarrow> 0 < m"
      using True by (auto simp: pread_reads_def)
    have len: "length (slice pos m file) = m" and ne: "slice pos m file \<noteq> []"
      using m True "1.prems"(2) by (auto simp: slice_def)
    have step: "pread_loop e_fail e_eof pread pos n acc =
        pread_loop e_fail e_eof pread (pos + m) (n - m) (acc @ slice pos m file)"
      using True m(1) ne len by (simp add: pread_loop.simps [of e_fail e_eof pread pos n])
    have "pread_loop e_fail e_eof pread (pos + m) (n - m) (acc @ slice pos m file) =
        Inr ((acc @ slice pos m file) @ slice (pos + m) (n - m) file)"
      using "1.IH" [OF True m(1) ne] "1.prems" m(2) unfolding len by simp
    moreover have "slice pos m file @ slice (pos + m) (n - m) file = slice pos n file"
    proof -
      have "slice pos (m + (n - m)) file = slice pos m file @ slice (pos + m) (n - m) file"
        unfolding slice_def by (simp only: take_add drop_drop add.commute)
      then show ?thesis using m(2) by simp
    qed
    ultimately show ?thesis using step by simp
  qed
qed

section \<open>A kernel\<close>

text \<open>A kernel that transfers at most 3 bytes a call meets both contracts.\<close>

lemma pwrite_takes_3: "pwrite_takes (\<lambda>pos data. Some (min 3 (length data)))"
  by (auto simp: pwrite_takes_def)

lemma pread_reads_3: "pread_reads (\<lambda>pos n. Some (slice pos (min 3 n) contents)) contents"
  by (auto simp: pread_reads_def)

text \<open>What has been read when the loop stops, on an error or at the end of the file.\<close>

function pread_got :: "(nat \<Rightarrow> nat \<Rightarrow> bytes option) \<Rightarrow> nat \<Rightarrow> nat \<Rightarrow> bytes" where
  "pread_got pread pos remaining =
     (if 0 < remaining then
        (case pread pos remaining of
           None \<Rightarrow> []
         | Some bs \<Rightarrow>
             if bs = [] then []
             else bs @ pread_got pread (pos + length bs) (remaining - length bs))
      else [])"
  by pat_completeness auto
termination
  by (relation "measure (\<lambda>(pread, pos, remaining). remaining)") (auto simp: length_greater_0_conv [symmetric] simp del: length_greater_0_conv)

declare pread_got.simps [simp del]

lemma pread_loop_got:
  "pread_loop e_fail e_eof pread pos n acc = Inr out \<Longrightarrow> out = acc @ pread_got pread pos n"
proof (induction e_fail e_eof pread pos n acc rule: pread_loop.induct)
  case (1 e_fail e_eof pread pos remaining acc)
  then show ?case
    by (cases "pread pos remaining")
      (simp_all add: pread_loop.simps [of e_fail e_eof pread pos remaining acc]
        pread_got.simps [of pread pos remaining] split: if_splits)
qed

end
