(* ===== verification/Column_Chunk.thy ===== *)
theory Column_Chunk
  imports Common_Types Append_Log File_IO
begin

text \<open>
  \<open>ColumnChunkWriter\<close> and \<open>ColumnChunkReader\<close> (src/columns/column_chunk_writer.cpp,
  column_chunk_reader.cpp): one chunk of one column.  A writer appends values to a data buffer
  and, for variable-length columns, end offsets to an offset table; each append returns the
  locator the reader later reads by.  \<open>size_t\<close> and \<open>uint64_t\<close> sums are reduced.  The system
  calls \<open>pread\<close> and \<open>pwrite\<close> are parameters: functions from position and request to what the
  kernel transferred.  \<open>None\<close> is a read outside a buffer.
\<close>

section \<open>Writer\<close>

record chunk_writer =
  cw_schema :: column_schema
  cw_chunk_id :: nat
  cw_base :: nat
  cw_data :: bytes
  cw_offsets :: "nat list"
  cw_num :: nat

definition cw_is_fixed :: "chunk_writer \<Rightarrow> bool" where
  "cw_is_fixed w \<longleftrightarrow> DTypeIsFixedWidth (cs_dtype (cw_schema w))"

definition chunk_writer_new :: "column_schema \<Rightarrow> nat \<Rightarrow> nat \<Rightarrow> chunk_writer" where
  "chunk_writer_new schema chunk_id base =
     \<lparr>cw_schema = schema, cw_chunk_id = chunk_id, cw_base = base, cw_data = [],
      cw_offsets = (if DTypeIsFixedWidth (cs_dtype schema) then [] else [0]), cw_num = 0\<rparr>"

text \<open>\<open>Append(data, len)\<close>: a null pointer is \<open>None\<close>; otherwise \<open>data\<close> holds the \<open>len\<close> bytes.\<close>

definition chunk_append ::
    "chunk_writer \<Rightarrow> bytes option \<Rightarrow> nat \<Rightarrow> (chunk_writer \<times> column_locator) status_or" where
  "chunk_append w data len =
     (if data = None \<and> 0 < len then
        Inl (kInvalidArgument, ''Append: null data pointer with non-zero length'')
      else
        let src = (case data of None \<Rightarrow> [] | Some d \<Rightarrow> take len d);
            file_offset = wrap64 (cw_base w + length (cw_data w))
        in if cw_is_fixed w then
             (if len \<noteq> DTypeSize (cs_dtype (cw_schema w)) then
                Inl (kInvalidArgument, ''Append: expected '' @ digits_of (DTypeSize (cs_dtype (cw_schema w)))
                  @ '' bytes for fixed-width column, got '' @ digits_of len)
              else Inr (w\<lparr>cw_data := cw_data w @ src, cw_num := wrap32 (cw_num w + 1)\<rparr>,
                \<lparr>cl_chunk_id = cw_chunk_id w, cl_data_offset = file_offset,
                 cl_data_length = wrap32 len, cl_offset_table_pos = 0\<rparr>))
           else Inr (w\<lparr>cw_data := cw_data w @ src,
                       cw_offsets := cw_offsets w @ [length (cw_data w @ src)],
                       cw_num := wrap32 (cw_num w + 1)\<rparr>,
             \<lparr>cl_chunk_id = cw_chunk_id w, cl_data_offset = file_offset,
              cl_data_length = wrap32 len, cl_offset_table_pos = cw_num w\<rparr>))"

definition chunk_append_datum ::
    "chunk_writer \<Rightarrow> datum \<Rightarrow> (chunk_writer \<times> column_locator) status_or" where
  "chunk_append_datum w d =
     (if DTypeIsFixedWidth (d_dtype d) then chunk_append w (Some (d_fixed d)) (datum_byte_size d)
      else chunk_append w (Some (d_var d)) (length (d_var d)))"

definition data_size :: "chunk_writer \<Rightarrow> nat" where
  "data_size w = length (cw_data w)"

definition offset_table_size :: "chunk_writer \<Rightarrow> nat" where
  "offset_table_size w = (if cw_is_fixed w then 0 else length (cw_offsets w) * 8)"

definition offset_table_bytes :: "chunk_writer \<Rightarrow> bytes" where
  "offset_table_bytes w = (if cw_is_fixed w then [] else concat (map (le_bytes 8) (cw_offsets w)))"

definition chunk_serialise :: "chunk_writer \<Rightarrow> bytes" where
  "chunk_serialise w = cw_data w @ offset_table_bytes w"

section \<open>Writing to a file\<close>

text \<open>\<open>FlushTo\<close>: the data region, then the offset table; the new file and the bytes written.\<close>

definition FlushTo ::
    "(nat \<Rightarrow> bytes \<Rightarrow> nat option) \<Rightarrow> chunk_writer \<Rightarrow> bytes \<Rightarrow> (error + bytes \<times> nat) option" where
  "FlushTo pwrite w file =
     (case pwrite_loop pwrite (kIOError, ''pwrite data region failed'') file (cw_base w) (cw_data w) of
        None \<Rightarrow> None
      | Some (Inl e) \<Rightarrow> Some (Inl e)
      | Some (Inr file1) \<Rightarrow>
          if cw_is_fixed w then Some (Inr (file1, data_size w))
          else (case pwrite_loop pwrite (kIOError, ''pwrite offset table failed'') file1
                       (wrap64 (cw_base w + length (cw_data w))) (offset_table_bytes w) of
                  None \<Rightarrow> None
                | Some (Inl e) \<Rightarrow> Some (Inl e)
                | Some (Inr file2) \<Rightarrow> Some (Inr (file2, data_size w + offset_table_size w))))"

section \<open>Reader\<close>

text \<open>A reader works on memory, or on a file through \<open>pread pos len\<close>: \<open>None\<close> for an error,
  else the bytes read.\<close>

datatype read_source = Memory bytes | File "nat \<Rightarrow> nat \<Rightarrow> bytes option"

record chunk_reader =
  cr_source :: read_source
  cr_schema :: column_schema
  cr_base :: nat

definition cr_is_fixed :: "chunk_reader \<Rightarrow> bool" where
  "cr_is_fixed r \<longleftrightarrow> DTypeIsFixedWidth (cs_dtype (cr_schema r))"

text \<open>A short read and the end of the file are one error.\<close>

definition chunk_pread_error :: error where
  "chunk_pread_error = (kIOError, ''pread failed'')"

definition ReadBytes :: "chunk_reader \<Rightarrow> nat \<Rightarrow> nat \<Rightarrow> bytes status_or option" where
  "ReadBytes r abs_offset len =
     (case cr_source r of
        Memory mem \<Rightarrow>
          (let loc = wrap64 (abs_offset + 18446744073709551616 - cr_base r)
           in if length mem < wrap64 (loc + len) then
                Some (Inl (kIOError, ''ReadBytes: out of bounds (local='' @ digits_of loc @ '' len=''
                  @ digits_of len @ '' size='' @ digits_of (length mem) @ '')''))
              else if loc + len \<le> length mem then Some (Inr (slice loc len mem))
              else None)
      | File pread \<Rightarrow> Some (pread_loop chunk_pread_error chunk_pread_error pread abs_offset len []))"

definition ReadAt :: "chunk_reader \<Rightarrow> column_locator \<Rightarrow> bytes status_or option" where
  "ReadAt r loc =
     (if cl_data_length loc = 0 then Some (Inr [])
      else ReadBytes r (cl_data_offset loc) (cl_data_length loc))"

fun ReadBatch :: "chunk_reader \<Rightarrow> column_locator list \<Rightarrow> bytes list status_or option" where
  "ReadBatch r [] = Some (Inr [])"
| "ReadBatch r (loc # locs) =
     (case ReadAt r loc of
        None \<Rightarrow> None
      | Some (Inl e) \<Rightarrow> Some (Inl e)
      | Some (Inr b) \<Rightarrow> map_option (map_sum id ((#) b)) (ReadBatch r locs))"

definition ReadDatum :: "chunk_reader \<Rightarrow> column_locator \<Rightarrow> datum status_or option" where
  "ReadDatum r loc =
     (let dt = cs_dtype (cr_schema r) in
      if cr_is_fixed r then
        (if 8 < cl_data_length loc then Some (Inl (kInternal, ''ReadDatum: fixed value too large''))
         else map_option (map_sum id (\<lambda>bs.
                \<lparr>d_dtype = dt, d_fixed = union_write (replicate 8 0) bs, d_var = []\<rparr>))
              (ReadBytes r (cl_data_offset loc) (cl_data_length loc)))
      else if cl_data_length loc = 0 then Some (Inr (datum_default\<lparr>d_dtype := dt\<rparr>))
      else map_option (map_sum id (\<lambda>bs. datum_default\<lparr>d_dtype := dt, d_var := bs\<rparr>))
             (ReadBytes r (cl_data_offset loc) (cl_data_length loc)))"


section \<open>The writer's invariant\<close>

definition chunk_inv :: "chunk_writer \<Rightarrow> bool" where
  "chunk_inv w \<longleftrightarrow>
     (if cw_is_fixed w then cw_offsets w = [] \<and> DTypeSize (cs_dtype (cw_schema w)) dvd length (cw_data w)
      else cw_offsets w \<noteq> [] \<and> hd (cw_offsets w) = 0 \<and> last (cw_offsets w) = length (cw_data w)
        \<and> sorted (cw_offsets w))"

lemma chunk_inv_new: "chunk_inv (chunk_writer_new schema cid base)"
  by (simp add: chunk_inv_def chunk_writer_new_def cw_is_fixed_def)

text \<open>An append that succeeds adds the bytes and keeps everything else.\<close>

lemma chunk_append_Inr:
  assumes "chunk_append w (Some d) n = Inr (w', loc)"
  shows "cw_data w' = cw_data w @ take n d" and "cw_base w' = cw_base w"
    and "cw_schema w' = cw_schema w" and "cw_chunk_id w' = cw_chunk_id w"
    and "cl_data_offset loc = wrap64 (cw_base w + length (cw_data w))"
    and "cl_data_length loc = wrap32 n"
  using assms by (auto simp: chunk_append_def Let_def split: if_splits)

lemma chunk_append_inv:
  assumes "chunk_inv w" and "chunk_append w (Some d) n = Inr (w', loc)" and "n \<le> length d"
  shows "chunk_inv w'"
proof -
  have s: "cw_is_fixed w' = cw_is_fixed w"
    using chunk_append_Inr(3) [OF assms(2)] by (simp add: cw_is_fixed_def)
  have "x \<le> last os" if "sorted os" "x \<in> set os" for os :: "nat list" and x
    using that by (induction os) auto
  then have le: "\<forall>x \<in> set (cw_offsets w). x \<le> length (cw_data w) + n" if "\<not> cw_is_fixed w"
    using assms(1) that unfolding chunk_inv_def by fastforce
  show ?thesis
  proof (cases "cw_is_fixed w")
    case True
    then show ?thesis
      using assms s by (auto simp: chunk_inv_def chunk_append_def Let_def split: if_splits)
  next
    case False
    then show ?thesis
      using assms s le
      by (auto simp: chunk_inv_def chunk_append_def Let_def sorted_append)
  qed
qed

lemma datum_append_source:
  "chunk_append_datum w d = chunk_append w
     (Some (if DTypeIsFixedWidth (d_dtype d) then d_fixed d else d_var d)) (datum_byte_size d)"
  by (simp add: chunk_append_datum_def datum_byte_size_def)

lemma datum_append_bytes:
  "take (datum_byte_size d) (if DTypeIsFixedWidth (d_dtype d) then d_fixed d else d_var d) = datum_bytes d"
  by (simp add: datum_bytes_def datum_byte_size_def)

section \<open>The writer is an append log\<close>

definition chunk_put :: "chunk_writer \<Rightarrow> datum \<Rightarrow> (chunk_writer \<times> column_locator) option" where
  "chunk_put w d = (case chunk_append_datum w d of Inl e \<Rightarrow> None | Inr x \<Rightarrow> Some x)"

text \<open>The file up to the end of the chunk's data; what precedes the chunk is not its own.\<close>

definition chunk_image :: "chunk_writer \<Rightarrow> bytes" where
  "chunk_image w = replicate (cw_base w) 0 @ cw_data w"

definition storable :: "datum \<Rightarrow> bool" where
  "storable d \<longleftrightarrow> datum_wf d \<and> length (datum_bytes d) < 4294967296"

lemma chunk_put_Some:
  assumes "chunk_put w d = Some (w', loc)"
  shows "cw_data w' = cw_data w @ datum_bytes d" and "cw_base w' = cw_base w"
    and "cw_schema w' = cw_schema w"
    and "cl_data_offset loc = wrap64 (cw_base w + length (cw_data w))"
    and "cl_data_length loc = wrap32 (datum_byte_size d)"
proof -
  have "chunk_append_datum w d = Inr (w', loc)"
    using assms by (simp add: chunk_put_def split: sum.splits)
  then have "chunk_append w (Some (if DTypeIsFixedWidth (d_dtype d) then d_fixed d else d_var d))
      (datum_byte_size d) = Inr (w', loc)"
    unfolding datum_append_source .
  from chunk_append_Inr [OF this] show "cw_data w' = cw_data w @ datum_bytes d"
    "cw_base w' = cw_base w" "cw_schema w' = cw_schema w"
    "cl_data_offset loc = wrap64 (cw_base w + length (cw_data w))"
    "cl_data_length loc = wrap32 (datum_byte_size d)"
    by (simp_all only: datum_append_bytes)
qed

interpretation chunk: append_log "\<lambda>w. True" chunk_image chunk_put "\<lambda>w. storable" 18446744073709551616
    "\<lambda>w. datum_bytes" cl_data_offset cl_data_length
proof
  fix w w' :: chunk_writer and d loc
  assume put: "chunk_put w d = Some (w', loc)"
  note p = chunk_put_Some [OF put]
  show "chunk_image w' = chunk_image w @ datum_bytes d" using p by (simp add: chunk_image_def)
  assume d: "storable d" and lim: "length (chunk_image w') < 18446744073709551616"
  have "length (datum_bytes d) = datum_byte_size d"
    using d by (simp add: storable_def datum_wf_def length_datum_bytes)
  then show "cl_data_offset loc = length (chunk_image w) \<and> cl_data_length loc = length (datum_bytes d)"
    using p lim d by (simp add: chunk_image_def storable_def)
qed simp_all

text \<open>A value of the column's type is always accepted.\<close>

lemma chunk_put_total:
  assumes "d_dtype d = cs_dtype (cw_schema w)"
  shows "\<exists>w' loc. chunk_put w d = Some (w', loc)"
  using assms
  by (auto simp: chunk_put_def chunk_append_datum_def chunk_append_def Let_def datum_byte_size_def
      cw_is_fixed_def)

lemma chunk_put_all_total:
  assumes "\<forall>d \<in> set ds. d_dtype d = cs_dtype (cw_schema w)"
  shows "\<exists>w' locs. put_all chunk_put w ds = Some (w', locs)
    \<and> cw_schema w' = cw_schema w \<and> cw_base w' = cw_base w"
  using assms
proof (induction ds arbitrary: w)
  case Nil
  then show ?case by simp
next
  case (Cons d ds)
  then obtain w1 l where w1: "chunk_put w d = Some (w1, l)" using chunk_put_total [of d w] by auto
  with Cons.IH [of w1] Cons.prems chunk_put_Some(2,3) [OF w1] show ?case by fastforce
qed

section \<open>Reading back\<close>

lemma wrap64_sub:
  assumes "p < 18446744073709551616" and "b < 18446744073709551616"
  shows "wrap64 (wrap64 (b + p) + 18446744073709551616 - b) = p"
proof (cases "b + p < 18446744073709551616")
  case True
  then show ?thesis using assms by simp
next
  case False
  then have "wrap64 (b + p) = b + p - 18446744073709551616"
    using assms by (simp add: mod_if)
  then show ?thesis using False assms by simp
qed

lemma ReadBytes_Memory:
  assumes "cr_source r = Memory mem" and "p + n \<le> length mem" and "length mem < 18446744073709551616"
    and "cr_base r < 18446744073709551616" and "off = wrap64 (cr_base r + p)"
  shows "ReadBytes r off n = Some (Inr (slice p n mem))"
proof -
  have l: "wrap64 (off + 18446744073709551616 - cr_base r) = p"
    unfolding assms(5) using assms by (intro wrap64_sub) simp_all
  show ?thesis
    unfolding ReadBytes_def assms(1) read_source.case Let_def l using assms(2,3) by simp
qed

lemma ReadDatum_bytes:
  assumes "ReadBytes r (cl_data_offset loc) (cl_data_length loc) = Some (Inr (datum_bytes d))
      \<or> datum_bytes d = []"
    and "cl_data_length loc = length (datum_bytes d)"
    and "datum_wf d" and "d_dtype d = cs_dtype (cr_schema r)"
  shows "ReadDatum r loc = Some (Inr d)"
proof (cases "DTypeIsFixedWidth (d_dtype d)")
  case True
  have len: "length (datum_bytes d) = datum_byte_size d"
    using assms(3) by (simp add: datum_wf_def length_datum_bytes)
  then have "0 < length (datum_bytes d)" and "length (datum_bytes d) \<le> 8"
    using True DTypeSize_le8 [of "d_dtype d"] by (simp_all add: datum_byte_size_def DTypeIsFixedWidth_def)
  then show ?thesis
    using assms True datum_wf_fixed_eq [OF assms(3) True]
    by (auto simp: ReadDatum_def cr_is_fixed_def)
next
  case False
  then have "d_fixed d = replicate 8 0" "datum_bytes d = d_var d"
    using assms(3) by (simp_all add: datum_wf_def datum_bytes_def DTypeIsFixedWidth_def)
  then have "d = datum_default\<lparr>d_dtype := d_dtype d, d_var := datum_bytes d\<rparr>"
    by (cases d) (simp add: datum_default_def)
  then show ?thesis
    using assms False
    by (cases "datum_bytes d = []") (auto simp: ReadDatum_def cr_is_fixed_def datum_default_def)
qed

section \<open>Flushing\<close>

lemma FlushTo_spec:
  assumes "pwrite_takes pwrite" and "cw_base w \<le> length file"
    and "cw_base w + length (cw_data w) < 18446744073709551616"
  shows "FlushTo pwrite w file =
    Some (Inr (write_at file (cw_base w) (chunk_serialise w), data_size w + offset_table_size w))"
proof -
  let ?f1 = "write_at file (cw_base w) (cw_data w)"
  have 1: "pwrite_loop pwrite err file (cw_base w) (cw_data w) = Some (Inr ?f1)" for err
    by (rule pwrite_loop_spec [OF assms(1,2)])
  have "cw_base w + length (cw_data w) \<le> length ?f1" by (simp add: length_write_at)
  then have 2: "pwrite_loop pwrite err ?f1 (cw_base w + length (cw_data w)) (offset_table_bytes w) =
      Some (Inr (write_at file (cw_base w) (chunk_serialise w)))" for err
    using pwrite_loop_spec [OF assms(1)] by (simp add: write_at_append chunk_serialise_def)
  have w: "wrap64 (cw_base w + length (cw_data w)) = cw_base w + length (cw_data w)"
    using assms(3) by simp
  show ?thesis
  proof (cases "cw_is_fixed w")
    case True
    then show ?thesis
      by (simp add: FlushTo_def 1 chunk_serialise_def offset_table_size_def offset_table_bytes_def)
  next
    case False
    then show ?thesis by (simp add: FlushTo_def 1 w 2)
  qed
qed

lemma chunk_inv_put:
  assumes "chunk_inv w" and "chunk_put w d = Some (w', loc)" and "storable d"
  shows "chunk_inv w'"
proof -
  have "chunk_append_datum w d = Inr (w', loc)"
    using assms(2) by (simp add: chunk_put_def split: sum.splits)
  moreover have "datum_byte_size d \<le> length (if DTypeIsFixedWidth (d_dtype d) then d_fixed d else d_var d)"
    using assms(3) DTypeSize_le8 [of "d_dtype d"]
    by (simp add: storable_def datum_wf_def datum_byte_size_def)
  ultimately show ?thesis
    using chunk_append_inv [OF assms(1)] unfolding datum_append_source by blast
qed

lemma chunk_inv_put_all:
  assumes "put_all chunk_put w ds = Some (w', locs)" and "chunk_inv w" and "\<forall>d \<in> set ds. storable d"
  shows "chunk_inv w'"
  using assms
proof (induction ds arbitrary: w locs)
  case Nil
  then show ?case by simp
next
  case (Cons d ds)
  from Cons.prems(1) obtain w1 l ls where "chunk_put w d = Some (w1, l)"
    and "put_all chunk_put w1 ds = Some (w', ls)"
    by (rule put_all_Cons_E)
  then show ?case using Cons chunk_inv_put by (metis list.set_intros)
qed

section \<open>Properties\<close>

text \<open>The values of a column, written to a new chunk.\<close>

definition written ::
    "column_schema \<Rightarrow> nat \<Rightarrow> nat \<Rightarrow> datum list \<Rightarrow> chunk_writer \<Rightarrow> column_locator list \<Rightarrow> bool" where
  "written schema cid base ds w locs \<longleftrightarrow>
     put_all chunk_put (chunk_writer_new schema cid base) ds = Some (w, locs)"

definition column_values :: "column_schema \<Rightarrow> datum list \<Rightarrow> bool" where
  "column_values schema ds \<longleftrightarrow> (\<forall>d \<in> set ds. storable d \<and> d_dtype d = cs_dtype schema)"

lemma written_places:
  assumes "written schema cid base ds w locs" and "column_values schema ds"
    and "base + length (cw_data w) < 18446744073709551616" and "i < length ds"
  shows "\<exists>p. cl_data_offset (locs ! i) = base + p \<and> p + length (datum_bytes (ds ! i)) \<le> length (cw_data w)
    \<and> cl_data_length (locs ! i) = length (datum_bytes (ds ! i))
    \<and> slice p (length (datum_bytes (ds ! i))) (cw_data w) = datum_bytes (ds ! i)
    \<and> cw_base w = base"
proof -
  note put = assms(1) [unfolded written_def]
  have base: "cw_base w = base"
    using chunk_put_all_total [of ds "chunk_writer_new schema cid base"] put assms(2)
    by (auto simp: chunk_writer_new_def column_values_def)
  have val: "\<forall>d \<in> set ds. storable d" using assms(2) by (simp add: column_values_def)
  have lim: "length (chunk_image w) < 18446744073709551616"
    using assms(3) base by (simp add: chunk_image_def)
  note sl = chunk.put_all_slices [OF TrueI put val lim assms(4)]
  define p where "p = cl_data_offset (locs ! i) - base"
  have off: "cl_data_offset (locs ! i) = base + p"
    using sl by (simp add: p_def chunk_image_def chunk_writer_new_def)
  have n: "p + cl_data_length (locs ! i) \<le> length (cw_data w)"
    using sl off base by (simp add: chunk_image_def)
  have "slice (base + p) (cl_data_length (locs ! i)) (chunk_image w) = datum_bytes (ds ! i)"
    using sl off by simp
  then have s: "slice p (cl_data_length (locs ! i)) (cw_data w) = datum_bytes (ds ! i)"
    by (simp add: chunk_image_def base slice_append_skip)
  moreover have "length (slice p (cl_data_length (locs ! i)) (cw_data w)) = cl_data_length (locs ! i)"
    using n by simp
  ultimately have "cl_data_length (locs ! i) = length (datum_bytes (ds ! i))" by simp
  then show ?thesis using off n s base by auto
qed

lemma ReadDatum_memory_chunk:
  assumes "written schema cid base ds w locs" and "column_values schema ds"
    and "base + length (chunk_serialise w) < 18446744073709551616" and "i < length ds"
    and "mem = pre @ chunk_serialise w @ post" and "length mem < 18446744073709551616"
    and "cl_data_offset loc = wrap64 (b + (cl_data_offset (locs ! i) - base + length pre))"
    and "cl_data_length loc = cl_data_length (locs ! i)" and "b < 18446744073709551616"
  shows "ReadDatum \<lparr>cr_source = Memory mem, cr_schema = schema, cr_base = b\<rparr> loc = Some (Inr (ds ! i))"
proof -
  let ?r = "\<lparr>cr_source = Memory mem, cr_schema = schema, cr_base = b\<rparr>"
  let ?n = "length (datum_bytes (ds ! i))"
  have "base + length (cw_data w) < 18446744073709551616"
    using assms(3) by (simp add: chunk_serialise_def)
  from written_places [OF assms(1,2) this assms(4)] obtain p where
    p: "cl_data_offset (locs ! i) = base + p" "p + ?n \<le> length (cw_data w)"
      "cl_data_length (locs ! i) = ?n" "slice p ?n (cw_data w) = datum_bytes (ds ! i)"
    by blast
  have "slice (length pre + p) ?n mem = slice p ?n (cw_data w)"
    using p(2) by (simp add: assms(5) chunk_serialise_def slice_append_skip slice_append_hit)
  moreover have "ReadBytes ?r (cl_data_offset loc) ?n = Some (Inr (slice (length pre + p) ?n mem))"
    using p assms(5-9) by (intro ReadBytes_Memory) (simp_all add: chunk_serialise_def add.commute)
  ultimately show ?thesis
    using p(3,4) assms(2,4,8)
    by (intro ReadDatum_bytes) (auto simp: column_values_def storable_def)
qed

lemma chunk_put_offsets:
  assumes "chunk_put w d = Some (w', loc)"
  shows "length (cw_offsets w') \<le> length (cw_offsets w) + 1"
  using assms
  by (auto simp: chunk_put_def chunk_append_datum_def chunk_append_def Let_def
      split: sum.splits if_splits)

lemma chunk_put_all_offsets:
  "put_all chunk_put w ds = Some (w', locs) \<Longrightarrow>
    length (cw_offsets w') \<le> length (cw_offsets w) + length ds"
proof (induction ds arbitrary: w locs)
  case Nil
  then show ?case by simp
next
  case (Cons d ds)
  from Cons.prems obtain w1 l ls where "chunk_put w d = Some (w1, l)"
    and "put_all chunk_put w1 ds = Some (w', ls)"
    by (rule put_all_Cons_E)
  then show ?case using Cons.IH chunk_put_offsets by fastforce
qed

lemma length_le_bytes_table [simp]: "length (concat (map (le_bytes 8) xs)) = 8 * length xs"
  by (induction xs) simp_all

text \<open>The most bytes a chunk of these values takes.\<close>

definition column_bytes :: "datum list \<Rightarrow> nat" where
  "column_bytes ds = sum_list (map (length \<circ> datum_bytes) ds) + 8 * (length ds + 1)"

lemma written_length:
  assumes "written schema cid base ds w locs"
  shows "length (cw_data w) = sum_list (map (length \<circ> datum_bytes) ds)"
    and "length (chunk_serialise w) \<le> column_bytes ds" and "cw_base w = base"
    and "length locs = length ds"
proof -
  note put = assms [unfolded written_def]
  have b: "put_all chunk_put s ds = Some (s', ls) \<Longrightarrow> cw_base s' = cw_base s" for s s' ls
  proof (induction ds arbitrary: s ls)
    case Nil
    then show ?case by simp
  next
    case (Cons d ds)
    from Cons.prems obtain s1 l ls1 where "chunk_put s d = Some (s1, l)"
      and "put_all chunk_put s1 ds = Some (s', ls1)"
      by (rule put_all_Cons_E)
    then show ?case using Cons.IH chunk_put_Some(2) by fastforce
  qed
  then show base: "cw_base w = base" using put by (simp add: chunk_writer_new_def)
  have "chunk_image w = replicate base 0 @ concat (map datum_bytes ds)"
    using chunk.put_all_content [OF TrueI put] by (simp add: chunk_image_def chunk_writer_new_def)
  then have "cw_data w = concat (map datum_bytes ds)" using base by (simp add: chunk_image_def)
  then show l: "length (cw_data w) = sum_list (map (length \<circ> datum_bytes) ds)"
    by (simp add: length_concat comp_def)
  have "length (cw_offsets w) \<le> length ds + 1"
    using chunk_put_all_offsets [OF put] by (auto simp: chunk_writer_new_def split: if_splits)
  then show "length (chunk_serialise w) \<le> column_bytes ds"
    using l by (simp add: chunk_serialise_def offset_table_bytes_def column_bytes_def)
  show "length locs = length ds" by (rule put_all_length [OF put])
qed

lemma written_exists:
  "column_values schema ds \<Longrightarrow> \<exists>w locs. written schema cid base ds w locs"
  using chunk_put_all_total [of ds "chunk_writer_new schema cid base"]
  by (auto simp: written_def column_values_def chunk_writer_new_def)

text \<open>C30: every value appended to a chunk is read back exactly, by the locator its append
  returned, from the serialised chunk held in memory (fixed and variable-length columns); the
  writer keeps its invariant.\<close>

theorem chunk_memory_roundtrip:
  assumes "column_values schema ds" and "base + column_bytes ds < 18446744073709551616"
  shows "\<exists>w locs. written schema cid base ds w locs \<and> length locs = length ds \<and> chunk_inv w
    \<and> (\<forall>i < length ds. ReadDatum
          \<lparr>cr_source = Memory (chunk_serialise w), cr_schema = schema, cr_base = base\<rparr> (locs ! i)
          = Some (Inr (ds ! i)))"
proof -
  obtain w locs where w: "written schema cid base ds w locs"
    using written_exists [OF assms(1)] by blast
  note len = written_length [OF w]
  have lim: "base + length (chunk_serialise w) < 18446744073709551616" using len(2) assms(2) by simp
  have inv: "chunk_inv w"
    by (rule chunk_inv_put_all [OF w [unfolded written_def] chunk_inv_new])
      (use assms in \<open>simp add: column_values_def\<close>)
  have "ReadDatum \<lparr>cr_source = Memory (chunk_serialise w), cr_schema = schema, cr_base = base\<rparr> (locs ! i)
      = Some (Inr (ds ! i))" if i: "i < length ds" for i
  proof -
    have "base + length (cw_data w) < 18446744073709551616"
      using lim by (simp add: chunk_serialise_def)
    from written_places [OF w assms(1) this i] lim show ?thesis
      by (intro ReadDatum_memory_chunk [OF w assms(1) lim i, of _ "[]" "[]"])
        (auto simp: chunk_serialise_def)
  qed
  then show ?thesis using w inv len by blast
qed

theorem chunk_memory_roundtrip_witness:
  "\<exists>w locs. written \<lparr>cs_id = 1, cs_name = ''note'', cs_dtype = STRING, cs_nullable = False\<rparr> 0 64
      [Datum_String [104, 105], Datum_String [], Datum_String [33]] w locs
    \<and> ReadDatum \<lparr>cr_source = Memory (chunk_serialise w),
        cr_schema = \<lparr>cs_id = 1, cs_name = ''note'', cs_dtype = STRING, cs_nullable = False\<rparr>,
        cr_base = 64\<rparr> (locs ! 0) = Some (Inr (Datum_String [104, 105]))"
proof -
  let ?s = "\<lparr>cs_id = 1, cs_name = ''note'', cs_dtype = STRING, cs_nullable = False\<rparr>"
  let ?ds = "[Datum_String [104, 105], Datum_String [], Datum_String [33]]"
  have "column_values ?s ?ds"
    by (simp add: column_values_def storable_def datum_factories_wf)
      (simp add: Datum_String_def datum_bytes_def DTypeIsFixedWidth_def)
  moreover have "64 + column_bytes ?ds < 18446744073709551616"
    by (simp add: column_bytes_def Datum_String_def datum_bytes_def DTypeIsFixedWidth_def)
  ultimately obtain w locs where "written ?s 0 64 ?ds w locs"
    "\<forall>i < length ?ds. ReadDatum \<lparr>cr_source = Memory (chunk_serialise w), cr_schema = ?s, cr_base = 64\<rparr>
      (locs ! i) = Some (Inr (?ds ! i))"
    using chunk_memory_roundtrip [of ?s ?ds 64 0] by blast
  then show ?thesis by fastforce
qed

text \<open>C31: flushing a chunk through a kernel that may write short stores exactly its serialised
  bytes at the chunk's base, leaves the rest of the file alone and reports the bytes written; a
  file-backed reader over a kernel that may read short then returns every value.\<close>

theorem chunk_file_roundtrip:
  assumes "column_values schema ds" and "base + column_bytes ds < 18446744073709551616"
    and "base \<le> length contents" and "pwrite_takes pwrite"
  shows "\<exists>w locs. written schema cid base ds w locs
    \<and> FlushTo pwrite w contents = Some (Inr (write_at contents base (chunk_serialise w),
        data_size w + offset_table_size w))
    \<and> (\<forall>pread. pread_reads pread (write_at contents base (chunk_serialise w)) \<longrightarrow>
        (\<forall>i < length ds. ReadDatum \<lparr>cr_source = File pread, cr_schema = schema, cr_base = base\<rparr>
          (locs ! i) = Some (Inr (ds ! i))))"
proof -
  obtain w locs where w: "written schema cid base ds w locs"
    using written_exists [OF assms(1)] by blast
  note len = written_length [OF w]
  have lim: "base + length (cw_data w) < 18446744073709551616"
    using len(2) assms(2) by (simp add: chunk_serialise_def)
  let ?img = "write_at contents base (chunk_serialise w)"
  have flush: "FlushTo pwrite w contents = Some (Inr (?img, data_size w + offset_table_size w))"
    using FlushTo_spec [OF assms(4), of w contents] assms(3) lim len(3) by simp
  have "ReadDatum \<lparr>cr_source = File pread, cr_schema = schema, cr_base = base\<rparr> (locs ! i)
      = Some (Inr (ds ! i))" if pread: "pread_reads pread ?img" and i: "i < length ds" for pread i
  proof -
    let ?n = "length (datum_bytes (ds ! i))"
    from written_places [OF w assms(1) lim i] obtain p where
      p: "cl_data_offset (locs ! i) = base + p" "p + ?n \<le> length (cw_data w)"
        "cl_data_length (locs ! i) = ?n" "slice p ?n (cw_data w) = datum_bytes (ds ! i)"
      by blast
    have "base + p + ?n \<le> length ?img" using p(2) by (simp add: length_write_at chunk_serialise_def)
    then have "pread_loop chunk_pread_error chunk_pread_error pread (base + p) ?n [] = Inr (slice (base + p) ?n ?img)"
      using pread_loop_spec [OF pread, of "base + p" ?n chunk_pread_error chunk_pread_error "[]"] by simp
    also have "slice (base + p) ?n ?img = slice p ?n (chunk_serialise w)"
      using p(2) by (intro slice_write_at) (simp add: chunk_serialise_def)
    also have "\<dots> = datum_bytes (ds ! i)"
      using p(2,4) by (simp add: chunk_serialise_def slice_append_hit)
    finally show ?thesis
      using p assms(1) i
      by (intro ReadDatum_bytes) (auto simp: ReadBytes_def column_values_def storable_def)
  qed
  then show ?thesis using w flush by blast
qed

theorem chunk_file_roundtrip_witness:
  "\<exists>w locs. FlushTo (\<lambda>pos data. Some (min 3 (length data))) w [1, 2, 3, 4]
      = Some (Inr (write_at [1, 2, 3, 4] 4 (chunk_serialise w), data_size w + offset_table_size w))
    \<and> ReadDatum \<lparr>cr_source = File (\<lambda>pos n. Some (slice pos (min 3 n)
          (write_at [1, 2, 3, 4] 4 (chunk_serialise w)))),
        cr_schema = \<lparr>cs_id = 1, cs_name = ''n'', cs_dtype = INT32, cs_nullable = False\<rparr>,
        cr_base = 4\<rparr> (locs ! 0) = Some (Inr (Datum_Int32 7))"
proof -
  let ?s = "\<lparr>cs_id = 1, cs_name = ''n'', cs_dtype = INT32, cs_nullable = False\<rparr>"
  let ?ds = "[Datum_Int32 7]"
  let ?pw = "\<lambda>pos data. Some (min 3 (length data))"
  have "column_values ?s ?ds"
    by (simp add: column_values_def storable_def datum_factories_wf)
      (simp add: Datum_Int32_def datum_bytes_def DTypeIsFixedWidth_def datum_byte_size_def
        datum_default_def)
  moreover have "4 + column_bytes ?ds < 18446744073709551616"
    by (simp add: column_bytes_def Datum_Int32_def datum_bytes_def DTypeIsFixedWidth_def
        datum_byte_size_def datum_default_def)
  moreover have "4 \<le> length [1, 2, 3, 4 :: u8]" by simp
  ultimately obtain w locs where
    "FlushTo ?pw w [1, 2, 3, 4] = Some (Inr (write_at [1, 2, 3, 4] 4 (chunk_serialise w),
      data_size w + offset_table_size w))"
    "\<forall>pread. pread_reads pread (write_at [1, 2, 3, 4] 4 (chunk_serialise w)) \<longrightarrow>
      (\<forall>i < length ?ds. ReadDatum \<lparr>cr_source = File pread, cr_schema = ?s, cr_base = 4\<rparr> (locs ! i)
        = Some (Inr (?ds ! i)))"
    using chunk_file_roundtrip [OF _ _ _ pwrite_takes_3, of ?s ?ds 4 "[1, 2, 3, 4]" 0] by blast
  then show ?thesis using pread_reads_3 by fastforce
qed



text \<open>Below the base the 64-bit sum wraps past the check and the copy starts outside.\<close>

lemma memory_read_below_base:
  "ReadBytes \<lparr>cr_source = Memory [1, 2, 3],
      cr_schema = \<lparr>cs_id = 0, cs_name = [], cs_dtype = INT8, cs_nullable = False\<rparr>, cr_base = 10\<rparr> 9 1 = None"
  by (simp add: ReadBytes_def)

end
