(* ===== verification/Column_Store.thy ===== *)
theory Column_Store
  imports Column_Chunk
begin

text \<open>
  \<open>ColumnStore\<close> (src/columns/column_store.cpp): one chunk writer per column, the serialised form
  (column count, region offsets, then each column's data and offset table), and reading a row
  back by the locators its ingestion returned.  An operation gives the store it leaves behind
  also when it fails.  Readers are views into the store's own buffer; \<open>None\<close> is an access
  outside a vector or buffer.
\<close>

section \<open>State\<close>

record store_view =
  sv_schema :: column_schema
  sv_start :: nat
  sv_size :: nat

record column_store =
  st_schemas :: "column_schema list"
  st_writers :: "chunk_writer list"
  st_num_rows :: nat
  st_open_write :: bool
  st_read_buf :: bytes
  st_readers :: "store_view list"
  st_open_read :: bool
  st_region_offsets :: "nat list"
  st_id_to_idx :: "nat \<rightharpoonup> nat"

definition store_empty :: column_store where
  "store_empty = \<lparr>st_schemas = [], st_writers = [], st_num_rows = 0, st_open_write = False,
     st_read_buf = [], st_readers = [], st_open_read = False, st_region_offsets = [],
     st_id_to_idx = Map.empty\<rparr>"

text \<open>A later column with the same id replaces an earlier one.\<close>

definition BuildIdMap :: "column_schema list \<Rightarrow> nat \<rightharpoonup> nat" where
  "BuildIdMap schemas = map_of (rev (zip (map cs_id schemas) [0..<length schemas]))"

section \<open>Write path\<close>

definition store_Open :: "column_store \<Rightarrow> column_schema list \<Rightarrow> column_store \<times> status" where
  "store_Open st schemas =
     (if schemas = [] then (st, Inl (kInvalidArgument, ''Open: schema list is empty''))
      else (st\<lparr>st_schemas := schemas, st_id_to_idx := BuildIdMap schemas, st_num_rows := 0,
               st_open_write := True,
               st_writers := map (\<lambda>s. chunk_writer_new s 0 0) schemas\<rparr>, Inr ()))"

text \<open>The loop of \<open>Ingest\<close>: the writers it leaves behind, and the locators or the first error.\<close>

fun ingest_columns ::
    "column_schema list \<Rightarrow> chunk_writer list \<Rightarrow> (nat \<rightharpoonup> datum)
      \<Rightarrow> chunk_writer list \<times> (nat \<times> column_locator) list status_or" where
  "ingest_columns (s # ss) (w # ws) columns =
     (case columns (cs_id s) of
        None \<Rightarrow> (w # ws, Inl (kInvalidArgument, ''Ingest: missing column '' @ digits_of (cs_id s)))
      | Some d \<Rightarrow>
          (case chunk_append_datum w d of
             Inl e \<Rightarrow> (w # ws, Inl e)
           | Inr (w', loc) \<Rightarrow>
               (let (ws', r) = ingest_columns ss ws columns
                in (w' # ws', map_sum id ((#) (cs_id s, loc)) r))))"
| "ingest_columns ss ws columns = (ws, Inr [])"

definition store_Ingest ::
    "column_store \<Rightarrow> (nat \<rightharpoonup> datum) \<Rightarrow> column_store \<times> (nat \<times> column_locator) list status_or" where
  "store_Ingest st columns =
     (if \<not> st_open_write st then
        (st, Inl (kInvalidArgument, ''Ingest: store not opened for writing''))
      else case ingest_columns (st_schemas st) (st_writers st) columns of
        (ws, Inl e) \<Rightarrow> (st\<lparr>st_writers := ws\<rparr>, Inl e)
      | (ws, Inr locs) \<Rightarrow>
          (st\<lparr>st_writers := ws, st_num_rows := wrap64 (st_num_rows st + 1)\<rparr>, Inr locs))"

fun region_starts :: "nat \<Rightarrow> chunk_writer list \<Rightarrow> nat list" where
  "region_starts cursor [] = []"
| "region_starts cursor (w # ws) = cursor # region_starts (cursor + data_size w + offset_table_size w) ws"

definition SerialiseAll :: "column_store \<Rightarrow> bytes status_or" where
  "SerialiseAll st =
     (if \<not> st_open_write st then
        Inl (kInvalidArgument, ''SerialiseAll: store not opened for writing'')
      else Inr (le_bytes 4 (length (st_writers st))
        @ concat (map (le_bytes 8) (region_starts 0 (st_writers st)))
        @ concat (map chunk_serialise (st_writers st))))"

text \<open>\<open>Flush\<close>: \<open>opened\<close> says whether the file could be created (empty), \<open>write pos data\<close> what
  the kernel takes of the request.  The file and its size, or the error.\<close>

definition store_Flush ::
    "bool \<Rightarrow> (nat \<Rightarrow> bytes \<Rightarrow> nat option) \<Rightarrow> string \<Rightarrow> column_store \<Rightarrow> (error + bytes \<times> nat) option" where
  "store_Flush opened write path st =
     (case SerialiseAll st of
        Inl e \<Rightarrow> Some (Inl e)
      | Inr buf \<Rightarrow>
          if \<not> opened then Some (Inl (kIOError, ''Flush: failed to open '' @ path))
          else map_option (map_sum id (\<lambda>contents. (contents, length buf)))
                 (pwrite_loop write (kIOError, ''Flush: write failed'') [] 0 buf))"

section \<open>Read path\<close>

definition header_size :: "column_schema list \<Rightarrow> nat" where
  "header_size schemas = 4 + length schemas * 8"

definition store_views :: "column_schema list \<Rightarrow> nat \<Rightarrow> store_view list" where
  "store_views schemas total_size =
     map (\<lambda>s. \<lparr>sv_schema = s, sv_start = header_size schemas,
               sv_size = total_size - header_size schemas\<rparr>) schemas"

definition parse_region_offsets :: "column_schema list \<Rightarrow> bytes \<Rightarrow> nat list" where
  "parse_region_offsets schemas buf =
     map (\<lambda>i. le_nat (slice (4 + 8 * i) 8 buf)) [0..<length schemas]"

definition store_OpenForRead ::
    "column_store \<Rightarrow> bytes \<Rightarrow> column_schema list \<Rightarrow> column_store \<times> status" where
  "store_OpenForRead st data schemas =
     (let st1 = st\<lparr>st_schemas := schemas, st_id_to_idx := BuildIdMap schemas,
                   st_open_read := True, st_read_buf := data\<rparr>
      in if length data < header_size schemas then
           (st1, Inl (kInvalidArgument, ''OpenForRead: buffer too small for header''))
         else
           let stored_num_cols = le_nat (slice 0 4 data)
           in if stored_num_cols \<noteq> length schemas then
                (st1, Inl (kInvalidArgument, ''OpenForRead: schema mismatch (expected ''
                   @ digits_of (length schemas) @ '' columns, file has ''
                   @ digits_of stored_num_cols @ '')''))
              else (st1\<lparr>st_region_offsets := parse_region_offsets schemas data,
                        st_readers := store_views schemas (length data)\<rparr>, Inr ()))"

text \<open>The overload that loads a file: \<open>file_size\<close> is \<open>None\<close> if the file cannot be opened,
  \<open>Some None\<close> if \<open>fstat\<close> fails, else the size; \<open>read pos n\<close> is what the kernel returns.\<close>

definition store_OpenForRead_file ::
    "column_store \<Rightarrow> string \<Rightarrow> nat option option \<Rightarrow> (nat \<Rightarrow> nat \<Rightarrow> bytes option)
      \<Rightarrow> column_store \<times> status" where
  "store_OpenForRead_file st path file_size read =
     (case file_size of
        None \<Rightarrow> (st, Inl (kIOError, ''OpenForRead: cannot open '' @ path))
      | Some None \<Rightarrow> (st, Inl (kIOError, ''OpenForRead: fstat failed''))
      | Some (Some n) \<Rightarrow>
          (case pread_loop (kIOError, ''OpenForRead: read failed'')
                  (kIOError, ''OpenForRead: read failed'') read 0 n [] of
             Inl e \<Rightarrow>
               (let got = pread_got read 0 n
                in (st\<lparr>st_read_buf := got @ drop (length got) (take n (st_read_buf st @ replicate n 0))\<rparr>,
                    Inl e))
           | Inr buf \<Rightarrow>
               (let st1 = st\<lparr>st_read_buf := buf\<rparr>; schemas = st_schemas st
                in if schemas = [] then
                     (st1, Inl (kInvalidArgument,
                        ''OpenForRead(path): schemas not set.  Call Open() first or use the overload that accepts schemas.''))
                   else if length buf < header_size schemas then
                     (st1, Inl (kInvalidArgument, ''OpenForRead: file too small for header''))
                   else
                     let stored_num_cols = le_nat (slice 0 4 buf)
                     in if stored_num_cols \<noteq> length schemas then
                          (st1, Inl (kInvalidArgument, ''OpenForRead: schema mismatch (expected ''
                             @ digits_of (length schemas) @ '' columns, file has ''
                             @ digits_of stored_num_cols @ '')''))
                        else (st1\<lparr>st_region_offsets := parse_region_offsets schemas buf,
                                  st_id_to_idx := BuildIdMap schemas, st_open_read := True,
                                  st_readers := store_views schemas (length buf)\<rparr>, Inr ()))))"

definition view_reader :: "column_store \<Rightarrow> store_view \<Rightarrow> chunk_reader" where
  "view_reader st v = \<lparr>cr_source = Memory (slice (sv_start v) (sv_size v) (st_read_buf st)),
     cr_schema = sv_schema v, cr_base = 0\<rparr>"

definition ReadColumn :: "column_store \<Rightarrow> nat \<Rightarrow> column_locator \<Rightarrow> datum status_or option" where
  "ReadColumn st col_id loc =
     (if \<not> st_open_read st then
        Some (Inl (kInvalidArgument, ''ReadColumn: store not opened for reading''))
      else case st_id_to_idx st col_id of
        None \<Rightarrow> Some (Inl (kNotFound, ''ReadColumn: unknown column '' @ digits_of col_id))
      | Some idx \<Rightarrow>
          (let adjusted = (if idx < length (st_region_offsets st) then
                 loc\<lparr>cl_data_offset := wrap64 (cl_data_offset loc + st_region_offsets st ! idx),
                     cl_offset_table_pos :=
                       wrap32 (cl_offset_table_pos loc + st_region_offsets st ! idx)\<rparr>
               else loc)
           in if idx < length (st_readers st)
                \<and> sv_start (st_readers st ! idx) + sv_size (st_readers st ! idx) \<le> length (st_read_buf st)
              then ReadDatum (view_reader st (st_readers st ! idx)) adjusted
              else None))"

text \<open>\<open>row.emplace\<close> keeps the value already there.\<close>

definition emplace :: "(nat \<rightharpoonup> datum) \<Rightarrow> nat \<Rightarrow> datum \<Rightarrow> (nat \<rightharpoonup> datum)" where
  "emplace row k d = (case row k of None \<Rightarrow> row(k \<mapsto> d) | Some d' \<Rightarrow> row)"

fun read_row ::
    "column_store \<Rightarrow> (nat \<times> column_locator) list \<Rightarrow> (nat \<rightharpoonup> datum) \<Rightarrow> (nat \<rightharpoonup> datum) status_or option" where
  "read_row st [] row = Some (Inr row)"
| "read_row st ((col_id, loc) # locs) row =
     (case ReadColumn st col_id loc of
        None \<Rightarrow> None
      | Some (Inl e) \<Rightarrow> Some (Inl e)
      | Some (Inr d) \<Rightarrow> read_row st locs (emplace row col_id d))"

definition store_Read ::
    "column_store \<Rightarrow> (nat \<times> column_locator) list \<Rightarrow> (nat \<rightharpoonup> datum) status_or option" where
  "store_Read st locs = read_row st locs Map.empty"

text \<open>The projection: the wanted ids in increasing order, each with its last locator.\<close>

fun read_wanted ::
    "column_store \<Rightarrow> (nat \<rightharpoonup> column_locator) \<Rightarrow> nat list \<Rightarrow> (nat \<rightharpoonup> datum)
      \<Rightarrow> (nat \<rightharpoonup> datum) status_or option" where
  "read_wanted st wanted [] row = Some (Inr row)"
| "read_wanted st wanted (cid # cids) row =
     (case wanted cid of
        None \<Rightarrow> Some (Inl (kNotFound,
                  ''ReadColumns: locator not found for column '' @ digits_of cid))
      | Some loc \<Rightarrow>
          (case ReadColumn st cid loc of
             None \<Rightarrow> None
           | Some (Inl e) \<Rightarrow> Some (Inl e)
           | Some (Inr d) \<Rightarrow> read_wanted st wanted cids (emplace row cid d)))"

definition store_ReadColumns ::
    "column_store \<Rightarrow> (nat \<times> column_locator) list \<Rightarrow> nat list \<Rightarrow> (nat \<rightharpoonup> datum) status_or option" where
  "store_ReadColumns st locs column_ids =
     read_wanted st (map_of (rev locs)) (remdups (sort column_ids)) Map.empty"

text \<open>Ingesting rows one after the other, until one fails.\<close>

fun ingest_rows ::
    "column_store \<Rightarrow> (nat \<rightharpoonup> datum) list
      \<Rightarrow> column_store \<times> (nat \<times> column_locator) list list status_or" where
  "ingest_rows st [] = (st, Inr [])"
| "ingest_rows st (r # rs) =
     (case store_Ingest st r of
        (st1, Inl e) \<Rightarrow> (st1, Inl e)
      | (st1, Inr locs) \<Rightarrow> (case ingest_rows st1 rs of (st2, res) \<Rightarrow> (st2, map_sum id ((#) locs) res)))"


section \<open>Rows and columns\<close>

text \<open>A row that has a value of the right type for every column.\<close>

definition row_fits :: "column_schema list \<Rightarrow> (nat \<rightharpoonup> datum) \<Rightarrow> bool" where
  "row_fits schemas row \<longleftrightarrow> (\<forall>s \<in> set schemas.
     \<exists>d. row (cs_id s) = Some d \<and> storable d \<and> d_dtype d = cs_dtype s)"

definition column_of :: "column_schema \<Rightarrow> (nat \<rightharpoonup> datum) list \<Rightarrow> datum list" where
  "column_of s rows = map (\<lambda>row. the (row (cs_id s))) rows"

lemma column_of_values:
  "\<forall>row \<in> set rows. row_fits schemas row \<Longrightarrow> s \<in> set schemas \<Longrightarrow> column_values s (column_of s rows)"
  by (fastforce simp: column_of_def column_values_def row_fits_def)

lemma ingest_columns_spec:
  assumes "row_fits ss row" and "map cw_schema ws = ss"
  shows "\<exists>ws' ls. ingest_columns ss ws row = (ws', Inr (zip (map cs_id ss) ls))
    \<and> map cw_schema ws' = ss \<and> length ls = length ss
    \<and> (\<forall>c < length ss. chunk_put (ws ! c) (the (row (cs_id (ss ! c)))) = Some (ws' ! c, ls ! c))"
  using assms
proof (induction ss ws row rule: ingest_columns.induct)
  case (1 s ss w ws row)
  from "1.prems" obtain d where d: "row (cs_id s) = Some d" "d_dtype d = cs_dtype s"
    by (auto simp: row_fits_def)
  with "1.prems"(2) obtain w' l where put: "chunk_put w d = Some (w', l)"
    using chunk_put_total [of d w] by auto
  then have app: "chunk_append_datum w d = Inr (w', l)"
    by (simp add: chunk_put_def split: sum.splits)
  have "row_fits ss row" and "map cw_schema ws = ss"
    using "1.prems" by (simp_all add: row_fits_def)
  from "1.IH" [OF d(1) app refl this] obtain ws' ls where
    ih: "ingest_columns ss ws row = (ws', Inr (zip (map cs_id ss) ls))" "map cw_schema ws' = ss"
      "length ls = length ss"
      "\<forall>c < length ss. chunk_put (ws ! c) (the (row (cs_id (ss ! c)))) = Some (ws' ! c, ls ! c)"
    by blast
  have "chunk_put ((w # ws) ! c) (the (row (cs_id ((s # ss) ! c)))) = Some ((w' # ws') ! c, (l # ls) ! c)"
    if "c < length (s # ss)" for c
    using that ih(4) put d(1) by (cases c) simp_all
  moreover have "map cw_schema (w' # ws') = s # ss"
    using ih(2) chunk_put_Some(3) [OF put] "1.prems"(2) by simp
  moreover have "ingest_columns (s # ss) (w # ws) row = (w' # ws', Inr (zip (map cs_id (s # ss)) (l # ls)))"
    by (simp add: d(1) app ih(1))
  ultimately show ?case using ih(3) by (intro exI [of _ "w' # ws'"] exI [of _ "l # ls"]) simp
qed simp_all

lemma ingest_rows_spec:
  assumes "\<forall>row \<in> set rows. row_fits (st_schemas st) row"
    and "map cw_schema (st_writers st) = st_schemas st" and "st_open_write st"
  shows "\<exists>st' lss. ingest_rows st rows =
      (st', Inr (map (zip (map cs_id (st_schemas st))) lss))
    \<and> st_schemas st' = st_schemas st \<and> st_open_write st'
    \<and> map cw_schema (st_writers st') = st_schemas st \<and> length lss = length rows
    \<and> (\<forall>ls \<in> set lss. length ls = length (st_schemas st))
    \<and> (\<forall>c < length (st_schemas st). put_all chunk_put (st_writers st ! c)
          (column_of (st_schemas st ! c) rows) = Some (st_writers st' ! c, map (\<lambda>ls. ls ! c) lss))"
  using assms
proof (induction rows arbitrary: st)
  case Nil
  then show ?case by (intro exI [of _ st] exI [of _ "[]"]) (simp add: column_of_def)
next
  case (Cons row rows)
  let ?ss = "st_schemas st"
  have "row_fits ?ss row" using Cons.prems(1) by simp
  from ingest_columns_spec [OF this Cons.prems(2)] obtain ws ls where
    one: "ingest_columns ?ss (st_writers st) row = (ws, Inr (zip (map cs_id ?ss) ls))"
      "map cw_schema ws = ?ss" "length ls = length ?ss"
      "\<forall>c < length ?ss. chunk_put (st_writers st ! c) (the (row (cs_id (?ss ! c)))) = Some (ws ! c, ls ! c)"
    by blast
  define st1 where "st1 = st\<lparr>st_writers := ws, st_num_rows := wrap64 (st_num_rows st + 1)\<rparr>"
  have st1: "st_schemas st1 = ?ss" "st_writers st1 = ws" "st_open_write st1"
    using Cons.prems(3) by (simp_all add: st1_def)
  have ing: "store_Ingest st row = (st1, Inr (zip (map cs_id ?ss) ls))"
    using one(1) Cons.prems(3) by (simp add: store_Ingest_def st1_def)
  have "\<forall>row \<in> set rows. row_fits (st_schemas st1) row"
    and "map cw_schema (st_writers st1) = st_schemas st1"
    using Cons.prems(1) one(2) st1 by simp_all
  from Cons.IH [OF this st1(3)] obtain st' lss where
    ih: "ingest_rows st1 rows = (st', Inr (map (zip (map cs_id ?ss)) lss))"
      "st_schemas st' = ?ss" "st_open_write st'" "map cw_schema (st_writers st') = ?ss"
      "length lss = length rows" "\<forall>ls \<in> set lss. length ls = length ?ss"
      "\<forall>c < length ?ss. put_all chunk_put (ws ! c) (column_of (?ss ! c) rows)
        = Some (st_writers st' ! c, map (\<lambda>ls. ls ! c) lss)"
    unfolding st1 by blast
  have "put_all chunk_put (st_writers st ! c) (column_of (?ss ! c) (row # rows)) =
      Some (st_writers st' ! c, map (\<lambda>ls. ls ! c) (ls # lss))" if "c < length ?ss" for c
    using that one(4) ih(7) by (simp add: column_of_def)
  then show ?case
    using ing ih(1-6) one(3) by (intro exI [of _ st'] exI [of _ "ls # lss"]) simp
qed

section \<open>The serialised form\<close>

lemma length_region_starts [simp]: "length (region_starts k ws) = length ws"
  by (induction ws arbitrary: k) simp_all

lemma length_chunk_serialise:
  "length (chunk_serialise w) = data_size w + offset_table_size w"
  by (simp add: chunk_serialise_def data_size_def offset_table_size_def offset_table_bytes_def)

lemma nth_region_starts:
  "c < length ws \<Longrightarrow> region_starts k ws ! c = k + length (concat (map chunk_serialise (take c ws)))"
proof (induction ws arbitrary: k c)
  case Nil
  then show ?case by simp
next
  case (Cons w ws)
  then show ?case by (cases c) (simp_all add: length_chunk_serialise)
qed

lemma concat_split_at:
  "c < length xss \<Longrightarrow> concat xss = concat (take c xss) @ xss ! c @ concat (drop (Suc c) xss)"
  by (metis concat.simps(2) concat_append id_take_nth_drop)

lemma parse_header:
  assumes "length ws = length schemas" and "length schemas < 4294967296"
    and "\<forall>x \<in> set (region_starts 0 ws). x < 18446744073709551616"
    and buf_def: "buf = le_bytes 4 (length ws) @ concat (map (le_bytes 8) (region_starts 0 ws)) @ body"
  shows "le_nat (slice 0 4 buf) = length schemas"
    and "parse_region_offsets schemas buf = region_starts 0 ws"
    and "slice (header_size schemas) (length buf - header_size schemas) buf = body"
    and "header_size schemas \<le> length buf"
proof -
  show "le_nat (slice 0 4 buf) = length schemas"
    using assms(1,2) by (simp add: buf_def slice_def le_nat_le_bytes)
  have "le_nat (slice (4 + 8 * i) 8 buf) = region_starts 0 ws ! i" if i: "i < length schemas" for i
  proof -
    have "slice (4 + 8 * i) 8 buf = slice (8 * i) 8 (concat (map (le_bytes 8) (region_starts 0 ws)))"
    proof -
      have "8 * i + 8 \<le> length (concat (map (le_bytes 8) (region_starts 0 ws)))"
        using i assms(1) by simp
      then show ?thesis unfolding buf_def by (simp add: slice_append_skip slice_append_hit)
    qed
    also have "\<dots> = le_bytes 8 (region_starts 0 ws ! i)"
    proof -
      have "concat (map (le_bytes 8) (region_starts 0 ws)) =
          concat (take i (map (le_bytes 8) (region_starts 0 ws)))
          @ le_bytes 8 (region_starts 0 ws ! i)
          @ concat (drop (Suc i) (map (le_bytes 8) (region_starts 0 ws)))"
        using concat_split_at [of i "map (le_bytes 8) (region_starts 0 ws)"] i assms(1) by simp
      moreover have "length (concat (take i (map (le_bytes 8) (region_starts 0 ws)))) = 8 * i"
        using i assms(1) by (simp add: take_map)
      ultimately show ?thesis by (simp add: slice_append_skip) (simp add: slice_def)
    qed
    finally show ?thesis using i assms(1,3) by (simp add: le_nat_le_bytes)
  qed
  then show "parse_region_offsets schemas buf = region_starts 0 ws"
    unfolding parse_region_offsets_def using assms(1) by (intro nth_equalityI) simp_all
  show "slice (header_size schemas) (length buf - header_size schemas) buf = body"
    and "header_size schemas \<le> length buf"
    using assms(1) by (simp_all add: buf_def header_size_def slice_def)
qed

lemma BuildIdMap_nth:
  assumes "distinct (map cs_id schemas)" and "c < length schemas"
  shows "BuildIdMap schemas (cs_id (schemas ! c)) = Some c"
proof -
  have d: "distinct (map fst (rev (zip (map cs_id schemas) [0..<length schemas])))"
    using assms(1) by (simp add: rev_map [symmetric])
  have "(cs_id (schemas ! c), c) \<in> set (rev (zip (map cs_id schemas) [0..<length schemas]))"
    using assms(2) by (auto simp: set_zip intro!: exI [of _ c])
  then show ?thesis unfolding BuildIdMap_def by (rule map_of_is_SomeI [OF d])
qed

section \<open>Reading a row\<close>

lemma read_row_spec:
  assumes "\<forall>(k, loc) \<in> set locs. ReadColumn st k loc = Some (Inr (f k))"
    and "distinct (map fst locs)" and "\<forall>k \<in> set (map fst locs). row k = None"
  shows "read_row st locs row =
    Some (Inr (\<lambda>k. if k \<in> set (map fst locs) then Some (f k) else row k))"
  using assms
proof (induction st locs row rule: read_row.induct)
  case (1 st row)
  show ?case by simp
next
  case (2 st k loc locs row)
  have rc: "ReadColumn st k loc = Some (Inr (f k))" using "2.prems"(1) by simp
  have em: "emplace row k (f k) = row(k \<mapsto> f k)" using "2.prems"(3) by (simp add: emplace_def)
  have "read_row st locs (row(k \<mapsto> f k)) =
      Some (Inr (\<lambda>j. if j \<in> set (map fst locs) then Some (f j) else (row(k \<mapsto> f k)) j))"
  proof (rule "2.IH" [OF rc refl, unfolded em])
    show "\<forall>(k, loc) \<in> set locs. ReadColumn st k loc = Some (Inr (f k))"
      and "distinct (map fst locs)" using "2.prems"(1,2) by simp_all
    show "\<forall>j \<in> set (map fst locs). (row(k \<mapsto> f k)) j = None" using "2.prems"(2,3) by auto
  qed
  moreover have "(\<lambda>j. if j \<in> set (map fst locs) then Some (f j) else (row(k \<mapsto> f k)) j) =
      (\<lambda>j. if j \<in> set (map fst ((k, loc) # locs)) then Some (f j) else row j)"
    by (auto simp: fun_eq_iff)
  ultimately show ?case by (simp add: rc em)
qed

lemma read_wanted_spec:
  assumes "\<forall>k \<in> set cids. \<exists>loc. wanted k = Some loc \<and> ReadColumn st k loc = Some (Inr (f k))"
    and "distinct cids" and "\<forall>k \<in> set cids. row k = None"
  shows "read_wanted st wanted cids row =
    Some (Inr (\<lambda>k. if k \<in> set cids then Some (f k) else row k))"
  using assms
proof (induction st wanted cids row rule: read_wanted.induct)
  case (1 st wanted row)
  show ?case by simp
next
  case (2 st wanted k cids row)
  obtain loc where rc: "wanted k = Some loc" "ReadColumn st k loc = Some (Inr (f k))"
    using "2.prems"(1) by auto
  have em: "emplace row k (f k) = row(k \<mapsto> f k)" using "2.prems"(3) by (simp add: emplace_def)
  have "read_wanted st wanted cids (row(k \<mapsto> f k)) =
      Some (Inr (\<lambda>j. if j \<in> set cids then Some (f j) else (row(k \<mapsto> f k)) j))"
  proof (rule "2.IH" [OF rc refl, unfolded em])
    show "\<forall>k \<in> set cids. \<exists>loc. wanted k = Some loc \<and> ReadColumn st k loc = Some (Inr (f k))"
      and "distinct cids" using "2.prems"(1,2) by simp_all
    show "\<forall>j \<in> set cids. (row(k \<mapsto> f k)) j = None" using "2.prems"(2,3) by auto
  qed
  moreover have "(\<lambda>j. if j \<in> set cids then Some (f j) else (row(k \<mapsto> f k)) j) =
      (\<lambda>j. if j \<in> set (k # cids) then Some (f j) else row j)"
    by (auto simp: fun_eq_iff)
  ultimately show ?case by (simp add: rc em)
qed

text \<open>The bytes of the whole store, at most.\<close>

definition store_bytes :: "column_schema list \<Rightarrow> (nat \<rightharpoonup> datum) list \<Rightarrow> nat" where
  "store_bytes schemas rows =
     header_size schemas + sum_list (map (\<lambda>s. column_bytes (column_of s rows)) schemas)"

text \<open>A store opened on the serialised columns.\<close>

lemma ReadColumn_serialised:
  assumes "distinct (map cs_id schemas)" and "c < length schemas" and "length ws = length schemas"
    and "written (schemas ! c) 0 0 ds (ws ! c) locs" and "column_values (schemas ! c) ds"
    and "i < length ds" and "length (concat (map chunk_serialise ws)) < 18446744073709551616"
    and "st_open_read st" and "st_id_to_idx st = BuildIdMap schemas"
    and "st_region_offsets st = region_starts 0 ws"
    and "st_readers st = store_views schemas (length (st_read_buf st))"
    and "header_size schemas \<le> length (st_read_buf st)"
    and "slice (header_size schemas) (length (st_read_buf st) - header_size schemas) (st_read_buf st)
      = concat (map chunk_serialise ws)"
  shows "ReadColumn st (cs_id (schemas ! c)) (locs ! i) = Some (Inr (ds ! i))"
proof -
  let ?mem = "concat (map chunk_serialise ws)" and ?loc = "locs ! i"
  let ?pre = "concat (map chunk_serialise (take c ws))"
  have start: "region_starts 0 ws ! c = length ?pre"
    using assms(2,3) by (simp add: nth_region_starts)
  have split: "?mem = ?pre @ chunk_serialise (ws ! c) @ concat (drop (Suc c) (map chunk_serialise ws))"
    using concat_split_at [of c "map chunk_serialise ws"] assms(2,3) by (simp add: take_map)
  have view: "st_readers st ! c = \<lparr>sv_schema = schemas ! c, sv_start = header_size schemas,
      sv_size = length (st_read_buf st) - header_size schemas\<rparr>"
    and nviews: "length (st_readers st) = length schemas"
    using assms(2,11) by (simp_all add: store_views_def)
  have lim: "0 + length (chunk_serialise (ws ! c)) < 18446744073709551616"
    using assms(7) unfolding split by simp
  define adjusted where "adjusted = ?loc\<lparr>cl_data_offset := wrap64 (cl_data_offset ?loc + length ?pre),
    cl_offset_table_pos := wrap32 (cl_offset_table_pos ?loc + length ?pre)\<rparr>"
  have "ReadDatum \<lparr>cr_source = Memory ?mem, cr_schema = schemas ! c, cr_base = 0\<rparr> adjusted
      = Some (Inr (ds ! i))"
    by (rule ReadDatum_memory_chunk [OF assms(4,5) lim assms(6) split assms(7)])
      (simp_all add: adjusted_def)
  moreover have "ReadColumn st (cs_id (schemas ! c)) ?loc =
      ReadDatum \<lparr>cr_source = Memory ?mem, cr_schema = schemas ! c, cr_base = 0\<rparr> adjusted"
    using assms(2,3,8,10,12,13) BuildIdMap_nth [OF assms(1,2)]
    by (simp add: ReadColumn_def assms(9) nviews view start view_reader_def adjusted_def)
  ultimately show ?thesis by simp
qed

lemma store_session:
  assumes "schemas \<noteq> []" and "distinct (map cs_id schemas)" and "length schemas < 4294967296"
    and "\<forall>row \<in> set rows. row_fits schemas row"
    and "store_bytes schemas rows < 18446744073709551616"
  shows "\<exists>st1 st2 lss buf st3. store_Open st schemas = (st1, Inr ())
    \<and> ingest_rows st1 rows = (st2, Inr (map (zip (map cs_id schemas)) lss))
    \<and> length lss = length rows \<and> (\<forall>ls \<in> set lss. length ls = length schemas)
    \<and> SerialiseAll st2 = Inr buf \<and> store_OpenForRead st0 buf schemas = (st3, Inr ())
    \<and> (\<forall>c < length schemas. \<forall>i < length rows.
        ReadColumn st3 (cs_id (schemas ! c)) (lss ! i ! c) = Some (Inr (the ((rows ! i) (cs_id (schemas ! c))))))"
proof -
  define st1 where "st1 = fst (store_Open st schemas)"
  have open1: "store_Open st schemas = (st1, Inr ())" and st1: "st_schemas st1 = schemas"
    "st_writers st1 = map (\<lambda>s. chunk_writer_new s 0 0) schemas" "st_open_write st1"
    using assms(1) by (simp_all add: st1_def store_Open_def)
  have "map cw_schema (st_writers st1) = st_schemas st1"
    by (simp add: st1 chunk_writer_new_def comp_def)
  from ingest_rows_spec [OF _ this st1(3), of rows] assms(4) obtain st2 lss where
    ing: "ingest_rows st1 rows = (st2, Inr (map (zip (map cs_id schemas)) lss))"
      "st_open_write st2" "map cw_schema (st_writers st2) = schemas"
      "length lss = length rows" "\<forall>ls \<in> set lss. length ls = length schemas"
      "\<forall>c < length schemas. put_all chunk_put (st_writers st1 ! c) (column_of (schemas ! c) rows)
        = Some (st_writers st2 ! c, map (\<lambda>ls. ls ! c) lss)"
    unfolding st1(1) by blast
  let ?ws = "st_writers st2"
  have n: "length ?ws = length schemas" using arg_cong [OF ing(3), of length] by simp
  have wr: "written (schemas ! c) 0 0 (column_of (schemas ! c) rows) (?ws ! c) (map (\<lambda>ls. ls ! c) lss)"
    if "c < length schemas" for c
    using ing(6) that by (simp add: written_def st1)
  let ?mem = "concat (map chunk_serialise ?ws)"
  have "length ?mem = sum_list (map (\<lambda>c. length (chunk_serialise (?ws ! c))) [0..<length schemas])"
    by (simp add: length_concat comp_def n [symmetric] map_nth_upt [of "length ?ws" ?ws, simplified,
        THEN arg_cong, of "map (\<lambda>w. length (chunk_serialise w))", unfolded map_map comp_def])
  also have "\<dots> \<le> sum_list (map (\<lambda>c. column_bytes (column_of (schemas ! c) rows)) [0..<length schemas])"
    using written_length(2) [OF wr] by (intro sum_list_mono) simp
  also have "map (\<lambda>c. column_bytes (column_of (schemas ! c) rows)) [0..<length schemas] =
      map (\<lambda>s. column_bytes (column_of s rows)) schemas"
    by (intro nth_equalityI) simp_all
  finally have lim: "length ?mem < 18446744073709551616"
    using assms(5) by (simp add: store_bytes_def)
  have starts: "\<forall>x \<in> set (region_starts 0 ?ws). x < 18446744073709551616"
  proof
    fix x
    assume "x \<in> set (region_starts 0 ?ws)"
    then obtain c where c: "c < length ?ws" "x = region_starts 0 ?ws ! c"
      by (metis in_set_conv_nth length_region_starts)
    then have "x \<le> length ?mem"
      using concat_split_at [of c "map chunk_serialise ?ws"] by (simp add: nth_region_starts take_map)
    then show "x < 18446744073709551616" using lim by simp
  qed
  define buf where "buf = le_bytes 4 (length ?ws) @ concat (map (le_bytes 8) (region_starts 0 ?ws)) @ ?mem"
  have ser: "SerialiseAll st2 = Inr buf" using ing(2) by (simp add: SerialiseAll_def buf_def)
  note hdr = parse_header [OF n assms(3) starts buf_def]
  define st3 where "st3 = st0\<lparr>st_schemas := schemas, st_id_to_idx := BuildIdMap schemas,
    st_open_read := True, st_read_buf := buf, st_region_offsets := region_starts 0 ?ws,
    st_readers := store_views schemas (length buf)\<rparr>"
  have open3: "store_OpenForRead st0 buf schemas = (st3, Inr ())"
    using hdr(1,2,4) by (simp add: store_OpenForRead_def Let_def st3_def)
  have "ReadColumn st3 (cs_id (schemas ! c)) (lss ! i ! c) = Some (Inr (the ((rows ! i) (cs_id (schemas ! c)))))"
    if c: "c < length schemas" and i: "i < length rows" for c i
  proof -
    have "ReadColumn st3 (cs_id (schemas ! c)) (map (\<lambda>ls. ls ! c) lss ! i) =
        Some (Inr (column_of (schemas ! c) rows ! i))"
      by (rule ReadColumn_serialised [OF assms(2) c n wr [OF c] _ _ lim])
        (use column_of_values [OF assms(4)] c i hdr in \<open>simp_all add: st3_def column_of_def\<close>)
    then show ?thesis using i ing(4) by (simp add: column_of_def)
  qed
  then show ?thesis using open1 ing(1,4,5) ser open3 by blast
qed


section \<open>Properties\<close>

text \<open>C9: rows ingested into a store come back whole, and projected on any requested columns, from
  the serialised store, by the locators their ingestion returned.\<close>

theorem store_roundtrip:
  assumes "schemas \<noteq> []" and "distinct (map cs_id schemas)" and "length schemas < 4294967296"
    and "\<forall>row \<in> set rows. row_fits schemas row"
    and "store_bytes schemas rows < 18446744073709551616"
  shows "\<exists>st1 st2 locs buf st3. store_Open st schemas = (st1, Inr ())
    \<and> ingest_rows st1 rows = (st2, Inr locs) \<and> length locs = length rows
    \<and> SerialiseAll st2 = Inr buf \<and> store_OpenForRead st0 buf schemas = (st3, Inr ())
    \<and> (\<forall>i < length rows. store_Read st3 (locs ! i) = Some (Inr ((rows ! i) |` (cs_id ` set schemas))))
    \<and> (\<forall>i < length rows. \<forall>ids. set ids \<subseteq> cs_id ` set schemas \<longrightarrow>
        store_ReadColumns st3 (locs ! i) ids = Some (Inr ((rows ! i) |` set ids)))"
proof -
  from store_session [OF assms, of st st0] obtain st1 st2 lss buf st3 where
    s: "store_Open st schemas = (st1, Inr ())"
      "ingest_rows st1 rows = (st2, Inr (map (zip (map cs_id schemas)) lss))"
      "length lss = length rows" "\<forall>ls \<in> set lss. length ls = length schemas"
      "SerialiseAll st2 = Inr buf" "store_OpenForRead st0 buf schemas = (st3, Inr ())"
      "\<And>c i. c < length schemas \<Longrightarrow> i < length rows \<Longrightarrow> ReadColumn st3 (cs_id (schemas ! c)) (lss ! i ! c)
        = Some (Inr (the ((rows ! i) (cs_id (schemas ! c)))))"
    by blast
  define locs where "locs = map (zip (map cs_id schemas)) lss"
  have li: "locs ! i = zip (map cs_id schemas) (lss ! i)" "length (lss ! i) = length schemas"
    if "i < length rows" for i
    using that s(3,4) by (simp_all add: locs_def)
  have read: "\<forall>(k, loc) \<in> set (locs ! i). ReadColumn st3 k loc = Some (Inr (the ((rows ! i) k)))"
    if i: "i < length rows" for i
    using li [OF i] s(7) [OF _ i] by (auto simp: set_zip)
  have keys: "map fst (locs ! i) = map cs_id schemas" if "i < length rows" for i
    using li [OF that] by simp
  have fits: "(rows ! i) k \<noteq> None" if "i < length rows" "k \<in> cs_id ` set schemas" for i k
  proof -
    have "row_fits schemas (rows ! i)" using that(1) assms(4) by simp
    then show ?thesis using that(2) by (auto simp: row_fits_def)
  qed
  have restrict: "(\<lambda>k. if k \<in> A then Some (the ((rows ! i) k)) else None) = (rows ! i) |` A"
    if "i < length rows" "A \<subseteq> cs_id ` set schemas" for i A
    using fits [OF that(1)] that(2) by (auto simp: fun_eq_iff restrict_map_def)
  have all: "store_Read st3 (locs ! i) = Some (Inr ((rows ! i) |` (cs_id ` set schemas)))"
    if i: "i < length rows" for i
    unfolding store_Read_def
    using read_row_spec [OF read [OF i], of Map.empty] keys [OF i] assms(2)
      restrict [OF i, of "cs_id ` set schemas"]
    by (simp del: map_eq_conv)
  have some: "store_ReadColumns st3 (locs ! i) ids = Some (Inr ((rows ! i) |` set ids))"
    if i: "i < length rows" and ids: "set ids \<subseteq> cs_id ` set schemas" for i ids
  proof -
    have "distinct (map fst (rev (locs ! i)))"
      using keys [OF i] assms(2) by (simp add: rev_map [symmetric])
    then have m: "map_of (rev (locs ! i)) k = Some loc \<longleftrightarrow> (k, loc) \<in> set (locs ! i)" for k loc
      by (simp add: map_of_eq_Some_iff)
    have "k \<in> fst ` set (locs ! i)" if "k \<in> set ids" for k
      using that ids keys [OF i] by (metis image_set in_mono)
    then have "\<forall>k \<in> set (remdups (sort ids)). \<exists>loc. map_of (rev (locs ! i)) k = Some loc
        \<and> ReadColumn st3 k loc = Some (Inr (the ((rows ! i) k)))"
      using read [OF i] m by fastforce
    from read_wanted_spec [OF this, of Map.empty] show ?thesis
      unfolding store_ReadColumns_def using restrict [OF i ids] by simp
  qed
  show ?thesis using s(1-6) all some unfolding locs_def [symmetric]
    by (intro exI [of _ st1] exI [of _ st2] exI [of _ locs] exI [of _ buf] exI [of _ st3])
      (simp add: locs_def)
qed

definition demo_schemas :: "column_schema list" where
  "demo_schemas = [\<lparr>cs_id = 7, cs_name = ''id'', cs_dtype = INT32, cs_nullable = False\<rparr>,
    \<lparr>cs_id = 3, cs_name = ''text'', cs_dtype = STRING, cs_nullable = False\<rparr>]"

definition demo_row :: "nat \<rightharpoonup> datum" where
  "demo_row = [7 \<mapsto> Datum_Int32 42, 3 \<mapsto> Datum_String [104, 105]]"

lemma demo_fits: "row_fits demo_schemas demo_row"
  by (simp add: row_fits_def demo_schemas_def demo_row_def storable_def datum_factories_wf)
    (simp add: Datum_Int32_def Datum_String_def datum_default_def datum_bytes_def
      DTypeIsFixedWidth_def datum_byte_size_def)

lemma demo_bytes: "store_bytes demo_schemas [demo_row] < 18446744073709551616"
  by (simp add: store_bytes_def header_size_def demo_schemas_def column_of_def demo_row_def
      column_bytes_def Datum_Int32_def Datum_String_def datum_default_def datum_bytes_def
      DTypeIsFixedWidth_def datum_byte_size_def)

theorem store_roundtrip_witness:
  "\<exists>st1 st2 loc buf st3. store_Open store_empty demo_schemas = (st1, Inr ())
    \<and> ingest_rows st1 [demo_row] = (st2, Inr [loc])
    \<and> store_OpenForRead store_empty buf demo_schemas = (st3, Inr ())
    \<and> store_ReadColumns st3 loc [3] = Some (Inr (demo_row |` {3}))"
proof -
  have "demo_schemas \<noteq> []" "distinct (map cs_id demo_schemas)" "length demo_schemas < 4294967296"
    "\<forall>row \<in> set [demo_row]. row_fits demo_schemas row"
    using demo_fits by (simp_all add: demo_schemas_def)
  from store_roundtrip [OF this demo_bytes, of store_empty store_empty] obtain st1 st2 locs buf st3 where
    s: "store_Open store_empty demo_schemas = (st1, Inr ())"
    "ingest_rows st1 [demo_row] = (st2, Inr locs)" "length locs = length [demo_row]"
    "store_OpenForRead store_empty buf demo_schemas = (st3, Inr ())"
    "\<forall>i < length [demo_row]. \<forall>ids. set ids \<subseteq> cs_id ` set demo_schemas \<longrightarrow>
      store_ReadColumns st3 (locs ! i) ids = Some (Inr (([demo_row] ! i) |` set ids))"
    by blast
  from s(3) obtain loc where l: "locs = [loc]" by (auto simp: length_Suc_conv)
  have "store_ReadColumns st3 loc [3] = Some (Inr (demo_row |` {3}))"
    using s(5) l by (force simp: demo_schemas_def)
  with s l show ?thesis by blast
qed

text \<open>C32: flushing to a file through short writes stores exactly the serialised store, and opening
  that file through short reads leaves the store that opening the buffer would.\<close>

theorem store_file_roundtrip:
  assumes "SerialiseAll st = Inr buf" and "pwrite_takes write" and "pread_reads read buf"
    and "st_schemas st0 \<noteq> []" and "store_OpenForRead st0 buf (st_schemas st0) = (st3, Inr ())"
  shows "store_Flush True write path st = Some (Inr (buf, length buf))
    \<and> store_OpenForRead_file st0 path (Some (Some (length buf))) read = (st3, Inr ())"
proof -
  have "pwrite_loop write err [] 0 buf = Some (Inr buf)" for err
    using pwrite_loop_spec [OF assms(2), of 0 "[]" err buf] by (simp add: write_at_def)
  moreover have "pread_loop e e read 0 (length buf) [] = Inr buf" for e
    using pread_loop_spec [OF assms(3), of 0 "length buf" e e "[]"] by simp
  ultimately show ?thesis
    using assms(1,4,5)
    by (auto simp: store_Flush_def store_OpenForRead_file_def store_OpenForRead_def Let_def
        split: if_splits)
qed

theorem store_file_roundtrip_witness:
  "\<exists>st1 buf. store_Flush True (\<lambda>pos data. Some (min 3 (length data))) ''x.cols'' st1
      = Some (Inr (buf, length buf))
    \<and> (\<exists>st3. store_OpenForRead_file st1 ''x.cols'' (Some (Some (length buf)))
        (\<lambda>pos n. Some (slice pos (min 3 n) buf)) = (st3, Inr ()))"
proof -
  define st1 where "st1 = fst (store_Open store_empty demo_schemas)"
  have "store_Open store_empty demo_schemas = (st1, Inr ())" and sch: "st_schemas st1 = demo_schemas"
    by (simp_all add: st1_def store_Open_def demo_schemas_def)
  moreover from store_session [of demo_schemas "[]" store_empty st1] obtain buf st3 where
    s: "SerialiseAll st1 = Inr buf" "store_OpenForRead st1 buf demo_schemas = (st3, Inr ())"
    using calculation(1)
    by (auto simp: demo_schemas_def store_bytes_def header_size_def column_of_def column_bytes_def)
  ultimately show ?thesis
    using store_file_roundtrip [OF s(1) pwrite_takes_3 pread_reads_3, of st1 st3 "''x.cols''"]
    by (auto simp: demo_schemas_def)
qed

text \<open>C34: an ingestion that fails counts no row, and each writer is either unchanged or has only
  been appended to, so every locator handed out before still finds its value.\<close>

theorem ingest_failure_keeps_values:
  assumes "store_Ingest st row = (st', Inl e)"
  shows "st_num_rows st' = st_num_rows st \<and> st_schemas st' = st_schemas st
    \<and> list_all2 (\<lambda>w w'. cw_schema w' = cw_schema w
        \<and> (\<forall>p n. p + n \<le> length (cw_data w) \<longrightarrow> slice p n (cw_data w') = slice p n (cw_data w)))
      (st_writers st) (st_writers st')"
proof -
  let ?R = "\<lambda>w w'. cw_schema w' = cw_schema w
      \<and> (\<forall>p n. p + n \<le> length (cw_data w) \<longrightarrow> slice p n (cw_data w') = slice p n (cw_data w))"
  have refl: "list_all2 ?R ws ws" for ws by (rule list.rel_refl) simp
  have "list_all2 ?R ws (fst (ingest_columns ss ws row))" for ss ws
  proof (induction ss ws row rule: ingest_columns.induct)
    case (1 s ss w ws row)
    show ?case
    proof (cases "row (cs_id s)")
      case None
      then show ?thesis using refl by simp
    next
      case (Some d)
      show ?thesis
      proof (cases "chunk_append_datum w d")
        case (Inl e)
        then show ?thesis using Some refl by simp
      next
        case (Inr wl)
        obtain w' l where wl: "wl = (w', l)" by (cases wl)
        then have "chunk_put w d = Some (w', l)" using Inr by (simp add: chunk_put_def)
        then have "?R w w'" using chunk_put_Some(1,3) by (simp add: slice_append_hit)
        moreover have "list_all2 ?R ws (fst (ingest_columns ss ws row))"
          using "1.IH" [OF Some Inr wl [symmetric]] .
        ultimately show ?thesis using Some Inr wl by (simp add: split_beta)
      qed
    qed
  qed (use refl in simp_all)
  from this [of "st_writers st" "st_schemas st"] assms refl show ?thesis
    by (auto simp: store_Ingest_def split: if_splits prod.splits sum.splits)
qed

theorem ingest_failure_keeps_values_witness:
  "st_num_rows (fst (store_Ingest (fst (store_Open store_empty demo_schemas))
      [7 \<mapsto> Datum_Int32 42])) = 0"
proof -
  have "store_Ingest (fst (store_Open store_empty demo_schemas)) [7 \<mapsto> Datum_Int32 42] =
      (fst (store_Ingest (fst (store_Open store_empty demo_schemas)) [7 \<mapsto> Datum_Int32 42]),
       Inl (kInvalidArgument, ''Ingest: missing column '' @ digits_of 3))"
    by (simp add: store_Open_def store_empty_def demo_schemas_def store_Ingest_def chunk_writer_new_def
        chunk_append_datum_def chunk_append_def Datum_Int32_def datum_default_def
        DTypeIsFixedWidth_def datum_byte_size_def cw_is_fixed_def Let_def)
  from ingest_failure_keeps_values [OF this] show ?thesis
    by (simp add: store_Open_def store_empty_def demo_schemas_def)
qed

text \<open>A failing \<open>OpenForRead\<close> leaves the store open for reading without readers: the next
  \<open>ReadColumn\<close> of a known column indexes an empty vector.\<close>

lemma failed_open_then_read:
  "ReadColumn (fst (store_OpenForRead store_empty [] demo_schemas)) 7 loc = None"
  by (simp add: store_OpenForRead_def ReadColumn_def store_empty_def header_size_def demo_schemas_def
      BuildIdMap_def upt_rec)

end
