(* ===== verification/Data_File.thy ===== *)
theory Data_File
  imports Common_Types Append_Log File_IO Float_Order
begin

text \<open>
  \<open>DataFileWriter\<close> and \<open>DataFileReader\<close> (src/storage/data_file_writer.cpp, data_file_reader.cpp):
  the row-major record file of a cluster.  A record is the raw vector, then each payload column
  (fixed-width bytes, or a 32-bit length and the bytes), padded with zeros to the page size.
  The output stream (\<open>std::ofstream\<close>) keeps bytes in a buffer and writes them on to a device of limited
  capacity when it chooses to; a transfer that does not fit sets the stream's error state, and the
  state stays.  Counters are 64-bit, \<open>vec_bytes\<close>, record sizes and
  buffer offsets 32-bit.  \<open>None\<close> is a read outside a buffer.
\<close>

section \<open>Output stream\<close>

text \<open>\<open>os_data\<close> is on the device, \<open>os_pending\<close> in the buffer.  How much stays in the buffer is up to the library:
  \<open>os_keep pending n\<close> bytes after a write of \<open>n\<close> more, of which the buffer takes less than 2 GiB.\<close>

record out_stream =
  os_open :: bool
  os_good :: bool
  os_data :: bytes
  os_pending :: bytes
  os_capacity :: nat
  os_keep :: "nat \<Rightarrow> nat \<Rightarrow> nat"

text \<open>A transfer to the device.  What does not fit is lost; the device is full then.\<close>

definition stream_transfer :: "out_stream \<Rightarrow> bytes \<Rightarrow> bytes \<Rightarrow> out_stream" where
  "stream_transfer s bs rest =
     (if length (os_data s) + length bs \<le> os_capacity s
      then s\<lparr>os_data := os_data s @ bs, os_pending := rest\<rparr>
      else s\<lparr>os_data := os_data s @ take (os_capacity s - length (os_data s)) bs, os_pending := [], os_good := False\<rparr>)"

definition stream_write :: "out_stream \<Rightarrow> bytes \<Rightarrow> out_stream" where
  "stream_write s bs =
     (if \<not> os_good s then s
      else
        let all = os_pending s @ bs;
            kept = min (min (os_keep s (length (os_pending s)) (length bs)) (length all)) 2147483647;
            sent = length all - kept
        in stream_transfer s (take sent all) (drop sent all))"

text \<open>\<open>flush\<close> or \<open>close\<close>.\<close>

definition stream_flush :: "out_stream \<Rightarrow> out_stream" where
  "stream_flush s = (if \<not> os_good s then s else stream_transfer s (os_pending s) [])"

text \<open>The buffer of libstdc++ (8191 bytes): a write that fills it, or of at least 1024 bytes, goes through.\<close>

definition filebuf_keep :: "nat \<Rightarrow> nat \<Rightarrow> nat" where
  "filebuf_keep pending n = (if min 1024 (8191 - pending) \<le> n then 0 else pending + n)"

section \<open>Writer\<close>

record data_writer =
  dw_path :: string
  dw_stream :: out_stream
  dw_cluster :: nat
  dw_dim :: nat
  dw_schemas :: "column_schema list"
  dw_page :: nat
  dw_offset :: nat
  dw_num :: nat
  dw_finalized :: bool

definition data_writer_new :: data_writer where
  "data_writer_new = \<lparr>dw_path = [],
     dw_stream = \<lparr>os_open = False, os_good = True, os_data = [], os_pending = [], os_capacity = 0,
       os_keep = filebuf_keep\<rparr>,
     dw_cluster = 0, dw_dim = 0, dw_schemas = [], dw_page = kDefaultPageSize, dw_offset = 0,
     dw_num = 0, dw_finalized = False\<rparr>"

text \<open>\<open>device\<close>: the file could be created on a device of that capacity, with a stream that buffers so.\<close>

definition dw_Open ::
    "data_writer \<Rightarrow> string \<Rightarrow> nat \<Rightarrow> nat \<Rightarrow> column_schema list \<Rightarrow> nat
      \<Rightarrow> (nat \<times> (nat \<Rightarrow> nat \<Rightarrow> nat)) option \<Rightarrow> data_writer \<times> status" where
  "dw_Open w path cluster_id raw_dim payload_schemas page_size device =
     (if os_open (dw_stream w) then (w, Inl (kInvalidArgument, ''DataFileWriter already open''))
      else
        let w1 = w\<lparr>dw_path := path, dw_cluster := cluster_id, dw_dim := raw_dim,
                   dw_schemas := payload_schemas, dw_page := page_size, dw_offset := 0,
                   dw_num := 0, dw_finalized := False\<rparr>
        in case device of
          None \<Rightarrow> (w1\<lparr>dw_stream := (dw_stream w)\<lparr>os_good := False\<rparr>\<rparr>,
                   Inl (kIOError, ''Failed to open DataFile for writing: '' @ path))
        | Some (capacity, keep) \<Rightarrow>
            (w1\<lparr>dw_stream := \<lparr>os_open = True, os_good = True, os_data = [], os_pending = [],
                               os_capacity = capacity, os_keep = keep\<rparr>\<rparr>, Inr ()))"

text \<open>One \<open>file_.write\<close> followed by the check of the stream; the offset advances on success.\<close>

definition dw_emit :: "data_writer \<Rightarrow> bytes \<Rightarrow> string \<Rightarrow> data_writer \<times> status" where
  "dw_emit w bs msg =
     (let s = stream_write (dw_stream w) bs
      in if \<not> os_good s then (w\<lparr>dw_stream := s\<rparr>, Inl (kIOError, msg))
         else (w\<lparr>dw_stream := s, dw_offset := wrap64 (dw_offset w + length bs)\<rparr>, Inr ()))"

definition WriteDatum :: "data_writer \<Rightarrow> datum \<Rightarrow> column_schema \<Rightarrow> data_writer \<times> status" where
  "WriteDatum w d schema =
     (if DTypeIsFixedWidth (cs_dtype schema) then
        dw_emit w (take (DTypeSize (cs_dtype schema)) (d_fixed d)) ''Failed to write fixed datum''
      else
        let len = wrap32 (length (d_var d))
        in case dw_emit w (le_bytes 4 len) ''Failed to write var-length prefix'' of
             (w1, Inl e) \<Rightarrow> (w1, Inl e)
           | (w1, Inr _) \<Rightarrow>
               if 0 < len then dw_emit w1 (take len (d_var d)) ''Failed to write var-length data''
               else (w1, Inr ()))"

fun write_payload :: "data_writer \<Rightarrow> datum list \<Rightarrow> column_schema list \<Rightarrow> data_writer \<times> status" where
  "write_payload w (d # ds) (s # ss) =
     (case WriteDatum w d s of
        (w1, Inl e) \<Rightarrow> (w1, Inl e)
      | (w1, Inr _) \<Rightarrow> write_payload w1 ds ss)"
| "write_payload w ds ss = (w, Inr ())"

text \<open>The bytes of a vector of floats, in memory order.\<close>

definition float_bytes :: "f32 list \<Rightarrow> bytes" where
  "float_bytes vec = concat (map (\<lambda>x. le_bytes 4 (unat x)) vec)"

text \<open>Zeros up to the next multiple of the page size, counted from the record's start.\<close>

definition dw_pad :: "data_writer \<Rightarrow> nat \<Rightarrow> data_writer \<times> status" where
  "dw_pad w start =
     (if 1 < dw_page w then
        let raw_size = wrap64 (dw_offset w + 18446744073709551616 - start);
            padded = wrap64 (wrap64 (raw_size + dw_page w - 1) div dw_page w * dw_page w);
            pad_bytes = wrap64 (padded + 18446744073709551616 - raw_size)
        in if 0 < pad_bytes then dw_emit w (replicate pad_bytes 0) ''Failed to write page padding''
           else (w, Inr ())
      else (w, Inr ()))"

definition WriteRecord ::
    "data_writer \<Rightarrow> f32 list \<Rightarrow> datum list \<Rightarrow> (data_writer \<times> address_entry status_or) option" where
  "WriteRecord w vec payload =
     (if \<not> os_open (dw_stream w) then
        Some (w, Inl (kInvalidArgument, ''DataFileWriter not open''))
      else if dw_finalized w then
        Some (w, Inl (kInvalidArgument, ''DataFileWriter already finalized''))
      else if length payload \<noteq> length (dw_schemas w) then
        Some (w, Inl (kInvalidArgument, ''Payload size mismatch: expected ''
          @ digits_of (length (dw_schemas w)) @ '', got '' @ digits_of (length payload)))
      else
        let start = dw_offset w; vec_bytes = wrap32 (dw_dim w * 4)
        in if length (float_bytes vec) < vec_bytes then None
           else Some (case dw_emit w (take vec_bytes (float_bytes vec)) ''Failed to write vector data'' of
             (w1, Inl e) \<Rightarrow> (w1, Inl e)
           | (w1, Inr _) \<Rightarrow>
               (case write_payload w1 payload (dw_schemas w) of
                  (w2, Inl e) \<Rightarrow> (w2, Inl e)
                | (w2, Inr _) \<Rightarrow>
                    (case dw_pad w2 start of
                       (w3, Inl e) \<Rightarrow> (w3, Inl e)
                     | (w3, Inr _) \<Rightarrow>
                            (w3\<lparr>dw_num := wrap64 (dw_num w3 + 1)\<rparr>,
                             Inr \<lparr>ae_offset = of_nat start,
                                  ae_size = of_nat (wrap64 (dw_offset w3 + 18446744073709551616 - start))\<rparr>)))))"

definition dw_Finalize :: "data_writer \<Rightarrow> data_writer \<times> status" where
  "dw_Finalize w =
     (if \<not> os_open (dw_stream w) then (w, Inl (kInvalidArgument, ''DataFileWriter not open''))
      else if dw_finalized w then
        (w, Inl (kInvalidArgument, ''DataFileWriter already finalized''))
      else (w\<lparr>dw_stream := (stream_flush (dw_stream w))\<lparr>os_open := False\<rparr>, dw_finalized := True\<rparr>, Inr ()))"

text \<open>The destructor closes a file that was not finalized.\<close>

definition dw_close :: "data_writer \<Rightarrow> data_writer" where
  "dw_close w = (if os_open (dw_stream w) \<and> \<not> dw_finalized w
     then w\<lparr>dw_stream := (stream_flush (dw_stream w))\<lparr>os_open := False\<rparr>\<rparr> else w)"

section \<open>Reader\<close>

text \<open>\<open>dr_pread\<close> is the open file, \<open>None\<close> when the reader is closed.\<close>

record data_reader =
  dr_pread :: "(nat \<Rightarrow> nat \<Rightarrow> bytes option) option"
  dr_path :: string
  dr_dim :: nat
  dr_schemas :: "column_schema list"

definition data_reader_new :: data_reader where
  "data_reader_new = \<lparr>dr_pread = None, dr_path = [], dr_dim = 0, dr_schemas = []\<rparr>"

definition dr_Open ::
    "data_reader \<Rightarrow> string \<Rightarrow> nat \<Rightarrow> column_schema list \<Rightarrow> (nat \<Rightarrow> nat \<Rightarrow> bytes option) option
      \<Rightarrow> data_reader \<times> status" where
  "dr_Open r path raw_dim payload_schemas fd =
     (if dr_pread r \<noteq> None then (r, Inl (kInvalidArgument, ''DataFileReader already open''))
      else case fd of
        None \<Rightarrow> (r, Inl (kIOError, ''Failed to open DataFile: '' @ path))
      | Some pread \<Rightarrow>
          (r\<lparr>dr_pread := Some pread, dr_path := path, dr_dim := raw_dim,
             dr_schemas := payload_schemas\<rparr>, Inr ()))"

definition dr_Close :: "data_reader \<Rightarrow> data_reader" where
  "dr_Close r = r\<lparr>dr_pread := None\<rparr>"

definition ReadRaw :: "data_reader \<Rightarrow> nat \<Rightarrow> nat \<Rightarrow> bytes status_or" where
  "ReadRaw r offset len =
     (case dr_pread r of
        None \<Rightarrow> Inl (kInvalidArgument, ''DataFileReader not open'')
      | Some pread \<Rightarrow> pread_loop (kIOError, ''pread failed'')
          (kIOError, ''Unexpected EOF in DataFile'') pread offset len [])"

definition ReadVector :: "data_reader \<Rightarrow> address_entry \<Rightarrow> bytes status_or" where
  "ReadVector r addr =
     (let vec_bytes = wrap32 (dr_dim r * 4)
      in if unat (ae_size addr) < vec_bytes then
           Inl (kInvalidArgument, ''Record too small for vector'')
         else ReadRaw r (unat (ae_offset addr)) vec_bytes)"

text \<open>\<open>offset + sizeof\<close> is a 64-bit sum, \<open>offset + len\<close> a 32-bit one.\<close>

fun parse_payload ::
    "bytes \<Rightarrow> nat \<Rightarrow> nat \<Rightarrow> column_schema list \<Rightarrow> datum list status_or option" where
  "parse_payload buf buf_len offset [] = Some (Inr [])"
| "parse_payload buf buf_len offset (s # ss) =
     (if DTypeIsFixedWidth (cs_dtype s) then
        let sz = DTypeSize (cs_dtype s)
        in if buf_len < offset + sz then
             Some (Inl (kIOError, ''Buffer underflow reading fixed column''))
           else if length buf < offset + sz then None
           else map_option (map_sum id ((#) \<lparr>d_dtype = cs_dtype s,
                    d_fixed = union_write (replicate 8 0) (slice offset sz buf), d_var = []\<rparr>))
                  (parse_payload buf buf_len (wrap32 (offset + sz)) ss)
      else if buf_len < offset + 4 then
        Some (Inl (kIOError, ''Buffer underflow reading var-length prefix''))
      else if length buf < offset + 4 then None
      else
        let len = le_nat (slice offset 4 buf);
            offset1 = wrap32 (offset + 4)
        in if buf_len < wrap32 (offset1 + len) then
             Some (Inl (kIOError, ''Buffer underflow reading var-length data''))
           else if length buf < offset1 + len then None
           else map_option (map_sum id ((#) (datum_default\<lparr>d_dtype := cs_dtype s,
                    d_var := slice offset1 len buf\<rparr>)))
                  (parse_payload buf buf_len (wrap32 (offset1 + len)) ss))"

definition ParsePayload ::
    "data_reader \<Rightarrow> bytes \<Rightarrow> nat \<Rightarrow> nat \<Rightarrow> datum list status_or option" where
  "ParsePayload r buf buf_len buf_offset = parse_payload buf buf_len buf_offset (dr_schemas r)"

text \<open>The vector's bytes and the payload.\<close>

definition ReadRecord ::
    "data_reader \<Rightarrow> address_entry \<Rightarrow> (bytes \<times> datum list) status_or option" where
  "ReadRecord r addr =
     (if dr_pread r = None then Some (Inl (kInvalidArgument, ''DataFileReader not open''))
      else case ReadRaw r (unat (ae_offset addr)) (unat (ae_size addr)) of
        Inl e \<Rightarrow> Some (Inl e)
      | Inr buf \<Rightarrow>
          (let vec_bytes = wrap32 (dr_dim r * 4)
           in if unat (ae_size addr) < vec_bytes then
                Some (Inl (kInvalidArgument, ''Record too small for vector''))
              else if dr_schemas r \<noteq> [] then
                map_option (map_sum id (Pair (take vec_bytes buf)))
                  (ParsePayload r buf (unat (ae_size addr)) vec_bytes)
              else Some (Inr (take vec_bytes buf, []))))"


section \<open>What a record is written as\<close>

definition field_bytes :: "datum \<Rightarrow> column_schema \<Rightarrow> bytes" where
  "field_bytes d s =
     (if DTypeIsFixedWidth (cs_dtype s) then take (DTypeSize (cs_dtype s)) (d_fixed d)
      else le_bytes 4 (wrap32 (length (d_var d))) @ take (wrap32 (length (d_var d))) (d_var d))"

definition payload_bytes :: "datum list \<Rightarrow> column_schema list \<Rightarrow> bytes" where
  "payload_bytes ds ss = concat (map2 field_bytes ds ss)"

definition page_pad :: "nat \<Rightarrow> nat \<Rightarrow> nat" where
  "page_pad page n = (if 1 < page then (n + page - 1) div page * page - n else 0)"

definition record_bytes :: "data_writer \<Rightarrow> f32 list \<times> datum list \<Rightarrow> bytes" where
  "record_bytes w vp =
     (let raw = take (wrap32 (dw_dim w * 4)) (float_bytes (fst vp)) @ payload_bytes (snd vp) (dw_schemas w)
      in raw @ replicate (page_pad (dw_page w) (length raw)) 0)"

lemma page_pad_multiple:
  assumes "1 < page"
  shows "(n + page_pad page n) mod page = 0" and "n + page_pad page n < n + page"
proof -
  let ?q = "(n + page - 1) div page"
  have eq: "?q * page + (n + page - 1) mod page = n + page - 1" by simp
  have lt: "(n + page - 1) mod page < page" using assms by simp
  have le: "n \<le> ?q * page" using eq lt assms by linarith
  then have sum: "n + page_pad page n = ?q * page" using assms by (simp add: page_pad_def)
  show "(n + page_pad page n) mod page = 0" unfolding sum by simp
  show "n + page_pad page n < n + page" unfolding sum using eq assms by linarith
qed

section \<open>Emitting bytes\<close>

text \<open>All bytes written so far, and the bytes of the file.\<close>

definition dw_content :: "data_writer \<Rightarrow> bytes" where
  "dw_content w = os_data (dw_stream w) @ os_pending (dw_stream w)"

definition dw_file :: "data_writer \<Rightarrow> bytes" where
  "dw_file w = os_data (dw_stream w)"

text \<open>The counter agrees with the bytes written, and the device is smaller than \<open>2 ^ 63\<close> bytes.\<close>

definition dw_sync :: "data_writer \<Rightarrow> bool" where
  "dw_sync w \<longleftrightarrow> os_good (dw_stream w) \<and> dw_offset w = length (dw_content w)
     \<and> length (dw_file w) \<le> os_capacity (dw_stream w) \<and> length (os_pending (dw_stream w)) \<le> 2147483647
     \<and> os_capacity (dw_stream w) < 9223372036854775808"

definition dw_fits :: "data_writer \<Rightarrow> bytes \<Rightarrow> bool" where
  "dw_fits w bs \<longleftrightarrow> length (dw_content w) + length bs \<le> os_capacity (dw_stream w)"

text \<open>What no write changes.\<close>

definition dw_frame :: "data_writer \<Rightarrow> data_writer \<Rightarrow> bool" where
  "dw_frame w w' \<longleftrightarrow> dw_dim w' = dw_dim w \<and> dw_schemas w' = dw_schemas w \<and> dw_page w' = dw_page w
     \<and> dw_num w' = dw_num w \<and> dw_finalized w' = dw_finalized w
     \<and> os_open (dw_stream w') = os_open (dw_stream w) \<and> os_capacity (dw_stream w') = os_capacity (dw_stream w)"

text \<open>The outcome of writing \<open>bs\<close>: the bytes are written as far as the caller sees, or, only when they do not
  fit the device, an I/O error; the stream stays in its error state, and the device is full of what came first.\<close>

definition appended :: "data_writer \<Rightarrow> bytes \<Rightarrow> data_writer \<Rightarrow> bool" where
  "appended w bs w' \<longleftrightarrow> dw_frame w w' \<and> dw_sync w' \<and> dw_content w' = dw_content w @ bs"

definition broken :: "data_writer \<Rightarrow> bytes \<Rightarrow> data_writer \<Rightarrow> bool" where
  "broken w bs w' \<longleftrightarrow> dw_frame w w' \<and> \<not> os_good (dw_stream w') \<and> \<not> dw_fits w bs
     \<and> dw_file w' = take (os_capacity (dw_stream w)) (dw_content w @ bs)"

definition emits :: "data_writer \<Rightarrow> bytes \<Rightarrow> data_writer \<times> status \<Rightarrow> bool" where
  "emits w bs r \<longleftrightarrow> (\<exists>w'. r = (w', Inr ()) \<and> appended w bs w') \<or> (\<exists>w' msg. r = (w', Inl (kIOError, msg)) \<and> broken w bs w')"

lemma dw_frame_trans: "dw_frame a b \<Longrightarrow> dw_frame b c \<Longrightarrow> dw_frame a c"
  by (simp add: dw_frame_def)

lemma appended_refl: "dw_sync w \<Longrightarrow> appended w [] w"
  by (simp add: appended_def dw_frame_def)

lemma appended_trans: "appended w a w1 \<Longrightarrow> appended w1 b w2 \<Longrightarrow> appended w (a @ b) w2"
  by (simp add: appended_def) (metis dw_frame_trans)

lemma broken_later:
  assumes "appended w a w1" and "broken w1 b w2"
  shows "broken w (a @ b) w2"
  using assms dw_frame_trans [of w w1 w2]
  by (simp add: appended_def broken_def dw_fits_def dw_frame_def)

lemma broken_more:
  assumes "broken w a w1"
  shows "broken w (a @ b) w1"
proof -
  have "take (os_capacity (dw_stream w)) (dw_content w @ a @ b) = take (os_capacity (dw_stream w)) (dw_content w @ a)"
    using assms by (simp add: broken_def dw_fits_def)
  then show ?thesis using assms by (simp add: broken_def dw_fits_def)
qed

lemma dw_sync_length: "dw_sync w \<Longrightarrow> length (dw_content w) < 9223372039002259456"
  by (simp add: dw_sync_def dw_content_def dw_file_def)

lemma emits_emit:
  assumes "dw_sync w"
  shows "emits w bs (dw_emit w bs msg)"
proof -
  define st where "st = dw_stream w"
  define all where "all = os_pending st @ bs"
  define sent where "sent = length all - min (min (os_keep st (length (os_pending st)) (length bs)) (length all)) 2147483647"
  have good: "os_good st" and w: "dw_offset w = length (os_data st @ os_pending st)" "length (os_data st) \<le> os_capacity st"
    "os_capacity st < 9223372036854775808"
    using assms by (simp_all add: dw_sync_def dw_content_def dw_file_def st_def)
  have wr: "stream_write st bs = stream_transfer st (take sent all) (drop sent all)"
    using good by (simp add: stream_write_def Let_def all_def sent_def)
  have sent: "sent \<le> length all" "length (drop sent all) \<le> 2147483647" by (simp_all add: sent_def)
  show ?thesis
  proof (cases "length (os_data st) + sent \<le> os_capacity st")
    case True
    define x y where "x = take sent all" and "y = drop sent all"
    have s: "stream_write st bs = st\<lparr>os_data := os_data st @ x, os_pending := y\<rparr>"
      using True sent(1) by (simp add: wr stream_transfer_def x_def y_def)
    have xy: "x @ y = os_pending st @ bs" "length x = sent" "length y \<le> 2147483647"
      using sent by (simp_all add: x_def y_def) (simp add: all_def)
    have len: "length x + length y = length (os_pending st) + length bs"
      using arg_cong [OF xy(1), of length] by simp
    then have "wrap64 (dw_offset w + length bs) = length (os_data st) + length x + length y"
      using True xy w(1,3) by simp
    then have "appended w bs (fst (dw_emit w bs msg)) \<and> snd (dw_emit w bs msg) = Inr ()"
      using good True xy w len
      by (simp add: dw_emit_def Let_def st_def [symmetric] s appended_def dw_frame_def dw_sync_def dw_content_def dw_file_def)
    then show ?thesis unfolding emits_def by (metis prod.collapse)
  next
    case False
    then have s: "stream_write st bs = st\<lparr>os_data := os_data st @ take (os_capacity st - length (os_data st)) all,
        os_pending := [], os_good := False\<rparr>"
      using sent(1) by (simp add: wr stream_transfer_def min_def)
    have "\<not> length (os_data st @ all) \<le> os_capacity st" using False sent(1) by simp
    then have "broken w bs (fst (dw_emit w bs msg)) \<and> snd (dw_emit w bs msg) = Inl (kIOError, msg)"
      using w(2) by (simp add: dw_emit_def Let_def st_def [symmetric] s broken_def dw_frame_def dw_fits_def
          dw_content_def dw_file_def all_def)
    then show ?thesis unfolding emits_def by (metis prod.collapse)
  qed
qed

lemma emits_nothing: "dw_sync w \<Longrightarrow> emits w [] (w, Inr ())"
  by (simp add: emits_def appended_refl)

lemma emits_seq:
  assumes "emits w a r" and "\<And>w1. r = (w1, Inr ()) \<Longrightarrow> appended w a w1 \<Longrightarrow> emits w1 b (k w1)"
  shows "emits w (a @ b) (case r of (w1, Inl e) \<Rightarrow> (w1, Inl e) | (w1, Inr u) \<Rightarrow> k w1)"
  using assms(1) unfolding emits_def [of w a]
proof (elim disjE exE conjE)
  fix w1
  assume r: "r = (w1, Inr ())" and ap: "appended w a w1"
  from assms(2) [OF r ap] have "emits w (a @ b) (k w1)"
    unfolding emits_def using appended_trans [OF ap] broken_later [OF ap] by blast
  then show ?thesis by (simp add: r)
next
  fix w1 msg
  assume "r = (w1, Inl (kIOError, msg))" and "broken w a w1"
  then show ?thesis using broken_more by (auto simp: emits_def)
qed

lemma WriteDatum_emits:
  assumes "dw_sync w"
  shows "emits w (field_bytes d s) (WriteDatum w d s)"
proof (cases "DTypeIsFixedWidth (cs_dtype s)")
  case True
  then show ?thesis using emits_emit [OF assms] by (simp add: WriteDatum_def field_bytes_def)
next
  case False
  define n where "n = wrap32 (length (d_var d))"
  have "emits w (le_bytes 4 n @ take n (d_var d))
    (case dw_emit w (le_bytes 4 n) ''Failed to write var-length prefix'' of
       (w1, Inl e) \<Rightarrow> (w1, Inl e)
     | (w1, Inr u) \<Rightarrow> if 0 < n then dw_emit w1 (take n (d_var d)) ''Failed to write var-length data''
         else (w1, Inr ()))"
  proof (rule emits_seq [OF emits_emit [OF assms]])
    fix w1
    assume "appended w (le_bytes 4 n) w1"
    then have "dw_sync w1" by (simp add: appended_def)
    then show "emits w1 (take n (d_var d))
        (if 0 < n then dw_emit w1 (take n (d_var d)) ''Failed to write var-length data'' else (w1, Inr ()))"
      by (cases "0 < n") (simp_all add: emits_emit emits_nothing)
  qed
  then show ?thesis using False
    by (simp only: WriteDatum_def field_bytes_def Let_def if_False n_def)
qed

lemma write_payload_emits:
  "dw_sync w \<Longrightarrow> length ds = length ss \<Longrightarrow> emits w (payload_bytes ds ss) (write_payload w ds ss)"
proof (induction w ds ss rule: write_payload.induct)
  case (1 w d ds s ss)
  have "emits w (field_bytes d s @ payload_bytes ds ss)
    (case WriteDatum w d s of (w1, Inl e) \<Rightarrow> (w1, Inl e) | (w1, Inr u) \<Rightarrow> write_payload w1 ds ss)"
  proof (rule emits_seq [OF WriteDatum_emits [OF "1.prems"(1)]])
    fix w1
    assume "WriteDatum w d s = (w1, Inr ())" and "appended w (field_bytes d s) w1"
    then show "emits w1 (payload_bytes ds ss) (write_payload w1 ds ss)"
      using "1.IH" [of w1 "Inr ()" "()"] "1.prems"(2) by (simp add: appended_def)
  qed
  then show ?case by (simp add: payload_bytes_def)
qed (simp_all add: payload_bytes_def emits_nothing)

section \<open>Writing a record\<close>

definition dw_ready :: "data_writer \<Rightarrow> bool" where
  "dw_ready w \<longleftrightarrow> dw_sync w \<and> os_open (dw_stream w) \<and> \<not> dw_finalized w \<and> dw_page w < 4294967296"

definition dw_entry :: "data_writer \<Rightarrow> bytes \<Rightarrow> address_entry" where
  "dw_entry w bs = \<lparr>ae_offset = of_nat (dw_offset w), ae_size = of_nat (length bs)\<rparr>"

lemma padding_words:
  assumes "n < 9223372039002259456" and "1 < page" and "page < 4294967296"
  shows "wrap64 (start + n + 18446744073709551616 - start) = n"
    and "wrap64 (wrap64 (wrap64 (n + page - 1) div page * page) + 18446744073709551616 - n) = page_pad page n"
proof -
  have "start + n + 18446744073709551616 - start = n + 18446744073709551616" by simp
  then show "wrap64 (start + n + 18446744073709551616 - start) = n"
    using assms(1) by (simp only: mod_add_self2) simp
  have b: "n + page_pad page n < 9223372039002259456 + 4294967296"
    using page_pad_multiple(2) [OF assms(2), of n] assms(1,3) by linarith
  have w1: "wrap64 (n + page - 1) = n + page - 1" using assms by simp
  have s: "(n + page - 1) div page * page = n + page_pad page n"
  proof -
    have "(n + page - 1) mod page < page" using assms(2) by simp
    moreover have "(n + page - 1) div page * page + (n + page - 1) mod page = n + page - 1" by simp
    ultimately have "n \<le> (n + page - 1) div page * page" using assms(2) by linarith
    then show ?thesis using assms(2) by (simp add: page_pad_def)
  qed
  have "wrap64 (n + page_pad page n) = n + page_pad page n" using b by simp
  moreover have "n + page_pad page n + 18446744073709551616 - n = page_pad page n + 18446744073709551616"
    by simp
  moreover have "page_pad page n < 18446744073709551616" using b by linarith
  ultimately show "wrap64 (wrap64 (wrap64 (n + page - 1) div page * page) + 18446744073709551616 - n) = page_pad page n"
    unfolding w1 s by (simp only: mod_add_self2) simp
qed


lemma length_float_bytes [simp]: "length (float_bytes vec) = 4 * length vec"
  by (induction vec) (simp_all add: float_bytes_def)

definition record_ok :: "data_writer \<Rightarrow> f32 list \<times> datum list \<Rightarrow> bool" where
  "record_ok w vp \<longleftrightarrow> length (snd vp) = length (dw_schemas w)
     \<and> wrap32 (dw_dim w * 4) \<le> 4 * length (fst vp)"

lemma pad_emits:
  assumes w: "dw_ready w" and ap: "appended w raw w2"
  shows "emits w2 (replicate (page_pad (dw_page w) (length raw)) 0) (dw_pad w2 (dw_offset w))"
proof -
  have sync: "dw_sync w2" and page2: "dw_page w2 = dw_page w" using ap by (simp_all add: appended_def dw_frame_def)
  have off: "dw_offset w2 = dw_offset w + length raw"
    using ap w by (simp add: appended_def dw_sync_def dw_ready_def)
  have n: "length raw < 9223372039002259456"
    using dw_sync_length [OF sync] ap by (simp add: appended_def)
  have page: "dw_page w < 4294967296" using w by (simp add: dw_ready_def)
  show ?thesis
  proof (cases "1 < dw_page w")
    case True
    note P = padding_words [OF n True page]
    show ?thesis
      unfolding dw_pad_def Let_def off page2 P
      using True emits_emit [OF sync] emits_nothing [OF sync]
      by (cases "page_pad (dw_page w) (length raw) = 0") simp_all
  next
    case False
    then show ?thesis
      unfolding dw_pad_def Let_def page2 using emits_nothing [OF sync] by (simp add: page_pad_def)
  qed
qed

text \<open>A record is written whole, or an I/O error reports that the device is full.\<close>

lemma WriteRecord_spec:
  assumes "dw_ready w" and "record_ok w (vec, payload)"
  defines "bs \<equiv> record_bytes w (vec, payload)"
  obtains w3 where "appended w bs w3"
    and "WriteRecord w vec payload = Some (w3\<lparr>dw_num := wrap64 (dw_num w + 1)\<rparr>, Inr (dw_entry w bs))"
  | w' msg where "broken w bs w'" and "WriteRecord w vec payload = Some (w', Inl (kIOError, msg))"
proof -
  let ?n = "wrap32 (dw_dim w * 4)"
  define vb where "vb = take ?n (float_bytes vec)"
  define pb where "pb = payload_bytes payload (dw_schemas w)"
  define zs where "zs = replicate (page_pad (dw_page w) (length (vb @ pb))) (0 :: u8)"
  have rb: "bs = (vb @ pb) @ zs"
    by (simp add: bs_def record_bytes_def Let_def vb_def pb_def zs_def)
  have sync: "dw_sync w" and op: "os_open (dw_stream w)" "\<not> dw_finalized w"
    using assms(1) by (simp_all add: dw_ready_def)
  have ok: "length payload = length (dw_schemas w)" "\<not> 4 * length vec < ?n"
    using assms(2) by (simp_all add: record_ok_def)
  define r1 where "r1 = dw_emit w vb ''Failed to write vector data''"
  define r2 where "r2 = (case r1 of (w1, Inl e) \<Rightarrow> (w1, Inl e) | (w1, Inr u) \<Rightarrow> write_payload w1 payload (dw_schemas w))"
  define r3 where "r3 = (case r2 of (w2, Inl e) \<Rightarrow> (w2, Inl e) | (w2, Inr u) \<Rightarrow> dw_pad w2 (dw_offset w))"
  have W: "WriteRecord w vec payload = Some (case r3 of (w3, Inl e) \<Rightarrow> (w3, Inl e)
      | (w3, Inr u) \<Rightarrow> (w3\<lparr>dw_num := wrap64 (dw_num w3 + 1)\<rparr>, Inr \<lparr>ae_offset = of_nat (dw_offset w),
          ae_size = of_nat (wrap64 (dw_offset w3 + 18446744073709551616 - dw_offset w))\<rparr>))"
  proof -
    obtain w1 u1 where 1: "r1 = (w1, u1)" by fastforce
    obtain w2 u2 where 2: "write_payload w1 payload (dw_schemas w) = (w2, u2)" by fastforce
    obtain w3 u3 where 3: "dw_pad w2 (dw_offset w) = (w3, u3)" by fastforce
    show ?thesis
      using op ok unfolding WriteRecord_def length_float_bytes Let_def vb_def [symmetric] r1_def [symmetric] r2_def r3_def 1
      by (cases u1; cases u2; cases u3) (simp_all add: 2 3)
  qed
  have e2: "emits w (vb @ pb) r2"
    unfolding r2_def
  proof (rule emits_seq)
    show "emits w vb r1" unfolding r1_def by (rule emits_emit [OF sync])
    show "emits w1 pb (write_payload w1 payload (dw_schemas w))" if "appended w vb w1" for w1
      unfolding pb_def by (rule write_payload_emits) (use that ok(1) in \<open>simp_all add: appended_def\<close>)
  qed
  have e3: "emits w bs r3"
    unfolding r3_def rb zs_def by (rule emits_seq [OF e2]) (rule pad_emits [OF assms(1)])
  show thesis
    using e3 unfolding emits_def
  proof (elim disjE exE conjE)
    fix w3
    assume r3: "r3 = (w3, Inr ())" and ap: "appended w bs w3"
    have off: "dw_offset w3 = dw_offset w + length bs" "dw_num w3 = dw_num w"
      using ap sync by (simp_all add: appended_def dw_sync_def dw_frame_def)
    have "length bs < 18446744073709551616" using dw_sync_length [of w3] ap by (simp add: appended_def)
    then have "wrap64 (dw_offset w + length bs + 18446744073709551616 - dw_offset w) = length bs" by simp
    then have "WriteRecord w vec payload = Some (w3\<lparr>dw_num := wrap64 (dw_num w + 1)\<rparr>, Inr (dw_entry w bs))"
      unfolding W r3 by (simp add: dw_entry_def off)
    then show thesis using that(1) ap by blast
  next
    fix w' msg
    assume "r3 = (w', Inl (kIOError, msg))" and "broken w bs w'"
    then show thesis using that(2) W by simp
  qed
qed


section \<open>Interpretation as an append log\<close>

definition dw_put :: "data_writer \<Rightarrow> f32 list \<times> datum list \<Rightarrow> (data_writer \<times> address_entry) option" where
  "dw_put w vp = (case WriteRecord w (fst vp) (snd vp) of Some (w', Inr l) \<Rightarrow> Some (w', l) | _ \<Rightarrow> None)"

lemma WriteRecord_Inr_ok:
  "WriteRecord w vec payload = Some (w', Inr l) \<Longrightarrow> record_ok w (vec, payload)"
  by (auto simp: WriteRecord_def record_ok_def Let_def not_less split: if_splits)

lemma dw_put_Some:
  assumes "dw_ready w" and "dw_put w vp = Some (w', l)"
  obtains w3 where "appended w (record_bytes w vp) w3" and "w' = w3\<lparr>dw_num := wrap64 (dw_num w + 1)\<rparr>"
    and "l = dw_entry w (record_bytes w vp)"
proof -
  obtain vec payload where vp: "vp = (vec, payload)" by (cases vp)
  have W: "WriteRecord w vec payload = Some (w', Inr l)"
    using assms(2) by (auto simp: dw_put_def vp split: option.splits sum.splits)
  show thesis
  proof (rule WriteRecord_spec [OF assms(1) WriteRecord_Inr_ok [OF W]])
    fix w3
    assume "appended w (record_bytes w (vec, payload)) w3"
      and "WriteRecord w vec payload = Some (w3\<lparr>dw_num := wrap64 (dw_num w + 1)\<rparr>, Inr (dw_entry w (record_bytes w (vec, payload))))"
    then show thesis using that [of w3] W unfolding vp by simp
  qed (use W in simp)
qed

lemma dw_put_ok:
  assumes "dw_ready w" and "record_ok w vp" and "dw_fits w (record_bytes w vp)"
  shows "dw_put w vp \<noteq> None"
proof -
  obtain vec payload where vp: "vp = (vec, payload)" by (cases vp)
  show ?thesis
    by (rule WriteRecord_spec [OF assms(1) assms(2) [unfolded vp]])
      (use assms(3) in \<open>simp_all add: dw_put_def vp broken_def\<close>)
qed

lemma dw_num_irrelevant [simp]:
  "dw_content (w\<lparr>dw_num := n\<rparr>) = dw_content w" "dw_sync (w\<lparr>dw_num := n\<rparr>) = dw_sync w"
  by (simp_all add: dw_content_def dw_sync_def dw_file_def)

lemma dw_put_frame:
  assumes "dw_ready w" and "dw_put w vp = Some (w', l)"
  shows "dw_ready w'" and "dw_dim w' = dw_dim w" and "dw_schemas w' = dw_schemas w"
    and "dw_page w' = dw_page w" and "dw_content w' = dw_content w @ record_bytes w vp"
    and "dw_num w' = wrap64 (dw_num w + 1)"
    and "os_capacity (dw_stream w') = os_capacity (dw_stream w)"
proof -
  obtain w3 where w3: "appended w (record_bytes w vp) w3" and w': "w' = w3\<lparr>dw_num := wrap64 (dw_num w + 1)\<rparr>"
    using dw_put_Some [OF assms] by blast
  have "dw_frame w w3" "dw_sync w3" "dw_content w3 = dw_content w @ record_bytes w vp"
    using w3 by (simp_all add: appended_def)
  then show "dw_ready w'" and "dw_dim w' = dw_dim w" and "dw_schemas w' = dw_schemas w"
    and "dw_page w' = dw_page w" and "dw_content w' = dw_content w @ record_bytes w vp"
    and "dw_num w' = wrap64 (dw_num w + 1)"
    and "os_capacity (dw_stream w') = os_capacity (dw_stream w)"
    using assms(1) unfolding w' by (simp_all add: dw_ready_def dw_frame_def)
qed

lemma record_bytes_cong:
  "dw_dim w' = dw_dim w \<Longrightarrow> dw_schemas w' = dw_schemas w \<Longrightarrow> dw_page w' = dw_page w \<Longrightarrow>
     record_bytes w' vp = record_bytes w vp"
  by (simp add: record_bytes_def)

text \<open>An entry's size field has 32 bits.\<close>

definition record_valid :: "data_writer \<Rightarrow> f32 list \<times> datum list \<Rightarrow> bool" where
  "record_valid w vp \<longleftrightarrow> length (record_bytes w vp) < 4294967296"

interpretation records: append_log dw_ready dw_content dw_put record_valid 18446744073709551616
    record_bytes "\<lambda>l. unat (ae_offset l)" "\<lambda>l. unat (ae_size l)"
proof
  fix w w' vp l v
  assume rdy: "dw_ready w" and put: "dw_put w vp = Some (w', l)"
  note f = dw_put_frame [OF rdy put]
  show "dw_ready w'" by (rule f)
  show enc: "record_bytes w' v = record_bytes w v" by (rule record_bytes_cong) (simp_all add: f)
  show "record_valid w' v = record_valid w v" by (simp add: record_valid_def enc)
  show c: "dw_content w' = dw_content w @ record_bytes w vp" by (rule f)
  assume v: "record_valid w vp" and lim: "length (dw_content w') < 18446744073709551616"
  have "dw_offset w = length (dw_content w)"
    using rdy by (simp add: dw_ready_def dw_sync_def)
  moreover have "l = dw_entry w (record_bytes w vp)" using dw_put_Some [OF rdy put] by blast
  ultimately show "unat (ae_offset l) = length (dw_content w)
      \<and> unat (ae_size l) = length (record_bytes w vp)"
    using v lim c
    by (simp add: dw_entry_def record_valid_def unsigned_of_nat take_bit_eq_mod)
qed


section \<open>Reading a record back\<close>

definition datum_fits :: "datum \<Rightarrow> column_schema \<Rightarrow> bool" where
  "datum_fits d s \<longleftrightarrow> datum_wf d \<and> d_dtype d = cs_dtype s \<and> length (d_var d) < 4294967296"

lemma datum_fits_simps:
  assumes "datum_fits d s"
  shows "length (d_fixed d) = 8" and "d_dtype d = cs_dtype s" and "length (d_var d) < 4294967296"
    and "drop (DTypeSize (cs_dtype s)) (d_fixed d) = replicate (8 - DTypeSize (cs_dtype s)) 0"
    and "DTypeIsFixedWidth (cs_dtype s) \<Longrightarrow> d_var d = []"
  using assms unfolding datum_fits_def datum_wf_def by auto

lemma length_field_bytes:
  "datum_fits d s \<Longrightarrow> length (field_bytes d s) =
     (if DTypeIsFixedWidth (cs_dtype s) then DTypeSize (cs_dtype s) else 4 + length (d_var d))"
  using DTypeSize_le8 [of "cs_dtype s"] by (simp add: field_bytes_def datum_fits_def datum_wf_def)

lemma union_of_fixed:
  assumes "datum_fits d s" and "DTypeIsFixedWidth (cs_dtype s)"
  shows "\<lparr>d_dtype = cs_dtype s,
      d_fixed = union_write (replicate 8 0) (take (DTypeSize (cs_dtype s)) (d_fixed d)), d_var = []\<rparr> = d"
proof -
  have n: "DTypeSize (cs_dtype s) \<le> 8" by (rule DTypeSize_le8)
  note d = datum_fits_simps [OF assms(1)]
  have "union_write (replicate 8 0) (take (DTypeSize (cs_dtype s)) (d_fixed d)) =
      take (DTypeSize (cs_dtype s)) (d_fixed d) @ drop (DTypeSize (cs_dtype s)) (d_fixed d)"
    using n by (simp add: union_write_def d(1,4) min_def)
  then show ?thesis using d(2) d(5) [OF assms(2)] by simp
qed

lemma slice_mid: "slice (length a) (length b) (a @ b @ c) = b"
  by (simp add: slice_def)

lemma parse_payload_field:
  assumes "datum_fits d s" and "length (pre @ field_bytes d s @ post) < 4294967296"
  shows "parse_payload (pre @ field_bytes d s @ post) (length (pre @ field_bytes d s @ post))
      (length pre) (s # ss) =
    map_option (map_sum id ((#) d)) (parse_payload (pre @ field_bytes d s @ post)
      (length (pre @ field_bytes d s @ post)) (length (pre @ field_bytes d s)) ss)"
proof (cases "DTypeIsFixedWidth (cs_dtype s)")
  case True
  have f: "field_bytes d s = take (DTypeSize (cs_dtype s)) (d_fixed d)"
    using True by (simp add: field_bytes_def)
  have n: "length (field_bytes d s) = DTypeSize (cs_dtype s)"
    using length_field_bytes [OF assms(1)] True by simp
  have sl: "slice (length pre) (DTypeSize (cs_dtype s)) (pre @ field_bytes d s @ post) = field_bytes d s"
    using slice_mid [of pre "field_bytes d s" post] by (simp only: n)
  show ?thesis
    using True assms(2) n by (simp add: Let_def sl f [symmetric] union_of_fixed [OF assms(1), folded f])
next
  case False
  define v where "v = d_var d"
  have v: "length v < 4294967296" using assms(1) by (simp add: datum_fits_def v_def)
  have f: "field_bytes d s = le_bytes 4 (length v) @ v"
    using False v by (simp add: field_bytes_def v_def)
  have d: "datum_default\<lparr>d_dtype := cs_dtype s, d_var := v\<rparr> = d"
    using datum_fits_simps [OF assms(1)] False
    by (simp add: datum_default_def DTypeIsFixedWidth_def v_def)
  have s1: "slice (length pre) 4 (pre @ le_bytes 4 (length v) @ v @ post) = le_bytes 4 (length v)"
    using slice_mid [of pre "le_bytes 4 (length v)" "v @ post"] by simp
  have s2: "slice (length pre + 4) (length v) (pre @ le_bytes 4 (length v) @ v @ post) = v"
    using slice_mid [of "pre @ le_bytes 4 (length v)" v post] by simp
  have len: "le_nat (le_bytes 4 (length v)) = length v" using v by (simp add: le_nat_le_bytes)
  show ?thesis
    unfolding f using False assms(2) v
    by (simp add: Let_def s1 s2 len d f add.assoc [symmetric])
qed

lemma parse_payload_payload_bytes:
  assumes "list_all2 datum_fits ds ss" and "length (pre @ payload_bytes ds ss @ post) < 4294967296"
  shows "parse_payload (pre @ payload_bytes ds ss @ post) (length (pre @ payload_bytes ds ss @ post))
      (length pre) ss = Some (Inr ds)"
  using assms
proof (induction ds ss arbitrary: pre rule: list_all2_induct)
  case Nil
  show ?case by simp
next
  case (Cons d ds s ss)
  have pb: "payload_bytes (d # ds) (s # ss) = field_bytes d s @ payload_bytes ds ss"
    by (simp add: payload_bytes_def)
  have "parse_payload ((pre @ field_bytes d s) @ payload_bytes ds ss @ post)
      (length ((pre @ field_bytes d s) @ payload_bytes ds ss @ post))
      (length (pre @ field_bytes d s)) ss = Some (Inr ds)"
    by (rule Cons.IH) (use Cons.prems in \<open>simp add: pb\<close>)
  with parse_payload_field [OF Cons.hyps(1), of pre "payload_bytes ds ss @ post" ss] Cons.prems
  show ?case by (simp add: pb)
qed

text \<open>A record the writer can store so that the reader understands it.\<close>

definition record_storable :: "data_writer \<Rightarrow> f32 list \<times> datum list \<Rightarrow> bool" where
  "record_storable w vp \<longleftrightarrow> length (fst vp) = dw_dim w \<and> dw_dim w < 1073741824
     \<and> list_all2 datum_fits (snd vp) (dw_schemas w) \<and> record_valid w vp"

lemma record_storable_ok: "record_storable w vp \<Longrightarrow> record_ok w vp"
  by (auto simp: record_storable_def record_ok_def dest: list_all2_lengthD)

lemma record_bytes_split:
  assumes "record_storable w (vec, payload)"
  obtains z where "record_bytes w (vec, payload) =
    float_bytes vec @ payload_bytes payload (dw_schemas w) @ z"
  using assms by (simp add: record_bytes_def record_storable_def Let_def)

definition reader_of :: "data_reader \<Rightarrow> data_writer \<Rightarrow> (nat \<Rightarrow> nat \<Rightarrow> bytes option) \<Rightarrow> bool" where
  "reader_of r w pread \<longleftrightarrow> dr_pread r = Some pread \<and> dr_dim r = dw_dim w \<and> dr_schemas r = dw_schemas w"

lemma ReadRecord_record:
  assumes "record_storable w (vec, payload)" and "reader_of r w pread" and "pread_reads pread fl"
    and "slice (unat (ae_offset l)) (unat (ae_size l)) fl = record_bytes w (vec, payload)"
    and "unat (ae_offset l) + unat (ae_size l) \<le> length fl"
  shows "ReadRecord r l = Some (Inr (float_bytes vec, payload))"
    and "ReadVector r l = Inr (float_bytes vec)"
proof -
  obtain z where rb: "record_bytes w (vec, payload) =
      float_bytes vec @ payload_bytes payload (dw_schemas w) @ z"
    by (rule record_bytes_split [OF assms(1)])
  have st: "length vec = dw_dim w" "dw_dim w < 1073741824"
    "list_all2 datum_fits payload (dw_schemas w)" "length (record_bytes w (vec, payload)) < 4294967296"
    using assms(1) by (simp_all add: record_storable_def record_valid_def)
  have r: "dr_pread r = Some pread" "dr_dim r = dw_dim w" "dr_schemas r = dw_schemas w"
    using assms(2) by (simp_all add: reader_of_def)
  have n: "unat (ae_size l) = length (record_bytes w (vec, payload))"
    using arg_cong [OF assms(4), of length] assms(5) by simp
  have raw: "ReadRaw r (unat (ae_offset l)) k = Inr (slice (unat (ae_offset l)) k fl)"
    if "k \<le> unat (ae_size l)" for k
    using that assms(5) pread_loop_spec [OF assms(3), of "unat (ae_offset l)" k] r(1)
    by (simp add: ReadRaw_def)
  have w4: "wrap32 (dw_dim w * 4) = length (float_bytes vec)" using st(1,2) by simp
  have le: "length (float_bytes vec) \<le> unat (ae_size l)" unfolding n rb by simp
  have "slice (unat (ae_offset l)) (length (float_bytes vec)) fl =
      take (length (float_bytes vec)) (slice (unat (ae_offset l)) (unat (ae_size l)) fl)"
    using le by (simp add: slice_def)
  also have "\<dots> = float_bytes vec" unfolding assms(4) rb by simp
  finally have sv: "slice (unat (ae_offset l)) (length (float_bytes vec)) fl = float_bytes vec" .
  show "ReadVector r l = Inr (float_bytes vec)"
    using le raw [OF le] by (simp only: ReadVector_def r(2) w4 Let_def sv not_less [symmetric] if_False simp_thms)
  have "parse_payload (record_bytes w (vec, payload)) (unat (ae_size l)) (length (float_bytes vec))
      (dw_schemas w) = Some (Inr payload)"
    unfolding n rb by (rule parse_payload_payload_bytes) (use st(3,4) rb in simp_all)
  moreover have "payload = []" if "dw_schemas w = []" using st(3) that by simp
  ultimately show "ReadRecord r l = Some (Inr (float_bytes vec, payload))"
    using le raw [of "unat (ae_size l)"] r
    by (simp add: ReadRecord_def ParsePayload_def assms(4) w4 Let_def rb not_less [symmetric])
qed

lemma reader_of_cong:
  "dw_dim w' = dw_dim w \<Longrightarrow> dw_schemas w' = dw_schemas w \<Longrightarrow> reader_of r w' pread = reader_of r w pread"
  by (simp add: reader_of_def)


section \<open>Sequences of records\<close>

text \<open>\<open>Open\<close> on a fresh writer: ready, with an empty file.\<close>

lemma dw_Open_ready:
  assumes "\<not> os_open (dw_stream w0)" and "capacity < 9223372036854775808" and "page < 4294967296"
  obtains w where "dw_Open w0 path cluster dim ss page (Some (capacity, keep)) = (w, Inr ())"
    and "dw_ready w" and "dw_content w = []" and "dw_dim w = dim" and "dw_schemas w = ss"
    and "dw_page w = page" and "os_capacity (dw_stream w) = capacity" and "dw_num w = 0"
proof -
  define w where "w = fst (dw_Open w0 path cluster dim ss page (Some (capacity, keep)))"
  show ?thesis
    by (rule that [of w])
      (use assms in \<open>simp_all add: w_def dw_Open_def dw_ready_def dw_sync_def dw_content_def dw_file_def Let_def\<close>)
qed

lemma put_all_records_frame:
  "dw_ready w \<Longrightarrow> put_all dw_put w recs = Some (w', es) \<Longrightarrow>
     dw_ready w' \<and> dw_dim w' = dw_dim w \<and> dw_schemas w' = dw_schemas w \<and> dw_page w' = dw_page w
     \<and> os_capacity (dw_stream w') = os_capacity (dw_stream w)
     \<and> wrap64 (dw_num w') = wrap64 (dw_num w + length recs)"
proof (induction recs arbitrary: w es)
  case Nil
  then show ?case by simp
next
  case (Cons vp recs)
  from Cons.prems(2) obtain w1 l es1 where step: "dw_put w vp = Some (w1, l)"
    and rest: "put_all dw_put w1 recs = Some (w', es1)"
    by (rule put_all_Cons_E)
  note f = dw_put_frame [OF Cons.prems(1) step]
  show ?case using Cons.IH [OF f(1) rest] f by (simp add: mod_simps)
qed

text \<open>A batch of storable records that fits the device is written.\<close>

lemma put_all_records_fit:
  assumes "dw_ready w" and "\<forall>vp \<in> set recs. record_ok w vp"
    and "length (dw_content w) + sum_list (map (\<lambda>vp. length (record_bytes w vp)) recs) \<le> os_capacity (dw_stream w)"
  obtains w' es where "put_all dw_put w recs = Some (w', es)"
proof -
  have "put_all dw_put w recs \<noteq> None"
    using assms
  proof (induction recs arbitrary: w)
    case (Cons vp recs)
    then have "dw_put w vp \<noteq> None" by (intro dw_put_ok) (simp_all add: dw_fits_def)
    then obtain w1 l where step: "dw_put w vp = Some (w1, l)" by fastforce
    note f = dw_put_frame [OF Cons.prems(1) step]
    have rb: "record_bytes w1 = record_bytes w" by (rule ext, rule record_bytes_cong) (simp_all add: f)
    have "put_all dw_put w1 recs \<noteq> None"
      by (rule Cons.IH [OF f(1)]) (use Cons.prems(2,3) f rb in \<open>simp_all add: record_ok_def\<close>)
    then show ?case using step by (auto split: option.splits)
  qed simp
  then show thesis using that by fastforce
qed

lemma put_all_records_content:
  assumes "dw_ready w" and "put_all dw_put w recs = Some (w', es)"
  shows "dw_content w' = dw_content w @ concat (map (record_bytes w) recs)"
    and "length (dw_content w') < 9223372039002259456"
proof -
  show "dw_content w' = dw_content w @ concat (map (record_bytes w) recs)"
    using records.put_all_content [OF assms] by simp
  have "dw_ready w'" using put_all_records_frame [OF assms] by simp
  then show "length (dw_content w') < 9223372039002259456"
    using dw_sync_length by (simp add: dw_ready_def)
qed

text \<open>\<open>Finalize\<close> reports OK in any case; what did not fit the device is missing in the file.\<close>

lemma Finalize_file:
  assumes "dw_ready w"
  obtains wf where "dw_Finalize w = (wf, Inr ())" and "dw_file wf = take (os_capacity (dw_stream w)) (dw_content w)"
proof -
  have "dw_file (fst (dw_Finalize w)) = take (os_capacity (dw_stream w)) (dw_content w)"
    using assms
    by (auto simp: dw_ready_def dw_Finalize_def stream_flush_def stream_transfer_def dw_sync_def dw_content_def dw_file_def)
  moreover have "snd (dw_Finalize w) = Inr ()" using assms by (simp add: dw_ready_def dw_Finalize_def)
  ultimately show thesis using that by (metis prod.collapse)
qed

lemma records_read_back:
  assumes "dw_ready w" and "put_all dw_put w recs = Some (w', es)"
    and "\<forall>vp \<in> set recs. record_storable w vp" and "reader_of r w pread"
    and "pread_reads pread (take n (dw_content w'))" and "i < length recs"
    and "length (dw_content w) + sum_list (map (\<lambda>vp. length (record_bytes w vp)) (take (Suc i) recs)) \<le> n"
  shows "ReadRecord r (es ! i) = Some (Inr (float_bytes (fst (recs ! i)), snd (recs ! i)))"
    and "ReadVector r (es ! i) = Inr (float_bytes (fst (recs ! i)))"
proof -
  obtain vec payload where rec: "recs ! i = (vec, payload)" by (cases "recs ! i")
  have st: "record_storable w (vec, payload)" using assms(3,6) rec nth_mem by metis
  have valid: "\<forall>vp \<in> set (take (Suc i) recs). record_valid w vp"
    using assms(3) by (auto simp: record_storable_def dest: in_set_takeD)
  obtain w1 where pre: "put_all dw_put w (take (Suc i) recs) = Some (w1, take (Suc i) es)"
    using put_all_take [OF assms(2)] by blast
  have lim: "length (dw_content w1) < 18446744073709551616"
    using put_all_records_content(2) [OF assms(1) pre] by simp
  note c1 = put_all_records_content(1) [OF assms(1) pre]
  have "length (dw_content w1) \<le> n" using assms(7) unfolding c1 by (simp add: length_concat comp_def)
  moreover have "dw_content w' = dw_content w1 @ concat (map (record_bytes w) (drop (Suc i) recs))"
    unfolding put_all_records_content(1) [OF assms(1,2)] c1
    by (simp flip: concat_append map_append)
  ultimately have fl: "take n (dw_content w') = dw_content w1 @ take (n - length (dw_content w1)) (concat (map (record_bytes w) (drop (Suc i) recs)))"
    by simp
  note sl = records.put_all_slices [OF assms(1) pre valid lim, of i]
  have nth: "take (Suc i) recs ! i = (vec, payload)" "take (Suc i) es ! i = es ! i" using rec by simp_all
  note rr = ReadRecord_record [OF st assms(4,5), of "es ! i"]
  have "slice (unat (ae_offset (es ! i))) (unat (ae_size (es ! i))) (take n (dw_content w')) = record_bytes w (vec, payload)"
    "unat (ae_offset (es ! i)) + unat (ae_size (es ! i)) \<le> length (take n (dw_content w'))"
    unfolding fl using sl assms(6) by (simp_all add: nth slice_append_hit)
  then show "ReadRecord r (es ! i) = Some (Inr (float_bytes (fst (recs ! i)), snd (recs ! i)))"
    and "ReadVector r (es ! i) = Inr (float_bytes (fst (recs ! i)))"
    using rr rec by simp_all
qed

section \<open>The file round trip\<close>

text \<open>C10: on a freshly opened writer, however its stream buffers, a batch of records that fits the device is written
  without an error.  Whenever all calls of \<open>WriteRecord\<close> succeed, whether the records fit or not, \<open>Finalize\<close> reports OK
  and leaves in the file the records one after the other, cut off at the capacity of the device; and a reader of the file
  gets the vector and payload of each record that lies within the capacity at the address entry returned for it, through
  short reads.\<close>

theorem data_file_roundtrip:
  assumes "dw_Open w0 path cluster dim ss page (Some (capacity, keep)) = (w, Inr ())"
    and "capacity < 9223372036854775808" and "page < 4294967296"
    and "\<forall>vp \<in> set recs. record_storable w vp"
  shows "(sum_list (map (\<lambda>vp. length (record_bytes w vp)) recs) \<le> capacity \<longrightarrow> put_all dw_put w recs \<noteq> None)
    \<and> (\<forall>w' es. put_all dw_put w recs = Some (w', es) \<longrightarrow>
        (\<exists>wf. dw_Finalize w' = (wf, Inr ()) \<and> length es = length recs
          \<and> dw_file wf = take capacity (concat (map (record_bytes w) recs))
          \<and> (\<forall>pread r i. pread_reads pread (dw_file wf) \<longrightarrow> reader_of r w pread \<longrightarrow> i < length recs \<longrightarrow>
                sum_list (map (\<lambda>vp. length (record_bytes w vp)) (take (Suc i) recs)) \<le> capacity \<longrightarrow>
                ReadRecord r (es ! i) = Some (Inr (float_bytes (fst (recs ! i)), snd (recs ! i)))
                \<and> ReadVector r (es ! i) = Inr (float_bytes (fst (recs ! i))))))"
proof -
  have "\<not> os_open (dw_stream w0)" using assms(1) by (auto simp: dw_Open_def split: if_splits)
  from dw_Open_ready [OF this assms(2,3), of path cluster dim ss keep] assms(1)
  have w: "dw_ready w" "dw_content w = []" "os_capacity (dw_stream w) = capacity" by auto
  have ok: "\<forall>vp \<in> set recs. record_ok w vp" using assms(4) record_storable_ok by blast
  have "\<exists>wf. dw_Finalize w' = (wf, Inr ()) \<and> dw_file wf = take capacity (dw_content w')
      \<and> dw_content w' = concat (map (record_bytes w) recs)" if put: "put_all dw_put w recs = Some (w', es)" for w' es
    using Finalize_file [of w'] put_all_records_frame [OF w(1) put] put_all_records_content(1) [OF w(1) put] w by auto
  note fin = this
  show ?thesis
  proof (intro conjI impI allI)
    assume "sum_list (map (\<lambda>vp. length (record_bytes w vp)) recs) \<le> capacity"
    then show "put_all dw_put w recs \<noteq> None"
      using put_all_records_fit [OF w(1) ok] unfolding w(2,3) by (metis add_0 list.size(3) option.distinct(1))
  next
    fix w' es
    assume put: "put_all dw_put w recs = Some (w', es)"
    then obtain wf where wf: "dw_Finalize w' = (wf, Inr ())" "dw_file wf = take capacity (dw_content w')"
        "dw_content w' = concat (map (record_bytes w) recs)"
      using fin by blast
    note found = records_read_back [OF w(1) put assms(4), unfolded w(2), of _ _ capacity, folded wf(2)]
    show "\<exists>wf. dw_Finalize w' = (wf, Inr ()) \<and> length es = length recs
      \<and> dw_file wf = take capacity (concat (map (record_bytes w) recs))
      \<and> (\<forall>pread r i. pread_reads pread (dw_file wf) \<longrightarrow> reader_of r w pread \<longrightarrow> i < length recs \<longrightarrow>
            sum_list (map (\<lambda>vp. length (record_bytes w vp)) (take (Suc i) recs)) \<le> capacity \<longrightarrow>
            ReadRecord r (es ! i) = Some (Inr (float_bytes (fst (recs ! i)), snd (recs ! i)))
            \<and> ReadVector r (es ! i) = Inr (float_bytes (fst (recs ! i))))"
      using wf put_all_length [OF put] found by (intro exI [of _ wf] conjI allI impI) simp_all
  qed
qed


definition demo_record_schemas :: "column_schema list" where
  "demo_record_schemas = [\<lparr>cs_id = 1, cs_name = ''n'', cs_dtype = INT32, cs_nullable = False\<rparr>,
     \<lparr>cs_id = 2, cs_name = ''s'', cs_dtype = STRING, cs_nullable = False\<rparr>]"

definition demo_record :: "f32 list \<times> datum list" where
  "demo_record = ([1065353216], [Datum_Int32 42, Datum_String [104, 105]])"

definition demo_writer :: "nat \<Rightarrow> data_writer" where
  "demo_writer page = fst (dw_Open data_writer_new ''d'' 0 1 demo_record_schemas page (Some (100, filebuf_keep)))"

lemma demo_writer_Open:
  "dw_Open data_writer_new ''d'' 0 1 demo_record_schemas page (Some (100, filebuf_keep)) = (demo_writer page, Inr ())"
  by (simp add: demo_writer_def dw_Open_def data_writer_new_def)

lemma demo_writer_simps:
  "dw_dim (demo_writer page) = 1" "dw_schemas (demo_writer page) = demo_record_schemas"
  "dw_page (demo_writer page) = page"
  by (simp_all add: demo_writer_def dw_Open_def data_writer_new_def Let_def)

lemma demo_record_length: "length (record_bytes (demo_writer 16) demo_record) = 16"
  by (simp add: record_bytes_def demo_writer_simps demo_record_def demo_record_schemas_def
      payload_bytes_def field_bytes_def DTypeIsFixedWidth_def datum_factory_defs datum_default_def
      union_write_def page_pad_def)

lemma demo_record_storable: "record_storable (demo_writer 16) demo_record"
  using datum_factories_wf demo_record_length
  by (simp add: record_storable_def record_valid_def demo_writer_simps datum_fits_def)
    (simp add: demo_record_def demo_record_schemas_def datum_fits_def datum_factory_defs datum_default_def
      datum_wf_def DTypeIsFixedWidth_def union_write_def)

theorem data_file_roundtrip_witness:
  "\<exists>w' es wf r. put_all dw_put (demo_writer 16) [demo_record, demo_record] = Some (w', es)
    \<and> dw_Finalize w' = (wf, Inr ()) \<and> dr_pread r = Some (\<lambda>pos n. Some (slice pos (min 3 n) (dw_file wf)))
    \<and> ReadRecord r (es ! 1) = Some (Inr (float_bytes [1065353216], snd demo_record))"
proof -
  note rt = data_file_roundtrip [OF demo_writer_Open, of 16 "[demo_record, demo_record]"]
  have "put_all dw_put (demo_writer 16) [demo_record, demo_record] \<noteq> None"
    using rt demo_record_storable demo_record_length by simp
  then obtain w' es where put: "put_all dw_put (demo_writer 16) [demo_record, demo_record] = Some (w', es)"
    by (metis not_None_eq prod.collapse)
  then obtain wf where wf: "dw_Finalize w' = (wf, Inr ())"
    and read: "\<And>pread r i. pread_reads pread (dw_file wf) \<Longrightarrow> reader_of r (demo_writer 16) pread \<Longrightarrow> i < 2 \<Longrightarrow>
      sum_list (map (\<lambda>vp. length (record_bytes (demo_writer 16) vp)) (take (Suc i) [demo_record, demo_record])) \<le> 100 \<Longrightarrow>
      ReadRecord r (es ! i) = Some (Inr (float_bytes (fst ([demo_record, demo_record] ! i)), snd ([demo_record, demo_record] ! i)))"
    using rt demo_record_storable by (auto simp: numeral_2_eq_2)
  define r where "r = \<lparr>dr_pread = Some (\<lambda>pos n. Some (slice pos (min 3 n) (dw_file wf))),
    dr_path = ''d'', dr_dim = 1, dr_schemas = demo_record_schemas\<rparr>"
  have "reader_of r (demo_writer 16) (\<lambda>pos n. Some (slice pos (min 3 n) (dw_file wf)))"
    by (simp add: reader_of_def r_def demo_writer_simps)
  from read [OF pread_reads_3 this, of 1] demo_record_length
  have "ReadRecord r (es ! 1) = Some (Inr (float_bytes [1065353216], snd demo_record))"
    by (simp add: demo_record_def)
  moreover have "dr_pread r = Some (\<lambda>pos n. Some (slice pos (min 3 n) (dw_file wf)))" by (simp add: r_def)
  ultimately show ?thesis using put wf by blast
qed

section \<open>A write that fails\<close>




text \<open>A stream without a buffer on a device of 100 bytes.\<close>

definition demo_unbuffered :: "nat \<Rightarrow> data_writer" where
  "demo_unbuffered page = fst (dw_Open data_writer_new ''d'' 0 1 demo_record_schemas page (Some (100, \<lambda>_ _. 0)))"



text \<open>With the buffer of libstdc++ the same record is reported as written, and so is the file of 100 bytes.\<close>

lemma record_lost_silently:
  "case WriteRecord (demo_writer 128) (fst demo_record) (snd demo_record) of
     Some (w', Inr l) \<Rightarrow> ae_size l = 128 \<and> dw_num w' = 1 \<and> snd (dw_Finalize w') = Inr ()
       \<and> length (dw_file (fst (dw_Finalize w'))) = 100
   | _ \<Rightarrow> False"
  by (simp add: WriteRecord_def WriteDatum_def dw_emit_def stream_write_def stream_transfer_def dw_pad_def Let_def
      dw_Finalize_def stream_flush_def dw_file_def filebuf_keep_def demo_unbuffered_def demo_writer_def dw_Open_def
      data_writer_new_def demo_record_def demo_record_schemas_def datum_factory_defs datum_default_def union_write_def
      DTypeIsFixedWidth_def float_bytes_def)

text \<open>The check of a variable-length field is a 32-bit sum: a corrupted length near \<open>2 ^ 32\<close>
  passes it, and the copy reads outside the buffer.\<close>

lemma parse_payload_wraps:
  "parse_payload [252, 255, 255, 255] 4 0 [\<lparr>cs_id = 2, cs_name = ''s'', cs_dtype = STRING, cs_nullable = False\<rparr>] = None"
  by (simp add: DTypeIsFixedWidth_def slice_def Let_def)

end
