(* ===== verification/Heap_Queue.thy ===== *)
theory Heap_Queue
  imports Prelude "HOL-Library.Multiset"
begin

text \<open>
  \<open>std::priority_queue\<close> over a vector, as \<open>push_heap\<close> and \<open>pop_heap\<close> of libstdc++ keep it:
  the array heap that ResultCollector (src/query/result_collector.cpp) and the frontier heaps of
  the overlap scheduler are built on.  The comparison is a parameter; \<open>heap_order\<close> states what
  the operations rely on (on the elements that occur, the comparison is that of integer keys) and
  \<open>max_queue\<close> is the contract of a max-priority queue, with what its clients need proved from it.
\<close>

section \<open>Operations\<close>

text \<open>\<open>__push_heap\<close>: move the hole up while the parent is less than the value.\<close>

function sift_up :: "('a \<Rightarrow> 'a \<Rightarrow> bool) \<Rightarrow> 'a list \<Rightarrow> nat \<Rightarrow> 'a \<Rightarrow> 'a list" where
  "sift_up lt xs hole v =
     (if 0 < hole \<and> lt (xs ! ((hole - 1) div 2)) v
      then sift_up lt (xs[hole := xs ! ((hole - 1) div 2)]) ((hole - 1) div 2) v
      else xs[hole := v])"
  by pat_completeness auto
termination
  by (relation "measure (\<lambda>(lt, xs, hole, v). hole)") auto

text \<open>The loop of \<open>__adjust_heap\<close>: move the hole down to a node without a right child, always
  to the larger child.\<close>

function hole_down :: "('a \<Rightarrow> 'a \<Rightarrow> bool) \<Rightarrow> 'a list \<Rightarrow> nat \<Rightarrow> 'a list \<times> nat" where
  "hole_down lt xs hole =
     (if hole < (length xs - 1) div 2 then
        let right = 2 * (hole + 1);
            child = (if lt (xs ! right) (xs ! (right - 1)) then right - 1 else right)
        in hole_down lt (xs[hole := xs ! child]) child
      else (xs, hole))"
  by pat_completeness auto
termination
  by (relation "measure (\<lambda>(lt, xs, hole). length xs - hole)") (auto simp: Let_def)

declare sift_up.simps [simp del] and hole_down.simps [simp del]

definition adjust_heap :: "('a \<Rightarrow> 'a \<Rightarrow> bool) \<Rightarrow> 'a list \<Rightarrow> 'a \<Rightarrow> 'a list" where
  "adjust_heap lt xs v =
     (let (ys, hole) = hole_down lt xs 0; len = length xs
      in if len mod 2 = 0 \<and> hole = (len - 2) div 2
         then let left = 2 * hole + 1 in sift_up lt (ys[hole := ys ! left]) left v
         else sift_up lt ys hole v)"

definition heap_push :: "('a \<Rightarrow> 'a \<Rightarrow> bool) \<Rightarrow> 'a list \<Rightarrow> 'a \<Rightarrow> 'a list" where
  "heap_push lt xs v = sift_up lt (xs @ [v]) (length xs) v"

text \<open>\<open>pop\<close> of a non-empty heap: the last element takes the place of the first.\<close>

definition heap_pop :: "('a \<Rightarrow> 'a \<Rightarrow> bool) \<Rightarrow> 'a list \<Rightarrow> 'a list" where
  "heap_pop lt xs =
     (if length xs \<le> 1 then [] else adjust_heap lt (butlast xs) (last xs))"

lemma length_sift_up [simp]: "length (sift_up lt xs hole v) = length xs"
  by (induction lt xs hole v rule: sift_up.induct) (subst sift_up.simps, simp)

lemma length_hole_down: "length (fst (hole_down lt xs hole)) = length xs"
  by (induction lt xs hole rule: hole_down.induct) (subst hole_down.simps, simp add: Let_def)

lemma length_heap_push [simp]: "length (heap_push lt xs v) = Suc (length xs)"
  by (simp add: heap_push_def)

lemma length_heap_pop [simp]: "length (heap_pop lt xs) = length xs - 1"
  using length_hole_down [of lt "butlast xs" 0]
  by (auto simp: heap_pop_def adjust_heap_def Let_def split: prod.splits)

section \<open>The contract of a max-priority queue\<close>

locale max_queue =
  fixes invar :: "'q \<Rightarrow> bool"
    and elems :: "'q \<Rightarrow> 'a multiset"
    and push :: "'q \<Rightarrow> 'a \<Rightarrow> 'q"
    and pop :: "'q \<Rightarrow> 'q"
    and top :: "'q \<Rightarrow> 'a"
    and key :: "'a \<Rightarrow> int"
    and ok :: "'a \<Rightarrow> bool"
  assumes push_invar: "invar q \<Longrightarrow> ok x \<Longrightarrow> invar (push q x)"
    and push_elems: "invar q \<Longrightarrow> ok x \<Longrightarrow> elems (push q x) = add_mset x (elems q)"
    and pop_invar: "invar q \<Longrightarrow> elems q \<noteq> {#} \<Longrightarrow> invar (pop q)"
    and pop_elems: "invar q \<Longrightarrow> elems q \<noteq> {#} \<Longrightarrow> elems (pop q) = elems q - {#top q#}"
    and top_elem: "invar q \<Longrightarrow> elems q \<noteq> {#} \<Longrightarrow> top q \<in># elems q"
    and top_max: "invar q \<Longrightarrow> x \<in># elems q \<Longrightarrow> key x \<le> key (top q)"

text \<open>\<open>kept\<close> is a selection of \<open>k\<close> elements of \<open>offered\<close> with the smallest keys.\<close>

definition best_k :: "('a \<Rightarrow> int) \<Rightarrow> nat \<Rightarrow> 'a multiset \<Rightarrow> 'a multiset \<Rightarrow> bool" where
  "best_k key k offered kept \<longleftrightarrow> kept \<subseteq># offered \<and> size kept = min k (size offered)
     \<and> (\<forall>x \<in># offered - kept. \<forall>y \<in># kept. key y \<le> key x)"

text \<open>The same with the rejected elements named.\<close>

lemma best_k_iff:
  "best_k key k M K \<longleftrightarrow>
     (\<exists>R. M = K + R \<and> size K = min k (size M) \<and> (\<forall>x \<in># R. \<forall>y \<in># K. key y \<le> key x))"
proof
  assume "best_k key k M K"
  then show "\<exists>R. M = K + R \<and> size K = min k (size M) \<and> (\<forall>x \<in># R. \<forall>y \<in># K. key y \<le> key x)"
    by (intro exI [of _ "M - K"]) (simp add: best_k_def)
next
  assume "\<exists>R. M = K + R \<and> size K = min k (size M) \<and> (\<forall>x \<in># R. \<forall>y \<in># K. key y \<le> key x)"
  then show "best_k key k M K" by (auto simp: best_k_def)
qed

lemma best_k_empty: "best_k key k {#} {#}"
  by (simp add: best_k_def)

lemma best_k_add:
  assumes "best_k key k M K" and "size K < k"
  shows "best_k key k (add_mset x M) (add_mset x K)"
proof -
  obtain R where M: "M = K + R" and s: "size K = min k (size M)"
    using assms(1) unfolding best_k_iff by blast
  have "size R = 0" using s assms(2) unfolding M by (simp add: min_def split: if_splits)
  then have "R = {#}" by simp
  then show ?thesis using M s assms(2) by (simp add: best_k_def)
qed

lemma best_k_reject:
  assumes "best_k key k M K" and "size K = k" and "\<forall>y \<in># K. key y \<le> key x"
  shows "best_k key k (add_mset x M) K"
proof -
  obtain R where "M = K + R" "\<forall>x \<in># R. \<forall>y \<in># K. key y \<le> key x"
    using assms(1) unfolding best_k_iff by blast
  then show ?thesis unfolding best_k_iff using assms(2,3) by (intro exI [of _ "add_mset x R"]) simp
qed

lemma best_k_replace:
  assumes "best_k key k M K" and "size K = k" and "t \<in># K" and "\<forall>y \<in># K. key y \<le> key t"
    and "key x < key t"
  shows "best_k key k (add_mset x M) (add_mset x (K - {#t#}))"
proof -
  obtain R where M: "M = K + R" and R: "\<forall>a \<in># R. \<forall>y \<in># K. key y \<le> key a"
    using assms(1) unfolding best_k_iff by blast
  obtain L where K: "K = add_mset t L" using assms(3) by (metis insert_DiffM)
  have "\<forall>a \<in># add_mset t R. \<forall>y \<in># add_mset x L. key y \<le> key a"
    using R assms(4,5) unfolding K by fastforce
  moreover have "add_mset x M = add_mset x L + add_mset t R" by (simp add: M K)
  moreover have "size (add_mset x L) = min k (size (add_mset x M))"
    using assms(2) by (simp add: M K)
  ultimately show ?thesis unfolding best_k_iff K by auto
qed

section \<open>Clients of a max-priority queue\<close>

context max_queue
begin

text \<open>Offering an element to a queue that holds the best \<open>k\<close> so far keeps it so.\<close>

lemma offer_push:
  assumes "invar q" and "best_k key k M (elems q)" and "size (elems q) < k" and "ok x"
  shows "invar (push q x) \<and> best_k key k (add_mset x M) (elems (push q x))"
  using assms by (simp add: push_invar push_elems best_k_add)

lemma offer_full_reject:
  assumes "invar q" and "best_k key k M (elems q)" and "size (elems q) = k"
    and "key (top q) \<le> key x"
  shows "best_k key k (add_mset x M) (elems q)"
  using assms(2,3) by (rule best_k_reject) (use assms(1,4) top_max in \<open>fastforce\<close>)

lemma offer_full_replace:
  assumes "invar q" and "best_k key k M (elems q)" and "size (elems q) = k" and "0 < k" and "ok x"
    and "key x < key (top q)"
  shows "invar (push (pop q) x) \<and> best_k key k (add_mset x M) (elems (push (pop q) x))"
proof -
  have ne: "elems q \<noteq> {#}" using assms(3,4) by auto
  then show ?thesis
    using assms(1,5) pop_invar [OF assms(1) ne] pop_elems [OF assms(1) ne]
      best_k_replace [OF assms(2,3) top_elem [OF assms(1) ne] _ assms(6)] top_max [OF assms(1)]
    by (simp add: push_invar push_elems)
qed

lemma size_replace:
  assumes "invar q" and "elems q \<noteq> {#}" and "ok x"
  shows "size (elems (push (pop q) x)) = size (elems q)"
  using assms top_elem [OF assms(1,2)]
  by (simp add: push_elems pop_invar pop_elems size_Suc_Diff1)

end


section \<open>The array heap\<close>

definition parent :: "nat \<Rightarrow> nat" where
  "parent i = (i - 1) div 2"

lemma parent_less: "0 < i \<Longrightarrow> parent i < i"
  by (simp add: parent_def less_mult_imp_div_less)

lemma parent_child: "0 < i \<Longrightarrow> parent i = h \<longleftrightarrow> i = 2 * h + 1 \<or> i = 2 * h + 2"
  by (auto simp: parent_def)

locale heap_order =
  fixes lt :: "'a \<Rightarrow> 'a \<Rightarrow> bool"
    and key :: "'a \<Rightarrow> int"
    and ok :: "'a \<Rightarrow> bool"
  assumes lt_key: "ok a \<Longrightarrow> ok b \<Longrightarrow> lt a b \<longleftrightarrow> key a < key b"
begin

definition is_heap :: "'a list \<Rightarrow> bool" where
  "is_heap xs \<longleftrightarrow> (\<forall>i < length xs. ok (xs ! i))
     \<and> (\<forall>i < length xs. 0 < i \<longrightarrow> key (xs ! i) \<le> key (xs ! parent i))"

text \<open>A heap apart from the element in the hole, whose children fit under its parent.\<close>

definition heap_hole :: "'a list \<Rightarrow> nat \<Rightarrow> bool" where
  "heap_hole xs h \<longleftrightarrow> (\<forall>i < length xs. ok (xs ! i)) \<and> h < length xs
     \<and> (\<forall>i < length xs. 0 < i \<and> i \<noteq> h \<and> parent i \<noteq> h \<longrightarrow> key (xs ! i) \<le> key (xs ! parent i))
     \<and> (\<forall>i < length xs. 0 < i \<and> parent i = h \<and> 0 < h \<longrightarrow> key (xs ! i) \<le> key (xs ! parent h))"

definition fits_hole :: "'a list \<Rightarrow> nat \<Rightarrow> 'a \<Rightarrow> bool" where
  "fits_hole xs h v \<longleftrightarrow> ok v \<and> (\<forall>i < length xs. 0 < i \<and> parent i = h \<longrightarrow> key (xs ! i) \<le> key v)"

lemma heap_holeD:
  assumes "heap_hole xs h"
  shows "i < length xs \<Longrightarrow> ok (xs ! i)" and "h < length xs"
    and "i < length xs \<Longrightarrow> 0 < i \<Longrightarrow> i \<noteq> h \<Longrightarrow> parent i \<noteq> h \<Longrightarrow> key (xs ! i) \<le> key (xs ! parent i)"
    and "i < length xs \<Longrightarrow> 0 < i \<Longrightarrow> parent i = h \<Longrightarrow> 0 < h \<Longrightarrow> key (xs ! i) \<le> key (xs ! parent h)"
  using assms by (auto simp: heap_hole_def)

lemma fill_hole:
  assumes "heap_hole xs h" and "fits_hole xs h v" and "0 < h \<longrightarrow> key v \<le> key (xs ! parent h)"
  shows "is_heap (xs[h := v])"
  unfolding is_heap_def
proof (intro conjI allI impI)
  fix i
  assume i: "i < length (xs[h := v])"
  then show "ok (xs[h := v] ! i)"
    using assms(1,2) by (cases "i = h") (auto simp: heap_hole_def fits_hole_def)
  assume "0 < i"
  then show "key (xs[h := v] ! i) \<le> key (xs[h := v] ! parent i)"
    using i assms parent_less [of i] heap_holeD(3) [OF assms(1), of i]
    by (cases "i = h"; cases "parent i = h") (auto simp: fits_hole_def)
qed

text \<open>One step up: the parent moves into the hole.\<close>

lemma hole_up:
  assumes "heap_hole xs h" and "fits_hole xs h v" and "0 < h" and "key (xs ! parent h) < key v"
  shows "heap_hole (xs[h := xs ! parent h]) (parent h)" and "fits_hole (xs[h := xs ! parent h]) (parent h) v"
proof -
  let ?p = "parent h" and ?ys = "xs[h := xs ! parent h]"
  note H = heap_holeD [OF assms(1)]
  have p: "?p < h" "?p < length xs" using parent_less [OF assms(3)] H(2) by simp_all
  have above: "key (xs ! ?p) \<le> key (xs ! parent ?p)" if "0 < ?p"
    using H(3) [of ?p] that p parent_less [OF that] by simp
  show "fits_hole ?ys ?p v"
    unfolding fits_hole_def
  proof (intro conjI allI impI)
    show "ok v" using assms(2) by (simp add: fits_hole_def)
    fix i
    assume i: "i < length ?ys" "0 < i \<and> parent i = ?p"
    show "key (?ys ! i) \<le> key v"
      using i assms(4) H(3) [of i] p by (cases "i = h") auto
  qed
  show "heap_hole ?ys ?p"
    unfolding heap_hole_def
  proof (intro conjI allI impI)
    show "?p < length ?ys" using p by simp
    fix i
    assume i: "i < length ?ys"
    then show "ok (?ys ! i)" using H(1) p by (cases "i = h") auto
    {
      assume c: "0 < i \<and> i \<noteq> ?p \<and> parent i \<noteq> ?p"
      then have "i \<noteq> h" by auto
      then show "key (?ys ! i) \<le> key (?ys ! parent i)"
        using c i H(2) H(3) [of i] H(4) [of i] assms(3) by (cases "parent i = h") auto
    next
      assume c: "0 < i \<and> parent i = ?p \<and> 0 < ?p"
      have "parent ?p \<noteq> h" using parent_less [of ?p] c p by simp
      then show "key (?ys ! i) \<le> key (?ys ! parent ?p)"
        using c i above H(3) [of i] p by (cases "i = h") auto
    }
  qed
qed

lemma sift_up_heap:
  "heap_hole xs h \<Longrightarrow> fits_hole xs h v \<Longrightarrow> is_heap (sift_up lt xs h v)"
proof (induction h arbitrary: xs rule: less_induct)
  case (less h)
  note H = heap_holeD [OF less.prems(1)]
  have step: "lt (xs ! parent h) v \<longleftrightarrow> key (xs ! parent h) < key v" if "0 < h"
    using that H(1,2) parent_less [of h] less.prems(2)
    by (intro lt_key) (auto simp: fits_hole_def)
  show ?case
  proof (cases "0 < h \<and> lt (xs ! parent h) v")
    case True
    then have "sift_up lt xs h v = sift_up lt (xs[h := xs ! parent h]) (parent h) v"
      by (subst sift_up.simps) (simp add: parent_def)
    then show ?thesis
      using True step hole_up [OF less.prems] less.IH [of "parent h"] parent_less [of h] by simp
  next
    case False
    then have "sift_up lt xs h v = xs[h := v]"
      by (subst sift_up.simps) (auto simp: parent_def)
    moreover have "0 < h \<longrightarrow> key v \<le> key (xs ! parent h)" using False step by auto
    ultimately show ?thesis using fill_hole [OF less.prems] by simp
  qed
qed

lemma mset_update_hole:
  assumes "h < length xs" and "p < length xs"
  shows "mset ((xs[h := xs ! p])[p := v]) = mset (xs[h := v])"
proof (cases "h = p")
  case False
  have "mset ((xs[h := v])[h := xs[h := v] ! p, p := xs[h := v] ! h]) = mset (xs[h := v])"
    by (rule mset_swap) (use assms in simp_all)
  then show ?thesis using assms False by simp
qed simp

lemma mset_sift_up: "h < length xs \<Longrightarrow> mset (sift_up lt xs h v) = mset (xs[h := v])"
proof (induction h arbitrary: xs rule: less_induct)
  case (less h)
  show ?case
  proof (cases "0 < h \<and> lt (xs ! parent h) v")
    case True
    then have "sift_up lt xs h v = sift_up lt (xs[h := xs ! parent h]) (parent h) v"
      by (subst sift_up.simps) (simp add: parent_def)
    then show ?thesis
      using True parent_less [of h] less.IH [of "parent h" "xs[h := xs ! parent h]"] less.prems
        mset_update_hole [of h xs "parent h" v] by simp
  next
    case False
    then show ?thesis by (subst sift_up.simps) (auto simp: parent_def)
  qed
qed

text \<open>One step down: a child that is no less than its sibling moves into the hole.\<close>

lemma hole_child:
  assumes "heap_hole xs h" and "c < length xs" and "0 < c" and "parent c = h"
    and "\<And>i. i < length xs \<Longrightarrow> 0 < i \<Longrightarrow> parent i = h \<Longrightarrow> key (xs ! i) \<le> key (xs ! c)"
  shows "heap_hole (xs[h := xs ! c]) c"
  unfolding heap_hole_def
proof (intro conjI allI impI)
  let ?ys = "xs[h := xs ! c]"
  note H = heap_holeD [OF assms(1)]
  have hc: "h < c" using parent_less [OF assms(3)] assms(4) by simp
  show "c < length ?ys" using assms(2) by simp
  fix i
  assume i: "i < length ?ys"
  then show "ok (?ys ! i)" using H(1) [of i] H(1) [OF assms(2)] by (cases "i = h") auto
  {
    assume a: "0 < i \<and> i \<noteq> c \<and> parent i \<noteq> c"
    consider "i = h" | "i \<noteq> h" "parent i = h" | "i \<noteq> h" "parent i \<noteq> h" by blast
    then show "key (?ys ! i) \<le> key (?ys ! parent i)"
    proof cases
      case 1
      then have "parent i \<noteq> h" using a parent_less [of i] by simp
      then show ?thesis using 1 a H(2) H(4) [of c] assms(2,3,4) by simp
    next
      case 2
      then show ?thesis using a i H(2) assms(5) [of i] by simp
    next
      case 3
      then show ?thesis using a i H(3) [of i] by simp
    qed
  next
    assume a: "0 < i \<and> parent i = c \<and> 0 < c"
    then have "i \<noteq> h" "parent i \<noteq> h" "i \<noteq> c" using hc parent_less [of i] by auto
    then show "key (?ys ! i) \<le> key (?ys ! parent c)"
      using a i H(2) H(3) [of i] assms(4) by simp
  }
qed

lemma hole_down_heap:
  assumes "heap_hole xs h" and "hole_down lt xs h = (ys, g)"
  shows "heap_hole ys g \<and> length ys = length xs \<and> (length xs - 1) div 2 \<le> g
    \<and> (\<forall>v. mset (ys[g := v]) = mset (xs[h := v]))"
  using assms
proof (induction "length xs - h" arbitrary: xs h rule: less_induct)
  case less
  note H = heap_holeD [OF less.prems(1)]
  show ?case
  proof (cases "h < (length xs - 1) div 2")
    case False
    then have "hole_down lt xs h = (xs, h)" by (subst hole_down.simps) simp
    then show ?thesis using less.prems False by simp
  next
    case True
    define c where "c = (if lt (xs ! (2 * h + 2)) (xs ! (2 * h + 1)) then 2 * h + 1 else 2 * h + 2)"
    have r: "2 * h + 2 < length xs" using True by linarith
    have eq: "hole_down lt xs h = hole_down lt (xs[h := xs ! c]) c"
      using True by (subst hole_down.simps) (simp add: c_def Let_def)
    have c: "c < length xs" "0 < c" "parent c = h" "h < c" using r by (auto simp: c_def parent_def)
    have cmp: "lt (xs ! (2 * h + 2)) (xs ! (2 * h + 1)) \<longleftrightarrow>
        key (xs ! (2 * h + 2)) < key (xs ! (2 * h + 1))"
      using H(1) r by (intro lt_key) simp_all
    have "key (xs ! i) \<le> key (xs ! c)" if "i < length xs" "0 < i" "parent i = h" for i
      using that(3) cmp unfolding parent_child [OF that(2)] c_def by auto
    then have "heap_hole (xs[h := xs ! c]) c" by (intro hole_child [OF less.prems(1) c(1-3)])
    moreover have "hole_down lt (xs[h := xs ! c]) c = (ys, g)" using less.prems(2) eq by simp
    moreover have "length (xs[h := xs ! c]) - c < length xs - h" using c(1,4) by simp
    ultimately have "heap_hole ys g \<and> length ys = length (xs[h := xs ! c])
        \<and> (length (xs[h := xs ! c]) - 1) div 2 \<le> g
        \<and> (\<forall>v. mset (ys[g := v]) = mset ((xs[h := xs ! c])[c := v]))"
      using less.hyps by blast
    then show ?thesis using mset_update_hole [OF H(2) c(1)] by simp
  qed
qed


lemma adjust_heap_is_heap:
  assumes "heap_hole xs 0" and "ok v"
  shows "is_heap (adjust_heap lt xs v)" and "mset (adjust_heap lt xs v) = mset (xs[0 := v])"
proof -
  obtain ys g where d: "hole_down lt xs 0 = (ys, g)" by fastforce
  from hole_down_heap [OF assms(1) this] have y: "heap_hole ys g" "length ys = length xs"
    "(length xs - 1) div 2 \<le> g" "\<forall>v. mset (ys[g := v]) = mset (xs[0 := v])"
    by simp_all
  have g: "g < length ys" by (rule heap_holeD(2) [OF y(1)])
  have "is_heap (adjust_heap lt xs v) \<and> mset (adjust_heap lt xs v) = mset (xs[0 := v])"
  proof (cases "length xs mod 2 = 0 \<and> g = (length xs - 2) div 2")
    case True
    define l where "l = 2 * g + 1"
    have n: "length xs = 2 * g + 2" using True g y(2) by presburger
    have l: "l < length ys" "0 < l" "parent l = g"
      using n y(2) by (simp_all add: l_def parent_def)
    have only: "i = l" if "i < length ys" "0 < i" "parent i = g" for i
      using that(1) n y(2) parent_child [OF that(2), of g] that(3) by (auto simp: l_def)
    have h: "heap_hole (ys[g := ys ! l]) l"
      by (rule hole_child [OF y(1) l]) (use only in auto)
    have "fits_hole (ys[g := ys ! l]) l v"
    proof -
      have "False" if "i < length ys" "0 < i" "parent i = l" for i
        using that parent_child [of i l] n y(2) by (auto simp: l_def)
      then show ?thesis using assms(2) by (auto simp: fits_hole_def)
    qed
    moreover have "adjust_heap lt xs v = sift_up lt (ys[g := ys ! l]) l v"
      using True by (simp add: adjust_heap_def d l_def)
    ultimately show ?thesis
      using sift_up_heap [OF h] mset_sift_up [of l "ys[g := ys ! l]" v] mset_update_hole [OF g l(1)] l(1) y(4)
      by simp
  next
    case False
    have "False" if "i < length ys" "0 < i" "parent i = g" for i
    proof -
      have "i = 2 * g + 1 \<or> i = 2 * g + 2" using parent_child [OF that(2), of g] that(3) by simp
      then show False using that(1) y(2,3) False by presburger
    qed
    then have "fits_hole ys g v" using assms(2) by (auto simp: fits_hole_def)
    moreover have "adjust_heap lt xs v = sift_up lt ys g v"
      using False by (auto simp: adjust_heap_def d Let_def)
    ultimately show ?thesis using sift_up_heap [OF y(1)] mset_sift_up [OF g] y(4) by simp
  qed
  then show "is_heap (adjust_heap lt xs v)" and "mset (adjust_heap lt xs v) = mset (xs[0 := v])"
    by simp_all
qed

lemma root_max: "is_heap xs \<Longrightarrow> i < length xs \<Longrightarrow> key (xs ! i) \<le> key (xs ! 0)"
proof (induction i rule: less_induct)
  case (less i)
  show ?case
  proof (cases "i = 0")
    case False
    then have "key (xs ! i) \<le> key (xs ! parent i)" using less.prems by (simp add: is_heap_def)
    also have "\<dots> \<le> key (xs ! 0)" using less parent_less [of i] False by simp
    finally show ?thesis .
  qed simp
qed

lemma heap_push_heap:
  assumes "is_heap xs" and "ok v"
  shows "is_heap (heap_push lt xs v)" and "mset (heap_push lt xs v) = add_mset v (mset xs)"
proof -
  have "heap_hole (xs @ [v]) (length xs)"
    unfolding heap_hole_def
  proof (intro conjI allI impI)
    fix i
    assume i: "i < length (xs @ [v])"
    then show "ok ((xs @ [v]) ! i)" using assms by (auto simp: is_heap_def nth_append)
    {
      assume c: "0 < i \<and> i \<noteq> length xs \<and> parent i \<noteq> length xs"
      then have "parent i < i" "i < length xs" using i parent_less [of i] by auto
      then show "key ((xs @ [v]) ! i) \<le> key ((xs @ [v]) ! parent i)"
        using assms(1) c by (simp add: is_heap_def nth_append)
    next
      assume "0 < i \<and> parent i = length xs \<and> 0 < length xs"
      then show "key ((xs @ [v]) ! i) \<le> key ((xs @ [v]) ! parent (length xs))"
        using i parent_less [of i] by simp
    }
  qed simp
  moreover have "fits_hole (xs @ [v]) (length xs) v"
  proof -
    have "False" if "i < length (xs @ [v])" "0 < i" "parent i = length xs" for i
      using that parent_less [of i] by simp
    then show ?thesis using assms(2) by (auto simp: fits_hole_def)
  qed
  ultimately show "is_heap (heap_push lt xs v)" unfolding heap_push_def by (rule sift_up_heap)
  show "mset (heap_push lt xs v) = add_mset v (mset xs)" by (simp add: heap_push_def mset_sift_up)
qed

lemma heap_pop_heap:
  assumes "is_heap xs" and "xs \<noteq> []"
  shows "is_heap (heap_pop lt xs)" and "mset (heap_pop lt xs) = mset xs - {#xs ! 0#}"
proof -
  have "is_heap (heap_pop lt xs) \<and> mset (heap_pop lt xs) = mset xs - {#xs ! 0#}"
  proof (cases "length xs \<le> 1")
    case True
    then obtain x where "xs = [x]" using assms(2) by (cases xs) auto
    then show ?thesis by (simp add: heap_pop_def is_heap_def)
  next
    case False
    obtain x ys where xs: "xs = x # ys" using assms(2) by (cases xs) auto
    have ys: "ys \<noteq> []" using False xs by auto
    have b: "butlast xs = x # butlast ys" "last xs = last ys" using xs ys by simp_all
    have n: "butlast xs ! i = xs ! i" if "i < length (butlast xs)" for i
      using that by (simp add: nth_butlast)
    have ok: "ok (last xs)"
      using assms last_in_set [of xs] by (auto simp: is_heap_def in_set_conv_nth)
    have "heap_hole (butlast xs) 0"
      unfolding heap_hole_def
    proof (intro conjI allI impI)
      show "0 < length (butlast xs)" using False by simp
      fix i
      assume i: "i < length (butlast xs)"
      then show "ok (butlast xs ! i)" using assms(1) by (simp add: n is_heap_def)
      assume c: "0 < i \<and> i \<noteq> 0 \<and> parent i \<noteq> 0"
      then have "parent i < length (butlast xs)" using i parent_less [of i] by simp
      then show "key (butlast xs ! i) \<le> key (butlast xs ! parent i)"
        using i c assms(1) n [of i] n [of "parent i"] by (simp add: is_heap_def)
    qed simp
    from adjust_heap_is_heap [OF this ok] have
      "is_heap (heap_pop lt xs)" "mset (heap_pop lt xs) = mset ((butlast xs)[0 := last xs])"
      using False by (simp_all add: heap_pop_def)
    moreover have "mset ((butlast xs)[0 := last xs]) = mset xs - {#xs ! 0#}"
      using arg_cong [OF append_butlast_last_id [OF ys], of mset] by (simp add: b) (simp add: xs)
    ultimately show ?thesis by simp
  qed
  then show "is_heap (heap_pop lt xs)" and "mset (heap_pop lt xs) = mset xs - {#xs ! 0#}" by simp_all
qed

end

text \<open>Whatever ordering the elements have, the array heap is a max-priority queue.\<close>

sublocale heap_order \<subseteq> queue: max_queue is_heap mset "heap_push lt" "heap_pop lt" "\<lambda>xs. xs ! 0" key ok
proof
  fix q x
  assume q: "is_heap q"
  show "ok x \<Longrightarrow> is_heap (heap_push lt q x)" and "ok x \<Longrightarrow> mset (heap_push lt q x) = add_mset x (mset q)"
    by (rule heap_push_heap [OF q]; assumption)+
  show "x \<in># mset q \<Longrightarrow> key x \<le> key (q ! 0)"
    using root_max [OF q] by (auto simp: in_set_conv_nth)
  assume "mset q \<noteq> {#}"
  then have ne: "q \<noteq> []" by simp
  show "is_heap (heap_pop lt q)" and "mset (heap_pop lt q) = mset q - {#q ! 0#}"
    by (rule heap_pop_heap [OF q ne])+
  show "q ! 0 \<in># mset q" using ne by simp
qed

end
