(* ===== verification/Result_Collector.thy ===== *)
theory Result_Collector
  imports Heap_Queue Float_Order Common_Types
begin

text \<open>
  \<open>ResultCollector\<close> (src/query/result_collector.cpp): the bounded max-heap that keeps the
  \<open>top_k\<close> entries with the smallest distances.  The heap is the array heap of Heap_Queue with
  \<open>CollectorEntry\<close>'s comparison; \<open>None\<close> is \<open>top()\<close> of an empty heap.
\<close>

section \<open>Entries and operations\<close>

record collector_entry =
  ce_distance :: f32
  ce_addr :: address_entry

definition entry_less :: "collector_entry \<Rightarrow> collector_entry \<Rightarrow> bool" where
  "entry_less a b = f32_lt (ce_distance a) (ce_distance b)"

record collector =
  rc_top_k :: nat
  rc_heap :: "collector_entry list"

definition collector_new :: "nat \<Rightarrow> collector" where
  "collector_new k = \<lparr>rc_top_k = k, rc_heap = []\<rparr>"

definition TryInsert :: "collector \<Rightarrow> f32 \<Rightarrow> address_entry \<Rightarrow> (collector \<times> bool) option" where
  "TryInsert c distance addr =
     (let e = \<lparr>ce_distance = distance, ce_addr = addr\<rparr>
      in if length (rc_heap c) < rc_top_k c then
           Some (c\<lparr>rc_heap := heap_push entry_less (rc_heap c) e\<rparr>, True)
         else if rc_heap c = [] then None
         else if f32_lt distance (ce_distance (rc_heap c ! 0)) then
           Some (c\<lparr>rc_heap := heap_push entry_less (heap_pop entry_less (rc_heap c)) e\<rparr>, True)
         else Some (c, False))"

definition TopDistance :: "collector \<Rightarrow> f32" where
  "TopDistance c = (if rc_heap c = [] then f32_max else ce_distance (rc_heap c ! 0))"

definition Full :: "collector \<Rightarrow> bool" where
  "Full c \<longleftrightarrow> rc_top_k c \<le> length (rc_heap c)"

definition Size :: "collector \<Rightarrow> nat" where
  "Size c = wrap32 (length (rc_heap c))"

function drain :: "collector_entry list \<Rightarrow> collector_entry list" where
  "drain heap = (if heap = [] then [] else heap ! 0 # drain (heap_pop entry_less heap))"
  by pat_completeness auto
termination
  by (relation "measure length") (auto simp: length_greater_0_conv [symmetric] simp del: length_greater_0_conv)

declare drain.simps [simp del]

definition rc_Finalize :: "collector \<Rightarrow> collector \<times> collector_entry list" where
  "rc_Finalize c = (c\<lparr>rc_heap := []\<rparr>, rev (drain (rc_heap c)))"

text \<open>Offering a sequence of candidates.\<close>

fun insert_all :: "collector \<Rightarrow> collector_entry list \<Rightarrow> collector option" where
  "insert_all c [] = Some c"
| "insert_all c (e # es) =
     (case TryInsert c (ce_distance e) (ce_addr e) of
        None \<Rightarrow> None
      | Some (c1, entered) \<Rightarrow> insert_all c1 es)"

section \<open>The heap is a priority queue on entries without NaN\<close>

definition entry_key :: "collector_entry \<Rightarrow> int" where
  "entry_key e = f32_key (ce_distance e)"

definition entry_ok :: "collector_entry \<Rightarrow> bool" where
  "entry_ok e \<longleftrightarrow> \<not> f32_is_nan (ce_distance e)"

interpretation entries: heap_order entry_less entry_key entry_ok
  by unfold_locales (simp add: entry_less_def entry_ok_def entry_key_def f32_key_compare)

definition collector_inv :: "collector \<Rightarrow> collector_entry multiset \<Rightarrow> bool" where
  "collector_inv c offered \<longleftrightarrow> entries.is_heap (rc_heap c)
     \<and> best_k entry_key (rc_top_k c) offered (mset (rc_heap c))"

lemma collector_inv_new: "collector_inv (collector_new k) {#}"
  by (simp add: collector_inv_def collector_new_def best_k_empty entries.is_heap_def)

lemma collector_inv_ok:
  "collector_inv c M \<Longrightarrow> e \<in> set (rc_heap c) \<Longrightarrow> entry_ok e"
  by (auto simp: collector_inv_def entries.is_heap_def in_set_conv_nth)

lemma collector_inv_length: "collector_inv c M \<Longrightarrow> length (rc_heap c) = min (rc_top_k c) (size M)"
  by (simp add: collector_inv_def best_k_def)

lemma TryInsert_inv:
  assumes "collector_inv c M" and "entry_ok e" and "0 < rc_top_k c"
  obtains c' b where "TryInsert c (ce_distance e) (ce_addr e) = Some (c', b)"
    and "rc_top_k c' = rc_top_k c" and "collector_inv c' (add_mset e M)"
    and "b \<longleftrightarrow> length (rc_heap c) < rc_top_k c \<or> entry_key e < entry_key (rc_heap c ! 0)"
proof -
  let ?k = "rc_top_k c" and ?q = "rc_heap c"
  have heap: "entries.is_heap ?q" and best: "best_k entry_key ?k M (mset ?q)"
    using assms(1) by (simp_all add: collector_inv_def)
  have e: "\<lparr>ce_distance = ce_distance e, ce_addr = ce_addr e\<rparr> = e" by simp
  show ?thesis
  proof (cases "length ?q < ?k")
    case True
    show ?thesis
      by (rule that [of "c\<lparr>rc_heap := heap_push entry_less ?q e\<rparr>" True])
        (use True entries.queue.offer_push [OF heap best _ assms(2)] in
          \<open>simp_all add: TryInsert_def collector_inv_def e\<close>)
  next
    case False
    then have full: "size (mset ?q) = ?k" using collector_inv_length [OF assms(1)] by simp
    then have ne: "?q \<noteq> []" using assms(3) by auto
    have "entry_ok (?q ! 0)" using collector_inv_ok [OF assms(1)] ne by simp
    then have lt: "f32_lt (ce_distance e) (ce_distance (?q ! 0)) \<longleftrightarrow> entry_key e < entry_key (?q ! 0)"
      using assms(2) by (simp add: entry_ok_def entry_key_def f32_key_compare)
    show ?thesis
    proof (cases "entry_key e < entry_key (?q ! 0)")
      case True
      show ?thesis
        by (rule that [of "c\<lparr>rc_heap := heap_push entry_less (heap_pop entry_less ?q) e\<rparr>" True])
          (use True False ne lt entries.queue.offer_full_replace [OF heap best full assms(3,2)] in
            \<open>simp_all add: TryInsert_def collector_inv_def e\<close>)
    next
      case keep: False
      show ?thesis
        by (rule that [of c False])
          (use keep False ne lt heap entries.queue.offer_full_reject [OF heap best full] in
            \<open>simp_all add: TryInsert_def collector_inv_def e\<close>)
    qed
  qed
qed

lemma insert_all_inv:
  assumes "collector_inv c M" and "\<forall>e \<in> set es. entry_ok e" and "0 < rc_top_k c"
  shows "\<exists>c'. insert_all c es = Some c' \<and> rc_top_k c' = rc_top_k c \<and> collector_inv c' (mset es + M)"
  using assms
proof (induction es arbitrary: c M)
  case Nil
  then show ?case by simp
next
  case (Cons e es)
  from Cons.prems have "entry_ok e" by simp
  from TryInsert_inv [OF Cons.prems(1) this Cons.prems(3)] obtain c1 b where
    step: "TryInsert c (ce_distance e) (ce_addr e) = Some (c1, b)" "rc_top_k c1 = rc_top_k c"
    "collector_inv c1 (add_mset e M)"
    by metis
  from Cons.IH [OF step(3)] Cons.prems(2,3) step(1,2) show ?case by simp
qed

text \<open>Draining returns the heap's entries, largest first.\<close>

lemma drain_spec:
  "entries.is_heap xs \<Longrightarrow> mset (drain xs) = mset xs \<and> sorted_wrt (\<lambda>a b. entry_key b \<le> entry_key a) (drain xs)"
proof (induction xs rule: drain.induct)
  case (1 xs)
  show ?case
  proof (cases "xs = []")
    case True
    then show ?thesis by (simp add: drain.simps)
  next
    case False
    have pop: "entries.is_heap (heap_pop entry_less xs)"
      "mset (heap_pop entry_less xs) = mset xs - {#xs ! 0#}"
      using entries.queue.pop_invar [OF "1.prems"] entries.queue.pop_elems [OF "1.prems"] False by simp_all
    note ih = "1.IH" [OF False pop(1)]
    have "set (drain (heap_pop entry_less xs)) \<subseteq> set xs"
      using ih pop(2) by (metis in_diffD set_mset_mset subsetI)
    then have "\<forall>b \<in> set (drain (heap_pop entry_less xs)). entry_key b \<le> entry_key (xs ! 0)"
      using entries.queue.top_max [OF "1.prems"] by auto
    then show ?thesis
      using ih pop(2) False by (simp add: drain.simps [of xs])
  qed
qed

lemma drain_length: "entries.is_heap xs \<Longrightarrow> length (drain xs) = length xs"
  using drain_spec by (metis size_mset)

text \<open>What \<open>Finalize\<close> returns after a sequence of candidates without NaN distances.\<close>

lemma collector_finalizes:
  assumes "0 < k" and "\<forall>e \<in> set offered. \<not> f32_is_nan (ce_distance e)"
  shows "\<exists>c kept. insert_all (collector_new k) offered = Some c \<and> rc_Finalize c = (c\<lparr>rc_heap := []\<rparr>, kept)
    \<and> entries.is_heap (rc_heap c) \<and> set kept = set (rc_heap c)
    \<and> best_k entry_key k (mset offered) (mset kept) \<and> sorted (map entry_key kept)"
proof -
  have ok: "\<forall>e \<in> set offered. entry_ok e" using assms(2) by (simp add: entry_ok_def)
  from insert_all_inv [OF collector_inv_new ok, of k] assms(1) obtain c where
    c: "insert_all (collector_new k) offered = Some c" "rc_top_k c = k" "collector_inv c (mset offered)"
    by (auto simp: collector_new_def)
  define kept where "kept = snd (rc_Finalize c)"
  have heap: "entries.is_heap (rc_heap c)" and best: "best_k entry_key k (mset offered) (mset (rc_heap c))"
    using c by (simp_all add: collector_inv_def)
  have m: "mset kept = mset (rc_heap c)" and s: "sorted (map entry_key kept)"
    using drain_spec [OF heap]
    by (simp_all add: kept_def rc_Finalize_def sorted_map sorted_wrt_rev)
  have "rc_Finalize c = (c\<lparr>rc_heap := []\<rparr>, kept)" by (simp add: kept_def rc_Finalize_def)
  moreover have "set kept = set (rc_heap c)" using m by (metis set_mset_mset)
  ultimately show ?thesis using c(1) heap best m s by auto
qed

text \<open>Nothing that was left out is nearer than something kept.\<close>

lemma best_k_le:
  assumes "best_k entry_key k (mset offered) (mset kept)" and "\<forall>e \<in> set offered. \<not> f32_is_nan (ce_distance e)"
    and "x \<in># mset offered - mset kept" and "y \<in> set kept"
  shows "f32_le (ce_distance y) (ce_distance x)"
proof -
  have "entry_key y \<le> entry_key x" using assms(1,3,4) by (simp add: best_k_def)
  moreover have "y \<in># mset offered" using assms(1,4) by (metis best_k_def mset_subset_eqD set_mset_mset)
  ultimately show ?thesis
    using assms(2) in_diffD [OF assms(3)] by (simp add: f32_key_compare entry_key_def)
qed

section \<open>Properties\<close>

text \<open>C18: after any sequence of candidates without NaN distances, \<open>Finalize\<close> returns
  \<open>min top_k n\<close> of them in ascending order of distance, and no candidate it leaves out is nearer
  than one it returns; \<open>TopDistance\<close> is the largest distance kept.\<close>

theorem collector_top_k:
  assumes "0 < k" and "\<forall>e \<in> set offered. \<not> f32_is_nan (ce_distance e)"
  shows "\<exists>c kept. insert_all (collector_new k) offered = Some c
    \<and> rc_Finalize c = (c\<lparr>rc_heap := []\<rparr>, kept)
    \<and> length kept = min k (length offered) \<and> mset kept \<subseteq># mset offered
    \<and> sorted (map (\<lambda>e. f32_key (ce_distance e)) kept)
    \<and> (\<forall>x \<in># mset offered - mset kept. \<forall>y \<in> set kept. f32_le (ce_distance y) (ce_distance x))
    \<and> (if kept = [] then TopDistance c = f32_max else TopDistance c \<in> ce_distance ` set kept)
    \<and> (\<forall>y \<in> set kept. f32_le (ce_distance y) (TopDistance c))"
proof -
  obtain c kept where c: "insert_all (collector_new k) offered = Some c" "rc_Finalize c = (c\<lparr>rc_heap := []\<rparr>, kept)"
      "entries.is_heap (rc_heap c)" "set kept = set (rc_heap c)" "best_k entry_key k (mset offered) (mset kept)"
      "sorted (map entry_key kept)"
    using collector_finalizes [OF assms] by blast
  have top: "f32_le (ce_distance y) (TopDistance c)" if "y \<in> set kept" for y
  proof -
    have ne: "rc_heap c \<noteq> []" using that c(4) by auto
    have "entry_key y \<le> entry_key (rc_heap c ! 0)"
      using entries.queue.top_max [OF c(3), of y] that c(4) by simp
    moreover have "rc_heap c ! 0 \<in> set kept" using ne c(4) by simp
    moreover have "\<not> f32_is_nan (ce_distance e)" if "e \<in> set kept" for e
      using assms(2) c(5) that by (metis best_k_def mset_subset_eqD set_mset_mset)
    ultimately show ?thesis using ne that by (simp add: TopDistance_def f32_key_compare entry_key_def)
  qed
  have "if kept = [] then TopDistance c = f32_max else TopDistance c \<in> ce_distance ` set kept"
    using c(4) by (auto simp: TopDistance_def)
  moreover have "length kept = min k (length offered)" using c(5) by (metis best_k_def size_mset)
  ultimately show ?thesis
    using c(1,2,5) c(6) [unfolded entry_key_def [abs_def]] best_k_le [OF c(5) assms(2)] top
    by (intro exI [of _ c] exI [of _ kept] conjI) (simp_all add: best_k_def)
qed

theorem collector_top_k_witness:
  "\<exists>c. insert_all (collector_new 1) [\<lparr>ce_distance = 1065353216, ce_addr = \<lparr>ae_offset = 0, ae_size = 1\<rparr>\<rparr>,
      \<lparr>ce_distance = 1056964608, ce_addr = \<lparr>ae_offset = 4096, ae_size = 1\<rparr>\<rparr>] = Some c
    \<and> length (snd (rc_Finalize c)) = 1"
  using collector_top_k [of 1 "[\<lparr>ce_distance = 1065353216, ce_addr = \<lparr>ae_offset = 0, ae_size = 1\<rparr>\<rparr>,
      \<lparr>ce_distance = 1056964608, ce_addr = \<lparr>ae_offset = 4096, ae_size = 1\<rparr>\<rparr>]"]
  by (auto simp: f32_is_nan_def f32_mag_def)

text \<open>Two inputs the class does not guard: \<open>top_k = 0\<close> asks an empty heap for its top, and a NaN
  that enters while the heap fills up is never replaced: it answers every comparison with false.\<close>

lemma top_k_0_undefined: "TryInsert (collector_new 0) d a = None"
  by (simp add: TryInsert_def collector_new_def)

lemma nan_blocks_collector:
  assumes "f32_is_nan n"
  shows "TryInsert \<lparr>rc_top_k = 1, rc_heap = [\<lparr>ce_distance = n, ce_addr = a\<rparr>]\<rparr> d b =
    Some (\<lparr>rc_top_k = 1, rc_heap = [\<lparr>ce_distance = n, ce_addr = a\<rparr>]\<rparr>, False)"
  using f32_nan_unordered [OF assms] by (simp add: TryInsert_def)

end
