(* ===== verification/Buffer_Pool.thy ===== *)
theory Buffer_Pool
  imports Prelude "HOL-Library.Multiset"
begin

text \<open>
  \<open>BufferPool\<close> (include/vdb/query/buffer_pool.h, src/query/buffer_pool.cpp): reusable I/O
  buffers.  A buffer is its address.  What \<open>aligned_alloc\<close> answers is an argument of the
  operations: \<open>Some\<close> address, or \<open>None\<close> when it fails, which aborts the process (the
  operation's \<open>None\<close>).
\<close>

section \<open>State and operations\<close>

record pool_entry =
  pe_buf :: nat
  pe_capacity :: nat

record buffer_pool =
  bp_pool :: "pool_entry list"
  bp_outstanding :: "nat \<rightharpoonup> nat"

definition buffer_pool_new :: buffer_pool where
  "buffer_pool_new = \<lparr>bp_pool = [], bp_outstanding = Map.empty\<rparr>"

text \<open>\<open>(size + 4095u) & ~4095u\<close> on 32 bits.\<close>

definition align_4k :: "u32 \<Rightarrow> u32" where
  "align_4k req = (req + 4095) AND NOT 4095"

text \<open>The index of the first pooled buffer that is large enough.\<close>

fun first_fit :: "nat \<Rightarrow> pool_entry list \<Rightarrow> nat option" where
  "first_fit need [] = None"
| "first_fit need (e # es) =
     (if need \<le> pe_capacity e then Some 0 else map_option Suc (first_fit need es))"

text \<open>\<open>pool_[i] = move(pool_.back()); pool_.pop_back()\<close>.\<close>

definition swap_and_pop :: "'a list \<Rightarrow> nat \<Rightarrow> 'a list" where
  "swap_and_pop xs i = butlast (xs[i := last xs])"

definition bp_Acquire :: "buffer_pool \<Rightarrow> u32 \<Rightarrow> nat option \<Rightarrow> (buffer_pool \<times> nat) option" where
  "bp_Acquire p req answer =
     (let aligned_size = unat (align_4k req)
      in case first_fit aligned_size (bp_pool p) of
           Some i \<Rightarrow>
             (let raw = pe_buf (bp_pool p ! i); cap = pe_capacity (bp_pool p ! i)
              in Some (\<lparr>bp_pool = swap_and_pop (bp_pool p) i,
                        bp_outstanding = (bp_outstanding p)(raw \<mapsto> cap)\<rparr>, raw))
         | None \<Rightarrow>
             (case answer of
                None \<Rightarrow> None
              | Some raw \<Rightarrow>
                  Some (p\<lparr>bp_outstanding := (bp_outstanding p)(raw \<mapsto> aligned_size)\<rparr>, raw)))"

definition bp_Release :: "buffer_pool \<Rightarrow> nat \<Rightarrow> buffer_pool" where
  "bp_Release p buf =
     (case bp_outstanding p buf of
        None \<Rightarrow> p
      | Some cap \<Rightarrow> \<lparr>bp_pool = bp_pool p @ [\<lparr>pe_buf = buf, pe_capacity = cap\<rparr>],
                     bp_outstanding = (bp_outstanding p)(buf := None)\<rparr>)"

text \<open>\<open>answers\<close>: what the successive \<open>aligned_alloc\<close> calls return, \<open>count\<close> of them.\<close>

fun prime_loop :: "nat \<Rightarrow> nat option list \<Rightarrow> pool_entry list \<Rightarrow> pool_entry list option" where
  "prime_loop cap [] pool = Some pool"
| "prime_loop cap (None # answers) pool = None"
| "prime_loop cap (Some raw # answers) pool =
     prime_loop cap answers (pool @ [\<lparr>pe_buf = raw, pe_capacity = cap\<rparr>])"

definition bp_Prime :: "buffer_pool \<Rightarrow> u32 \<Rightarrow> nat option list \<Rightarrow> buffer_pool option" where
  "bp_Prime p req answers =
     map_option (\<lambda>pool. p\<lparr>bp_pool := pool\<rparr>) (prime_loop (unat (align_4k req)) answers (bp_pool p))"

definition PoolSize :: "buffer_pool \<Rightarrow> nat" where
  "PoolSize p = wrap32 (length (bp_pool p))"

definition OutstandingCount :: "buffer_pool \<Rightarrow> nat" where
  "OutstandingCount p = wrap32 (card (dom (bp_outstanding p)))"

text \<open>The buffers the destructor frees.\<close>

definition bp_freed :: "buffer_pool \<Rightarrow> nat list" where
  "bp_freed p = map pe_buf (bp_pool p)"

section \<open>Runs\<close>

definition live :: "buffer_pool \<Rightarrow> nat set" where
  "live p = set (map pe_buf (bp_pool p)) \<union> dom (bp_outstanding p)"

text \<open>An allocator answers with an address that no live buffer has.\<close>

inductive pool_step :: "buffer_pool \<Rightarrow> buffer_pool \<Rightarrow> bool" where
  acquire: "pool_step p p'"
    if "\<forall>a. answer = Some a \<longrightarrow> a \<notin> live p" and "bp_Acquire p req answer = Some (p', raw)"
| release: "pool_step p (bp_Release p buf)"
| prime: "pool_step p p'"
    if "distinct fresh" and "set fresh \<inter> live p = {}" and "bp_Prime p req (map Some fresh) = Some p'"

inductive pool_reachable :: "buffer_pool \<Rightarrow> bool" where
  new: "pool_reachable buffer_pool_new"
| step: "pool_reachable p \<Longrightarrow> pool_step p p' \<Longrightarrow> pool_reachable p'"

section \<open>The invariant\<close>

definition pool_inv :: "buffer_pool \<Rightarrow> bool" where
  "pool_inv p \<longleftrightarrow> distinct (map pe_buf (bp_pool p)) \<and> finite (dom (bp_outstanding p))
     \<and> set (map pe_buf (bp_pool p)) \<inter> dom (bp_outstanding p) = {}
     \<and> (\<forall>e \<in> set (bp_pool p). 4096 dvd pe_capacity e)
     \<and> (\<forall>c \<in> ran (bp_outstanding p). 4096 dvd c)"

lemma align_4k_unat:
  "unat (align_4k req) = (unat req + 4095) mod 4294967296 div 4096 * 4096"
proof -
  have m: "NOT 4095 = NOT (mask 12 :: u32)" by (simp add: mask_eq_exp_minus_1)
  have "align_4k req = push_bit 12 (drop_bit 12 (req + 4095))"
    unfolding align_4k_def m by (rule bit_word_eqI) (auto simp: bit_simps)
  then have "unat (align_4k req) = take_bit 32 (push_bit 12 (unat (drop_bit 12 (req + 4095))))"
    by (simp add: unsigned_push_bit_eq)
  also have "unat (drop_bit 12 (req + 4095)) = (unat req + 4095) mod 4294967296 div 4096"
    by (simp add: unsigned_drop_bit_eq drop_bit_eq_div unat_word_ariths)
  finally have "unat (align_4k req) = (unat req + 4095) mod 4294967296 div 4096 * 4096 mod 4294967296"
    by (simp add: take_bit_eq_mod push_bit_eq_mult)
  moreover have "(unat req + 4095) mod 4294967296 div 4096 * 4096 < 4294967296"
    by (rule le_less_trans [of _ "(unat req + 4095) mod 4294967296"]) simp_all
  ultimately show ?thesis by simp
qed


lemma align_4k_dvd: "4096 dvd unat (align_4k req)"
  by (simp add: align_4k_unat)

lemma align_4k_covers:
  assumes "unat req \<le> 4294963200"
  shows "unat req \<le> unat (align_4k req)" and "unat (align_4k req) < unat req + 4096"
proof -
  have eq: "unat (align_4k req) = (unat req + 4095) div 4096 * 4096"
    using assms by (simp add: align_4k_unat)
  have "(unat req + 4095) div 4096 * 4096 + (unat req + 4095) mod 4096 = unat req + 4095" by simp
  moreover have "(unat req + 4095) mod 4096 < 4096" by simp
  ultimately show "unat req \<le> unat (align_4k req)" and "unat (align_4k req) < unat req + 4096"
    unfolding eq by linarith+
qed

lemma first_fit_Some:
  "first_fit need es = Some i \<Longrightarrow> i < length es \<and> need \<le> pe_capacity (es ! i)
     \<and> (\<forall>j < i. pe_capacity (es ! j) < need)"
proof (induction es arbitrary: i)
  case (Cons e es)
  show ?case
  proof (cases "need \<le> pe_capacity e")
    case False
    with Cons.prems obtain k where k: "first_fit need es = Some k" "i = Suc k" by auto
    show ?thesis
      using Cons.IH [OF k(1)] k(2) False by (auto simp: less_Suc_eq_0_disj)
  qed (use Cons.prems in simp)
qed simp

lemma first_fit_None: "first_fit need es = None \<longleftrightarrow> (\<forall>e \<in> set es. pe_capacity e < need)"
  by (induction es) auto

lemma mset_swap_and_pop:
  assumes "i < length xs"
  shows "add_mset (xs ! i) (mset (swap_and_pop xs i)) = mset xs"
proof -
  have ne: "xs \<noteq> []" using assms by auto
  define n where "n = length xs - 1"
  have n: "n < length xs" "last xs = xs ! n" using ne by (simp_all add: n_def last_conv_nth)
  show ?thesis
  proof (cases "i = n")
    case True
    then have "swap_and_pop xs i = butlast xs" by (simp add: swap_and_pop_def n(2))
    then show ?thesis
      using arg_cong [OF append_butlast_last_id [OF ne], of mset] True n(2) by simp
  next
    case False
    then have i: "i < length (butlast xs)" using assms by (simp add: n_def)
    have "swap_and_pop xs i = (butlast xs)[i := last xs]"
      using False by (simp add: swap_and_pop_def butlast_list_update n_def)
    then have "mset (swap_and_pop xs i) = add_mset (last xs) (mset (butlast xs) - {#butlast xs ! i#})"
      using mset_update [OF i] by simp
    moreover obtain M where "mset (butlast xs) = add_mset (butlast xs ! i) M"
      using i by (metis insert_DiffM nth_mem set_mset_mset)
    ultimately show ?thesis
      using arg_cong [OF append_butlast_last_id [OF ne], of mset] i
      by (simp add: nth_butlast add_mset_commute [of "xs ! i"])
  qed
qed

text \<open>Taking entry \<open>i\<close> out of the pool.\<close>

lemma pool_take:
  assumes "i < length (bp_pool p)" and "pool_inv p"
  shows "distinct (map pe_buf (swap_and_pop (bp_pool p) i))"
    and "insert (pe_buf (bp_pool p ! i)) (set (map pe_buf (swap_and_pop (bp_pool p) i))) =
      set (map pe_buf (bp_pool p))"
    and "pe_buf (bp_pool p ! i) \<notin> set (map pe_buf (swap_and_pop (bp_pool p) i))"
    and "set (swap_and_pop (bp_pool p) i) \<subseteq> set (bp_pool p)"
proof -
  let ?es = "bp_pool p"
  have m: "mset (?es ! i # swap_and_pop ?es i) = mset ?es"
    using mset_swap_and_pop [OF assms(1)] by simp
  then have "mset (map pe_buf (?es ! i # swap_and_pop ?es i)) = mset (map pe_buf ?es)"
    by (simp only: mset_map)
  moreover have "distinct (map pe_buf ?es)" using assms(2) by (simp add: pool_inv_def)
  ultimately have "distinct (map pe_buf (?es ! i # swap_and_pop ?es i))"
    using mset_eq_imp_distinct_iff by blast
  then show "distinct (map pe_buf (swap_and_pop ?es i))"
    and "pe_buf (?es ! i) \<notin> set (map pe_buf (swap_and_pop ?es i))" by simp_all
  have s: "set (?es ! i # swap_and_pop ?es i) = set ?es" using mset_eq_setD [OF m] .
  then show "set (swap_and_pop ?es i) \<subseteq> set ?es" by auto
  show "insert (pe_buf (?es ! i)) (set (map pe_buf (swap_and_pop ?es i))) = set (map pe_buf ?es)"
    using s by (metis list.simps(15) list.simps(9) set_map)
qed

lemma Acquire_inv:
  assumes "pool_inv p" and "\<forall>a. answer = Some a \<longrightarrow> a \<notin> live p"
    and "bp_Acquire p req answer = Some (p', raw)"
  shows "pool_inv p' \<and> raw \<notin> dom (bp_outstanding p)
    \<and> (\<exists>c. bp_outstanding p' = (bp_outstanding p)(raw \<mapsto> c) \<and> unat (align_4k req) \<le> c)
    \<and> live p' = insert raw (live p)"
proof (cases "first_fit (unat (align_4k req)) (bp_pool p)")
  case (Some i)
  note f = first_fit_Some [OF Some]
  then have i: "i < length (bp_pool p)" by blast
  note t = pool_take [OF i assms(1)]
  have p': "p' = \<lparr>bp_pool = swap_and_pop (bp_pool p) i,
      bp_outstanding = (bp_outstanding p)(raw \<mapsto> pe_capacity (bp_pool p ! i))\<rparr>"
    and raw: "raw = pe_buf (bp_pool p ! i)"
    using assms(3) Some by (auto simp: bp_Acquire_def Let_def)
  have out: "raw \<notin> dom (bp_outstanding p)"
    using assms(1) i unfolding raw pool_inv_def by (auto dest: nth_mem)
  have "4096 dvd pe_capacity (bp_pool p ! i)" using assms(1) i by (simp add: pool_inv_def)
  moreover have "ran ((bp_outstanding p)(raw \<mapsto> c)) = insert c (ran (bp_outstanding p))" for c
    using out by (simp add: ran_map_upd domIff)
  moreover have "set (map pe_buf (swap_and_pop (bp_pool p) i)) \<inter> dom (bp_outstanding p) = {}"
    using assms(1) t(2) unfolding pool_inv_def by blast
  ultimately have "pool_inv p'"
    using assms(1) t(1,3,4) raw unfolding p' pool_inv_def by (simp del: set_map) blast
  moreover have "live p' = insert raw (live p)"
    using t(2) unfolding live_def p' raw by auto
  ultimately show ?thesis using out f p' by auto
next
  case None
  then obtain a where a: "answer = Some a" and p': "raw = a"
      "p' = p\<lparr>bp_outstanding := (bp_outstanding p)(a \<mapsto> unat (align_4k req))\<rparr>"
    using assms(3) by (auto simp: bp_Acquire_def Let_def split: option.splits)
  have fresh: "a \<notin> live p" using assms(2) a by blast
  then have out: "a \<notin> dom (bp_outstanding p)" by (simp add: live_def)
  then have "ran (bp_outstanding p') = insert (unat (align_4k req)) (ran (bp_outstanding p))"
    unfolding p' by (simp add: ran_map_upd domIff)
  then have "pool_inv p'"
    using assms(1) fresh align_4k_dvd [of req] by (auto simp: pool_inv_def p' live_def)
  then show ?thesis using out by (auto simp: p' live_def)
qed

lemma Release_inv: "pool_inv p \<Longrightarrow> pool_inv (bp_Release p buf) \<and> live (bp_Release p buf) = live p"
proof (cases "bp_outstanding p buf")
  case (Some cap)
  assume inv: "pool_inv p"
  have "ran ((bp_outstanding p)(buf := None)) \<subseteq> ran (bp_outstanding p)"
    by (auto simp: ran_def)
  moreover have "cap \<in> ran (bp_outstanding p)" using Some by (auto simp: ran_def)
  moreover have "buf \<notin> set (map pe_buf (bp_pool p))"
    using inv Some unfolding pool_inv_def by blast
  ultimately show ?thesis
    using inv Some by (auto simp: pool_inv_def bp_Release_def live_def)
qed (simp add: bp_Release_def)

lemma prime_loop_Some:
  "prime_loop cap (map Some fresh) pool = Some (pool @ map (\<lambda>a. \<lparr>pe_buf = a, pe_capacity = cap\<rparr>) fresh)"
  by (induction fresh arbitrary: pool) simp_all

lemma Prime_inv:
  assumes "pool_inv p" and "distinct fresh" and "set fresh \<inter> live p = {}"
    and "bp_Prime p req (map Some fresh) = Some p'"
  shows "pool_inv p' \<and> live p' = set fresh \<union> live p"
proof -
  define new where "new = map (\<lambda>a. \<lparr>pe_buf = a, pe_capacity = unat (align_4k req)\<rparr>) fresh"
  have p': "p' = p\<lparr>bp_pool := bp_pool p @ new\<rparr>"
    using assms(4) by (simp add: bp_Prime_def prime_loop_Some new_def)
  have new: "map pe_buf new = fresh" "\<forall>e \<in> set new. 4096 dvd pe_capacity e"
    using align_4k_dvd [of req] by (auto simp: new_def comp_def)
  have "set fresh \<inter> set (map pe_buf (bp_pool p)) = {}" "set fresh \<inter> dom (bp_outstanding p) = {}"
    using assms(3) unfolding live_def by blast+
  then show ?thesis
    using assms(1,2) new unfolding pool_inv_def live_def p'
    by (simp add: new(1) del: set_map) blast
qed

lemma pool_step_inv: "pool_step p p' \<Longrightarrow> pool_inv p \<Longrightarrow> pool_inv p'"
  by (induction rule: pool_step.induct) (use Acquire_inv Release_inv Prime_inv in blast)+

lemma pool_reachable_inv: "pool_reachable p \<Longrightarrow> pool_inv p"
proof (induction rule: pool_reachable.induct)
  case new
  show ?case by (simp add: pool_inv_def buffer_pool_new_def)
qed (rule pool_step_inv)

section \<open>Properties\<close>

text \<open>C26: in every state the pool reaches (any mix of \<open>Acquire\<close>, \<open>Release\<close>, also of unknown or
  already released pointers, and \<open>Prime\<close>, with an allocator that never hands out a live buffer)
  no buffer is pooled twice or both pooled and outstanding, so the destructor frees each pooled
  buffer once and no acquired one; and every capacity is a multiple of the page size.\<close>

theorem buffer_pool_ownership:
  assumes "pool_reachable p"
  shows "distinct (bp_freed p) \<and> set (bp_freed p) \<inter> dom (bp_outstanding p) = {}
    \<and> (\<forall>e \<in> set (bp_pool p). 4096 dvd pe_capacity e)
    \<and> (\<forall>buf cap. bp_outstanding p buf = Some cap \<longrightarrow> 4096 dvd cap)"
  using pool_reachable_inv [OF assms] by (auto simp: pool_inv_def bp_freed_def ran_def)

theorem buffer_pool_ownership_witness:
  "\<exists>p. pool_reachable p \<and> bp_outstanding p 8192 = Some 4096 \<and> distinct (bp_freed p)"
proof -
  let ?p = "\<lparr>bp_pool = [], bp_outstanding = [8192 \<mapsto> 4096]\<rparr>"
  have "bp_Acquire buffer_pool_new 100 (Some 8192) = Some (?p, 8192)"
    by (simp add: bp_Acquire_def buffer_pool_new_def Let_def align_4k_unat)
  then have "pool_step buffer_pool_new ?p"
    by (intro pool_step.acquire [of "Some 8192"]) (simp_all add: live_def buffer_pool_new_def)
  then have "pool_reachable ?p" by (rule pool_reachable.step [OF pool_reachable.new])
  from this buffer_pool_ownership [OF this] show ?thesis by (intro exI [of _ ?p]) simp
qed

text \<open>C27: \<open>Acquire\<close> answers with a buffer nobody holds, records it as outstanding with a
  capacity that covers the request (up to 0xFFFFF000 bytes), asks the allocator only when no
  pooled buffer is large enough, and never loses a buffer; releasing it makes it available again
  and releasing it a second time changes nothing.\<close>

theorem buffer_pool_acquire:
  assumes "pool_reachable p" and "unat req \<le> 4294963200" and "answer = Some a" and "a \<notin> live p"
  shows "\<exists>p' raw cap. bp_Acquire p req answer = Some (p', raw)
    \<and> raw \<notin> dom (bp_outstanding p) \<and> bp_outstanding p' = (bp_outstanding p)(raw \<mapsto> cap)
    \<and> unat req \<le> cap \<and> live p' = insert raw (live p)
    \<and> (raw = a \<longleftrightarrow> (\<forall>e \<in> set (bp_pool p). pe_capacity e < unat (align_4k req)))
    \<and> bp_Release (bp_Release p' raw) raw = bp_Release p' raw
    \<and> raw \<in> set (bp_freed (bp_Release p' raw))"
proof -
  let ?need = "unat (align_4k req)"
  have "\<exists>p' raw. bp_Acquire p req answer = Some (p', raw)"
    by (simp add: bp_Acquire_def assms(3) Let_def split: option.splits)
  then obtain p' raw where acq: "bp_Acquire p req answer = Some (p', raw)" by blast
  have fresh: "\<forall>b. answer = Some b \<longrightarrow> b \<notin> live p" using assms(3,4) by simp
  from Acquire_inv [OF pool_reachable_inv [OF assms(1)] fresh acq] obtain cap where
    inv: "pool_inv p'" and out: "raw \<notin> dom (bp_outstanding p)" "live p' = insert raw (live p)"
    and cap: "bp_outstanding p' = (bp_outstanding p)(raw \<mapsto> cap)" "?need \<le> cap"
    by blast
  have "raw = a \<longleftrightarrow> first_fit ?need (bp_pool p) = None"
  proof (cases "first_fit ?need (bp_pool p)")
    case None
    then show ?thesis using acq assms(3) by (simp add: bp_Acquire_def Let_def)
  next
    case (Some i)
    then have "raw = pe_buf (bp_pool p ! i)" using acq by (simp add: bp_Acquire_def Let_def)
    then have "raw \<in> live p" using first_fit_Some [OF Some] by (simp add: live_def)
    then show ?thesis using Some assms(4) by auto
  qed
  then have "raw = a \<longleftrightarrow> (\<forall>e \<in> set (bp_pool p). pe_capacity e < ?need)"
    by (simp add: first_fit_None)
  moreover have "unat req \<le> cap" using align_4k_covers(1) [OF assms(2)] cap(2) by simp
  moreover have "bp_Release (bp_Release p' raw) raw = bp_Release p' raw"
    by (simp add: bp_Release_def cap(1))
  moreover have "raw \<in> set (bp_freed (bp_Release p' raw))"
    by (simp add: bp_Release_def cap(1) bp_freed_def)
  ultimately show ?thesis using acq out cap(1) by blast
qed

theorem buffer_pool_acquire_witness:
  "\<exists>p' raw cap. bp_Acquire buffer_pool_new 5000 (Some 4096) = Some (p', raw)
    \<and> bp_outstanding p' raw = Some cap \<and> 5000 \<le> cap"
  using buffer_pool_acquire [OF pool_reachable.new, of 5000 "Some 4096" 4096]
  by (fastforce simp: live_def buffer_pool_new_def)

text \<open>A request above 0xFFFFF000 bytes wraps to zero: any pooled buffer, of any size, serves it.\<close>

lemma acquire_wraps: "align_4k 0xFFFFF001 = 0"
  by (simp add: align_4k_def)

end
