(* ===== verification/Pack_Codes.thy ===== *)
theory Pack_Codes
  imports Prelude
begin

text \<open>
  The FastScan layout of sign bits (src/storage/pack_codes.cpp): 32 codes in a block, two
  four-dimension groups per 32-byte pair, nibbles permuted for the 16-byte lanes of VPSHUFB.
  A code is the list of 64-bit words of its sign plane.  Reads outside a code or a packed block
  and writes outside the 32-row scratch matrix are \<open>None\<close>.
\<close>

section \<open>Sizes and tables\<close>

definition FastScanPackedSize :: "nat \<Rightarrow> nat" where
  "FastScanPackedSize dim = wrap32 (wrap32 (dim + 7) div 8 * 32)"

definition FastScanBlockSize :: "nat \<Rightarrow> nat" where
  "FastScanBlockSize dim = wrap32 (FastScanPackedSize dim + 128)"

definition kPerm :: "nat list" where
  "kPerm = [0, 8, 1, 9, 2, 10, 3, 11, 4, 12, 5, 13, 6, 14, 7, 15]"

definition kInvPerm :: "nat list" where
  "kInvPerm = [0, 2, 4, 6, 8, 10, 12, 14, 1, 3, 5, 7, 9, 11, 13, 15]"

section \<open>Packing\<close>

definition code_bit :: "u64 list \<Rightarrow> nat \<Rightarrow> bool" where
  "code_bit code d = bit (code ! (d div 64)) (d mod 64)"

definition code_nibble :: "u64 list \<Rightarrow> nat \<Rightarrow> nat \<Rightarrow> u8" where
  "code_nibble code dim m =
     foldl (\<lambda>nibble b. if dim \<le> m * 4 + b then nibble
        else nibble OR push_bit (3 - b) (of_bool (code_bit code (m * 4 + b)))) 0 [0..<4]"

text \<open>Byte \<open>j\<close> of a vector in the scratch matrix \<open>flat\<close>: groups \<open>2 j\<close> and \<open>2 j + 1\<close>.\<close>

definition flat_byte :: "u64 list \<Rightarrow> nat \<Rightarrow> nat \<Rightarrow> u8" where
  "flat_byte code dim j =
     code_nibble code dim (2 * j)
     OR (if 2 * j + 1 < dim div 4 then push_bit 4 (code_nibble code dim (2 * j + 1)) else 0)"

definition flat_matrix :: "u64 list list \<Rightarrow> nat \<Rightarrow> nat \<Rightarrow> bytes" where
  "flat_matrix codes num_codes dim =
     concat (map (\<lambda>v. map (\<lambda>j. if v < num_codes then flat_byte (codes ! v) dim j else 0)
        [0..<(dim div 4 + 1) div 2]) [0..<32])"

definition pack_pair :: "bytes \<Rightarrow> nat \<Rightarrow> nat \<Rightarrow> nat \<Rightarrow> bytes" where
  "pack_pair flat bytes_per_vec num_codes p =
     (let c = map (\<lambda>k. if k < num_codes then flat ! (k * bytes_per_vec + p) else 0) [0..<32];
          c0 = map (\<lambda>x. x AND 15) c;
          c1 = map (drop_bit 4) c
      in map (\<lambda>j. c0 ! (kPerm ! j) OR push_bit 4 (c0 ! (kPerm ! j + 16))) [0..<16]
         @ map (\<lambda>j. c1 ! (kPerm ! j) OR push_bit 4 (c1 ! (kPerm ! j + 16))) [0..<16])"

text \<open>The words the loop reads: up to dimension \<open>4 (dim / 4) - 1\<close>.\<close>

definition PackSignBitsForFastScan :: "u64 list list \<Rightarrow> nat \<Rightarrow> nat \<Rightarrow> bytes option" where
  "PackSignBitsForFastScan codes num_codes dim =
     (let M = dim div 4; bytes_per_vec = (M + 1) div 2
      in if length codes < num_codes
            \<or> (0 < M \<and> (32 < num_codes
                \<or> (\<exists>code \<in> set (take num_codes codes). length code * 64 < M * 4)))
         then None
         else let flat = flat_matrix codes num_codes dim;
                  packed = concat (map (pack_pair flat bytes_per_vec num_codes) [0..<bytes_per_vec])
              in Some (packed @ replicate (FastScanPackedSize dim - length packed) 0))"

section \<open>Unpacking\<close>

definition set_code_bit :: "u64 list \<Rightarrow> nat \<Rightarrow> bool \<Rightarrow> u64 list" where
  "set_code_bit ws d v = ws[d div 64 := ws ! (d div 64) OR push_bit (d mod 64) (of_bool v)]"

text \<open>The four bits of group \<open>m\<close>, taken from a nibble.\<close>

definition unpack_nibble :: "nat \<Rightarrow> nat \<Rightarrow> u8 \<Rightarrow> u64 list \<Rightarrow> u64 list" where
  "unpack_nibble dim m nibble words =
     foldl (\<lambda>ws b. if m * 4 + b < dim then set_code_bit ws (m * 4 + b) (bit nibble (3 - b)) else ws)
       words [0..<4]"

definition pair_nibble :: "bool \<Rightarrow> u8 \<Rightarrow> u8" where
  "pair_nibble in_high_half byte = (if in_high_half then drop_bit 4 byte AND 15 else byte AND 15)"

definition unpack_pair :: "bytes \<Rightarrow> nat \<Rightarrow> nat \<Rightarrow> u64 list \<Rightarrow> nat \<Rightarrow> u64 list" where
  "unpack_pair packed vec dim words p =
     (let in_high_half = 16 \<le> vec;
          lane_idx = (if in_high_half then vec - 16 else vec);
          perm_pos = kInvPerm ! lane_idx;
          ws = unpack_nibble dim (2 * p) (pair_nibble in_high_half (packed ! (p * 32 + perm_pos))) words
      in if 2 * p + 1 < dim div 4
         then unpack_nibble dim (2 * p + 1)
                (pair_nibble in_high_half (packed ! (p * 32 + perm_pos + 16))) ws
         else ws)"

definition UnpackSignBitsFromFastScan :: "bytes \<Rightarrow> nat \<Rightarrow> nat \<Rightarrow> u64 list option" where
  "UnpackSignBitsFromFastScan packed vec dim =
     (let pairs = (dim div 4 + 1) div 2
      in if 32 \<le> vec \<or> length packed < pairs * 32 then None
         else Some (foldl (unpack_pair packed vec dim) (replicate ((dim + 63) div 64) 0) [0..<pairs]))"

section \<open>Nibbles\<close>

lemma upt4: "[0..<4] = [0, 1, 2, 3 :: nat]"
  by (simp add: upt_rec)

lemma less4: "i < 4 \<Longrightarrow> i = 0 \<or> i = 1 \<or> i = 2 \<or> i = (3 :: nat)"
  by arith

lemma code_nibble_bits:
  assumes "m < dim div 4"
  shows "bit (code_nibble code dim m) i \<longleftrightarrow> i < 4 \<and> code_bit code (m * 4 + (3 - i))"
proof -
  have in_dim: "m * 4 + b < dim" if "b < 4" for b using assms that by linarith
  have nib: "code_nibble code dim m = push_bit 3 (of_bool (code_bit code (m * 4)))
      OR push_bit 2 (of_bool (code_bit code (m * 4 + 1)))
      OR push_bit 1 (of_bool (code_bit code (m * 4 + 2)))
      OR of_bool (code_bit code (m * 4 + 3))"
    using in_dim [of 0] in_dim [of 1] in_dim [of 2] in_dim [of 3]
    unfolding code_nibble_def upt4 by (simp add: or.assoc not_le [symmetric] del: One_nat_def)
  show ?thesis
  proof (cases "i < 4")
    case True
    then show ?thesis using less4 [OF True] unfolding nib
      by (elim disjE) (simp_all add: bit_simps del: push_bit_of_1)
  next
    case False
    then show ?thesis unfolding nib by (auto simp: bit_simps)
  qed
qed


lemma flat_byte_bits:
  assumes "2 * j < dim div 4"
  shows "bit (flat_byte code dim j) i \<longleftrightarrow>
    i < 4 \<and> code_bit code (2 * j * 4 + (3 - i))
    \<or> 4 \<le> i \<and> i < 8 \<and> 2 * j + 1 < dim div 4 \<and> code_bit code ((2 * j + 1) * 4 + (3 - (i - 4)))"
proof (cases "2 * j + 1 < dim div 4")
  case True
  have hi: "bit (push_bit 4 (code_nibble code dim (2 * j + 1))) i \<longleftrightarrow>
      4 \<le> i \<and> i < 8 \<and> code_bit code ((2 * j + 1) * 4 + (3 - (i - 4)))"
    unfolding bit_push_bit_iff code_nibble_bits [OF True]
    by (auto simp: bit_simps code_nibble_bits [OF True, unfolded add_Suc_right] possible_bit_word)
  have "flat_byte code dim j = code_nibble code dim (2 * j) OR push_bit 4 (code_nibble code dim (2 * j + 1))"
    using True by (simp add: flat_byte_def)
  then show ?thesis
    unfolding bit_or_iff by (simp only: bit_or_iff hi code_nibble_bits [OF assms]) (use True in auto)
next
  case False
  then show ?thesis by (simp add: flat_byte_def code_nibble_bits [OF assms])
qed

lemma nth_flat_matrix:
  assumes "v < 32" and "j < (dim div 4 + 1) div 2"
  shows "flat_matrix codes num dim ! (v * ((dim div 4 + 1) div 2) + j) =
    (if v < num then flat_byte (codes ! v) dim j else 0)"
  unfolding flat_matrix_def
  by (subst nth_concat_uniform [where n = "(dim div 4 + 1) div 2"]) (use assms in auto)

lemma kPerm_kInvPerm: "lane < 16 \<Longrightarrow> kPerm ! (kInvPerm ! lane) = lane \<and> kInvPerm ! lane < 16"
proof -
  have "\<forall>lane \<in> set [0..<16]. kPerm ! (kInvPerm ! lane) = lane \<and> kInvPerm ! lane < 16"
    by code_simp
  then show "lane < 16 \<Longrightarrow> ?thesis" by simp
qed

lemma kPerm_bound: "j < 16 \<Longrightarrow> kPerm ! j < 16"
proof -
  have "\<forall>j \<in> set [0..<16]. kPerm ! j < 16" by code_simp
  then show "j < 16 \<Longrightarrow> ?thesis" by simp
qed

text \<open>Two nibbles in a byte.\<close>

lemma nibble_and_15: "bit (x AND 15 :: u8) i \<longleftrightarrow> i < 4 \<and> bit x i"
proof -
  have "(15 :: u8) = mask 4" by (simp add: mask_eq_exp_minus_1)
  then show ?thesis by (simp only: bit_and_iff bit_mask_iff) (auto dest: bit_imp_le_length)
qed

lemma pair_nibble_lo:
  "pair_nibble False ((a AND 15) OR push_bit 4 (b AND 15)) = a AND 15"
  by (rule word_eq_bitsI)
    (simp only: pair_nibble_def if_False nibble_and_15 bit_or_iff bit_push_bit_iff, auto)

lemma pair_nibble_hi:
  "pair_nibble True ((a AND 15) OR push_bit 4 (b AND 15)) = b AND 15"
  by (rule word_eq_bitsI)
    (simp only: pair_nibble_def if_True nibble_and_15 bit_or_iff bit_push_bit_iff bit_drop_bit_eq o_def, auto)

lemma drop_bit_4_and_15: "drop_bit 4 x AND 15 = (drop_bit 4 x :: u8)"
  by (rule word_eq_bitsI) (auto simp: nibble_and_15 bit_drop_bit_eq dest: bit_imp_le_length)

text \<open>The nibbles of vector \<open>v\<close> in a packed pair.\<close>

lemma pack_pair_nibble:
  fixes flat :: bytes and bpv p num v :: nat
  assumes "v < 32" and "num \<le> 32"
  defines "c \<equiv> \<lambda>k. if k < num then flat ! (k * bpv + p) else 0"
    and "pos \<equiv> kInvPerm ! (if 16 \<le> v then v - 16 else v)"
  shows "pair_nibble (16 \<le> v) (pack_pair flat bpv num p ! pos) = c v AND 15"
    and "pair_nibble (16 \<le> v) (pack_pair flat bpv num p ! (pos + 16)) = drop_bit 4 (c v)"
proof -
  define lane where "lane = (if 16 \<le> v then v - 16 else v)"
  have lane: "lane < 16" using assms(1) unfolding lane_def by (simp split: if_split) linarith
  have pos: "pos = kInvPerm ! lane" by (simp add: pos_def lane_def)
  note perm = kPerm_kInvPerm [OF lane, folded pos]
  have lo: "pack_pair flat bpv num p ! pos = (c lane AND 15) OR push_bit 4 (c (lane + 16) AND 15)"
    using perm lane unfolding pack_pair_def Let_def c_def by (simp add: nth_append)
  have hi: "pack_pair flat bpv num p ! (pos + 16) = drop_bit 4 (c lane) OR push_bit 4 (drop_bit 4 (c (lane + 16)))"
    using perm lane unfolding pack_pair_def Let_def c_def by (simp add: nth_append)
  have "pair_nibble (16 \<le> v) (pack_pair flat bpv num p ! pos) = c v AND 15
    \<and> pair_nibble (16 \<le> v) (pack_pair flat bpv num p ! (pos + 16)) = drop_bit 4 (c v)"
  proof (cases "16 \<le> v")
    case True
    then have "v = lane + 16" by (simp add: lane_def)
    then show ?thesis
      unfolding lo hi eqTrueI [OF True]
      using pair_nibble_hi [of "drop_bit 4 (c lane)" "drop_bit 4 (c (lane + 16))"]
      by (simp only: pair_nibble_hi drop_bit_4_and_15)
  next
    case False
    then have v: "v = lane" "(16 \<le> v) = False" by (simp_all add: lane_def)
    show ?thesis
      unfolding lo hi v(2)
      using pair_nibble_lo [of "drop_bit 4 (c lane)" "drop_bit 4 (c (lane + 16))"] v(1)
      by (simp only: pair_nibble_lo drop_bit_4_and_15)
  qed
  then show "pair_nibble (16 \<le> v) (pack_pair flat bpv num p ! pos) = c v AND 15"
    and "pair_nibble (16 \<le> v) (pack_pair flat bpv num p ! (pos + 16)) = drop_bit 4 (c v)"
    by blast+
qed

section \<open>Unpacked words\<close>

lemma length_set_code_bit [simp]: "length (set_code_bit ws d v) = length ws"
  by (simp add: set_code_bit_def)

lemma length_unpack_nibble [simp]: "length (unpack_nibble dim m nib ws) = length ws"
  by (simp add: unpack_nibble_def upt4)

lemma length_unpack_pair [simp]: "length (unpack_pair packed vec dim ws p) = length ws"
  by (simp add: unpack_pair_def Let_def)

lemma code_bit_set:
  assumes "d < 64 * length ws" and "e < 64 * length ws"
  shows "code_bit (set_code_bit ws d v) e \<longleftrightarrow> code_bit ws e \<or> e = d \<and> v"
proof -
  have "d div 64 < length ws" using assms(1) by (simp add: less_mult_imp_div_less mult.commute)
  moreover have "e = d \<longleftrightarrow> e div 64 = d div 64 \<and> e mod 64 = d mod 64"
    by (metis div_mult_mod_eq)
  ultimately show ?thesis
    by (cases "e div 64 = d div 64")
      (auto simp: code_bit_def set_code_bit_def bit_or_iff bit_push_bit_iff bit_1_iff)
qed

lemma code_bit_unpack_nibble:
  assumes "m < dim div 4" and "dim \<le> 64 * length ws" and "e < 64 * length ws"
  shows "code_bit (unpack_nibble dim m nib ws) e \<longleftrightarrow>
    code_bit ws e \<or> m * 4 \<le> e \<and> e < m * 4 + 4 \<and> bit nib (3 - (e - m * 4))"
proof -
  have in_dim: "m * 4 + b < dim" if "b < 4" for b using assms(1) that by linarith
  have d: "m * 4 + b < 64 * length ws" if "b < 4" for b
    using in_dim [OF that] assms(2) by linarith
  have "unpack_nibble dim m nib ws = set_code_bit (set_code_bit (set_code_bit (set_code_bit ws
      (m * 4) (bit nib 3)) (m * 4 + 1) (bit nib 2)) (m * 4 + 2) (bit nib 1)) (m * 4 + 3) (bit nib 0)"
    using in_dim [of 0] in_dim [of 1] in_dim [of 2] in_dim [of 3]
    unfolding unpack_nibble_def upt4 by simp
  then have "code_bit (unpack_nibble dim m nib ws) e \<longleftrightarrow> code_bit ws e \<or> e = m * 4 \<and> bit nib 3
      \<or> e = m * 4 + 1 \<and> bit nib 2 \<or> e = m * 4 + 2 \<and> bit nib 1 \<or> e = m * 4 + 3 \<and> bit nib 0"
    using d [of 0] d [of 1] d [of 2] d [of 3] assms(3) by (simp add: code_bit_set del: One_nat_def)
  also have "\<dots> \<longleftrightarrow> code_bit ws e \<or> m * 4 \<le> e \<and> e < m * 4 + 4 \<and> bit nib (3 - (e - m * 4))"
  proof (cases "m * 4 \<le> e \<and> e < m * 4 + 4")
    case True
    then have "e - m * 4 < 4" by linarith
    from less4 [OF this] True show ?thesis by (elim disjE) auto
  qed auto
  finally show ?thesis .
qed


section \<open>Properties\<close>

lemma length_pack_pair [simp]: "length (pack_pair flat bpv num p) = 32"
  by (simp add: pack_pair_def Let_def)

definition pack_pairs :: "u64 list list \<Rightarrow> nat \<Rightarrow> nat \<Rightarrow> bytes" where
  "pack_pairs codes num dim = concat (map (pack_pair (flat_matrix codes num dim)
     ((dim div 4 + 1) div 2) num) [0..<(dim div 4 + 1) div 2])"

lemma length_pack_pairs: "length (pack_pairs codes num dim) = (dim div 4 + 1) div 2 * 32"
  unfolding pack_pairs_def by (subst length_concat_uniform [where n = 32]) auto

lemma nth_pack_pairs:
  assumes "p < (dim div 4 + 1) div 2" and "j < 32"
  shows "pack_pairs codes num dim ! (p * 32 + j) =
    pack_pair (flat_matrix codes num dim) ((dim div 4 + 1) div 2) num p ! j"
  unfolding pack_pairs_def by (subst nth_concat_uniform [where n = 32]) (use assms in auto)

lemma FastScanPackedSize_enough:
  assumes "dim < 536870912"
  shows "(dim div 4 + 1) div 2 * 32 \<le> FastScanPackedSize dim"
proof -
  have s: "FastScanPackedSize dim = (dim + 7) div 8 * 32"
  proof -
    have "(dim + 7) div 8 * 32 < 4294967296" using assms by linarith
    then show ?thesis using assms by (simp add: FastScanPackedSize_def)
  qed
  have "dim div 4 + 1 = (dim + 4) div 4" by simp
  also have "\<dots> \<le> (dim + 7) div 4" by (rule div_le_mono) simp
  finally have "(dim div 4 + 1) div 2 \<le> (dim + 7) div 4 div 2" by (rule div_le_mono)
  then have "(dim div 4 + 1) div 2 \<le> (dim + 7) div 8" by (simp add: div_mult2_eq [symmetric])
  then show ?thesis unfolding s by simp
qed

lemma PackSignBits_Some:
  assumes "num \<le> length codes" and "num \<le> 32"
    and "\<forall>code \<in> set (take num codes). dim \<le> length code * 64"
  shows "PackSignBitsForFastScan codes num dim = Some (pack_pairs codes num dim
    @ replicate (FastScanPackedSize dim - (dim div 4 + 1) div 2 * 32) 0)"
proof -
  have "\<not> length code * 64 < dim div 4 * 4" if "code \<in> set (take num codes)" for code
  proof -
    have "dim div 4 * 4 \<le> dim" by simp
    then show ?thesis using assms(3) that by fastforce
  qed
  then have "PackSignBitsForFastScan codes num dim = Some (pack_pairs codes num dim
      @ replicate (FastScanPackedSize dim - length (pack_pairs codes num dim)) 0)"
    using assms(1,2) unfolding PackSignBitsForFastScan_def Let_def pack_pairs_def [symmetric] by auto
  then show ?thesis by (simp only: length_pack_pairs)
qed

text \<open>One pair of the packed block gives the eight dimensions it was made from.\<close>

lemma unpack_pair_bits:
  assumes "v < num" and "num \<le> 32" and "p < (dim div 4 + 1) div 2"
    and "dim \<le> 64 * length ws" and "e < 64 * length ws"
  shows "code_bit (unpack_pair (pack_pairs codes num dim @ z) v dim ws p) e \<longleftrightarrow>
    code_bit ws e \<or> p * 8 \<le> e \<and> e < p * 8 + 8 \<and> e < dim div 4 * 4 \<and> code_bit (codes ! v) e"
proof -
  let ?bpv = "(dim div 4 + 1) div 2" and ?flat = "flat_matrix codes num dim"
  define pos where "pos = kInvPerm ! (if 16 \<le> v then v - 16 else v)"
  define b where "b = flat_byte (codes ! v) dim p"
  have v: "v < 32" using assms(1,2) by simp
  have pos: "pos < 16"
    using kPerm_kInvPerm [of "v - 16"] kPerm_kInvPerm [of v] v
    by (cases "16 \<le> v") (simp_all add: pos_def less_diff_conv2)
  have flat: "?flat ! (v * ?bpv + p) = b"
    using nth_flat_matrix [OF v assms(3)] assms(1) by (simp add: b_def)
  note pn = pack_pair_nibble [OF v assms(2), of ?flat ?bpv p, folded pos_def, unfolded flat if_P [OF assms(1)]]
  have at: "(pack_pairs codes num dim @ z) ! (p * 32 + k) = pack_pair ?flat ?bpv num p ! k" if "k < 32" for k
  proof -
    have "p * 32 + k < length (pack_pairs codes num dim)"
      using that assms(3) unfolding length_pack_pairs by linarith
    then show ?thesis using nth_pack_pairs [OF assms(3) that, of codes num] by (simp only: nth_append if_True)
  qed
  have "pos < 32" using pos by simp
  then have n0: "pair_nibble (16 \<le> v) ((pack_pairs codes num dim @ z) ! (p * 32 + pos)) = b AND 15"
    by (simp only: at pn(1))
  have "pos + 16 < 32" using pos by simp
  then have n1: "pair_nibble (16 \<le> v) ((pack_pairs codes num dim @ z) ! (p * 32 + pos + 16)) = drop_bit 4 b"
    unfolding add.assoc by (simp only: at pn(2))
  have g0: "2 * p < dim div 4" using assms(3) by linarith
  note fb = flat_byte_bits [OF g0, of "codes ! v", folded b_def]
  have bits0: "code_bit (unpack_nibble dim (2 * p) (b AND 15) ws) e \<longleftrightarrow>
      code_bit ws e \<or> p * 8 \<le> e \<and> e < p * 8 + 4 \<and> code_bit (codes ! v) e"
  proof (cases "p * 8 \<le> e \<and> e < p * 8 + 4")
    case True
    define i where "i = e - p * 8"
    have i: "i < 4" "e = p * 8 + i" using True unfolding i_def by linarith+
    show ?thesis
      unfolding code_bit_unpack_nibble [OF g0 assms(4,5)] nibble_and_15 fb unfolding i(2)
      using i(1) less4 [OF i(1)] by (auto simp: algebra_simps)
  next
    case False
    then show ?thesis unfolding code_bit_unpack_nibble [OF g0 assms(4,5)] by (auto simp: algebra_simps)
  qed
  have up: "unpack_pair (pack_pairs codes num dim @ z) v dim ws p =
      (if 2 * p + 1 < dim div 4
       then unpack_nibble dim (2 * p + 1) (drop_bit 4 b) (unpack_nibble dim (2 * p) (b AND 15) ws)
       else unpack_nibble dim (2 * p) (b AND 15) ws)"
    unfolding unpack_pair_def Let_def pos_def [symmetric] n0 n1 ..
  show ?thesis
  proof (cases "2 * p + 1 < dim div 4")
    case True
    have e4: "e < p * 8 + 8 \<Longrightarrow> e < dim div 4 * 4" using True by linarith
    have bits1: "(2 * p + 1) * 4 \<le> e \<and> e < (2 * p + 1) * 4 + 4 \<and> bit (drop_bit 4 b) (3 - (e - (2 * p + 1) * 4))
        \<longleftrightarrow> p * 8 + 4 \<le> e \<and> e < p * 8 + 8 \<and> code_bit (codes ! v) e"
    proof (cases "p * 8 + 4 \<le> e \<and> e < p * 8 + 8")
      case in4: True
      define i where "i = e - (p * 8 + 4)"
      have i: "i < 4" "e = p * 8 + 4 + i" using in4 unfolding i_def by linarith+
      show ?thesis
        unfolding bit_drop_bit_eq o_def fb unfolding i(2)
        using i(1) less4 [OF i(1)] True by (auto simp: algebra_simps)
    qed (auto simp: algebra_simps)
    have "code_bit (unpack_pair (pack_pairs codes num dim @ z) v dim ws p) e \<longleftrightarrow>
        (code_bit ws e \<or> p * 8 \<le> e \<and> e < p * 8 + 4 \<and> code_bit (codes ! v) e)
        \<or> p * 8 + 4 \<le> e \<and> e < p * 8 + 8 \<and> code_bit (codes ! v) e"
      unfolding up if_P [OF True]
      by (subst code_bit_unpack_nibble [OF True]) (use assms(4,5) in \<open>simp_all only: length_unpack_nibble bits0 bits1\<close>)
    then show ?thesis using e4 by auto
  next
    case False
    have "dim div 4 * 4 = p * 8 + 4" using False g0 by linarith
    then show ?thesis unfolding up if_not_P [OF False] bits0 by auto
  qed
qed

lemma unpack_pairs_bits:
  assumes "v < num" and "num \<le> 32" and "n \<le> (dim div 4 + 1) div 2"
    and "dim \<le> 64 * length ws" and "e < 64 * length ws"
  shows "length (foldl (unpack_pair (pack_pairs codes num dim @ z) v dim) ws [0..<n]) = length ws
    \<and> (code_bit (foldl (unpack_pair (pack_pairs codes num dim @ z) v dim) ws [0..<n]) e \<longleftrightarrow>
      code_bit ws e \<or> e < n * 8 \<and> e < dim div 4 * 4 \<and> code_bit (codes ! v) e)"
  using assms(3)
proof (induction n)
  case 0
  show ?case by simp
next
  case (Suc n)
  define us where "us = foldl (unpack_pair (pack_pairs codes num dim @ z) v dim) ws [0..<n]"
  have ih: "length us = length ws" "code_bit us e \<longleftrightarrow>
      code_bit ws e \<or> e < n * 8 \<and> e < dim div 4 * 4 \<and> code_bit (codes ! v) e"
    using Suc by (simp_all add: us_def)
  have "code_bit (unpack_pair (pack_pairs codes num dim @ z) v dim us n) e \<longleftrightarrow>
      code_bit us e \<or> n * 8 \<le> e \<and> e < n * 8 + 8 \<and> e < dim div 4 * 4 \<and> code_bit (codes ! v) e"
    by (rule unpack_pair_bits [OF assms(1,2)]) (use Suc.prems assms(4,5) ih(1) in simp_all)
  then have "code_bit (unpack_pair (pack_pairs codes num dim @ z) v dim us n) e \<longleftrightarrow>
      code_bit ws e \<or> e < Suc n * 8 \<and> e < dim div 4 * 4 \<and> code_bit (codes ! v) e"
    using ih(2) by (auto simp: algebra_simps)
  then show ?case using ih(1) by (simp add: us_def [symmetric])
qed

text \<open>Unpacking a vector reads the packed pairs, whatever follows them.\<close>

lemma unpack_packed:
  assumes "num_codes \<le> 32" and "v < num_codes"
  shows "\<exists>words. UnpackSignBitsFromFastScan (pack_pairs codes num_codes dim @ z) v dim = Some words
    \<and> length words = (dim + 63) div 64
    \<and> (\<forall>d < 64 * length words. code_bit words d \<longleftrightarrow> d < dim div 4 * 4 \<and> code_bit (codes ! v) d)"
proof -
  let ?n = "(dim div 4 + 1) div 2"
  define ws where "ws = replicate ((dim + 63) div 64) (0 :: u64)"
  define words where "words = foldl (unpack_pair (pack_pairs codes num_codes dim @ z) v dim) ws [0..<?n]"
  have unpack: "UnpackSignBitsFromFastScan (pack_pairs codes num_codes dim @ z) v dim = Some words"
    using assms by (simp add: UnpackSignBitsFromFastScan_def Let_def length_pack_pairs words_def ws_def)
  have "dim \<le> 64 * ((dim + 63) div 64)" by linarith
  then have dim: "dim \<le> 64 * length ws" by (simp only: ws_def length_replicate)
  have zero: "\<not> code_bit ws e" if "e < 64 * length ws" for e
    using that by (simp add: code_bit_def ws_def less_mult_imp_div_less mult.commute)
  have bits: "length words = length ws \<and> (code_bit words e \<longleftrightarrow> e < dim div 4 * 4 \<and> code_bit (codes ! v) e)"
    if "e < 64 * length ws" for e
  proof -
    have "dim div 4 * 4 \<le> ?n * 8" by linarith
    then show ?thesis
      using unpack_pairs_bits [OF assms(2,1) order_refl dim that, of codes z] zero [OF that]
      unfolding words_def [symmetric] by auto
  qed
  have "length words = (dim + 63) div 64"
  proof (cases "dim = 0")
    case True
    then show ?thesis by (simp add: words_def ws_def)
  next
    case False
    then show ?thesis using bits [of 0] dim by (simp add: ws_def)
  qed
  moreover have "length ws = (dim + 63) div 64" by (simp only: ws_def length_replicate)
  ultimately show ?thesis using unpack bits by metis
qed

text \<open>C28: packing a block of up to 32 codes fills exactly the announced size, and unpacking vector
  \<open>v\<close> gives back its sign bits, for every dimension up to the last full group of four; the bits of
  the last \<open>dim mod 4\<close> dimensions and the padding of the last word come back as zeros.\<close>

theorem fastscan_pack_roundtrip:
  assumes "num_codes \<le> length codes" and "num_codes \<le> 32" and "dim < 536870912"
    and "\<forall>code \<in> set codes. dim \<le> length code * 64" and "v < num_codes"
  shows "\<exists>packed words. PackSignBitsForFastScan codes num_codes dim = Some packed
    \<and> length packed = FastScanPackedSize dim
    \<and> UnpackSignBitsFromFastScan packed v dim = Some words \<and> length words = (dim + 63) div 64
    \<and> (\<forall>d < 64 * length words. code_bit words d \<longleftrightarrow> d < dim div 4 * 4 \<and> code_bit (codes ! v) d)"
proof -
  define z where "z = replicate (FastScanPackedSize dim - (dim div 4 + 1) div 2 * 32) (0 :: u8)"
  have pack: "PackSignBitsForFastScan codes num_codes dim = Some (pack_pairs codes num_codes dim @ z)"
    unfolding z_def by (rule PackSignBits_Some) (use assms in \<open>auto dest: in_set_takeD\<close>)
  have "length (pack_pairs codes num_codes dim @ z) = FastScanPackedSize dim"
    using FastScanPackedSize_enough [OF assms(3)] by (simp add: length_pack_pairs z_def)
  then show ?thesis using pack unpack_packed [OF assms(2,5), of codes dim z] by blast
qed

theorem fastscan_pack_roundtrip_witness:
  "\<exists>packed words. PackSignBitsForFastScan [[5], [10]] 2 8 = Some packed
    \<and> UnpackSignBitsFromFastScan packed 1 8 = Some words \<and> code_bit words 3 \<and> \<not> code_bit words 2"
proof -
  have "code_bit [10] 3" and "\<not> code_bit [10] 2"
    by (simp_all add: code_bit_def)
  moreover have "\<forall>code \<in> set [[5], [10 :: u64]]. 8 \<le> length code * 64" by simp
  moreover obtain packed words where "PackSignBitsForFastScan [[5], [10]] 2 8 = Some packed"
      and u: "UnpackSignBitsFromFastScan packed 1 8 = Some words" and "length words = (8 + 63) div 64"
      and b: "\<forall>d < 64 * length words. code_bit words d \<longleftrightarrow> d < 8 div 4 * 4 \<and> code_bit ([[5], [10]] ! 1) d"
    using fastscan_pack_roundtrip [of 2 "[[5], [10]]" 8 1] calculation(3) by auto
  ultimately show ?thesis by auto
qed

text \<open>With a dimension that is no multiple of four the signs of the last dimensions are lost.\<close>

lemma tail_dimensions_dropped:
  "PackSignBitsForFastScan [[16]] 1 5 = PackSignBitsForFastScan [[0]] 1 5"
proof -
  have "code_nibble [16] 5 0 = code_nibble [0] 5 0"
  proof (rule word_eq_bitsI)
    fix j
    have "\<not> bit (16 :: u64) d" if "d < 4" for d using less4 [OF that] by (elim disjE) simp_all
    then show "bit (code_nibble [16] 5 0) j = bit (code_nibble [0] 5 0) j"
      by (simp add: code_nibble_bits code_bit_def)
  qed
  then have "flat_byte [16] 5 0 = flat_byte [0] 5 0" by (simp add: flat_byte_def)
  then have "flat_matrix [[16]] 1 5 = flat_matrix [[0]] 1 5"
    unfolding flat_matrix_def by (intro arg_cong [where f = concat] map_cong refl) simp
  then show ?thesis by (simp add: PackSignBitsForFastScan_def)
qed

end
