(* ===== verification/Ex_Magnitude.thy ===== *)
theory Ex_Magnitude
  imports Simd_Lanes Rabitq_Config
begin

text \<open>
  The compact storage of the stage-2 magnitudes (the first part of src/simd/ip_exrabitq.cpp after
  its kernels): a vector of small integers, one per dimension, packed as contiguous bit fields, as
  bit planes, as bit-major tiles, as two bits plus one bit, as nibbles or as two-bit columns.

  Every routine zeroes its output and then ORs the bits of each value into it; a value outside the
  width makes it return \<open>false\<close> (\<open>None\<close>; no caller reads the output then).  \<open>decoded\<close> is the list of
  the \<open>count\<close> values passed.  An unpacking routine is given the bytes that its callers point it to.
  The locale \<open>bit_layout\<close> is what all layouts share: where bit \<open>b\<close> of value \<open>i\<close> is stored.
\<close>

section \<open>Sizes\<close>

definition ExRaBitQPackedMagnitudeBytes :: "nat \<Rightarrow> nat \<Rightarrow> nat" where
  "ExRaBitQPackedMagnitudeBytes dim_block bits =
     (if bits < 1 \<or> 4 < bits then 0 else wrap32 (dim_block * bits + 7) div 8)"

definition ExRaBitQBitMajorTileDims :: "nat \<Rightarrow> nat" where
  "ExRaBitQBitMajorTileDims remaining_dims =
     (if remaining_dims = 0 then 0
      else if 256 < remaining_dims then 512
      else if 128 < remaining_dims then 256
      else if 64 < remaining_dims then 128
      else 64)"

text \<open>The loop over the tiles; \<open>bytes\<close> is a 64-bit sum checked against \<open>UINT32_MAX\<close>.\<close>

function tile_vector_bytes :: "nat \<Rightarrow> nat \<Rightarrow> nat \<Rightarrow> nat \<Rightarrow> nat" where
  "tile_vector_bytes bits dim vector_bytes done_dims =
     (if done_dims < dim then
        let tile_dims = ExRaBitQBitMajorTileDims (dim - done_dims);
            vector_bytes' = wrap64 (vector_bytes + bits * (tile_dims div 8))
        in if 4294967295 < vector_bytes' then 0
           else tile_vector_bytes bits dim vector_bytes' (done_dims + min tile_dims (dim - done_dims))
      else vector_bytes)"
  by pat_completeness auto
termination
  by (relation "measure (\<lambda>(bits, dim, vector_bytes, done_dims). dim - done_dims)")
    (auto simp: ExRaBitQBitMajorTileDims_def)

declare tile_vector_bytes.simps [simp del]

definition ExRaBitQBitMajorTileVectorBytes :: "nat \<Rightarrow> nat \<Rightarrow> nat" where
  "ExRaBitQBitMajorTileVectorBytes dim bits =
     (if bits < 1 \<or> 3 < bits then 0 else tile_vector_bytes bits dim 0 0)"

section \<open>Packing loop\<close>

definition or_at :: "bytes \<Rightarrow> nat \<Rightarrow> u8 \<Rightarrow> bytes" where
  "or_at buf k x = buf[k := buf ! k OR x]"

fun pack_each ::
    "(bytes \<Rightarrow> nat \<Rightarrow> u8 \<Rightarrow> bytes) \<Rightarrow> nat \<Rightarrow> u8 list \<Rightarrow> nat \<Rightarrow> bytes \<Rightarrow> bytes option" where
  "pack_each put max_value [] i packed = Some packed"
| "pack_each put max_value (v # vs) i packed =
     (if max_value < unat v then None
      else pack_each put max_value vs (i + 1) (put packed i v))"

text \<open>Bit \<open>b\<close> of \<open>v\<close>, for each \<open>b < bits\<close>, to the byte and shift the layout gives.\<close>

definition put_planes ::
    "(nat \<Rightarrow> nat \<Rightarrow> nat) \<Rightarrow> (nat \<Rightarrow> nat) \<Rightarrow> nat \<Rightarrow> bytes \<Rightarrow> nat \<Rightarrow> u8 \<Rightarrow> bytes" where
  "put_planes byte_of shift_of bits packed i v =
     foldl (\<lambda>buf b. if bit v b then or_at buf (byte_of i b) (push_bit (shift_of i) 1) else buf)
       packed [0..<bits]"

definition get_planes ::
    "(nat \<Rightarrow> nat \<Rightarrow> nat) \<Rightarrow> (nat \<Rightarrow> nat) \<Rightarrow> nat \<Rightarrow> bytes \<Rightarrow> nat \<Rightarrow> u8" where
  "get_planes byte_of shift_of bits packed i =
     foldl (\<lambda>v b. v OR push_bit b (drop_bit (shift_of i) (packed ! byte_of i b) AND 1)) 0 [0..<bits]"

section \<open>Contiguous bit fields\<close>

definition put_quarter :: "bytes \<Rightarrow> nat \<Rightarrow> u8 \<Rightarrow> bytes" where
  "put_quarter packed i v = or_at packed (i div 4) (push_bit (i mod 4 * 2) v)"

definition put_field :: "nat \<Rightarrow> bytes \<Rightarrow> nat \<Rightarrow> u8 \<Rightarrow> bytes" where
  "put_field bits packed i v =
     (let bit_pos = wrap32 (i * bits); byte_pos = bit_pos div 8; bit_off = bit_pos mod 8;
          shifted = push_bit bit_off (ucast v :: u16);
          packed1 = or_at packed byte_pos (ucast (shifted AND 0xFF))
      in if 8 < bit_off + bits then or_at packed1 (byte_pos + 1) (ucast (drop_bit 8 shifted))
         else packed1)"

definition ExRaBitQPackMagnitudes :: "u8 list \<Rightarrow> nat \<Rightarrow> nat \<Rightarrow> bytes option" where
  "ExRaBitQPackMagnitudes decoded bits packed_bytes =
     (let expected_bytes = ExRaBitQPackedMagnitudeBytes (length decoded) bits
      in if expected_bytes = 0 \<or> packed_bytes < expected_bytes then None
         else if bits = 2 then pack_each put_quarter 3 decoded 0 (replicate packed_bytes 0)
         else pack_each (put_field bits) (2 ^ bits - 1) decoded 0 (replicate packed_bytes 0))"

definition get_field :: "nat \<Rightarrow> bytes \<Rightarrow> nat \<Rightarrow> u8" where
  "get_field bits packed i =
     (if bits = 2 then drop_bit (i mod 4 * 2) (packed ! (i div 4)) AND 3
      else if bits = 4 then drop_bit (i mod 2 * 4) (packed ! (i div 2)) AND 15
      else
        let bit_pos = wrap32 (i * bits); byte_pos = bit_pos div 8; bit_off = bit_pos mod 8;
            window = (ucast (packed ! byte_pos) :: u16)
              OR (if 8 < bit_off + bits then push_bit 8 (ucast (packed ! (byte_pos + 1))) else 0)
        in ucast (drop_bit bit_off window AND (push_bit bits 1 - 1)))"

definition UnpackMagnitudesScalar :: "bytes \<Rightarrow> nat \<Rightarrow> nat \<Rightarrow> nat \<Rightarrow> u8 list" where
  "UnpackMagnitudesScalar packed start count bits = map (get_field bits packed) [start..<count]"

text \<open>The instructions of the SIMD paths on a 128-bit register of bytes.\<close>

fun epi16_srli :: "nat \<Rightarrow> bytes \<Rightarrow> bytes" where
  "epi16_srli k (lo # hi # rest) =
     (let w = drop_bit k ((ucast lo :: u16) OR push_bit 8 (ucast hi))
      in ucast w # ucast (drop_bit 8 w) # epi16_srli k rest)"
| "epi16_srli k rest = rest"

definition epi8_and :: "u8 \<Rightarrow> bytes \<Rightarrow> bytes" where
  "epi8_and m bs = map (\<lambda>b. b AND m) bs"

definition unpack_epi8 :: "nat \<Rightarrow> bytes \<Rightarrow> bytes \<Rightarrow> bytes" where
  "unpack_epi8 off a b = concat (map (\<lambda>j. [a ! (off + j), b ! (off + j)]) [0..<8])"

definition unpack_epi16 :: "nat \<Rightarrow> bytes \<Rightarrow> bytes \<Rightarrow> bytes" where
  "unpack_epi16 off a b = concat (map (\<lambda>j. [a ! (off + 2 * j), a ! (off + 2 * j + 1),
     b ! (off + 2 * j), b ! (off + 2 * j + 1)]) [0..<4])"

definition UnpackBits4Simd :: "bytes \<Rightarrow> nat \<Rightarrow> u8 list" where
  "UnpackBits4Simd packed count =
     concat (map (\<lambda>k.
       let bs = slice (k * 16) 16 packed; lo = epi8_and 15 bs; hi = epi8_and 15 (epi16_srli 4 bs)
       in unpack_epi8 0 lo hi @ unpack_epi8 8 lo hi) [0..<count div 32])"

definition UnpackBits2Simd :: "bytes \<Rightarrow> nat \<Rightarrow> u8 list" where
  "UnpackBits2Simd packed count =
     concat (map (\<lambda>k.
       let bs = slice (k * 16) 16 packed;
           v0 = epi8_and 3 bs; v1 = epi8_and 3 (epi16_srli 2 bs);
           v2 = epi8_and 3 (epi16_srli 4 bs); v3 = epi8_and 3 (epi16_srli 6 bs);
           a01_lo = unpack_epi8 0 v0 v1; a01_hi = unpack_epi8 8 v0 v1;
           a23_lo = unpack_epi8 0 v2 v3; a23_hi = unpack_epi8 8 v2 v3
       in unpack_epi16 0 a01_lo a23_lo @ unpack_epi16 8 a01_lo a23_lo
          @ unpack_epi16 0 a01_hi a23_hi @ unpack_epi16 8 a01_hi a23_hi) [0..<count div 64])"

definition ExRaBitQUnpackMagnitudes :: "simd_build \<Rightarrow> bytes \<Rightarrow> nat \<Rightarrow> nat \<Rightarrow> u8 list option" where
  "ExRaBitQUnpackMagnitudes build packed count bits =
     (if bits < 1 \<or> 4 < bits then None
      else
        let decoded = (if \<not> uses_avx2 build then []
               else if bits = 4 then UnpackBits4Simd packed count
               else if bits = 2 then UnpackBits2Simd packed count
               else [])
        in Some (decoded @ (if length decoded < count
             then UnpackMagnitudesScalar packed (length decoded) count bits else [])))"

section \<open>Two bits plus one bit, and three bit planes\<close>

definition put_two_plus_one :: "bytes \<Rightarrow> nat \<Rightarrow> u8 \<Rightarrow> bytes" where
  "put_two_plus_one packed i v =
     (let dst = i div 64 * 24; in_chunk = i mod 64;
          packed1 = or_at packed (dst + in_chunk div 4) (push_bit (in_chunk mod 4 * 2) (v AND 3))
      in if v AND 4 \<noteq> 0
         then or_at packed1 (dst + (16 + in_chunk div 8)) (push_bit (in_chunk mod 8) 1)
         else packed1)"

definition get_two_plus_one :: "bytes \<Rightarrow> nat \<Rightarrow> u8" where
  "get_two_plus_one packed i =
     (let src = i div 64 * 24; in_chunk = i mod 64;
          low = drop_bit (in_chunk mod 4 * 2) (packed ! (src + in_chunk div 4)) AND 3;
          high = drop_bit (in_chunk mod 8) (packed ! (src + (16 + in_chunk div 8))) AND 1
      in low OR push_bit 2 high)"

text \<open>Plane \<open>b\<close> of a 64-dimension chunk of \<open>bytes_per_lane\<close> bytes.\<close>

definition plane_byte :: "nat \<Rightarrow> nat \<Rightarrow> nat \<Rightarrow> nat" where
  "plane_byte bytes_per_lane i b = i div 64 * bytes_per_lane + (b * 8 + i mod 64 div 8)"

definition plane_shift :: "nat \<Rightarrow> nat" where
  "plane_shift i = i mod 64 mod 8"

definition ExRaBitQPackOfficialDirect3 :: "u8 list \<Rightarrow> ex_layout \<Rightarrow> nat \<Rightarrow> bytes option" where
  "ExRaBitQPackOfficialDirect3 decoded layout packed_bytes =
     (let effective = RaBitQResolveSelectedExDataLayout layout;
          chunks = wrap32 (length decoded + 63) div 64; expected_bytes = wrap32 (chunks * 24)
      in if effective \<noteq> kSplit3TwoPlusOne \<and> effective \<noteq> kSplit3Bitplanes then None
         else if chunks = 0 \<or> packed_bytes < expected_bytes then None
         else pack_each (if effective = kSplit3TwoPlusOne then put_two_plus_one
                         else put_planes (plane_byte 24) plane_shift 3)
                7 decoded 0 (replicate packed_bytes 0))"

definition ExRaBitQUnpackOfficialDirect3 :: "bytes \<Rightarrow> nat \<Rightarrow> ex_layout \<Rightarrow> u8 list option" where
  "ExRaBitQUnpackOfficialDirect3 packed count layout =
     (let effective = RaBitQResolveSelectedExDataLayout layout
      in if effective \<noteq> kSplit3TwoPlusOne \<and> effective \<noteq> kSplit3Bitplanes then None
         else Some (map (if effective = kSplit3TwoPlusOne then get_two_plus_one packed
                         else get_planes (plane_byte 24) plane_shift 3 packed) [0..<count]))"

section \<open>Bit planes of one to four bits\<close>

definition ExRaBitQPackOfficialDirectBitplanes :: "u8 list \<Rightarrow> nat \<Rightarrow> nat \<Rightarrow> bytes option" where
  "ExRaBitQPackOfficialDirectBitplanes decoded bits packed_bytes =
     (let chunks = wrap32 (length decoded + 63) div 64;
          bytes_per_lane = ExRaBitQPackedMagnitudeBytes 64 bits;
          expected_bytes = wrap32 (chunks * bytes_per_lane)
      in if bits < 1 \<or> 4 < bits then None
         else if chunks = 0 \<or> bytes_per_lane = 0 \<or> packed_bytes < expected_bytes then None
         else pack_each (put_planes (plane_byte bytes_per_lane) plane_shift bits) (2 ^ bits - 1)
                decoded 0 (replicate packed_bytes 0))"

definition ExRaBitQUnpackOfficialDirectBitplanes :: "bytes \<Rightarrow> nat \<Rightarrow> nat \<Rightarrow> u8 list option" where
  "ExRaBitQUnpackOfficialDirectBitplanes packed count bits =
     (let bytes_per_lane = ExRaBitQPackedMagnitudeBytes 64 bits
      in if bits < 1 \<or> 4 < bits then None
         else if bytes_per_lane = 0 then None
         else Some (map (get_planes (plane_byte bytes_per_lane) plane_shift bits packed) [0..<count]))"

section \<open>Bit-major tiles\<close>

text \<open>Plane \<open>b\<close> of a tile.  \<open>tile\<close> is the rest of the buffer from the current tile on.\<close>

definition tile_byte :: "nat \<Rightarrow> nat \<Rightarrow> nat \<Rightarrow> nat" where
  "tile_byte plane_bytes i b = b * plane_bytes + i div 8"

definition tile_shift :: "nat \<Rightarrow> nat" where
  "tile_shift i = i mod 8"

function pack_tiles :: "nat \<Rightarrow> u8 list \<Rightarrow> bytes \<Rightarrow> bytes option" where
  "pack_tiles bits decoded tile =
     (if decoded = [] then Some tile
      else
        let tile_dims = ExRaBitQBitMajorTileDims (length decoded); plane_bytes = tile_dims div 8;
            remaining = min tile_dims (length decoded)
        in case pack_each (put_planes (tile_byte plane_bytes) tile_shift bits) (2 ^ bits - 1)
                  (take remaining decoded) 0 tile of
             None \<Rightarrow> None
           | Some t \<Rightarrow>
               (case pack_tiles bits (drop remaining decoded) (drop (bits * plane_bytes) t) of
                  None \<Rightarrow> None
                | Some rest \<Rightarrow> Some (take (bits * plane_bytes) t @ rest)))"
  by pat_completeness auto
termination
  by (relation "measure (\<lambda>(bits, decoded, tile). length decoded)")
    (auto simp: ExRaBitQBitMajorTileDims_def)

declare pack_tiles.simps [simp del]

definition ExRaBitQPackOfficialBitMajorTiles :: "u8 list \<Rightarrow> nat \<Rightarrow> nat \<Rightarrow> bytes option" where
  "ExRaBitQPackOfficialBitMajorTiles decoded bits packed_bytes =
     (let expected_bytes = ExRaBitQBitMajorTileVectorBytes (length decoded) bits
      in if bits < 1 \<or> 3 < bits then None
         else if expected_bytes = 0 \<or> packed_bytes < expected_bytes then None
         else pack_tiles bits decoded (replicate packed_bytes 0))"

function unpack_tiles :: "nat \<Rightarrow> nat \<Rightarrow> bytes \<Rightarrow> u8 list" where
  "unpack_tiles bits count tile =
     (if 0 < count then
        let tile_dims = ExRaBitQBitMajorTileDims count; plane_bytes = tile_dims div 8;
            remaining = min tile_dims count
        in map (get_planes (tile_byte plane_bytes) tile_shift bits tile) [0..<remaining]
           @ unpack_tiles bits (count - remaining) (drop (bits * plane_bytes) tile)
      else [])"
  by pat_completeness auto
termination
  by (relation "measure (\<lambda>(bits, count, tile). count)") (auto simp: ExRaBitQBitMajorTileDims_def)

declare unpack_tiles.simps [simp del]

definition ExRaBitQUnpackOfficialBitMajorTiles :: "bytes \<Rightarrow> nat \<Rightarrow> nat \<Rightarrow> u8 list option" where
  "ExRaBitQUnpackOfficialBitMajorTiles packed count bits =
     (if bits < 1 \<or> 3 < bits then None else Some (unpack_tiles bits count packed))"

section \<open>Nibbles and two-bit columns\<close>

definition put_nibble4 :: "bytes \<Rightarrow> nat \<Rightarrow> u8 \<Rightarrow> bytes" where
  "put_nibble4 packed i v =
     (let in_group = i mod 16
      in or_at packed (i div 16 * 8 + in_group mod 8) (push_bit (if 8 \<le> in_group then 4 else 0) v))"

definition get_nibble4 :: "bytes \<Rightarrow> nat \<Rightarrow> u8" where
  "get_nibble4 packed i =
     (let in_group = i mod 16
      in drop_bit (if 8 \<le> in_group then 4 else 0) (packed ! (i div 16 * 8 + in_group mod 8)) AND 15)"

definition ExRaBitQPackOfficialNibble4 :: "u8 list \<Rightarrow> nat \<Rightarrow> bytes option" where
  "ExRaBitQPackOfficialNibble4 decoded packed_bytes =
     (let groups = wrap32 (length decoded + 15) div 16; expected_bytes = wrap32 (groups * 8)
      in if groups = 0 \<or> packed_bytes < expected_bytes then None
         else pack_each put_nibble4 15 decoded 0 (replicate packed_bytes 0))"

definition ExRaBitQUnpackOfficialNibble4 :: "bytes \<Rightarrow> nat \<Rightarrow> u8 list option" where
  "ExRaBitQUnpackOfficialNibble4 packed count = Some (map (get_nibble4 packed) [0..<count])"

definition put_two_bit :: "bytes \<Rightarrow> nat \<Rightarrow> u8 \<Rightarrow> bytes" where
  "put_two_bit packed i v =
     (let in_block = i mod 64; sub = in_block div 16; in_sub = in_block mod 16
      in or_at packed (i div 64 * 16 + in_sub) (push_bit (sub * 2) v))"

definition get_two_bit :: "bytes \<Rightarrow> nat \<Rightarrow> u8" where
  "get_two_bit packed i =
     (let in_block = i mod 64; sub = in_block div 16; in_sub = in_block mod 16
      in drop_bit (sub * 2) (packed ! (i div 64 * 16 + in_sub)) AND 3)"

definition ExRaBitQPackOfficial2Bit :: "u8 list \<Rightarrow> nat \<Rightarrow> bytes option" where
  "ExRaBitQPackOfficial2Bit decoded packed_bytes =
     (let blocks = wrap32 (length decoded + 63) div 64; expected_bytes = wrap32 (blocks * 16)
      in if blocks = 0 \<or> packed_bytes < expected_bytes then None
         else pack_each put_two_bit 3 decoded 0 (replicate packed_bytes 0))"

definition ExRaBitQUnpackOfficial2Bit :: "bytes \<Rightarrow> nat \<Rightarrow> u8 list option" where
  "ExRaBitQUnpackOfficial2Bit packed count = Some (map (get_two_bit packed) [0..<count])"

section \<open>A batch block\<close>

text \<open>The lanes of a block one after the other; \<open>None\<close> is the answer \<open>false\<close>.\<close>

fun unpack_lanes ::
    "simd_build \<Rightarrow> bytes \<Rightarrow> nat \<Rightarrow> nat \<Rightarrow> nat \<Rightarrow> nat list \<Rightarrow> u8 list option" where
  "unpack_lanes build packed lane_bytes dim_block bits [] = Some []"
| "unpack_lanes build packed lane_bytes dim_block bits (k # ks) =
     (case ExRaBitQUnpackMagnitudes build (slice (k * lane_bytes) lane_bytes packed) dim_block bits of
        None \<Rightarrow> None
      | Some vs \<Rightarrow>
          (case unpack_lanes build packed lane_bytes dim_block bits ks of
             None \<Rightarrow> None
           | Some rest \<Rightarrow> Some (vs @ rest)))"

definition ExRaBitQDecodePackedBatchBlockMagnitudes ::
    "simd_build \<Rightarrow> bytes \<Rightarrow> nat \<Rightarrow> nat \<Rightarrow> nat \<Rightarrow> nat \<Rightarrow> nat \<Rightarrow> u8 list option" where
  "ExRaBitQDecodePackedBatchBlockMagnitudes build packed num_dim_blocks batch_size dim_block
      abs_bytes_per_lane bits =
     (if num_dim_blocks = 0 \<or> batch_size = 0 \<or> dim_block = 0 then None
      else if ExRaBitQPackedMagnitudeBytes dim_block bits \<noteq> abs_bytes_per_lane then None
      else unpack_lanes build packed abs_bytes_per_lane dim_block bits
             [0..<num_dim_blocks * batch_size])"

section \<open>What the layouts share\<close>

lemma length_or_at [simp]: "length (or_at buf k x) = length buf"
  by (simp add: or_at_def)

lemma stream_bit_or_at [bit_stream]:
  assumes "p < 8 * length buf"
  shows "stream_bit (or_at buf k x) p \<longleftrightarrow> stream_bit buf p \<or> p div 8 = k \<and> bit x (p mod 8)"
proof -
  have "p div 8 < length buf" using assms by (simp add: less_mult_imp_div_less mult.commute)
  then show ?thesis by (cases "p div 8 = k") (auto simp: stream_bit_def or_at_def bit_or_iff)
qed

lemma length_put_planes [simp]: "length (put_planes byte_of shift_of bits packed i v) = length packed"
  unfolding put_planes_def by (induction bits) (simp_all add: Let_def)

lemma bit_pow2_byte: "bit (push_bit s (1 :: u8)) q \<longleftrightarrow> q = s \<and> s < 8"
proof -
  have "bit (push_bit s (1 :: u8)) q \<longleftrightarrow> s \<le> q \<and> q < 8 \<and> q - s = 0"
    by (simp only: bit_push_bit_iff bit_1_iff) auto
  then show ?thesis by auto
qed

lemma stream_bit_put_planes:
  assumes "p < 8 * length packed" and "shift_of i < 8"
  shows "stream_bit (put_planes byte_of shift_of bits packed i v) p \<longleftrightarrow>
    stream_bit packed p \<or> (\<exists>b < bits. p = byte_of i b * 8 + shift_of i \<and> bit v b)"
proof (induction bits)
  case 0
  show ?case by (simp add: put_planes_def)
next
  case (Suc n)
  have pos: "p div 8 = byte_of i n \<and> p mod 8 = shift_of i \<longleftrightarrow> p = byte_of i n * 8 + shift_of i"
  proof
    assume "p div 8 = byte_of i n \<and> p mod 8 = shift_of i"
    then show "p = byte_of i n * 8 + shift_of i" using div_mult_mod_eq [of p 8] by metis
  qed (use assms(2) in auto)
  have "put_planes byte_of shift_of (Suc n) packed i v =
      (let buf = put_planes byte_of shift_of n packed i v
       in if bit v n then or_at buf (byte_of i n) (push_bit (shift_of i) 1) else buf)"
    by (simp add: put_planes_def Let_def)
  then have "stream_bit (put_planes byte_of shift_of (Suc n) packed i v) p \<longleftrightarrow>
      stream_bit (put_planes byte_of shift_of n packed i v) p
      \<or> bit v n \<and> p = byte_of i n * 8 + shift_of i"
    using assms pos by (simp add: Let_def stream_bit_or_at bit_pow2_byte del: push_bit_of_1)
  then show ?case using Suc.IH less_Suc_eq by metis
qed

lemma bit_get_planes:
  assumes "shift_of i < 8" and "bits \<le> 8"
  shows "bit (get_planes byte_of shift_of bits packed i) b \<longleftrightarrow>
    b < bits \<and> stream_bit packed (byte_of i b * 8 + shift_of i)"
  using assms(2)
proof (induction bits)
  case 0
  show ?case by (simp add: get_planes_def)
next
  case (Suc n)
  have one: "bit (push_bit n (drop_bit (shift_of i) (packed ! byte_of i n) AND 1)) b \<longleftrightarrow>
      b = n \<and> bit (packed ! byte_of i n) (shift_of i)"
    using Suc.prems
    by (simp only: bit_push_bit_iff bit_AND_1 bit_drop_bit_eq o_def) (auto simp: bit_AND_1)
  have here: "bit (packed ! byte_of i n) (shift_of i) \<longleftrightarrow> stream_bit packed (byte_of i n * 8 + shift_of i)"
    using assms(1) by (simp add: stream_bit_def)
  have "get_planes byte_of shift_of (Suc n) packed i =
      get_planes byte_of shift_of n packed i
      OR push_bit n (drop_bit (shift_of i) (packed ! byte_of i n) AND 1)"
    by (simp add: get_planes_def)
  then have "bit (get_planes byte_of shift_of (Suc n) packed i) b \<longleftrightarrow>
      bit (get_planes byte_of shift_of n packed i) b
      \<or> b = n \<and> stream_bit packed (byte_of i n * 8 + shift_of i)"
    by (simp only: bit_or_iff one here)
  then show ?case using Suc by (auto simp: less_Suc_eq)
qed

text \<open>A value that passes the check has no bits beyond the width.\<close>

lemma byte_fits: "unat (v :: u8) < 2 ^ w \<Longrightarrow> bit v b \<Longrightarrow> b < w"
proof (rule ccontr)
  assume "unat v < 2 ^ w" and b: "bit v b" and "\<not> b < w"
  then have "unat v < 2 ^ b" by (meson less_le_trans linorder_not_less one_le_numeral power_increasing)
  moreover have "2 ^ b \<le> unat v"
  proof -
    have "bit (unat v) b" using b by (simp add: bit_unsigned_iff)
    then show ?thesis by (metis bit_iff_odd div_less even_zero linorder_not_less)
  qed
  ultimately show False by simp
qed

text \<open>
  A layout puts bit \<open>b\<close> of value \<open>i\<close> at bit position \<open>pos w i b\<close> of the buffer, no two at the same
  place, and its reading routine collects them again.  \<open>ok w n\<close>: the widths and counts it is
  meant for; \<open>size_of w n\<close>: the bytes it needs.
\<close>

locale bit_layout =
  fixes ok :: "nat \<Rightarrow> nat \<Rightarrow> bool"
    and size_of :: "nat \<Rightarrow> nat \<Rightarrow> nat"
    and pos :: "nat \<Rightarrow> nat \<Rightarrow> nat \<Rightarrow> nat"
    and put :: "nat \<Rightarrow> bytes \<Rightarrow> nat \<Rightarrow> u8 \<Rightarrow> bytes"
    and get :: "nat \<Rightarrow> bytes \<Rightarrow> nat \<Rightarrow> u8"
  assumes pos_bound: "ok w n \<Longrightarrow> i < n \<Longrightarrow> b < w \<Longrightarrow> pos w i b < 8 * size_of w n"
    and pos_inj: "ok w n \<Longrightarrow> i < n \<Longrightarrow> j < n \<Longrightarrow> b < w \<Longrightarrow> c < w \<Longrightarrow> pos w i b = pos w j c
      \<Longrightarrow> i = j \<and> b = c"
    and put_length: "length (put w buf i v) = length buf"
    and put_bits: "ok w n \<Longrightarrow> i < n \<Longrightarrow> size_of w n \<le> length buf \<Longrightarrow> unat v < 2 ^ w
      \<Longrightarrow> p < 8 * length buf
      \<Longrightarrow> stream_bit (put w buf i v) p \<longleftrightarrow> stream_bit buf p \<or> (\<exists>b < w. p = pos w i b \<and> bit v b)"
    and get_bits: "ok w n \<Longrightarrow> i < n \<Longrightarrow> size_of w n \<le> length buf
      \<Longrightarrow> bit (get w buf i) b \<longleftrightarrow> b < w \<and> stream_bit buf (pos w i b)"
begin

lemma pack_each_some:
  assumes "ok w n" and "k + length vs \<le> n" and "size_of w n \<le> length buf"
    and "\<forall>v \<in> set vs. unat v < 2 ^ w"
  shows "\<exists>out. pack_each (put w) (2 ^ w - 1) vs k buf = Some out \<and> length out = length buf
    \<and> (\<forall>p < 8 * length buf. stream_bit out p \<longleftrightarrow> stream_bit buf p
        \<or> (\<exists>i < length vs. \<exists>b < w. p = pos w (k + i) b \<and> bit (vs ! i) b))"
  using assms(2,3,4)
proof (induction vs arbitrary: k buf)
  case Nil
  show ?case by simp
next
  case (Cons v vs)
  let ?buf = "put w buf k v"
  have len: "length ?buf = length buf" by (rule put_length)
  obtain out where out: "pack_each (put w) (2 ^ w - 1) vs (k + 1) ?buf = Some out"
      "length out = length buf"
    and bits: "\<And>p. p < 8 * length buf \<Longrightarrow> stream_bit out p \<longleftrightarrow> stream_bit ?buf p
        \<or> (\<exists>i < length vs. \<exists>b < w. p = pos w (k + 1 + i) b \<and> bit (vs ! i) b)"
    using Cons.IH [of "k + 1" ?buf] Cons.prems len by auto
  have fit: "unat v < 2 ^ w" using Cons.prems by simp
  then have "\<not> 2 ^ w - 1 < unat v" by linarith
  then have "pack_each (put w) (2 ^ w - 1) (v # vs) k buf = Some out" using out(1) by simp
  moreover have "stream_bit out p \<longleftrightarrow> stream_bit buf p
      \<or> (\<exists>i < length (v # vs). \<exists>b < w. p = pos w (k + i) b \<and> bit ((v # vs) ! i) b)"
    if p: "p < 8 * length buf" for p
  proof -
    have "stream_bit ?buf p \<longleftrightarrow> stream_bit buf p \<or> (\<exists>b < w. p = pos w k b \<and> bit v b)"
      using put_bits [OF assms(1) _ _ fit p, of k] Cons.prems by simp
    then show ?thesis unfolding bits [OF p] by (simp add: Ex_less_Suc2)
  qed
  ultimately show ?case using out(2) by blast
qed

lemma pack_each_none:
  assumes "\<exists>v \<in> set vs. \<not> unat v < 2 ^ w"
  shows "pack_each (put w) (2 ^ w - 1) vs k buf = None"
  using assms
proof (induction vs arbitrary: k buf)
  case Nil
  then show ?case by simp
next
  case (Cons v vs)
  show ?case
  proof (cases "unat v < 2 ^ w")
    case True
    then show ?thesis using Cons by auto
  next
    case False
    then have "2 ^ w - 1 < unat v" using zero_less_power [of "2 :: nat" w] by linarith
    then show ?thesis by simp
  qed
qed

text \<open>Packing into a zeroed buffer succeeds exactly when every value fits, and reading returns
  the values.\<close>

lemma roundtrip:
  assumes "ok w (length vs)" and "size_of w (length vs) \<le> m" and "\<forall>v \<in> set vs. unat v < 2 ^ w"
  shows "\<exists>out. pack_each (put w) (2 ^ w - 1) vs 0 (replicate m 0) = Some out \<and> length out = m
    \<and> map (get w out) [0..<length vs] = vs"
proof -
  let ?n = "length vs"
  obtain out where out: "pack_each (put w) (2 ^ w - 1) vs 0 (replicate m 0) = Some out" "length out = m"
    and bits: "\<And>p. p < 8 * m \<Longrightarrow> stream_bit out p \<longleftrightarrow>
        (\<exists>i < ?n. \<exists>b < w. p = pos w i b \<and> bit (vs ! i) b)"
    using pack_each_some [OF assms(1), of 0 vs "replicate m 0"] assms(2,3)
    by (auto simp: stream_bit_replicate0)
  have "get w out i = vs ! i" if i: "i < ?n" for i
  proof (rule bit_word_eqI)
    fix b
    have "bit (get w out i) b \<longleftrightarrow> b < w \<and> stream_bit out (pos w i b)"
      by (rule get_bits [OF assms(1) i]) (use assms(2) out(2) in simp)
    also have "\<dots> \<longleftrightarrow> b < w \<and> bit (vs ! i) b"
    proof (cases "b < w")
      case True
      have "pos w i b < 8 * m" using pos_bound [OF assms(1) i True] assms(2) by linarith
      then have "stream_bit out (pos w i b) \<longleftrightarrow> bit (vs ! i) b"
        unfolding bits [OF \<open>pos w i b < 8 * m\<close>] using pos_inj [OF assms(1) i _ True] i True by blast
      then show ?thesis by simp
    qed simp
    also have "\<dots> \<longleftrightarrow> bit (vs ! i) b"
      using byte_fits [of "vs ! i" w b] assms(3) i by auto
    finally show "bit (get w out i) b \<longleftrightarrow> bit (vs ! i) b" .
  qed
  then have "map (get w out) [0..<?n] = vs" by (intro nth_equalityI) simp_all
  with out show ?thesis by blast
qed

end

section \<open>The layouts\<close>

lemma ExRaBitQPackedMagnitudeBytes_64 [simp]:
  "1 \<le> w \<Longrightarrow> w \<le> 4 \<Longrightarrow> ExRaBitQPackedMagnitudeBytes 64 w = 8 * w"
  by (simp add: ExRaBitQPackedMagnitudeBytes_def)

lemma widths4: "1 \<le> w \<Longrightarrow> w \<le> 4 \<Longrightarrow> w = 1 \<or> w = 2 \<or> w = 3 \<or> w = (4 :: nat)"
  by arith

lemma mixed_radix_inj:
  fixes a b c d m :: nat
  assumes "a * m + b = c * m + d" and "b < m" and "d < m"
  shows "a = c \<and> b = d"
proof -
  have "(a * m + b) div m = a" and "(c * m + d) div m = c"
    and "(a * m + b) mod m = b" and "(c * m + d) mod m = d"
    using assms(2,3) by simp_all
  then show ?thesis using assms(1) by simp
qed

lemma mixed_radix_bound:
  fixes a c m r :: nat
  assumes "a + 1 \<le> c" and "r < m"
  shows "a * m + r < c * m"
proof -
  have "(a + 1) * m \<le> c * m" using assms(1) by (rule mult_le_mono1)
  then show ?thesis using assms(2) by simp
qed

lemma div_ceil_bound: "i < n \<Longrightarrow> i div m + 1 \<le> (n + (m - 1)) div m" if "0 < m" for i n m :: nat
proof -
  assume "i < n"
  then have "(i + m) div m \<le> (n + (m - 1)) div m" using that by (intro div_le_mono) linarith
  moreover have "(i + m) div m = i div m + 1" using that by (subst div_add_self2) simp_all
  ultimately show ?thesis by simp
qed

lemma div_mod_inj: "i div m = j div m \<Longrightarrow> i mod m = j mod m \<Longrightarrow> i = (j :: nat)"
  by (metis div_mult_mod_eq)

text \<open>Bit planes of a 64-dimension chunk: bit \<open>b\<close> of value \<open>i\<close> at \<open>64 b\<close> beyond the chunk.\<close>

lemma plane_pos:
  "plane_byte (8 * w) i b * 8 + plane_shift i = i div 64 * (64 * w) + (b * 64 + i mod 64)"
proof -
  have "plane_byte (8 * w) i b * 8 + plane_shift i =
      i div 64 * (64 * w) + b * 64 + (i mod 64 div 8 * 8 + i mod 64 mod 8)"
    unfolding plane_byte_def plane_shift_def by (simp add: algebra_simps)
  then show ?thesis by (simp only: div_mult_mod_eq add.assoc)
qed

lemma plane_shift_bound [simp]: "plane_shift i < 8" "tile_shift i < 8"
  by (simp_all add: plane_shift_def tile_shift_def)

lemma plane_pos_bound:
  fixes b w i :: nat
  assumes "b < w"
  shows "b * 64 + i mod 64 < 64 * w"
  using mixed_radix_bound [of b w "i mod 64" 64] assms by simp

interpretation planes: bit_layout
  "\<lambda>w n. 1 \<le> w \<and> w \<le> 4 \<and> n < 1073741824"
  "\<lambda>w n. (n + 63) div 64 * (8 * w)"
  "\<lambda>w i b. i div 64 * (64 * w) + (b * 64 + i mod 64)"
  "\<lambda>w. put_planes (plane_byte (8 * w)) plane_shift w"
  "\<lambda>w. get_planes (plane_byte (8 * w)) plane_shift w"
proof (unfold_locales, goal_cases)
  case (1 w n i b)
  have "i div 64 * (64 * w) + (b * 64 + i mod 64) < (n + 63) div 64 * (64 * w)"
    using div_ceil_bound [of 64 i n] 1(2) plane_pos_bound [OF 1(3), of i]
    by (intro mixed_radix_bound) simp_all
  also have "\<dots> = 8 * ((n + 63) div 64 * (8 * w))" by simp
  finally show ?case .
next
  case (2 w n i j b c)
  have "i div 64 = j div 64 \<and> b * 64 + i mod 64 = c * 64 + j mod 64"
    by (rule mixed_radix_inj [OF 2(6) plane_pos_bound [OF 2(4)] plane_pos_bound [OF 2(5)]])
  moreover from this have "b = c \<and> i mod 64 = j mod 64"
    by (intro mixed_radix_inj [of b 64]) auto
  ultimately show ?case using div_mod_inj [of i 64 j] by simp
next
  case (3 w buf i v)
  show ?case by simp
next
  case (4 w n i buf v p)
  show ?case
    by (subst stream_bit_put_planes) (use 4 in \<open>simp_all add: plane_pos\<close>)
next
  case (5 w n i buf b)
  show ?case
    by (subst bit_get_planes) (use 5 in \<open>simp_all add: plane_pos\<close>)
qed

text \<open>One tile: plane \<open>b\<close> of a tile of \<open>8 * plane_bytes\<close> dimensions.\<close>

lemma tile_pos: "tile_byte pb i b * 8 + tile_shift i = b * (8 * pb) + i"
proof -
  have "tile_byte pb i b * 8 + tile_shift i = b * (8 * pb) + (i div 8 * 8 + i mod 8)"
    by (simp add: tile_byte_def tile_shift_def algebra_simps)
  then show ?thesis by (simp only: div_mult_mod_eq)
qed

interpretation tile: bit_layout
  "\<lambda>w n. w \<le> 8 \<and> n \<le> 8 * pb" "\<lambda>w n. w * pb" "\<lambda>w i b. b * (8 * pb) + i"
  "\<lambda>w. put_planes (tile_byte pb) tile_shift w" "\<lambda>w. get_planes (tile_byte pb) tile_shift w"
  for pb
proof (unfold_locales, goal_cases)
  case (1 w n i b)
  have "(b + 1) * (8 * pb) \<le> w * (8 * pb)" using 1(3) by (intro mult_le_mono1) simp
  then show ?case using 1 by (simp add: algebra_simps)
next
  case (2 w n i j b c)
  have "b = c \<and> i = j" by (rule mixed_radix_inj [OF 2(6)]) (use 2 in auto)
  then show ?case by simp
next
  case (3 w buf i v)
  show ?case by simp
next
  case (4 w n i buf v p)
  show ?case by (subst stream_bit_put_planes) (use 4 in \<open>simp_all add: tile_pos\<close>)
next
  case (5 w n i buf b)
  show ?case by (subst bit_get_planes) (use 5 in \<open>simp_all add: tile_pos\<close>)
qed

text \<open>Nibbles and two-bit columns OR the whole value in, shifted.\<close>

lemma bit_low4: "bit (x AND 15 :: u8) i \<longleftrightarrow> i < 4 \<and> bit x i"
proof -
  have "(15 :: u8) = mask 4" by (simp add: mask_eq_exp_minus_1)
  then show ?thesis by (simp only: bit_and_iff bit_mask_iff) (auto dest: bit_imp_le_length)
qed

lemma bit_low2: "bit (x AND 3 :: u8) i \<longleftrightarrow> i < 2 \<and> bit x i"
proof -
  have "(3 :: u8) = mask 2" by (simp add: mask_eq_exp_minus_1)
  then show ?thesis by (simp only: bit_and_iff bit_mask_iff) (auto dest: bit_imp_le_length)
qed

lemma or_at_field:
  fixes v :: u8
  assumes "unat v < 2 ^ w" and "s + w \<le> 8" and "p < 8 * length buf"
  shows "stream_bit (or_at buf k (push_bit s v)) p \<longleftrightarrow>
    stream_bit buf p \<or> (\<exists>b < w. p = k * 8 + (s + b) \<and> bit v b)"
proof -
  have "p div 8 = k \<and> bit (push_bit s v) (p mod 8) \<longleftrightarrow> (\<exists>b < w. p = k * 8 + (s + b) \<and> bit v b)"
  proof
    assume l: "p div 8 = k \<and> bit (push_bit s v) (p mod 8)"
    then have le: "s \<le> p mod 8" and b: "bit v (p mod 8 - s)" by (auto simp: bit_push_bit_iff)
    have "p = k * 8 + (s + (p mod 8 - s))" using l le div_mult_mod_eq [of p 8] by auto
    with byte_fits [OF assms(1) b] b show "\<exists>b < w. p = k * 8 + (s + b) \<and> bit v b" by blast
  next
    assume "\<exists>b < w. p = k * 8 + (s + b) \<and> bit v b"
    then obtain b where b: "b < w" "p = k * 8 + (s + b)" "bit v b" by blast
    then have "p div 8 = k" and "p mod 8 = s + b" using assms(2) by auto
    then show "p div 8 = k \<and> bit (push_bit s v) (p mod 8)"
      using b assms(2) by (simp add: bit_push_bit_iff)
  qed
  then show ?thesis by (simp add: stream_bit_or_at [OF assms(3)])
qed

lemma stream_bit_byte: "s + b < 8 \<Longrightarrow> stream_bit buf (k * 8 + (s + b)) \<longleftrightarrow> bit (buf ! k) (s + b)"
  by (simp add: stream_bit_def)

definition nibble_shift :: "nat \<Rightarrow> nat" where
  "nibble_shift i = (if 8 \<le> i mod 16 then 4 else 0)"

definition nibble_byte :: "nat \<Rightarrow> nat" where
  "nibble_byte i = i div 16 * 8 + i mod 16 mod 8"

lemma nibble_inj: "nibble_byte i = nibble_byte j \<Longrightarrow> nibble_shift i = nibble_shift j \<Longrightarrow> i = j"
proof -
  assume a: "nibble_byte i = nibble_byte j" and b: "nibble_shift i = nibble_shift j"
  have q: "i div 16 = j div 16 \<and> i mod 16 mod 8 = j mod 16 mod 8"
    using a unfolding nibble_byte_def by (rule mixed_radix_inj) simp_all
  from b have "8 \<le> i mod 16 \<longleftrightarrow> 8 \<le> j mod 16" by (simp add: nibble_shift_def split: if_splits)
  moreover have x: "x mod 16 div 8 = (if 8 \<le> x mod 16 then 1 else 0)" for x :: nat
  proof -
    have "x mod 16 < 16" by simp
    then show ?thesis by (cases "8 \<le> x mod 16") (auto intro!: div_nat_eqI)
  qed
  ultimately have "i mod 16 div 8 = j mod 16 div 8" by simp
  with q have "i mod 16 = j mod 16" by (metis div_mult_mod_eq)
  with q show "i = j" by (metis div_mult_mod_eq)
qed

interpretation nibbles: bit_layout
  "\<lambda>w n. w = 4 \<and> n < 1073741824" "\<lambda>w n. (n + 15) div 16 * 8"
  "\<lambda>w i b. nibble_byte i * 8 + (nibble_shift i + b)" "\<lambda>w. put_nibble4" "\<lambda>w. get_nibble4"
proof (unfold_locales, goal_cases)
  case (1 w n i b)
  have "nibble_byte i < (n + 15) div 16 * 8"
    using div_ceil_bound [of 16 i n] 1(2) unfolding nibble_byte_def
    by (intro mixed_radix_bound) simp_all
  then have "nibble_byte i * 8 + (nibble_shift i + b) < (n + 15) div 16 * 8 * 8"
    using 1 by (intro mixed_radix_bound) (simp_all add: nibble_shift_def)
  then show ?case by simp
next
  case (2 w n i j b c)
  have s: "nibble_shift i + b < 8" "nibble_shift j + c < 8" using 2 by (simp_all add: nibble_shift_def)
  have e: "nibble_byte i = nibble_byte j \<and> nibble_shift i + b = nibble_shift j + c"
    by (rule mixed_radix_inj [OF 2(6) s])
  then have "nibble_shift i = nibble_shift j" using 2 by (auto simp: nibble_shift_def split: if_splits)
  with e nibble_inj [of i j] show ?case by simp
next
  case (3 w buf i v)
  show ?case by (simp add: put_nibble4_def Let_def)
next
  case (4 w n i buf v p)
  have "put_nibble4 buf i v = or_at buf (nibble_byte i) (push_bit (nibble_shift i) v)"
    by (simp add: put_nibble4_def Let_def nibble_byte_def nibble_shift_def)
  then show ?case using 4 by (simp only:) (subst or_at_field, auto simp: nibble_shift_def)
next
  case (5 w n i buf b)
  have "get_nibble4 buf i = drop_bit (nibble_shift i) (buf ! nibble_byte i) AND 15"
    by (simp add: get_nibble4_def Let_def nibble_byte_def nibble_shift_def)
  moreover have "nibble_shift i + b < 8" if "b < 4" using that by (simp add: nibble_shift_def)
  ultimately show ?case using 5 stream_bit_byte [of "nibble_shift i" b buf "nibble_byte i"]
    by (simp only: bit_low4 bit_drop_bit_eq o_def) blast
qed
text \<open>Two-bit columns: 16 columns of four values in a 64-dimension block.\<close>

definition column_byte :: "nat \<Rightarrow> nat" where
  "column_byte i = i div 64 * 16 + i mod 64 mod 16"

definition column_shift :: "nat \<Rightarrow> nat" where
  "column_shift i = i mod 64 div 16 * 2"

lemma column_inj: "column_byte i = column_byte j \<Longrightarrow> column_shift i = column_shift j \<Longrightarrow> i = j"
proof -
  assume a: "column_byte i = column_byte j" and b: "column_shift i = column_shift j"
  have q: "i div 64 = j div 64 \<and> i mod 64 mod 16 = j mod 64 mod 16"
    using a unfolding column_byte_def by (rule mixed_radix_inj) simp_all
  from b have "i mod 64 div 16 = j mod 64 div 16" by (simp add: column_shift_def)
  with q have "i mod 64 = j mod 64" using div_mod_inj [of "i mod 64" 16 "j mod 64"] by blast
  with q show "i = j" using div_mod_inj [of i 64 j] by blast
qed

lemma column_shift_bound: "b < 2 \<Longrightarrow> column_shift i + b < 8"
proof -
  have "i mod 64 div 16 < 4" by (rule less_mult_imp_div_less) simp
  then show "b < 2 \<Longrightarrow> column_shift i + b < 8" unfolding column_shift_def by linarith
qed

interpretation columns: bit_layout
  "\<lambda>w n. w = 2 \<and> n < 1073741824" "\<lambda>w n. (n + 63) div 64 * 16"
  "\<lambda>w i b. column_byte i * 8 + (column_shift i + b)" "\<lambda>w. put_two_bit" "\<lambda>w. get_two_bit"
proof (unfold_locales, goal_cases)
  case (1 w n i b)
  have "column_byte i < (n + 63) div 64 * 16"
    using div_ceil_bound [of 64 i n] 1(2) unfolding column_byte_def
    by (intro mixed_radix_bound) simp_all
  then have "column_byte i * 8 + (column_shift i + b) < (n + 63) div 64 * 16 * 8"
    using 1 column_shift_bound [of b i] by (intro mixed_radix_bound) simp_all
  then show ?case by simp
next
  case (2 w n i j b c)
  have s: "column_shift i + b < 8" "column_shift j + c < 8" using 2 column_shift_bound by simp_all
  have e: "column_byte i = column_byte j \<and> column_shift i + b = column_shift j + c"
    by (rule mixed_radix_inj [OF 2(6) s])
  have "i mod 64 div 16 = j mod 64 div 16 \<and> b = c"
    by (rule mixed_radix_inj [of _ 2]) (use 2 e in \<open>auto simp: column_shift_def\<close>)
  with e column_inj [of i j] show ?case by simp
next
  case (3 w buf i v)
  show ?case by (simp add: put_two_bit_def Let_def)
next
  case (4 w n i buf v p)
  have "put_two_bit buf i v = or_at buf (column_byte i) (push_bit (column_shift i) v)"
    by (simp add: put_two_bit_def Let_def column_byte_def column_shift_def)
  moreover have "column_shift i + 2 \<le> 8" using column_shift_bound [of 1 i] by simp
  ultimately show ?case using 4 by (simp only:) (subst or_at_field, auto)
next
  case (5 w n i buf b)
  have "get_two_bit buf i = drop_bit (column_shift i) (buf ! column_byte i) AND 3"
    by (simp add: get_two_bit_def Let_def column_byte_def column_shift_def)
  then show ?case
    using 5 stream_bit_byte [of "column_shift i" b buf "column_byte i"] column_shift_bound [of b i]
    by (simp only: bit_low2 bit_drop_bit_eq o_def) blast
qed

text \<open>Two bits in the first sixteen bytes of a chunk, the third in the last eight.\<close>

definition split_pos :: "nat \<Rightarrow> nat \<Rightarrow> nat" where
  "split_pos i b = i div 64 * 192 + (if b < 2 then i mod 64 * 2 + b else 128 + i mod 64)"

lemma low_byte_pos: "(c + r div 4) * 8 + (r mod 4 * 2 + b) = c * 8 + (r * 2 + b)" for r :: nat
proof -
  define q s where "q = r div 4" and "s = r mod 4"
  have "r = q * 4 + s" by (simp add: q_def s_def)
  then have "(c + q) * 8 + (s * 2 + b) = c * 8 + (r * 2 + b)" by simp
  then show ?thesis by (simp only: q_def s_def)
qed

lemma high_byte_pos: "(c + (16 + r div 8)) * 8 + r mod 8 = c * 8 + (128 + r)" for r :: nat
proof -
  define q s where "q = r div 8" and "s = r mod 8"
  have "r = q * 8 + s" by (simp add: q_def s_def)
  then have "(c + (16 + q)) * 8 + s = c * 8 + (128 + r)" by simp
  then show ?thesis by (simp only: q_def s_def)
qed

lemma byte_bit_pos: "s < 8 \<Longrightarrow> p div 8 = k \<and> p mod 8 = s \<longleftrightarrow> p = k * 8 + (s :: nat)"
  using div_mult_mod_eq [of p 8] by auto

lemma byte_AND_4: "(v :: u8) AND 4 \<noteq> 0 \<longleftrightarrow> bit v 2"
  using and_exp_eq_0_iff_not_bit [of v 2] by simp

interpretation split3: bit_layout
  "\<lambda>w n. w = 3 \<and> n < 1073741824" "\<lambda>w n. (n + 63) div 64 * 24" "\<lambda>w. split_pos"
  "\<lambda>w. put_two_plus_one" "\<lambda>w. get_two_plus_one"
proof (unfold_locales, goal_cases)
  case (1 w n i b)
  have "i div 64 * 192 + (if b < 2 then i mod 64 * 2 + b else 128 + i mod 64) < (n + 63) div 64 * 192"
    using div_ceil_bound [of 64 i n] 1(2)
    by (intro mixed_radix_bound) (auto simp: not_less)
  then show ?case unfolding split_pos_def by simp
next
  case (2 w n i j b c)
  have e: "i div 64 = j div 64
    \<and> (if b < 2 then i mod 64 * 2 + b else 128 + i mod 64) = (if c < 2 then j mod 64 * 2 + c else 128 + j mod 64)"
    using 2(6) unfolding split_pos_def by (rule mixed_radix_inj) (auto simp: not_less)
  have r: "i mod 64 * 2 + b < 128" if "b < 2" for i b :: nat using that by simp
  have "i mod 64 = j mod 64 \<and> b = c"
  proof (cases "b < 2"; cases "c < 2")
    assume "b < 2" "c < 2"
    then show ?thesis using e by (intro mixed_radix_inj [of _ 2]) auto
  next
    assume "b < 2" "\<not> c < 2"
    then show ?thesis using e r [of b i] by simp
  next
    assume "\<not> b < 2" "c < 2"
    then show ?thesis using e r [of c j] by simp
  next
    assume "\<not> b < 2" "\<not> c < 2"
    then show ?thesis using e 2(1,4,5) by simp
  qed
  with e div_mod_inj [of i 64 j] show ?case by simp
next
  case (3 w buf i v)
  show ?case by (simp add: put_two_plus_one_def Let_def)
next
  case (4 w n i buf v p)
  let ?r = "i mod 64" and ?c = "i div 64 * 24"
  define lo where "lo = or_at buf (?c + ?r div 4) (push_bit (?r mod 4 * 2) (v AND 3))"
  have lo: "stream_bit lo p \<longleftrightarrow> stream_bit buf p \<or> (\<exists>b < 2. p = split_pos i b \<and> bit v b)"
  proof -
    have "unat (v AND 3) < 2 ^ 2"
    proof -
      have "v AND 3 \<le> 3" by (rule word_and_le1)
      then show ?thesis by (simp add: word_le_nat_alt)
    qed
    moreover have "?r mod 4 * 2 + 2 \<le> 8" by simp
    ultimately have "stream_bit lo p \<longleftrightarrow> stream_bit buf p
        \<or> (\<exists>b < 2. p = (?c + ?r div 4) * 8 + (?r mod 4 * 2 + b) \<and> bit (v AND 3) b)"
      unfolding lo_def by (rule or_at_field) (rule 4(5))
    moreover have "?c * 8 + (?r * 2 + b) = split_pos i b" if "b < 2" for b
      using that by (simp add: split_pos_def)
    ultimately show ?thesis unfolding low_byte_pos using bit_low2 by metis
  qed
  have "stream_bit (put_two_plus_one buf i v) p \<longleftrightarrow> stream_bit lo p \<or> p = split_pos i 2 \<and> bit v 2"
  proof -
    have "p div 8 = ?c + (16 + ?r div 8) \<and> p mod 8 = ?r mod 8 \<longleftrightarrow> p = split_pos i 2"
    proof -
      have "split_pos i 2 = ?c * 8 + (128 + ?r)" by (simp add: split_pos_def)
      then show ?thesis unfolding high_byte_pos [symmetric] by (simp only: byte_bit_pos [of "?r mod 8"] mod_less_divisor zero_less_numeral)
    qed
    moreover have "p < 8 * length lo" using 4(5) by (simp add: lo_def)
    moreover have "put_two_plus_one buf i v =
        (if bit v 2 then or_at lo (?c + (16 + ?r div 8)) (push_bit (?r mod 8) 1) else lo)"
      unfolding put_two_plus_one_def Let_def byte_AND_4 lo_def ..
    ultimately show ?thesis by (simp add: stream_bit_or_at bit_pow2_byte del: push_bit_of_1)
  qed
  then show ?case unfolding lo using 4(1) by (auto simp: less_Suc_eq numeral_3_eq_3 numeral_2_eq_2)
next
  case (5 w n i buf b)
  let ?r = "i mod 64" and ?c = "i div 64 * 24"
  have lo: "bit (drop_bit (?r mod 4 * 2) (buf ! (?c + ?r div 4)) AND 3) b \<longleftrightarrow>
      b < 2 \<and> stream_bit buf (split_pos i b)"
  proof -
    have "?r mod 4 * 2 + b < 8" if "b < 2"
    proof -
      have "?r mod 4 < 4" by (rule mod_less_divisor) simp
      then show ?thesis using mixed_radix_bound [of "?r mod 4" 4 b 2] that by linarith
    qed
    then show ?thesis
      using stream_bit_byte [of "?r mod 4 * 2" b buf "?c + ?r div 4"]
      unfolding low_byte_pos by (simp only: bit_low2 bit_drop_bit_eq o_def) (auto simp: split_pos_def mult.commute)
  qed
  have hi: "bit (push_bit 2 (drop_bit (?r mod 8) (buf ! (?c + (16 + ?r div 8))) AND 1)) b \<longleftrightarrow>
      b = 2 \<and> stream_bit buf (split_pos i 2)"
  proof -
    have "stream_bit buf ((?c + (16 + ?r div 8)) * 8 + ?r mod 8) \<longleftrightarrow> bit (buf ! (?c + (16 + ?r div 8))) (?r mod 8)"
      using stream_bit_byte [of "?r mod 8" 0 buf "?c + (16 + ?r div 8)"] by simp
    then have "stream_bit buf (split_pos i 2) \<longleftrightarrow> bit (buf ! (?c + (16 + ?r div 8))) (?r mod 8)"
      unfolding high_byte_pos by (simp add: split_pos_def mult.commute)
    then show ?thesis
      by (simp only: bit_push_bit_iff bit_AND_1 bit_drop_bit_eq o_def) (auto simp: bit_AND_1)
  qed
  have "b < 3 \<longleftrightarrow> b < 2 \<or> b = 2" by auto
  then show ?case using 5(1) unfolding get_two_plus_one_def Let_def bit_or_iff lo hi by auto
qed

text \<open>Contiguous fields of one to four bits; a field may cross a byte boundary.\<close>

lemma wide_byte_bits:
  fixes v :: u8
  assumes "s < 8"
  shows "bit (ucast (push_bit s (ucast v :: u16) AND 0xFF) :: u8) q \<longleftrightarrow> s \<le> q \<and> q < 8 \<and> bit v (q - s)"
    and "bit (ucast (drop_bit 8 (push_bit s (ucast v :: u16))) :: u8) q \<longleftrightarrow>
      q < 8 \<and> s \<le> q + 8 \<and> bit v (q + 8 - s)"
proof -
  have ff: "(0xFF :: u16) = mask 8" by (simp add: mask_eq_exp_minus_1)
  show "bit (ucast (push_bit s (ucast v :: u16) AND 0xFF) :: u8) q \<longleftrightarrow> s \<le> q \<and> q < 8 \<and> bit v (q - s)"
    unfolding ff
    by (simp only: bit_ucast_iff bit_and_iff bit_mask_iff bit_push_bit_iff)
      (auto simp: bit_ucast_iff possible_bit_word)
  show "bit (ucast (drop_bit 8 (push_bit s (ucast v :: u16))) :: u8) q \<longleftrightarrow>
      q < 8 \<and> s \<le> q + 8 \<and> bit v (q + 8 - s)"
    using assms bit_imp_le_length [of v "q + 8 - s"]
    by (simp only: bit_ucast_iff bit_drop_bit_eq bit_push_bit_iff o_def)
      (auto simp: bit_ucast_iff possible_bit_word add.commute)
qed

lemma put_field_bits:
  assumes "i * w + w < 4294967296" and "w \<le> 4" and "i * w + w \<le> 8 * length buf"
    and "unat v < 2 ^ w" and "p < 8 * length buf"
  shows "stream_bit (put_field w buf i v) p \<longleftrightarrow> stream_bit buf p \<or> (\<exists>b < w. p = i * w + b \<and> bit v b)"
proof -
  define k s where "k = i * w div 8" and "s = i * w mod 8"
  have ks: "i * w = k * 8 + s" and s: "s < 8" by (simp_all add: k_def s_def)
  have wrap: "wrap32 (i * w) = i * w" using assms(1) by simp
  define b1 where "b1 = or_at buf k (ucast (push_bit s (ucast v :: u16) AND 0xFF))"
  have put: "put_field w buf i v = (if 8 < s + w then
      or_at b1 (k + 1) (ucast (drop_bit 8 (push_bit s (ucast v :: u16)))) else b1)"
    unfolding put_field_def wrap Let_def b1_def k_def s_def ..
  have field: "(\<exists>b < w. p = i * w + b \<and> bit v b) \<longleftrightarrow> i * w \<le> p \<and> bit v (p - i * w)"
    using byte_fits [OF assms(4)] le_Suc_ex by fastforce
  have first: "stream_bit b1 p \<longleftrightarrow> stream_bit buf p \<or> p div 8 = k \<and> i * w \<le> p \<and> bit v (p - i * w)"
  proof -
    have "bit (ucast (push_bit s (ucast v :: u16) AND 0xFF) :: u8) (p mod 8) \<longleftrightarrow>
        i * w \<le> p \<and> bit v (p - i * w)" if "p div 8 = k"
    proof -
      define q where "q = p mod 8"
      have "p = k * 8 + q" and "q < 8" using that by (auto simp: q_def)
      then show ?thesis unfolding wide_byte_bits(1) [OF s] ks q_def [symmetric] by simp
    qed
    then show ?thesis unfolding b1_def stream_bit_or_at [OF assms(5)] by blast
  qed
  have later: "p div 8 = k \<or> p div 8 = k + 1 \<and> 8 < s + w" if "i * w \<le> p" "bit v (p - i * w)"
  proof -
    have "p - i * w < w" by (rule byte_fits [OF assms(4) that(2)])
    then have "p < k * 8 + s + w" and "k * 8 \<le> p" using that(1) ks by linarith+
    then show ?thesis using s assms(2) by (cases "p < k * 8 + 8") (auto intro!: div_nat_eqI)
  qed
  show ?thesis
  proof (cases "8 < s + w")
    case True
    have "p div 8 = k + 1 \<and> bit (ucast (drop_bit 8 (push_bit s (ucast v :: u16))) :: u8) (p mod 8) \<longleftrightarrow>
        p div 8 = k + 1 \<and> i * w \<le> p \<and> bit v (p - i * w)"
    proof -
      define q where "q = p mod 8"
      have q: "q < 8" by (simp add: q_def)
      have "p div 8 = k + 1 \<Longrightarrow> p = k * 8 + 8 + q"
        using div_mult_mod_eq [of p 8] by (simp add: q_def)
      then show ?thesis unfolding wide_byte_bits(2) [OF s] ks q_def [symmetric]
        using s q by (auto simp: add.commute)
    qed
    then have "stream_bit (put_field w buf i v) p \<longleftrightarrow>
        stream_bit b1 p \<or> p div 8 = k + 1 \<and> i * w \<le> p \<and> bit v (p - i * w)"
      using True assms(5) unfolding put by (simp add: stream_bit_or_at b1_def)
    then show ?thesis unfolding first field using later by blast
  next
    case False
    then show ?thesis unfolding put field using first later by auto
  qed
qed

lemma get_field_bits:
  assumes "i * w + w < 4294967296" and "1 \<le> w" and "w \<le> 4"
  shows "bit (get_field w buf i) b \<longleftrightarrow> b < w \<and> stream_bit buf (i * w + b)"
proof -
  consider "w = 2" | "w = 4" | "w \<noteq> 2" "w \<noteq> 4" by blast
  then show ?thesis
  proof cases
    case 1
    have "b < 2 \<Longrightarrow> (i * 2 + b) div 8 = i div 4 \<and> (i * 2 + b) mod 8 = i mod 4 * 2 + b"
    proof -
      assume "b < 2"
      moreover have "i mod 4 < 4" by simp
      ultimately have "i mod 4 * 2 + b < 8" by linarith
      moreover have "i * 2 + b = i div 4 * 8 + (i mod 4 * 2 + b)"
        using low_byte_pos [of 0 i b] by simp
      ultimately show ?thesis using byte_bit_pos [of "i mod 4 * 2 + b" "i * 2 + b" "i div 4"] by blast
    qed
    then show ?thesis unfolding 1 get_field_def stream_bit_def
      by (simp add: bit_low2 bit_drop_bit_eq del: div_mult_self3 mod_mult_self3) auto
  next
    case 2
    have "b < 4 \<Longrightarrow> (i * 4 + b) div 8 = i div 2 \<and> (i * 4 + b) mod 8 = i mod 2 * 4 + b"
    proof -
      assume "b < 4"
      moreover have "i mod 2 < 2" by simp
      ultimately have "i mod 2 * 4 + b < 8" by linarith
      moreover have "i * 4 + b = i div 2 * 8 + (i mod 2 * 4 + b)"
      proof -
        define q r where "q = i div 2" and "r = i mod 2"
        have "i = q * 2 + r" by (simp add: q_def r_def)
        then have "i * 4 + b = q * 8 + (r * 4 + b)" by simp
        then show ?thesis by (simp only: q_def r_def)
      qed
      ultimately show ?thesis using byte_bit_pos [of "i mod 2 * 4 + b" "i * 4 + b" "i div 2"] by blast
    qed
    then show ?thesis unfolding 2 get_field_def stream_bit_def
      by (simp add: bit_low4 bit_drop_bit_eq) auto
  next
    case 3
    define k s where "k = i * w div 8" and "s = i * w mod 8"
    have ks: "i * w = k * 8 + s" and s: "s < 8" by (simp_all add: k_def s_def)
    have wrap: "wrap32 (i * w) = i * w" using assms(1) by simp
    define window where "window = (ucast (buf ! k) :: u16)
      OR (if 8 < s + w then push_bit 8 (ucast (buf ! (k + 1))) else 0)"
    have get: "get_field w buf i = ucast (drop_bit s window AND (push_bit w 1 - 1))"
      unfolding get_field_def wrap Let_def window_def k_def s_def using 3 by simp
    have window: "bit window (s + b) \<longleftrightarrow> stream_bit buf (i * w + b)" if "b < w"
    proof (cases "s + b < 8")
      case True
      then have "stream_bit buf (i * w + b) \<longleftrightarrow> bit (buf ! k) (s + b)"
        using stream_bit_byte [of s b buf k] unfolding ks by (simp add: add.assoc)
      then show ?thesis using True by (auto simp: window_def bit_or_iff bit_ucast_iff bit_push_bit_iff)
    next
      case False
      then have "i * w + b = (k + 1) * 8 + (0 + (s + b - 8))" and "s + b - 8 < 8"
        using ks s that assms(3) by simp_all
      then have "stream_bit buf (i * w + b) \<longleftrightarrow> bit (buf ! (k + 1)) (s + b - 8)"
        using stream_bit_byte [of 0 "s + b - 8" buf "k + 1"] by simp
      moreover have "8 < s + w" and "\<not> bit (buf ! k) (s + b)"
        using False that bit_imp_le_length [of "buf ! k" "s + b"] by auto
      ultimately show ?thesis using False s that assms(3)
        by (auto simp: window_def bit_or_iff bit_ucast_iff bit_push_bit_iff)
    qed
    have "bit (get_field w buf i) b \<longleftrightarrow> b < 8 \<and> bit window (s + b) \<and> b < w"
      unfolding get
      by (simp only: bit_ucast_iff bit_and_iff bit_low_mask bit_drop_bit_eq o_def) auto
    then show ?thesis using window assms(3) by auto
  qed
qed

interpretation fields: bit_layout
  "\<lambda>w n. 1 \<le> w \<and> w \<le> 4 \<and> n < 268435456" "\<lambda>w n. (n * w + 7) div 8" "\<lambda>w i b. i * w + b"
  put_field get_field
proof (unfold_locales, goal_cases)
  case (1 w n i b)
  have "i * w + w \<le> n * w" using 1(2) by (metis Suc_leI add.commute mult_Suc mult_le_mono1)
  then show ?case using 1(3) by simp
next
  case (2 w n i j b c)
  show ?case using mixed_radix_inj [OF 2(6,4,5)] .
next
  case (3 w buf i v)
  show ?case by (simp add: put_field_def Let_def)
next
  case (4 w n i buf v p)
  have "i * w + w \<le> n * w" using 4(2) by (metis Suc_leI add.commute mult_Suc mult_le_mono1)
  moreover have "n * w \<le> n * 4" using 4(1) by simp
  ultimately show ?case using 4 by (intro put_field_bits) linarith+
next
  case (5 w n i buf b)
  have "i * w + w \<le> n * w" using 5(2) by (metis Suc_leI add.commute mult_Suc mult_le_mono1)
  moreover have "n * w \<le> n * 4" using 5(1) by simp
  ultimately show ?case using 5 by (intro get_field_bits) linarith+
qed

section \<open>The SIMD unpackers\<close>

lemma length_epi16_srli [simp]: "length (epi16_srli k bs) = length bs"
  by (induction k bs rule: epi16_srli.induct) (simp_all add: Let_def)

text \<open>A 16-bit shift leaks bits of the upper byte into the lower one; the mask removes them.\<close>

lemma masked_srli:
  assumes "even (length bs)" and "i < length bs" and "k + w \<le> 8"
  shows "(epi16_srli k bs ! i) AND mask w = drop_bit k (bs ! i) AND mask w"
  using assms
proof (induction k bs arbitrary: i rule: epi16_srli.induct)
  case (1 k lo hi rest)
  define x where "x = (ucast lo :: u16) OR push_bit 8 (ucast hi)"
  have x: "bit x q \<longleftrightarrow> bit lo q" "bit x (8 + q) \<longleftrightarrow> bit hi q" if "q < 8" for q
    using that bit_imp_le_length [of lo "8 + q"]
    by (auto simp: x_def bit_or_iff bit_ucast_iff bit_push_bit_iff)
  have lo: "(ucast (drop_bit k x) :: u8) AND mask w = drop_bit k lo AND mask w"
  proof (rule word_eq_bitsI)
    fix j
    have "bit x (k + j) \<longleftrightarrow> bit lo (k + j)" if "j < w"
      by (rule x(1)) (use that "1.prems"(3) in linarith)
    then show "bit ((ucast (drop_bit k x) :: u8) AND mask w) j = bit (drop_bit k lo AND mask w) j"
      if "j < LENGTH(8)"
      using that by (auto simp: bit_and_iff bit_mask_iff bit_ucast_iff bit_drop_bit_eq)
  qed
  have hi: "(ucast (drop_bit 8 (drop_bit k x)) :: u8) AND mask w = drop_bit k hi AND mask w"
  proof (rule word_eq_bitsI)
    fix j
    have "bit x (8 + k + j) \<longleftrightarrow> bit hi (k + j)" if "j < w"
      using x(2) [of "k + j"] that "1.prems"(3) by (simp add: add.assoc)
    then show "bit ((ucast (drop_bit 8 (drop_bit k x)) :: u8) AND mask w) j = bit (drop_bit k hi AND mask w) j"
      if "j < LENGTH(8)"
      using that by (auto simp: bit_and_iff bit_mask_iff bit_ucast_iff bit_drop_bit_eq)
  qed
  consider "i = 0" | "i = 1" | j where "i = Suc (Suc j)"
    by (metis One_nat_def not0_implies_Suc)
  then show ?case
    using 1 lo hi by cases (simp_all add: Let_def x_def [symmetric])
qed simp_all

lemma epi8_and_srli:
  assumes "length bs = 16" and "i < 16" and "k + w \<le> 8" and "m = mask w"
  shows "epi8_and m (epi16_srli k bs) ! i = drop_bit k (bs ! i) AND m"
  using masked_srli [of bs i k w] assms by (simp add: epi8_and_def)

lemma upt8: "[0..<8] = [0, 1, 2, 3, 4, 5, 6, 7 :: nat]"
  by (simp add: upt_rec)

lemma fields4_block:
  assumes "length bs = 16"
  shows "(let lo = epi8_and 15 bs; hi = epi8_and 15 (epi16_srli 4 bs)
      in unpack_epi8 0 lo hi @ unpack_epi8 8 lo hi) = map (get_field 4 bs) [0..<32]"
proof -
  have m: "(15 :: u8) = mask 4" by (simp add: mask_eq_exp_minus_1)
  have hi: "epi8_and 15 (epi16_srli 4 bs) ! i = drop_bit 4 (bs ! i) AND 15" if "i < 16" for i
    using epi8_and_srli [OF assms that _ m, of 4] by simp
  have lo: "epi8_and 15 bs ! i = bs ! i AND 15" if "i < 16" for i
    using that assms by (simp add: epi8_and_def)
  have u: "[0..<32] = [0..<8] @ map ((+) 8) [0..<8] @ map ((+) 16) [0..<8] @ map ((+) 24) [0..<8]"
    by (simp add: upt_rec)
  show ?thesis
    unfolding u Let_def unpack_epi8_def upt8 by (simp add: hi lo get_field_def)
qed

lemma fields2_block:
  assumes "length bs = 16"
  shows "(let v0 = epi8_and 3 bs; v1 = epi8_and 3 (epi16_srli 2 bs);
           v2 = epi8_and 3 (epi16_srli 4 bs); v3 = epi8_and 3 (epi16_srli 6 bs);
           a01_lo = unpack_epi8 0 v0 v1; a01_hi = unpack_epi8 8 v0 v1;
           a23_lo = unpack_epi8 0 v2 v3; a23_hi = unpack_epi8 8 v2 v3
       in unpack_epi16 0 a01_lo a23_lo @ unpack_epi16 8 a01_lo a23_lo
          @ unpack_epi16 0 a01_hi a23_hi @ unpack_epi16 8 a01_hi a23_hi)
    = map (get_field 2 bs) [0..<64]"
proof -
  have m: "(3 :: u8) = mask 2" by (simp add: mask_eq_exp_minus_1)
  have v: "epi8_and 3 (epi16_srli k bs) ! i = drop_bit k (bs ! i) AND 3" if "i < 16" "k \<le> 6" for i k
    using epi8_and_srli [OF assms that(1) _ m, of k] that(2) by simp
  have lo: "epi8_and 3 bs ! i = bs ! i AND 3" if "i < 16" for i
    using that assms by (simp add: epi8_and_def)
  have u: "[0..<64] = [0..<8] @ map ((+) 8) [0..<8] @ map ((+) 16) [0..<8] @ map ((+) 24) [0..<8]
      @ map ((+) 32) [0..<8] @ map ((+) 40) [0..<8] @ map ((+) 48) [0..<8] @ map ((+) 56) [0..<8]"
    by (simp add: upt_rec)
  have upt4: "[0..<4] = [0, 1, 2, 3 :: nat]" by (simp add: upt_rec)
  show ?thesis
    unfolding u Let_def unpack_epi8_def unpack_epi16_def upt8 upt4 by (simp add: v lo get_field_def)
qed

text \<open>Blocks of \<open>n\<close> values in 16 bytes, one after the other.\<close>

lemma block_div_mod:
  assumes "0 < (m :: nat)"
  shows "(k * (c * m) + i) div m = k * c + i div m" and "(k * (c * m) + i) mod m = i mod m"
proof -
  have e: "k * (c * m) + i = i + (k * c) * m" by simp
  show "(k * (c * m) + i) div m = k * c + i div m"
    unfolding e using assms by (simp only: div_mult_self1 add.commute)
  show "(k * (c * m) + i) mod m = i mod m"
    unfolding e by (rule mod_mult_self1)
qed

lemma get_field_slice:
  assumes "i < n" and "n * w = 128" and "(k + 1) * 16 \<le> length packed"
    and "(w = 2 \<or> w = 4)"
  shows "get_field w (slice (k * 16) 16 packed) i = get_field w packed (k * n + i)"
proof -
  from assms(4) show ?thesis
  proof
    assume w: "w = 2"
    then have n: "n = 64" using assms(2) by simp
    have "(k * n + i) div 4 = k * 16 + i div 4" and "(k * n + i) mod 4 = i mod 4"
      using block_div_mod [of 4 k 16 i] n by simp_all
    moreover have "i div 4 < 16" using assms(1) n by (simp add: less_mult_imp_div_less)
    ultimately show ?thesis using w assms(3) by (simp add: get_field_def nth_slice)
  next
    assume w: "w = 4"
    then have n: "n = 32" using assms(2) by simp
    have "(k * n + i) div 2 = k * 16 + i div 2" and "(k * n + i) mod 2 = i mod 2"
      using block_div_mod [of 2 k 16 i] n by simp_all
    moreover have "i div 2 < 16" using assms(1) n by (simp add: less_mult_imp_div_less)
    ultimately show ?thesis using w assms(3) by (simp add: get_field_def nth_slice)
  qed
qed

lemma concat_map_blocks: "concat (map (\<lambda>k. map f [k * n..<k * n + n]) [0..<m]) = map f [0..<m * n]"
proof (induction m)
  case 0
  show ?case by simp
next
  case (Suc m)
  have "map f [0..<m * n + n] = map f [0..<m * n] @ map f [m * n..<m * n + n]"
    by (metis map_append upt_add_eq_append zero_le)
  then show ?case using Suc by (simp add: add.commute)
qed

lemma simd_blocks:
  assumes "\<And>bs. length bs = 16 \<Longrightarrow> block bs = map (get_field w bs) [0..<n]" and "n * w = 128"
    and "w = 2 \<or> w = 4" and "m * 16 \<le> length packed"
  shows "concat (map (\<lambda>k. block (slice (k * 16) 16 packed)) [0..<m]) =
    map (get_field w packed) [0..<m * n]"
proof -
  have "block (slice (k * 16) 16 packed) = map (get_field w packed) [k * n..<k * n + n]" if "k < m" for k
  proof -
    have len: "(k + 1) * 16 \<le> length packed"
      using mult_le_mono1 [of "k + 1" m 16] that assms(4) by linarith
    have "block (slice (k * 16) 16 packed) = map (get_field w (slice (k * 16) 16 packed)) [0..<n]"
      by (rule assms(1)) (use len in simp)
    also have "\<dots> = map (\<lambda>i. get_field w packed (k * n + i)) [0..<n]"
      using get_field_slice [OF _ assms(2) len assms(3)] by simp
    also have "\<dots> = map (get_field w packed) (map ((+) (k * n)) [0..<n])" by simp
    also have "map ((+) (k * n)) [0..<n] = [k * n..<k * n + n]"
      by (rule nth_equalityI) simp_all
    finally show ?thesis .
  qed
  then have "concat (map (\<lambda>k. block (slice (k * 16) 16 packed)) [0..<m]) =
      concat (map (\<lambda>k. map (get_field w packed) [k * n..<k * n + n]) [0..<m])"
    by (intro arg_cong [where f = concat] map_cong refl) simp
  then show ?thesis by (simp only: concat_map_blocks)
qed

lemma UnpackBits4Simd_spec:
  "count div 32 * 16 \<le> length packed \<Longrightarrow>
    UnpackBits4Simd packed count = map (get_field 4 packed) [0..<count div 32 * 32]"
  unfolding UnpackBits4Simd_def
  by (rule simd_blocks) (simp_all only: fields4_block [unfolded Let_def] Let_def, simp_all)

lemma UnpackBits2Simd_spec:
  "count div 64 * 16 \<le> length packed \<Longrightarrow>
    UnpackBits2Simd packed count = map (get_field 2 packed) [0..<count div 64 * 64]"
  unfolding UnpackBits2Simd_def
  by (rule simd_blocks) (simp_all only: fields2_block [unfolded Let_def] Let_def, simp_all)

text \<open>All builds unpack alike.\<close>

lemma ExRaBitQUnpackMagnitudes_spec:
  assumes "1 \<le> w" and "w \<le> 4" and "(count * w + 7) div 8 \<le> length packed"
  shows "ExRaBitQUnpackMagnitudes build packed count w = Some (map (get_field w packed) [0..<count])"
proof -
  have join: "map (get_field w packed) [0..<c] @
      (if c < count then map (get_field w packed) [c..<count] else []) = map (get_field w packed) [0..<count]"
    if "c \<le> count" for c
  proof (cases "c < count")
    case True
    then have "[0..<count] = [0..<c] @ [c..<count]" using upt_add_eq_append [of 0 c "count - c"] by simp
    then show ?thesis using True by simp
  qed (use that in simp)
  have four: "count div 32 * 16 \<le> length packed" if "w = 4" using assms(3) unfolding that by linarith
  have two: "count div 64 * 16 \<le> length packed" if "w = 2" using assms(3) unfolding that by linarith
  have "count div 32 * 32 \<le> count" and "count div 64 * 64 \<le> count" by simp_all
  note j = join [OF this(1)] join [OF this(2)] join [of 0]
  consider "uses_avx2 build" "w = 4" | "uses_avx2 build" "w = 2" | "\<not> uses_avx2 build \<or> w \<noteq> 4 \<and> w \<noteq> 2"
    by blast
  then show ?thesis
  proof cases
    case 1
    then show ?thesis using assms(1) j(1) [unfolded 1(2)] UnpackBits4Simd_spec [OF four [OF 1(2)]]
      by (auto simp: ExRaBitQUnpackMagnitudes_def UnpackMagnitudesScalar_def Let_def split: if_splits)
  next
    case 2
    then show ?thesis using assms(1) j(2) [unfolded 2(2)] UnpackBits2Simd_spec [OF two [OF 2(2)]]
      by (auto simp: ExRaBitQUnpackMagnitudes_def UnpackMagnitudesScalar_def Let_def split: if_splits)
  next
    case 3
    then show ?thesis using assms(1,2) j(3)
      by (auto simp: ExRaBitQUnpackMagnitudes_def UnpackMagnitudesScalar_def Let_def)
  qed
qed

section \<open>Round trips\<close>

lemma stream_bit_extI:
  assumes "length xs = length ys" and "\<And>p. p < 8 * length xs \<Longrightarrow> stream_bit xs p = stream_bit ys p"
  shows "xs = ys"
proof (rule nth_equalityI [OF assms(1)])
  fix i assume i: "i < length xs"
  show "xs ! i = ys ! i"
  proof (rule word_eq_bitsI)
    fix j assume "j < LENGTH(8)"
    then show "bit (xs ! i) j = bit (ys ! i) j"
      using assms(2) [of "8 * i + j"] i by (simp add: stream_bit_def)
  qed
qed

lemma stream_bit_take [bit_stream]: "p < 8 * n \<Longrightarrow> stream_bit (take n bs) p = stream_bit bs p"
  by (simp add: stream_bit_def less_mult_imp_div_less mult.commute)

lemma stream_bit_drop [bit_stream]:
  "n \<le> length bs \<Longrightarrow> stream_bit (drop n bs) p = stream_bit bs (8 * n + p)"
  by (simp add: stream_bit_def add.commute)

context bit_layout
begin

text \<open>Only the bytes the layout needs are written and read.\<close>

lemma get_take:
  assumes "ok w n" and "i < n" and "size_of w n \<le> length a"
  shows "get w (take (size_of w n) a @ b) i = get w a i"
proof (rule bit_word_eqI)
  fix c
  have "c < w \<Longrightarrow> pos w i c < 8 * size_of w n" by (rule pos_bound [OF assms(1,2)])
  moreover have "bit (get w (take (size_of w n) a @ b) i) c \<longleftrightarrow>
      c < w \<and> stream_bit (take (size_of w n) a @ b) (pos w i c)"
    by (rule get_bits [OF assms(1,2)]) (use assms(3) in simp)
  ultimately show "bit (get w (take (size_of w n) a @ b) i) c \<longleftrightarrow> bit (get w a i) c"
    using get_bits [OF assms, of c] assms(3) by (auto simp: stream_bit_append stream_bit_take)
qed

lemma pack_each_tail:
  assumes "ok w (length vs)" and "size_of w (length vs) \<le> length buf"
    and "pack_each (put w) (2 ^ w - 1) vs 0 buf = Some out" and "\<forall>v \<in> set vs. unat v < 2 ^ w"
  shows "drop (size_of w (length vs)) out = drop (size_of w (length vs)) buf"
proof -
  let ?s = "size_of w (length vs)"
  have len: "length out = length buf"
    and bits: "\<And>p. p < 8 * length buf \<Longrightarrow> stream_bit out p \<longleftrightarrow> stream_bit buf p
        \<or> (\<exists>i < length vs. \<exists>b < w. p = pos w i b \<and> bit (vs ! i) b)"
    using pack_each_some [OF assms(1), of 0 vs buf] assms(2,3,4) by auto
  show ?thesis
  proof (rule stream_bit_extI)
    show "length (drop ?s out) = length (drop ?s buf)" using len by simp
    fix p assume p: "p < 8 * length (drop ?s out)"
    then have "8 * ?s + p < 8 * length buf" using len by simp
    moreover have "8 * ?s + p \<noteq> pos w i b" if "i < length vs" "b < w" for i b
      using pos_bound [OF assms(1) that] by simp
    ultimately have "stream_bit out (8 * ?s + p) = stream_bit buf (8 * ?s + p)" using bits by blast
    then show "stream_bit (drop ?s out) p = stream_bit (drop ?s buf) p"
      using assms(2) len by (simp add: stream_bit_drop)
  qed
qed

end

lemma pack_each_cong:
  assumes "\<And>i v buf. i < k + length vs \<Longrightarrow> put buf i v = put' buf i v"
  shows "pack_each put m vs k buf = pack_each put' m vs k buf"
  using assms
proof (induction vs arbitrary: k buf)
  case (Cons v vs)
  then show ?case using Cons.IH [of "k + 1"] by simp
qed simp

lemma put_quarter_field: "i < 1073741824 \<Longrightarrow> put_quarter buf i v = put_field 2 buf i v"
proof -
  assume i: "i < 1073741824"
  have "i * 2 = i div 4 * 8 + i mod 4 * 2" using low_byte_pos [of 0 i 0] by simp
  moreover have s: "i mod 4 * 2 < 8" using mod_less_divisor [of 4 i] by linarith
  ultimately have e: "i * 2 div 8 = i div 4 \<and> i * 2 mod 8 = i mod 4 * 2"
    using byte_bit_pos [of "i mod 4 * 2" "i * 2" "i div 4"] by blast
  have "\<not> 8 < i mod 4 * 2 + 2" using mod_less_divisor [of 4 i] by linarith
  moreover have "ucast (push_bit (i mod 4 * 2) (ucast v :: u16) AND 0xFF) = push_bit (i mod 4 * 2) v"
    by (rule bit_word_eqI) (simp only: wide_byte_bits(1) [OF s] bit_push_bit_iff, auto)
  moreover have "wrap32 (i * 2) = i * 2" using i by simp
  ultimately show ?thesis unfolding put_quarter_def put_field_def Let_def by (simp only: e if_False)
qed

lemma magnitudes_roundtrip:
  assumes "1 \<le> w" and "w \<le> 4" and "length vs < 268435456" and "vs \<noteq> []"
    and "(length vs * w + 7) div 8 \<le> m" and "\<forall>v \<in> set vs. unat v < 2 ^ w"
  shows "\<exists>out. ExRaBitQPackMagnitudes vs w m = Some out \<and> length out = m
    \<and> (\<forall>build. ExRaBitQUnpackMagnitudes build out (length vs) w = Some vs)"
proof -
  obtain out where out: "pack_each (put_field w) (2 ^ w - 1) vs 0 (replicate m 0) = Some out"
      "length out = m" "map (get_field w out) [0..<length vs] = vs"
    using fields.roundtrip [of w vs m] assms by auto
  have "length vs * w \<le> length vs * 4" using assms(2) by simp
  then have "wrap32 (length vs * w + 7) = length vs * w + 7" using assms(3) by (intro mod_less) linarith
  then have b: "ExRaBitQPackedMagnitudeBytes (length vs) w = (length vs * w + 7) div 8"
    unfolding ExRaBitQPackedMagnitudeBytes_def using assms(1,2) by simp
  have "0 < length vs * w" using assms(1,4) by simp
  then have "8 \<le> length vs * w + 7" by linarith
  then have pos: "0 < (length vs * w + 7) div 8" by (simp only: div_greater_zero_iff zero_less_numeral simp_thms)
  have "pack_each put_quarter 3 vs 0 (replicate m 0) = pack_each (put_field 2) 3 vs 0 (replicate m 0)"
    by (rule pack_each_cong) (use assms(3) in \<open>simp add: put_quarter_field\<close>)
  then have "ExRaBitQPackMagnitudes vs w m = Some out"
    using out(1) pos assms(5) unfolding ExRaBitQPackMagnitudes_def Let_def b by (cases "w = 2") simp_all
  then show ?thesis using out(2,3) ExRaBitQUnpackMagnitudes_spec [OF assms(1,2), of "length vs" out] assms(5)
    by auto
qed

text \<open>A layout of whole chunks of \<open>d\<close> values.\<close>

lemma ceil_wrap: "0 < n \<Longrightarrow> n < 268435456 \<Longrightarrow> 0 < d \<Longrightarrow> d \<le> 64 \<Longrightarrow>
    wrap32 (n + (d - 1)) = n + (d - 1) \<and> 0 < (n + (d - 1)) div d \<and> (n + (d - 1)) div d \<le> n"
  for n d :: nat
proof -
  assume n: "0 < n" "n < 268435456" and d: "0 < d" "d \<le> 64"
  have "(n + (d - 1)) div d \<le> n"
  proof -
    have "n + (d - 1) \<le> n * d"
      using n d by (metis Nat.le_imp_diff_is_add One_nat_def Suc_leI add.commute add_mono_thms_linordered_semiring(1) diff_le_self le_add_diff_inverse mult.commute mult_eq_if mult_le_mono1 nat_mult_1 not_less_zero)
    then show ?thesis using d by (metis div_le_mono div_mult_self_is_m)
  qed
  moreover have "d \<le> n + (d - 1)" using n d by simp
  then have "0 < (n + (d - 1)) div d" using d by (simp add: div_greater_zero_iff)
  ultimately show ?thesis using n d by simp
qed

lemma bitplanes_roundtrip:
  assumes "1 \<le> w" and "w \<le> 4" and "length vs < 67108864" and "vs \<noteq> []"
    and "(length vs + 63) div 64 * (8 * w) \<le> m" and "\<forall>v \<in> set vs. unat v < 2 ^ w"
  shows "\<exists>out. ExRaBitQPackOfficialDirectBitplanes vs w m = Some out \<and> length out = m
    \<and> ExRaBitQUnpackOfficialDirectBitplanes out (length vs) w = Some vs"
proof -
  have c: "wrap32 (length vs + 63) = length vs + 63" "0 < (length vs + 63) div 64"
    "(length vs + 63) div 64 \<le> length vs"
    using ceil_wrap [of "length vs" 64] assms(3,4) by auto
  have "(length vs + 63) div 64 * (8 * w) \<le> length vs * 32"
    using c(3) assms(2) by (intro mult_le_mono) auto
  then have e: "wrap32 ((length vs + 63) div 64 * (8 * w)) = (length vs + 63) div 64 * (8 * w)"
    using assms(3) by simp
  obtain out where "pack_each (put_planes (plane_byte (8 * w)) plane_shift w) (2 ^ w - 1) vs 0
      (replicate m 0) = Some out" "length out = m"
      "map (get_planes (plane_byte (8 * w)) plane_shift w out) [0..<length vs] = vs"
    using planes.roundtrip [of w vs m] assms by auto
  then show ?thesis using c e assms(1,2,5)
    by (simp add: ExRaBitQPackOfficialDirectBitplanes_def ExRaBitQUnpackOfficialDirectBitplanes_def Let_def)
qed

lemma direct3_roundtrip:
  assumes "layout = kSplit3TwoPlusOne \<or> layout = kSplit3Bitplanes" and "length vs < 67108864"
    and "vs \<noteq> []" and "(length vs + 63) div 64 * 24 \<le> m" and "\<forall>v \<in> set vs. unat v < 8"
  shows "\<exists>out. ExRaBitQPackOfficialDirect3 vs layout m = Some out \<and> length out = m
    \<and> ExRaBitQUnpackOfficialDirect3 out (length vs) layout = Some vs"
proof -
  have c: "wrap32 (length vs + 63) = length vs + 63" "0 < (length vs + 63) div 64"
    "(length vs + 63) div 64 \<le> length vs"
    using ceil_wrap [of "length vs" 64] assms(2,3) by auto
  then have e: "wrap32 ((length vs + 63) div 64 * 24) = (length vs + 63) div 64 * 24"
    using assms(2) by simp
  obtain a where a: "pack_each put_two_plus_one 7 vs 0 (replicate m 0) = Some a" "length a = m"
      "map (get_two_plus_one a) [0..<length vs] = vs"
    using split3.roundtrip [of 3 vs m] assms by auto
  obtain b where b: "pack_each (put_planes (plane_byte 24) plane_shift 3) 7 vs 0 (replicate m 0) = Some b"
      "length b = m" "map (get_planes (plane_byte 24) plane_shift 3 b) [0..<length vs] = vs"
    using planes.roundtrip [of 3 vs m] assms by auto
  have res: "RaBitQResolveSelectedExDataLayout kSplit3TwoPlusOne = kSplit3TwoPlusOne"
    "RaBitQResolveSelectedExDataLayout kSplit3Bitplanes = kSplit3Bitplanes"
    by (simp_all add: RaBitQResolveSelectedExDataLayout_def RaBitQResolveSelectedExDataLayoutForBits_def)
  from assms(1) show ?thesis
    using a b c e assms(4)
    by (elim disjE) (simp_all add: ExRaBitQPackOfficialDirect3_def
      ExRaBitQUnpackOfficialDirect3_def Let_def res)
qed

lemma nibble4_roundtrip:
  assumes "length vs < 67108864" and "vs \<noteq> []" and "(length vs + 15) div 16 * 8 \<le> m"
    and "\<forall>v \<in> set vs. unat v < 16"
  shows "\<exists>out. ExRaBitQPackOfficialNibble4 vs m = Some out \<and> length out = m
    \<and> ExRaBitQUnpackOfficialNibble4 out (length vs) = Some vs"
proof -
  have c: "wrap32 (length vs + 15) = length vs + 15" "0 < (length vs + 15) div 16"
    "(length vs + 15) div 16 \<le> length vs"
    using ceil_wrap [of "length vs" 16] assms(1,2) by auto
  then have e: "wrap32 ((length vs + 15) div 16 * 8) = (length vs + 15) div 16 * 8"
    using assms(1) by simp
  obtain out where "pack_each put_nibble4 15 vs 0 (replicate m 0) = Some out" "length out = m"
      "map (get_nibble4 out) [0..<length vs] = vs"
    using nibbles.roundtrip [of 4 vs m] assms by auto
  then show ?thesis using c e assms(3)
    by (simp add: ExRaBitQPackOfficialNibble4_def ExRaBitQUnpackOfficialNibble4_def Let_def)
qed

lemma two_bit_roundtrip:
  assumes "length vs < 67108864" and "vs \<noteq> []" and "(length vs + 63) div 64 * 16 \<le> m"
    and "\<forall>v \<in> set vs. unat v < 4"
  shows "\<exists>out. ExRaBitQPackOfficial2Bit vs m = Some out \<and> length out = m
    \<and> ExRaBitQUnpackOfficial2Bit out (length vs) = Some vs"
proof -
  have c: "wrap32 (length vs + 63) = length vs + 63" "0 < (length vs + 63) div 64"
    "(length vs + 63) div 64 \<le> length vs"
    using ceil_wrap [of "length vs" 64] assms(1,2) by auto
  then have e: "wrap32 ((length vs + 63) div 64 * 16) = (length vs + 63) div 64 * 16"
    using assms(1) by simp
  obtain out where "pack_each put_two_bit 3 vs 0 (replicate m 0) = Some out" "length out = m"
      "map (get_two_bit out) [0..<length vs] = vs"
    using columns.roundtrip [of 2 vs m] assms by auto
  then show ?thesis using c e assms(3)
    by (simp add: ExRaBitQPackOfficial2Bit_def ExRaBitQUnpackOfficial2Bit_def Let_def)
qed

text \<open>Bit-major tiles: the bytes the tiles of \<open>n\<close> dimensions take.\<close>

function tile_need :: "nat \<Rightarrow> nat \<Rightarrow> nat" where
  "tile_need bits n =
     (if n = 0 then 0
      else bits * (ExRaBitQBitMajorTileDims n div 8)
        + tile_need bits (n - min (ExRaBitQBitMajorTileDims n) n))"
  by pat_completeness auto
termination
  by (relation "measure (\<lambda>(bits, n). n)") (auto simp: ExRaBitQBitMajorTileDims_def)

declare tile_need.simps [simp del]

lemma tile_dims_cases:
  "0 < n \<Longrightarrow> ExRaBitQBitMajorTileDims n \<in> {64, 128, 256, 512}"
  by (simp add: ExRaBitQBitMajorTileDims_def)

lemma tile_need_bound: "8 * tile_need bits n \<le> bits * (n + 512)"
proof (induction n rule: less_induct)
  case (less n)
  show ?case
  proof (cases "n = 0")
    case True
    then show ?thesis by (simp add: tile_need.simps)
  next
    case False
    define t where "t = ExRaBitQBitMajorTileDims n"
    have t: "t \<in> {64, 128, 256, 512}" using tile_dims_cases [of n] False by (simp add: t_def)
    then have t8: "8 * (bits * (t div 8)) = bits * t" by auto
    have need: "tile_need bits n = bits * (t div 8) + tile_need bits (n - min t n)"
      using False by (subst tile_need.simps) (simp add: t_def)
    show ?thesis
    proof (cases "t \<le> n")
      case True
      then have "8 * tile_need bits (n - t) \<le> bits * (n - t + 512)"
        using t by (intro less.IH) auto
      moreover have "bits * t + bits * (n - t + 512) = bits * (n + 512)"
        using True by (simp add: distrib_left [symmetric])
      ultimately show ?thesis using True t8 unfolding need min_absorb1 [OF True] distrib_left by linarith
    next
      case False
      then have "8 * tile_need bits n = bits * t" unfolding need using t8 by (simp add: tile_need.simps)
      also have "\<dots> \<le> bits * (n + 512)" using t by (intro mult_le_mono2) auto
      finally show ?thesis .
    qed
  qed
qed

lemma tile_vector_bytes_spec:
  assumes "b + tile_need bits (dim - d) < 4294967296"
  shows "tile_vector_bytes bits dim b d = b + tile_need bits (dim - d)"
  using assms
proof (induction bits dim b d rule: tile_vector_bytes.induct)
  case (1 bits dim b d)
  show ?case
  proof (cases "d < dim")
    case False
    then show ?thesis by (simp add: tile_vector_bytes.simps [of bits dim b d] tile_need.simps)
  next
    case True
    define t where "t = ExRaBitQBitMajorTileDims (dim - d)"
    have need: "tile_need bits (dim - d) = bits * (t div 8) + tile_need bits (dim - (d + min t (dim - d)))"
      using True by (subst tile_need.simps) (simp add: t_def diff_diff_left)
    have small: "b + bits * (t div 8) < 4294967296" using "1.prems" unfolding need by linarith
    then have w: "wrap64 (b + bits * (t div 8)) = b + bits * (t div 8)" by simp
    have "tile_vector_bytes bits dim b d =
        tile_vector_bytes bits dim (b + bits * (t div 8)) (d + min t (dim - d))"
      using True small by (subst tile_vector_bytes.simps) (simp add: Let_def w t_def [symmetric])
    moreover have "tile_vector_bytes bits dim (b + bits * (t div 8)) (d + min t (dim - d)) =
        b + bits * (t div 8) + tile_need bits (dim - (d + min t (dim - d)))"
      using "1.IH" [OF True t_def refl] "1.prems" small unfolding w need by simp
    ultimately show ?thesis unfolding need by simp
  qed
qed

lemma tiles_roundtrip:
  assumes "w \<le> 8" and "\<forall>v \<in> set vs. unat v < 2 ^ w" and "tile_need w (length vs) \<le> m"
  shows "\<exists>out. pack_tiles w vs (replicate m 0) = Some out \<and> length out = m
    \<and> unpack_tiles w (length vs) out = vs"
  using assms(2,3)
proof (induction "length vs" arbitrary: vs m rule: less_induct)
  case less
  show ?case
  proof (cases "vs = []")
    case True
    then show ?thesis by (simp add: pack_tiles.simps unpack_tiles.simps)
  next
    case False
    define t where "t = ExRaBitQBitMajorTileDims (length vs)"
    define pb where "pb = t div 8"
    define r where "r = min t (length vs)"
    define front where "front = take r vs"
    define rest where "rest = drop r vs"
    have "t \<in> {64, 128, 256, 512}" using tile_dims_cases [of "length vs"] False by (simp add: t_def)
    then have t: "t = 8 * pb" "0 < t" by (auto simp: pb_def)
    have len: "length front = r" "r \<le> 8 * pb" "0 < r" "length rest = length vs - r"
      using t False by (auto simp: front_def rest_def r_def)
    have need: "tile_need w (length vs) = w * pb + tile_need w (length vs - r)"
      using False by (subst tile_need.simps) (simp add: t_def pb_def r_def)
    then have m: "w * pb \<le> m" using less.prems(2) by linarith
    have fit: "\<forall>v \<in> set front. unat v < 2 ^ w" "\<forall>v \<in> set rest. unat v < 2 ^ w"
      using less.prems(1) by (auto simp: front_def rest_def dest: in_set_takeD in_set_dropD)
    obtain a where a: "pack_each (put_planes (tile_byte pb) tile_shift w) (2 ^ w - 1) front 0
        (replicate m 0) = Some a" "length a = m"
        "map (get_planes (tile_byte pb) tile_shift w a) [0..<r] = front"
      using tile.roundtrip [of w front pb m] assms(1) len m fit by auto
    have tail: "drop (w * pb) a = replicate (m - w * pb) 0"
      using tile.pack_each_tail [of w front pb "replicate m 0" a] assms(1) len m fit a(1) by simp
    have "length rest < length vs" using len False by simp
    moreover have "tile_need w (length rest) \<le> m - w * pb"
      using less.prems(2) len(4) unfolding need by simp
    ultimately obtain b where b: "pack_tiles w rest (replicate (m - w * pb) 0) = Some b"
        "length b = m - w * pb" "unpack_tiles w (length rest) b = rest"
      using less.hyps [of rest "m - w * pb"] fit(2) by blast
    define out where "out = take (w * pb) a @ b"
    have get: "get_planes (tile_byte pb) tile_shift w out i = get_planes (tile_byte pb) tile_shift w a i"
      if "i < r" for i
      unfolding out_def by (rule tile.get_take [of w r]) (use assms(1) len(2) that a(2) m in auto)
    have "pack_tiles w vs (replicate m 0) = Some out"
      using False a(1) b(1) unfolding out_def front_def rest_def
      by (subst pack_tiles.simps) (simp add: Let_def t_def [symmetric] pb_def [symmetric] r_def [symmetric] tail)
    moreover have "unpack_tiles w (length vs) out = vs"
    proof -
      have "unpack_tiles w (length vs) out = map (get_planes (tile_byte pb) tile_shift w out) [0..<r]
          @ unpack_tiles w (length vs - r) (drop (w * pb) out)"
        using False by (subst unpack_tiles.simps) (simp add: Let_def t_def [symmetric] pb_def [symmetric] r_def [symmetric])
      also have "map (get_planes (tile_byte pb) tile_shift w out) [0..<r] = front"
        using a(3) get by (metis (no_types, lifting) atLeastLessThan_iff map_cong set_upt)
      also have "drop (w * pb) out = b" using a(2) m by (simp add: out_def)
      finally show ?thesis using b(3) len(4) by (simp add: front_def rest_def)
    qed
    moreover have "length out = m" using a(2) b(2) m by (simp add: out_def)
    ultimately show ?thesis by blast
  qed
qed

lemma tiles_pack_roundtrip:
  assumes "1 \<le> w" and "w \<le> 3" and "vs \<noteq> []" and "length vs < 268435456"
    and "\<forall>v \<in> set vs. unat v < 2 ^ w" and "ExRaBitQBitMajorTileVectorBytes (length vs) w \<le> m"
  shows "\<exists>out. ExRaBitQPackOfficialBitMajorTiles vs w m = Some out \<and> length out = m
    \<and> ExRaBitQUnpackOfficialBitMajorTiles out (length vs) w = Some vs"
proof -
  have "w * (length vs + 512) \<le> 3 * (length vs + 512)" using assms(2) by (rule mult_le_mono1)
  with tile_need_bound [of w "length vs"] have "8 * tile_need w (length vs) \<le> 3 * (length vs + 512)"
    by (rule order.trans)
  also have "\<dots> < 8 * 4294967296" using assms(4) by simp
  finally have "tile_need w (length vs) < 4294967296" by (rule mult_less_cancel1 [THEN iffD1, THEN conjunct2])
  then have need: "ExRaBitQBitMajorTileVectorBytes (length vs) w = tile_need w (length vs)"
    using tile_vector_bytes_spec [of 0 w "length vs" 0] assms(1,2)
    by (simp add: ExRaBitQBitMajorTileVectorBytes_def)
  have "8 \<le> ExRaBitQBitMajorTileDims (length vs)"
    using tile_dims_cases [of "length vs"] assms(3) by auto
  then have "0 < ExRaBitQBitMajorTileDims (length vs) div 8" by (simp add: div_greater_zero_iff)
  then have pos: "0 < tile_need w (length vs)"
    using assms(1,3) by (subst tile_need.simps) simp
  obtain out where "pack_tiles w vs (replicate m 0) = Some out" "length out = m"
      "unpack_tiles w (length vs) out = vs"
    using tiles_roundtrip [of w vs m] assms(2,5,6) unfolding need by auto
  then show ?thesis
    using assms(1,2,6) pos need
    by (simp add: ExRaBitQPackOfficialBitMajorTiles_def ExRaBitQUnpackOfficialBitMajorTiles_def Let_def)
qed

lemma pack_each_too_big:
  assumes "v \<in> set vs" and "mx < unat v"
  shows "pack_each put mx vs k buf = None"
  using assms by (induction vs arbitrary: k buf) auto

lemma pack_tiles_too_big:
  "v \<in> set vs \<Longrightarrow> 2 ^ w - 1 < unat v \<Longrightarrow> pack_tiles w vs buf = None"
proof (induction w vs buf rule: pack_tiles.induct)
  case (1 w vs buf)
  define t where "t = ExRaBitQBitMajorTileDims (length vs)"
  define r where "r = min t (length vs)"
  have ne: "vs \<noteq> []" using "1.prems" by auto
  show ?case
  proof (cases "pack_each (put_planes (tile_byte (t div 8)) tile_shift w) (2 ^ w - 1) (take r vs) 0 buf")
    case None
    then show ?thesis using ne by (subst pack_tiles.simps) (simp add: Let_def t_def r_def)
  next
    case (Some a)
    then have "v \<notin> set (take r vs)" using pack_each_too_big "1.prems"(2) by fastforce
    then have "v \<in> set (drop r vs)" using "1.prems"(1) by (metis Un_iff append_take_drop_id set_append)
    then have "pack_tiles w (drop r vs) (drop (w * (t div 8)) a) = None"
      using "1.IH" [OF ne t_def refl r_def Some] "1.prems"(2) by blast
    then show ?thesis using ne Some
      by (subst pack_tiles.simps) (simp add: Let_def t_def [symmetric] r_def [symmetric])
  qed
qed

text \<open>C17: values below \<open>2 ^ w\<close> survive every stage-2 storage layout: packing them into the number of
  bytes the layout needs succeeds, and the matching unpacking routine returns them; the generic
  layout on every build, scalar or SIMD.  A value too large for the width is refused by all of them.\<close>

theorem magnitude_layouts_roundtrip:
  assumes "vs \<noteq> []" and "length vs < 67108864" and "1 \<le> w" and "w \<le> 4"
  shows "if \<forall>v \<in> set vs. unat v < 2 ^ w
    then (\<exists>out. ExRaBitQPackMagnitudes vs w (ExRaBitQPackedMagnitudeBytes (length vs) w) = Some out
        \<and> ExRaBitQUnpackMagnitudes build out (length vs) w = Some vs)
      \<and> (\<exists>out. ExRaBitQPackOfficialDirectBitplanes vs w ((length vs + 63) div 64 * (8 * w)) = Some out
        \<and> ExRaBitQUnpackOfficialDirectBitplanes out (length vs) w = Some vs)
      \<and> (w \<le> 3 \<longrightarrow> (\<exists>out. ExRaBitQPackOfficialBitMajorTiles vs w
            (ExRaBitQBitMajorTileVectorBytes (length vs) w) = Some out
          \<and> ExRaBitQUnpackOfficialBitMajorTiles out (length vs) w = Some vs))
      \<and> (w = 3 \<longrightarrow> (\<exists>out. ExRaBitQPackOfficialDirect3 vs kSplit3TwoPlusOne
            ((length vs + 63) div 64 * 24) = Some out
          \<and> ExRaBitQUnpackOfficialDirect3 out (length vs) kSplit3TwoPlusOne = Some vs))
      \<and> (w = 4 \<longrightarrow> (\<exists>out. ExRaBitQPackOfficialNibble4 vs ((length vs + 15) div 16 * 8) = Some out
          \<and> ExRaBitQUnpackOfficialNibble4 out (length vs) = Some vs))
      \<and> (w = 2 \<longrightarrow> (\<exists>out. ExRaBitQPackOfficial2Bit vs ((length vs + 63) div 64 * 16) = Some out
          \<and> ExRaBitQUnpackOfficial2Bit out (length vs) = Some vs))
    else ExRaBitQPackMagnitudes vs w m = None \<and> ExRaBitQPackOfficialDirectBitplanes vs w m = None
      \<and> ExRaBitQPackOfficialBitMajorTiles vs w m = None
      \<and> (w = 3 \<longrightarrow> ExRaBitQPackOfficialDirect3 vs layout m = None)
      \<and> (w = 4 \<longrightarrow> ExRaBitQPackOfficialNibble4 vs m = None)
      \<and> (w = 2 \<longrightarrow> ExRaBitQPackOfficial2Bit vs m = None)"
proof (cases "\<forall>v \<in> set vs. unat v < 2 ^ w")
  case True
  have n28: "length vs < 268435456" using assms(2) by simp
  have "length vs * w \<le> length vs * 4" using assms(4) by simp
  then have "wrap32 (length vs * w + 7) = length vs * w + 7" using assms(2) by (intro mod_less) linarith
  then have b: "(length vs * w + 7) div 8 \<le> ExRaBitQPackedMagnitudeBytes (length vs) w"
    unfolding ExRaBitQPackedMagnitudeBytes_def using assms(3,4) by simp
  have "w = 3 \<Longrightarrow> \<forall>v \<in> set vs. unat v < 8" and "w = 4 \<Longrightarrow> \<forall>v \<in> set vs. unat v < 16"
    and "w = 2 \<Longrightarrow> \<forall>v \<in> set vs. unat v < 4" using True by auto
  then show ?thesis unfolding if_P [OF True]
    using magnitudes_roundtrip [OF assms(3,4) n28 assms(1) b True]
      bitplanes_roundtrip [OF assms(3,4,2,1) order_refl True]
      tiles_pack_roundtrip [OF assms(3) _ assms(1) n28 True order_refl]
      direct3_roundtrip [OF _ assms(2,1) order_refl, of kSplit3TwoPlusOne]
      nibble4_roundtrip [OF assms(2,1) order_refl] two_bit_roundtrip [OF assms(2,1) order_refl]
    by blast
next
  case False
  then obtain v where v: "v \<in> set vs" and "2 ^ w \<le> unat v" by (auto simp: not_less)
  moreover have "0 < (2 :: nat) ^ w" by simp
  ultimately have big: "2 ^ w - 1 < unat v" by linarith
  have "w = 3 \<Longrightarrow> 7 < unat v" and "w = 4 \<Longrightarrow> 15 < unat v" and two: "w = 2 \<Longrightarrow> 3 < unat v"
    using big by simp_all
  note none = this [THEN pack_each_too_big [OF v]] pack_each_too_big [OF v big] pack_tiles_too_big [OF v big]
  have "ExRaBitQPackMagnitudes vs w m = None"
    using none unfolding ExRaBitQPackMagnitudes_def Let_def by (cases "w = 2") simp_all
  moreover have "ExRaBitQPackOfficialDirectBitplanes vs w m = None"
    using none unfolding ExRaBitQPackOfficialDirectBitplanes_def Let_def by simp
  moreover have "ExRaBitQPackOfficialBitMajorTiles vs w m = None"
    using none unfolding ExRaBitQPackOfficialBitMajorTiles_def Let_def by simp
  moreover have "w = 3 \<Longrightarrow> ExRaBitQPackOfficialDirect3 vs layout m = None"
    using none(1) unfolding ExRaBitQPackOfficialDirect3_def Let_def by simp
  moreover have "w = 4 \<Longrightarrow> ExRaBitQPackOfficialNibble4 vs m = None"
    using none(2) unfolding ExRaBitQPackOfficialNibble4_def Let_def by simp
  moreover have "w = 2 \<Longrightarrow> ExRaBitQPackOfficial2Bit vs m = None"
    using none(3) unfolding ExRaBitQPackOfficial2Bit_def Let_def by simp
  ultimately show ?thesis unfolding if_not_P [OF False] by blast
qed

theorem magnitude_layouts_roundtrip_witness:
  "(\<exists>out. ExRaBitQPackOfficialBitMajorTiles [1, 0, 3] 2 (ExRaBitQBitMajorTileVectorBytes 3 2) = Some out
      \<and> ExRaBitQUnpackOfficialBitMajorTiles out 3 2 = Some [1, 0, 3])
   \<and> ExRaBitQPackOfficialNibble4 [1, 16] 8 = None"
proof -
  have len: "length [1, 0, 3 :: u8] = 3" and len2: "length [1, 16 :: u8] = 2" by simp_all
  show ?thesis
    using magnitude_layouts_roundtrip [of "[1, 0, 3]" 2 Scalar 0 kGenericPacked, unfolded len]
      magnitude_layouts_roundtrip [of "[1, 16]" 4 Scalar 8 kGenericPacked, unfolded len2]
    by simp
qed

text \<open>A batch block: the lanes packed one by one decode to their values.\<close>

lemma unpack_lanes_spec:
  assumes "1 \<le> bits" and "bits \<le> 4" and "(dim_block * bits + 7) div 8 \<le> lane_bytes"
    and "\<forall>k \<in> set ks. k * lane_bytes + lane_bytes \<le> length packed"
  shows "unpack_lanes build packed lane_bytes dim_block bits ks =
    Some (concat (map (\<lambda>k. map (get_field bits (slice (k * lane_bytes) lane_bytes packed)) [0..<dim_block]) ks))"
  using assms(4)
proof (induction ks)
  case (Cons k ks)
  then have "lane_bytes \<le> length packed - k * lane_bytes" by (simp add: le_diff_conv2)
  then have "(dim_block * bits + 7) div 8 \<le> length (slice (k * lane_bytes) lane_bytes packed)"
    using assms(3) by simp
  then show ?case using Cons ExRaBitQUnpackMagnitudes_spec [OF assms(1,2)] by simp
qed simp

end
