(* ===== verification/Cluster_Format.thy ===== *)
theory Cluster_Format
  imports Pack_Codes Address_Column Ex_Magnitude
begin

text \<open>
  The cluster store's file format (the first part of src/storage/cluster_store.cpp and the inline
  functions of \<open>ClusterStoreReader\<close> in include/vdb/storage/cluster_store.h): versions and which
  configuration writes which, the layouts of the stage-2 payload, block sizes, page alignment, the
  global header and the lookup table.  \<open>getenv\<close> is the process environment.
\<close>

section \<open>Constants\<close>

definition kGlobalMagic :: nat where "kGlobalMagic = 0x4C4D4356"
definition kBlockMagic :: nat where "kBlockMagic = 0x424C4356"
definition kVariableExRegionMagic :: nat where "kVariableExRegionMagic = 0x315A5845"
definition kAddressFormatV2 :: nat where "kAddressFormatV2 = 2"
definition kMaxPathLen :: nat where "kMaxPathLen = 256"

lemmas magic_defs = kGlobalMagic_def kBlockMagic_def kVariableExRegionMagic_def
  kAddressFormatV2_def kMaxPathLen_def

section \<open>Codes\<close>

record rabitq_code =
  qc_code :: "u64 list"
  qc_norm :: f32
  qc_sum_x :: nat
  qc_bits :: nat
  qc_ex_code :: bytes
  qc_ex_sign :: bytes
  qc_xipnorm :: f32
  qc_sign_folded :: bool
  qc_factor_add :: f32
  qc_factor_rescale :: f32

section \<open>Layout predicates\<close>

definition PackedSignBytes :: "nat \<Rightarrow> nat" where
  "PackedSignBytes dim = wrap32 (dim + 7) div 8"

definition SupportsPackedStage2MagnitudeBits :: "nat \<Rightarrow> bool" where
  "SupportsPackedStage2MagnitudeBits bits \<longleftrightarrow> bits = 2 \<or> bits = 4"

definition SupportsOfficialExDataBits :: "nat \<Rightarrow> bool" where
  "SupportsOfficialExDataBits ex_bits \<longleftrightarrow>
     ex_bits = 0 \<or> ex_bits = 1 \<or> ex_bits = 2 \<or> ex_bits = 3 \<or> ex_bits = 4"

definition UsesVariableOfficialExDataLayout :: "ex_layout \<Rightarrow> bool" where
  "UsesVariableOfficialExDataLayout layout \<longleftrightarrow>
     (let resolved = RaBitQResolveSelectedExDataLayout layout
      in resolved = kSplit3TrimmedBitplanes \<or> resolved = kSplit3ZeroPlaneElide \<or>
         resolved = kVectorBitplanes \<or> resolved = kVectorBitplanesPrefetch \<or>
         resolved = kVectorBitplanesMicroBatch \<or> resolved = kVectorBitMajorTiles \<or>
         resolved = kVectorNibble4 \<or> resolved = kVector2Bit \<or>
         resolved = kSmallLane4Bitplanes \<or> resolved = kSmallLane2Bitplanes)"

definition IsVectorBitplanesLayout :: "ex_layout \<Rightarrow> bool" where
  "IsVectorBitplanesLayout layout \<longleftrightarrow>
     (let resolved = RaBitQResolveSelectedExDataLayout layout
      in resolved = kVectorBitplanes \<or> resolved = kVectorBitplanesPrefetch \<or>
         resolved = kVectorBitplanesMicroBatch)"

definition IsVectorBitMajorTileLayout :: "ex_layout \<Rightarrow> bool" where
  "IsVectorBitMajorTileLayout layout \<longleftrightarrow>
     RaBitQResolveSelectedExDataLayout layout = kVectorBitMajorTiles"

definition IsVectorContiguousOfficialLayout :: "ex_layout \<Rightarrow> bool" where
  "IsVectorContiguousOfficialLayout layout \<longleftrightarrow>
     (let resolved = RaBitQResolveSelectedExDataLayout layout
      in IsVectorBitplanesLayout resolved \<or> IsVectorBitMajorTileLayout resolved \<or>
         resolved = kVectorNibble4 \<or> resolved = kVector2Bit)"

definition IsSmallLaneBitplanesLayout :: "ex_layout \<Rightarrow> bool" where
  "IsSmallLaneBitplanesLayout layout \<longleftrightarrow>
     (let resolved = RaBitQResolveSelectedExDataLayout layout
      in resolved = kSmallLane4Bitplanes \<or> resolved = kSmallLane2Bitplanes)"

definition SmallLaneBitplanesGroupSize :: "ex_layout \<Rightarrow> nat" where
  "SmallLaneBitplanesGroupSize layout =
     (if RaBitQResolveSelectedExDataLayout layout = kSmallLane2Bitplanes then 2 else 4)"

section \<open>Which version a writer writes\<close>

text \<open>\<open>std::strtol\<close> in base 10: blanks, a sign, digits up to the first other character; a value out
  of range saturates.\<close>

definition is_blank :: "char \<Rightarrow> bool" where
  "is_blank c \<longleftrightarrow> of_char c = (32 :: nat) \<or> 9 \<le> (of_char c :: nat) \<and> (of_char c :: nat) \<le> 13"

definition is_digit :: "char \<Rightarrow> bool" where
  "is_digit c \<longleftrightarrow> 48 \<le> (of_char c :: nat) \<and> (of_char c :: nat) \<le> 57"

definition digits_value :: "string \<Rightarrow> int" where
  "digits_value ds = foldl (\<lambda>acc c. acc * 10 + (int (of_char c) - 48)) 0 ds"

definition strtol10 :: "string \<Rightarrow> int" where
  "strtol10 s =
     (let t = dropWhile is_blank s;
          (negative, ds) = (case t of
             [] \<Rightarrow> (False, [])
           | c # cs \<Rightarrow> if c = CHR ''-'' then (True, cs) else if c = CHR ''+'' then (False, cs)
                       else (False, t));
          v = digits_value (takeWhile is_digit ds)
      in if negative then max (- (2 ^ 63)) (- v) else min (2 ^ 63 - 1) v)"

definition EffectiveLegacyWriterFileVersion :: "(string \<Rightarrow> string option) \<Rightarrow> nat \<Rightarrow> nat" where
  "EffectiveLegacyWriterFileVersion getenv bits =
     (let default_version = (if 1 < bits \<and> \<not> SupportsPackedStage2MagnitudeBits bits then 11 else 12)
      in case getenv ''VDB_CLUSTER_STORE_VERSION'' of
           None \<Rightarrow> default_version
         | Some env \<Rightarrow>
             if env = [] then default_version
             else let ver = strtol10 env
               in if ver = 10 then 10 else if ver = 11 then 11 else if ver = 12 then 12
                  else default_version)"

definition EffectiveWriterFileVersion :: "(string \<Rightarrow> string option) \<Rightarrow> rabitq_config \<Rightarrow> nat" where
  "EffectiveWriterFileVersion getenv cfg =
     (if uses_official_1_plus_n cfg then
        if UsesVariableOfficialExDataLayout (effective_exdata_layout cfg) then 15
        else if RaBitQExDataLayoutIsDirect (effective_exdata_layout cfg) then 14 else 13
      else EffectiveLegacyWriterFileVersion getenv (rc_bits cfg))"

section \<open>Resident mode switches\<close>

definition env_enabled :: "string option \<Rightarrow> bool" where
  "env_enabled env = (case env of
     None \<Rightarrow> False
   | Some s \<Rightarrow> s \<noteq> [] \<and> hd s \<noteq> CHR ''0'' \<and> s \<noteq> ''false'' \<and> s \<noteq> ''off'')"

definition UseCompactResidentPreload :: "(string \<Rightarrow> string option) \<Rightarrow> bool" where
  "UseCompactResidentPreload getenv =
     (let mode = getenv ''VDB_RESIDENT_PRELOAD_MODE''; compact = getenv ''VDB_COMPACT_RESIDENT_PRELOAD''
      in if mode \<noteq> None \<and> mode \<noteq> Some [] then
           the mode \<notin> {''full_file'', ''full_file_mmap_2mb'', ''legacy_full_file'', ''legacy''}
         else compact \<notin> {Some ''0'', Some ''false'', Some ''off''})"

definition UseResidentHugePages :: "(string \<Rightarrow> string option) \<Rightarrow> bool" where
  "UseResidentHugePages getenv =
     (let env = getenv ''VDB_RESIDENT_HUGEPAGE''
      in env_enabled (if env = None \<or> env = Some [] then getenv ''VDB_MADVISE_HUGEPAGE'' else env))"

definition UseResidentHugePageCollapse :: "(string \<Rightarrow> string option) \<Rightarrow> bool" where
  "UseResidentHugePageCollapse getenv = env_enabled (getenv ''VDB_RESIDENT_HUGEPAGE_COLLAPSE'')"

definition UseAlignedMmapResidentFile :: "(string \<Rightarrow> string option) \<Rightarrow> bool" where
  "UseAlignedMmapResidentFile getenv =
     (if getenv ''VDB_RESIDENT_PRELOAD_MODE'' = Some ''full_file_mmap_2mb'' then True
      else if getenv ''VDB_RESIDENT_FILE_ALLOC''
        \<in> {Some ''mmap_2mb'', Some ''aligned_mmap'', Some ''mmap''} then True
      else env_enabled (getenv ''VDB_RESIDENT_MMAP_2MB''))"

definition UseCompactCodeSlabResidentPreload :: "(string \<Rightarrow> string option) \<Rightarrow> bool" where
  "UseCompactCodeSlabResidentPreload getenv =
     (if getenv ''VDB_RESIDENT_PRELOAD_MODE''
        \<in> {Some ''compact_code_mmap_2mb'', Some ''compact_code_slab_mmap_2mb''} then True
      else env_enabled (getenv ''VDB_RESIDENT_CODE_SLAB_MMAP_2MB''))"

definition UseStage1EnvelopePrecompute :: "(string \<Rightarrow> string option) \<Rightarrow> bool" where
  "UseStage1EnvelopePrecompute getenv = env_enabled (getenv ''VDB_STAGE1_PRECOMPUTE_ENVELOPE'')"

section \<open>Alignment\<close>

definition RoundUp4K :: "u64 \<Rightarrow> u64" where
  "RoundUp4K v = (v + 4096 - 1) AND NOT (4096 - 1)"

definition AlignUp64 :: "u64 \<Rightarrow> u64 \<Rightarrow> u64" where
  "AlignUp64 value alignment = (value + alignment - 1) AND NOT (alignment - 1)"

section \<open>Sizes of a cluster block\<close>

text \<open>The inline functions of \<open>ClusterStoreReader\<close>, from dimension, configuration and version.\<close>

definition num_code_words :: "nat \<Rightarrow> nat" where
  "num_code_words dim = wrap32 (dim + 63) div 64"

definition fastscan_packed_size :: "nat \<Rightarrow> nat" where
  "fastscan_packed_size dim = wrap32 (wrap32 (dim + 7) div 8 * 32)"

definition fastscan_block_bytes :: "nat \<Rightarrow> nat" where
  "fastscan_block_bytes dim = wrap32 (fastscan_packed_size dim + 32 * 4)"

definition exrabitq_sign_bytes :: "rabitq_config \<Rightarrow> nat \<Rightarrow> nat \<Rightarrow> nat" where
  "exrabitq_sign_bytes cfg version dim =
     (if uses_official_1_plus_n cfg then 0
      else if rc_bits cfg \<le> 1 then 0
      else if 10 \<le> version then wrap32 (dim + 7) div 8
      else dim)"

definition exrabitq_entry_size :: "rabitq_config \<Rightarrow> nat \<Rightarrow> nat \<Rightarrow> nat" where
  "exrabitq_entry_size cfg version dim =
     (if rc_bits cfg \<le> 1 then 0
      else if 11 \<le> version then 0
      else wrap32 (dim + exrabitq_sign_bytes cfg version dim + 4))"

definition exrabitq_num_batch_blocks :: "nat \<Rightarrow> nat" where
  "exrabitq_num_batch_blocks num_records = wrap32 (num_records + 8 - 1) div 8"

definition exrabitq_dim_block_count :: "nat \<Rightarrow> nat" where
  "exrabitq_dim_block_count dim = wrap32 (dim + 64 - 1) div 64"

definition exrabitq_magnitude_packed :: "rabitq_config \<Rightarrow> nat \<Rightarrow> bool" where
  "exrabitq_magnitude_packed cfg version \<longleftrightarrow> 0 < stage2_payload_bits cfg \<and> 12 \<le> version"

definition exrabitq_abs_bytes_per_lane_dim_block :: "rabitq_config \<Rightarrow> nat \<Rightarrow> nat" where
  "exrabitq_abs_bytes_per_lane_dim_block cfg version =
     (let stage2_bits = stage2_payload_bits cfg
      in if stage2_bits = 0 \<or> version < 11 then 0
         else if 12 \<le> version then wrap32 (64 * stage2_bits + 7) div 8
         else 64)"

definition exrabitq_batch_block_size :: "rabitq_config \<Rightarrow> nat \<Rightarrow> nat \<Rightarrow> nat" where
  "exrabitq_batch_block_size cfg version dim =
     (if stage2_payload_bits cfg = 0 \<or> version < 11 then 0
      else
        let blocks = exrabitq_dim_block_count dim; official = uses_official_1_plus_n cfg;
            abs_bytes = blocks * 8 * exrabitq_abs_bytes_per_lane_dim_block cfg version;
            sign_bytes = (if official then 0 else blocks * 8 * (64 div 8));
            factor_count = (if official then 8 * 2 else 8)
        in wrap32 (4 + abs_bytes + sign_bytes + factor_count * 4))"

section \<open>Global header and lookup table\<close>

record lookup_entry =
  le_cluster_id :: nat
  le_num_records :: nat
  le_epsilon :: f32
  le_centroid :: "f32 list"
  le_block_offset :: nat
  le_block_size :: nat
  le_num_fastscan :: nat
  le_ex_offset :: nat

text \<open>The entries a \<open>resize\<close> makes; the members without initialiser are value-initialised.\<close>

definition lookup_entry_new :: lookup_entry where
  "lookup_entry_new = \<lparr>le_cluster_id = 0, le_num_records = 0, le_epsilon = 0, le_centroid = [],
     le_block_offset = 0, le_block_size = 0, le_num_fastscan = 0, le_ex_offset = 0\<rparr>"

definition f32_bytes :: "f32 \<Rightarrow> bytes" where
  "f32_bytes x = le_bytes 4 (unat x)"

definition lookup_entry_size :: "nat \<Rightarrow> nat" where
  "lookup_entry_size dim = wrap64 (4 + 4 + 4 + dim * 4 + 8 + 8 + 4 + 4)"

definition lookup_entry_bytes :: "lookup_entry \<Rightarrow> bytes" where
  "lookup_entry_bytes e = le_bytes 4 (le_cluster_id e) @ le_bytes 4 (le_num_records e)
     @ f32_bytes (le_epsilon e) @ concat (map f32_bytes (le_centroid e))
     @ le_bytes 8 (le_block_offset e) @ le_bytes 8 (le_block_size e)
     @ le_bytes 4 (le_num_fastscan e) @ le_bytes 4 (le_ex_offset e)"

text \<open>The header up to the data file path.\<close>

definition header_prefix :: "nat \<Rightarrow> nat \<Rightarrow> nat \<Rightarrow> rabitq_config \<Rightarrow> bytes" where
  "header_prefix version num_clusters dim cfg =
     le_bytes 4 kGlobalMagic @ le_bytes 4 version @ le_bytes 4 num_clusters @ le_bytes 4 dim
     @ le_bytes 1 (rc_bits cfg) @ le_bytes 4 (rc_block_size cfg) @ f32_bytes (rc_c_factor cfg)
     @ (if 13 \<le> version
        then le_bytes 1 (rc_total_bits cfg) @ le_bytes 1 (rc_ex_bits cfg)
          @ le_bytes 1 (estimator_mode_code (rc_mode cfg))
          @ (if 14 \<le> version then le_bytes 1 (ex_layout_code (rc_layout cfg)) else [])
        else [])"

section \<open>Facts\<close>

lemma RoundUp4K_unat: "unat (RoundUp4K v) = (unat v + 4095) mod 18446744073709551616 div 4096 * 4096"
proof -
  have m: "(4096 - 1 :: u64) = mask 12" by (simp add: mask_eq_exp_minus_1)
  have v: "v + 4096 - 1 = v + 4095" by simp
  have "RoundUp4K v = (v + 4095) AND NOT (mask 12)" unfolding RoundUp4K_def m v ..
  also have "\<dots> = push_bit 12 (drop_bit 12 (v + 4095))"
    by (rule bit_word_eqI) (auto simp: bit_simps)
  finally have "RoundUp4K v = push_bit 12 (drop_bit 12 (v + 4095))" .
  then have "unat (RoundUp4K v) = take_bit 64 (push_bit 12 (unat (drop_bit 12 (v + 4095))))"
    by (simp add: unsigned_push_bit_eq)
  also have "unat (drop_bit 12 (v + 4095)) = (unat v + 4095) mod 18446744073709551616 div 4096"
    by (simp add: unsigned_drop_bit_eq drop_bit_eq_div unat_word_ariths)
  finally have e: "unat (RoundUp4K v) =
      (unat v + 4095) mod 18446744073709551616 div 4096 * 4096 mod 18446744073709551616"
    by (simp add: take_bit_eq_mod push_bit_eq_mult)
  have "x div 4096 * 4096 < 18446744073709551616" if "x < 18446744073709551616" for x :: nat
    using that div_times_less_eq_dividend [of x 4096] by linarith
  then show ?thesis unfolding e by simp
qed

lemma length_lookup_entry_bytes:
  "length (lookup_entry_bytes e) = 36 + 4 * length (le_centroid e)"
proof -
  have "length (concat (map f32_bytes xs)) = 4 * length xs" for xs
    by (induction xs) (simp_all add: f32_bytes_def)
  then show ?thesis by (simp add: lookup_entry_bytes_def f32_bytes_def)
qed

lemma length_f32_bytes [simp]: "length (f32_bytes x) = 4"
  by (simp add: f32_bytes_def)

lemma le_nat_f32_bytes [simp]: "of_nat (le_nat (f32_bytes x)) = (x :: f32)"
proof -
  have "unat x < 256 ^ 4" using unat_bound32 [of x] by simp
  then show ?thesis by (simp add: f32_bytes_def le_nat_le_bytes)
qed

lemma length_header_prefix:
  "length (header_prefix version num_clusters dim cfg) =
    (if version < 13 then 25 else if version < 14 then 28 else 29)"
  by (simp add: header_prefix_def)

text \<open>The reader sees the same block sizes the writer computes.\<close>

lemma fastscan_sizes:
  "fastscan_packed_size dim = FastScanPackedSize dim" "fastscan_block_bytes dim = FastScanBlockSize dim"
  by (simp_all add: fastscan_packed_size_def fastscan_block_bytes_def FastScanPackedSize_def
      FastScanBlockSize_def)

end
