(* ===== verification/Float_Arith.thy ===== *)
theory Float_Arith
  imports Float_Order
begin

text \<open>
  IEEE 754 single-precision arithmetic in round-to-nearest-even, as the scalar code performs it.
  Every finite \<open>float\<close> is an integer number of units \<open>2 ^ -149\<close>, so sums, products and quotients
  are exact rational numbers of units and one rounding function serves all operators.  A result
  that is no number is the canonical quiet NaN; the code never looks at a NaN's payload or sign.
\<close>

section \<open>Values\<close>

definition f32_nan :: f32 where
  "f32_nan = 0x7FC00000"

definition f32_is_inf :: "f32 \<Rightarrow> bool" where
  "f32_is_inf w \<longleftrightarrow> f32_mag w = 2139095040"

definition f32_is_finite :: "f32 \<Rightarrow> bool" where
  "f32_is_finite w \<longleftrightarrow> f32_mag w < 2139095040"

text \<open>The magnitude of a finite value in units of \<open>2 ^ -149\<close>: 23 bits of mantissa, then the
  exponent.\<close>

definition mag_units :: "nat \<Rightarrow> nat" where
  "mag_units m = (if m < 8388608 then m else (m mod 8388608 + 8388608) * 2 ^ (m div 8388608 - 1))"

definition f32_units :: "f32 \<Rightarrow> int" where
  "f32_units w = (if f32_neg w then - int (mag_units (f32_mag w)) else int (mag_units (f32_mag w)))"

section \<open>Rounding\<close>

text \<open>The number of binary digits.\<close>

fun bit_len :: "nat \<Rightarrow> nat" where
  "bit_len n = (if n = 0 then 0 else Suc (bit_len (n div 2)))"

declare bit_len.simps [simp del]

text \<open>The quotient rounded to the nearest integer, ties to even.\<close>

definition div_round :: "nat \<Rightarrow> nat \<Rightarrow> nat" where
  "div_round p q =
     (let t = p div q; r = p mod q
      in if 2 * r < q then t else if q < 2 * r then t + 1 else if even t then t else t + 1)"

text \<open>\<open>p / q\<close> units to the magnitude of the nearest \<open>float\<close>: keep 24 digits; the carry of a
  rounding that reaches the next power of two runs into the exponent by itself, and what reaches
  the pattern of infinity is infinity.\<close>

definition round_mag :: "nat \<Rightarrow> nat \<Rightarrow> nat" where
  "round_mag p q =
     (let s = bit_len (p div q) - 24
      in min 2139095040 (s * 8388608 + div_round p (q * 2 ^ s)))"

definition f32_of_mag :: "bool \<Rightarrow> nat \<Rightarrow> f32" where
  "f32_of_mag neg m = of_nat (if neg then m + 2147483648 else m)"

section \<open>Operators\<close>

definition f32_neg_of :: "f32 \<Rightarrow> f32" where
  "f32_neg_of w = w XOR 0x80000000"

definition f32_add :: "f32 \<Rightarrow> f32 \<Rightarrow> f32" where
  "f32_add a b =
     (if f32_is_nan a \<or> f32_is_nan b then f32_nan
      else if f32_is_inf a then (if f32_is_inf b \<and> f32_neg a \<noteq> f32_neg b then f32_nan else a)
      else if f32_is_inf b then b
      else let v = f32_units a + f32_units b
        in if v = 0 then f32_of_mag (f32_neg a \<and> f32_neg b) 0
           else f32_of_mag (v < 0) (round_mag (nat \<bar>v\<bar>) 1))"

definition f32_sub :: "f32 \<Rightarrow> f32 \<Rightarrow> f32" where
  "f32_sub a b = f32_add a (f32_neg_of b)"

text \<open>A product is a number of units \<open>2 ^ -298\<close>.\<close>

definition f32_mul :: "f32 \<Rightarrow> f32 \<Rightarrow> f32" where
  "f32_mul a b =
     (let neg = (f32_neg a \<noteq> f32_neg b)
      in if f32_is_nan a \<or> f32_is_nan b then f32_nan
         else if f32_is_inf a \<or> f32_is_inf b then
           (if f32_mag a = 0 \<or> f32_mag b = 0 then f32_nan else f32_of_mag neg 2139095040)
         else f32_of_mag neg (round_mag (mag_units (f32_mag a) * mag_units (f32_mag b)) (2 ^ 149)))"

definition f32_div :: "f32 \<Rightarrow> f32 \<Rightarrow> f32" where
  "f32_div a b =
     (let neg = (f32_neg a \<noteq> f32_neg b)
      in if f32_is_nan a \<or> f32_is_nan b then f32_nan
         else if f32_is_inf a then (if f32_is_inf b then f32_nan else f32_of_mag neg 2139095040)
         else if f32_is_inf b then f32_of_mag neg 0
         else if f32_mag b = 0 then (if f32_mag a = 0 then f32_nan else f32_of_mag neg 2139095040)
         else f32_of_mag neg (round_mag (mag_units (f32_mag a) * 2 ^ 149) (mag_units (f32_mag b))))"

text \<open>\<open>static_cast<float>\<close> of an unsigned integer.\<close>

definition f32_of_nat :: "nat \<Rightarrow> f32" where
  "f32_of_nat n = f32_of_mag False (round_mag (n * 2 ^ 149) 1)"

end
