(* ===== verification/Ex_Region.thy ===== *)
theory Ex_Region
  imports Cluster_Format Float_Arith
begin

text \<open>
  The stage-2 (ExRaBitQ) region of a cluster block (src/storage/cluster_store.cpp): what
  \<open>WriteVectors\<close> writes behind the FastScan blocks in each file version, and how \<open>LoadCodes\<close> finds
  the code of one record in it.
   \<^item> version 15: a region with an offset table; its batch blocks hold only the valid lanes, in one
     of eight arrangements;
   \<^item> versions 11 to 14: batch blocks of fixed size with eight lanes;
   \<^item> older versions: one entry per record.
  A batch is eight codes, a dimension block 64 dimensions.
\<close>

section \<open>Results collected over a list\<close>

fun map_each :: "('a \<Rightarrow> 'e + 'b) \<Rightarrow> 'a list \<Rightarrow> 'e + 'b list" where
  "map_each f [] = Inr []"
| "map_each f (x # xs) = res_bind (f x) (\<lambda>y. res_bind (map_each f xs) (\<lambda>ys. Inr (y # ys)))"

definition append_each :: "('a \<Rightarrow> 'e + bytes) \<Rightarrow> 'a list \<Rightarrow> 'e + bytes" where
  "append_each f xs = res_bind (map_each f xs) (\<lambda>bs. Inr (concat bs))"

text \<open>What a loop has written to the file when an element is refused.\<close>

fun write_each :: "('a \<Rightarrow> error + bytes) \<Rightarrow> 'a list \<Rightarrow> bytes \<times> error option" where
  "write_each f [] = ([], None)"
| "write_each f (x # xs) =
     (case f x of
        Inl e \<Rightarrow> ([], Some e)
      | Inr b \<Rightarrow> (let (bs, e) = write_each f xs in (b @ bs, e)))"

definition or_error :: "error \<Rightarrow> 'a option \<Rightarrow> error + 'a" where
  "or_error e r = (case r of None \<Rightarrow> Inl e | Some x \<Rightarrow> Inr x)"

abbreviation invalid :: "string \<Rightarrow> error" where
  "invalid msg \<equiv> (kInvalidArgument, msg)"

definition bad_value :: error where
  "bad_value = invalid ''ExRaBitQ code contains value outside bit-width range''"

section \<open>One lane of a dimension block\<close>

text \<open>\<open>abs_buf\<close>: the 64 values from dimension \<open>64 db\<close> on, zeros beyond the last dimension.\<close>

definition dim_chunk :: "nat \<Rightarrow> bytes \<Rightarrow> nat \<Rightarrow> bytes" where
  "dim_chunk dim values db =
     (let copy = min 64 (dim - db * 64) in slice (db * 64) copy values @ replicate (64 - copy) 0)"

definition check_folded :: "nat \<Rightarrow> string \<Rightarrow> rabitq_code \<Rightarrow> status" where
  "check_folded dim msg code =
     (if length (qc_ex_code code) \<noteq> dim then Inl (invalid ''ExRaBitQ code size mismatch with dim'')
      else if \<not> qc_sign_folded code then Inl (invalid msg)
      else Inr ())"

definition planes_chunk :: "nat \<Rightarrow> nat \<Rightarrow> nat \<Rightarrow> rabitq_code \<Rightarrow> nat \<Rightarrow> error + bytes" where
  "planes_chunk bits lane_bytes dim code db = or_error bad_value
     (ExRaBitQPackOfficialDirectBitplanes (dim_chunk dim (qc_ex_code code) db) bits lane_bytes)"

definition two_bit_chunk :: "nat \<Rightarrow> nat \<Rightarrow> rabitq_code \<Rightarrow> nat \<Rightarrow> error + bytes" where
  "two_bit_chunk lane_bytes dim code db =
     or_error (invalid ''ExRaBitQ code contains value outside 2-bit range'')
       (ExRaBitQPackOfficial2Bit (dim_chunk dim (qc_ex_code code) db) lane_bytes)"

definition nibble_chunk :: "nat \<Rightarrow> nat \<Rightarrow> rabitq_code \<Rightarrow> nat \<Rightarrow> error + bytes" where
  "nibble_chunk lane_bytes dim code db =
     or_error (invalid ''ExRaBitQ code contains value outside 4-bit range'')
       (ExRaBitQPackOfficialNibble4 (dim_chunk dim (qc_ex_code code) db) lane_bytes)"

section \<open>The arrangements of version 15\<close>

text \<open>Each vector contiguous.\<close>

definition vector_lanes ::
    "(rabitq_code \<Rightarrow> nat \<Rightarrow> error + bytes) \<Rightarrow> string \<Rightarrow> nat \<Rightarrow> rabitq_code list \<Rightarrow> error + bytes" where
  "vector_lanes pack msg dim codes = append_each (\<lambda>code.
     res_bind (check_folded dim msg code)
       (\<lambda>_. append_each (pack code) [0..<exrabitq_dim_block_count dim])) codes"

definition tile_lanes :: "nat \<Rightarrow> nat \<Rightarrow> rabitq_code list \<Rightarrow> error + bytes" where
  "tile_lanes bits dim codes =
     (let vector_bytes = ExRaBitQBitMajorTileVectorBytes dim bits
      in if vector_bytes = 0 then
           Inl (invalid ''unsupported vector_bitmajor_tiles Stage2 payload width'')
         else append_each (\<lambda>code.
           res_bind (check_folded dim
               ''official ExRaBitQ bit-major tile layout requires sign-folded ExData'' code)
             (\<lambda>_. or_error bad_value
               (ExRaBitQPackOfficialBitMajorTiles (qc_ex_code code) bits vector_bytes))) codes)"

text \<open>Groups of two or four lanes, dimension block by dimension block within a group.\<close>

definition small_lanes :: "nat \<Rightarrow> nat \<Rightarrow> nat \<Rightarrow> nat \<Rightarrow> rabitq_code list \<Rightarrow> error + bytes" where
  "small_lanes subgroup bits lane_bytes dim codes =
     append_each (\<lambda>g. append_each (\<lambda>db. append_each (\<lambda>code.
         res_bind (check_folded dim
             ''official ExRaBitQ small-lane layout requires sign-folded ExData'' code)
           (\<lambda>_. planes_chunk bits lane_bytes dim code db))
         (slice (g * subgroup) subgroup codes)) [0..<exrabitq_dim_block_count dim])
       [0..<(length codes + subgroup - 1) div subgroup]"

definition trimmed_lanes :: "nat \<Rightarrow> nat \<Rightarrow> nat \<Rightarrow> rabitq_code list \<Rightarrow> error + bytes" where
  "trimmed_lanes bits lane_bytes dim codes =
     append_each (\<lambda>db. append_each (\<lambda>code.
         res_bind (check_folded dim ''official ExRaBitQ v15 requires sign-folded ExData'' code)
           (\<lambda>_. planes_chunk bits lane_bytes dim code db)) codes) [0..<exrabitq_dim_block_count dim]"

text \<open>Plane by plane: a mask of the lanes whose 64-bit word is not zero, then those words.\<close>

definition plane_word :: "nat \<Rightarrow> bytes \<Rightarrow> bytes" where
  "plane_word p packed = slice (p * 8) 8 packed"

definition nonzero_mask :: "nat \<Rightarrow> bytes list \<Rightarrow> u8" where
  "nonzero_mask p lanes = foldl (\<lambda>m lane. if plane_word p (lanes ! lane) \<noteq> replicate 8 0
     then m OR push_bit lane 1 else m) 0 [0..<length lanes]"

definition elided_plane :: "bytes list \<Rightarrow> nat \<Rightarrow> bytes" where
  "elided_plane lanes p =
     nonzero_mask p lanes # concat (map (\<lambda>lane. if bit (nonzero_mask p lanes) lane
       then plane_word p (lanes ! lane) else []) [0..<length lanes])"

definition elided_lanes :: "nat \<Rightarrow> nat \<Rightarrow> nat \<Rightarrow> rabitq_code list \<Rightarrow> error + bytes" where
  "elided_lanes bits lane_bytes dim codes =
     append_each (\<lambda>db. res_bind (map_each (\<lambda>code.
         res_bind (check_folded dim ''official ExRaBitQ v15 requires sign-folded ExData'' code)
           (\<lambda>_. planes_chunk bits lane_bytes dim code db)) codes)
       (\<lambda>lanes. Inr (concat (map (elided_plane lanes) [0..<bits])))) [0..<exrabitq_dim_block_count dim]"

definition variable_payload :: "ex_layout \<Rightarrow> nat \<Rightarrow> nat \<Rightarrow> nat \<Rightarrow> rabitq_code list \<Rightarrow> error + bytes" where
  "variable_payload layout bits lane_bytes dim codes =
     (if IsVectorBitplanesLayout layout then
        vector_lanes (planes_chunk bits lane_bytes dim)
          ''official ExRaBitQ vector layout requires sign-folded ExData'' dim codes
      else if IsVectorBitMajorTileLayout layout then tile_lanes bits dim codes
      else if IsSmallLaneBitplanesLayout layout then
        small_lanes (SmallLaneBitplanesGroupSize layout) bits lane_bytes dim codes
      else if layout = kVector2Bit then
        vector_lanes (two_bit_chunk lane_bytes dim)
          ''official ExRaBitQ vector 2-bit layout requires sign-folded ExData'' dim codes
      else if layout = kVectorNibble4 then
        vector_lanes (nibble_chunk lane_bytes dim)
          ''official ExRaBitQ vector nibble layout requires sign-folded ExData'' dim codes
      else if layout = kSplit3TrimmedBitplanes then trimmed_lanes bits lane_bytes dim codes
      else if layout = kSplit3ZeroPlaneElide then elided_lanes bits lane_bytes dim codes
      else Inr [])"

text \<open>A batch block: the number of lanes, the payload, the two factors of each lane.\<close>

definition factor_bytes :: "rabitq_code list \<Rightarrow> bytes" where
  "factor_bytes codes = concat (map (\<lambda>c. f32_bytes (qc_factor_add c)) codes)
     @ concat (map (\<lambda>c. f32_bytes (qc_factor_rescale c)) codes)"

definition variable_block :: "ex_layout \<Rightarrow> nat \<Rightarrow> nat \<Rightarrow> nat \<Rightarrow> rabitq_code list \<Rightarrow> error + bytes" where
  "variable_block layout bits lane_bytes dim codes =
     res_bind (variable_payload layout bits lane_bytes dim codes)
       (\<lambda>payload. Inr (le_bytes 4 (length codes) @ payload @ factor_bytes codes))"

text \<open>Batch \<open>bb\<close> of the codes.\<close>

definition batch :: "rabitq_code list \<Rightarrow> nat \<Rightarrow> rabitq_code list" where
  "batch codes bb = slice (bb * 8) 8 codes"

fun block_offsets :: "nat \<Rightarrow> bytes list \<Rightarrow> nat list" where
  "block_offsets pos [] = [wrap32 pos]"
| "block_offsets pos (b # bs) = wrap32 pos # block_offsets (pos + length b) bs"

definition variable_layout_error :: "ex_layout \<Rightarrow> nat \<Rightarrow> error option" where
  "variable_layout_error layout bits =
     (if layout = kVectorNibble4 \<and> bits \<noteq> 4 then
        Some (invalid ''vector_nibble4 official ExData layout requires ex_bits=4'')
      else if layout = kVector2Bit \<and> bits \<noteq> 2 then
        Some (invalid ''vector_2bit official ExData layout requires ex_bits=2'')
      else if layout = kVectorBitMajorTiles \<and> (bits < 1 \<or> 3 < bits) then
        Some (invalid ''vector_bitmajor_tiles official ExData layout requires ex_bits=1,2,3'')
      else if layout \<noteq> kVectorNibble4 \<and> layout \<noteq> kVector2Bit \<and> layout \<noteq> kVectorBitMajorTiles
          \<and> \<not> IsSmallLaneBitplanesLayout layout \<and> \<not> IsVectorBitplanesLayout layout \<and> bits \<noteq> 3 then
        Some (invalid ''variable official ExData layouts currently require ex_bits=3'')
      else None)"

text \<open>The region is built in memory; its header is magic, number of blocks, offsets.\<close>

definition variable_region :: "ex_layout \<Rightarrow> nat \<Rightarrow> nat \<Rightarrow> nat \<Rightarrow> rabitq_code list \<Rightarrow> error + bytes" where
  "variable_region layout bits lane_bytes dim codes =
     (case variable_layout_error layout bits of
        Some e \<Rightarrow> Inl e
      | None \<Rightarrow>
          let num_blocks = exrabitq_num_batch_blocks (length codes);
              header_bytes = 8 + (num_blocks + 1) * 4
          in res_bind (map_each (\<lambda>bb. variable_block layout bits lane_bytes dim (batch codes bb))
               [0..<num_blocks])
             (\<lambda>blocks. Inr (le_bytes 4 kVariableExRegionMagic @ le_bytes 4 num_blocks
               @ concat (map (le_bytes 4) (block_offsets header_bytes blocks)) @ concat blocks)))"

section \<open>The fixed batch blocks of versions 11 to 14\<close>

text \<open>The magnitudes of a lane; lanes beyond the last code are zeros.\<close>

definition fixed_lane ::
    "rabitq_config \<Rightarrow> nat \<Rightarrow> nat \<Rightarrow> rabitq_code list \<Rightarrow> nat \<times> nat \<Rightarrow> error + bytes" where
  "fixed_lane cfg version dim codes db_lane =
     (let (db, lane) = db_lane; official = uses_official_1_plus_n cfg;
          stage2_bits = stage2_payload_bits cfg; layout = effective_exdata_layout cfg;
          lane_bytes = (if 12 \<le> version then ExRaBitQPackedMagnitudeBytes 64 stage2_bits else 64);
          code = codes ! lane
      in if lane < length codes \<and> length (qc_ex_code code) \<noteq> dim then
           Inl (invalid ''ExRaBitQ code size mismatch with dim'')
         else if lane < length codes \<and> official \<and> \<not> qc_sign_folded code then
           Inl (invalid ''official ExRaBitQ v13 requires sign-folded ExData'')
         else if lane < length codes \<and> \<not> official
             \<and> length (qc_ex_sign code) \<noteq> PackedSignBytes dim then
           Inl (invalid ''ExRaBitQ code/sign size mismatch with dim'')
         else
           let abs_buf = (if lane < length codes then dim_chunk dim (qc_ex_code code) db
                          else replicate 64 0)
           in if 12 \<le> version then
                or_error bad_value
                  (if official \<and> RaBitQExDataLayoutIsDirect layout then
                     if layout = kSplit3TwoPlusOne
                     then ExRaBitQPackOfficialDirect3 abs_buf layout lane_bytes
                     else ExRaBitQPackOfficialDirectBitplanes abs_buf stage2_bits lane_bytes
                   else ExRaBitQPackMagnitudes abs_buf stage2_bits lane_bytes)
              else Inr abs_buf)"

definition fixed_signs :: "nat \<Rightarrow> rabitq_code list \<Rightarrow> bytes" where
  "fixed_signs dim codes = concat (map (\<lambda>db. concat (map (\<lambda>lane.
     let sign_offset = db * 64 div 8; sign_bytes = PackedSignBytes dim;
         sign_copy = (if sign_offset < sign_bytes then min 8 (sign_bytes - sign_offset) else 0)
     in if lane < length codes \<and> 0 < sign_copy
        then slice sign_offset sign_copy (qc_ex_sign (codes ! lane)) @ replicate (8 - sign_copy) 0
        else replicate 8 0) [0..<8])) [0..<exrabitq_dim_block_count dim])"

definition fixed_factors :: "rabitq_config \<Rightarrow> rabitq_code list \<Rightarrow> bytes" where
  "fixed_factors cfg codes =
     (let lane_float = (\<lambda>sel. concat (map (\<lambda>lane.
            f32_bytes (if lane < length codes then sel (codes ! lane) else 0)) [0..<8]))
      in if uses_official_1_plus_n cfg then lane_float qc_factor_add @ lane_float qc_factor_rescale
         else lane_float qc_xipnorm)"

text \<open>What is written for one batch, up to the refusal of a lane.\<close>

definition fixed_block ::
    "rabitq_config \<Rightarrow> nat \<Rightarrow> nat \<Rightarrow> rabitq_code list \<Rightarrow> bytes \<times> error option" where
  "fixed_block cfg version dim codes =
     (let (abs, e) = write_each (fixed_lane cfg version dim codes)
            [(db, lane). db \<leftarrow> [0..<exrabitq_dim_block_count dim], lane \<leftarrow> [0..<8]]
      in case e of
           Some err \<Rightarrow> (le_bytes 4 (length codes) @ abs, Some err)
         | None \<Rightarrow> (le_bytes 4 (length codes) @ abs
             @ (if uses_official_1_plus_n cfg then [] else fixed_signs dim codes)
             @ fixed_factors cfg codes, None))"

text \<open>The entry of one code in older versions.\<close>

definition legacy_entry :: "nat \<Rightarrow> rabitq_code \<Rightarrow> error + bytes" where
  "legacy_entry dim code =
     (if length (qc_ex_code code) \<noteq> dim \<or> length (qc_ex_sign code) \<noteq> PackedSignBytes dim then
        Inl (invalid ''ExRaBitQ code/sign size mismatch with dim'')
      else Inr (qc_ex_code code @ qc_ex_sign code @ f32_bytes (qc_xipnorm code)))"

section \<open>Reading one record's code\<close>

text \<open>\<open>buf\<close> is the code buffer of the loaded cluster and \<open>region1\<close> the size of its FastScan part.
  A read outside the buffer is \<open>None\<close>.\<close>

definition rd :: "bytes \<Rightarrow> nat \<Rightarrow> nat \<Rightarrow> bytes option" where
  "rd buf off len = (if off + len \<le> length buf then Some (slice off len buf) else None)"

definition rd_nat :: "bytes \<Rightarrow> nat \<Rightarrow> nat option" where
  "rd_nat buf off = map_option le_nat (rd buf off 4)"

definition PopcountLow8 :: "u8 \<Rightarrow> nat" where
  "PopcountLow8 v = length (filter (bit v) [0..<8])"

text \<open>Where block \<open>block_id\<close> starts and how long it is.\<close>

definition locate_block ::
    "rabitq_config \<Rightarrow> nat \<Rightarrow> nat \<Rightarrow> bool \<Rightarrow> bytes \<Rightarrow> nat \<Rightarrow> nat \<Rightarrow> (error + nat \<times> nat) option" where
  "locate_block cfg version dim variable_ex buf region1 block_id =
     (if variable_ex then do {
        magic \<leftarrow> rd_nat buf region1;
        stored \<leftarrow> rd_nat buf (region1 + 4);
        (if magic \<noteq> kVariableExRegionMagic \<or> stored \<le> block_id then
           Some (Inl (kCorruption, ''Variable ExRaBitQ region header mismatch''))
         else do {
           block_begin \<leftarrow> rd_nat buf (region1 + 8 + 4 * block_id);
           block_end \<leftarrow> rd_nat buf (region1 + 8 + 4 * (block_id + 1));
           Some (if block_end < block_begin \<or> length buf - region1 < block_end then
                   Inl (kCorruption, ''Variable ExRaBitQ block offset out of range'')
                 else Inr (region1 + block_begin, block_end - block_begin))
         })
      } else
        let size = exrabitq_batch_block_size cfg version dim
        in Some (Inr (region1 + block_id * size, size)))"

text \<open>The stored bytes of a lane in the planes of a dimension block: with zero planes left out,
  \<open>cursor\<close> walks through the masks and words.\<close>

definition elided_word :: "bytes \<Rightarrow> nat \<Rightarrow> nat \<Rightarrow> (bytes \<times> nat) option" where
  "elided_word buf lane cursor = do {
     mask_byte \<leftarrow> rd buf cursor 1;
     (let m = hd mask_byte; rank = PopcountLow8 (m AND (push_bit lane 1 - 1)); count = PopcountLow8 m
      in if bit m lane then do {
           word \<leftarrow> rd buf (cursor + 1 + rank * 8) 8;
           Some (word, cursor + 1 + count * 8)
         } else Some (replicate 8 0, cursor + 1 + count * 8))
   }"

fun elided_words :: "bytes \<Rightarrow> nat \<Rightarrow> nat \<Rightarrow> nat \<Rightarrow> (bytes \<times> nat) option" where
  "elided_words buf lane 0 cursor = Some ([], cursor)"
| "elided_words buf lane (Suc planes) cursor = do {
     (word, cursor1) \<leftarrow> elided_word buf lane cursor;
     (rest, cursor2) \<leftarrow> elided_words buf lane planes cursor1;
     Some (word @ rest, cursor2)
   }"

text \<open>Offset of a lane's bytes in the other arrangements.\<close>

definition lane_offset :: "ex_layout \<Rightarrow> bool \<Rightarrow> nat \<Rightarrow> nat \<Rightarrow> nat \<Rightarrow> nat \<Rightarrow> nat \<Rightarrow> nat \<Rightarrow> nat" where
  "lane_offset layout variable_ex num_dim_blocks lane_bytes valid stored lane db =
     (if variable_ex \<and> IsVectorContiguousOfficialLayout layout then
        (lane * num_dim_blocks + db) * lane_bytes
      else if variable_ex \<and> IsSmallLaneBitplanesLayout layout then
        let subgroup = SmallLaneBitplanesGroupSize layout;
            group_start = lane div subgroup * subgroup;
            group_lanes = min subgroup (valid - group_start);
            local_lane = lane - group_start
        in group_start * num_dim_blocks * lane_bytes + (db * group_lanes + local_lane) * lane_bytes
      else db * stored * lane_bytes + lane * lane_bytes)"

definition unpack_lane :: "simd_build \<Rightarrow> rabitq_config \<Rightarrow> bytes \<Rightarrow> u8 list option" where
  "unpack_lane build cfg packed =
     (let layout = effective_exdata_layout cfg; bits = stage2_payload_bits cfg
      in if uses_official_1_plus_n cfg \<and> RaBitQExDataLayoutIsDirect layout then
           if layout = kSplit3TwoPlusOne then ExRaBitQUnpackOfficialDirect3 packed 64 layout
           else if layout = kVectorNibble4 then ExRaBitQUnpackOfficialNibble4 packed 64
           else if layout = kVector2Bit then ExRaBitQUnpackOfficial2Bit packed 64
           else ExRaBitQUnpackOfficialDirectBitplanes packed 64 bits
         else ExRaBitQUnpackMagnitudes build packed 64 bits)"

text \<open>The values of one lane, dimension block after dimension block.\<close>

fun load_lane ::
    "simd_build \<Rightarrow> rabitq_config \<Rightarrow> nat \<Rightarrow> nat \<Rightarrow> bool \<Rightarrow> bytes \<Rightarrow> nat \<Rightarrow> nat \<Rightarrow> nat \<Rightarrow> nat
      \<Rightarrow> nat list \<Rightarrow> nat \<Rightarrow> (error + u8 list) option" where
  "load_lane build cfg version dim variable_ex buf abs_base valid stored lane [] cursor = Some (Inr [])"
| "load_lane build cfg version dim variable_ex buf abs_base valid stored lane (db # dbs) cursor = do {
     let layout = effective_exdata_layout cfg;
     let lane_bytes = exrabitq_abs_bytes_per_lane_dim_block cfg version;
     let copy = min 64 (dim - db * 64);
     (packed, cursor1) \<leftarrow>
       (if variable_ex \<and> layout = kSplit3ZeroPlaneElide
        then elided_words buf lane (stage2_payload_bits cfg) cursor
        else map_option (\<lambda>p. (p, cursor)) (rd buf
          (abs_base + lane_offset layout variable_ex (exrabitq_dim_block_count dim) lane_bytes
             valid stored lane db)
          (if exrabitq_magnitude_packed cfg version then lane_bytes else copy)));
     let here = (if exrabitq_magnitude_packed cfg version
        then map_option (take copy) (unpack_lane build cfg packed) else Some packed);
     (case here of
        None \<Rightarrow> Some (Inl (kCorruption, ''Failed to unpack ExRaBitQ packed magnitude block''))
      | Some vs \<Rightarrow> do {
          rest \<leftarrow> load_lane build cfg version dim variable_ex buf abs_base valid stored lane dbs cursor1;
          Some (res_bind rest (\<lambda>ws. Inr (vs @ ws)))
        })
   }"

text \<open>All magnitudes of a lane; a bit-major tile holds a whole vector.\<close>

definition load_magnitudes ::
    "simd_build \<Rightarrow> rabitq_config \<Rightarrow> nat \<Rightarrow> nat \<Rightarrow> bool \<Rightarrow> bytes \<Rightarrow> nat \<Rightarrow> nat \<Rightarrow> nat \<Rightarrow> nat
      \<Rightarrow> (error + u8 list) option" where
  "load_magnitudes build cfg version dim variable_ex buf abs_base valid stored lane =
     (if variable_ex \<and> IsVectorBitMajorTileLayout (effective_exdata_layout cfg) then
        let vector_bytes = ExRaBitQBitMajorTileVectorBytes dim (stage2_payload_bits cfg)
        in if vector_bytes = 0 then
             Some (Inl (kCorruption, ''Invalid vector_bitmajor_tiles payload width''))
           else do {
             packed \<leftarrow> rd buf (abs_base + lane * vector_bytes) vector_bytes;
             Some (or_error (kCorruption, ''Failed to unpack vector_bitmajor_tiles payload'')
               (ExRaBitQUnpackOfficialBitMajorTiles packed dim (stage2_payload_bits cfg)))
           }
      else load_lane build cfg version dim variable_ex buf abs_base valid stored lane
             [0..<exrabitq_dim_block_count dim] abs_base)"

text \<open>The packed sign bytes of one lane.\<close>

fun load_signs :: "bytes \<Rightarrow> nat \<Rightarrow> nat \<Rightarrow> nat \<Rightarrow> nat list \<Rightarrow> bytes option" where
  "load_signs buf sign_base sign_bytes lane [] = Some []"
| "load_signs buf sign_base sign_bytes lane (db # dbs) = do {
     let sign_offset = db * 64 div 8;
     let sign_copy = (if sign_offset < sign_bytes then min 8 (sign_bytes - sign_offset) else 0);
     here \<leftarrow> (if 0 < sign_copy then rd buf (sign_base + db * 8 * 8 + lane * 8) sign_copy else Some []);
     rest \<leftarrow> load_signs buf sign_base sign_bytes lane dbs;
     Some (here @ rest)
   }"

definition rd_float :: "bytes \<Rightarrow> nat \<Rightarrow> f32 option" where
  "rd_float buf off = map_option of_nat (rd_nat buf off)"

text \<open>Float \<open>k\<close> of the \<open>count\<close> floats at the end of a block.\<close>

definition rd_factor :: "bytes \<Rightarrow> nat \<Rightarrow> nat \<Rightarrow> nat \<Rightarrow> nat \<Rightarrow> f32 option" where
  "rd_factor buf block block_bytes count k =
     (if block + block_bytes < count * 4 then None
      else rd_float buf (block + block_bytes - count * 4 + k * 4))"

definition load_official_factors ::
    "bytes \<Rightarrow> nat \<Rightarrow> nat \<Rightarrow> nat \<Rightarrow> nat \<Rightarrow> rabitq_code \<Rightarrow> rabitq_code option" where
  "load_official_factors buf block block_bytes stored lane code = do {
     factor_add \<leftarrow> rd_factor buf block block_bytes (stored * 2) lane;
     factor_rescale \<leftarrow> rd_factor buf block block_bytes (stored * 2) (stored + lane);
     Some (code\<lparr>qc_sign_folded := True, qc_factor_add := factor_add,
       qc_factor_rescale := factor_rescale,
       qc_xipnorm := (if f32_gt (qc_norm code) 0x0DA24260
         then f32_div (f32_mul 0xBF000000 factor_rescale) (qc_norm code) else 0)\<rparr>)
   }"

definition load_batch_code ::
    "simd_build \<Rightarrow> rabitq_config \<Rightarrow> nat \<Rightarrow> nat \<Rightarrow> bytes \<Rightarrow> nat \<Rightarrow> nat \<Rightarrow> rabitq_code
      \<Rightarrow> (error + rabitq_code) option" where
  "load_batch_code build cfg version dim buf region1 idx code = do {
     let layout = effective_exdata_layout cfg;
     let official = uses_official_1_plus_n cfg;
     let variable_ex = (15 \<le> version \<and> UsesVariableOfficialExDataLayout layout);
     let lane = idx mod 8;
     let num_dim_blocks = exrabitq_dim_block_count dim;
     located \<leftarrow> locate_block cfg version dim variable_ex buf region1 (idx div 8);
     (case located of
        Inl e \<Rightarrow> Some (Inl e)
      | Inr (block, block_bytes) \<Rightarrow> do {
          valid \<leftarrow> rd_nat buf block;
          (if 8 < valid \<or> valid \<le> lane then
             Some (Inl (invalid ''Record index points to invalid batch lane''))
           else do {
             let stored = (if variable_ex then valid else 8);
             let abs_base = block + 4;
             loaded \<leftarrow> load_magnitudes build cfg version dim variable_ex buf abs_base valid stored lane;
             (case loaded of
                Inl e \<Rightarrow> Some (Inl e)
              | Inr magnitudes \<Rightarrow>
                  if official then
                    map_option Inr (load_official_factors buf block block_bytes stored lane
                      (code\<lparr>qc_ex_code := magnitudes, qc_ex_sign := []\<rparr>))
                  else do {
                    signs \<leftarrow> load_signs buf
                      (abs_base + num_dim_blocks * stored * exrabitq_abs_bytes_per_lane_dim_block cfg version)
                      (PackedSignBytes dim) lane [0..<num_dim_blocks];
                    xipnorm \<leftarrow> rd_factor buf block block_bytes stored lane;
                    Some (Inr (code\<lparr>qc_ex_code := magnitudes, qc_ex_sign := signs,
                      qc_xipnorm := xipnorm\<rparr>))
                  })
           })
        })
   }"

text \<open>Before version 11: an entry per record; before version 10 its signs are one byte each.\<close>

definition pack_sign_bytes :: "nat \<Rightarrow> bytes \<Rightarrow> bytes" where
  "pack_sign_bytes dim legacy_sign =
     foldl (\<lambda>packed d. if legacy_sign ! d \<noteq> 0
         then packed[d div 8 := packed ! (d div 8) OR push_bit (d mod 8) 1] else packed)
       (replicate (PackedSignBytes dim) 0) [0..<dim]"

definition load_legacy_code ::
    "rabitq_config \<Rightarrow> nat \<Rightarrow> nat \<Rightarrow> bytes \<Rightarrow> nat \<Rightarrow> nat \<Rightarrow> rabitq_code \<Rightarrow> rabitq_code option" where
  "load_legacy_code cfg version dim buf region1 idx code = do {
     let entry = region1 + idx * exrabitq_entry_size cfg version dim;
     let sign_bytes = exrabitq_sign_bytes cfg version dim;
     magnitudes \<leftarrow> rd buf entry dim;
     signs \<leftarrow> rd buf (entry + dim) sign_bytes;
     xipnorm \<leftarrow> rd_float buf (entry + dim + sign_bytes);
     Some (code\<lparr>qc_ex_code := magnitudes,
       qc_ex_sign := (if 10 \<le> version then signs else pack_sign_bytes dim signs),
       qc_xipnorm := xipnorm\<rparr>)
   }"

section \<open>Results collected over a list: facts\<close>

lemma map_each_Inr: "(\<And>x. x \<in> set xs \<Longrightarrow> f x = Inr (g x)) \<Longrightarrow> map_each f xs = Inr (map g xs)"
  by (induction xs) simp_all

lemma append_each_Inr:
  "(\<And>x. x \<in> set xs \<Longrightarrow> f x = Inr (g x)) \<Longrightarrow> append_each f xs = Inr (concat (map g xs))"
  unfolding append_each_def using map_each_Inr [of xs f g] by simp

section \<open>Pieces of a concatenation\<close>

lemma slice_concat_at:
  assumes "i < length xss"
  shows "slice (length (concat (take i xss))) (length (xss ! i)) (concat xss) = xss ! i"
proof -
  have "concat xss = concat (take i xss) @ xss ! i @ concat (drop (Suc i) xss)"
    using id_take_nth_drop [OF assms] by (metis concat.simps(2) concat_append)
  then show ?thesis by (simp add: slice_def)
qed

lemma slice_concat_uniform:
  assumes "\<And>xs. xs \<in> set xss \<Longrightarrow> length xs = n" and "i < length xss"
  shows "slice (i * n) n (concat xss) = xss ! i"
proof -
  have "length (concat (take i xss)) = i * n"
    using assms by (subst length_concat_uniform [of _ n]) (auto dest: in_set_takeD)
  moreover have "length (xss ! i) = n" using assms by simp
  ultimately show ?thesis using slice_concat_at [OF assms(2)] by simp
qed

lemma slice_concat_map:
  assumes "\<And>x. x \<in> set xs \<Longrightarrow> length (f x) = n" and "i < length xs"
  shows "slice (i * n) n (concat (map f xs)) = f (xs ! i)"
  using slice_concat_uniform [of "map f xs" n i] assms by auto

lemma length_concat_map_uniform:
  "(\<And>x. x \<in> set xs \<Longrightarrow> length (f x) = n) \<Longrightarrow> length (concat (map f xs)) = length xs * n"
  using length_concat_uniform [of "map f xs" n] by auto

text \<open>A two-level table of pieces of \<open>n\<close> bytes, rows of \<open>m\<close> pieces.\<close>

lemma slice_table:
  assumes "\<And>x y. x \<in> set xs \<Longrightarrow> y \<in> set ys \<Longrightarrow> length (f x y) = n"
    and "i < length xs" and "j < length ys"
  shows "slice ((i * length ys + j) * n) n (concat (map (\<lambda>x. concat (map (f x) ys)) xs)) =
    f (xs ! i) (ys ! j)"
proof -
  have row: "length (concat (map (f x) ys)) = length ys * n" if "x \<in> set xs" for x
    using assms(1) [OF that] by (rule length_concat_map_uniform)
  have "j * n + n \<le> length ys * n"
    using assms(3) by (metis Suc_leI add.commute mult_Suc mult_le_mono1)
  then have "slice ((i * length ys + j) * n) n (concat (map (\<lambda>x. concat (map (f x) ys)) xs)) =
      slice (j * n) n (slice (i * (length ys * n)) (length ys * n) (concat (map (\<lambda>x. concat (map (f x) ys)) xs)))"
    by (simp add: slice_slice distrib_right mult.assoc)
  also have "\<dots> = slice (j * n) n (concat (map (f (xs ! i)) ys))"
    using slice_concat_map [of xs "\<lambda>x. concat (map (f x) ys)", OF row assms(2)] by simp
  also have "\<dots> = f (xs ! i) (ys ! j)"
    using assms by (intro slice_concat_map) simp_all
  finally show ?thesis .
qed

lemma length_table:
  assumes "\<And>x y. x \<in> set xs \<Longrightarrow> y \<in> set ys \<Longrightarrow> length (f x y) = n"
  shows "length (concat (map (\<lambda>x. concat (map (f x) ys)) xs)) = length xs * length ys * n"
proof -
  have "length (concat (map (\<lambda>x. concat (map (f x) ys)) xs)) = length xs * (length ys * n)"
    using assms by (intro length_concat_map_uniform) auto
  then show ?thesis by simp
qed

lemma rd_inside:
  "off + len \<le> length xs \<Longrightarrow> rd (pre @ xs @ post) (length pre + off) len = Some (slice off len xs)"
  by (simp add: rd_def slice_append_skip slice_append_hit)

text \<open>The values are the dimension blocks, the padding of the last one cut off.\<close>

lemma length_dim_chunk [simp]: "length vs = dim \<Longrightarrow> db * 64 < dim \<Longrightarrow> length (dim_chunk dim vs db) = 64"
  by (simp add: dim_chunk_def Let_def)

lemma take_dim_chunk:
  "length vs = dim \<Longrightarrow> db * 64 < dim \<Longrightarrow>
    take (min 64 (dim - db * 64)) (dim_chunk dim vs db) = slice (db * 64) 64 vs"
  by (cases "64 \<le> dim - db * 64") (simp_all add: dim_chunk_def Let_def slice_def)

lemma set_dim_chunk: "set (dim_chunk dim vs db) \<subseteq> insert 0 (set vs)"
  by (auto simp: dim_chunk_def Let_def slice_def dest: in_set_takeD in_set_dropD split: if_splits)

lemma concat_slices: "length vs \<le> n * m \<Longrightarrow> concat (map (\<lambda>k. slice (k * m) m vs) [0..<n]) = vs"
proof (induction n arbitrary: vs)
  case (Suc n)
  have "concat (map (\<lambda>k. slice (k * m) m vs) [0..<Suc n]) =
      take m vs @ concat (map (\<lambda>k. slice (Suc k * m) m vs) [0..<n])"
    by (simp add: upt_conv_Cons [of 0 "Suc n"] map_Suc_upt [symmetric] comp_def slice_def del: upt_Suc)
  also have "(\<lambda>k. slice (Suc k * m) m vs) = (\<lambda>k. slice (k * m) m (drop m vs))"
    by (simp add: slice_def add.commute)
  finally show ?case using Suc.IH [of "drop m vs"] Suc.prems by simp
qed simp

lemma dim_blocks:
  assumes "dim < 67108864"
  shows "exrabitq_dim_block_count dim = (dim + 63) div 64"
    and "dim \<le> exrabitq_dim_block_count dim * 64"
    and "db < exrabitq_dim_block_count dim \<longleftrightarrow> db * 64 < dim"
proof -
  show e: "exrabitq_dim_block_count dim = (dim + 63) div 64"
    using assms by (simp add: exrabitq_dim_block_count_def)
  show "dim \<le> exrabitq_dim_block_count dim * 64" unfolding e by linarith
  show "db < exrabitq_dim_block_count dim \<longleftrightarrow> db * 64 < dim" unfolding e by linarith
qed

section \<open>Chunks: what the writer packs is what the reader unpacks\<close>

definition fits_code :: "nat \<Rightarrow> nat \<Rightarrow> rabitq_code \<Rightarrow> bool" where
  "fits_code bits dim code \<longleftrightarrow> length (qc_ex_code code) = dim \<and> qc_sign_folded code
     \<and> (\<forall>v \<in> set (qc_ex_code code). unat v < 2 ^ bits)"

text \<open>The chunk routine of a variable arrangement.\<close>

definition variable_chunk :: "ex_layout \<Rightarrow> nat \<Rightarrow> nat \<Rightarrow> nat \<Rightarrow> rabitq_code \<Rightarrow> nat \<Rightarrow> error + bytes" where
  "variable_chunk layout bits lane_bytes dim =
     (if layout = kVector2Bit then two_bit_chunk lane_bytes dim
      else if layout = kVectorNibble4 then nibble_chunk lane_bytes dim
      else planes_chunk bits lane_bytes dim)"

definition lane_chunk :: "ex_layout \<Rightarrow> nat \<Rightarrow> nat \<Rightarrow> rabitq_code \<Rightarrow> nat \<Rightarrow> bytes" where
  "lane_chunk layout bits dim code db = projr (variable_chunk layout bits (8 * bits) dim code db)"

lemma fits_dim_chunk:
  "fits_code bits dim code \<Longrightarrow> v \<in> set (dim_chunk dim (qc_ex_code code) db) \<Longrightarrow> unat v < 2 ^ bits"
  using set_dim_chunk [of dim "qc_ex_code code" db] by (auto simp: fits_code_def)

definition variable_ok :: "rabitq_config \<Rightarrow> bool" where
  "variable_ok cfg \<longleftrightarrow> uses_official_1_plus_n cfg \<and> exdata_layout_valid cfg
     \<and> UsesVariableOfficialExDataLayout (effective_exdata_layout cfg)"

lemma variable_layouts:
  assumes "variable_ok cfg"
  shows "effective_exdata_layout cfg \<in> {kSplit3TrimmedBitplanes, kSplit3ZeroPlaneElide} \<and> rc_ex_bits cfg = 3
    \<or> effective_exdata_layout cfg \<in> {kVectorBitplanes, kVectorBitplanesPrefetch,
        kVectorBitplanesMicroBatch, kSmallLane4Bitplanes, kSmallLane2Bitplanes}
        \<and> 1 \<le> rc_ex_bits cfg \<and> rc_ex_bits cfg \<le> 4
    \<or> effective_exdata_layout cfg = kVectorBitMajorTiles \<and> 1 \<le> rc_ex_bits cfg \<and> rc_ex_bits cfg \<le> 3
    \<or> effective_exdata_layout cfg = kVectorNibble4 \<and> rc_ex_bits cfg = 4
    \<or> effective_exdata_layout cfg = kVector2Bit \<and> rc_ex_bits cfg = 2"
proof -
  have v: "exdata_layout_valid cfg" "uses_official_1_plus_n cfg"
    "UsesVariableOfficialExDataLayout (effective_exdata_layout cfg)"
    using assms by (simp_all add: variable_ok_def)
  have ns: "effective_exdata_layout cfg \<noteq> kSelectedDirect"
  proof
    assume e: "effective_exdata_layout cfg = kSelectedDirect"
    then have "\<not> (1 \<le> rc_ex_bits cfg \<and> rc_ex_bits cfg \<le> 4)"
      using v(2) by (simp add: effective_exdata_layout_def resolve_for_bits_cases)
    moreover have "RaBitQExDataLayoutDirectBits kSelectedDirect = 0"
      by (simp add: RaBitQExDataLayoutDirectBits_def RaBitQResolveSelectedExDataLayout_def
          RaBitQResolveSelectedExDataLayoutForBits_def)
    ultimately show False using v(1,2) e by (simp add: exdata_layout_valid_def Let_def)
  qed
  show ?thesis
    using v ns unfolding exdata_layout_valid_def Let_def UsesVariableOfficialExDataLayout_def
    by (cases "effective_exdata_layout cfg")
      (simp_all add: RaBitQExDataLayoutDirectBits_def RaBitQResolveSelectedExDataLayout_def
        RaBitQResolveSelectedExDataLayoutForBits_def)
qed

lemma variable_bits: "variable_ok cfg \<Longrightarrow> 1 \<le> rc_ex_bits cfg \<and> rc_ex_bits cfg \<le> 4"
  by (drule variable_layouts) auto

lemma variable_payload_bits: "variable_ok cfg \<Longrightarrow> stage2_payload_bits cfg = rc_ex_bits cfg"
  by (simp add: stage2_payload_bits_def variable_ok_def)

lemma lane_bytes_15:
  "variable_ok cfg \<Longrightarrow> exrabitq_abs_bytes_per_lane_dim_block cfg 15 = 8 * rc_ex_bits cfg"
  using variable_bits [of cfg]
  by (simp add: exrabitq_abs_bytes_per_lane_dim_block_def variable_payload_bits Let_def)

lemma variable_chunk_roundtrip:
  assumes ok: "variable_ok cfg" and tiles: "effective_exdata_layout cfg \<noteq> kVectorBitMajorTiles"
    and code: "fits_code (rc_ex_bits cfg) dim code" and db: "db * 64 < dim"
  shows "\<exists>out. variable_chunk (effective_exdata_layout cfg) (rc_ex_bits cfg) (8 * rc_ex_bits cfg) dim code db
      = Inr out \<and> length out = 8 * rc_ex_bits cfg
    \<and> unpack_lane build cfg out = Some (dim_chunk dim (qc_ex_code code) db)"
proof -
  define vs where "vs = dim_chunk dim (qc_ex_code code) db"
  have len: "length vs = 64" using code db by (simp add: vs_def fits_code_def)
  then have ne: "vs \<noteq> []" by auto
  have fit: "\<forall>v \<in> set vs. unat v < 2 ^ rc_ex_bits cfg"
    using fits_dim_chunk [OF code] by (auto simp: vs_def)
  have w: "1 \<le> rc_ex_bits cfg" "rc_ex_bits cfg \<le> 4" using variable_bits [OF ok] by auto
  have off: "uses_official_1_plus_n cfg" using ok by (simp add: variable_ok_def)
  have ng: "effective_exdata_layout cfg \<noteq> kGenericPacked" "effective_exdata_layout cfg \<noteq> kSplit3TwoPlusOne"
    using variable_layouts [OF ok] by auto
  obtain out where planes: "ExRaBitQPackOfficialDirectBitplanes vs (rc_ex_bits cfg) (8 * rc_ex_bits cfg) = Some out"
      "length out = 8 * rc_ex_bits cfg"
      "ExRaBitQUnpackOfficialDirectBitplanes out 64 (rc_ex_bits cfg) = Some vs"
    using bitplanes_roundtrip [OF w, of vs "8 * rc_ex_bits cfg"] len ne fit by auto
  consider "effective_exdata_layout cfg = kVector2Bit" "rc_ex_bits cfg = 2"
    | "effective_exdata_layout cfg = kVectorNibble4" "rc_ex_bits cfg = 4"
    | "effective_exdata_layout cfg \<noteq> kVector2Bit" "effective_exdata_layout cfg \<noteq> kVectorNibble4"
    using variable_layouts [OF ok] by auto
  then show ?thesis
  proof cases
    case 1
    then obtain o2 where "ExRaBitQPackOfficial2Bit vs 16 = Some o2" "length o2 = 16"
        "ExRaBitQUnpackOfficial2Bit o2 64 = Some vs"
      using two_bit_roundtrip [of vs 16] len ne fit by auto
    then show ?thesis using 1 off unfolding vs_def
      by (simp add: variable_chunk_def two_bit_chunk_def or_error_def unpack_lane_def is_direct_iff Let_def)
  next
    case 2
    then obtain o4 where "ExRaBitQPackOfficialNibble4 vs 32 = Some o4" "length o4 = 32"
        "ExRaBitQUnpackOfficialNibble4 o4 64 = Some vs"
      using nibble4_roundtrip [of vs 32] len ne fit by auto
    then show ?thesis using 2 off unfolding vs_def
      by (simp add: variable_chunk_def nibble_chunk_def or_error_def unpack_lane_def is_direct_iff Let_def)
  next
    case 3
    then show ?thesis using planes off ng unfolding vs_def
      by (simp add: variable_chunk_def planes_chunk_def or_error_def unpack_lane_def is_direct_iff
          variable_payload_bits [OF ok] Let_def)
  qed
qed

lemma lane_chunk_spec:
  assumes "variable_ok cfg" and "effective_exdata_layout cfg \<noteq> kVectorBitMajorTiles"
    and "fits_code (rc_ex_bits cfg) dim code" and "db * 64 < dim"
  defines "layout \<equiv> effective_exdata_layout cfg" and "bits \<equiv> rc_ex_bits cfg"
  shows "variable_chunk layout bits (8 * bits) dim code db = Inr (lane_chunk layout bits dim code db)"
    and "length (lane_chunk layout bits dim code db) = 8 * bits"
    and "unpack_lane build cfg (lane_chunk layout bits dim code db) =
      Some (dim_chunk dim (qc_ex_code code) db)"
proof -
  obtain out where "variable_chunk layout bits (8 * bits) dim code db = Inr out" "length out = 8 * bits"
      "unpack_lane build cfg out = Some (dim_chunk dim (qc_ex_code code) db)"
    using variable_chunk_roundtrip [OF assms(1-4)] unfolding layout_def bits_def by blast
  then show "variable_chunk layout bits (8 * bits) dim code db = Inr (lane_chunk layout bits dim code db)"
    and "length (lane_chunk layout bits dim code db) = 8 * bits"
    and "unpack_lane build cfg (lane_chunk layout bits dim code db) =
      Some (dim_chunk dim (qc_ex_code code) db)"
    by (simp_all add: lane_chunk_def)
qed

section \<open>Where a lane's chunk lies in the payload\<close>

lemma slice_inside:
  "a + b \<le> len \<Longrightarrow> off + len \<le> length xs \<Longrightarrow> slice off len xs = ys \<Longrightarrow> slice a b ys = zs
    \<Longrightarrow> slice (off + a) b xs = zs \<and> off + a + b \<le> length xs"
  using slice_slice [of a b len off xs] by auto

lemma table_bound:
  assumes "i < m" and "j < k"
  shows "(i * k + j) * n + n \<le> m * k * (n :: nat)"
proof -
  have "Suc i * k \<le> m * k" using assms(1) by (intro mult_le_mono1) simp
  then have "Suc (i * k + j) \<le> m * k" using assms(2) by simp
  then have "Suc (i * k + j) * n \<le> m * k * n" by (rule mult_le_mono1)
  then show ?thesis by (simp add: add.commute)
qed

lemma vector_lanes_at:
  assumes "\<And>c db. c \<in> set codes \<Longrightarrow> db < D \<Longrightarrow> length (f c db) = L" and "lane < length codes" and "db < D"
  defines "payload \<equiv> concat (map (\<lambda>c. concat (map (f c) [0..<D])) codes)"
  shows "slice ((lane * D + db) * L) L payload = f (codes ! lane) db
    \<and> (lane * D + db) * L + L \<le> length payload"
proof
  show "slice ((lane * D + db) * L) L payload = f (codes ! lane) db"
    using slice_table [of codes "[0..<D]" f L lane db] assms by simp
  have "length payload = length codes * D * L"
    using length_table [of codes "[0..<D]" f L] assms(1) unfolding payload_def by simp
  then show "(lane * D + db) * L + L \<le> length payload"
    using table_bound [OF assms(2,3), of L] by simp
qed

lemma trimmed_lanes_at:
  assumes "\<And>c db. c \<in> set codes \<Longrightarrow> db < D \<Longrightarrow> length (f c db) = L" and "lane < length codes" and "db < D"
  defines "payload \<equiv> concat (map (\<lambda>db. concat (map (\<lambda>c. f c db) codes)) [0..<D])"
  shows "slice ((db * length codes + lane) * L) L payload = f (codes ! lane) db
    \<and> (db * length codes + lane) * L + L \<le> length payload"
proof
  show "slice ((db * length codes + lane) * L) L payload = f (codes ! lane) db"
    using slice_table [of "[0..<D]" codes "\<lambda>db c. f c db" L db lane] assms by simp
  have "length payload = D * length codes * L"
    using length_table [of "[0..<D]" codes "\<lambda>db c. f c db" L] assms(1) unfolding payload_def by simp
  then show "(db * length codes + lane) * L + L \<le> length payload"
    using table_bound [OF assms(3,2), of L] by simp
qed

lemma small_lanes_at:
  assumes len: "\<And>c db. c \<in> set codes \<Longrightarrow> db < D \<Longrightarrow> length (f c db) = L"
    and lane: "lane < length codes" and db: "db < D" and s: "0 < s"
  defines "payload \<equiv> concat (map (\<lambda>g. concat (map (\<lambda>db. concat (map (\<lambda>c. f c db)
      (slice (g * s) s codes))) [0..<D])) [0..<(length codes + s - 1) div s])"
    and "start \<equiv> lane div s * s"
  defines "at \<equiv> start * D * L + (db * min s (length codes - start) + (lane - start)) * L"
  shows "slice at L payload = f (codes ! lane) db \<and> at + L \<le> length payload"
proof -
  define group where "group g = concat (map (\<lambda>db. concat (map (\<lambda>c. f c db) (slice (g * s) s codes))) [0..<D])" for g
  define G where "G = (length codes + s - 1) div s"
  have sub: "c \<in> set codes" if "c \<in> set (slice off n codes)" for c off n
    using that by (auto simp: slice_def dest: in_set_takeD in_set_dropD)
  have glen: "length (group g) = D * min s (length codes - g * s) * L" for g
    using length_table [of "[0..<D]" "slice (g * s) s codes" "\<lambda>db c. f c db" L] len sub
    unfolding group_def by simp
  have st: "start \<le> lane" "lane - start < s" "lane div s < G"
    using s lane div_ceil_bound [of s lane "length codes"]
    by (simp_all add: start_def G_def minus_div_mult_eq_mod)
  have full: "length (group g) = s * D * L" if "g < lane div s" for g
  proof -
    have "Suc g * s \<le> start" unfolding start_def using that by (intro mult_le_mono1) simp
    then have "min s (length codes - g * s) = s" using st(1) lane by simp
    then show ?thesis unfolding glen by simp
  qed
  have "length (concat (take (lane div s) (map group [0..<G]))) = lane div s * (s * D * L)"
    using st(3) full by (subst length_concat_uniform [of _ "s * D * L"]) (auto simp: take_map)
  then have before: "length (concat (take (lane div s) (map group [0..<G]))) = start * D * L"
    by (simp add: start_def)
  have here: "slice (start * D * L) (length (group (lane div s))) payload = group (lane div s)"
    using slice_concat_at [of "lane div s" "map group [0..<G]"] st(3) before
    unfolding payload_def group_def G_def by simp
  have "start * D * L + length (group (lane div s)) \<le> length payload"
  proof -
    have "payload = concat (take (lane div s) (map group [0..<G])) @ group (lane div s)
        @ concat (drop (Suc (lane div s)) (map group [0..<G]))"
      using id_take_nth_drop [of "lane div s" "map group [0..<G]"] st(3)
      unfolding payload_def group_def [symmetric] G_def [symmetric]
      by (metis (no_types, lifting) append_Cons append_Nil concat.simps(2) concat_append length_map
          length_upt nth_map minus_nat.diff_0 nth_upt add_0)
    then show ?thesis using before by simp
  qed
  moreover have "(db * min s (length codes - start) + (lane - start)) * L + L \<le> length (group (lane div s))"
    and "slice ((db * min s (length codes - start) + (lane - start)) * L) L (group (lane div s)) = f (codes ! lane) db"
  proof -
    have w: "length (slice start s codes) = min s (length codes - start)" by simp
    have j: "lane - start < min s (length codes - start)" using st lane by simp
    have nth: "slice start s codes ! (lane - start) = codes ! lane"
      using st lane by (simp add: nth_slice)
    show "(db * min s (length codes - start) + (lane - start)) * L + L \<le> length (group (lane div s))"
      using table_bound [OF db j, of L] by (simp add: glen start_def)
    show "slice ((db * min s (length codes - start) + (lane - start)) * L) L (group (lane div s)) = f (codes ! lane) db"
      using slice_table [of "[0..<D]" "slice start s codes" "\<lambda>db c. f c db" L db "lane - start"]
        len sub db j nth unfolding group_def start_def [symmetric] w by simp
  qed
  ultimately show ?thesis using slice_inside [OF _ _ here] unfolding at_def by (simp add: add.assoc)
qed
section \<open>Planes with zero words left out\<close>

lemma bit_set_lane: "lane < 8 \<Longrightarrow> bit (m OR push_bit lane 1 :: u8) j \<longleftrightarrow> bit m j \<or> j = lane"
  by (auto simp: bit_or_iff bit_pow2_byte simp del: push_bit_of_1)

lemma bit_nonzero_mask:
  assumes "length lanes \<le> 8"
  shows "bit (nonzero_mask p lanes) j \<longleftrightarrow> j < length lanes \<and> plane_word p (lanes ! j) \<noteq> replicate 8 0"
proof -
  have "bit (foldl (\<lambda>m lane. if plane_word p (lanes ! lane) \<noteq> replicate 8 0
        then m OR push_bit lane 1 else m) (0 :: u8) [0..<k]) j \<longleftrightarrow>
      j < k \<and> plane_word p (lanes ! j) \<noteq> replicate 8 0" if "k \<le> 8" for k
    using that
  proof (induction k)
    case (Suc k)
    then have "k < 8" by simp
    note set_k = bit_set_lane [OF this]
    show ?case using Suc by (auto simp: set_k less_Suc_eq simp del: push_bit_of_1)
  qed simp
  from this [OF assms] show ?thesis unfolding nonzero_mask_def .
qed

lemma PopcountLow8_below:
  assumes "lane \<le> 8"
  shows "PopcountLow8 (m AND (push_bit lane 1 - 1)) = length (filter (bit m) [0..<lane])"
proof -
  have "filter (bit (m AND (push_bit lane 1 - 1))) [0..<8] = filter (bit m) [0..<lane]"
  proof -
    have "[0..<8] = [0..<lane] @ [lane..<8]" using assms upt_add_eq_append [of 0 lane "8 - lane"] by simp
    moreover have "filter (bit (m AND (push_bit lane 1 - 1))) [0..<lane] = filter (bit m) [0..<lane]"
      using assms by (intro filter_cong) (auto simp: bit_and_iff bit_low_mask simp del: push_bit_of_1)
    moreover have "filter (bit (m AND (push_bit lane 1 - 1))) [lane..<8] = []"
      by (auto simp: filter_empty_conv bit_and_iff bit_low_mask simp del: push_bit_of_1)
    ultimately show ?thesis by simp
  qed
  then show ?thesis by (simp add: PopcountLow8_def)
qed

lemma length_filtered_words:
  "(\<And>k. k \<in> set ks \<Longrightarrow> length (w k) = n) \<Longrightarrow>
    length (concat (map (\<lambda>k. if b k then w k else []) ks)) = length (filter b ks) * n"
  by (induction ks) auto

lemma slice_here: "slice (length xs) (length ys) (xs @ ys @ zs) = ys"
  by (simp add: slice_def)

lemma elided_word_at:
  assumes lanes: "\<forall>l \<in> set lanes. length l = bits * 8" "length lanes \<le> 8" and lane: "lane < length lanes"
    and p: "p < bits"
  shows "elided_word (pre @ elided_plane lanes p @ post) lane (length pre) =
    Some (plane_word p (lanes ! lane), length pre + length (elided_plane lanes p))"
proof -
  define m where "m = nonzero_mask p lanes"
  define w where "w k = plane_word p (lanes ! k)" for k
  have wl: "length (w k) = 8" if "k < length lanes" for k
  proof -
    have "length (lanes ! k) = bits * 8" using lanes(1) that by simp
    moreover have "8 * p + 8 \<le> 8 * bits" using p by simp
    ultimately show ?thesis unfolding w_def plane_word_def length_slice by linarith
  qed
  have mb: "bit m j \<longleftrightarrow> j < length lanes \<and> w j \<noteq> replicate 8 0" for j
    unfolding m_def w_def by (rule bit_nonzero_mask [OF lanes(2)])
  define body where "body ks = concat (map (\<lambda>k. if bit m k then w k else []) ks)" for ks
  have plane: "elided_plane lanes p = m # body [0..<length lanes]"
    unfolding elided_plane_def m_def w_def body_def ..
  have blen: "length (body ks) = length (filter (bit m) ks) * 8" if "set ks \<subseteq> {0..<length lanes}" for ks
    unfolding body_def using that wl by (intro length_filtered_words) auto
  have count: "PopcountLow8 m * 8 = length (body [0..<length lanes])"
  proof -
    have "[0..<8] = [0..<length lanes] @ [length lanes..<8]"
      using lanes(2) upt_add_eq_append [of 0 "length lanes" "8 - length lanes"] by simp
    moreover have "filter (bit m) [length lanes..<8] = []" by (auto simp: filter_empty_conv mb)
    ultimately show ?thesis by (simp add: PopcountLow8_def blen)
  qed
  have rank: "PopcountLow8 (m AND (push_bit lane 1 - 1)) * 8 = length (body [0..<lane])"
    using PopcountLow8_below [of lane m] lane lanes(2) by (simp add: blen del: push_bit_of_1)
  have split: "body [0..<length lanes] = body [0..<lane] @ (if bit m lane then w lane else []) @ body [Suc lane..<length lanes]"
  proof -
    have "[0..<length lanes] = [0..<lane] @ lane # [Suc lane..<length lanes]"
      using lane upt_add_eq_append [of 0 lane "length lanes - lane"] by (simp add: upt_conv_Cons)
    then show ?thesis by (simp add: body_def)
  qed
  define buf where "buf = pre @ elided_plane lanes p @ post"
  have mask_byte: "rd buf (length pre) 1 = Some [m]"
    by (simp add: rd_def buf_def plane slice_def)
  have word: "rd buf (length pre + 1 + length (body [0..<lane])) 8 = Some (w lane)" if "bit m lane"
  proof -
    have "buf = (pre @ m # body [0..<lane]) @ w lane @ body [Suc lane..<length lanes] @ post"
      using that by (simp add: buf_def plane split)
    then have "slice (length (pre @ m # body [0..<lane])) (length (w lane)) buf = w lane"
      by (simp only: slice_here)
    moreover have "length pre + 1 + length (body [0..<lane]) + 8 \<le> length buf"
      using that wl [OF lane] by (simp add: buf_def plane split)
    ultimately show ?thesis using wl [OF lane] by (simp add: rd_def)
  qed
  have zero: "w lane = replicate 8 0" if "\<not> bit m lane" using that mb lane by blast
  show ?thesis
    unfolding buf_def [symmetric] elided_word_def mask_byte
    using word zero by (simp add: Let_def rank count w_def [symmetric] plane del: push_bit_of_1)
qed

lemma planes_of_lane:
  "length l = bits * 8 \<Longrightarrow> concat (map (\<lambda>p. plane_word p l) [0..<bits]) = l"
  unfolding plane_word_def by (rule concat_slices) simp

lemma elided_words_at:
  assumes "\<forall>l \<in> set lanes. length l = bits * 8" and "length lanes \<le> 8" and "lane < length lanes"
    and "p0 + n \<le> bits"
  shows "elided_words (pre @ concat (map (elided_plane lanes) [p0..<p0 + n]) @ post) lane n (length pre) =
    Some (concat (map (\<lambda>p. plane_word p (lanes ! lane)) [p0..<p0 + n]),
      length pre + length (concat (map (elided_plane lanes) [p0..<p0 + n])))"
  using assms(4)
proof (induction n arbitrary: p0 pre)
  case (Suc n)
  have u: "[p0..<p0 + Suc n] = p0 # [Suc p0..<Suc p0 + n]" by (simp add: upt_conv_Cons)
  define rest where "rest = concat (map (elided_plane lanes) [Suc p0..<Suc p0 + n])"
  have word: "elided_word (pre @ elided_plane lanes p0 @ rest @ post) lane (length pre) =
      Some (plane_word p0 (lanes ! lane), length pre + length (elided_plane lanes p0))"
    using elided_word_at [OF assms(1-3), of p0 pre] Suc.prems by simp
  have "elided_words ((pre @ elided_plane lanes p0) @ rest @ post) lane n (length (pre @ elided_plane lanes p0)) =
      Some (concat (map (\<lambda>p. plane_word p (lanes ! lane)) [Suc p0..<Suc p0 + n]),
        length (pre @ elided_plane lanes p0) + length rest)"
    unfolding rest_def by (rule Suc.IH) (use Suc.prems in simp)
  moreover have "concat (map (elided_plane lanes) [Suc p0..<Suc (p0 + n)]) = rest"
    by (simp add: rest_def del: upt_Suc)
  ultimately show ?case unfolding u using word by (simp del: upt_Suc)
qed simp

section \<open>The payload of a variable block\<close>

lemma check_folded_ok: "fits_code bits dim code \<Longrightarrow> check_folded dim msg code = Inr ()"
  by (simp add: check_folded_def fits_code_def)

lemma vector_lanes_Inr:
  assumes "\<And>c db. c \<in> set codes \<Longrightarrow> db < exrabitq_dim_block_count dim \<Longrightarrow> pack c db = Inr (f c db)"
    and "\<And>c. c \<in> set codes \<Longrightarrow> fits_code bits dim c"
  shows "vector_lanes pack msg dim codes =
    Inr (concat (map (\<lambda>c. concat (map (f c) [0..<exrabitq_dim_block_count dim])) codes))"
  unfolding vector_lanes_def
  by (rule append_each_Inr, subst check_folded_ok [OF assms(2)])
    (simp_all, rule append_each_Inr, use assms(1) in auto)

lemma layout_resolved:
  "l \<noteq> kSelectedDirect \<Longrightarrow> RaBitQResolveSelectedExDataLayout l = l"
  by (simp add: RaBitQResolveSelectedExDataLayout_def RaBitQResolveSelectedExDataLayoutForBits_def)

lemmas layout_tests = IsVectorBitplanesLayout_def IsVectorBitMajorTileLayout_def
  IsVectorContiguousOfficialLayout_def IsSmallLaneBitplanesLayout_def SmallLaneBitplanesGroupSize_def
  UsesVariableOfficialExDataLayout_def Let_def layout_resolved

lemma variable_payload_at:
  assumes ok: "variable_ok cfg" and dim: "dim < 67108864"
    and codes: "\<And>c. c \<in> set codes \<Longrightarrow> fits_code (rc_ex_bits cfg) dim c"
    and plain: "effective_exdata_layout cfg \<noteq> kVectorBitMajorTiles"
      "effective_exdata_layout cfg \<noteq> kSplit3ZeroPlaneElide"
  defines "layout \<equiv> effective_exdata_layout cfg" and "bits \<equiv> rc_ex_bits cfg"
    and "D \<equiv> exrabitq_dim_block_count dim"
  shows "\<exists>payload. variable_payload layout bits (8 * bits) dim codes = Inr payload
    \<and> (\<forall>lane < length codes. \<forall>db < D.
        slice (lane_offset layout True D (8 * bits) (length codes) (length codes) lane db) (8 * bits) payload
          = lane_chunk layout bits dim (codes ! lane) db
        \<and> lane_offset layout True D (8 * bits) (length codes) (length codes) lane db + 8 * bits
          \<le> length payload)"
proof -
  note lc = lane_chunk_spec [OF ok plain(1) codes, folded layout_def bits_def]
  have chunk: "variable_chunk layout bits (8 * bits) dim c db = Inr (lane_chunk layout bits dim c db)"
    and len: "length (lane_chunk layout bits dim c db) = 8 * bits" if "c \<in> set codes" "db < D" for c db
    using lc(1,2) [OF that(1)] that(2) dim_blocks(3) [OF dim] by (auto simp: D_def)
  have fits: "\<And>c. c \<in> set codes \<Longrightarrow> fits_code bits dim c" using codes by (simp add: bits_def)
  consider (vector) "layout \<in> {kVectorBitplanes, kVectorBitplanesPrefetch, kVectorBitplanesMicroBatch,
        kVectorNibble4, kVector2Bit}"
    | (small) "layout \<in> {kSmallLane4Bitplanes, kSmallLane2Bitplanes}"
    | (trimmed) "layout = kSplit3TrimmedBitplanes"
    using variable_layouts [OF ok] plain unfolding layout_def by auto
  then show ?thesis
  proof cases
    case vector
    define payload where "payload = concat (map (\<lambda>c. concat (map (lane_chunk layout bits dim c) [0..<D])) codes)"
    have "variable_payload layout bits (8 * bits) dim codes = Inr payload"
      using vector unfolding variable_payload_def payload_def D_def
      by (auto simp: layout_tests variable_chunk_def intro!: vector_lanes_Inr [OF _ fits] chunk [unfolded D_def, folded]
          dest: chunk [unfolded D_def])
    moreover have "lane_offset layout True D (8 * bits) (length codes) (length codes) lane db =
        (lane * D + db) * (8 * bits)" for lane db
      using vector by (auto simp: lane_offset_def layout_tests)
    ultimately show ?thesis
      using vector_lanes_at [of codes D "lane_chunk layout bits dim" "8 * bits"] len
      unfolding payload_def by simp
  next
    case small
    define s where "s = SmallLaneBitplanesGroupSize layout"
    have s: "0 < s" by (simp add: s_def SmallLaneBitplanesGroupSize_def)
    define payload where "payload = concat (map (\<lambda>g. concat (map (\<lambda>db. concat (map
        (\<lambda>c. lane_chunk layout bits dim c db) (slice (g * s) s codes))) [0..<D]))
        [0..<(length codes + s - 1) div s])"
    have sub: "c \<in> set codes" if "c \<in> set (slice off n codes)" for c off n
      using that by (auto simp: slice_def dest: in_set_takeD in_set_dropD)
    have planes: "planes_chunk bits (8 * bits) dim c db = Inr (lane_chunk layout bits dim c db)"
      if "c \<in> set codes" "db < D" for c db
      using chunk [OF that] small by (auto simp: variable_chunk_def)
    have "small_lanes s bits (8 * bits) dim codes = Inr payload"
      unfolding small_lanes_def payload_def D_def [symmetric]
      by (rule append_each_Inr, rule append_each_Inr, rule append_each_Inr)
        (simp add: check_folded_ok [OF fits [OF sub]] planes [OF sub])
    then have "variable_payload layout bits (8 * bits) dim codes = Inr payload"
      using small unfolding variable_payload_def s_def by (auto simp: layout_tests)
    moreover have "lane_offset layout True D (8 * bits) (length codes) (length codes) lane db =
        lane div s * s * D * (8 * bits) + (db * min s (length codes - lane div s * s) + (lane - lane div s * s)) * (8 * bits)" for lane db
      using small unfolding s_def by (auto simp: lane_offset_def layout_tests)
    ultimately show ?thesis
      using small_lanes_at [of codes D "lane_chunk layout bits dim" "8 * bits" _ _ s] len s
      unfolding payload_def by simp
  next
    case trimmed
    define payload where "payload = concat (map (\<lambda>db. concat (map (\<lambda>c. lane_chunk layout bits dim c db) codes)) [0..<D])"
    have planes: "planes_chunk bits (8 * bits) dim c db = Inr (lane_chunk layout bits dim c db)"
      if "c \<in> set codes" "db < D" for c db
      using chunk [OF that] trimmed by (auto simp: variable_chunk_def)
    have "trimmed_lanes bits (8 * bits) dim codes = Inr payload"
      unfolding trimmed_lanes_def payload_def D_def [symmetric]
      by (rule append_each_Inr, rule append_each_Inr) (simp add: check_folded_ok [OF fits] planes)
    then have "variable_payload layout bits (8 * bits) dim codes = Inr payload"
      using trimmed unfolding variable_payload_def by (auto simp: layout_tests)
    moreover have "lane_offset layout True D (8 * bits) (length codes) (length codes) lane db =
        (db * length codes + lane) * (8 * bits)" for lane db
      using trimmed by (simp add: lane_offset_def layout_tests distrib_right)
    ultimately show ?thesis
      using trimmed_lanes_at [of codes D "lane_chunk layout bits dim" "8 * bits"] len
      unfolding payload_def by simp
  qed
qed

lemma elided_payload:
  assumes ok: "variable_ok cfg" and dim: "dim < 67108864"
    and codes: "\<And>c. c \<in> set codes \<Longrightarrow> fits_code (rc_ex_bits cfg) dim c"
    and elide: "effective_exdata_layout cfg = kSplit3ZeroPlaneElide"
  defines "layout \<equiv> effective_exdata_layout cfg" and "bits \<equiv> rc_ex_bits cfg"
    and "D \<equiv> exrabitq_dim_block_count dim"
  shows "variable_payload layout bits (8 * bits) dim codes = Inr (concat (map (\<lambda>db.
      concat (map (elided_plane (map (\<lambda>c. lane_chunk layout bits dim c db) codes)) [0..<bits])) [0..<D]))"
proof -
  have planes: "planes_chunk bits (8 * bits) dim c db = Inr (lane_chunk layout bits dim c db)"
    if "c \<in> set codes" "db < D" for c db
    using lane_chunk_spec(1) [OF ok _ codes, of c db] that dim_blocks(3) [OF dim] elide
    unfolding layout_def bits_def D_def by (simp add: variable_chunk_def)
  have fits: "\<And>c. c \<in> set codes \<Longrightarrow> fits_code bits dim c" using codes by (simp add: bits_def)
  have "elided_lanes bits (8 * bits) dim codes = Inr (concat (map (\<lambda>db.
      concat (map (elided_plane (map (\<lambda>c. lane_chunk layout bits dim c db) codes)) [0..<bits])) [0..<D]))"
    unfolding elided_lanes_def D_def [symmetric]
  proof (rule append_each_Inr)
    fix db assume "db \<in> set [0..<D]"
    then have "map_each (\<lambda>code. res_bind (check_folded dim
          ''official ExRaBitQ v15 requires sign-folded ExData'' code)
          (\<lambda>_. planes_chunk bits (8 * bits) dim code db)) codes =
        Inr (map (\<lambda>c. lane_chunk layout bits dim c db) codes)"
      by (intro map_each_Inr) (simp add: check_folded_ok [OF fits] planes)
    then show "res_bind (map_each (\<lambda>code. res_bind (check_folded dim
          ''official ExRaBitQ v15 requires sign-folded ExData'' code)
          (\<lambda>_. planes_chunk bits (8 * bits) dim code db)) codes)
        (\<lambda>lanes. Inr (concat (map (elided_plane lanes) [0..<bits]))) =
      Inr (concat (map (elided_plane (map (\<lambda>c. lane_chunk layout bits dim c db) codes)) [0..<bits]))"
      by simp
  qed
  then show ?thesis using elide unfolding variable_payload_def layout_def by (simp add: layout_tests)
qed

lemma tile_payload:
  assumes ok: "variable_ok cfg" and dim: "dim < 67108864" "0 < dim"
    and codes: "\<And>c. c \<in> set codes \<Longrightarrow> fits_code (rc_ex_bits cfg) dim c"
    and tiles: "effective_exdata_layout cfg = kVectorBitMajorTiles"
    and one: "codes \<noteq> []"
  defines "bits \<equiv> rc_ex_bits cfg"
  defines "V \<equiv> ExRaBitQBitMajorTileVectorBytes dim bits"
  shows "\<exists>payload. variable_payload kVectorBitMajorTiles bits (8 * bits) dim codes = Inr payload \<and> 0 < V
    \<and> (\<forall>lane < length codes. lane * V + V \<le> length payload
        \<and> ExRaBitQUnpackOfficialBitMajorTiles (slice (lane * V) V payload) dim bits
          = Some (qc_ex_code (codes ! lane)))"
proof -
  have w: "1 \<le> bits" "bits \<le> 3" using variable_layouts [OF ok] tiles by (auto simp: bits_def)
  define tile where "tile c = the (ExRaBitQPackOfficialBitMajorTiles (qc_ex_code c) bits V)" for c :: rabitq_code
  have tile: "ExRaBitQPackOfficialBitMajorTiles (qc_ex_code c) bits V = Some (tile c)"
      "length (tile c) = V" "ExRaBitQUnpackOfficialBitMajorTiles (tile c) dim bits = Some (qc_ex_code c)"
    if c: "c \<in> set codes" for c
  proof -
    have f: "length (qc_ex_code c) = dim" "\<forall>v \<in> set (qc_ex_code c). unat v < 2 ^ bits"
      using codes [OF c] by (simp_all add: fits_code_def bits_def)
    obtain out where "ExRaBitQPackOfficialBitMajorTiles (qc_ex_code c) bits V = Some out"
        "length out = V" "ExRaBitQUnpackOfficialBitMajorTiles out dim bits = Some (qc_ex_code c)"
      using tiles_pack_roundtrip [OF w, of "qc_ex_code c" V] f dim by (auto simp: V_def)
    then show "ExRaBitQPackOfficialBitMajorTiles (qc_ex_code c) bits V = Some (tile c)"
      "length (tile c) = V" "ExRaBitQUnpackOfficialBitMajorTiles (tile c) dim bits = Some (qc_ex_code c)"
      by (simp_all add: tile_def)
  qed
  have V: "0 < V"
  proof -
    obtain c where c: "c \<in> set codes" using one by (cases codes) auto
    have "length (qc_ex_code c) = dim" using codes [OF c] by (simp add: fits_code_def)
    then show ?thesis using tile(1) [OF c]
      by (auto simp: ExRaBitQPackOfficialBitMajorTiles_def V_def Let_def split: if_splits)
  qed
  define payload where "payload = concat (map tile codes)"
  have "tile_lanes bits dim codes = Inr payload"
    using V unfolding tile_lanes_def payload_def V_def [symmetric]
    by (auto intro!: append_each_Inr simp: check_folded_ok [OF codes] tile(1) or_error_def)
  then have "variable_payload kVectorBitMajorTiles bits (8 * bits) dim codes = Inr payload"
    unfolding variable_payload_def by (simp add: layout_tests)
  moreover have "lane * V + V \<le> length payload
      \<and> ExRaBitQUnpackOfficialBitMajorTiles (slice (lane * V) V payload) dim bits
        = Some (qc_ex_code (codes ! lane))" if "lane < length codes" for lane
  proof -
    have "length payload = length codes * V"
      unfolding payload_def by (rule length_concat_map_uniform) (rule tile(2))
    moreover have "Suc lane * V \<le> length codes * V" using that by (intro mult_le_mono1) simp
    moreover have "slice (lane * V) V payload = tile (codes ! lane)"
      unfolding payload_def by (rule slice_concat_map [OF tile(2) that])
    ultimately show ?thesis using tile(3) that by simp
  qed
  ultimately show ?thesis using V by blast
qed

end
