(* ===== verification/Cluster_Writer.thy ===== *)
theory Cluster_Writer
  imports Ex_Region File_IO
begin

text \<open>
  \<open>ClusterStoreWriter\<close> (src/storage/cluster_store.cpp): a seekable file stream on a device of
  limited capacity, the writer's state, and its six operations.  A cluster block is written by
  \<open>BeginCluster\<close>, \<open>WriteVectors\<close>, \<open>WriteAddressBlocks\<close>, \<open>EndCluster\<close>, in this order; \<open>EndCluster\<close>
  patches the block's entry in the lookup table, \<open>Finalize\<close> the data file's path in the header.
  \<open>getenv\<close> is the environment, read again by each operation that asks for the version.  \<open>None\<close> is
  a read outside the memory of an argument.  The model passes each write on to the device at once;
  \<open>std::ofstream\<close> may keep bytes in its buffer and notice a full device later, or not at all.  The
  theorems are about runs in which every write succeeds, and the files of these are the same.
\<close>

section \<open>The file\<close>

text \<open>A failed write or a failed stream ignores every later write and seek; \<open>tellp\<close> then answers -1.\<close>

record fstream =
  fs_open :: bool
  fs_good :: bool
  fs_data :: bytes
  fs_pos :: nat
  fs_capacity :: nat

definition fs_write :: "fstream \<Rightarrow> bytes \<Rightarrow> fstream" where
  "fs_write s bs =
     (if \<not> fs_good s then s
      else let room = fs_capacity s - fs_pos s; fits = (length bs \<le> room); written = take room bs
        in s\<lparr>fs_data := write_at (fs_data s) (fs_pos s) written,
             fs_pos := fs_pos s + length written, fs_good := fits\<rparr>)"

definition fs_seekp :: "fstream \<Rightarrow> nat \<Rightarrow> fstream" where
  "fs_seekp s pos = (if fs_good s then s\<lparr>fs_pos := pos\<rparr> else s)"

definition fs_tellp :: "fstream \<Rightarrow> nat" where
  "fs_tellp s = (if fs_good s then fs_pos s else 18446744073709551615)"

section \<open>State\<close>

record store_info =
  si_num_clusters :: nat
  si_dim :: nat
  si_config :: rabitq_config
  si_data_path :: string
  si_lookup :: "lookup_entry list"

record cluster_writer =
  cw_stream :: fstream
  cw_path :: string
  cw_info :: store_info
  cw_offset :: nat
  cw_lookup_start :: nat
  cw_path_offset :: nat
  cw_index :: nat
  cw_block_start :: nat
  cw_in_cluster :: bool
  cw_vectors :: bool
  cw_address :: bool
  cw_finalized :: bool
  cw_column :: enc_column
  cw_num_fastscan :: nat
  cw_ex_offset :: nat

definition enc_column_new :: enc_column where
  "enc_column_new = \<lparr>ec_format = V1Packed,
     ec_layout = \<lparr>al_page_size = 4096, al_bit_width = 1, al_granularity = 0, al_fixed_packed = 0,
       al_last_packed = 0, al_num_blocks = 0\<rparr>,
     ec_blocks = [], ec_raw = [], ec_total = 0\<rparr>"

definition cluster_writer_new :: cluster_writer where
  "cluster_writer_new = \<lparr>cw_stream = \<lparr>fs_open = False, fs_good = True, fs_data = [], fs_pos = 0,
       fs_capacity = 0\<rparr>,
     cw_path = [], cw_info = \<lparr>si_num_clusters = 0, si_dim = 0, si_config = rabitq_config_default,
       si_data_path = [], si_lookup = []\<rparr>,
     cw_offset = 0, cw_lookup_start = 0, cw_path_offset = 0, cw_index = 0, cw_block_start = 0,
     cw_in_cluster = False, cw_vectors = False, cw_address = False, cw_finalized = False,
     cw_column = enc_column_new, cw_num_fastscan = 0, cw_ex_offset = 0\<rparr>"

definition cw_put :: "cluster_writer \<Rightarrow> bytes \<Rightarrow> cluster_writer" where
  "cw_put w bs = w\<lparr>cw_stream := fs_write (cw_stream w) bs\<rparr>"

abbreviation cw_good :: "cluster_writer \<Rightarrow> bool" where
  "cw_good w \<equiv> fs_good (cw_stream w)"

definition cw_advance :: "cluster_writer \<Rightarrow> nat \<Rightarrow> cluster_writer" where
  "cw_advance w n = w\<lparr>cw_offset := wrap64 (cw_offset w + n)\<rparr>"

definition cw_cfg :: "cluster_writer \<Rightarrow> rabitq_config" where
  "cw_cfg w = si_config (cw_info w)"

definition cw_dim :: "cluster_writer \<Rightarrow> nat" where
  "cw_dim w = si_dim (cw_info w)"

definition PadTo4K :: "cluster_writer \<Rightarrow> cluster_writer" where
  "PadTo4K w =
     (let offset = cw_offset w; aligned = unat (RoundUp4K (of_nat offset))
      in if offset < aligned
         then (cw_put w (replicate (aligned - offset) 0))\<lparr>cw_offset := aligned\<rparr> else w)"

section \<open>Open\<close>

text \<open>The configuration as the file will carry it, or why it is refused.\<close>

definition normalise_config :: "rabitq_config \<Rightarrow> error + rabitq_config" where
  "normalise_config c =
     (if uses_official_1_plus_n c then
        if \<not> official_bits_valid c then
          Inl (invalid ''official RaBitQ requires total_bits == ex_bits + 1'')
        else if \<not> SupportsOfficialExDataBits (rc_ex_bits c) then
          Inl (invalid ''official RaBitQ ExData supports ex_bits=0,1,2,3,4'')
        else if \<not> exdata_layout_valid c then
          Inl (invalid ''official optimized ExData layout is incompatible with ex_bits'')
        else Inr (c\<lparr>rc_layout := effective_exdata_layout c,
                    rc_bits := (if 0 < rc_ex_bits c then rc_ex_bits c else 1)\<rparr>)
      else if \<not> exdata_layout_valid c then
        Inl (invalid ''legacy RaBitQ requires generic ExData layout'')
      else Inr (c\<lparr>rc_total_bits := rc_bits c, rc_ex_bits := (if 1 < rc_bits c then rc_bits c else 0),
                  rc_layout := kGenericPacked\<rparr>))"

definition resize :: "nat \<Rightarrow> 'a \<Rightarrow> 'a list \<Rightarrow> 'a list" where
  "resize n x xs = take n xs @ replicate (n - length xs) x"

definition cw_entry_size :: "cluster_writer \<Rightarrow> nat" where
  "cw_entry_size w = lookup_entry_size (cw_dim w)"

text \<open>The file has just been opened: global header, lookup table of zeros, padding.\<close>

definition write_header :: "cluster_writer \<Rightarrow> nat \<Rightarrow> cluster_writer \<times> status" where
  "write_header w file_version =
     (let info = cw_info w;
          w1 = cw_put w (header_prefix file_version (si_num_clusters info) (si_dim info) (si_config info));
          w2 = w1\<lparr>cw_path_offset := fs_tellp (cw_stream w1)\<rparr>;
          w3 = cw_put (cw_put w2 (le_bytes 4 0)) (replicate kMaxPathLen 0)
      in if \<not> cw_good w3 then (w3, Inl (kIOError, ''Failed to write global header''))
         else
           let w4 = w3\<lparr>cw_lookup_start := fs_tellp (cw_stream w3)\<rparr>;
               w5 = cw_put w4 (replicate (si_num_clusters info * cw_entry_size w4) 0)
           in if \<not> cw_good w5 then
                (w5, Inl (kIOError, ''Failed to write lookup table placeholders''))
              else (PadTo4K (w5\<lparr>cw_offset := fs_tellp (cw_stream w5)\<rparr>), Inr ()))"

text \<open>\<open>device\<close>: the file could be created on a device of that capacity.\<close>

definition cw_Open ::
    "(string \<Rightarrow> string option) \<Rightarrow> cluster_writer \<Rightarrow> string \<Rightarrow> nat \<Rightarrow> nat \<Rightarrow> rabitq_config
      \<Rightarrow> nat option \<Rightarrow> cluster_writer \<times> status" where
  "cw_Open getenv w path num_clusters dim cfg device =
     (if fs_open (cw_stream w) then (w, Inl (invalid ''ClusterStoreWriter already open''))
      else
        let cfg1 = cfg\<lparr>rc_storage_version := wrap8 (EffectiveWriterFileVersion getenv cfg)\<rparr>;
            info1 = (cw_info w)\<lparr>si_num_clusters := num_clusters, si_dim := dim, si_config := cfg1\<rparr>;
            w1 = w\<lparr>cw_path := path, cw_info := info1\<rparr>
        in case normalise_config cfg1 of
          Inl e \<Rightarrow> (w1, Inl e)
        | Inr cfg2 \<Rightarrow>
            let w2 = w1\<lparr>cw_info := info1\<lparr>si_config := cfg2,
                       si_lookup := resize num_clusters lookup_entry_new (si_lookup info1)\<rparr>,
                     cw_index := 0, cw_in_cluster := False, cw_finalized := False\<rparr>;
                file_version = EffectiveWriterFileVersion getenv cfg2
            in if 12 \<le> file_version \<and> \<not> uses_official_1_plus_n cfg2 \<and> 1 < rc_bits cfg2
                  \<and> \<not> SupportsPackedStage2MagnitudeBits (rc_bits cfg2) then
                 (w2, Inl (invalid ''Packed ExRaBitQ Stage2 magnitude supports only bits=2 or bits=4''))
               else (case device of
                 None \<Rightarrow> (w2\<lparr>cw_stream := (cw_stream w2)\<lparr>fs_good := False\<rparr>\<rparr>,
                          Inl (kIOError, ''Failed to open ClusterStore: '' @ path))
               | Some capacity \<Rightarrow>
                   write_header (w2\<lparr>cw_stream := \<lparr>fs_open = True, fs_good = True, fs_data = [],
                     fs_pos = 0, fs_capacity = capacity\<rparr>\<rparr>) file_version))"

section \<open>A cluster's block\<close>

definition set_entry :: "cluster_writer \<Rightarrow> (lookup_entry \<Rightarrow> lookup_entry) \<Rightarrow> cluster_writer" where
  "set_entry w f = w\<lparr>cw_info := (cw_info w)\<lparr>si_lookup := (si_lookup (cw_info w))
     [cw_index w := f (si_lookup (cw_info w) ! cw_index w)]\<rparr>\<rparr>"

definition cw_entry :: "cluster_writer \<Rightarrow> lookup_entry" where
  "cw_entry w = si_lookup (cw_info w) ! cw_index w"

definition BeginCluster ::
    "cluster_writer \<Rightarrow> nat \<Rightarrow> nat \<Rightarrow> f32 list \<Rightarrow> f32 \<Rightarrow> (cluster_writer \<times> status) option" where
  "BeginCluster w cluster_id num_records centroid epsilon =
     (if \<not> fs_open (cw_stream w) then Some (w, Inl (invalid ''ClusterStoreWriter not open''))
      else if cw_in_cluster w then Some (w, Inl (invalid ''Previous cluster not ended''))
      else if si_num_clusters (cw_info w) \<le> cw_index w then
        Some (w, Inl (invalid ''All clusters already written''))
      else if length centroid < cw_dim w then None
      else Some ((set_entry (w\<lparr>cw_in_cluster := True, cw_vectors := False, cw_address := False\<rparr>)
          (\<lambda>e. e\<lparr>le_cluster_id := cluster_id, le_num_records := num_records, le_epsilon := epsilon,
                 le_centroid := take (cw_dim w) centroid\<rparr>))\<lparr>cw_block_start := cw_offset w\<rparr>, Inr ()))"

text \<open>A FastScan block: the packed sign bits of up to 32 codes, then 32 norms.\<close>

definition fastscan_block :: "nat \<Rightarrow> rabitq_code list \<Rightarrow> bytes option" where
  "fastscan_block dim codes = do {
     packed \<leftarrow> PackSignBitsForFastScan (map qc_code codes) (length codes) dim;
     Some (packed @ concat (map f32_bytes (map qc_norm codes @ replicate (32 - length codes) 0)))
   }"

fun write_fastscan :: "cluster_writer \<Rightarrow> rabitq_code list list \<Rightarrow> (cluster_writer \<times> status) option" where
  "write_fastscan w [] = Some (w, Inr ())"
| "write_fastscan w (codes # rest) = do {
     block \<leftarrow> fastscan_block (cw_dim w) codes;
     let w1 = cw_put w block;
     if \<not> cw_good w1 then Some (w1, Inl (kIOError, ''Failed to write FastScan block''))
     else write_fastscan (cw_advance w1 (FastScanBlockSize (cw_dim w))) rest
   }"

text \<open>The loop over the fixed batch blocks; a refused lane leaves the bytes before it in the file.\<close>

fun write_fixed :: "nat \<Rightarrow> cluster_writer \<Rightarrow> rabitq_code list list \<Rightarrow> cluster_writer \<times> status" where
  "write_fixed version w [] = (w, Inr ())"
| "write_fixed version w (codes # rest) =
     (let (bytes, refused) = fixed_block (cw_cfg w) version (cw_dim w) codes; w1 = cw_put w bytes
      in case refused of
           Some e \<Rightarrow> (w1, Inl e)
         | None \<Rightarrow>
             if \<not> cw_good w1 then (w1, Inl (kIOError, ''Failed to write ExRaBitQ compact block''))
             else write_fixed version
               (cw_advance w1 (exrabitq_batch_block_size (cw_cfg w) version (cw_dim w))) rest)"

fun write_legacy :: "cluster_writer \<Rightarrow> rabitq_code list \<Rightarrow> cluster_writer \<times> status" where
  "write_legacy w [] = (w, Inr ())"
| "write_legacy w (code # rest) =
     (case legacy_entry (cw_dim w) code of
        Inl e \<Rightarrow> (w, Inl e)
      | Inr bytes \<Rightarrow>
          let w1 = cw_put w bytes
          in if \<not> cw_good w1 then (w1, Inl (kIOError, ''Failed to write ExRaBitQ entry''))
             else write_legacy (cw_advance w1 (cw_dim w + PackedSignBytes (cw_dim w) + 4)) rest)"

text \<open>The stage-2 region of a cluster.\<close>

definition write_stage2 ::
    "(string \<Rightarrow> string option) \<Rightarrow> cluster_writer \<Rightarrow> rabitq_code list \<Rightarrow> cluster_writer \<times> status" where
  "write_stage2 getenv w codes =
     (let cfg = cw_cfg w; dim = cw_dim w; version = EffectiveWriterFileVersion getenv cfg;
          official = uses_official_1_plus_n cfg; bits = stage2_payload_bits cfg;
          layout = effective_exdata_layout cfg; n = wrap32 (length codes);
          abs_lane_bytes = (if 12 \<le> version then ExRaBitQPackedMagnitudeBytes 64 bits else 64)
      in if bits = 0 then (w, Inr ())
         else if 12 \<le> version \<and> \<not> official \<and> \<not> SupportsPackedStage2MagnitudeBits (rc_bits cfg) then
           (w, Inl (invalid ''Packed ExRaBitQ Stage2 magnitude supports only bits=2 or bits=4''))
         else if 11 \<le> version then
           if 12 \<le> version \<and> abs_lane_bytes = 0 then
             (w, Inl (invalid ''unsupported ExRaBitQ packed Stage2 payload bit width''))
           else if official \<and> UsesVariableOfficialExDataLayout layout then
             (case variable_region layout bits abs_lane_bytes dim (take n codes) of
                Inl e \<Rightarrow> (w, Inl e)
              | Inr region \<Rightarrow>
                  let w1 = cw_put w region
                  in if \<not> cw_good w1 then
                       (w1, Inl (kIOError, ''Failed to write variable official ExRaBitQ region''))
                     else (cw_advance w1 (length region), Inr ()))
           else write_fixed version w (map (batch (take n codes)) [0..<exrabitq_num_batch_blocks n])
         else write_legacy w codes)"

definition WriteVectors ::
    "(string \<Rightarrow> string option) \<Rightarrow> cluster_writer \<Rightarrow> rabitq_code list \<Rightarrow> (cluster_writer \<times> status) option" where
  "WriteVectors getenv w codes =
     (if \<not> fs_open (cw_stream w) \<or> \<not> cw_in_cluster w then
        Some (w, Inl (invalid ''Not in a cluster block''))
      else if cw_vectors w then Some (w, Inl (invalid ''Vectors already written''))
      else
        let n = wrap32 (length codes); num_blocks = wrap32 (n + 31) div 32
        in do {
          (w1, st) \<leftarrow> write_fastscan (w\<lparr>cw_num_fastscan := num_blocks\<rparr>)
            (map (\<lambda>b. slice (b * 32) 32 (take n codes)) [0..<num_blocks]);
          Some (case st of
              Inl e \<Rightarrow> (w1, Inl e)
            | Inr _ \<Rightarrow>
                let w2 = w1\<lparr>cw_ex_offset := wrap32 (wrap64 (cw_offset w1 + 18446744073709551616 - cw_block_start w1))\<rparr>;
                    (w3, st2) = write_stage2 getenv w2 codes
                in (case st2 of Inl e \<Rightarrow> (w3, Inl e) | Inr _ \<Rightarrow> (w3\<lparr>cw_vectors := True\<rparr>, Inr ())))
        })"

text \<open>The raw table: page index and page count of each record.\<close>

definition raw_bytes :: "raw_entry list \<Rightarrow> bytes" where
  "raw_bytes entries = concat (map (\<lambda>e. le_bytes 4 (re_offset_pages e) @ le_bytes 4 (re_size_pages e)) entries)"

definition column_error :: "nat \<Rightarrow> enc_column \<Rightarrow> error option" where
  "column_error num_records column =
     (if ec_total column \<noteq> num_records then
        Some (invalid ''Address column record count does not match cluster'')
      else if ec_format column = V1Packed then
        if length (ec_blocks column) \<noteq> al_num_blocks (ec_layout column) then
          Some (invalid ''Address column block count does not match layout'')
        else if 0 < num_records \<and> al_num_blocks (ec_layout column) = 0 then
          Some (invalid ''Non-empty cluster requires address blocks'')
        else None
      else if length (ec_raw column) \<noteq> num_records then
        Some (invalid ''Raw address table entry count mismatch'')
      else None)"

text \<open>A packed column is decoded and becomes a raw table.\<close>

definition raw_column :: "simd_build \<Rightarrow> enc_column \<Rightarrow> enc_column status_or option" where
  "raw_column build column =
     (if ec_format column = V1Packed then do {
        decoded \<leftarrow> AddressColumn_Decode build column;
        (case decoded of
           Inl e \<Rightarrow> Some (Inl e)
         | Inr entries \<Rightarrow> map_option Inr (EncodeRawTableV2 entries (al_page_size (ec_layout column))))
      } else Some (Inr column))"

definition WriteAddressBlocks ::
    "simd_build \<Rightarrow> cluster_writer \<Rightarrow> enc_column \<Rightarrow> (cluster_writer \<times> status) option" where
  "WriteAddressBlocks build w column =
     (if \<not> fs_open (cw_stream w) \<or> \<not> cw_in_cluster w then
        Some (w, Inl (invalid ''Not in a cluster block''))
      else if \<not> cw_vectors w then
        Some (w, Inl (invalid ''Must write vectors before address blocks''))
      else if cw_address w then Some (w, Inl (invalid ''Address blocks already written''))
      else case column_error (le_num_records (cw_entry w)) column of
        Some e \<Rightarrow> Some (w, Inl e)
      | None \<Rightarrow> do {
          raw \<leftarrow> raw_column build column;
          Some (case raw of
              Inl e \<Rightarrow> (w\<lparr>cw_column := column\<rparr>, Inl e)
            | Inr col \<Rightarrow>
                let w1 = w\<lparr>cw_column := col\<rparr>; bytes = raw_bytes (ec_raw col)
                in if bytes = [] then (w1\<lparr>cw_address := True\<rparr>, Inr ())
                   else
                     let w2 = cw_put w1 bytes
                     in if \<not> cw_good w2 then (w2, Inl (kIOError, ''Failed to write raw address table''))
                        else ((cw_advance w2 (length bytes))\<lparr>cw_address := True\<rparr>, Inr ()))
        })"

definition sub64 :: "nat \<Rightarrow> nat \<Rightarrow> nat" where
  "sub64 a b = wrap64 (a + 18446744073709551616 - b)"

definition trailer_bytes :: "nat \<Rightarrow> nat \<Rightarrow> nat \<Rightarrow> bytes" where
  "trailer_bytes page_size num_entries payload_offset =
     le_bytes 4 kAddressFormatV2 @ le_bytes 4 page_size @ le_bytes 4 8 @ le_bytes 4 num_entries
     @ le_bytes 4 payload_offset @ le_bytes 4 (wrap32 (num_entries * 8))"

definition EndCluster :: "cluster_writer \<Rightarrow> cluster_writer \<times> status" where
  "EndCluster w =
     (if \<not> fs_open (cw_stream w) \<or> \<not> cw_in_cluster w then (w, Inl (invalid ''Not in a cluster block''))
      else if \<not> cw_address w then
        (w, Inl (invalid ''Must write address blocks before EndCluster''))
      else
        let trailer_start = cw_offset w; num_entries = wrap32 (length (ec_raw (cw_column w)));
            payload_offset = wrap32 (sub64 (sub64 trailer_start (cw_block_start w)) (wrap32 (num_entries * 8)));
            w1 = cw_put w (trailer_bytes (al_page_size (ec_layout (cw_column w))) num_entries payload_offset);
            mini_trailer_size = wrap32 (sub64 (wrap64 (fs_tellp (cw_stream w1) + 8)) trailer_start);
            w2 = cw_put w1 (le_bytes 4 mini_trailer_size @ le_bytes 4 kBlockMagic)
        in if \<not> cw_good w2 then (w2, Inl (kIOError, ''Failed to write block mini-trailer''))
           else
             let w3 = w2\<lparr>cw_offset := fs_tellp (cw_stream w2)\<rparr>;
                 w4 = set_entry w3 (\<lambda>e. e\<lparr>le_block_offset := cw_block_start w3,
                   le_block_size := sub64 (cw_offset w3) (cw_block_start w3),
                   le_num_fastscan := cw_num_fastscan w3, le_ex_offset := cw_ex_offset w3\<rparr>);
                 entry_offset = wrap64 (cw_lookup_start w4 + cw_index w4 * cw_entry_size w4);
                 w5 = cw_put (w4\<lparr>cw_stream := fs_seekp (cw_stream w4) entry_offset\<rparr>)
                   (lookup_entry_bytes (cw_entry w4))
             in if \<not> cw_good w5 then (w5, Inl (kIOError, ''Failed to patch lookup table entry''))
                else
                  let w6 = PadTo4K (w5\<lparr>cw_stream := fs_seekp (cw_stream w5) (cw_offset w5)\<rparr>)
                  in (w6\<lparr>cw_index := wrap32 (cw_index w6 + 1), cw_in_cluster := False,
                         cw_vectors := False, cw_address := False, cw_column := enc_column_new,
                         cw_num_fastscan := 0, cw_ex_offset := 0\<rparr>, Inr ()))"

definition string_bytes :: "string \<Rightarrow> bytes" where
  "string_bytes s = map of_char s"

definition cw_Finalize :: "cluster_writer \<Rightarrow> string \<Rightarrow> cluster_writer \<times> status" where
  "cw_Finalize w data_file_path =
     (if \<not> fs_open (cw_stream w) then (w, Inl (invalid ''ClusterStoreWriter not open''))
      else if cw_finalized w then (w, Inl (invalid ''Already finalized''))
      else if cw_in_cluster w then (w, Inl (invalid ''Cluster not ended''))
      else
        let w1 = w\<lparr>cw_info := (cw_info w)\<lparr>si_data_path := data_file_path\<rparr>,
                   cw_stream := fs_seekp (cw_stream w) (cw_path_offset w)\<rparr>;
            path_len = wrap32 (length data_file_path)
        in if kMaxPathLen < path_len then
             (w1, Inl (invalid ''data_file_path exceeds max length''))
           else
             let w2 = cw_put w1 (le_bytes 4 path_len @ take path_len (string_bytes data_file_path)
                   @ replicate (kMaxPathLen - path_len) 0)
             in if \<not> cw_good w2 then (w2, Inl (kIOError, ''Failed to patch data_file_path''))
                else (w2\<lparr>cw_stream := (cw_stream w2)\<lparr>fs_open := False\<rparr>, cw_finalized := True\<rparr>, Inr ()))"

end
