(* ===== verification/Ex_Roundtrip.thy ===== *)
theory Ex_Roundtrip
  imports Ex_Region
begin

text \<open>
  The stage-2 region of a cluster block, written and read back: for every arrangement of version 15
  and for the fixed blocks of versions 11 to 14, the code \<open>LoadCodes\<close> assembles for a record is the
  code \<open>WriteVectors\<close> was given.
\<close>

section \<open>Loading one lane\<close>

lemma load_lane_packed:
  assumes packed: "exrabitq_magnitude_packed cfg version"
    and plain: "\<not> (variable_ex \<and> effective_exdata_layout cfg = kSplit3ZeroPlaneElide)"
    and vs: "length vs = dim"
    and at: "\<And>db. db \<in> set dbs \<Longrightarrow> db * 64 < dim \<and> (\<exists>p. rd buf (abs_base +
          lane_offset (effective_exdata_layout cfg) variable_ex (exrabitq_dim_block_count dim)
            (exrabitq_abs_bytes_per_lane_dim_block cfg version) valid stored lane db)
          (exrabitq_abs_bytes_per_lane_dim_block cfg version) = Some p
        \<and> unpack_lane build cfg p = Some (dim_chunk dim vs db))"
  shows "load_lane build cfg version dim variable_ex buf abs_base valid stored lane dbs cursor =
    Some (Inr (concat (map (\<lambda>db. slice (db * 64) 64 vs) dbs)))"
  using at
proof (induction dbs)
  case (Cons db dbs)
  from Cons.prems [of db] obtain p where p: "rd buf (abs_base +
          lane_offset (effective_exdata_layout cfg) variable_ex (exrabitq_dim_block_count dim)
            (exrabitq_abs_bytes_per_lane_dim_block cfg version) valid stored lane db)
          (exrabitq_abs_bytes_per_lane_dim_block cfg version) = Some p"
        "unpack_lane build cfg p = Some (dim_chunk dim vs db)" and db: "db * 64 < dim" by auto
  have "load_lane build cfg version dim variable_ex buf abs_base valid stored lane dbs cursor =
      Some (Inr (concat (map (\<lambda>db. slice (db * 64) 64 vs) dbs)))"
    using Cons.prems by (intro Cons.IH) simp
  then show ?case using plain p packed take_dim_chunk [OF vs db] by (auto simp: Let_def)
qed simp

lemma load_lane_elided:
  assumes packed: "exrabitq_magnitude_packed cfg version"
    and elide: "effective_exdata_layout cfg = kSplit3ZeroPlaneElide"
    and vs: "length vs = dim"
    and lanes: "\<And>db. db \<in> set dbs \<Longrightarrow> db * 64 < dim \<and> lane < length (lanes db) \<and> length (lanes db) \<le> 8
      \<and> (\<forall>l \<in> set (lanes db). length l = stage2_payload_bits cfg * 8)
      \<and> unpack_lane build cfg (lanes db ! lane) = Some (dim_chunk dim vs db)"
  shows "load_lane build cfg version dim True
      (pre @ concat (map (\<lambda>db. concat (map (elided_plane (lanes db)) [0..<stage2_payload_bits cfg])) dbs) @ post)
      abs_base valid stored lane dbs (length pre) =
    Some (Inr (concat (map (\<lambda>db. slice (db * 64) 64 vs) dbs)))"
  using lanes
proof (induction dbs arbitrary: pre)
  case (Cons db dbs)
  define B where "B = concat (map (elided_plane (lanes db)) [0..<stage2_payload_bits cfg])"
  define R where "R = concat (map (\<lambda>db. concat (map (elided_plane (lanes db)) [0..<stage2_payload_bits cfg])) dbs)"
  from Cons.prems [of db] have h: "db * 64 < dim" "lane < length (lanes db)" "length (lanes db) \<le> 8"
      "\<forall>l \<in> set (lanes db). length l = stage2_payload_bits cfg * 8"
      "unpack_lane build cfg (lanes db ! lane) = Some (dim_chunk dim vs db)" by auto
  have "length (lanes db ! lane) = stage2_payload_bits cfg * 8" using h(2,4) by simp
  then have words: "elided_words (pre @ B @ R @ post) lane (stage2_payload_bits cfg) (length pre) =
      Some (lanes db ! lane, length pre + length B)"
    using elided_words_at [OF h(4,3,2), of 0 "stage2_payload_bits cfg" pre "R @ post"] planes_of_lane
    unfolding B_def by simp
  have "load_lane build cfg version dim True ((pre @ B) @ R @ post) abs_base valid stored lane dbs
        (length (pre @ B)) = Some (Inr (concat (map (\<lambda>db. slice (db * 64) 64 vs) dbs)))"
    unfolding R_def by (rule Cons.IH, rule Cons.prems, simp)
  then show ?case
    using elide words h(5) packed take_dim_chunk [OF vs h(1)]
    by (simp add: Let_def B_def [symmetric] R_def [symmetric])
qed simp

text \<open>All dimension blocks of a record.\<close>

lemma all_dim_blocks:
  assumes "length vs = dim" and "dim < 67108864"
  shows "concat (map (\<lambda>db. slice (db * 64) 64 vs) [0..<exrabitq_dim_block_count dim]) = vs"
  using dim_blocks(2) [OF assms(2)] assms(1) by (intro concat_slices) simp

lemma variable_packed: "variable_ok cfg \<Longrightarrow> exrabitq_magnitude_packed cfg 15"
  using variable_bits [of cfg] by (simp add: exrabitq_magnitude_packed_def variable_payload_bits)

section \<open>Loading a record from a variable block\<close>

lemma rd_at: "length xs = n \<Longrightarrow> rd (pre @ xs @ post) (length pre) n = Some xs"
  by (simp add: rd_def slice_def)

lemma rd_nat_at: "x < 4294967296 \<Longrightarrow> rd_nat (pre @ le_bytes 4 x @ post) (length pre) = Some x"
  by (simp add: rd_nat_def rd_at le_nat_le_bytes)

lemma rd_float_at: "rd_float (pre @ f32_bytes x @ post) (length pre) = Some x"
  by (simp add: rd_float_def rd_nat_def rd_at)

text \<open>A float of a table of floats.\<close>

lemma rd_float_table:
  assumes "k < length xs"
  shows "rd_float (pre @ concat (map f32_bytes xs) @ post) (length pre + k * 4) = Some (xs ! k)"
proof -
  have "concat (map f32_bytes xs) = concat (map f32_bytes (take k xs)) @ f32_bytes (xs ! k)
      @ concat (map f32_bytes (drop (Suc k) xs))"
    using arg_cong [OF id_take_nth_drop [OF assms], of "\<lambda>ys. concat (map f32_bytes ys)"] by simp
  moreover have "length (concat (map f32_bytes (take k xs))) = k * 4"
    using assms by (subst length_concat_map_uniform [of _ _ 4]) simp_all
  ultimately show ?thesis
    using rd_float_at [of "pre @ concat (map f32_bytes (take k xs))" "xs ! k"
        "concat (map f32_bytes (drop (Suc k) xs)) @ post"] by simp
qed

definition with_official ::
    "rabitq_code \<Rightarrow> rabitq_code \<Rightarrow> rabitq_code" where
  "with_official code stored = code\<lparr>qc_ex_code := qc_ex_code stored, qc_ex_sign := [],
     qc_sign_folded := True, qc_factor_add := qc_factor_add stored,
     qc_factor_rescale := qc_factor_rescale stored,
     qc_xipnorm := (if f32_gt (qc_norm code) 0x0DA24260
       then f32_div (f32_mul 0xBF000000 (qc_factor_rescale stored)) (qc_norm code) else 0)\<rparr>"

lemma factor_bytes_table:
  "factor_bytes codes = concat (map f32_bytes (map qc_factor_add codes @ map qc_factor_rescale codes))"
  by (simp add: factor_bytes_def comp_def)

lemma length_factor_bytes: "length (factor_bytes codes) = length codes * 2 * 4"
  unfolding factor_bytes_table by (subst length_concat_map_uniform [of _ _ 4]) simp_all

lemma load_factors_at:
  assumes "lane < length codes"
  shows "load_official_factors (pre @ body @ factor_bytes codes @ post) (length pre)
      (length (body @ factor_bytes codes)) (length codes) lane (code\<lparr>qc_ex_code := qc_ex_code (codes ! lane), qc_ex_sign := []\<rparr>)
    = Some (with_official code (codes ! lane))"
proof -
  have at: "rd_factor (pre @ body @ factor_bytes codes @ post) (length pre) (length (body @ factor_bytes codes))
      (length codes * 2) k = Some ((map qc_factor_add codes @ map qc_factor_rescale codes) ! k)"
    if "k < length codes * 2" for k
    using rd_float_table [of k "map qc_factor_add codes @ map qc_factor_rescale codes" "pre @ body" post] that
    unfolding factor_bytes_table [symmetric]
    by (simp add: rd_factor_def length_factor_bytes)
  show ?thesis
    using at [of lane] at [of "length codes + lane"] assms
    by (simp add: load_official_factors_def with_official_def nth_append)
qed

lemma variable_not_selected: "variable_ok cfg \<Longrightarrow> effective_exdata_layout cfg \<noteq> kSelectedDirect"
  by (drule variable_layouts) auto

text \<open>The block of a batch, wherever it lies in the buffer.\<close>

lemma load_from_variable_block:
  assumes ok: "variable_ok cfg" and dim: "dim < 67108864" "0 < dim"
    and codes: "\<And>c. c \<in> set codes \<Longrightarrow> fits_code (rc_ex_bits cfg) dim c"
    and batch: "length codes \<le> 8" "idx mod 8 < length codes"
  shows "\<exists>block. variable_block (effective_exdata_layout cfg) (rc_ex_bits cfg) (8 * rc_ex_bits cfg) dim codes
        = Inr block
    \<and> (\<forall>pre post. locate_block cfg 15 dim True (pre @ block @ post) region1 (idx div 8)
          = Some (Inr (length pre, length block))
        \<longrightarrow> load_batch_code build cfg 15 dim (pre @ block @ post) region1 idx code
          = Some (Inr (with_official code (codes ! (idx mod 8)))))"
proof -
  define layout where "layout = effective_exdata_layout cfg"
  define bits where "bits = rc_ex_bits cfg"
  define D where "D = exrabitq_dim_block_count dim"
  define lane where "lane = idx mod 8"
  define n where "n = length codes"
  have lane: "lane < n" using batch by (simp add: lane_def n_def)
  have official: "uses_official_1_plus_n cfg" and var: "UsesVariableOfficialExDataLayout layout"
    using ok by (simp_all add: variable_ok_def layout_def)
  note lb = lane_bytes_15 [OF ok, folded bits_def] variable_payload_bits [OF ok, folded bits_def]
  have here: "codes ! lane \<in> set codes" using lane by (simp add: n_def)
  have vs: "length (qc_ex_code (codes ! lane)) = dim" using codes [OF here] by (simp add: fits_code_def)
  define load where "load buf abs_base = load_magnitudes build cfg 15 dim True buf abs_base n n lane" for buf abs_base
  note load_unfold = load_def load_magnitudes_def layout_def [symmetric] lb(2) D_def [symmetric]
  have "\<exists>payload. variable_payload layout bits (8 * bits) dim codes = Inr payload
      \<and> (\<forall>p q. load (p @ payload @ q) (length p) = Some (Inr (qc_ex_code (codes ! lane))))"
  proof -
    consider (tiles) "layout = kVectorBitMajorTiles" | (elide) "layout = kSplit3ZeroPlaneElide"
      | (plain) "layout \<noteq> kVectorBitMajorTiles" "layout \<noteq> kSplit3ZeroPlaneElide" by blast
    then show ?thesis
    proof cases
      case tiles
      define V where "V = ExRaBitQBitMajorTileVectorBytes dim bits"
      have "codes \<noteq> []" using here by auto
      from tile_payload [OF ok dim codes tiles [unfolded layout_def] this] tiles lane
      obtain payload where p: "variable_payload layout bits (8 * bits) dim codes = Inr payload" "0 < V"
          "lane * V + V \<le> length payload"
          "ExRaBitQUnpackOfficialBitMajorTiles (slice (lane * V) V payload) dim bits = Some (qc_ex_code (codes ! lane))"
        unfolding bits_def V_def n_def by auto
      then have "load (q @ payload @ r) (length q) = Some (Inr (qc_ex_code (codes ! lane)))" for q r
        using tiles rd_inside [OF p(3), of q r]
        unfolding load_unfold V_def by (simp add: layout_tests or_error_def)
      then show ?thesis using p(1) by blast
    next
      case elide
      define lanes where "lanes db = map (\<lambda>c. lane_chunk layout bits dim c db) codes" for db
      have "load (p @ concat (map (\<lambda>db. concat (map (elided_plane (lanes db)) [0..<bits])) [0..<D]) @ q) (length p)
          = Some (Inr (qc_ex_code (codes ! lane)))" for p q
      proof -
        have "db * 64 < dim \<and> lane < length (lanes db) \<and> length (lanes db) \<le> 8
            \<and> (\<forall>l \<in> set (lanes db). length l = stage2_payload_bits cfg * 8)
            \<and> unpack_lane build cfg (lanes db ! lane) = Some (dim_chunk dim (qc_ex_code (codes ! lane)) db)"
          if "db \<in> set [0..<D]" for db
        proof -
          have db: "db * 64 < dim" using that dim_blocks(3) [OF dim(1)] by (simp add: D_def)
          note lc = lane_chunk_spec [OF ok _ codes db, folded layout_def bits_def]
          show ?thesis using db lane batch(1) lc(2,3) here elide lb(2)
            by (auto simp: lanes_def n_def)
        qed
        from load_lane_elided [OF variable_packed [OF ok] elide [unfolded layout_def] vs this, where pre = p and post = q and valid = n
            and stored = n and abs_base = "length p"
            and dbs = "[0..<D]"]
        show ?thesis using elide all_dim_blocks [OF vs dim(1)]
          unfolding load_unfold by (simp add: layout_tests D_def)
      qed
      moreover have "variable_payload layout bits (8 * bits) dim codes =
          Inr (concat (map (\<lambda>db. concat (map (elided_plane (lanes db)) [0..<bits])) [0..<D]))"
        using elided_payload [OF ok dim(1) codes elide [unfolded layout_def]]
        unfolding layout_def bits_def D_def lanes_def .
      ultimately show ?thesis by blast
    next
      case plain
      from variable_payload_at [where codes = codes, OF ok dim(1) codes plain [unfolded layout_def]]
      obtain payload where p: "variable_payload layout bits (8 * bits) dim codes = Inr payload"
        and at: "\<And>db. db < D \<Longrightarrow>
          slice (lane_offset layout True D (8 * bits) n n lane db) (8 * bits) payload
            = lane_chunk layout bits dim (codes ! lane) db
          \<and> lane_offset layout True D (8 * bits) n n lane db + 8 * bits \<le> length payload"
        using lane unfolding layout_def bits_def D_def n_def by auto
      have "load (q @ payload @ r) (length q) = Some (Inr (qc_ex_code (codes ! lane)))" for q r
      proof -
        have "load_lane build cfg 15 dim True (q @ payload @ r) (length q) n n lane [0..<D] (length q) =
            Some (Inr (concat (map (\<lambda>db. slice (db * 64) 64 (qc_ex_code (codes ! lane))) [0..<D])))"
        proof (rule load_lane_packed [OF variable_packed [OF ok] _ vs])
          show "\<not> (True \<and> effective_exdata_layout cfg = kSplit3ZeroPlaneElide)"
            using plain by (simp add: layout_def)
          fix db assume "db \<in> set [0..<D]"
          then have "db < D" by simp
          then have db: "db * 64 < dim" using dim_blocks(3) [OF dim(1)] by (simp add: D_def)
          show "db * 64 < dim \<and> (\<exists>p. rd (q @ payload @ r) (length q +
              lane_offset (effective_exdata_layout cfg) True (exrabitq_dim_block_count dim)
                (exrabitq_abs_bytes_per_lane_dim_block cfg 15) n n lane db)
              (exrabitq_abs_bytes_per_lane_dim_block cfg 15) = Some p
            \<and> unpack_lane build cfg p = Some (dim_chunk dim (qc_ex_code (codes ! lane)) db))"
            using db at [OF \<open>db < D\<close>] rd_inside [of "lane_offset layout True D (8 * bits) n n lane db" "8 * bits" payload q r]
              lane_chunk_spec(3) [OF ok plain(1) [unfolded layout_def] codes [OF here] db, folded layout_def bits_def]
            by (simp add: lb layout_def [symmetric] D_def [symmetric])
        qed
        then show ?thesis using plain all_dim_blocks [OF vs dim(1)]
          unfolding load_unfold by (simp add: layout_tests D_def IsVectorBitMajorTileLayout_def
              RaBitQResolveSelectedExDataLayout_def RaBitQResolveSelectedExDataLayoutForBits_def
              variable_not_selected [OF ok, folded layout_def])
      qed
      then show ?thesis using p by blast
    qed
  qed
  then obtain payload where p: "variable_payload layout bits (8 * bits) dim codes = Inr payload"
    and load: "\<And>p q. load (p @ payload @ q) (length p) = Some (Inr (qc_ex_code (codes ! lane)))"
    by blast
  define block where "block = le_bytes 4 n @ payload @ factor_bytes codes"
  have "load_batch_code build cfg 15 dim (pre @ block @ post) region1 idx code
          = Some (Inr (with_official code (codes ! lane)))"
    if located: "locate_block cfg 15 dim True (pre @ block @ post) region1 (idx div 8) = Some (Inr (length pre, length block))"
    for pre post
  proof -
    have "rd_nat (pre @ block @ post) (length pre) = Some n"
      using rd_nat_at [of n pre] batch(1) by (simp add: block_def n_def)
    moreover have "load (pre @ block @ post) (length pre + 4) = Some (Inr (qc_ex_code (codes ! lane)))"
      using load [of "pre @ le_bytes 4 n" "factor_bytes codes @ post"] by (simp add: block_def)
    moreover have "load_official_factors (pre @ block @ post) (length pre) (length block) n lane
        (code\<lparr>qc_ex_code := qc_ex_code (codes ! lane), qc_ex_sign := []\<rparr>) = Some (with_official code (codes ! lane))"
      using load_factors_at [of lane codes pre "le_bytes 4 n @ payload" post code] lane
      by (simp add: block_def n_def)
    ultimately show ?thesis
      using located var official lane batch(1) unfolding load_batch_code_def load_def
      by (simp add: Let_def layout_def [symmetric] lane_def [symmetric] n_def not_less)
  qed
  moreover have "variable_block layout bits (8 * bits) dim codes = Inr block"
    using p by (simp add: variable_block_def block_def n_def)
  ultimately show ?thesis unfolding layout_def bits_def lane_def by blast
qed
section \<open>The region\<close>

lemma nth_block_offsets:
  "k \<le> length blocks \<Longrightarrow> block_offsets pos blocks ! k = wrap32 (pos + length (concat (take k blocks)))"
  by (induction pos blocks arbitrary: k rule: block_offsets.induct)
    (auto simp: nth_Cons' take_Cons' add.assoc)

lemma length_block_offsets [simp]: "length (block_offsets pos blocks) = Suc (length blocks)"
  by (induction pos blocks rule: block_offsets.induct) auto

lemma rd_nat_table:
  assumes "k < length xs" and "xs ! k < 4294967296"
  shows "rd_nat (pre @ concat (map (le_bytes 4) xs) @ post) (length pre + 4 * k) = Some (xs ! k)"
proof -
  have "concat (map (le_bytes 4) xs) = concat (map (le_bytes 4) (take k xs)) @ le_bytes 4 (xs ! k)
      @ concat (map (le_bytes 4) (drop (Suc k) xs))"
    using arg_cong [OF id_take_nth_drop [OF assms(1)], of "\<lambda>ys. concat (map (le_bytes 4) ys)"] by simp
  moreover have "length (concat (map (le_bytes 4) (take k xs))) = 4 * k"
    using assms(1) by (subst length_concat_map_uniform [of _ _ 4]) simp_all
  ultimately show ?thesis
    using rd_nat_at [OF assms(2), of "pre @ concat (map (le_bytes 4) (take k xs))"
        "concat (map (le_bytes 4) (drop (Suc k) xs)) @ post"] by simp
qed

lemma variable_no_error: "variable_ok cfg \<Longrightarrow> variable_layout_error (effective_exdata_layout cfg) (rc_ex_bits cfg) = None"
  by (drule variable_layouts) (auto simp: variable_layout_error_def layout_tests)

lemma batch_sub: "c \<in> set (batch codes bb) \<Longrightarrow> c \<in> set codes"
  by (auto simp: batch_def slice_def dest: in_set_takeD in_set_dropD)

lemma batch_nth:
  assumes "idx < length codes"
  shows "idx mod 8 < length (batch codes (idx div 8))"
    and "batch codes (idx div 8) ! (idx mod 8) = codes ! idx"
proof -
  have e: "idx div 8 * 8 + idx mod 8 = idx" by simp
  then have "idx mod 8 < length codes - idx div 8 * 8" using assms by linarith
  then show l: "idx mod 8 < length (batch codes (idx div 8))"
    unfolding batch_def length_slice by simp
  show "batch codes (idx div 8) ! (idx mod 8) = codes ! idx"
    using l e assms unfolding batch_def by (subst nth_slice) auto
qed

text \<open>The block is found through the offset table.\<close>

lemma locate_variable:
  assumes region: "region = le_bytes 4 kVariableExRegionMagic @ le_bytes 4 (length blocks)
      @ concat (map (le_bytes 4) (block_offsets (8 + (length blocks + 1) * 4) blocks)) @ concat blocks"
    and small: "length region < 4294967296" and k: "k < length blocks"
  shows "\<exists>pre post. fs @ region = pre @ blocks ! k @ post
    \<and> locate_block cfg 15 dim True (fs @ region) (length fs) k = Some (Inr (length pre, length (blocks ! k)))"
proof -
  define H where "H = 8 + (length blocks + 1) * 4"
  define table where "table = concat (map (le_bytes 4) (block_offsets H blocks))"
  have tl: "length table = (length blocks + 1) * 4"
    unfolding table_def by (subst length_concat_map_uniform [of _ _ 4]) simp_all
  have r: "region = le_bytes 4 kVariableExRegionMagic @ le_bytes 4 (length blocks) @ table @ concat blocks"
    using region by (simp add: table_def H_def)
  have rl: "length region = H + length (concat blocks)" using tl by (simp add: r H_def)
  have pl: "length (concat (take j blocks)) \<le> length (concat blocks)" for j
    by (metis append_take_drop_id concat_append le_add1 length_append)
  have off: "block_offsets H blocks ! j = H + length (concat (take j blocks))" if "j \<le> length blocks" for j
    using nth_block_offsets [OF that, of H] pl [of j] rl small by simp
  have parts: "concat blocks = concat (take k blocks) @ blocks ! k @ concat (drop (Suc k) blocks)"
    using id_take_nth_drop [OF k] by (metis concat.simps(2) concat_append)
  define pre where "pre = fs @ le_bytes 4 kVariableExRegionMagic @ le_bytes 4 (length blocks) @ table @ concat (take k blocks)"
  have buf: "fs @ region = pre @ blocks ! k @ concat (drop (Suc k) blocks)"
    by (simp add: r pre_def parts)
  have pre_len: "length pre = length fs + (H + length (concat (take k blocks)))"
    using tl by (simp add: pre_def H_def)
  have nb: "length blocks < 4294967296" using small rl by (simp add: H_def)
  have magic: "rd_nat (fs @ region) (length fs) = Some kVariableExRegionMagic"
    using rd_nat_at [of kVariableExRegionMagic fs] by (simp add: r kVariableExRegionMagic_def)
  have count: "rd_nat (fs @ region) (length fs + 4) = Some (length blocks)"
    using rd_nat_at [OF nb, of "fs @ le_bytes 4 kVariableExRegionMagic" "table @ concat blocks"] by (simp add: r)
  have entry: "rd_nat (fs @ region) (length fs + 8 + 4 * j) = Some (H + length (concat (take j blocks)))"
    if "j \<le> length blocks" for j
  proof -
    have "block_offsets H blocks ! j < 4294967296" using off [OF that] pl [of j] rl small by simp
    then show ?thesis
      using rd_nat_table [of j "block_offsets H blocks"
          "fs @ le_bytes 4 kVariableExRegionMagic @ le_bytes 4 (length blocks)" "concat blocks"] that off [OF that]
      unfolding r table_def by (simp add: add.assoc)
  qed
  have next_off: "length (concat (take (Suc k) blocks)) = length (concat (take k blocks)) + length (blocks ! k)"
    using k by (simp add: take_Suc_conv_app_nth)
  have "locate_block cfg 15 dim True (fs @ region) (length fs) k = Some (Inr (length pre, length (blocks ! k)))"
    using magic count entry [of k] entry [of "Suc k"] k pl [of "Suc k"] rl next_off pre_len
    by (simp add: locate_block_def)
  with buf show ?thesis by blast
qed

lemma variable_region_roundtrip:
  assumes "variable_ok cfg" and "0 < dim" and "dim < 67108864" and "length codes < 4294967288"
    and "\<forall>c \<in> set codes. fits_code (rc_ex_bits cfg) dim c"
  shows "\<exists>region. variable_region (effective_exdata_layout cfg) (rc_ex_bits cfg)
        (exrabitq_abs_bytes_per_lane_dim_block cfg 15) dim codes = Inr region
    \<and> (length region < 4294967296 \<longrightarrow> (\<forall>idx < length codes.
        load_batch_code build cfg 15 dim (fs @ region) (length fs) idx code
          = Some (Inr (with_official code (codes ! idx)))))"
proof -
  define layout where "layout = effective_exdata_layout cfg"
  define bits where "bits = rc_ex_bits cfg"
  define nb where "nb = (length codes + 7) div 8"
  have nb: "exrabitq_num_batch_blocks (length codes) = nb"
    using assms(4) by (simp add: exrabitq_num_batch_blocks_def nb_def)
  define blk where "blk bb = projr (variable_block layout bits (8 * bits) dim (batch codes bb))" for bb
  have fits: "fits_code (rc_ex_bits cfg) dim c" if "c \<in> set (batch codes bb)" for c bb
    using assms(5) batch_sub [OF that] by blast
  have len: "length (batch codes bb) \<le> 8" for bb by (simp add: batch_def)
  have both: "variable_block layout bits (8 * bits) dim (batch codes (idx div 8)) = Inr (blk (idx div 8))
      \<and> (\<forall>pre post. locate_block cfg 15 dim True (pre @ blk (idx div 8) @ post) r (idx div 8)
          = Some (Inr (length pre, length (blk (idx div 8)))) \<longrightarrow>
        load_batch_code build cfg 15 dim (pre @ blk (idx div 8) @ post) r idx code
          = Some (Inr (with_official code (codes ! idx))))" if idx: "idx < length codes" for idx r
  proof -
    have "\<And>c. c \<in> set (batch codes (idx div 8)) \<Longrightarrow> fits_code (rc_ex_bits cfg) dim c" by (rule fits)
    from load_from_variable_block [where ?region1.0 = r and build = build and code = code,
        OF assms(1,3,2) this len batch_nth(1) [OF idx]]
    obtain b where "variable_block layout bits (8 * bits) dim (batch codes (idx div 8)) = Inr b"
        "\<forall>pre post. locate_block cfg 15 dim True (pre @ b @ post) r (idx div 8)
            = Some (Inr (length pre, length b)) \<longrightarrow>
          load_batch_code build cfg 15 dim (pre @ b @ post) r idx code
            = Some (Inr (with_official code (codes ! idx)))"
      unfolding layout_def bits_def batch_nth(2) [OF idx] by blast
    then show ?thesis by (simp add: blk_def)
  qed
  have all: "variable_block layout bits (8 * bits) dim (batch codes bb) = Inr (blk bb)" if "bb < nb" for bb
  proof -
    have "bb * 8 < length codes" using that unfolding nb_def by linarith
    from both [OF this] show ?thesis by simp
  qed
  define blocks where "blocks = map blk [0..<nb]"
  define region where "region = le_bytes 4 kVariableExRegionMagic @ le_bytes 4 nb
      @ concat (map (le_bytes 4) (block_offsets (8 + (nb + 1) * 4) blocks)) @ concat blocks"
  have "variable_region layout bits (8 * bits) dim codes = Inr region"
    using variable_no_error [OF assms(1)] map_each_Inr [of "[0..<nb]" "\<lambda>bb. variable_block layout bits (8 * bits) dim (batch codes bb)" blk] all
    unfolding layout_def [symmetric] bits_def [symmetric] variable_region_def nb Let_def
    by (simp add: region_def blocks_def)
  moreover have "load_batch_code build cfg 15 dim (fs @ region) (length fs) idx code
      = Some (Inr (with_official code (codes ! idx)))"
    if small: "length region < 4294967296" and idx: "idx < length codes" for idx
  proof -
    have k: "idx div 8 < length blocks" using idx unfolding blocks_def nb_def by simp
    have "blocks ! (idx div 8) = blk (idx div 8)" using k by (simp add: blocks_def)
    with locate_variable [OF _ small k, of fs cfg dim] both [OF idx, of "length fs"]
    show ?thesis by (fastforce simp: region_def blocks_def)
  qed
  ultimately show ?thesis
    unfolding lane_bytes_15 [OF assms(1)] layout_def [symmetric] bits_def [symmetric] by blast
qed

text \<open>C6: version 15.  For a valid configuration with one of the ten variable stage-2 arrangements,
  \<open>WriteVectors\<close> accepts codes that fit the width, and if the region stays below 4 GiB, \<open>LoadCodes\<close>
  returns for every record the magnitudes and factors that were written, whatever the record held
  before.\<close>

theorem stage2_variable_roundtrip:
  assumes "variable_ok cfg" and "0 < dim" and "dim < 67108864" and "length codes < 4294967288"
    and "\<forall>c \<in> set codes. fits_code (rc_ex_bits cfg) dim c"
  shows "\<exists>region. variable_region (effective_exdata_layout cfg) (rc_ex_bits cfg)
        (exrabitq_abs_bytes_per_lane_dim_block cfg 15) dim codes = Inr region
    \<and> (length region < 4294967296 \<longrightarrow> (\<forall>idx < length codes.
        load_batch_code build cfg 15 dim (fs @ region) (length fs) idx code
          = Some (Inr (with_official code (codes ! idx)))))"
  by (rule variable_region_roundtrip [OF assms])

definition sample_config :: "ex_layout \<Rightarrow> nat \<Rightarrow> rabitq_config" where
  "sample_config layout bits = rabitq_config_default\<lparr>rc_mode := kOfficial1PlusN,
     rc_total_bits := bits + 1, rc_ex_bits := bits, rc_layout := layout\<rparr>"

definition sample_code :: "bytes \<Rightarrow> rabitq_code" where
  "sample_code vs = \<lparr>qc_code = [], qc_norm = 0, qc_sum_x = 0, qc_bits = 1, qc_ex_code = vs,
     qc_ex_sign = [], qc_xipnorm = 0, qc_sign_folded = True, qc_factor_add = 0x3F800000,
     qc_factor_rescale = 0xBF800000\<rparr>"

theorem stage2_variable_roundtrip_witness:
  "\<exists>region. variable_region kSplit3ZeroPlaneElide 3 24 2 [sample_code [7, 0], sample_code [0, 1]] = Inr region
    \<and> (length region < 4294967296 \<longrightarrow> (\<forall>idx < 2.
        load_batch_code Scalar (sample_config kSplit3ZeroPlaneElide 3) 15 2 region 0 idx (sample_code [])
          = Some (Inr (with_official (sample_code []) ([sample_code [7, 0], sample_code [0, 1]] ! idx)))))"
proof -
  have cfg: "variable_ok (sample_config kSplit3ZeroPlaneElide 3)"
    "effective_exdata_layout (sample_config kSplit3ZeroPlaneElide 3) = kSplit3ZeroPlaneElide"
    "rc_ex_bits (sample_config kSplit3ZeroPlaneElide 3) = 3"
    "exrabitq_abs_bytes_per_lane_dim_block (sample_config kSplit3ZeroPlaneElide 3) 15 = 24"
    by (simp_all add: variable_ok_def sample_config_def rabitq_config_default_def
        uses_official_1_plus_n_def exdata_layout_valid_def effective_exdata_layout_def
        RaBitQResolveSelectedExDataLayoutForBits_def RaBitQResolveSelectedExDataLayout_def
        RaBitQExDataLayoutDirectBits_def UsesVariableOfficialExDataLayout_def Let_def
        exrabitq_abs_bytes_per_lane_dim_block_def stage2_payload_bits_def)
  have "\<forall>c \<in> set [sample_code [7, 0], sample_code [0, 1]]. fits_code 3 2 c"
    by (simp add: fits_code_def sample_code_def)
  then show ?thesis
    using stage2_variable_roundtrip [OF cfg(1), of 2 "[sample_code [7, 0], sample_code [0, 1]]" Scalar "[]"
        "sample_code []"] cfg(2-4) by (simp add: numeral_2_eq_2)
qed

section \<open>The fixed blocks of versions 11 to 14\<close>

lemma write_each_Inr:
  "(\<And>x. x \<in> set xs \<Longrightarrow> f x = Inr (g x)) \<Longrightarrow> write_each f xs = (concat (map g xs), None)"
  by (induction xs) simp_all

lemma concat_map_grid:
  "concat (map g (concat (map (\<lambda>x. map (\<lambda>y. (x, y)) ys) xs))) =
    concat (map (\<lambda>x. concat (map (\<lambda>y. g (x, y)) ys)) xs)"
  by (induction xs) (simp_all add: comp_def)

text \<open>The configurations with fixed blocks, as \<open>Open\<close> leaves them, and the version they get.\<close>

definition fixed_ok :: "rabitq_config \<Rightarrow> nat \<Rightarrow> bool" where
  "fixed_ok cfg version \<longleftrightarrow>
     (if uses_official_1_plus_n cfg then
        exdata_layout_valid cfg \<and> 1 \<le> rc_ex_bits cfg \<and> rc_ex_bits cfg \<le> 4
        \<and> \<not> UsesVariableOfficialExDataLayout (effective_exdata_layout cfg)
        \<and> version = (if RaBitQExDataLayoutIsDirect (effective_exdata_layout cfg) then 14 else 13)
      else 2 \<le> rc_bits cfg \<and> (version = 11 \<or> version = 12 \<and> SupportsPackedStage2MagnitudeBits (rc_bits cfg)))"

definition fixed_fits :: "rabitq_config \<Rightarrow> nat \<Rightarrow> nat \<Rightarrow> rabitq_code \<Rightarrow> bool" where
  "fixed_fits cfg version dim code \<longleftrightarrow> length (qc_ex_code code) = dim
     \<and> (if uses_official_1_plus_n cfg then qc_sign_folded code
        else length (qc_ex_sign code) = PackedSignBytes dim)
     \<and> (12 \<le> version \<longrightarrow> (\<forall>v \<in> set (qc_ex_code code). unat v < 2 ^ stage2_payload_bits cfg))"

lemma fixed_layouts:
  assumes "fixed_ok cfg version" and "uses_official_1_plus_n cfg"
  shows "effective_exdata_layout cfg = kGenericPacked
    \<or> effective_exdata_layout cfg = kSplit3TwoPlusOne \<and> rc_ex_bits cfg = 3
    \<or> effective_exdata_layout cfg = kSplit3Bitplanes \<and> rc_ex_bits cfg = 3
    \<or> effective_exdata_layout cfg = kSplit1Bitplane \<and> rc_ex_bits cfg = 1
    \<or> effective_exdata_layout cfg = kSplit2Bitplanes \<and> rc_ex_bits cfg = 2"
proof -
  have v: "exdata_layout_valid cfg" "1 \<le> rc_ex_bits cfg" "rc_ex_bits cfg \<le> 4"
    "\<not> UsesVariableOfficialExDataLayout (effective_exdata_layout cfg)"
    using assms by (simp_all add: fixed_ok_def)
  have "effective_exdata_layout cfg \<noteq> kSelectedDirect"
    using v(2,3) assms(2) by (simp add: effective_exdata_layout_def resolve_for_bits_cases)
  then show ?thesis
    using v(1,4) assms(2) unfolding exdata_layout_valid_def Let_def UsesVariableOfficialExDataLayout_def
    by (cases "effective_exdata_layout cfg")
      (simp_all add: RaBitQExDataLayoutDirectBits_def RaBitQResolveSelectedExDataLayout_def
        RaBitQResolveSelectedExDataLayoutForBits_def)
qed

lemma fixed_facts:
  assumes "fixed_ok cfg version"
  shows "11 \<le> version" "version < 15" "0 < stage2_payload_bits cfg"
    and "12 \<le> version \<Longrightarrow> stage2_payload_bits cfg \<le> 4"
    and "effective_exdata_layout cfg \<noteq> kSplit3ZeroPlaneElide"
    and "effective_exdata_layout cfg \<noteq> kVectorBitMajorTiles"
proof -
  show "11 \<le> version" "version < 15" "0 < stage2_payload_bits cfg"
    using assms by (auto simp: fixed_ok_def stage2_payload_bits_def split: if_splits)
  show "12 \<le> version \<Longrightarrow> stage2_payload_bits cfg \<le> 4"
    using assms by (auto simp: fixed_ok_def stage2_payload_bits_def SupportsPackedStage2MagnitudeBits_def
        split: if_splits)
  show "effective_exdata_layout cfg \<noteq> kSplit3ZeroPlaneElide" "effective_exdata_layout cfg \<noteq> kVectorBitMajorTiles"
    using fixed_layouts [OF assms] by (auto simp: effective_exdata_layout_def)
qed

lemma fixed_lane_bytes:
  assumes "fixed_ok cfg version"
  shows "exrabitq_abs_bytes_per_lane_dim_block cfg version =
    (if 12 \<le> version then ExRaBitQPackedMagnitudeBytes 64 (stage2_payload_bits cfg) else 64)"
  using fixed_facts [OF assms]
  by (auto simp: exrabitq_abs_bytes_per_lane_dim_block_def ExRaBitQPackedMagnitudeBytes_def Let_def)

text \<open>The bytes of a lane: the last lanes of the last batch are zeros.\<close>

lemma fixed_lane_roundtrip:
  assumes ok: "fixed_ok cfg version"
    and codes: "\<And>c. c \<in> set codes \<Longrightarrow> fixed_fits cfg version dim c" and db: "db * 64 < dim"
  defines "L \<equiv> exrabitq_abs_bytes_per_lane_dim_block cfg version"
  shows "\<exists>out. fixed_lane cfg version dim codes (db, lane) = Inr out \<and> length out = L
    \<and> (lane < length codes \<longrightarrow> (if 12 \<le> version
        then unpack_lane build cfg out = Some (dim_chunk dim (qc_ex_code (codes ! lane)) db)
        else out = dim_chunk dim (qc_ex_code (codes ! lane)) db))"
proof -
  define bits where "bits = stage2_payload_bits cfg"
  define vs where "vs = (if lane < length codes then dim_chunk dim (qc_ex_code (codes ! lane)) db else replicate 64 0)"
  have fit: "fixed_fits cfg version dim (codes ! lane)" if "lane < length codes"
    using codes that by simp
  have len: "length vs = 64" using fit db by (simp add: vs_def fixed_fits_def)
  then have ne: "vs \<noteq> []" by auto
  have small: "\<forall>v \<in> set vs. unat v < 2 ^ bits" if "12 \<le> version"
    using that fit set_dim_chunk [of dim "qc_ex_code (codes ! lane)" db]
    by (auto simp: vs_def fixed_fits_def bits_def)
  show ?thesis
  proof (cases "12 \<le> version")
    case False
    then show ?thesis using fit len fixed_lane_bytes [OF ok]
      by (auto simp: fixed_lane_def L_def fixed_fits_def vs_def Let_def split: if_splits)
  next
    case True
    have b: "1 \<le> bits" "bits \<le> 4" using fixed_facts [OF ok] True by (simp_all add: bits_def)
    have L: "L = 8 * bits" using fixed_lane_bytes [OF ok] True b by (simp add: L_def bits_def)
    define pack where "pack = (if uses_official_1_plus_n cfg \<and> RaBitQExDataLayoutIsDirect (effective_exdata_layout cfg) then
        if effective_exdata_layout cfg = kSplit3TwoPlusOne
        then ExRaBitQPackOfficialDirect3 vs (effective_exdata_layout cfg) L
        else ExRaBitQPackOfficialDirectBitplanes vs bits L
      else ExRaBitQPackMagnitudes vs bits L)"
    have "\<exists>out. pack = Some out \<and> length out = L \<and> unpack_lane build cfg out = Some vs"
    proof -
      consider (generic) "\<not> (uses_official_1_plus_n cfg \<and> RaBitQExDataLayoutIsDirect (effective_exdata_layout cfg))"
        | (split) "uses_official_1_plus_n cfg" "effective_exdata_layout cfg = kSplit3TwoPlusOne" "bits = 3"
        | (planes) "uses_official_1_plus_n cfg"
            "effective_exdata_layout cfg \<in> {kSplit3Bitplanes, kSplit1Bitplane, kSplit2Bitplanes}"
        using fixed_layouts [OF ok] by (auto simp: is_direct_iff bits_def stage2_payload_bits_def)
      then show ?thesis
      proof cases
        case generic
        have "(64 * bits + 7) div 8 \<le> 8 * bits" by linarith
        with generic show ?thesis using magnitudes_roundtrip [OF b, of vs L] len ne small True L
          unfolding pack_def unpack_lane_def bits_def [symmetric] Let_def by auto
      next
        case split
        then show ?thesis using direct3_roundtrip [of kSplit3TwoPlusOne vs L] len ne small True L
          unfolding pack_def unpack_lane_def bits_def [symmetric] Let_def by (auto simp: is_direct_iff)
      next
        case planes
        then show ?thesis using bitplanes_roundtrip [OF b, of vs L] len ne small True L
          unfolding pack_def unpack_lane_def bits_def [symmetric] Let_def by (auto simp: is_direct_iff)
      qed
    qed
    then obtain out where out: "pack = Some out" "length out = L" "unpack_lane build cfg out = Some vs" by blast
    have "fixed_lane cfg version dim codes (db, lane) = or_error bad_value pack"
      using True fit fixed_lane_bytes [OF ok]
      unfolding pack_def fixed_lane_def Let_def vs_def L_def bits_def
      by (auto simp: fixed_fits_def split: if_splits)
    then show ?thesis using out True by (simp add: or_error_def vs_def)
  qed
qed

lemma load_lane_bytes:
  assumes unpacked: "\<not> exrabitq_magnitude_packed cfg version" and vs: "length vs = dim"
    and at: "\<And>db. db \<in> set dbs \<Longrightarrow> db * 64 < dim \<and> rd buf (abs_base +
          lane_offset (effective_exdata_layout cfg) False (exrabitq_dim_block_count dim)
            (exrabitq_abs_bytes_per_lane_dim_block cfg version) valid stored lane db)
          (min 64 (dim - db * 64)) = Some (slice (db * 64) 64 vs)"
  shows "load_lane build cfg version dim False buf abs_base valid stored lane dbs cursor =
    Some (Inr (concat (map (\<lambda>db. slice (db * 64) 64 vs) dbs)))"
  using at
proof (induction dbs)
  case (Cons db dbs)
  have "load_lane build cfg version dim False buf abs_base valid stored lane dbs cursor =
      Some (Inr (concat (map (\<lambda>db. slice (db * 64) 64 vs) dbs)))"
    using Cons.prems by (intro Cons.IH) simp
  then show ?case using Cons.prems [of db] unpacked by (simp add: Let_def)
qed simp

text \<open>Signs: a table of eight bytes per dimension block and lane.\<close>

definition sign_cell :: "nat \<Rightarrow> rabitq_code list \<Rightarrow> nat \<Rightarrow> nat \<Rightarrow> bytes" where
  "sign_cell dim codes db lane =
     (let sign_offset = db * 64 div 8; sign_bytes = PackedSignBytes dim;
          sign_copy = (if sign_offset < sign_bytes then min 8 (sign_bytes - sign_offset) else 0)
      in if lane < length codes \<and> 0 < sign_copy
         then slice sign_offset sign_copy (qc_ex_sign (codes ! lane)) @ replicate (8 - sign_copy) 0
         else replicate 8 0)"

lemma fixed_signs_table:
  "fixed_signs dim codes = concat (map (\<lambda>db. concat (map (sign_cell dim codes db) [0..<8]))
     [0..<exrabitq_dim_block_count dim])"
  unfolding fixed_signs_def sign_cell_def ..

lemma length_sign_cell:
  assumes "lane < length codes \<Longrightarrow> length (qc_ex_sign (codes ! lane)) = PackedSignBytes dim"
  shows "length (sign_cell dim codes db lane) = 8"
  using assms by (auto simp: sign_cell_def Let_def)

lemma length_fixed_signs:
  assumes "\<And>c. c \<in> set codes \<Longrightarrow> length (qc_ex_sign c) = PackedSignBytes dim"
  shows "length (fixed_signs dim codes) = exrabitq_dim_block_count dim * 8 * 8"
  unfolding fixed_signs_table using assms by (subst length_table [of _ _ _ 8]) (auto intro!: length_sign_cell)

lemma load_signs_at:
  assumes "\<And>db. db \<in> set dbs \<Longrightarrow> rd buf (sign_base + db * 8 * 8 + lane * 8) 8 = Some (sign_cell dim codes db lane)"
    and "lane < length codes" and "length (qc_ex_sign (codes ! lane)) = PackedSignBytes dim"
  shows "load_signs buf sign_base (PackedSignBytes dim) lane dbs =
    Some (concat (map (\<lambda>db. slice (db * 8) 8 (qc_ex_sign (codes ! lane))) dbs))"
  using assms(1)
proof (induction dbs)
  case (Cons db dbs)
  define S where "S = PackedSignBytes dim"
  define cp where "cp = (if db * 8 < S then min 8 (S - db * 8) else 0)"
  have "rd buf (sign_base + db * 8 * 8 + lane * 8) 8 = Some (sign_cell dim codes db lane)"
    using Cons.prems by simp
  then have buf: "slice (sign_base + db * 8 * 8 + lane * 8) 8 buf = sign_cell dim codes db lane"
      "sign_base + db * 8 * 8 + lane * 8 + 8 \<le> length buf"
    by (simp_all add: rd_def split: if_splits)
  have piece: "slice (db * 8) 8 (qc_ex_sign (codes ! lane)) = slice (db * 8) cp (qc_ex_sign (codes ! lane))"
    using assms(3) by (auto simp: cp_def S_def slice_def min_def)
  have cell: "take cp (sign_cell dim codes db lane) = slice (db * 8) cp (qc_ex_sign (codes ! lane))" if "0 < cp"
  proof -
    have e: "db * 64 div 8 = db * 8" by simp
    have "sign_cell dim codes db lane = slice (db * 8) cp (qc_ex_sign (codes ! lane)) @ replicate (8 - cp) 0"
      using that assms(2) unfolding sign_cell_def Let_def e S_def [symmetric] cp_def [symmetric] by simp
    moreover have "cp \<le> S - db * 8" by (simp add: cp_def)
    ultimately show ?thesis using assms(3) by (simp add: S_def)
  qed
  have "(if 0 < cp then rd buf (sign_base + db * 8 * 8 + lane * 8) cp else Some []) =
      Some (slice (db * 8) 8 (qc_ex_sign (codes ! lane)))"
  proof (cases "0 < cp")
    case True
    have "cp \<le> 8" by (simp add: cp_def)
    then have "take cp (slice (sign_base + db * 8 * 8 + lane * 8) 8 buf) = slice (sign_base + db * 8 * 8 + lane * 8) cp buf"
      by (simp add: slice_def min_def)
    then show ?thesis using True cell piece buf \<open>cp \<le> 8\<close> by (simp add: rd_def)
  next
    case False
    then show ?thesis using piece by (simp add: slice_def)
  qed
  moreover have "load_signs buf sign_base S lane dbs =
      Some (concat (map (\<lambda>db. slice (db * 8) 8 (qc_ex_sign (codes ! lane))) dbs))"
    unfolding S_def using Cons.prems by (intro Cons.IH) simp
  moreover have e: "db * 64 div 8 = db * 8" by simp
  ultimately show ?case unfolding load_signs.simps Let_def e S_def [symmetric] cp_def [symmetric] by simp
qed simp

lemma sign_blocks:
  assumes "dim < 67108864" and "length s = PackedSignBytes dim"
  shows "concat (map (\<lambda>db. slice (db * 8) 8 s) [0..<exrabitq_dim_block_count dim]) = s"
proof -
  have "length s \<le> exrabitq_dim_block_count dim * 8"
    using assms dim_blocks(1) [OF assms(1)] by (simp add: PackedSignBytes_def)
  then show ?thesis by (rule concat_slices)
qed

text \<open>The factors at the end of a fixed block: eight floats, or twice eight.\<close>

definition lane_floats :: "(rabitq_code \<Rightarrow> f32) \<Rightarrow> rabitq_code list \<Rightarrow> f32 list" where
  "lane_floats sel codes = map (\<lambda>lane. if lane < length codes then sel (codes ! lane) else 0) [0..<8]"

lemma nth_lane_floats: "lane < length codes \<Longrightarrow> lane < 8 \<Longrightarrow> lane_floats sel codes ! lane = sel (codes ! lane)"
  by (simp add: lane_floats_def)

lemma length_lane_floats [simp]: "length (lane_floats sel codes) = 8"
  by (simp add: lane_floats_def)

lemma fixed_factors_table:
  "fixed_factors cfg codes = concat (map f32_bytes (if uses_official_1_plus_n cfg
     then lane_floats qc_factor_add codes @ lane_floats qc_factor_rescale codes
     else lane_floats qc_xipnorm codes))"
  by (simp add: fixed_factors_def lane_floats_def comp_def Let_def)

lemma rd_factor_table:
  assumes "k < length xs"
  shows "rd_factor (pre @ (body @ concat (map f32_bytes xs)) @ post) (length pre)
      (length (body @ concat (map f32_bytes xs))) (length xs) k = Some (xs ! k)"
proof -
  have "length (concat (map f32_bytes xs)) = length xs * 4"
    by (subst length_concat_map_uniform [of _ _ 4]) simp_all
  then show ?thesis using rd_float_table [OF assms, of "pre @ body" post] by (simp add: rd_factor_def)
qed

lemma fixed_block_size:
  assumes "fixed_ok cfg version" and "dim < 67108864"
  shows "exrabitq_batch_block_size cfg version dim =
    4 + exrabitq_dim_block_count dim * 8 * exrabitq_abs_bytes_per_lane_dim_block cfg version
      + (if uses_official_1_plus_n cfg then 0 else exrabitq_dim_block_count dim * 8 * 8)
      + (if uses_official_1_plus_n cfg then 16 else 8) * 4"
proof -
  define D where "D = exrabitq_dim_block_count dim"
  define L where "L = exrabitq_abs_bytes_per_lane_dim_block cfg version"
  have D: "D \<le> 1048576" using dim_blocks(1) [OF assms(2)] assms(2) by (simp add: D_def)
  have L: "L \<le> 64"
    using fixed_lane_bytes [OF assms(1)] fixed_facts [OF assms(1)]
    by (auto simp: L_def ExRaBitQPackedMagnitudeBytes_def)
  have "D * 8 * L \<le> 1048576 * 8 * 64" using D L by (intro mult_le_mono) auto
  then show ?thesis
    using D fixed_facts [OF assms(1)]
    by (simp add: exrabitq_batch_block_size_def Let_def D_def [symmetric] L_def [symmetric])
qed

text \<open>The parts of a fixed block.\<close>

lemma fixed_block_parts:
  assumes ok: "fixed_ok cfg version" and dim: "dim < 67108864"
    and codes: "\<And>c. c \<in> set codes \<Longrightarrow> fixed_fits cfg version dim c"
  defines "L \<equiv> exrabitq_abs_bytes_per_lane_dim_block cfg version" and "D \<equiv> exrabitq_dim_block_count dim"
  shows "\<exists>lane_of. (\<forall>db < D. \<forall>lane. length (lane_of db lane) = L \<and> (lane < length codes \<longrightarrow> (if 12 \<le> version
        then unpack_lane build cfg (lane_of db lane) = Some (dim_chunk dim (qc_ex_code (codes ! lane)) db)
        else lane_of db lane = dim_chunk dim (qc_ex_code (codes ! lane)) db)))
    \<and> fixed_block cfg version dim codes = (le_bytes 4 (length codes)
        @ concat (map (\<lambda>db. concat (map (lane_of db) [0..<8])) [0..<D])
        @ (if uses_official_1_plus_n cfg then [] else fixed_signs dim codes)
        @ fixed_factors cfg codes, None)
    \<and> length (fst (fixed_block cfg version dim codes)) = exrabitq_batch_block_size cfg version dim"
proof -
  define lane_of where "lane_of db lane = projr (fixed_lane cfg version dim codes (db, lane))" for db lane
  have lane: "fixed_lane cfg version dim codes (db, lane) = Inr (lane_of db lane)"
      "length (lane_of db lane) = L" "lane < length codes \<longrightarrow> (if 12 \<le> version
        then unpack_lane build cfg (lane_of db lane) = Some (dim_chunk dim (qc_ex_code (codes ! lane)) db)
        else lane_of db lane = dim_chunk dim (qc_ex_code (codes ! lane)) db)" if "db < D" for db lane
  proof -
    have "db * 64 < dim" using that dim_blocks(3) [OF dim] by (simp add: D_def)
    from fixed_lane_roundtrip [where codes = codes and lane = lane and build = build, OF ok codes this]
    obtain out where "fixed_lane cfg version dim codes (db, lane) = Inr out" "length out = L"
      "lane < length codes \<longrightarrow> (if 12 \<le> version
        then unpack_lane build cfg out = Some (dim_chunk dim (qc_ex_code (codes ! lane)) db)
        else out = dim_chunk dim (qc_ex_code (codes ! lane)) db)" unfolding L_def by blast
    then show "fixed_lane cfg version dim codes (db, lane) = Inr (lane_of db lane)"
      "length (lane_of db lane) = L" "lane < length codes \<longrightarrow> (if 12 \<le> version
        then unpack_lane build cfg (lane_of db lane) = Some (dim_chunk dim (qc_ex_code (codes ! lane)) db)
        else lane_of db lane = dim_chunk dim (qc_ex_code (codes ! lane)) db)"
      by (simp_all add: lane_of_def)
  qed
  have grid: "write_each (fixed_lane cfg version dim codes) [(db, lane). db \<leftarrow> [0..<D], lane \<leftarrow> [0..<8]]
      = (concat (map (\<lambda>db. concat (map (lane_of db) [0..<8])) [0..<D]), None)"
    using lane(1) by (subst write_each_Inr [of _ _ "\<lambda>(db, lane). lane_of db lane"])
      (auto simp: concat_map_grid)
  have block: "fixed_block cfg version dim codes = (le_bytes 4 (length codes)
        @ concat (map (\<lambda>db. concat (map (lane_of db) [0..<8])) [0..<D])
        @ (if uses_official_1_plus_n cfg then [] else fixed_signs dim codes)
        @ fixed_factors cfg codes, None)"
    unfolding fixed_block_def D_def [symmetric] grid by simp
  have "length (concat (map (\<lambda>db. concat (map (lane_of db) [0..<8])) [0..<D])) = D * 8 * L"
    using length_table [of "[0..<D]" "[0..<8]" lane_of L] lane(2) by simp
  moreover have "length (fixed_signs dim codes) = D * 8 * 8" if "\<not> uses_official_1_plus_n cfg"
    using length_fixed_signs [of codes dim] codes that by (simp add: fixed_fits_def D_def)
  moreover have "length (fixed_factors cfg codes) = (if uses_official_1_plus_n cfg then 16 else 8) * 4"
    unfolding fixed_factors_table by (subst length_concat_map_uniform [of _ _ 4]) simp_all
  ultimately have "length (fst (fixed_block cfg version dim codes)) = exrabitq_batch_block_size cfg version dim"
    unfolding block fixed_block_size [OF ok dim] by (simp add: D_def L_def)
  with block lane(2,3) show ?thesis by blast
qed

lemma rd_prefix: "rd buf off n = Some xs \<Longrightarrow> m \<le> n \<Longrightarrow> rd buf off m = Some (take m xs)"
  by (auto simp: rd_def slice_def min_def split: if_splits)

text \<open>What loading adds to a code.\<close>

definition with_legacy :: "rabitq_code \<Rightarrow> rabitq_code \<Rightarrow> rabitq_code" where
  "with_legacy code stored = code\<lparr>qc_ex_code := qc_ex_code stored, qc_ex_sign := qc_ex_sign stored,
     qc_xipnorm := qc_xipnorm stored\<rparr>"

lemma load_from_fixed_block:
  assumes ok: "fixed_ok cfg version" and dim: "dim < 67108864"
    and codes: "\<And>c. c \<in> set codes \<Longrightarrow> fixed_fits cfg version dim c"
    and batch: "length codes \<le> 8" "idx mod 8 < length codes"
    and pre: "length pre = region1 + idx div 8 * exrabitq_batch_block_size cfg version dim"
  shows "load_batch_code build cfg version dim (pre @ fst (fixed_block cfg version dim codes) @ post) region1 idx code
    = Some (Inr ((if uses_official_1_plus_n cfg then with_official else with_legacy) code (codes ! (idx mod 8))))"
proof -
  define L where "L = exrabitq_abs_bytes_per_lane_dim_block cfg version"
  define D where "D = exrabitq_dim_block_count dim"
  define lane where "lane = idx mod 8"
  define n where "n = length codes"
  define official where "official = uses_official_1_plus_n cfg"
  have lane: "lane < n" "lane < 8" using batch by (simp_all add: lane_def n_def)
  have here: "codes ! lane \<in> set codes" using lane by (simp add: n_def)
  note fit = codes [OF here]
  have vs: "length (qc_ex_code (codes ! lane)) = dim" using fit by (simp add: fixed_fits_def)
  obtain lane_of where all: "\<forall>db < D. \<forall>l. length (lane_of db l) = L \<and> (l < length codes \<longrightarrow> (if 12 \<le> version
        then unpack_lane build cfg (lane_of db l) = Some (dim_chunk dim (qc_ex_code (codes ! l)) db)
        else lane_of db l = dim_chunk dim (qc_ex_code (codes ! l)) db))"
    and pair: "fixed_block cfg version dim codes = (le_bytes 4 n
        @ concat (map (\<lambda>db. concat (map (lane_of db) [0..<8])) [0..<D])
        @ (if official then [] else fixed_signs dim codes) @ fixed_factors cfg codes, None)"
    and size: "length (fst (fixed_block cfg version dim codes)) = exrabitq_batch_block_size cfg version dim"
    using fixed_block_parts [where codes = codes and build = build, OF ok dim codes]
    unfolding L_def D_def n_def official_def by blast
  have cell: "\<And>db l. db < D \<Longrightarrow> length (lane_of db l) = L"
      "\<And>db. db < D \<Longrightarrow> (if 12 \<le> version
        then unpack_lane build cfg (lane_of db lane) = Some (dim_chunk dim (qc_ex_code (codes ! lane)) db)
        else lane_of db lane = dim_chunk dim (qc_ex_code (codes ! lane)) db)"
    using all lane(1) unfolding n_def by blast+
  have block: "fst (fixed_block cfg version dim codes) = le_bytes 4 n
        @ concat (map (\<lambda>db. concat (map (lane_of db) [0..<8])) [0..<D])
        @ (if official then [] else fixed_signs dim codes) @ fixed_factors cfg codes"
    by (simp only: pair fst_conv)
  define B where "B = fst (fixed_block cfg version dim codes)"
  define grid where "grid = concat (map (\<lambda>db. concat (map (lane_of db) [0..<8])) [0..<D])"
  define signs where "signs = (if official then [] else fixed_signs dim codes)"
  have B: "B = le_bytes 4 n @ grid @ signs @ fixed_factors cfg codes"
    by (simp add: B_def block grid_def signs_def)
  have grid_len: "length grid = D * 8 * L"
    unfolding grid_def using length_table [of "[0..<D]" "[0..<8]" lane_of L] cell(1) by simp
  define buf where "buf = pre @ B @ post"
  have rd_cell: "rd buf (length pre + 4 + (db * 8 + lane) * L) L = Some (lane_of db lane)" if "db < D" for db
  proof -
    have "slice ((db * 8 + lane) * L) L grid = lane_of db lane"
      using slice_table [of "[0..<D]" "[0..<8]" lane_of L db lane] cell(1) that lane(2) by (simp add: grid_def)
    moreover have "(db * 8 + lane) * L + L \<le> length grid"
      using table_bound [OF that lane(2), of L] by (simp add: grid_len)
    ultimately show ?thesis
      using rd_inside [of "(db * 8 + lane) * L" L grid "pre @ le_bytes 4 n" "signs @ fixed_factors cfg codes @ post"]
      by (simp add: buf_def B)
  qed
  have off: "lane_offset (effective_exdata_layout cfg) False D L n 8 lane db = (db * 8 + lane) * L" for db
    by (simp add: lane_offset_def distrib_right)
  have magnitudes: "load_magnitudes build cfg version dim False buf (length pre + 4) n 8 lane =
      Some (Inr (qc_ex_code (codes ! lane)))"
  proof (cases "12 \<le> version")
    case True
    have "load_lane build cfg version dim False buf (length pre + 4) n 8 lane [0..<D] (length pre + 4) =
        Some (Inr (concat (map (\<lambda>db. slice (db * 64) 64 (qc_ex_code (codes ! lane))) [0..<D])))"
      using True fixed_facts [OF ok] rd_cell off cell(2) dim_blocks(3) [OF dim]
      by (intro load_lane_packed [OF _ _ vs])
        (auto simp: exrabitq_magnitude_packed_def L_def D_def)
    then show ?thesis using all_dim_blocks [OF vs dim] by (simp add: load_magnitudes_def D_def)
  next
    case False
    have "rd buf (length pre + 4 + lane_offset (effective_exdata_layout cfg) False D L n 8 lane db)
          (min 64 (dim - db * 64)) = Some (slice (db * 64) 64 (qc_ex_code (codes ! lane))) \<and> db * 64 < dim"
      if "db < D" for db
    proof -
      have db: "db * 64 < dim" using that dim_blocks(3) [OF dim] by (simp add: D_def)
      have "L = 64" using False fixed_lane_bytes [OF ok] by (simp add: L_def)
      then have "rd buf (length pre + 4 + (db * 8 + lane) * L) (min 64 (dim - db * 64)) =
          Some (take (min 64 (dim - db * 64)) (lane_of db lane))"
        using rd_prefix [OF rd_cell [OF that]] by simp
      then show ?thesis using cell(2) [OF that] False take_dim_chunk [OF vs db] db off by simp
    qed
    then have "load_lane build cfg version dim False buf (length pre + 4) n 8 lane [0..<D] (length pre + 4) =
        Some (Inr (concat (map (\<lambda>db. slice (db * 64) 64 (qc_ex_code (codes ! lane))) [0..<D])))"
      using False by (intro load_lane_bytes [OF _ vs]) (auto simp: exrabitq_magnitude_packed_def L_def D_def)
    then show ?thesis using all_dim_blocks [OF vs dim] by (simp add: load_magnitudes_def D_def)
  qed
  have count: "rd_nat buf (length pre) = Some n"
    using rd_nat_at [of n pre "grid @ signs @ fixed_factors cfg codes @ post"] batch(1) by (simp add: buf_def B n_def)
  have located: "locate_block cfg version dim False buf region1 (idx div 8) = Some (Inr (length pre, length B))"
    by (simp add: locate_block_def pre size B_def Let_def)
  have nv: "(15 \<le> version) = False" using fixed_facts(2) [OF ok] by simp
  show ?thesis
  proof (cases official)
    case True
    have fac: "fixed_factors cfg codes = concat (map f32_bytes (lane_floats qc_factor_add codes @ lane_floats qc_factor_rescale codes))"
      unfolding fixed_factors_table using True by (simp add: official_def)
    have f: "rd_factor buf (length pre) (length B) 16 k =
        Some ((lane_floats qc_factor_add codes @ lane_floats qc_factor_rescale codes) ! k)" if "k < 16" for k
      using rd_factor_table [of k "lane_floats qc_factor_add codes @ lane_floats qc_factor_rescale codes" pre
          "le_bytes 4 n @ grid @ signs" post] that unfolding buf_def B fac by simp
    have "load_official_factors buf (length pre) (length B) 8 lane
        (code\<lparr>qc_ex_code := qc_ex_code (codes ! lane), qc_ex_sign := []\<rparr>) = Some (with_official code (codes ! lane))"
      using f [of lane] f [of "8 + lane"] lane nth_lane_floats [of lane codes]
      by (simp add: load_official_factors_def with_official_def nth_append n_def)
    then show ?thesis
      using True count located magnitudes lane batch(1) nv
      unfolding load_batch_code_def buf_def [symmetric] B_def [symmetric]
      by (simp add: Let_def lane_def [symmetric] n_def official_def not_less)
  next
    case False
    have fac: "fixed_factors cfg codes = concat (map f32_bytes (lane_floats qc_xipnorm codes))"
      unfolding fixed_factors_table using False by (simp add: official_def)
    have f: "rd_factor buf (length pre) (length B) 8 lane = Some (qc_xipnorm (codes ! lane))"
      using rd_factor_table [of lane "lane_floats qc_xipnorm codes" pre "le_bytes 4 n @ grid @ signs" post]
        nth_lane_floats [of lane codes] lane unfolding buf_def B fac by (simp add: n_def)
    have sl: "length (qc_ex_sign c) = PackedSignBytes dim" if "c \<in> set codes" for c
      using codes [OF that] False by (simp add: fixed_fits_def official_def)
    have sg: "load_signs buf (length pre + 4 + D * 8 * L) (PackedSignBytes dim) lane [0..<D] =
        Some (qc_ex_sign (codes ! lane))"
    proof -
      have "rd buf (length pre + 4 + D * 8 * L + db * 8 * 8 + lane * 8) 8 = Some (sign_cell dim codes db lane)"
        if "db \<in> set [0..<D]" for db
      proof -
        have db: "db < D" using that by simp
        have cl: "length (sign_cell dim codes d l) = 8" for d l using sl by (intro length_sign_cell) simp
        have s: "signs = concat (map (\<lambda>db. concat (map (sign_cell dim codes db) [0..<8])) [0..<D])"
          using False by (simp add: signs_def fixed_signs_table D_def)
        have "slice ((db * 8 + lane) * 8) 8 signs = sign_cell dim codes db lane"
          using slice_table [of "[0..<D]" "[0..<8]" "sign_cell dim codes" 8 db lane] cl db lane(2) by (simp add: s)
        moreover have "(db * 8 + lane) * 8 + 8 \<le> length signs"
          using table_bound [OF db lane(2), of 8] length_table [of "[0..<D]" "[0..<8]" "sign_cell dim codes" 8] cl
          by (simp add: s)
        ultimately show ?thesis
          using rd_inside [of "(db * 8 + lane) * 8" 8 signs "pre @ le_bytes 4 n @ grid" "fixed_factors cfg codes @ post"]
          by (simp add: buf_def B grid_len add.assoc distrib_right)
      qed
      from load_signs_at [where dbs = "[0..<D]", OF this _ sl [OF here]] lane(1)
      show ?thesis using sign_blocks [OF dim sl [OF here]] by (simp add: D_def n_def)
    qed
    show ?thesis
      using False count located magnitudes lane batch(1) nv f sg
      unfolding load_batch_code_def buf_def [symmetric] B_def [symmetric]
      by (simp add: Let_def lane_def [symmetric] n_def official_def not_less with_legacy_def L_def [symmetric] D_def [symmetric])
  qed
qed

lemma fixed_blocks_roundtrip:
  assumes "fixed_ok cfg version" and "dim < 67108864" and "length codes < 4294967288"
    and "\<forall>c \<in> set codes. fixed_fits cfg version dim c"
  defines "blocks \<equiv> map (\<lambda>bb. fixed_block cfg version dim (batch codes bb))
      [0..<exrabitq_num_batch_blocks (length codes)]"
  shows "(\<forall>b \<in> set blocks. snd b = None) \<and> (\<forall>idx < length codes.
    load_batch_code build cfg version dim (fs @ concat (map fst blocks)) (length fs) idx code
      = Some (Inr ((if uses_official_1_plus_n cfg then with_official else with_legacy) code (codes ! idx))))"
proof -
  define nb where "nb = exrabitq_num_batch_blocks (length codes)"
  have nb: "nb = (length codes + 7) div 8"
    using assms(3) by (simp add: nb_def exrabitq_num_batch_blocks_def)
  define S where "S = exrabitq_batch_block_size cfg version dim"
  have fits: "fixed_fits cfg version dim c" if "c \<in> set (batch codes bb)" for c bb
    using assms(4) batch_sub [OF that] by blast
  have part: "snd (fixed_block cfg version dim (batch codes bb)) = None"
      "length (fst (fixed_block cfg version dim (batch codes bb))) = S" for bb
  proof -
    have "\<And>c. c \<in> set (batch codes bb) \<Longrightarrow> fixed_fits cfg version dim c" by (rule fits)
    from fixed_block_parts [where codes = "batch codes bb" and build = Scalar, OF assms(1,2) this]
    have "snd (fixed_block cfg version dim (batch codes bb)) = None
      \<and> length (fst (fixed_block cfg version dim (batch codes bb))) = S" unfolding S_def by force
    then show "snd (fixed_block cfg version dim (batch codes bb)) = None"
      "length (fst (fixed_block cfg version dim (batch codes bb))) = S" by simp_all
  qed
  define B where "B bb = fst (fixed_block cfg version dim (batch codes bb))" for bb
  have cat: "concat (map fst blocks) = concat (map B [0..<nb])"
    unfolding blocks_def nb_def B_def [abs_def] by (simp add: comp_def)
  have "load_batch_code build cfg version dim (fs @ concat (map B [0..<nb])) (length fs) idx code
      = Some (Inr ((if uses_official_1_plus_n cfg then with_official else with_legacy) code (codes ! idx)))"
    if idx: "idx < length codes" for idx
  proof -
    define k where "k = idx div 8"
    have k: "k < nb" using idx by (simp add: k_def nb)
    have "[0..<nb] = [0..<k] @ k # [Suc k..<nb]"
      using k upt_add_eq_append [of 0 k "nb - k"] by (simp add: upt_conv_Cons)
    then have split: "fs @ concat (map B [0..<nb]) = (fs @ concat (map B [0..<k])) @ B k @ concat (map B [Suc k..<nb])"
      by simp
    have "length (concat (map B [0..<k])) = k * S"
      by (subst length_concat_map_uniform [of _ _ S]) (simp_all add: B_def part(2))
    then have len: "length (fs @ concat (map B [0..<k])) = length fs + idx div 8 * exrabitq_batch_block_size cfg version dim"
      by (simp add: S_def k_def)
    have "\<And>c. c \<in> set (batch codes k) \<Longrightarrow> fixed_fits cfg version dim c" by (rule fits)
    note load = load_from_fixed_block [where codes = "batch codes k", OF assms(1,2) this _ _ len,
        of build "concat (map B [Suc k..<nb])" code]
    have "length (batch codes k) \<le> 8" by (simp add: batch_def)
    with load batch_nth [OF idx] show ?thesis unfolding split by (simp add: k_def B_def)
  qed
  then show ?thesis unfolding cat using part(1) by (auto simp: blocks_def)
qed

text \<open>C7: versions 11 to 14.  For a configuration with fixed blocks every batch of fitting codes is
  written without an error, and \<open>LoadCodes\<close> returns for every record what was written: magnitudes and
  factors, or in the older estimator mode magnitudes, signs and inverse norm.\<close>

theorem stage2_fixed_roundtrip:
  assumes "fixed_ok cfg version" and "dim < 67108864" and "length codes < 4294967288"
    and "\<forall>c \<in> set codes. fixed_fits cfg version dim c"
  defines "blocks \<equiv> map (\<lambda>bb. fixed_block cfg version dim (batch codes bb))
      [0..<exrabitq_num_batch_blocks (length codes)]"
  shows "(\<forall>b \<in> set blocks. snd b = None) \<and> (\<forall>idx < length codes.
    load_batch_code build cfg version dim (fs @ concat (map fst blocks)) (length fs) idx code
      = Some (Inr ((if uses_official_1_plus_n cfg then with_official else with_legacy) code (codes ! idx))))"
  unfolding blocks_def by (rule fixed_blocks_roundtrip [OF assms(1-4)])

definition sample_legacy_code :: "bytes \<Rightarrow> bytes \<Rightarrow> rabitq_code" where
  "sample_legacy_code vs signs = (sample_code vs)\<lparr>qc_ex_sign := signs, qc_sign_folded := False\<rparr>"

theorem stage2_fixed_roundtrip_witness:
  "load_batch_code Scalar (rabitq_config_default\<lparr>rc_bits := 3\<rparr>) 11 2
      (fst (fixed_block (rabitq_config_default\<lparr>rc_bits := 3\<rparr>) 11 2 (batch [sample_legacy_code [5, 9] [2]] 0)))
      0 0 (sample_code []) = Some (Inr (with_legacy (sample_code []) (sample_legacy_code [5, 9] [2])))"
proof -
  define cfg where "cfg = rabitq_config_default\<lparr>rc_bits := 3\<rparr>"
  have ok: "fixed_ok cfg 11" "\<not> uses_official_1_plus_n cfg"
    by (simp_all add: cfg_def fixed_ok_def rabitq_config_default_def uses_official_1_plus_n_def)
  have "\<forall>c \<in> set [sample_legacy_code [5, 9] [2]]. fixed_fits cfg 11 2 c"
    using ok(2) by (simp add: fixed_fits_def sample_legacy_code_def sample_code_def PackedSignBytes_def)
  moreover have "exrabitq_num_batch_blocks 1 = 1" by (simp add: exrabitq_num_batch_blocks_def)
  ultimately show ?thesis unfolding cfg_def [symmetric]
    using stage2_fixed_roundtrip [OF ok(1), of 2 "[sample_legacy_code [5, 9] [2]]" Scalar "[]" "sample_code []"] ok(2)
    by simp
qed

end
