(* ===== verification/Cluster_File.thy ===== *)
theory Cluster_File
  imports Cluster_Writer Ex_Roundtrip
begin

text \<open>
  The file \<open>ClusterStoreWriter\<close> produces, as a function of what it was given: header, lookup table,
  and one block per cluster, each padded to a page.  The facts show that \<open>Open\<close>, the four operations
  on a cluster and \<open>Finalize\<close> write exactly this file when the device is large enough.
\<close>

section \<open>Appending\<close>

text \<open>The stream is healthy and stands at the end of the file, where the offset says it is.\<close>

definition cw_ready :: "cluster_writer \<Rightarrow> bool" where
  "cw_ready w \<longleftrightarrow> fs_open (cw_stream w) \<and> fs_good (cw_stream w)
     \<and> fs_pos (cw_stream w) = length (fs_data (cw_stream w))
     \<and> cw_offset w = length (fs_data (cw_stream w))
     \<and> length (fs_data (cw_stream w)) \<le> fs_capacity (cw_stream w)
     \<and> fs_capacity (cw_stream w) < 9223372036854775808"

definition cw_fits :: "cluster_writer \<Rightarrow> nat \<Rightarrow> bool" where
  "cw_fits w n \<longleftrightarrow> length (fs_data (cw_stream w)) + n \<le> fs_capacity (cw_stream w)"

definition cw_append :: "cluster_writer \<Rightarrow> bytes \<Rightarrow> cluster_writer" where
  "cw_append w bs = w\<lparr>cw_stream := (cw_stream w)\<lparr>fs_data := fs_data (cw_stream w) @ bs,
     fs_pos := length (fs_data (cw_stream w)) + length bs\<rparr>, cw_offset := cw_offset w + length bs\<rparr>"

lemma write_at_end: "write_at xs (length xs) ys = xs @ ys"
  by (simp add: write_at_def)

lemma write_at_inside:
  "length b = length b' \<Longrightarrow> write_at (a @ b @ c) (length a) b' = a @ b' @ c"
  by (simp add: write_at_def)

lemma cw_put_ready:
  assumes "cw_ready w" and "cw_fits w (length bs)"
  shows "cw_put w bs = (cw_append w bs)\<lparr>cw_offset := cw_offset w\<rparr>"
  using assms unfolding cw_put_def cw_append_def cw_ready_def cw_fits_def
  by (simp add: fs_write_def Let_def write_at_end)

lemma cw_append_ready: "cw_ready w \<Longrightarrow> cw_fits w (length bs) \<Longrightarrow> cw_ready (cw_append w bs)"
  by (simp add: cw_ready_def cw_append_def cw_fits_def)

lemma cw_advance_ready:
  assumes "cw_ready w" and "cw_fits w (length bs)"
  shows "cw_advance (cw_put w bs) (length bs) = cw_append w bs"
  using assms unfolding cw_put_ready [OF assms] cw_ready_def cw_fits_def
  by (simp add: cw_advance_def cw_append_def)

lemma cw_good_put: "cw_ready w \<Longrightarrow> cw_fits w (length bs) \<Longrightarrow> cw_good (cw_put w bs)"
  by (simp add: cw_put_ready cw_append_def cw_ready_def)

lemma cw_append_append [simp]: "cw_append (cw_append w a) b = cw_append w (a @ b)"
  by (simp add: cw_append_def add.assoc)

lemma cw_append_Nil: "cw_ready w \<Longrightarrow> cw_append w [] = w"
  by (simp add: cw_append_def cw_ready_def)

lemma cw_append_fields [simp]:
  "fs_data (cw_stream (cw_append w bs)) = fs_data (cw_stream w) @ bs"
  "fs_capacity (cw_stream (cw_append w bs)) = fs_capacity (cw_stream w)"
  "cw_offset (cw_append w bs) = cw_offset w + length bs"
  "cw_info (cw_append w bs) = cw_info w" "cw_cfg (cw_append w bs) = cw_cfg w"
  "cw_dim (cw_append w bs) = cw_dim w" "cw_block_start (cw_append w bs) = cw_block_start w"
  "cw_index (cw_append w bs) = cw_index w" "cw_in_cluster (cw_append w bs) = cw_in_cluster w"
  "cw_finalized (cw_append w bs) = cw_finalized w" "cw_vectors (cw_append w bs) = cw_vectors w"
  "cw_address (cw_append w bs) = cw_address w" "cw_num_fastscan (cw_append w bs) = cw_num_fastscan w"
  "cw_lookup_start (cw_append w bs) = cw_lookup_start w" "cw_path_offset (cw_append w bs) = cw_path_offset w"
  "cw_column (cw_append w bs) = cw_column w" "cw_ex_offset (cw_append w bs) = cw_ex_offset w"
  "cw_entry (cw_append w bs) = cw_entry w"
  by (simp_all add: cw_append_def cw_cfg_def cw_dim_def cw_entry_def)

lemma cw_fits_append [simp]: "cw_fits (cw_append w a) n \<longleftrightarrow> cw_fits w (length a + n)"
  by (simp add: cw_fits_def add.assoc)

lemma cw_fits_mono: "cw_fits w n \<Longrightarrow> m \<le> n \<Longrightarrow> cw_fits w m"
  by (simp add: cw_fits_def)

section \<open>What the loops append\<close>

lemma packed_size:
  assumes "PackSignBitsForFastScan codes num dim = Some packed" and "dim < 536870912"
  shows "length packed = FastScanPackedSize dim"
proof -
  have "length (concat (map (pack_pair flat bpv num) ps)) = length ps * 32" for flat bpv ps
    by (rule length_concat_map_uniform) simp
  moreover have "(dim div 4 + 1) div 2 * 32 \<le> FastScanPackedSize dim"
    by (rule FastScanPackedSize_enough [OF assms(2)])
  ultimately show ?thesis using assms(1)
    by (auto simp: PackSignBitsForFastScan_def Let_def split: if_splits)
qed


lemma length_fastscan_block:
  assumes "fastscan_block dim codes = Some b" and "length codes \<le> 32" and "dim < 536870912"
  shows "length b = FastScanBlockSize dim"
proof -
  obtain packed where p: "PackSignBitsForFastScan (map qc_code codes) (length codes) dim = Some packed"
    and b: "b = packed @ concat (map f32_bytes (map qc_norm codes @ replicate (32 - length codes) 0))"
    using assms(1) by (auto simp: fastscan_block_def bind_eq_Some_conv)
  have "length packed = FastScanPackedSize dim"
    using packed_size [OF p assms(3)] .
  moreover have "length (concat (map f32_bytes (map qc_norm codes @ replicate (32 - length codes) 0))) = 32 * 4"
    using assms(2) by (subst length_concat_map_uniform [of _ _ 4]) simp_all
  moreover have "(dim + 7) div 8 * 32 + 128 < 4294967296" using assms(3) by linarith
  then have "FastScanPackedSize dim + 128 < 4294967296"
    using assms(3) by (simp add: FastScanPackedSize_def)
  then have "FastScanBlockSize dim = FastScanPackedSize dim + 128" by (simp add: FastScanBlockSize_def)
  ultimately show ?thesis by (simp add: b)
qed

lemma write_fastscan_ready:
  assumes "cw_ready w" and "cw_dim w < 536870912"
    and "list_all2 (\<lambda>codes b. fastscan_block (cw_dim w) codes = Some b \<and> length codes \<le> 32) batches bs"
    and "cw_fits w (length (concat bs))"
  shows "write_fastscan w batches = Some (cw_append w (concat bs), Inr ())"
  using assms
proof (induction batches arbitrary: w bs)
  case Nil
  then show ?case by (simp add: cw_append_Nil)
next
  case (Cons codes batches)
  then obtain b bs' where bs: "bs = b # bs'" and b: "fastscan_block (cw_dim w) codes = Some b" "length codes \<le> 32"
    and rest: "list_all2 (\<lambda>codes b. fastscan_block (cw_dim w) codes = Some b \<and> length codes \<le> 32) batches bs'"
    by (auto simp: list_all2_Cons1)
  have len: "length b = FastScanBlockSize (cw_dim w)" by (rule length_fastscan_block [OF b Cons.prems(2)])
  have fit: "cw_fits w (length b)" using Cons.prems(4) by (rule cw_fits_mono) (simp add: bs)
  have step: "cw_advance (cw_put w b) (FastScanBlockSize (cw_dim w)) = cw_append w b"
    using cw_advance_ready [OF Cons.prems(1) fit] by (simp add: len)
  have "write_fastscan (cw_append w b) batches = Some (cw_append (cw_append w b) (concat bs'), Inr ())"
    using Cons.prems rest fit by (intro Cons.IH) (simp_all add: cw_append_ready bs)
  then show ?case using b step cw_good_put [OF Cons.prems(1) fit] by (simp add: bs Let_def)
qed

lemma write_fixed_ready:
  assumes "cw_ready w"
    and "list_all2 (\<lambda>codes b. fixed_block (cw_cfg w) version (cw_dim w) codes = (b, None)
        \<and> length b = exrabitq_batch_block_size (cw_cfg w) version (cw_dim w)) batches bs"
    and "cw_fits w (length (concat bs))"
  shows "write_fixed version w batches = (cw_append w (concat bs), Inr ())"
  using assms
proof (induction batches arbitrary: w bs)
  case Nil
  then show ?case by (simp add: cw_append_Nil)
next
  case (Cons codes batches)
  then obtain b bs' where bs: "bs = b # bs'" and b: "fixed_block (cw_cfg w) version (cw_dim w) codes = (b, None)"
      "length b = exrabitq_batch_block_size (cw_cfg w) version (cw_dim w)"
    and rest: "list_all2 (\<lambda>codes b. fixed_block (cw_cfg w) version (cw_dim w) codes = (b, None)
        \<and> length b = exrabitq_batch_block_size (cw_cfg w) version (cw_dim w)) batches bs'"
    by (auto simp: list_all2_Cons1)
  have fit: "cw_fits w (length b)" using Cons.prems(3) by (rule cw_fits_mono) (simp add: bs)
  have step: "cw_advance (cw_put w b) (exrabitq_batch_block_size (cw_cfg w) version (cw_dim w)) = cw_append w b"
    using cw_advance_ready [OF Cons.prems(1) fit] by (simp add: b(2))
  have "write_fixed version (cw_append w b) batches = (cw_append (cw_append w b) (concat bs'), Inr ())"
    using Cons.prems rest fit by (intro Cons.IH) (simp_all add: cw_append_ready bs)
  then show ?case using b step cw_good_put [OF Cons.prems(1) fit] by (simp add: bs Let_def)
qed

lemma write_legacy_ready:
  assumes "cw_ready w" and "cw_dim w < 4294967288"
    and "list_all2 (\<lambda>code b. legacy_entry (cw_dim w) code = Inr b) codes bs"
    and "cw_fits w (length (concat bs))"
  shows "write_legacy w codes = (cw_append w (concat bs), Inr ())"
  using assms
proof (induction codes arbitrary: w bs)
  case Nil
  then show ?case by (simp add: cw_append_Nil)
next
  case (Cons code codes)
  then obtain b bs' where bs: "bs = b # bs'" and b: "legacy_entry (cw_dim w) code = Inr b"
    and rest: "list_all2 (\<lambda>code b. legacy_entry (cw_dim w) code = Inr b) codes bs'"
    by (auto simp: list_all2_Cons1)
  have len: "length b = cw_dim w + PackedSignBytes (cw_dim w) + 4"
    using b by (auto simp: legacy_entry_def split: if_splits)
  have fit: "cw_fits w (length b)" using Cons.prems(4) by (rule cw_fits_mono) (simp add: bs)
  have step: "cw_advance (cw_put w b) (cw_dim w + PackedSignBytes (cw_dim w) + 4) = cw_append w b"
    using cw_advance_ready [OF Cons.prems(1) fit] by (simp add: len)
  have "write_legacy (cw_append w b) codes = (cw_append (cw_append w b) (concat bs'), Inr ())"
    using Cons.prems rest fit by (intro Cons.IH) (simp_all add: cw_append_ready bs)
  then show ?case using b step cw_good_put [OF Cons.prems(1) fit] by (simp add: bs Let_def)
qed


section \<open>Configurations\<close>

text \<open>The configurations a file can carry, with the version they belong to.\<close>

definition store_config_ok :: "rabitq_config \<Rightarrow> nat \<Rightarrow> bool" where
  "store_config_ok cfg version \<longleftrightarrow>
     (if stage2_payload_bits cfg = 0 then 10 \<le> version \<and> version \<le> 13
      else variable_ok cfg \<and> version = 15 \<or> fixed_ok cfg version
        \<or> \<not> uses_official_1_plus_n cfg \<and> version = 10)"

lemma effective_normalised:
  "uses_official_1_plus_n c \<Longrightarrow> effective_exdata_layout (c\<lparr>rc_layout := effective_exdata_layout c, rc_bits := b\<rparr>)
    = effective_exdata_layout c"
  by (simp add: effective_exdata_layout_def uses_official_1_plus_n_def RaBitQResolveSelectedExDataLayoutForBits_def)

lemma normalised_config_ok:
  assumes "normalise_config c = Inr c'"
    and "\<not> (12 \<le> EffectiveWriterFileVersion getenv c' \<and> \<not> uses_official_1_plus_n c' \<and> 1 < rc_bits c'
      \<and> \<not> SupportsPackedStage2MagnitudeBits (rc_bits c'))"
  shows "store_config_ok c' (EffectiveWriterFileVersion getenv c')"
proof (cases "uses_official_1_plus_n c")
  case True
  from assms(1) True have v: "SupportsOfficialExDataBits (rc_ex_bits c)" "exdata_layout_valid c"
    and c': "c' = c\<lparr>rc_layout := effective_exdata_layout c, rc_bits := (if 0 < rc_ex_bits c then rc_ex_bits c else 1)\<rparr>"
    by (auto simp: normalise_config_def split: if_splits)
  have off: "uses_official_1_plus_n c'" using True by (simp add: c' uses_official_1_plus_n_def)
  have eff: "effective_exdata_layout c' = effective_exdata_layout c"
    unfolding c' using True by (rule effective_normalised)
  have bits: "rc_ex_bits c' = rc_ex_bits c" by (simp add: c')
  have valid: "exdata_layout_valid c'"
    using v(2) True off unfolding exdata_layout_valid_def eff bits by simp
  have range: "rc_ex_bits c' \<le> 4" using v(1) by (auto simp: bits SupportsOfficialExDataBits_def)
  have pb: "stage2_payload_bits c' = rc_ex_bits c'" using off by (simp add: stage2_payload_bits_def)
  have gen: "effective_exdata_layout c' = kGenericPacked" if "rc_ex_bits c' = 0"
    using valid off that unfolding exdata_layout_valid_def Let_def
    by (cases "effective_exdata_layout c'")
      (simp_all add: RaBitQExDataLayoutDirectBits_def RaBitQResolveSelectedExDataLayout_def
        RaBitQResolveSelectedExDataLayoutForBits_def)
  show ?thesis
    using off valid range pb gen
    by (auto simp: store_config_ok_def variable_ok_def fixed_ok_def EffectiveWriterFileVersion_def
        layout_tests is_direct_iff)
next
  case False
  from assms(1) False have c': "c' = c\<lparr>rc_total_bits := rc_bits c,
      rc_ex_bits := (if 1 < rc_bits c then rc_bits c else 0), rc_layout := kGenericPacked\<rparr>"
    by (auto simp: normalise_config_def split: if_splits)
  have leg: "\<not> uses_official_1_plus_n c'" using False by (simp add: c' uses_official_1_plus_n_def)
  define ver where "ver = EffectiveLegacyWriterFileVersion getenv (rc_bits c')"
  have r: "ver = 10 \<or> ver = 11 \<or> ver = 12"
    by (auto simp: ver_def EffectiveLegacyWriterFileVersion_def Let_def split: option.splits)
  have e: "EffectiveWriterFileVersion getenv c' = ver"
    using leg by (simp add: EffectiveWriterFileVersion_def ver_def)
  show ?thesis using leg r assms(2) unfolding e
    by (auto simp: store_config_ok_def fixed_ok_def stage2_payload_bits_def)
qed

section \<open>The stage-2 region of a cluster\<close>

text \<open>Codes the configuration can store.\<close>

definition code_fits :: "rabitq_config \<Rightarrow> nat \<Rightarrow> nat \<Rightarrow> rabitq_code \<Rightarrow> bool" where
  "code_fits cfg version dim code \<longleftrightarrow>
     (if stage2_payload_bits cfg = 0 then True
      else if version = 15 then fits_code (rc_ex_bits cfg) dim code
      else if 11 \<le> version then fixed_fits cfg version dim code
      else length (qc_ex_code code) = dim \<and> length (qc_ex_sign code) = PackedSignBytes dim)"

definition stage2_region :: "rabitq_config \<Rightarrow> nat \<Rightarrow> nat \<Rightarrow> rabitq_code list \<Rightarrow> bytes" where
  "stage2_region cfg version dim codes =
     (if stage2_payload_bits cfg = 0 then []
      else if version = 15 then
        projr (variable_region (effective_exdata_layout cfg) (rc_ex_bits cfg)
          (exrabitq_abs_bytes_per_lane_dim_block cfg version) dim codes)
      else if 11 \<le> version then
        concat (map (\<lambda>bb. fst (fixed_block cfg version dim (batch codes bb)))
          [0..<exrabitq_num_batch_blocks (length codes)])
      else concat (map (\<lambda>c. projr (legacy_entry dim c)) codes))"

lemma fixed_block_ok:
  assumes "fixed_ok cfg version" and "dim < 67108864" and "\<forall>c \<in> set codes. fixed_fits cfg version dim c"
  shows "fixed_block cfg version dim codes = (fst (fixed_block cfg version dim codes), None)"
    and "length (fst (fixed_block cfg version dim codes)) = exrabitq_batch_block_size cfg version dim"
proof -
  have "\<And>c. c \<in> set codes \<Longrightarrow> fixed_fits cfg version dim c" using assms(3) by blast
  from fixed_block_parts [where codes = codes and build = Scalar, OF assms(1,2) this]
  have "snd (fixed_block cfg version dim codes) = None
      \<and> length (fst (fixed_block cfg version dim codes)) = exrabitq_batch_block_size cfg version dim" by force
  then show "fixed_block cfg version dim codes = (fst (fixed_block cfg version dim codes), None)"
    and "length (fst (fixed_block cfg version dim codes)) = exrabitq_batch_block_size cfg version dim"
    by (simp_all add: prod_eq_iff)
qed

lemma variable_region_ok:
  assumes "variable_ok cfg" and "0 < dim" and "dim < 67108864" and "length codes < 4294967288"
    and "\<forall>c \<in> set codes. fits_code (rc_ex_bits cfg) dim c"
  shows "variable_region (effective_exdata_layout cfg) (rc_ex_bits cfg)
      (exrabitq_abs_bytes_per_lane_dim_block cfg 15) dim codes = Inr (stage2_region cfg 15 dim codes)"
proof -
  have "stage2_payload_bits cfg \<noteq> 0"
    using variable_bits [OF assms(1)] variable_payload_bits [OF assms(1)] by simp
  moreover obtain region where "variable_region (effective_exdata_layout cfg) (rc_ex_bits cfg)
      (exrabitq_abs_bytes_per_lane_dim_block cfg 15) dim codes = Inr region"
    using variable_region_roundtrip [OF assms] by blast
  ultimately show ?thesis by (simp add: stage2_region_def)
qed

lemma write_stage2_ready:
  assumes ready: "cw_ready w" and cfg: "store_config_ok (cw_cfg w) version"
    and version: "version = EffectiveWriterFileVersion getenv (cw_cfg w)"
    and dim: "0 < cw_dim w" "cw_dim w < 67108864" and n: "length codes < 4294967288"
    and codes: "\<forall>c \<in> set codes. code_fits (cw_cfg w) version (cw_dim w) c"
    and fits: "cw_fits w (length (stage2_region (cw_cfg w) version (cw_dim w) codes))"
  shows "write_stage2 getenv w codes = (cw_append w (stage2_region (cw_cfg w) version (cw_dim w) codes), Inr ())"
proof -
  define C where "C = cw_cfg w"
  define R where "R = stage2_region C version (cw_dim w) codes"
  have w32: "wrap32 (length codes) = length codes" using n by simp
  note unfold = write_stage2_def Let_def C_def [symmetric] version [folded C_def, symmetric] w32
  consider (none) "stage2_payload_bits C = 0"
    | (variable) "stage2_payload_bits C \<noteq> 0" "variable_ok C" "version = 15"
    | (fixed) "stage2_payload_bits C \<noteq> 0" "fixed_ok C version"
    | (legacy) "stage2_payload_bits C \<noteq> 0" "\<not> uses_official_1_plus_n C" "version = 10"
    using cfg unfolding store_config_ok_def C_def [symmetric] by (auto split: if_splits)
  then have "write_stage2 getenv w codes = (cw_append w R, Inr ())"
  proof cases
    case none
    then show ?thesis unfolding unfold by (simp add: R_def stage2_region_def cw_append_Nil [OF ready])
  next
    case variable
    have "\<forall>c \<in> set codes. fits_code (rc_ex_bits C) (cw_dim w) c"
      using codes variable by (simp add: code_fits_def C_def)
    note region = variable_region_ok [OF variable(2) dim n this]
    have b: "stage2_payload_bits C = rc_ex_bits C" "1 \<le> rc_ex_bits C" "rc_ex_bits C \<le> 4"
      using variable_payload_bits variable_bits variable(2) by auto
    then have lane: "ExRaBitQPackedMagnitudeBytes 64 (rc_ex_bits C) = 8 * rc_ex_bits C" by simp
    have f: "cw_fits w (length R)" using fits by (simp add: R_def C_def)
    show ?thesis
      using variable region cw_advance_ready [OF ready f] cw_good_put [OF ready f] b lane
        lane_bytes_15 [OF variable(2)]
      unfolding unfold by (simp add: variable_ok_def R_def)
  next
    case fixed
    have fv: "11 \<le> version" "version < 15" using fixed_facts [OF fixed(2)] by auto
    define nb where "nb = exrabitq_num_batch_blocks (length codes)"
    define B where "B bb = fst (fixed_block C version (cw_dim w) (batch codes bb))" for bb
    have fit: "\<forall>c \<in> set (batch codes bb). fixed_fits C version (cw_dim w) c" for bb
      using codes fixed(1) fv batch_sub [of _ codes bb] by (simp add: code_fits_def C_def)
    note blk = fixed_block_ok [OF fixed(2) dim(2) fit]
    have R: "R = concat (map B [0..<nb])"
      using fixed fv by (simp add: R_def stage2_region_def B_def [abs_def] nb_def)
    have "write_fixed version w (map (batch codes) [0..<nb]) = (cw_append w R, Inr ())"
      unfolding R
    proof (rule write_fixed_ready [OF ready])
      show "list_all2 (\<lambda>codes b. fixed_block (cw_cfg w) version (cw_dim w) codes = (b, None)
          \<and> length b = exrabitq_batch_block_size (cw_cfg w) version (cw_dim w))
        (map (batch codes) [0..<nb]) (map B [0..<nb])"
        using blk by (auto simp: list_all2_conv_all_nth C_def [symmetric] B_def)
      show "cw_fits w (length (concat (map B [0..<nb])))" using fits by (simp add: R_def [symmetric] C_def [symmetric] R)
    qed
    moreover have "ExRaBitQPackedMagnitudeBytes 64 (stage2_payload_bits C) \<noteq> 0" if "12 \<le> version"
      using fixed(1) fixed_facts(4) [OF fixed(2) that]
      by (cases "stage2_payload_bits C = 0") (simp_all add: ExRaBitQPackedMagnitudeBytes_def)
    moreover have "uses_official_1_plus_n C \<longrightarrow> \<not> UsesVariableOfficialExDataLayout (effective_exdata_layout C)"
      and "12 \<le> version \<and> \<not> uses_official_1_plus_n C \<longrightarrow> SupportsPackedStage2MagnitudeBits (rc_bits C)"
      using fixed(2) by (auto simp: fixed_ok_def split: if_splits)
    ultimately show ?thesis using fixed(1) fv n unfolding unfold by (auto simp: nb_def)
  next
    case legacy
    define B where "B c = projr (legacy_entry (cw_dim w) c)" for c
    have entry: "legacy_entry (cw_dim w) c = Inr (B c)" if "c \<in> set codes" for c
      using codes that legacy by (auto simp: B_def code_fits_def C_def legacy_entry_def)
    have R: "R = concat (map B codes)"
      using legacy by (simp add: R_def stage2_region_def B_def [abs_def])
    have "write_legacy w codes = (cw_append w R, Inr ())"
      unfolding R
    proof (rule write_legacy_ready [OF ready])
      show "cw_dim w < 4294967288" using dim by simp
      show "list_all2 (\<lambda>code b. legacy_entry (cw_dim w) code = Inr b) codes (map B codes)"
        using entry by (auto simp: list_all2_conv_all_nth)
      show "cw_fits w (length (concat (map B codes)))" using fits by (simp add: R_def [symmetric] C_def [symmetric] R)
    qed
    then show ?thesis using legacy unfolding unfold by simp
  qed
  then show ?thesis by (simp add: R_def C_def)
qed

section \<open>A cluster's block\<close>

text \<open>What a cluster is written from.\<close>

record cluster_input =
  ci_id :: nat
  ci_centroid :: "f32 list"
  ci_epsilon :: f32
  ci_codes :: "rabitq_code list"
  ci_column :: enc_column

definition step :: "(cluster_writer \<times> status) option
    \<Rightarrow> (cluster_writer \<Rightarrow> (cluster_writer \<times> status) option) \<Rightarrow> (cluster_writer \<times> status) option" where
  "step r f = (case r of None \<Rightarrow> None | Some (w, Inl e) \<Rightarrow> Some (w, Inl e) | Some (w, Inr _) \<Rightarrow> f w)"

lemma step_Inr [simp]: "step (Some (w, Inr u)) f = f w"
  by (simp add: step_def)

text \<open>The four operations in the order their guards demand.\<close>

definition write_cluster ::
    "(string \<Rightarrow> string option) \<Rightarrow> simd_build \<Rightarrow> cluster_writer \<Rightarrow> cluster_input
      \<Rightarrow> (cluster_writer \<times> status) option" where
  "write_cluster getenv build w ci =
     step (BeginCluster w (ci_id ci) (wrap32 (length (ci_codes ci))) (ci_centroid ci) (ci_epsilon ci))
       (\<lambda>w1. step (WriteVectors getenv w1 (ci_codes ci))
         (\<lambda>w2. step (WriteAddressBlocks build w2 (ci_column ci)) (\<lambda>w3. Some (EndCluster w3))))"

definition fastscan_region :: "nat \<Rightarrow> rabitq_code list \<Rightarrow> bytes" where
  "fastscan_region dim codes =
     concat (map (\<lambda>b. the (fastscan_block dim (slice (b * 32) 32 codes))) [0..<(length codes + 31) div 32])"

definition code_region :: "rabitq_config \<Rightarrow> nat \<Rightarrow> nat \<Rightarrow> rabitq_code list \<Rightarrow> bytes" where
  "code_region cfg version dim codes = fastscan_region dim codes @ stage2_region cfg version dim codes"

definition stored_column :: "simd_build \<Rightarrow> enc_column \<Rightarrow> enc_column" where
  "stored_column build column = projr (the (raw_column build column))"

definition address_region :: "simd_build \<Rightarrow> enc_column \<Rightarrow> bytes" where
  "address_region build column = raw_bytes (ec_raw (stored_column build column))"

definition block_image :: "simd_build \<Rightarrow> rabitq_config \<Rightarrow> nat \<Rightarrow> nat \<Rightarrow> cluster_input \<Rightarrow> bytes" where
  "block_image build cfg version dim ci =
     (let code = code_region cfg version dim (ci_codes ci); addr = address_region build (ci_column ci);
          column = stored_column build (ci_column ci)
      in code @ addr @ trailer_bytes (al_page_size (ec_layout column)) (length (ec_raw column)) (length code)
         @ le_bytes 4 32 @ le_bytes 4 kBlockMagic)"

definition entry_image :: "simd_build \<Rightarrow> rabitq_config \<Rightarrow> nat \<Rightarrow> nat \<Rightarrow> nat \<Rightarrow> cluster_input \<Rightarrow> lookup_entry" where
  "entry_image build cfg version dim start ci =
     \<lparr>le_cluster_id = ci_id ci, le_num_records = length (ci_codes ci), le_epsilon = ci_epsilon ci,
      le_centroid = take dim (ci_centroid ci), le_block_offset = start,
      le_block_size = length (block_image build cfg version dim ci),
      le_num_fastscan = (length (ci_codes ci) + 31) div 32,
      le_ex_offset = length (fastscan_region dim (ci_codes ci))\<rparr>"

definition pad4k :: "nat \<Rightarrow> nat" where
  "pad4k n = (4096 - n mod 4096) mod 4096"

text \<open>What a cluster must satisfy to be written.\<close>

definition cluster_ok :: "simd_build \<Rightarrow> rabitq_config \<Rightarrow> nat \<Rightarrow> nat \<Rightarrow> cluster_input \<Rightarrow> bool" where
  "cluster_ok build cfg version dim ci \<longleftrightarrow>
     dim \<le> length (ci_centroid ci) \<and> length (ci_codes ci) < 268435456
     \<and> (\<forall>c \<in> set (ci_codes ci). dim div 4 * 4 \<le> length (qc_code c) * 64 \<and> code_fits cfg version dim c)
     \<and> column_error (length (ci_codes ci)) (ci_column ci) = None
     \<and> raw_column build (ci_column ci) = Some (Inr (stored_column build (ci_column ci)))
     \<and> length (ec_raw (stored_column build (ci_column ci))) = length (ci_codes ci)
     \<and> length (block_image build cfg version dim ci) < 4294967296"

lemma length_raw_bytes: "length (raw_bytes es) = length es * 8"
  unfolding raw_bytes_def by (rule length_concat_map_uniform) simp

lemma length_trailer [simp]: "length (trailer_bytes p n off) = 24"
  by (simp add: trailer_bytes_def)

lemma fastscan_block_Some:
  assumes "\<forall>c \<in> set codes. dim div 4 * 4 \<le> length (qc_code c) * 64" and "length codes \<le> 32"
  shows "\<exists>b. fastscan_block dim codes = Some b"
proof -
  have "\<exists>p. PackSignBitsForFastScan (map qc_code codes) (length codes) dim = Some p"
    using assms by (auto simp: PackSignBitsForFastScan_def Let_def not_less)
  then show ?thesis by (auto simp: fastscan_block_def)
qed

lemma pad4k_round:
  assumes "n < 9223372036854775808"
  shows "unat (RoundUp4K (of_nat n)) = n + pad4k n"
proof -
  have u: "unat (of_nat n :: u64) = n" using assms by (simp add: unsigned_of_nat take_bit_eq_mod)
  have "unat (RoundUp4K (of_nat n)) = (n + 4095) div 4096 * 4096"
    unfolding RoundUp4K_unat u using assms by simp
  also have "\<dots> = n + pad4k n"
  proof -
    have n: "n = n div 4096 * 4096 + n mod 4096" by simp
    show ?thesis
    proof (cases "n mod 4096 = 0")
      case True
      define q where "q = n div 4096"
      have "n = q * 4096" using True n by (simp add: q_def)
      then show ?thesis by (simp add: pad4k_def)
    next
      case False
      define q where "q = n div 4096"
      define r where "r = n mod 4096"
      have r: "0 < r" "r < 4096" "n = q * 4096 + r" using False by (simp_all add: q_def r_def)
      have "(n + 4095) div 4096 = q + 1" using r by simp
      then show ?thesis using r by (simp add: pad4k_def)
    qed
  qed
  finally show ?thesis .
qed

lemma PadTo4K_ready:
  assumes "cw_ready w" and "cw_fits w (pad4k (cw_offset w))"
  shows "PadTo4K w = cw_append w (replicate (pad4k (cw_offset w)) 0)"
proof -
  have b: "cw_offset w < 9223372036854775808" using assms(1) by (simp add: cw_ready_def)
  have put: "cw_put w (replicate (pad4k (cw_offset w)) 0)
      = (cw_append w (replicate (pad4k (cw_offset w)) 0))\<lparr>cw_offset := cw_offset w\<rparr>"
    using assms by (intro cw_put_ready) simp_all
  show ?thesis
  proof (cases "pad4k (cw_offset w) = 0")
    case True
    then show ?thesis by (simp add: PadTo4K_def pad4k_round [OF b] Let_def cw_append_Nil [OF assms(1)])
  next
    case False
    then show ?thesis by (simp add: PadTo4K_def pad4k_round [OF b] Let_def put cw_append_def)
  qed
qed

text \<open>Bytes in the middle of the file are replaced and the stream returns to the end.\<close>

lemma patch_and_return:
  assumes "cw_ready w" and "pos + length bs \<le> length (fs_data (cw_stream w))"
  defines "w1 \<equiv> cw_put (w\<lparr>cw_stream := fs_seekp (cw_stream w) pos\<rparr>) bs"
  shows "cw_good w1"
    and "w1\<lparr>cw_stream := fs_seekp (cw_stream w1) (cw_offset w1)\<rparr> =
      w\<lparr>cw_stream := (cw_stream w)\<lparr>fs_data := write_at (fs_data (cw_stream w)) pos bs\<rparr>\<rparr>"
proof -
  have room: "length bs \<le> fs_capacity (cw_stream w) - pos" using assms(1,2) unfolding cw_ready_def by linarith
  then show "cw_good w1" and "w1\<lparr>cw_stream := fs_seekp (cw_stream w1) (cw_offset w1)\<rparr> =
      w\<lparr>cw_stream := (cw_stream w)\<lparr>fs_data := write_at (fs_data (cw_stream w)) pos bs\<rparr>\<rparr>"
    using assms(1) unfolding w1_def cw_ready_def
    by (simp_all add: cw_put_def fs_write_def fs_seekp_def Let_def)
qed

section \<open>The four operations on a healthy writer\<close>

lemma cw_append_update [simp]:
  "cw_append (w\<lparr>cw_num_fastscan := a\<rparr>) bs = (cw_append w bs)\<lparr>cw_num_fastscan := a\<rparr>"
  "cw_append (w\<lparr>cw_ex_offset := b\<rparr>) bs = (cw_append w bs)\<lparr>cw_ex_offset := b\<rparr>"
  "cw_append (w\<lparr>cw_vectors := c\<rparr>) bs = (cw_append w bs)\<lparr>cw_vectors := c\<rparr>"
  "cw_append (w\<lparr>cw_address := d\<rparr>) bs = (cw_append w bs)\<lparr>cw_address := d\<rparr>"
  "cw_append (w\<lparr>cw_column := e\<rparr>) bs = (cw_append w bs)\<lparr>cw_column := e\<rparr>"
  by (simp_all add: cw_append_def)

lemma cw_ready_update [simp]:
  "cw_ready (w\<lparr>cw_num_fastscan := a\<rparr>) = cw_ready w" "cw_ready (w\<lparr>cw_ex_offset := b\<rparr>) = cw_ready w"
  "cw_ready (w\<lparr>cw_vectors := c\<rparr>) = cw_ready w" "cw_ready (w\<lparr>cw_address := d\<rparr>) = cw_ready w"
  "cw_ready (w\<lparr>cw_column := e\<rparr>) = cw_ready w" "cw_ready (w\<lparr>cw_block_start := f\<rparr>) = cw_ready w"
  "cw_ready (w\<lparr>cw_in_cluster := g\<rparr>) = cw_ready w" "cw_ready (w\<lparr>cw_info := h\<rparr>) = cw_ready w"
  "cw_ready (set_entry w u) = cw_ready w"
  by (simp_all add: cw_ready_def set_entry_def)

lemma cw_fits_update [simp]:
  "cw_fits (w\<lparr>cw_num_fastscan := a\<rparr>) n = cw_fits w n" "cw_fits (w\<lparr>cw_ex_offset := b\<rparr>) n = cw_fits w n"
  "cw_fits (w\<lparr>cw_vectors := c\<rparr>) n = cw_fits w n" "cw_fits (w\<lparr>cw_column := e\<rparr>) n = cw_fits w n"
  "cw_fits (w\<lparr>cw_block_start := f\<rparr>) n = cw_fits w n" "cw_fits (w\<lparr>cw_in_cluster := g\<rparr>) n = cw_fits w n"
  "cw_fits (w\<lparr>cw_address := d\<rparr>) n = cw_fits w n" "cw_fits (set_entry w u) n = cw_fits w n"
  by (simp_all add: cw_fits_def set_entry_def)

lemma cw_cfg_update [simp]:
  "cw_cfg (w\<lparr>cw_num_fastscan := a\<rparr>) = cw_cfg w" "cw_cfg (w\<lparr>cw_ex_offset := b\<rparr>) = cw_cfg w"
  "cw_dim (w\<lparr>cw_num_fastscan := a\<rparr>) = cw_dim w" "cw_dim (w\<lparr>cw_ex_offset := b\<rparr>) = cw_dim w"
  by (simp_all add: cw_cfg_def cw_dim_def)

lemma length_code_region:
  assumes "length codes < 268435456"
  shows "length (code_region cfg version dim codes)
    = length (fastscan_region dim codes) + length (stage2_region cfg version dim codes)"
  by (simp add: code_region_def)

lemma WriteVectors_ready:
  assumes ready: "cw_ready w" and in_cluster: "cw_in_cluster w" "\<not> cw_vectors w"
    and start: "cw_block_start w = cw_offset w"
    and cfg: "store_config_ok (cw_cfg w) version" "version = EffectiveWriterFileVersion getenv (cw_cfg w)"
    and dim: "0 < cw_dim w" "cw_dim w < 67108864" and n: "length codes < 268435456"
    and codes: "\<forall>c \<in> set codes. cw_dim w div 4 * 4 \<le> length (qc_code c) * 64 \<and> code_fits (cw_cfg w) version (cw_dim w) c"
    and fits: "cw_fits w (length (code_region (cw_cfg w) version (cw_dim w) codes))"
      "length (code_region (cw_cfg w) version (cw_dim w) codes) < 4294967296"
  shows "WriteVectors getenv w codes = Some ((cw_append w (code_region (cw_cfg w) version (cw_dim w) codes))
    \<lparr>cw_num_fastscan := (length codes + 31) div 32,
     cw_ex_offset := length (fastscan_region (cw_dim w) codes), cw_vectors := True\<rparr>, Inr ())"
proof -
  define nb where "nb = (length codes + 31) div 32"
  define F where "F = fastscan_region (cw_dim w) codes"
  define S where "S = stage2_region (cw_cfg w) version (cw_dim w) codes"
  have split: "code_region (cw_cfg w) version (cw_dim w) codes = F @ S"
    by (simp add: code_region_def F_def S_def)
  define w1 where "w1 = w\<lparr>cw_num_fastscan := nb\<rparr>"
  have fit: "cw_fits w (length F + length S)" and small: "length F < 4294967296"
    using fits by (simp_all add: split)
  define B where "B b = the (fastscan_block (cw_dim w) (slice (b * 32) 32 codes))" for b
  have blk: "fastscan_block (cw_dim w) (slice (b * 32) 32 codes) = Some (B b)" for b
  proof -
    have "\<forall>c \<in> set (slice (b * 32) 32 codes). cw_dim w div 4 * 4 \<le> length (qc_code c) * 64"
      using codes by (auto simp: slice_def dest: in_set_takeD in_set_dropD)
    from fastscan_block_Some [OF this] show ?thesis by (auto simp: B_def)
  qed
  have F: "F = concat (map B [0..<nb])" by (simp add: F_def fastscan_region_def B_def [abs_def] nb_def)
  have w32: "wrap32 (length codes) = length codes" "wrap32 (length codes + 31) div 32 = nb"
    using n by (simp_all add: nb_def)
  have "write_fastscan w1 (map (\<lambda>b. slice (b * 32) 32 codes) [0..<nb]) = Some (cw_append w1 F, Inr ())"
    unfolding F
  proof (rule write_fastscan_ready)
    show "cw_ready w1" using ready by (simp add: w1_def)
    show "cw_dim w1 < 536870912" using dim by (simp add: w1_def)
    show "list_all2 (\<lambda>codes b. fastscan_block (cw_dim w1) codes = Some b \<and> length codes \<le> 32)
        (map (\<lambda>b. slice (b * 32) 32 codes) [0..<nb]) (map B [0..<nb])"
      using blk by (auto simp: list_all2_conv_all_nth w1_def)
    show "cw_fits w1 (length (concat (map B [0..<nb])))"
      using cw_fits_mono [OF fit] by (simp add: w1_def F [symmetric])
  qed
  moreover have ex: "wrap32 (wrap64 (cw_offset (cw_append w1 F) + 18446744073709551616 - cw_block_start (cw_append w1 F)))
      = length F"
  proof -
    have "cw_offset w < 9223372036854775808" using ready by (simp add: cw_ready_def)
    then show ?thesis using small by (simp add: w1_def start)
  qed
  moreover have "write_stage2 getenv ((cw_append w1 F)\<lparr>cw_ex_offset := length F\<rparr>) codes =
      (cw_append ((cw_append w1 F)\<lparr>cw_ex_offset := length F\<rparr>) S, Inr ())"
  proof -
    have g: "cw_cfg ((cw_append w1 F)\<lparr>cw_ex_offset := length F\<rparr>) = cw_cfg w"
      "cw_dim ((cw_append w1 F)\<lparr>cw_ex_offset := length F\<rparr>) = cw_dim w" by (simp_all add: w1_def)
    have fF: "cw_fits w (length F)" using cw_fits_mono [OF fit] by simp
    have "length codes < 4294967288" using n by simp
    from write_stage2_ready [of "(cw_append w1 F)\<lparr>cw_ex_offset := length F\<rparr>", unfolded g, OF _ cfg dim this]
    show ?thesis using ready fit fF codes unfolding S_def [symmetric]
      by (simp add: w1_def cw_append_ready)
  qed
  moreover have "fs_open (cw_stream w)" using ready by (simp add: cw_ready_def)
  ultimately show ?thesis
    using in_cluster unfolding WriteVectors_def Let_def w32 split F_def [symmetric] w1_def [symmetric] nb_def [symmetric]
    by (simp add: w1_def)
qed


lemma WriteAddressBlocks_ready:
  assumes ready: "cw_ready w" and guards: "cw_in_cluster w" "cw_vectors w" "\<not> cw_address w"
    and col: "column_error (le_num_records (cw_entry w)) column = None"
      "raw_column build column = Some (Inr (stored_column build column))"
    and fits: "cw_fits w (length (address_region build column))"
  shows "WriteAddressBlocks build w column = Some ((cw_append w (address_region build column))
    \<lparr>cw_column := stored_column build column, cw_address := True\<rparr>, Inr ())"
proof -
  define A where "A = address_region build column"
  define w1 where "w1 = w\<lparr>cw_column := stored_column build column\<rparr>"
  have r1: "cw_ready w1" "cw_fits w1 (length A)" using ready fits by (simp_all add: w1_def A_def)
  have "fs_open (cw_stream w)" using ready by (simp add: cw_ready_def)
  then have "WriteAddressBlocks build w column = Some (if A = [] then (w1\<lparr>cw_address := True\<rparr>, Inr ())
      else ((cw_append w1 A)\<lparr>cw_address := True\<rparr>, Inr ()))"
    using guards col cw_advance_ready [OF r1] cw_good_put [OF r1]
    unfolding WriteAddressBlocks_def A_def address_region_def w1_def by (simp add: Let_def)
  moreover have "A = [] \<Longrightarrow> cw_append w1 A = w1" using cw_append_Nil [OF r1(1)] by simp
  ultimately show ?thesis unfolding A_def [symmetric] by (auto simp: w1_def)
qed

lemma sub64_small: "b \<le> a \<Longrightarrow> a < 18446744073709551616 \<Longrightarrow> sub64 a b = a - b"
proof -
  assume "b \<le> a" and a: "a < 18446744073709551616"
  then have "a + 18446744073709551616 - b = (a - b) + 18446744073709551616" by simp
  then show "sub64 a b = a - b" using a by (simp only: sub64_def mod_add_self2) simp
qed

lemma write_at_left:
  "pos + length bs \<le> length xs \<Longrightarrow> write_at (xs @ ys) pos bs = write_at xs pos bs @ ys"
  by (simp add: write_at_def)

text \<open>The bytes of a block behind its code and address regions.\<close>

definition block_tail :: "nat \<Rightarrow> nat \<Rightarrow> nat \<Rightarrow> bytes" where
  "block_tail page_size num_entries payload_offset =
     trailer_bytes page_size num_entries payload_offset @ le_bytes 4 32 @ le_bytes 4 kBlockMagic"

lemma length_block_tail [simp]: "length (block_tail p n off) = 32"
  by (simp add: block_tail_def)

lemma EndCluster_ready:
  assumes ready: "cw_ready w" and guards: "cw_in_cluster w" "cw_address w"
    and body: "cw_offset w = cw_block_start w + code_len + length (ec_raw (cw_column w)) * 8"
    and n: "length (ec_raw (cw_column w)) < 268435456"
    and small: "code_len + length (ec_raw (cw_column w)) * 8 + 32 < 4294967296"
    and table: "cw_lookup_start w + cw_index w * cw_entry_size w + (36 + 4 * length (le_centroid (cw_entry w)))
      \<le> length (fs_data (cw_stream w))"
    and index: "cw_index w < 4294967295" "cw_index w < length (si_lookup (cw_info w))"
    and fits: "cw_fits w (32 + pad4k (cw_offset w + 32))"
  defines "entry \<equiv> (cw_entry w)\<lparr>le_block_offset := cw_block_start w,
      le_block_size := cw_offset w + 32 - cw_block_start w,
      le_num_fastscan := cw_num_fastscan w, le_ex_offset := cw_ex_offset w\<rparr>"
    and "tail \<equiv> block_tail (al_page_size (ec_layout (cw_column w))) (length (ec_raw (cw_column w))) code_len"
  shows "EndCluster w = ((cw_append (w\<lparr>cw_stream := (cw_stream w)\<lparr>fs_data :=
        write_at (fs_data (cw_stream w)) (cw_lookup_start w + cw_index w * cw_entry_size w) (lookup_entry_bytes entry)\<rparr>\<rparr>)
      (tail @ replicate (pad4k (cw_offset w + 32)) 0))
    \<lparr>cw_info := (cw_info w)\<lparr>si_lookup := (si_lookup (cw_info w))[cw_index w := entry]\<rparr>,
     cw_index := cw_index w + 1, cw_in_cluster := False, cw_vectors := False, cw_address := False,
     cw_column := enc_column_new, cw_num_fastscan := 0, cw_ex_offset := 0\<rparr>, Inr ())"
proof -
  define num where "num = length (ec_raw (cw_column w))"
  define ps where "ps = al_page_size (ec_layout (cw_column w))"
  define epos where "epos = cw_lookup_start w + cw_index w * cw_entry_size w"
  have bnd: "cw_offset w < 9223372036854775808" "fs_pos (cw_stream w) = cw_offset w"
    "length (fs_data (cw_stream w)) = cw_offset w" "fs_good (cw_stream w)" "fs_open (cw_stream w)"
    "fs_capacity (cw_stream w) < 9223372036854775808"
    using ready by (auto simp: cw_ready_def)
  have cap: "cw_offset w + 32 \<le> fs_capacity (cw_stream w)"
    using fits bnd(3) by (simp add: cw_fits_def)
  have nn: "wrap32 num = num" "wrap32 (num * 8) = num * 8" using n by (simp_all add: num_def)
  have s1: "sub64 (cw_offset w) (cw_block_start w) = code_len + num * 8"
    using body bnd(1) by (simp add: sub64_small num_def)
  have s2: "wrap32 (sub64 (code_len + num * 8) (num * 8)) = code_len"
    using small by (simp add: sub64_small num_def)
  define w1 where "w1 = cw_put w (trailer_bytes ps num code_len)"
  have f24: "cw_fits w (length (trailer_bytes ps num code_len))" using fits by (rule cw_fits_mono) simp
  have w1: "w1 = (cw_append w (trailer_bytes ps num code_len))\<lparr>cw_offset := cw_offset w\<rparr>"
    unfolding w1_def by (rule cw_put_ready [OF ready f24])
  have tell1: "fs_tellp (cw_stream w1) = cw_offset w + 24"
    using bnd by (simp add: w1 fs_tellp_def cw_append_def)
  have mini: "wrap32 (sub64 (wrap64 (fs_tellp (cw_stream w1) + 8)) (cw_offset w)) = 32"
    using cap bnd(6) by (simp add: tell1 sub64_small)
  define w2 where "w2 = cw_put w1 (le_bytes 4 32 @ le_bytes 4 kBlockMagic)"
  have w2: "w2 = (cw_append w tail)\<lparr>cw_offset := cw_offset w\<rparr>"
  proof -
    have "cw_put ((cw_append w t)\<lparr>cw_offset := cw_offset w\<rparr>) u = (cw_append w (t @ u))\<lparr>cw_offset := cw_offset w\<rparr>"
      if "cw_fits w (length t + length u)" for t u
      using that ready by (simp add: cw_put_def cw_append_def fs_write_def Let_def cw_ready_def cw_fits_def write_at_end
          [of "fs_data (cw_stream w) @ t", simplified])
    from this [of "trailer_bytes ps num code_len" "le_bytes 4 32 @ le_bytes 4 kBlockMagic"]
    show ?thesis using cw_fits_mono [OF fits, of 32]
      by (simp add: w2_def w1 tail_def block_tail_def num_def ps_def)
  qed
  have good2: "cw_good w2" using bnd by (simp add: w2 cw_append_def)
  define w3 where "w3 = w2\<lparr>cw_offset := fs_tellp (cw_stream w2)\<rparr>"
  have w3: "w3 = cw_append w tail"
    using bnd by (simp add: w3_def w2 fs_tellp_def cw_append_def tail_def)
  have ready3: "cw_ready w3" unfolding w3 using cw_fits_mono [OF fits, of 32] by (intro cw_append_ready ready) (simp add: tail_def)
  have sz: "sub64 (cw_offset w3) (cw_block_start w3) = cw_offset w + 32 - cw_block_start w"
    using body cap bnd(6) by (simp add: w3 sub64_small tail_def)
  define w4 where "w4 = w3\<lparr>cw_info := (cw_info w)\<lparr>si_lookup := (si_lookup (cw_info w))[cw_index w := entry]\<rparr>\<rparr>"
  have set4: "set_entry w3 (\<lambda>e. e\<lparr>le_block_offset := cw_block_start w3, le_block_size := sub64 (cw_offset w3) (cw_block_start w3),
      le_num_fastscan := cw_num_fastscan w3, le_ex_offset := cw_ex_offset w3\<rparr>) = w4"
    unfolding sz by (simp add: set_entry_def w4_def w3 entry_def cw_entry_def)
  have e4: "cw_entry w4 = entry" "cw_entry_size w4 = cw_entry_size w" "cw_lookup_start w4 = cw_lookup_start w" "cw_index w4 = cw_index w"
    using index(2) by (simp_all add: w4_def cw_entry_def w3 cw_entry_size_def cw_dim_def)
  have elen: "length (lookup_entry_bytes entry) = 36 + 4 * length (le_centroid (cw_entry w))"
    by (simp add: length_lookup_entry_bytes entry_def)
  have epos64: "wrap64 (cw_lookup_start w4 + cw_index w4 * cw_entry_size w4) = epos"
    using table bnd by (simp add: e4 epos_def)
  have ready4: "cw_ready w4" using ready3 by (simp add: w4_def)
  have in4: "epos + length (lookup_entry_bytes entry) \<le> length (fs_data (cw_stream w4))"
    using table by (simp add: w4_def w3 elen epos_def)
  define w5 where "w5 = cw_put (w4\<lparr>cw_stream := fs_seekp (cw_stream w4) epos\<rparr>) (lookup_entry_bytes entry)"
  note patch = patch_and_return [OF ready4 in4, folded w5_def]
  define w6 where "w6 = w4\<lparr>cw_stream := (cw_stream w4)\<lparr>fs_data := write_at (fs_data (cw_stream w4)) epos (lookup_entry_bytes entry)\<rparr>\<rparr>"
  have w5: "w5\<lparr>cw_stream := fs_seekp (cw_stream w5) (cw_offset w5)\<rparr> = w6" using patch(2) by (simp add: w6_def)
  have data6: "write_at (fs_data (cw_stream w4)) epos (lookup_entry_bytes entry)
      = write_at (fs_data (cw_stream w)) epos (lookup_entry_bytes entry) @ tail"
    using table elen by (simp add: w4_def w3 write_at_left epos_def)
  have len6: "length (write_at (fs_data (cw_stream w)) epos (lookup_entry_bytes entry)) = cw_offset w"
    using table elen bnd(3) by (simp add: length_write_at epos_def)
  have ready6: "cw_ready w6" using ready4 in4 by (simp add: w6_def cw_ready_def length_write_at)
  have off6: "cw_offset w6 = cw_offset w + 32" by (simp add: w6_def w4_def w3 tail_def)
  have fit6: "cw_fits w6 (pad4k (cw_offset w6))"
    using fits bnd(3) unfolding off6 by (simp add: w6_def data6 cw_fits_def len6 tail_def) (simp add: w4_def w3)
  have pad: "PadTo4K w6 = cw_append w6 (replicate (pad4k (cw_offset w + 32)) 0)"
    using PadTo4K_ready [OF ready6 fit6] unfolding off6 .
  have final: "cw_append w6 (replicate (pad4k (cw_offset w + 32)) 0) =
      (cw_append (w\<lparr>cw_stream := (cw_stream w)\<lparr>fs_data := write_at (fs_data (cw_stream w)) epos (lookup_entry_bytes entry)\<rparr>\<rparr>)
        (tail @ replicate (pad4k (cw_offset w + 32)) 0))
      \<lparr>cw_info := (cw_info w)\<lparr>si_lookup := (si_lookup (cw_info w))[cw_index w := entry]\<rparr>\<rparr>"
    using bnd(3) len6 by (simp add: w6_def data6 cw_append_def) (simp add: w4_def w3 cw_append_def)
  have "EndCluster w = ((cw_append w6 (replicate (pad4k (cw_offset w + 32)) 0))
      \<lparr>cw_index := cw_index w + 1, cw_in_cluster := False, cw_vectors := False, cw_address := False,
     cw_column := enc_column_new, cw_num_fastscan := 0, cw_ex_offset := 0\<rparr>, Inr ())"
    using guards bnd(5) good2 patch(1) index(1)
    unfolding EndCluster_def Let_def num_def [symmetric] ps_def [symmetric] nn s1 s2
      w1_def [symmetric] mini w2_def [symmetric] w3_def [symmetric] set4 epos64 e4(1) w5_def [symmetric] w5 pad
    by (simp add: w6_def w4_def w3)
  then show ?thesis unfolding final epos_def by simp
qed

section \<open>The file\<close>

text \<open>The blocks one after the other, each padded to a page, and their lookup entries.\<close>

definition padded_block :: "simd_build \<Rightarrow> rabitq_config \<Rightarrow> nat \<Rightarrow> nat \<Rightarrow> nat \<Rightarrow> cluster_input \<Rightarrow> bytes" where
  "padded_block build cfg version dim start ci =
     (let b = block_image build cfg version dim ci in b @ replicate (pad4k (start + length b)) 0)"

fun body_image :: "simd_build \<Rightarrow> rabitq_config \<Rightarrow> nat \<Rightarrow> nat \<Rightarrow> nat \<Rightarrow> cluster_input list \<Rightarrow> bytes" where
  "body_image build cfg version dim start [] = []"
| "body_image build cfg version dim start (ci # cis) =
     (let b = padded_block build cfg version dim start ci
      in b @ body_image build cfg version dim (start + length b) cis)"

fun entries_image ::
    "simd_build \<Rightarrow> rabitq_config \<Rightarrow> nat \<Rightarrow> nat \<Rightarrow> nat \<Rightarrow> cluster_input list \<Rightarrow> lookup_entry list" where
  "entries_image build cfg version dim start [] = []"
| "entries_image build cfg version dim start (ci # cis) =
     entry_image build cfg version dim start ci
     # entries_image build cfg version dim (start + length (padded_block build cfg version dim start ci)) cis"

definition entry_len :: "nat \<Rightarrow> nat" where
  "entry_len dim = 36 + 4 * dim"

definition table_end :: "bytes \<Rightarrow> nat \<Rightarrow> nat \<Rightarrow> nat" where
  "table_end hdr dim num = length hdr + 260 + num * entry_len dim"

definition data_start :: "bytes \<Rightarrow> nat \<Rightarrow> nat \<Rightarrow> nat" where
  "data_start hdr dim num = table_end hdr dim num + pad4k (table_end hdr dim num)"

text \<open>The file after some of the \<open>num\<close> clusters; \<open>path_field\<close> are the 260 bytes for the path.\<close>

definition store_image ::
    "simd_build \<Rightarrow> rabitq_config \<Rightarrow> nat \<Rightarrow> nat \<Rightarrow> bytes \<Rightarrow> bytes \<Rightarrow> nat \<Rightarrow> cluster_input list \<Rightarrow> bytes" where
  "store_image build cfg version dim hdr path_field num cis =
     hdr @ path_field
     @ concat (map lookup_entry_bytes (entries_image build cfg version dim (data_start hdr dim num) cis))
     @ replicate ((num - length cis) * entry_len dim) 0
     @ replicate (pad4k (table_end hdr dim num)) 0
     @ body_image build cfg version dim (data_start hdr dim num) cis"

lemma length_entries_image [simp]: "length (entries_image build cfg version dim start cis) = length cis"
  by (induction cis arbitrary: start) simp_all

lemma body_image_snoc:
  "body_image build cfg version dim start (cis @ [ci]) =
    body_image build cfg version dim start cis
    @ padded_block build cfg version dim (start + length (body_image build cfg version dim start cis)) ci"
  by (induction cis arbitrary: start) (simp_all add: Let_def add.assoc)

lemma entries_image_snoc:
  "entries_image build cfg version dim start (cis @ [ci]) =
    entries_image build cfg version dim start cis
    @ [entry_image build cfg version dim (start + length (body_image build cfg version dim start cis)) ci]"
  by (induction cis arbitrary: start) (simp_all add: Let_def add.assoc)

lemma entries_centroid:
  "\<forall>ci \<in> set cis. dim \<le> length (ci_centroid ci) \<Longrightarrow>
    e \<in> set (entries_image build cfg version dim start cis) \<Longrightarrow> length (le_centroid e) = dim"
  by (induction cis arbitrary: start) (auto simp: entry_image_def)

lemma length_entries_bytes:
  assumes "\<forall>ci \<in> set cis. dim \<le> length (ci_centroid ci)"
  shows "length (concat (map lookup_entry_bytes (entries_image build cfg version dim start cis)))
    = length cis * entry_len dim"
proof -
  have "length (lookup_entry_bytes e) = entry_len dim" if "e \<in> set (entries_image build cfg version dim start cis)" for e
    using entries_centroid [OF assms that] by (simp add: length_lookup_entry_bytes entry_len_def)
  then show ?thesis by (subst length_concat_map_uniform [of _ _ "entry_len dim"]) simp_all
qed

lemma length_store_image:
  assumes "\<forall>ci \<in> set cis. dim \<le> length (ci_centroid ci)" and "length path_field = 260" and "length cis \<le> num"
  shows "length (store_image build cfg version dim hdr path_field num cis) =
    data_start hdr dim num + length (body_image build cfg version dim (data_start hdr dim num) cis)"
proof -
  have "length cis * entry_len dim + (num - length cis) * entry_len dim = num * entry_len dim"
    using assms(3) by (simp add: distrib_right [symmetric])
  then show ?thesis
    using length_entries_bytes [OF assms(1)] assms(2)
    by (simp add: store_image_def) (simp add: data_start_def table_end_def)
qed

text \<open>The next cluster: its entry replaces zeros in the table, its block follows the last one.\<close>

lemma store_image_snoc:
  fixes build :: simd_build and cfg :: rabitq_config and version :: nat and hdr :: bytes
  assumes cis: "\<forall>ci \<in> set (cis @ [ci]). dim \<le> length (ci_centroid ci)" and path: "length path_field = 260"
    and num: "length cis < num"
  defines "img \<equiv> store_image build cfg version dim hdr path_field num"
  shows "write_at (img cis) (length hdr + 260 + length cis * entry_len dim)
        (lookup_entry_bytes (entry_image build cfg version dim (length (img cis)) ci))
      @ padded_block build cfg version dim (length (img cis)) ci = img (cis @ [ci])"
proof -
  define start where "start = data_start hdr dim num"
  define T where "T = concat (map lookup_entry_bytes (entries_image build cfg version dim start cis))"
  define L where "L = entry_len dim"
  define Z where "Z = replicate (pad4k (table_end hdr dim num)) (0 :: u8)"
  define B where "B = body_image build cfg version dim start cis"
  have cs: "\<forall>ci \<in> set cis. dim \<le> length (ci_centroid ci)" using cis by simp
  have len: "length (img cis) = start + length B"
    unfolding img_def start_def B_def by (rule length_store_image [OF cs path]) (use num in simp)
  have T: "length T = length cis * L"
    unfolding T_def L_def by (rule length_entries_bytes [OF cs])
  define e where "e = entry_image build cfg version dim (start + length B) ci"
  have el: "length (lookup_entry_bytes e) = L"
    using cis by (simp add: e_def length_lookup_entry_bytes entry_image_def L_def entry_len_def)
  obtain k where k: "num - length cis = Suc k" "num - length (cis @ [ci]) = k"
    using num by (cases "num - length cis") auto
  have zeros: "replicate ((num - length cis) * L) (0 :: u8) = replicate L 0 @ replicate (k * L) 0"
    by (simp add: k replicate_add)
  have i: "img cis = (hdr @ path_field @ T) @ replicate L 0 @ replicate (k * L) 0 @ Z @ B"
    unfolding img_def store_image_def start_def [symmetric] T_def [symmetric] L_def [symmetric] Z_def [symmetric]
      B_def [symmetric] zeros by simp
  have pos: "length hdr + 260 + length cis * L = length (hdr @ path_field @ T)" using T path by simp
  have "write_at (img cis) (length hdr + 260 + length cis * L) (lookup_entry_bytes e)
      = (hdr @ path_field @ T) @ lookup_entry_bytes e @ replicate (k * L) 0 @ Z @ B"
    unfolding i pos by (rule write_at_inside) (simp add: el)
  then show ?thesis
    unfolding len e_def [symmetric] L_def [symmetric]
    unfolding img_def store_image_def start_def [symmetric] entries_image_snoc body_image_snoc
      B_def [symmetric] e_def [symmetric] k(2) Z_def [symmetric] L_def [symmetric]
    by (simp add: T_def)
qed

section \<open>The writer holds the clusters written so far\<close>

definition writer_holds ::
    "simd_build \<Rightarrow> nat \<Rightarrow> bytes \<Rightarrow> nat \<Rightarrow> cluster_writer \<Rightarrow> cluster_input list \<Rightarrow> bool" where
  "writer_holds build version hdr num w cis \<longleftrightarrow>
     cw_ready w \<and> \<not> cw_in_cluster w \<and> \<not> cw_finalized w
     \<and> fs_data (cw_stream w) = store_image build (cw_cfg w) version (cw_dim w) hdr (replicate 260 0) num cis
     \<and> si_num_clusters (cw_info w) = num \<and> length (si_lookup (cw_info w)) = num
     \<and> cw_index w = length cis \<and> length cis \<le> num \<and> num < 4294967295
     \<and> cw_path_offset w = length hdr \<and> cw_lookup_start w = length hdr + 260
     \<and> (\<forall>ci \<in> set cis. cw_dim w \<le> length (ci_centroid ci))"

lemma block_image_split:
  "block_image build cfg version dim ci = code_region cfg version dim (ci_codes ci)
    @ address_region build (ci_column ci)
    @ block_tail (al_page_size (ec_layout (stored_column build (ci_column ci))))
        (length (ec_raw (stored_column build (ci_column ci)))) (length (code_region cfg version dim (ci_codes ci)))"
  by (simp add: block_image_def block_tail_def Let_def)

lemma entry_size_small: "dim < 67108864 \<Longrightarrow> lookup_entry_size dim = entry_len dim"
  by (simp add: lookup_entry_size_def entry_len_def)

lemma write_cluster_holds:
  assumes holds: "writer_holds build version hdr num w cis" and more: "length cis < num"
    and cfg: "store_config_ok (cw_cfg w) version" "version = EffectiveWriterFileVersion getenv (cw_cfg w)"
    and dim: "0 < cw_dim w" "cw_dim w < 67108864"
    and ci: "cluster_ok build (cw_cfg w) version (cw_dim w) ci"
    and fits: "length (store_image build (cw_cfg w) version (cw_dim w) hdr (replicate 260 0) num (cis @ [ci]))
      \<le> fs_capacity (cw_stream w)"
  shows "\<exists>w'. write_cluster getenv build w ci = Some (w', Inr ()) \<and> writer_holds build version hdr num w' (cis @ [ci])
    \<and> cw_cfg w' = cw_cfg w \<and> cw_dim w' = cw_dim w \<and> fs_capacity (cw_stream w') = fs_capacity (cw_stream w)"
proof -
  define C where "C = cw_cfg w"
  define D where "D = cw_dim w"
  define codes where "codes = ci_codes ci"
  define img where "img = store_image build C version D hdr (replicate 260 0) num"
  define code where "code = code_region C version D codes"
  define addr where "addr = address_region build (ci_column ci)"
  define col where "col = stored_column build (ci_column ci)"
  define start where "start = length (img cis)"
  have h: "cw_ready w" "\<not> cw_in_cluster w" "\<not> cw_finalized w" "fs_data (cw_stream w) = img cis"
    "si_num_clusters (cw_info w) = num" "length (si_lookup (cw_info w)) = num" "cw_index w = length cis"
    "num < 4294967295" "cw_path_offset w = length hdr" "cw_lookup_start w = length hdr + 260"
    "\<forall>ci \<in> set cis. D \<le> length (ci_centroid ci)"
    using holds by (auto simp: writer_holds_def img_def C_def D_def)
  have off: "cw_offset w = start" and open_w: "fs_open (cw_stream w)" using h(1,4) by (simp_all add: cw_ready_def start_def)
  have c: "D \<le> length (ci_centroid ci)" "length codes < 268435456"
    "\<forall>c \<in> set codes. D div 4 * 4 \<le> length (qc_code c) * 64 \<and> code_fits C version D c"
    "column_error (length codes) (ci_column ci) = None"
    "raw_column build (ci_column ci) = Some (Inr col)" "length (ec_raw col) = length codes"
    "length (block_image build C version D ci) < 4294967296"
    using ci by (auto simp: cluster_ok_def C_def D_def codes_def col_def)
  have alen: "length addr = length codes * 8"
    using c(6) by (simp add: addr_def address_region_def col_def length_raw_bytes)
  have blen: "length (block_image build C version D ci) = length code + length codes * 8 + 32"
    by (simp add: block_image_split code_def codes_def addr_def [symmetric] alen [unfolded codes_def])
  define total where "total = length code + length codes * 8 + 32"
  have pad: "length (padded_block build C version D start ci) = total + pad4k (start + total)"
    by (simp add: padded_block_def Let_def blen total_def)
  have next_img: "write_at (img cis) (length hdr + 260 + length cis * entry_len D)
        (lookup_entry_bytes (entry_image build C version D start ci))
      @ padded_block build C version D start ci = img (cis @ [ci])"
    unfolding img_def start_def
    by (rule store_image_snoc) (use h(11) c(1) more in auto)
  have in_table: "length hdr + 260 + length cis * entry_len D + entry_len D \<le> start"
  proof -
    have "Suc (length cis) * entry_len D \<le> num * entry_len D" using more by (intro mult_le_mono1) simp
    moreover have "data_start hdr D num \<le> start"
      unfolding start_def img_def using h(11) more by (subst length_store_image) auto
    ultimately show ?thesis by (simp add: data_start_def table_end_def)
  qed
  have "length (img (cis @ [ci])) = start + (total + pad4k (start + total))"
    using in_table pad next_img [symmetric] c(1)
    by (simp add: length_write_at start_def length_lookup_entry_bytes entry_image_def entry_len_def)
  then have fit: "cw_fits w (total + pad4k (start + total))"
    using fits h(4) by (simp add: cw_fits_def start_def C_def [symmetric] D_def [symmetric] img_def [symmetric])
  define e0 where "e0 = (cw_entry w)\<lparr>le_cluster_id := ci_id ci, le_num_records := length codes,
      le_epsilon := ci_epsilon ci, le_centroid := take D (ci_centroid ci)\<rparr>"
  define w1 where "w1 = w\<lparr>cw_in_cluster := True, cw_vectors := False, cw_address := False,
      cw_info := (cw_info w)\<lparr>si_lookup := (si_lookup (cw_info w))[length cis := e0]\<rparr>, cw_block_start := start\<rparr>"
  have begin_ok: "BeginCluster w (ci_id ci) (wrap32 (length codes)) (ci_centroid ci) (ci_epsilon ci) = Some (w1, Inr ())"
    using h more open_w c(1,2) off
    by (simp add: BeginCluster_def w1_def set_entry_def e0_def cw_entry_def D_def [symmetric])
  have w1: "cw_ready w1" "cw_cfg w1 = C" "cw_dim w1 = D" "cw_offset w1 = start" "cw_block_start w1 = start"
    "cw_in_cluster w1" "\<not> cw_vectors w1" "cw_entry w1 = e0" "\<not> cw_address w1"
    using h more off by (simp_all add: w1_def cw_ready_def cw_cfg_def cw_dim_def C_def D_def cw_entry_def)
  have f1: "cw_fits w1 n = cw_fits w n" for n by (simp add: w1_def cw_fits_def)
  define w2 where "w2 = (cw_append w1 code)\<lparr>cw_num_fastscan := (length codes + 31) div 32,
      cw_ex_offset := length (fastscan_region D codes), cw_vectors := True\<rparr>"
  have vectors_ok: "WriteVectors getenv w1 codes = Some (w2, Inr ())"
  proof -
    have "cw_fits w1 (length code)" unfolding f1 using fit by (rule cw_fits_mono) (simp add: total_def)
    moreover have "length code < 4294967296" using c(7) by (simp add: blen)
    ultimately show ?thesis
      unfolding w2_def code_def using WriteVectors_ready [where w = w1 and codes = codes and version = version and getenv = getenv, unfolded w1(2,3)]
        w1 cfg dim c(2,3) by (simp add: C_def [symmetric] D_def [symmetric])
  qed
  have fcode: "cw_fits w (length code)" using fit by (rule cw_fits_mono) (simp add: total_def)
  have fca: "cw_fits w (length code + length addr)" using fit by (rule cw_fits_mono) (simp add: total_def alen)
  have w2: "cw_ready w2" "cw_in_cluster w2" "cw_vectors w2" "\<not> cw_address w2" "cw_entry w2 = e0"
    using w1 fcode f1 by (simp_all add: w2_def cw_append_ready) (simp_all add: cw_entry_def)
  define w3 where "w3 = (cw_append w2 addr)\<lparr>cw_column := col, cw_address := True\<rparr>"
  have address_ok: "WriteAddressBlocks build w2 (ci_column ci) = Some (w3, Inr ())"
    unfolding w3_def addr_def col_def
  proof (rule WriteAddressBlocks_ready [OF w2(1-4)])
    show "column_error (le_num_records (cw_entry w2)) (ci_column ci) = None"
      using c(4) by (simp add: w2(5) e0_def)
    show "raw_column build (ci_column ci) = Some (Inr (stored_column build (ci_column ci)))"
      using c(5) by (simp add: col_def)
    show "cw_fits w2 (length (address_region build (ci_column ci)))"
      using fca f1 by (simp add: w2_def addr_def)
  qed
  have ready3: "cw_ready w3" using w1(1) fca f1 by (simp add: w3_def w2_def cw_append_ready)
  have w3: "cw_in_cluster w3" "cw_address w3" "cw_offset w3 = start + length code + length codes * 8"
    "cw_block_start w3 = start" "cw_column w3 = col" "cw_entry w3 = e0" "cw_index w3 = length cis"
    "cw_lookup_start w3 = length hdr + 260" "cw_entry_size w3 = entry_len D"
    "fs_data (cw_stream w3) = img cis @ code @ addr" "cw_num_fastscan w3 = (length codes + 31) div 32"
    "cw_ex_offset w3 = length (fastscan_region D codes)"
    using w1 h alen dim entry_size_small [of D] w2(5)
    by (simp_all add: w3_def w2_def w1_def cw_entry_size_def cw_dim_def D_def)
      (simp_all add: cw_entry_def)
  define entry where "entry = entry_image build C version D start ci"
  have elen: "length (le_centroid e0) = D" using c(1) by (simp add: e0_def)
  have entry: "e0\<lparr>le_block_offset := start, le_block_size := total, le_num_fastscan := (length codes + 31) div 32,
      le_ex_offset := length (fastscan_region D codes)\<rparr> = entry"
    by (simp add: entry_def entry_image_def e0_def blen total_def codes_def)
  define tail where "tail = block_tail (al_page_size (ec_layout col)) (length codes) (length code)"
  define w4 where "w4 = (cw_append (w3\<lparr>cw_stream := (cw_stream w3)\<lparr>fs_data :=
        write_at (fs_data (cw_stream w3)) (length hdr + 260 + length cis * entry_len D) (lookup_entry_bytes entry)\<rparr>\<rparr>)
      (tail @ replicate (pad4k (start + total)) 0))
    \<lparr>cw_info := (cw_info w3)\<lparr>si_lookup := (si_lookup (cw_info w3))[length cis := entry]\<rparr>,
     cw_index := length cis + 1, cw_in_cluster := False, cw_vectors := False, cw_address := False,
     cw_column := enc_column_new, cw_num_fastscan := 0, cw_ex_offset := 0\<rparr>"
  have end_ok: "EndCluster w3 = (w4, Inr ())"
  proof -
    have o: "start + length code + length codes * 8 + 32 = start + total" by (simp add: total_def)
    have sz: "start + total - start = total" by simp
    have 1: "cw_offset w3 = cw_block_start w3 + length code + length (ec_raw (cw_column w3)) * 8"
      by (simp add: w3 c(6))
    have 2: "length (ec_raw (cw_column w3)) < 268435456" using c(2) by (simp add: w3 c(6))
    have 3: "length code + length (ec_raw (cw_column w3)) * 8 + 32 < 4294967296"
      using c(7) by (simp add: w3 c(6) blen)
    have 4: "cw_lookup_start w3 + cw_index w3 * cw_entry_size w3 + (36 + 4 * length (le_centroid (cw_entry w3)))
        \<le> length (fs_data (cw_stream w3))"
      using in_table by (simp add: w3 elen start_def entry_len_def)
    have 5: "cw_index w3 < 4294967295" "cw_index w3 < length (si_lookup (cw_info w3))"
      using more h by (simp_all add: w3(7)) (simp add: w3_def w2_def w1_def)
    have 6: "cw_fits w3 (32 + pad4k (cw_offset w3 + 32))"
      unfolding w3(3) o using fit alen f1 by (simp add: w3_def w2_def total_def add.assoc)
    show ?thesis
      using EndCluster_ready [OF ready3 w3(1,2) 1 2 3 4 5 6]
      unfolding w3(3-9,11,12) c(6) o sz entry w4_def tail_def .
  qed
  have chain: "write_cluster getenv build w ci = Some (w4, Inr ())"
    unfolding write_cluster_def codes_def [symmetric] using begin_ok vectors_ok address_ok end_ok by simp
  have el: "length (lookup_entry_bytes entry) = entry_len D"
    using c(1) by (simp add: entry_def entry_image_def length_lookup_entry_bytes entry_len_def)
  have data4: "fs_data (cw_stream w4) = img (cis @ [ci])"
  proof -
    have "write_at (fs_data (cw_stream w3)) (length hdr + 260 + length cis * entry_len D) (lookup_entry_bytes entry)
        = write_at (img cis) (length hdr + 260 + length cis * entry_len D) (lookup_entry_bytes entry) @ code @ addr"
      unfolding w3(10) by (rule write_at_left) (use in_table el in \<open>simp add: start_def\<close>)
    moreover have "block_image build C version D ci = code @ addr @ tail"
      unfolding block_image_split codes_def [symmetric] code_def [symmetric] addr_def [symmetric]
        tail_def col_def [symmetric] c(6) ..
    then have "padded_block build C version D start ci = (code @ addr @ tail) @ replicate (pad4k (start + total)) 0"
      unfolding padded_block_def Let_def blen total_def [symmetric] by simp
    ultimately show ?thesis using next_img by (simp add: w4_def entry_def)
  qed
  have ready4: "cw_ready w4"
  proof -
    define w3' where "w3' = w3\<lparr>cw_stream := (cw_stream w3)\<lparr>fs_data :=
        write_at (fs_data (cw_stream w3)) (length hdr + 260 + length cis * entry_len D) (lookup_entry_bytes entry)\<rparr>\<rparr>"
    have "length hdr + 260 + length cis * entry_len D + length (lookup_entry_bytes entry) \<le> length (fs_data (cw_stream w3))"
      using in_table by (simp add: el w3(10) start_def)
    then have len3: "length (write_at (fs_data (cw_stream w3)) (length hdr + 260 + length cis * entry_len D)
        (lookup_entry_bytes entry)) = length (fs_data (cw_stream w3))"
      unfolding length_write_at by (rule max_absorb1)
    have "cw_ready w3'" using ready3 by (simp add: w3'_def cw_ready_def len3)
    moreover have "cw_fits w3' (length (tail @ replicate (pad4k (start + total)) (0 :: u8)))"
    proof -
      have "fs_capacity (cw_stream w3') = fs_capacity (cw_stream w)"
        by (simp add: w3'_def w3_def w2_def w1_def)
      then show ?thesis using fit alen h(4)
        by (simp add: cw_fits_def tail_def w3'_def len3 [unfolded w3(10)] w3(10) start_def total_def)
    qed
    ultimately have "cw_ready (cw_append w3' (tail @ replicate (pad4k (start + total)) 0))"
      by (rule cw_append_ready)
    then show ?thesis unfolding w4_def w3'_def [symmetric] by (simp add: cw_ready_def)
  qed
  have fields: "cw_cfg w4 = C" "cw_dim w4 = D" "fs_capacity (cw_stream w4) = fs_capacity (cw_stream w)"
    by (simp_all add: w4_def w3_def w2_def w1_def cw_cfg_def cw_dim_def C_def D_def)
  have "writer_holds build version hdr num w4 (cis @ [ci])"
    unfolding writer_holds_def fields img_def [symmetric]
    using ready4 data4 h more c(1) by (simp add: w4_def w3_def w2_def w1_def)
  with chain fields show ?thesis unfolding C_def D_def by blast
qed

section \<open>Opening and closing\<close>

lemma length_store_empty:
  assumes "length path_field = 260"
  shows "length (store_image build cfg version dim hdr path_field num []) = data_start hdr dim num"
  using length_store_image [of "[]", OF _ assms] by simp

lemma le_bytes_0: "le_bytes n 0 = replicate n 0"
  by (induction n) simp_all

lemma write_header_holds:
  fixes w :: cluster_writer and version :: nat
  assumes fresh: "cw_stream w = \<lparr>fs_open = True, fs_good = True, fs_data = [], fs_pos = 0, fs_capacity = cap\<rparr>"
    and state: "cw_index w = 0" "\<not> cw_in_cluster w" "\<not> cw_finalized w"
      "length (si_lookup (cw_info w)) = si_num_clusters (cw_info w)"
    and num: "si_num_clusters (cw_info w) < 4294967295" and dim: "cw_dim w < 67108864"
    and cap: "cap < 9223372036854775808"
  defines "hdr \<equiv> header_prefix version (si_num_clusters (cw_info w)) (cw_dim w) (cw_cfg w)"
    and "n \<equiv> si_num_clusters (cw_info w)"
  assumes fits: "data_start hdr (cw_dim w) n \<le> cap"
  shows "\<exists>w'. write_header w version = (w', Inr ()) \<and> writer_holds build version hdr n w' []
    \<and> cw_cfg w' = cw_cfg w \<and> cw_dim w' = cw_dim w \<and> fs_capacity (cw_stream w') = cap"
proof -
  define L where "L = n * entry_len (cw_dim w)"
  have bound: "length hdr + 260 + L + pad4k (length hdr + 260 + L) \<le> cap"
    using fits by (simp add: data_start_def table_end_def L_def)
  define w1 where "w1 = cw_put w hdr"
  have w1: "cw_stream w1 = \<lparr>fs_open = True, fs_good = True, fs_data = hdr, fs_pos = length hdr, fs_capacity = cap\<rparr>"
    using fresh bound by (simp add: w1_def cw_put_def fs_write_def write_at_def)
  define w2 where "w2 = w1\<lparr>cw_path_offset := fs_tellp (cw_stream w1)\<rparr>"
  define w3 where "w3 = cw_put (cw_put w2 (le_bytes 4 0)) (replicate kMaxPathLen 0)"
  have zeros: "le_bytes 4 0 = replicate 4 (0 :: u8)" by (rule le_bytes_0)
  have w3: "cw_stream w3 = \<lparr>fs_open = True, fs_good = True, fs_data = hdr @ replicate 260 0,
      fs_pos = length hdr + 260, fs_capacity = cap\<rparr>"
  proof -
    have "cw_stream (cw_put w2 (replicate 4 0)) = \<lparr>fs_open = True, fs_good = True, fs_data = hdr @ replicate 4 0,
        fs_pos = length hdr + 4, fs_capacity = cap\<rparr>"
      using bound by (simp add: cw_put_def w2_def w1 fs_write_def write_at_end Let_def del: replicate.simps)
    then have "cw_stream w3 = \<lparr>fs_open = True, fs_good = True, fs_data = (hdr @ replicate 4 0) @ replicate 256 0,
        fs_pos = length hdr + 4 + 256, fs_capacity = cap\<rparr>"
      using bound write_at_end [of "hdr @ replicate 4 0" "replicate 256 0"] unfolding w3_def zeros kMaxPathLen_def cw_put_def [of "cw_put w2 (replicate 4 0)"]
      by (simp add: fs_write_def Let_def del: replicate.simps)
    moreover have "(hdr @ replicate 4 0) @ replicate 256 0 = hdr @ replicate 260 (0 :: u8)"
      using replicate_add [of 4 256 "0 :: u8"] by simp
    ultimately show ?thesis by simp
  qed
  define w4 where "w4 = w3\<lparr>cw_lookup_start := fs_tellp (cw_stream w3)\<rparr>"
  have es: "cw_entry_size w4 = entry_len (cw_dim w)"
    using dim entry_size_small by (simp add: cw_entry_size_def w4_def w3_def w2_def w1_def cw_put_def cw_dim_def)
  have n4: "si_num_clusters (cw_info w) = n" by (simp add: n_def)
  define w5 where "w5 = cw_put w4 (replicate L 0)"
  have w5: "cw_stream w5 = \<lparr>fs_open = True, fs_good = True, fs_data = hdr @ replicate 260 0 @ replicate L 0,
      fs_pos = length hdr + 260 + L, fs_capacity = cap\<rparr>"
    using bound write_at_end [of "hdr @ replicate 260 0" "replicate L 0"]
    by (simp add: w5_def cw_put_def w4_def w3 fs_write_def Let_def)
  define w6 where "w6 = w5\<lparr>cw_offset := fs_tellp (cw_stream w5)\<rparr>"
  have tell: "fs_tellp (cw_stream w1) = length hdr" "fs_tellp (cw_stream w3) = length hdr + 260"
    "fs_tellp (cw_stream w5) = length hdr + 260 + L" by (simp_all add: fs_tellp_def w1 w3 w5)
  have off6: "cw_offset w6 = length hdr + 260 + L" by (simp add: w6_def tell)
  have s6: "cw_stream w6 = cw_stream w5" by (simp add: w6_def)
  have ready: "cw_ready w6" using bound cap unfolding cw_ready_def off6 s6 w5 by simp
  have fit6: "cw_fits w6 (pad4k (cw_offset w6))"
    using bound unfolding cw_fits_def off6 s6 w5 by simp
  define w7 where "w7 = cw_append w6 (replicate (pad4k (length hdr + 260 + L)) 0)"
  have w7: "PadTo4K w6 = w7" using PadTo4K_ready [OF ready fit6] by (simp add: w7_def off6)
  have hd: "header_prefix version n (si_dim (cw_info w)) (si_config (cw_info w)) = hdr"
    by (simp add: hdr_def n_def cw_dim_def cw_cfg_def)
  have result: "write_header w version = (w7, Inr ())"
    unfolding write_header_def Let_def n4 hd w1_def [symmetric]
      w2_def [symmetric] w3_def [symmetric] w4_def [symmetric] es L_def [symmetric] w5_def [symmetric]
      w6_def [symmetric] w7
    using w3 w5 by simp
  have fields: "cw_cfg w7 = cw_cfg w" "cw_dim w7 = cw_dim w" "fs_capacity (cw_stream w7) = cap"
    "cw_info w7 = cw_info w" "cw_index w7 = 0" "\<not> cw_in_cluster w7" "\<not> cw_finalized w7"
    "cw_path_offset w7 = length hdr" "cw_lookup_start w7 = length hdr + 260"
    using state tell by (simp_all add: w7_def w6_def w5 cw_cfg_def cw_dim_def)
      (simp_all add: w5_def w4_def w3_def w2_def w1_def cw_put_def)
  have data: "fs_data (cw_stream w7) = store_image build (cw_cfg w) version (cw_dim w) hdr (replicate 260 0) n []"
    by (simp add: w7_def w6_def w5 store_image_def L_def table_end_def)
  have "cw_ready w7" unfolding w7_def using fit6 off6 by (intro cw_append_ready ready) simp
  then have "writer_holds build version hdr n w7 []"
    using fields data state num by (simp add: writer_holds_def n_def)
  with result fields show ?thesis by blast
qed

text \<open>A store written in one go.\<close>

fun write_clusters ::
    "(string \<Rightarrow> string option) \<Rightarrow> simd_build \<Rightarrow> cluster_writer \<Rightarrow> cluster_input list
      \<Rightarrow> (cluster_writer \<times> status) option" where
  "write_clusters getenv build w [] = Some (w, Inr ())"
| "write_clusters getenv build w (ci # cis) =
     step (write_cluster getenv build w ci) (\<lambda>w'. write_clusters getenv build w' cis)"

definition write_store ::
    "(string \<Rightarrow> string option) \<Rightarrow> simd_build \<Rightarrow> string \<Rightarrow> nat \<Rightarrow> rabitq_config \<Rightarrow> nat
      \<Rightarrow> cluster_input list \<Rightarrow> string \<Rightarrow> (cluster_writer \<times> status) option" where
  "write_store getenv build path dim cfg capacity cis data_path =
     step (Some (cw_Open getenv cluster_writer_new path (length cis) dim cfg (Some capacity)))
       (\<lambda>w. step (write_clusters getenv build w cis) (\<lambda>w'. Some (cw_Finalize w' data_path)))"

text \<open>The bodies before a longer one: the image grows with every cluster.\<close>

lemma body_image_mono: "length (body_image build cfg version dim start cis)
    \<le> length (body_image build cfg version dim start (cis @ rest))"
  by (induction cis arbitrary: start) (simp_all add: Let_def)

lemma write_clusters_holds:
  assumes "writer_holds build version hdr num w prior" and "length prior + length cis = num"
    and "store_config_ok (cw_cfg w) version" and "version = EffectiveWriterFileVersion getenv (cw_cfg w)"
    and "0 < cw_dim w" and "cw_dim w < 67108864"
    and "\<forall>ci \<in> set (prior @ cis). cluster_ok build (cw_cfg w) version (cw_dim w) ci"
    and "length (store_image build (cw_cfg w) version (cw_dim w) hdr (replicate 260 0) num (prior @ cis))
      \<le> fs_capacity (cw_stream w)"
  shows "\<exists>w'. write_clusters getenv build w cis = Some (w', Inr ()) \<and> writer_holds build version hdr num w' (prior @ cis)
    \<and> cw_cfg w' = cw_cfg w \<and> cw_dim w' = cw_dim w \<and> fs_capacity (cw_stream w') = fs_capacity (cw_stream w)"
  using assms
proof (induction cis arbitrary: w prior)
  case (Cons ci cis)
  have cent: "\<forall>ci \<in> set (prior @ ci # cis). cw_dim w \<le> length (ci_centroid ci)"
    using Cons.prems(7) by (auto simp: cluster_ok_def)
  have "length (store_image build (cw_cfg w) version (cw_dim w) hdr (replicate 260 0) num (prior @ [ci]))
      \<le> length (store_image build (cw_cfg w) version (cw_dim w) hdr (replicate 260 0) num (prior @ ci # cis))"
    using cent Cons.prems(2) body_image_mono [of build "cw_cfg w" version "cw_dim w" _ "prior @ [ci]" cis]
    by (subst (1 2) length_store_image) auto
  with write_cluster_holds [OF Cons.prems(1) _ Cons.prems(3-6), of ci] Cons.prems(2,7,8)
  obtain w1 where w1: "write_cluster getenv build w ci = Some (w1, Inr ())"
      "writer_holds build version hdr num w1 (prior @ [ci])" "cw_cfg w1 = cw_cfg w" "cw_dim w1 = cw_dim w"
      "fs_capacity (cw_stream w1) = fs_capacity (cw_stream w)" by auto
  have "\<exists>w'. write_clusters getenv build w1 cis = Some (w', Inr ()) \<and> writer_holds build version hdr num w' ((prior @ [ci]) @ cis)
    \<and> cw_cfg w' = cw_cfg w1 \<and> cw_dim w' = cw_dim w1 \<and> fs_capacity (cw_stream w') = fs_capacity (cw_stream w1)"
    by (rule Cons.IH [OF w1(2)]) (use Cons.prems w1 in auto)
  then show ?case using w1 by auto
qed auto

definition path_field :: "string \<Rightarrow> bytes" where
  "path_field s = le_bytes 4 (length s) @ string_bytes s @ replicate (256 - length s) 0"

lemma length_path_field [simp]: "length s \<le> 256 \<Longrightarrow> length (path_field s) = 260"
  by (simp add: path_field_def string_bytes_def)

lemma Finalize_holds:
  assumes "writer_holds build version hdr num w cis" and "length path \<le> 256"
  shows "\<exists>w'. cw_Finalize w path = (w', Inr ()) \<and> \<not> fs_open (cw_stream w') \<and> cw_finalized w'
    \<and> fs_data (cw_stream w') = store_image build (cw_cfg w) version (cw_dim w) hdr (path_field path) num cis"
proof -
  define img where "img = store_image build (cw_cfg w) version (cw_dim w) hdr (replicate 260 0) num cis"
  have h: "cw_ready w" "\<not> cw_in_cluster w" "\<not> cw_finalized w" "fs_data (cw_stream w) = img"
    "cw_path_offset w = length hdr" using assms(1) by (auto simp: writer_holds_def img_def)
  obtain rest where rest: "img = hdr @ replicate 260 0 @ rest"
    "\<And>p. store_image build (cw_cfg w) version (cw_dim w) hdr p num cis = hdr @ p @ rest"
    by (simp add: img_def store_image_def)
  have len: "length path < 4294967296" using assms(2) by simp
  have room: "length hdr + 260 \<le> fs_capacity (cw_stream w)"
    using h(1,4) by (simp add: cw_ready_def rest(1))
  have bytes: "le_bytes 4 (length path) @ take (length path) (string_bytes path) @ replicate (256 - length path) 0
      = path_field path" by (simp add: path_field_def string_bytes_def)
  have "write_at img (length hdr) (path_field path) = hdr @ path_field path @ rest"
    unfolding rest(1) using assms(2) by (intro write_at_inside) simp
  then show ?thesis
    using h room assms(2) len unfolding rest(2)
    by (simp add: cw_Finalize_def Let_def kMaxPathLen_def bytes cw_put_def fs_write_def fs_seekp_def cw_ready_def)
qed
section \<open>The whole store\<close>

text \<open>\<open>Open\<close> accepts the configuration and stores it as \<open>cfg'\<close>, in a file of this version.\<close>

definition config_accepted ::
    "(string \<Rightarrow> string option) \<Rightarrow> rabitq_config \<Rightarrow> rabitq_config \<Rightarrow> nat \<Rightarrow> bool" where
  "config_accepted getenv cfg cfg' version \<longleftrightarrow>
     normalise_config (cfg\<lparr>rc_storage_version := wrap8 (EffectiveWriterFileVersion getenv cfg)\<rparr>) = Inr cfg'
     \<and> version = EffectiveWriterFileVersion getenv cfg'
     \<and> \<not> (12 \<le> version \<and> \<not> uses_official_1_plus_n cfg' \<and> 1 < rc_bits cfg'
          \<and> \<not> SupportsPackedStage2MagnitudeBits (rc_bits cfg'))"

lemma config_accepted_ok:
  assumes "config_accepted getenv cfg cfg' version"
  shows "store_config_ok cfg' version"
  using assms normalised_config_ok by (auto simp: config_accepted_def)

definition final_image ::
    "simd_build \<Rightarrow> rabitq_config \<Rightarrow> nat \<Rightarrow> nat \<Rightarrow> string \<Rightarrow> cluster_input list \<Rightarrow> bytes" where
  "final_image build cfg version dim data_path cis =
     store_image build cfg version dim (header_prefix version (length cis) dim cfg)
       (path_field data_path) (length cis) cis"

lemma write_store_image:
  assumes accepted: "config_accepted getenv cfg cfg' version" and dim: "0 < dim" "dim < 67108864"
    and cis: "length cis < 4294967295" "\<forall>ci \<in> set cis. cluster_ok build cfg' version dim ci"
    and path: "length data_path \<le> 256"
    and cap: "length (final_image build cfg' version dim data_path cis) \<le> capacity" "capacity < 9223372036854775808"
  shows "\<exists>w. write_store getenv build path dim cfg capacity cis data_path = Some (w, Inr ())
    \<and> \<not> fs_open (cw_stream w) \<and> cw_finalized w
    \<and> fs_data (cw_stream w) = final_image build cfg' version dim data_path cis"
proof -
  define num where "num = length cis"
  define hdr where "hdr = header_prefix version num dim cfg'"
  define cfg1 where "cfg1 = cfg\<lparr>rc_storage_version := wrap8 (EffectiveWriterFileVersion getenv cfg)\<rparr>"
  define w0 where "w0 = cluster_writer_new\<lparr>cw_path := path, cw_info := \<lparr>si_num_clusters = num, si_dim = dim,
      si_config = cfg', si_data_path = [], si_lookup = replicate num lookup_entry_new\<rparr>,
      cw_stream := \<lparr>fs_open = True, fs_good = True, fs_data = [], fs_pos = 0, fs_capacity = capacity\<rparr>\<rparr>"
  have acc: "normalise_config cfg1 = Inr cfg'" "version = EffectiveWriterFileVersion getenv cfg'"
    "\<not> (12 \<le> version \<and> \<not> uses_official_1_plus_n cfg' \<and> 1 < rc_bits cfg'
          \<and> \<not> SupportsPackedStage2MagnitudeBits (rc_bits cfg'))"
    using accepted by (auto simp: config_accepted_def cfg1_def)
  have open_step: "cw_Open getenv cluster_writer_new path num dim cfg (Some capacity) = write_header w0 version"
    unfolding cw_Open_def Let_def cfg1_def [symmetric] acc(2) [symmetric]
    using acc(1,3) by (auto simp: cluster_writer_new_def w0_def resize_def acc(2) [symmetric])
  have cent: "\<forall>ci \<in> set cis. dim \<le> length (ci_centroid ci)" using cis(2) by (simp add: cluster_ok_def)
  have len: "length (final_image build cfg' version dim data_path cis) =
      length (store_image build cfg' version dim hdr (replicate 260 0) num cis)"
    unfolding final_image_def num_def [symmetric] hdr_def [symmetric]
    using length_store_image [OF cent] path by (simp add: num_def)
  have fits: "data_start hdr dim num \<le> capacity"
    using cap(1) unfolding len by (subst (asm) length_store_image [OF cent]) (simp_all add: num_def)
  have w0: "cw_stream w0 = \<lparr>fs_open = True, fs_good = True, fs_data = [], fs_pos = 0, fs_capacity = capacity\<rparr>"
    "cw_index w0 = 0" "\<not> cw_in_cluster w0" "\<not> cw_finalized w0"
    "length (si_lookup (cw_info w0)) = si_num_clusters (cw_info w0)" "si_num_clusters (cw_info w0) = num"
    "cw_dim w0 = dim" "cw_cfg w0 = cfg'"
    by (simp_all add: w0_def cluster_writer_new_def cw_dim_def cw_cfg_def)
  obtain w1 where w1: "write_header w0 version = (w1, Inr ())" "writer_holds build version hdr num w1 []"
      "cw_cfg w1 = cfg'" "cw_dim w1 = dim" "fs_capacity (cw_stream w1) = capacity"
    using write_header_holds [OF w0(1-5), of version build] w0(6-8) cis(1) dim(2) cap(2) fits
    by (auto simp: num_def hdr_def)
  obtain w2 where w2: "write_clusters getenv build w1 cis = Some (w2, Inr ())" "writer_holds build version hdr num w2 cis"
      "cw_cfg w2 = cfg'" "cw_dim w2 = dim"
    using write_clusters_holds [OF w1(2), of cis getenv] config_accepted_ok [OF accepted] acc(2) dim cis(2) cap(1)
    unfolding w1(3-5) len by (auto simp: num_def)
  obtain w3 where w3: "cw_Finalize w2 data_path = (w3, Inr ())" "\<not> fs_open (cw_stream w3)" "cw_finalized w3"
      "fs_data (cw_stream w3) = store_image build cfg' version dim hdr (path_field data_path) num cis"
    using Finalize_holds [OF w2(2) path] unfolding w2(3,4) by blast
  have "write_store getenv build path dim cfg capacity cis data_path = Some (w3, Inr ())"
    unfolding write_store_def num_def [symmetric] open_step w1(1) using w2(1) w3(1) by simp
  then show ?thesis using w3 by (auto simp: final_image_def num_def hdr_def)
qed


lemma length_fastscan_region:
  assumes "\<forall>c \<in> set codes. dim div 4 * 4 \<le> length (qc_code c) * 64" and "dim < 536870912"
  shows "length (fastscan_region dim codes) = (length codes + 31) div 32 * FastScanBlockSize dim"
proof -
  have "length (the (fastscan_block dim (slice (b * 32) 32 codes))) = FastScanBlockSize dim" for b
  proof -
    have "\<forall>c \<in> set (slice (b * 32) 32 codes). dim div 4 * 4 \<le> length (qc_code c) * 64"
      using assms(1) by (auto simp: slice_def dest: in_set_takeD in_set_dropD)
    moreover have "length (slice (b * 32) 32 codes) \<le> 32" by simp
    ultimately obtain blk where "fastscan_block dim (slice (b * 32) 32 codes) = Some blk"
      using fastscan_block_Some by blast
    then show ?thesis using length_fastscan_block [OF _ _ assms(2)] by simp
  qed
  then show ?thesis
    unfolding fastscan_region_def by (subst length_concat_map_uniform [of _ _ "FastScanBlockSize dim"]) simp_all
qed

text \<open>C2: the file the writer leaves.  For an accepted configuration and clusters whose codes, centroid
  and address column fit it, \<open>Open\<close>, the four operations on each cluster and \<open>Finalize\<close> all succeed when
  the device has room; the file is then closed and holds exactly the header with the data file's path,
  the lookup table of the clusters, and their blocks, each padded to a page.\<close>

theorem cluster_store_image:
  assumes "config_accepted getenv cfg cfg' version" and "0 < dim" and "dim < 67108864"
    and "length cis < 4294967295" and "\<forall>ci \<in> set cis. cluster_ok build cfg' version dim ci"
    and "length data_path \<le> 256"
    and "length (final_image build cfg' version dim data_path cis) \<le> capacity"
    and "capacity < 9223372036854775808"
  shows "\<exists>w. write_store getenv build path dim cfg capacity cis data_path = Some (w, Inr ())
    \<and> \<not> fs_open (cw_stream w) \<and> cw_finalized w
    \<and> fs_data (cw_stream w) = final_image build cfg' version dim data_path cis"
  using assms by (rule write_store_image)

definition sample_column :: enc_column where
  "sample_column = \<lparr>ec_format = V2RawTable, ec_layout = \<lparr>al_page_size = 4096, al_bit_width = 1,
     al_granularity = 0, al_fixed_packed = 0, al_last_packed = 0, al_num_blocks = 0\<rparr>,
     ec_blocks = [], ec_raw = [\<lparr>re_offset_pages = 1, re_size_pages = 1\<rparr>], ec_total = 1\<rparr>"

definition sample_cluster :: cluster_input where
  "sample_cluster = \<lparr>ci_id = 7, ci_centroid = [0, 0, 0, 0], ci_epsilon = 0,
     ci_codes = [(sample_code [])\<lparr>qc_code := [5]\<rparr>], ci_column = sample_column\<rparr>"

definition sample_stored_config :: rabitq_config where
  "sample_stored_config = rabitq_config_default\<lparr>rc_storage_version := 12, rc_total_bits := 1, rc_ex_bits := 0\<rparr>"

lemma sample_config_accepted:
  "config_accepted (\<lambda>_. None) rabitq_config_default
    sample_stored_config 12"
  by (simp add: sample_stored_config_def config_accepted_def normalise_config_def rabitq_config_default_def EffectiveWriterFileVersion_def
      EffectiveLegacyWriterFileVersion_def uses_official_1_plus_n_def exdata_layout_valid_def Let_def)

lemma sample_cluster_ok:
  "cluster_ok Scalar sample_stored_config 12 4
    sample_cluster"
proof -
  define C where "C = sample_stored_config"
  have bits: "stage2_payload_bits C = 0"
    by (simp add: C_def sample_stored_config_def stage2_payload_bits_def rabitq_config_default_def uses_official_1_plus_n_def)
  have raw: "raw_column Scalar sample_column = Some (Inr sample_column)"
    by (simp add: raw_column_def sample_column_def)
  have "length (fastscan_region 4 (ci_codes sample_cluster)) = 160"
    by (subst length_fastscan_region) (simp_all add: sample_cluster_def FastScanBlockSize_def FastScanPackedSize_def)
  then have "length (block_image Scalar C 12 4 sample_cluster) = 200"
    by (simp add: block_image_split code_region_def stage2_region_def bits address_region_def stored_column_def
        sample_cluster_def raw length_raw_bytes) (simp add: sample_column_def)
  then show ?thesis
    unfolding C_def [symmetric]
    by (simp add: cluster_ok_def code_fits_def bits stored_column_def sample_cluster_def raw)
      (simp add: sample_column_def column_error_def sample_code_def)
qed

lemma length_sample_image:
  "length (final_image Scalar sample_stored_config
    12 4 ''a.dat'' [sample_cluster]) = 8192"
proof -
  define C where "C = sample_stored_config"
  have bits: "stage2_payload_bits C = 0"
    by (simp add: C_def sample_stored_config_def stage2_payload_bits_def rabitq_config_default_def uses_official_1_plus_n_def)
  have raw: "raw_column Scalar sample_column = Some (Inr sample_column)"
    by (simp add: raw_column_def sample_column_def)
  have "length (fastscan_region 4 (ci_codes sample_cluster)) = 160"
    by (subst length_fastscan_region) (simp_all add: sample_cluster_def FastScanBlockSize_def FastScanPackedSize_def)
  then have blk: "length (block_image Scalar C 12 4 sample_cluster) = 200"
    by (simp add: block_image_split code_region_def stage2_region_def bits address_region_def stored_column_def
        sample_cluster_def raw length_raw_bytes) (simp add: sample_column_def)
  show ?thesis unfolding C_def [symmetric] final_image_def
    by (subst length_store_image)
      (simp_all add: sample_cluster_def [THEN arg_cong, of ci_centroid] data_start_def table_end_def entry_len_def
        length_header_prefix pad4k_def padded_block_def Let_def blk)
qed

theorem cluster_store_image_witness:
  "\<exists>w. write_store (\<lambda>_. None) Scalar ''a.clu'' 4 rabitq_config_default 8192 [sample_cluster] ''a.dat''
      = Some (w, Inr ()) \<and> \<not> fs_open (cw_stream w) \<and> cw_finalized w
    \<and> fs_data (cw_stream w) = final_image Scalar
        sample_stored_config
        12 4 ''a.dat'' [sample_cluster]"
  by (rule cluster_store_image [OF sample_config_accepted])
    (simp_all add: sample_cluster_ok length_sample_image)

end
