(* ===== verification/Parsed_Cluster.thy ===== *)
theory Parsed_Cluster
  imports Ex_Region
begin

text \<open>
  \<open>ParsedCluster\<close> (include/vdb/query/parsed_cluster.h): the view of one cluster block that the query
  pipeline works on.  Its pointers point into the block (or into a resident copy of it); a pointer
  is the object it points into and the offset there, and a read outside the object, like a read
  through a null pointer, is \<open>None\<close>.  The record groups the members as the header does: FastScan
  region, envelope summary, ExRaBitQ region, its parallel copy, addresses, offsets in the block.  The
  \<open>*_storage\<close> vectors and \<open>block_buf\<close>, which only own the bytes the pointers point into, are left out.
\<close>

section \<open>Pointers\<close>

type_synonym ptr = "bytes \<times> nat"

definition ptr_add :: "ptr \<Rightarrow> nat \<Rightarrow> ptr" where
  "ptr_add p n = (fst p, snd p + n)"

definition prd :: "ptr option \<Rightarrow> nat \<Rightarrow> nat \<Rightarrow> bytes option" where
  "prd p off n = (case p of None \<Rightarrow> None | Some (obj, base) \<Rightarrow> rd obj (base + off) n)"

definition prd_nat :: "ptr option \<Rightarrow> nat \<Rightarrow> nat option" where
  "prd_nat p off = map_option le_nat (prd p off 4)"

definition prd_float :: "ptr option \<Rightarrow> nat \<Rightarrow> f32 option" where
  "prd_float p off = map_option of_nat (prd_nat p off)"

section \<open>Data\<close>

record block_location =
  bl_offset :: nat
  bl_size :: nat
  bl_num_records :: nat

record ex_part =
  ep_entries :: "ptr option"
  ep_entry_size :: nat
  ep_sign_bytes :: nat
  ep_sign_packed :: bool
  ep_version :: nat
  ep_batch_blocks :: "ptr option"
  ep_batch_block_size :: nat
  ep_offsets :: "ptr option"
  ep_region_bytes :: nat
  ep_variable :: bool
  ep_batch_size :: nat
  ep_dim_block :: nat
  ep_num_dim_blocks :: nat
  ep_num_batch_blocks :: nat
  ep_abs_bytes :: nat
  ep_mag_bits :: nat
  ep_mag_packed :: bool
  ep_total_bits :: nat
  ep_ex_bits :: nat
  ep_mode :: estimator_mode
  ep_layout :: ex_layout

definition ex_part_new :: ex_part where
  "ex_part_new = \<lparr>ep_entries = None, ep_entry_size = 0, ep_sign_bytes = 0, ep_sign_packed = False,
     ep_version = 0, ep_batch_blocks = None, ep_batch_block_size = 0, ep_offsets = None,
     ep_region_bytes = 0, ep_variable = False, ep_batch_size = 0, ep_dim_block = 0,
     ep_num_dim_blocks = 0, ep_num_batch_blocks = 0, ep_abs_bytes = 0, ep_mag_bits = 0,
     ep_mag_packed = False, ep_total_bits = 1, ep_ex_bits = 0, ep_mode = kLegacySignedMagnitude,
     ep_layout = kGenericPacked\<rparr>"

text \<open>The envelope summary of the FastScan blocks: a mask per group of four dimensions and the
  extreme norms of each block.\<close>

record envelope =
  ev_masks :: "u16 list"
  ev_min :: "f32 list"
  ev_max :: "f32 list"
  ev_groups :: nat

definition envelope_new :: envelope where
  "envelope_new = \<lparr>ev_masks = [], ev_min = [], ev_max = [], ev_groups = 0\<rparr>"

record parallel_part =
  pp_abs :: bytes
  pp_signs :: "u16 list"
  pp_abs_size :: nat
  pp_sign_words :: nat
  pp_slices :: nat

definition parallel_part_new :: parallel_part where
  "parallel_part_new = \<lparr>pp_abs = [], pp_signs = [], pp_abs_size = 0, pp_sign_words = 0, pp_slices = 0\<rparr>"

record parsed_cluster =
  pc_fastscan :: "ptr option"
  pc_fastscan_size :: nat
  pc_num_fastscan :: nat
  pc_envelope :: envelope
  pc_env_blocks :: nat
  pc_ex :: ex_part
  pc_parallel :: parallel_part
  pc_num_records :: nat
  pc_epsilon :: f32
  pc_raw :: "ptr option"
  pc_page_size :: nat
  pc_raw_v2 :: bool
  pc_decoded :: "address_entry list"
  pc_decoded_data :: "address_entry list option"
  pc_decoded_count :: nat
  pc_fastscan_offset :: nat
  pc_ex_offset :: nat
  pc_code_bytes :: nat
  pc_addr_offset :: nat
  pc_addr_bytes :: nat
  pc_trailer_offset :: nat
  pc_trailer_size :: nat
  pc_codes_start :: "ptr option"
  pc_code_entry_size :: nat

definition parsed_cluster_new :: parsed_cluster where
  "parsed_cluster_new = \<lparr>pc_fastscan = None, pc_fastscan_size = 0, pc_num_fastscan = 0,
     pc_envelope = envelope_new, pc_env_blocks = 0, pc_ex = ex_part_new,
     pc_parallel = parallel_part_new, pc_num_records = 0, pc_epsilon = 0, pc_raw = None,
     pc_page_size = 0, pc_raw_v2 = False, pc_decoded = [], pc_decoded_data = None,
     pc_decoded_count = 0, pc_fastscan_offset = 0, pc_ex_offset = 0, pc_code_bytes = 0,
     pc_addr_offset = 0, pc_addr_bytes = 0, pc_trailer_offset = 0, pc_trailer_size = 0,
     pc_codes_start = None, pc_code_entry_size = 0\<rparr>"

text \<open>A pointer to a vector's data is null when the vector is empty.\<close>

definition data_or_null :: "'a list \<Rightarrow> 'a list option" where
  "data_or_null xs = (if xs = [] then None else Some xs)"

section \<open>FastScan region\<close>

definition norm_oc :: "parsed_cluster \<Rightarrow> nat \<Rightarrow> nat \<Rightarrow> f32 option" where
  "norm_oc pc block_idx vec_in_block =
     prd_float (pc_fastscan pc)
       (block_idx * pc_fastscan_size pc + wrap32 (wrap64 (pc_fastscan_size pc + 18446744073709551616 - 32 * 4))
         + vec_in_block * 4)"

definition has_stage1_envelope_summary :: "parsed_cluster \<Rightarrow> bool" where
  "has_stage1_envelope_summary pc \<longleftrightarrow>
     data_or_null (ev_masks (pc_envelope pc)) \<noteq> None \<and> data_or_null (ev_min (pc_envelope pc)) \<noteq> None
     \<and> data_or_null (ev_max (pc_envelope pc)) \<noteq> None \<and> 0 < ev_groups (pc_envelope pc)
     \<and> pc_num_fastscan pc \<le> pc_env_blocks pc"

section \<open>ExRaBitQ region\<close>

record ex_view =
  xv_code_abs :: "ptr option"
  xv_sign :: "ptr option"
  xv_sign_bytes :: nat
  xv_sign_packed :: bool
  xv_xipnorm :: f32

definition ex_view_new :: ex_view where
  "ex_view_new = \<lparr>xv_code_abs = None, xv_sign = None, xv_sign_bytes = 0, xv_sign_packed = False, xv_xipnorm = 0\<rparr>"

definition exrabitq_view :: "parsed_cluster \<Rightarrow> nat \<Rightarrow> nat \<Rightarrow> ex_view option" where
  "exrabitq_view pc vec_idx dim =
     (let ex = pc_ex pc
      in case ep_entries ex of
           None \<Rightarrow> Some ex_view_new
         | Some entries \<Rightarrow>
             if 11 \<le> ep_version ex then Some ex_view_new
             else
               let entry = ptr_add entries (vec_idx * ep_entry_size ex)
               in do {
                 xipnorm \<leftarrow> prd_float (Some entry) (dim + ep_sign_bytes ex);
                 Some \<lparr>xv_code_abs = Some entry, xv_sign = Some (ptr_add entry dim),
                   xv_sign_bytes = ep_sign_bytes ex, xv_sign_packed = ep_sign_packed ex,
                   xv_xipnorm = xipnorm\<rparr>
               })"

record batch_view =
  bv_abs :: "ptr option"
  bv_signs :: "ptr option"
  bv_xipnorms :: "ptr option"
  bv_adds :: "ptr option"
  bv_rescales :: "ptr option"
  bv_valid :: nat
  bv_id :: nat
  bv_abs_bytes :: nat
  bv_mag_bits :: nat
  bv_packed :: bool
  bv_layout :: ex_layout
  bv_bytes :: nat

definition batch_view_new :: batch_view where
  "batch_view_new = \<lparr>bv_abs = None, bv_signs = None, bv_xipnorms = None, bv_adds = None,
     bv_rescales = None, bv_valid = 0, bv_id = 0, bv_abs_bytes = 0, bv_mag_bits = 0, bv_packed = False,
     bv_layout = kGenericPacked, bv_bytes = 0\<rparr>"

definition ep_official :: "ex_part \<Rightarrow> bool" where
  "ep_official ex \<longleftrightarrow> ep_mode ex = kOfficial1PlusN"

text \<open>Where batch block \<open>block_id\<close> starts and how long it is: \<open>Inl\<close> when the view stays empty.\<close>

definition view_block :: "ex_part \<Rightarrow> ptr \<Rightarrow> nat \<Rightarrow> (unit + ptr \<times> nat) option" where
  "view_block ex blocks block_id =
     (if ep_variable ex then
        if ep_offsets ex = None \<or> ep_num_batch_blocks ex < block_id + 1 then Some (Inl ())
        else do {
          block_begin \<leftarrow> prd_nat (ep_offsets ex) (4 * block_id);
          block_end \<leftarrow> prd_nat (ep_offsets ex) (4 * (block_id + 1));
          Some (if block_end < block_begin \<or> ep_region_bytes ex < block_end then Inl ()
                else Inr (ptr_add blocks block_begin, block_end - block_begin))
        }
      else if ep_batch_block_size ex = 0 then Some (Inl ())
      else Some (Inr (ptr_add blocks (block_id * ep_batch_block_size ex), ep_batch_block_size ex)))"

definition fill_batch_view :: "ex_part \<Rightarrow> nat \<Rightarrow> ptr \<Rightarrow> nat \<Rightarrow> batch_view option" where
  "fill_batch_view ex block_id block block_bytes = do {
     let abs_lane_bytes = (if ep_abs_bytes ex \<noteq> 0 then ep_abs_bytes ex else ep_dim_block ex);
     valid \<leftarrow> prd_nat (Some block) 0;
     (if ep_batch_size ex < valid then Some batch_view_new
      else
        let payload = ptr_add block 4;
            stored_lanes = (if ep_variable ex then valid else ep_batch_size ex);
            abs_total_bytes = wrap32 (ep_num_dim_blocks ex * stored_lanes * abs_lane_bytes);
            factor_count = (if ep_official ex then wrap32 (stored_lanes * 2) else stored_lanes)
        in if block_bytes < factor_count * 4 then Some batch_view_new
           else
             let factors = ptr_add block (block_bytes - factor_count * 4)
             in Some \<lparr>bv_abs = Some payload,
                  bv_signs = (if ep_official ex then None else Some (ptr_add payload abs_total_bytes)),
                  bv_xipnorms = (if ep_official ex then None else Some factors),
                  bv_adds = (if ep_official ex then Some factors else None),
                  bv_rescales = (if ep_official ex then Some (ptr_add factors (stored_lanes * 4)) else None),
                  bv_valid = valid, bv_id = block_id, bv_abs_bytes = abs_lane_bytes,
                  bv_mag_bits = ep_mag_bits ex, bv_packed = ep_mag_packed ex, bv_layout = ep_layout ex,
                  bv_bytes = block_bytes\<rparr>)
   }"

definition exrabitq_batch_block_view :: "ex_part \<Rightarrow> nat \<Rightarrow> batch_view option" where
  "exrabitq_batch_block_view ex block_id =
     (case ep_batch_blocks ex of
        None \<Rightarrow> Some batch_view_new
      | Some blocks \<Rightarrow>
          if ep_num_batch_blocks ex \<le> block_id \<or> ep_batch_size ex = 0 \<or> ep_dim_block ex = 0
          then Some batch_view_new
          else do {
            found \<leftarrow> view_block ex blocks block_id;
            (case found of
               Inl _ \<Rightarrow> Some batch_view_new
             | Inr (block, block_bytes) \<Rightarrow>
                 if block_bytes < 4 then Some batch_view_new
                 else fill_batch_view ex block_id block block_bytes)
          })"

record parallel_view =
  pv_abs :: "ptr option"
  pv_signs :: "(u16 list \<times> nat) option"
  pv_xipnorms :: "ptr option"
  pv_valid :: nat
  pv_id :: nat
  pv_slices :: nat

definition parallel_view_new :: parallel_view where
  "parallel_view_new = \<lparr>pv_abs = None, pv_signs = None, pv_xipnorms = None, pv_valid = 0, pv_id = 0, pv_slices = 0\<rparr>"

definition exrabitq_batch_parallel_block_view :: "parsed_cluster \<Rightarrow> nat \<Rightarrow> parallel_view option" where
  "exrabitq_batch_parallel_block_view pc block_id =
     (let ex = pc_ex pc; par = pc_parallel pc
      in if pp_abs par = [] \<or> pp_signs par = [] \<or> ep_num_batch_blocks ex \<le> block_id
            \<or> pp_abs_size par = 0 \<or> pp_sign_words par = 0 \<or> ep_batch_size ex = 0
         then Some parallel_view_new
         else do {
           base_view \<leftarrow> exrabitq_batch_block_view ex block_id;
           Some \<lparr>pv_abs = Some (pp_abs par, block_id * pp_abs_size par),
             pv_signs = Some (pp_signs par, block_id * pp_sign_words par),
             pv_xipnorms = bv_xipnorms base_view, pv_valid = bv_valid base_view, pv_id = block_id,
             pv_slices = pp_slices par\<rparr>
         })"

definition ex_code :: "parsed_cluster \<Rightarrow> nat \<Rightarrow> ptr option" where
  "ex_code pc vec_idx =
     (if 11 \<le> ep_version (pc_ex pc) then None
      else map_option (\<lambda>p. ptr_add p (vec_idx * ep_entry_size (pc_ex pc))) (ep_entries (pc_ex pc)))"

definition ex_sign :: "parsed_cluster \<Rightarrow> nat \<Rightarrow> nat \<Rightarrow> ptr option" where
  "ex_sign pc vec_idx dim =
     (if 11 \<le> ep_version (pc_ex pc) then None
      else map_option (\<lambda>p. ptr_add p (vec_idx * ep_entry_size (pc_ex pc) + dim)) (ep_entries (pc_ex pc)))"

text \<open>A batch size of 0 divides by zero.\<close>

definition xipnorm_at :: "parsed_cluster \<Rightarrow> nat \<Rightarrow> nat \<Rightarrow> f32 option" where
  "xipnorm_at pc vec_idx dim =
     (let ex = pc_ex pc
      in if 11 \<le> ep_version ex then
           if ep_batch_size ex = 0 then None
           else do {
             view \<leftarrow> exrabitq_batch_block_view ex (vec_idx div ep_batch_size ex);
             let lane_id = vec_idx mod ep_batch_size ex;
             (if bv_xipnorms view = None \<or> bv_valid view \<le> lane_id then Some 0
              else prd_float (bv_xipnorms view) (lane_id * 4))
           }
         else prd_float (ep_entries ex) (vec_idx * ep_entry_size ex + dim + ep_sign_bytes ex))"

section \<open>Addresses\<close>

definition decoded_address_base :: "parsed_cluster \<Rightarrow> address_entry list option" where
  "decoded_address_base pc =
     (if pc_decoded_data pc \<noteq> None then pc_decoded_data pc else data_or_null (pc_decoded pc))"

definition decoded_address_size :: "parsed_cluster \<Rightarrow> nat" where
  "decoded_address_size pc =
     (if pc_decoded_data pc \<noteq> None then pc_decoded_count pc else wrap32 (length (pc_decoded pc)))"

definition raw_entry_of :: "bytes \<Rightarrow> raw_entry" where
  "raw_entry_of bs = \<lparr>re_offset_pages = le_nat (take 4 bs), re_size_pages = le_nat (drop 4 bs)\<rparr>"

definition rd_raw :: "ptr option \<Rightarrow> nat \<Rightarrow> raw_entry option" where
  "rd_raw p i = map_option raw_entry_of (prd p (8 * i) 8)"

definition AddressAt :: "parsed_cluster \<Rightarrow> nat \<Rightarrow> address_entry option" where
  "AddressAt pc vec_idx =
     (case decoded_address_base pc of
        Some decoded \<Rightarrow> if vec_idx < length decoded then Some (decoded ! vec_idx) else None
      | None \<Rightarrow>
          if pc_raw_v2 pc \<and> pc_raw pc \<noteq> None then
            map_option (\<lambda>e. DecodeRawEntryV2 e (pc_page_size pc)) (rd_raw (pc_raw pc) vec_idx)
          else Some \<lparr>ae_offset = 0, ae_size = 0\<rparr>)"

text \<open>All results of a list of reads, or none.\<close>

fun collect :: "('a \<Rightarrow> 'b option) \<Rightarrow> 'a list \<Rightarrow> 'b list option" where
  "collect f [] = Some []"
| "collect f (x # xs) = do { y \<leftarrow> f x; ys \<leftarrow> collect f xs; Some (y # ys) }"

definition DecodeAddresses :: "parsed_cluster \<Rightarrow> nat list \<Rightarrow> address_entry list option" where
  "DecodeAddresses pc vec_idxs =
     (if vec_idxs = [] then Some []
      else case decoded_address_base pc of
        Some decoded \<Rightarrow> DecodeAddressBatch decoded vec_idxs
      | None \<Rightarrow>
          if pc_raw_v2 pc \<and> pc_raw pc \<noteq> None then
            collect (\<lambda>i. map_option (\<lambda>e. DecodeRawEntryV2 e (pc_page_size pc)) (rd_raw (pc_raw pc) i)) vec_idxs
          else Some (replicate (length vec_idxs) \<lparr>ae_offset = 0, ae_size = 0\<rparr>))"

section \<open>Facts\<close>

lemma collect_eq: "(\<And>x. x \<in> set xs \<Longrightarrow> f x = Some (g x)) \<Longrightarrow> collect f xs = Some (map g xs)"
  by (induction xs) auto

lemma length_collect: "collect f xs = Some ys \<Longrightarrow> length ys = length xs"
  by (induction xs arbitrary: ys) (auto split: Option.bind_splits)

lemma collect_nth: "collect f xs = Some ys \<Longrightarrow> i < length xs \<Longrightarrow> f (xs ! i) = Some (ys ! i)"
  by (induction xs arbitrary: ys i) (auto simp: nth_Cons' split: Option.bind_splits)

text \<open>Gathering a batch of addresses is reading them one by one.\<close>

lemma DecodeAddresses_each: "DecodeAddresses pc idxs = collect (AddressAt pc) idxs"
proof (cases "decoded_address_base pc")
  case None
  have "collect (\<lambda>i. Some c) idxs = Some (replicate (length idxs) c)" for c :: address_entry
    by (induction idxs) simp_all
  then show ?thesis using None
    by (cases "pc_raw_v2 pc \<and> pc_raw pc \<noteq> None") (auto simp: DecodeAddresses_def AddressAt_def [abs_def])
next
  case (Some decoded)
  have "collect (\<lambda>i. if i < length decoded then Some (decoded ! i) else None) idxs
      = DecodeAddressBatch decoded idxs"
    by (induction idxs) (auto simp: DecodeAddressBatch_def gather_def split: if_splits)
  moreover have "AddressAt pc = (\<lambda>i. if i < length decoded then Some (decoded ! i) else None)"
    using Some by (simp add: AddressAt_def fun_eq_iff)
  ultimately show ?thesis using Some by (auto simp: DecodeAddresses_def DecodeAddressBatch_def gather_def)
qed

end
