(* ===== verification/Cluster_Reader.thy ===== *)
theory Cluster_Reader
  imports Parsed_Cluster Cluster_Writer
begin

text \<open>
  \<open>ClusterStoreReader\<close> (src/storage/cluster_store.cpp) without the resident preload: the state of an
  open store, opening and closing it, loading the block of a cluster, the codes and addresses of its
  records, and the parsing of a block that was read by somebody else.  An open file is the function
  that \<open>pread\<close> computes: position and length to the bytes delivered, or an error.  \<open>alloc i\<close> tells
  whether the allocator serves the i-th request of an operation.  \<open>None\<close> is a read or write outside
  the memory at hand.
\<close>

section \<open>Reading the file\<close>

type_synonym pread_fun = "nat \<Rightarrow> nat \<Rightarrow> bytes option"

text \<open>A position of \<open>2 ^ 63\<close> or more is a negative \<open>off_t\<close>, which the kernel refuses.\<close>

definition pread_at :: "pread_fun \<Rightarrow> nat \<Rightarrow> nat \<Rightarrow> bytes option" where
  "pread_at fd pos n = (if 9223372036854775808 \<le> pos then None else fd pos n)"

definition pread_exact :: "pread_fun \<Rightarrow> nat \<Rightarrow> nat \<Rightarrow> bytes option" where
  "pread_exact fd pos n =
     (case pread_at fd pos n of None \<Rightarrow> None | Some bs \<Rightarrow> if length bs = n then Some bs else None)"

definition PreadValue :: "pread_fun \<Rightarrow> nat \<Rightarrow> nat option" where
  "PreadValue fd pos = map_option le_nat (pread_exact fd pos 4)"

text \<open>One system call reads at most a gibibyte.\<close>

definition kMaxChunk :: nat where "kMaxChunk = 1073741824"

function PreadBytes :: "pread_fun \<Rightarrow> nat \<Rightarrow> nat \<Rightarrow> bytes option" where
  "PreadBytes fd pos remaining =
     (if remaining = 0 then Some []
      else let chunk = min remaining kMaxChunk
           in case pread_exact fd pos chunk of
                None \<Rightarrow> None
              | Some bs \<Rightarrow> map_option ((@) bs) (PreadBytes fd (pos + chunk) (remaining - chunk)))"
  by pat_completeness auto

termination
  by (relation "measure (\<lambda>(fd, pos, remaining). remaining)") (auto simp: kMaxChunk_def min_def)

declare PreadBytes.simps [simp del]

section \<open>State\<close>

record cluster_data =
  cd_codes_offset :: nat
  cd_codes_length :: nat
  cd_codes :: bytes
  cd_format :: addr_format
  cd_layout :: addr_layout
  cd_blocks :: "addr_block list"
  cd_raw :: "raw_entry list"
  cd_decoded :: "address_entry list"

record cluster_reader =
  cr_fd :: "pread_fun option"
  cr_version :: nat
  cr_info :: store_info
  cr_index :: "nat \<rightharpoonup> nat"
  cr_loaded :: "nat \<rightharpoonup> cluster_data"
  cr_preloaded :: bool

definition cluster_reader_new :: cluster_reader where
  "cluster_reader_new = \<lparr>cr_fd = None, cr_version = 0,
     cr_info = \<lparr>si_num_clusters = 0, si_dim = 0, si_config = rabitq_config_default, si_data_path = [],
       si_lookup = []\<rparr>,
     cr_index = Map.empty, cr_loaded = Map.empty, cr_preloaded = False\<rparr>"

definition cr_cfg :: "cluster_reader \<Rightarrow> rabitq_config" where
  "cr_cfg r = si_config (cr_info r)"

definition cr_dim :: "cluster_reader \<Rightarrow> nat" where
  "cr_dim r = si_dim (cr_info r)"

definition cr_entry :: "cluster_reader \<Rightarrow> nat \<Rightarrow> lookup_entry" where
  "cr_entry r i = si_lookup (cr_info r) ! i"

definition cr_Close :: "cluster_reader \<Rightarrow> cluster_reader" where
  "cr_Close r = r\<lparr>cr_fd := None, cr_version := 0, cr_index := Map.empty, cr_loaded := Map.empty,
     cr_preloaded := False\<rparr>"

text \<open>Moving a reader carries everything over but the file version; the moved-from reader is closed
  and its containers are empty.\<close>

definition cr_moved_from :: "cluster_reader \<Rightarrow> cluster_reader" where
  "cr_moved_from other = other\<lparr>cr_fd := None,
     cr_info := (cr_info other)\<lparr>si_data_path := [], si_lookup := []\<rparr>,
     cr_index := Map.empty, cr_loaded := Map.empty, cr_preloaded := False\<rparr>"

definition cr_move_construct :: "cluster_reader \<Rightarrow> cluster_reader \<times> cluster_reader" where
  "cr_move_construct other = (other\<lparr>cr_version := 0\<rparr>, cr_moved_from other)"

definition cr_move_assign :: "cluster_reader \<Rightarrow> cluster_reader \<Rightarrow> cluster_reader \<times> cluster_reader" where
  "cr_move_assign this other = (other\<lparr>cr_version := cr_version (cr_Close this)\<rparr>, cr_moved_from other)"

section \<open>Opening\<close>

definition cr_fail :: "cluster_reader \<Rightarrow> status_code \<Rightarrow> string \<Rightarrow> (cluster_reader \<times> status) option" where
  "cr_fail r code msg = Some (cr_Close r, Inl (code, msg))"

definition supported_version :: "nat \<Rightarrow> bool" where
  "supported_version v \<longleftrightarrow> v = 15 \<or> v = 14 \<or> v = 13 \<or> v = 12 \<or> v = 11 \<or> v = 10 \<or> v = 9 \<or> v = 8 \<or> v = 7"

text \<open>The part of the configuration that versions 13 and later store: the configuration as far as it
  was read, and the error or the offset of the path.\<close>

definition official_error :: "rabitq_config \<Rightarrow> error option" where
  "official_error c =
     (if \<not> uses_official_1_plus_n c then
        Some (kCorruption, ''v13 ClusterStore requires official_1_plus_n mode'')
      else if \<not> official_bits_valid c then
        Some (kCorruption, ''official RaBitQ metadata violates total_bits == ex_bits + 1'')
      else if \<not> SupportsOfficialExDataBits (rc_ex_bits c) then
        Some (kNotSupported, ''official RaBitQ ExData supports only ex_bits=0,1,2,3,4'')
      else if \<not> exdata_layout_valid c then
        Some (kCorruption, ''official RaBitQ ExData layout is incompatible with ex_bits'')
      else None)"

definition rd_byte :: "bytes \<Rightarrow> nat \<Rightarrow> nat option" where
  "rd_byte buf off = map_option le_nat (rd buf off 1)"

definition read_official :: "nat \<Rightarrow> bytes \<Rightarrow> rabitq_config \<Rightarrow> (rabitq_config \<times> (error + nat)) option" where
  "read_official version hdr c = do {
     total_bits \<leftarrow> rd_byte hdr 25;
     ex_bits \<leftarrow> rd_byte hdr 26;
     mode \<leftarrow> rd_byte hdr 27;
     let c1 = c\<lparr>rc_total_bits := total_bits, rc_ex_bits := ex_bits,
       rc_mode := RaBitQEstimatorModeFromByte mode, rc_layout := kGenericPacked\<rparr>;
     (if version < 14 then
        Some (c1, case official_error c1 of Some e \<Rightarrow> Inl e | None \<Rightarrow> Inr 28)
      else do {
        layout \<leftarrow> rd_byte hdr 28;
        (if \<not> RaBitQExDataLayoutByteValid layout then
           Some (c1, Inl (kCorruption, ''unknown RaBitQ ExData layout byte''))
         else
           let c2 = c1\<lparr>rc_layout := RaBitQExDataLayoutFromByte layout\<rparr>
           in Some (c2, case official_error c2 of Some e \<Rightarrow> Inl e | None \<Rightarrow> Inr 29))
      })
   }"

definition read_config :: "nat \<Rightarrow> bytes \<Rightarrow> rabitq_config \<Rightarrow> (rabitq_config \<times> (error + nat)) option" where
  "read_config version hdr c = do {
     bits \<leftarrow> rd_byte hdr 16;
     block_size \<leftarrow> rd_nat hdr 17;
     c_factor \<leftarrow> rd_float hdr 21;
     let c1 = c\<lparr>rc_bits := bits, rc_block_size := block_size, rc_c_factor := c_factor,
       rc_storage_version := wrap8 version\<rparr>;
     (if 13 \<le> version then read_official version hdr c1
      else
        let c2 = c1\<lparr>rc_mode := kLegacySignedMagnitude, rc_total_bits := bits,
               rc_ex_bits := (if 1 < bits then bits else 0), rc_layout := kGenericPacked\<rparr>
        in Some (c2,
             if 12 \<le> version \<and> 1 < bits \<and> \<not> SupportsPackedStage2MagnitudeBits bits then
               Inl (kNotSupported, ''Packed ExRaBitQ Stage2 magnitude supports only bits=2 or bits=4'')
             else Inr 25))
   }"

text \<open>An entry of the lookup table, and the map from cluster ids to entries (the last of two equal
  ids wins).\<close>

definition rd_nat64 :: "bytes \<Rightarrow> nat \<Rightarrow> nat option" where
  "rd_nat64 buf off = map_option le_nat (rd buf off 8)"

definition read_entry :: "nat \<Rightarrow> bytes \<Rightarrow> nat \<Rightarrow> lookup_entry option" where
  "read_entry dim table pos = do {
     cluster_id \<leftarrow> rd_nat table pos;
     num_records \<leftarrow> rd_nat table (pos + 4);
     epsilon \<leftarrow> rd_float table (pos + 8);
     centroid \<leftarrow> collect (\<lambda>i. rd_float table (pos + 12 + i * 4)) [0..<dim];
     block_offset \<leftarrow> rd_nat64 table (pos + 12 + dim * 4);
     block_size \<leftarrow> rd_nat64 table (pos + 12 + dim * 4 + 8);
     num_fastscan \<leftarrow> rd_nat table (pos + 12 + dim * 4 + 16);
     ex_offset \<leftarrow> rd_nat table (pos + 12 + dim * 4 + 20);
     Some \<lparr>le_cluster_id = cluster_id, le_num_records = num_records, le_epsilon = epsilon,
       le_centroid = centroid, le_block_offset = block_offset, le_block_size = block_size,
       le_num_fastscan = num_fastscan, le_ex_offset = ex_offset\<rparr>
   }"

definition read_table :: "nat \<Rightarrow> nat \<Rightarrow> bytes \<Rightarrow> lookup_entry list option" where
  "read_table num dim table = collect (\<lambda>i. read_entry dim table (i * lookup_entry_size dim)) [0..<num]"

definition index_of :: "lookup_entry list \<Rightarrow> nat \<rightharpoonup> nat" where
  "index_of entries = map_of (rev (zip (map le_cluster_id entries) [0..<length entries]))"

text \<open>The signed reading of a 64-bit size, and what \<open>pread\<close> returns.\<close>

definition ssize :: "nat \<Rightarrow> int" where
  "ssize n = (if n < 9223372036854775808 then int n else int n - 18446744073709551616)"

definition pread_count :: "bytes option \<Rightarrow> int" where
  "pread_count r = (case r of None \<Rightarrow> -1 | Some bs \<Rightarrow> int (length bs))"

text \<open>The table is read from the page that holds its first byte, which is the first page.\<close>

definition open_table ::
    "(nat \<Rightarrow> bool) \<Rightarrow> pread_fun \<Rightarrow> cluster_reader \<Rightarrow> nat \<Rightarrow> (cluster_reader \<times> status) option" where
  "open_table alloc fd r pos =
     (let num = si_num_clusters (cr_info r); dim = cr_dim r;
          r1 = r\<lparr>cr_info := (cr_info r)\<lparr>si_lookup := resize num lookup_entry_new (si_lookup (cr_info r))\<rparr>,
                 cr_index := Map.empty\<rparr>;
          table_bytes = wrap64 (num * lookup_entry_size dim);
          aligned_read = unat (RoundUp4K (of_nat (wrap64 (table_bytes + pos))))
      in if \<not> alloc 1 then cr_fail r1 kIOError ''aligned_alloc failed for lookup''
         else if \<not> alloc 2 then cr_fail r1 kIOError ''aligned_alloc failed''
         else
           let got = pread_at fd 0 aligned_read
           in if pread_count got < ssize (wrap64 (table_bytes + pos)) then
                cr_fail r1 kIOError ''Failed to bulk read lookup table''
              else do {
                buf \<leftarrow> got;
                table \<leftarrow> rd buf pos table_bytes;
                entries \<leftarrow> read_table num dim table;
                Some (r1\<lparr>cr_info := (cr_info r1)\<lparr>si_lookup := entries\<rparr>, cr_index := index_of entries\<rparr>, Inr ())
              })"

definition open_header ::
    "(nat \<Rightarrow> bool) \<Rightarrow> pread_fun \<Rightarrow> cluster_reader \<Rightarrow> bytes \<Rightarrow> (cluster_reader \<times> status) option" where
  "open_header alloc fd r hdr = do {
     magic \<leftarrow> rd_nat hdr 0;
     version \<leftarrow> rd_nat hdr 4;
     (if magic \<noteq> kGlobalMagic then cr_fail r kCorruption ''Invalid ClusterStore magic''
      else if \<not> supported_version version then
        cr_fail r kNotSupported (''Unsupported ClusterStore version: '' @ digits_of version)
      else do {
        num_clusters \<leftarrow> rd_nat hdr 8;
        dim \<leftarrow> rd_nat hdr 12;
        (cfg, outcome) \<leftarrow> read_config version hdr (cr_cfg r);
        let r1 = r\<lparr>cr_version := version, cr_info := (cr_info r)\<lparr>si_num_clusters := num_clusters,
          si_dim := dim, si_config := cfg\<rparr>\<rparr>;
        (case outcome of
           Inl (code, msg) \<Rightarrow> cr_fail r1 code msg
         | Inr pos \<Rightarrow> do {
             path_len \<leftarrow> rd_nat hdr pos;
             (if kMaxPathLen < path_len then
                cr_fail r1 kCorruption ''data_file_path length exceeds max''
              else do {
                path \<leftarrow> rd hdr (pos + 4) path_len;
                open_table alloc fd
                  (r1\<lparr>cr_info := (cr_info r1)\<lparr>si_data_path := string_of_bytes path\<rparr>\<rparr>)
                  (pos + 4 + kMaxPathLen)
              })
           })
      })
   }"

text \<open>\<open>fd\<close>: the file as \<open>open\<close> delivers it, for direct I/O or not.\<close>

definition cr_Open ::
    "(nat \<Rightarrow> bool) \<Rightarrow> cluster_reader \<Rightarrow> string \<Rightarrow> pread_fun option \<Rightarrow> (cluster_reader \<times> status) option" where
  "cr_Open alloc r path fd =
     (if cr_fd r \<noteq> None then Some (r, Inl (invalid ''ClusterStoreReader already open''))
      else case fd of
        None \<Rightarrow> Some (r, Inl (kIOError, ''Failed to open ClusterStore: '' @ path))
      | Some f \<Rightarrow>
          let r1 = r\<lparr>cr_fd := Some f\<rparr>
          in if \<not> alloc 0 then cr_fail r1 kIOError ''aligned_alloc failed for header''
             else if pread_count (pread_at f 0 4096) < 285 then cr_fail r1 kIOError ''Failed to read header''
             else do { hdr \<leftarrow> pread_at f 0 4096; open_header alloc f r1 hdr })"

section \<open>What the header and the table say\<close>

definition cluster_ids :: "cluster_reader \<Rightarrow> nat list" where
  "cluster_ids r = map le_cluster_id (si_lookup (cr_info r))"

definition GetNumRecords :: "cluster_reader \<Rightarrow> nat \<Rightarrow> nat" where
  "GetNumRecords r cluster_id =
     (case cr_index r cluster_id of None \<Rightarrow> 0 | Some i \<Rightarrow> le_num_records (cr_entry r i))"

definition GetCentroid :: "cluster_reader \<Rightarrow> nat \<Rightarrow> f32 list option" where
  "GetCentroid r cluster_id = map_option (\<lambda>i. le_centroid (cr_entry r i)) (cr_index r cluster_id)"

definition GetEpsilon :: "cluster_reader \<Rightarrow> nat \<Rightarrow> f32" where
  "GetEpsilon r cluster_id =
     (case cr_index r cluster_id of None \<Rightarrow> 0 | Some i \<Rightarrow> le_epsilon (cr_entry r i))"

definition total_records :: "cluster_reader \<Rightarrow> nat" where
  "total_records r = foldl (\<lambda>n e. wrap64 (n + le_num_records e)) 0 (si_lookup (cr_info r))"

definition GetBlockLocation :: "cluster_reader \<Rightarrow> nat \<Rightarrow> block_location option" where
  "GetBlockLocation r cluster_id =
     map_option (\<lambda>i. let e = cr_entry r i in \<lparr>bl_offset = le_block_offset e, bl_size = le_block_size e,
       bl_num_records = le_num_records e\<rparr>) (cr_index r cluster_id)"

section \<open>The trailer of a block\<close>

text \<open>What the trailer says about the addresses; in a packed trailer the page size is part of the
  layout and the payload fields are 0.\<close>

record trailer =
  tr_raw :: bool
  tr_page_size :: nat
  tr_layout :: addr_layout
  tr_bases :: "nat list"
  tr_payload_offset :: nat
  tr_payload_bytes :: nat

definition addr_layout_new :: addr_layout where
  "addr_layout_new = \<lparr>al_page_size = 4096, al_bit_width = 1, al_granularity = 0, al_fixed_packed = 0,
     al_last_packed = 0, al_num_blocks = 0\<rparr>"

text \<open>\<open>ReadT\<close>: consecutive fields of the given widths, and what follows them.\<close>

fun read_fields :: "nat list \<Rightarrow> bytes \<Rightarrow> (nat list \<times> bytes) option" where
  "read_fields [] bs = Some ([], bs)"
| "read_fields (n # ns) bs =
     (if length bs < n then None
      else do { (xs, rest) \<leftarrow> read_fields ns (drop n bs); Some (le_nat (take n bs) # xs, rest) })"

definition corrupt :: "string \<Rightarrow> error + 'a" where
  "corrupt msg = Inl (kCorruption, msg)"

text \<open>Version 9 and later: the raw table.\<close>

definition read_raw_trailer :: "string \<Rightarrow> nat \<Rightarrow> bytes \<Rightarrow> error + trailer \<times> bytes" where
  "read_raw_trailer msg num_records buf =
     (case read_fields [4, 4, 4, 4, 4, 4] buf of
        None \<Rightarrow> corrupt msg
      | Some (fs, rest) \<Rightarrow>
          if fs ! 0 \<noteq> kAddressFormatV2 then corrupt ''Unsupported V9 address format''
          else if fs ! 2 \<noteq> 8 then corrupt ''Unexpected V9 raw address entry size''
          else if fs ! 3 \<noteq> num_records then corrupt ''V9 raw address entry count mismatch''
          else Inr (\<lparr>tr_raw = True, tr_page_size = fs ! 1, tr_layout = addr_layout_new, tr_bases = [],
            tr_payload_offset = fs ! 4, tr_payload_bytes = fs ! 5\<rparr>, rest))"

text \<open>The base offsets of the blocks; \<open>block_msg i\<close> when the i-th is missing.\<close>

fun read_bases :: "(nat \<Rightarrow> string) \<Rightarrow> nat list \<Rightarrow> bytes \<Rightarrow> error + nat list \<times> bytes" where
  "read_bases block_msg [] buf = Inr ([], buf)"
| "read_bases block_msg (i # idxs) buf =
     (case read_fields [4] buf of
        None \<Rightarrow> corrupt (block_msg i)
      | Some (fs, rest) \<Rightarrow>
          res_bind (read_bases block_msg idxs rest) (\<lambda>(bs, rest'). Inr (fs ! 0 # bs, rest')))"

definition read_packed_trailer :: "(nat \<Rightarrow> string) \<Rightarrow> nat \<Rightarrow> bytes \<Rightarrow> error + trailer \<times> bytes" where
  "read_packed_trailer block_msg num_records buf =
     (case read_fields [4, 1, 4, 4, 4, 4] buf of
        None \<Rightarrow> corrupt ''Mini-trailer: failed to read shared address layout''
      | Some (fs, rest) \<Rightarrow>
          let layout = \<lparr>al_page_size = fs ! 0, al_bit_width = fs ! 1, al_granularity = fs ! 2,
                al_fixed_packed = fs ! 3, al_last_packed = fs ! 4, al_num_blocks = fs ! 5\<rparr>
          in if num_records = 0 \<and> (al_num_blocks layout \<noteq> 0 \<or> al_last_packed layout \<noteq> 0) then
               corrupt ''Empty cluster has invalid address layout''
             else if num_records \<noteq> 0 \<and> al_num_blocks layout = 0 then
               corrupt ''Non-empty cluster has zero address blocks''
             else res_bind (read_bases block_msg [0..<al_num_blocks layout] rest)
               (\<lambda>(bases, rest'). Inr (\<lparr>tr_raw = False, tr_page_size = 0, tr_layout = layout,
                  tr_bases = bases, tr_payload_offset = 0, tr_payload_bytes = 0\<rparr>, rest')))"

definition read_footer :: "nat \<Rightarrow> bytes \<Rightarrow> status" where
  "read_footer mini_trailer_size buf =
     (case read_fields [4, 4] buf of
        None \<Rightarrow> corrupt ''Mini-trailer: failed to read trailer footer''
      | Some (fs, rest) \<Rightarrow>
          if fs ! 0 \<noteq> mini_trailer_size \<or> fs ! 1 \<noteq> kBlockMagic then corrupt ''Mini-trailer footer mismatch''
          else if rest \<noteq> [] then corrupt ''Mini-trailer has trailing bytes''
          else Inr ())"

definition bad_granularity :: "trailer \<Rightarrow> bool" where
  "bad_granularity t \<longleftrightarrow> \<not> tr_raw t \<and> 0 < al_num_blocks (tr_layout t) \<and> al_granularity (tr_layout t) = 0"

text \<open>\<open>buf\<close> are the \<open>mini_trailer_size\<close> bytes at the end of the block.\<close>

definition parse_trailer :: "string \<Rightarrow> nat \<Rightarrow> nat \<Rightarrow> nat \<Rightarrow> bytes \<Rightarrow> error + trailer" where
  "parse_trailer msg version num_records mini_trailer_size buf =
     res_bind (if 9 \<le> version then read_raw_trailer msg num_records buf
         else read_packed_trailer (\<lambda>i. ''Mini-trailer: failed to parse block '' @ digits_of i) num_records buf)
       (\<lambda>(t, rest). res_bind (read_footer mini_trailer_size rest)
          (\<lambda>_. if bad_granularity t then corrupt ''Invalid address block granularity'' else Inr t))"

section \<open>The regions of a block\<close>

definition region1_bytes :: "nat \<Rightarrow> lookup_entry \<Rightarrow> nat" where
  "region1_bytes dim e = wrap32 (le_num_fastscan e * fastscan_block_bytes dim)"

definition region2_bytes :: "rabitq_config \<Rightarrow> nat \<Rightarrow> nat \<Rightarrow> lookup_entry \<Rightarrow> trailer \<Rightarrow> nat" where
  "region2_bytes cfg version dim e t =
     (if 11 \<le> version
      then (if region1_bytes dim e \<le> tr_payload_offset t
            then tr_payload_offset t - region1_bytes dim e else 0)
      else wrap32 (le_num_records e * exrabitq_entry_size cfg version dim))"

definition codes_bytes :: "rabitq_config \<Rightarrow> nat \<Rightarrow> nat \<Rightarrow> lookup_entry \<Rightarrow> trailer \<Rightarrow> nat" where
  "codes_bytes cfg version dim e t = wrap32 (region1_bytes dim e + region2_bytes cfg version dim e t)"

definition trailer_payload :: "trailer \<Rightarrow> nat" where
  "trailer_payload t =
     (if tr_raw t then tr_payload_bytes t
      else if 0 < al_num_blocks (tr_layout t)
      then (al_num_blocks (tr_layout t) - 1) * al_fixed_packed (tr_layout t) + al_last_packed (tr_layout t)
      else 0)"

text \<open>The check that code region, address payload and trailer fill the block.\<close>

definition regions_fit :: "nat \<Rightarrow> nat \<Rightarrow> nat \<Rightarrow> trailer \<Rightarrow> status" where
  "regions_fit block_size codes_length mini_trailer_size t =
     (let payload_and_trailer = block_size - codes_length
      in if payload_and_trailer < mini_trailer_size then corrupt ''Cluster block shorter than trailer''
         else if payload_and_trailer - mini_trailer_size \<noteq> trailer_payload t then
           corrupt ''Address payload size mismatch''
         else Inr ())"

section \<open>Loading a cluster\<close>

text \<open>The raw table is read into a vector of one entry per record: more bytes than that are a write
  outside it.\<close>

definition raw_entries_of :: "nat \<Rightarrow> bytes \<Rightarrow> raw_entry list" where
  "raw_entries_of n bs = map (\<lambda>i. raw_entry_of (slice (8 * i) 8 bs)) [0..<n]"

definition load_raw ::
    "pread_fun \<Rightarrow> lookup_entry \<Rightarrow> trailer \<Rightarrow> cluster_data \<Rightarrow> (error + cluster_data) option" where
  "load_raw fd e t d =
     (let n = le_num_records e
      in if tr_payload_bytes t = 0 then
           Some (Inr (d\<lparr>cd_raw := raw_entries_of n (replicate (n * 8) 0),
             cd_decoded := map (\<lambda>x. DecodeRawEntryV2 x (tr_page_size t)) (raw_entries_of n (replicate (n * 8) 0))\<rparr>))
         else if n * 8 < tr_payload_bytes t then None
         else case PreadBytes fd (wrap64 (le_block_offset e + tr_payload_offset t)) (tr_payload_bytes t) of
             None \<Rightarrow> Some (Inl (kIOError, ''Failed to read raw address table''))
           | Some bs \<Rightarrow>
               let entries = raw_entries_of n (bs @ replicate (n * 8 - length bs) 0)
               in Some (Inr (d\<lparr>cd_raw := entries,
                    cd_decoded := map (\<lambda>x. DecodeRawEntryV2 x (tr_page_size t)) entries\<rparr>)))"

fun load_blocks :: "pread_fun \<Rightarrow> addr_layout \<Rightarrow> (nat \<times> nat) list \<Rightarrow> nat \<Rightarrow> error + addr_block list" where
  "load_blocks fd layout [] pos = Inr []"
| "load_blocks fd layout ((i, base) # rest) pos =
     (let packed_size = BlockPackedSize layout i
      in if packed_size = 0 then
           res_bind (load_blocks fd layout rest pos)
             (\<lambda>bs. Inr (\<lparr>ab_base = base, ab_packed = []\<rparr> # bs))
         else case PreadBytes fd pos packed_size of
             None \<Rightarrow> Inl (kIOError, ''Failed to read address block packed data'')
           | Some packed \<Rightarrow>
               res_bind (load_blocks fd layout rest (wrap64 (pos + packed_size)))
                 (\<lambda>bs. Inr (\<lparr>ab_base = base, ab_packed = packed\<rparr> # bs)))"

definition load_packed ::
    "simd_build \<Rightarrow> pread_fun \<Rightarrow> lookup_entry \<Rightarrow> trailer \<Rightarrow> nat \<Rightarrow> cluster_data
      \<Rightarrow> (error + cluster_data) option" where
  "load_packed build fd e t pos d =
     (case load_blocks fd (tr_layout t) (zip [0..<length (tr_bases t)] (tr_bases t)) pos of
        Inl err \<Rightarrow> Some (Inl err)
      | Inr blocks \<Rightarrow> do {
          decoded \<leftarrow> DecodeBatchBlocks build (tr_layout t) blocks (le_num_records e);
          Some (map_sum id (\<lambda>es. d\<lparr>cd_blocks := blocks, cd_decoded := es\<rparr>) decoded)
        })"

definition read_trailer_bytes :: "pread_fun \<Rightarrow> nat \<Rightarrow> error + nat \<times> bytes" where
  "read_trailer_bytes fd block_end =
     (case PreadValue fd (sub64 block_end 8) of
        None \<Rightarrow> Inl (kIOError, ''Failed to read mini_trailer_size'')
      | Some mini_trailer_size \<Rightarrow>
          (case PreadValue fd (sub64 block_end 4) of
             None \<Rightarrow> Inl (kIOError, ''Failed to read block_magic'')
           | Some magic \<Rightarrow>
               if magic \<noteq> kBlockMagic then corrupt ''Invalid block magic''
               else case PreadBytes fd (sub64 block_end mini_trailer_size) mini_trailer_size of
                   None \<Rightarrow> Inl (kIOError, ''Failed to read block mini-trailer'')
                 | Some buf \<Rightarrow> Inr (mini_trailer_size, buf)))"

definition load_cluster ::
    "simd_build \<Rightarrow> pread_fun \<Rightarrow> rabitq_config \<Rightarrow> nat \<Rightarrow> nat \<Rightarrow> lookup_entry \<Rightarrow> (error + cluster_data) option" where
  "load_cluster build fd cfg version dim e =
     (let block_end = wrap64 (le_block_offset e + le_block_size e)
      in case read_trailer_bytes fd block_end of
           Inl err \<Rightarrow> Some (Inl err)
         | Inr (mini_trailer_size, buf) \<Rightarrow>
       (case parse_trailer ''Mini-trailer: failed to read V9 address table metadata'' version
               (le_num_records e) mini_trailer_size buf of
           Inl err \<Rightarrow> Some (Inl err)
         | Inr t \<Rightarrow>
             let codes_length = codes_bytes cfg version dim e t;
                 codes = (if 0 < codes_length then PreadBytes fd (le_block_offset e) codes_length else Some []);
                 default_payload = wrap64 (le_block_offset e + codes_length);
                 d = \<lparr>cd_codes_offset = le_block_offset e, cd_codes_length = codes_length,
                      cd_codes = the codes, cd_format = (if tr_raw t then V2RawTable else V1Packed),
                      cd_layout = (if tr_raw t then (tr_layout t)\<lparr>al_page_size := tr_page_size t\<rparr> else tr_layout t),
                      cd_blocks = [], cd_raw = [], cd_decoded = []\<rparr>
             in if codes = None then Some (Inl (kIOError, ''Failed to read codes buffer''))
                else if block_end < default_payload \<or> le_block_size e < codes_length then
                  Some (corrupt ''Cluster block shorter than RaBitQ code region'')
                else case regions_fit (le_block_size e) codes_length mini_trailer_size t of
                    Inl err \<Rightarrow> Some (Inl err)
                  | Inr _ \<Rightarrow>
                      if tr_raw t then load_raw fd e t d
                      else load_packed build fd e t default_payload d))"

definition EnsureClusterLoaded ::
    "simd_build \<Rightarrow> cluster_reader \<Rightarrow> nat \<Rightarrow> (cluster_reader \<times> status) option" where
  "EnsureClusterLoaded build r cluster_id =
     (case cr_fd r of
        None \<Rightarrow> Some (r, Inl (invalid ''ClusterStoreReader not open''))
      | Some fd \<Rightarrow>
          if cr_loaded r cluster_id \<noteq> None then Some (r, Inr ())
          else case cr_index r cluster_id of
              None \<Rightarrow> Some (r, Inl (invalid (''Cluster '' @ digits_of cluster_id @ '' not found'')))
            | Some i \<Rightarrow> do {
                loaded \<leftarrow> load_cluster build fd (cr_cfg r) (cr_version r) (cr_dim r) (cr_entry r i);
                Some (case loaded of
                    Inl err \<Rightarrow> (r, Inl err)
                  | Inr d \<Rightarrow> (r\<lparr>cr_loaded := (cr_loaded r)(cluster_id \<mapsto> d)\<rparr>, Inr ()))
              })"

definition UnloadCluster :: "cluster_reader \<Rightarrow> nat \<Rightarrow> cluster_reader \<times> status" where
  "UnloadCluster r cluster_id =
     (if cr_preloaded r then (r, Inr ())
      else (r\<lparr>cr_loaded := (cr_loaded r)(cluster_id := None)\<rparr>, Inr ()))"

section \<open>Addresses and codes of loaded clusters\<close>

definition GetAddress :: "cluster_reader \<Rightarrow> nat \<Rightarrow> nat \<Rightarrow> address_entry" where
  "GetAddress r cluster_id record_idx =
     (let none = \<lparr>ae_offset = 0, ae_size = 0\<rparr>
      in case cr_loaded r cluster_id of
           None \<Rightarrow> none
         | Some d \<Rightarrow>
             if cd_format d = V2RawTable then
               if length (cd_raw d) \<le> record_idx then none
               else DecodeRawEntryV2 (cd_raw d ! record_idx) (al_page_size (cd_layout d))
             else if length (cd_decoded d) \<le> record_idx then none
             else cd_decoded d ! record_idx)"

definition GetAddresses :: "cluster_reader \<Rightarrow> nat \<Rightarrow> nat list \<Rightarrow> address_entry list" where
  "GetAddresses r cluster_id indices = map (GetAddress r cluster_id) indices"

definition LoadCode :: "cluster_reader \<Rightarrow> nat \<Rightarrow> nat \<Rightarrow> u64 list status_or option" where
  "LoadCode r cluster_id record_idx =
     (if cr_fd r = None then Some (Inl (invalid ''ClusterStoreReader not open''))
      else case cr_loaded r cluster_id of
        None \<Rightarrow> Some (Inl (invalid (''Cluster not loaded '' @ [CHR 0xE2, CHR 0x80, CHR 0x94] @ '' call EnsureClusterLoaded first'')))
      | Some d \<Rightarrow>
          (case cr_index r cluster_id of
             None \<Rightarrow> Some (Inl (invalid ''Cluster not found''))
           | Some i \<Rightarrow>
               if le_num_records (cr_entry r i) \<le> record_idx then
                 Some (Inl (invalid ''Record index out of range''))
               else map_option Inr (UnpackSignBitsFromFastScan
                 (drop (record_idx div 32 * fastscan_block_bytes (cr_dim r)) (cd_codes d))
                 (record_idx mod 32) (cr_dim r))))"

definition popcount64 :: "u64 \<Rightarrow> nat" where
  "popcount64 w = length (filter (bit w) [0..<64])"

text \<open>What a fresh element of the output vector holds; \<open>LoadCodes\<close> keeps the members it does not set.\<close>

definition rabitq_code_new :: rabitq_code where
  "rabitq_code_new = \<lparr>qc_code = [], qc_norm = 0, qc_sum_x = 0, qc_bits = 1, qc_ex_code = [],
     qc_ex_sign = [], qc_xipnorm = 0, qc_sign_folded = False, qc_factor_add = 0, qc_factor_rescale = 0\<rparr>"

definition load_stage2 ::
    "simd_build \<Rightarrow> cluster_reader \<Rightarrow> lookup_entry \<Rightarrow> bytes \<Rightarrow> nat \<Rightarrow> rabitq_code
      \<Rightarrow> (error + rabitq_code) option" where
  "load_stage2 build r e buf idx code =
     (let cfg = cr_cfg r; version = cr_version r; dim = cr_dim r; region1 = region1_bytes dim e
      in if 0 < stage2_payload_bits cfg \<and> (11 \<le> version \<or> 0 < exrabitq_entry_size cfg version dim) then
           if 11 \<le> version then load_batch_code build cfg version dim buf region1 idx code
           else map_option Inr (load_legacy_code cfg version dim buf region1 idx code)
         else Some (Inr code))"

definition load_one ::
    "simd_build \<Rightarrow> cluster_reader \<Rightarrow> nat \<Rightarrow> lookup_entry \<Rightarrow> nat \<Rightarrow> rabitq_code
      \<Rightarrow> (error + rabitq_code) option" where
  "load_one build r cluster_id e idx out = do {
     loaded \<leftarrow> LoadCode r cluster_id idx;
     (case loaded of
        Inl err \<Rightarrow> Some (Inl err)
      | Inr code \<Rightarrow> do {
          d \<leftarrow> cr_loaded r cluster_id;
          norm \<leftarrow> rd_float (cd_codes d) (idx div 32 * fastscan_block_bytes (cr_dim r)
            + fastscan_packed_size (cr_dim r) + idx mod 32 * 4);
          load_stage2 build r e (cd_codes d) idx (out\<lparr>qc_code := code,
            qc_bits := active_code_bits (cr_cfg r), qc_norm := norm,
            qc_sum_x := foldl (\<lambda>n w. wrap32 (n + popcount64 w)) 0 code\<rparr>)
        })
   }"

text \<open>The codes for the first of several records; an error ends the loop.\<close>

fun load_all ::
    "(nat \<Rightarrow> rabitq_code \<Rightarrow> (error + rabitq_code) option) \<Rightarrow> (nat \<times> rabitq_code) list
      \<Rightarrow> (error + rabitq_code list) option" where
  "load_all load [] = Some (Inr [])"
| "load_all load ((idx, out) # rest) = do {
     first \<leftarrow> load idx out;
     (case first of
        Inl err \<Rightarrow> Some (Inl err)
      | Inr code \<Rightarrow> map_option (map_sum id (Cons code)) (load_all load rest))
   }"

definition LoadCodes ::
    "simd_build \<Rightarrow> cluster_reader \<Rightarrow> nat \<Rightarrow> nat list \<Rightarrow> rabitq_code list
      \<Rightarrow> (error + rabitq_code list) option" where
  "LoadCodes build r cluster_id indices out =
     (if cr_fd r = None then Some (Inl (invalid ''ClusterStoreReader not open''))
      else case cr_index r cluster_id of
        None \<Rightarrow> Some (Inl (invalid ''Cluster not found''))
      | Some i \<Rightarrow> load_all (load_one build r cluster_id (cr_entry r i))
          (zip indices (resize (length indices) rabitq_code_new out)))"

definition GetCodePtr :: "cluster_reader \<Rightarrow> nat \<Rightarrow> nat \<Rightarrow> ptr option" where
  "GetCodePtr r cluster_id record_idx =
     (case cr_loaded r cluster_id of
        None \<Rightarrow> None
      | Some d \<Rightarrow>
          let fb_bytes = fastscan_block_bytes (cr_dim r); offset = wrap32 (record_idx div 32 * fb_bytes)
          in if length (cd_codes d) < wrap32 (offset + fb_bytes) then None else Some (cd_codes d, offset))"

section \<open>Parsing a block in memory\<close>

text \<open>\<open>block\<close> is the pointer the caller passes.  The trailer is read inside the last
  \<open>mini_trailer_size\<close> bytes, the addresses are decoded from the table or the packed blocks.\<close>

definition view_trailer ::
    "nat \<Rightarrow> lookup_entry \<Rightarrow> ptr option \<Rightarrow> nat \<Rightarrow> (error + nat \<times> trailer) option" where
  "view_trailer version e block block_size = do {
     mini_trailer_size \<leftarrow> prd_nat block (block_size - 8);
     magic \<leftarrow> prd_nat block (block_size - 4);
     (if magic \<noteq> kBlockMagic then Some (corrupt ''Invalid block magic'')
      else if block_size < mini_trailer_size then Some (corrupt ''Mini-trailer size exceeds block'')
      else do {
        buf \<leftarrow> prd block (block_size - mini_trailer_size) mini_trailer_size;
        Some (res_bind (parse_trailer ''Mini-trailer: failed to read V9 address metadata'' version
            (le_num_records e) mini_trailer_size buf)
          (\<lambda>t. Inr (mini_trailer_size, t)))
      })
   }"

fun view_blocks :: "ptr option \<Rightarrow> addr_layout \<Rightarrow> (nat \<times> nat) list \<Rightarrow> nat \<Rightarrow> addr_block list option" where
  "view_blocks block layout [] pos = Some []"
| "view_blocks block layout ((i, base) # rest) pos = do {
     let packed_size = BlockPackedSize layout i;
     packed \<leftarrow> (if packed_size = 0 then Some [] else prd block pos packed_size);
     bs \<leftarrow> view_blocks block layout rest (pos + packed_size);
     Some (\<lparr>ab_base = base, ab_packed = packed\<rparr> # bs)
   }"

definition view_addresses ::
    "simd_build \<Rightarrow> lookup_entry \<Rightarrow> ptr option \<Rightarrow> nat \<Rightarrow> nat \<Rightarrow> nat \<Rightarrow> trailer
      \<Rightarrow> (error + address_entry list) option" where
  "view_addresses build e block block_size mini_trailer_size codes_length t =
     (if tr_raw t then
        if block_size - mini_trailer_size < tr_payload_offset t + tr_payload_bytes t then
          Some (corrupt ''V9 raw address payload exceeds block'')
        else map_option Inr (collect (\<lambda>i. map_option (\<lambda>x. DecodeRawEntryV2 x (tr_page_size t))
          (rd_raw (map_option (\<lambda>p. ptr_add p (tr_payload_offset t)) block) i)) [0..<le_num_records e])
      else do {
        blocks \<leftarrow> view_blocks block (tr_layout t) (zip [0..<length (tr_bases t)] (tr_bases t)) codes_length;
        DecodeBatchBlocks build (tr_layout t) blocks (le_num_records e)
      })"

text \<open>The members of the view that come from configuration and sizes.\<close>

definition ex_part_of ::
    "rabitq_config \<Rightarrow> nat \<Rightarrow> nat \<Rightarrow> lookup_entry \<Rightarrow> ptr \<Rightarrow> nat \<Rightarrow> ex_part" where
  "ex_part_of cfg version dim e region region2 =
     (let variable_ex = (15 \<le> version \<and> UsesVariableOfficialExDataLayout (effective_exdata_layout cfg))
      in \<lparr>ep_entries = (if 0 < exrabitq_entry_size cfg version dim then Some region else None),
          ep_entry_size = exrabitq_entry_size cfg version dim,
          ep_sign_bytes = exrabitq_sign_bytes cfg version dim,
          ep_sign_packed = (10 \<le> version), ep_version = version,
          ep_batch_blocks = (if 11 \<le> version \<and> 0 < stage2_payload_bits cfg then Some region else None),
          ep_batch_block_size = (if variable_ex then 0 else exrabitq_batch_block_size cfg version dim),
          ep_offsets = None, ep_region_bytes = region2, ep_variable = variable_ex,
          ep_batch_size = 8, ep_dim_block = 64, ep_num_dim_blocks = exrabitq_dim_block_count dim,
          ep_num_batch_blocks = exrabitq_num_batch_blocks (le_num_records e),
          ep_abs_bytes = exrabitq_abs_bytes_per_lane_dim_block cfg version,
          ep_mag_bits = stage2_payload_bits cfg, ep_mag_packed = exrabitq_magnitude_packed cfg version,
          ep_total_bits = effective_total_bits cfg, ep_ex_bits = stage2_payload_bits cfg,
          ep_mode = rc_mode cfg, ep_layout = effective_exdata_layout cfg\<rparr>)"

text \<open>The header of a variable region; a null region pointer is read through.\<close>

definition check_variable :: "ex_part \<Rightarrow> (error + ex_part) option" where
  "check_variable ex =
     (if \<not> ep_variable ex then Some (Inr ex)
      else if ep_region_bytes ex < 12 then Some (corrupt ''Variable ExRaBitQ region is too small'')
      else do {
        magic \<leftarrow> prd_nat (ep_batch_blocks ex) 0;
        stored \<leftarrow> prd_nat (ep_batch_blocks ex) 4;
        (if magic \<noteq> kVariableExRegionMagic \<or> stored \<noteq> ep_num_batch_blocks ex then
           Some (corrupt ''Variable ExRaBitQ region header mismatch'')
         else
           let table_bytes = 8 + wrap32 (stored + 1) * 4
           in if ep_region_bytes ex < table_bytes then
                Some (corrupt ''Variable ExRaBitQ offset table exceeds region'')
              else do {
                first_offset \<leftarrow> prd_nat (ep_batch_blocks ex) 8;
                last_offset \<leftarrow> prd_nat (ep_batch_blocks ex) (8 + stored * 4);
                Some (if first_offset \<noteq> table_bytes \<or> last_offset \<noteq> ep_region_bytes ex then
                    corrupt ''Variable ExRaBitQ offsets have invalid bounds''
                  else Inr (ex\<lparr>ep_offsets := map_option (\<lambda>p. ptr_add p 8) (ep_batch_blocks ex)\<rparr>))
              })
      })"

definition view_parsed ::
    "parsed_cluster \<Rightarrow> nat \<Rightarrow> lookup_entry \<Rightarrow> ptr \<Rightarrow> nat \<Rightarrow> nat \<Rightarrow> trailer \<Rightarrow> nat \<Rightarrow> ex_part
      \<Rightarrow> address_entry list \<Rightarrow> parsed_cluster" where
  "view_parsed out dim e block block_size mini_trailer_size t codes_length ex decoded =
     out\<lparr>pc_fastscan := Some block, pc_fastscan_size := fastscan_block_bytes dim,
       pc_num_fastscan := le_num_fastscan e, pc_ex := ex, pc_num_records := le_num_records e,
       pc_epsilon := le_epsilon e,
       pc_raw := (if tr_raw t then Some (ptr_add block (tr_payload_offset t)) else None),
       pc_page_size := tr_page_size t, pc_raw_v2 := tr_raw t, pc_decoded := decoded,
       pc_decoded_data := data_or_null decoded, pc_decoded_count := wrap32 (length decoded),
       pc_fastscan_offset := 0, pc_ex_offset := region1_bytes dim e, pc_code_bytes := codes_length,
       pc_addr_offset := (if tr_raw t then tr_payload_offset t else codes_length),
       pc_addr_bytes := trailer_payload t, pc_trailer_offset := block_size - mini_trailer_size,
       pc_trailer_size := mini_trailer_size, pc_codes_start := Some block, pc_code_entry_size := 0\<rparr>"

definition parse_block ::
    "simd_build \<Rightarrow> rabitq_config \<Rightarrow> nat \<Rightarrow> nat \<Rightarrow> lookup_entry \<Rightarrow> ptr \<Rightarrow> nat \<Rightarrow> parsed_cluster
      \<Rightarrow> (error + parsed_cluster) option" where
  "parse_block build cfg version dim e block block_size out = do {
     trailed \<leftarrow> view_trailer version e (Some block) block_size;
     (case trailed of
        Inl err \<Rightarrow> Some (Inl err)
      | Inr (mini_trailer_size, t) \<Rightarrow>
          let codes_length = codes_bytes cfg version dim e t
          in if block_size < codes_length then
               Some (corrupt ''Cluster block shorter than code regions'')
             else case regions_fit block_size codes_length mini_trailer_size t of
                 Inl err \<Rightarrow> Some (Inl err)
               | Inr _ \<Rightarrow> do {
                   addresses \<leftarrow> view_addresses build e (Some block) block_size mini_trailer_size codes_length t;
                   (case addresses of
                      Inl err \<Rightarrow> Some (Inl err)
                    | Inr decoded \<Rightarrow> do {
                        checked \<leftarrow> check_variable (ex_part_of cfg version dim e
                          (ptr_add block (region1_bytes dim e)) (region2_bytes cfg version dim e t));
                        Some (map_sum id (\<lambda>ex. view_parsed out dim e block block_size mini_trailer_size t
                          codes_length ex decoded) checked)
                      })
                 })
   }"

definition ParseClusterBlockView ::
    "simd_build \<Rightarrow> cluster_reader \<Rightarrow> nat \<Rightarrow> ptr option \<Rightarrow> nat \<Rightarrow> parsed_cluster
      \<Rightarrow> (error + parsed_cluster) option" where
  "ParseClusterBlockView build r cluster_id block block_size out =
     (case cr_index r cluster_id of
        None \<Rightarrow> Some (Inl (invalid (''Cluster '' @ digits_of cluster_id @ '' not found'')))
      | Some i \<Rightarrow>
          (case block of
             None \<Rightarrow> Some (Inl (invalid ''block_ptr is null''))
           | Some p \<Rightarrow>
               if block_size \<noteq> le_block_size (cr_entry r i) then Some (Inl (invalid ''block_size mismatch''))
               else if block_size < 8 then Some (corrupt ''Block too small for trailer footer'')
               else parse_block build (cr_cfg r) (cr_version r) (cr_dim r) (cr_entry r i) p block_size out))"

text \<open>The view owns the buffer it was made from.\<close>

definition ParseClusterBlock ::
    "simd_build \<Rightarrow> cluster_reader \<Rightarrow> nat \<Rightarrow> bytes option \<Rightarrow> nat \<Rightarrow> parsed_cluster
      \<Rightarrow> (error + parsed_cluster \<times> bytes option) option" where
  "ParseClusterBlock build r cluster_id block_buf block_size out =
     map_option (map_sum id (\<lambda>pc. (pc, block_buf)))
       (ParseClusterBlockView build r cluster_id (map_option (\<lambda>b. (b, 0)) block_buf) block_size out)"


end
