(* ===== verification/Cluster_Session.thy ===== *)
theory Cluster_Session
  imports Cluster_File Cluster_Reader
begin

text \<open>
  The cluster store from writer to reader: a reader that opens the file of \<open>Cluster_File\<close> finds the
  header and the lookup table, loads every cluster, and gets back the codes and the addresses that
  were written.
\<close>

section \<open>Reading a file that is there\<close>

definition reads_file :: "pread_fun \<Rightarrow> bytes \<Rightarrow> bool" where
  "reads_file fd img \<longleftrightarrow> (\<forall>pos n. fd pos n = Some (slice pos n img))"

lemma pread_exact_file:
  "reads_file fd img \<Longrightarrow> pos + n \<le> length img \<Longrightarrow> length img < 9223372036854775808
    \<Longrightarrow> pread_exact fd pos n = Some (slice pos n img)"
  by (simp add: pread_exact_def pread_at_def reads_file_def)

lemma PreadBytes_file:
  "reads_file fd img \<Longrightarrow> length img < 9223372036854775808 \<Longrightarrow> pos + n \<le> length img
    \<Longrightarrow> PreadBytes fd pos n = Some (slice pos n img)"
proof (induction fd pos n rule: PreadBytes.induct)
  case (1 fd pos n)
  show ?case
  proof (cases "n = 0")
    case True
    then show ?thesis by (simp add: PreadBytes.simps [of fd pos 0] slice_def)
  next
    case False
    define k where "k = min n kMaxChunk"
    have k: "k \<le> n" by (simp add: k_def)
    have ex: "pread_exact fd pos k = Some (slice pos k img)"
      by (rule pread_exact_file) (use "1.prems" k in auto)
    have "PreadBytes fd (pos + k) (n - k) = Some (slice (pos + k) (n - k) img)"
      using "1.IH" [OF False k_def ex] "1.prems" k by simp
    moreover have "slice pos k img @ slice (pos + k) (n - k) img = slice pos n img"
      using k by (simp add: slice_def take_add [symmetric] drop_drop [symmetric] add.commute del: drop_drop)
    ultimately show ?thesis
      using False ex by (simp add: PreadBytes.simps [of fd pos n] Let_def k_def [symmetric])
  qed
qed

lemma PreadValue_file:
  assumes "reads_file fd img" and "length img < 9223372036854775808"
    and "img = pre @ le_bytes 4 x @ post" and "x < 4294967296"
  shows "PreadValue fd (length pre) = Some x"
  using assms by (simp add: PreadValue_def pread_exact_file slice_def le_nat_le_bytes)

section \<open>Reading fields of a buffer\<close>

lemma rd_skip: "length xs \<le> off \<Longrightarrow> rd (xs @ ys) off n = rd ys (off - length xs) n"
  by (auto simp: rd_def slice_append_skip)

lemma rd_hit: "off + n \<le> length xs \<Longrightarrow> rd (xs @ ys) off n = rd xs off n"
  by (simp add: rd_def slice_append_hit)

lemma rd_self: "length xs = n \<Longrightarrow> rd xs 0 n = Some xs"
  by (auto simp: rd_def)

lemma rd_take: "off + n \<le> m \<Longrightarrow> rd (take m xs) off n = rd xs off n"
  by (auto simp: rd_def slice_def drop_take min_def)

lemma rd_nat_skip: "length xs \<le> off \<Longrightarrow> rd_nat (xs @ ys) off = rd_nat ys (off - length xs)"
  and rd_float_skip: "length xs \<le> off \<Longrightarrow> rd_float (xs @ ys) off = rd_float ys (off - length xs)"
  and rd_nat64_skip: "length xs \<le> off \<Longrightarrow> rd_nat64 (xs @ ys) off = rd_nat64 ys (off - length xs)"
  and rd_byte_skip: "length xs \<le> off \<Longrightarrow> rd_byte (xs @ ys) off = rd_byte ys (off - length xs)"
  by (simp_all add: rd_nat_def rd_float_def rd_nat64_def rd_byte_def rd_skip)

lemma rd_nat_here: "x < 4294967296 \<Longrightarrow> rd_nat (le_bytes 4 x @ ys) 0 = Some x"
  and rd_nat_last: "x < 4294967296 \<Longrightarrow> rd_nat (le_bytes 4 x) 0 = Some x"
  and rd_float_here: "rd_float (f32_bytes f @ ys) 0 = Some f"
  and rd_nat64_here: "y < 18446744073709551616 \<Longrightarrow> rd_nat64 (le_bytes 8 y @ ys) 0 = Some y"
  and rd_byte_here: "z < 256 \<Longrightarrow> rd_byte (le_bytes 1 z @ ys) 0 = Some z"
  using rd_nat_at [of x "[]" ys] rd_nat_at [of x "[]" "[]"] rd_float_at [of "[]" f ys]
    rd_at [of "le_bytes 8 y" 8 "[]" ys] rd_at [of "le_bytes 1 z" 1 "[]" ys]
  by (simp_all add: rd_nat64_def rd_byte_def le_nat_le_bytes unsigned_of_nat take_bit_eq_mod)

lemma rd_cons_skip:
  "0 < off \<Longrightarrow> rd_nat (b # ys) off = rd_nat ys (off - 1)"
  "0 < off \<Longrightarrow> rd_float (b # ys) off = rd_float ys (off - 1)"
  "0 < off \<Longrightarrow> rd_byte (b # ys) off = rd_byte ys (off - 1)"
  "rd_byte (b # ys) 0 = Some (unat b)"
  using rd_nat_skip [of "[b]" off ys] rd_float_skip [of "[b]" off ys] rd_byte_skip [of "[b]" off ys]
  by (simp_all add: rd_byte_def rd_def slice_def)

lemmas rd_fields = rd_nat_skip rd_float_skip rd_nat64_skip rd_byte_skip rd_nat_here rd_nat_last rd_float_here
  rd_nat64_here rd_byte_here

section \<open>The header\<close>

text \<open>The configurations the writer stores, as their fields read back.\<close>

definition config_stored :: "rabitq_config \<Rightarrow> nat \<Rightarrow> bool" where
  "config_stored c version \<longleftrightarrow>
     rc_bits c < 256 \<and> rc_total_bits c < 256 \<and> rc_ex_bits c < 256 \<and> rc_block_size c < 4294967296
     \<and> rc_storage_version c = version \<and> supported_version version \<and> 10 \<le> version
     \<and> (if 13 \<le> version then official_error c = None \<and> (version = 13 \<longrightarrow> rc_layout c = kGenericPacked)
        else rc_mode c = kLegacySignedMagnitude \<and> rc_total_bits c = rc_bits c
          \<and> rc_ex_bits c = (if 1 < rc_bits c then rc_bits c else 0) \<and> rc_layout c = kGenericPacked
          \<and> \<not> (12 \<le> version \<and> 1 < rc_bits c \<and> \<not> SupportsPackedStage2MagnitudeBits (rc_bits c)))"

lemma estimator_mode_byte: "RaBitQEstimatorModeFromByte (estimator_mode_code m) = m"
  by (cases m) (simp_all add: RaBitQEstimatorModeFromByte_def)

lemma small_codes: "estimator_mode_code m < 256" "ex_layout_code l < 256"
  by (cases m; simp) (cases l; simp)

lemma unat_small_byte: "x < 256 \<Longrightarrow> unat (of_nat x :: u8) = x"
  by (simp add: unsigned_of_nat take_bit_eq_mod)

lemma read_official_header:
  assumes "config_stored c version" and "13 \<le> version"
  shows "read_official version (header_prefix version num dim c @ rest)
      (c0\<lparr>rc_bits := rc_bits c, rc_block_size := rc_block_size c, rc_c_factor := rc_c_factor c,
        rc_storage_version := version\<rparr>) = Some (c, Inr (if version = 13 then 28 else 29))"
proof -
  have v: "version < 14 \<longleftrightarrow> version = 13" using assms(2) by auto
  have ok: "official_error c = None" "version = 13 \<longrightarrow> rc_layout c = kGenericPacked"
    using assms by (auto simp: config_stored_def)
  have c: "c0\<lparr>rc_bits := rc_bits c, rc_block_size := rc_block_size c, rc_c_factor := rc_c_factor c,
      rc_storage_version := version, rc_total_bits := rc_total_bits c, rc_ex_bits := rc_ex_bits c,
      rc_mode := rc_mode c, rc_layout := rc_layout c\<rparr> = c"
    using assms(1) by (cases c) (simp add: config_stored_def)
  have b: "rc_bits c < 256" "rc_total_bits c < 256" "rc_ex_bits c < 256" "rc_block_size c < 4294967296"
    using assms(1) by (auto simp: config_stored_def)
  have valid: "RaBitQExDataLayoutByteValid (ex_layout_code (rc_layout c))"
    using ex_layout_byte_valid_code by blast
  show ?thesis
  proof (cases "version = 13")
    case True
    then have "rc_layout c = kGenericPacked" using ok(2) by simp
    with c True ok(1) b show ?thesis
      by (simp add: read_official_def header_prefix_def rd_fields rd_cons_skip estimator_mode_byte
          unat_small_byte small_codes)
  next
    case False
    with assms(2) have "14 \<le> version" by simp
    with c False ok(1) b valid assms(2) v show ?thesis
      by (simp add: read_official_def header_prefix_def rd_fields rd_cons_skip estimator_mode_byte
          unat_small_byte small_codes)
  qed
qed

lemma read_config_header:
  assumes "config_stored c version"
  shows "read_config version (header_prefix version num dim c @ rest) c0
    = Some (c, Inr (length (header_prefix version num dim c)))"
proof -
  have b: "rc_bits c < 256" "rc_total_bits c < 256" "rc_ex_bits c < 256" "rc_block_size c < 4294967296"
    and v: "rc_storage_version c = version" "version < 256"
    using assms by (auto simp: config_stored_def supported_version_def)
  have head: "rd_byte (header_prefix version num dim c @ rest) 16 = Some (rc_bits c)"
    "rd_nat (header_prefix version num dim c @ rest) 17 = Some (rc_block_size c)"
    "rd_float (header_prefix version num dim c @ rest) 21 = Some (rc_c_factor c)"
    using b by (simp_all add: header_prefix_def rd_fields rd_cons_skip unat_small_byte)
  show ?thesis
  proof (cases "13 \<le> version")
    case True
    then show ?thesis
      using head v read_official_header [OF assms True, of num dim rest c0]
      by (simp add: read_config_def length_header_prefix)
  next
    case False
    have "c0\<lparr>rc_bits := rc_bits c, rc_block_size := rc_block_size c, rc_c_factor := rc_c_factor c,
        rc_storage_version := version, rc_mode := rc_mode c, rc_total_bits := rc_total_bits c,
        rc_ex_bits := rc_ex_bits c, rc_layout := rc_layout c\<rparr> = c"
      using v(1) by (cases c) simp
    moreover have "rc_mode c = kLegacySignedMagnitude" "rc_total_bits c = rc_bits c"
      "rc_ex_bits c = (if 1 < rc_bits c then rc_bits c else 0)" "rc_layout c = kGenericPacked"
      "\<not> (12 \<le> version \<and> 1 < rc_bits c \<and> \<not> SupportsPackedStage2MagnitudeBits (rc_bits c))"
      using assms False by (auto simp: config_stored_def)
    ultimately show ?thesis
      using head v(2) False by (simp add: read_config_def length_header_prefix)
  qed
qed

text \<open>What \<open>Open\<close> of the writer accepts is such a configuration.\<close>

lemma official_versions:
  assumes "uses_official_1_plus_n c"
  shows "EffectiveWriterFileVersion getenv c = 13 \<or> EffectiveWriterFileVersion getenv c = 14
    \<or> EffectiveWriterFileVersion getenv c = 15"
    and "EffectiveWriterFileVersion getenv c = 13 \<Longrightarrow> effective_exdata_layout c = kGenericPacked"
  using assms by (auto simp: EffectiveWriterFileVersion_def is_direct_iff split: if_splits)

lemma effective_version_cong:
  "uses_official_1_plus_n c' = uses_official_1_plus_n c \<Longrightarrow> effective_exdata_layout c' = effective_exdata_layout c
    \<Longrightarrow> (\<not> uses_official_1_plus_n c \<Longrightarrow> rc_bits c' = rc_bits c)
    \<Longrightarrow> EffectiveWriterFileVersion getenv c' = EffectiveWriterFileVersion getenv c"
  by (auto simp: EffectiveWriterFileVersion_def)

definition config_bounded :: "rabitq_config \<Rightarrow> bool" where
  "config_bounded c \<longleftrightarrow> rc_bits c < 256 \<and> rc_total_bits c < 256 \<and> rc_ex_bits c < 256 \<and> rc_block_size c < 4294967296"

lemma config_accepted_stored:
  assumes "config_accepted getenv cfg c version" and "config_bounded cfg"
  shows "config_stored c version"
proof -
  define cfg1 where "cfg1 = cfg\<lparr>rc_storage_version := wrap8 (EffectiveWriterFileVersion getenv cfg)\<rparr>"
  have norm: "normalise_config cfg1 = Inr c" and ver: "version = EffectiveWriterFileVersion getenv c"
    and pack: "\<not> (12 \<le> version \<and> \<not> uses_official_1_plus_n c \<and> 1 < rc_bits c
      \<and> \<not> SupportsPackedStage2MagnitudeBits (rc_bits c))"
    using assms(1) by (auto simp: config_accepted_def cfg1_def)
  have b: "rc_bits cfg < 256" "rc_total_bits cfg < 256" "rc_ex_bits cfg < 256" "rc_block_size cfg < 4294967296"
    using assms(2) by (auto simp: config_bounded_def)
  have eff1: "effective_exdata_layout cfg1 = effective_exdata_layout cfg"
    "uses_official_1_plus_n cfg1 = uses_official_1_plus_n cfg"
    by (simp_all add: cfg1_def effective_exdata_layout_def uses_official_1_plus_n_def)
  show ?thesis
  proof (cases "uses_official_1_plus_n cfg1")
    case True
    then have c: "c = cfg1\<lparr>rc_layout := effective_exdata_layout cfg1,
        rc_bits := (if 0 < rc_ex_bits cfg1 then rc_ex_bits cfg1 else 1)\<rparr>"
      and ok: "official_bits_valid cfg1" "SupportsOfficialExDataBits (rc_ex_bits cfg1)" "exdata_layout_valid cfg1"
      using norm by (auto simp: normalise_config_def split: if_splits)
    have off: "uses_official_1_plus_n c" using True by (simp add: c uses_official_1_plus_n_def)
    have eff: "effective_exdata_layout c = effective_exdata_layout cfg1"
      unfolding c using True by (rule effective_normalised)
    have ex: "rc_ex_bits c = rc_ex_bits cfg1" by (simp add: c)
    have sv: "EffectiveWriterFileVersion getenv c = EffectiveWriterFileVersion getenv cfg"
      by (rule effective_version_cong) (use off True eff eff1 in simp_all)
    have valid: "exdata_layout_valid c"
      using ok(3) True off unfolding exdata_layout_valid_def eff ex by simp
    have "official_bits_valid c" using ok(1) True by (simp add: official_bits_valid_def c)
    then have "official_error c = None"
      using off ok(2) valid ex by (simp add: official_error_def)
    moreover have "version = 13 \<Longrightarrow> rc_layout c = kGenericPacked"
      using official_versions(2) [OF off] ver eff by (simp add: c)
    ultimately show ?thesis
      using official_versions(1) [OF off, of getenv] ver sv b
      by (auto simp: config_stored_def supported_version_def c cfg1_def)
  next
    case False
    then have c: "c = cfg1\<lparr>rc_total_bits := rc_bits cfg1,
        rc_ex_bits := (if 1 < rc_bits cfg1 then rc_bits cfg1 else 0), rc_layout := kGenericPacked\<rparr>"
      using norm by (auto simp: normalise_config_def split: if_splits)
    have leg: "\<not> uses_official_1_plus_n c" using False by (simp add: c uses_official_1_plus_n_def)
    then have mode: "rc_mode c = kLegacySignedMagnitude"
      by (cases "rc_mode c") (simp_all add: uses_official_1_plus_n_def)
    have sv: "EffectiveWriterFileVersion getenv c = EffectiveWriterFileVersion getenv cfg"
      by (rule effective_version_cong)
        (use leg False eff1 in \<open>simp_all add: effective_exdata_layout_def c cfg1_def\<close>)
    have "EffectiveWriterFileVersion getenv c = EffectiveLegacyWriterFileVersion getenv (rc_bits c)"
      using leg by (simp add: EffectiveWriterFileVersion_def)
    then have r: "version = 10 \<or> version = 11 \<or> version = 12"
      unfolding ver by (auto simp: EffectiveLegacyWriterFileVersion_def Let_def split: option.splits)
    have st: "rc_storage_version c = version" using sv ver r by (auto simp: c cfg1_def)
    have eqs: "rc_total_bits c = rc_bits c" "rc_ex_bits c = (if 1 < rc_bits c then rc_bits c else 0)"
      "rc_layout c = kGenericPacked" "rc_bits c < 256" "rc_block_size c < 4294967296"
      using b by (simp_all add: c cfg1_def)
    from r show ?thesis using eqs st mode pack leg
      by (auto simp: config_stored_def supported_version_def)
  qed
qed


section \<open>The lookup table\<close>

definition entry_fits :: "nat \<Rightarrow> lookup_entry \<Rightarrow> bool" where
  "entry_fits dim e \<longleftrightarrow> le_cluster_id e < 4294967296 \<and> le_num_records e < 4294967296
     \<and> length (le_centroid e) = dim \<and> le_block_offset e < 18446744073709551616
     \<and> le_block_size e < 18446744073709551616 \<and> le_num_fastscan e < 4294967296
     \<and> le_ex_offset e < 4294967296"

lemma length_floats: "length (concat (map f32_bytes xs)) = length xs * 4"
  by (rule length_concat_map_uniform) simp

lemma read_entry_at:
  assumes "entry_fits dim e"
  shows "read_entry dim (pre @ lookup_entry_bytes e @ post) (length pre) = Some e"
proof -
  define C where "C = concat (map f32_bytes (le_centroid e))"
  define A where "A = le_bytes 4 (le_cluster_id e) @ le_bytes 4 (le_num_records e) @ f32_bytes (le_epsilon e)"
  define Z where "Z = le_bytes 8 (le_block_offset e) @ le_bytes 8 (le_block_size e)
     @ le_bytes 4 (le_num_fastscan e) @ le_bytes 4 (le_ex_offset e) @ post"
  have fits: "le_cluster_id e < 4294967296" "le_num_records e < 4294967296" "length (le_centroid e) = dim"
    "le_block_offset e < 18446744073709551616" "le_block_size e < 18446744073709551616"
    "le_num_fastscan e < 4294967296" "le_ex_offset e < 4294967296"
    using assms by (auto simp: entry_fits_def)
  have buf: "pre @ lookup_entry_bytes e @ post = pre @ A @ C @ Z"
    by (simp add: lookup_entry_bytes_def A_def C_def Z_def)
  have C: "length C = dim * 4" by (simp add: C_def length_floats fits)
  have A: "length A = 12" by (simp add: A_def)
  have c: "rd_float (pre @ A @ C @ Z) (length pre + 12 + i * 4) = Some (le_centroid e ! i)" if "i < dim" for i
    using rd_float_table [of i "le_centroid e" "pre @ A" Z] that fits(3) A by (simp add: C_def)
  have "collect (\<lambda>i. rd_float (pre @ A @ C @ Z) (length pre + 12 + i * 4)) [0..<dim]
      = Some (map ((!) (le_centroid e)) [0..<dim])"
    by (rule collect_eq) (simp add: c)
  then have cent: "collect (\<lambda>i. rd_float (pre @ A @ C @ Z) (length pre + 12 + i * 4)) [0..<dim] = Some (le_centroid e)"
    using map_nth [of "le_centroid e"] fits(3) by simp
  have front: "rd_nat (pre @ A @ C @ Z) (length pre) = Some (le_cluster_id e)"
    "rd_nat (pre @ A @ C @ Z) (length pre + 4) = Some (le_num_records e)"
    "rd_float (pre @ A @ C @ Z) (length pre + 8) = Some (le_epsilon e)"
    using fits by (simp_all add: A_def rd_fields)
  have tail: "rd_nat64 (pre @ A @ C @ Z) (length pre + 12 + dim * 4) = Some (le_block_offset e)"
    "rd_nat64 (pre @ A @ C @ Z) (length pre + 12 + dim * 4 + 8) = Some (le_block_size e)"
    "rd_nat (pre @ A @ C @ Z) (length pre + 12 + dim * 4 + 16) = Some (le_num_fastscan e)"
    "rd_nat (pre @ A @ C @ Z) (length pre + 12 + dim * 4 + 20) = Some (le_ex_offset e)"
    using fits by (simp_all add: rd_fields A C Z_def)
  show ?thesis unfolding buf read_entry_def front cent tail by simp
qed

lemma read_table_entries:
  assumes "\<forall>e \<in> set es. entry_fits dim e" and "dim < 67108864"
  shows "read_table (length es) dim (concat (map lookup_entry_bytes es)) = Some es"
proof -
  have len: "length (lookup_entry_bytes e) = entry_len dim" if "e \<in> set es" for e
    using assms(1) that by (simp add: length_lookup_entry_bytes entry_len_def entry_fits_def)
  have "read_entry dim (concat (map lookup_entry_bytes es)) (i * lookup_entry_size dim) = Some (es ! i)"
    if i: "i < length es" for i
  proof -
    define pre where "pre = concat (map lookup_entry_bytes (take i es))"
    have "concat (map lookup_entry_bytes es)
        = pre @ lookup_entry_bytes (es ! i) @ concat (map lookup_entry_bytes (drop (Suc i) es))"
      unfolding pre_def by (subst id_take_nth_drop [OF i]) simp
    moreover have "length pre = i * lookup_entry_size dim"
      unfolding pre_def entry_size_small [OF assms(2)]
      by (subst length_concat_map_uniform [of _ _ "entry_len dim"]) (use i len in \<open>auto dest: in_set_takeD\<close>)
    ultimately show ?thesis using read_entry_at [of dim "es ! i" pre] assms(1) i by simp
  qed
  then have "read_table (length es) dim (concat (map lookup_entry_bytes es)) = Some (map ((!) es) [0..<length es])"
    unfolding read_table_def by (intro collect_eq) simp
  then show ?thesis by (simp add: map_nth)
qed

lemma index_of_distinct:
  assumes "distinct (map le_cluster_id es)" and "k < length es"
  shows "index_of es (le_cluster_id (es ! k)) = Some k"
proof -
  define ids where "ids = map le_cluster_id es"
  have k: "k < length ids" and l: "length [0..<length es] = length ids" using assms(2) by (simp_all add: ids_def)
  have "(le_cluster_id (es ! k), k) \<in> set (rev (zip ids [0..<length es]))"
    using assms(2) by (auto simp: set_zip ids_def intro!: exI [of _ k])
  moreover have "distinct (map fst (rev (zip ids [0..<length es])))"
    using assms(1) by (simp add: rev_map [symmetric] ids_def)
  ultimately show ?thesis unfolding index_of_def ids_def by (rule map_of_is_SomeI [rotated])
qed

text \<open>Opening an image: header, path, table, and anything behind them.\<close>

definition opened :: "cluster_reader \<Rightarrow> pread_fun \<Rightarrow> nat \<Rightarrow> nat \<Rightarrow> rabitq_config \<Rightarrow> string \<Rightarrow> lookup_entry list \<Rightarrow> cluster_reader" where
  "opened r fd version dim cfg path es = r\<lparr>cr_fd := Some fd, cr_version := version,
     cr_info := (cr_info r)\<lparr>si_num_clusters := length es, si_dim := dim, si_config := cfg,
       si_data_path := path, si_lookup := es\<rparr>, cr_index := index_of es\<rparr>"

lemma open_table_entries:
  assumes fd: "reads_file fd img" "length img < 9223372036854775808"
    and img: "img = head @ concat (map lookup_entry_bytes es) @ rest" "length head < 4096"
    and es: "\<forall>e \<in> set es. entry_fits dim e" "dim < 67108864" "length es < 4294967296"
    and r: "si_num_clusters (cr_info r) = length es" "cr_dim r = dim" and alloc: "\<forall>i. alloc i"
  shows "open_table alloc fd r (length head) = Some (r\<lparr>cr_info := (cr_info r)\<lparr>si_lookup := es\<rparr>,
    cr_index := index_of es\<rparr>, Inr ())"
proof -
  define T where "T = concat (map lookup_entry_bytes es)"
  have "length (lookup_entry_bytes e) = entry_len dim" if "e \<in> set es" for e
    using es(1) that by (simp add: length_lookup_entry_bytes entry_len_def entry_fits_def)
  then have T: "length T = length es * lookup_entry_size dim"
    unfolding T_def entry_size_small [OF es(2)] by (subst length_concat_map_uniform [of _ _ "entry_len dim"]) auto
  have fits: "length head + length T \<le> length img" by (simp add: img(1) T_def)
  then have small: "length T < 9223372036854775808" "length head + length T < 9223372036854775808" using fd(2) by simp_all
  define a where "a = unat (RoundUp4K (of_nat (length head + length T)))"
  have a: "length head + length T \<le> a" unfolding a_def pad4k_round [OF small(2)] by simp
  have got: "pread_at fd 0 a = Some (take a img)" using fd(1) by (simp add: pread_at_def reads_file_def slice_def)
  have cnt: "\<not> pread_count (pread_at fd 0 a) < ssize (length head + length T)"
    using a fits small(2) by (simp add: got pread_count_def ssize_def)
  have "rd (take a img) (length head) (length T) = Some T"
    using a by (simp add: rd_take) (simp add: img(1) T_def [symmetric] rd_at)
  moreover have "read_table (length es) dim T = Some es"
    unfolding T_def by (rule read_table_entries [OF es(1,2)])
  ultimately have table: "do { buf \<leftarrow> pread_at fd 0 a; table \<leftarrow> rd buf (length head) (length T);
      entries \<leftarrow> read_table (length es) dim table; Some (f entries) } = Some (f es)"
    for f :: "lookup_entry list \<Rightarrow> cluster_reader \<times> status"
    by (simp add: got)
  have w: "wrap64 (length es * lookup_entry_size dim) = length T" "wrap64 (length T + length head) = length head + length T"
    using small by (simp_all add: T [symmetric])
  show ?thesis
    unfolding open_table_def Let_def r w a_def [symmetric] using alloc cnt table by simp
qed


lemma string_bytes_back: "string_of_bytes (string_bytes s) = s"
proof -
  have "string_bytes s = bytes_of_string s" by (simp add: string_bytes_def bytes_of_string_def of_nat_of_char)
  then show ?thesis by simp
qed

lemma open_image:
  assumes fd: "reads_file fd img" "length img < 9223372036854775808" "4096 \<le> length img"
    and img: "img = header_prefix version (length es) dim c @ path_field path @ concat (map lookup_entry_bytes es) @ rest"
    and stored: "config_stored c version" and dim: "dim < 67108864" and num: "length es < 4294967296"
    and path: "length path \<le> 256" and es: "\<forall>e \<in> set es. entry_fits dim e"
    and r: "cr_fd r = None" and alloc: "\<forall>i. alloc i"
  shows "cr_Open alloc r name (Some fd) = Some (opened r fd version dim c path es, Inr ())"
proof -
  define P where "P = header_prefix version (length es) dim c"
  have P: "length P \<le> 29" "25 \<le> length P" by (simp_all add: P_def length_header_prefix)
  define tail where "tail = take (4096 - length P - 260) (concat (map lookup_entry_bytes es) @ rest)"
  define hdr where "hdr = P @ path_field path @ tail"
  have hdr: "take 4096 img = hdr" using P path by (simp add: img hdr_def P_def [symmetric] tail_def)
  have got: "pread_at fd 0 4096 = Some hdr"
    using fd(1) by (simp add: pread_at_def reads_file_def slice_def hdr)
  have len: "length hdr = 4096" using hdr fd(3) by (metis length_take min.absorb2)
  have ver: "supported_version version" "version < 4294967296"
    using stored by (auto simp: config_stored_def supported_version_def)
  have fields: "rd_nat hdr 0 = Some kGlobalMagic" "rd_nat hdr 4 = Some version"
    "rd_nat hdr 8 = Some (length es)" "rd_nat hdr 12 = Some dim"
    using ver(2) dim num by (simp_all add: hdr_def P_def header_prefix_def rd_fields kGlobalMagic_def)
  have cfg: "read_config version hdr c0 = Some (c, Inr (length P))" for c0
    unfolding hdr_def P_def by (rule read_config_header [OF stored])
  have plen: "rd_nat hdr (length P) = Some (length path)"
    using path by (simp add: hdr_def path_field_def rd_fields)
  have p: "rd hdr (length P + 4) (length path) = Some (string_bytes path)"
    unfolding hdr_def path_field_def
    using rd_at [of "string_bytes path" "length path" "P @ le_bytes 4 (length path)"]
    by (simp add: string_bytes_def)
  define r2 where "r2 = r\<lparr>cr_fd := Some fd, cr_version := version, cr_info := (cr_info r)\<lparr>
    si_num_clusters := length es, si_dim := dim, si_config := c, si_data_path := path\<rparr>\<rparr>"
  define head where "head = P @ path_field path"
  have head: "length head = length P + 4 + kMaxPathLen" "length head < 4096"
    using P path by (simp_all add: head_def kMaxPathLen_def)
  have "open_table alloc fd r2 (length head) = Some (r2\<lparr>cr_info := (cr_info r2)\<lparr>si_lookup := es\<rparr>,
      cr_index := index_of es\<rparr>, Inr ())"
    by (rule open_table_entries [OF fd(1,2) _ head(2) es dim num _ _ alloc, where rest = rest])
      (simp_all add: img head_def P_def r2_def cr_dim_def)
  then have table: "open_table alloc fd r2 (length P + 4 + kMaxPathLen) = Some (opened r fd version dim c path es, Inr ())"
    unfolding head(1) [symmetric] by (simp add: opened_def r2_def)
  then have table: "open_table alloc fd (r\<lparr>cr_fd := Some fd, cr_version := version, cr_info := (cr_info r)\<lparr>
      si_num_clusters := length es, si_dim := dim, si_config := c, si_data_path := path\<rparr>\<rparr>) (length P + 4 + kMaxPathLen)
    = Some (opened r fd version dim c path es, Inr ())" by (simp only: r2_def)
  have magic: "\<not> kMaxPathLen < length path" using path by (simp add: kMaxPathLen_def)
  have "open_header alloc fd (r\<lparr>cr_fd := Some fd\<rparr>) hdr = Some (opened r fd version dim c path es, Inr ())"
    unfolding open_header_def fields
    using ver(1) magic table by (simp add: cfg plen p string_bytes_back)
  then show ?thesis using r alloc got len by (simp add: cr_Open_def pread_count_def)
qed

section \<open>The image of a store\<close>

text \<open>Where the \<open>k\<close>-th block lies.\<close>

fun block_start :: "simd_build \<Rightarrow> rabitq_config \<Rightarrow> nat \<Rightarrow> nat \<Rightarrow> nat \<Rightarrow> cluster_input list \<Rightarrow> nat \<Rightarrow> nat" where
  "block_start build cfg version dim start [] k = start"
| "block_start build cfg version dim start (ci # cis) 0 = start"
| "block_start build cfg version dim start (ci # cis) (Suc k) =
     block_start build cfg version dim (start + length (padded_block build cfg version dim start ci)) cis k"

lemma entries_image_nth:
  "k < length cis \<Longrightarrow> entries_image build cfg version dim start cis ! k =
    entry_image build cfg version dim (block_start build cfg version dim start cis k) (cis ! k)"
  by (induction build cfg version dim start cis k rule: block_start.induct) simp_all

lemma body_image_block:
  "k < length cis \<Longrightarrow> \<exists>pre post. body_image build cfg version dim start cis =
      pre @ block_image build cfg version dim (cis ! k) @ post
    \<and> start + length pre = block_start build cfg version dim start cis k"
proof (induction build cfg version dim start cis k rule: block_start.induct)
  case (2 build cfg version dim start ci cis)
  have "body_image build cfg version dim start (ci # cis) =
      [] @ block_image build cfg version dim ci @ drop (length (block_image build cfg version dim ci))
        (body_image build cfg version dim start (ci # cis))"
    by (simp add: Let_def padded_block_def)
  then show ?case by (metis add_0_right block_start.simps(2) list.size(3) nth_Cons_0)
next
  case (3 build cfg version dim start ci cis k)
  define b where "b = padded_block build cfg version dim start ci"
  obtain pre post where "body_image build cfg version dim (start + length b) cis =
      pre @ block_image build cfg version dim (cis ! k) @ post"
    "start + length b + length pre = block_start build cfg version dim (start + length b) cis k"
    using 3 by (auto simp: b_def)
  then have "body_image build cfg version dim start (ci # cis) =
      (b @ pre) @ block_image build cfg version dim ((ci # cis) ! Suc k) @ post
    \<and> start + length (b @ pre) = block_start build cfg version dim start (ci # cis) (Suc k)"
    by (simp add: Let_def b_def add.assoc)
  then show ?case by blast
qed simp


section \<open>The trailer\<close>

definition raw_trailer :: "nat \<Rightarrow> nat \<Rightarrow> nat \<Rightarrow> trailer" where
  "raw_trailer page_size n off = \<lparr>tr_raw = True, tr_page_size = page_size, tr_layout = addr_layout_new,
     tr_bases = [], tr_payload_offset = off, tr_payload_bytes = n * 8\<rparr>"

lemma read_fields_le:
  "x < 256 ^ n \<Longrightarrow> read_fields (n # ns) (le_bytes n x @ rest) =
    map_option (\<lambda>(xs, rest'). (x # xs, rest')) (read_fields ns rest)"
  by (simp add: le_nat_le_bytes map_option_case split: option.splits prod.splits)

lemma parse_block_tail:
  assumes "9 \<le> version" and "page_size < 4294967296" and "n < 268435456" and "off < 4294967296"
  shows "parse_trailer msg version n 32 (block_tail page_size n off) = Inr (raw_trailer page_size n off)"
proof -
  have tail: "block_tail page_size n off = le_bytes 4 kAddressFormatV2 @ le_bytes 4 page_size @ le_bytes 4 8
      @ le_bytes 4 n @ le_bytes 4 off @ le_bytes 4 (n * 8) @ le_bytes 4 32 @ le_bytes 4 kBlockMagic @ []"
    using assms(3) by (simp add: block_tail_def trailer_bytes_def)
  have foot: "read_footer 32 (le_bytes 4 32 @ le_bytes 4 kBlockMagic @ []) = Inr ()"
    unfolding read_footer_def
    by (subst read_fields_le, simp, subst read_fields_le) (simp_all add: kBlockMagic_def)
  have "read_fields [4, 4, 4, 4, 4, 4] (block_tail page_size n off) =
      Some ([kAddressFormatV2, page_size, 8, n, off, n * 8], le_bytes 4 32 @ le_bytes 4 kBlockMagic @ [])"
    unfolding tail using assms
    by (subst read_fields_le, simp add: kAddressFormatV2_def, subst read_fields_le, simp, subst read_fields_le, simp,
        subst read_fields_le, simp, subst read_fields_le, simp, subst read_fields_le, simp) simp
  then show ?thesis
    using assms(1) foot
    by (simp add: parse_trailer_def read_raw_trailer_def raw_trailer_def bad_granularity_def)
qed

section \<open>The raw address table\<close>

definition raw_fits :: "raw_entry \<Rightarrow> bool" where
  "raw_fits e \<longleftrightarrow> re_offset_pages e < 4294967296 \<and> re_size_pages e < 4294967296"

lemma raw_entry_bytes:
  assumes "raw_fits e"
  shows "raw_entry_of (le_bytes 4 (re_offset_pages e) @ le_bytes 4 (re_size_pages e)) = e"
  using assms by (cases e) (simp add: raw_entry_of_def raw_fits_def le_nat_le_bytes)

lemma slice_raw_bytes:
  assumes "i < length es"
  shows "slice (8 * i) 8 (raw_bytes es) = le_bytes 4 (re_offset_pages (es ! i)) @ le_bytes 4 (re_size_pages (es ! i))"
proof -
  have "slice (i * 8) 8 (raw_bytes es) = le_bytes 4 (re_offset_pages (es ! i)) @ le_bytes 4 (re_size_pages (es ! i))"
    unfolding raw_bytes_def by (rule slice_concat_map) (use assms in simp_all)
  then show ?thesis by (simp only: mult.commute)
qed

lemma raw_entries_back:
  assumes "\<forall>e \<in> set es. raw_fits e"
  shows "raw_entries_of (length es) (raw_bytes es) = es"
proof -
  have "raw_entries_of (length es) (raw_bytes es) = map ((!) es) [0..<length es]"
    unfolding raw_entries_of_def using assms by (auto simp: slice_raw_bytes raw_entry_bytes)
  then show ?thesis by (simp add: map_nth)
qed

section \<open>Loading a block\<close>

lemma load_block:
  assumes fd: "reads_file fd img" "length img < 9223372036854775808"
    and img: "img = pre @ code @ raw_bytes es @ block_tail page (length es) (length code) @ post"
    and es: "\<forall>e \<in> set es. raw_fits e" "length es < 268435456" and page: "page < 4294967296"
    and code: "length code + length es * 8 + 32 < 4294967296" and version: "9 \<le> version"
    and e: "le_block_offset e = length pre" "le_block_size e = length code + length es * 8 + 32"
      "le_num_records e = length es"
    and codes: "codes_bytes cfg version dim e (raw_trailer page (length es) (length code)) = length code"
  shows "load_cluster build fd cfg version dim e = Some (Inr \<lparr>cd_codes_offset = length pre,
     cd_codes_length = length code, cd_codes = code, cd_format = V2RawTable,
     cd_layout = addr_layout_new\<lparr>al_page_size := page\<rparr>, cd_blocks = [], cd_raw = es,
     cd_decoded = map (\<lambda>x. DecodeRawEntryV2 x page) es\<rparr>)"
proof -
  define t where "t = raw_trailer page (length es) (length code)"
  define head where "head = pre @ code @ raw_bytes es"
  have head: "length head = length pre + length code + length es * 8"
    by (simp add: head_def length_raw_bytes)
  have img2: "img = head @ block_tail page (length es) (length code) @ post" by (simp add: head_def img)
  have bound: "length head + 32 \<le> length img" by (simp add: img2)
  define stop where "stop = wrap64 (le_block_offset e + le_block_size e)"
  have stop: "stop = length head + 32" using bound fd(2) by (simp add: stop_def e head)
  have sub: "sub64 stop 8 = length head + 24" "sub64 stop 4 = length head + 28" "sub64 stop 32 = length head"
    using stop bound fd(2) by (simp_all add: sub64_small)
  have pv1: "PreadValue fd (length head + 24) = Some 32"
    using PreadValue_file [OF fd, of "head @ trailer_bytes page (length es) (length code)" 32 "le_bytes 4 kBlockMagic @ post"]
    by (simp add: img2 block_tail_def)
  have pv2: "PreadValue fd (length head + 28) = Some kBlockMagic"
    using PreadValue_file [OF fd, of "head @ trailer_bytes page (length es) (length code) @ le_bytes 4 32" kBlockMagic post]
    by (simp add: img2 block_tail_def kBlockMagic_def)
  have pt: "PreadBytes fd (length head) 32 = Some (block_tail page (length es) (length code))"
    using PreadBytes_file [OF fd bound] slice_here [of head "block_tail page (length es) (length code)" post]
    by (simp add: img2)
  have tr: "read_trailer_bytes fd stop = Inr (32, block_tail page (length es) (length code))"
    by (simp add: read_trailer_bytes_def sub pv1 pv2 pt)
  have parsed: "parse_trailer msg version (le_num_records e) 32 (block_tail page (length es) (length code)) = Inr t" for msg
    unfolding t_def e(3) by (rule parse_block_tail) (use version page es code in simp_all)
  have cb: "PreadBytes fd (length pre) (length code) = Some code"
    using PreadBytes_file [OF fd, of "length pre" "length code"] by (simp add: img slice_here)
  have codes_read: "(if 0 < length code then PreadBytes fd (length pre) (length code) else Some []) = Some code"
    using cb by auto
  have dp: "wrap64 (length pre + length code) = length pre + length code"
    using bound fd(2) head by simp
  have rf: "regions_fit (le_block_size e) (length code) 32 t = Inr ()"
    by (simp add: regions_fit_def e t_def trailer_payload_def raw_trailer_def)
  have rb: "PreadBytes fd (length pre + length code) (length es * 8) = Some (raw_bytes es)"
    using PreadBytes_file [OF fd, of "length pre + length code" "length es * 8"] slice_here [of "pre @ code" "raw_bytes es"]
    by (simp add: img length_raw_bytes)
  define d where "d = \<lparr>cd_codes_offset = length pre, cd_codes_length = length code, cd_codes = code,
     cd_format = V2RawTable, cd_layout = addr_layout_new\<lparr>al_page_size := page\<rparr>, cd_blocks = [], cd_raw = [],
     cd_decoded = []\<rparr>"
  have raw: "load_raw fd e t d = Some (Inr (d\<lparr>cd_raw := es, cd_decoded := map (\<lambda>x. DecodeRawEntryV2 x page) es\<rparr>))"
  proof (cases "es = []")
    case True
    then show ?thesis by (simp add: load_raw_def t_def raw_trailer_def e raw_entries_of_def)
  next
    case False
    then show ?thesis using rb dp raw_entries_back [OF es(1)]
      by (simp add: load_raw_def t_def raw_trailer_def e length_raw_bytes Let_def)
  qed
  have fits: "\<not> (stop < length pre + length code \<or> le_block_size e < length code)"
    by (simp add: stop head e)
  have tf: "tr_raw t" "tr_layout t = addr_layout_new" "tr_page_size t = page"
    by (simp_all add: t_def raw_trailer_def)
  show ?thesis
    unfolding load_cluster_def Let_def stop_def [symmetric] tr sum.case prod.case parsed codes [folded t_def]
    unfolding e(1) codes_read dp
    using raw fits rf by (simp add: tf d_def)
qed


section \<open>The codes of a loaded cluster\<close>

lemma drop_concat_map:
  assumes "\<And>x. x \<in> set xs \<Longrightarrow> length (f x) = n" and "i < length xs"
  shows "drop (i * n) (concat (map f xs)) = f (xs ! i) @ concat (map f (drop (Suc i) xs))"
proof -
  have "concat (map f xs) = concat (map f (take i xs)) @ f (xs ! i) @ concat (map f (drop (Suc i) xs))"
    by (subst id_take_nth_drop [OF assms(2)]) simp
  moreover have "length (concat (map f (take i xs))) = i * n"
    by (subst length_concat_map_uniform [of _ _ n]) (use assms in \<open>auto dest: in_set_takeD\<close>)
  ultimately show ?thesis by simp
qed

text \<open>The words that come back: the signs of the dimensions in full groups of four.\<close>

definition sign_words :: "nat \<Rightarrow> u64 list \<Rightarrow> u64 list" where
  "sign_words dim ws = map (\<lambda>i. take_bit (dim div 4 * 4 - i * 64) (ws ! i)) [0..<(dim + 63) div 64]"

lemma sign_words_eq:
  assumes "length words = (dim + 63) div 64"
    and "\<forall>d < 64 * length words. code_bit words d \<longleftrightarrow> d < dim div 4 * 4 \<and> code_bit ws d"
  shows "words = sign_words dim ws"
proof (rule nth_equalityI)
  show "length words = length (sign_words dim ws)" using assms(1) by (simp add: sign_words_def)
next
  fix i assume i: "i < length words"
  show "words ! i = sign_words dim ws ! i"
  proof (rule bit_word_eqI)
    fix j assume "j < LENGTH(64)"
    then have j: "j < 64" by simp
    have d: "(64 * i + j) div 64 = i" "(64 * i + j) mod 64 = j" "64 * i + j < 64 * length words"
      using j i by simp_all
    have "bit (words ! i) j \<longleftrightarrow> 64 * i + j < dim div 4 * 4 \<and> bit (ws ! i) j"
      using assms(2) [rule_format, OF d(3)] unfolding code_bit_def d(1,2) .
    moreover have "64 * i + j < dim div 4 * 4 \<longleftrightarrow> j < dim div 4 * 4 - i * 64" by linarith
    ultimately show "bit (words ! i) j = bit (sign_words dim ws ! i) j"
      using i assms(1) by (simp add: sign_words_def bit_take_bit_iff)
  qed
qed

lemma fastscan_block_parts:
  assumes "fastscan_block dim codes = Some b"
  shows "\<exists>z. b = pack_pairs (map qc_code codes) (length codes) dim @ z
      @ concat (map f32_bytes (map qc_norm codes @ replicate (32 - length codes) 0))"
    and "\<exists>packed. b = packed @ concat (map f32_bytes (map qc_norm codes @ replicate (32 - length codes) 0))
      \<and> PackSignBitsForFastScan (map qc_code codes) (length codes) dim = Some packed"
proof -
  obtain packed where p: "PackSignBitsForFastScan (map qc_code codes) (length codes) dim = Some packed"
    "b = packed @ concat (map f32_bytes (map qc_norm codes @ replicate (32 - length codes) 0))"
    using assms by (auto simp: fastscan_block_def bind_eq_Some_conv)
  then have "\<exists>z. packed = pack_pairs (map qc_code codes) (length codes) dim @ z"
    unfolding PackSignBitsForFastScan_def pack_pairs_def Let_def by (auto split: if_splits)
  then show "\<exists>z. b = pack_pairs (map qc_code codes) (length codes) dim @ z
      @ concat (map f32_bytes (map qc_norm codes @ replicate (32 - length codes) 0))"
    using p(2) by auto
  show "\<exists>packed. b = packed @ concat (map f32_bytes (map qc_norm codes @ replicate (32 - length codes) 0))
      \<and> PackSignBitsForFastScan (map qc_code codes) (length codes) dim = Some packed"
    using p by blast
qed

text \<open>Block \<open>b\<close> of a region: its packed signs, then its norms.\<close>

lemma region_block:
  assumes b: "b < (length codes + 31) div 32" and dim: "dim < 67108864"
    and codes: "\<forall>c \<in> set codes. dim div 4 * 4 \<le> length (qc_code c) * 64"
  shows "\<exists>pre z post. fastscan_region dim codes = pre
      @ (pack_pairs (map qc_code (slice (b * 32) 32 codes)) (length (slice (b * 32) 32 codes)) dim @ z)
      @ concat (map f32_bytes (map qc_norm (slice (b * 32) 32 codes)
          @ replicate (32 - length (slice (b * 32) 32 codes)) 0)) @ post
    \<and> length pre = b * fastscan_block_bytes dim
    \<and> length (pack_pairs (map qc_code (slice (b * 32) 32 codes)) (length (slice (b * 32) 32 codes)) dim @ z)
      = fastscan_packed_size dim"
proof -
  define part where "part = slice (b * 32) 32 codes"
  define S where "S = fastscan_block_bytes dim"
  define block where "block i = the (fastscan_block dim (slice (i * 32) 32 codes))" for i
  define nb where "nb = (length codes + 31) div 32"
  have nb: "b < nb" using b by (simp add: nb_def)
  have each: "fastscan_block dim (slice (i * 32) 32 codes) = Some (block i)" and blen: "length (block i) = S" for i
  proof -
    have "\<forall>c \<in> set (slice (i * 32) 32 codes). dim div 4 * 4 \<le> length (qc_code c) * 64"
      using codes by (auto simp: slice_def dest: in_set_takeD in_set_dropD)
    moreover have l: "length (slice (i * 32) 32 codes) \<le> 32" by simp
    ultimately show b: "fastscan_block dim (slice (i * 32) 32 codes) = Some (block i)"
      unfolding block_def using fastscan_block_Some by force
    show "length (block i) = S"
      using length_fastscan_block [OF b l] dim by (simp add: S_def fastscan_sizes)
  qed
  have region: "fastscan_region dim codes = concat (map block [0..<nb])"
    unfolding fastscan_region_def block_def [abs_def] nb_def ..
  have split: "[0..<nb] = [0..<b] @ b # [Suc b..<nb]" using nb by (metis le_add1 upt_add_eq_append upt_conv_Cons le_Suc_ex less_imp_le add_0)
  define pre where "pre = concat (map block [0..<b])"
  define post where "post = concat (map block [Suc b..<nb])"
  have whole: "fastscan_region dim codes = pre @ block b @ post"
    unfolding region split by (simp add: pre_def post_def)
  have pre: "length pre = b * S"
    unfolding pre_def by (subst length_concat_map_uniform [of _ _ S]) (simp_all add: blen)
  have fb: "fastscan_block dim part = Some (block b)" using each by (simp add: part_def)
  obtain z where z: "block b = (pack_pairs (map qc_code part) (length part) dim @ z)
      @ concat (map f32_bytes (map qc_norm part @ replicate (32 - length part) 0))"
    using fastscan_block_parts(1) [OF fb] by auto
  have "length (concat (map f32_bytes (map qc_norm part @ replicate (32 - length part) 0))) = 128"
    unfolding length_floats by (simp add: part_def)
  then have "length (pack_pairs (map qc_code part) (length part) dim @ z) = fastscan_packed_size dim"
    using arg_cong [OF z, of length] blen [of b] dim
    by (simp add: S_def fastscan_block_bytes_def fastscan_packed_size_def)
  then show ?thesis using whole pre z unfolding part_def [symmetric] S_def [symmetric]
    by (intro exI [of _ pre] exI [of _ z] exI [of _ post]) simp
qed

lemma record_in_region:
  assumes idx: "idx < length codes" and dim: "dim < 67108864"
    and codes: "\<forall>c \<in> set codes. dim div 4 * 4 \<le> length (qc_code c) * 64"
  shows "UnpackSignBitsFromFastScan (drop (idx div 32 * fastscan_block_bytes dim) (fastscan_region dim codes @ rest))
      (idx mod 32) dim = Some (sign_words dim (qc_code (codes ! idx)))"
    and "rd_float (fastscan_region dim codes @ rest) (idx div 32 * fastscan_block_bytes dim
      + fastscan_packed_size dim + idx mod 32 * 4) = Some (qc_norm (codes ! idx))"
proof -
  define b where "b = idx div 32"
  define part where "part = slice (b * 32) 32 codes"
  have b: "b < (length codes + 31) div 32" using idx by (auto simp: b_def)
  have v: "idx mod 32 < length part" "part ! (idx mod 32) = codes ! idx" "length part \<le> 32"
  proof -
    have i: "b * 32 + idx mod 32 = idx" by (simp add: b_def)
    then show lt: "idx mod 32 < length part" using idx by (simp add: part_def)
    show "part ! (idx mod 32) = codes ! idx" using i idx by (simp add: part_def nth_slice)
    show "length part \<le> 32" by (simp add: part_def)
  qed
  obtain pre z post where z: "fastscan_region dim codes = pre @ (pack_pairs (map qc_code part) (length part) dim @ z)
      @ concat (map f32_bytes (map qc_norm part @ replicate (32 - length part) 0)) @ post"
      "length pre = b * fastscan_block_bytes dim"
      "length (pack_pairs (map qc_code part) (length part) dim @ z) = fastscan_packed_size dim"
    using region_block [OF b dim codes] unfolding part_def by blast
  define more where "more = z @ concat (map f32_bytes (map qc_norm part @ replicate (32 - length part) 0)) @ post @ rest"
  have d: "drop (b * fastscan_block_bytes dim) (fastscan_region dim codes @ rest)
      = pack_pairs (map qc_code part) (length part) dim @ more"
    using z(1,2) by (simp add: more_def)
  obtain words where w: "UnpackSignBitsFromFastScan (pack_pairs (map qc_code part) (length part) dim @ more) (idx mod 32) dim
      = Some words" "length words = (dim + 63) div 64"
    "\<forall>d < 64 * length words. code_bit words d \<longleftrightarrow> d < dim div 4 * 4 \<and> code_bit (map qc_code part ! (idx mod 32)) d"
    using unpack_packed [OF v(3,1), of "map qc_code part" dim more] by blast
  have "map qc_code part ! (idx mod 32) = qc_code (codes ! idx)" using v by simp
  then have "words = sign_words dim (qc_code (codes ! idx))" using sign_words_eq [OF w(2)] w(3) by simp
  then show "UnpackSignBitsFromFastScan (drop (idx div 32 * fastscan_block_bytes dim) (fastscan_region dim codes @ rest))
      (idx mod 32) dim = Some (sign_words dim (qc_code (codes ! idx)))"
    using w(1) d by (simp add: b_def)
  have k: "idx mod 32 < length (map qc_norm part @ replicate (32 - length part) 0)" using v by simp
  have "rd_float ((pre @ pack_pairs (map qc_code part) (length part) dim @ z)
      @ concat (map f32_bytes (map qc_norm part @ replicate (32 - length part) 0)) @ post @ rest)
      (length (pre @ pack_pairs (map qc_code part) (length part) dim @ z) + idx mod 32 * 4)
      = Some ((map qc_norm part @ replicate (32 - length part) 0) ! (idx mod 32))"
    by (rule rd_float_table [OF k])
  then show "rd_float (fastscan_region dim codes @ rest) (idx div 32 * fastscan_block_bytes dim
      + fastscan_packed_size dim + idx mod 32 * 4) = Some (qc_norm (codes ! idx))"
    using v z by (simp add: b_def nth_append)
qed

text \<open>What \<open>LoadCodes\<close> puts into an element \<open>out\<close> of its output for a stored code.\<close>

definition loaded_code :: "rabitq_config \<Rightarrow> nat \<Rightarrow> rabitq_code \<Rightarrow> rabitq_code \<Rightarrow> rabitq_code" where
  "loaded_code cfg dim out stored =
     (let ws = sign_words dim (qc_code stored);
          c = out\<lparr>qc_code := ws, qc_bits := active_code_bits cfg, qc_norm := qc_norm stored,
            qc_sum_x := foldl (\<lambda>n w. wrap32 (n + popcount64 w)) 0 ws\<rparr>
      in if stage2_payload_bits cfg = 0 then c
         else if uses_official_1_plus_n cfg then with_official c stored else with_legacy c stored)"

lemma legacy_entry_size:
  "dim < 67108864 \<Longrightarrow> 1 < rc_bits cfg \<Longrightarrow> \<not> uses_official_1_plus_n cfg \<Longrightarrow>
    exrabitq_entry_size cfg 10 dim = dim + PackedSignBytes dim + 4"
  by (simp add: exrabitq_entry_size_def exrabitq_sign_bytes_def PackedSignBytes_def)

lemma load_legacy_at:
  assumes dim: "dim < 67108864" and cfg: "1 < rc_bits cfg" "\<not> uses_official_1_plus_n cfg"
    and codes: "\<forall>c \<in> set codes. length (qc_ex_code c) = dim \<and> length (qc_ex_sign c) = PackedSignBytes dim"
    and idx: "idx < length codes"
  shows "load_legacy_code cfg 10 dim (fs @ concat (map (\<lambda>c. projr (legacy_entry dim c)) codes)) (length fs) idx code
    = Some (with_legacy code (codes ! idx))"
proof -
  define E where "E = dim + PackedSignBytes dim + 4"
  define f where "f c = projr (legacy_entry dim c)" for c
  define x where "x = codes ! idx"
  have x: "length (qc_ex_code x) = dim" "length (qc_ex_sign x) = PackedSignBytes dim"
    using codes idx by (auto simp: x_def)
  have f: "f c = qc_ex_code c @ qc_ex_sign c @ f32_bytes (qc_xipnorm c)" if "c \<in> set codes" for c
    using codes that by (simp add: f_def legacy_entry_def)
  have len: "length (f c) = E" if "c \<in> set codes" for c using f [OF that] codes that by (simp add: E_def)
  define pre where "pre = fs @ concat (map f (take idx codes))"
  have pre: "length pre = length fs + idx * E"
    unfolding pre_def by (simp, subst length_concat_map_uniform [of _ _ E]) (use idx len in \<open>auto dest: in_set_takeD\<close>)
  define post where "post = concat (map f (drop (Suc idx) codes))"
  have buf: "fs @ concat (map f codes) = pre @ qc_ex_code x @ qc_ex_sign x @ f32_bytes (qc_xipnorm x) @ post"
    unfolding pre_def post_def x_def using f [OF nth_mem [OF idx]]
    by (subst id_take_nth_drop [OF idx]) simp
  have sb: "exrabitq_sign_bytes cfg 10 dim = PackedSignBytes dim"
    using cfg by (simp add: exrabitq_sign_bytes_def PackedSignBytes_def)
  have r1: "rd (fs @ concat (map f codes)) (length pre) dim = Some (qc_ex_code x)"
    unfolding buf using x rd_at by blast
  have r2: "rd (fs @ concat (map f codes)) (length pre + dim) (PackedSignBytes dim) = Some (qc_ex_sign x)"
    unfolding buf using rd_at [OF x(2), of "pre @ qc_ex_code x"] x(1) by simp
  have r3: "rd_float (fs @ concat (map f codes)) (length pre + dim + PackedSignBytes dim) = Some (qc_xipnorm x)"
    unfolding buf using rd_float_at [of "pre @ qc_ex_code x @ qc_ex_sign x" "qc_xipnorm x" post] x by (simp add: add.assoc)
  show ?thesis
    unfolding load_legacy_code_def Let_def legacy_entry_size [OF dim cfg] sb E_def [symmetric] pre [symmetric]
      f_def [symmetric] r1 r2 r3
    by (simp add: with_legacy_def x_def)
qed

text \<open>The stage-2 part, in every version the writer uses.\<close>

lemma load_stage2_at:
  assumes cfg: "store_config_ok cfg version" "config_stored cfg version"
    and dim: "0 < dim" "dim < 67108864" and idx: "idx < length codes" and n: "length codes < 268435456"
    and codes: "\<forall>c \<in> set codes. code_fits cfg version dim c"
    and r: "cr_cfg r = cfg" "cr_version r = version" "cr_dim r = dim"
    and e: "region1_bytes dim e = length fs"
    and size: "length (stage2_region cfg version dim codes) < 4294967296"
  shows "load_stage2 build r e (fs @ stage2_region cfg version dim codes) idx c =
    Some (Inr (if stage2_payload_bits cfg = 0 then c
         else if uses_official_1_plus_n cfg then with_official c (codes ! idx) else with_legacy c (codes ! idx)))"
proof -
  define R where "R = stage2_region cfg version dim codes"
  have n2: "length codes < 4294967288" using n by simp
  consider (none) "stage2_payload_bits cfg = 0"
    | (variable) "stage2_payload_bits cfg \<noteq> 0" "variable_ok cfg" "version = 15"
    | (fixed) "stage2_payload_bits cfg \<noteq> 0" "fixed_ok cfg version"
    | (legacy) "stage2_payload_bits cfg \<noteq> 0" "\<not> uses_official_1_plus_n cfg" "version = 10"
    using cfg(1) unfolding store_config_ok_def by (auto split: if_splits)
  then have "load_stage2 build r e (fs @ R) idx c = Some (Inr (if stage2_payload_bits cfg = 0 then c
      else if uses_official_1_plus_n cfg then with_official c (codes ! idx) else with_legacy c (codes ! idx)))"
  proof cases
    case none
    then show ?thesis by (simp add: load_stage2_def r)
  next
    case variable
    have "\<forall>c \<in> set codes. fits_code (rc_ex_bits cfg) dim c"
      using codes variable by (simp add: code_fits_def)
    note this = variable(2) dim n2 this
    from variable_region_roundtrip [OF this, of build fs c] variable_region_ok [OF this] size idx
    have "load_batch_code build cfg 15 dim (fs @ R) (length fs) idx c = Some (Inr (with_official c (codes ! idx)))"
      by (auto simp: R_def variable)
    moreover have "uses_official_1_plus_n cfg" using variable(2) by (simp add: variable_ok_def)
    ultimately show ?thesis using variable by (simp add: load_stage2_def r e)
  next
    case fixed
    have v: "11 \<le> version" "version < 15" using fixed_facts [OF fixed(2)] by auto
    have fits: "\<forall>c \<in> set codes. fixed_fits cfg version dim c" using codes fixed v by (simp add: code_fits_def)
    have R: "R = concat (map fst (map (\<lambda>bb. fixed_block cfg version dim (batch codes bb))
        [0..<exrabitq_num_batch_blocks (length codes)]))"
      using fixed v by (simp add: R_def stage2_region_def comp_def)
    from fixed_blocks_roundtrip [OF fixed(2) dim(2) n2 fits, of build fs c] idx
    have "load_batch_code build cfg version dim (fs @ R) (length fs) idx c =
        Some (Inr ((if uses_official_1_plus_n cfg then with_official else with_legacy) c (codes ! idx)))"
      unfolding R by blast
    then show ?thesis using fixed v by (simp add: load_stage2_def r e)
  next
    case legacy
    then have bits: "1 < rc_bits cfg" by (auto simp: stage2_payload_bits_def split: if_splits)
    have fits: "\<forall>c \<in> set codes. length (qc_ex_code c) = dim \<and> length (qc_ex_sign c) = PackedSignBytes dim"
      using codes legacy by (simp add: code_fits_def)
    have R: "R = concat (map (\<lambda>c. projr (legacy_entry dim c)) codes)"
      using legacy by (simp add: R_def stage2_region_def)
    have "0 < exrabitq_entry_size cfg 10 dim"
      using legacy_entry_size [OF dim(2) bits legacy(2)] by simp
    then show ?thesis
      using legacy load_legacy_at [OF dim(2) bits legacy(2) fits idx, of fs c] by (simp add: load_stage2_def r e R)
  qed
  then show ?thesis by (simp only: R_def)
qed

text \<open>All requested codes.\<close>

lemma load_all_each:
  "(\<And>i c. (i, c) \<in> set xs \<Longrightarrow> load i c = Some (Inr (f i c))) \<Longrightarrow>
    load_all load xs = Some (Inr (map (\<lambda>(i, c). f i c) xs))"
  by (induction load xs rule: load_all.induct) auto

lemma LoadCodes_at:
  assumes cfg: "store_config_ok cfg version" "config_stored cfg version"
    and dim: "0 < dim" "dim < 67108864" and n: "length codes < 268435456"
    and codes: "\<forall>c \<in> set codes. dim div 4 * 4 \<le> length (qc_code c) * 64 \<and> code_fits cfg version dim c"
    and r: "cr_cfg r = cfg" "cr_version r = version" "cr_dim r = dim" "cr_fd r = Some fd"
    and cluster: "cr_index r cid = Some k" "cr_loaded r cid = Some d"
    and e: "le_num_records (cr_entry r k) = length codes"
      "region1_bytes dim (cr_entry r k) = length (fastscan_region dim codes)"
    and d: "cd_codes d = code_region cfg version dim codes"
    and size: "length (code_region cfg version dim codes) < 4294967296"
    and idxs: "\<forall>i \<in> set idxs. i < length codes"
  shows "LoadCodes build r cid idxs out = Some (Inr (map (\<lambda>(i, c). loaded_code cfg dim c (codes ! i))
    (zip idxs (resize (length idxs) rabitq_code_new out))))"
proof -
  define F where "F = fastscan_region dim codes"
  define S where "S = stage2_region cfg version dim codes"
  have buf: "cd_codes d = F @ S" by (simp add: d code_region_def F_def S_def)
  have fits: "\<forall>c \<in> set codes. dim div 4 * 4 \<le> length (qc_code c) * 64" "\<forall>c \<in> set codes. code_fits cfg version dim c"
    using codes by auto
  have S: "length S < 4294967296" using size by (simp add: code_region_def S_def)
  have one: "load_one build r cid (cr_entry r k) i c = Some (Inr (loaded_code cfg dim c (codes ! i)))"
    if i: "i < length codes" for i c
  proof -
    note rec = record_in_region [OF i dim(2) fits(1), of S, folded F_def]
    have "LoadCode r cid i = Some (Inr (sign_words dim (qc_code (codes ! i))))"
      using r cluster e(1) i rec(1) by (simp add: LoadCode_def buf)
    moreover have "load_stage2 build r (cr_entry r k) (F @ S) i c' =
        Some (Inr (if stage2_payload_bits cfg = 0 then c'
         else if uses_official_1_plus_n cfg then with_official c' (codes ! i) else with_legacy c' (codes ! i)))" for c'
      unfolding S_def F_def
      by (rule load_stage2_at [OF cfg dim i n fits(2) r(1-3) e(2)]) (use S in \<open>simp add: S_def\<close>)
    ultimately show ?thesis
      using cluster(2) rec(2) r by (simp add: load_one_def buf loaded_code_def Let_def)
  qed
  have "i < length codes" if "(i, c) \<in> set (zip idxs cs)" for i c and cs :: "rabitq_code list"
    using idxs set_zip_leftD [OF that] by blast
  then show ?thesis
    using r(4) cluster(1) one by (simp add: LoadCodes_def load_all_each [where f = "\<lambda>i c. loaded_code cfg dim c (codes ! i)"])
qed


section \<open>A reader on a finished store\<close>

text \<open>The bounds that the 32-bit fields give.\<close>

definition cluster_readable :: "simd_build \<Rightarrow> cluster_input \<Rightarrow> bool" where
  "cluster_readable build ci \<longleftrightarrow> ci_id ci < 4294967296
     \<and> al_page_size (ec_layout (stored_column build (ci_column ci))) < 4294967296
     \<and> (\<forall>e \<in> set (ec_raw (stored_column build (ci_column ci))). raw_fits e)"

text \<open>What loading a cluster leaves in memory.\<close>

definition stored_data ::
    "simd_build \<Rightarrow> rabitq_config \<Rightarrow> nat \<Rightarrow> nat \<Rightarrow> nat \<Rightarrow> cluster_input \<Rightarrow> cluster_data" where
  "stored_data build cfg version dim start ci =
     (let code = code_region cfg version dim (ci_codes ci); column = stored_column build (ci_column ci);
          page = al_page_size (ec_layout column)
      in \<lparr>cd_codes_offset = start, cd_codes_length = length code, cd_codes = code, cd_format = V2RawTable,
          cd_layout = addr_layout_new\<lparr>al_page_size := page\<rparr>, cd_blocks = [], cd_raw = ec_raw column,
          cd_decoded = map (\<lambda>x. DecodeRawEntryV2 x page) (ec_raw column)\<rparr>)"

lemma fastscan_region_small:
  assumes "\<forall>c \<in> set codes. dim div 4 * 4 \<le> length (qc_code c) * 64" and "dim < 67108864"
  shows "length (fastscan_region dim codes) = (length codes + 31) div 32 * fastscan_block_bytes dim"
  using length_fastscan_region [OF assms(1)] assms(2) by (simp add: fastscan_sizes)

lemma codes_bytes_image:
  assumes cfg: "store_config_ok cfg version" "config_stored cfg version"
    and dim: "0 < dim" "dim < 67108864" and ok: "cluster_ok build cfg version dim ci"
  shows "region1_bytes dim (entry_image build cfg version dim start ci) = length (fastscan_region dim (ci_codes ci))"
    and "codes_bytes cfg version dim (entry_image build cfg version dim start ci)
      (raw_trailer page (length (ci_codes ci)) (length (code_region cfg version dim (ci_codes ci))))
      = length (code_region cfg version dim (ci_codes ci))"
proof -
  define codes where "codes = ci_codes ci"
  define e where "e = entry_image build cfg version dim start ci"
  define F where "F = fastscan_region dim codes"
  define S where "S = stage2_region cfg version dim codes"
  have fits: "\<forall>c \<in> set codes. dim div 4 * 4 \<le> length (qc_code c) * 64" "\<forall>c \<in> set codes. code_fits cfg version dim c"
    using ok by (auto simp: cluster_ok_def codes_def)
  have n: "length codes < 268435456" using ok by (simp add: cluster_ok_def codes_def)
  have total: "length F + length S < 4294967296"
    using ok by (simp add: cluster_ok_def block_image_def Let_def code_region_def F_def S_def codes_def)
  have "length F = (length codes + 31) div 32 * fastscan_block_bytes dim"
    unfolding F_def by (rule fastscan_region_small [OF fits(1) dim(2)])
  then have r1: "region1_bytes dim e = length F"
    using total by (simp add: region1_bytes_def e_def entry_image_def codes_def)
  then show "region1_bytes dim (entry_image build cfg version dim start ci) = length (fastscan_region dim (ci_codes ci))"
    by (simp add: e_def F_def codes_def)
  have code: "code_region cfg version dim codes = F @ S" by (simp add: code_region_def F_def S_def)
  have r2: "region2_bytes cfg version dim e (raw_trailer page (length codes) (length F + length S)) = length S"
  proof (cases "11 \<le> version")
    case True
    then show ?thesis using r1 by (simp add: region2_bytes_def raw_trailer_def)
  next
    case False
    then have v: "version = 10" using cfg(2) by (simp add: config_stored_def)
    then have leg: "\<not> uses_official_1_plus_n cfg"
      using cfg(2) by (simp add: config_stored_def uses_official_1_plus_n_def)
    have rec: "le_num_records e = length codes" by (simp add: e_def entry_image_def codes_def)
    show ?thesis
    proof (cases "stage2_payload_bits cfg = 0")
      case True
      then have "rc_bits cfg \<le> 1" using leg by (simp add: stage2_payload_bits_def split: if_splits)
      then show ?thesis using v True by (simp add: region2_bytes_def exrabitq_entry_size_def S_def stage2_region_def)
    next
      case False
      then have bits: "1 < rc_bits cfg" using leg by (simp add: stage2_payload_bits_def split: if_splits)
      have "length (projr (legacy_entry dim c)) = dim + PackedSignBytes dim + 4" if "c \<in> set codes" for c
        using fits(2) that False v by (simp add: code_fits_def legacy_entry_def)
      then have "length S = length codes * (dim + PackedSignBytes dim + 4)"
        using False v by (simp add: S_def stage2_region_def length_concat_map_uniform)
      then show ?thesis using v total legacy_entry_size [OF dim(2) bits leg]
        by (simp add: region2_bytes_def rec)
    qed
  qed
  show "codes_bytes cfg version dim (entry_image build cfg version dim start ci)
      (raw_trailer page (length (ci_codes ci)) (length (code_region cfg version dim (ci_codes ci))))
      = length (code_region cfg version dim (ci_codes ci))"
    unfolding codes_bytes_def e_def [symmetric] codes_def [symmetric] code using r1 r2 total by simp
qed

lemma load_stored:
  assumes cfg: "store_config_ok cfg version" "config_stored cfg version"
    and dim: "0 < dim" "dim < 67108864" and ok: "cluster_ok build cfg version dim ci" "cluster_readable build ci"
    and fd: "reads_file fd img" "length img < 9223372036854775808"
    and img: "img = pre @ block_image build cfg version dim ci @ post"
  shows "load_cluster build' fd cfg version dim (entry_image build cfg version dim (length pre) ci)
    = Some (Inr (stored_data build cfg version dim (length pre) ci))"
proof -
  define column where "column = stored_column build (ci_column ci)"
  define code where "code = code_region cfg version dim (ci_codes ci)"
  define page where "page = al_page_size (ec_layout column)"
  have n: "length (ec_raw column) = length (ci_codes ci)" "length (ci_codes ci) < 268435456"
    using ok by (simp_all add: cluster_ok_def column_def)
  have block: "block_image build cfg version dim ci =
      code @ raw_bytes (ec_raw column) @ block_tail page (length (ec_raw column)) (length code)"
    by (simp add: block_image_def code_def column_def address_region_def block_tail_def Let_def page_def)
  have size: "length (block_image build cfg version dim ci) = length code + length (ec_raw column) * 8 + 32"
    by (simp add: block length_raw_bytes)
  have "load_cluster build' fd cfg version dim (entry_image build cfg version dim (length pre) ci) = Some (Inr
    \<lparr>cd_codes_offset = length pre, cd_codes_length = length code, cd_codes = code, cd_format = V2RawTable,
     cd_layout = addr_layout_new\<lparr>al_page_size := page\<rparr>, cd_blocks = [], cd_raw = ec_raw column,
     cd_decoded = map (\<lambda>x. DecodeRawEntryV2 x page) (ec_raw column)\<rparr>)"
  proof (rule load_block [OF fd])
    show "img = pre @ code @ raw_bytes (ec_raw column) @ block_tail page (length (ec_raw column)) (length code) @ post"
      by (simp add: img block)
    show "codes_bytes cfg version dim (entry_image build cfg version dim (length pre) ci)
        (raw_trailer page (length (ec_raw column)) (length code)) = length code"
      unfolding n(1) code_def by (rule codes_bytes_image(2) [OF cfg dim ok(1)])
    show "9 \<le> version" using cfg(2) by (simp add: config_stored_def)
    show "length code + length (ec_raw column) * 8 + 32 < 4294967296"
      using ok(1) size by (simp add: cluster_ok_def)
    show "\<forall>e \<in> set (ec_raw column). raw_fits e" "page < 4294967296"
      using ok(2) by (simp_all add: cluster_readable_def column_def page_def)
  qed (use n size in \<open>simp_all add: entry_image_def column_def\<close>)
  then show ?thesis by (simp add: stored_data_def Let_def code_def column_def page_def)
qed



text \<open>The entries of a store are within the widths of their fields, as long as the file is.\<close>

lemma body_block_bound:
  assumes "k < length cis"
  shows "block_start build cfg version dim start cis k + length (block_image build cfg version dim (cis ! k))
    \<le> start + length (body_image build cfg version dim start cis)"
proof -
  from body_image_block [OF assms, of build cfg version dim start] obtain pre post where
    "body_image build cfg version dim start cis = pre @ block_image build cfg version dim (cis ! k) @ post"
    "start + length pre = block_start build cfg version dim start cis k" by blast
  then show ?thesis by simp
qed

lemma entries_fit:
  assumes cis: "\<forall>ci \<in> set cis. cluster_ok build cfg version dim ci \<and> cluster_readable build ci"
    and cfg: "store_config_ok cfg version" "config_stored cfg version" and dim: "0 < dim" "dim < 67108864"
    and size: "start + length (body_image build cfg version dim start cis) < 9223372036854775808"
  shows "\<forall>e \<in> set (entries_image build cfg version dim start cis). entry_fits dim e"
proof
  fix e assume "e \<in> set (entries_image build cfg version dim start cis)"
  then obtain k where k: "k < length cis" and e: "e = entry_image build cfg version dim
      (block_start build cfg version dim start cis k) (cis ! k)"
    by (auto simp: in_set_conv_nth entries_image_nth)
  have ok: "cluster_ok build cfg version dim (cis ! k)" "cluster_readable build (cis ! k)" using cis k by auto
  have "length (fastscan_region dim (ci_codes (cis ! k))) \<le> length (block_image build cfg version dim (cis ! k))"
    by (simp add: block_image_def code_region_def Let_def)
  then show "entry_fits dim e"
    using ok body_block_bound [OF k, of build cfg version dim start] size
    by (auto simp: e entry_fits_def entry_image_def cluster_ok_def cluster_readable_def)
qed

lemma entries_ids: "map le_cluster_id (entries_image build cfg version dim start cis) = map ci_id cis"
  by (induction cis arbitrary: start) (simp_all add: entry_image_def)

text \<open>A reader that is open on the store: whatever is loaded is what was stored.\<close>

definition reader_holds ::
    "simd_build \<Rightarrow> rabitq_config \<Rightarrow> nat \<Rightarrow> nat \<Rightarrow> nat \<Rightarrow> cluster_input list \<Rightarrow> pread_fun \<Rightarrow> cluster_reader \<Rightarrow> bool" where
  "reader_holds build cfg version dim start cis fd r \<longleftrightarrow>
     cr_fd r = Some fd \<and> cr_version r = version \<and> cr_cfg r = cfg \<and> cr_dim r = dim
     \<and> si_lookup (cr_info r) = entries_image build cfg version dim start cis
     \<and> cr_index r = index_of (entries_image build cfg version dim start cis)
     \<and> (\<forall>k < length cis. \<forall>d. cr_loaded r (ci_id (cis ! k)) = Some d
          \<longrightarrow> d = stored_data build cfg version dim (block_start build cfg version dim start cis k) (cis ! k))"

lemma reader_entry:
  assumes "reader_holds build cfg version dim start cis fd r" and "distinct (map ci_id cis)" and "k < length cis"
  shows "cr_index r (ci_id (cis ! k)) = Some k"
    and "cr_entry r k = entry_image build cfg version dim (block_start build cfg version dim start cis k) (cis ! k)"
proof -
  define es where "es = entries_image build cfg version dim start cis"
  have "le_cluster_id (es ! k) = ci_id (cis ! k)"
    using arg_cong [OF entries_ids [of build cfg version dim start cis], of "\<lambda>xs. xs ! k"] assms(3) by (simp add: es_def)
  moreover have "distinct (map le_cluster_id es)" unfolding es_def entries_ids by (rule assms(2))
  ultimately show "cr_index r (ci_id (cis ! k)) = Some k"
    using index_of_distinct [of es k] assms(1,3) by (simp add: reader_holds_def es_def)
  show "cr_entry r k = entry_image build cfg version dim (block_start build cfg version dim start cis k) (cis ! k)"
    using assms(1,3) by (simp add: reader_holds_def cr_entry_def entries_image_nth)
qed

text \<open>Loads and unloads in any order.\<close>

datatype reader_op = Load nat | Unload nat

fun reader_run :: "simd_build \<Rightarrow> cluster_reader \<Rightarrow> reader_op list \<Rightarrow> cluster_reader option" where
  "reader_run build r [] = Some r"
| "reader_run build r (Load cid # ops) = do {
     (r', _) \<leftarrow> EnsureClusterLoaded build r cid;
     reader_run build r' ops
   }"
| "reader_run build r (Unload cid # ops) = reader_run build (fst (UnloadCluster r cid)) ops"

lemma load_holds:
  assumes cfg: "store_config_ok cfg version" "config_stored cfg version" and dim: "0 < dim" "dim < 67108864"
    and cis: "\<forall>ci \<in> set cis. cluster_ok build cfg version dim ci \<and> cluster_readable build ci"
      "distinct (map ci_id cis)"
    and fd: "reads_file fd img" "length img < 9223372036854775808"
    and img: "img = front @ body_image build cfg version dim (length front) cis"
    and r: "reader_holds build cfg version dim (length front) cis fd r" and k: "k < length cis"
  shows "\<exists>r'. EnsureClusterLoaded build' r (ci_id (cis ! k)) = Some (r', Inr ())
    \<and> reader_holds build cfg version dim (length front) cis fd r'
    \<and> cr_loaded r' (ci_id (cis ! k)) =
        Some (stored_data build cfg version dim (block_start build cfg version dim (length front) cis k) (cis ! k))"
proof (cases "cr_loaded r (ci_id (cis ! k))")
  case (Some d)
  have "cr_fd r = Some fd" using r by (simp add: reader_holds_def)
  then show ?thesis using Some r k by (auto simp: EnsureClusterLoaded_def reader_holds_def)
next
  case None
  define s where "s = block_start build cfg version dim (length front) cis k"
  from body_image_block [OF k, of build cfg version dim "length front"] obtain pre post where
    b: "body_image build cfg version dim (length front) cis = pre @ block_image build cfg version dim (cis ! k) @ post"
      "length front + length pre = s" by (auto simp: s_def)
  have "load_cluster build' fd cfg version dim (entry_image build cfg version dim (length (front @ pre)) (cis ! k))
      = Some (Inr (stored_data build cfg version dim (length (front @ pre)) (cis ! k)))"
    by (rule load_stored [OF cfg dim _ _ fd, of build]) (use cis(1) k in \<open>simp_all add: img b(1)\<close>)
  then have l: "load_cluster build' fd cfg version dim (entry_image build cfg version dim s (cis ! k))
      = Some (Inr (stored_data build cfg version dim s (cis ! k)))" by (simp add: b(2))
  have f: "cr_fd r = Some fd" "cr_version r = version" "cr_cfg r = cfg" "cr_dim r = dim"
    using r by (simp_all add: reader_holds_def)
  define r' where "r' = r\<lparr>cr_loaded := (cr_loaded r)(ci_id (cis ! k) \<mapsto> stored_data build cfg version dim s (cis ! k))\<rparr>"
  have "EnsureClusterLoaded build' r (ci_id (cis ! k)) = Some (r', Inr ())"
    using None reader_entry [OF r cis(2) k] l by (simp add: EnsureClusterLoaded_def f s_def [symmetric] r'_def)
  moreover have "j = k" if "j < length cis" "ci_id (cis ! j) = ci_id (cis ! k)" for j
    using cis(2) k that by (metis length_map nth_eq_iff_index_eq nth_map)
  then have "reader_holds build cfg version dim (length front) cis fd r'"
    using r by (auto simp: reader_holds_def r'_def s_def cr_cfg_def cr_dim_def)
  ultimately show ?thesis by (auto simp: r'_def s_def)
qed

lemma unload_holds:
  "reader_holds build cfg version dim start cis fd r
    \<Longrightarrow> reader_holds build cfg version dim start cis fd (fst (UnloadCluster r cid))"
  by (auto simp: reader_holds_def UnloadCluster_def cr_cfg_def cr_dim_def)

lemma reader_run_holds:
  assumes cfg: "store_config_ok cfg version" "config_stored cfg version" and dim: "0 < dim" "dim < 67108864"
    and cis: "\<forall>ci \<in> set cis. cluster_ok build cfg version dim ci \<and> cluster_readable build ci"
      "distinct (map ci_id cis)"
    and fd: "reads_file fd img" "length img < 9223372036854775808"
    and img: "img = front @ body_image build cfg version dim (length front) cis"
    and r: "reader_holds build cfg version dim (length front) cis fd r"
  shows "\<exists>r'. reader_run build' r ops = Some r' \<and> reader_holds build cfg version dim (length front) cis fd r'"
  using r
proof (induction ops arbitrary: r)
  case (Cons op ops)
  show ?case
  proof (cases op)
    case (Load cid)
    have "\<exists>r' st. EnsureClusterLoaded build' r cid = Some (r', st)
        \<and> reader_holds build cfg version dim (length front) cis fd r'"
    proof (cases "cid \<in> set (map ci_id cis)")
      case True
      then obtain k where "k < length cis" "cid = ci_id (cis ! k)" by (auto simp: in_set_conv_nth)
      then show ?thesis
        using load_holds [OF cfg dim cis fd img Cons.prems] by blast
    next
      case False
      define es where "es = entries_image build cfg version dim (length front) cis"
      have "length es = length cis" by (simp add: es_def)
      moreover have "map le_cluster_id es = map ci_id cis" by (simp add: es_def entries_ids)
      ultimately have "index_of es cid = None"
        using False by (auto simp: index_of_def map_of_eq_None_iff rev_map [symmetric] dest: set_zip_leftD)
      then show ?thesis using Cons.prems
        by (auto simp: EnsureClusterLoaded_def reader_holds_def es_def)
    qed
    then show ?thesis using Cons.IH Load by fastforce
  next
    case (Unload cid)
    then show ?thesis using Cons.IH [OF unload_holds [OF Cons.prems]] by simp
  qed
qed simp

section \<open>From writer to reader\<close>

text \<open>What a loaded cluster answers.\<close>

lemma loaded_answers:
  assumes cfg: "store_config_ok cfg version" "config_stored cfg version" and dim: "0 < dim" "dim < 67108864"
    and cis: "\<forall>ci \<in> set cis. cluster_ok build cfg version dim ci \<and> cluster_readable build ci"
      "distinct (map ci_id cis)"
    and r: "reader_holds build cfg version dim start cis fd r" and k: "k < length cis"
    and loaded: "cr_loaded r (ci_id (cis ! k)) =
      Some (stored_data build cfg version dim (block_start build cfg version dim start cis k) (cis ! k))"
    and idxs: "\<forall>i \<in> set idxs. i < length (ci_codes (cis ! k))"
  shows "GetNumRecords r (ci_id (cis ! k)) = length (ci_codes (cis ! k))"
    and "GetCentroid r (ci_id (cis ! k)) = Some (take dim (ci_centroid (cis ! k)))"
    and "GetEpsilon r (ci_id (cis ! k)) = ci_epsilon (cis ! k)"
    and "LoadCodes build' r (ci_id (cis ! k)) idxs out = Some (Inr (map
      (\<lambda>(i, c). loaded_code cfg dim c (ci_codes (cis ! k) ! i)) (zip idxs (resize (length idxs) rabitq_code_new out))))"
    and "GetAddresses r (ci_id (cis ! k)) idxs = map (\<lambda>i. let column = stored_column build (ci_column (cis ! k))
      in DecodeRawEntryV2 (ec_raw column ! i) (al_page_size (ec_layout column))) idxs"
proof -
  define ci where "ci = cis ! k"
  define s where "s = block_start build cfg version dim start cis k"
  have ok: "cluster_ok build cfg version dim ci" using cis k by (simp add: ci_def)
  note entry = reader_entry [OF r cis(2) k]
  show "GetNumRecords r (ci_id (cis ! k)) = length (ci_codes (cis ! k))"
    "GetCentroid r (ci_id (cis ! k)) = Some (take dim (ci_centroid (cis ! k)))"
    "GetEpsilon r (ci_id (cis ! k)) = ci_epsilon (cis ! k)"
    by (simp_all add: GetNumRecords_def GetCentroid_def GetEpsilon_def entry entry_image_def)
  have f: "cr_fd r = Some fd" "cr_version r = version" "cr_cfg r = cfg" "cr_dim r = dim"
    using r by (simp_all add: reader_holds_def)
  show "LoadCodes build' r (ci_id (cis ! k)) idxs out = Some (Inr (map
      (\<lambda>(i, c). loaded_code cfg dim c (ci_codes (cis ! k) ! i)) (zip idxs (resize (length idxs) rabitq_code_new out))))"
  proof (rule LoadCodes_at [OF cfg dim _ _ f(3,2,4,1) entry(1) loaded _ _ _ _ idxs])
    show "length (ci_codes (cis ! k)) < 268435456" "\<forall>c \<in> set (ci_codes (cis ! k)).
        dim div 4 * 4 \<le> length (qc_code c) * 64 \<and> code_fits cfg version dim c"
      using ok by (simp_all add: cluster_ok_def ci_def)
    show "le_num_records (cr_entry r k) = length (ci_codes (cis ! k))" by (simp add: entry(2) entry_image_def)
    show "region1_bytes dim (cr_entry r k) = length (fastscan_region dim (ci_codes (cis ! k)))"
      unfolding entry(2) by (rule codes_bytes_image(1) [OF cfg dim ok, unfolded ci_def])
        show "cd_codes (stored_data build cfg version dim (block_start build cfg version dim start cis k) (cis ! k)) =
      code_region cfg version dim (ci_codes (cis ! k))" by (simp add: stored_data_def Let_def)
    show "length (code_region cfg version dim (ci_codes (cis ! k))) < 4294967296"
      using ok by (simp add: cluster_ok_def ci_def block_image_def Let_def)
  qed
  have "length (ec_raw (stored_column build (ci_column ci))) = length (ci_codes ci)"
    using ok by (simp add: cluster_ok_def)
  then show "GetAddresses r (ci_id (cis ! k)) idxs = map (\<lambda>i. let column = stored_column build (ci_column (cis ! k))
      in DecodeRawEntryV2 (ec_raw column ! i) (al_page_size (ec_layout column))) idxs"
    using loaded idxs by (auto simp: GetAddresses_def GetAddress_def stored_data_def Let_def ci_def)
qed

lemma final_image_front:
  assumes "\<forall>ci \<in> set cis. dim \<le> length (ci_centroid ci)" and "length path \<le> 256"
  shows "\<exists>front rest. final_image build cfg version dim path cis =
        front @ body_image build cfg version dim (length front) cis
    \<and> length front = data_start (header_prefix version (length cis) dim cfg) dim (length cis)
    \<and> final_image build cfg version dim path cis = header_prefix version (length cis) dim cfg @ path_field path
        @ concat (map lookup_entry_bytes (entries_image build cfg version dim (length front) cis)) @ rest"
proof -
  define hdr where "hdr = header_prefix version (length cis) dim cfg"
  define start where "start = data_start hdr dim (length cis)"
  define front where "front = hdr @ path_field path
    @ concat (map lookup_entry_bytes (entries_image build cfg version dim start cis))
    @ replicate (pad4k (table_end hdr dim (length cis))) 0"
  have len: "length front = start"
    using length_entries_bytes [OF assms(1)] assms(2) by (simp add: front_def start_def data_start_def table_end_def)
  have img: "final_image build cfg version dim path cis = front @ body_image build cfg version dim start cis"
    by (simp add: final_image_def store_image_def hdr_def [symmetric] start_def [symmetric] front_def)
  then have "final_image build cfg version dim path cis = front @ body_image build cfg version dim (length front) cis"
    by (simp add: len)
  moreover have "final_image build cfg version dim path cis = hdr @ path_field path
      @ concat (map lookup_entry_bytes (entries_image build cfg version dim (length front) cis))
      @ (replicate (pad4k (table_end hdr dim (length cis))) 0 @ body_image build cfg version dim start cis)"
    by (simp add: img len) (simp add: front_def)
  ultimately show ?thesis using len unfolding start_def hdr_def by blast
qed

lemma page_below: "0 < n \<Longrightarrow> 4096 \<le> n + pad4k n"
  using mod_less_eq_dividend [of n 4096] dvd_imp_le [of 4096 n]
  by (cases "n mod 4096 = 0") (auto simp: pad4k_def)

text \<open>Opening the finished file.\<close>

lemma open_final:
  assumes accepted: "config_accepted getenv cfg cfg' version" "config_bounded cfg"
    and dim: "0 < dim" "dim < 67108864" and num: "length cis < 4294967295" and path: "length data_path \<le> 256"
    and cis: "\<forall>ci \<in> set cis. cluster_ok build cfg' version dim ci \<and> cluster_readable build ci"
    and fd: "reads_file fd (final_image build cfg' version dim data_path cis)"
      "length (final_image build cfg' version dim data_path cis) < 9223372036854775808"
    and alloc: "\<forall>i. alloc i"
  shows "\<exists>r front. cr_Open alloc cluster_reader_new name (Some fd) = Some (r, Inr ())
    \<and> reader_holds build cfg' version dim (length front) cis fd r
    \<and> si_data_path (cr_info r) = data_path
    \<and> final_image build cfg' version dim data_path cis = front @ body_image build cfg' version dim (length front) cis"
proof -
  define img where "img = final_image build cfg' version dim data_path cis"
  have cfg: "store_config_ok cfg' version" "config_stored cfg' version"
    using config_accepted_ok [OF accepted(1)] config_accepted_stored [OF accepted] by auto
  have cent: "\<forall>ci \<in> set cis. dim \<le> length (ci_centroid ci)" using cis by (simp add: cluster_ok_def)
  obtain front rest where front: "img = front @ body_image build cfg' version dim (length front) cis"
      "length front = data_start (header_prefix version (length cis) dim cfg') dim (length cis)"
      "img = header_prefix version (length cis) dim cfg' @ path_field data_path
        @ concat (map lookup_entry_bytes (entries_image build cfg' version dim (length front) cis)) @ rest"
    unfolding img_def using final_image_front [OF cent path] by blast
  define es where "es = entries_image build cfg' version dim (length front) cis"
  have es: "\<forall>e \<in> set es. entry_fits dim e" unfolding es_def
    by (rule entries_fit [OF cis cfg dim]) (use fd(2) in \<open>simp add: img_def [symmetric], subst (asm) front(1), simp\<close>)
  have n: "length es = length cis" by (simp add: es_def)
  have "4096 \<le> length front" unfolding front(2) data_start_def by (rule page_below) (simp add: table_end_def)
  then have page: "4096 \<le> length img" by (simp add: front(1))
  define r where "r = opened cluster_reader_new fd version dim cfg' data_path es"
  have "cr_Open alloc cluster_reader_new name (Some fd) = Some (r, Inr ())" unfolding r_def
    by (rule open_image [OF fd [folded img_def] page _ cfg(2) dim(2) _ path es _ alloc])
      (use num in \<open>simp_all add: n front(3) es_def [symmetric] cluster_reader_new_def\<close>)
  moreover have "reader_holds build cfg' version dim (length front) cis fd r"
    by (simp add: reader_holds_def r_def opened_def cr_cfg_def cr_dim_def es_def) (simp add: cluster_reader_new_def)
  moreover have "si_data_path (cr_info r) = data_path" by (simp add: r_def opened_def)
  ultimately show ?thesis using front(1) unfolding img_def by blast
qed

definition cluster_answers ::
    "simd_build \<Rightarrow> simd_build \<Rightarrow> rabitq_config \<Rightarrow> nat \<Rightarrow> cluster_reader \<Rightarrow> cluster_input \<Rightarrow> bool" where
  "cluster_answers build build' cfg dim r ci \<longleftrightarrow>
     GetNumRecords r (ci_id ci) = length (ci_codes ci)
     \<and> GetCentroid r (ci_id ci) = Some (take dim (ci_centroid ci))
     \<and> GetEpsilon r (ci_id ci) = ci_epsilon ci
     \<and> (\<forall>idxs out. (\<forall>i \<in> set idxs. i < length (ci_codes ci)) \<longrightarrow>
         LoadCodes build' r (ci_id ci) idxs out = Some (Inr (map (\<lambda>(i, c). loaded_code cfg dim c (ci_codes ci ! i))
           (zip idxs (resize (length idxs) rabitq_code_new out))))
       \<and> GetAddresses r (ci_id ci) idxs = map (\<lambda>i. let column = stored_column build (ci_column ci)
           in DecodeRawEntryV2 (ec_raw column ! i) (al_page_size (ec_layout column))) idxs)"

text \<open>C3: what is written is read.  A store whose configuration and clusters the writer accepts, with
  distinct cluster ids, is written, and a reader of either build that opens the file finds the path of
  the data file; after any sequence of loads and unloads every cluster can be loaded, and then the
  reader answers with its record count, centroid and epsilon, \<open>LoadCodes\<close> sets the elements of its
  output to the stored codes, and \<open>GetAddresses\<close> gives the stored addresses.\<close>

theorem cluster_store_roundtrip:
  assumes "config_accepted getenv cfg cfg' version" and "config_bounded cfg" and "0 < dim" and "dim < 67108864"
    and "length cis < 4294967295" and "length data_path \<le> 256" and "distinct (map ci_id cis)"
    and "\<forall>ci \<in> set cis. cluster_ok build cfg' version dim ci \<and> cluster_readable build ci"
    and "length (final_image build cfg' version dim data_path cis) \<le> capacity"
    and "capacity < 9223372036854775808" and "\<forall>i. alloc i"
  shows "\<exists>w. write_store getenv build path dim cfg capacity cis data_path = Some (w, Inr ())
    \<and> (\<forall>fd. reads_file fd (fs_data (cw_stream w)) \<longrightarrow>
      (\<exists>r0 r1. cr_Open alloc cluster_reader_new path (Some fd) = Some (r0, Inr ())
        \<and> si_data_path (cr_info r0) = data_path
        \<and> reader_run build' r0 ops = Some r1
        \<and> (\<forall>ci \<in> set cis. \<exists>r2. EnsureClusterLoaded build' r1 (ci_id ci) = Some (r2, Inr ())
            \<and> cluster_answers build build' cfg' dim r2 ci)))"
proof -
  note accepted = assms(1,2) and dim = assms(3,4) and cis = assms(8,7)
  define img where "img = final_image build cfg' version dim data_path cis"
  have cfg: "store_config_ok cfg' version" "config_stored cfg' version"
    using config_accepted_ok [OF accepted(1)] config_accepted_stored [OF accepted] by auto
  obtain w where w: "write_store getenv build path dim cfg capacity cis data_path = Some (w, Inr ())"
      "fs_data (cw_stream w) = img"
    using write_store_image [OF accepted(1) dim assms(5) _ assms(6,9,10)] cis(1) unfolding img_def by blast
  have len: "length img < 9223372036854775808" using assms(9,10) by (simp add: img_def)
  have "\<exists>r0 r1. cr_Open alloc cluster_reader_new path (Some fd) = Some (r0, Inr ())
      \<and> si_data_path (cr_info r0) = data_path \<and> reader_run build' r0 ops = Some r1
      \<and> (\<forall>ci \<in> set cis. \<exists>r2. EnsureClusterLoaded build' r1 (ci_id ci) = Some (r2, Inr ())
          \<and> cluster_answers build build' cfg' dim r2 ci)"
    if "reads_file fd (fs_data (cw_stream w))" for fd
  proof -
    have fd: "reads_file fd img" using that by (simp only: w(2))
    obtain r0 front where r0: "cr_Open alloc cluster_reader_new path (Some fd) = Some (r0, Inr ())"
        "reader_holds build cfg' version dim (length front) cis fd r0" "si_data_path (cr_info r0) = data_path"
        "img = front @ body_image build cfg' version dim (length front) cis"
      using open_final [OF accepted dim assms(5,6) cis(1), folded img_def, OF fd len assms(11)] by blast
    obtain r1 where r1: "reader_run build' r0 ops = Some r1"
        "reader_holds build cfg' version dim (length front) cis fd r1"
      using reader_run_holds [OF cfg dim cis fd len r0(4,2)] by blast
    have "\<exists>r2. EnsureClusterLoaded build' r1 (ci_id ci) = Some (r2, Inr ())
        \<and> cluster_answers build build' cfg' dim r2 ci" if ci: "ci \<in> set cis" for ci
    proof -
      obtain k where k: "k < length cis" "ci = cis ! k" using ci unfolding in_set_conv_nth by blast
      obtain r2 where r2: "EnsureClusterLoaded build' r1 (ci_id ci) = Some (r2, Inr ())"
          "reader_holds build cfg' version dim (length front) cis fd r2"
          "cr_loaded r2 (ci_id (cis ! k)) =
            Some (stored_data build cfg' version dim (block_start build cfg' version dim (length front) cis k) (cis ! k))"
        using load_holds [OF cfg dim cis fd len r0(4) r1(2) k(1)] unfolding k(2) by blast
      note a = loaded_answers [OF cfg dim cis r2(2) k(1) r2(3)]
      have "cluster_answers build build' cfg' dim r2 ci"
        unfolding cluster_answers_def k(2) using a(1-3) [of "[]"] a(4,5) by simp
      then show ?thesis using r2(1) by blast
    qed
    then show ?thesis using r0(1,3) r1(1) by blast
  qed
  then show ?thesis using w(1) by blast
qed

lemma sample_cluster_readable: "cluster_readable Scalar sample_cluster"
  by (simp add: cluster_readable_def stored_column_def raw_column_def sample_cluster_def sample_column_def raw_fits_def)

text \<open>On the sample store, read by an AVX-512 build.\<close>

theorem cluster_store_roundtrip_witness:
  "\<exists>w. write_store (\<lambda>_. None) Scalar ''a.clu'' 4 rabitq_config_default 8192 [sample_cluster] ''a.dat'' = Some (w, Inr ())
    \<and> (\<forall>fd. reads_file fd (fs_data (cw_stream w)) \<longrightarrow>
      (\<exists>r0 r1. cr_Open (\<lambda>_. True) cluster_reader_new ''a.clu'' (Some fd) = Some (r0, Inr ())
        \<and> si_data_path (cr_info r0) = ''a.dat''
        \<and> reader_run AVX512 r0 [Load 7, Unload 7] = Some r1
        \<and> (\<forall>ci \<in> set [sample_cluster]. \<exists>r2. EnsureClusterLoaded AVX512 r1 (ci_id ci) = Some (r2, Inr ())
            \<and> cluster_answers Scalar AVX512 sample_stored_config 4 r2 ci)))"
  by (rule cluster_store_roundtrip [OF sample_config_accepted])
    (simp_all add: sample_cluster_ok sample_cluster_readable length_sample_image config_bounded_def rabitq_config_default_def)

end
