(* ===== verification/Resident_View.thy ===== *)
theory Resident_View
  imports Cluster_Session
begin

text \<open>
  The resident form of a parsed cluster (\<open>ResidentClusterView\<close> in cluster_store.h and its builders in
  cluster_store.cpp): the code region is kept in memory for good, the addresses are decoded, and two
  summaries may be computed beside it: the envelope of the FastScan blocks (which nibbles occur in
  each group of four dimensions, and the extreme norms) and a copy of the ExRaBitQ blocks whose
  16-dimension slices of all lanes lie next to each other.
\<close>

section \<open>The parallel copy of the ExRaBitQ blocks\<close>

definition has_parallel_copy :: "ex_part \<Rightarrow> bool" where
  "has_parallel_copy ex \<longleftrightarrow> 11 \<le> ep_version ex \<and> \<not> ep_official ex \<and> ep_batch_blocks ex \<noteq> None
     \<and> \<not> ep_mag_packed ex \<and> ep_batch_size ex \<noteq> 0 \<and> ep_dim_block ex \<noteq> 0
     \<and> ep_num_dim_blocks ex \<noteq> 0 \<and> ep_num_batch_blocks ex \<noteq> 0"

text \<open>The three inner loops: dimension block, slice, lane.\<close>

definition slice_index :: "ex_part \<Rightarrow> (nat \<times> nat \<times> nat) list" where
  "slice_index ex = concat (map (\<lambda>db. concat (map (\<lambda>sub. map (\<lambda>lane. (db, sub, lane))
     [0..<ep_batch_size ex]) [0..<ep_dim_block ex div 16])) [0..<ep_num_dim_blocks ex])"

definition abs_slice :: "ex_part \<Rightarrow> batch_view \<Rightarrow> nat \<times> nat \<times> nat \<Rightarrow> bytes option" where
  "abs_slice ex v = (\<lambda>(db, sub, lane). prd (bv_abs v)
     (db * ep_batch_size ex * ep_dim_block ex + lane * ep_dim_block ex + sub * 16) 16)"

definition sign_slice :: "ex_part \<Rightarrow> batch_view \<Rightarrow> nat \<times> nat \<times> nat \<Rightarrow> u16 option" where
  "sign_slice ex v = (\<lambda>(db, sub, lane).
     map_option (\<lambda>bs. of_nat (le_nat bs)) (prd (bv_signs v)
       (db * ep_batch_size ex * (ep_dim_block ex div 8) + lane * (ep_dim_block ex div 8) + sub * 2) 2))"

text \<open>Sizes that do not fit 32 bits make the vectors too short for the writes.\<close>

definition BuildResidentParallelStage2View :: "parsed_cluster \<Rightarrow> parallel_part option" where
  "BuildResidentParallelStage2View parsed =
     (let ex = pc_ex parsed; slices = ep_dim_block ex div 16;
          words = ep_num_dim_blocks ex * slices * ep_batch_size ex
      in if \<not> has_parallel_copy ex then Some parallel_part_new
         else if 4294967296 \<le> words * 16 then None
         else do {
           blocks \<leftarrow> collect (\<lambda>bb. do {
             v \<leftarrow> exrabitq_batch_block_view ex bb;
             abs \<leftarrow> collect (abs_slice ex v) (slice_index ex);
             signs \<leftarrow> collect (sign_slice ex v) (slice_index ex);
             Some (concat abs, signs)
           }) [0..<ep_num_batch_blocks ex];
           Some \<lparr>pp_abs = concat (map fst blocks), pp_signs = concat (map snd blocks),
             pp_abs_size = words * 16, pp_sign_words = words, pp_slices = slices\<rparr>
         })"

section \<open>The envelope of the FastScan blocks\<close>

definition mask_of_nibble :: "u8 \<Rightarrow> u16" where
  "mask_of_nibble nibble = push_bit (unat nibble) 1"

definition FastScanPresenceMaskFull :: "bytes \<Rightarrow> u16" where
  "FastScanPresenceMaskFull group_bytes =
     foldl (\<lambda>mask i. mask OR mask_of_nibble (group_bytes ! i AND 15)
       OR mask_of_nibble (drop_bit 4 (group_bytes ! i) AND 15)) 0 [0..<16]"

definition FastScanPresenceMaskTail :: "bytes \<Rightarrow> nat \<Rightarrow> u16" where
  "FastScanPresenceMaskTail group_bytes count =
     foldl (\<lambda>mask lane.
       let high_half = 16 \<le> lane; lane_in_half = (if high_half then lane - 16 else lane);
           byte = group_bytes ! (kInvPerm ! lane_in_half)
       in mask OR mask_of_nibble (pair_nibble high_half byte)) 0 [0..<count]"

definition FastScanPresenceMaskForGroup :: "ptr \<Rightarrow> nat \<Rightarrow> nat \<Rightarrow> u16 option" where
  "FastScanPresenceMaskForGroup packed_codes group_idx count = do {
     group_bytes \<leftarrow> prd (Some packed_codes) (group_idx div 2 * 32 + (if odd group_idx then 16 else 0)) 16;
     Some (if 32 \<le> count then FastScanPresenceMaskFull group_bytes
           else FastScanPresenceMaskTail group_bytes count)
   }"

text \<open>\<open>std::min\<close> and \<open>std::max\<close> keep the first operand unless the second is strictly beyond it.\<close>

definition f32_min :: "f32 \<Rightarrow> f32 \<Rightarrow> f32" where
  "f32_min a b = (if f32_lt b a then b else a)"

definition f32_max_of :: "f32 \<Rightarrow> f32 \<Rightarrow> f32" where
  "f32_max_of a b = (if f32_lt a b then b else a)"

definition block_norms :: "parsed_cluster \<Rightarrow> ptr \<Rightarrow> nat \<Rightarrow> nat \<Rightarrow> f32 list option" where
  "block_norms parsed blocks packed_sz b =
     (let base_idx = wrap32 (b * 32); count = min 32 (wrap32 (pc_num_records parsed + 4294967296 - base_idx))
      in collect (\<lambda>i. prd_float (Some (ptr_add blocks (b * pc_fastscan_size parsed))) (packed_sz + i * 4)) [0..<count])"

definition block_masks :: "parsed_cluster \<Rightarrow> ptr \<Rightarrow> nat \<Rightarrow> nat \<Rightarrow> u16 list option" where
  "block_masks parsed blocks groups b =
     (let base_idx = wrap32 (b * 32); count = min 32 (wrap32 (pc_num_records parsed + 4294967296 - base_idx))
      in collect (\<lambda>group. FastScanPresenceMaskForGroup (ptr_add blocks (b * pc_fastscan_size parsed)) group count)
           [0..<groups])"

definition BuildResidentStage1EnvelopeSummary :: "parsed_cluster \<Rightarrow> nat \<Rightarrow> envelope option" where
  "BuildResidentStage1EnvelopeSummary parsed dim =
     (case pc_fastscan parsed of
        None \<Rightarrow> Some envelope_new
      | Some blocks \<Rightarrow>
          let groups = dim div 4; packed_sz = FastScanPackedSize dim
          in if pc_num_fastscan parsed = 0 \<or> pc_fastscan_size parsed = 0 \<or> dim < 4
                \<or> pc_fastscan_size parsed < packed_sz + 128
             then Some envelope_new
             else do {
               masks \<leftarrow> collect (block_masks parsed blocks groups) [0..<pc_num_fastscan parsed];
               norms \<leftarrow> collect (block_norms parsed blocks packed_sz) [0..<pc_num_fastscan parsed];
               Some \<lparr>ev_masks = concat masks, ev_min = map (foldl f32_min f32_inf) norms,
                 ev_max = map (foldl f32_max_of (f32_inf OR 0x80000000)) norms, ev_groups = groups\<rparr>
             })"

definition ResidentStage1EnvelopeBytes :: "envelope \<Rightarrow> nat" where
  "ResidentStage1EnvelopeBytes ev = wrap64 (length (ev_masks ev) * 2 + length (ev_min ev) * 4 + length (ev_max ev) * 4)"

section \<open>The view\<close>

record resident_view =
  rv_code :: bytes
  rv_fastscan :: "ptr option"
  rv_fastscan_size :: nat
  rv_num_fastscan :: nat
  rv_envelope :: envelope
  rv_ex :: ex_part
  rv_parallel :: parallel_part
  rv_num_records :: nat
  rv_epsilon :: f32
  rv_raw :: "ptr option"
  rv_page_size :: nat
  rv_raw_v2 :: bool
  rv_decoded :: "address_entry list"
  rv_code_bytes :: nat
  rv_decoded_bytes :: nat
  rv_raw_bytes :: nat

definition resident_view_new :: resident_view where
  "resident_view_new = \<lparr>rv_code = [], rv_fastscan = None, rv_fastscan_size = 0, rv_num_fastscan = 0,
     rv_envelope = envelope_new, rv_ex = ex_part_new, rv_parallel = parallel_part_new, rv_num_records = 0,
     rv_epsilon = 0, rv_raw = None, rv_page_size = 0, rv_raw_v2 = False, rv_decoded = [],
     rv_code_bytes = 0, rv_decoded_bytes = 0, rv_raw_bytes = 0\<rparr>"

text \<open>The two region pointers are not part of the metadata; the offset table is, until it is moved.\<close>

definition CopyParsedMetadataToResident :: "parsed_cluster \<Rightarrow> resident_view \<Rightarrow> resident_view" where
  "CopyParsedMetadataToResident parsed view = view\<lparr>rv_fastscan_size := pc_fastscan_size parsed,
     rv_num_fastscan := pc_num_fastscan parsed,
     rv_ex := (pc_ex parsed)\<lparr>ep_entries := ep_entries (rv_ex view), ep_batch_blocks := ep_batch_blocks (rv_ex view)\<rparr>,
     rv_num_records := pc_num_records parsed, rv_epsilon := pc_epsilon parsed,
     rv_page_size := pc_page_size parsed\<rparr>"

definition RelocateResidentCodePointersToBase :: "parsed_cluster \<Rightarrow> ptr option \<Rightarrow> resident_view \<Rightarrow> resident_view" where
  "RelocateResidentCodePointersToBase parsed base view =
     (let moved = (\<lambda>p off. if base \<noteq> None \<and> p \<noteq> (None :: ptr option) then Some (ptr_add (the base) off) else None)
      in view\<lparr>rv_fastscan := map_option (\<lambda>b. ptr_add b (pc_fastscan_offset parsed)) base,
           rv_ex := (rv_ex view)\<lparr>
             ep_entries := moved (ep_entries (pc_ex parsed)) (pc_ex_offset parsed),
             ep_batch_blocks := moved (ep_batch_blocks (pc_ex parsed)) (pc_ex_offset parsed),
             ep_offsets := moved (ep_offsets (pc_ex parsed)) (pc_ex_offset parsed + 8)\<rparr>\<rparr>)"

definition RelocateResidentCodePointers :: "parsed_cluster \<Rightarrow> resident_view \<Rightarrow> resident_view" where
  "RelocateResidentCodePointers parsed view =
     RelocateResidentCodePointersToBase parsed (if rv_code view = [] then None else Some (rv_code view, 0)) view"

text \<open>What both compact modes do after the code pointers: no raw table, the decoded addresses move in.\<close>

definition take_decoded :: "parsed_cluster \<Rightarrow> resident_view \<Rightarrow> resident_view" where
  "take_decoded parsed view = view\<lparr>rv_raw := None, rv_raw_v2 := False, rv_raw_bytes := 0,
     rv_decoded := pc_decoded parsed, rv_decoded_bytes := wrap64 (length (pc_decoded parsed) * 16)\<rparr>"

definition MakeCompactResidentView :: "parsed_cluster \<Rightarrow> resident_view option" where
  "MakeCompactResidentView parsed = do {
     let view = CopyParsedMetadataToResident parsed resident_view_new;
     code \<leftarrow> (if 0 < pc_code_bytes parsed then prd (pc_fastscan parsed) 0 (pc_code_bytes parsed) else Some []);
     Some (take_decoded parsed (RelocateResidentCodePointers parsed
       (view\<lparr>rv_code := code, rv_code_bytes := length code\<rparr>)))
   }"

text \<open>The view of the full-file mode points into the file's copy.\<close>

definition full_file_view :: "parsed_cluster \<Rightarrow> resident_view" where
  "full_file_view parsed = resident_view_new\<lparr>rv_fastscan := pc_fastscan parsed,
     rv_fastscan_size := pc_fastscan_size parsed, rv_num_fastscan := pc_num_fastscan parsed,
     rv_ex := pc_ex parsed, rv_num_records := pc_num_records parsed, rv_epsilon := pc_epsilon parsed,
     rv_raw := pc_raw parsed, rv_page_size := pc_page_size parsed, rv_raw_v2 := pc_raw_v2 parsed,
     rv_decoded := pc_decoded parsed, rv_decoded_bytes := wrap64 (length (pc_decoded parsed) * 16),
     rv_raw_bytes := pc_addr_bytes parsed\<rparr>"

definition ptr_distance :: "ptr option \<Rightarrow> ptr option \<Rightarrow> nat" where
  "ptr_distance p q = wrap64 (snd (the p) + 18446744073709551616 - snd (the q))"

definition ToParsedCluster :: "resident_view \<Rightarrow> parsed_cluster" where
  "ToParsedCluster view =
     (let ex = rv_ex view
      in parsed_cluster_new\<lparr>pc_fastscan := rv_fastscan view, pc_fastscan_size := rv_fastscan_size view,
        pc_num_fastscan := rv_num_fastscan view, pc_envelope := rv_envelope view,
        pc_env_blocks := wrap32 (length (ev_min (rv_envelope view))), pc_ex := ex,
        pc_parallel := rv_parallel view, pc_num_records := rv_num_records view,
        pc_epsilon := rv_epsilon view, pc_raw := rv_raw view, pc_page_size := rv_page_size view,
        pc_raw_v2 := rv_raw_v2 view, pc_decoded_data := data_or_null (rv_decoded view),
        pc_decoded_count := wrap32 (length (rv_decoded view)), pc_fastscan_offset := 0,
        pc_ex_offset :=
          (if ep_entries ex \<noteq> None \<and> rv_fastscan view \<noteq> None then ptr_distance (ep_entries ex) (rv_fastscan view)
           else if ep_batch_blocks ex \<noteq> None \<and> rv_fastscan view \<noteq> None
           then ptr_distance (ep_batch_blocks ex) (rv_fastscan view) else 0),
        pc_code_bytes := rv_code_bytes view, pc_addr_bytes := rv_raw_bytes view,
        pc_codes_start := rv_fastscan view, pc_code_entry_size := 0\<rparr>)"

section \<open>What the envelope says\<close>

lemma bit_foldl_or:
  fixes f :: "'b \<Rightarrow> 'a :: len word"
  shows "bit (foldl (\<lambda>m x. m OR f x) a xs) n \<longleftrightarrow> bit a n \<or> (\<exists>x \<in> set xs. bit (f x) n)"
  by (induction xs arbitrary: a) (auto simp: bit_or_iff)

lemma bit_mask_of_nibble: "unat x < 16 \<Longrightarrow> bit (mask_of_nibble x) n \<longleftrightarrow> n = unat x"
  by (auto simp: mask_of_nibble_def bit_push_bit_iff bit_1_iff simp del: push_bit_of_1)

lemma pair_nibble_small: "unat (pair_nibble h x) < 16"
proof -
  have "unat (y AND 15 :: u8) < 16" for y
    using word_and_le1 [of y 15] by (simp add: word_le_nat_alt)
  then show ?thesis by (simp add: pair_nibble_def)
qed

definition lane_pos :: "nat \<Rightarrow> nat" where
  "lane_pos v = kInvPerm ! (if 16 \<le> v then v - 16 else v)"

lemma bit_mask_tail:
  "bit (FastScanPresenceMaskTail g count) n
    \<longleftrightarrow> (\<exists>v < count. n = unat (pair_nibble (16 \<le> v) (g ! lane_pos v)))"
proof -
  have "FastScanPresenceMaskTail g count =
      foldl (\<lambda>mask v. mask OR mask_of_nibble (pair_nibble (16 \<le> v) (g ! lane_pos v))) 0 [0..<count]"
    by (simp add: FastScanPresenceMaskTail_def Let_def lane_pos_def)
  then show ?thesis by (auto simp: bit_foldl_or bit_mask_of_nibble pair_nibble_small)
qed

lemma kInvPerm_onto: "i < 16 \<Longrightarrow> \<exists>lane < 16. kInvPerm ! lane = i"
proof -
  have "\<forall>i \<in> set [0..<16]. kInvPerm ! (kPerm ! i) = i" by code_simp
  then show "i < 16 \<Longrightarrow> ?thesis" using kPerm_bound [of i] by (intro exI [of _ "kPerm ! i"]) simp
qed

text \<open>The mask of all 16 bytes is the mask of all 32 lanes.\<close>

lemma mask_full: "FastScanPresenceMaskFull g = FastScanPresenceMaskTail g 32"
proof (rule bit_word_eqI)
  fix n assume "n < LENGTH(16)"
  have "FastScanPresenceMaskFull g = foldl (\<lambda>mask i. mask OR (mask_of_nibble (pair_nibble False (g ! i))
      OR mask_of_nibble (pair_nibble True (g ! i)))) 0 [0..<16]"
    by (simp add: FastScanPresenceMaskFull_def pair_nibble_def or.assoc)
  then have full: "bit (FastScanPresenceMaskFull g) n \<longleftrightarrow>
      (\<exists>i < 16. \<exists>h. n = unat (pair_nibble h (g ! i)))"
    by (simp only: bit_foldl_or bit_or_iff bit_mask_of_nibble [OF pair_nibble_small] ex_bool_eq bit_0_eq) auto
  have "(\<exists>i < 16. \<exists>h. n = unat (pair_nibble h (g ! i)))
      \<longleftrightarrow> (\<exists>v < 32. n = unat (pair_nibble (16 \<le> v) (g ! lane_pos v)))" (is "?l \<longleftrightarrow> ?r")
  proof
    assume ?l
    then obtain i h where i: "i < 16" "n = unat (pair_nibble h (g ! i))" by blast
    obtain lane where l: "lane < 16" "kInvPerm ! lane = i" using kInvPerm_onto [OF i(1)] by blast
    show ?r using i l by (intro exI [of _ "if h then lane + 16 else lane"]) (auto simp: lane_pos_def)
  next
    assume ?r
    then obtain v where v: "v < 32" "n = unat (pair_nibble (16 \<le> v) (g ! lane_pos v))" by blast
    have "lane_pos v < 16" using kPerm_kInvPerm [of "v - 16"] kPerm_kInvPerm [of v] v(1) by (auto simp: lane_pos_def)
    then show ?l using v(2) by blast
  qed
  then show "bit (FastScanPresenceMaskFull g) n = bit (FastScanPresenceMaskTail g 32) n"
    by (simp add: full bit_mask_tail)
qed

text \<open>The nibble of a code in the bytes of its group.\<close>

lemma group_nibble:
  assumes "v < num" and "num \<le> 32" and "g < dim div 4"
  shows "pair_nibble (16 \<le> v)
      (slice (g div 2 * 32 + (if odd g then 16 else 0)) 16 (pack_pairs codes num dim @ z) ! lane_pos v)
    = code_nibble (codes ! v) dim g"
proof -
  define p where "p = g div 2"
  define bpv where "bpv = (dim div 4 + 1) div 2"
  define flat where "flat = flat_matrix codes num dim"
  define b where "b = flat_byte (codes ! v) dim p"
  have v: "v < 32" using assms(1,2) by simp
  have p: "p < bpv" using assms(3) by (simp add: p_def bpv_def)
  have pos: "lane_pos v < 16" using kPerm_kInvPerm [of "v - 16"] kPerm_kInvPerm [of v] v by (auto simp: lane_pos_def)
  define off where "off = p * 32 + (if odd g then 16 else 0)"
  have inside: "off + lane_pos v < length (pack_pairs codes num dim)"
    unfolding length_pack_pairs bpv_def [symmetric] off_def using pos p by (cases "odd g") simp_all
  have at: "slice off 16 (pack_pairs codes num dim @ z) ! lane_pos v = pack_pairs codes num dim ! (off + lane_pos v)"
    using pos inside by (simp add: nth_slice nth_append)
  have byte: "flat ! (v * bpv + p) = b"
    using nth_flat_matrix [of v p dim codes num] v p assms(1) by (simp add: flat_def bpv_def b_def)
  note nib = pack_pair_nibble [OF v assms(2), of flat bpv p, folded lane_pos_def]
  have small: "2 * p < dim div 4" using assms(3) by (simp add: p_def)
  show ?thesis
  proof (cases "odd g")
    case False
    then have g: "g = 2 * p" by (simp add: p_def)
    have "pack_pairs codes num dim ! (p * 32 + lane_pos v) = pack_pair flat bpv num p ! lane_pos v"
      using nth_pack_pairs [of p dim "lane_pos v" codes num] p pos by (simp add: flat_def bpv_def)
    then have "pair_nibble (16 \<le> v) (slice off 16 (pack_pairs codes num dim @ z) ! lane_pos v) = b AND 15"
      unfolding at using False nib(1) assms(1) byte by (simp add: off_def)
    moreover have "b AND 15 = code_nibble (codes ! v) dim g"
    proof (rule word_eq_bitsI)
      fix i
      show "bit (b AND 15) i = bit (code_nibble (codes ! v) dim g) i"
        unfolding g nibble_and_15 b_def flat_byte_bits [OF small] code_nibble_bits [OF small] by auto
    qed
    ultimately show ?thesis by (simp add: off_def p_def)
  next
    case True
    then have g: "g = 2 * p + 1" by (simp add: p_def)
    have "pack_pairs codes num dim ! (p * 32 + (lane_pos v + 16)) = pack_pair flat bpv num p ! (lane_pos v + 16)"
      using nth_pack_pairs [of p dim "lane_pos v + 16" codes num] p pos by (simp add: flat_def bpv_def)
    then have "pack_pairs codes num dim ! (off + lane_pos v) = pack_pair flat bpv num p ! (lane_pos v + 16)"
      using True by (simp add: off_def ac_simps)
    then have "pair_nibble (16 \<le> v) (slice off 16 (pack_pairs codes num dim @ z) ! lane_pos v) = drop_bit 4 b"
      unfolding at using nib(2) assms(1) byte by simp
    moreover have "drop_bit 4 b = code_nibble (codes ! v) dim g"
    proof (rule word_eq_bitsI)
      fix i
      show "bit (drop_bit 4 b) i = bit (code_nibble (codes ! v) dim g) i"
        unfolding g bit_drop_bit_eq o_def b_def flat_byte_bits [OF small] code_nibble_bits [OF assms(3) [unfolded g]]
        using assms(3) by (auto simp: g)
    qed
    ultimately show ?thesis using True by (simp add: off_def p_def)
  qed
qed

lemma f32_le_refl: "\<not> f32_is_nan a \<Longrightarrow> f32_le a a"
  by (simp add: f32_le_def)

lemma f32_le_trans: "f32_le a b \<Longrightarrow> f32_le b c \<Longrightarrow> f32_le a c"
  by (auto simp: f32_le_def)

lemma f32_min_fold:
  "\<not> f32_is_nan a \<Longrightarrow> f32_le (foldl f32_min a xs) a
    \<and> (\<forall>x \<in> set xs. \<not> f32_is_nan x \<longrightarrow> f32_le (foldl f32_min a xs) x)"
proof (induction xs arbitrary: a)
  case (Cons x xs)
  have step: "\<not> f32_is_nan (f32_min a x)" "f32_le (f32_min a x) a" "\<not> f32_is_nan x \<Longrightarrow> f32_le (f32_min a x) x"
    using Cons.prems by (auto simp: f32_min_def f32_lt_def f32_le_def)
  show ?case using Cons.IH [OF step(1)] step(2,3) f32_le_trans by auto
qed (simp add: f32_le_refl)

lemma f32_max_fold:
  "\<not> f32_is_nan a \<Longrightarrow> f32_le a (foldl f32_max_of a xs)
    \<and> (\<forall>x \<in> set xs. \<not> f32_is_nan x \<longrightarrow> f32_le x (foldl f32_max_of a xs))"
proof (induction xs arbitrary: a)
  case (Cons x xs)
  have step: "\<not> f32_is_nan (f32_max_of a x)" "f32_le a (f32_max_of a x)" "\<not> f32_is_nan x \<Longrightarrow> f32_le x (f32_max_of a x)"
    using Cons.prems by (auto simp: f32_max_of_def f32_lt_def f32_le_def)
  show ?case using Cons.IH [OF step(1)] step(2,3) f32_le_trans by auto
qed (simp add: f32_le_refl)

text \<open>The count of records in block \<open>b\<close>, as the builder computes it.\<close>

lemma block_count:
  assumes "n < 268435456" and "b < (n + 31) div 32"
  shows "min 32 (wrap32 (n + 4294967296 - wrap32 (b * 32))) = min 32 (n - b * 32)"
    and "b * 32 < n"
proof -
  have b: "b * 32 < n" using assms(2) by linarith
  then have "b * 32 < 4294967296" using assms(1) by linarith
  then have "wrap32 (b * 32) = b * 32" by (rule mod_less)
  moreover have e: "n + 4294967296 - b * 32 = (n - b * 32) + 4294967296" using b by linarith
  have "n - b * 32 < 4294967296" using assms(1) by linarith
  then have "wrap32 (n + 4294967296 - b * 32) = n - b * 32" unfolding e mod_add_self2 by (rule mod_less)
  ultimately show "min 32 (wrap32 (n + 4294967296 - wrap32 (b * 32))) = min 32 (n - b * 32)" by simp
  show "b * 32 < n" by (rule b)
qed

lemma block_summary:
  assumes pc: "pc_fastscan pc = Some (pre @ fastscan_region dim codes @ post, length pre)"
      "pc_num_records pc = length codes" "pc_fastscan_size pc = fastscan_block_bytes dim"
    and dim: "dim < 67108864" and n: "length codes < 268435456" and b: "b < (length codes + 31) div 32"
    and codes: "\<forall>c \<in> set codes. dim div 4 * 4 \<le> length (qc_code c) * 64"
  shows "\<exists>masks. block_masks pc (pre @ fastscan_region dim codes @ post, length pre) (dim div 4) b = Some masks
      \<and> length masks = dim div 4
      \<and> (\<forall>g < dim div 4. \<forall>x. bit (masks ! g) x
          \<longleftrightarrow> (\<exists>c \<in> set (slice (b * 32) 32 codes). unat (code_nibble (qc_code c) dim g) = x))"
    and "block_norms pc (pre @ fastscan_region dim codes @ post, length pre) (FastScanPackedSize dim) b
      = Some (map qc_norm (slice (b * 32) 32 codes))"
proof -
  define part where "part = slice (b * 32) 32 codes"
  note bb = block_count [OF n b]
  have count: "min 32 (wrap32 (pc_num_records pc + 4294967296 - wrap32 (b * 32))) = length part"
    unfolding pc(2) bb(1) by (simp add: part_def)
  obtain P z Q where reg: "fastscan_region dim codes = P @ (pack_pairs (map qc_code part) (length part) dim @ z)
      @ concat (map f32_bytes (map qc_norm part @ replicate (32 - length part) 0)) @ Q"
      "length P = b * fastscan_block_bytes dim"
      "length (pack_pairs (map qc_code part) (length part) dim @ z) = fastscan_packed_size dim"
    using region_block [OF b dim codes] unfolding part_def by blast
  define K where "K = pack_pairs (map qc_code part) (length part) dim @ z"
  define obj where "obj = pre @ fastscan_region dim codes @ post"
  have obj: "obj = (pre @ P) @ K @ (concat (map f32_bytes (map qc_norm part @ replicate (32 - length part) 0)) @ Q @ post)"
    by (simp add: obj_def reg(1) K_def)
  have start: "ptr_add (obj, length pre) (b * pc_fastscan_size pc) = (obj, length (pre @ P))"
    by (simp add: ptr_add_def pc(3) reg(2))
  have len: "length part \<le> 32" by (simp add: part_def)
  define gb where "gb g = slice (g div 2 * 32 + (if odd g then 16 else 0)) 16 K" for g
  have mask: "FastScanPresenceMaskForGroup (obj, length (pre @ P)) g (length part)
      = Some (FastScanPresenceMaskTail (gb g) (length part))" if g: "g < dim div 4" for g
  proof -
    have "g div 2 < (dim div 4 + 1) div 2" using g by linarith
    then have "g div 2 * 32 + (if odd g then 16 else 0) + 16 \<le> (dim div 4 + 1) div 2 * 32" by (simp split: if_split)
    then have "g div 2 * 32 + (if odd g then 16 else 0) + 16 \<le> length K" by (simp add: K_def length_pack_pairs)
    then have "rd obj (length (pre @ P) + (g div 2 * 32 + (if odd g then 16 else 0))) 16 = Some (gb g)"
      unfolding obj gb_def by (rule rd_inside)
    then show ?thesis
      using len mask_full by (cases "length part = 32") (simp_all add: FastScanPresenceMaskForGroup_def prd_def)
  qed
  define masks where "masks = map (\<lambda>g. FastScanPresenceMaskTail (gb g) (length part)) [0..<dim div 4]"
  have "block_masks pc (obj, length pre) (dim div 4) b = Some masks"
    unfolding block_masks_def Let_def count start masks_def by (rule collect_eq) (use mask in auto)
  moreover have "bit (masks ! g) x \<longleftrightarrow> (\<exists>c \<in> set part. unat (code_nibble (qc_code c) dim g) = x)"
    if g: "g < dim div 4" for g x
  proof -
    have "pair_nibble (16 \<le> v) (gb g ! lane_pos v) = code_nibble (qc_code (part ! v)) dim g" if "v < length part" for v
      using group_nibble [OF that len g, of "map qc_code part" z] that by (simp add: gb_def K_def)
    then have "bit (masks ! g) x \<longleftrightarrow> (\<exists>v < length part. x = unat (code_nibble (qc_code (part ! v)) dim g))"
      using g by (auto simp: masks_def bit_mask_tail)
    also have "\<dots> \<longleftrightarrow> (\<exists>c \<in> set part. unat (code_nibble (qc_code c) dim g) = x)" by (metis in_set_conv_nth)
    finally show ?thesis .
  qed
  ultimately show "\<exists>masks. block_masks pc (pre @ fastscan_region dim codes @ post, length pre) (dim div 4) b = Some masks
      \<and> length masks = dim div 4
      \<and> (\<forall>g < dim div 4. \<forall>x. bit (masks ! g) x
          \<longleftrightarrow> (\<exists>c \<in> set (slice (b * 32) 32 codes). unat (code_nibble (qc_code c) dim g) = x))"
    unfolding obj_def part_def [symmetric] by (intro exI [of _ masks]) (simp add: masks_def)
  have "prd_float (Some (obj, length (pre @ P))) (FastScanPackedSize dim + i * 4) = Some (map qc_norm part ! i)"
    if i: "i < length part" for i
  proof -
    have "rd_float ((pre @ P @ K) @ concat (map f32_bytes (map qc_norm part @ replicate (32 - length part) 0)) @ Q @ post)
        (length (pre @ P @ K) + i * 4) = Some ((map qc_norm part @ replicate (32 - length part) 0) ! i)"
      by (rule rd_float_table) (use i in simp)
    then have "rd_float obj (length (pre @ P) + (FastScanPackedSize dim + i * 4)) = Some (map qc_norm part ! i)"
      using i reg(3) by (simp add: obj nth_append K_def [symmetric] fastscan_sizes add.assoc)
    then show ?thesis by (simp add: prd_float_def prd_nat_def prd_def rd_float_def rd_nat_def)
  qed
  then have "block_norms pc (obj, length pre) (FastScanPackedSize dim) b = Some (map ((!) (map qc_norm part)) [0..<length part])"
    unfolding block_norms_def Let_def count start by (intro collect_eq) simp
  then show "block_norms pc (pre @ fastscan_region dim codes @ post, length pre) (FastScanPackedSize dim) b
      = Some (map qc_norm (slice (b * 32) 32 codes))"
    using map_nth [of "map qc_norm part"] by (simp add: obj_def part_def)
qed

text \<open>C36: the envelope encloses its block.  For a cluster whose FastScan pointer points at the region
  the writer made of its codes, the summary has a mask per block and group of four dimensions whose bit
  \<open>x\<close> is set exactly when some code of the block shows the pattern \<open>x\<close> there (no false positives: the
  lanes of a short last block are left out), and per block two norms between which every norm of the
  block that is a number lies.\<close>

theorem envelope_encloses:
  assumes "pc_fastscan pc = Some (pre @ fastscan_region dim codes @ post, length pre)"
    and "pc_num_records pc = length codes" and "pc_num_fastscan pc = (length codes + 31) div 32"
    and "pc_fastscan_size pc = fastscan_block_bytes dim"
    and "codes \<noteq> []" and "length codes < 268435456" and "4 \<le> dim" and "dim < 67108864"
    and "\<forall>c \<in> set codes. dim div 4 * 4 \<le> length (qc_code c) * 64"
  shows "\<exists>ev. BuildResidentStage1EnvelopeSummary pc dim = Some ev \<and> ev_groups ev = dim div 4
    \<and> (\<forall>b < (length codes + 31) div 32. \<forall>g < dim div 4. \<forall>x. bit (ev_masks ev ! (b * (dim div 4) + g)) x
        \<longleftrightarrow> (\<exists>c \<in> set (slice (b * 32) 32 codes). unat (code_nibble (qc_code c) dim g) = x))
    \<and> (\<forall>b < (length codes + 31) div 32. \<forall>c \<in> set (slice (b * 32) 32 codes). \<not> f32_is_nan (qc_norm c)
        \<longrightarrow> f32_le (ev_min ev ! b) (qc_norm c) \<and> f32_le (qc_norm c) (ev_max ev ! b))"
proof -
  define obj where "obj = (pre @ fastscan_region dim codes @ post, length pre)"
  define nb where "nb = (length codes + 31) div 32"
  define norms where "norms b = map qc_norm (slice (b * 32) 32 codes)" for b
  note sum = block_summary [OF assms(1,2,4,8,6) _ assms(9), folded obj_def]
  have "\<forall>b. \<exists>ms. b < nb \<longrightarrow> block_masks pc obj (dim div 4) b = Some ms \<and> length ms = dim div 4
      \<and> (\<forall>g < dim div 4. \<forall>x. bit (ms ! g) x
          \<longleftrightarrow> (\<exists>c \<in> set (slice (b * 32) 32 codes). unat (code_nibble (qc_code c) dim g) = x))"
    using sum(1) unfolding nb_def by blast
  then obtain ms where ms: "\<And>b. b < nb \<Longrightarrow> block_masks pc obj (dim div 4) b = Some (ms b) \<and> length (ms b) = dim div 4
      \<and> (\<forall>g < dim div 4. \<forall>x. bit (ms b ! g) x
          \<longleftrightarrow> (\<exists>c \<in> set (slice (b * 32) 32 codes). unat (code_nibble (qc_code c) dim g) = x))"
    by metis
  define ev where "ev = \<lparr>ev_masks = concat (map ms [0..<nb]), ev_min = map (foldl f32_min f32_inf) (map norms [0..<nb]),
    ev_max = map (foldl f32_max_of (f32_inf OR 0x80000000)) (map norms [0..<nb]), ev_groups = dim div 4\<rparr>"
  have nb: "nb \<noteq> 0" using assms(5) by (cases codes) (simp_all add: nb_def)
  have size: "FastScanPackedSize dim + 128 = fastscan_block_bytes dim" "fastscan_block_bytes dim \<noteq> 0"
    using assms(8) by (simp_all add: fastscan_sizes FastScanBlockSize_def FastScanPackedSize_def)
  have "collect (block_masks pc obj (dim div 4)) [0..<nb] = Some (map ms [0..<nb])"
    "collect (block_norms pc obj (FastScanPackedSize dim)) [0..<nb] = Some (map norms [0..<nb])"
    by (rule collect_eq, use ms in simp, rule collect_eq, use sum(2) in \<open>simp add: nb_def norms_def\<close>)
  then have ev: "BuildResidentStage1EnvelopeSummary pc dim = Some ev"
    using assms(1,3,4,7) size nb by (simp add: BuildResidentStage1EnvelopeSummary_def Let_def obj_def nb_def [symmetric] ev_def)
  have "ev_masks ev ! (b * (dim div 4) + g) = ms b ! g" if "b < nb" "g < dim div 4" for b g
  proof -
    have "\<And>xs. xs \<in> set (map ms [0..<nb]) \<Longrightarrow> length xs = dim div 4" using ms by auto
    then show ?thesis using nth_concat_uniform [of "map ms [0..<nb]" "dim div 4" b g] that by (simp add: ev_def)
  qed
  moreover have nan: "\<not> f32_is_nan f32_inf" "\<not> f32_is_nan (f32_inf OR 0x80000000)"
    by (simp_all add: f32_inf_def f32_is_nan_def f32_mag_def)
  have "f32_le (ev_min ev ! b) (qc_norm c) \<and> f32_le (qc_norm c) (ev_max ev ! b)"
    if "b < nb" "c \<in> set (slice (b * 32) 32 codes)" "\<not> f32_is_nan (qc_norm c)" for b c
    using f32_min_fold [OF nan(1), of "norms b"] f32_max_fold [OF nan(2), of "norms b"] that
    by (simp add: ev_def norms_def)
  ultimately show ?thesis using ev ms unfolding nb_def [symmetric]
    by (intro exI [of _ ev] conjI allI impI ballI) (simp_all add: ev_def)
qed

theorem envelope_encloses_witness:
  "\<exists>ev. BuildResidentStage1EnvelopeSummary (parsed_cluster_new\<lparr>
      pc_fastscan := Some ([] @ fastscan_region 4 (ci_codes sample_cluster) @ [], length []),
      pc_num_records := 1, pc_num_fastscan := 1, pc_fastscan_size := fastscan_block_bytes 4\<rparr>) 4 = Some ev
    \<and> bit (ev_masks ev ! 0) 10 \<and> \<not> bit (ev_masks ev ! 0) 5"
proof -
  have codes: "\<exists>c. ci_codes sample_cluster = [c] \<and> qc_code c = [5]" by (simp add: sample_cluster_def)
  then obtain c where c: "ci_codes sample_cluster = [c]" "qc_code c = [5]" by blast
  have "code_nibble [5] 4 0 = 10" by code_simp
  then show ?thesis
    using envelope_encloses [of "parsed_cluster_new\<lparr>
      pc_fastscan := Some ([] @ fastscan_region 4 (ci_codes sample_cluster) @ [], length []),
      pc_num_records := 1, pc_num_fastscan := 1, pc_fastscan_size := fastscan_block_bytes 4\<rparr>" "[]" 4
      "ci_codes sample_cluster" "[]"] c
    by (auto simp: slice_def)
qed

end
