(* ===== verification/Fastscan.thy ===== *)
theory Fastscan
  imports Resident_View
begin

text \<open>
  The integer part of FastScan (src/simd/fastscan.cpp): the lookup tables built from a quantised query and
  \<open>AccumulateBlock\<close>, which adds up the table entries of 32 packed codes, for the three builds; and the upper
  bound on these sums that the stage-1 envelope uses (src/index/cluster_prober.cpp).
  Reads and writes outside a buffer are \<open>None\<close>.
\<close>

section \<open>The layout of the tables\<close>

definition kFastScanLutPerIter :: "simd_build \<Rightarrow> nat" where
  "kFastScanLutPerIter build = (case build of AVX512 \<Rightarrow> 4 | AVX2 \<Rightarrow> 2 | Scalar \<Rightarrow> 1)"

definition kFastScanCodePerIter :: "simd_build \<Rightarrow> nat" where
  "kFastScanCodePerIter build = (case build of AVX512 \<Rightarrow> 128 | AVX2 \<Rightarrow> 64 | Scalar \<Rightarrow> 32)"

definition kFastScanHiOffset :: "simd_build \<Rightarrow> nat" where
  "kFastScanHiOffset build = (case build of AVX512 \<Rightarrow> 64 | AVX2 \<Rightarrow> 32 | Scalar \<Rightarrow> 16)"

definition LutGroupWriteBase :: "simd_build \<Rightarrow> nat \<Rightarrow> nat" where
  "LutGroupWriteBase build group_idx =
     group_idx div kFastScanLutPerIter build * kFastScanCodePerIter build
     + group_idx mod kFastScanLutPerIter build * 16"

section \<open>The 16 entries of a group\<close>

definition lut_v_min :: "int \<Rightarrow> int \<Rightarrow> int \<Rightarrow> int \<Rightarrow> int" where
  "lut_v_min q0 q1 q2 q3 = min q0 0 + min q1 0 + min q2 0 + min q3 0"

definition BuildLut16 :: "int \<Rightarrow> int \<Rightarrow> int \<Rightarrow> int \<Rightarrow> u16 list \<times> int" where
  "BuildLut16 q0 q1 q2 q3 =
     (let v_min = lut_v_min q0 q1 q2 q3; bias = - v_min
      in (map of_int [bias, bias + q3, bias + q2, bias + q2 + q3,
            bias + q1, bias + q1 + q3, bias + q1 + q2, bias + q1 + q2 + q3,
            bias + q0, bias + q0 + q3, bias + q0 + q2, bias + q0 + q2 + q3,
            bias + q0 + q1, bias + q0 + q1 + q3, bias + q0 + q1 + q2, bias + q0 + q1 + q2 + q3], v_min))"

text \<open>Registers of eight 16-bit lanes.\<close>

definition epi16_set1 :: "int \<Rightarrow> u16 list" where
  "epi16_set1 x = replicate 8 (of_int x)"

definition BoolMask8x16 :: "bool list \<Rightarrow> u16 list" where
  "BoolMask8x16 bs = map (\<lambda>b. if b then -1 else 0) bs"

definition epi16_add :: "u16 list \<Rightarrow> u16 list \<Rightarrow> u16 list" where
  "epi16_add a b = map2 (+) a b"

definition epi16_and :: "u16 list \<Rightarrow> u16 list \<Rightarrow> u16 list" where
  "epi16_and a b = map2 (AND) a b"

text \<open>\<open>_mm_packus_epi16\<close>: signed lanes saturate to bytes.\<close>

definition packus_epi16 :: "u16 list \<Rightarrow> u16 list \<Rightarrow> bytes" where
  "packus_epi16 a b = map (\<lambda>x. if sint x < 0 then 0 else if 255 < sint x then 255 else ucast x) (a @ b)"

definition BuildLut16Simd :: "int \<Rightarrow> int \<Rightarrow> int \<Rightarrow> int \<Rightarrow> (u16 list \<times> u16 list) \<times> int" where
  "BuildLut16Simd q0 q1 q2 q3 =
     (let v_min = lut_v_min q0 q1 q2 q3; vbias = epi16_set1 (- v_min);
          m1 = BoolMask8x16 [False, False, False, False, True, True, True, True];
          m2 = BoolMask8x16 [False, False, True, True, False, False, True, True];
          m3 = BoolMask8x16 [False, True, False, True, False, True, False, True];
          terms = (\<lambda>start. epi16_add (epi16_add (epi16_add start (epi16_and (epi16_set1 q1) m1))
             (epi16_and (epi16_set1 q2) m2)) (epi16_and (epi16_set1 q3) m3))
      in ((terms vbias, terms (epi16_add vbias (epi16_and (epi16_set1 q0) (epi16_set1 (-1))))), v_min))"

definition PackLowBytes16 :: "u16 list \<Rightarrow> u16 list \<Rightarrow> bytes" where
  "PackLowBytes16 lut_lo lut_hi = packus_epi16 (map (\<lambda>x. x AND 0x00FF) lut_lo) (map (\<lambda>x. x AND 0x00FF) lut_hi)"

definition PackHighBytes16 :: "u16 list \<Rightarrow> u16 list \<Rightarrow> bytes" where
  "PackHighBytes16 lut_lo lut_hi = packus_epi16 (map (drop_bit 8) lut_lo) (map (drop_bit 8) lut_hi)"

section \<open>Storing the tables\<close>

definition store_at :: "bytes \<Rightarrow> nat \<Rightarrow> bytes \<Rightarrow> bytes option" where
  "store_at buf off bs = (if off + length bs \<le> length buf
     then Some (take off buf @ bs @ drop (off + length bs) buf) else None)"

definition StoreLutBytePlanesSimd :: "simd_build \<Rightarrow> bytes \<Rightarrow> nat \<Rightarrow> u16 list \<times> u16 list \<Rightarrow> bytes option" where
  "StoreLutBytePlanesSimd build lut fill_lo v = do {
     lut1 \<leftarrow> store_at lut fill_lo (PackLowBytes16 (fst v) (snd v));
     store_at lut1 (fill_lo + kFastScanHiOffset build) (PackHighBytes16 (fst v) (snd v))
   }"

definition StoreLutBytePlanesScalar :: "simd_build \<Rightarrow> bytes \<Rightarrow> nat \<Rightarrow> u16 list \<Rightarrow> bytes option" where
  "StoreLutBytePlanesScalar build lut fill_lo entries = do {
     lut1 \<leftarrow> store_at lut fill_lo (map (\<lambda>x. ucast (x AND 0xFF)) entries);
     store_at lut1 (fill_lo + kFastScanHiOffset build) (map (\<lambda>x. ucast (drop_bit 8 x)) entries)
   }"

text \<open>The accumulated shift is an \<open>int32_t\<close>; a sum outside it is undefined.\<close>

definition int32_add :: "int \<Rightarrow> int \<Rightarrow> int option" where
  "int32_add a b = (if - 2147483648 \<le> a + b \<and> a + b < 2147483648 then Some (a + b) else None)"

definition BuildLutAndStoreGroup ::
    "simd_build \<Rightarrow> bytes \<Rightarrow> nat \<Rightarrow> int \<Rightarrow> int \<Rightarrow> int \<Rightarrow> int \<Rightarrow> int \<Rightarrow> (bytes \<times> int) option" where
  "BuildLutAndStoreGroup build lut_out group_idx q0 q1 q2 q3 total_shift =
     (if uses_avx2 build then
        let (v, v_min) = BuildLut16Simd q0 q1 q2 q3
        in do {
          shift \<leftarrow> int32_add total_shift v_min;
          lut \<leftarrow> StoreLutBytePlanesSimd build lut_out (LutGroupWriteBase build group_idx) v;
          Some (lut, shift)
        }
      else
        let (v, v_min) = BuildLut16 q0 q1 q2 q3
        in do {
          shift \<leftarrow> int32_add total_shift v_min;
          lut \<leftarrow> StoreLutBytePlanesScalar build lut_out (LutGroupWriteBase build group_idx) v;
          Some (lut, shift)
        })"

text \<open>The quantised query: \<open>int16_t\<close> values, promoted to \<open>int\<close>.\<close>

fun build_groups :: "simd_build \<Rightarrow> 16 word list \<Rightarrow> nat list \<Rightarrow> bytes \<times> int \<Rightarrow> (bytes \<times> int) option" where
  "build_groups build qq [] st = Some st"
| "build_groups build qq (i # is) st =
     (if length qq < 4 * i + 4 then None
      else do {
        st1 \<leftarrow> BuildLutAndStoreGroup build (fst st) i (sint (qq ! (4 * i))) (sint (qq ! (4 * i + 1)))
           (sint (qq ! (4 * i + 2))) (sint (qq ! (4 * i + 3))) (snd st);
        build_groups build qq is st1
      })"

definition BuildFastScanLUTReference :: "simd_build \<Rightarrow> 16 word list \<Rightarrow> bytes \<Rightarrow> nat \<Rightarrow> (bytes \<times> int) option" where
  "BuildFastScanLUTReference build quant_query lut_out dim =
     build_groups build quant_query [0..<dim div 4] (lut_out, 0)"

definition BuildFastScanLUT :: "simd_build \<Rightarrow> 16 word list \<Rightarrow> bytes \<Rightarrow> nat \<Rightarrow> (bytes \<times> int) option" where
  "BuildFastScanLUT build quant_query lut_out dim = BuildFastScanLUTReference build quant_query lut_out dim"

section \<open>Accumulation with vector registers\<close>

text \<open>A register of \<open>n\<close> bytes and its 16-bit lanes.\<close>

definition to_epi16 :: "bytes \<Rightarrow> u16 list" where
  "to_epi16 bs = map (\<lambda>i. ucast (bs ! (2 * i)) + 256 * ucast (bs ! (2 * i + 1))) [0..<length bs div 2]"

definition of_epi16 :: "u16 list \<Rightarrow> bytes" where
  "of_epi16 ws = concat (map (\<lambda>w. [ucast w, ucast (drop_bit 8 w)]) ws)"

definition shuffle_epi8 :: "bytes \<Rightarrow> bytes \<Rightarrow> bytes" where
  "shuffle_epi8 tbl idx = map (\<lambda>j. if bit (idx ! j) 7 then 0 else tbl ! (16 * (j div 16) + unat (idx ! j AND 15)))
     [0..<length idx]"

definition low_nibbles :: "bytes \<Rightarrow> bytes" where
  "low_nibbles c = map (\<lambda>b. b AND 15) c"

definition high_nibbles :: "bytes \<Rightarrow> bytes" where
  "high_nibbles c = map (\<lambda>b. b AND 15) (of_epi16 (map (drop_bit 4) (to_epi16 c)))"

text \<open>The four accumulators of a plane: even and odd bytes together and the odd bytes alone, for the low and for
  the high nibbles.\<close>

record plane_accu =
  pa_lo :: "u16 list"
  pa_lo_odd :: "u16 list"
  pa_hi :: "u16 list"
  pa_hi_odd :: "u16 list"

definition InitAccumulators :: "nat \<Rightarrow> plane_accu" where
  "InitAccumulators n = (let z = replicate (n div 2) 0 in \<lparr>pa_lo = z, pa_lo_odd = z, pa_hi = z, pa_hi_odd = z\<rparr>)"

definition plane_step :: "bytes \<Rightarrow> bytes \<Rightarrow> plane_accu \<Rightarrow> plane_accu" where
  "plane_step lut_vec c a =
     (let res_lo = to_epi16 (shuffle_epi8 lut_vec (low_nibbles c));
          res_hi = to_epi16 (shuffle_epi8 lut_vec (high_nibbles c))
      in \<lparr>pa_lo = epi16_add (pa_lo a) res_lo, pa_lo_odd = epi16_add (pa_lo_odd a) (map (drop_bit 8) res_lo),
          pa_hi = epi16_add (pa_hi a) res_hi, pa_hi_odd = epi16_add (pa_hi_odd a) (map (drop_bit 8) res_hi)\<rparr>)"

definition AccumulateStep :: "nat \<Rightarrow> bytes \<Rightarrow> bytes \<Rightarrow> nat \<Rightarrow> plane_accu \<times> plane_accu \<Rightarrow> (plane_accu \<times> plane_accu) option" where
  "AccumulateStep n packed_codes lut s accu = do {
     c \<leftarrow> rd packed_codes (s * n) n;
     lut0 \<leftarrow> rd lut (s * (2 * n)) n;
     lut1 \<leftarrow> rd lut (s * (2 * n) + n) n;
     Some (plane_step lut0 c (fst accu), plane_step lut1 c (snd accu))
   }"

fun accumulate_steps ::
    "nat \<Rightarrow> bytes \<Rightarrow> bytes \<Rightarrow> nat list \<Rightarrow> plane_accu \<times> plane_accu \<Rightarrow> (plane_accu \<times> plane_accu) option" where
  "accumulate_steps n packed_codes lut [] accu = Some accu"
| "accumulate_steps n packed_codes lut (s # ss) accu =
     (case AccumulateStep n packed_codes lut s accu of
        None \<Rightarrow> None
      | Some accu1 \<Rightarrow> accumulate_steps n packed_codes lut ss accu1)"

text \<open>The number of steps: unrolled chunks of 64 or 32 dimensions, or one step per \<open>k\<close> groups.\<close>

definition step_count :: "nat \<Rightarrow> nat \<Rightarrow> nat" where
  "step_count k dim =
     (if dim mod 64 = 0 then dim div 64 * (16 div k)
      else if dim mod 32 = 0 then dim div 32 * (8 div k)
      else (dim div 4 + k - 1) div k)"

definition permute_21 :: "'a list \<Rightarrow> 'a list \<Rightarrow> 'a list" where
  "permute_21 a b = drop 8 a @ take 8 b"

definition blend_f0 :: "'a list \<Rightarrow> 'a list \<Rightarrow> 'a list" where
  "blend_f0 a b = take 8 a @ drop 8 b"

definition even_bytes :: "u16 list \<Rightarrow> u16 list \<Rightarrow> u16 list" where
  "even_bytes both odd_ones = map2 (-) both (map (push_bit 8) odd_ones)"

text \<open>AVX-512: the two 256-bit halves are added in 16 bits, their 128-bit halves in 32 bits.\<close>

definition reduce512 :: "u16 list \<Rightarrow> u16 list \<Rightarrow> u32 list" where
  "reduce512 both odd_ones =
     (let tmp1 = epi16_add (take 16 odd_ones) (drop 16 odd_ones);
          tmp0 = even_bytes (epi16_add (take 16 both) (drop 16 both)) tmp1
      in map2 (+) (map ucast (permute_21 tmp0 tmp1)) (map ucast (blend_f0 tmp0 tmp1)))"

text \<open>AVX2: both halves are added in 16 bits.\<close>

definition reduce256 :: "u16 list \<Rightarrow> u16 list \<Rightarrow> u32 list" where
  "reduce256 both odd_ones =
     (let tmp0 = even_bytes both odd_ones
      in map ucast (epi16_add (permute_21 tmp0 odd_ones) (blend_f0 tmp0 odd_ones)))"

definition StoreAccumulators :: "(u16 list \<Rightarrow> u16 list \<Rightarrow> u32 list) \<Rightarrow> plane_accu \<times> plane_accu \<Rightarrow> u32 list" where
  "StoreAccumulators reduce accu =
     (case accu of (p0, p1) \<Rightarrow>
        map2 (\<lambda>a b. a + push_bit 8 b) (reduce (pa_lo p0) (pa_lo_odd p0)) (reduce (pa_lo p1) (pa_lo_odd p1))
        @ map2 (\<lambda>a b. a + push_bit 8 b) (reduce (pa_hi p0) (pa_hi_odd p0)) (reduce (pa_hi p1) (pa_hi_odd p1)))"

section \<open>Accumulation in scalar code\<close>

text \<open>One step of the scalar loop takes two groups from 32 bytes of codes and 64 bytes of tables.\<close>

definition scalar_lookup :: "bytes \<Rightarrow> nat \<Rightarrow> nat \<Rightarrow> u8 \<Rightarrow> u32" where
  "scalar_lookup tables lo hi nib = ucast (tables ! (lo + unat nib)) + push_bit 8 (ucast (tables ! (hi + unat nib)))"

definition scalar_step :: "bytes \<Rightarrow> bytes \<Rightarrow> nat \<Rightarrow> u32 list \<Rightarrow> u32 list option" where
  "scalar_step packed_codes lut p result = do {
     tables \<leftarrow> rd lut (p * 64) 64;
     codes \<leftarrow> rd packed_codes (p * 32) 32;
     Some (map (\<lambda>v. let byte0 = codes ! (v mod 16); byte1 = codes ! (16 + v mod 16)
                    in result ! v + scalar_lookup tables 0 32 (pair_nibble (16 \<le> v) byte0)
                       + scalar_lookup tables 16 48 (pair_nibble (16 \<le> v) byte1)) [0..<32])
   }"

fun scalar_steps :: "bytes \<Rightarrow> bytes \<Rightarrow> nat list \<Rightarrow> u32 list \<Rightarrow> u32 list option" where
  "scalar_steps packed_codes lut [] result = Some result"
| "scalar_steps packed_codes lut (p # ps) result =
     (case scalar_step packed_codes lut p result of
        None \<Rightarrow> None
      | Some result1 \<Rightarrow> scalar_steps packed_codes lut ps result1)"

definition AccumulateBlock :: "simd_build \<Rightarrow> bytes \<Rightarrow> bytes \<Rightarrow> nat \<Rightarrow> u32 list option" where
  "AccumulateBlock build packed_codes lut dim =
     (case build of
        AVX512 \<Rightarrow> map_option (StoreAccumulators reduce512)
          (accumulate_steps 64 packed_codes lut [0..<step_count 4 dim] (InitAccumulators 64, InitAccumulators 64))
      | AVX2 \<Rightarrow> map_option (StoreAccumulators reduce256)
          (accumulate_steps 32 packed_codes lut [0..<step_count 2 dim] (InitAccumulators 32, InitAccumulators 32))
      | Scalar \<Rightarrow> scalar_steps packed_codes lut [0..<(dim div 4 + 1) div 2] (replicate 32 0))"

section \<open>The bound of the envelope\<close>

definition FastScanLutValue :: "simd_build \<Rightarrow> bytes \<Rightarrow> nat \<Rightarrow> nat \<Rightarrow> u32 option" where
  "FastScanLutValue build lut group_idx nibble =
     (let base = LutGroupWriteBase build group_idx
      in if length lut \<le> base + kFastScanHiOffset build + nibble then None
         else Some (ucast (lut ! (base + nibble)) OR push_bit 8 (ucast (lut ! (base + kFastScanHiOffset build + nibble)))))"

text \<open>The loop over the set bits of a mask, lowest first.\<close>

definition group_max :: "simd_build \<Rightarrow> bytes \<Rightarrow> nat \<Rightarrow> u16 \<Rightarrow> u32 option" where
  "group_max build lut g present =
     map_option (foldl max 0) (collect (FastScanLutValue build lut g) (filter (bit present) [0..<16]))"

definition FastScanRawAccumulatorUpperBoundFromPresence :: "simd_build \<Rightarrow> u16 list \<Rightarrow> bytes \<Rightarrow> nat \<Rightarrow> u32 option" where
  "FastScanRawAccumulatorUpperBoundFromPresence build presence_masks lut dim =
     (if length presence_masks < dim div 4 then None
      else map_option sum_list (collect (\<lambda>g. group_max build lut g (presence_masks ! g)) [0..<dim div 4]))"

definition FastScanRawAccumulatorUpperBound :: "simd_build \<Rightarrow> ptr \<Rightarrow> bytes \<Rightarrow> nat \<Rightarrow> nat \<Rightarrow> u32 option" where
  "FastScanRawAccumulatorUpperBound build packed_codes lut dim count = do {
     masks \<leftarrow> collect (\<lambda>g. FastScanPresenceMaskForGroup packed_codes g count) [0..<dim div 4];
     FastScanRawAccumulatorUpperBoundFromPresence build masks lut dim
   }"


section \<open>Both table builders write the same bytes\<close>

definition lut_entry :: "int \<Rightarrow> int \<Rightarrow> int \<Rightarrow> int \<Rightarrow> nat \<Rightarrow> int" where
  "lut_entry q0 q1 q2 q3 e = - lut_v_min q0 q1 q2 q3 + (if bit e 3 then q0 else 0) + (if bit e 2 then q1 else 0)
     + (if bit e 1 then q2 else 0) + (if bit e 0 then q3 else 0)"

lemma upt16: "[0..<16] = [0, 1, 2, 3, 4, 5, 6, 7, 8, 9, 10, 11, 12, 13, 14, 15 :: nat]"
  by (simp add: upt_rec)

lemma replicate8: "replicate 8 x = [x, x, x, x, x, x, x, x]"
  by (simp add: numeral_eq_Suc)

lemma BuildLut16_entries:
  "BuildLut16 q0 q1 q2 q3 = (map (\<lambda>e. of_int (lut_entry q0 q1 q2 q3 e)) [0..<16], lut_v_min q0 q1 q2 q3)"
  unfolding upt16
  by (simp add: BuildLut16_def lut_entry_def Let_def bit_iff_odd)

lemma BuildLut16Simd_entries:
  "BuildLut16Simd q0 q1 q2 q3 = ((map (\<lambda>e. of_int (lut_entry q0 q1 q2 q3 e)) [0..<8],
     map (\<lambda>e. of_int (lut_entry q0 q1 q2 q3 e)) [8..<16]), lut_v_min q0 q1 q2 q3)"
  by (simp add: BuildLut16Simd_def lut_entry_def Let_def epi16_set1_def replicate8 BoolMask8x16_def epi16_and_def
      epi16_add_def upt_rec bit_iff_odd)

lemma sint_small16:
  fixes x :: u16
  assumes "unat x < 32768"
  shows "sint x = int (unat x)"
proof -
  have "int (unat x) < 32768" using assms by linarith
  then have "uint x < 2 ^ 15" by (simp only: uint_nat [symmetric]) simp
  then have "signed_take_bit 15 (uint x) = uint x" by (intro signed_take_bit_int_eq_self) (simp_all add: order_trans [OF _ uint_ge_0])
  then show ?thesis by (simp add: sint_uint)
qed

lemma packus_small:
  assumes "\<forall>x \<in> set (a @ b). unat x < 256"
  shows "packus_epi16 a b = map ucast (a @ b)"
  unfolding packus_epi16_def
proof (rule map_cong [OF refl])
  fix x assume "x \<in> set (a @ b)"
  then have "unat x < 256" using assms by blast
  then have "sint x = int (unat x)" "int (unat x) < 256" using sint_small16 [of x] by linarith+
  then show "(if sint x < 0 then 0 else if 255 < sint x then 255 else ucast x) = (ucast x :: u8)" by (simp only: if_False not_less) (simp split: if_splits)
qed

lemma low_byte_small: "unat (x AND 255 :: u16) < 256"
  using word_and_le1 [of x 255] by (simp add: word_le_nat_alt)

lemma high_byte_small: "unat (drop_bit 8 x :: u16) < 256"
proof -
  have "unat x < 65536" using unsigned_less [of x] by simp
  then show ?thesis by (simp only: unsigned_drop_bit_eq) (simp add: take_bit_nat_eq_self drop_bit_eq_div)
qed

lemma ucast_low_byte: "(ucast (x AND 255 :: u16) :: u8) = ucast x"
proof -
  have "x AND 255 = take_bit 8 x" by (simp add: take_bit_eq_mask mask_eq_exp_minus_1)
  then show ?thesis by (simp only:) (rule word_eq_bitsI, simp add: bit_simps)
qed

text \<open>The plane \<open>p\<close> byte of an entry.\<close>

definition table_byte :: "nat \<Rightarrow> u16 \<Rightarrow> u8" where
  "table_byte p x = ucast (drop_bit (8 * p) x)"

lemma PackBytes16:
  "PackLowBytes16 a b = map (table_byte 0) (a @ b)"
  "PackHighBytes16 a b = map (table_byte 1) (a @ b)"
  unfolding PackLowBytes16_def PackHighBytes16_def table_byte_def
  by (subst packus_small; auto simp: low_byte_small high_byte_small ucast_low_byte)+

definition group_entries :: "16 word list \<Rightarrow> nat \<Rightarrow> u16 list" where
  "group_entries qq g = map (\<lambda>e. of_int (lut_entry (sint (qq ! (4 * g))) (sint (qq ! (4 * g + 1)))
     (sint (qq ! (4 * g + 2))) (sint (qq ! (4 * g + 3))) e)) [0..<16]"

lemma length_group_entries [simp]: "length (group_entries qq g) = 16"
  by (simp add: group_entries_def)

definition group_v_min :: "16 word list \<Rightarrow> nat \<Rightarrow> int" where
  "group_v_min qq g = lut_v_min (sint (qq ! (4 * g))) (sint (qq ! (4 * g + 1))) (sint (qq ! (4 * g + 2)))
     (sint (qq ! (4 * g + 3)))"

lemma BuildLutAndStoreGroup_eq:
  "BuildLutAndStoreGroup build lut g (sint (qq ! (4 * g))) (sint (qq ! (4 * g + 1))) (sint (qq ! (4 * g + 2)))
      (sint (qq ! (4 * g + 3))) shift = do {
     shift1 \<leftarrow> int32_add shift (group_v_min qq g);
     lut1 \<leftarrow> store_at lut (LutGroupWriteBase build g) (map (table_byte 0) (group_entries qq g));
     lut2 \<leftarrow> store_at lut1 (LutGroupWriteBase build g + kFastScanHiOffset build) (map (table_byte 1) (group_entries qq g));
     Some (lut2, shift1)
   }"
proof -
  have "[0..<16] = [0..<8] @ [8..<16 :: nat]" by (simp add: upt_rec)
  then obtain a b where ab: "group_entries qq g = a @ b"
      "BuildLut16Simd (sint (qq ! (4 * g))) (sint (qq ! (4 * g + 1))) (sint (qq ! (4 * g + 2))) (sint (qq ! (4 * g + 3)))
        = ((a, b), group_v_min qq g)"
    unfolding BuildLut16Simd_entries group_entries_def group_v_min_def by (metis map_append)
  have scalar: "map (\<lambda>x. ucast (x AND 255)) xs = map (table_byte 0) xs" "map (\<lambda>x. ucast (drop_bit 8 x)) xs = map (table_byte 1) xs"
    for xs by (simp_all add: table_byte_def ucast_low_byte)
  show ?thesis
  proof (cases "uses_avx2 build")
    case True
    then show ?thesis
      unfolding BuildLutAndStoreGroup_def ab
      by (simp add: StoreLutBytePlanesSimd_def PackBytes16 Let_def split: bind_splits)
  next
    case False
    moreover have "BuildLut16 (sint (qq ! (4 * g))) (sint (qq ! (4 * g + 1))) (sint (qq ! (4 * g + 2))) (sint (qq ! (4 * g + 3)))
        = (group_entries qq g, group_v_min qq g)"
      by (simp only: BuildLut16_entries group_entries_def group_v_min_def)
    ultimately show ?thesis
      unfolding BuildLutAndStoreGroup_def
      by (simp add: StoreLutBytePlanesScalar_def scalar Let_def split: bind_splits)
  qed
qed


section \<open>What the tables hold\<close>

lemma store_at_ok:
  assumes "off + length bs \<le> length buf"
  shows "\<exists>buf'. store_at buf off bs = Some buf' \<and> length buf' = length buf
    \<and> (\<forall>i < length buf. buf' ! i = (if off \<le> i \<and> i < off + length bs then bs ! (i - off) else buf ! i))"
  using assms by (auto simp: store_at_def nth_append)

definition table_pos :: "simd_build \<Rightarrow> nat \<Rightarrow> nat \<Rightarrow> nat \<Rightarrow> nat" where
  "table_pos build g p e = LutGroupWriteBase build g + p * kFastScanHiOffset build + e"

lemma table_pos_eq:
  "table_pos build g p e = ((g div kFastScanLutPerIter build * 2 + p) * kFastScanLutPerIter build
     + g mod kFastScanLutPerIter build) * 16 + e"
  by (cases build) (simp_all add: table_pos_def LutGroupWriteBase_def kFastScanLutPerIter_def kFastScanCodePerIter_def
      kFastScanHiOffset_def algebra_simps)

lemma mixed_radix:
  fixes a b n :: nat
  assumes "a * n + b = a' * n + b'" and "b < n" "b' < n"
  shows "a = a' \<and> b = b'"
proof -
  have parts: "(x * n + y) div n = x" "(x * n + y) mod n = y" if "y < n" for x y using that by simp_all
  show ?thesis using parts [OF assms(2), of a] parts [OF assms(3), of a'] unfolding assms(1) by simp
qed

lemma table_pos_inj:
  assumes "table_pos build g p e = table_pos build g' p' e'" and "p < 2" "p' < 2" "e < 16" "e' < 16"
  shows "g = g' \<and> p = p' \<and> e = e'"
proof -
  let ?k = "kFastScanLutPerIter build"
  have k: "0 < ?k" by (cases build) (simp_all add: kFastScanLutPerIter_def)
  have a: "(g div ?k * 2 + p) * ?k + g mod ?k = (g' div ?k * 2 + p') * ?k + g' mod ?k" "e = e'"
    using mixed_radix [OF assms(1) [unfolded table_pos_eq] assms(4,5)] by simp_all
  have b: "g div ?k * 2 + p = g' div ?k * 2 + p'" "g mod ?k = g' mod ?k" using mixed_radix [OF a(1)] k by simp_all
  have "g div ?k = g' div ?k" "p = p'" using mixed_radix [OF b(1) assms(2,3)] by simp_all
  then show ?thesis using a(2) b(2) by (metis div_mult_mod_eq)
qed

lemma build_groups_append:
  "build_groups build qq (is @ [i]) st = (case build_groups build qq is st of None \<Rightarrow> None
     | Some st1 \<Rightarrow> build_groups build qq [i] st1)"
  by (induction "is" arbitrary: st) (auto split: option.splits bind_splits)

lemma group_v_min_bounds: "- 131072 \<le> group_v_min qq g \<and> group_v_min qq g \<le> 0"
proof -
  have "- 32768 \<le> sint (x :: 16 word)" for x using sint_ge [of x] by simp
  then have "- 32768 \<le> min (sint (x :: 16 word)) 0 \<and> min (sint x) 0 \<le> 0" for x by simp
  from this [of "qq ! (4 * g)"] this [of "qq ! (4 * g + 1)"] this [of "qq ! (4 * g + 2)"] this [of "qq ! (4 * g + 3)"]
  show ?thesis unfolding group_v_min_def lut_v_min_def by linarith
qed

lemma sum_v_min_bounds: "- 131072 * int m \<le> (\<Sum>g<m. group_v_min qq g) \<and> (\<Sum>g<m. group_v_min qq g) \<le> 0"
proof (induction m)
  case (Suc m)
  then show ?case using group_v_min_bounds [of qq m] by simp
qed simp

definition tables_hold :: "simd_build \<Rightarrow> 16 word list \<Rightarrow> nat \<Rightarrow> bytes \<Rightarrow> bool" where
  "tables_hold build qq m lut \<longleftrightarrow> (\<forall>g < m. \<forall>p < 2. \<forall>e < 16.
     table_pos build g p e < length lut \<and> lut ! table_pos build g p e = table_byte p (group_entries qq g ! e))"

lemma build_groups_ok:
  assumes "4 * m \<le> length qq" and "m \<le> 16000"
    and "\<forall>g < m. table_pos build g 1 16 \<le> length lut"
  shows "\<exists>lut'. build_groups build qq [0..<m] (lut, 0) = Some (lut', \<Sum>g<m. group_v_min qq g)
    \<and> length lut' = length lut \<and> tables_hold build qq m lut'"
  using assms
proof (induction m)
  case 0
  then show ?case by (simp add: tables_hold_def)
next
  case (Suc m)
  obtain l where l: "build_groups build qq [0..<m] (lut, 0) = Some (l, \<Sum>g<m. group_v_min qq g)"
      "length l = length lut" "tables_hold build qq m l"
    using Suc.IH Suc.prems by auto
  have fit: "table_pos build m 1 16 \<le> length lut" using Suc.prems(3) by blast
  have sum: "int32_add (\<Sum>g<m. group_v_min qq g) (group_v_min qq m) = Some (\<Sum>g<Suc m. group_v_min qq g)"
    using sum_v_min_bounds [where m = "Suc m" and qq = qq] Suc.prems(2) by (simp add: int32_add_def)
  let ?L0 = "map (table_byte 0) (group_entries qq m)" and ?L1 = "map (table_byte 1) (group_entries qq m)"
  have fit0: "table_pos build m 0 16 \<le> length l" using fit l(2) by (simp add: table_pos_def)
  obtain l1 where l1: "store_at l (table_pos build m 0 0) ?L0 = Some l1" "length l1 = length l"
      "\<forall>i < length l. l1 ! i = (if table_pos build m 0 0 \<le> i \<and> i < table_pos build m 0 0 + 16
         then ?L0 ! (i - table_pos build m 0 0) else l ! i)"
    using store_at_ok [of "table_pos build m 0 0" ?L0 l] fit0 by (auto simp: table_pos_def)
  obtain l2 where l2: "store_at l1 (table_pos build m 1 0) ?L1 = Some l2" "length l2 = length l1"
      "\<forall>i < length l1. l2 ! i = (if table_pos build m 1 0 \<le> i \<and> i < table_pos build m 1 0 + 16
         then ?L1 ! (i - table_pos build m 1 0) else l1 ! i)"
    using store_at_ok [of "table_pos build m 1 0" ?L1 l1] fit l(2) l1(2) by (auto simp: table_pos_def)
  have "build_groups build qq [m] (l, \<Sum>g<m. group_v_min qq g) = Some (l2, \<Sum>g<Suc m. group_v_min qq g)"
    using Suc.prems(1) sum l1(1) l2(1) BuildLutAndStoreGroup_eq [of build l m qq]
    by (simp add: table_pos_def del: One_nat_def)
  then have run: "build_groups build qq [0..<Suc m] (lut, 0) = Some (l2, \<Sum>g<Suc m. group_v_min qq g)"
    using l(1) by (simp only: upt_Suc_append [OF le0] build_groups_append option.case)
  have len: "length l2 = length lut" using l(2) l1(2) l2(2) by simp
  have at: "table_pos build g p e < length lut \<and> l2 ! table_pos build g p e = table_byte p (group_entries qq g ! e)"
    if g: "g < Suc m" and p: "p < 2" and e: "e < 16" for g p e
  proof -
    have inside: "table_pos build g p e < length lut"
    proof -
      have "p = 0 \<or> p = 1" using p by linarith
      then have "table_pos build g p e < table_pos build g 1 16" using e by (auto simp: table_pos_def)
      then show ?thesis using Suc.prems(3) g by (meson less_le_trans)
    qed
    have range: "(table_pos build m q 0 \<le> table_pos build g p e \<and> table_pos build g p e < table_pos build m q 0 + 16)
        \<longleftrightarrow> g = m \<and> p = q" if q: "q < 2" for q
    proof
      assume r: "table_pos build m q 0 \<le> table_pos build g p e \<and> table_pos build g p e < table_pos build m q 0 + 16"
      define d where "d = table_pos build g p e - table_pos build m q 0"
      have "table_pos build m q d = table_pos build m q 0 + d" by (simp only: table_pos_def add_0_right)
      then have "table_pos build g p e = table_pos build m q d" using r d_def by linarith
      moreover have "d < 16" using r unfolding d_def by linarith
      ultimately have "table_pos build g p e = table_pos build m q d" "d < 16" .
      then show "g = m \<and> p = q" using table_pos_inj [of build g p e m q d] p q e by blast
    qed (use e in \<open>simp add: table_pos_def\<close>)
    have off: "table_pos build m q e - table_pos build m q 0 = e" for q by (simp add: table_pos_def)
    have old: "l ! table_pos build g p e = table_byte p (group_entries qq g ! e)" if "g < m"
      using l(3) that p e by (simp add: tables_hold_def)
    show ?thesis
      using inside l1(2,3) l2(3) l(2) range [of 0] range [of 1] off old g p e
      by (cases "g = m"; cases "p = 0") (auto simp: less_Suc_eq numeral_2_eq_2)
  qed
  then show ?case using run len by (auto simp: tables_hold_def)
qed


section \<open>Nibbles, shuffles and lanes\<close>

lemma pair16_or: "(ucast a + 256 * ucast b :: u16) = ucast a OR push_bit 8 (ucast (b :: u8))" for a :: u8
proof -
  have "ucast a + push_bit 8 (ucast b :: u16) = ucast a OR push_bit 8 (ucast b)"
    by (rule disjunctive_add_eq_or) (rule word_eq_bitsI, auto simp: bit_simps dest: bit_imp_le_length)
  then show ?thesis by (simp add: push_bit_eq_mult mult.commute)
qed

lemma bit_pair16: "bit (ucast a + 256 * ucast b :: u16) i \<longleftrightarrow> (if i < 8 then bit a i else i < 16 \<and> bit b (i - 8))"
  for a b :: u8
  unfolding pair16_or by (auto simp: bit_simps dest: bit_imp_le_length)

lemma high_byte_pair16: "drop_bit 8 (ucast a + 256 * ucast b :: u16) = ucast b" for a b :: u8
  by (rule word_eq_bitsI) (auto simp: bit_drop_bit_eq bit_pair16 bit_ucast_iff dest: bit_imp_le_length)

lemma nth_of_epi16:
  assumes "i < length ws"
  shows "of_epi16 ws ! (2 * i) = ucast (ws ! i)" and "of_epi16 ws ! (2 * i + 1) = ucast (drop_bit 8 (ws ! i))"
proof -
  let ?xss = "map (\<lambda>w. [ucast w, ucast (drop_bit 8 w)]) ws"
  have u: "\<And>xs. xs \<in> set ?xss \<Longrightarrow> length xs = 2" by auto
  show "of_epi16 ws ! (2 * i) = ucast (ws ! i)"
    using nth_concat_uniform [where xss = ?xss, OF u, where i = i and j = 0] assms by (simp add: of_epi16_def mult.commute)
  show "of_epi16 ws ! (2 * i + 1) = ucast (drop_bit 8 (ws ! i))"
    using nth_concat_uniform [where xss = ?xss, OF u, where i = i and j = 1] assms by (simp add: of_epi16_def mult.commute)
qed

lemma length_of_epi16 [simp]: "length (of_epi16 ws) = 2 * length ws"
  by (induction ws) (simp_all add: of_epi16_def)

lemma high_nibble_even: "(ucast (drop_bit 4 (ucast a + 256 * ucast b :: u16)) AND 15 :: u8) = drop_bit 4 a AND 15"
  for a b :: u8
  by (rule word_eq_bitsI) (auto simp: nibble_and_15 bit_drop_bit_eq bit_pair16 bit_ucast_iff)

lemma high_nibble_odd:
  "(ucast (drop_bit 8 (drop_bit 4 (ucast a + 256 * ucast b :: u16))) AND 15 :: u8) = drop_bit 4 b AND 15"
  for a b :: u8
  by (rule word_eq_bitsI) (auto simp: nibble_and_15 bit_drop_bit_eq bit_pair16 bit_ucast_iff dest: bit_imp_le_length)

definition nibbles :: "bool \<Rightarrow> bytes \<Rightarrow> bytes" where
  "nibbles h c = map (pair_nibble h) c"

lemma low_nibbles: "low_nibbles c = nibbles False c"
  by (simp add: low_nibbles_def nibbles_def pair_nibble_def)

lemma high_nibbles:
  assumes "length c = 2 * m"
  shows "high_nibbles c = nibbles True c"
proof (rule nth_equalityI)
  show "length (high_nibbles c) = length (nibbles True c)"
    using assms by (simp add: high_nibbles_def nibbles_def to_epi16_def)
  fix j assume "j < length (high_nibbles c)"
  then have j: "j < 2 * m" using assms by (simp add: high_nibbles_def to_epi16_def)
  let ?ws = "map (drop_bit 4) (to_epi16 c)" and ?i = "j div 2"
  have i: "?i < m" using j by simp
  then have w: "?ws ! ?i = drop_bit 4 (ucast (c ! (2 * ?i)) + 256 * ucast (c ! (2 * ?i + 1)))"
    using assms by (simp add: to_epi16_def)
  have il: "?i < length ?ws" using i assms by (simp add: to_epi16_def)
  have jl: "j < length (of_epi16 ?ws)" using j assms by (simp add: to_epi16_def)
  show "high_nibbles c ! j = nibbles True c ! j"
  proof (cases "even j")
    case True
    then have e: "2 * ?i = j" by simp
    show ?thesis
      using nth_of_epi16(1) [OF il] jl j assms w high_nibble_even unfolding e
      by (simp add: high_nibbles_def nibbles_def pair_nibble_def)
  next
    case False
    then have e: "2 * ?i + 1 = j" by simp
    show ?thesis
      using nth_of_epi16(2) [OF il] jl j assms w high_nibble_odd unfolding e
      by (simp add: high_nibbles_def nibbles_def pair_nibble_def)
  qed
qed

lemma not_bit_7_nibble: "\<not> bit (pair_nibble h x) 7"
  by (simp add: pair_nibble_def nibble_and_15)

lemma nibble_again: "pair_nibble h x AND 15 = pair_nibble h x"
  by (simp add: pair_nibble_def and.assoc)

text \<open>Byte \<open>j\<close> of a shuffled table.\<close>

definition lane_byte :: "bool \<Rightarrow> bytes \<Rightarrow> bytes \<Rightarrow> nat \<Rightarrow> u8" where
  "lane_byte h tbl c j = tbl ! (16 * (j div 16) + unat (pair_nibble h (c ! j)))"

lemma shuffle_nibbles: "shuffle_epi8 tbl (nibbles h c) = map (lane_byte h tbl c) [0..<length c]"
  by (auto simp: shuffle_epi8_def nibbles_def lane_byte_def not_bit_7_nibble nibble_again)

definition both_bytes :: "(nat \<Rightarrow> u8) \<Rightarrow> nat \<Rightarrow> u16" where
  "both_bytes f i = ucast (f (2 * i)) + 256 * ucast (f (2 * i + 1))"

lemma to_epi16_map: "to_epi16 (map f [0..<2 * m]) = map (both_bytes f) [0..<m]"
  by (auto simp: to_epi16_def both_bytes_def)

lemma odd_bytes_map: "map (drop_bit 8) (map (both_bytes f) [0..<m]) = map (\<lambda>i. ucast (f (2 * i + 1))) [0..<m]"
  by (auto simp: both_bytes_def high_byte_pair16)


section \<open>The accumulators\<close>

definition step_byte :: "nat \<Rightarrow> bytes \<Rightarrow> bytes \<Rightarrow> nat \<Rightarrow> bool \<Rightarrow> nat \<Rightarrow> nat \<Rightarrow> u8" where
  "step_byte n P L p h s = lane_byte h (slice (s * (2 * n) + p * n) n L) (slice (s * n) n P)"

definition both_sum :: "nat \<Rightarrow> (nat \<Rightarrow> nat \<Rightarrow> u8) \<Rightarrow> nat \<Rightarrow> u16" where
  "both_sum S f i = (\<Sum>s<S. both_bytes (f s) i)"

definition odd_sum :: "nat \<Rightarrow> (nat \<Rightarrow> nat \<Rightarrow> u8) \<Rightarrow> nat \<Rightarrow> u16" where
  "odd_sum S f i = (\<Sum>s<S. ucast (f s (2 * i + 1)))"

definition byte_sum :: "nat \<Rightarrow> (nat \<Rightarrow> nat \<Rightarrow> u8) \<Rightarrow> nat \<Rightarrow> u16" where
  "byte_sum S f j = (\<Sum>s<S. ucast (f s j))"

definition accu_after :: "nat \<Rightarrow> (bool \<Rightarrow> nat \<Rightarrow> nat \<Rightarrow> u8) \<Rightarrow> nat \<Rightarrow> plane_accu" where
  "accu_after m f S = \<lparr>pa_lo = map (both_sum S (f False)) [0..<m], pa_lo_odd = map (odd_sum S (f False)) [0..<m],
     pa_hi = map (both_sum S (f True)) [0..<m], pa_hi_odd = map (odd_sum S (f True)) [0..<m]\<rparr>"

lemma epi16_add_map: "epi16_add (map f xs) (map g xs) = map (\<lambda>i. f i + g i) xs"
  by (simp add: epi16_add_def map2_map_map)

lemma plane_step_sums:
  assumes "length c = 2 * m"
  shows "plane_step tbl c (accu_after m f S)
    = accu_after m (\<lambda>h s. if s = S then lane_byte h tbl c else f h s) (Suc S)"
proof -
  have b: "both_sum (Suc S) (\<lambda>s. if s = S then g else f' s) = (\<lambda>i. both_sum S f' i + both_bytes g i)"
    and o: "odd_sum (Suc S) (\<lambda>s. if s = S then g else f' s) = (\<lambda>i. odd_sum S f' i + ucast (g (2 * i + 1)))" for g f'
    by (simp_all add: both_sum_def odd_sum_def fun_eq_iff)
  show ?thesis
    by (simp add: plane_step_def low_nibbles high_nibbles [OF assms] shuffle_nibbles assms to_epi16_map odd_bytes_map
        accu_after_def epi16_add_map b o Let_def del: map_map)
qed

lemma accu_after_cong:
  assumes "\<And>h s. s < S \<Longrightarrow> f h s = g h s"
  shows "accu_after m f S = accu_after m g S"
  using assms by (simp add: accu_after_def both_sum_def odd_sum_def)

lemma accumulate_steps_append:
  "accumulate_steps n P L (xs @ [x]) a = (case accumulate_steps n P L xs a of None \<Rightarrow> None
     | Some b \<Rightarrow> accumulate_steps n P L [x] b)"
  by (induction xs arbitrary: a) (auto split: option.split)

lemma accumulate_steps_ok:
  assumes "n = 2 * m" and "S * n \<le> length P" and "S * (2 * n) \<le> length L"
  shows "accumulate_steps n P L [0..<S] (InitAccumulators n, InitAccumulators n)
    = Some (accu_after m (step_byte n P L 0) S, accu_after m (step_byte n P L 1) S)"
  using assms(2,3)
proof (induction S)
  case 0
  have "both_sum 0 f = (\<lambda>_. 0)" "odd_sum 0 f = (\<lambda>_. 0)" for f by (simp_all add: both_sum_def odd_sum_def fun_eq_iff)
  then show ?case using assms(1) by (simp add: InitAccumulators_def accu_after_def Let_def map_replicate_const)
next
  case (Suc S)
  have ih: "accumulate_steps n P L [0..<S] (InitAccumulators n, InitAccumulators n)
    = Some (accu_after m (step_byte n P L 0) S, accu_after m (step_byte n P L 1) S)"
    using Suc by simp
  have c: "rd P (S * n) n = Some (slice (S * n) n P)" "length (slice (S * n) n P) = 2 * m"
    using Suc.prems(1) assms(1) by (simp_all add: rd_def)
  have l: "rd L (S * (2 * n)) n = Some (slice (S * (2 * n)) n L)" "rd L (S * (2 * n) + n) n = Some (slice (S * (2 * n) + n) n L)"
    using Suc.prems(2) by (simp_all add: rd_def)
  have "plane_step (slice (S * (2 * n) + p * n) n L) (slice (S * n) n P) (accu_after m (step_byte n P L p) S)
      = accu_after m (step_byte n P L p) (Suc S)" for p
    unfolding plane_step_sums [OF c(2)] by (rule accu_after_cong) (simp add: step_byte_def)
  from this [of 0] this [of 1] show ?case
    using c(1) l by (simp add: upt_Suc_append [OF le0] accumulate_steps_append ih AccumulateStep_def del: upt_Suc)
qed

text \<open>The even bytes without the odd ones.\<close>

lemma even_bytes_sum:
  "even_bytes (map (both_sum S f) xs) (map (odd_sum S f) xs) = map (\<lambda>i. byte_sum S f (2 * i)) xs"
proof -
  have "both_sum S f i - push_bit 8 (odd_sum S f i) = byte_sum S f (2 * i)" for i
    by (simp add: both_sum_def odd_sum_def byte_sum_def both_bytes_def push_bit_eq_mult sum.distrib sum_distrib_left
        mult.commute)
  then show ?thesis by (simp add: even_bytes_def map2_map_map comp_def)
qed

definition out_lane :: "nat \<Rightarrow> nat" where
  "out_lane i = (if i < 8 then 2 * i else 2 * (i - 8) + 1)"

lemma kInvPerm_out_lane: "i < 16 \<Longrightarrow> kInvPerm ! i = out_lane i"
proof -
  have "\<forall>i \<in> set [0..<16]. kInvPerm ! i = out_lane i" by code_simp
  then show "i < 16 \<Longrightarrow> ?thesis" by simp
qed

lemma reduce256_sums:
  "reduce256 (map (both_sum S f) [0..<16]) (map (odd_sum S f) [0..<16])
    = map (\<lambda>i. ucast (byte_sum S f (out_lane i) + byte_sum S f (16 + out_lane i))) [0..<16]"
proof (rule nth_equalityI)
  let ?r = "reduce256 (map (both_sum S f) [0..<16]) (map (odd_sum S f) [0..<16])"
  show len: "length ?r = length (map (\<lambda>i. ucast (byte_sum S f (out_lane i) + byte_sum S f (16 + out_lane i)) :: u32) [0..<16])"
    by (simp add: reduce256_def even_bytes_sum Let_def epi16_add_def permute_21_def blend_f0_def)
  fix i assume "i < length ?r"
  then have i: "i < 16" using len by simp
  have o: "odd_sum S f j = byte_sum S f (2 * j + 1)" for j by (simp add: odd_sum_def byte_sum_def)
  show "?r ! i = map (\<lambda>i. ucast (byte_sum S f (out_lane i) + byte_sum S f (16 + out_lane i))) [0..<16] ! i"
  proof (cases "i < 8")
    case True
    then show ?thesis
      by (simp add: reduce256_def even_bytes_sum Let_def epi16_add_def permute_21_def blend_f0_def nth_append out_lane_def
          add.commute)
  next
    case False
    then have "16 + out_lane i = 2 * i + 1" "out_lane i = 2 * (i - 8) + 1" using i by (simp_all add: out_lane_def)
    then show ?thesis
      using False i
      by (simp add: reduce256_def even_bytes_sum Let_def epi16_add_def permute_21_def blend_f0_def nth_append o)
  qed
qed

lemma reduce512_sums:
  "reduce512 (map (both_sum S f) [0..<32]) (map (odd_sum S f) [0..<32])
    = map (\<lambda>i. ucast (byte_sum S f (out_lane i) + byte_sum S f (32 + out_lane i))
        + ucast (byte_sum S f (16 + out_lane i) + byte_sum S f (48 + out_lane i))) [0..<16]"
proof -
  let ?odd = "\<lambda>i. byte_sum S f (2 * i + 1) + byte_sum S f (32 + (2 * i + 1))"
  let ?even = "\<lambda>i. byte_sum S f (2 * i) + byte_sum S f (32 + 2 * i)"
  have o: "odd_sum S f = (\<lambda>j. byte_sum S f (2 * j + 1))" by (simp add: odd_sum_def byte_sum_def fun_eq_iff)
  have drop: "drop 16 (map h [0..<32]) = map (\<lambda>i. h (i + 16)) [0..<16]" "take 16 (map h [0..<32]) = map h [0..<16]"
    for h :: "nat \<Rightarrow> u16" by (auto intro: nth_equalityI simp: add.commute)
  have tmp1: "epi16_add (take 16 (map (odd_sum S f) [0..<32])) (drop 16 (map (odd_sum S f) [0..<32])) = map ?odd [0..<16]"
    unfolding drop epi16_add_map o by (simp add: algebra_simps)
  have b: "both_sum S f i = byte_sum S f (2 * i) + push_bit 8 (byte_sum S f (2 * i + 1))" for i
    by (simp add: both_sum_def byte_sum_def both_bytes_def push_bit_eq_mult sum.distrib sum_distrib_left mult.commute)
  have tmp0: "even_bytes (epi16_add (take 16 (map (both_sum S f) [0..<32])) (drop 16 (map (both_sum S f) [0..<32])))
      (map ?odd [0..<16]) = map ?even [0..<16]"
    unfolding drop epi16_add_map even_bytes_def map2_map_map map_map comp_def b
    by (simp add: push_bit_eq_mult algebra_simps)
  show ?thesis
    unfolding reduce512_def Let_def tmp1 tmp0
  proof (rule nth_equalityI)
    fix i assume "i < length (map2 (+) (map ucast (permute_21 (map ?even [0..<16]) (map ?odd [0..<16])))
        (map ucast (blend_f0 (map ?even [0..<16]) (map ?odd [0..<16]))) :: u32 list)"
    then have i: "i < 16" by (simp add: permute_21_def blend_f0_def)
    show "map2 (+) (map ucast (permute_21 (map ?even [0..<16]) (map ?odd [0..<16])))
        (map ucast (blend_f0 (map ?even [0..<16]) (map ?odd [0..<16]))) ! i
      = (map (\<lambda>i. ucast (byte_sum S f (out_lane i) + byte_sum S f (32 + out_lane i))
        + ucast (byte_sum S f (16 + out_lane i) + byte_sum S f (48 + out_lane i))) [0..<16] :: u32 list) ! i"
    proof (cases "i < 8")
      case True
      then show ?thesis by (simp add: permute_21_def blend_f0_def nth_append out_lane_def add.commute)
    next
      case False
      then obtain k where "i = 8 + k" using le_Suc_ex not_less by blast
      then show ?thesis using i by (simp add: permute_21_def blend_f0_def nth_append out_lane_def add.commute)
    qed
  qed (simp add: permute_21_def blend_f0_def)
qed


section \<open>The sums\<close>

lemma sum_groups: "(\<Sum>l<k. \<Sum>s<S. F (s * k + l)) = (\<Sum>g<S * k. F g)"
  for F :: "nat \<Rightarrow> 'a :: comm_monoid_add"
proof -
  have "sum F {s * k ..< s * k + k} = (\<Sum>l<k. F (s * k + l))" for s
    using sum.atLeastLessThan_shift_0 [of F "s * k" "s * k + k"] by (simp add: lessThan_atLeast0)
  then have "(\<Sum>s<S. \<Sum>l<k. F (s * k + l)) = (\<Sum>g<S * k. F g)" using sum.nat_group [of F k S] by simp
  then show ?thesis by (subst sum.swap)
qed

definition vec_nibble :: "bytes \<Rightarrow> nat \<Rightarrow> nat \<Rightarrow> nat" where
  "vec_nibble P v g = unat (pair_nibble (16 \<le> v) (P ! (16 * g + lane_pos v)))"

definition vec_entry :: "16 word list \<Rightarrow> bytes \<Rightarrow> nat \<Rightarrow> nat \<Rightarrow> u16" where
  "vec_entry qq P v g = group_entries qq g ! vec_nibble P v g"

lemma lane_pos_out_lane: "v < 32 \<Longrightarrow> lane_pos v = out_lane (v mod 16)"
proof -
  assume "v < 32"
  then have "(if 16 \<le> v then v - 16 else v) = v mod 16" by (simp add: mod_if)
  then show ?thesis by (simp add: lane_pos_def kInvPerm_out_lane)
qed

lemma out_lane_less: "i < 16 \<Longrightarrow> out_lane i < 16"
  unfolding out_lane_def by (simp split: if_split) linarith

lemma step_byte_entry:
  assumes n: "n = 16 * kFastScanLutPerIter build" and l: "l < kFastScanLutPerIter build" and p: "p < 2" and v: "v < 32"
    and g: "s * kFastScanLutPerIter build + l < M" and s: "(s + 1) * (2 * n) \<le> length L" "(s + 1) * n \<le> length P"
    and L: "tables_hold build qq M L"
  shows "step_byte n P L p (16 \<le> v) s (16 * l + lane_pos v)
    = table_byte p (vec_entry qq P v (s * kFastScanLutPerIter build + l))"
proof -
  let ?k = "kFastScanLutPerIter build" and ?j = "16 * l + lane_pos v"
  let ?g = "s * ?k + l"
  have pos: "lane_pos v < 16" using v by (simp add: lane_pos_out_lane out_lane_less)
  then have j: "?j < n" "?j div 16 = l" using n l by simp_all
  have code: "slice (s * n) n P ! ?j = P ! (16 * ?g + lane_pos v)"
    using j(1) s(2) by (subst nth_slice) (simp_all add: n algebra_simps)
  define e where "e = vec_nibble P v ?g"
  have e: "e < 16" by (simp add: e_def vec_nibble_def pair_nibble_small)
  have le: "16 * l + e < n" using l e n by simp
  have pn: "p * n \<le> n" using p by (cases "p = 0") simp_all
  have idx: "s * (2 * n) + p * n + (16 * l + e) = table_pos build ?g p e"
  proof -
    have "?g div ?k = s" "?g mod ?k = l" using l by simp_all
    then show ?thesis unfolding table_pos_eq n by (simp add: algebra_simps)
  qed
  have "slice (s * (2 * n) + p * n) n L ! (16 * l + e) = L ! (s * (2 * n) + p * n + (16 * l + e))"
  proof (rule nth_slice [OF le])
    have "s * (2 * n) + 2 * n \<le> length L" using s(1) by (simp add: algebra_simps)
    then show "s * (2 * n) + p * n + (16 * l + e) < length L" using le pn by linarith
  qed
  also have "\<dots> = table_byte p (group_entries qq ?g ! e)" using L g p e unfolding idx tables_hold_def by blast
  finally show ?thesis
    unfolding step_byte_def lane_byte_def code j(2) vec_entry_def e_def [symmetric] vec_nibble_def [symmetric] .
qed

text \<open>A plane's share of a sum.\<close>

definition plane_total :: "nat \<Rightarrow> 16 word list \<Rightarrow> bytes \<Rightarrow> nat \<Rightarrow> nat \<Rightarrow> nat" where
  "plane_total p qq P v M = (\<Sum>g<M. unat (table_byte p (vec_entry qq P v g)))"

lemma ucast_of_nat_small: "N < 65536 \<Longrightarrow> (ucast (of_nat N :: u16) :: u32) = of_nat N"
  by (simp add: unsigned_of_nat take_bit_nat_eq_self)

lemma byte_sum_of_nat: "byte_sum S f j = of_nat (\<Sum>s<S. unat (f s j))"
  by (simp add: byte_sum_def)

lemma sum_bytes_bound: "(\<Sum>s<S. unat (f s :: u8)) \<le> 255 * S"
proof (induction S)
  case (Suc S)
  then show ?case using unat_bound8 [of "f S"] by simp
qed simp

lemma plane_value256:
  assumes f: "\<And>l s. l < 2 \<Longrightarrow> s < S \<Longrightarrow> f s (16 * l + pos) = table_byte p (vec_entry qq P v (s * 2 + l))"
    and S: "S \<le> 128"
  shows "(ucast (byte_sum S f pos + byte_sum S f (16 + pos)) :: u32) = of_nat (plane_total p qq P v (S * 2))"
proof -
  let ?N = "\<lambda>l. \<Sum>s<S. unat (f s (16 * l + pos))"
  have "(\<Sum>l<2. ?N l) = plane_total p qq P v (S * 2)"
    unfolding plane_total_def sum_groups [symmetric] by (intro sum.cong refl) (simp add: f)
  then have N: "?N 0 + ?N 1 = plane_total p qq P v (S * 2)" by (simp add: numeral_2_eq_2)
  have "?N 0 + ?N 1 < 65536"
    using sum_bytes_bound [of "\<lambda>s. f s (16 * 0 + pos)" S] sum_bytes_bound [of "\<lambda>s. f s (16 * 1 + pos)" S] S by linarith
  then have "(ucast (of_nat (?N 0 + ?N 1) :: u16) :: u32) = of_nat (?N 0 + ?N 1)" by (rule ucast_of_nat_small)
  then show ?thesis unfolding N [symmetric] byte_sum_of_nat by simp
qed

lemma plane_value512:
  assumes f: "\<And>l s. l < 4 \<Longrightarrow> s < S \<Longrightarrow> f s (16 * l + pos) = table_byte p (vec_entry qq P v (s * 4 + l))"
    and S: "S \<le> 128"
  shows "(ucast (byte_sum S f pos + byte_sum S f (32 + pos)) + ucast (byte_sum S f (16 + pos) + byte_sum S f (48 + pos)) :: u32)
    = of_nat (plane_total p qq P v (S * 4))"
proof -
  let ?N = "\<lambda>l. \<Sum>s<S. unat (f s (16 * l + pos))"
  have "(\<Sum>l<4. ?N l) = plane_total p qq P v (S * 4)"
    unfolding plane_total_def sum_groups [symmetric] by (intro sum.cong refl) (simp add: f)
  moreover have "(\<Sum>l<4. ?N l) = ?N 0 + ?N 1 + ?N 2 + ?N 3" by (simp add: eval_nat_numeral)
  ultimately have N: "(?N 0 + ?N 2) + (?N 1 + ?N 3) = plane_total p qq P v (S * 4)" by linarith
  have b: "?N l \<le> 255 * S" for l by (rule sum_bytes_bound)
  have small: "?N 0 + ?N 2 < 65536" "?N 1 + ?N 3 < 65536" using b [of 0] b [of 1] b [of 2] b [of 3] S by linarith+
  show ?thesis
    using ucast_of_nat_small [OF small(1)] ucast_of_nat_small [OF small(2)]
    unfolding N [symmetric] byte_sum_of_nat by simp
qed

lemma planes_total:
  "plane_total 0 qq P v M + 256 * plane_total 1 qq P v M = (\<Sum>g<M. unat (vec_entry qq P v g))"
proof -
  have "unat (table_byte 0 x) + 256 * unat (table_byte 1 x) = unat x" for x
  proof -
    have x: "unat x < 65536" using unsigned_less [of x] by simp
    have "unat (table_byte 0 x) = unat x mod 256"
      by (simp add: table_byte_def unsigned_ucast_eq take_bit_eq_mod)
    moreover have "unat (table_byte 1 x) = unat x div 256"
      unfolding table_byte_def unsigned_ucast_eq unsigned_drop_bit_eq using x
      by (simp add: take_bit_nat_eq_self drop_bit_eq_div)
    ultimately show ?thesis by (simp only: mod_mult_div_eq)
  qed
  then show ?thesis by (simp only: plane_total_def sum_distrib_left sum.distrib [symmetric])
qed


section \<open>A block\<close>

definition vec_total :: "16 word list \<Rightarrow> bytes \<Rightarrow> nat \<Rightarrow> nat \<Rightarrow> nat" where
  "vec_total qq P M v = (\<Sum>g<M. unat (vec_entry qq P v g))"

lemma step_count_groups:
  assumes "dim mod 16 = 0" and "k = 2 \<or> k = 4"
  shows "step_count k dim * k = dim div 4"
proof -
  obtain t where t: "dim = 16 * t" using assms(1) by auto
  have e: "16 * t mod 64 = 16 * (t mod 4)" "16 * t mod 32 = 16 * (t mod 2)" "16 * t div 64 = t div 4" "16 * t div 32 = t div 2"
    using mult_mod_right [of 16 t 4] mult_mod_right [of 16 t 2] div_mult_mult1 [of 16 t 4] div_mult_mult1 [of 16 t 2] by simp_all
  have q: "16 * t div 4 = 4 * t" by simp
  show ?thesis
    unfolding t step_count_def e q
  proof (cases "t mod 4 = 0")
    case True
    then show "(if 16 * (t mod 4) = 0 then t div 4 * (16 div k) else if 16 * (t mod 2) = 0 then t div 2 * (8 div k)
        else (4 * t + k - 1) div k) * k = 4 * t" using assms(2) by auto
  next
    case False
    have "t mod 2 = 0 \<Longrightarrow> t div 2 * 2 = t" by presburger
    moreover have "(4 * t + 2 - 1) div 2 * 2 = 4 * t" "(4 * t + 4 - 1) div 4 * 4 = 4 * t" by presburger+
    ultimately show "(if 16 * (t mod 4) = 0 then t div 4 * (16 div k) else if 16 * (t mod 2) = 0 then t div 2 * (8 div k)
        else (4 * t + k - 1) div k) * k = 4 * t" using assms(2) False by auto
  qed
qed

lemma combine_planes: "(of_nat A + push_bit 8 (of_nat B) :: u32) = of_nat (A + 256 * B)"
  by (simp add: push_bit_eq_mult)

lemma upt32: "[0..<32] = [0..<16] @ map (\<lambda>i. i + 16) [0..<16 :: nat]"
  by (simp add: map_add_upt upt_add_eq_append [of 0 16 16, simplified])

text \<open>What a reduction must give for the output lanes.\<close>

definition reduces :: "(u16 list \<Rightarrow> u16 list \<Rightarrow> u32 list) \<Rightarrow> nat \<Rightarrow> 16 word list \<Rightarrow> bytes \<Rightarrow> nat \<Rightarrow>
    (nat \<Rightarrow> bool \<Rightarrow> nat \<Rightarrow> nat \<Rightarrow> u8) \<Rightarrow> nat \<Rightarrow> bool" where
  "reduces reduce m qq P M f S \<longleftrightarrow> (\<forall>p < 2. \<forall>h. reduce (map (both_sum S (f p h)) [0..<m]) (map (odd_sum S (f p h)) [0..<m])
     = map (\<lambda>i. of_nat (plane_total p qq P (if h then i + 16 else i) M)) [0..<16])"

lemma StoreAccumulators_sums:
  assumes "reduces reduce m qq P M f S"
  shows "StoreAccumulators reduce (accu_after m (f 0) S, accu_after m (f 1) S)
    = map (\<lambda>v. of_nat (vec_total qq P M v)) [0..<32]"
proof -
  have r: "reduce (map (both_sum S (f p h)) [0..<m]) (map (odd_sum S (f p h)) [0..<m])
      = map (\<lambda>i. of_nat (plane_total p qq P (if h then i + 16 else i) M)) [0..<16]" if "p < 2" for p h
    using assms that by (simp add: reduces_def)
  note r0 = r [of 0] and r1 = r [of 1]
  have "map2 (\<lambda>a b. a + push_bit 8 b)
      (map (\<lambda>i. of_nat (plane_total 0 qq P (c i) M)) [0..<16]) (map (\<lambda>i. of_nat (plane_total 1 qq P (c i) M)) [0..<16])
    = map (\<lambda>i. of_nat (vec_total qq P M (c i)) :: u32) [0..<16]" for c
    by (simp only: map2_map_map combine_planes planes_total vec_total_def)
  from this [of "\<lambda>i. i"] this [of "\<lambda>i. i + 16"] show ?thesis
    unfolding upt32 map_append map_map comp_def
    by (simp add: StoreAccumulators_def accu_after_def r0 r1 del: of_nat_add of_nat_mult One_nat_def)
qed

lemma AccumulateBlock_sums:
  assumes build: "uses_avx2 build" and dim: "dim mod 16 = 0" "dim \<le> 512 * kFastScanLutPerIter build"
    and L: "tables_hold build qq (dim div 4) L" "dim * 8 \<le> length L" and P: "dim * 4 \<le> length P"
  shows "AccumulateBlock build P L dim = Some (map (\<lambda>v. of_nat (vec_total qq P (dim div 4) v)) [0..<32])"
proof -
  let ?k = "kFastScanLutPerIter build"
  define n where "n = 16 * ?k"
  define S where "S = step_count ?k dim"
  have k: "?k = 2 \<or> ?k = 4" using build by (auto simp: uses_avx2_def kFastScanLutPerIter_def)
  have Sk: "S * ?k = dim div 4" unfolding S_def by (rule step_count_groups [OF dim(1) k])
  have d: "dim div 4 * 4 = dim" using dim(1) by presburger
  have S: "S \<le> 128" using Sk dim(2) k by auto
  have Sn: "S * n = dim * 4" using Sk d by (simp add: n_def)
  then have S2n: "S * (2 * n) = dim * 8" by simp
  let ?f = "step_byte n P L"
  have f: "?f p (16 \<le> v) s (16 * l + lane_pos v) = table_byte p (vec_entry qq P v (s * ?k + l))"
    if "l < ?k" "s < S" "p < 2" "v < 32" for p v s l
  proof (rule step_byte_entry [OF n_def that(1,3,4) _ _ _ L(1)])
    have "(s + 1) * ?k \<le> S * ?k" "(s + 1) * (2 * n) \<le> S * (2 * n)" "(s + 1) * n \<le> S * n"
      using that(2) by (intro mult_le_mono1; simp)+
    then show "s * ?k + l < dim div 4" "(s + 1) * (2 * n) \<le> length L" "(s + 1) * n \<le> length P"
      using that(1) Sk Sn S2n L(2) P by simp_all
  qed
  have h: "(16 \<le> (if h then i + 16 else i)) = h" "lane_pos (if h then i + 16 else i) = out_lane i"
    "(if h then i + 16 else i) < 32" if "i < 16" for h and i :: nat
    using that by (auto simp: lane_pos_out_lane)
  have fi: "?f p h s (16 * l + out_lane i) = table_byte p (vec_entry qq P (if h then i + 16 else i) (s * ?k + l))"
    if "i < 16" "l < ?k" "s < S" "p < 2" for p h s l i
    using f [OF that(2-4) h(3) [OF that(1)], of h] h(1,2) [OF that(1)] by simp
  have run: "accumulate_steps n P L [0..<S] (InitAccumulators n, InitAccumulators n)
      = Some (accu_after (n div 2) (?f 0) S, accu_after (n div 2) (?f 1) S)"
    by (rule accumulate_steps_ok) (use Sn S2n L(2) P in \<open>simp_all add: n_def\<close>)
  show ?thesis
  proof (cases build)
    case AVX2
    then have k2: "?k = 2" "n = 32" by (simp_all add: kFastScanLutPerIter_def n_def)
    have "reduces reduce256 16 qq P (dim div 4) ?f S"
      unfolding reduces_def reduce256_sums Sk [symmetric] k2(1)
      by (intro allI impI map_cong refl plane_value256 S) (use fi [unfolded k2(1)] in simp)
    then show ?thesis
      using run StoreAccumulators_sums [of reduce256 16 qq P "dim div 4" ?f S] k2 AVX2
      by (simp add: AccumulateBlock_def S_def)
  next
    case AVX512
    then have k4: "?k = 4" "n = 64" by (simp_all add: kFastScanLutPerIter_def n_def)
    have "reduces reduce512 32 qq P (dim div 4) ?f S"
      unfolding reduces_def reduce512_sums Sk [symmetric] k4(1)
      by (intro allI impI map_cong refl plane_value512 S) (use fi [unfolded k4(1)] in simp)
    then show ?thesis
      using run StoreAccumulators_sums [of reduce512 32 qq P "dim div 4" ?f S] k4 AVX512
      by (simp add: AccumulateBlock_def S_def)
  qed (use build in \<open>simp add: uses_avx2_def\<close>)
qed


section \<open>Inner products\<close>

text \<open>The specification: the sum of the quantised query over the dimensions whose sign bit is set.\<close>

definition sign_ip :: "16 word list \<Rightarrow> u64 list \<Rightarrow> nat \<Rightarrow> int" where
  "sign_ip qq code dim = (\<Sum>d<dim. if code_bit code d then sint (qq ! d) else 0)"

definition quantised :: "16 word list \<Rightarrow> bool" where
  "quantised qq \<longleftrightarrow> (\<forall>q \<in> set qq. - 8191 \<le> sint q \<and> sint q \<le> 8191)"

lemma lut_entry_range:
  assumes "\<forall>q \<in> {q0, q1, q2, q3}. - 8191 \<le> q \<and> q \<le> 8191"
  shows "0 \<le> lut_entry q0 q1 q2 q3 e \<and> lut_entry q0 q1 q2 q3 e < 65536"
proof -
  have part: "min q 0 \<le> (if b then q else 0) \<and> (if b then q else 0) - min q 0 \<le> 8191"
    if "- 8191 \<le> q" "q \<le> 8191" for b and q :: int
    using that by auto
  show ?thesis
    using part [of q0 "bit e 3"] part [of q1 "bit e 2"] part [of q2 "bit e 1"] part [of q3 "bit e 0"] assms
    unfolding lut_entry_def lut_v_min_def by simp
qed

lemma unat_of_int16: "0 \<le> z \<Longrightarrow> z < 65536 \<Longrightarrow> int (unat (of_int z :: u16)) = z"
  by (simp add: unsigned_of_int take_bit_int_eq_self)

lemma group_entry_value:
  assumes q: "quantised qq" "dim \<le> length qq" and g: "g < dim div 4"
  shows "int (unat (group_entries qq g ! unat (code_nibble code dim g))) =
    (\<Sum>b<4. if code_bit code (g * 4 + b) then sint (qq ! (g * 4 + b)) else 0) - group_v_min qq g"
proof -
  define e where "e = unat (code_nibble code dim g)"
  have bits: "bit e i \<longleftrightarrow> i < 4 \<and> code_bit code (g * 4 + (3 - i))" for i
    unfolding e_def bit_unsigned_iff code_nibble_bits [OF g] by simp
  have e: "e < 16"
  proof -
    have "code_nibble code dim g AND 15 = code_nibble code dim g"
      by (rule word_eq_bitsI) (auto simp: nibble_and_15 code_nibble_bits [OF g])
    then show ?thesis using word_and_le1 [of "code_nibble code dim g" 15] by (simp add: e_def word_le_nat_alt)
  qed
  have in_q: "4 * g + b < length qq" if "b < 4" for b using g q(2) that by linarith
  have range: "\<forall>x \<in> {sint (qq ! (4 * g)), sint (qq ! (4 * g + 1)), sint (qq ! (4 * g + 2)), sint (qq ! (4 * g + 3))}.
      - 8191 \<le> x \<and> x \<le> 8191"
    using q(1) in_q [of 0] in_q [of 1] in_q [of 2] in_q [of 3] by (auto simp: quantised_def)
  have "int (unat (group_entries qq g ! e)) = lut_entry (sint (qq ! (4 * g))) (sint (qq ! (4 * g + 1)))
      (sint (qq ! (4 * g + 2))) (sint (qq ! (4 * g + 3))) e"
    using e unat_of_int16 lut_entry_range [OF range, of e] by (simp add: group_entries_def)
  also have "\<dots> = (\<Sum>b<4. if code_bit code (g * 4 + b) then sint (qq ! (g * 4 + b)) else 0) - group_v_min qq g"
    unfolding lut_entry_def bits group_v_min_def by (simp add: eval_nat_numeral ac_simps)
  finally show ?thesis by (simp only: e_def)
qed

lemma vec_nibble_code:
  assumes "v < num" and "num \<le> 32" and "g < dim div 4"
  shows "vec_nibble (pack_pairs codes num dim @ z) v g = unat (code_nibble (codes ! v) dim g)"
proof -
  have v: "v < 32" using assms by simp
  have off: "g div 2 * 32 + (if odd g then 16 else 0) = 16 * g"
    by (cases "odd g") (auto elim!: oddE evenE)
  have "16 * g + 16 \<le> length (pack_pairs codes num dim)"
  proof -
    have "g < (dim div 4 + 1) div 2 * 2" using assms(3) by linarith
    then show ?thesis unfolding length_pack_pairs by linarith
  qed
  moreover have "lane_pos v < 16" using v by (simp add: lane_pos_out_lane out_lane_less)
  ultimately have "slice (16 * g) 16 (pack_pairs codes num dim @ z) ! lane_pos v = (pack_pairs codes num dim @ z) ! (16 * g + lane_pos v)"
    by (intro nth_slice) simp_all
  then show ?thesis using group_nibble [OF assms, of codes z] by (simp add: vec_nibble_def off)
qed

lemma vec_total_value:
  assumes "quantised qq" and "dim \<le> length qq" and "dim mod 4 = 0" and "v < num" and "num \<le> 32"
  shows "int (vec_total qq (pack_pairs codes num dim @ z) (dim div 4) v) + (\<Sum>g<dim div 4. group_v_min qq g)
    = sign_ip qq (codes ! v) dim"
proof -
  let ?M = "dim div 4" and ?P = "pack_pairs codes num dim @ z"
  let ?F = "\<lambda>d. if code_bit (codes ! v) d then sint (qq ! d) else 0"
  have d: "?M * 4 = dim" using assms(3) by presburger
  have "int (vec_total qq ?P ?M v) = (\<Sum>g<?M. int (unat (vec_entry qq ?P v g)))" by (simp add: vec_total_def)
  also have "\<dots> = (\<Sum>g<?M. (\<Sum>b<4. ?F (g * 4 + b)) - group_v_min qq g)"
  proof (rule sum.cong [OF refl])
    fix g assume "g \<in> {..<?M}"
    then have g: "g < ?M" by simp
    show "int (unat (vec_entry qq ?P v g)) = (\<Sum>b<4. ?F (g * 4 + b)) - group_v_min qq g"
      unfolding vec_entry_def vec_nibble_code [OF assms(4,5) g] by (rule group_entry_value [OF assms(1,2) g])
  qed
  also have "\<dots> = (\<Sum>g<?M. \<Sum>b<4. ?F (g * 4 + b)) - (\<Sum>g<?M. group_v_min qq g)" by (rule sum_subtractf)
  also have "(\<Sum>g<?M. \<Sum>b<4. ?F (g * 4 + b)) = (\<Sum>d<dim. ?F d)"
    using sum_groups [where F = ?F and k = 4 and S = ?M] by (subst sum.swap) (simp only: d)
  finally show ?thesis by (simp add: sign_ip_def)
qed

lemma tables_fit:
  assumes "dim mod 16 = 0" and "dim * 8 \<le> len" and "g < dim div 4"
  shows "table_pos build g 1 16 \<le> len"
proof -
  let ?k = "kFastScanLutPerIter build"
  have k: "?k dvd dim div 4" "0 < ?k"
    using assms(1) by (cases build; simp add: kFastScanLutPerIter_def; presburger)+
  then obtain t where t: "dim div 4 = ?k * t" by blast
  have gt: "g div ?k < t" using assms(3) k(2) unfolding t by (simp add: div_less_iff_less_mult mult.commute)
  then have "(g div ?k + 1) * ?k \<le> t * ?k" by (intro mult_le_mono1) simp
  moreover have "g mod ?k < ?k" using k(2) by simp
  moreover have "table_pos build g 1 16 = (2 * (g div ?k * ?k) + ?k + g mod ?k) * 16 + 16"
    unfolding table_pos_eq by (simp add: algebra_simps)
  ultimately have "table_pos build g 1 16 \<le> 32 * (dim div 4)" unfolding t by (simp add: algebra_simps)
  then show ?thesis using assms(2) by linarith
qed

lemma built_tables:
  assumes "dim mod 16 = 0" and "dim \<le> 2048" and "dim \<le> length qq" and "dim * 8 \<le> length lut0"
  shows "\<exists>lut. BuildFastScanLUT build qq lut0 dim = Some (lut, \<Sum>g<dim div 4. group_v_min qq g)
    \<and> length lut = length lut0 \<and> tables_hold build qq (dim div 4) lut"
  unfolding BuildFastScanLUT_def BuildFastScanLUTReference_def
  by (rule build_groups_ok) (use assms tables_fit [OF assms(1,4)] in auto)

lemma vec_total_bound: "M \<le> 512 \<Longrightarrow> vec_total qq P M v < 4294967296"
proof -
  assume M: "M \<le> 512"
  have "vec_total qq P M v \<le> (\<Sum>g<M. 65535)"
    unfolding vec_total_def
  proof (rule sum_mono)
    fix g
    have "unat (vec_entry qq P v g) < 2 ^ LENGTH(16)" by (rule unsigned_less)
    then show "unat (vec_entry qq P v g) \<le> 65535" by simp
  qed
  then show ?thesis using M by simp
qed

lemma lut_per_iter_limit: "512 * kFastScanLutPerIter build \<le> 2048"
  by (cases build) (simp_all add: kFastScanLutPerIter_def)

lemma fastscan_block:
  assumes "uses_avx2 build" and "dim mod 16 = 0" and "dim \<le> 512 * kFastScanLutPerIter build"
    and "length qq = dim" and "dim * 8 \<le> length lut0"
    and "num \<le> 32" and "num \<le> length codes" and "\<forall>code \<in> set (take num codes). dim \<le> length code * 64"
  shows "\<exists>z lut. PackSignBitsForFastScan codes num dim = Some (pack_pairs codes num dim @ z)
    \<and> BuildFastScanLUT build qq lut0 dim = Some (lut, \<Sum>g<dim div 4. group_v_min qq g)
    \<and> tables_hold build qq (dim div 4) lut
    \<and> AccumulateBlock build (pack_pairs codes num dim @ z) lut dim
      = Some (map (\<lambda>v. of_nat (vec_total qq (pack_pairs codes num dim @ z) (dim div 4) v)) [0..<32])"
proof -
  have dim: "dim \<le> 2048" using assms(3) lut_per_iter_limit [of build] by linarith
  obtain z where pk: "PackSignBitsForFastScan codes num dim = Some (pack_pairs codes num dim @ z)"
    using PackSignBits_Some [OF assms(7,6,8)] by blast
  have P: "dim * 4 \<le> length (pack_pairs codes num dim @ z)" using assms(2) by (simp add: length_pack_pairs) presburger
  obtain lut where lut: "BuildFastScanLUT build qq lut0 dim = Some (lut, \<Sum>g<dim div 4. group_v_min qq g)"
      "length lut = length lut0" "tables_hold build qq (dim div 4) lut"
    using built_tables [OF assms(2) dim, of qq lut0 build] assms(4,5) by auto
  then have len: "dim * 8 \<le> length lut" using assms(5) by simp
  show ?thesis by (intro exI conjI) (rule pk lut(1,3) AccumulateBlock_sums [OF assms(1-3) lut(3) len P])+
qed

lemma unat_vec_total: "dim \<le> 2048 \<Longrightarrow> unat (of_nat (vec_total qq P (dim div 4) v) :: u32) = vec_total qq P (dim div 4) v"
  using vec_total_bound [of "dim div 4" qq P v] by (simp add: unsigned_of_nat take_bit_nat_eq_self)

text \<open>C4: In the AVX2 and AVX-512 builds, for a query quantised to 14 bits and up to 32 packed codes, in dimensions that are
  a multiple of 16 and at most 1024 (AVX2) or 2048 (AVX-512), \<open>AccumulateBlock\<close> over the tables of \<open>BuildFastScanLUT\<close> returns,
  once the accumulated shift is added, exactly the inner product of the quantised query with the sign bits of each code.\<close>

theorem fastscan_inner_products:
  assumes "uses_avx2 build" and "dim mod 16 = 0" and "dim \<le> 512 * kFastScanLutPerIter build"
    and "length qq = dim" and "dim * 8 \<le> length lut0"
    and "num \<le> 32" and "num \<le> length codes" and "\<forall>code \<in> set (take num codes). dim \<le> length code * 64"
    and "quantised qq"
  shows "\<exists>packed lut shift res. PackSignBitsForFastScan codes num dim = Some packed
    \<and> BuildFastScanLUT build qq lut0 dim = Some (lut, shift)
    \<and> AccumulateBlock build packed lut dim = Some res \<and> length res = 32
    \<and> (\<forall>v < num. int (unat (res ! v)) + shift = sign_ip qq (codes ! v) dim)"
proof -
  have dim: "dim \<le> 2048" using assms(3) lut_per_iter_limit [of build] by linarith
  have dim4: "dim mod 4 = 0" using assms(2) by presburger
  obtain z lut where b: "PackSignBitsForFastScan codes num dim = Some (pack_pairs codes num dim @ z)"
      "BuildFastScanLUT build qq lut0 dim = Some (lut, \<Sum>g<dim div 4. group_v_min qq g)"
      "AccumulateBlock build (pack_pairs codes num dim @ z) lut dim
      = Some (map (\<lambda>v. of_nat (vec_total qq (pack_pairs codes num dim @ z) (dim div 4) v)) [0..<32])"
    using fastscan_block [OF assms(1-8)] by (elim exE conjE) (rule that)
  have "int (unat (of_nat (vec_total qq (pack_pairs codes num dim @ z) (dim div 4) v) :: u32))
      + (\<Sum>g<dim div 4. group_v_min qq g) = sign_ip qq (codes ! v) dim" if "v < num" for v
    unfolding unat_vec_total [OF dim] using vec_total_value [OF assms(9) _ dim4 that assms(6)] assms(4) by simp
  then have v: "int (unat (map (\<lambda>v. of_nat (vec_total qq (pack_pairs codes num dim @ z) (dim div 4) v) :: u32) [0..<32] ! v))
      + (\<Sum>g<dim div 4. group_v_min qq g) = sign_ip qq (codes ! v) dim" if "v < num" for v
    using that assms(6) by simp
  show ?thesis by (intro exI conjI allI impI) (rule b v | simp)+
qed

theorem fastscan_inner_products_witness:
  "\<exists>packed lut shift res. PackSignBitsForFastScan [[3]] 1 16 = Some packed
    \<and> BuildFastScanLUT AVX2 (-5 # 3 # replicate 14 7) (replicate 128 0) 16 = Some (lut, shift)
    \<and> AccumulateBlock AVX2 packed lut 16 = Some res \<and> int (unat (res ! 0)) + shift = -2"
proof -
  have q: "quantised (-5 # 3 # replicate 14 7)" by (auto simp: quantised_def)
  have code: "code_bit [3] d \<longleftrightarrow> d < 2" if "d < 16" for d
    using bit_low_mask_pow [of 2 d, where 'a = 64] that by (simp add: code_bit_def)
  have "sign_ip (-5 # 3 # replicate 14 7) [3] 16
      = (\<Sum>d<16. if d < 2 then sint ((-5 # 3 # replicate 14 7 :: 16 word list) ! d) else 0)"
    unfolding sign_ip_def by (rule sum.cong) (simp_all add: code)
  also have "\<dots> = -2" by (simp add: eval_nat_numeral)
  finally have "sign_ip (-5 # 3 # replicate 14 7) [3] 16 = -2" .
  then show ?thesis
    using fastscan_inner_products [of AVX2 16 "-5 # 3 # replicate 14 7" "replicate 128 0" 1 "[[3]]"] q
    by (auto simp: uses_avx2_def kFastScanLutPerIter_def)
qed

section \<open>The bound of the envelope\<close>

lemma unat_bound16: "unat (w :: u16) < 65536"
  using unsigned_less [of w] by simp

lemma FastScanLutValue_entry:
  assumes "tables_hold build qq M lut" and "g < M" and "e < 16"
  shows "FastScanLutValue build lut g e = Some (ucast (group_entries qq g ! e))"
proof -
  let ?x = "group_entries qq g ! e"
  have at: "lut ! (LutGroupWriteBase build g + e) = table_byte 0 ?x"
    "lut ! (LutGroupWriteBase build g + kFastScanHiOffset build + e) = table_byte 1 ?x"
    "LutGroupWriteBase build g + kFastScanHiOffset build + e < length lut"
    using assms unfolding tables_hold_def table_pos_def by (force dest: spec [of _ "0 :: nat"] spec [of _ "1 :: nat"])+
  have "(ucast (table_byte 0 ?x) OR push_bit 8 (ucast (table_byte 1 ?x)) :: u32) = ucast ?x"
    by (rule word_eq_bitsI) (auto simp: bit_simps table_byte_def dest: bit_imp_le_length)
  then show ?thesis using at by (simp add: FastScanLutValue_def Let_def)
qed

lemma foldl_max_ge: "(a \<le> foldl max a xs) \<and> (\<forall>x \<in> set xs. x \<le> foldl max a xs)" for a :: "'a :: linorder"
proof (induction xs arbitrary: a)
  case (Cons y ys)
  show ?case using Cons.IH [of "max a y"] by simp
qed simp

lemma foldl_max_in: "foldl max a xs \<in> insert a (set xs)" for a :: "'a :: linorder"
proof (induction xs arbitrary: a)
  case (Cons y ys)
  then show ?case using Cons.IH [of "max a y"] by (auto simp: max_def split: if_splits)
qed simp

lemma unat_sum_list32:
  assumes "(\<Sum>g<n. unat (f g :: u32)) < 4294967296"
  shows "unat (sum_list (map f [0..<n])) = (\<Sum>g<n. unat (f g))"
proof -
  define N where "N = (\<Sum>g<n. unat (f g))"
  have "sum_list (map f [0..<n]) = of_nat N"
    by (simp add: N_def interv_sum_list_conv_sum_set_nat lessThan_atLeast0)
  then show ?thesis using assms by (simp add: N_def [symmetric] unsigned_of_nat take_bit_nat_eq_self)
qed

lemma presence_bound:
  assumes tables: "tables_hold build qq M lut" "M \<le> 512" "M = dim div 4" and len: "length masks = M"
  shows "\<exists>bound. FastScanRawAccumulatorUpperBoundFromPresence build masks lut dim = Some bound
    \<and> (\<forall>P v. (\<forall>g < M. bit (masks ! g) (vec_nibble P v g)) \<longrightarrow> vec_total qq P M v \<le> unat bound)"
proof -
  define m :: "nat \<Rightarrow> u32" where
    "m g = foldl max 0 (map (\<lambda>e. ucast (group_entries qq g ! e)) (filter (bit (masks ! g)) [0..<16]))" for g
  have gm: "group_max build lut g (masks ! g) = Some (m g)" if "g < M" for g
  proof -
    have "collect (FastScanLutValue build lut g) (filter (bit (masks ! g)) [0..<16])
        = Some (map (\<lambda>e. ucast (group_entries qq g ! e)) (filter (bit (masks ! g)) [0..<16]))"
      by (rule collect_eq) (use FastScanLutValue_entry [OF tables(1) that] in auto)
    then show ?thesis by (simp add: group_max_def m_def)
  qed
  have small: "unat (m g) \<le> 65535" for g
  proof -
    have "m g \<in> insert 0 (range (ucast :: u16 \<Rightarrow> u32))" unfolding m_def using foldl_max_in by fastforce
    moreover have "unat (ucast (x :: u16) :: u32) \<le> 65535" for x
    proof -
      show ?thesis using unat_bound16 [of x] by (simp add: unsigned_ucast_eq take_bit_nat_eq_self)
    qed
    ultimately show ?thesis by auto
  qed
  have "(\<Sum>g<M. unat (m g)) \<le> (\<Sum>g<M. 65535)" by (rule sum_mono) (rule small)
  then have lim: "(\<Sum>g<M. unat (m g)) < 4294967296" using tables(2) by simp
  have "collect (\<lambda>g. group_max build lut g (masks ! g)) [0..<M] = Some (map m [0..<M])"
    by (rule collect_eq) (use gm in auto)
  then have run: "FastScanRawAccumulatorUpperBoundFromPresence build masks lut dim = Some (sum_list (map m [0..<M]))"
    using len tables(3) by (simp add: FastScanRawAccumulatorUpperBoundFromPresence_def)
  have "vec_total qq P M v \<le> (\<Sum>g<M. unat (m g))" if "\<forall>g < M. bit (masks ! g) (vec_nibble P v g)" for P v
    unfolding vec_total_def
  proof (rule sum_mono)
    fix g assume "g \<in> {..<M}"
    then have b: "bit (masks ! g) (vec_nibble P v g)" using that by simp
    then have "vec_nibble P v g < 16" using bit_imp_le_length by fastforce
    then have "ucast (vec_entry qq P v g) \<le> m g"
      unfolding m_def vec_entry_def using b by (intro foldl_max_ge [THEN conjunct2, rule_format]) simp
    then show "unat (vec_entry qq P v g) \<le> unat (m g)"
      using unat_bound16 [of "vec_entry qq P v g"] by (simp add: word_le_nat_alt unsigned_ucast_eq take_bit_nat_eq_self)
  qed
  then show ?thesis using run unat_sum_list32 [OF lim] by auto
qed

lemma block_presence:
  assumes "num \<le> 32" and "g < dim div 4"
  shows "\<exists>present. FastScanPresenceMaskForGroup (pack_pairs codes num dim @ z, 0) g num = Some present
    \<and> (\<forall>x. bit present x \<longleftrightarrow> (\<exists>v < num. unat (code_nibble (codes ! v) dim g) = x))"
proof -
  define gb where "gb = slice (g div 2 * 32 + (if odd g then 16 else 0)) 16 (pack_pairs codes num dim @ z)"
  have "g < (dim div 4 + 1) div 2 * 2" using assms(2) by linarith
  then have "g div 2 * 32 + (if odd g then 16 else 0) + 16 \<le> length (pack_pairs codes num dim @ z)"
    unfolding length_append length_pack_pairs by (cases "odd g") (auto elim!: oddE evenE)
  then have "FastScanPresenceMaskForGroup (pack_pairs codes num dim @ z, 0) g num = Some (FastScanPresenceMaskTail gb num)"
    using assms(1) mask_full
    by (cases "num = 32") (simp_all add: FastScanPresenceMaskForGroup_def prd_def rd_def gb_def)
  moreover have "bit (FastScanPresenceMaskTail gb num) x \<longleftrightarrow> (\<exists>v < num. unat (code_nibble (codes ! v) dim g) = x)" for x
    unfolding bit_mask_tail using group_nibble [OF _ assms, of _ codes z, folded gb_def] by metis
  ultimately show ?thesis by blast
qed


text \<open>C5: In the same builds and dimensions, both forms of the envelope's bound, from the packed block and from the resident
  summary (whose masks hold the patterns of the block's codes), are the same number, and no lane of \<open>AccumulateBlock\<close>
  exceeds it.\<close>

theorem envelope_bounds_every_lane:
  assumes "uses_avx2 build" and "dim mod 16 = 0" and "dim \<le> 512 * kFastScanLutPerIter build"
    and "length qq = dim" and "dim * 8 \<le> length lut0"
    and "num \<le> 32" and "num \<le> length codes" and "\<forall>code \<in> set (take num codes). dim \<le> length code * 64"
    and "length masks = dim div 4"
    and "\<forall>g < dim div 4. \<forall>x. bit (masks ! g) x \<longleftrightarrow> (\<exists>v < num. unat (code_nibble (codes ! v) dim g) = x)"
  shows "\<exists>packed lut shift res bound. PackSignBitsForFastScan codes num dim = Some packed
    \<and> BuildFastScanLUT build qq lut0 dim = Some (lut, shift) \<and> AccumulateBlock build packed lut dim = Some res
    \<and> FastScanRawAccumulatorUpperBound build (packed, 0) lut dim num = Some bound
    \<and> FastScanRawAccumulatorUpperBoundFromPresence build masks lut dim = Some bound
    \<and> (\<forall>v < num. res ! v \<le> bound)"
proof -
  have dim: "dim \<le> 2048" "dim div 4 \<le> 512" using assms(3) lut_per_iter_limit [of build] by linarith+
  obtain z lut where b: "PackSignBitsForFastScan codes num dim = Some (pack_pairs codes num dim @ z)"
      "BuildFastScanLUT build qq lut0 dim = Some (lut, \<Sum>g<dim div 4. group_v_min qq g)"
      "tables_hold build qq (dim div 4) lut"
      "AccumulateBlock build (pack_pairs codes num dim @ z) lut dim
      = Some (map (\<lambda>v. of_nat (vec_total qq (pack_pairs codes num dim @ z) (dim div 4) v)) [0..<32])"
    using fastscan_block [OF assms(1-8)] by (elim exE conjE) (rule that)
  let ?P = "pack_pairs codes num dim @ z"
  obtain bound where bd: "FastScanRawAccumulatorUpperBoundFromPresence build masks lut dim = Some bound"
      "\<And>P v. \<forall>g < dim div 4. bit (masks ! g) (vec_nibble P v g) \<Longrightarrow> vec_total qq P (dim div 4) v \<le> unat bound"
    using presence_bound [OF b(3) dim(2) refl assms(9)] by blast
  have mask: "FastScanPresenceMaskForGroup (?P, 0) g num = Some (masks ! g)" if g: "g < dim div 4" for g
  proof -
    obtain present where p: "FastScanPresenceMaskForGroup (?P, 0) g num = Some present"
        "\<And>x. bit present x \<longleftrightarrow> (\<exists>v < num. unat (code_nibble (codes ! v) dim g) = x)"
      using block_presence [OF assms(6) g, of codes z] by blast
    have "present = masks ! g" by (rule bit_word_eqI) (use p(2) assms(10) g in blast)
    then show ?thesis using p(1) by simp
  qed
  have "collect (\<lambda>g. FastScanPresenceMaskForGroup (?P, 0) g num) [0..<dim div 4] = Some (map ((!) masks) [0..<dim div 4])"
    by (rule collect_eq) (use mask in auto)
  then have "collect (\<lambda>g. FastScanPresenceMaskForGroup (?P, 0) g num) [0..<dim div 4] = Some masks"
    by (simp only: assms(9) [symmetric] map_nth)
  then have full: "FastScanRawAccumulatorUpperBound build (?P, 0) lut dim num = Some bound"
    using bd(1) by (simp add: FastScanRawAccumulatorUpperBound_def)
  have "of_nat (vec_total qq ?P (dim div 4) v) \<le> bound" if v: "v < num" for v
  proof -
    have "bit (masks ! g) (vec_nibble ?P v g)" if "g < dim div 4" for g
      unfolding vec_nibble_code [OF v assms(6) that]
      by (rule assms(10) [rule_format, OF that, THEN iffD2]) (intro exI [of _ v] conjI v refl)
    then have "vec_total qq ?P (dim div 4) v \<le> unat bound" using bd(2) by blast
    then show ?thesis unfolding word_le_nat_alt unat_vec_total [OF dim(1)] .
  qed
  then show ?thesis using b(1,2,4) full bd(1) assms(6) by (intro exI conjI) auto
qed

theorem envelope_bounds_every_lane_witness:
  "\<exists>packed lut shift res bound. PackSignBitsForFastScan [[3], [1]] 2 16 = Some packed
    \<and> BuildFastScanLUT AVX512 (-5 # 3 # replicate 14 7) (replicate 128 0) 16 = Some (lut, shift)
    \<and> AccumulateBlock AVX512 packed lut 16 = Some res
    \<and> FastScanRawAccumulatorUpperBound AVX512 (packed, 0) lut 16 2 = Some bound \<and> res ! 0 \<le> bound \<and> res ! 1 \<le> bound"
proof -
  define masks :: "u16 list" where
    "masks = map (\<lambda>g. push_bit (unat (code_nibble [3] 16 g)) 1 OR push_bit (unat (code_nibble [1] 16 g)) 1) [0..<4]"
  have small: "unat (code_nibble c 16 g) < 16" if "g < 4" for c g
  proof -
    have "code_nibble c 16 g AND 15 = code_nibble c 16 g"
      by (rule word_eq_bitsI) (use that in \<open>auto simp: nibble_and_15 code_nibble_bits\<close>)
    then show ?thesis using word_and_le1 [of "code_nibble c 16 g" 15] by (simp add: word_le_nat_alt)
  qed
  have "bit (masks ! g) x \<longleftrightarrow> (\<exists>v < 2. unat (code_nibble ([[3], [1]] ! v) 16 g) = x)" if "g < 4" for g x
    using small [OF that, of "[3]"] small [OF that, of "[1]"] that
    by (auto simp: masks_def bit_or_iff bit_push_bit_iff bit_1_iff less_2_cases_iff simp del: push_bit_of_1)
  then have "\<forall>g < 16 div 4. \<forall>x. bit (masks ! g) x \<longleftrightarrow> (\<exists>v < 2. unat (code_nibble ([[3], [1]] ! v) 16 g) = x)"
    by simp
  then have "\<exists>packed lut shift res bound. PackSignBitsForFastScan [[3], [1]] 2 16 = Some packed
    \<and> BuildFastScanLUT AVX512 (-5 # 3 # replicate 14 7) (replicate 128 0) 16 = Some (lut, shift)
    \<and> AccumulateBlock AVX512 packed lut 16 = Some res
    \<and> FastScanRawAccumulatorUpperBound AVX512 (packed, 0) lut 16 2 = Some bound
    \<and> FastScanRawAccumulatorUpperBoundFromPresence AVX512 masks lut 16 = Some bound \<and> (\<forall>v < 2. res ! v \<le> bound)"
    by (intro envelope_bounds_every_lane) (simp_all add: uses_avx2_def kFastScanLutPerIter_def masks_def)
  then show ?thesis by (metis one_less_numeral_iff semiring_norm(76) zero_less_numeral)
qed


section \<open>The scalar build\<close>

text \<open>The scalar loop takes byte \<open>v\<close> of a group for vector \<open>v\<close>, although the bytes are permuted, and reads the tables in
  the layout of the AVX2 build.  With two codes that differ in the first dimension, where the query is 1, the second code's
  inner product 1 ends up at another vector.\<close>

lemma scalar_block_packed:
  "PackSignBitsForFastScan [[0], [1]] 2 8 = Some (0 # 0 # 8 # replicate 29 0)"
proof -
  have "pack_pair (flat_matrix [[0], [1]] 2 8) 1 2 0 = 0 # 0 # 8 # replicate 29 0" by code_simp
  then show ?thesis by (simp add: PackSignBitsForFastScan_def FastScanPackedSize_def)
qed

lemma scalar_accumulate_permuted:
  "BuildFastScanLUT Scalar (1 # replicate 7 0) (replicate 64 0) 8 = Some (replicate 8 0 @ replicate 8 1 @ replicate 48 0, 0)"
  "AccumulateBlock Scalar (0 # 0 # 8 # replicate 29 0) (replicate 8 0 @ replicate 8 1 @ replicate 48 0) 8
    = Some ([0, 0, 1] @ replicate 29 0)"
  "sign_ip (1 # replicate 7 0) [1] 8 = 1"
  by code_simp+

end
