(* ===== verification/Async_Reader.thy ===== *)
theory Async_Reader
  imports Status_Model "HOL-Library.Multiset"
begin

text \<open>
  The I/O back ends behind \<open>AsyncReader\<close> (include/vdb/query/async_reader.h):
  \<open>PreadFallbackReader\<close> (src/query/pread_fallback_reader.cpp) and \<open>IoUringReader\<close>
  (src/query/io_uring_reader.cpp).  What the kernel and liburing answer is an argument of each
  operation.  \<open>async_reader\<close> is the contract of the interface: a tag given to \<open>PrepRead\<close> comes back
  from \<open>Poll\<close> or \<open>WaitAndPoll\<close> exactly once; it is interpreted for both back ends.
\<close>

section \<open>The interface\<close>

record completion =
  ic_buffer :: nat
  ic_user_data :: nat
  ic_result :: int

datatype io_event = Prepared nat | Silent | Delivered "nat list"

fun prepared_tags :: "io_event list \<Rightarrow> nat multiset" where
  "prepared_tags [] = {#}"
| "prepared_tags (Prepared t # es) = add_mset t (prepared_tags es)"
| "prepared_tags (Silent # es) = prepared_tags es"
| "prepared_tags (Delivered ts # es) = prepared_tags es"

fun delivered_tags :: "io_event list \<Rightarrow> nat multiset" where
  "delivered_tags [] = {#}"
| "delivered_tags (Prepared t # es) = delivered_tags es"
| "delivered_tags (Silent # es) = delivered_tags es"
| "delivered_tags (Delivered ts # es) = mset ts + delivered_tags es"

inductive io_run :: "('s \<Rightarrow> io_event \<Rightarrow> 's \<Rightarrow> bool) \<Rightarrow> 's \<Rightarrow> io_event list \<Rightarrow> 's \<Rightarrow> bool"
  for step :: "'s \<Rightarrow> io_event \<Rightarrow> 's \<Rightarrow> bool" where
  io_run_Nil: "io_run step s [] s"
| io_run_Cons: "step s e t \<Longrightarrow> io_run step t es u \<Longrightarrow> io_run step s (e # es) u"

inductive_cases io_run_NilE: "io_run step s [] t"
inductive_cases io_run_ConsE: "io_run step s (e # es) u"
inductive_simps io_run_simps: "io_run step s [] t" "io_run step s (e # es) u"

locale async_reader =
  fixes inv :: "'s \<Rightarrow> bool"
    and undelivered :: "'s \<Rightarrow> nat multiset"
    and step :: "'s \<Rightarrow> io_event \<Rightarrow> 's \<Rightarrow> bool"
  assumes step_inv: "inv s \<Longrightarrow> step s e s' \<Longrightarrow> inv s'"
    and step_prepared: "inv s \<Longrightarrow> step s (Prepared t) s' \<Longrightarrow> undelivered s' = add_mset t (undelivered s)"
    and step_silent: "inv s \<Longrightarrow> step s Silent s' \<Longrightarrow> undelivered s' = undelivered s"
    and step_delivered: "inv s \<Longrightarrow> step s (Delivered ts) s' \<Longrightarrow> undelivered s = mset ts + undelivered s'"
begin

lemma run_inv: "io_run step s es s' \<Longrightarrow> inv s \<Longrightarrow> inv s'"
  by (induction rule: io_run.induct) (auto intro: step_inv)

lemma run_balance:
  "io_run step s es s' \<Longrightarrow> inv s \<Longrightarrow>
     undelivered s + prepared_tags es = undelivered s' + delivered_tags es"
proof (induction rule: io_run.induct)
  case (io_run_Nil s)
  show ?case by simp
next
  case (io_run_Cons s e t es u)
  have ih: "undelivered t + prepared_tags es = undelivered u + delivered_tags es"
    using io_run_Cons step_inv by blast
  show ?case
  proof (cases e)
    case (Prepared x)
    then have "undelivered t = add_mset x (undelivered s)"
      using io_run_Cons step_prepared by blast
    then show ?thesis using ih Prepared by simp
  next
    case Silent
    then have "undelivered t = undelivered s" using io_run_Cons step_silent by blast
    then show ?thesis using ih Silent by simp
  next
    case (Delivered ts)
    then have "undelivered s = mset ts + undelivered t" using io_run_Cons step_delivered by blast
    then show ?thesis using ih Delivered by (simp add: ac_simps)
  qed
qed

text \<open>No tag comes back that was not handed in, or more often than it was.\<close>

lemma run_no_spurious:
  "io_run step s es s' \<Longrightarrow> inv s \<Longrightarrow> undelivered s = {#} \<Longrightarrow> delivered_tags es \<subseteq># prepared_tags es"
  using run_balance by (metis add_0 mset_subset_eq_add_right)

end

section \<open>The pread fallback\<close>

record pending_read =
  pr_fd :: int
  pr_buf :: nat
  pr_len :: nat
  pr_offset :: nat
  pr_user_data :: nat

record fallback_reader =
  fr_pending :: "pending_read list"
  fr_completed :: "completion list"

definition fallback_new :: fallback_reader where
  "fallback_new = \<lparr>fr_pending = [], fr_completed = []\<rparr>"

definition fr_PrepReadTagged ::
    "fallback_reader \<Rightarrow> int \<Rightarrow> nat \<Rightarrow> nat \<Rightarrow> nat \<Rightarrow> nat \<Rightarrow> fallback_reader \<times> status" where
  "fr_PrepReadTagged r fd buf len offset user_data =
     (r\<lparr>fr_pending := fr_pending r @ [\<lparr>pr_fd = fd, pr_buf = buf, pr_len = len, pr_offset = offset,
        pr_user_data = user_data\<rparr>]\<rparr>, Inr ())"

text \<open>\<open>pread\<close> answers with the bytes read or with \<open>errno\<close>; the bytes land in the buffer.\<close>

definition complete_read :: "(pending_read \<Rightarrow> nat + bytes) \<Rightarrow> pending_read \<Rightarrow> completion" where
  "complete_read pread e = \<lparr>ic_buffer = pr_buf e, ic_user_data = pr_user_data e,
     ic_result = (case pread e of Inl errno \<Rightarrow> - int errno | Inr bs \<Rightarrow> int (length bs))\<rparr>"

text \<open>What was in the buffer behind the bytes read stays.\<close>

definition overwrite :: "bytes option \<Rightarrow> bytes \<Rightarrow> bytes" where
  "overwrite old bs = bs @ drop (length bs) (case old of None \<Rightarrow> [] | Some b \<Rightarrow> b)"

definition store_read :: "(pending_read \<Rightarrow> nat + bytes) \<Rightarrow> (nat \<rightharpoonup> bytes) \<Rightarrow> pending_read \<Rightarrow> (nat \<rightharpoonup> bytes)" where
  "store_read pread mem e = (case pread e of Inl errno \<Rightarrow> mem | Inr bs \<Rightarrow> mem(pr_buf e \<mapsto> overwrite (mem (pr_buf e)) bs))"

definition fr_Submit ::
    "(pending_read \<Rightarrow> nat + bytes) \<Rightarrow> fallback_reader \<Rightarrow> (nat \<rightharpoonup> bytes)
      \<Rightarrow> fallback_reader \<times> (nat \<rightharpoonup> bytes) \<times> nat" where
  "fr_Submit pread r mem =
     (\<lparr>fr_pending = [], fr_completed = fr_completed r @ map (complete_read pread) (fr_pending r)\<rparr>,
      foldl (store_read pread) mem (fr_pending r), wrap32 (length (fr_pending r)))"

definition fr_Poll :: "fallback_reader \<Rightarrow> nat \<Rightarrow> fallback_reader \<times> completion list" where
  "fr_Poll r max_count =
     (let n = min max_count (wrap32 (length (fr_completed r)))
      in (r\<lparr>fr_completed := drop n (fr_completed r)\<rparr>, take n (fr_completed r)))"

definition fr_WaitAndPoll :: "fallback_reader \<Rightarrow> nat \<Rightarrow> fallback_reader \<times> completion list" where
  "fr_WaitAndPoll r max_count = fr_Poll r max_count"

definition fr_InFlight :: "fallback_reader \<Rightarrow> nat" where
  "fr_InFlight r = 0"

definition fr_prepped :: "fallback_reader \<Rightarrow> nat" where
  "fr_prepped r = wrap32 (length (fr_pending r))"

inductive fallback_step :: "fallback_reader \<Rightarrow> io_event \<Rightarrow> fallback_reader \<Rightarrow> bool" where
  fallback_prep: "fallback_step r (Prepared user_data)
     (fst (fr_PrepReadTagged r fd buf len offset user_data))"
| fallback_submit: "fallback_step r Silent (fst (fr_Submit pread r mem))"
| fallback_poll: "fr_Poll r max_count = (r', out) \<Longrightarrow>
     fallback_step r (Delivered (map ic_user_data out)) r'"
| fallback_wait: "fr_WaitAndPoll r max_count = (r', out) \<Longrightarrow>
     fallback_step r (Delivered (map ic_user_data out)) r'"

inductive_cases fallback_preparedE: "fallback_step r (Prepared t) r'"
inductive_cases fallback_silentE: "fallback_step r Silent r'"
inductive_cases fallback_deliveredE: "fallback_step r (Delivered ts) r'"

definition fallback_tags :: "fallback_reader \<Rightarrow> nat multiset" where
  "fallback_tags r = mset (map pr_user_data (fr_pending r)) + mset (map ic_user_data (fr_completed r))"

lemma complete_read_tag [simp]: "ic_user_data (complete_read pread e) = pr_user_data e"
  by (simp add: complete_read_def)

lemma fr_Poll_tags:
  "fr_Poll r n = (r', out) \<Longrightarrow> fallback_tags r = mset (map ic_user_data out) + fallback_tags r'"
  by (auto simp: fr_Poll_def fallback_tags_def Let_def mset_map [symmetric] take_map [symmetric]
      drop_map [symmetric] simp del: mset_map)
    (metis (no_types, opaque_lifting) append_take_drop_id mset_append union_commute union_lcomm)

interpretation fallback: async_reader "\<lambda>r. True" fallback_tags fallback_step
proof
  fix r r' t ts
  show "fallback_step r (Prepared t) r' \<Longrightarrow> fallback_tags r' = add_mset t (fallback_tags r)"
    by (erule fallback_preparedE) (simp add: fallback_tags_def fr_PrepReadTagged_def)
  show "fallback_step r Silent r' \<Longrightarrow> fallback_tags r' = fallback_tags r"
    by (erule fallback_silentE) (simp add: fallback_tags_def fr_Submit_def comp_def)
  show "fallback_step r (Delivered ts) r' \<Longrightarrow> fallback_tags r = mset ts + fallback_tags r'"
    by (erule fallback_deliveredE) (simp_all add: fr_Poll_tags fr_WaitAndPoll_def)
qed simp


section \<open>The io_uring back end\<close>

text \<open>The set-up flags the code asks for, and one attempt's answer (negative: \<open>-errno\<close>).\<close>

record uring_params =
  up_sqpoll :: bool
  up_iopoll :: bool
  up_single_issuer :: bool
  up_defer_taskrun :: bool
  up_cq_entries :: nat

record uring_reader =
  ur_initialized :: bool
  ur_defer_taskrun :: bool
  ur_files_registered :: bool
  ur_buffers_registered :: bool
  ur_fds :: "int list"
  ur_in_flight :: nat
  ur_prepped :: nat
  ur_queue_depth :: nat
  ur_cq_entries :: nat
  ur_iopoll :: bool
  ur_sqpoll :: bool

definition uring_new :: uring_reader where
  "uring_new = \<lparr>ur_initialized = False, ur_defer_taskrun = False, ur_files_registered = False,
     ur_buffers_registered = False, ur_fds = [], ur_in_flight = 0, ur_prepped = 0,
     ur_queue_depth = 0, ur_cq_entries = 0, ur_iopoll = False, ur_sqpoll = False\<rparr>"

text \<open>\<open>setup n params\<close> is the answer of the \<open>n\<close>-th call of \<open>io_uring_queue_init_params\<close>.\<close>

definition uring_Init ::
    "(nat \<Rightarrow> uring_params \<Rightarrow> int) \<Rightarrow> (int \<Rightarrow> string) \<Rightarrow> uring_reader \<Rightarrow> nat \<Rightarrow> nat \<Rightarrow> bool \<Rightarrow> bool
      \<Rightarrow> uring_reader \<times> status" where
  "uring_Init setup strerror r queue_depth cq_entries use_iopoll use_sqpoll =
     (let fast = \<lparr>up_sqpoll = use_sqpoll, up_iopoll = use_iopoll, up_single_issuer = True,
                  up_defer_taskrun = True, up_cq_entries = cq_entries\<rparr>;
          no_poll = fast\<lparr>up_sqpoll := False\<rparr>;
          plain = \<lparr>up_sqpoll = False, up_iopoll = use_iopoll, up_single_issuer = False,
                   up_defer_taskrun = False, up_cq_entries = cq_entries\<rparr>;
          ret1 = setup 1 fast;
          (params, ret2) = (if ret1 < 0 \<and> use_sqpoll then (no_poll, setup 2 no_poll) else (fast, ret1));
          finish = (\<lambda>p defer. (r\<lparr>ur_initialized := True, ur_defer_taskrun := defer,
             ur_queue_depth := queue_depth, ur_cq_entries := cq_entries,
             ur_iopoll := up_iopoll p, ur_sqpoll := up_sqpoll p\<rparr>, Inr ()))
      in if ret2 < 0 then
           (if setup 3 plain < 0
            then (r, Inl (kNotSupported, ''io_uring init failed: '' @ strerror (- setup 3 plain)))
            else finish plain False)
         else finish params True)"

definition RegisterFiles ::
    "(int list \<Rightarrow> int) \<Rightarrow> (int \<Rightarrow> string) \<Rightarrow> uring_reader \<Rightarrow> int list \<Rightarrow> uring_reader \<times> status" where
  "RegisterFiles register strerror r fds =
     (if 8 < length fds then (r, Inl (kInvalidArgument, ''Too many fds to register''))
      else if register fds < 0 then
        (r, Inl (kIOError, ''io_uring_register_files failed: '' @ strerror (- register fds)))
      else (r\<lparr>ur_fds := fds, ur_files_registered := True\<rparr>, Inr ()))"

definition RegisterBuffers ::
    "((nat \<times> nat) list \<Rightarrow> int) \<Rightarrow> (int \<Rightarrow> string) \<Rightarrow> uring_reader \<Rightarrow> (nat \<times> nat) list
      \<Rightarrow> uring_reader \<times> status" where
  "RegisterBuffers register strerror r iovecs =
     (if register iovecs < 0 then
        (r, Inl (kIOError, ''io_uring_register_buffers failed: '' @ strerror (- register iovecs)))
      else (r\<lparr>ur_buffers_registered := True\<rparr>, Inr ()))"

fun find_fd :: "int list \<Rightarrow> int \<Rightarrow> int \<Rightarrow> int" where
  "find_fd [] i fd = -1"
| "find_fd (x # xs) i fd = (if x = fd then i else find_fd xs (i + 1) fd)"

definition RegisteredFileIndex :: "uring_reader \<Rightarrow> int \<Rightarrow> int" where
  "RegisteredFileIndex r fd = (if ur_files_registered r then find_fd (ur_fds r) 0 fd else -1)"

text \<open>What \<open>AcquireSqeWithAutoFlush\<close> asks of the ring: is there an entry, the answer of
  \<open>io_uring_submit\<close> if not, and whether there is an entry afterwards.\<close>

record ring_answers =
  ra_sqe :: bool
  ra_submit :: int
  ra_sqe_after :: bool

definition AcquireSqe ::
    "(int \<Rightarrow> string) \<Rightarrow> ring_answers \<Rightarrow> uring_reader \<Rightarrow> uring_reader \<times> (string + unit)" where
  "AcquireSqe strerror a r =
     (if ra_sqe a then (r, Inr ())
      else if ra_submit a < 0 then
        (r, Inl (''io_uring auto-flush submit failed: '' @ strerror (- ra_submit a)))
      else
        let r1 = r\<lparr>ur_in_flight := wrap32 (ur_in_flight r + ur_prepped r), ur_prepped := 0\<rparr>
        in if ra_sqe_after a then (r1, Inr ()) else (r1, Inl ''io_uring SQ full after auto-flush''))"

record sqe =
  sq_fd :: int
  sq_fixed_file :: bool
  sq_buf_index :: "nat option"
  sq_buf :: nat
  sq_len :: nat
  sq_offset :: nat
  sq_user_data :: nat

text \<open>Filling the entry; \<open>Some\<close> entry when one was prepared.\<close>

definition prep_with ::
    "(int \<Rightarrow> string) \<Rightarrow> ring_answers \<Rightarrow> uring_reader \<Rightarrow> sqe \<Rightarrow> uring_reader \<times> sqe option \<times> status" where
  "prep_with strerror a r e =
     (case AcquireSqe strerror a r of
        (r1, Inl msg) \<Rightarrow> (r1, None, Inl (kIOError, msg))
      | (r1, Inr _) \<Rightarrow> (r1\<lparr>ur_prepped := wrap32 (ur_prepped r1 + 1)\<rparr>, Some e, Inr ()))"

definition PrepReadFixedTagged ::
    "(int \<Rightarrow> string) \<Rightarrow> ring_answers \<Rightarrow> uring_reader \<Rightarrow> int \<Rightarrow> nat \<Rightarrow> nat \<Rightarrow> nat \<Rightarrow> nat
      \<Rightarrow> uring_reader \<times> sqe option \<times> status" where
  "PrepReadFixedTagged strerror a r fd_index buf len offset user_data =
     prep_with strerror a r \<lparr>sq_fd = fd_index, sq_fixed_file = True, sq_buf_index = None, sq_buf = buf,
       sq_len = len, sq_offset = offset, sq_user_data = user_data\<rparr>"

definition PrepReadFixed ::
    "(int \<Rightarrow> string) \<Rightarrow> ring_answers \<Rightarrow> uring_reader \<Rightarrow> int \<Rightarrow> nat \<Rightarrow> nat \<Rightarrow> nat
      \<Rightarrow> uring_reader \<times> sqe option \<times> status" where
  "PrepReadFixed strerror a r fd_index buf len offset =
     PrepReadFixedTagged strerror a r fd_index buf len offset buf"

definition PrepReadTagged ::
    "(int \<Rightarrow> string) \<Rightarrow> ring_answers \<Rightarrow> uring_reader \<Rightarrow> int \<Rightarrow> nat \<Rightarrow> nat \<Rightarrow> nat \<Rightarrow> nat
      \<Rightarrow> uring_reader \<times> sqe option \<times> status" where
  "PrepReadTagged strerror a r fd buf len offset user_data =
     (let fd_idx = RegisteredFileIndex r fd
      in prep_with strerror a r
           \<lparr>sq_fd = (if 0 \<le> fd_idx then fd_idx else fd), sq_fixed_file = (0 \<le> fd_idx),
            sq_buf_index = None, sq_buf = buf, sq_len = len, sq_offset = offset,
            sq_user_data = user_data\<rparr>)"

definition PrepReadRegisteredBufferFixedFileTagged ::
    "(int \<Rightarrow> string) \<Rightarrow> ring_answers \<Rightarrow> uring_reader \<Rightarrow> int \<Rightarrow> nat \<Rightarrow> nat \<Rightarrow> nat \<Rightarrow> nat \<Rightarrow> nat
      \<Rightarrow> uring_reader \<times> sqe option \<times> status" where
  "PrepReadRegisteredBufferFixedFileTagged strerror a r fd_index buf buf_index len offset user_data =
     (if \<not> ur_buffers_registered r then
        (r, None, Inl (kInvalidArgument, ''registered buffer requested before registration''))
      else if fd_index < 0 then (r, None, Inl (kInvalidArgument, ''invalid registered file index''))
      else prep_with strerror a r \<lparr>sq_fd = fd_index, sq_fixed_file = True,
             sq_buf_index = Some buf_index, sq_buf = buf, sq_len = len, sq_offset = offset,
             sq_user_data = user_data\<rparr>)"

definition PrepReadRegisteredBufferTagged ::
    "(int \<Rightarrow> string) \<Rightarrow> ring_answers \<Rightarrow> uring_reader \<Rightarrow> int \<Rightarrow> nat \<Rightarrow> nat \<Rightarrow> nat \<Rightarrow> nat \<Rightarrow> nat
      \<Rightarrow> uring_reader \<times> sqe option \<times> status" where
  "PrepReadRegisteredBufferTagged strerror a r fd buf buf_index len offset user_data =
     (if \<not> ur_buffers_registered r then
        (r, None, Inl (kInvalidArgument, ''registered buffer requested before registration''))
      else
        let fd_idx = RegisteredFileIndex r fd
        in if 0 \<le> fd_idx then
             PrepReadRegisteredBufferFixedFileTagged strerror a r fd_idx buf buf_index len offset user_data
           else prep_with strerror a r \<lparr>sq_fd = fd, sq_fixed_file = False,
                  sq_buf_index = Some buf_index, sq_buf = buf, sq_len = len, sq_offset = offset,
                  sq_user_data = user_data\<rparr>)"

text \<open>\<open>ret\<close>: the answer of \<open>io_uring_submit\<close>.\<close>

definition uring_Submit :: "int \<Rightarrow> uring_reader \<Rightarrow> uring_reader \<times> nat" where
  "uring_Submit ret r =
     (if ur_prepped r = 0 then (r, 0)
      else
        let submitted = (if 0 < ret then nat ret else 0)
        in (r\<lparr>ur_in_flight := wrap32 (ur_in_flight r + submitted), ur_prepped := 0\<rparr>, submitted))"

text \<open>A completion-queue entry is its user data and its result; \<open>cqes\<close> are the ones the
  completion queue holds when the call polls it.\<close>

definition completion_of :: "nat \<times> int \<Rightarrow> completion" where
  "completion_of cqe = \<lparr>ic_buffer = fst cqe, ic_user_data = fst cqe, ic_result = snd cqe\<rparr>"

definition uring_Poll :: "(nat \<times> int) list \<Rightarrow> uring_reader \<Rightarrow> nat \<Rightarrow> uring_reader \<times> completion list" where
  "uring_Poll cqes r max_count =
     (let taken = take max_count cqes
      in (r\<lparr>ur_in_flight := wrap32 (ur_in_flight r + 4294967296 - wrap32 (length taken))\<rparr>,
          map completion_of taken))"

text \<open>\<open>wait\<close>: the answer of \<open>io_uring_wait_cqe\<close>; when it succeeds the queue is not empty.\<close>

definition uring_WaitAndPoll ::
    "int \<Rightarrow> (nat \<times> int) list \<Rightarrow> uring_reader \<Rightarrow> nat \<Rightarrow> uring_reader \<times> completion list" where
  "uring_WaitAndPoll wait cqes r max_count =
     (if max_count = 0 \<or> ur_in_flight r = 0 then (r, [])
      else if wait < 0 then (r, [])
      else
        let taken = take max_count cqes
        in (r\<lparr>ur_in_flight := wrap32 (ur_in_flight r + 4294967296 - wrap32 (length taken))\<rparr>,
            map completion_of taken))"


section \<open>Reader and ring together\<close>

text \<open>The ring as liburing documents it, without submission-queue polling: the submission queue, the
  tags in flight and the completion queue. \<open>io_uring_submit\<close> answers with the number of entries the
  kernel took from the front of the submission queue, which may be fewer than all, or fails with a
  negative number and takes none. \<open>us_short\<close> remembers whether an answer the reader went on with was
  short of the whole queue; no step depends on it.\<close>

record uring_system =
  us_reader :: uring_reader
  us_slots :: nat
  us_sq :: "sqe list"
  us_flight :: "nat multiset"
  us_cq :: "(nat \<times> int) list"
  us_short :: bool

definition submit_ok :: "uring_system \<Rightarrow> int \<Rightarrow> bool" where
  "submit_ok s ret \<longleftrightarrow> ret \<le> int (length (us_sq s))"

definition ring_ok :: "uring_system \<Rightarrow> ring_answers \<Rightarrow> bool" where
  "ring_ok s a \<longleftrightarrow> (ra_sqe a \<longleftrightarrow> length (us_sq s) < us_slots s)
     \<and> submit_ok s (ra_submit a)
     \<and> (ra_sqe_after a \<longleftrightarrow> length (us_sq s) - nat (ra_submit a) < us_slots s)"

definition sq_tags :: "uring_system \<Rightarrow> nat multiset" where
  "sq_tags s = mset (map sq_user_data (us_sq s))"

text \<open>The ring after a submission answered with \<open>ret\<close>.\<close>

definition ring_submit :: "int \<Rightarrow> uring_system \<Rightarrow> uring_system" where
  "ring_submit ret s = s\<lparr>us_sq := drop (nat ret) (us_sq s),
     us_flight := us_flight s + mset (map sq_user_data (take (nat ret) (us_sq s)))\<rparr>"

definition note_short :: "int \<Rightarrow> uring_system \<Rightarrow> uring_system" where
  "note_short ret s = s\<lparr>us_short := (us_short s \<or> ret \<noteq> int (length (us_sq s)))\<rparr>"

inductive uring_step :: "uring_system \<Rightarrow> io_event \<Rightarrow> uring_system \<Rightarrow> bool" where
  uring_prep: "uring_step s (Prepared (sq_user_data e))
      (s1\<lparr>us_reader := r', us_sq := us_sq s1 @ [e]\<rparr>)"
    if "ring_ok s a" and "prep_with strerror a (us_reader s) e = (r', Some e, Inr ())"
      and "s1 = (if ra_sqe a then s else ring_submit (ra_submit a) (note_short (ra_submit a) s))"
| uring_prep_fails: "uring_step s Silent (s1\<lparr>us_reader := r'\<rparr>)"
    if "ring_ok s a" and "prep_with strerror a (us_reader s) e = (r', None, Inl err)"
      and "s1 = (if ra_submit a < 0 then s else ring_submit (ra_submit a) (note_short (ra_submit a) s))"
| uring_submit: "uring_step s Silent (s1\<lparr>us_reader := r'\<rparr>)"
    if "submit_ok s ret" and "uring_Submit ret (us_reader s) = (r', n)"
      and "s1 = (if ur_prepped (us_reader s) = 0 then s else ring_submit ret (note_short ret s))"
| uring_kernel: "uring_step s Silent (s\<lparr>us_flight := us_flight s - {#t#}, us_cq := us_cq s @ [(t, res)]\<rparr>)"
    if "t \<in># us_flight s"
| uring_poll: "uring_step s (Delivered (map ic_user_data out))
      (s\<lparr>us_reader := r', us_cq := drop max_count (us_cq s)\<rparr>)"
    if "uring_Poll (us_cq s) (us_reader s) max_count = (r', out)"
| uring_wait: "uring_step s (Delivered (map ic_user_data out))
      (s\<lparr>us_reader := r', us_cq := drop (length out) (us_cq s)\<rparr>)"
    if "uring_WaitAndPoll wait (us_cq s) (us_reader s) max_count = (r', out)"
      and "0 \<le> wait \<longrightarrow> us_cq s \<noteq> []"

inductive_cases uring_preparedE: "uring_step s (Prepared t) s'"
inductive_cases uring_silentE: "uring_step s Silent s'"
inductive_cases uring_deliveredE: "uring_step s (Delivered ts) s'"

text \<open>Every public \<open>PrepRead\<close> is \<open>prep_with\<close> or rejects its arguments without touching the ring.\<close>

lemma prep_functions:
  shows "\<exists>e. sq_user_data e = t \<and> PrepReadTagged se a r fd buf len off t = prep_with se a r e"
    and "\<exists>e. sq_user_data e = t \<and> PrepReadFixedTagged se a r i buf len off t = prep_with se a r e"
    and "(\<exists>e. sq_user_data e = t \<and> PrepReadRegisteredBufferTagged se a r fd buf b len off t = prep_with se a r e)
      \<or> (\<exists>msg. PrepReadRegisteredBufferTagged se a r fd buf b len off t = (r, None, Inl (kInvalidArgument, msg)))"
proof -
  show "\<exists>e. sq_user_data e = t \<and> PrepReadTagged se a r fd buf len off t = prep_with se a r e"
    by (intro exI [of _ "\<lparr>sq_fd = (if 0 \<le> RegisteredFileIndex r fd then RegisteredFileIndex r fd else fd),
        sq_fixed_file = (0 \<le> RegisteredFileIndex r fd), sq_buf_index = None, sq_buf = buf,
        sq_len = len, sq_offset = off, sq_user_data = t\<rparr>"]) (simp add: PrepReadTagged_def Let_def)
  show "\<exists>e. sq_user_data e = t \<and> PrepReadFixedTagged se a r i buf len off t = prep_with se a r e"
    by (intro exI [of _ "\<lparr>sq_fd = i, sq_fixed_file = True, sq_buf_index = None, sq_buf = buf,
        sq_len = len, sq_offset = off, sq_user_data = t\<rparr>"]) (simp add: PrepReadFixedTagged_def)
  let ?i = "RegisteredFileIndex r fd"
  show "(\<exists>e. sq_user_data e = t \<and> PrepReadRegisteredBufferTagged se a r fd buf b len off t = prep_with se a r e)
      \<or> (\<exists>msg. PrepReadRegisteredBufferTagged se a r fd buf b len off t = (r, None, Inl (kInvalidArgument, msg)))"
  proof (cases "ur_buffers_registered r")
    case True
    then show ?thesis
      by (intro disjI1 exI [of _ "\<lparr>sq_fd = (if 0 \<le> ?i then ?i else fd), sq_fixed_file = (0 \<le> ?i),
          sq_buf_index = Some b, sq_buf = buf, sq_len = len, sq_offset = off, sq_user_data = t\<rparr>"])
        (simp add: PrepReadRegisteredBufferTagged_def PrepReadRegisteredBufferFixedFileTagged_def Let_def)
  qed (simp add: PrepReadRegisteredBufferTagged_def)
qed

text \<open>The counter of prepared entries never exceeds the submission queue; both counters are exact as
  long as every submission took the whole queue.\<close>

definition uring_inv :: "uring_system \<Rightarrow> bool" where
  "uring_inv s \<longleftrightarrow> ur_prepped (us_reader s) \<le> length (us_sq s) \<and> length (us_sq s) \<le> us_slots s
     \<and> us_slots s < 4294967296
     \<and> (us_short s \<or> ur_prepped (us_reader s) = length (us_sq s)
        \<and> ur_in_flight (us_reader s) = wrap32 (size (us_flight s) + length (us_cq s)))"

definition uring_tags :: "uring_system \<Rightarrow> nat multiset" where
  "uring_tags s = sq_tags s + us_flight s + mset (map fst (us_cq s))"

lemma ring_submit_simps [simp]:
  "us_reader (ring_submit ret s) = us_reader s" "us_slots (ring_submit ret s) = us_slots s"
  "us_sq (ring_submit ret s) = drop (nat ret) (us_sq s)" "us_cq (ring_submit ret s) = us_cq s"
  "us_flight (ring_submit ret s) = us_flight s + mset (map sq_user_data (take (nat ret) (us_sq s)))"
  "us_short (ring_submit ret s) = us_short s"
  by (simp_all add: ring_submit_def)

lemma note_short_simps [simp]:
  "us_reader (note_short ret s) = us_reader s" "us_slots (note_short ret s) = us_slots s"
  "us_sq (note_short ret s) = us_sq s" "us_cq (note_short ret s) = us_cq s"
  "us_flight (note_short ret s) = us_flight s"
  "us_short (note_short ret s) \<longleftrightarrow> us_short s \<or> ret \<noteq> int (length (us_sq s))"
  by (simp_all add: note_short_def)

lemma mset_map_take_drop: "mset (map f (take n xs)) + mset (map f (drop n xs)) = mset (map f xs)"
  by (metis append_take_drop_id map_append mset_append)

lemma ring_submit_tags: "uring_tags (ring_submit ret (note_short ret s)) = uring_tags s"
  using mset_map_take_drop [of sq_user_data "nat ret" "us_sq s"]
  by (simp add: uring_tags_def sq_tags_def ac_simps del: mset_map)

lemma uring_tags_reader: "uring_tags (s\<lparr>us_reader := r\<rparr>) = uring_tags s"
  by (simp add: uring_tags_def sq_tags_def)

text \<open>Taking completions off the counter, on 32 bits.\<close>

lemma wrap32_sub:
  assumes "m \<le> n"
  shows "wrap32 (wrap32 n + 4294967296 - wrap32 m) = wrap32 (n - m)"
proof -
  have "wrap32 m \<le> wrap32 n + 4294967296"
    using mod_less_divisor [of 4294967296 m] by linarith
  then have "int (wrap32 n + 4294967296 - wrap32 m) = int n mod 4294967296 + 4294967296 - int m mod 4294967296"
    by (simp add: of_nat_diff zmod_int)
  also have "\<dots> = (int n mod 4294967296 - int m mod 4294967296) + 4294967296" by simp
  finally have "int (wrap32 (wrap32 n + 4294967296 - wrap32 m)) =
      (int n mod 4294967296 - int m mod 4294967296 + 4294967296) mod 4294967296"
    by (simp only: zmod_int of_nat_numeral)
  also have "\<dots> = (int n - int m) mod 4294967296" by (simp only: mod_add_self2 mod_diff_eq)
  also have "\<dots> = int (wrap32 (n - m))" using assms by (simp add: zmod_int of_nat_diff)
  finally show ?thesis by (simp only: of_nat_eq_iff)
qed

lemma prep_with_Some:
  assumes "prep_with strerror a r e = (r', Some e', Inr ())"
  shows "e' = e" and "ra_sqe a \<Longrightarrow> r' = r\<lparr>ur_prepped := wrap32 (ur_prepped r + 1)\<rparr>"
    and "\<not> ra_sqe a \<Longrightarrow> \<not> ra_submit a < 0 \<and> ra_sqe_after a
      \<and> r' = r\<lparr>ur_in_flight := wrap32 (ur_in_flight r + ur_prepped r), ur_prepped := 1\<rparr>"
  using assms by (auto simp: prep_with_def AcquireSqe_def Let_def split: if_splits)

lemma prep_with_None:
  assumes "prep_with strerror a r e = (r', None, st)"
  shows "\<not> ra_sqe a" and "ra_submit a < 0 \<Longrightarrow> r' = r"
    and "\<not> ra_submit a < 0 \<Longrightarrow>
      r' = r\<lparr>ur_in_flight := wrap32 (ur_in_flight r + ur_prepped r), ur_prepped := 0\<rparr>"
  using assms by (auto simp: prep_with_def AcquireSqe_def Let_def split: if_splits)

lemma uring_step_inv: "uring_step s ev s' \<Longrightarrow> uring_inv s \<Longrightarrow> uring_inv s'"
proof (induction rule: uring_step.induct)
  case (uring_prep s a strerror e r' s1)
  note p = prep_with_Some [OF uring_prep.hyps(2)]
  show ?case
  proof (cases "ra_sqe a")
    case True
    then show ?thesis using uring_prep p(2) by (auto simp: uring_inv_def ring_ok_def)
  next
    case False
    then have "length (us_sq s) - nat (ra_submit a) < us_slots s" "0 \<le> ra_submit a"
      using uring_prep p(3) by (simp_all add: ring_ok_def)
    then show ?thesis
      using False uring_prep p(3) by (auto simp: uring_inv_def mod_simps ac_simps)
  qed
next
  case (uring_prep_fails s a strerror e r' err s1)
  note p = prep_with_None [OF uring_prep_fails.hyps(2)]
  then show ?case
    using uring_prep_fails by (cases "ra_submit a < 0") (auto simp: uring_inv_def mod_simps ac_simps)
next
  case (uring_submit s ret r' n s1)
  then show ?case
    by (cases "ur_prepped (us_reader s) = 0")
      (auto simp: uring_inv_def uring_Submit_def Let_def mod_simps ac_simps)
next
  case (uring_kernel t s res)
  then obtain M where "us_flight s = add_mset t M" by (metis insert_DiffM)
  then show ?case using uring_kernel.prems by (simp add: uring_inv_def)
next
  case (uring_poll s max_count r' out)
  then show ?case by (auto simp: uring_inv_def uring_Poll_def Let_def wrap32_sub min_def)
next
  case (uring_wait wait s max_count r' out)
  then show ?case by (auto simp: uring_inv_def uring_WaitAndPoll_def Let_def wrap32_sub min_def split: if_splits)
qed

interpretation uring: async_reader uring_inv uring_tags uring_step
proof
  fix s s' ev t ts
  assume inv: "uring_inv s"
  show "uring_step s ev s' \<Longrightarrow> uring_inv s'" by (rule uring_step_inv [OF _ inv])
  show "uring_step s (Prepared t) s' \<Longrightarrow> uring_tags s' = add_mset t (uring_tags s)"
    using ring_submit_tags [of _ s]
    by (elim uring_preparedE) (auto simp: uring_tags_def sq_tags_def)
  show "uring_step s Silent s' \<Longrightarrow> uring_tags s' = uring_tags s"
    by (erule uring_silentE) (auto simp: uring_tags_reader ring_submit_tags, simp add: uring_tags_def sq_tags_def)
  have drop: "mset (map fst xs) = mset (map fst (take n xs)) + mset (map fst (drop n xs))"
    for n and xs :: "(nat \<times> int) list"
    by (metis append_take_drop_id map_append mset_append)
  show "uring_step s (Delivered ts) s' \<Longrightarrow> uring_tags s = mset ts + uring_tags s'"
    by (erule uring_deliveredE)
      (auto simp: uring_Poll_def uring_WaitAndPoll_def Let_def uring_tags_def sq_tags_def comp_def
        completion_of_def min_def simp del: mset_map split: if_splits intro: drop)
qed


section \<open>Properties\<close>

definition uring_start :: "nat \<Rightarrow> uring_reader \<Rightarrow> uring_system" where
  "uring_start slots r = \<lparr>us_reader = r, us_slots = slots, us_sq = [], us_flight = {#}, us_cq = [],
     us_short = False\<rparr>"

text \<open>C24: whatever the order of \<open>PrepRead\<close>, \<open>Submit\<close>, kernel completions, \<open>Poll\<close> and
  \<open>WaitAndPoll\<close>, and however many entries the kernel takes at each submission (all, some, or none
  with an error), every tag prepared on the io_uring reader is delivered at most once and the
  undelivered ones are exactly those still queued, in flight or completed. \<open>prepped\<close> never exceeds the
  submission queue; as long as every submission took the whole queue it is its length, and \<open>InFlight\<close>
  the number submitted and not yet delivered. A successful wait with \<open>InFlight\<close> not zero delivers at
  least one completion.\<close>

theorem uring_accounting:
  assumes "io_run uring_step (uring_start slots r) es s" and "slots < 4294967296"
    and "ur_prepped r = 0" and "ur_in_flight r = 0"
  shows "prepared_tags es = delivered_tags es + mset (map sq_user_data (us_sq s)) + us_flight s
      + mset (map fst (us_cq s))
    \<and> ur_prepped (us_reader s) \<le> length (us_sq s) \<and> length (us_sq s) \<le> us_slots s
    \<and> (\<not> us_short s \<longrightarrow> ur_prepped (us_reader s) = length (us_sq s)
        \<and> ur_in_flight (us_reader s) = wrap32 (size (us_flight s) + length (us_cq s)))
    \<and> (\<forall>wait max_count. ur_in_flight (us_reader s) \<noteq> 0 \<and> 0 \<le> wait \<and> us_cq s \<noteq> [] \<and> 0 < max_count \<longrightarrow>
          snd (uring_WaitAndPoll wait (us_cq s) (us_reader s) max_count) \<noteq> [])"
proof -
  have inv: "uring_inv (uring_start slots r)" using assms(2-4) by (simp add: uring_inv_def uring_start_def)
  have "uring_tags (uring_start slots r) = {#}" by (simp add: uring_tags_def sq_tags_def uring_start_def)
  then have "prepared_tags es = uring_tags s + delivered_tags es"
    using uring.run_balance [OF assms(1) inv] by simp
  moreover have "uring_inv s" by (rule uring.run_inv [OF assms(1) inv])
  ultimately show ?thesis
    by (auto simp: uring_tags_def sq_tags_def uring_inv_def uring_WaitAndPoll_def Let_def ac_simps)
qed

definition demo_sqe :: "nat \<Rightarrow> sqe" where
  "demo_sqe tag = \<lparr>sq_fd = 3, sq_fixed_file = False, sq_buf_index = None, sq_buf = tag, sq_len = 4096,
     sq_offset = 0, sq_user_data = tag\<rparr>"

text \<open>One entry prepared and a submission the kernel refuses.\<close>

definition refused_system :: "nat \<Rightarrow> uring_system" where
  "refused_system slots = \<lparr>us_reader = uring_new, us_slots = slots, us_sq = [demo_sqe 7],
     us_flight = {#}, us_cq = [], us_short = True\<rparr>"

lemma refused_run:
  assumes "0 < slots"
  shows "io_run uring_step (uring_start slots uring_new) [Prepared 7, Silent] (refused_system slots)"
proof -
  let ?s0 = "uring_start slots uring_new" and ?e = "demo_sqe 7"
  define a where "a = \<lparr>ra_sqe = True, ra_submit = 0, ra_sqe_after = True\<rparr>"
  define s1 where "s1 = ?s0\<lparr>us_reader := uring_new\<lparr>ur_prepped := 1\<rparr>, us_sq := us_sq ?s0 @ [?e]\<rparr>"
  have ok: "ring_ok ?s0 a" using assms by (simp add: ring_ok_def submit_ok_def uring_start_def a_def)
  have prep: "prep_with (\<lambda>_. []) a (us_reader ?s0) ?e = (uring_new\<lparr>ur_prepped := 1\<rparr>, Some ?e, Inr ())"
    by (simp add: prep_with_def AcquireSqe_def a_def uring_start_def uring_new_def)
  have "uring_step ?s0 (Prepared (sq_user_data ?e)) s1"
    unfolding s1_def by (rule uring_prep [OF ok prep]) (simp add: a_def)
  then have step1: "uring_step ?s0 (Prepared 7) s1" by (simp add: demo_sqe_def)
  have sub: "uring_Submit (-11) (us_reader s1) = (uring_new, 0)"
    by (simp add: uring_Submit_def s1_def uring_start_def uring_new_def)
  have "submit_ok s1 (-11)" by (simp add: submit_ok_def)
  from uring_submit [OF this sub refl]
  have step2: "uring_step s1 Silent (refused_system slots)"
    by (simp add: s1_def ring_submit_def note_short_def uring_start_def uring_new_def refused_system_def)
  show ?thesis by (rule io_run_Cons [of uring_step, OF step1 io_run_Cons [of uring_step, OF step2 io_run_Nil]])
qed

theorem uring_accounting_witness:
  "io_run uring_step (uring_start 2 uring_new) [Prepared 7, Silent] (refused_system 2)
    \<and> {#7#} = delivered_tags [Prepared 7, Silent] + mset (map sq_user_data (us_sq (refused_system 2)))
    \<and> ur_prepped (us_reader (refused_system 2)) \<le> 1"
  using uring_accounting [OF refused_run [of 2]] refused_run [of 2]
  by (simp add: uring_new_def refused_system_def)

lemma find_distinct:
  "distinct (map f xs) \<Longrightarrow> x \<in> set xs \<Longrightarrow> find (\<lambda>y. f y = f x) xs = Some x"
  by (induction xs) auto

text \<open>What the buffers hold after a submission whose buffers are distinct.\<close>

lemma foldl_store_read:
  assumes "distinct (map pr_buf ps)"
  shows "foldl (store_read pread) m ps b =
    (case find (\<lambda>e. pr_buf e = b) ps of None \<Rightarrow> m b
     | Some e \<Rightarrow> (case pread e of Inl errno \<Rightarrow> m b | Inr bs \<Rightarrow> Some (overwrite (m b) bs)))"
  using assms
proof (induction ps arbitrary: m)
  case Nil
  then show ?case by simp
next
  case (Cons e ps)
  have none: "find (\<lambda>x. pr_buf x = b) ps = None" if "pr_buf e = b"
  proof -
    have "\<forall>x \<in> set ps. pr_buf x \<noteq> b" using Cons.prems that by (auto simp: image_iff)
    then show ?thesis by (simp add: find_None_iff)
  qed
  then show ?case
    using Cons by (auto simp: store_read_def split: sum.split option.split)
qed

text \<open>C29: the pread fallback delivers every prepared tag exactly once as well; \<open>Submit\<close> empties the
  pending list, and with all completions polled they come in the order the reads were prepared, each
  with the byte count or the negated \<open>errno\<close>, and the buffers hold what was read in front of what they held.\<close>

theorem fallback_delivers_in_order:
  assumes "io_run fallback_step fallback_new es r" and "distinct (map pr_buf (fr_pending r))"
    and "length (fr_pending r) < 4294967296" and "fr_completed r = []"
    and "fr_Submit pread r mem = (r1, mem1, n)" and "n \<le> max_count"
  shows "prepared_tags es = delivered_tags es + mset (map pr_user_data (fr_pending r))
    \<and> fr_prepped r1 = 0 \<and> n = length (fr_pending r)
    \<and> fr_WaitAndPoll r1 max_count = (fallback_new, map (complete_read pread) (fr_pending r))
    \<and> (\<forall>e bs. e \<in> set (fr_pending r) \<and> pread e = Inr bs \<longrightarrow>
          mem1 (pr_buf e) = Some (overwrite (mem (pr_buf e)) bs))"
proof -
  have "fallback_tags fallback_new = {#}" by (simp add: fallback_tags_def fallback_new_def)
  then have bal: "prepared_tags es = fallback_tags r + delivered_tags es"
    using fallback.run_balance [OF assms(1)] by simp
  have "foldl (store_read pread) mem (fr_pending r) (pr_buf e) = Some (overwrite (mem (pr_buf e)) bs)"
    if "e \<in> set (fr_pending r)" "pread e = Inr bs" for e bs
  proof -
    have "find (\<lambda>x. pr_buf x = pr_buf e) (fr_pending r) = Some e"
      using find_distinct [OF assms(2)] that(1) by blast
    then show ?thesis using foldl_store_read [OF assms(2)] that(2) by simp
  qed
  then show ?thesis
    using bal assms(3-6)
    by (auto simp: fallback_tags_def fr_Submit_def fr_prepped_def fr_WaitAndPoll_def fr_Poll_def
        fallback_new_def Let_def)
qed

theorem fallback_delivers_in_order_witness:
  "\<exists>r r1 mem1. io_run fallback_step fallback_new [Prepared 5] r
    \<and> fr_Submit (\<lambda>e. Inr [1, 2]) r Map.empty = (r1, mem1, 1) \<and> mem1 4096 = Some [1, 2]
    \<and> fr_WaitAndPoll r1 8 = (fallback_new, [\<lparr>ic_buffer = 4096, ic_user_data = 5, ic_result = 2\<rparr>])"
proof -
  define r where "r = fst (fr_PrepReadTagged fallback_new 3 4096 2 0 5)"
  have pend: "fr_pending r = [\<lparr>pr_fd = 3, pr_buf = 4096, pr_len = 2, pr_offset = 0, pr_user_data = 5\<rparr>]"
    "fr_completed r = []"
    by (simp_all add: r_def fr_PrepReadTagged_def fallback_new_def)
  have "fallback_step fallback_new (Prepared 5) r" unfolding r_def by (rule fallback_prep)
  then have run: "io_run fallback_step fallback_new [Prepared 5] r" by (simp add: io_run_simps)
  obtain r1 mem1 n where sub: "fr_Submit (\<lambda>e. Inr [1, 2]) r Map.empty = (r1, mem1, n)"
    by (rule prod_cases3)
  have n: "n = 1" using sub pend by (simp add: fr_Submit_def)
  note d = fallback_delivers_in_order [OF run _ _ pend(2) sub, of 8]
  show ?thesis
    using d run sub n pend by (intro exI [of _ r] exI [of _ r1] exI [of _ mem1]) (simp add: complete_read_def overwrite_def)
qed

text \<open>\<open>Submit\<close> forgets the prepared entries even when the kernel refused them: they stay in the
  ring, \<open>prepped\<close> is zero, and the next \<open>Submit\<close> returns without asking the kernel.\<close>

lemma refused_submit_strands_requests:
  assumes "ur_prepped r = 3"
  shows "uring_Submit (-11) r = (r\<lparr>ur_in_flight := wrap32 (ur_in_flight r), ur_prepped := 0\<rparr>, 0)"
    and "uring_Submit ret (fst (uring_Submit (-11) r)) = (fst (uring_Submit (-11) r), 0)"
  using assms by (simp_all add: uring_Submit_def)

text \<open>\<open>Init\<close> succeeds exactly when one of its at most three attempts does, and records the mode of
  the attempt that succeeded.\<close>

lemma uring_Init_modes:
  assumes "uring_Init setup strerror r qd cq iopoll sqpoll = (r', Inr ())"
  shows "ur_initialized r' \<and> ur_iopoll r' = iopoll \<and> (ur_sqpoll r' \<longrightarrow> sqpoll \<and> ur_defer_taskrun r')"
  using assms by (auto simp: uring_Init_def Let_def split: if_splits)


lemma io_run_append: "io_run step s es t \<Longrightarrow> io_run step t fs u \<Longrightarrow> io_run step s (es @ fs) u"
  by (induction rule: io_run.induct) (auto intro: io_run_Cons)

text \<open>With the submission queue full the next \<open>PrepRead\<close> submits the stranded entry without counting it,
  and its completion takes \<open>InFlight\<close> below zero.\<close>

lemma refused_submit_wraps_in_flight:
  "\<exists>s. io_run uring_step (uring_start 1 uring_new) [Prepared 7, Silent, Prepared 8, Silent, Delivered [7]] s
    \<and> us_sq s = [demo_sqe 8] \<and> us_flight s = {#} \<and> us_cq s = []
    \<and> ur_in_flight (us_reader s) = 4294967295"
proof -
  define a where "a = \<lparr>ra_sqe = False, ra_submit = 1, ra_sqe_after = True\<rparr>"
  define r where "r = uring_new\<lparr>ur_prepped := 1\<rparr>"
  define s where "s cq flight fl = \<lparr>us_reader = r\<lparr>ur_in_flight := fl\<rparr>, us_slots = 1, us_sq = [demo_sqe 8],
    us_flight = flight, us_cq = cq, us_short = True\<rparr>" for cq flight fl
  have ok: "ring_ok (refused_system 1) a"
    by (simp add: ring_ok_def submit_ok_def refused_system_def a_def)
  have prep: "prep_with (\<lambda>_. []) a (us_reader (refused_system 1)) (demo_sqe 8) = (r, Some (demo_sqe 8), Inr ())"
    by (simp add: prep_with_def AcquireSqe_def a_def refused_system_def uring_new_def r_def)
  have step1: "uring_step (refused_system 1) (Prepared 8) (s [] {#7#} 0)"
    using uring_prep [OF ok prep refl]
    by (simp add: a_def s_def r_def refused_system_def ring_submit_def note_short_def demo_sqe_def uring_new_def)
  have step2: "uring_step (s [] {#7#} 0) Silent (s [(7, 4096)] {#} 0)"
    using uring_kernel [of 7 "s [] {#7#} 0" 4096] by (simp add: s_def)
  have step3: "uring_step (s [(7, 4096)] {#} 0) (Delivered [7]) (s [] {#} 4294967295)"
    using uring_poll [of "s [(7, 4096)] {#} 0" 1]
    by (simp add: s_def uring_Poll_def completion_of_def r_def)
  have "io_run uring_step (refused_system 1) [Prepared 8, Silent, Delivered [7]] (s [] {#} 4294967295)"
    by (rule io_run_Cons [of uring_step, OF step1 io_run_Cons [of uring_step, OF step2 io_run_Cons [of uring_step, OF step3 io_run_Nil]]])
  from io_run_append [OF refused_run [of 1] this]
  show ?thesis by (intro exI [of _ "s [] {#} 4294967295"]) (simp add: s_def)
qed

end
