(* ===== verification/Resident_Preload.thy ===== *)
theory Resident_Preload
  imports Resident_View
begin

text \<open>
  \<open>ClusterStoreReader::PreloadAllClusters\<close> (cluster_store.cpp): all clusters made resident, either from
  a copy of the whole file or compactly, reading runs of neighbouring blocks and keeping the code
  regions in vectors of their own or in one slab.  The answers of \<open>lseek\<close> and \<open>mmap\<close> are arguments.
  The pointers of the views into the slab are formed when its bytes are complete: a pending view is a
  function of them.  The members that count bytes are sums over the views; times are left out, as are
  the buffers themselves, which their pointers carry.
\<close>

section \<open>State\<close>

record resident_store =
  rs_reader :: cluster_reader
  rs_clusters :: "nat \<rightharpoonup> resident_view"
  rs_parsed :: "nat \<rightharpoonup> parsed_cluster"
  rs_preload_bytes :: nat
  rs_mem_bytes :: nat
  rs_file_size :: nat
  rs_file_buffer :: nat
  rs_code_storage :: nat
  rs_decoded_bytes :: nat
  rs_raw_bytes :: nat
  rs_batch_size :: nat
  rs_mode :: string
  rs_parallel_bytes :: nat
  rs_envelope_bytes :: nat

definition rs_close :: "resident_store \<Rightarrow> resident_store" where
  "rs_close rs = \<lparr>rs_reader = cr_Close (rs_reader rs), rs_clusters = Map.empty, rs_parsed = Map.empty,
     rs_preload_bytes = 0, rs_mem_bytes = 0, rs_file_size = 0, rs_file_buffer = 0, rs_code_storage = 0,
     rs_decoded_bytes = 0, rs_raw_bytes = 0, rs_batch_size = 0, rs_mode = [], rs_parallel_bytes = 0,
     rs_envelope_bytes = 0\<rparr>"

definition GetResidentClusterView :: "resident_store \<Rightarrow> nat \<Rightarrow> resident_view option" where
  "GetResidentClusterView rs cluster_id = rs_clusters rs cluster_id"

definition GetResidentParsedCluster :: "resident_store \<Rightarrow> nat \<Rightarrow> parsed_cluster option" where
  "GetResidentParsedCluster rs cluster_id = rs_parsed rs cluster_id"

section \<open>The size of a code region, from the trailer alone\<close>

definition prepass_trailer :: "nat \<Rightarrow> lookup_entry \<Rightarrow> nat \<Rightarrow> bytes \<Rightarrow> error + trailer" where
  "prepass_trailer version e mini_trailer_size buf =
     res_bind (if 9 \<le> version
         then read_raw_trailer ''Mini-trailer: failed to read V9 address metadata'' (le_num_records e) buf
         else read_packed_trailer (\<lambda>_. ''Mini-trailer: failed to parse address block'') (le_num_records e) buf)
       (\<lambda>(t, rest). if bad_granularity t then corrupt ''Invalid address block granularity''
          else res_bind (read_footer mini_trailer_size rest) (\<lambda>_. Inr t))"

text \<open>The region's size and the number of bytes read.\<close>

definition read_code_region_bytes ::
    "pread_fun \<Rightarrow> rabitq_config \<Rightarrow> nat \<Rightarrow> nat \<Rightarrow> lookup_entry \<Rightarrow> error + nat \<times> nat" where
  "read_code_region_bytes fd cfg version dim e =
     (let block_end = wrap64 (le_block_offset e + le_block_size e)
      in if le_block_size e < 8 then corrupt ''Block too small for trailer footer''
         else case PreadValue fd (sub64 block_end 8) of
           None \<Rightarrow> Inl (kIOError, ''Failed to read mini_trailer_size'')
         | Some mini_trailer_size \<Rightarrow>
             (case PreadValue fd (sub64 block_end 4) of
                None \<Rightarrow> Inl (kIOError, ''Failed to read block_magic'')
              | Some magic \<Rightarrow>
                  if magic \<noteq> kBlockMagic then corrupt ''Invalid block magic''
                  else if le_block_size e < mini_trailer_size then corrupt ''Mini-trailer size exceeds block''
                  else case PreadBytes fd (sub64 block_end mini_trailer_size) mini_trailer_size of
                    None \<Rightarrow> Inl (kIOError, ''Failed to read block mini-trailer'')
                  | Some buf \<Rightarrow>
                      res_bind (prepass_trailer version e mini_trailer_size buf) (\<lambda>t.
                        let codes_length = codes_bytes cfg version dim e t
                        in if le_block_size e < codes_length then
                             corrupt ''Cluster block shorter than code regions''
                           else res_bind (regions_fit (le_block_size e) codes_length mini_trailer_size t)
                             (\<lambda>_. Inr (codes_length, 8 + mini_trailer_size)))))"

text \<open>The places of the code regions in the slab, its size, and the bytes read for the trailers.\<close>

fun place_regions ::
    "(lookup_entry \<Rightarrow> error + nat \<times> nat) \<Rightarrow> lookup_entry list \<Rightarrow> (nat \<rightharpoonup> nat) \<times> nat \<times> nat
      \<Rightarrow> error + (nat \<rightharpoonup> nat) \<times> nat \<times> nat" where
  "place_regions region [] acc = Inr acc"
| "place_regions region (e # es) (offsets, slab, io) =
     res_bind (region e) (\<lambda>(codes, bytes).
       let at = unat (AlignUp64 (of_nat slab) 64)
       in place_regions region es (offsets(le_cluster_id e \<mapsto> at), wrap64 (at + codes), wrap64 (io + bytes)))"

section \<open>The compact mode\<close>

type_synonym slab_plan = "((nat \<rightharpoonup> nat) \<times> nat) option"

record preload_acc =
  pa_slab :: bytes
  pa_views :: "(nat \<times> (bytes \<Rightarrow> resident_view)) list"
  pa_bytes :: nat

text \<open>Where the code region of a cluster goes, and the view of it.\<close>

definition place_codes ::
    "slab_plan \<Rightarrow> nat \<Rightarrow> parsed_cluster \<Rightarrow> bytes \<Rightarrow> (error + bytes \<times> (bytes \<Rightarrow> resident_view)) option" where
  "place_codes plan cluster_id parsed slab =
     (case plan of
        None \<Rightarrow> map_option (\<lambda>v. Inr (slab, \<lambda>_. v)) (MakeCompactResidentView parsed)
      | Some (offsets, slab_bytes) \<Rightarrow>
          let slab_offset = (case offsets cluster_id of None \<Rightarrow> 0 | Some off \<Rightarrow> off);
              n = pc_code_bytes parsed;
              view = (CopyParsedMetadataToResident parsed resident_view_new)\<lparr>rv_code_bytes := n\<rparr>;
              finish = (\<lambda>final. take_decoded parsed (RelocateResidentCodePointersToBase parsed
                (if slab_bytes = 0 then None else Some (final, slab_offset)) view))
          in if n = 0 then Some (Inr (slab, finish))
             else if slab_bytes = 0 \<or> slab_bytes < wrap64 (slab_offset + n) then
               Some (corrupt ''Resident code slab offset exceeds allocation'')
             else map_option (\<lambda>code. Inr (write_at slab slab_offset code, finish))
               (prd (pc_fastscan parsed) 0 n))"

definition resident_summaries :: "bool \<Rightarrow> nat \<Rightarrow> parsed_cluster \<Rightarrow> (envelope \<times> parallel_part) option" where
  "resident_summaries precompute dim parsed = do {
     ev \<leftarrow> (if precompute then BuildResidentStage1EnvelopeSummary parsed dim else Some envelope_new);
     par \<leftarrow> BuildResidentParallelStage2View parsed;
     Some (ev, par)
   }"

definition add_summaries :: "envelope \<times> parallel_part \<Rightarrow> resident_view \<Rightarrow> resident_view" where
  "add_summaries s view = view\<lparr>rv_envelope := fst s, rv_parallel := snd s\<rparr>"

text \<open>One cluster of a batch; \<open>buffer\<close> holds the batch, an empty one has no address.\<close>

definition preload_entry ::
    "simd_build \<Rightarrow> cluster_reader \<Rightarrow> bool \<Rightarrow> slab_plan \<Rightarrow> bytes \<Rightarrow> nat \<Rightarrow> lookup_entry \<Rightarrow> preload_acc
      \<Rightarrow> (error + preload_acc) option" where
  "preload_entry build r precompute plan buffer span_begin e acc =
     (let relative = sub64 (le_block_offset e) span_begin; cid = le_cluster_id e
      in if length buffer < wrap64 (relative + le_block_size e) then
           Some (corrupt ''Cluster block exceeds preload batch buffer'')
         else do {
           result \<leftarrow> ParseClusterBlockView build r cid (if buffer = [] then None else Some (buffer, relative))
             (le_block_size e) parsed_cluster_new;
           (case result of
              Inl err \<Rightarrow> Some (Inl err)
            | Inr parsed \<Rightarrow> do {
                placed \<leftarrow> place_codes plan cid parsed (pa_slab acc);
                (case placed of
                   Inl err \<Rightarrow> Some (Inl err)
                 | Inr (slab, view) \<Rightarrow> do {
                     s \<leftarrow> resident_summaries precompute (cr_dim r) parsed;
                     Some (if cid \<in> set (map fst (pa_views acc)) then corrupt ''Duplicate resident cluster''
                       else Inr (acc\<lparr>pa_slab := slab, pa_views := pa_views acc @ [(cid, add_summaries s \<circ> view)]\<rparr>))
                   })
              })
         })"

fun preload_entries ::
    "(lookup_entry \<Rightarrow> preload_acc \<Rightarrow> (error + preload_acc) option) \<Rightarrow> lookup_entry list \<Rightarrow> preload_acc
      \<Rightarrow> (error + preload_acc) option" where
  "preload_entries one [] acc = Some (Inr acc)"
| "preload_entries one (e # es) acc = do {
     result \<leftarrow> one e acc;
     (case result of Inl err \<Rightarrow> Some (Inl err) | Inr acc' \<Rightarrow> preload_entries one es acc')
   }"

text \<open>The entries that join a batch: at most \<open>room\<close>, and only while the span is no longer than four
  times the blocks in it.  The result is the end of the span, the batch and the rest.\<close>

fun take_batch :: "nat \<Rightarrow> nat \<Rightarrow> nat \<Rightarrow> nat \<Rightarrow> lookup_entry list \<Rightarrow> nat \<times> lookup_entry list \<times> lookup_entry list" where
  "take_batch room span_begin span_end used [] = (span_end, [], [])"
| "take_batch room span_begin span_end used (e # es) =
     (let next_end = wrap64 (le_block_offset e + le_block_size e); candidate_span_end = max span_end next_end;
          candidate_used = wrap64 (used + le_block_size e); candidate_span = sub64 candidate_span_end span_begin
      in if room = 0 \<or> wrap64 (candidate_used * 4) < candidate_span then (span_end, [], e # es)
         else let (stop, joined, others) = take_batch (room - 1) span_begin candidate_span_end candidate_used es
           in (stop, e # joined, others))"

lemma take_batch_parts: "take_batch room b s u es = (stop, joined, others) \<Longrightarrow> es = joined @ others"
proof (induction es arbitrary: room s u stop joined others)
  case (Cons e es)
  then show ?case
    unfolding take_batch.simps Let_def by (fastforce split: if_splits prod.splits)
qed simp

function preload_batches ::
    "pread_fun \<Rightarrow> (bytes \<Rightarrow> nat \<Rightarrow> lookup_entry \<Rightarrow> preload_acc \<Rightarrow> (error + preload_acc) option)
      \<Rightarrow> lookup_entry list \<Rightarrow> preload_acc \<Rightarrow> (error + preload_acc) option" where
  "preload_batches fd one [] acc = Some (Inr acc)"
| "preload_batches fd one (e # es) acc =
     (let (span_end, joined, others) = take_batch 15 (le_block_offset e)
            (wrap64 (le_block_offset e + le_block_size e)) (le_block_size e) es;
          span_bytes = sub64 span_end (le_block_offset e)
      in case (if 0 < span_bytes then PreadBytes fd (le_block_offset e) span_bytes else Some []) of
           None \<Rightarrow> Some (Inl (kIOError, ''Failed to batch-read resident cluster blocks''))
         | Some buffer \<Rightarrow> do {
             result \<leftarrow> preload_entries (one buffer (le_block_offset e)) (e # joined)
               (acc\<lparr>pa_bytes := wrap64 (pa_bytes acc + span_bytes)\<rparr>);
             (case result of
                Inl err \<Rightarrow> Some (Inl err)
              | Inr acc' \<Rightarrow> preload_batches fd one others acc')
           })"
  by pat_completeness auto

termination
proof (relation "measure (\<lambda>(fd, one, es, acc). length es)")
  fix fd one and e :: lookup_entry and es acc x span_end y joined others z buffer a b
  assume "x = take_batch 15 (le_block_offset e) (wrap64 (le_block_offset e + le_block_size e)) (le_block_size e) es"
    and "(span_end, y) = x" and "(joined, others) = y"
  then have "es = joined @ others" using take_batch_parts by (metis (no_types))
  then show "((fd, one, others, b), fd, one, e # es, acc) \<in> measure (\<lambda>(fd, one, es, acc). length es)" by simp
qed simp_all

text \<open>Sums of 64-bit counters.\<close>

definition sum64 :: "('a \<Rightarrow> nat) \<Rightarrow> 'a list \<Rightarrow> nat" where
  "sum64 f xs = foldl (\<lambda>n x. wrap64 (n + f x)) 0 xs"

definition parallel_bytes :: "resident_view \<Rightarrow> nat" where
  "parallel_bytes v = wrap64 (length (pp_abs (rv_parallel v)) + length (pp_signs (rv_parallel v)) * 2)"

definition commit_compact :: "resident_store \<Rightarrow> nat \<Rightarrow> slab_plan \<Rightarrow> preload_acc \<Rightarrow> resident_store" where
  "commit_compact rs fsize plan acc =
     (let views = map (\<lambda>(cid, v). (cid, v (pa_slab acc))) (pa_views acc); vs = map snd views
      in \<lparr>rs_reader = (rs_reader rs)\<lparr>cr_preloaded := True\<rparr>,
          rs_clusters = map_of views, rs_parsed = map_of (map (\<lambda>(cid, v). (cid, ToParsedCluster v)) views),
          rs_preload_bytes = pa_bytes acc,
          rs_mem_bytes = wrap64 (sum64 (\<lambda>v. (if plan = None then rv_code_bytes v else 0) + rv_decoded_bytes v
            + parallel_bytes v + ResidentStage1EnvelopeBytes (rv_envelope v)) vs
            + (case plan of None \<Rightarrow> 0 | Some (_, slab_bytes) \<Rightarrow> slab_bytes)),
          rs_file_size = fsize, rs_file_buffer = 0, rs_code_storage = sum64 rv_code_bytes vs,
          rs_decoded_bytes = sum64 rv_decoded_bytes vs, rs_raw_bytes = 0, rs_batch_size = 16,
          rs_mode = (if plan = None then ''compact_batched'' else ''compact_code_mmap_2mb''),
          rs_parallel_bytes = sum64 parallel_bytes vs,
          rs_envelope_bytes = sum64 (\<lambda>v. ResidentStage1EnvelopeBytes (rv_envelope v)) vs\<rparr>)"

text \<open>Entries at equal offsets, which the sort may order either way, are taken in table order.\<close>

definition preload_compact ::
    "(string \<Rightarrow> string option) \<Rightarrow> bool \<Rightarrow> simd_build \<Rightarrow> resident_store \<Rightarrow> pread_fun \<Rightarrow> nat
      \<Rightarrow> (resident_store \<times> status) option" where
  "preload_compact getenv mmap_ok build rs fd fsize =
     (let r = rs_reader rs; table = si_lookup (cr_info r); ordered = sort_key le_block_offset table;
          run = (\<lambda>plan slab io. map_option (\<lambda>result. case result of
              Inl err \<Rightarrow> (rs, Inl err)
            | Inr acc \<Rightarrow> (commit_compact rs fsize plan acc, Inr ()))
            (preload_batches fd (preload_entry build r (UseStage1EnvelopePrecompute getenv) plan) ordered
               \<lparr>pa_slab = slab, pa_views = [], pa_bytes = io\<rparr>))
      in if \<exists>e \<in> set table. fsize < wrap64 (le_block_offset e + le_block_size e) then
           Some (rs, corrupt ''Cluster block exceeds .clu file size'')
         else if UseCompactCodeSlabResidentPreload getenv then
           (case place_regions (read_code_region_bytes fd (cr_cfg r) (cr_version r) (cr_dim r)) ordered
               (Map.empty, 0, 0) of
              Inl err \<Rightarrow> Some (rs, Inl err)
            | Inr (offsets, slab_bytes, io) \<Rightarrow>
                if slab_bytes \<noteq> 0 \<and> \<not> mmap_ok then
                  Some (rs, Inl (kIOError, ''Failed to mmap resident code slab buffer''))
                else run (Some (offsets, slab_bytes)) (replicate slab_bytes 0) io)
         else run None [] 0)"

section \<open>The full-file mode\<close>

text \<open>A cluster id that occurs again keeps its first view.\<close>

fun full_file_views ::
    "simd_build \<Rightarrow> cluster_reader \<Rightarrow> bool \<Rightarrow> bytes \<Rightarrow> lookup_entry list \<Rightarrow> (nat \<times> resident_view) list
      \<Rightarrow> (error + (nat \<times> resident_view) list) option" where
  "full_file_views build r precompute img [] views = Some (Inr views)"
| "full_file_views build r precompute img (e # es) views =
     (if length img < wrap64 (le_block_offset e + le_block_size e) then
        Some (corrupt ''Cluster block exceeds resident .clu buffer'')
      else do {
        result \<leftarrow> ParseClusterBlockView build r (le_cluster_id e)
          (if img = [] then None else Some (img, le_block_offset e)) (le_block_size e) parsed_cluster_new;
        (case result of
           Inl err \<Rightarrow> Some (Inl err)
         | Inr parsed \<Rightarrow> do {
             s \<leftarrow> resident_summaries precompute (cr_dim r) parsed;
             full_file_views build r precompute img es
               (views @ [(le_cluster_id e, add_summaries s (full_file_view parsed))])
           })
      })"

definition commit_full :: "resident_store \<Rightarrow> nat \<Rightarrow> string \<Rightarrow> (nat \<times> resident_view) list \<Rightarrow> resident_store" where
  "commit_full rs fsize mode views =
     (let vs = map snd views; kept = (\<lambda>cid. the (map_of views cid))
      in \<lparr>rs_reader = (rs_reader rs)\<lparr>cr_preloaded := True\<rparr>,
          rs_clusters = map_of views, rs_parsed = map_of (map (\<lambda>(cid, v). (cid, ToParsedCluster v)) views),
          rs_preload_bytes = fsize,
          rs_mem_bytes = wrap64 (sum64 (\<lambda>(cid, v). rv_decoded_bytes v + parallel_bytes (kept cid)
            + ResidentStage1EnvelopeBytes (rv_envelope v)) views + fsize),
          rs_file_size = fsize, rs_file_buffer = fsize, rs_code_storage = 0,
          rs_decoded_bytes = sum64 rv_decoded_bytes vs, rs_raw_bytes = sum64 rv_raw_bytes vs,
          rs_batch_size = 0, rs_mode = mode, rs_parallel_bytes = sum64 parallel_bytes vs,
          rs_envelope_bytes = sum64 (\<lambda>v. ResidentStage1EnvelopeBytes (rv_envelope v)) vs\<rparr>)"

definition preload_full ::
    "(string \<Rightarrow> string option) \<Rightarrow> bool \<Rightarrow> simd_build \<Rightarrow> resident_store \<Rightarrow> pread_fun \<Rightarrow> nat
      \<Rightarrow> (resident_store \<times> status) option" where
  "preload_full getenv mmap_ok build rs fd fsize =
     (let r = rs_reader rs; mmapped = UseAlignedMmapResidentFile getenv
      in if mmapped \<and> fsize \<noteq> 0 \<and> \<not> mmap_ok then
           Some (rs, Inl (kIOError, ''Failed to mmap resident .clu buffer''))
         else case (if 0 < fsize then PreadBytes fd 0 fsize else Some []) of
             None \<Rightarrow> Some (rs, Inl (kIOError, ''Failed to preload .clu file''))
           | Some img \<Rightarrow>
               map_option (\<lambda>result. case result of
                   Inl err \<Rightarrow> (rs, Inl err)
                 | Inr views \<Rightarrow>
                     (commit_full rs fsize (if mmapped then ''full_file_mmap_2mb'' else ''full_file'') views, Inr ()))
                 (full_file_views build r (UseStage1EnvelopePrecompute getenv) img (si_lookup (cr_info r)) []))"

section \<open>The operation\<close>

definition PreloadAllClusters ::
    "(string \<Rightarrow> string option) \<Rightarrow> bool \<Rightarrow> simd_build \<Rightarrow> resident_store \<Rightarrow> int
      \<Rightarrow> (resident_store \<times> status) option" where
  "PreloadAllClusters getenv mmap_ok build rs lseek_end =
     (case cr_fd (rs_reader rs) of
        None \<Rightarrow> Some (rs, Inl (invalid ''ClusterStoreReader not open''))
      | Some fd \<Rightarrow>
          if cr_preloaded (rs_reader rs) then Some (rs, Inr ())
          else if lseek_end < 0 then Some (rs, Inl (kIOError, ''Failed to determine .clu file size''))
          else if UseCompactResidentPreload getenv then
            preload_compact getenv mmap_ok build rs fd (nat lseek_end)
          else preload_full getenv mmap_ok build rs fd (nat lseek_end))"

end
