(* ===== verification/Dedup_Set.thy ===== *)
theory Dedup_Set
  imports Prelude "HOL-Library.Monad_Syntax"
begin

text \<open>
  \<open>QueryDedupSet\<close> (src/query/overlap_scheduler.cpp): the offsets a query has already asked for, in an
  open-addressing table whose capacity is a power of two.  The table never grows: the loops are
  partial functions, and a probe that finds neither the key nor a free slot does not return.
\<close>

section \<open>The table\<close>

definition kEmpty :: u64 where
  "kEmpty = 0xFFFFFFFFFFFFFFFF"

record dedup_set =
  ds_slots :: "u64 list"
  ds_mask :: nat
  ds_size :: nat

definition dedup_new :: dedup_set where
  "dedup_new = \<lparr>ds_slots = [], ds_mask = 0, ds_size = 0\<rparr>"

partial_function (option) next_power :: "nat \<Rightarrow> nat \<Rightarrow> nat option" where
  "next_power bound n = (if n < bound then next_power bound (wrap64 (n * 2)) else Some n)"

definition NextPowerOfTwo :: "nat \<Rightarrow> nat option" where
  "NextPowerOfTwo n = next_power n 1"

definition MixOffset :: "u64 \<Rightarrow> u64" where
  "MixOffset v0 =
     (let v1 = v0 XOR drop_bit 33 v0;
          v2 = v1 * 0xff51afd7ed558ccd;
          v3 = v2 XOR drop_bit 33 v2;
          v4 = v3 * 0xc4ceb9fe1a85ec53
      in v4 XOR drop_bit 33 v4)"

definition ds_Reserve :: "nat \<Rightarrow> dedup_set option" where
  "ds_Reserve expected = do {
     capacity \<leftarrow> NextPowerOfTwo (max 16 (wrap64 (expected * 2)));
     Some \<lparr>ds_slots = replicate capacity kEmpty, ds_mask = capacity - 1, ds_size = 0\<rparr>
   }"

definition ds_Clear :: "dedup_set \<Rightarrow> dedup_set" where
  "ds_Clear d = (if ds_slots d = [] then d else d\<lparr>ds_slots := map (\<lambda>_. kEmpty) (ds_slots d), ds_size := 0\<rparr>)"

text \<open>The probe: where the key is (\<open>False\<close>) or goes (\<open>True\<close>).\<close>

partial_function (option) ds_probe :: "u64 list \<Rightarrow> nat \<Rightarrow> u64 \<Rightarrow> nat \<Rightarrow> (nat \<times> bool) option" where
  "ds_probe slots mask_bits key idx =
     (if length slots \<le> idx then None
      else if slots ! idx = key then Some (idx, False)
      else if slots ! idx = kEmpty then Some (idx, True)
      else ds_probe slots mask_bits key ((idx + 1) AND mask_bits))"

definition ds_home :: "nat \<Rightarrow> u64 \<Rightarrow> nat" where
  "ds_home mask_bits key = unat (MixOffset key) AND mask_bits"

definition ds_Insert :: "dedup_set \<Rightarrow> u64 \<Rightarrow> (dedup_set \<times> bool) option" where
  "ds_Insert d0 key = do {
     d \<leftarrow> (if ds_slots d0 = [] then ds_Reserve 256 else Some d0);
     (idx, free) \<leftarrow> ds_probe (ds_slots d) (ds_mask d) key (ds_home (ds_mask d) key);
     Some (if free then (d\<lparr>ds_slots := (ds_slots d)[idx := key], ds_size := ds_size d + 1\<rparr>, True)
           else (d, False))
   }"

fun ds_insert_all :: "dedup_set \<Rightarrow> u64 list \<Rightarrow> (dedup_set \<times> bool list) option" where
  "ds_insert_all d [] = Some (d, [])"
| "ds_insert_all d (k # ks) = do {
     (d1, fresh) \<leftarrow> ds_Insert d k;
     (d2, rest) \<leftarrow> ds_insert_all d1 ks;
     Some (d2, fresh # rest)
   }"

section \<open>Positions on the ring\<close>

text \<open>A table of \<open>2 ^ n\<close> slots; position \<open>i\<close> of the probe sequence from \<open>h\<close>.\<close>

definition ring :: "nat \<Rightarrow> nat \<Rightarrow> nat \<Rightarrow> nat" where
  "ring n h i = (h + i) mod 2 ^ n"

lemma and_mask_mod: "a AND (2 ^ n - 1) = a mod 2 ^ n" for a n :: nat
  by (simp add: take_bit_eq_mod [symmetric] take_bit_eq_mask mask_eq_exp_minus_1)

lemma ring_next: "(ring n h i + 1) AND (2 ^ n - 1) = ring n h (Suc i)"
  unfolding and_mask_mod ring_def by (simp add: mod_simps)

lemma ring_less: "ring n h i < 2 ^ n"
  by (simp add: ring_def)

lemma ring_onto:
  assumes "h < 2 ^ n" and "j < 2 ^ n"
  shows "\<exists>d < 2 ^ n. ring n h d = j"
proof -
  define d where "d = (if h \<le> j then j - h else 2 ^ n + j - h)"
  have "d < 2 ^ n" "h + d = j \<or> h + d = 2 ^ n + j" using assms by (auto simp: d_def)
  then show ?thesis using assms(2) by (intro exI [of _ d]) (auto simp: ring_def)
qed

lemma ring_inj:
  assumes "ring n h d = ring n h e" and "d < 2 ^ n" and "e < 2 ^ n"
  shows "d = e"
proof -
  have "\<not> (a < b \<and> b < 2 ^ n \<and> ring n h a = ring n h b)" for a b
  proof
    assume *: "a < b \<and> b < 2 ^ n \<and> ring n h a = ring n h b"
    then have "2 ^ n dvd (h + b) - (h + a)" by (metis mod_eq_dvd_iff_nat add_le_cancel_left less_imp_le ring_def)
    then have "2 ^ n \<le> b - a" using * by (auto dest: dvd_imp_le)
    then show False using * by linarith
  qed
  then show ?thesis using assms by (metis linorder_neqE_nat)
qed

section \<open>The invariant\<close>

text \<open>Every stored key is reached from its home over occupied slots.\<close>

definition ds_inv :: "dedup_set \<Rightarrow> bool" where
  "ds_inv d \<longleftrightarrow> (\<exists>n. length (ds_slots d) = 2 ^ n \<and> ds_mask d = 2 ^ n - 1
     \<and> (\<forall>j < 2 ^ n. ds_slots d ! j \<noteq> kEmpty \<longrightarrow>
         (\<exists>m < 2 ^ n. ring n (ds_home (ds_mask d) (ds_slots d ! j)) m = j
            \<and> (\<forall>i < m. ds_slots d ! ring n (ds_home (ds_mask d) (ds_slots d ! j)) i \<noteq> kEmpty)))
     \<and> (\<forall>i < 2 ^ n. \<forall>j < 2 ^ n. ds_slots d ! i = ds_slots d ! j \<and> ds_slots d ! i \<noteq> kEmpty \<longrightarrow> i = j))"

definition ds_keys :: "dedup_set \<Rightarrow> u64 set" where
  "ds_keys d = set (ds_slots d) - {kEmpty}"

lemma probe_steps:
  assumes "length slots = 2 ^ n" and "\<forall>i < m. slots ! ring n h i \<noteq> key \<and> slots ! ring n h i \<noteq> kEmpty"
  shows "ds_probe slots (2 ^ n - 1) key (ring n h 0) = ds_probe slots (2 ^ n - 1) key (ring n h m)"
  using assms(2)
proof (induction m)
  case (Suc m)
  then have IH: "ds_probe slots (2 ^ n - 1) key (ring n h 0) = ds_probe slots (2 ^ n - 1) key (ring n h m)" by simp
  show ?case unfolding IH ring_next [symmetric]
    using Suc.prems ring_less [of n h m] assms(1) by (subst ds_probe.simps) simp
qed simp

text \<open>Where the probe ends.\<close>

lemma probe_ends:
  assumes len: "length slots = 2 ^ n" and h: "h < 2 ^ n"
    and m: "\<forall>i < m. slots ! ring n h i \<noteq> key \<and> slots ! ring n h i \<noteq> kEmpty"
      "slots ! ring n h m = key \<or> slots ! ring n h m = kEmpty"
  shows "ds_probe slots (2 ^ n - 1) key h = Some (ring n h m, slots ! ring n h m \<noteq> key)"
proof -
  have "ring n h 0 = h" using h by (simp add: ring_def)
  then have "ds_probe slots (2 ^ n - 1) key h = ds_probe slots (2 ^ n - 1) key (ring n h m)"
    using probe_steps [OF len m(1)] by simp
  also have "\<dots> = Some (ring n h m, slots ! ring n h m \<noteq> key)"
    using m(2) len ring_less [of n h m] by (subst ds_probe.simps) auto
  finally show ?thesis .
qed

lemma first_stop:
  assumes "length slots = 2 ^ n" and "h < 2 ^ n" and "key \<in> set slots \<or> kEmpty \<in> set slots"
  shows "\<exists>m < 2 ^ n. (\<forall>i < m. slots ! ring n h i \<noteq> key \<and> slots ! ring n h i \<noteq> kEmpty)
    \<and> (slots ! ring n h m = key \<or> slots ! ring n h m = kEmpty)"
proof -
  obtain j where j: "j < 2 ^ n" "slots ! j = key \<or> slots ! j = kEmpty"
    using assms(1,3) by (metis in_set_conv_nth)
  obtain m where m: "m < 2 ^ n" "ring n h m = j" using ring_onto [OF assms(2) j(1)] by blast
  let ?P = "\<lambda>i. slots ! ring n h i = key \<or> slots ! ring n h i = kEmpty"
  define l where "l = (LEAST i. ?P i)"
  have "?P l" unfolding l_def by (rule LeastI [of ?P m]) (use m j in simp)
  moreover have "l \<le> m" unfolding l_def by (rule Least_le) (use m j in simp)
  moreover have "\<not> ?P i" if "i < l" for i using that not_less_Least unfolding l_def by blast
  ultimately show ?thesis using m(1) by (intro exI [of _ l]) auto
qed

lemma home_less: "ds_home (2 ^ n - 1) key < 2 ^ n"
  unfolding ds_home_def and_mask_mod by simp

section \<open>Inserting\<close>

lemma Insert_spec:
  assumes inv: "ds_inv d" and key: "key \<noteq> kEmpty" and room: "key \<in> ds_keys d \<or> kEmpty \<in> set (ds_slots d)"
  shows "\<exists>d'. ds_Insert d key = Some (d', key \<notin> ds_keys d) \<and> ds_inv d' \<and> ds_keys d' = insert key (ds_keys d)
    \<and> length (ds_slots d') = length (ds_slots d)
    \<and> ds_size d' = ds_size d + of_bool (key \<notin> ds_keys d)"
proof -
  obtain n where n: "length (ds_slots d) = 2 ^ n" "ds_mask d = 2 ^ n - 1"
    and reach: "\<And>j. j < 2 ^ n \<Longrightarrow> ds_slots d ! j \<noteq> kEmpty \<Longrightarrow>
         (\<exists>m < 2 ^ n. ring n (ds_home (ds_mask d) (ds_slots d ! j)) m = j
            \<and> (\<forall>i < m. ds_slots d ! ring n (ds_home (ds_mask d) (ds_slots d ! j)) i \<noteq> kEmpty))"
    and uniq: "\<And>i j. i < 2 ^ n \<Longrightarrow> j < 2 ^ n \<Longrightarrow> ds_slots d ! i = ds_slots d ! j \<Longrightarrow> ds_slots d ! i \<noteq> kEmpty \<Longrightarrow> i = j"
    using inv unfolding ds_inv_def by blast
  define slots where "slots = ds_slots d"
  define h where "h = ds_home (2 ^ n - 1) key"
  have h: "h < 2 ^ n" unfolding h_def by (rule home_less)
  have "key \<in> set slots \<or> kEmpty \<in> set slots" using room by (auto simp: ds_keys_def slots_def)
  then obtain m where m: "m < 2 ^ n" "\<forall>i < m. slots ! ring n h i \<noteq> key \<and> slots ! ring n h i \<noteq> kEmpty"
      "slots ! ring n h m = key \<or> slots ! ring n h m = kEmpty"
    using first_stop [of slots n h key] n(1) h by (auto simp: slots_def)
  define p where "p = ring n h m"
  have p: "p < 2 ^ n" "p < length slots" using n(1) by (simp_all add: p_def ring_less slots_def)
  have ne: "ds_slots d \<noteq> []" using n(1) by auto
  have probe: "ds_probe slots (ds_mask d) key (ds_home (ds_mask d) key) = Some (p, slots ! p \<noteq> key)"
    using probe_ends [OF _ h m(2,3)] n by (simp add: slots_def p_def h_def)
  have found: "slots ! p = key \<longleftrightarrow> key \<in> ds_keys d"
  proof
    assume "key \<in> ds_keys d"
    then obtain j where j: "j < 2 ^ n" "slots ! j = key"
      using n(1) by (auto simp: ds_keys_def slots_def in_set_conv_nth)
    then obtain e where e: "e < 2 ^ n" "ring n h e = j" "\<forall>i < e. slots ! ring n h i \<noteq> kEmpty"
      using reach [of j] key n(2) by (auto simp: slots_def h_def)
    have "m \<le> e" using m(2) e(2) j(2) by (metis not_le)
    then show "slots ! p = key" using m(3) e j key by (metis le_neq_implies_less p_def)
  qed (use p(2) key in \<open>auto simp: ds_keys_def slots_def\<close>)
  show ?thesis
  proof (cases "key \<in> ds_keys d")
    case True
    then have "ds_Insert d key = Some (d, False)"
      using probe found ne by (simp add: ds_Insert_def slots_def)
    then show ?thesis using True inv by (auto simp: insert_absorb)
  next
    case False
    then have empty: "slots ! p = kEmpty" using found m(3) by (auto simp: p_def)
    define d' where "d' = d\<lparr>ds_slots := slots[p := key], ds_size := ds_size d + 1\<rparr>"
    have ins: "ds_Insert d key = Some (d', True)"
      using probe found ne False by (simp add: ds_Insert_def slots_def d'_def)
    have at: "slots[p := key] ! i = (if i = p then key else slots ! i)" if "i < 2 ^ n" for i
      using p n(1) that by (simp add: slots_def)
    have keys: "ds_keys d' = insert key (ds_keys d)"
    proof -
      have "set (slots[p := key]) - {kEmpty} = insert key (set slots - {kEmpty})"
      proof (rule set_eqI)
        fix x
        show "x \<in> set (slots[p := key]) - {kEmpty} \<longleftrightarrow> x \<in> insert key (set slots - {kEmpty})"
          using p key empty by (auto simp: in_set_conv_nth nth_list_update split: if_splits)
      qed
      then show ?thesis by (simp add: ds_keys_def d'_def slots_def)
    qed
    have "ds_inv d'" unfolding ds_inv_def
    proof (rule exI [of _ n], intro conjI allI impI)
      show "length (ds_slots d') = 2 ^ n" "ds_mask d' = 2 ^ n - 1" using n by (simp_all add: d'_def slots_def)
    next
      fix j assume j: "j < 2 ^ n" "ds_slots d' ! j \<noteq> kEmpty"
      show "\<exists>e < 2 ^ n. ring n (ds_home (ds_mask d') (ds_slots d' ! j)) e = j
          \<and> (\<forall>i < e. ds_slots d' ! ring n (ds_home (ds_mask d') (ds_slots d' ! j)) i \<noteq> kEmpty)"
      proof (cases "j = p")
        case True
        then have "ds_slots d' ! j = key" using at [of p] p by (simp add: d'_def)
        then show ?thesis using m(1,2) True at [OF ring_less] key n(2)
          by (intro exI [of _ m]) (simp add: d'_def p_def h_def)
      next
        case False
        then have "ds_slots d' ! j = slots ! j" using at [OF j(1)] by (simp add: d'_def)
        then show ?thesis using reach [OF j(1)] j at [OF ring_less] key
          by (auto simp: d'_def slots_def)
      qed
    next
      fix i j assume ij: "i < 2 ^ n" "j < 2 ^ n" "ds_slots d' ! i = ds_slots d' ! j \<and> ds_slots d' ! i \<noteq> kEmpty"
      have "slots ! x \<noteq> key" if "x < 2 ^ n" for x
        using False that n(1) key by (auto simp: ds_keys_def slots_def)
      then show "i = j" using ij at uniq [OF ij(1,2)] by (auto simp: d'_def slots_def split: if_splits)
    qed
    then show ?thesis using ins keys False by (simp add: d'_def slots_def)
  qed
qed

text \<open>A table with a free slot or with the key answers; a full table without it never does.\<close>

lemma probe_stuck:
  assumes "ds_probe slots mb key idx = Some r"
  shows "key \<in> set slots \<or> kEmpty \<in> set slots"
proof (rule ds_probe.raw_induct [where P = "\<lambda>slots mb key idx r. key \<in> set slots \<or> kEmpty \<in> set slots", OF _ assms])
  fix probe slots mb key idx r
  assume IH: "\<And>slots mb key idx r. probe slots mb key idx = Some r \<Longrightarrow> key \<in> set slots \<or> kEmpty \<in> set slots"
    and body: "(if length slots \<le> idx then None else if slots ! idx = key then Some (idx, False)
      else if slots ! idx = kEmpty then Some (idx, True) else probe slots mb key ((idx + 1) AND mb)) = Some r"
  then have len: "idx < length slots" by (metis not_le option.distinct(1))
  show "key \<in> set slots \<or> kEmpty \<in> set slots"
    using IH body nth_mem [OF len] len by (metis not_le)
qed

lemma ds_empty: "length slots = 2 ^ n \<Longrightarrow> \<forall>x \<in> set slots. x = kEmpty
  \<Longrightarrow> ds_inv \<lparr>ds_slots = slots, ds_mask = 2 ^ n - 1, ds_size = 0\<rparr>"
  unfolding ds_inv_def by (rule exI [of _ n]) (auto dest: nth_mem)

lemma Clear_inv: "ds_inv d \<Longrightarrow> ds_inv (ds_Clear d) \<and> ds_keys (ds_Clear d) = {}
  \<and> length (ds_slots (ds_Clear d)) = length (ds_slots d)"
proof -
  assume "ds_inv d"
  then obtain n where n: "length (ds_slots d) = 2 ^ n" "ds_mask d = 2 ^ n - 1" unfolding ds_inv_def by blast
  then have "ds_slots d \<noteq> []" by auto
  then have c: "ds_Clear d = \<lparr>ds_slots = map (\<lambda>_. kEmpty) (ds_slots d), ds_mask = 2 ^ n - 1, ds_size = 0\<rparr>"
    using n(2) by (simp add: ds_Clear_def)
  show ?thesis unfolding c using ds_empty [of "map (\<lambda>_. kEmpty) (ds_slots d)" n] n(1) by (auto simp: ds_keys_def)
qed

text \<open>\<open>Reserve\<close>: the least power of two that is large enough, as long as it fits 64 bits.\<close>

lemma next_power_Some:
  assumes "bound \<le> 2 ^ (k + m)" and "k + m < 64" and "m = 0 \<or> \<not> bound \<le> 2 ^ (k + m - 1)"
  shows "next_power bound (2 ^ k) = Some (2 ^ (k + m))"
  using assms
proof (induction m arbitrary: k)
  case 0
  then show ?case by (subst next_power.simps) simp
next
  case (Suc m)
  have "(2 :: nat) ^ k \<le> 2 ^ (k + m)" by (rule power_increasing) simp_all
  moreover have "\<not> bound \<le> 2 ^ (k + m)" using Suc.prems(3) by simp
  ultimately have less: "2 ^ k < bound" by linarith
  have "(2 :: nat) ^ Suc k < 2 ^ 64" by (rule power_strict_increasing) (use Suc.prems(2) in simp_all)
  then have w: "wrap64 (2 ^ k * 2) = 2 ^ Suc k" by simp
  have "next_power bound (2 ^ Suc k) = Some (2 ^ (Suc k + m))"
    by (rule Suc.IH) (use Suc.prems in auto)
  then show ?case using less w by (subst next_power.simps) simp
qed

lemma Reserve_spec:
  assumes "expected < 4611686018427387904"
  shows "\<exists>d. ds_Reserve expected = Some d \<and> ds_inv d \<and> ds_keys d = {} \<and> ds_size d = 0
    \<and> 16 \<le> length (ds_slots d) \<and> expected * 2 \<le> length (ds_slots d)
    \<and> (length (ds_slots d) = 16 \<or> length (ds_slots d) < expected * 4) \<and> (\<exists>n. length (ds_slots d) = 2 ^ n)"
proof -
  define b where "b = max 16 (expected * 2)"
  have b: "16 \<le> b" "b \<le> 2 ^ 63" using assms by (auto simp: b_def)
  define m where "m = (LEAST m. b \<le> 2 ^ m)"
  have m: "b \<le> 2 ^ m" unfolding m_def by (rule LeastI) (rule b(2))
  have m63: "m \<le> 63" unfolding m_def by (rule Least_le) (rule b(2))
  have min: "m = 0 \<or> \<not> b \<le> 2 ^ (m - 1)"
    using not_less_Least [of "m - 1" "\<lambda>m. b \<le> 2 ^ m"] unfolding m_def by (cases "(LEAST m. b \<le> 2 ^ m) = 0") auto
  have least: "(2 :: nat) ^ m = 16 \<or> 2 ^ m < expected * 4"
  proof (cases "m \<le> 4")
    case True
    then have "(2 :: nat) ^ m \<le> 2 ^ 4" by (rule power_increasing) simp
    then show ?thesis using m b(1) by simp
  next
    case False
    then obtain k where k: "m = Suc k" "4 \<le> k" by (cases m) simp_all
    have "(2 :: nat) ^ 4 \<le> 2 ^ k" using k(2) by (rule power_increasing) simp
    then show ?thesis using min k(1) by (auto simp: b_def)
  qed
  have "next_power b (2 ^ 0) = Some (2 ^ (0 + m))" by (rule next_power_Some) (use m m63 min in simp_all)
  then have "ds_Reserve expected = Some \<lparr>ds_slots = replicate (2 ^ m) kEmpty, ds_mask = 2 ^ m - 1, ds_size = 0\<rparr>"
    using assms by (simp add: ds_Reserve_def NextPowerOfTwo_def b_def)
  then show ?thesis using ds_empty [of "replicate (2 ^ m) kEmpty" m] m least by (auto simp: ds_keys_def b_def)
qed

lemma insert_all_spec:
  assumes "ds_inv d" and "kEmpty \<notin> set ks" and "card (ds_keys d \<union> set ks) \<le> length (ds_slots d)"
  shows "\<exists>d'. ds_insert_all d ks = Some (d', map (\<lambda>i. ks ! i \<notin> ds_keys d \<and> ks ! i \<notin> set (take i ks)) [0..<length ks])
    \<and> ds_inv d' \<and> ds_keys d' = ds_keys d \<union> set ks"
  using assms
proof (induction ks arbitrary: d)
  case (Cons k ks)
  have fin: "finite (ds_keys d)" by (simp add: ds_keys_def)
  have room: "k \<in> ds_keys d \<or> kEmpty \<in> set (ds_slots d)"
  proof (rule ccontr)
    assume no: "\<not> ?thesis"
    then have "distinct (ds_slots d)"
      using Cons.prems(1) unfolding ds_inv_def distinct_conv_nth by (metis nth_mem)
    then have "card (set (ds_slots d)) = length (ds_slots d)" by (rule distinct_card)
    moreover have "ds_keys d = set (ds_slots d)" using no by (simp add: ds_keys_def)
    ultimately have "card (insert k (ds_keys d)) = Suc (length (ds_slots d))" using no fin by simp
    moreover have "card (insert k (ds_keys d)) \<le> card (ds_keys d \<union> set (k # ks))"
      by (rule card_mono) (use fin in auto)
    ultimately show False using Cons.prems(3) by simp
  qed
  obtain d1 where d1: "ds_Insert d k = Some (d1, k \<notin> ds_keys d)" "ds_inv d1" "ds_keys d1 = insert k (ds_keys d)"
      "length (ds_slots d1) = length (ds_slots d)"
    using Insert_spec [OF Cons.prems(1) _ room] Cons.prems(2) by auto
  obtain d2 where d2: "ds_insert_all d1 ks = Some (d2, map (\<lambda>i. ks ! i \<notin> ds_keys d1 \<and> ks ! i \<notin> set (take i ks)) [0..<length ks])"
      "ds_inv d2" "ds_keys d2 = ds_keys d1 \<union> set ks"
    using Cons.IH [OF d1(2)] Cons.prems(2,3) d1(3,4) by auto
  have "map (\<lambda>i. (k # ks) ! i \<notin> ds_keys d \<and> (k # ks) ! i \<notin> set (take i (k # ks))) [0..<length (k # ks)]
      = (k \<notin> ds_keys d) # map (\<lambda>i. ks ! i \<notin> ds_keys d1 \<and> ks ! i \<notin> set (take i ks)) [0..<length ks]"
    by (simp add: upt_conv_Cons map_Suc_upt [symmetric] comp_def d1(3) del: upt_Suc) auto
  then show ?case using d1(1) d2 d1(3) by auto
qed simp

text \<open>When \<open>Insert\<close> returns.\<close>

lemma Insert_returns:
  assumes "ds_inv d" and "key \<noteq> kEmpty"
  shows "ds_Insert d key \<noteq> None \<longleftrightarrow> key \<in> ds_keys d \<or> kEmpty \<in> set (ds_slots d)"
proof
  assume "ds_Insert d key \<noteq> None"
  obtain n where n: "length (ds_slots d) = 2 ^ n" "ds_mask d = 2 ^ n - 1" using assms(1) unfolding ds_inv_def by blast
  then have "ds_slots d \<noteq> []" by auto
  then obtain r where "ds_probe (ds_slots d) (2 ^ n - 1) key (ds_home (2 ^ n - 1) key) = Some r"
    using \<open>ds_Insert d key \<noteq> None\<close> n(2) by (auto simp: ds_Insert_def bind_eq_Some_conv)
  then show "key \<in> ds_keys d \<or> kEmpty \<in> set (ds_slots d)"
    using probe_stuck [of "ds_slots d" "2 ^ n - 1" key "ds_home (2 ^ n - 1) key" r] assms(2) by (simp add: ds_keys_def)
next
  assume "key \<in> ds_keys d \<or> kEmpty \<in> set (ds_slots d)"
  then show "ds_Insert d key \<noteq> None" using Insert_spec [OF assms] by blast
qed

text \<open>Keys inserted fit the table.\<close>

lemma insert_all_fits:
  assumes "ds_inv d" and "kEmpty \<notin> set ks" and "ds_insert_all d ks = Some r"
  shows "card (ds_keys d \<union> set ks) \<le> length (ds_slots d)"
  using assms
proof (induction ks arbitrary: d r)
  case Nil
  have "card (ds_keys d) \<le> card (set (ds_slots d))" unfolding ds_keys_def by (rule card_mono) simp_all
  then show ?case using card_length [of "ds_slots d"] by simp
next
  case (Cons k ks)
  then have ne: "ds_Insert d k \<noteq> None" "k \<noteq> kEmpty" by (auto simp: bind_eq_Some_conv)
  then have room: "k \<in> ds_keys d \<or> kEmpty \<in> set (ds_slots d)" using Insert_returns [OF Cons.prems(1)] by blast
  obtain d1 where d1: "ds_Insert d k = Some (d1, k \<notin> ds_keys d)" "ds_inv d1" "ds_keys d1 = insert k (ds_keys d)"
      "length (ds_slots d1) = length (ds_slots d)"
    using Insert_spec [OF Cons.prems(1) ne(2) room] by auto
  then obtain r1 where "ds_insert_all d1 ks = Some r1" using Cons.prems(3) by (auto simp: bind_eq_Some_conv)
  then show ?case using Cons.IH [OF d1(2)] Cons.prems(2) d1(3,4) by simp
qed

section \<open>Properties\<close>

text \<open>C20: \<open>Reserve\<close> makes a table of the least power of two of slots that is at least 16 and twice
  the expected number of keys.  For any sequence of keys other than the empty mark, of which as many
  are distinct as the table has slots or fewer, every \<open>Insert\<close> returns, with \<open>True\<close> exactly for the
  first occurrence of its key; with more distinct keys than slots one of them never returns.\<close>

theorem dedup_exact:
  assumes "expected < 4611686018427387904" and "kEmpty \<notin> set ks"
  shows "\<exists>d0 n. ds_Reserve expected = Some d0 \<and> length (ds_slots d0) = 2 ^ n
    \<and> 16 \<le> length (ds_slots d0) \<and> expected * 2 \<le> length (ds_slots d0)
    \<and> (length (ds_slots d0) = 16 \<or> length (ds_slots d0) < expected * 4)
    \<and> (if card (set ks) \<le> length (ds_slots d0)
       then \<exists>d. ds_insert_all d0 ks = Some (d, map (\<lambda>i. ks ! i \<notin> set (take i ks)) [0..<length ks])
          \<and> ds_keys d = set ks
       else ds_insert_all d0 ks = None)"
proof -
  obtain d0 n where d0: "ds_Reserve expected = Some d0" "ds_inv d0" "ds_keys d0 = {}"
      "16 \<le> length (ds_slots d0)" "expected * 2 \<le> length (ds_slots d0)"
      "length (ds_slots d0) = 16 \<or> length (ds_slots d0) < expected * 4" "length (ds_slots d0) = 2 ^ n"
    using Reserve_spec [OF assms(1)] by blast
  have "\<exists>d. ds_insert_all d0 ks = Some (d, map (\<lambda>i. ks ! i \<notin> set (take i ks)) [0..<length ks])
      \<and> ds_keys d = set ks" if "card (set ks) \<le> length (ds_slots d0)"
    using insert_all_spec [OF d0(2) assms(2)] d0(3) that by auto
  moreover have "ds_insert_all d0 ks = None" if "\<not> card (set ks) \<le> length (ds_slots d0)"
    using insert_all_fits [OF d0(2) assms(2)] d0(3) that by (cases "ds_insert_all d0 ks") auto
  ultimately show ?thesis using d0 by (intro exI [of _ d0] exI [of _ n]) simp
qed

theorem dedup_exact_witness:
  "\<exists>d0 d. ds_Reserve 2 = Some d0 \<and> ds_insert_all d0 [4096, 8192, 4096] = Some (d, [True, True, False])"
proof -
  have k: "kEmpty \<notin> set [4096, 8192, 4096]" by (simp add: kEmpty_def)
  have m: "map (\<lambda>i. [4096, 8192, 4096 :: u64] ! i \<notin> set (take i [4096, 8192, 4096]))
      [0..<length [4096, 8192, 4096 :: u64]] = [True, True, False]" by (simp add: upt_rec)
  have n: "(2 :: nat) < 4611686018427387904" by simp
  obtain d0 where d0: "ds_Reserve 2 = Some d0" "16 \<le> length (ds_slots d0)"
    and ins: "if card (set [4096, 8192, 4096 :: u64]) \<le> length (ds_slots d0)
      then \<exists>d. ds_insert_all d0 [4096, 8192, 4096] = Some (d, [True, True, False])
        \<and> ds_keys d = set [4096, 8192, 4096]
      else ds_insert_all d0 [4096, 8192, 4096] = None"
    using dedup_exact [OF n k] unfolding m by blast
  have "card (set [4096, 8192, 4096 :: u64]) \<le> length (ds_slots d0)"
    by (rule le_trans [OF card_length]) (use d0(2) in simp)
  then show ?thesis using d0(1) ins by auto
qed

text \<open>C21: when \<open>Insert\<close> returns at all.  On a table that satisfies the invariant it returns for a key
  that is there or while a slot is free; on a full table it never returns for a new key.\<close>

theorem dedup_terminates_iff:
  assumes "ds_inv d" and "key \<noteq> kEmpty"
  shows "ds_Insert d key \<noteq> None \<longleftrightarrow> key \<in> ds_keys d \<or> kEmpty \<in> set (ds_slots d)"
  by (rule Insert_returns [OF assms])

theorem dedup_terminates_iff_witness:
  "\<exists>d. ds_inv d \<and> ds_Insert d 4096 \<noteq> None
    \<and> (ds_Insert d 4096 \<noteq> None \<longleftrightarrow> 4096 \<in> ds_keys d \<or> kEmpty \<in> set (ds_slots d))"
proof -
  obtain d where d: "ds_inv d" "ds_keys d = {}" "16 \<le> length (ds_slots d)" using Reserve_spec [of 2] by auto
  have "ds_slots d ! 0 \<in> set (ds_slots d)" by (rule nth_mem) (use d(3) in linarith)
  then have e: "kEmpty \<in> set (ds_slots d)" using d(2) unfolding ds_keys_def by (metis Diff_iff empty_iff singletonD)
  have k: "(4096 :: u64) \<noteq> kEmpty" by (simp add: kEmpty_def)
  note iff = dedup_terminates_iff [OF d(1) k]
  have ins: "ds_Insert d 4096 \<noteq> None" unfolding iff by (rule disjI2 [OF e])
  show ?thesis by (rule exI [of _ d]) (rule conjI [OF d(1) conjI [OF ins iff]])
qed

end
