(* ===== verification/Search_Context.thy ===== *)
theory Search_Context
  imports Result_Collector Float_Arith
begin

text \<open>
  \<open>SearchConfig\<close> and \<open>SearchStats\<close> (src/include/vdb/query/search_context.h): the switches the
  overlap scheduler reads and the counters it keeps for a query.  The counters are the \<open>uint32_t\<close>
  members the modelled operations touch, as a function from their names; they wrap at 32 bits.
  Timing members and the two \<open>double\<close> sums, which nothing reads, are left out.
\<close>

section \<open>Configuration\<close>

datatype safein_mode = Static | Frontier

text \<open>\<open>sc_members\<close>, \<open>sc_truth\<close>: the benchmark-only truth metadata, null pointers as \<open>None\<close>; the set
  of rows as a predicate.\<close>

record search_config =
  sc_top_k :: u32
  sc_nprobe :: u32
  sc_io_queue_depth :: u32
  sc_safein_all_threshold :: u32
  sc_isolated :: bool
  sc_enable_dynamic_safeout :: bool
  sc_safein_mode :: safein_mode
  sc_min_probes :: u32
  sc_stable_probes :: u32
  sc_rel_tol :: f32
  sc_abs_tol :: f32
  sc_defer_initial_clusters :: u32
  sc_defer_until_ready :: bool
  sc_defer_max_candidates :: u32
  sc_submit_batch_size :: u32
  sc_fixed_vec_buffer_count :: u32
  sc_enable_address_sort :: bool
  sc_address_sort_window :: u32
  sc_enable_early_submit :: bool
  sc_early_submit_interval :: u32
  sc_early_submit_count :: u32
  sc_early_submit_max :: u32
  sc_batched_distance_simd :: bool
  sc_candidate_budget :: u32
  sc_members :: "nat list list option"
  sc_truth :: "(nat \<Rightarrow> bool) option"

text \<open>The default member initialisers; 0.005 is the pattern 0x3BA3D70A.\<close>

definition default_config :: search_config where
  "default_config = \<lparr>sc_top_k = 10, sc_nprobe = 8, sc_io_queue_depth = 64,
     sc_safein_all_threshold = 262144, sc_isolated = False, sc_enable_dynamic_safeout = True,
     sc_safein_mode = Static, sc_min_probes = 0, sc_stable_probes = 2, sc_rel_tol = 0x3BA3D70A,
     sc_abs_tol = 0, sc_defer_initial_clusters = 0, sc_defer_until_ready = False,
     sc_defer_max_candidates = 0, sc_submit_batch_size = 32, sc_fixed_vec_buffer_count = 0,
     sc_enable_address_sort = False, sc_address_sort_window = 64, sc_enable_early_submit = False,
     sc_early_submit_interval = 32, sc_early_submit_count = 64, sc_early_submit_max = 128,
     sc_batched_distance_simd = True, sc_candidate_budget = 0, sc_members = None, sc_truth = None\<rparr>"

definition UseNonSafeOutCandidateBudget :: "search_config \<Rightarrow> bool" where
  "UseNonSafeOutCandidateBudget c \<longleftrightarrow> 0 < sc_candidate_budget c"

section \<open>Counters\<close>

datatype (plugins only: ) counter =
    total_probed | total_safe_in | total_safe_out | s1_uncertain_raw | total_uncertain
  | total_io_submitted | total_reranked | total_payload_prefetched | total_payload_fetched
  | total_safein_payload_prefetched | total_submit_calls | total_submit_window_flushes
  | total_submit_window_tail_flushes | total_submit_window_requests | vec_only_read_requests
  | all_read_requests | payload_read_requests | fixed_vec_buffer_hits | fixed_vec_buffer_misses
  | total_candidate_batches | safeout_frontier_estimates_buffered
  | safeout_frontier_estimates_merged | safeout_frontier_updates | dynamic_safein_clusters
  | dynamic_safein_active_clusters | dynamic_safein_disabled_clusters
  | dynamic_safein_threshold_changed_clusters | dynamic_safein_ready_transitions
  | dynamic_safein_frontier_samples | dynamic_safein_threshold_samples
  | dynamic_safein_deferred_candidates | dynamic_safein_deferred_flushes
  | dynamic_safein_deferred_safein | safein_prefetch_candidates | safein_prefetch_true_topk
  | safein_prefetch_false | safein_prefetch_unknown | duplicate_candidates
  | deduplicated_candidates | unique_fetch_candidates | buffered_candidates | reranked_candidates
  | candidate_budget_seen | candidate_budget_selected | candidate_budget_dropped
  | budgeted_early_submitted_candidates | address_sorted_requests
  | s2_safe_in | s2_safe_out | s2_uncertain | s1_false_safe_in | s1_false_safe_out
  | s2_false_safe_in | s2_false_safe_out | stage1_fused_blocks | stage1_fused_safeout_lanes
  | stage1_fused_safein_lanes | stage1_envelope_tested_blocks | stage1_envelope_skipped_blocks
  | stage1_envelope_safeout_lanes

record search_stats =
  ss_count :: "counter \<Rightarrow> u32"
  ss_final_frontier :: f32
  ss_final_threshold :: f32

definition stats_new :: search_stats where
  "stats_new = \<lparr>ss_count = (\<lambda>_. 0), ss_final_frontier = 0, ss_final_threshold = 0\<rparr>"

definition add_count :: "counter \<Rightarrow> u32 \<Rightarrow> search_stats \<Rightarrow> search_stats" where
  "add_count c n s = s\<lparr>ss_count := (ss_count s)(c := ss_count s c + n)\<rparr>"

definition set_count :: "counter \<Rightarrow> u32 \<Rightarrow> search_stats \<Rightarrow> search_stats" where
  "set_count c n s = s\<lparr>ss_count := (ss_count s)(c := n)\<rparr>"

abbreviation bump :: "counter \<Rightarrow> search_stats \<Rightarrow> search_stats" where
  "bump c \<equiv> add_count c 1"

text \<open>The false-statistics prefetch counters.\<close>

definition RecordSafeInPrefetchDecision :: "bool \<Rightarrow> bool \<Rightarrow> search_stats \<Rightarrow> search_stats" where
  "RecordSafeInPrefetchDecision has_truth is_true_topk s =
     bump (if \<not> has_truth then safein_prefetch_unknown
           else if is_true_topk then safein_prefetch_true_topk else safein_prefetch_false)
       (bump safein_prefetch_candidates s)"

end
