(* ===== verification/Bounded_Heap.thy ===== *)
theory Bounded_Heap
  imports Heap_Queue
begin

text \<open>
  Bounded max-heaps: the offer step the frontiers and the candidate budget of the overlap scheduler
  share, what the top of such a heap says about everything that was offered, and
  \<open>std::sort_heap\<close>.
\<close>

section \<open>Offering\<close>

definition bounded_offer :: "('a \<Rightarrow> 'a \<Rightarrow> bool) \<Rightarrow> nat \<Rightarrow> 'a list \<Rightarrow> 'a \<Rightarrow> 'a list" where
  "bounded_offer lt k q x =
     (if length q < k then heap_push lt q x
      else if q \<noteq> [] \<and> lt x (q ! 0) then heap_push lt (heap_pop lt q) x else q)"

lemma length_bounded_offer: "length q \<le> k \<Longrightarrow> length (bounded_offer lt k q x) \<le> k"
  by (cases q) (auto simp: bounded_offer_def)

lemma sorted_le_last: "sorted xs \<Longrightarrow> x \<in> set xs \<Longrightarrow> x \<le> last xs"
  by (induction xs) (auto dest: last_in_set)

context heap_order
begin

definition kept_best :: "nat \<Rightarrow> 'a multiset \<Rightarrow> 'a list \<Rightarrow> bool" where
  "kept_best k M q \<longleftrightarrow> is_heap q \<and> best_k key k M (mset q)"

lemma kept_best_Nil: "kept_best k {#} []"
  by (simp add: kept_best_def is_heap_def best_k_empty)

lemma kept_best_length: "kept_best k M q \<Longrightarrow> length q = min k (size M)"
  by (simp add: kept_best_def best_k_def)

lemma kept_best_ok: "kept_best k M q \<Longrightarrow> x \<in> set q \<Longrightarrow> ok x"
  by (auto simp: kept_best_def is_heap_def in_set_conv_nth)

lemma kept_best_subset: "kept_best k M q \<Longrightarrow> mset q \<subseteq># M"
  by (simp add: kept_best_def best_k_def)

lemma kept_best_top: "kept_best k M q \<Longrightarrow> x \<in> set q \<Longrightarrow> key x \<le> key (q ! 0)"
  using queue.top_max [of q x] by (simp add: kept_best_def)

lemma offer_kept_best:
  assumes "kept_best k M q" and "ok x" and "0 < k"
  shows "kept_best k (add_mset x M) (bounded_offer lt k q x)"
proof (cases "length q < k")
  case True
  then show ?thesis
    using queue.offer_push [of q k M x] assms by (simp add: kept_best_def bounded_offer_def)
next
  case False
  then have full: "size (mset q) = k" using kept_best_length [OF assms(1)] by simp
  then have ne: "q \<noteq> []" using assms(3) by auto
  then have "ok (q ! 0)" using kept_best_ok [OF assms(1)] by simp
  then have lt: "lt x (q ! 0) \<longleftrightarrow> key x < key (q ! 0)" using lt_key [OF assms(2)] by blast
  have q: "is_heap q" "best_k key k M (mset q)" using assms(1) by (simp_all add: kept_best_def)
  show ?thesis
  proof (cases "key x < key (q ! 0)")
    case True
    then show ?thesis
      using queue.offer_full_replace [OF q full assms(3,2)] ne lt False
      by (simp add: kept_best_def bounded_offer_def)
  next
    case keep: False
    then show ?thesis
      using queue.offer_full_reject [OF q full] q ne lt False by (simp add: kept_best_def bounded_offer_def)
  qed
qed

text \<open>The top of a full heap is the \<open>k\<close>-th smallest of what was offered.\<close>

lemma kth_smallest:
  assumes "kept_best k M q" and "0 < k" and "k \<le> size M"
  shows "key (q ! 0) = sorted_list_of_multiset (image_mset key M) ! (k - 1)"
proof -
  obtain R where M: "M = mset q + R" and R: "\<forall>x \<in># R. \<forall>y \<in># mset q. key y \<le> key x"
    using assms(1) unfolding kept_best_def best_k_iff by blast
  define a where "a = sort (map key q)"
  define b where "b = sorted_list_of_multiset (image_mset key R)"
  have len: "length q = k" using kept_best_length [OF assms(1)] assms(3) by simp
  then have ne: "q \<noteq> []" "length a = k" using assms(2) by (auto simp: a_def)
  then have "a \<noteq> []" using assms(2) by force
  note ne = ne(1) this ne(2)
  have "sorted (a @ b)" using R by (auto simp: sorted_append a_def b_def)
  moreover have "mset (a @ b) = image_mset key M" by (simp add: a_def b_def M)
  ultimately have "sorted_list_of_multiset (image_mset key M) = a @ b"
    using sorted_list_of_multiset_mset [of "a @ b"] by (simp add: sorted_sort_id)
  then have "sorted_list_of_multiset (image_mset key M) ! (k - 1) = last a"
    using ne assms(2) by (simp add: nth_append last_conv_nth)
  moreover have "key (q ! 0) = last a"
  proof (rule antisym)
    have "key (q ! 0) \<in> set a" using ne(1) by (simp add: a_def)
    then show "key (q ! 0) \<le> last a" by (rule sorted_le_last [rotated]) (simp add: a_def)
    have "last a \<in> set (map key q)" using ne(2) last_in_set [of a] by (simp add: a_def)
    then show "last a \<le> key (q ! 0)" using kept_best_top [OF assms(1)] by auto
  qed
  ultimately show ?thesis by simp
qed

text \<open>At least \<open>k\<close> of the offered elements are at or below the top of a full heap.\<close>

lemma top_covers:
  assumes "kept_best k M q" and "k \<le> size M"
  shows "k \<le> size (filter_mset (\<lambda>x. key x \<le> key (q ! 0)) M)"
proof -
  have "filter_mset (\<lambda>x. key x \<le> key (q ! 0)) (mset q) = mset q"
    using kept_best_top [OF assms(1)] by (intro filter_mset_eq_conv [THEN iffD2]) auto
  then have "mset q \<subseteq># filter_mset (\<lambda>x. key x \<le> key (q ! 0)) M"
    using multiset_filter_mono [OF kept_best_subset [OF assms(1)], of "\<lambda>x. key x \<le> key (q ! 0)"] by simp
  then have "length q \<le> size (filter_mset (\<lambda>x. key x \<le> key (q ! 0)) M)"
    using size_mset_mono by fastforce
  then show ?thesis using kept_best_length [OF assms(1)] assms(2) by simp
qed

end

section \<open>Sorting the heap\<close>

text \<open>\<open>std::sort_heap\<close>: pop the greatest to the end until the heap is empty.\<close>

function heap_drain :: "('a \<Rightarrow> 'a \<Rightarrow> bool) \<Rightarrow> 'a list \<Rightarrow> 'a list" where
  "heap_drain lt heap = (if heap = [] then [] else heap ! 0 # heap_drain lt (heap_pop lt heap))"
  by pat_completeness auto
termination
  by (relation "measure (\<lambda>(lt, heap). length heap)") (auto simp: length_greater_0_conv [symmetric] simp del: length_greater_0_conv)

declare heap_drain.simps [simp del]

definition sort_heap :: "('a \<Rightarrow> 'a \<Rightarrow> bool) \<Rightarrow> 'a list \<Rightarrow> 'a list" where
  "sort_heap lt heap = rev (heap_drain lt heap)"

context heap_order
begin

lemma drain_sorted:
  "is_heap q \<Longrightarrow> mset (heap_drain lt q) = mset q \<and> sorted_wrt (\<lambda>a b. key b \<le> key a) (heap_drain lt q)"
proof (induction "length q" arbitrary: q)
  case 0
  then have "heap_drain lt q = []" by (subst heap_drain.simps) simp
  then show ?case using 0 by simp
next
  case (Suc n)
  then have ne: "q \<noteq> []" by auto
  note p = heap_pop_heap [OF Suc.prems ne]
  have ih: "mset (heap_drain lt (heap_pop lt q)) = mset (heap_pop lt q)"
    "sorted_wrt (\<lambda>a b. key b \<le> key a) (heap_drain lt (heap_pop lt q))"
    using Suc.hyps(1) [OF _ p(1)] Suc.hyps(2) by simp_all
  have "key x \<le> key (q ! 0)" if "x \<in> set (heap_drain lt (heap_pop lt q))" for x
  proof -
    have "x \<in># mset (heap_pop lt q)" using that ih(1) by (metis set_mset_mset)
    then have "x \<in># mset q" unfolding p(2) by (rule in_diffD)
    then show ?thesis by (rule queue.top_max [OF Suc.prems])
  qed
  moreover have "q ! 0 \<in># mset q" using ne by simp
  ultimately show ?case using ih p(2) ne by (subst (1 2) heap_drain.simps) simp
qed

lemma sort_heap_sorted:
  assumes "is_heap q"
  shows "mset (sort_heap lt q) = mset q" and "sorted_wrt (\<lambda>a b. key a \<le> key b) (sort_heap lt q)"
  using drain_sorted [OF assms] by (simp_all add: sort_heap_def sorted_wrt_rev)

end

end
