(* ===== verification/Est_Frontier.thy ===== *)
theory Est_Frontier
  imports Search_Context Bounded_Heap
begin

text \<open>
  The estimate frontiers of the overlap scheduler (src/query/overlap_scheduler.cpp): two bounded
  max-heaps over the candidates' upper and lower distance bounds, whose tops are the thresholds of
  the dynamic SafeOut and SafeIn tests, and the state machine that decides when the SafeIn
  threshold may be used.
\<close>

section \<open>The two heaps\<close>

record estimate =
  ee_distance :: f32
  ee_error_bound :: f32
  ee_lower_bound :: f32

record safeout_entry =
  so_distance :: f32
  so_error_bound :: f32
  so_upper_bound :: f32

record safein_entry =
  si_lower_bound :: f32

definition safeout_less :: "safeout_entry \<Rightarrow> safeout_entry \<Rightarrow> bool" where
  "safeout_less a b = f32_lt (so_upper_bound a) (so_upper_bound b)"

definition safein_less :: "safein_entry \<Rightarrow> safein_entry \<Rightarrow> bool" where
  "safein_less a b = f32_lt (si_lower_bound a) (si_lower_bound b)"

text \<open>The frontier members of the scheduler, those of the SafeIn state machine included.\<close>

record frontier =
  ef_safeout :: "safeout_entry list"
  ef_safein :: "safein_entry list"
  ef_top_k :: u32
  ef_use_safeout :: bool
  ef_use_safein :: bool
  ef_use_frontier :: bool
  ef_probes_seen :: u32
  ef_stable_count :: u32
  ef_ready :: bool
  ef_extra_defer :: bool
  ef_last :: f32
  ef_current :: f32
  ef_threshold :: f32

text \<open>The constructor's initialisers.\<close>

definition frontier_new :: "search_config \<Rightarrow> frontier" where
  "frontier_new cfg = \<lparr>ef_safeout = [], ef_safein = [], ef_top_k = sc_top_k cfg,
     ef_use_safeout = sc_enable_dynamic_safeout cfg, ef_use_safein = (sc_safein_mode cfg \<noteq> Static),
     ef_use_frontier = (sc_enable_dynamic_safeout cfg \<or> sc_safein_mode cfg \<noteq> Static),
     ef_probes_seen = 0, ef_stable_count = 0, ef_ready = False, ef_extra_defer = False,
     ef_last = f32_inf, ef_current = f32_inf, ef_threshold = f32_inf\<rparr>"

text \<open>The frontier part of the reset at the start of \<open>Search\<close>.\<close>

definition frontier_reset :: "frontier \<Rightarrow> frontier" where
  "frontier_reset f = f\<lparr>ef_safeout := [], ef_safein := [], ef_probes_seen := 0, ef_stable_count := 0,
     ef_ready := False, ef_extra_defer := False, ef_last := f32_inf, ef_current := f32_inf,
     ef_threshold := f32_inf\<rparr>"

definition AddSafeOutFrontierEstimate :: "frontier \<Rightarrow> estimate \<Rightarrow> frontier \<times> bool" where
  "AddSafeOutFrontierEstimate f e =
     (if \<not> ef_use_frontier f \<or> ef_top_k f = 0 then (f, False)
      else
        let entry = \<lparr>so_distance = ee_distance e, so_error_bound = ee_error_bound e,
                     so_upper_bound = f32_add (ee_distance e) (ee_error_bound e)\<rparr>
        in if length (ef_safeout f) < unat (ef_top_k f) then
             (f\<lparr>ef_safeout := heap_push safeout_less (ef_safeout f) entry\<rparr>, True)
           else if f32_lt (so_upper_bound entry) (so_upper_bound (ef_safeout f ! 0)) then
             (f\<lparr>ef_safeout := heap_push safeout_less (heap_pop safeout_less (ef_safeout f)) entry\<rparr>, True)
           else (f, False))"

definition AddSafeInFrontierEstimate :: "frontier \<Rightarrow> f32 \<Rightarrow> frontier \<times> bool" where
  "AddSafeInFrontierEstimate f lower =
     (if \<not> ef_use_frontier f \<or> ef_top_k f = 0 \<or> \<not> f32_is_finite lower then (f, False)
      else
        let entry = \<lparr>si_lower_bound = lower\<rparr>
        in if length (ef_safein f) < unat (ef_top_k f) then
             (f\<lparr>ef_safein := heap_push safein_less (ef_safein f) entry\<rparr>, True)
           else if f32_lt lower (si_lower_bound (ef_safein f ! 0)) then
             (f\<lparr>ef_safein := heap_push safein_less (heap_pop safein_less (ef_safein f)) entry\<rparr>, True)
           else (f, False))"

definition SafeOutFrontierUpper :: "frontier \<Rightarrow> f32" where
  "SafeOutFrontierUpper f =
     (if \<not> ef_use_frontier f \<or> ef_top_k f = 0 \<or> length (ef_safeout f) < unat (ef_top_k f)
      then f32_inf else so_upper_bound (ef_safeout f ! 0))"

definition SafeInFrontierLower :: "frontier \<Rightarrow> f32" where
  "SafeInFrontierLower f =
     (if \<not> ef_use_frontier f \<or> ef_top_k f = 0 \<or> length (ef_safein f) < unat (ef_top_k f)
      then f32_inf else si_lower_bound (ef_safein f ! 0))"

text \<open>Both modes of \<open>DynamicSafeInReferenceFrontier\<close> answer the same.\<close>

definition DynamicSafeInReferenceFrontier :: "search_config \<Rightarrow> frontier \<Rightarrow> f32" where
  "DynamicSafeInReferenceFrontier cfg f =
     (case sc_safein_mode cfg of Static \<Rightarrow> SafeInFrontierLower f | Frontier \<Rightarrow> SafeInFrontierLower f)"

section \<open>The SafeIn state machine\<close>

definition f32_abs :: "f32 \<Rightarrow> f32" where
  "f32_abs x = x AND 0x7FFFFFFF"

text \<open>\<open>std::max(a, b)\<close>.\<close>

definition f32_std_max :: "f32 \<Rightarrow> f32 \<Rightarrow> f32" where
  "f32_std_max a b = (if f32_lt a b then b else a)"

text \<open>The literal \<open>1e-12f\<close> is the pattern 0x2B8CBCCC, \<open>1e-6f\<close> is 0x358637BD.\<close>

definition frontier_stable :: "search_config \<Rightarrow> f32 \<Rightarrow> f32 \<Rightarrow> bool" where
  "frontier_stable cfg last_frontier now =
     (let diff = f32_abs (f32_sub now last_frontier);
          denom = f32_std_max (f32_abs last_frontier) 0x2B8CBCCC;
          rel = f32_div diff denom
      in f32_le diff (sc_abs_tol cfg) \<or> f32_le rel (sc_rel_tol cfg))"

definition UpdateDynamicSafeInState ::
    "search_config \<Rightarrow> bool \<Rightarrow> frontier \<Rightarrow> search_stats \<Rightarrow> frontier \<times> search_stats" where
  "UpdateDynamicSafeInState cfg advance_probe f st =
     (if \<not> ef_use_safein f then (f, st)
      else
        let was_ready = ef_ready f;
            seen = (if advance_probe then ef_probes_seen f + 1 else ef_probes_seen f);
            now = DynamicSafeInReferenceFrontier cfg f;
            stable = (if f32_is_finite now then
                        (if f32_is_finite (ef_last f) then
                           (if frontier_stable cfg (ef_last f) now then ef_stable_count f + 1 else 1)
                         else 1)
                      else 0);
            last_frontier = (if f32_is_finite now then now else ef_last f);
            ready = (case sc_safein_mode cfg of
                       Static \<Rightarrow> True
                     | Frontier \<Rightarrow> f32_is_finite now \<and> sc_min_probes cfg \<le> seen
                         \<and> max 1 (sc_stable_probes cfg) \<le> stable)
        in (f\<lparr>ef_probes_seen := seen, ef_current := now, ef_stable_count := stable,
              ef_last := last_frontier, ef_ready := ready\<rparr>,
            if \<not> was_ready \<and> ready then bump dynamic_safein_ready_transitions st else st))"

text \<open>\<open>safein_d_k\<close>: what the ConANN answers for the static threshold.\<close>

definition SafeInThresholdForProbe :: "search_config \<Rightarrow> f32 \<Rightarrow> frontier \<Rightarrow> f32" where
  "SafeInThresholdForProbe cfg safein_d_k f =
     (if \<not> ef_use_safein f \<or> sc_safein_mode cfg = Static then safein_d_k
      else if ef_ready f \<and> f32_is_finite (ef_current f) then ef_current f
      else f32_neg_of f32_inf)"

definition RecordDynamicSafeInStats ::
    "f32 \<Rightarrow> f32 \<Rightarrow> frontier \<Rightarrow> search_stats \<Rightarrow> frontier \<times> search_stats" where
  "RecordDynamicSafeInStats threshold now f st =
     (if \<not> ef_use_safein f then (f, st)
      else
        let st1 = bump dynamic_safein_clusters st;
            st2 = (if f32_is_finite now
                   then (bump dynamic_safein_frontier_samples st1)\<lparr>ss_final_frontier := now\<rparr> else st1);
            st3 = (if f32_is_finite threshold then
                     let st4 = (bump dynamic_safein_threshold_samples
                           (bump dynamic_safein_active_clusters st2))\<lparr>ss_final_threshold := threshold\<rparr>
                     in if \<not> f32_is_finite (ef_threshold f)
                           \<or> f32_gt (f32_abs (f32_sub threshold (ef_threshold f))) 0x358637BD
                        then bump dynamic_safein_threshold_changed_clusters st4 else st4
                   else bump dynamic_safein_disabled_clusters st2)
        in (f\<lparr>ef_threshold := threshold\<rparr>, st3))"

text \<open>\<open>deferred\<close>: how many plans wait.\<close>

definition ShouldDeferSafeInPlans :: "search_config \<Rightarrow> frontier \<Rightarrow> nat \<Rightarrow> bool" where
  "ShouldDeferSafeInPlans cfg f deferred =
     (if \<not> ef_use_safein f then False
      else if sc_defer_initial_clusters cfg = 0 \<and> \<not> sc_defer_until_ready cfg then False
      else if 0 < sc_defer_max_candidates cfg \<and> unat (sc_defer_max_candidates cfg) \<le> deferred then False
      else if 0 < sc_defer_initial_clusters cfg \<and> ef_probes_seen f \<le> sc_defer_initial_clusters cfg then True
      else if ef_extra_defer f \<and> 0 < sc_defer_initial_clusters cfg
              \<and> ef_probes_seen f \<le> sc_defer_initial_clusters cfg + 1 then True
      else if sc_defer_until_ready cfg \<and> \<not> ef_ready f then True
      else False)"

definition ShouldHoldDeferredSafeInPlans :: "search_config \<Rightarrow> nat \<Rightarrow> frontier \<Rightarrow> frontier \<times> bool" where
  "ShouldHoldDeferredSafeInPlans cfg deferred f =
     (if \<not> ef_use_safein f then (f, False)
      else if deferred = 0 then (f, False)
      else if 0 < sc_defer_initial_clusters cfg \<and> ef_probes_seen f < sc_defer_initial_clusters cfg
      then (f, True)
      else
        let submit_batch = (if sc_submit_batch_size cfg = 0 then 32 else sc_submit_batch_size cfg);
            small_pool_limit = max 128 (submit_batch * 4)
        in if 0 < sc_defer_initial_clusters cfg \<and> ef_probes_seen f = sc_defer_initial_clusters cfg
              \<and> deferred < unat small_pool_limit
           then (f\<lparr>ef_extra_defer := True\<rparr>, True)
           else if sc_defer_until_ready cfg \<and> \<not> ef_ready f then (f, True)
           else (f\<lparr>ef_extra_defer := False\<rparr>, False))"

text \<open>\<open>AsyncIOSink::FinalizeCluster\<close>: the estimates buffered for a cluster enter the frontiers.\<close>

fun merge_estimates :: "estimate list \<Rightarrow> frontier \<Rightarrow> search_stats \<Rightarrow> frontier \<times> search_stats" where
  "merge_estimates [] f st = (f, st)"
| "merge_estimates (e # es) f st =
     (let (f1, updated) = AddSafeOutFrontierEstimate f e;
          st1 = (if updated then bump safeout_frontier_updates st else st);
          (f2, entered) = AddSafeInFrontierEstimate f1 (ee_lower_bound e)
      in merge_estimates es f2 st1)"


section \<open>The heaps hold the best bounds\<close>

definition upper_of :: "estimate \<Rightarrow> f32" where
  "upper_of e = f32_add (ee_distance e) (ee_error_bound e)"

definition safeout_entry_of :: "estimate \<Rightarrow> safeout_entry" where
  "safeout_entry_of e = \<lparr>so_distance = ee_distance e, so_error_bound = ee_error_bound e,
     so_upper_bound = upper_of e\<rparr>"

definition finite_lowers :: "estimate list \<Rightarrow> f32 list" where
  "finite_lowers es = filter f32_is_finite (map ee_lower_bound es)"

interpretation uppers: heap_order safeout_less "\<lambda>e. f32_key (so_upper_bound e)"
    "\<lambda>e. \<not> f32_is_nan (so_upper_bound e)"
  by unfold_locales (simp add: safeout_less_def f32_key_compare)

interpretation lowers: heap_order safein_less "\<lambda>e. f32_key (si_lower_bound e)"
    "\<lambda>e. \<not> f32_is_nan (si_lower_bound e)"
  by unfold_locales (simp add: safein_less_def f32_key_compare)

lemma AddSafeOut_offer:
  "ef_use_frontier f \<Longrightarrow> 0 < ef_top_k f \<Longrightarrow> fst (AddSafeOutFrontierEstimate f e) =
     f\<lparr>ef_safeout := bounded_offer safeout_less (unat (ef_top_k f)) (ef_safeout f) (safeout_entry_of e)\<rparr>"
  by (auto simp: AddSafeOutFrontierEstimate_def bounded_offer_def safeout_entry_of_def upper_of_def
      Let_def safeout_less_def unat_gt_0)

lemma AddSafeIn_offer:
  "ef_use_frontier f \<Longrightarrow> 0 < ef_top_k f \<Longrightarrow> fst (AddSafeInFrontierEstimate f x) =
     (if f32_is_finite x
      then f\<lparr>ef_safein := bounded_offer safein_less (unat (ef_top_k f)) (ef_safein f) \<lparr>si_lower_bound = x\<rparr>\<rparr>
      else f)"
  by (auto simp: AddSafeInFrontierEstimate_def bounded_offer_def Let_def safein_less_def unat_gt_0)

text \<open>\<open>es\<close>: the estimates merged since the reset.\<close>

definition frontier_inv :: "frontier \<Rightarrow> estimate list \<Rightarrow> bool" where
  "frontier_inv f es \<longleftrightarrow> ef_use_frontier f \<and> 0 < ef_top_k f
     \<and> uppers.kept_best (unat (ef_top_k f)) (mset (map safeout_entry_of es)) (ef_safeout f)
     \<and> lowers.kept_best (unat (ef_top_k f)) (mset (map safein_entry.make (finite_lowers es))) (ef_safein f)"

lemma finite_not_nan: "f32_is_finite x \<Longrightarrow> \<not> f32_is_nan x"
  by (simp add: f32_is_finite_def f32_is_nan_def)

lemma merge_estimates_inv:
  assumes "frontier_inv f es" and "\<forall>e \<in> set new. \<not> f32_is_nan (upper_of e)"
  shows "frontier_inv (fst (merge_estimates new f st)) (es @ new)
    \<and> ef_top_k (fst (merge_estimates new f st)) = ef_top_k f"
  using assms
proof (induction new arbitrary: f es st)
  case (Cons e new)
  define f1 where "f1 = fst (AddSafeOutFrontierEstimate f e)"
  define f2 where "f2 = fst (AddSafeInFrontierEstimate f1 (ee_lower_bound e))"
  define st1 where "st1 = (if snd (AddSafeOutFrontierEstimate f e) then bump safeout_frontier_updates st else st)"
  have step: "merge_estimates (e # new) f st = merge_estimates new f2 st1"
    by (simp add: f1_def f2_def st1_def case_prod_beta)
  have inv: "ef_use_frontier f" "0 < ef_top_k f" "0 < unat (ef_top_k f)"
    using Cons.prems(1) by (auto simp: frontier_inv_def unat_gt_0)
  note o1 = AddSafeOut_offer [OF inv(1,2), of e, folded f1_def]
  then have f1: "ef_use_frontier f1" "0 < ef_top_k f1" "ef_top_k f1 = ef_top_k f" using inv by simp_all
  note o2 = AddSafeIn_offer [OF f1(1,2), of "ee_lower_bound e", folded f2_def]
  have "\<not> f32_is_nan (so_upper_bound (safeout_entry_of e))"
    using Cons.prems(2) by (simp add: safeout_entry_of_def)
  from uppers.offer_kept_best [OF _ this inv(3)]
  have up: "uppers.kept_best (unat (ef_top_k f)) (mset (map safeout_entry_of (es @ [e])))
      (bounded_offer safeout_less (unat (ef_top_k f)) (ef_safeout f) (safeout_entry_of e))"
    using Cons.prems(1) by (simp add: frontier_inv_def)
  have "frontier_inv f2 (es @ [e]) \<and> ef_top_k f2 = ef_top_k f"
  proof (cases "f32_is_finite (ee_lower_bound e)")
    case True
    have "\<not> f32_is_nan (si_lower_bound \<lparr>si_lower_bound = ee_lower_bound e\<rparr>)"
      using finite_not_nan [OF True] by simp
    from lowers.offer_kept_best [OF _ this inv(3)]
    show ?thesis using up o1 o2 f1 Cons.prems(1) True
      by (simp add: frontier_inv_def finite_lowers_def safein_entry.make_def)
  next
    case False
    then show ?thesis using up o1 o2 f1 Cons.prems(1) by (simp add: frontier_inv_def finite_lowers_def)
  qed
  then show ?case using Cons.IH [of f2 "es @ [e]" st1] Cons.prems(2) unfolding step by simp
qed simp

lemma frontier_reset_inv:
  assumes "ef_use_frontier f" and "0 < ef_top_k f"
  shows "frontier_inv (frontier_reset f) []"
  using assms
  by (simp add: frontier_inv_def frontier_reset_def uppers.kept_best_Nil lowers.kept_best_Nil finite_lowers_def)

definition kth_key :: "nat \<Rightarrow> f32 list \<Rightarrow> int" where
  "kth_key k xs = (if length xs < k then f32_key f32_inf else sort (map f32_key xs) ! (k - 1))"

lemma frontier_values:
  assumes "frontier_inv f es"
  shows "f32_key (SafeOutFrontierUpper f) = kth_key (unat (ef_top_k f)) (map upper_of es)"
    and "f32_key (SafeInFrontierLower f) = kth_key (unat (ef_top_k f)) (finite_lowers es)"
proof -
  let ?k = "unat (ef_top_k f)"
  have k: "0 < ?k" "ef_top_k f \<noteq> 0" and use: "ef_use_frontier f"
    using assms by (auto simp: frontier_inv_def unat_gt_0)
  have u: "uppers.kept_best ?k (mset (map safeout_entry_of es)) (ef_safeout f)"
    and l: "lowers.kept_best ?k (mset (map safein_entry.make (finite_lowers es))) (ef_safein f)"
    using assms by (simp_all add: frontier_inv_def)
  have keys: "(\<lambda>e. f32_key (so_upper_bound e)) \<circ> safeout_entry_of = f32_key \<circ> upper_of"
    "(\<lambda>e. f32_key (si_lower_bound e)) \<circ> safein_entry.make = f32_key"
    by (simp_all add: fun_eq_iff safeout_entry_of_def safein_entry.make_def)
  have sl: "sorted_list_of_multiset (image_mset g (mset (map h xs))) = sort (map (g \<circ> h) xs)" for g :: "'x \<Rightarrow> int" and h :: "'y \<Rightarrow> 'x" and xs
    by (metis mset_map map_map sorted_list_of_multiset_mset)
  show "f32_key (SafeOutFrontierUpper f) = kth_key ?k (map upper_of es)"
    using uppers.kth_smallest [OF u k(1)] uppers.kept_best_length [OF u] k use
    unfolding sl keys by (auto simp: SafeOutFrontierUpper_def kth_key_def)
  show "f32_key (SafeInFrontierLower f) = kth_key ?k (finite_lowers es)"
    using lowers.kth_smallest [OF l k(1)] lowers.kept_best_length [OF l] k use
    unfolding sl keys by (auto simp: SafeInFrontierLower_def kth_key_def)
qed

section \<open>Properties\<close>

text \<open>C22: the frontiers are order statistics.  After the reset at the start of a query and any
  estimates whose upper bounds are numbers, the SafeOut frontier is the \<open>k\<close>-th smallest upper bound and
  the SafeIn frontier the \<open>k\<close>-th smallest finite lower bound of everything merged so far, and
  infinity while there are fewer.\<close>

theorem frontiers_are_kth_smallest:
  assumes "0 < sc_top_k cfg" and "sc_enable_dynamic_safeout cfg \<or> sc_safein_mode cfg \<noteq> Static"
    and "\<forall>e \<in> set es. \<not> f32_is_nan (upper_of e)"
    and "merge_estimates es (frontier_reset (frontier_new cfg)) st = (f, st')"
  shows "f32_key (SafeOutFrontierUpper f) = kth_key (unat (sc_top_k cfg)) (map upper_of es)
    \<and> f32_key (SafeInFrontierLower f) = kth_key (unat (sc_top_k cfg)) (finite_lowers es)"
proof -
  have "frontier_inv (frontier_reset (frontier_new cfg)) []"
    by (rule frontier_reset_inv) (use assms(1,2) in \<open>simp_all add: frontier_new_def\<close>)
  note inv = merge_estimates_inv [OF this assms(3), of st]
  have "ef_top_k (frontier_reset (frontier_new cfg)) = sc_top_k cfg"
    by (simp add: frontier_reset_def frontier_new_def)
  then show ?thesis using inv frontier_values [of f es] assms(4) by simp
qed


text \<open>Subnormal values add like their patterns; the witnesses use them.\<close>

lemma bit_len_le: "n < 2 ^ k \<Longrightarrow> bit_len n \<le> k"
proof (induction k arbitrary: n)
  case (Suc k)
  have "bit_len (n div 2) \<le> k" by (rule Suc.IH) (use Suc.prems in simp)
  then show ?case by (subst bit_len.simps) simp
qed (simp add: bit_len.simps)

lemma f32_add_small:
  assumes "m + n < 8388608"
  shows "f32_add (of_nat m) (of_nat n) = of_nat (m + n)"
proof -
  have mag: "f32_mag (of_nat k :: f32) = k" "\<not> f32_neg (of_nat k)" if "k < 8388608" for k
    using that by (simp_all add: f32_mag_def f32_neg_def unsigned_of_nat take_bit_eq_mod)
  have "bit_len (m + n) - 24 = 0" using bit_len_le [of "m + n" 24] assms by simp
  then have "round_mag (m + n) 1 = m + n" using assms by (simp add: round_mag_def div_round_def)
  moreover have "nat \<bar>int m + int n\<bar> = m + n" "int m + int n = 0 \<longleftrightarrow> m = 0 \<and> n = 0" by auto
  ultimately show ?thesis
    using mag [of m] mag [of n] assms
    by (auto simp: f32_add_def f32_is_nan_def f32_is_inf_def f32_units_def mag_units_def f32_of_mag_def Let_def)
qed

lemma upper_witness:
  "f32_add 4 1 = 5" "f32_add 8 1 = 9"
  using f32_add_small [of 4 1] f32_add_small [of 8 1] by simp_all

theorem frontiers_are_kth_smallest_witness:
  "\<exists>f st'. merge_estimates [\<lparr>ee_distance = 4, ee_error_bound = 1, ee_lower_bound = 0\<rparr>,
      \<lparr>ee_distance = 8, ee_error_bound = 1, ee_lower_bound = 4\<rparr>]
      (frontier_reset (frontier_new (default_config\<lparr>sc_top_k := 2\<rparr>))) stats_new = (f, st')
    \<and> f32_key (SafeOutFrontierUpper f) = f32_key 9"
proof -
  let ?es = "[\<lparr>ee_distance = 4, ee_error_bound = 1, ee_lower_bound = 0\<rparr>,
      \<lparr>ee_distance = 8, ee_error_bound = 1, ee_lower_bound = 4\<rparr>]"
  let ?cfg = "default_config\<lparr>sc_top_k := 2\<rparr>"
  have nan: "\<forall>e \<in> set ?es. \<not> f32_is_nan (upper_of e)"
    by (simp add: upper_of_def upper_witness f32_is_nan_def f32_mag_def)
  have cfg: "0 < sc_top_k ?cfg" "sc_enable_dynamic_safeout ?cfg \<or> sc_safein_mode ?cfg \<noteq> Static" "unat (sc_top_k ?cfg) = 2"
    by (simp_all add: default_config_def)
  obtain f st' where m: "merge_estimates ?es (frontier_reset (frontier_new ?cfg)) stats_new = (f, st')"
    by (cases "merge_estimates ?es (frontier_reset (frontier_new ?cfg)) stats_new") auto
  have "f32_key (SafeOutFrontierUpper f) = f32_key 9"
    using frontiers_are_kth_smallest [OF cfg(1,2) nan m]
    by (simp add: cfg(3) kth_key_def upper_of_def upper_witness f32_key_def f32_neg_def f32_mag_def)
  with m show ?thesis by blast
qed

lemma frontier_covers:
  assumes "frontier_inv f es" and "unat (ef_top_k f) \<le> length es"
  shows "unat (ef_top_k f) \<le>
    length (filter (\<lambda>e. f32_key (upper_of e) \<le> f32_key (SafeOutFrontierUpper f)) es)"
proof -
  let ?k = "unat (ef_top_k f)"
  have u: "uppers.kept_best ?k (mset (map safeout_entry_of es)) (ef_safeout f)"
    and k: "ef_use_frontier f" "ef_top_k f \<noteq> 0"
    using assms(1) by (auto simp: frontier_inv_def)
  have full: "length (ef_safeout f) = ?k" using uppers.kept_best_length [OF u] assms(2) by simp
  have "?k \<le> size (filter_mset (\<lambda>e. f32_key (so_upper_bound e) \<le> f32_key (so_upper_bound (ef_safeout f ! 0)))
      (mset (map safeout_entry_of es)))"
    by (rule uppers.top_covers [OF u]) (use assms(2) in simp)
  then have "?k \<le> length (filter ((\<lambda>e. f32_key (so_upper_bound e) \<le> f32_key (so_upper_bound (ef_safeout f ! 0)))
      \<circ> safeout_entry_of) es)"
    unfolding mset_filter [symmetric] size_mset filter_map length_map .
  then show ?thesis using k full by (simp add: SafeOutFrontierUpper_def comp_def safeout_entry_of_def)
qed

text \<open>C23: pruning by the SafeOut frontier is sound.  When every merged estimate's upper bound really
  bounds its candidate's distance, a candidate whose distance exceeds the frontier has at least \<open>k\<close>
  merged candidates strictly nearer, so it is not among the \<open>k\<close> nearest.\<close>

theorem safeout_pruning_sound:
  assumes "0 < sc_top_k cfg" and "sc_enable_dynamic_safeout cfg \<or> sc_safein_mode cfg \<noteq> Static"
    and "length ds = length es" and "\<forall>i < length es. f32_le (ds ! i) (upper_of (es ! i))"
    and "merge_estimates es (frontier_reset (frontier_new cfg)) st = (f, st')"
    and "f32_gt x (SafeOutFrontierUpper f)"
  shows "unat (sc_top_k cfg) \<le> length (filter (\<lambda>d. f32_lt d x) ds)"
proof -
  let ?k = "unat (sc_top_k cfg)"
  have nan: "\<forall>e \<in> set es. \<not> f32_is_nan (upper_of e)"
    using assms(4) by (auto simp: f32_le_def in_set_conv_nth)
  have "frontier_inv (frontier_reset (frontier_new cfg)) []"
    by (rule frontier_reset_inv) (use assms(1,2) in \<open>simp_all add: frontier_new_def\<close>)
  from merge_estimates_inv [OF this nan, of st]
  have inv: "frontier_inv f es" and k: "ef_top_k f = sc_top_k cfg"
    using assms(5) by (simp_all add: frontier_reset_def frontier_new_def)
  have less: "\<not> f32_is_nan x" "f32_key (SafeOutFrontierUpper f) < f32_key x"
    using assms(6) by (simp_all add: f32_gt_def f32_lt_def)
  have "?k \<le> length es"
  proof (rule ccontr)
    assume "\<not> ?k \<le> length es"
    then have "f32_key (SafeOutFrontierUpper f) = f32_key f32_inf"
      using frontier_values(1) [OF inv] k by (simp add: kth_key_def)
    then show False using less f32_key_le_inf by fastforce
  qed
  then have "?k \<le> length (filter (\<lambda>e. f32_key (upper_of e) \<le> f32_key (SafeOutFrontierUpper f)) es)"
    using frontier_covers [OF inv] k by simp
  also have "\<dots> = card {i. i < length es \<and> f32_key (upper_of (es ! i)) \<le> f32_key (SafeOutFrontierUpper f)}"
    by (rule length_filter_conv_card)
  also have "\<dots> \<le> card {i. i < length ds \<and> f32_lt (ds ! i) x}"
  proof (rule card_mono)
    show "{i. i < length es \<and> f32_key (upper_of (es ! i)) \<le> f32_key (SafeOutFrontierUpper f)}
        \<subseteq> {i. i < length ds \<and> f32_lt (ds ! i) x}"
      using assms(3,4) less by (fastforce simp: f32_le_def f32_lt_def)
  qed simp
  also have "\<dots> = length (filter (\<lambda>d. f32_lt d x) ds)" by (rule length_filter_conv_card [symmetric])
  finally show ?thesis .
qed

theorem safeout_pruning_sound_witness:
  "\<exists>f st'. merge_estimates [\<lparr>ee_distance = 4, ee_error_bound = 1, ee_lower_bound = 0\<rparr>]
      (frontier_reset (frontier_new (default_config\<lparr>sc_top_k := 1\<rparr>))) stats_new = (f, st')
    \<and> 1 \<le> length (filter (\<lambda>d. f32_lt d 6) [4])"
proof -
  let ?es = "[\<lparr>ee_distance = 4, ee_error_bound = 1, ee_lower_bound = 0 :: f32\<rparr>]"
  let ?cfg = "default_config\<lparr>sc_top_k := 1\<rparr>"
  obtain f st' where m: "merge_estimates ?es (frontier_reset (frontier_new ?cfg)) stats_new = (f, st')"
    by (cases "merge_estimates ?es (frontier_reset (frontier_new ?cfg)) stats_new") auto
  have cfg: "0 < sc_top_k ?cfg" "sc_enable_dynamic_safeout ?cfg \<or> sc_safein_mode ?cfg \<noteq> Static"
    "unat (sc_top_k ?cfg) = 1"
    by (simp_all add: default_config_def)
  have e: "\<forall>i < length ?es. f32_le ([4] ! i) (upper_of (?es ! i))"
    by (simp add: upper_of_def upper_witness f32_le_def f32_is_nan_def f32_key_def f32_neg_def f32_mag_def)
  have "SafeOutFrontierUpper f = 5"
    using m by (auto simp: AddSafeOutFrontierEstimate_def AddSafeInFrontierEstimate_def frontier_reset_def frontier_new_def
        default_config_def SafeOutFrontierUpper_def heap_push_def sift_up.simps Let_def
        upper_witness f32_is_finite_def f32_mag_def)
  then have gt: "f32_gt 6 (SafeOutFrontierUpper f)"
    by (simp add: f32_gt_def f32_lt_def f32_is_nan_def f32_key_def f32_neg_def f32_mag_def)
  show ?thesis using safeout_pruning_sound [OF cfg(1,2) _ e m gt] m by (simp add: cfg(3))
qed

end
