(* ===== verification/Pending_Slots.thy ===== *)
theory Pending_Slots
  imports Search_Context Buffer_Pool
begin

text \<open>
  The pending-read slots of the overlap scheduler (src/query/overlap_scheduler.cpp) and the three
  kinds of buffers they hold: pooled ones, vector-only ones the scheduler owns, and buffers
  registered with io_uring, known by their index.  A buffer is its address; what
  \<open>aligned_alloc\<close> answers is an argument, and an operation that aborts returns \<open>None\<close>.
\<close>

section \<open>State\<close>

datatype pending_cleanup = NoCleanup | Free | Pool | VecPool | FixedVec

datatype pending_type = VEC_ONLY | VEC_ALL | PAYLOAD

record pending_io =
  io_type :: pending_type
  io_addr :: address_entry
  io_read_offset :: u64
  io_read_length :: u32

record pending_slot =
  ps_in_use :: bool
  ps_buffer :: "nat option"
  ps_fixed_index :: nat
  ps_cleanup :: pending_cleanup
  ps_io :: pending_io

text \<open>\<open>PendingIO{}\<close> and \<open>PendingSlot{}\<close>.\<close>

definition pending_io_new :: pending_io where
  "pending_io_new = \<lparr>io_type = VEC_ONLY, io_addr = \<lparr>ae_offset = 0, ae_size = 0\<rparr>,
     io_read_offset = 0, io_read_length = 0\<rparr>"

definition pending_slot_new :: pending_slot where
  "pending_slot_new = \<lparr>ps_in_use = False, ps_buffer = None, ps_fixed_index = 0,
     ps_cleanup = NoCleanup, ps_io = pending_io_new\<rparr>"

text \<open>\<open>st_freed\<close>: what \<open>std::free\<close> was called on.\<close>

record slot_table =
  st_pool :: buffer_pool
  st_slots :: "pending_slot list"
  st_free :: "nat list"
  st_fixed :: "nat list"
  st_fixed_free :: "nat list"
  st_fixed_enabled :: bool
  st_owned :: "nat list"
  st_vec_free :: "nat list"
  st_freed :: "nat list"
  st_vec_bytes :: u32
  st_aligned_vec_bytes :: u32

definition slot_table_new :: "u32 \<Rightarrow> slot_table" where
  "slot_table_new vec_bytes = \<lparr>st_pool = buffer_pool_new, st_slots = [], st_free = [], st_fixed = [],
     st_fixed_free = [], st_fixed_enabled = False, st_owned = [], st_vec_free = [], st_freed = [],
     st_vec_bytes = vec_bytes, st_aligned_vec_bytes = align_4k vec_bytes\<rparr>"

section \<open>Slots\<close>

text \<open>A free slot, or a new one at the end.\<close>

definition take_slot :: "slot_table \<Rightarrow> slot_table \<times> nat" where
  "take_slot t =
     (if st_free t \<noteq> [] then (t\<lparr>st_free := butlast (st_free t)\<rparr>, last (st_free t))
      else (t\<lparr>st_slots := st_slots t @ [pending_slot_new]\<rparr>, wrap32 (length (st_slots t))))"

definition AllocatePendingSlot ::
    "slot_table \<Rightarrow> pending_io \<Rightarrow> nat \<Rightarrow> pending_cleanup \<Rightarrow> nat \<Rightarrow> slot_table \<times> nat" where
  "AllocatePendingSlot t0 io buf cleanup fixed_index =
     (let (t, slot_id) = take_slot t0
      in (t\<lparr>st_slots := (st_slots t)[slot_id := \<lparr>ps_in_use = True, ps_buffer = Some buf,
             ps_fixed_index = fixed_index, ps_cleanup = cleanup, ps_io = io\<rparr>]\<rparr>, slot_id))"

definition AllocateVectorOnlyPendingSlot ::
    "slot_table \<Rightarrow> address_entry \<Rightarrow> nat \<Rightarrow> pending_cleanup \<Rightarrow> nat \<Rightarrow> slot_table \<times> nat" where
  "AllocateVectorOnlyPendingSlot t0 addr buf cleanup fixed_index =
     (let (t, slot_id) = take_slot t0
      in (t\<lparr>st_slots := (st_slots t)[slot_id := \<lparr>ps_in_use = True, ps_buffer = Some buf,
             ps_fixed_index = fixed_index, ps_cleanup = cleanup,
             ps_io = \<lparr>io_type = VEC_ONLY, io_addr = addr, io_read_offset = ae_offset addr,
                      io_read_length = st_vec_bytes t\<rparr>\<rparr>]\<rparr>, slot_id))"

definition GetPendingSlot :: "slot_table \<Rightarrow> nat \<Rightarrow> pending_slot option" where
  "GetPendingSlot t token =
     (if 4294967295 < token \<or> length (st_slots t) \<le> wrap32 token then None
      else if ps_in_use (st_slots t ! wrap32 token) then Some (st_slots t ! wrap32 token) else None)"

definition ReleasePendingSlot :: "slot_table \<Rightarrow> nat \<Rightarrow> slot_table" where
  "ReleasePendingSlot t slot_id =
     (if length (st_slots t) \<le> slot_id then t
      else t\<lparr>st_slots := (st_slots t)[slot_id := pending_slot_new], st_free := st_free t @ [slot_id]\<rparr>)"

section \<open>Buffers\<close>

definition ReleaseFixedVecBuffer :: "slot_table \<Rightarrow> nat \<Rightarrow> slot_table" where
  "ReleaseFixedVecBuffer t idx = t\<lparr>st_fixed_free := st_fixed_free t @ [idx]\<rparr>"

definition AcquireVecOnlyBuffer :: "slot_table \<Rightarrow> nat option \<Rightarrow> (slot_table \<times> nat) option" where
  "AcquireVecOnlyBuffer t answer =
     (if st_vec_free t \<noteq> [] then Some (t\<lparr>st_vec_free := butlast (st_vec_free t)\<rparr>, last (st_vec_free t))
      else case answer of
        None \<Rightarrow> None
      | Some raw \<Rightarrow> Some (t\<lparr>st_owned := st_owned t @ [raw]\<rparr>, raw))"

definition ReleaseVecOnlyBuffer :: "slot_table \<Rightarrow> nat option \<Rightarrow> slot_table" where
  "ReleaseVecOnlyBuffer t buf =
     (case buf of None \<Rightarrow> t | Some b \<Rightarrow> t\<lparr>st_vec_free := st_vec_free t @ [b]\<rparr>)"

text \<open>The switch over the clean-up kinds both release paths have.\<close>

definition release_buffer :: "slot_table \<Rightarrow> pending_cleanup \<Rightarrow> nat \<Rightarrow> nat \<Rightarrow> slot_table" where
  "release_buffer t cleanup buf fixed_index =
     (case cleanup of
        FixedVec \<Rightarrow> ReleaseFixedVecBuffer t fixed_index
      | VecPool \<Rightarrow> ReleaseVecOnlyBuffer t (Some buf)
      | Pool \<Rightarrow> t\<lparr>st_pool := bp_Release (st_pool t) buf\<rparr>
      | Free \<Rightarrow> t\<lparr>st_freed := st_freed t @ [buf]\<rparr>
      | NoCleanup \<Rightarrow> t)"

definition ReleaseVectorOnlyPendingSlot :: "slot_table \<Rightarrow> nat \<Rightarrow> slot_table" where
  "ReleaseVectorOnlyPendingSlot t slot_id =
     (if length (st_slots t) \<le> slot_id then t
      else
        let slot = st_slots t ! slot_id
        in if \<not> ps_in_use slot then t
           else
             let t1 = (case ps_buffer slot of
                         None \<Rightarrow> t
                       | Some buf \<Rightarrow> release_buffer t (ps_cleanup slot) buf (ps_fixed_index slot))
             in t1\<lparr>st_slots := (st_slots t1)[slot_id := pending_slot_new], st_free := st_free t1 @ [slot_id]\<rparr>)"

text \<open>\<open>slot_id\<close> stands for the reference to the slot.\<close>

definition CleanupPendingSlot :: "slot_table \<Rightarrow> nat \<Rightarrow> slot_table" where
  "CleanupPendingSlot t slot_id =
     (let slot = st_slots t ! slot_id
      in if \<not> ps_in_use slot then t
         else case ps_buffer slot of
           None \<Rightarrow> t
         | Some buf \<Rightarrow>
             (let t1 = release_buffer t (ps_cleanup slot) buf (ps_fixed_index slot)
              in t1\<lparr>st_slots := (st_slots t1)[slot_id := slot\<lparr>ps_buffer := None, ps_cleanup := NoCleanup\<rparr>]\<rparr>))"

definition cleanup_step :: "nat \<Rightarrow> slot_table \<Rightarrow> slot_table" where
  "cleanup_step slot_id t =
     (if \<not> ps_in_use (st_slots t ! slot_id) then t
      else ReleasePendingSlot (CleanupPendingSlot t slot_id) slot_id)"

definition CleanupPendingSlots :: "slot_table \<Rightarrow> slot_table" where
  "CleanupPendingSlots t = fold cleanup_step [0..<length (st_slots t)] t"

definition TryAcquireFixedVecBuffer :: "slot_table \<Rightarrow> (slot_table \<times> nat \<times> nat) option" where
  "TryAcquireFixedVecBuffer t =
     (if \<not> st_fixed_enabled t \<or> st_fixed_free t = [] then None
      else
        let idx = last (st_fixed_free t)
        in Some (t\<lparr>st_fixed_free := butlast (st_fixed_free t)\<rparr>, st_fixed t ! idx, idx))"

text \<open>The allocation loop of \<open>InitializeDataBufferSlab\<close>: on a failed allocation everything so far is
  freed.  The index pushed to the free list is cut to 16 bits.\<close>

fun slab_loop :: "nat option list \<Rightarrow> slot_table \<Rightarrow> slot_table + slot_table" where
  "slab_loop [] t = Inr t"
| "slab_loop (None # answers) t =
     Inl (t\<lparr>st_freed := st_freed t @ st_fixed t, st_fixed := [], st_fixed_free := []\<rparr>)"
| "slab_loop (Some raw # answers) t =
     slab_loop answers (t\<lparr>st_fixed := st_fixed t @ [raw],
       st_fixed_free := st_fixed_free t @ [length (st_fixed t) mod 65536]\<rparr>)"

text \<open>\<open>uring\<close>: the data reader is an io_uring reader; \<open>registered\<close>: the answer of
  \<open>RegisterBuffers\<close>; \<open>answer i\<close>: the \<open>i\<close>-th answer of the allocator.\<close>

definition InitializeDataBufferSlab ::
    "search_config \<Rightarrow> bool \<Rightarrow> (nat \<Rightarrow> nat option) \<Rightarrow> bool \<Rightarrow> slot_table \<Rightarrow> slot_table" where
  "InitializeDataBufferSlab cfg uring answer registered t =
     (if \<not> uring \<or> sc_io_queue_depth cfg = 0 then t
      else
        let count = unat (if 0 < sc_fixed_vec_buffer_count cfg then sc_fixed_vec_buffer_count cfg
                          else sc_io_queue_depth cfg)
        in case slab_loop (map answer [0..<count]) t of
             Inl t1 \<Rightarrow> t1
           | Inr t1 \<Rightarrow>
               if \<not> registered
               then t1\<lparr>st_freed := st_freed t1 @ st_fixed t1, st_fixed := [], st_fixed_free := []\<rparr>
               else t1\<lparr>st_fixed_enabled := True\<rparr>)"

text \<open>The buffers the destructor frees after \<open>CleanupPendingSlots\<close>; the pool frees its own.\<close>

definition destroy_table :: "slot_table \<Rightarrow> slot_table" where
  "destroy_table t0 =
     (let t = CleanupPendingSlots t0
      in t\<lparr>st_freed := st_freed t @ st_fixed t @ st_owned t @ bp_freed (st_pool t)\<rparr>)"


section \<open>The scheduler's uses of slots and buffers\<close>

text \<open>The slot part of \<open>emit_all\<close> and of \<open>FetchMissingPayloads\<close>: a pooled buffer and a slot for it.\<close>

definition emit_pooled ::
    "slot_table \<Rightarrow> pending_io \<Rightarrow> nat option \<Rightarrow> (slot_table \<times> nat \<times> nat) option" where
  "emit_pooled t io answer =
     (case bp_Acquire (st_pool t) (io_read_length io) answer of
        None \<Rightarrow> None
      | Some (p, buf) \<Rightarrow>
          (let (t1, slot_id) = AllocatePendingSlot (t\<lparr>st_pool := p\<rparr>) io buf Pool 0
           in Some (t1, slot_id, buf)))"

text \<open>The slot part of \<open>emit_vec_only\<close>: a registered buffer when one is free, else an owned one;
  the last component is the index of the registered buffer.\<close>

definition emit_vec_slot ::
    "slot_table \<Rightarrow> address_entry \<Rightarrow> nat option \<Rightarrow> (slot_table \<times> nat \<times> nat \<times> nat option) option" where
  "emit_vec_slot t addr answer =
     (case TryAcquireFixedVecBuffer t of
        Some (t1, buf, idx) \<Rightarrow>
          (let (t2, slot_id) = AllocateVectorOnlyPendingSlot t1 addr buf FixedVec idx
           in Some (t2, slot_id, buf, Some idx))
      | None \<Rightarrow>
          (case AcquireVecOnlyBuffer t answer of
             None \<Rightarrow> None
           | Some (t1, buf) \<Rightarrow>
               (let (t2, slot_id) = AllocateVectorOnlyPendingSlot t1 addr buf VecPool 0
                in Some (t2, slot_id, buf, None))))"

text \<open>The slot part of \<open>DispatchCompletion\<close>: what the consumer is given, and the table after.\<close>

definition dispatch_slot :: "slot_table \<Rightarrow> nat \<Rightarrow> slot_table \<times> pending_slot option" where
  "dispatch_slot t token =
     (case GetPendingSlot t token of
        None \<Rightarrow> (t, None)
      | Some slot \<Rightarrow>
          (let slot_id = wrap32 token
           in (case io_type (ps_io slot) of
                 VEC_ONLY \<Rightarrow> ReleaseVectorOnlyPendingSlot t slot_id
               | VEC_ALL \<Rightarrow> ReleasePendingSlot (CleanupPendingSlot t slot_id) slot_id
               | PAYLOAD \<Rightarrow> ReleasePendingSlot (t\<lparr>st_slots := (st_slots t)[slot_id :=
                     slot\<lparr>ps_buffer := None, ps_cleanup := NoCleanup\<rparr>]\<rparr>) slot_id,
               Some slot)))"

section \<open>The ownership invariant\<close>

definition busy :: "slot_table \<Rightarrow> pending_slot multiset" where
  "busy t = filter_mset ps_in_use (mset (st_slots t))"

definition held :: "pending_cleanup \<Rightarrow> (pending_slot \<Rightarrow> 'a) \<Rightarrow> pending_slot multiset \<Rightarrow> 'a multiset" where
  "held k g M = image_mset g (filter_mset (\<lambda>s. ps_cleanup s = k) M)"

definition slot_buf :: "pending_slot \<Rightarrow> nat" where
  "slot_buf s = the (ps_buffer s)"

definition pooled :: "slot_table \<Rightarrow> nat multiset" where
  "pooled t = mset (map pe_buf (bp_pool (st_pool t)))"

text \<open>Every buffer the scheduler has to give back some day.\<close>

definition all_bufs :: "slot_table \<Rightarrow> nat multiset" where
  "all_bufs t = mset (st_owned t) + mset (st_fixed t) + pooled t + held Pool slot_buf (busy t)"

definition slot_ok :: "slot_table \<Rightarrow> pending_slot \<Rightarrow> bool" where
  "slot_ok t s \<longleftrightarrow> ps_buffer s \<noteq> None \<and> ps_cleanup s \<in> {Pool, VecPool, FixedVec}
     \<and> (io_type (ps_io s) = PAYLOAD \<longrightarrow> ps_cleanup s = Pool)
     \<and> (ps_cleanup s = FixedVec \<longrightarrow> ps_fixed_index s < length (st_fixed t)
         \<and> slot_buf s = st_fixed t ! ps_fixed_index s)"

definition slots_listed :: "slot_table \<Rightarrow> bool" where
  "slots_listed t \<longleftrightarrow> distinct (st_free t)
     \<and> set (st_free t) = {i. i < length (st_slots t) \<and> \<not> ps_in_use (st_slots t ! i)}"

definition table_inv :: "slot_table \<Rightarrow> bool" where
  "table_inv t \<longleftrightarrow> slots_listed t
     \<and> (\<forall>s \<in># busy t. slot_ok t s)
     \<and> mset (st_vec_free t) + held VecPool slot_buf (busy t) = mset (st_owned t)
     \<and> mset (st_fixed_free t) + held FixedVec ps_fixed_index (busy t) = mset [0..<length (st_fixed t)]
     \<and> set_mset (pooled t) \<inter> dom (bp_outstanding (st_pool t)) = {}
     \<and> set_mset (held Pool slot_buf (busy t)) \<subseteq> dom (bp_outstanding (st_pool t))
     \<and> (\<forall>b. count (all_bufs t) b \<le> 1)"

lemma held_add [simp]:
  "held k g (add_mset s M) = (if ps_cleanup s = k then add_mset (g s) (held k g M) else held k g M)"
  by (simp add: held_def)

lemma held_empty [simp]: "held k g {#} = {#}"
  by (simp add: held_def)

lemma busy_put:
  assumes "i < length (st_slots t)" and "\<not> ps_in_use (st_slots t ! i)" and "ps_in_use s"
  shows "filter_mset ps_in_use (mset ((st_slots t)[i := s])) = add_mset s (busy t)"
proof -
  obtain M where "mset (st_slots t) = add_mset (st_slots t ! i) M"
    using assms(1) by (metis insert_DiffM nth_mem set_mset_mset)
  then show ?thesis using assms by (simp add: mset_update busy_def)
qed

lemma busy_clear:
  assumes "i < length (st_slots t)" and "ps_in_use (st_slots t ! i)" and "\<not> ps_in_use s"
  shows "busy t = add_mset (st_slots t ! i) (filter_mset ps_in_use (mset ((st_slots t)[i := s])))"
proof -
  obtain M where "mset (st_slots t) = add_mset (st_slots t ! i) M"
    using assms(1) by (metis insert_DiffM nth_mem set_mset_mset)
  then show ?thesis using assms by (simp add: mset_update busy_def)
qed

lemma pending_slot_new_idle [simp]: "\<not> ps_in_use pending_slot_new"
  by (simp add: pending_slot_new_def)

text \<open>Allocating: the table's own bookkeeping of slots.\<close>

lemma take_slot_spec:
  assumes "slots_listed t" and "length (st_slots t) < 4294967296" and "take_slot t = (t1, i)"
  shows "i < length (st_slots t1)" and "\<not> ps_in_use (st_slots t1 ! i)" and "busy t1 = busy t"
    and "distinct (st_free t1)"
    and "insert i (set (st_free t1)) = {i. i < length (st_slots t1) \<and> \<not> ps_in_use (st_slots t1 ! i)}"
    and "i \<notin> set (st_free t1)"
    and "st_pool t1 = st_pool t \<and> st_owned t1 = st_owned t \<and> st_fixed t1 = st_fixed t
      \<and> st_vec_free t1 = st_vec_free t \<and> st_fixed_free t1 = st_fixed_free t"
    and "length (st_slots t1) \<le> Suc (length (st_slots t))"
proof -
  have *: "i < length (st_slots t1) \<and> \<not> ps_in_use (st_slots t1 ! i) \<and> busy t1 = busy t
    \<and> distinct (st_free t1)
    \<and> insert i (set (st_free t1)) = {i. i < length (st_slots t1) \<and> \<not> ps_in_use (st_slots t1 ! i)}
    \<and> i \<notin> set (st_free t1) \<and> st_pool t1 = st_pool t \<and> st_owned t1 = st_owned t \<and> st_fixed t1 = st_fixed t
      \<and> st_vec_free t1 = st_vec_free t \<and> st_fixed_free t1 = st_fixed_free t
    \<and> length (st_slots t1) \<le> Suc (length (st_slots t))"
  proof (cases "st_free t = []")
    case True
    then have t1: "t1 = t\<lparr>st_slots := st_slots t @ [pending_slot_new]\<rparr>" "i = length (st_slots t)"
      using assms(2,3) by (simp_all add: take_slot_def)
    have used: "ps_in_use (st_slots t ! j)" if "j < length (st_slots t)" for j
      using assms(1) True that by (auto simp: slots_listed_def)
    show ?thesis using True used unfolding t1 by (auto simp: busy_def nth_append less_Suc_eq)
  next
    case False
    then have t1: "t1 = t\<lparr>st_free := butlast (st_free t)\<rparr>" "i = last (st_free t)"
      using assms(3) by (simp_all add: take_slot_def)
    obtain ys y where ys: "st_free t = ys @ [y]" using False by (metis append_butlast_last_id)
    then show ?thesis using assms(1) unfolding t1 by (auto simp: busy_def slots_listed_def)
  qed
  then show "i < length (st_slots t1)" "\<not> ps_in_use (st_slots t1 ! i)" "busy t1 = busy t"
    "distinct (st_free t1)" "insert i (set (st_free t1)) = {i. i < length (st_slots t1) \<and> \<not> ps_in_use (st_slots t1 ! i)}"
    "i \<notin> set (st_free t1)" "st_pool t1 = st_pool t \<and> st_owned t1 = st_owned t \<and> st_fixed t1 = st_fixed t
      \<and> st_vec_free t1 = st_vec_free t \<and> st_fixed_free t1 = st_fixed_free t"
    "length (st_slots t1) \<le> Suc (length (st_slots t))"
    by blast+
qed

lemma fill_slot:
  assumes "slots_listed t" and "length (st_slots t) < 4294967296" and "ps_in_use s" and "take_slot t = (t1, i)"
    and "t2 = t1\<lparr>st_slots := (st_slots t1)[i := s]\<rparr>"
  shows "slots_listed t2" and "busy t2 = add_mset s (busy t)" and "i < length (st_slots t2)"
    and "st_slots t2 ! i = s" and "st_pool t2 = st_pool t" and "st_owned t2 = st_owned t"
    and "st_fixed t2 = st_fixed t" and "st_vec_free t2 = st_vec_free t"
    and "st_fixed_free t2 = st_fixed_free t" and "length (st_slots t2) \<le> Suc (length (st_slots t))"
proof -
  note t = take_slot_spec [OF assms(1,2,4)]
  have b: "busy t2 = add_mset s (busy t1)"
    using busy_put [OF t(1,2) assms(3)] by (simp add: busy_def assms(5))
  then show "busy t2 = add_mset s (busy t)" using t(3) by simp
  show "i < length (st_slots t2)" "st_slots t2 ! i = s" using t(1) assms(5) by simp_all
  show "length (st_slots t2) \<le> Suc (length (st_slots t))" using t(8) assms(5) by simp
  have "set (st_free t2) = {j. j < length (st_slots t2) \<and> \<not> ps_in_use (st_slots t2 ! j)}"
  proof (rule set_eqI)
    fix j
    have "j \<in> set (st_free t1) \<longleftrightarrow> j \<noteq> i \<and> j < length (st_slots t1) \<and> \<not> ps_in_use (st_slots t1 ! j)"
      using t(5,6) by blast
    then show "j \<in> set (st_free t2) \<longleftrightarrow> j \<in> {j. j < length (st_slots t2) \<and> \<not> ps_in_use (st_slots t2 ! j)}"
      using t(1) assms(3,5) by (cases "j = i") simp_all
  qed
  then show "slots_listed t2" using t(4) assms(5) by (simp add: slots_listed_def)
  show "st_pool t2 = st_pool t" "st_owned t2 = st_owned t" "st_fixed t2 = st_fixed t"
    "st_vec_free t2 = st_vec_free t" "st_fixed_free t2 = st_fixed_free t"
    using t(7) assms(5) by simp_all
qed

text \<open>Acquiring from the pool: a pooled buffer leaves the pool, or a fresh one comes in.\<close>

lemma bp_Acquire_cases:
  assumes "bp_Acquire p req answer = Some (p', raw)"
  obtains (reuse) c where "mset (map pe_buf (bp_pool p)) = add_mset raw (mset (map pe_buf (bp_pool p')))"
      "bp_outstanding p' = (bp_outstanding p)(raw \<mapsto> c)"
    | (fresh) c where "answer = Some raw" "bp_pool p' = bp_pool p" "bp_outstanding p' = (bp_outstanding p)(raw \<mapsto> c)"
proof (cases "first_fit (unat (align_4k req)) (bp_pool p)")
  case None
  then show thesis using assms fresh by (auto simp: bp_Acquire_def Let_def split: option.splits)
next
  case (Some i)
  then have i: "i < length (bp_pool p)" using first_fit_Some by blast
  have p': "bp_pool p' = swap_and_pop (bp_pool p) i" "raw = pe_buf (bp_pool p ! i)"
    "bp_outstanding p' = (bp_outstanding p)(raw \<mapsto> pe_capacity (bp_pool p ! i))"
    using assms Some by (auto simp: bp_Acquire_def Let_def)
  show thesis
    by (rule reuse [OF _ p'(3)]) (use arg_cong [OF mset_swap_and_pop [OF i], of "image_mset pe_buf"] p'(1,2) in simp)
qed

text \<open>What \<open>table_inv\<close> says apart from the list of free slots depends on these parts only.\<close>

definition buffers_inv ::
    "slot_table \<Rightarrow> pending_slot multiset \<Rightarrow> bool" where
  "buffers_inv t B \<longleftrightarrow> (\<forall>s \<in># B. slot_ok t s)
     \<and> mset (st_vec_free t) + held VecPool slot_buf B = mset (st_owned t)
     \<and> mset (st_fixed_free t) + held FixedVec ps_fixed_index B = mset [0..<length (st_fixed t)]
     \<and> set_mset (pooled t) \<inter> dom (bp_outstanding (st_pool t)) = {}
     \<and> set_mset (held Pool slot_buf B) \<subseteq> dom (bp_outstanding (st_pool t))
     \<and> (\<forall>b. count (mset (st_owned t) + mset (st_fixed t) + pooled t + held Pool slot_buf B) b \<le> 1)"

lemma table_inv_split: "table_inv t \<longleftrightarrow> slots_listed t \<and> buffers_inv t (busy t)"
  by (auto simp: table_inv_def buffers_inv_def all_bufs_def)

lemma buffers_inv_cong:
  assumes "st_pool t' = st_pool t" "st_owned t' = st_owned t" "st_fixed t' = st_fixed t"
    "st_vec_free t' = st_vec_free t" "st_fixed_free t' = st_fixed_free t"
  shows "buffers_inv t' B = buffers_inv t B"
  using assms by (simp add: buffers_inv_def slot_ok_def pooled_def)

lemma count_le_1_add: "\<forall>b. count (add_mset x M) b \<le> 1 \<Longrightarrow> x \<notin># M"
  by (metis One_nat_def Suc_le_mono add_mset_add_single count_add_mset count_greater_zero_iff le_zero_eq less_numeral_extra(3))

lemma acquire_pooled_inv:
  assumes "buffers_inv t B" and "bp_Acquire (st_pool t) req answer = Some (p, buf)"
    and "\<forall>a. answer = Some a \<longrightarrow> a \<notin># mset (st_owned t) + mset (st_fixed t) + pooled t + held Pool slot_buf B"
    and "ps_cleanup s = Pool" and "ps_buffer s = Some buf"
  shows "buffers_inv (t\<lparr>st_pool := p\<rparr>) (add_mset s B)"
proof -
  let ?t = "t\<lparr>st_pool := p\<rparr>"
  have s: "slot_buf s = buf" "slot_ok ?t s" using assms(4,5) by (simp_all add: slot_buf_def slot_ok_def)
  have oks: "\<forall>x \<in># B. slot_ok ?t x" using assms(1) by (simp add: buffers_inv_def slot_ok_def)
  from assms(2) show ?thesis
  proof (cases rule: bp_Acquire_cases)
    case (reuse c)
    have pool: "pooled t = add_mset buf (pooled ?t)" using reuse(1) by (simp add: pooled_def)
    then have "buf \<notin># pooled ?t"
      using assms(1) count_le_1_add [of buf "mset (st_owned t) + mset (st_fixed t) + pooled ?t + held Pool slot_buf B"]
      by (auto simp: buffers_inv_def)
    then show ?thesis using assms(1,4) s oks reuse(2) pool by (auto simp: buffers_inv_def)
  next
    case (fresh c)
    have pool: "pooled ?t = pooled t" using fresh(2) by (simp add: pooled_def)
    have new: "count (mset (st_owned t) + mset (st_fixed t) + pooled t + held Pool slot_buf B) buf = 0"
      using assms(3) fresh(1) by (simp add: count_eq_zero_iff)
    have "buf \<notin># pooled t" using assms(3) fresh(1) by simp
    then show ?thesis using assms(1,4) s oks fresh(3) pool new by (auto simp: buffers_inv_def)
  qed
qed

lemma emit_pooled_inv:
  assumes "table_inv t" and "length (st_slots t) < 4294967296"
    and "emit_pooled t io answer = Some (t', slot_id, buf)" and "\<forall>a. answer = Some a \<longrightarrow> a \<notin># all_bufs t"
  shows "table_inv t'" and "slot_id < length (st_slots t')"
    and "st_slots t' ! slot_id = \<lparr>ps_in_use = True, ps_buffer = Some buf, ps_fixed_index = 0,
      ps_cleanup = Pool, ps_io = io\<rparr>"
    and "busy t' = add_mset (st_slots t' ! slot_id) (busy t)"
    and "length (st_slots t') \<le> Suc (length (st_slots t))"
proof -
  define s where "s = \<lparr>ps_in_use = True, ps_buffer = Some buf, ps_fixed_index = 0, ps_cleanup = Pool, ps_io = io\<rparr>"
  obtain p where p: "bp_Acquire (st_pool t) (io_read_length io) answer = Some (p, buf)"
    and alloc: "AllocatePendingSlot (t\<lparr>st_pool := p\<rparr>) io buf Pool 0 = (t', slot_id)"
    using assms(3) by (auto simp: emit_pooled_def split: option.splits prod.splits)
  let ?t = "t\<lparr>st_pool := p\<rparr>"
  obtain t1 where t1: "take_slot ?t = (t1, slot_id)" "t' = t1\<lparr>st_slots := (st_slots t1)[slot_id := s]\<rparr>"
    using alloc by (auto simp: AllocatePendingSlot_def s_def split: prod.splits)
  have listed: "slots_listed ?t" "length (st_slots ?t) < 4294967296" "ps_in_use s"
    using assms(1,2) by (simp_all add: table_inv_split slots_listed_def s_def)
  note f = fill_slot [OF listed t1]
  have b: "busy ?t = busy t" by (simp add: busy_def)
  have "buffers_inv ?t (add_mset s (busy t))"
    by (rule acquire_pooled_inv [OF _ p]) (use assms(1,4) in \<open>simp_all add: table_inv_split all_bufs_def s_def\<close>)
  then have "buffers_inv t' (busy t')" using buffers_inv_cong [of t' ?t] f b by simp
  then show "table_inv t'" using f(1) by (simp add: table_inv_split)
  show "slot_id < length (st_slots t')" "length (st_slots t') \<le> Suc (length (st_slots t))"
    "busy t' = add_mset (st_slots t' ! slot_id) (busy t)" using f b by simp_all
  show "st_slots t' ! slot_id = \<lparr>ps_in_use = True, ps_buffer = Some buf, ps_fixed_index = 0,
      ps_cleanup = Pool, ps_io = io\<rparr>" using f by (simp add: s_def)
qed


lemma vec_slot_inv:
  assumes "table_inv t0" and "length (st_slots t0) < 4294967296"
    and "AllocateVectorOnlyPendingSlot t addr buf k idx = (t', slot_id)"
    and "st_slots t = st_slots t0" "st_free t = st_free t0" "st_vec_bytes t = st_vec_bytes t0"
    and "\<And>s. ps_cleanup s = k \<Longrightarrow> ps_buffer s = Some buf \<Longrightarrow> ps_fixed_index s = idx \<Longrightarrow>
      io_type (ps_io s) = VEC_ONLY \<Longrightarrow> buffers_inv t (add_mset s (busy t0))"
  shows "table_inv t'" and "slot_id < length (st_slots t')"
    and "st_slots t' ! slot_id = \<lparr>ps_in_use = True, ps_buffer = Some buf, ps_fixed_index = idx,
      ps_cleanup = k, ps_io = \<lparr>io_type = VEC_ONLY, io_addr = addr, io_read_offset = ae_offset addr,
        io_read_length = st_vec_bytes t0\<rparr>\<rparr>"
    and "busy t' = add_mset (st_slots t' ! slot_id) (busy t0)"
    and "length (st_slots t') \<le> Suc (length (st_slots t0))"
proof -
  obtain t1 where t1: "take_slot t = (t1, slot_id)" and vb: "st_vec_bytes t1 = st_vec_bytes t0"
    using assms(3,6) by (auto simp: AllocateVectorOnlyPendingSlot_def take_slot_def split: prod.splits if_splits)
  define s where "s = \<lparr>ps_in_use = True, ps_buffer = Some buf, ps_fixed_index = idx,
      ps_cleanup = k, ps_io = \<lparr>io_type = VEC_ONLY, io_addr = addr, io_read_offset = ae_offset addr,
        io_read_length = st_vec_bytes t0\<rparr>\<rparr>"
  have t': "t' = t1\<lparr>st_slots := (st_slots t1)[slot_id := s]\<rparr>"
    using assms(3) t1 vb by (simp add: AllocateVectorOnlyPendingSlot_def s_def)
  have listed: "slots_listed t" "length (st_slots t) < 4294967296" "ps_in_use s"
    using assms(1,2,4,5) by (simp_all add: table_inv_split slots_listed_def s_def)
  note f = fill_slot [OF listed t1 t']
  have b: "busy t = busy t0" using assms(4) by (simp add: busy_def)
  have "buffers_inv t (add_mset s (busy t0))" by (rule assms(7)) (simp_all add: s_def)
  then have "buffers_inv t' (busy t')" using buffers_inv_cong [of t' t] f b by simp
  then show "table_inv t'" using f(1) by (simp add: table_inv_split)
  show "slot_id < length (st_slots t')" "length (st_slots t') \<le> Suc (length (st_slots t0))"
    "busy t' = add_mset (st_slots t' ! slot_id) (busy t0)" using f b assms(4) by simp_all
  show "st_slots t' ! slot_id = \<lparr>ps_in_use = True, ps_buffer = Some buf, ps_fixed_index = idx,
      ps_cleanup = k, ps_io = \<lparr>io_type = VEC_ONLY, io_addr = addr, io_read_offset = ae_offset addr,
        io_read_length = st_vec_bytes t0\<rparr>\<rparr>" using f by (simp add: s_def)
qed

lemma mset_butlast_last: "xs \<noteq> [] \<Longrightarrow> mset xs = add_mset (last xs) (mset (butlast xs))"
  by (cases xs rule: rev_cases) simp_all

lemma count_le_1_drop: "\<forall>b. count (add_mset x M) b \<le> 1 \<Longrightarrow> \<forall>b. count M b \<le> 1"
proof
  fix b
  assume h: "\<forall>b. count (add_mset x M) b \<le> 1"
  have "count M b \<le> count (add_mset x M) b" by simp
  also have "\<dots> \<le> 1" using h by blast
  finally show "count M b \<le> 1" .
qed

lemma emit_vec_inv:
  assumes "table_inv t" and "length (st_slots t) < 4294967296"
    and "emit_vec_slot t addr answer = Some (t', slot_id, buf, fixed)"
    and "\<forall>a. answer = Some a \<longrightarrow> a \<notin># all_bufs t"
  shows "table_inv t' \<and> slot_id < length (st_slots t')
    \<and> ps_buffer (st_slots t' ! slot_id) = Some buf \<and> ps_in_use (st_slots t' ! slot_id)
    \<and> ps_io (st_slots t' ! slot_id) = \<lparr>io_type = VEC_ONLY, io_addr = addr,
        io_read_offset = ae_offset addr, io_read_length = st_vec_bytes t\<rparr>
    \<and> busy t' = add_mset (st_slots t' ! slot_id) (busy t)
    \<and> length (st_slots t') \<le> Suc (length (st_slots t))"
proof (cases "TryAcquireFixedVecBuffer t")
  case (Some r)
  obtain t1 idx where r: "r = (t1, buf, idx)"
    and alloc: "AllocateVectorOnlyPendingSlot t1 addr buf FixedVec idx = (t', slot_id)"
    using assms(3) Some by (auto simp: emit_vec_slot_def split: prod.splits)
  have ne: "st_fixed_free t \<noteq> []" and t1: "t1 = t\<lparr>st_fixed_free := butlast (st_fixed_free t)\<rparr>"
    and idx: "idx = last (st_fixed_free t)" and buf: "buf = st_fixed t ! idx"
    using Some r by (auto simp: TryAcquireFixedVecBuffer_def Let_def split: if_splits)
  have free: "mset (st_fixed_free t) = add_mset idx (mset (st_fixed_free t1))"
    using mset_butlast_last [OF ne] by (simp add: t1 idx)
  have B: "buffers_inv t (busy t)" using assms(1) by (simp add: table_inv_split)
  have "idx \<in># mset (st_fixed_free t)" by (simp add: free)
  then have "idx \<in># mset [0..<length (st_fixed t)]"
    using B unfolding buffers_inv_def by (metis union_iff)
  then have less: "idx < length (st_fixed t)" by simp
  have "buffers_inv t1 (add_mset s (busy t))"
    if "ps_cleanup s = FixedVec" "ps_buffer s = Some buf" "ps_fixed_index s = idx" "io_type (ps_io s) = VEC_ONLY" for s
    using B that less free
    by (simp add: buffers_inv_def slot_ok_def pooled_def t1 slot_buf_def buf)
  note all = this
  have eqs: "st_slots t1 = st_slots t" "st_free t1 = st_free t" "st_vec_bytes t1 = st_vec_bytes t"
    by (simp_all add: t1)
  note v = vec_slot_inv [OF assms(1,2) alloc eqs all]
  show ?thesis
  proof (intro conjI)
    show "busy t' = add_mset (st_slots t' ! slot_id) (busy t)" by (rule v(4))
  qed (rule v(1) v(2) v(5) | simp only: v(3) pending_slot.select_convs)+
next
  case None
  obtain t1 where acq: "AcquireVecOnlyBuffer t answer = Some (t1, buf)"
    and alloc: "AllocateVectorOnlyPendingSlot t1 addr buf VecPool 0 = (t', slot_id)"
    using assms(3) None by (auto simp: emit_vec_slot_def split: option.splits prod.splits)
  have B: "buffers_inv t (busy t)" using assms(1) by (simp add: table_inv_split)
  have "buffers_inv t1 (add_mset s (busy t)) \<and> st_slots t1 = st_slots t \<and> st_free t1 = st_free t
      \<and> st_vec_bytes t1 = st_vec_bytes t"
    if s: "ps_cleanup s = VecPool" "ps_buffer s = Some buf" "io_type (ps_io s) = VEC_ONLY" for s
  proof (cases "st_vec_free t = []")
    case True
    then have "answer = Some buf" and t1: "t1 = t\<lparr>st_owned := st_owned t @ [buf]\<rparr>"
      using acq by (auto simp: AcquireVecOnlyBuffer_def split: option.splits)
    then have "count (mset (st_owned t) + mset (st_fixed t) + pooled t + held Pool slot_buf (busy t)) buf = 0"
      using assms(4) by (simp add: all_bufs_def count_eq_zero_iff)
    then show ?thesis using B s by (simp add: buffers_inv_def slot_ok_def pooled_def t1 slot_buf_def)
  next
    case False
    then have t1: "t1 = t\<lparr>st_vec_free := butlast (st_vec_free t)\<rparr>" and buf: "buf = last (st_vec_free t)"
      using acq by (auto simp: AcquireVecOnlyBuffer_def)
    have "mset (st_vec_free t) = add_mset buf (mset (st_vec_free t1))"
      using mset_butlast_last [OF False] by (simp add: t1 buf)
    then show ?thesis using B s by (simp add: buffers_inv_def slot_ok_def pooled_def t1 slot_buf_def)
  qed
  note all = this
  have eqs: "st_slots t1 = st_slots t" "st_free t1 = st_free t" "st_vec_bytes t1 = st_vec_bytes t"
    using all [of "\<lparr>ps_in_use = True, ps_buffer = Some buf, ps_fixed_index = 0, ps_cleanup = VecPool,
      ps_io = pending_io_new\<rparr>"] by (simp_all add: pending_io_new_def)
  note v = vec_slot_inv [OF assms(1,2) alloc eqs all [THEN conjunct1]]
  show ?thesis
  proof (intro conjI)
    show "busy t' = add_mset (st_slots t' ! slot_id) (busy t)" by (rule v(4))
  qed (rule v(1) v(2) v(5) | simp only: v(3) pending_slot.select_convs)+
qed

section \<open>Giving back\<close>

definition drop_slot :: "slot_table \<Rightarrow> nat \<Rightarrow> slot_table" where
  "drop_slot t i = t\<lparr>st_slots := (st_slots t)[i := pending_slot_new], st_free := st_free t @ [i]\<rparr>"

lemma release_buffer_slots [simp]:
  "st_slots (release_buffer t k b i) = st_slots t" "st_free (release_buffer t k b i) = st_free t"
  "busy (release_buffer t k b i) = busy t"
  by (auto simp: busy_def release_buffer_def ReleaseFixedVecBuffer_def ReleaseVecOnlyBuffer_def split: pending_cleanup.splits)

lemma busy_drop:
  "i < length (st_slots t) \<Longrightarrow> ps_in_use (st_slots t ! i) \<Longrightarrow> busy t = add_mset (st_slots t ! i) (busy (drop_slot t i))"
  using busy_clear [of i t pending_slot_new] by (simp add: busy_def drop_slot_def)

lemma drop_listed:
  "slots_listed t \<Longrightarrow> i < length (st_slots t) \<Longrightarrow> ps_in_use (st_slots t ! i) \<Longrightarrow> slots_listed (drop_slot t i)"
  by (auto simp: slots_listed_def drop_slot_def nth_list_update)

lemma release_inv:
  assumes "table_inv t" and "i < length (st_slots t)" and "ps_in_use (st_slots t ! i)"
  shows "table_inv (drop_slot (release_buffer t (ps_cleanup (st_slots t ! i)) (slot_buf (st_slots t ! i))
      (ps_fixed_index (st_slots t ! i))) i)" (is "table_inv ?t'")
    and "ps_cleanup (st_slots t ! i) = Pool \<Longrightarrow> table_inv (drop_slot t i)"
proof -
  define s where "s = st_slots t ! i"
  define B where "B = busy (drop_slot t i)"
  have b: "busy t = add_mset s B" using busy_drop [OF assms(2,3)] by (simp add: B_def s_def)
  have inv: "buffers_inv t (add_mset s B)" and listed: "slots_listed t"
    using assms(1) b by (simp_all add: table_inv_split)
  then have ok: "slot_ok t s" by (simp add: buffers_inv_def)
  let ?r = "release_buffer t (ps_cleanup s) (slot_buf s) (ps_fixed_index s)"
  have "slots_listed ?r" using listed by (simp add: slots_listed_def)
  then have l: "slots_listed (drop_slot ?r i)" by (rule drop_listed) (use assms(2,3) in simp_all)
  have B': "busy (drop_slot ?r i) = B" by (simp add: B_def busy_def drop_slot_def)
  have "buffers_inv ?r B"
  proof (cases "ps_cleanup s")
    case Pool
    have buf: "slot_buf s \<in> dom (bp_outstanding (st_pool t))" using inv Pool by (auto simp: buffers_inv_def)
    then obtain c where c: "bp_outstanding (st_pool t) (slot_buf s) = Some c" by blast
    have rest: "slot_buf s \<notin># held Pool slot_buf B"
      using inv Pool count_le_1_add [of "slot_buf s" "mset (st_owned t) + mset (st_fixed t) + pooled t + held Pool slot_buf B"]
      by (auto simp: buffers_inv_def)
    show ?thesis using inv Pool c rest
      by (auto simp: buffers_inv_def slot_ok_def release_buffer_def bp_Release_def pooled_def)
  next
    case VecPool
    then show ?thesis using inv
      by (auto simp: buffers_inv_def slot_ok_def release_buffer_def ReleaseVecOnlyBuffer_def pooled_def)
  next
    case FixedVec
    then show ?thesis using inv
      by (auto simp: buffers_inv_def slot_ok_def release_buffer_def ReleaseFixedVecBuffer_def pooled_def)
  qed (use ok in \<open>auto simp: slot_ok_def\<close>)
  then have "buffers_inv (drop_slot ?r i) B" using buffers_inv_cong [of "drop_slot ?r i" ?r] by (simp add: drop_slot_def)
  then show "table_inv ?t'" using l B' by (simp add: table_inv_split s_def)
  assume "ps_cleanup (st_slots t ! i) = Pool"
  then have "held Pool slot_buf (add_mset s B) = add_mset (slot_buf s) (held Pool slot_buf B)" by (simp add: s_def)
  moreover from this have "\<forall>b. count (mset (st_owned t) + mset (st_fixed t) + pooled t + held Pool slot_buf B) b \<le> 1"
    using inv count_le_1_drop [of "slot_buf s" "mset (st_owned t) + mset (st_fixed t) + pooled t + held Pool slot_buf B"]
    by (simp add: buffers_inv_def)
  ultimately have "buffers_inv t B"
    using inv \<open>ps_cleanup (st_slots t ! i) = Pool\<close> by (simp add: buffers_inv_def s_def)
  then have "buffers_inv (drop_slot t i) B" using buffers_inv_cong [of "drop_slot t i" t] by (simp add: drop_slot_def)
  then show "table_inv (drop_slot t i)" using drop_listed [OF listed assms(2,3)] by (simp add: table_inv_split B_def)
qed


lemma release_keeps_bufs:
  assumes "table_inv t" and "i < length (st_slots t)" and "ps_in_use (st_slots t ! i)"
  shows "all_bufs (drop_slot (release_buffer t (ps_cleanup (st_slots t ! i)) (slot_buf (st_slots t ! i))
      (ps_fixed_index (st_slots t ! i))) i) = all_bufs t"
    and "st_freed (drop_slot (release_buffer t (ps_cleanup (st_slots t ! i)) (slot_buf (st_slots t ! i))
      (ps_fixed_index (st_slots t ! i))) i) = st_freed t"
proof -
  define s where "s = st_slots t ! i"
  define B where "B = busy (drop_slot t i)"
  have b: "busy t = add_mset s B" using busy_drop [OF assms(2,3)] by (simp add: B_def s_def)
  then have inv: "buffers_inv t (add_mset s B)" using assms(1) by (simp add: table_inv_split)
  then have ok: "slot_ok t s" by (simp add: buffers_inv_def)
  let ?r = "release_buffer t (ps_cleanup s) (slot_buf s) (ps_fixed_index s)"
  have B': "busy (drop_slot ?r i) = B" by (simp add: B_def busy_def drop_slot_def)
  have "all_bufs (drop_slot ?r i) = all_bufs t \<and> st_freed (drop_slot ?r i) = st_freed t"
  proof (cases "ps_cleanup s")
    case Pool
    then have "slot_buf s \<in> dom (bp_outstanding (st_pool t))" using inv by (auto simp: buffers_inv_def)
    then obtain c where "bp_outstanding (st_pool t) (slot_buf s) = Some c" by blast
    then show ?thesis using Pool unfolding all_bufs_def B' b
      by (simp add: drop_slot_def release_buffer_def bp_Release_def pooled_def)
  next
    case VecPool
    then show ?thesis unfolding all_bufs_def B' b
      by (simp add: drop_slot_def release_buffer_def ReleaseVecOnlyBuffer_def pooled_def)
  next
    case FixedVec
    then show ?thesis unfolding all_bufs_def B' b
      by (simp add: drop_slot_def release_buffer_def ReleaseFixedVecBuffer_def pooled_def)
  qed (use ok in \<open>auto simp: slot_ok_def\<close>)
  then show "all_bufs (drop_slot (release_buffer t (ps_cleanup (st_slots t ! i)) (slot_buf (st_slots t ! i))
      (ps_fixed_index (st_slots t ! i))) i) = all_bufs t"
    and "st_freed (drop_slot (release_buffer t (ps_cleanup (st_slots t ! i)) (slot_buf (st_slots t ! i))
      (ps_fixed_index (st_slots t ! i))) i) = st_freed t"
    by (simp_all add: s_def)
qed

text \<open>All the ways the code releases a slot are \<open>drop_slot\<close> after \<open>release_buffer\<close>, except a payload's,
  whose buffer now belongs to the consumer.\<close>

lemma slot_ok_of:
  assumes "table_inv t" and "i < length (st_slots t)" and "ps_in_use (st_slots t ! i)"
  shows "slot_ok t (st_slots t ! i)" and "ps_buffer (st_slots t ! i) = Some (slot_buf (st_slots t ! i))"
proof -
  have "st_slots t ! i \<in># busy t" using assms(2,3) by (simp add: busy_def)
  then show "slot_ok t (st_slots t ! i)" using assms(1) by (simp add: table_inv_def)
  then show "ps_buffer (st_slots t ! i) = Some (slot_buf (st_slots t ! i))"
    by (auto simp: slot_ok_def slot_buf_def)
qed

lemma release_forms:
  assumes "table_inv t" and "i < length (st_slots t)" and "ps_in_use (st_slots t ! i)"
  shows "ReleaseVectorOnlyPendingSlot t i = drop_slot (release_buffer t (ps_cleanup (st_slots t ! i))
      (slot_buf (st_slots t ! i)) (ps_fixed_index (st_slots t ! i))) i"
    and "ReleasePendingSlot (CleanupPendingSlot t i) i = drop_slot (release_buffer t (ps_cleanup (st_slots t ! i))
      (slot_buf (st_slots t ! i)) (ps_fixed_index (st_slots t ! i))) i"
    and "ReleasePendingSlot (t\<lparr>st_slots := (st_slots t)[i := s]\<rparr>) i = drop_slot t i"
  using assms(2,3) slot_ok_of(2) [OF assms]
  by (simp_all add: ReleaseVectorOnlyPendingSlot_def CleanupPendingSlot_def ReleasePendingSlot_def drop_slot_def Let_def)

lemma dispatch_inv:
  assumes "table_inv t"
  shows "table_inv (fst (dispatch_slot t token))"
    and "\<And>slot. snd (dispatch_slot t token) = Some slot \<Longrightarrow> token < length (st_slots t) \<and> slot = st_slots t ! token
      \<and> ps_in_use slot \<and> busy t = add_mset slot (busy (fst (dispatch_slot t token)))"
    and "length (st_slots (fst (dispatch_slot t token))) = length (st_slots t)"
proof -
  have "table_inv (fst (dispatch_slot t token))
    \<and> (\<forall>slot. snd (dispatch_slot t token) = Some slot \<longrightarrow> token < length (st_slots t) \<and> slot = st_slots t ! token
      \<and> ps_in_use slot \<and> busy t = add_mset slot (busy (fst (dispatch_slot t token))))
    \<and> length (st_slots (fst (dispatch_slot t token))) = length (st_slots t)"
  proof (cases "GetPendingSlot t token")
    case None
    then show ?thesis using assms by (simp add: dispatch_slot_def)
  next
    case (Some slot)
    then have tok: "wrap32 token = token" "token < length (st_slots t)" "ps_in_use (st_slots t ! token)"
      and slot: "slot = st_slots t ! token"
      by (auto simp: GetPendingSlot_def split: if_splits)
    note f = release_forms [OF assms tok(2,3)]
    note r = release_inv [OF assms tok(2,3)]
    note ok = slot_ok_of [OF assms tok(2,3)]
    let ?r = "drop_slot (release_buffer t (ps_cleanup slot) (slot_buf slot) (ps_fixed_index slot)) token"
    have b: "busy ?r = busy (drop_slot t token)" by (simp add: busy_def drop_slot_def)
    have "fst (dispatch_slot t token) = (if io_type (ps_io slot) = PAYLOAD then drop_slot t token else ?r)
      \<and> snd (dispatch_slot t token) = Some slot"
      using Some f tok(1) unfolding slot
      by (cases "io_type (ps_io (st_slots t ! token))") (simp_all add: dispatch_slot_def Let_def)
    moreover have "io_type (ps_io slot) = PAYLOAD \<Longrightarrow> ps_cleanup slot = Pool" using ok(1) slot by (simp add: slot_ok_def)
    ultimately show ?thesis
      using r busy_drop [OF tok(2,3)] tok slot b by (auto simp: drop_slot_def)
  qed
  then show "table_inv (fst (dispatch_slot t token))"
    and "\<And>slot. snd (dispatch_slot t token) = Some slot \<Longrightarrow> token < length (st_slots t) \<and> slot = st_slots t ! token
      \<and> ps_in_use slot \<and> busy t = add_mset slot (busy (fst (dispatch_slot t token)))"
    and "length (st_slots (fst (dispatch_slot t token))) = length (st_slots t)"
    by blast+
qed

lemma cleanup_step_inv:
  assumes "table_inv t" and "i < length (st_slots t)"
  shows "table_inv (cleanup_step i t) \<and> all_bufs (cleanup_step i t) = all_bufs t
    \<and> st_freed (cleanup_step i t) = st_freed t \<and> length (st_slots (cleanup_step i t)) = length (st_slots t)
    \<and> st_slots (cleanup_step i t) = (st_slots t)[i := (st_slots (cleanup_step i t)) ! i]
    \<and> \<not> ps_in_use (st_slots (cleanup_step i t) ! i)"
proof (cases "ps_in_use (st_slots t ! i)")
  case True
  note r = release_inv(1) [OF assms True] release_keeps_bufs [OF assms True] release_forms(2) [OF assms True]
  show ?thesis using r assms(2) True by (simp add: cleanup_step_def) (simp add: drop_slot_def)
qed (use assms in \<open>simp add: cleanup_step_def\<close>)

lemma cleanup_loop:
  assumes "table_inv t" and "k \<le> length (st_slots t)"
  shows "table_inv (fold cleanup_step [0..<k] t) \<and> all_bufs (fold cleanup_step [0..<k] t) = all_bufs t
    \<and> st_freed (fold cleanup_step [0..<k] t) = st_freed t
    \<and> length (st_slots (fold cleanup_step [0..<k] t)) = length (st_slots t)
    \<and> (\<forall>i < k. \<not> ps_in_use (st_slots (fold cleanup_step [0..<k] t) ! i))"
  using assms(2)
proof (induction k)
  case (Suc k)
  define t1 where "t1 = fold cleanup_step [0..<k] t"
  have ih: "table_inv t1" "all_bufs t1 = all_bufs t" "st_freed t1 = st_freed t"
    "length (st_slots t1) = length (st_slots t)" "\<forall>i < k. \<not> ps_in_use (st_slots t1 ! i)"
    using Suc by (simp_all add: t1_def)
  have k: "k < length (st_slots t1)" using ih(4) Suc.prems by simp
  have step: "fold cleanup_step [0..<Suc k] t = cleanup_step k t1" by (simp add: t1_def)
  note c = cleanup_step_inv [OF ih(1) k]
  have "\<not> ps_in_use (st_slots (cleanup_step k t1) ! i)" if "i < Suc k" for i
  proof (cases "i = k")
    case False
    then have "st_slots (cleanup_step k t1) ! i = st_slots t1 ! i" using c by (metis nth_list_update_neq)
    then show ?thesis using ih(5) that False by simp
  qed (use c in simp)
  then show ?case using c ih unfolding step by simp
qed (use assms in simp)

lemma Cleanup_inv:
  assumes "table_inv t"
  shows "table_inv (CleanupPendingSlots t)" and "busy (CleanupPendingSlots t) = {#}"
    and "all_bufs (CleanupPendingSlots t) = all_bufs t" and "st_freed (CleanupPendingSlots t) = st_freed t"
    and "length (st_slots (CleanupPendingSlots t)) = length (st_slots t)"
proof -
  note c = cleanup_loop [OF assms order_refl, folded CleanupPendingSlots_def]
  show "table_inv (CleanupPendingSlots t)" "all_bufs (CleanupPendingSlots t) = all_bufs t"
    "st_freed (CleanupPendingSlots t) = st_freed t"
    "length (st_slots (CleanupPendingSlots t)) = length (st_slots t)" using c by simp_all
  show "busy (CleanupPendingSlots t) = {#}"
    using c by (auto simp: busy_def in_set_conv_nth)
qed

section \<open>Runs\<close>

text \<open>The constructor primes the pool and sets up the registered buffers.\<close>

definition table_start :: "search_config \<Rightarrow> bool \<Rightarrow> (nat \<Rightarrow> nat option) \<Rightarrow> bool \<Rightarrow> buffer_pool \<Rightarrow> u32 \<Rightarrow> slot_table" where
  "table_start cfg uring answer registered pool vec_bytes =
     InitializeDataBufferSlab cfg uring answer registered ((slot_table_new vec_bytes)\<lparr>st_pool := pool\<rparr>)"

text \<open>An allocator never answers with a buffer that still has to be given back.\<close>

inductive table_step :: "slot_table \<Rightarrow> slot_table \<Rightarrow> bool" where
  step_pooled: "table_step t t'"
    if "length (st_slots t) < 4294967296" and "\<forall>a. answer = Some a \<longrightarrow> a \<notin># all_bufs t"
      and "emit_pooled t io answer = Some (t', slot_id, buf)"
| step_vec: "table_step t t'"
    if "length (st_slots t) < 4294967296" and "\<forall>a. answer = Some a \<longrightarrow> a \<notin># all_bufs t"
      and "emit_vec_slot t addr answer = Some (t', slot_id, buf, fixed)"
| step_dispatch: "table_step t (fst (dispatch_slot t token))"
| step_cleanup: "table_step t (CleanupPendingSlots t)"

inductive table_run :: "slot_table \<Rightarrow> slot_table \<Rightarrow> bool" where
  run_start: "table_run t t"
| run_step: "table_run t t' \<Longrightarrow> table_step t' t'' \<Longrightarrow> table_run t t''"

lemma table_step_inv: "table_step t t' \<Longrightarrow> table_inv t \<Longrightarrow> table_inv t'"
proof (induction rule: table_step.induct)
  case (step_pooled t answer io t' slot_id buf)
  then show ?case using emit_pooled_inv(1) by blast
next
  case (step_vec t answer addr t' slot_id buf fixed)
  then show ?case using emit_vec_inv by blast
qed (use dispatch_inv(1) Cleanup_inv(1) in blast)+

lemma table_run_inv: "table_run t t' \<Longrightarrow> table_inv t \<Longrightarrow> table_inv t'"
  by (induction rule: table_run.induct) (use table_step_inv in blast)+

text \<open>At most 65536 registered buffers: beyond, the indices of the free list repeat.\<close>

lemma slab_loop_Inr:
  assumes "length (st_fixed t) + length fresh \<le> 65536" and "st_fixed_free t = [0..<length (st_fixed t)]"
  shows "slab_loop (map Some fresh) t =
    Inr (t\<lparr>st_fixed := st_fixed t @ fresh, st_fixed_free := [0..<length (st_fixed t @ fresh)]\<rparr>)"
  using assms
proof (induction fresh arbitrary: t)
  case (Cons a fresh)
  have "length (st_fixed t) mod 65536 = length (st_fixed t)" using Cons.prems(1) by simp
  then show ?case
    using Cons.IH [of "t\<lparr>st_fixed := st_fixed t @ [a], st_fixed_free := st_fixed_free t @ [length (st_fixed t) mod 65536]\<rparr>"]
      Cons.prems by simp
qed simp

lemma slab_loop_Inl:
  assumes "slab_loop as t = Inl t1"
  shows "t1 = t\<lparr>st_freed := st_freed t1, st_fixed := [], st_fixed_free := []\<rparr>"
  using assms by (induction as t rule: slab_loop.induct) (auto dest: sym)

lemma slab_loop_all:
  assumes "slab_loop as t = Inr t1"
  shows "\<exists>fresh. as = map Some fresh"
  using assms
proof (induction as t arbitrary: t1 rule: slab_loop.induct)
  case (3 raw answers t)
  then obtain fresh where "answers = map Some fresh" by auto
  then show ?case by (intro exI [of _ "raw # fresh"]) simp
qed simp_all

lemma table_start_inv:
  assumes "pool_inv pool" and "bp_outstanding pool = Map.empty"
    and "sc_fixed_vec_buffer_count cfg \<le> 65536" and "sc_io_queue_depth cfg \<le> 65536"
    and "inj answer" and "\<And>i a. answer i = Some a \<Longrightarrow> a \<notin> set (map pe_buf (bp_pool pool))"
  shows "table_inv (table_start cfg uring answer registered pool vec_bytes)"
proof -
  define t0 where "t0 = (slot_table_new vec_bytes)\<lparr>st_pool := pool\<rparr>"
  have t0: "st_slots t0 = []" "st_free t0 = []" "st_fixed t0 = []" "st_fixed_free t0 = []" "st_owned t0 = []"
    "st_vec_free t0 = []" "st_pool t0 = pool" by (simp_all add: t0_def slot_table_new_def)
  have dist: "distinct (map pe_buf (bp_pool pool))" using assms(1) by (simp add: pool_inv_def)
  have ok: "table_inv t" if "st_slots t = []" "st_free t = []" "st_fixed_free t = [0..<length (st_fixed t)]"
    "st_owned t = []" "st_vec_free t = []" "st_pool t = pool"
    "distinct (st_fixed t @ map pe_buf (bp_pool pool))" for t
  proof -
    have "\<forall>b. count (mset (st_fixed t @ map pe_buf (bp_pool pool))) b \<le> 1"
      using that(7) by (metis count_mset distinct_count_atmost_1 le_refl zero_le_one)
    then show ?thesis using that assms(2)
      by (simp add: table_inv_def slots_listed_def busy_def all_bufs_def pooled_def held_def)
  qed
  have t0_ok: "table_inv t0" by (rule ok) (use t0 dist in simp_all)
  have none: "table_inv (t1\<lparr>st_freed := fr, st_fixed := [], st_fixed_free := []\<rparr>)"
    if "t1 = t0\<lparr>st_freed := g, st_fixed := x, st_fixed_free := y\<rparr>" for t1 fr g x y
    by (rule ok) (use t0 dist that in simp_all)
  show ?thesis
  proof (cases "\<not> uring \<or> sc_io_queue_depth cfg = 0")
    case True
    then show ?thesis using t0_ok by (simp add: table_start_def InitializeDataBufferSlab_def t0_def)
  next
    case False
    define count where "count = unat (if 0 < sc_fixed_vec_buffer_count cfg then sc_fixed_vec_buffer_count cfg
                          else sc_io_queue_depth cfg)"
    have count: "count \<le> 65536" using assms(3,4) by (simp add: count_def word_le_nat_alt)
    have start: "table_start cfg uring answer registered pool vec_bytes =
      (case slab_loop (map answer [0..<count]) t0 of
             Inl t1 \<Rightarrow> t1
           | Inr t1 \<Rightarrow>
               if \<not> registered
               then t1\<lparr>st_freed := st_freed t1 @ st_fixed t1, st_fixed := [], st_fixed_free := []\<rparr>
               else t1\<lparr>st_fixed_enabled := True\<rparr>)"
      using False by (simp add: table_start_def InitializeDataBufferSlab_def count_def t0_def Let_def)
    show ?thesis
    proof (cases "slab_loop (map answer [0..<count]) t0")
      case (Inl t1)
      have "table_inv t1" by (subst slab_loop_Inl [OF Inl]) (rule ok; use t0 dist in simp)
      then show ?thesis using start Inl by simp
    next
      case (Inr t1)
      then obtain fresh where fresh: "map answer [0..<count] = map Some fresh" using slab_loop_all by blast
      have len: "length fresh = count" using arg_cong [OF fresh, of length] by simp
      have "slab_loop (map Some fresh) t0 = Inr (t0\<lparr>st_fixed := fresh, st_fixed_free := [0..<length fresh]\<rparr>)"
        using slab_loop_Inr [of t0 fresh] count len t0 by simp
      then have t1: "t1 = t0\<lparr>st_fixed := fresh, st_fixed_free := [0..<length fresh]\<rparr>" using Inr fresh by simp
      have "distinct (map Some fresh)"
        unfolding fresh [symmetric] using assms(5) by (simp add: distinct_map inj_on_def inj_def)
      then have "distinct fresh" by (simp add: distinct_map)
      moreover have "a \<notin> set (map pe_buf (bp_pool pool))" if a: "a \<in> set fresh" for a
      proof -
        have "Some a \<in> set (map answer [0..<count])" unfolding fresh using a by simp
        then show ?thesis using assms(6) by (metis (mono_tags, lifting) image_iff list.set_map)
      qed
      ultimately have d: "distinct (fresh @ map pe_buf (bp_pool pool))" using dist by auto
      have "table_inv (t1\<lparr>st_fixed_enabled := True\<rparr>)" by (rule ok) (use t0 d t1 in simp_all)
      moreover have "table_inv (t1\<lparr>st_freed := fr, st_fixed := [], st_fixed_free := []\<rparr>)" for fr
        by (rule ok) (use t0 dist t1 in simp_all)
      ultimately show ?thesis using start Inr by simp
    qed
  qed
qed


section \<open>Properties\<close>

text \<open>What the invariant says of single slots.\<close>

lemma filter_mset_two:
  assumes "i < j" and "j < length xs" and "P (xs ! i)" and "P (xs ! j)"
  shows "\<exists>M. filter_mset P (mset xs) = add_mset (xs ! i) (add_mset (xs ! j) M)"
proof -
  have "mset xs = add_mset (xs ! i) (mset (take i xs @ drop (Suc i) xs))"
    using assms(1,2) id_take_nth_drop [of i xs] by (metis less_trans mset.simps(2) mset_append union_mset_add_mset_right)
  moreover have "xs ! j \<in> set (drop (Suc i) xs)"
    using assms(1,2) by (auto simp: in_set_conv_nth intro!: exI [of _ "j - Suc i"])
  then have "xs ! j \<in># mset (take i xs @ drop (Suc i) xs)" by simp
  ultimately obtain M where "mset xs = add_mset (xs ! i) (add_mset (xs ! j) M)" by (metis insert_DiffM)
  then show ?thesis using assms(3,4) by simp
qed

lemma held_bufs_distinct:
  assumes "table_inv t" and "busy t = add_mset s (add_mset s' M)"
  shows "slot_buf s \<noteq> slot_buf s'"
proof
  assume eq: "slot_buf s = slot_buf s'"
  define A where "A = mset (st_owned t) + mset (st_fixed t) + pooled t + held Pool slot_buf (busy t)"
  have one: "\<forall>b. count A b \<le> 1"
    and vec: "mset (st_vec_free t) + held VecPool slot_buf (busy t) = mset (st_owned t)"
    and idx: "mset (st_fixed_free t) + held FixedVec ps_fixed_index (busy t) = mset [0..<length (st_fixed t)]"
    and ok: "slot_ok t s" "slot_ok t s'"
    using assms by (simp_all add: table_inv_def all_bufs_def A_def)
  define c where "c x = count (held Pool slot_buf (busy t)) x + count (mset (st_owned t)) x + count (mset (st_fixed t)) x" for x
  have c: "c x \<le> 1" for x
    using one [rule_format, of x] by (simp add: A_def c_def)
  have cv: "count (held VecPool slot_buf (busy t)) x \<le> count (mset (st_owned t)) x" for x
    unfolding vec [symmetric] by simp
  have cf: "0 < count (mset (st_fixed t)) (slot_buf x)" if "slot_ok t x" "ps_cleanup x = FixedVec" for x
    using that by (auto simp: slot_ok_def)
  show False
  proof (cases "ps_cleanup s = FixedVec \<and> ps_cleanup s' = FixedVec")
    case True
    have "count (mset [0..<length (st_fixed t)]) (ps_fixed_index s) \<le> 1"
      by (simp add: count_mset_set')
    moreover have "count (held FixedVec ps_fixed_index (busy t)) (ps_fixed_index s)
        \<le> count (mset [0..<length (st_fixed t)]) (ps_fixed_index s)"
      unfolding idx [symmetric] by simp
    ultimately have "ps_fixed_index s \<noteq> ps_fixed_index s'" using True assms(2) by (auto simp: held_def)
    moreover have "ps_fixed_index s < length (st_fixed t)" "ps_fixed_index s' < length (st_fixed t)"
      "st_fixed t ! ps_fixed_index s = st_fixed t ! ps_fixed_index s'"
      using True ok eq by (simp_all add: slot_ok_def)
    moreover have "distinct (st_fixed t)"
    proof -
      have "count (mset (st_fixed t)) x \<le> 1" for x using c [of x] by (simp add: c_def)
      then show ?thesis unfolding distinct_count_atmost_1 by (metis One_nat_def count_eq_zero_iff le_Suc_eq le_zero_eq set_mset_mset)
    qed
    ultimately show False by (simp add: nth_eq_iff_index_eq)
  next
    case False
    define n1 where "n1 = count (held Pool slot_buf (busy t)) (slot_buf s)"
    define n2 where "n2 = count (mset (st_owned t)) (slot_buf s)"
    define n3 where "n3 = count (mset (st_fixed t)) (slot_buf s)"
    have "of_bool (ps_cleanup s = Pool) + of_bool (ps_cleanup s' = Pool) \<le> n1"
      using eq by (simp add: n1_def assms(2))
    moreover have "of_bool (ps_cleanup s = VecPool) + of_bool (ps_cleanup s' = VecPool) \<le> n2"
      unfolding n2_def by (rule le_trans [OF _ cv]) (use eq in \<open>simp add: assms(2)\<close>)
    moreover have "of_bool (ps_cleanup s = FixedVec \<or> ps_cleanup s' = FixedVec) \<le> n3"
    proof -
      have "0 < n3" if "ps_cleanup s = FixedVec \<or> ps_cleanup s' = FixedVec"
        using that cf [OF ok(1)] cf [OF ok(2)] eq unfolding n3_def by metis
      then show ?thesis by auto
    qed
    moreover have "ps_cleanup s \<in> {Pool, VecPool, FixedVec}" "ps_cleanup s' \<in> {Pool, VecPool, FixedVec}"
      using ok by (simp_all add: slot_ok_def)
    ultimately have "2 \<le> n1 + n2 + n3" using False by auto
    then show False using c [of "slot_buf s"] by (simp add: c_def n1_def n2_def n3_def)
  qed
qed

text \<open>C25: slots and buffers are never mixed up.  In every state the scheduler's own operations reach
  from its constructor (reads emitted with pooled, owned or registered buffers, completions
  dispatched under any token, clean-ups, with an allocator that never hands out a buffer still to be
  given back), the free list holds exactly the idle slots, once each; two pending reads never share
  a buffer; every owned vector buffer and every registered index is either free or held by exactly
  one pending read; and the destructor frees every buffer there is exactly once.\<close>

theorem pending_slots_ownership:
  assumes "table_run (table_start cfg uring answer registered pool vec_bytes) t"
    and "pool_inv pool" and "bp_outstanding pool = Map.empty"
    and "sc_fixed_vec_buffer_count cfg \<le> 65536" and "sc_io_queue_depth cfg \<le> 65536"
    and "inj answer" and "\<And>i a. answer i = Some a \<Longrightarrow> a \<notin> set (map pe_buf (bp_pool pool))"
  shows "distinct (st_free t) \<and> set (st_free t) = {i. i < length (st_slots t) \<and> \<not> ps_in_use (st_slots t ! i)}
    \<and> (\<forall>i j. i < j \<and> j < length (st_slots t) \<and> ps_in_use (st_slots t ! i) \<and> ps_in_use (st_slots t ! j) \<longrightarrow>
          ps_buffer (st_slots t ! i) \<noteq> ps_buffer (st_slots t ! j))
    \<and> mset (st_vec_free t) + held VecPool slot_buf (busy t) = mset (st_owned t)
    \<and> mset (st_fixed_free t) + held FixedVec ps_fixed_index (busy t) = mset [0..<length (st_fixed t)]
    \<and> (\<exists>freed. st_freed (destroy_table t) = st_freed t @ freed \<and> distinct freed \<and> mset freed = all_bufs t)"
proof -
  have inv: "table_inv t" by (rule table_run_inv [OF assms(1)]) (rule table_start_inv [OF assms(2-7)])
  have bufs: "ps_buffer (st_slots t ! i) \<noteq> ps_buffer (st_slots t ! j)"
    if *: "i < j" "j < length (st_slots t)" "ps_in_use (st_slots t ! i)" "ps_in_use (st_slots t ! j)" for i j
  proof -
    obtain M where "busy t = add_mset (st_slots t ! i) (add_mset (st_slots t ! j) M)"
      using filter_mset_two [of i j "st_slots t" ps_in_use] * unfolding busy_def by blast
    from held_bufs_distinct [OF inv this] show ?thesis by (auto simp: slot_buf_def)
  qed
  note c = Cleanup_inv [OF inv]
  define freed where "freed = st_fixed (CleanupPendingSlots t) @ st_owned (CleanupPendingSlots t)
    @ bp_freed (st_pool (CleanupPendingSlots t))"
  have "st_freed (destroy_table t) = st_freed t @ freed" using c(4) by (simp add: destroy_table_def freed_def Let_def)
  moreover have all: "mset freed = all_bufs t"
    unfolding c(3) [symmetric] by (simp add: all_bufs_def c(2) freed_def pooled_def bp_freed_def ac_simps)
  moreover have "distinct freed"
  proof -
    have "count (mset freed) b \<le> 1" for b unfolding all using inv by (simp add: table_inv_def)
    then show ?thesis unfolding distinct_count_atmost_1 by (metis One_nat_def count_eq_zero_iff le_Suc_eq le_zero_eq set_mset_mset)
  qed
  ultimately show ?thesis using inv bufs by (auto simp: table_inv_def slots_listed_def)
qed

theorem pending_slots_ownership_witness:
  "\<exists>t. table_run (table_start default_config False (\<lambda>i. Some (4096 * i)) True buffer_pool_new 16) t
    \<and> st_free t = [] \<and> length (st_slots t) = 1 \<and> st_owned t = [8192]
    \<and> mset (st_vec_free t) + held VecPool slot_buf (busy t) = mset (st_owned t)"
proof -
  let ?t = "table_start default_config False (\<lambda>i. Some (4096 * i)) True buffer_pool_new 16"
  have t: "?t = slot_table_new 16"
    by (simp add: table_start_def InitializeDataBufferSlab_def slot_table_new_def)
  obtain t' where e: "emit_vec_slot ?t \<lparr>ae_offset = 0, ae_size = 16\<rparr> (Some 8192) = Some (t', 0, 8192, None)"
    and t': "st_free t' = []" "length (st_slots t') = 1" "st_owned t' = [8192]"
    unfolding t by (simp add: emit_vec_slot_def TryAcquireFixedVecBuffer_def slot_table_new_def AcquireVecOnlyBuffer_def
        AllocateVectorOnlyPendingSlot_def take_slot_def Let_def)
  have "table_step ?t t'"
    unfolding t by (rule step_vec [OF _ _ e [unfolded t]]) (simp_all add: slot_table_new_def all_bufs_def pooled_def buffer_pool_new_def busy_def held_def)
  then have run: "table_run ?t t'" by (rule run_step [OF run_start])
  note own = pending_slots_ownership [OF run]
  have "mset (st_vec_free t') + held VecPool slot_buf (busy t') = mset (st_owned t')"
    using own by (simp add: pool_inv_def buffer_pool_new_def default_config_def inj_def)
  with run t' show ?thesis by blast
qed

text \<open>Past 65536 registered buffers the free list names index 0 twice.\<close>

lemma slab_index_wraps:
  "length (st_fixed t) = 65536 \<Longrightarrow> slab_loop [Some raw] t =
     Inr (t\<lparr>st_fixed := st_fixed t @ [raw], st_fixed_free := st_fixed_free t @ [0]\<rparr>)"
  by simp

end
