(* ===== verification/Read_Plans.thy ===== *)
theory Read_Plans
  imports Est_Frontier Pending_Slots Dedup_Set
begin

text \<open>
  The read plans of the overlap scheduler (src/query/overlap_scheduler.cpp): how the candidates a
  prober hands to \<open>AsyncIOSink\<close> become queued reads (deduplicated, split into whole records and
  vectors only, deferred while the SafeIn threshold is not ready, or ranked within a budget), and
  how \<open>EmitPendingDataRequests\<close> turns queued plans into read requests with slots and buffers.
  \<open>std::sort\<close> is an argument \<open>srt\<close>, of which \<open>sorts_by\<close> states what the standard promises.
\<close>

section \<open>Candidates and plans\<close>

datatype candidate_class = SafeIn | Uncertain

record candidate =
  cd_global_idx :: nat
  cd_est_dist :: f32
  cd_est_error :: f32
  cd_lower_bound :: f32
  cd_safein_upper :: f32
  cd_cls :: candidate_class
  cd_addr :: address_entry

record read_plan =
  rp_type :: pending_type
  rp_addr :: address_entry
  rp_read_length :: u32
  rp_has_truth :: bool
  rp_is_true_topk :: bool

record deferred_plan =
  dp_addr :: address_entry
  dp_rank_key :: f32
  dp_safein_upper :: f32
  dp_has_truth :: bool
  dp_is_true_topk :: bool

record budgeted_plan =
  bg_rank_key :: f32
  bg_plan :: read_plan

definition budget_less :: "budgeted_plan \<Rightarrow> budgeted_plan \<Rightarrow> bool" where
  "budget_less a b = f32_lt (bg_rank_key a) (bg_rank_key b)"

record plan_queues =
  pq_all :: "read_plan list"
  pq_vec :: "address_entry list"
  pq_vec_head :: nat
  pq_deferred :: "deferred_plan list"
  pq_heap :: "budgeted_plan list"
  pq_emitted :: "u64 list"
  pq_early_count :: u32

text \<open>The plan part of the reset at the start of \<open>Search\<close>.\<close>

definition queues_new :: plan_queues where
  "queues_new = \<lparr>pq_all = [], pq_vec = [], pq_vec_head = 0, pq_deferred = [], pq_heap = [],
     pq_emitted = [], pq_early_count = 0\<rparr>"

section \<open>The candidate budget\<close>

definition AddBudgetedReadPlan ::
    "search_config \<Rightarrow> read_plan \<Rightarrow> f32 \<Rightarrow> plan_queues \<Rightarrow> search_stats \<Rightarrow> plan_queues \<times> search_stats" where
  "AddBudgetedReadPlan cfg plan rank0 q st =
     (if \<not> UseNonSafeOutCandidateBudget cfg then (q, st)
      else
        let rank_key = (if f32_is_finite rank0 then rank0 else f32_inf);
            st1 = bump candidate_budget_seen st;
            entry = \<lparr>bg_rank_key = rank_key, bg_plan = plan\<rparr>
        in if length (pq_heap q) < unat (sc_candidate_budget cfg)
           then (q\<lparr>pq_heap := heap_push budget_less (pq_heap q) entry\<rparr>, st1)
           else if pq_heap q \<noteq> [] \<and> f32_lt rank_key (bg_rank_key (pq_heap q ! 0))
           then (q\<lparr>pq_heap := heap_push budget_less (heap_pop budget_less (pq_heap q)) entry\<rparr>, st1)
           else (q, st1))"

definition BudgetedPlanAlreadyEmitted :: "plan_queues \<Rightarrow> u64 \<Rightarrow> bool" where
  "BudgetedPlanAlreadyEmitted q offset \<longleftrightarrow> offset \<in> set (pq_emitted q)"

definition MarkBudgetedPlanEmitted :: "u64 \<Rightarrow> plan_queues \<Rightarrow> plan_queues" where
  "MarkBudgetedPlanEmitted offset q =
     (if BudgetedPlanAlreadyEmitted q offset then q else q\<lparr>pq_emitted := pq_emitted q @ [offset]\<rparr>)"

text \<open>The two ways of queueing a plan, which both budget loops have.\<close>

definition queue_plan :: "read_plan \<Rightarrow> plan_queues \<Rightarrow> search_stats \<Rightarrow> plan_queues \<times> search_stats" where
  "queue_plan plan q st =
     (if rp_type plan = VEC_ALL
      then (q\<lparr>pq_all := pq_all q @ [plan]\<rparr>,
            RecordSafeInPrefetchDecision (rp_has_truth plan) (rp_is_true_topk plan) st)
      else (q\<lparr>pq_vec := pq_vec q @ [rp_addr plan]\<rparr>, st))"

fun materialize_loop :: "budgeted_plan list \<Rightarrow> plan_queues \<Rightarrow> search_stats \<Rightarrow> plan_queues \<times> search_stats" where
  "materialize_loop [] q st = (q, st)"
| "materialize_loop (e # es) q st =
     (if BudgetedPlanAlreadyEmitted q (ae_offset (rp_addr (bg_plan e))) then materialize_loop es q st
      else let (q1, st1) = queue_plan (bg_plan e) q st
           in materialize_loop es q1 (bump unique_fetch_candidates (bump total_submit_window_requests st1)))"

definition MaterializeBudgetedReadPlans ::
    "search_config \<Rightarrow> plan_queues \<Rightarrow> search_stats \<Rightarrow> plan_queues \<times> search_stats" where
  "MaterializeBudgetedReadPlans cfg q st =
     (if \<not> UseNonSafeOutCandidateBudget cfg \<or> pq_heap q = [] then (q, st)
      else
        let heap = sort_heap budget_less (pq_heap q);
            selected = of_nat (length heap);
            seen = ss_count st candidate_budget_seen;
            st1 = set_count candidate_budget_dropped (if selected < seen then seen - selected else 0)
                    (set_count candidate_budget_selected selected st);
            (q1, st2) = materialize_loop heap q st1
        in (q1\<lparr>pq_heap := []\<rparr>, st2))"

text \<open>\<open>left\<close>: how many plans may still be emitted by this call.\<close>

fun emit_top_loop ::
    "nat \<Rightarrow> budgeted_plan list \<Rightarrow> plan_queues \<Rightarrow> search_stats \<Rightarrow> plan_queues \<times> search_stats" where
  "emit_top_loop left [] q st = (q, st)"
| "emit_top_loop left (e # es) q st =
     (if left = 0 then (q, st)
      else if BudgetedPlanAlreadyEmitted q (ae_offset (rp_addr (bg_plan e))) then emit_top_loop left es q st
      else
        let (q1, st1) = queue_plan (bg_plan e) q st;
            q2 = MarkBudgetedPlanEmitted (ae_offset (rp_addr (bg_plan e))) q1;
            st2 = bump budgeted_early_submitted_candidates
                    (bump unique_fetch_candidates (bump total_submit_window_requests st1))
        in emit_top_loop (left - 1) es (q2\<lparr>pq_early_count := pq_early_count q2 + 1\<rparr>) st2)"

definition EmitTopBudgetedReadPlans ::
    "(budgeted_plan list \<Rightarrow> budgeted_plan list) \<Rightarrow> search_config \<Rightarrow> u32 \<Rightarrow> plan_queues \<Rightarrow> search_stats
      \<Rightarrow> plan_queues \<times> search_stats" where
  "EmitTopBudgetedReadPlans srt cfg max_count0 q st =
     (if \<not> sc_enable_early_submit cfg \<or> \<not> UseNonSafeOutCandidateBudget cfg \<or> pq_heap q = []
         \<or> max_count0 = 0 \<or> sc_early_submit_max cfg \<le> pq_early_count q then (q, st)
      else
        let max_count = min max_count0 (sc_early_submit_max cfg - pq_early_count q)
        in if max_count = 0 then (q, st)
           else emit_top_loop (unat max_count)
             (srt (filter (\<lambda>e. \<not> BudgetedPlanAlreadyEmitted q (ae_offset (rp_addr (bg_plan e)))) (pq_heap q))) q st)"

section \<open>Deferred plans\<close>

definition deferred_read :: "u32 \<Rightarrow> bool \<Rightarrow> deferred_plan \<Rightarrow> read_plan" where
  "deferred_read vec_bytes use_vec_all p =
     \<lparr>rp_type = (if use_vec_all then VEC_ALL else VEC_ONLY), rp_addr = dp_addr p,
      rp_read_length = (if use_vec_all then ae_size (dp_addr p) else vec_bytes),
      rp_has_truth = dp_has_truth p, rp_is_true_topk = dp_is_true_topk p\<rparr>"

definition flush_one ::
    "search_config \<Rightarrow> u32 \<Rightarrow> f32 \<Rightarrow> deferred_plan \<Rightarrow> plan_queues \<Rightarrow> search_stats \<Rightarrow> plan_queues \<times> search_stats" where
  "flush_one cfg vec_bytes threshold p q st =
     (let use_vec_all = (f32_is_finite threshold \<and> ae_size (dp_addr p) \<le> sc_safein_all_threshold cfg
             \<and> f32_lt (dp_safein_upper p) threshold);
          read = deferred_read vec_bytes use_vec_all p
      in if use_vec_all then
           let st1 = bump dynamic_safein_deferred_safein st
           in if UseNonSafeOutCandidateBudget cfg then AddBudgetedReadPlan cfg read (dp_rank_key p) q st1
              else (q\<lparr>pq_all := pq_all q @ [read]\<rparr>,
                    RecordSafeInPrefetchDecision (dp_has_truth p) (dp_is_true_topk p)
                      (bump total_submit_window_requests st1))
         else if UseNonSafeOutCandidateBudget cfg then AddBudgetedReadPlan cfg read (dp_rank_key p) q st
         else (q\<lparr>pq_vec := pq_vec q @ [dp_addr p]\<rparr>, bump total_submit_window_requests st))"

fun flush_loop ::
    "search_config \<Rightarrow> u32 \<Rightarrow> f32 \<Rightarrow> deferred_plan list \<Rightarrow> plan_queues \<Rightarrow> search_stats \<Rightarrow> plan_queues \<times> search_stats" where
  "flush_loop cfg vb threshold [] q st = (q, st)"
| "flush_loop cfg vb threshold (p # ps) q st =
     (let (q1, st1) = flush_one cfg vb threshold p q st in flush_loop cfg vb threshold ps q1 st1)"

definition FlushDeferredSafeInPlans ::
    "search_config \<Rightarrow> u32 \<Rightarrow> f32 \<Rightarrow> bool \<Rightarrow> plan_queues \<Rightarrow> search_stats \<Rightarrow> plan_queues \<times> search_stats" where
  "FlushDeferredSafeInPlans cfg vec_bytes threshold force q st =
     (if pq_deferred q = [] then (q, st)
      else if \<not> force \<and> \<not> f32_is_finite threshold then (q, st)
      else
        let (q1, st1) = flush_loop cfg vec_bytes threshold (pq_deferred q) q st
        in (q1\<lparr>pq_deferred := []\<rparr>, bump dynamic_safein_deferred_flushes st1))"

section \<open>The candidate sink\<close>

text \<open>The benchmark truth of a candidate: whether it is known, and whether it is a true result.\<close>

definition CandidateTruth :: "search_config \<Rightarrow> nat \<Rightarrow> nat \<Rightarrow> bool \<times> bool" where
  "CandidateTruth cfg cluster_id local_idx =
     (case (sc_members cfg, sc_truth cfg) of
        (Some members, Some truth) \<Rightarrow>
          (if length members \<le> cluster_id then (False, False)
           else if length (members ! cluster_id) \<le> local_idx then (False, False)
           else (True, truth (members ! cluster_id ! local_idx)))
      | _ \<Rightarrow> (False, False))"

text \<open>The scratch of one batch and the sink's buffered estimates.\<close>

record sink_scan =
  sk_dedup :: dedup_set
  sk_unique :: "nat list"
  sk_all :: "nat list"
  sk_vec :: "nat list"
  sk_estimates :: "estimate list"

definition scan_duplicate :: "search_stats \<Rightarrow> search_stats" where
  "scan_duplicate st = bump deduplicated_candidates (bump duplicate_candidates st)"

definition estimate_of :: "candidate \<Rightarrow> estimate" where
  "estimate_of c = \<lparr>ee_distance = cd_est_dist c, ee_error_bound = cd_est_error c,
     ee_lower_bound = cd_lower_bound c\<rparr>"

text \<open>A candidate that is new: it gets the next unique position and a list.\<close>

definition scan_new ::
    "search_config \<Rightarrow> bool \<Rightarrow> nat \<Rightarrow> candidate \<Rightarrow> sink_scan \<Rightarrow> search_stats \<Rightarrow> sink_scan \<times> search_stats" where
  "scan_new cfg use_frontier i c s st =
     (let idx = length (sk_unique s);
          st1 = (if UseNonSafeOutCandidateBudget cfg then st else bump unique_fetch_candidates st);
          st2 = (if use_frontier then bump safeout_frontier_estimates_buffered st1 else st1);
          s1 = s\<lparr>sk_unique := sk_unique s @ [i],
                 sk_estimates := (if use_frontier then sk_estimates s @ [estimate_of c] else sk_estimates s)\<rparr>;
          use_vec_all = (cd_cls c = SafeIn \<and> ae_size (cd_addr c) \<le> sc_safein_all_threshold cfg)
      in (if use_vec_all then s1\<lparr>sk_all := sk_all s1 @ [idx]\<rparr> else s1\<lparr>sk_vec := sk_vec s1 @ [idx]\<rparr>, st2))"

text \<open>\<open>None\<close>: an \<open>Insert\<close> into the full deduplication set, which does not return.\<close>

fun scan_loop ::
    "search_config \<Rightarrow> bool \<Rightarrow> bool \<Rightarrow> candidate list \<Rightarrow> nat list \<Rightarrow> sink_scan \<Rightarrow> search_stats
      \<Rightarrow> (sink_scan \<times> search_stats) option" where
  "scan_loop cfg use_frontier skip_dedup batch [] s st = Some (s, st)"
| "scan_loop cfg use_frontier skip_dedup batch (i # rest) s st =
     (let c = batch ! i
      in if \<exists>u \<in> set (sk_unique s). ae_offset (cd_addr (batch ! u)) = ae_offset (cd_addr c)
         then scan_loop cfg use_frontier skip_dedup batch rest s (scan_duplicate st)
         else if skip_dedup then
           (let (s1, st1) = scan_new cfg use_frontier i c s st
            in scan_loop cfg use_frontier skip_dedup batch rest s1 st1)
         else (case ds_Insert (sk_dedup s) (ae_offset (cd_addr c)) of
             None \<Rightarrow> None
           | Some (d, fresh) \<Rightarrow>
               if \<not> fresh
               then scan_loop cfg use_frontier skip_dedup batch rest (s\<lparr>sk_dedup := d\<rparr>) (scan_duplicate st)
               else (let (s1, st1) = scan_new cfg use_frontier i c (s\<lparr>sk_dedup := d\<rparr>) st
                     in scan_loop cfg use_frontier skip_dedup batch rest s1 st1)))"

definition deferred_of :: "search_config \<Rightarrow> nat \<Rightarrow> candidate \<Rightarrow> deferred_plan" where
  "deferred_of cfg cluster_id c =
     (let (has_truth, is_true) = CandidateTruth cfg cluster_id (cd_global_idx c)
      in \<lparr>dp_addr = cd_addr c, dp_rank_key = cd_est_dist c, dp_safein_upper = cd_safein_upper c,
          dp_has_truth = has_truth, dp_is_true_topk = is_true\<rparr>)"

fun BuildDeferredPlans ::
    "search_config \<Rightarrow> nat \<Rightarrow> candidate list \<Rightarrow> nat list \<Rightarrow> plan_queues \<Rightarrow> search_stats \<Rightarrow> plan_queues \<times> search_stats" where
  "BuildDeferredPlans cfg cluster_id batch [] q st = (q, st)"
| "BuildDeferredPlans cfg cluster_id batch (i # rest) q st =
     BuildDeferredPlans cfg cluster_id batch rest
       (q\<lparr>pq_deferred := pq_deferred q @ [deferred_of cfg cluster_id (batch ! i)]\<rparr>)
       (bump dynamic_safein_deferred_candidates st)"

definition build_all ::
    "search_config \<Rightarrow> nat \<Rightarrow> candidate \<Rightarrow> plan_queues \<Rightarrow> search_stats \<Rightarrow> plan_queues \<times> search_stats" where
  "build_all cfg cluster_id c q st =
     (let (has_truth, is_true) = CandidateTruth cfg cluster_id (cd_global_idx c);
          plan = \<lparr>rp_type = VEC_ALL, rp_addr = cd_addr c, rp_read_length = ae_size (cd_addr c),
                  rp_has_truth = has_truth, rp_is_true_topk = is_true\<rparr>
      in if UseNonSafeOutCandidateBudget cfg then AddBudgetedReadPlan cfg plan (cd_est_dist c) q st
         else (q\<lparr>pq_all := pq_all q @ [plan]\<rparr>,
               RecordSafeInPrefetchDecision has_truth is_true (bump total_submit_window_requests st)))"

definition build_vec ::
    "search_config \<Rightarrow> u32 \<Rightarrow> nat \<Rightarrow> candidate \<Rightarrow> plan_queues \<Rightarrow> search_stats \<Rightarrow> plan_queues \<times> search_stats" where
  "build_vec cfg vec_bytes cluster_id c q st =
     (if UseNonSafeOutCandidateBudget cfg then
        let (has_truth, is_true) = CandidateTruth cfg cluster_id (cd_global_idx c)
        in AddBudgetedReadPlan cfg \<lparr>rp_type = VEC_ONLY, rp_addr = cd_addr c, rp_read_length = vec_bytes,
             rp_has_truth = has_truth, rp_is_true_topk = is_true\<rparr> (cd_est_dist c) q st
      else (q\<lparr>pq_vec := pq_vec q @ [cd_addr c]\<rparr>, bump total_submit_window_requests st))"

fun build_loop ::
    "(candidate \<Rightarrow> plan_queues \<Rightarrow> search_stats \<Rightarrow> plan_queues \<times> search_stats) \<Rightarrow> candidate list \<Rightarrow> nat list
      \<Rightarrow> nat list \<Rightarrow> plan_queues \<Rightarrow> search_stats \<Rightarrow> plan_queues \<times> search_stats" where
  "build_loop build batch unique [] q st = (q, st)"
| "build_loop build batch unique (pos # rest) q st =
     (let (q1, st1) = build (batch ! (unique ! pos)) q st in build_loop build batch unique rest q1 st1)"

definition BuildReadPlans ::
    "search_config \<Rightarrow> u32 \<Rightarrow> nat \<Rightarrow> candidate list \<Rightarrow> sink_scan \<Rightarrow> plan_queues \<Rightarrow> search_stats
      \<Rightarrow> plan_queues \<times> search_stats" where
  "BuildReadPlans cfg vec_bytes cluster_id batch s q st =
     (let (q1, st1) = build_loop (build_all cfg cluster_id) batch (sk_unique s) (sk_all s) q st
      in build_loop (build_vec cfg vec_bytes cluster_id) batch (sk_unique s) (sk_vec s) q1 st1)"

text \<open>What the sink changes: the deduplication set, the estimates of the current cluster, whether they
  wait to be merged, and the plan queues.\<close>

record sink_state =
  sn_dedup :: dedup_set
  sn_estimates :: "estimate list"
  sn_pending :: bool
  sn_queues :: plan_queues

definition OnCandidates ::
    "search_config \<Rightarrow> u32 \<Rightarrow> bool \<Rightarrow> nat \<Rightarrow> frontier \<Rightarrow> candidate list \<Rightarrow> sink_state \<Rightarrow> search_stats
      \<Rightarrow> (sink_state \<times> search_stats) option" where
  "OnCandidates cfg vec_bytes skip_dedup cluster_id f batch sn st =
     (if batch = [] then Some (sn, st)
      else
        let st1 = bump total_candidate_batches st;
            s0 = \<lparr>sk_dedup = sn_dedup sn, sk_unique = [], sk_all = [], sk_vec = [],
                  sk_estimates = sn_estimates sn\<rparr>
        in case scan_loop cfg (ef_use_frontier f) skip_dedup batch [0..<length batch] s0 st1 of
             None \<Rightarrow> None
           | Some (s, st2) \<Rightarrow>
               (let (q, st3) = (if ShouldDeferSafeInPlans cfg f (length (pq_deferred (sn_queues sn)))
                     then BuildDeferredPlans cfg cluster_id batch (sk_unique s) (sn_queues sn) st2
                     else BuildReadPlans cfg vec_bytes cluster_id batch s (sn_queues sn) st2)
                in Some (\<lparr>sn_dedup = sk_dedup s, sn_estimates = sk_estimates s,
                          sn_pending = (sn_pending sn \<or> sk_estimates s \<noteq> []), sn_queues = q\<rparr>, st3)))"

definition FinalizeCluster ::
    "sink_state \<Rightarrow> frontier \<Rightarrow> search_stats \<Rightarrow> sink_state \<times> frontier \<times> search_stats" where
  "FinalizeCluster sn f st =
     (if \<not> sn_pending sn then (sn, f, st)
      else
        let (f1, st1) = (if ef_use_frontier f
               then merge_estimates (sn_estimates sn) f
                 (add_count safeout_frontier_estimates_merged (of_nat (length (sn_estimates sn))) st)
               else (f, st))
        in (sn\<lparr>sn_pending := False, sn_estimates := []\<rparr>, f1, st1))"


section \<open>Every candidate gets one plan\<close>

text \<open>The candidates whose offset is not in \<open>K\<close> and did not occur before.\<close>

definition cd_off :: "candidate \<Rightarrow> u64" where
  "cd_off c = ae_offset (cd_addr c)"

fun news :: "u64 set \<Rightarrow> candidate list \<Rightarrow> candidate list" where
  "news K [] = []"
| "news K (c # cs) = (if cd_off c \<in> K then news K cs else c # news (insert (cd_off c) K) cs)"

definition whole_record :: "search_config \<Rightarrow> candidate \<Rightarrow> bool" where
  "whole_record cfg c \<longleftrightarrow> cd_cls c = SafeIn \<and> ae_size (cd_addr c) \<le> sc_safein_all_threshold cfg"

lemma news_append: "news K (xs @ ys) = news K xs @ news (K \<union> cd_off ` set xs) ys"
  by (induction xs arbitrary: K) (auto simp: insert_absorb)

lemma ds_room:
  assumes "ds_inv d" and "card (insert k (ds_keys d)) \<le> length (ds_slots d)"
  shows "k \<in> ds_keys d \<or> kEmpty \<in> set (ds_slots d)"
proof (rule ccontr)
  assume no: "\<not> ?thesis"
  then have "distinct (ds_slots d)"
    using assms(1) unfolding ds_inv_def distinct_conv_nth by (metis nth_mem)
  then have "card (set (ds_slots d)) = length (ds_slots d)" by (rule distinct_card)
  moreover have "ds_keys d = set (ds_slots d)" "finite (ds_keys d)" using no by (simp_all add: ds_keys_def)
  ultimately show False using no assms(2) by simp
qed

text \<open>The two lists of a scan split the unique positions.\<close>

definition scan_lists :: "search_config \<Rightarrow> candidate list \<Rightarrow> sink_scan \<Rightarrow> bool" where
  "scan_lists cfg batch s \<longleftrightarrow>
     sk_all s = filter (\<lambda>p. whole_record cfg (batch ! (sk_unique s ! p))) [0..<length (sk_unique s)]
     \<and> sk_vec s = filter (\<lambda>p. \<not> whole_record cfg (batch ! (sk_unique s ! p))) [0..<length (sk_unique s)]"

definition scan_ok :: "search_config \<Rightarrow> candidate list \<Rightarrow> sink_scan \<Rightarrow> bool" where
  "scan_ok cfg batch s \<longleftrightarrow> ds_inv (sk_dedup s)
     \<and> (\<forall>u \<in> set (sk_unique s). cd_off (batch ! u) \<in> ds_keys (sk_dedup s)) \<and> scan_lists cfg batch s"

lemma filter_upt_snoc:
  "filter (\<lambda>p. P ((us @ [u]) ! p)) [0..<length (us @ [u])] =
     filter (\<lambda>p. P (us ! p)) [0..<length us] @ (if P u then [length us] else [])"
proof -
  have "filter (\<lambda>p. P ((us @ [u]) ! p)) [0..<length us] = filter (\<lambda>p. P (us ! p)) [0..<length us]"
    by (rule filter_cong) (simp_all add: nth_append)
  then show ?thesis by simp
qed

lemma scan_new_lists:
  assumes "scan_lists cfg batch s" and "scan_new cfg use_frontier i (batch ! i) s st = (s', st')"
  shows "scan_lists cfg batch s'" and "sk_unique s' = sk_unique s @ [i]" and "sk_dedup s' = sk_dedup s"
proof -
  have s': "sk_unique s' = sk_unique s @ [i] \<and> sk_dedup s' = sk_dedup s
    \<and> sk_all s' = sk_all s @ (if whole_record cfg (batch ! i) then [length (sk_unique s)] else [])
    \<and> sk_vec s' = sk_vec s @ (if \<not> whole_record cfg (batch ! i) then [length (sk_unique s)] else [])"
    using assms(2) by (auto simp: scan_new_def whole_record_def Let_def split: if_splits)
  then show "sk_unique s' = sk_unique s @ [i]" "sk_dedup s' = sk_dedup s" by blast+
  show "scan_lists cfg batch s'"
    using assms(1) s' filter_upt_snoc [of "\<lambda>u. whole_record cfg (batch ! u)" "sk_unique s" i]
      filter_upt_snoc [of "\<lambda>u. \<not> whole_record cfg (batch ! u)" "sk_unique s" i]
    unfolding scan_lists_def by auto
qed

lemma scan_new_ok:
  assumes "scan_ok cfg batch s" and "ds_inv d" and "ds_keys d = insert (cd_off (batch ! i)) (ds_keys (sk_dedup s))"
    and "scan_new cfg use_frontier i (batch ! i) (s\<lparr>sk_dedup := d\<rparr>) st = (s', st')"
  shows "scan_ok cfg batch s'" and "sk_unique s' = sk_unique s @ [i]" and "sk_dedup s' = d"
proof -
  have l: "scan_lists cfg batch (s\<lparr>sk_dedup := d\<rparr>)" using assms(1) by (simp add: scan_ok_def scan_lists_def)
  note n = scan_new_lists [OF l assms(4)]
  show "sk_unique s' = sk_unique s @ [i]" "sk_dedup s' = d" using n by simp_all
  show "scan_ok cfg batch s'" using assms(1-3) n by (auto simp: scan_ok_def)
qed

lemma scan_loop_spec:
  assumes "scan_ok cfg batch s" and "\<forall>i \<in> set rest. cd_off (batch ! i) \<noteq> kEmpty"
    and "card (ds_keys (sk_dedup s) \<union> (\<lambda>i. cd_off (batch ! i)) ` set rest) \<le> length (ds_slots (sk_dedup s))"
  shows "\<exists>s' st'. scan_loop cfg use_frontier False batch rest s st = Some (s', st') \<and> scan_ok cfg batch s'
    \<and> map ((!) batch) (sk_unique s') = map ((!) batch) (sk_unique s) @ news (ds_keys (sk_dedup s)) (map ((!) batch) rest)
    \<and> ds_keys (sk_dedup s') = ds_keys (sk_dedup s) \<union> (\<lambda>i. cd_off (batch ! i)) ` set rest
    \<and> length (ds_slots (sk_dedup s')) = length (ds_slots (sk_dedup s))"
  using assms
proof (induction rest arbitrary: s st)
  case Nil
  then show ?case by simp
next
  case (Cons i rest)
  let ?d = "sk_dedup s" and ?k = "cd_off (batch ! i)"
  have inv: "ds_inv ?d" using Cons.prems(1) by (simp add: scan_ok_def)
  show ?case
  proof (cases "\<exists>u \<in> set (sk_unique s). ae_offset (cd_addr (batch ! u)) = ae_offset (cd_addr (batch ! i))")
    case True
    then have k: "?k \<in> ds_keys ?d" using Cons.prems(1) unfolding scan_ok_def cd_off_def by metis
    have step: "scan_loop cfg use_frontier False batch (i # rest) s st =
        scan_loop cfg use_frontier False batch rest s (scan_duplicate st)"
      using True by (simp add: Let_def)
    show ?thesis unfolding step using Cons.IH [of s "scan_duplicate st"] Cons.prems k by (simp add: insert_absorb)
  next
    case False
    have fin: "finite (ds_keys ?d)" by (simp add: ds_keys_def)
    have kne: "?k \<noteq> kEmpty" using Cons.prems(2) by simp
    have room1: "card (insert ?k (ds_keys ?d)) \<le> length (ds_slots ?d)"
      by (rule le_trans [OF card_mono Cons.prems(3)]) (use fin in auto)
    obtain d where d: "ds_Insert ?d ?k = Some (d, ?k \<notin> ds_keys ?d)" "ds_inv d"
        "ds_keys d = insert ?k (ds_keys ?d)" "length (ds_slots d) = length (ds_slots ?d)"
      using Insert_spec [OF inv kne ds_room [OF inv room1]] by blast
    have room: "card (ds_keys d \<union> (\<lambda>i. cd_off (batch ! i)) ` set rest) \<le> length (ds_slots d)"
      using Cons.prems(3) d(3,4) by simp
    show ?thesis
    proof (cases "?k \<in> ds_keys ?d")
      case True
      then have kd: "ds_keys d = ds_keys ?d" using d(3) by auto
      have step: "scan_loop cfg use_frontier False batch (i # rest) s st =
          scan_loop cfg use_frontier False batch rest (s\<lparr>sk_dedup := d\<rparr>) (scan_duplicate st)"
        using False d(1) True by (simp add: Let_def cd_off_def)
      have "scan_ok cfg batch (s\<lparr>sk_dedup := d\<rparr>)" using Cons.prems(1) d(2) kd by (simp add: scan_ok_def scan_lists_def)
      from Cons.IH [OF this] show ?thesis unfolding step using Cons.prems(2) room d(4) True kd by (simp add: insert_absorb)
    next
      case new: False
      obtain s1 st1 where s1: "scan_new cfg use_frontier i (batch ! i) (s\<lparr>sk_dedup := d\<rparr>) st = (s1, st1)"
        by fastforce
      note n = scan_new_ok [OF Cons.prems(1) d(2,3) s1]
      have step: "scan_loop cfg use_frontier False batch (i # rest) s st =
          scan_loop cfg use_frontier False batch rest s1 st1"
        using False d(1) new s1 by (simp add: Let_def cd_off_def)
      from Cons.IH [OF n(1)] show ?thesis unfolding step using Cons.prems(2) room d(3,4) new n by simp
    qed
  qed
qed

text \<open>A sink that skips the set drops only what is twice in one batch.\<close>

lemma scan_loop_skip:
  assumes "scan_lists cfg batch s"
  shows "\<exists>s' st'. scan_loop cfg use_frontier True batch rest s st = Some (s', st') \<and> scan_lists cfg batch s'
    \<and> sk_dedup s' = sk_dedup s
    \<and> map ((!) batch) (sk_unique s') = map ((!) batch) (sk_unique s)
        @ news ((\<lambda>u. cd_off (batch ! u)) ` set (sk_unique s)) (map ((!) batch) rest)"
  using assms
proof (induction rest arbitrary: s st)
  case Nil
  then show ?case by simp
next
  case (Cons i rest)
  let ?K = "(\<lambda>u. cd_off (batch ! u)) ` set (sk_unique s)"
  have seen: "(\<exists>u \<in> set (sk_unique s). ae_offset (cd_addr (batch ! u)) = ae_offset (cd_addr (batch ! i)))
      \<longleftrightarrow> cd_off (batch ! i) \<in> ?K" by (auto simp: cd_off_def image_iff) metis
  show ?case
  proof (cases "cd_off (batch ! i) \<in> ?K")
    case True
    have step: "scan_loop cfg use_frontier True batch (i # rest) s st =
        scan_loop cfg use_frontier True batch rest s (scan_duplicate st)"
      unfolding scan_loop.simps Let_def seen using True by (simp only: if_True)
    show ?thesis unfolding step using Cons.IH [OF Cons.prems] True by simp
  next
    case False
    obtain s1 st1 where s1: "scan_new cfg use_frontier i (batch ! i) s st = (s1, st1)" by fastforce
    note n = scan_new_lists [OF Cons.prems s1]
    have step: "scan_loop cfg use_frontier True batch (i # rest) s st =
        scan_loop cfg use_frontier True batch rest s1 st1"
      unfolding scan_loop.simps Let_def seen using False s1 by simp
    show ?thesis unfolding step using Cons.IH [OF n(1), of st1] n False by simp
  qed
qed

section \<open>The plans queued\<close>

definition planned :: "plan_queues \<Rightarrow> address_entry list" where
  "planned q = map rp_addr (pq_all q) @ drop (pq_vec_head q) (pq_vec q) @ map dp_addr (pq_deferred q)"

definition queues_ok :: "search_config \<Rightarrow> plan_queues \<Rightarrow> bool" where
  "queues_ok cfg q \<longleftrightarrow> pq_vec_head q \<le> length (pq_vec q)
     \<and> (\<forall>p \<in> set (pq_all q). rp_type p = VEC_ALL \<and> rp_read_length p = ae_size (rp_addr p)
          \<and> ae_size (rp_addr p) \<le> sc_safein_all_threshold cfg)"

lemma no_budget: "sc_candidate_budget cfg = 0 \<Longrightarrow> \<not> UseNonSafeOutCandidateBudget cfg"
  by (simp add: UseNonSafeOutCandidateBudget_def)

lemma build_all_loop:
  assumes "sc_candidate_budget cfg = 0" and "\<forall>p \<in> set ps. whole_record cfg (batch ! (us ! p))"
  shows "\<exists>st' plans. build_loop (build_all cfg cid) batch us ps q st = (q\<lparr>pq_all := pq_all q @ plans\<rparr>, st')
    \<and> map rp_addr plans = map (\<lambda>p. cd_addr (batch ! (us ! p))) ps
    \<and> (\<forall>p \<in> set plans. rp_type p = VEC_ALL \<and> rp_read_length p = ae_size (rp_addr p)
          \<and> ae_size (rp_addr p) \<le> sc_safein_all_threshold cfg)"
  using assms(2)
proof (induction ps arbitrary: q st)
  case Nil
  show ?case by (intro exI [of _ st] exI [of _ "[]"]) simp
next
  case (Cons p ps)
  let ?c = "batch ! (us ! p)"
  obtain plan st1 where b: "build_all cfg cid ?c q st = (q\<lparr>pq_all := pq_all q @ [plan]\<rparr>, st1)"
    and plan: "rp_addr plan = cd_addr ?c" "rp_type plan = VEC_ALL" "rp_read_length plan = ae_size (cd_addr ?c)"
    using no_budget [OF assms(1)]
    by (cases "CandidateTruth cfg cid (cd_global_idx ?c)") (auto simp: build_all_def)
  from Cons.IH [of "q\<lparr>pq_all := pq_all q @ [plan]\<rparr>" st1] Cons.prems obtain st' plans where
    "build_loop (build_all cfg cid) batch us ps (q\<lparr>pq_all := pq_all q @ [plan]\<rparr>) st1 =
        (q\<lparr>pq_all := pq_all q @ plan # plans\<rparr>, st')"
    "map rp_addr plans = map (\<lambda>p. cd_addr (batch ! (us ! p))) ps"
    "\<forall>p \<in> set plans. rp_type p = VEC_ALL \<and> rp_read_length p = ae_size (rp_addr p)
          \<and> ae_size (rp_addr p) \<le> sc_safein_all_threshold cfg" by auto
  then show ?case using b plan Cons.prems
    by (intro exI [of _ st'] exI [of _ "plan # plans"]) (simp add: whole_record_def)
qed

lemma build_vec_loop:
  assumes "sc_candidate_budget cfg = 0"
  shows "\<exists>st'. build_loop (build_vec cfg vb cid) batch us ps q st =
    (q\<lparr>pq_vec := pq_vec q @ map (\<lambda>p. cd_addr (batch ! (us ! p))) ps\<rparr>, st')"
proof (induction ps arbitrary: q st)
  case (Cons p ps)
  have b: "build_vec cfg vb cid c q st = (q\<lparr>pq_vec := pq_vec q @ [cd_addr c]\<rparr>, bump total_submit_window_requests st)" for c
    using no_budget [OF assms] by (simp add: build_vec_def)
  show ?case using Cons.IH [of "q\<lparr>pq_vec := pq_vec q @ [cd_addr (batch ! (us ! p))]\<rparr>"
      "bump total_submit_window_requests st"] by (simp add: b)
qed simp

lemma BuildDeferred_spec:
  "\<exists>st'. BuildDeferredPlans cfg cid batch us q st =
     (q\<lparr>pq_deferred := pq_deferred q @ map (\<lambda>u. deferred_of cfg cid (batch ! u)) us\<rparr>, st')"
proof (induction us arbitrary: q st)
  case (Cons u us)
  from this [of "q\<lparr>pq_deferred := pq_deferred q @ [deferred_of cfg cid (batch ! u)]\<rparr>"
      "bump dynamic_safein_deferred_candidates st"] show ?case by simp
qed simp

lemma dp_addr_deferred_of [simp]: "dp_addr (deferred_of cfg cid c) = cd_addr c"
  by (simp add: deferred_of_def split: prod.splits)

lemma mset_filter_split: "mset (map g (filter P xs)) + mset (map g (filter (\<lambda>x. \<not> P x) xs)) = mset (map g xs)"
  by (induction xs) auto

text \<open>What \<open>OnCandidates\<close> does with the unique candidates of a scan.\<close>

lemma OnCandidates_queues:
  assumes "sc_candidate_budget cfg = 0" and "queues_ok cfg (sn_queues sn)" and "batch \<noteq> []"
    and scan: "scan_loop cfg (ef_use_frontier f) skip batch [0..<length batch] \<lparr>sk_dedup = sn_dedup sn, sk_unique = [],
        sk_all = [], sk_vec = [], sk_estimates = sn_estimates sn\<rparr> (bump total_candidate_batches st) = Some (s, st2)"
    and ok: "scan_lists cfg batch s"
  shows "\<exists>sn' st'. OnCandidates cfg vb skip cid f batch sn st = Some (sn', st') \<and> sn_dedup sn' = sk_dedup s
    \<and> queues_ok cfg (sn_queues sn')
    \<and> mset (planned (sn_queues sn')) =
        mset (planned (sn_queues sn)) + mset (map cd_addr (map ((!) batch) (sk_unique s)))"
proof -
  let ?q = "sn_queues sn"
  define us where "us = sk_unique s"
  have "\<exists>q st3. (if ShouldDeferSafeInPlans cfg f (length (pq_deferred ?q))
        then BuildDeferredPlans cfg cid batch us ?q st2
        else BuildReadPlans cfg vb cid batch s ?q st2) = (q, st3) \<and> queues_ok cfg q
      \<and> mset (planned q) = mset (planned ?q) + mset (map (\<lambda>u. cd_addr (batch ! u)) us)"
  proof (cases "ShouldDeferSafeInPlans cfg f (length (pq_deferred ?q))")
    case True
    obtain st3 where "BuildDeferredPlans cfg cid batch us ?q st2 =
        (?q\<lparr>pq_deferred := pq_deferred ?q @ map (\<lambda>u. deferred_of cfg cid (batch ! u)) us\<rparr>, st3)"
      using BuildDeferred_spec by blast
    then show ?thesis using True assms(2) by (simp add: queues_ok_def planned_def multiset.map_comp comp_def)
  next
    case False
    let ?P = "\<lambda>p. whole_record cfg (batch ! (us ! p))"
    have all: "sk_all s = filter ?P [0..<length us]" "sk_vec s = filter (\<lambda>p. \<not> ?P p) [0..<length us]"
      using ok by (simp_all add: scan_lists_def us_def)
    obtain st3 plans where b1: "build_loop (build_all cfg cid) batch us (sk_all s) ?q st2 =
        (?q\<lparr>pq_all := pq_all ?q @ plans\<rparr>, st3)"
      and plans: "map rp_addr plans = map (\<lambda>p. cd_addr (batch ! (us ! p))) (sk_all s)"
        "\<forall>p \<in> set plans. rp_type p = VEC_ALL \<and> rp_read_length p = ae_size (rp_addr p)
          \<and> ae_size (rp_addr p) \<le> sc_safein_all_threshold cfg"
      using build_all_loop [OF assms(1), of "sk_all s" batch us cid ?q st2] all by auto
    obtain st4 where b2: "build_loop (build_vec cfg vb cid) batch us (sk_vec s) (?q\<lparr>pq_all := pq_all ?q @ plans\<rparr>) st3 =
        (?q\<lparr>pq_all := pq_all ?q @ plans, pq_vec := pq_vec ?q @ map (\<lambda>p. cd_addr (batch ! (us ! p))) (sk_vec s)\<rparr>, st4)"
      using build_vec_loop [OF assms(1), of vb cid batch us "sk_vec s" "?q\<lparr>pq_all := pq_all ?q @ plans\<rparr>" st3] by auto
    have "mset (map rp_addr plans) + mset (map (\<lambda>p. cd_addr (batch ! (us ! p))) (sk_vec s)) =
        mset (map (\<lambda>p. cd_addr (batch ! (us ! p))) [0..<length us])"
      unfolding plans(1) all by (rule mset_filter_split)
    also have "map (\<lambda>p. cd_addr (batch ! (us ! p))) [0..<length us] = map (\<lambda>u. cd_addr (batch ! u)) us"
      by (rule nth_equalityI) simp_all
    finally have m: "mset (map rp_addr plans) + mset (map (\<lambda>p. cd_addr (batch ! (us ! p))) (sk_vec s)) =
        mset (map (\<lambda>u. cd_addr (batch ! u)) us)" .
    have r: "BuildReadPlans cfg vb cid batch s ?q st2 =
        (?q\<lparr>pq_all := pq_all ?q @ plans, pq_vec := pq_vec ?q @ map (\<lambda>p. cd_addr (batch ! (us ! p))) (sk_vec s)\<rparr>, st4)"
      using b1 b2 by (simp add: BuildReadPlans_def us_def)
    show ?thesis unfolding r if_not_P [OF False]
      using assms(2) plans(2) m [symmetric] by (auto simp: queues_ok_def planned_def)
  qed
  then obtain q st3 where q: "(if ShouldDeferSafeInPlans cfg f (length (pq_deferred ?q))
        then BuildDeferredPlans cfg cid batch us ?q st2
        else BuildReadPlans cfg vb cid batch s ?q st2) = (q, st3)" "queues_ok cfg q"
      "mset (planned q) = mset (planned ?q) + mset (map (\<lambda>u. cd_addr (batch ! u)) us)" by blast
  have "OnCandidates cfg vb skip cid f batch sn st = Some (\<lparr>sn_dedup = sk_dedup s, sn_estimates = sk_estimates s,
      sn_pending = (sn_pending sn \<or> sk_estimates s \<noteq> []), sn_queues = q\<rparr>, st3)"
    unfolding OnCandidates_def if_not_P [OF assms(3)] Let_def scan option.case prod.case
      us_def [symmetric] q(1) by (rule refl)
  then show ?thesis using q by (simp add: us_def multiset.map_comp comp_def)
qed

lemma map_nth_offsets: "(\<lambda>i. cd_off (batch ! i)) ` {0..<length batch} = cd_off ` set batch"
proof -
  have "map ((!) batch) [0..<length batch] = batch" by (rule map_nth)
  from arg_cong [OF this, of "\<lambda>xs. cd_off ` set xs"] show ?thesis by (simp only: set_map image_image set_upt)
qed

lemma OnCandidates_spec:
  assumes "sc_candidate_budget cfg = 0" and "ds_inv (sn_dedup sn)" and "\<forall>c \<in> set batch. cd_off c \<noteq> kEmpty"
    and "card (ds_keys (sn_dedup sn) \<union> cd_off ` set batch) \<le> length (ds_slots (sn_dedup sn))"
    and "queues_ok cfg (sn_queues sn)"
  shows "\<exists>sn' st'. OnCandidates cfg vb False cid f batch sn st = Some (sn', st') \<and> ds_inv (sn_dedup sn')
    \<and> ds_keys (sn_dedup sn') = ds_keys (sn_dedup sn) \<union> cd_off ` set batch
    \<and> length (ds_slots (sn_dedup sn')) = length (ds_slots (sn_dedup sn))
    \<and> queues_ok cfg (sn_queues sn')
    \<and> mset (planned (sn_queues sn')) =
        mset (planned (sn_queues sn)) + mset (map cd_addr (news (ds_keys (sn_dedup sn)) batch))"
proof (cases "batch = []")
  case True
  then show ?thesis using assms by (simp add: OnCandidates_def)
next
  case False
  define s0 where "s0 = \<lparr>sk_dedup = sn_dedup sn, sk_unique = [], sk_all = [], sk_vec = [],
                  sk_estimates = sn_estimates sn\<rparr>"
  have map_b: "map ((!) batch) [0..<length batch] = batch" by (rule map_nth)
  have ok0: "scan_ok cfg batch s0" using assms(2) by (simp add: scan_ok_def scan_lists_def s0_def)
  have ne: "\<forall>i \<in> set [0..<length batch]. cd_off (batch ! i) \<noteq> kEmpty" using assms(3) by simp
  have room: "card (ds_keys (sk_dedup s0) \<union> (\<lambda>i. cd_off (batch ! i)) ` set [0..<length batch]) \<le> length (ds_slots (sk_dedup s0))"
    using assms(4) map_nth_offsets [of batch] by (simp add: s0_def)
  obtain s st2 where scan: "scan_loop cfg (ef_use_frontier f) False batch [0..<length batch] s0
        (bump total_candidate_batches st) = Some (s, st2)"
    and ok: "scan_ok cfg batch s"
    and uniq: "map ((!) batch) (sk_unique s) = news (ds_keys (sn_dedup sn)) batch"
    and keys: "ds_keys (sk_dedup s) = ds_keys (sn_dedup sn) \<union> cd_off ` set batch"
      "length (ds_slots (sk_dedup s)) = length (ds_slots (sn_dedup sn))"
    using scan_loop_spec [OF ok0 ne room, of "ef_use_frontier f" "bump total_candidate_batches st"] map_nth_offsets [of batch]
    by (auto simp: s0_def map_b)
  have "scan_lists cfg batch s" "ds_inv (sk_dedup s)" using ok by (simp_all add: scan_ok_def)
  then show ?thesis
    using OnCandidates_queues [OF assms(1,5) False scan [unfolded s0_def], of vb cid] uniq keys by auto
qed

lemma OnCandidates_skip:
  assumes "sc_candidate_budget cfg = 0" and "queues_ok cfg (sn_queues sn)"
  shows "\<exists>sn' st'. OnCandidates cfg vb True cid f batch sn st = Some (sn', st') \<and> sn_dedup sn' = sn_dedup sn
    \<and> queues_ok cfg (sn_queues sn')
    \<and> mset (planned (sn_queues sn')) = mset (planned (sn_queues sn)) + mset (map cd_addr (news {} batch))"
proof (cases "batch = []")
  case True
  then show ?thesis using assms by (simp add: OnCandidates_def)
next
  case False
  define s0 where "s0 = \<lparr>sk_dedup = sn_dedup sn, sk_unique = [], sk_all = [], sk_vec = [],
                  sk_estimates = sn_estimates sn\<rparr>"
  have map_b: "map ((!) batch) [0..<length batch] = batch" by (rule map_nth)
  have "scan_lists cfg batch s0" by (simp add: scan_lists_def s0_def)
  from scan_loop_skip [OF this, of "ef_use_frontier f" "[0..<length batch]" "bump total_candidate_batches st"]
  obtain s st2 where scan: "scan_loop cfg (ef_use_frontier f) True batch [0..<length batch] s0
        (bump total_candidate_batches st) = Some (s, st2)" "scan_lists cfg batch s" "sk_dedup s = sk_dedup s0"
      "map ((!) batch) (sk_unique s) = news {} batch"
    by (auto simp: s0_def map_b)
  then show ?thesis
    using OnCandidates_queues [OF assms False scan(1) [unfolded s0_def] scan(2), of vb cid] by (auto simp: s0_def)
qed

section \<open>Properties\<close>

text \<open>The batches of a query's probes, each with its cluster and the frontier state it meets.\<close>

fun feed_batches ::
    "search_config \<Rightarrow> u32 \<Rightarrow> bool \<Rightarrow> (nat \<times> frontier \<times> candidate list) list \<Rightarrow> sink_state \<Rightarrow> search_stats
      \<Rightarrow> (sink_state \<times> search_stats) option" where
  "feed_batches cfg vb skip [] sn st = Some (sn, st)"
| "feed_batches cfg vb skip ((cid, f, batch) # rest) sn st =
     (case OnCandidates cfg vb skip cid f batch sn st of
        None \<Rightarrow> None
      | Some (sn1, st1) \<Rightarrow> feed_batches cfg vb skip rest sn1 st1)"

definition all_candidates :: "(nat \<times> frontier \<times> candidate list) list \<Rightarrow> candidate list" where
  "all_candidates bs = concat (map (\<lambda>(cid, f, batch). batch) bs)"

lemma feed_batches_spec:
  assumes "sc_candidate_budget cfg = 0" and "ds_inv (sn_dedup sn)" and "\<forall>c \<in> set (all_candidates bs). cd_off c \<noteq> kEmpty"
    and "card (ds_keys (sn_dedup sn) \<union> cd_off ` set (all_candidates bs)) \<le> length (ds_slots (sn_dedup sn))"
    and "queues_ok cfg (sn_queues sn)"
  shows "\<exists>sn' st'. feed_batches cfg vb False bs sn st = Some (sn', st') \<and> queues_ok cfg (sn_queues sn')
    \<and> ds_inv (sn_dedup sn') \<and> ds_keys (sn_dedup sn') = ds_keys (sn_dedup sn) \<union> cd_off ` set (all_candidates bs)
    \<and> length (ds_slots (sn_dedup sn')) = length (ds_slots (sn_dedup sn))
    \<and> mset (planned (sn_queues sn')) = mset (planned (sn_queues sn))
        + mset (map cd_addr (news (ds_keys (sn_dedup sn)) (all_candidates bs)))"
  using assms
proof (induction bs arbitrary: sn st)
  case Nil
  then show ?case by (simp add: all_candidates_def)
next
  case (Cons b bs)
  obtain cid f batch where b: "b = (cid, f, batch)" by (cases b)
  have cs: "all_candidates (b # bs) = batch @ all_candidates bs" by (simp add: all_candidates_def b)
  have fin: "finite (ds_keys (sn_dedup sn))" by (simp add: ds_keys_def)
  have room: "card (ds_keys (sn_dedup sn) \<union> cd_off ` set batch) \<le> length (ds_slots (sn_dedup sn))"
    by (rule le_trans [OF card_mono Cons.prems(4)]) (use fin cs in auto)
  have ne: "\<forall>c \<in> set batch. cd_off c \<noteq> kEmpty" using Cons.prems(3) cs by simp
  obtain sn1 st1 where s1: "OnCandidates cfg vb False cid f batch sn st = Some (sn1, st1)" "ds_inv (sn_dedup sn1)"
      "ds_keys (sn_dedup sn1) = ds_keys (sn_dedup sn) \<union> cd_off ` set batch"
      "length (ds_slots (sn_dedup sn1)) = length (ds_slots (sn_dedup sn))" "queues_ok cfg (sn_queues sn1)"
      "mset (planned (sn_queues sn1)) =
        mset (planned (sn_queues sn)) + mset (map cd_addr (news (ds_keys (sn_dedup sn)) batch))"
    using OnCandidates_spec [OF Cons.prems(1,2) ne room Cons.prems(5)] by blast
  have "\<forall>c \<in> set (all_candidates bs). cd_off c \<noteq> kEmpty" using Cons.prems(3) cs by simp
  moreover have "card (ds_keys (sn_dedup sn1) \<union> cd_off ` set (all_candidates bs)) \<le> length (ds_slots (sn_dedup sn1))"
    using Cons.prems(4) unfolding cs s1(3,4) by (simp add: image_Un Un_assoc)
  ultimately obtain sn2 st2 where "feed_batches cfg vb False bs sn1 st1 = Some (sn2, st2)" "queues_ok cfg (sn_queues sn2)"
      "ds_inv (sn_dedup sn2)" "ds_keys (sn_dedup sn2) = ds_keys (sn_dedup sn1) \<union> cd_off ` set (all_candidates bs)"
      "length (ds_slots (sn_dedup sn2)) = length (ds_slots (sn_dedup sn1))"
      "mset (planned (sn_queues sn2)) = mset (planned (sn_queues sn1))
        + mset (map cd_addr (news (ds_keys (sn_dedup sn1)) (all_candidates bs)))"
    using Cons.IH [OF Cons.prems(1) s1(2) _ _ s1(5)] by blast
  then show ?case using s1(1,3,4,6) by (simp add: b cs [unfolded b] news_append image_Un Un_assoc)
qed

lemma feed_batches_skip:
  assumes "sc_candidate_budget cfg = 0" and "queues_ok cfg (sn_queues sn)"
  shows "\<exists>sn' st'. feed_batches cfg vb True bs sn st = Some (sn', st') \<and> queues_ok cfg (sn_queues sn')
    \<and> sn_dedup sn' = sn_dedup sn
    \<and> mset (planned (sn_queues sn')) = mset (planned (sn_queues sn))
        + mset (map cd_addr (concat (map (\<lambda>(cid, f, batch). news {} batch) bs)))"
  using assms(2)
proof (induction bs arbitrary: sn st)
  case Nil
  then show ?case by simp
next
  case (Cons b bs)
  obtain cid f batch where b: "b = (cid, f, batch)" by (cases b)
  obtain sn1 st1 where s1: "OnCandidates cfg vb True cid f batch sn st = Some (sn1, st1)" "sn_dedup sn1 = sn_dedup sn"
      "queues_ok cfg (sn_queues sn1)"
      "mset (planned (sn_queues sn1)) = mset (planned (sn_queues sn)) + mset (map cd_addr (news {} batch))"
    using OnCandidates_skip [OF assms(1) Cons.prems] by blast
  show ?case using Cons.IH [OF s1(3), of st1] s1 by (auto simp: b)
qed

text \<open>The candidates a query keeps, in the two modes; all of them when their offsets are distinct.\<close>

definition kept_candidates :: "bool \<Rightarrow> (nat \<times> frontier \<times> candidate list) list \<Rightarrow> candidate list" where
  "kept_candidates skip bs =
     (if skip then concat (map (\<lambda>(cid, f, batch). news {} batch) bs) else news {} (all_candidates bs))"

lemma news_all: "distinct (map cd_off cs) \<Longrightarrow> cd_off ` set cs \<inter> K = {} \<Longrightarrow> news K cs = cs"
  by (induction cs arbitrary: K) auto

lemma kept_all:
  assumes "distinct (map cd_off (all_candidates bs))"
  shows "kept_candidates skip bs = all_candidates bs"
proof -
  have "concat (map (\<lambda>(cid, f, batch). news {} batch) bs) = all_candidates bs"
    using assms
  proof (induction bs)
    case (Cons b bs)
    obtain cid f batch where b: "b = (cid, f, batch)" by (cases b)
    have "distinct (map cd_off batch)" "distinct (map cd_off (all_candidates bs))"
      using Cons.prems by (simp_all add: all_candidates_def b)
    then show ?case using Cons.IH by (simp add: all_candidates_def b news_all)
  qed (simp add: all_candidates_def)
  then show ?thesis using assms by (simp add: kept_candidates_def news_all)
qed

lemma flush_loop_spec:
  assumes "sc_candidate_budget cfg = 0" and "queues_ok cfg q"
  shows "\<exists>q' st'. flush_loop cfg vb thr ps q st = (q', st') \<and> queues_ok cfg q' \<and> pq_deferred q' = pq_deferred q
    \<and> mset (map rp_addr (pq_all q')) + mset (drop (pq_vec_head q') (pq_vec q')) =
      mset (map rp_addr (pq_all q)) + mset (drop (pq_vec_head q) (pq_vec q)) + mset (map dp_addr ps)"
  using assms(2)
proof (induction ps arbitrary: q st)
  case Nil
  then show ?case by simp
next
  case (Cons p ps)
  obtain q1 st1 where one: "flush_one cfg vb thr p q st = (q1, st1)" by fastforce
  then have "queues_ok cfg q1 \<and> pq_deferred q1 = pq_deferred q
    \<and> mset (map rp_addr (pq_all q1)) + mset (drop (pq_vec_head q1) (pq_vec q1)) =
      add_mset (dp_addr p) (mset (map rp_addr (pq_all q)) + mset (drop (pq_vec_head q) (pq_vec q)))"
    using no_budget [OF assms(1)] Cons.prems
    by (auto simp: flush_one_def Let_def queues_ok_def deferred_read_def split: if_splits)
  moreover from this obtain q2 st2 where "flush_loop cfg vb thr ps q1 st1 = (q2, st2)" "queues_ok cfg q2"
      "pq_deferred q2 = pq_deferred q1"
      "mset (map rp_addr (pq_all q2)) + mset (drop (pq_vec_head q2) (pq_vec q2)) =
      mset (map rp_addr (pq_all q1)) + mset (drop (pq_vec_head q1) (pq_vec q1)) + mset (map dp_addr ps)"
    using Cons.IH by blast
  ultimately show ?case using one by simp
qed

lemma Flush_spec:
  assumes "sc_candidate_budget cfg = 0" and "queues_ok cfg q"
  shows "\<exists>q' st'. FlushDeferredSafeInPlans cfg vb thr force q st = (q', st') \<and> queues_ok cfg q'
    \<and> (force \<longrightarrow> pq_deferred q' = []) \<and> mset (planned q') = mset (planned q)"
proof (cases "pq_deferred q = [] \<or> \<not> force \<and> \<not> f32_is_finite thr")
  case True
  then show ?thesis using assms(2) by (auto simp: FlushDeferredSafeInPlans_def)
next
  case False
  from flush_loop_spec [OF assms, of vb thr "pq_deferred q" st]
  obtain q' st' where q': "flush_loop cfg vb thr (pq_deferred q) q st = (q', st')" "queues_ok cfg q'"
      "mset (map rp_addr (pq_all q')) + mset (drop (pq_vec_head q') (pq_vec q')) =
      mset (map rp_addr (pq_all q)) + mset (drop (pq_vec_head q) (pq_vec q)) + mset (map dp_addr (pq_deferred q))"
    by blast
  have "FlushDeferredSafeInPlans cfg vb thr force q st =
      (q'\<lparr>pq_deferred := []\<rparr>, bump dynamic_safein_deferred_flushes st')"
    using False q'(1) by (auto simp: FlushDeferredSafeInPlans_def)
  moreover have "queues_ok cfg (q'\<lparr>pq_deferred := []\<rparr>)" using q'(2) by (simp add: queues_ok_def)
  moreover have "mset (planned (q'\<lparr>pq_deferred := []\<rparr>)) = mset (planned q)"
    using q'(3) by (simp add: planned_def add.assoc)
  ultimately show ?thesis by simp
qed

text \<open>The first candidates have distinct offsets, all that occur.\<close>

lemma news_offsets: "distinct (map cd_off (news K cs)) \<and> cd_off ` set (news K cs) = cd_off ` set cs - K"
  by (induction cs arbitrary: K) auto

text \<open>C19: no candidate is lost and none is read twice.  Without a candidate budget, for any batches the
  prober emits during a query, in any cluster and frontier state (so with or without deferring), the
  sink returns and after the final forced flush one plan is queued for each candidate kept, and no
  other.  With single assignment, where the sink skips the deduplication set, these are the first
  candidates of each offset in every batch; otherwise the first of each offset in the query, if the
  distinct offsets fit the set.  When no offset occurs twice every candidate has its plan in both
  modes.  Whole records are queued only up to the configured size.\<close>

theorem every_candidate_planned_once:
  assumes "sc_candidate_budget cfg = 0" and "ds_Reserve expected = Some d0" and "expected < 4611686018427387904"
    and "skip \<or> (\<forall>c \<in> set (all_candidates bs). cd_off c \<noteq> kEmpty)
      \<and> card (cd_off ` set (all_candidates bs)) \<le> length (ds_slots d0)"
  shows "\<exists>sn st1 q st2.
    feed_batches cfg vb skip bs \<lparr>sn_dedup = d0, sn_estimates = [], sn_pending = False, sn_queues = queues_new\<rparr> st = Some (sn, st1)
    \<and> FlushDeferredSafeInPlans cfg vb thr True (sn_queues sn) st1 = (q, st2)
    \<and> pq_deferred q = []
    \<and> mset (map rp_addr (pq_all q)) + mset (drop (pq_vec_head q) (pq_vec q)) = mset (map cd_addr (kept_candidates skip bs))
    \<and> (distinct (map cd_off (all_candidates bs)) \<longrightarrow> kept_candidates skip bs = all_candidates bs)
    \<and> (\<forall>p \<in> set (pq_all q). rp_type p = VEC_ALL \<and> ae_size (rp_addr p) \<le> sc_safein_all_threshold cfg)"
proof -
  obtain d where d: "ds_Reserve expected = Some d" "ds_inv d" "ds_keys d = {}"
    using Reserve_spec [OF assms(3)] by blast
  let ?sn0 = "\<lparr>sn_dedup = d0, sn_estimates = [], sn_pending = False, sn_queues = queues_new\<rparr>"
  have d0: "d0 = d" using assms(2) d(1) by simp
  have ok: "queues_ok cfg (sn_queues ?sn0)" by (simp add: queues_ok_def queues_new_def)
  have "\<exists>sn st1. feed_batches cfg vb skip bs ?sn0 st = Some (sn, st1) \<and> queues_ok cfg (sn_queues sn)
      \<and> mset (planned (sn_queues sn)) = mset (planned queues_new) + mset (map cd_addr (kept_candidates skip bs))"
  proof (cases skip)
    case True
    then show ?thesis using feed_batches_skip [OF assms(1) ok, of vb bs st] by (auto simp: kept_candidates_def)
  next
    case False
    then have "card (ds_keys (sn_dedup ?sn0) \<union> cd_off ` set (all_candidates bs)) \<le> length (ds_slots (sn_dedup ?sn0))"
      using assms(4) d(3) by (simp add: d0)
    then show ?thesis
      using feed_batches_spec [OF assms(1), of ?sn0 bs vb st] ok d(2,3) assms(4) False
      by (auto simp: d0 kept_candidates_def)
  qed
  then obtain sn st1 where f: "feed_batches cfg vb skip bs ?sn0 st = Some (sn, st1)" "queues_ok cfg (sn_queues sn)"
      "mset (planned (sn_queues sn)) = mset (planned queues_new) + mset (map cd_addr (kept_candidates skip bs))"
    by blast
  obtain q st2 where q: "FlushDeferredSafeInPlans cfg vb thr True (sn_queues sn) st1 = (q, st2)" "queues_ok cfg q"
    "pq_deferred q = []" "mset (planned q) = mset (planned (sn_queues sn))"
    using Flush_spec [OF assms(1) f(2), of vb thr True] by blast
  then show ?thesis using f kept_all by (auto simp: planned_def queues_ok_def queues_new_def)
qed

theorem every_candidate_planned_once_witness:
  "\<exists>d0 sn st1 q st2 a b.
    feed_batches default_config 16 True [(0, frontier_new default_config, [a, a]), (1, frontier_new default_config, [b])]
      \<lparr>sn_dedup = d0, sn_estimates = [], sn_pending = False, sn_queues = queues_new\<rparr> stats_new = Some (sn, st1)
    \<and> FlushDeferredSafeInPlans default_config 16 0 True (sn_queues sn) st1 = (q, st2)
    \<and> mset (map rp_addr (pq_all q)) + mset (drop (pq_vec_head q) (pq_vec q)) =
        {#\<lparr>ae_offset = 4096, ae_size = 64\<rparr>, \<lparr>ae_offset = 8192, ae_size = 64\<rparr>#}"
proof -
  define c where "c off = \<lparr>cd_global_idx = 0, cd_est_dist = 0, cd_est_error = 0, cd_lower_bound = 0, cd_safein_upper = 0,
    cd_cls = SafeIn, cd_addr = \<lparr>ae_offset = off, ae_size = 64\<rparr>\<rparr>" for off
  let ?bs = "[(0, frontier_new default_config, [c 4096, c 4096]), (1, frontier_new default_config, [c 8192])]"
  obtain d0 where d0: "ds_Reserve 2 = Some d0" using Reserve_spec [of 2] by auto
  have budget: "sc_candidate_budget default_config = 0" by (simp add: default_config_def)
  have addrs: "mset (map cd_addr (kept_candidates True ?bs)) =
      {#\<lparr>ae_offset = 4096, ae_size = 64\<rparr>, \<lparr>ae_offset = 8192, ae_size = 64\<rparr>#}"
    by (simp add: kept_candidates_def c_def)
  have "\<exists>sn st1 q st2.
    feed_batches default_config 16 True ?bs \<lparr>sn_dedup = d0, sn_estimates = [], sn_pending = False, sn_queues = queues_new\<rparr>
      stats_new = Some (sn, st1)
    \<and> FlushDeferredSafeInPlans default_config 16 0 True (sn_queues sn) st1 = (q, st2)
    \<and> mset (map rp_addr (pq_all q)) + mset (drop (pq_vec_head q) (pq_vec q)) =
        {#\<lparr>ae_offset = 4096, ae_size = 64\<rparr>, \<lparr>ae_offset = 8192, ae_size = 64\<rparr>#}"
    using every_candidate_planned_once [OF budget d0, of True ?bs 16 stats_new 0, unfolded addrs] by auto
  then show ?thesis by blast
qed

end
