(* ===== verification/Rerank_Consumer.thy ===== *)
theory Rerank_Consumer
  imports Search_Context Buffer_Pool "HOL-Library.Monad_Syntax"
begin

text \<open>
  \<open>RerankConsumer\<close> (src/query/rerank_consumer.cpp): vectors that arrive are copied into slabs and
  reranked in one batch at the end; payloads are cached by the record's offset.  \<open>mem\<close> is what the
  I/O buffers hold, by address.  A slab is its bytes; what a fresh block holds and whether
  \<open>aligned_alloc\<close> succeeds are arguments.  The distance kernels are arguments too.  \<open>None\<close> is an
  abort or a read or write outside a buffer.
\<close>

section \<open>State\<close>

record vector_chunk =
  vc_storage :: bytes
  vc_used :: nat

record buffered_candidate =
  bc_addr :: address_entry
  bc_vec :: "nat \<times> nat"

record rerank =
  rk_vec_bytes :: u32
  rk_aligned :: u32
  rk_buffered :: "buffered_candidate list"
  rk_chunks :: "vector_chunk list"
  rk_payload :: "u64 \<rightharpoonup> nat"

text \<open>A block of \<open>n\<close> bytes as the allocator returns it: what is in it is unspecified.\<close>

definition fresh_block :: "(nat \<Rightarrow> u8) \<Rightarrow> nat \<Rightarrow> bytes" where
  "fresh_block garbage n = map garbage [0..<n]"

definition GrowVectorChunk :: "(nat \<Rightarrow> u8) option \<Rightarrow> u32 \<Rightarrow> rerank \<Rightarrow> rerank \<times> bool" where
  "GrowVectorChunk answer min_capacity rk =
     (case answer of
        None \<Rightarrow> (rk, False)
      | Some garbage \<Rightarrow>
          (rk\<lparr>rk_chunks := rk_chunks rk @
             [\<lparr>vc_storage = fresh_block garbage (unat (max (rk_aligned rk * 1024) min_capacity)), vc_used = 0\<rparr>]\<rparr>,
           True))"

text \<open>The constructor ignores whether its first slab could be allocated.\<close>

definition rerank_new :: "(nat \<Rightarrow> u8) option \<Rightarrow> nat \<Rightarrow> rerank" where
  "rerank_new answer raw_dim =
     (let vec_bytes = of_nat (wrap32 (raw_dim * 4)); aligned = align_4k vec_bytes
      in fst (GrowVectorChunk answer (aligned * 1024) \<lparr>rk_vec_bytes = vec_bytes, rk_aligned = aligned,
           rk_buffered = [], rk_chunks = [], rk_payload = Map.empty\<rparr>))"

section \<open>Slabs\<close>

definition splice :: "nat \<Rightarrow> bytes \<Rightarrow> bytes \<Rightarrow> bytes" where
  "splice pos bs old = take pos old @ bs @ drop (pos + length bs) old"

text \<open>The last slab takes the vector, or a new one; the check adds on 32 bits.\<close>

definition AllocateVectorCopy ::
    "(nat \<Rightarrow> u8) option \<Rightarrow> bytes \<Rightarrow> rerank \<Rightarrow> (rerank \<times> (nat \<times> nat)) option" where
  "AllocateVectorCopy answer src rk0 = do {
     rk \<leftarrow> (if rk_chunks rk0 = []
              \<or> length (vc_storage (last (rk_chunks rk0)))
                  < wrap32 (vc_used (last (rk_chunks rk0)) + unat (rk_aligned rk0))
           then (let (rk1, ok) = GrowVectorChunk answer (rk_aligned rk0) rk0 in if ok then Some rk1 else None)
           else Some rk0);
     let chunk = last (rk_chunks rk);
     let n = unat (rk_vec_bytes rk);
     if length src < n \<or> length (vc_storage chunk) < vc_used chunk + n then None
     else Some (rk\<lparr>rk_chunks := butlast (rk_chunks rk) @
                  [\<lparr>vc_storage = splice (vc_used chunk) (take n src) (vc_storage chunk),
                    vc_used = wrap32 (vc_used chunk + unat (rk_aligned rk))\<rparr>]\<rparr>,
                (length (rk_chunks rk) - 1, vc_used chunk))
   }"

definition ResetVectorChunks :: "rerank \<Rightarrow> rerank" where
  "ResetVectorChunks rk = rk\<lparr>rk_chunks := map (\<lambda>c. c\<lparr>vc_used := 0\<rparr>) (rk_chunks rk)\<rparr>"

text \<open>What a vector pointer reads.\<close>

definition vec_at :: "rerank \<Rightarrow> nat \<times> nat \<Rightarrow> bytes" where
  "vec_at rk p = slice (snd p) (unat (rk_vec_bytes rk)) (vc_storage (rk_chunks rk ! fst p))"

section \<open>Consuming completions\<close>

definition ConsumeVec ::
    "(nat \<Rightarrow> u8) option \<Rightarrow> (nat \<rightharpoonup> bytes) \<Rightarrow> nat \<Rightarrow> address_entry \<Rightarrow> rerank \<Rightarrow> search_stats
      \<Rightarrow> (rerank \<times> search_stats) option" where
  "ConsumeVec answer mem buf addr rk st = do {
     content \<leftarrow> mem buf;
     (rk1, p) \<leftarrow> AllocateVectorCopy answer content rk;
     Some (rk1\<lparr>rk_buffered := rk_buffered rk1 @ [\<lparr>bc_addr = addr, bc_vec = p\<rparr>]\<rparr>, bump buffered_candidates st)
   }"

text \<open>The payload of a whole record is copied to a buffer of its own, \<open>pbuf\<close>; the code does not check
  that its allocation succeeded.\<close>

definition ConsumeAll ::
    "(nat \<Rightarrow> u8) option \<Rightarrow> nat option \<Rightarrow> (nat \<rightharpoonup> bytes) \<Rightarrow> nat \<Rightarrow> address_entry \<Rightarrow> rerank \<Rightarrow> search_stats
      \<Rightarrow> (rerank \<times> (nat \<rightharpoonup> bytes) \<times> search_stats) option" where
  "ConsumeAll answer pbuf mem buf addr rk st = do {
     (rk1, st1) \<leftarrow> ConsumeVec answer mem buf addr rk st;
     if ae_size addr \<le> rk_vec_bytes rk1 then Some (rk1, mem, st1)
     else do {
       content \<leftarrow> mem buf;
       pb \<leftarrow> pbuf;
       if length content < unat (ae_size addr) then None
       else Some (rk1\<lparr>rk_payload := (rk_payload rk1)(ae_offset addr \<mapsto> pb)\<rparr>,
                  mem(pb \<mapsto> slice (unat (rk_vec_bytes rk1)) (unat (ae_size addr - rk_vec_bytes rk1)) content),
                  bump total_safein_payload_prefetched st1)
     }
   }"

definition ConsumePayload :: "nat \<Rightarrow> address_entry \<Rightarrow> rerank \<Rightarrow> search_stats \<Rightarrow> rerank \<times> search_stats" where
  "ConsumePayload buf addr rk st =
     (rk\<lparr>rk_payload := (rk_payload rk)(ae_offset addr \<mapsto> buf)\<rparr>, bump total_payload_prefetched st)"

section \<open>The payload cache\<close>

definition HasPayload :: "rerank \<Rightarrow> u64 \<Rightarrow> bool" where
  "HasPayload rk offset \<longleftrightarrow> rk_payload rk offset \<noteq> None"

definition TakePayload :: "rerank \<Rightarrow> u64 \<Rightarrow> rerank \<times> nat option" where
  "TakePayload rk offset = (rk\<lparr>rk_payload := (rk_payload rk)(offset := None)\<rparr>, rk_payload rk offset)"

definition CachePayload :: "u64 \<Rightarrow> nat \<Rightarrow> rerank \<Rightarrow> rerank" where
  "CachePayload offset buf rk = rk\<lparr>rk_payload := (rk_payload rk)(offset \<mapsto> buf)\<rparr>"

definition CleanupUnusedCache :: "collector_entry list \<Rightarrow> rerank \<Rightarrow> rerank" where
  "CleanupUnusedCache results rk =
     rk\<lparr>rk_payload := (\<lambda>off. if off \<in> (\<lambda>e. ae_offset (ce_addr e)) ` set results then rk_payload rk off else None)\<rparr>"

section \<open>The batch rerank\<close>

text \<open>What the standard promises of \<open>std::sort\<close> with a comparison \<open>lt\<close>.\<close>

definition sorts_by :: "('a \<Rightarrow> 'a \<Rightarrow> bool) \<Rightarrow> ('a list \<Rightarrow> 'a list) \<Rightarrow> bool" where
  "sorts_by lt srt \<longleftrightarrow> (\<forall>xs. mset (srt xs) = mset xs \<and> sorted_wrt (\<lambda>a b. \<not> lt b a) (srt xs))"

definition offset_less :: "buffered_candidate \<Rightarrow> buffered_candidate \<Rightarrow> bool" where
  "offset_less a b \<longleftrightarrow> ae_offset (bc_addr a) < ae_offset (bc_addr b)"

fun insert_reranked :: "(f32 \<times> address_entry) list \<Rightarrow> collector \<Rightarrow> search_stats \<Rightarrow> (collector \<times> search_stats) option" where
  "insert_reranked [] c st = Some (c, st)"
| "insert_reranked ((d, addr) # rest) c st = do {
     (c1, entered) \<leftarrow> TryInsert c d addr;
     insert_reranked rest c1 (bump reranked_candidates (bump total_reranked st))
   }"

text \<open>The distances in groups of 32 by the batch kernel, or one by one.\<close>

function batch_distances :: "(bytes list \<Rightarrow> f32 list) \<Rightarrow> bytes list \<Rightarrow> f32 list" where
  "batch_distances l2 vs =
     (if vs = [] then [] else l2 (take 32 vs) @ batch_distances l2 (drop 32 vs))"
  by pat_completeness auto
termination
  by (relation "measure (\<lambda>(l2, vs). length vs)") auto

declare batch_distances.simps [simp del]

definition rerank_distances ::
    "(bytes list \<Rightarrow> f32 list) \<Rightarrow> (bytes \<Rightarrow> f32) \<Rightarrow> search_config \<Rightarrow> bytes list \<Rightarrow> f32 list" where
  "rerank_distances l2_batch l2 cfg vs =
     (if sc_batched_distance_simd cfg then batch_distances l2_batch vs else map l2 vs)"

definition ExecuteBuffered ::
    "(buffered_candidate list \<Rightarrow> buffered_candidate list) \<Rightarrow> (bytes list \<Rightarrow> f32 list) \<Rightarrow> (bytes \<Rightarrow> f32)
      \<Rightarrow> search_config \<Rightarrow> rerank \<Rightarrow> collector \<Rightarrow> search_stats \<Rightarrow> (rerank \<times> collector \<times> search_stats) option" where
  "ExecuteBuffered srt l2_batch l2 cfg rk c st = do {
     let cands = srt (rk_buffered rk);
     let dists = rerank_distances l2_batch l2 cfg (map (\<lambda>b. vec_at rk (bc_vec b)) cands);
     (c1, st1) \<leftarrow> insert_reranked (zip dists (map bc_addr cands)) c st;
     Some (ResetVectorChunks (rk\<lparr>rk_buffered := []\<rparr>), c1, st1)
   }"

definition BufferedCount :: "rerank \<Rightarrow> nat" where
  "BufferedCount rk = wrap32 (length (rk_buffered rk))"


section \<open>Buffered vectors stay what they were\<close>

text \<open>A slab holds 1024 vectors; the sums in the size checks must not wrap.\<close>

definition slab_size :: "rerank \<Rightarrow> nat" where
  "slab_size rk = unat (rk_aligned rk) * 1024"

definition pointer_ok :: "rerank \<Rightarrow> nat \<times> nat \<Rightarrow> bool" where
  "pointer_ok rk p \<longleftrightarrow> fst p < length (rk_chunks rk)
     \<and> snd p + unat (rk_vec_bytes rk) \<le> vc_used (rk_chunks rk ! fst p)"

definition rerank_inv :: "rerank \<Rightarrow> bool" where
  "rerank_inv rk \<longleftrightarrow> rk_vec_bytes rk \<le> rk_aligned rk \<and> unat (rk_aligned rk) * 1025 < 4294967296
     \<and> (\<forall>c \<in> set (rk_chunks rk). vc_used c \<le> length (vc_storage c) \<and> length (vc_storage c) = slab_size rk)
     \<and> (\<forall>b \<in> set (rk_buffered rk). pointer_ok rk (bc_vec b))"

lemma length_fresh_block [simp]: "length (fresh_block g n) = n"
  by (simp add: fresh_block_def)

lemma length_splice [simp]: "pos + length bs \<le> length old \<Longrightarrow> length (splice pos bs old) = length old"
  by (simp add: splice_def)

lemma slice_splice_same: "pos + length bs \<le> length old \<Longrightarrow> slice pos (length bs) (splice pos bs old) = bs"
  by (simp add: splice_def slice_def)

lemma slice_splice_before:
  "off + n \<le> pos \<Longrightarrow> pos \<le> length old \<Longrightarrow> slice off n (splice pos bs old) = slice off n old"
  by (simp add: splice_def slice_def take_drop add.commute [of n])

lemma grow_size:
  assumes "unat (rk_aligned rk) * 1025 < 4294967296"
  shows "unat (max (rk_aligned rk * 1024) (rk_aligned rk)) = slab_size rk"
    and "unat (max (rk_aligned rk * 1024) (rk_aligned rk * 1024)) = slab_size rk"
proof -
  have m: "unat (rk_aligned rk * 1024) = unat (rk_aligned rk) * 1024"
    using assms by (simp add: unat_word_ariths)
  then have "rk_aligned rk \<le> rk_aligned rk * 1024" by (simp add: word_le_nat_alt)
  then show "unat (max (rk_aligned rk * 1024) (rk_aligned rk)) = slab_size rk"
    using m by (simp add: max_absorb1 slab_size_def)
  show "unat (max (rk_aligned rk * 1024) (rk_aligned rk * 1024)) = slab_size rk"
    using m by (simp add: slab_size_def)
qed

lemma rerank_new_inv:
  assumes "raw_dim * 4 \<le> 4190208"
  shows "rerank_inv (rerank_new answer raw_dim)" and "unat (rk_vec_bytes (rerank_new answer raw_dim)) = raw_dim * 4"
    and "rk_buffered (rerank_new answer raw_dim) = []" and "rk_payload (rerank_new answer raw_dim) = Map.empty"
proof -
  define vb :: u32 where "vb = of_nat (wrap32 (raw_dim * 4))"
  have vb: "unat vb = raw_dim * 4"
    unfolding vb_def unat_of_nat using assms by (simp del: of_nat_mult)
  have cov: "unat vb \<le> unat (align_4k vb)" using align_4k_covers(1) [of vb] vb assms by simp
  have "unat (align_4k vb) = (unat vb + 4095) div 4096 * 4096"
    using vb assms by (simp add: align_4k_unat)
  moreover have "(unat vb + 4095) div 4096 \<le> 1023" using vb assms by simp
  ultimately have al: "unat (align_4k vb) \<le> 4190208" by simp
  define rk where "rk = \<lparr>rk_vec_bytes = vb, rk_aligned = align_4k vb, rk_buffered = [], rk_chunks = [], rk_payload = Map.empty\<rparr>"
  have new: "rerank_new answer raw_dim = fst (GrowVectorChunk answer (rk_aligned rk * 1024) rk)"
    by (simp add: rerank_new_def vb_def rk_def Let_def)
  have g: "unat (max (rk_aligned rk * 1024) (rk_aligned rk * 1024)) = slab_size rk"
    by (rule grow_size(2)) (use al in \<open>simp add: rk_def\<close>)
  show "rerank_inv (rerank_new answer raw_dim)" "unat (rk_vec_bytes (rerank_new answer raw_dim)) = raw_dim * 4"
    "rk_buffered (rerank_new answer raw_dim) = []" "rk_payload (rerank_new answer raw_dim) = Map.empty"
    using cov al vb g unfolding new
    by (auto simp: GrowVectorChunk_def rk_def rerank_inv_def slab_size_def word_le_nat_alt split: option.splits)
qed

lemma Allocate_spec:
  assumes "rerank_inv rk" and "unat (rk_vec_bytes rk) \<le> length src"
  obtains rk' p where "AllocateVectorCopy (Some g) src rk = Some (rk', p)" and "rerank_inv rk'"
    and "pointer_ok rk' p" and "vec_at rk' p = take (unat (rk_vec_bytes rk)) src"
    and "rk_buffered rk' = rk_buffered rk" and "rk_payload rk' = rk_payload rk" and "rk_vec_bytes rk' = rk_vec_bytes rk"
    and "rk_aligned rk' = rk_aligned rk"
    and "\<And>q. pointer_ok rk q \<Longrightarrow> pointer_ok rk' q \<and> vec_at rk' q = vec_at rk q"
proof -
  let ?n = "unat (rk_vec_bytes rk)" and ?a = "unat (rk_aligned rk)"
  have na: "?n \<le> ?a" and a: "?a * 1025 < 4294967296" using assms(1) by (simp_all add: rerank_inv_def word_le_nat_alt)
  define full where "full \<longleftrightarrow> rk_chunks rk = [] \<or> length (vc_storage (last (rk_chunks rk)))
                  < wrap32 (vc_used (last (rk_chunks rk)) + ?a)"
  define rk1 where "rk1 = (if full then rk\<lparr>rk_chunks := rk_chunks rk @
      [\<lparr>vc_storage = fresh_block g (slab_size rk), vc_used = 0\<rparr>]\<rparr> else rk)"
  have first: "(if full then (let (r, ok) = GrowVectorChunk (Some g) (rk_aligned rk) rk in if ok then Some r else None)
      else Some rk) = Some rk1"
    using grow_size(1) [OF a] by (simp add: rk1_def GrowVectorChunk_def)
  have ne: "rk_chunks rk1 \<noteq> []" by (auto simp: rk1_def full_def)
  define cs where "cs = butlast (rk_chunks rk1)"
  define c where "c = last (rk_chunks rk1)"
  have chunks: "rk_chunks rk1 = cs @ [c]" using ne by (simp add: cs_def c_def)
  have inv1: "\<forall>c \<in> set (rk_chunks rk1). vc_used c \<le> length (vc_storage c) \<and> length (vc_storage c) = slab_size rk"
    using assms(1) by (auto simp: rk1_def rerank_inv_def)
  have small: "wrap32 (x + ?a) = x + ?a" if "x \<le> ?a * 1024" for x using that a by simp
  have room: "vc_used c + ?a \<le> slab_size rk"
  proof (cases full)
    case True
    then show ?thesis by (simp add: c_def rk1_def slab_size_def)
  next
    case False
    then have rk1: "rk1 = rk" "rk_chunks rk \<noteq> []" by (simp_all add: rk1_def full_def)
    then have "c \<in> set (rk_chunks rk1)" by (simp add: c_def)
    then have c: "vc_used c \<le> slab_size rk" "length (vc_storage c) = slab_size rk" using inv1 by metis+
    have "wrap32 (vc_used c + ?a) \<le> slab_size rk"
      using False rk1 c(2) by (simp add: full_def c_def not_less)
    then show ?thesis using small [of "vc_used c"] c(1) by (simp add: slab_size_def)
  qed
  have slab: "length (vc_storage c) = slab_size rk" using inv1 chunks by simp
  define c' where "c' = \<lparr>vc_storage = splice (vc_used c) (take ?n src) (vc_storage c), vc_used = vc_used c + ?a\<rparr>"
  define rk' where "rk' = rk1\<lparr>rk_chunks := cs @ [c']\<rparr>"
  define p where "p = (length cs, vc_used c)"
  have fields: "rk_vec_bytes rk1 = rk_vec_bytes rk" "rk_aligned rk1 = rk_aligned rk"
    "rk_buffered rk1 = rk_buffered rk" "rk_payload rk1 = rk_payload rk"
    by (simp_all add: rk1_def)
  have "vc_used c \<le> ?a * 1024" using room by (simp add: slab_size_def)
  then have alloc: "AllocateVectorCopy (Some g) src rk = Some (rk', p)"
    using first assms(2) room slab na small [of "vc_used c"] unfolding full_def
    by (simp add: AllocateVectorCopy_def chunks c'_def rk'_def p_def fields Let_def)
  have len: "vc_used c + length (take ?n src) \<le> length (vc_storage c)" using room slab na assms(2) by simp
  have old: "pointer_ok rk' q \<and> vec_at rk' q = vec_at rk q" if q: "pointer_ok rk q" for q
  proof -
    have q1: "pointer_ok rk1 q \<and> vec_at rk1 q = vec_at rk q"
      using q by (simp add: rk1_def pointer_ok_def vec_at_def nth_append)
    show ?thesis
    proof (cases "fst q < length cs")
      case True
      then show ?thesis using q1 by (simp add: rk'_def pointer_ok_def vec_at_def chunks nth_append)
    next
      case False
      then have "fst q = length cs" using q1 by (simp add: pointer_ok_def chunks)
      then show ?thesis
        using q1 slice_splice_before [of "snd q" ?n "vc_used c" "vc_storage c" "take ?n src"] room slab
        by (simp add: rk'_def pointer_ok_def vec_at_def chunks c'_def fields)
    qed
  qed
  show thesis
  proof (rule that [OF alloc])
    show "pointer_ok rk' p" using na by (simp add: rk'_def p_def pointer_ok_def c'_def fields)
    show "vec_at rk' p = take ?n src"
      using slice_splice_same [OF len] assms(2) by (simp add: rk'_def p_def vec_at_def c'_def fields)
    show "rk_buffered rk' = rk_buffered rk" "rk_payload rk' = rk_payload rk" "rk_vec_bytes rk' = rk_vec_bytes rk"
      "rk_aligned rk' = rk_aligned rk" by (simp_all add: rk'_def fields)
    show "\<And>q. pointer_ok rk q \<Longrightarrow> pointer_ok rk' q \<and> vec_at rk' q = vec_at rk q" by (rule old)
    have "vc_used c' \<le> length (vc_storage c') \<and> length (vc_storage c') = slab_size rk"
      using len slab room by (simp add: c'_def)
    then show "rerank_inv rk'"
      using assms(1) inv1 chunks old unfolding rerank_inv_def
      by (auto simp: rk'_def fields slab_size_def)
  qed
qed

text \<open>The candidates with the vectors their pointers read.\<close>

definition buffered_vectors :: "rerank \<Rightarrow> (address_entry \<times> bytes) list" where
  "buffered_vectors rk = map (\<lambda>b. (bc_addr b, vec_at rk (bc_vec b))) (rk_buffered rk)"

lemma ConsumeVec_spec:
  assumes "rerank_inv rk" and "mem buf = Some content" and "unat (rk_vec_bytes rk) \<le> length content"
  shows "\<exists>rk' st'. ConsumeVec (Some g) mem buf addr rk st = Some (rk', st') \<and> rerank_inv rk'
    \<and> buffered_vectors rk' = buffered_vectors rk @ [(addr, take (unat (rk_vec_bytes rk)) content)]
    \<and> rk_payload rk' = rk_payload rk \<and> rk_vec_bytes rk' = rk_vec_bytes rk \<and> rk_aligned rk' = rk_aligned rk"
proof -
  from Allocate_spec [OF assms(1,3), of g] obtain rk1 p where
    a: "AllocateVectorCopy (Some g) content rk = Some (rk1, p)" "rerank_inv rk1" "pointer_ok rk1 p"
      "vec_at rk1 p = take (unat (rk_vec_bytes rk)) content" "rk_buffered rk1 = rk_buffered rk"
      "rk_payload rk1 = rk_payload rk" "rk_vec_bytes rk1 = rk_vec_bytes rk" "rk_aligned rk1 = rk_aligned rk"
    and old: "\<And>q. pointer_ok rk q \<Longrightarrow> pointer_ok rk1 q \<and> vec_at rk1 q = vec_at rk q" by metis
  define rk' where "rk' = rk1\<lparr>rk_buffered := rk_buffered rk1 @ [\<lparr>bc_addr = addr, bc_vec = p\<rparr>]\<rparr>"
  have same: "pointer_ok rk' q = pointer_ok rk1 q" "vec_at rk' q = vec_at rk1 q" for q
    by (simp_all add: rk'_def pointer_ok_def vec_at_def)
  have "rerank_inv rk'"
    using a(2,3) same by (auto simp: rerank_inv_def rk'_def slab_size_def)
  moreover have "buffered_vectors rk' = buffered_vectors rk @ [(addr, take (unat (rk_vec_bytes rk)) content)]"
    using assms(1) old a(4,5) same by (auto simp: buffered_vectors_def rk'_def rerank_inv_def)
  moreover have "ConsumeVec (Some g) mem buf addr rk st = Some (rk', bump buffered_candidates st)"
    using assms(2) a(1) by (simp add: ConsumeVec_def rk'_def)
  ultimately show ?thesis using a by (auto simp: rk'_def)
qed

section \<open>The rerank offers every buffered candidate once\<close>

definition entry_of :: "(bytes \<Rightarrow> f32) \<Rightarrow> address_entry \<times> bytes \<Rightarrow> collector_entry" where
  "entry_of l2 av = \<lparr>ce_distance = l2 (snd av), ce_addr = fst av\<rparr>"

lemma insert_reranked_insert_all:
  "insert_all c (map (\<lambda>(d, a). \<lparr>ce_distance = d, ce_addr = a\<rparr>) das) = Some c' \<Longrightarrow>
     \<exists>st'. insert_reranked das c st = Some (c', st')"
proof (induction das arbitrary: c st)
  case (Cons da das)
  then show ?case by (cases da) (auto split: option.splits)
qed simp

lemma batch_distances_map:
  assumes "\<And>vs. length vs \<le> 32 \<Longrightarrow> l2_batch vs = map l2 vs"
  shows "batch_distances l2_batch vs = map l2 vs"
  using assms
proof (induction l2_batch vs rule: batch_distances.induct)
  case (1 l2_batch vs)
  show ?case
  proof (cases "vs = []")
    case False
    have "l2_batch (take 32 vs) = map l2 (take 32 vs)" by (rule 1(2)) simp
    moreover have "batch_distances l2_batch (drop 32 vs) = map l2 (drop 32 vs)" using 1 False by blast
    ultimately have "batch_distances l2_batch vs = map l2 (take 32 vs @ drop 32 vs)"
      using False by (subst batch_distances.simps) (simp only: map_append if_False)
    then show ?thesis by simp
  qed (subst batch_distances.simps, simp)
qed

lemma Execute_spec:
  assumes "sorts_by offset_less srt" and "insert_all (collector_new k) es = Some c'"
    and "es = map (entry_of l2) (map (\<lambda>b. (bc_addr b, vec_at rk (bc_vec b))) (srt (rk_buffered rk)))"
    and "sc_batched_distance_simd cfg \<Longrightarrow> \<forall>vs. length vs \<le> 32 \<longrightarrow> l2_batch vs = map l2 vs"
  shows "\<exists>rk' st'. ExecuteBuffered srt l2_batch l2 cfg rk (collector_new k) st = Some (rk', c', st')
    \<and> rk_payload rk' = rk_payload rk \<and> rk_vec_bytes rk' = rk_vec_bytes rk"
proof -
  let ?cands = "srt (rk_buffered rk)"
  have d: "rerank_distances l2_batch l2 cfg vs = map l2 vs" for vs
    using assms(4) batch_distances_map [of l2_batch l2 vs] by (auto simp: rerank_distances_def)
  have "map (\<lambda>(d, a). \<lparr>ce_distance = d, ce_addr = a\<rparr>)
      (zip (map l2 (map (\<lambda>b. vec_at rk (bc_vec b)) ?cands)) (map bc_addr ?cands)) = es"
    unfolding assms(3) by (rule nth_equalityI) (simp_all add: entry_of_def)
  from insert_reranked_insert_all [OF assms(2) [folded this]] obtain st' where
    "insert_reranked (zip (map l2 (map (\<lambda>b. vec_at rk (bc_vec b)) ?cands)) (map bc_addr ?cands)) (collector_new k) st
       = Some (c', st')" by blast
  then show ?thesis by (simp add: ExecuteBuffered_def d Let_def ResetVectorChunks_def)
qed

lemma sorted_candidates_mset:
  assumes "sorts_by offset_less srt"
  shows "mset (map (entry_of l2) (map (\<lambda>b. (bc_addr b, vec_at rk (bc_vec b))) (srt (rk_buffered rk)))) =
    mset (map (entry_of l2) (buffered_vectors rk))"
  using assms by (simp add: sorts_by_def buffered_vectors_def)

end
