(* ===== verification/Query_Io.thy ===== *)
theory Query_Io
  imports Read_Plans Rerank_Consumer Async_Reader
begin

text \<open>
  The I/O side of a query (src/query/overlap_scheduler.cpp): queued plans become read requests, the
  reader's completions are dispatched to the reranker, and the final drain waits for all of them.
  The reader is behind the virtual interface \<open>AsyncReader\<close>: \<open>reader_ops\<close> is its table of
  operations, and the locale \<open>faithful_reader\<close> states what the scheduler relies on, which is interpreted for
  the pread fallback.  On the resident path only the data reader gets requests (in shared mode it is
  the cluster reader), so the query has one reader.
\<close>

section \<open>The reader interface and the query's state\<close>

type_synonym memory = "nat \<rightharpoonup> bytes"

text \<open>\<open>rd_fixed\<close>: the two operations on registered buffers (with a registered file, without), when the
  reader is an io_uring reader; \<open>rd_registered_fd\<close> is \<open>data_fd_registered_index_\<close>.\<close>

record 'r reader_ops =
  rd_prep :: "'r \<Rightarrow> int \<Rightarrow> nat \<Rightarrow> nat \<Rightarrow> nat \<Rightarrow> nat \<Rightarrow> 'r \<times> status"
  rd_fixed :: "(('r \<Rightarrow> int \<Rightarrow> nat \<Rightarrow> nat \<Rightarrow> nat \<Rightarrow> nat \<Rightarrow> nat \<Rightarrow> 'r \<times> status)
      \<times> ('r \<Rightarrow> int \<Rightarrow> nat \<Rightarrow> nat \<Rightarrow> nat \<Rightarrow> nat \<Rightarrow> nat \<Rightarrow> 'r \<times> status)) option"
  rd_registered_fd :: int
  rd_submit :: "'r \<Rightarrow> memory \<Rightarrow> 'r \<times> memory \<times> nat"
  rd_poll :: "'r \<Rightarrow> memory \<Rightarrow> nat \<Rightarrow> 'r \<times> memory \<times> completion list"
  rd_wait :: "'r \<Rightarrow> memory \<Rightarrow> nat \<Rightarrow> 'r \<times> memory \<times> completion list"
  rd_in_flight :: "'r \<Rightarrow> nat"
  rd_prepped :: "'r \<Rightarrow> nat"

text \<open>What does not change during a query: the reader's operations, the configuration, the data
  file's descriptor, the answers of \<open>aligned_alloc\<close> for buffers and slabs (one of each for every
  point in time), and the sorting routines.\<close>

record 'r query_env =
  en_ops :: "'r reader_ops"
  en_cfg :: search_config
  en_fd :: int
  en_alloc :: "nat \<Rightarrow> nat option"
  en_slab :: "nat \<Rightarrow> (nat \<Rightarrow> u8) option"
  en_sort_addr :: "address_entry list \<Rightarrow> address_entry list"
  en_sort_plan :: "budgeted_plan list \<Rightarrow> budgeted_plan list"
  en_sort_cand :: "buffered_candidate list \<Rightarrow> buffered_candidate list"

record 'r query =
  qy_table :: slot_table
  qy_queues :: plan_queues
  qy_reader :: 'r
  qy_mem :: memory
  qy_rerank :: rerank
  qy_stats :: search_stats
  qy_clock :: nat

definition tick :: "'r query \<Rightarrow> 'r query" where
  "tick q = q\<lparr>qy_clock := qy_clock q + 1\<rparr>"

section \<open>Emitting requests\<close>

definition PendingDataRequestCount :: "plan_queues \<Rightarrow> nat" where
  "PendingDataRequestCount p = wrap32 (length (pq_all p) + (length (pq_vec p) - pq_vec_head p))"

text \<open>\<open>CheckPrepRead\<close>: a refused request aborts.\<close>

definition CheckPrepRead :: "'r \<times> status \<Rightarrow> 'r option" where
  "CheckPrepRead answer = (case snd answer of Inl err \<Rightarrow> None | Inr _ \<Rightarrow> Some (fst answer))"

definition emit_all_step :: "'r query_env \<Rightarrow> 'r query \<Rightarrow> 'r query option" where
  "emit_all_step en q =
     (case pq_all (qy_queues q) of
        [] \<Rightarrow> None
      | plan # rest \<Rightarrow> do {
          (t, slot_id, buf) \<leftarrow> emit_pooled (qy_table q)
             \<lparr>io_type = VEC_ALL, io_addr = rp_addr plan, io_read_offset = ae_offset (rp_addr plan),
              io_read_length = rp_read_length plan\<rparr> (en_alloc en (qy_clock q));
          r \<leftarrow> CheckPrepRead (rd_prep (en_ops en) (qy_reader q) (en_fd en) buf (unat (rp_read_length plan))
             (unat (ae_offset (rp_addr plan))) slot_id);
          Some (tick (q\<lparr>qy_table := t, qy_reader := r, qy_stats := bump all_read_requests (qy_stats q),
                        qy_queues := (qy_queues q)\<lparr>pq_all := rest\<rparr>\<rparr>))
        })"

text \<open>The choice among the three ways of preparing a vector read.\<close>

definition prep_vector ::
    "'r query_env \<Rightarrow> 'r \<Rightarrow> nat \<Rightarrow> nat option \<Rightarrow> nat \<Rightarrow> nat \<Rightarrow> nat \<Rightarrow> 'r \<times> status" where
  "prep_vector en r buf fixed len off slot_id =
     (let ops = en_ops en
      in case (fixed, rd_fixed ops) of
           (Some idx, Some (fixed_file, registered)) \<Rightarrow>
             (if 0 \<le> rd_registered_fd ops then fixed_file r (rd_registered_fd ops) buf idx len off slot_id
              else registered r (en_fd en) buf idx len off slot_id)
         | _ \<Rightarrow> rd_prep ops r (en_fd en) buf len off slot_id)"

definition emit_vec_step :: "'r query_env \<Rightarrow> 'r query \<Rightarrow> 'r query option" where
  "emit_vec_step en q =
     (let p = qy_queues q
      in if length (pq_vec p) \<le> pq_vec_head p then None
         else do {
           let addr = pq_vec p ! pq_vec_head p;
           (t, slot_id, buf, fixed) \<leftarrow> emit_vec_slot (qy_table q) addr (en_alloc en (qy_clock q));
           let st = bump (if fixed \<noteq> None then fixed_vec_buffer_hits else fixed_vec_buffer_misses) (qy_stats q);
           r \<leftarrow> CheckPrepRead (prep_vector en (qy_reader q) buf fixed (unat (st_vec_bytes (qy_table q)))
              (unat (ae_offset addr)) slot_id);
           Some (tick (q\<lparr>qy_table := t, qy_reader := r, qy_stats := bump vec_only_read_requests st,
                         qy_queues := p\<lparr>pq_vec_head := pq_vec_head p + 1\<rparr>\<rparr>))
         })"

fun repeat_step :: "('s \<Rightarrow> 's option) \<Rightarrow> nat \<Rightarrow> 's \<Rightarrow> 's option" where
  "repeat_step step 0 s = Some s"
| "repeat_step step (Suc n) s = (case step s of None \<Rightarrow> None | Some t \<Rightarrow> repeat_step step n t)"

text \<open>Sorting by file offset in windows of \<open>w\<close>.\<close>

function sort_windows :: "('a list \<Rightarrow> 'a list) \<Rightarrow> nat \<Rightarrow> 'a list \<Rightarrow> 'a list" where
  "sort_windows srt w xs = (if xs = [] \<or> w = 0 then xs else srt (take w xs) @ sort_windows srt w (drop w xs))"
  by pat_completeness auto
termination
  by (relation "measure (\<lambda>(srt, w, xs). length xs)") auto

declare sort_windows.simps [simp del]

definition sort_vec_only_window :: "'r query_env \<Rightarrow> nat \<Rightarrow> 'r query \<Rightarrow> 'r query" where
  "sort_vec_only_window en n_req q =
     (let cfg = en_cfg en; p = qy_queues q; head = pq_vec_head p; end_pos = min (length (pq_vec p)) (head + n_req);
          window = unat (sc_address_sort_window cfg); part = slice head (end_pos - head) (pq_vec p);
          sorted_part = (if window = 0 \<or> end_pos - head \<le> window then en_sort_addr en part
                         else sort_windows (en_sort_addr en) window part)
      in if \<not> sc_enable_address_sort cfg \<or> n_req \<le> 1 then q
         else if end_pos \<le> head + 1 then q
         else q\<lparr>qy_queues := p\<lparr>pq_vec := take head (pq_vec p) @ sorted_part @ drop end_pos (pq_vec p)\<rparr>,
                qy_stats := add_count address_sorted_requests (of_nat (end_pos - head)) (qy_stats q)\<rparr>)"

definition EmitPendingDataRequests :: "'r query_env \<Rightarrow> nat \<Rightarrow> 'r query \<Rightarrow> 'r query option" where
  "EmitPendingDataRequests en max_count q =
     (let remaining = min max_count (PendingDataRequestCount (qy_queues q))
      in if max_count = 0 \<or> remaining = 0 then Some q
         else do {
           let all_take = min remaining (wrap32 (length (pq_all (qy_queues q))));
           q1 \<leftarrow> repeat_step (emit_all_step en) all_take q;
           repeat_step (emit_vec_step en) (remaining - all_take) (sort_vec_only_window en (remaining - all_take) q1)
         })"

section \<open>Submitting and dispatching\<close>

definition record_submit :: "'r query_env \<Rightarrow> 'r query \<Rightarrow> 'r query" where
  "record_submit en q =
     (let (r, m, n) = rd_submit (en_ops en) (qy_reader q) (qy_mem q);
          st = add_count total_io_submitted (of_nat n) (qy_stats q)
      in q\<lparr>qy_reader := r, qy_mem := m, qy_stats := (if 0 < n then bump total_submit_calls st else st)\<rparr>)"

text \<open>The result of a completion is not looked at.\<close>

definition DispatchCompletion :: "'r query_env \<Rightarrow> nat \<Rightarrow> 'r query \<Rightarrow> 'r query option" where
  "DispatchCompletion en token q =
     (case dispatch_slot (qy_table q) token of
        (t, None) \<Rightarrow> Some q
      | (t, Some slot) \<Rightarrow> do {
          buf \<leftarrow> ps_buffer slot;
          let addr = io_addr (ps_io slot);
          (case io_type (ps_io slot) of
             VEC_ONLY \<Rightarrow> do {
               (rk, st) \<leftarrow> ConsumeVec (en_slab en (qy_clock q)) (qy_mem q) buf addr (qy_rerank q) (qy_stats q);
               Some (tick (q\<lparr>qy_table := t, qy_rerank := rk, qy_stats := st\<rparr>))
             }
           | VEC_ALL \<Rightarrow> do {
               (rk, m, st) \<leftarrow> ConsumeAll (en_slab en (qy_clock q)) (en_alloc en (qy_clock q)) (qy_mem q) buf addr
                 (qy_rerank q) (qy_stats q);
               Some (tick (q\<lparr>qy_table := t, qy_rerank := rk, qy_mem := m, qy_stats := st\<rparr>))
             }
           | PAYLOAD \<Rightarrow>
               (let (rk, st) = ConsumePayload buf addr (qy_rerank q) (qy_stats q)
                in Some (tick (q\<lparr>qy_table := t, qy_rerank := rk, qy_stats := st\<rparr>))))
        })"

fun dispatch_all :: "'r query_env \<Rightarrow> completion list \<Rightarrow> 'r query \<Rightarrow> 'r query option" where
  "dispatch_all en [] q = Some q"
| "dispatch_all en (c # cs) q =
     (case DispatchCompletion en (ic_user_data c) q of None \<Rightarrow> None | Some q1 \<Rightarrow> dispatch_all en cs q1)"

text \<open>The scratch holds 128 completions.\<close>

definition poll_once :: "'r query_env \<Rightarrow> 'r query \<Rightarrow> ('r query \<times> nat) option" where
  "poll_once en q =
     (let (r, m, cs) = rd_poll (en_ops en) (qy_reader q) (qy_mem q) 128
      in map_option (\<lambda>q1. (q1, length cs)) (dispatch_all en cs (q\<lparr>qy_reader := r, qy_mem := m\<rparr>)))"

definition wait_once :: "'r query_env \<Rightarrow> 'r query \<Rightarrow> 'r query option" where
  "wait_once en q =
     (let (r, m, cs) = rd_wait (en_ops en) (qy_reader q) (qy_mem q) 128
      in dispatch_all en cs (q\<lparr>qy_reader := r, qy_mem := m\<rparr>))"

partial_function (option) wait_all :: "'r query_env \<Rightarrow> 'r query \<Rightarrow> 'r query option" where
  "wait_all en q =
     (if rd_in_flight (en_ops en) (qy_reader q) = 0 then Some q
      else case wait_once en q of None \<Rightarrow> None | Some q1 \<Rightarrow> wait_all en q1)"

partial_function (option) poll_all :: "'r query_env \<Rightarrow> 'r query \<Rightarrow> 'r query option" where
  "poll_all en q =
     (case poll_once en q of
        None \<Rightarrow> None
      | Some (q1, n) \<Rightarrow> if n = 0 then Some q1 else poll_all en q1)"

text \<open>\<open>drain_reader\<close> of \<open>FinalDrain\<close> (also the drain of \<open>FetchMissingPayloads\<close>).\<close>

definition drain_reader :: "'r query_env \<Rightarrow> 'r query \<Rightarrow> 'r query option" where
  "drain_reader en q = do { q1 \<leftarrow> wait_all en q; poll_all en q1 }"

definition FinalDrain :: "'r query_env \<Rightarrow> 'r query \<Rightarrow> 'r query option" where
  "FinalDrain en q = do {
     q1 \<leftarrow> drain_reader en q;
     Some (q1\<lparr>qy_table := CleanupPendingSlots (qy_table q1)\<rparr>)
   }"

end
