(* ===== verification/Data_Reader.thy ===== *)
theory Data_Reader
  imports Query_Io
begin

text \<open>
  What the overlap scheduler relies on from its \<open>AsyncReader\<close> (include/vdb/query/async_reader.h) on a data file
  with the bytes \<open>content\<close>: a prepared read is delivered once, under its tag, and then its buffer holds the
  bytes of the file.  The locale is interpreted for the pread fallback
  (src/query/pread_fallback_reader.cpp).
\<close>

section \<open>Requests\<close>

record read_request =
  rq_buf :: nat
  rq_len :: nat
  rq_off :: nat

definition holds_read :: "bytes \<Rightarrow> memory \<Rightarrow> read_request \<Rightarrow> bool" where
  "holds_read content m q \<longleftrightarrow> (\<exists>c. m (rq_buf q) = Some c \<and> rq_len q \<le> length c
     \<and> take (rq_len q) c = slice (rq_off q) (rq_len q) content)"

definition bufs_of :: "(nat \<rightharpoonup> read_request) \<Rightarrow> nat set" where
  "bufs_of R = rq_buf ` ran R"

lemma bufs_of_I: "R t = Some q \<Longrightarrow> rq_buf q \<in> bufs_of R"
  by (auto simp: bufs_of_def intro: ranI)

lemma bufs_of_E: "b \<in> bufs_of R \<Longrightarrow> (\<And>t q. R t = Some q \<Longrightarrow> rq_buf q = b \<Longrightarrow> thesis) \<Longrightarrow> thesis"
  by (auto simp: bufs_of_def ran_def)

lemma bufs_of_restrict: "bufs_of (R |` A) \<subseteq> bufs_of R"
  by (auto simp: bufs_of_def ran_def restrict_map_def split: if_splits)

lemma holds_read_cong: "m' (rq_buf q) = m (rq_buf q) \<Longrightarrow> holds_read content m' q = holds_read content m q"
  by (simp add: holds_read_def)

text \<open>The tags of a list of completions.\<close>

definition tags_of :: "completion list \<Rightarrow> nat list" where
  "tags_of cs = map ic_user_data cs"

text \<open>A poll that delivers \<open>cs\<close>: each tag once, each from an outstanding request whose bytes are in its
  buffer; other buffers are not written.\<close>

definition delivery ::
    "bytes \<Rightarrow> ('r \<Rightarrow> memory \<Rightarrow> (nat \<rightharpoonup> read_request) \<Rightarrow> bool) \<Rightarrow> (nat \<rightharpoonup> read_request) \<Rightarrow> memory
      \<Rightarrow> 'r \<times> memory \<times> completion list \<Rightarrow> bool" where
  "delivery content tracks R m answer =
     (case answer of (r', m', cs) \<Rightarrow>
        distinct (tags_of cs) \<and> tracks r' m' (R |` (- set (tags_of cs)))
        \<and> (\<forall>t \<in> set (tags_of cs). \<exists>q. R t = Some q \<and> holds_read content m' q)
        \<and> (\<forall>b. b \<notin> bufs_of R \<longrightarrow> m' b = m b))"

locale faithful_reader =
  fixes ops :: "'r reader_ops"
    and fd :: int
    and content :: bytes
    and registered :: "nat \<Rightarrow> nat"
    and tracks :: "'r \<Rightarrow> memory \<Rightarrow> (nat \<rightharpoonup> read_request) \<Rightarrow> bool"
  assumes tracks_finite: "tracks r m R \<Longrightarrow> finite (dom R)"
    and tracks_frame: "tracks r m R \<Longrightarrow> \<forall>b \<in> bufs_of R. m' b = m b \<Longrightarrow> tracks r m' R"
    and prep: "tracks r m R \<Longrightarrow> R t = None \<Longrightarrow> card (dom R) < 4294967295 \<Longrightarrow> rq_buf q \<notin> bufs_of R
      \<Longrightarrow> rq_off q + rq_len q \<le> length content
      \<Longrightarrow> \<exists>r'. rd_prep ops r fd (rq_buf q) (rq_len q) (rq_off q) t = (r', Inr ()) \<and> tracks r' m (R(t \<mapsto> q))
            \<and> rd_prepped ops r' \<noteq> 0"
    and prep_fixed: "tracks r m R \<Longrightarrow> R t = None \<Longrightarrow> card (dom R) < 4294967295 \<Longrightarrow> rq_buf q \<notin> bufs_of R
      \<Longrightarrow> rq_off q + rq_len q \<le> length content \<Longrightarrow> rd_fixed ops = Some (fixed_file, plain_file) \<Longrightarrow> registered i = rq_buf q
      \<Longrightarrow> (0 \<le> rd_registered_fd ops \<longrightarrow>
            (\<exists>r'. fixed_file r (rd_registered_fd ops) (rq_buf q) i (rq_len q) (rq_off q) t = (r', Inr ())
              \<and> tracks r' m (R(t \<mapsto> q))))
        \<and> (\<exists>r'. plain_file r fd (rq_buf q) i (rq_len q) (rq_off q) t = (r', Inr ()) \<and> tracks r' m (R(t \<mapsto> q)))"
    and submit: "tracks r m R \<Longrightarrow> rd_submit ops r m = (r', m', n) \<Longrightarrow>
      tracks r' m' R \<and> rd_prepped ops r' = 0 \<and> (\<forall>b. b \<notin> bufs_of R \<longrightarrow> m' b = m b)"
    and poll: "tracks r m R \<Longrightarrow> delivery content tracks R m (rd_poll ops r m k)"
    and wait: "tracks r m R \<Longrightarrow> delivery content tracks R m (rd_wait ops r m k)"
    and poll_counters: "tracks r m R \<Longrightarrow> rd_poll ops r m k = (r', m', cs) \<Longrightarrow>
      (rd_prepped ops r = 0 \<longrightarrow> rd_prepped ops r' = 0) \<and> (rd_in_flight ops r = 0 \<longrightarrow> rd_in_flight ops r' = 0)"
    and wait_counters: "tracks r m R \<Longrightarrow> rd_wait ops r m k = (r', m', cs) \<Longrightarrow>
      rd_prepped ops r = 0 \<longrightarrow> rd_prepped ops r' = 0"
    and wait_progress: "tracks r m R \<Longrightarrow> rd_wait ops r m k = (r', m', cs) \<Longrightarrow> 0 < k \<Longrightarrow> rd_in_flight ops r \<noteq> 0 \<Longrightarrow> cs \<noteq> []"
    and poll_progress: "tracks r m R \<Longrightarrow> rd_poll ops r m k = (r', m', cs) \<Longrightarrow> 0 < k \<Longrightarrow> rd_in_flight ops r = 0
      \<Longrightarrow> rd_prepped ops r = 0 \<Longrightarrow> dom R \<noteq> {} \<Longrightarrow> cs \<noteq> []"

section \<open>The pread fallback\<close>

definition fallback_ops :: "(pending_read \<Rightarrow> nat + bytes) \<Rightarrow> fallback_reader reader_ops" where
  "fallback_ops pread = \<lparr>rd_prep = fr_PrepReadTagged, rd_fixed = None, rd_registered_fd = -1,
     rd_submit = fr_Submit pread,
     rd_poll = (\<lambda>r m k. case fr_Poll r k of (r', cs) \<Rightarrow> (r', m, cs)),
     rd_wait = (\<lambda>r m k. case fr_WaitAndPoll r k of (r', cs) \<Rightarrow> (r', m, cs)),
     rd_in_flight = fr_InFlight, rd_prepped = fr_prepped\<rparr>"

text \<open>What \<open>pread\<close> promises for a regular file of these bytes, no error and no short read inside it.\<close>

definition reads_file :: "(pending_read \<Rightarrow> nat + bytes) \<Rightarrow> int \<Rightarrow> bytes \<Rightarrow> bool" where
  "reads_file pread fd content \<longleftrightarrow> (\<forall>e. pr_fd e = fd \<and> pr_offset e + pr_len e \<le> length content \<longrightarrow>
     pread e = Inr (slice (pr_offset e) (pr_len e) content))"

definition request_of :: "pending_read \<Rightarrow> read_request" where
  "request_of e = \<lparr>rq_buf = pr_buf e, rq_len = pr_len e, rq_off = pr_offset e\<rparr>"

definition fallback_tracks ::
    "int \<Rightarrow> bytes \<Rightarrow> fallback_reader \<Rightarrow> memory \<Rightarrow> (nat \<rightharpoonup> read_request) \<Rightarrow> bool" where
  "fallback_tracks fd content r m R \<longleftrightarrow>
     distinct (map pr_user_data (fr_pending r) @ tags_of (fr_completed r))
     \<and> dom R = set (map pr_user_data (fr_pending r) @ tags_of (fr_completed r))
     \<and> card (dom R) < 4294967296
     \<and> (\<forall>e \<in> set (fr_pending r). pr_fd e = fd \<and> pr_offset e + pr_len e \<le> length content
          \<and> R (pr_user_data e) = Some (request_of e))
     \<and> (\<forall>t \<in> set (tags_of (fr_completed r)). \<exists>q. R t = Some q \<and> holds_read content m q)
     \<and> (\<forall>t t' q q'. R t = Some q \<and> R t' = Some q' \<and> t \<noteq> t' \<longrightarrow> rq_buf q \<noteq> rq_buf q')"

lemma fallback_tracks_length:
  assumes "fallback_tracks fd content r m R"
  shows "length (fr_pending r) + length (fr_completed r) = card (dom R)"
    and "length (fr_pending r) + length (fr_completed r) < 4294967296"
proof -
  have "length (map pr_user_data (fr_pending r) @ tags_of (fr_completed r)) = card (dom R)"
    using assms by (metis distinct_card fallback_tracks_def)
  then have len: "length (fr_pending r) + length (fr_completed r) = card (dom R)" by (simp add: tags_of_def)
  then show "length (fr_pending r) + length (fr_completed r) = card (dom R)" .
  have "card (dom R) < 4294967296" using assms unfolding fallback_tracks_def by blast
  then show "length (fr_pending r) + length (fr_completed r) < 4294967296" using len by simp
qed

lemma overwrite_all: "take (length bs) (overwrite old bs) = bs" "length bs \<le> length (overwrite old bs)"
  by (simp_all add: overwrite_def)

lemma fallback_prep:
  assumes "fallback_tracks fd content r m R" and "R t = None" and "card (dom R) < 4294967295"
    and "rq_buf q \<notin> bufs_of R" and "rq_off q + rq_len q \<le> length content"
  shows "fallback_tracks fd content (fst (fr_PrepReadTagged r fd (rq_buf q) (rq_len q) (rq_off q) t)) m (R(t \<mapsto> q))"
proof -
  have fin: "finite (dom R)" using assms(1) by (simp add: fallback_tracks_def)
  have new: "t \<notin> dom R" using assms(2) by blast
  have card: "card (insert t (dom R)) < 4294967296" using assms(3) fin new by simp
  have buf: "rq_buf q' \<noteq> rq_buf q" if "R u = Some q'" for u q' using assms(4) bufs_of_I [of R u q'] that by metis
  have e: "request_of \<lparr>pr_fd = fd, pr_buf = rq_buf q, pr_len = rq_len q, pr_offset = rq_off q, pr_user_data = t\<rparr> = q"
    by (simp add: request_of_def)
  have tag: "pr_user_data e \<noteq> t" if "e \<in> set (fr_pending r)" for e
    using assms(1) new that by (auto simp: fallback_tracks_def)
  have ctag: "u \<noteq> t" if "u \<in> set (tags_of (fr_completed r))" for u
    using assms(1) new that by (auto simp: fallback_tracks_def)
  have inj: "\<forall>u u' p p'. (R(t \<mapsto> q)) u = Some p \<and> (R(t \<mapsto> q)) u' = Some p' \<and> u \<noteq> u' \<longrightarrow> rq_buf p \<noteq> rq_buf p'"
  proof (intro allI impI)
    fix u u' p p'
    assume h: "(R(t \<mapsto> q)) u = Some p \<and> (R(t \<mapsto> q)) u' = Some p' \<and> u \<noteq> u'"
    show "rq_buf p \<noteq> rq_buf p'"
    proof (cases "u = t \<or> u' = t")
      case True
      then show ?thesis using h buf by (metis fun_upd_apply option.inject)
    next
      case False
      then have "R u = Some p" "R u' = Some p'" using h by simp_all
      then show ?thesis using assms(1) h unfolding fallback_tracks_def by blast
    qed
  qed
  have pend: "\<forall>e \<in> set (fr_pending r). pr_fd e = fd \<and> pr_offset e + pr_len e \<le> length content
      \<and> R (pr_user_data e) = Some (request_of e)"
    and comp: "\<forall>u \<in> set (tags_of (fr_completed r)). \<exists>p. R u = Some p \<and> holds_read content m p"
    and tags: "distinct (map pr_user_data (fr_pending r) @ tags_of (fr_completed r))"
      "dom R = set (map pr_user_data (fr_pending r) @ tags_of (fr_completed r))"
    using assms(1) unfolding fallback_tracks_def by blast+
  show ?thesis
    unfolding fallback_tracks_def fr_PrepReadTagged_def fst_conv
  proof (intro conjI)
    show "card (dom (R(t \<mapsto> q))) < 4294967296" using card by simp
    show "\<forall>u u' p p'. (R(t \<mapsto> q)) u = Some p \<and> (R(t \<mapsto> q)) u' = Some p' \<and> u \<noteq> u' \<longrightarrow> rq_buf p \<noteq> rq_buf p'"
      by (rule inj)
  qed (use pend comp tags assms(5) e tag ctag new in simp_all)
qed

lemma fallback_submit:
  assumes "fallback_tracks fd content r m R" and "reads_file pread fd content"
    and "fr_Submit pread r m = (r', m', n)"
  shows "fallback_tracks fd content r' m' R \<and> fr_prepped r' = 0 \<and> (\<forall>b. b \<notin> bufs_of R \<longrightarrow> m' b = m b)"
proof -
  let ?ps = "fr_pending r"
  have tr: "distinct (map pr_user_data ?ps)" "\<forall>e \<in> set ?ps. R (pr_user_data e) = Some (request_of e)"
    "\<forall>e \<in> set ?ps. pr_fd e = fd \<and> pr_offset e + pr_len e \<le> length content"
    and inj: "\<And>t t' q q'. R t = Some q \<Longrightarrow> R t' = Some q' \<Longrightarrow> t \<noteq> t' \<Longrightarrow> rq_buf q \<noteq> rq_buf q'"
    using assms(1) by (auto simp: fallback_tracks_def)
  have r': "r' = \<lparr>fr_pending = [], fr_completed = fr_completed r @ map (complete_read pread) ?ps\<rparr>"
    and m': "m' = foldl (store_read pread) m ?ps" using assms(3) by (simp_all add: fr_Submit_def)
  have req: "rq_buf (request_of e) = pr_buf e" for e by (simp add: request_of_def)
  have bufs: "distinct (map pr_buf ?ps)"
    unfolding distinct_map
  proof (intro conjI inj_onI)
    show "distinct ?ps" using tr(1) by (simp add: distinct_map)
    fix e e'
    assume h: "e \<in> set ?ps" "e' \<in> set ?ps" "pr_buf e = pr_buf e'"
    then have "pr_user_data e = pr_user_data e'" using inj tr(2) req by metis
    then show "e = e'" using tr(1) h by (auto simp: distinct_map inj_on_def)
  qed
  note mem = foldl_store_read [OF bufs, of pread m, folded m']
  have done': "holds_read content m' (request_of e)" if e: "e \<in> set ?ps" for e
  proof -
    have "pread e = Inr (slice (pr_offset e) (pr_len e) content)" using assms(2) tr(3) e by (simp add: reads_file_def)
    moreover have "find (\<lambda>x. pr_buf x = pr_buf e) ?ps = Some e" by (rule find_distinct [OF bufs e])
    ultimately have "m' (pr_buf e) = Some (overwrite (m (pr_buf e)) (slice (pr_offset e) (pr_len e) content))"
      using mem by simp
    moreover have "length (slice (pr_offset e) (pr_len e) content) = pr_len e" using tr(3) e by (fastforce simp: min_def)
    ultimately show ?thesis using overwrite_all [of "slice (pr_offset e) (pr_len e) content"]
      by (auto simp: holds_read_def request_of_def)
  qed
  have keep: "m' b = m b" if "b \<notin> pr_buf ` set ?ps" for b
  proof -
    have "find (\<lambda>x. pr_buf x = b) ?ps = None" using that by (auto simp: find_None_iff)
    then show ?thesis using mem by simp
  qed
  have old: "holds_read content m' q" if "t \<in> set (tags_of (fr_completed r))" "R t = Some q" "holds_read content m q" for t q
  proof -
    have "rq_buf q \<notin> pr_buf ` set ?ps"
    proof
      assume "rq_buf q \<in> pr_buf ` set ?ps"
      then obtain e where e: "e \<in> set ?ps" "rq_buf q = rq_buf (request_of e)" by (auto simp: req)
      then have "t = pr_user_data e" using inj [OF that(2), of "pr_user_data e" "request_of e"] tr(2) by auto
      then show False using assms(1) e(1) that(1) by (auto simp: fallback_tracks_def)
    qed
    then show ?thesis using keep that(3) holds_read_cong by metis
  qed
  have tags: "tags_of (fr_completed r') = tags_of (fr_completed r) @ map pr_user_data ?ps"
    by (simp add: r' tags_of_def comp_def)
  have held: "\<forall>t \<in> set (tags_of (fr_completed r')). \<exists>q. R t = Some q \<and> holds_read content m' q"
    using assms(1) tr(2) done' old unfolding tags fallback_tracks_def by auto
  have ds: "distinct (tags_of (fr_completed r'))" using assms(1) unfolding tags fallback_tracks_def by auto
  have dm: "dom R = set (tags_of (fr_completed r'))" using assms(1) unfolding tags fallback_tracks_def by auto
  have card: "card (dom R) < 4294967296" using assms(1) unfolding fallback_tracks_def by blast
  have p': "fr_pending r' = []" by (simp add: r')
  have "fallback_tracks fd content r' m' R"
    unfolding fallback_tracks_def p' list.map append_Nil
  proof (intro conjI)
    show "\<forall>t t' q q'. R t = Some q \<and> R t' = Some q' \<and> t \<noteq> t' \<longrightarrow> rq_buf q \<noteq> rq_buf q'"
      using inj by blast
  qed (use held ds dm card in \<open>simp_all only: list.set ball_empty\<close>)
  moreover have "\<forall>b. b \<notin> bufs_of R \<longrightarrow> m' b = m b"
  proof (intro allI impI)
    fix b
    assume "b \<notin> bufs_of R"
    then show "m' b = m b" using keep bufs_of_I tr(2) req by (metis imageE)
  qed
  ultimately show ?thesis by (simp add: r' fr_prepped_def)
qed

lemma fallback_poll:
  assumes "fallback_tracks fd content r m R" and "fr_Poll r k = (r', cs)"
  shows "delivery content (fallback_tracks fd content) R m (r', m, cs)"
    and "fr_prepped r' = fr_prepped r" and "0 < k \<Longrightarrow> fr_prepped r = 0 \<Longrightarrow> dom R \<noteq> {} \<Longrightarrow> cs \<noteq> []"
proof -
  have fin: "finite (dom R)" using assms(1) by (simp add: fallback_tracks_def)
  define n where "n = min k (length (fr_completed r))"
  have less: "length (fr_completed r) < 4294967296" using fallback_tracks_length [OF assms(1)] by simp
  then have r': "r' = r\<lparr>fr_completed := drop n (fr_completed r)\<rparr>" and cs: "cs = take n (fr_completed r)"
    using assms(2) by (auto simp: fr_Poll_def n_def Let_def)
  have split: "tags_of (fr_completed r) = tags_of cs @ tags_of (fr_completed r')"
    unfolding r' cs tags_of_def by (simp flip: map_append)
  show "fr_prepped r' = fr_prepped r" by (simp add: fr_prepped_def r')
  have pend: "fr_pending r' = fr_pending r" by (simp add: r')
  let ?R = "R |` (- set (tags_of cs))"
  have tr: "distinct (map pr_user_data (fr_pending r) @ tags_of cs @ tags_of (fr_completed r'))"
    "dom R = set (map pr_user_data (fr_pending r) @ tags_of cs @ tags_of (fr_completed r'))"
    using assms(1) unfolding fallback_tracks_def split by blast+
  have "card (dom ?R) \<le> card (dom R)" by (rule card_mono [OF fin]) auto
  then have card: "card (dom ?R) < 4294967296" using assms(1) unfolding fallback_tracks_def by linarith
  have "dom ?R = set (map pr_user_data (fr_pending r') @ tags_of (fr_completed r'))"
    using tr by (auto simp: pend)
  moreover have "\<forall>t t' q q'. ?R t = Some q \<and> ?R t' = Some q' \<and> t \<noteq> t' \<longrightarrow> rq_buf q \<noteq> rq_buf q'"
    using assms(1) by (auto simp: fallback_tracks_def restrict_map_def split: if_splits)
  moreover have "\<forall>e \<in> set (fr_pending r'). pr_fd e = fd \<and> pr_offset e + pr_len e \<le> length content
          \<and> ?R (pr_user_data e) = Some (request_of e)"
    using assms(1) tr(1) by (auto simp: pend fallback_tracks_def restrict_map_def)
  moreover have "\<forall>t \<in> set (tags_of (fr_completed r')). \<exists>q. ?R t = Some q \<and> holds_read content m q"
    using assms(1) tr(1) split by (auto simp: fallback_tracks_def restrict_map_def)
  moreover have "distinct (map pr_user_data (fr_pending r') @ tags_of (fr_completed r'))" using tr(1) pend by auto
  ultimately have "fallback_tracks fd content r' m ?R" unfolding fallback_tracks_def using card by blast
  moreover have "\<forall>t \<in> set (tags_of cs). \<exists>q. R t = Some q \<and> holds_read content m q"
    using assms(1) split by (auto simp: fallback_tracks_def)
  ultimately show "delivery content (fallback_tracks fd content) R m (r', m, cs)"
    using tr(1) by (simp add: delivery_def)
  assume k: "0 < k" and p: "fr_prepped r = 0" and R: "dom R \<noteq> {}"
  have "fr_pending r = []" using p fallback_tracks_length [OF assms(1)] by (simp add: fr_prepped_def)
  then have "fr_completed r \<noteq> []" using R assms(1) by (auto simp: fallback_tracks_def tags_of_def)
  then show "cs \<noteq> []" using k by (simp add: cs n_def)
qed

lemma fallback_faithful:
  assumes "reads_file pread fd content"
  shows "faithful_reader (fallback_ops pread) fd content registered (fallback_tracks fd content)"
proof
  fix r r' m m' R t q k n cs i fixed_file plain_file
  assume tr: "fallback_tracks fd content r m R"
  show "finite (dom R)" using tr by (simp add: fallback_tracks_def)
  show "\<forall>b \<in> bufs_of R. m' b = m b \<Longrightarrow> fallback_tracks fd content r m' R"
    using tr unfolding fallback_tracks_def by (metis bufs_of_I holds_read_cong)
  show "R t = None \<Longrightarrow> card (dom R) < 4294967295 \<Longrightarrow> rq_buf q \<notin> bufs_of R \<Longrightarrow> rq_off q + rq_len q \<le> length content
      \<Longrightarrow> \<exists>r'. rd_prep (fallback_ops pread) r fd (rq_buf q) (rq_len q) (rq_off q) t = (r', Inr ())
            \<and> fallback_tracks fd content r' m (R(t \<mapsto> q)) \<and> rd_prepped (fallback_ops pread) r' \<noteq> 0"
    using fallback_prep [OF tr] fallback_tracks_length [OF tr]
    by (auto simp: fallback_ops_def fr_PrepReadTagged_def fr_prepped_def)
  show "rd_fixed (fallback_ops pread) = Some (fixed_file, plain_file) \<Longrightarrow> (0 \<le> rd_registered_fd (fallback_ops pread) \<longrightarrow>
            (\<exists>r'. fixed_file r (rd_registered_fd (fallback_ops pread)) (rq_buf q) i (rq_len q) (rq_off q) t = (r', Inr ())
              \<and> fallback_tracks fd content r' m (R(t \<mapsto> q))))
        \<and> (\<exists>r'. plain_file r fd (rq_buf q) i (rq_len q) (rq_off q) t = (r', Inr ()) \<and> fallback_tracks fd content r' m (R(t \<mapsto> q)))"
    by (simp add: fallback_ops_def)
  show "rd_submit (fallback_ops pread) r m = (r', m', n) \<Longrightarrow> fallback_tracks fd content r' m' R
      \<and> rd_prepped (fallback_ops pread) r' = 0 \<and> (\<forall>b. b \<notin> bufs_of R \<longrightarrow> m' b = m b)"
    using fallback_submit [OF tr assms] by (simp add: fallback_ops_def)
  obtain r1 cs1 where p: "fr_Poll r k = (r1, cs1)" by fastforce
  note fp = fallback_poll [OF tr p]
  have ops: "rd_poll (fallback_ops pread) r m k = (r1, m, cs1)" "rd_wait (fallback_ops pread) r m k = (r1, m, cs1)"
    using p by (simp_all add: fallback_ops_def fr_WaitAndPoll_def)
  show "delivery content (fallback_tracks fd content) R m (rd_poll (fallback_ops pread) r m k)"
    "delivery content (fallback_tracks fd content) R m (rd_wait (fallback_ops pread) r m k)"
    unfolding ops by (rule fp(1))+
  show "rd_poll (fallback_ops pread) r m k = (r', m', cs) \<Longrightarrow>
      (rd_prepped (fallback_ops pread) r = 0 \<longrightarrow> rd_prepped (fallback_ops pread) r' = 0)
      \<and> (rd_in_flight (fallback_ops pread) r = 0 \<longrightarrow> rd_in_flight (fallback_ops pread) r' = 0)"
    "rd_wait (fallback_ops pread) r m k = (r', m', cs) \<Longrightarrow>
      rd_prepped (fallback_ops pread) r = 0 \<longrightarrow> rd_prepped (fallback_ops pread) r' = 0"
    using ops fp(2) by (simp_all add: fallback_ops_def fr_InFlight_def)
  show "0 < k \<Longrightarrow> rd_in_flight (fallback_ops pread) r \<noteq> 0 \<Longrightarrow> cs \<noteq> []"
    by (simp add: fallback_ops_def fr_InFlight_def)
  show "rd_poll (fallback_ops pread) r m k = (r', m', cs) \<Longrightarrow> 0 < k \<Longrightarrow> rd_prepped (fallback_ops pread) r = 0
      \<Longrightarrow> dom R \<noteq> {} \<Longrightarrow> cs \<noteq> []"
    using ops fp(3) by (simp add: fallback_ops_def)
qed

text \<open>The kernel on a descriptor with these bytes.\<close>

definition file_pread :: "int \<Rightarrow> bytes \<Rightarrow> pending_read \<Rightarrow> nat + bytes" where
  "file_pread fd content e = (if pr_fd e = fd then Inr (slice (pr_offset e) (pr_len e) content) else Inl 9)"

lemma file_pread_reads: "reads_file (file_pread fd content) fd content"
  by (simp add: reads_file_def file_pread_def)

interpretation file_reader: faithful_reader "fallback_ops (file_pread fd content)" fd content registered
    "fallback_tracks fd content" for fd content registered
  by (rule fallback_faithful [OF file_pread_reads])

lemma fallback_new_tracks: "fallback_tracks fd content fallback_new m Map.empty"
  by (simp add: fallback_tracks_def fallback_new_def tags_of_def)

end
