(* ===== verification/Query_Reads.thy ===== *)
theory Query_Reads
  imports Data_Reader
begin

text \<open>
  The I/O of a query is right (src/query/overlap_scheduler.cpp with the reader of \<open>faithful_reader\<close>): an invariant
  over slots, requests, buffers, queued plans and buffered vectors that emitting, submitting,
  dispatching and draining keep.
\<close>

section \<open>What the slots read\<close>

definition slot_request :: "pending_slot \<Rightarrow> read_request" where
  "slot_request s = \<lparr>rq_buf = slot_buf s, rq_len = unat (io_read_length (ps_io s)),
     rq_off = unat (io_read_offset (ps_io s))\<rparr>"

definition slot_reads :: "slot_table \<Rightarrow> nat \<rightharpoonup> read_request" where
  "slot_reads t i = (if i < length (st_slots t) \<and> ps_in_use (st_slots t ! i)
     then Some (slot_request (st_slots t ! i)) else None)"

lemma slot_reads_dom: "dom (slot_reads t) = {i. i < length (st_slots t) \<and> ps_in_use (st_slots t ! i)}"
  by (auto simp: slot_reads_def split: if_splits)

lemma slot_reads_Some:
  "slot_reads t i = Some q \<longleftrightarrow> i < length (st_slots t) \<and> ps_in_use (st_slots t ! i) \<and> q = slot_request (st_slots t ! i)"
  by (auto simp: slot_reads_def)

lemma take_slot_reads:
  assumes "slots_listed t" and "length (st_slots t) < 4294967296" and "take_slot t = (t1, i)"
  shows "slot_reads t1 = slot_reads t" and "slot_reads t i = None" and "st_vec_bytes t1 = st_vec_bytes t"
proof -
  note s = take_slot_spec [OF assms]
  show "st_vec_bytes t1 = st_vec_bytes t" using assms(3) by (auto simp: take_slot_def split: if_splits)
  show eq: "slot_reads t1 = slot_reads t"
  proof
    fix j
    show "slot_reads t1 j = slot_reads t j"
      using assms(3) by (auto simp: take_slot_def slot_reads_def nth_append less_Suc_eq split: if_splits)
  qed
  have "slot_reads t1 i = None" using s(2) by (simp add: slot_reads_def)
  then show "slot_reads t i = None" using eq by simp
qed

lemma put_reads:
  assumes "i < length (st_slots t)" and "ps_in_use s"
  shows "slot_reads (t\<lparr>st_slots := (st_slots t)[i := s]\<rparr>) = (slot_reads t)(i \<mapsto> slot_request s)"
  using assms by (auto simp: slot_reads_def nth_list_update fun_eq_iff)

lemma drop_reads:
  assumes "i < length (st_slots t)"
  shows "slot_reads (drop_slot t i) = (slot_reads t)(i := None)"
  using assms by (auto simp: slot_reads_def drop_slot_def nth_list_update fun_eq_iff)

lemma busy_member: "i < length (st_slots t) \<Longrightarrow> ps_in_use (st_slots t ! i) \<Longrightarrow> st_slots t ! i \<in># busy t"
  by (simp add: busy_def)

lemma busy_in_bufs:
  assumes "table_inv t" and "s \<in># busy t"
  shows "slot_buf s \<in># all_bufs t"
proof -
  have inv: "buffers_inv t (busy t)" using assms(1) by (simp add: table_inv_split)
  then have ok: "slot_ok t s" using assms(2) by (simp add: buffers_inv_def)
  obtain M where M: "busy t = add_mset s M" using assms(2) by (metis insert_DiffM)
  from ok have "ps_cleanup s = Pool \<or> ps_cleanup s = VecPool \<or> ps_cleanup s = FixedVec" by (auto simp: slot_ok_def)
  then show ?thesis
  proof (elim disjE)
    assume "ps_cleanup s = Pool"
    then show ?thesis by (simp add: all_bufs_def M)
  next
    assume "ps_cleanup s = VecPool"
    then have "slot_buf s \<in># mset (st_owned t)" using inv unfolding buffers_inv_def M by (metis held_add union_iff union_single_eq_member)
    then show ?thesis by (simp add: all_bufs_def)
  next
    assume "ps_cleanup s = FixedVec"
    then have "slot_buf s \<in> set (st_fixed t)" using ok by (auto simp: slot_ok_def)
    then show ?thesis by (simp add: all_bufs_def)
  qed
qed

lemma slot_bufs: "bufs_of (slot_reads t) \<subseteq> slot_buf ` set_mset (busy t)"
proof
  fix b
  assume "b \<in> bufs_of (slot_reads t)"
  then obtain i q where "slot_reads t i = Some q" "rq_buf q = b" by (rule bufs_of_E)
  then show "b \<in> slot_buf ` set_mset (busy t)"
    using busy_member [of i t] by (auto simp: slot_reads_Some slot_request_def)
qed

lemma reads_in_bufs: "table_inv t \<Longrightarrow> bufs_of (slot_reads t) \<subseteq> set_mset (all_bufs t)"
  using slot_bufs busy_in_bufs by fastforce

lemma new_buf_free:
  assumes "table_inv t'" and "busy t' = add_mset s (busy t)"
  shows "slot_buf s \<notin> bufs_of (slot_reads t)"
proof
  assume "slot_buf s \<in> bufs_of (slot_reads t)"
  then obtain s' where s': "s' \<in># busy t" "slot_buf s' = slot_buf s" using slot_bufs by fastforce
  then obtain M where "busy t = add_mset s' M" by (metis insert_DiffM)
  then show False using held_bufs_distinct [OF assms(1)] assms(2) s'(2) by metis
qed

section \<open>A slot for a new read\<close>

definition new_slot :: "slot_table \<Rightarrow> pending_io \<Rightarrow> nat option \<Rightarrow> slot_table \<Rightarrow> nat \<Rightarrow> nat \<Rightarrow> bool" where
  "new_slot t io answer t' slot_id buf \<longleftrightarrow>
     table_inv t' \<and> length (st_slots t') \<le> Suc (length (st_slots t))
     \<and> slot_reads t slot_id = None
     \<and> slot_reads t' = (slot_reads t)(slot_id \<mapsto> \<lparr>rq_buf = buf, rq_len = unat (io_read_length io), rq_off = unat (io_read_offset io)\<rparr>)
     \<and> buf \<notin> bufs_of (slot_reads t)
     \<and> (\<exists>s. busy t' = add_mset s (busy t) \<and> ps_io s = io)
     \<and> st_fixed t' = st_fixed t \<and> st_vec_bytes t' = st_vec_bytes t
     \<and> set_mset (all_bufs t') \<subseteq> set_mset (all_bufs t) \<union> set_option answer"

lemma bp_Acquire_Some: "\<exists>p' raw. bp_Acquire p req (Some a) = Some (p', raw)"
  by (auto simp: bp_Acquire_def Let_def split: option.splits)

lemma emit_pooled_new:
  assumes "table_inv t" and "length (st_slots t) < 4294967296" and "a \<notin># all_bufs t"
  shows "\<exists>t' slot_id buf. emit_pooled t io (Some a) = Some (t', slot_id, buf) \<and> new_slot t io (Some a) t' slot_id buf"
proof -
  obtain p buf where p: "bp_Acquire (st_pool t) (io_read_length io) (Some a) = Some (p, buf)" using bp_Acquire_Some by blast
  let ?t = "t\<lparr>st_pool := p\<rparr>"
  define s where "s = \<lparr>ps_in_use = True, ps_buffer = Some buf, ps_fixed_index = 0, ps_cleanup = Pool, ps_io = io\<rparr>"
  obtain t1 i where t1: "take_slot ?t = (t1, i)" by fastforce
  define t' where "t' = t1\<lparr>st_slots := (st_slots t1)[i := s]\<rparr>"
  have e: "emit_pooled t io (Some a) = Some (t', i, buf)"
    using p t1 by (simp add: emit_pooled_def AllocatePendingSlot_def t'_def s_def)
  have "\<forall>x. Some a = Some x \<longrightarrow> x \<notin># all_bufs t" using assms(3) by simp
  note inv = emit_pooled_inv [OF assms(1,2) e this]
  have listed: "slots_listed ?t" "length (st_slots ?t) < 4294967296"
    using assms(1,2) by (simp_all add: table_inv_split slots_listed_def)
  note tk = take_slot_spec [OF listed t1]
  have same: "slot_reads ?t = slot_reads t" by (simp add: slot_reads_def fun_eq_iff)
  have "slot_reads t i = None" using take_slot_reads(2) [OF listed t1] same by simp
  moreover have "slot_reads t' = (slot_reads t)(i \<mapsto> \<lparr>rq_buf = buf, rq_len = unat (io_read_length io), rq_off = unat (io_read_offset io)\<rparr>)"
    using put_reads [of i t1 s] tk(1) take_slot_reads(1) [OF listed t1] same
    by (simp add: t'_def s_def slot_request_def slot_buf_def)
  moreover have busy: "busy t' = add_mset s (busy t)" using inv(3,4) by (simp add: s_def)
  moreover have "slot_buf s \<notin> bufs_of (slot_reads t)" by (rule new_buf_free [OF inv(1) busy])
  moreover have f: "st_fixed t' = st_fixed t" "st_owned t' = st_owned t" "st_pool t' = p" using tk(7) by (simp_all add: t'_def)
  moreover have "st_vec_bytes t' = st_vec_bytes t" using take_slot_reads(3) [OF listed t1] by (simp add: t'_def)
  moreover have "set_mset (all_bufs t') \<subseteq> set_mset (all_bufs t) \<union> {a}"
    using p
  proof (cases rule: bp_Acquire_cases)
    case (reuse c)
    then have "pooled t = add_mset buf (pooled t')" by (simp add: pooled_def f)
    then show ?thesis by (auto simp: all_bufs_def f busy s_def slot_buf_def)
  next
    case (fresh c)
    then have "pooled t' = pooled t" "buf = a" by (simp_all add: pooled_def f)
    then show ?thesis by (auto simp: all_bufs_def f busy s_def slot_buf_def)
  qed
  ultimately show ?thesis using e inv(1,5) unfolding new_slot_def
    by (intro exI [of _ t'] exI [of _ i] exI [of _ buf]) (auto simp: s_def slot_buf_def)
qed

lemma emit_vec_new:
  assumes "table_inv t" and "length (st_slots t) < 4294967296" and "a \<notin># all_bufs t"
  shows "\<exists>t' slot_id buf fixed. emit_vec_slot t addr (Some a) = Some (t', slot_id, buf, fixed)
    \<and> new_slot t \<lparr>io_type = VEC_ONLY, io_addr = addr, io_read_offset = ae_offset addr, io_read_length = st_vec_bytes t\<rparr>
        (Some a) t' slot_id buf
    \<and> (\<forall>i. fixed = Some i \<longrightarrow> i < length (st_fixed t) \<and> st_fixed t ! i = buf)"
proof -
  let ?io = "\<lparr>io_type = VEC_ONLY, io_addr = addr, io_read_offset = ae_offset addr, io_read_length = st_vec_bytes t\<rparr>"
  have "\<exists>t1 buf k idx t' i fixed. emit_vec_slot t addr (Some a) = Some (t', i, buf, fixed)
    \<and> AllocateVectorOnlyPendingSlot t1 addr buf k idx = (t', i)
    \<and> st_slots t1 = st_slots t \<and> st_free t1 = st_free t \<and> st_vec_bytes t1 = st_vec_bytes t
    \<and> st_fixed t1 = st_fixed t \<and> st_pool t1 = st_pool t \<and> k \<noteq> Pool
    \<and> set_mset (mset (st_owned t1)) \<subseteq> set_mset (mset (st_owned t)) \<union> {a}
    \<and> (fixed \<noteq> None \<longrightarrow> fixed = Some idx \<and> k = FixedVec)"
  proof (cases "TryAcquireFixedVecBuffer t")
    case None
    obtain t1 buf where acq: "AcquireVecOnlyBuffer t (Some a) = Some (t1, buf)"
      by (cases "st_vec_free t = []") (auto simp: AcquireVecOnlyBuffer_def)
    obtain t' i where al: "AllocateVectorOnlyPendingSlot t1 addr buf VecPool 0 = (t', i)" by fastforce
    have "emit_vec_slot t addr (Some a) = Some (t', i, buf, None)" using None acq al by (simp add: emit_vec_slot_def)
    then show ?thesis using al acq
      by (intro exI [of _ t1] exI [of _ buf] exI [of _ VecPool] exI [of _ 0] exI [of _ t'] exI [of _ i] exI [of _ None])
        (auto simp: AcquireVecOnlyBuffer_def split: if_splits)
  next
    case (Some r)
    obtain t1 buf idx where r: "r = (t1, buf, idx)" by (cases r)
    obtain t' i where al: "AllocateVectorOnlyPendingSlot t1 addr buf FixedVec idx = (t', i)" by fastforce
    have "emit_vec_slot t addr (Some a) = Some (t', i, buf, Some idx)" using Some r al by (simp add: emit_vec_slot_def)
    then show ?thesis using al Some r
      by (intro exI [of _ t1] exI [of _ buf] exI [of _ FixedVec] exI [of _ idx] exI [of _ t'] exI [of _ i] exI [of _ "Some idx"])
        (auto simp: TryAcquireFixedVecBuffer_def Let_def split: if_splits)
  qed
  then obtain t1 buf k idx t' i fixed where e: "emit_vec_slot t addr (Some a) = Some (t', i, buf, fixed)"
    and al: "AllocateVectorOnlyPendingSlot t1 addr buf k idx = (t', i)"
    and same: "st_slots t1 = st_slots t" "st_free t1 = st_free t" "st_vec_bytes t1 = st_vec_bytes t" "st_fixed t1 = st_fixed t"
      "st_pool t1 = st_pool t" "k \<noteq> Pool" "set_mset (mset (st_owned t1)) \<subseteq> set_mset (mset (st_owned t)) \<union> {a}"
    and fx: "fixed \<noteq> None \<Longrightarrow> fixed = Some idx \<and> k = FixedVec" by metis
  have "\<forall>x. Some a = Some x \<longrightarrow> x \<notin># all_bufs t" using assms(3) by simp
  note inv = emit_vec_inv [OF assms(1,2) e this]
  obtain t2 where t2: "take_slot t1 = (t2, i)" using al by (auto simp: AllocateVectorOnlyPendingSlot_def split: prod.splits)
  define s where "s = \<lparr>ps_in_use = True, ps_buffer = Some buf, ps_fixed_index = idx, ps_cleanup = k, ps_io = ?io\<rparr>"
  have listed: "slots_listed t1" "length (st_slots t1) < 4294967296"
    using assms(1,2) same by (simp_all add: table_inv_split slots_listed_def)
  note tk = take_slot_spec [OF listed t2]
  note tr = take_slot_reads [OF listed t2]
  have t': "t' = t2\<lparr>st_slots := (st_slots t2)[i := s]\<rparr>"
    using al t2 tr(3) same(3) by (simp add: AllocateVectorOnlyPendingSlot_def s_def)
  have reads: "slot_reads t1 = slot_reads t" by (simp add: slot_reads_def fun_eq_iff same)
  have busy: "busy t' = add_mset s (busy t)" using inv tk(1) by (simp add: t')
  have f: "st_fixed t' = st_fixed t" "st_owned t' = st_owned t1" "st_pool t' = st_pool t" using tk(7) same by (simp_all add: t')
  have "new_slot t ?io (Some a) t' i buf"
    unfolding new_slot_def
  proof (intro conjI)
    show "slot_reads t i = None" using tr(2) reads by simp
    show "slot_reads t' = (slot_reads t)(i \<mapsto> \<lparr>rq_buf = buf, rq_len = unat (io_read_length ?io), rq_off = unat (io_read_offset ?io)\<rparr>)"
      unfolding t' using put_reads [of i t2 s] tk(1) tr(1) reads by (simp add: s_def slot_request_def slot_buf_def)
    show "buf \<notin> bufs_of (slot_reads t)" using new_buf_free [OF _ busy] inv by (simp add: s_def slot_buf_def)
    show "\<exists>s. busy t' = add_mset s (busy t) \<and> ps_io s = ?io" using busy by (intro exI [of _ s]) (simp add: s_def)
    show "st_vec_bytes t' = st_vec_bytes t" using tr(3) same(3) by (simp add: t')
    have "held Pool slot_buf (busy t') = held Pool slot_buf (busy t)" using same(6) by (simp add: busy s_def)
    then show "set_mset (all_bufs t') \<subseteq> set_mset (all_bufs t) \<union> set_option (Some a)"
      using same(7) by (auto simp: all_bufs_def f pooled_def)
  qed (use inv f in simp_all)
  moreover have "j < length (st_fixed t) \<and> st_fixed t ! j = buf" if "fixed = Some j" for j
  proof -
    have "j = idx" "k = FixedVec" using fx that by simp_all
    moreover have "\<forall>s \<in># busy t'. slot_ok t' s" using inv unfolding table_inv_def by blast
    then have "slot_ok t' s" using busy by (metis union_single_eq_member)
    ultimately show ?thesis using f by (simp add: slot_ok_def s_def slot_buf_def)
  qed
  ultimately show ?thesis using e by blast
qed


section \<open>The invariant\<close>

text \<open>The records the query may read: inside the file, with distinct offsets.\<close>

definition records_ok :: "bytes \<Rightarrow> u32 \<Rightarrow> address_entry set \<Rightarrow> bool" where
  "records_ok content vb U \<longleftrightarrow> length content < 18446744073709551616 \<and> inj_on ae_offset U
     \<and> (\<forall>a \<in> U. vb \<le> ae_size a \<and> unat (ae_offset a) + unat (ae_size a) \<le> length content)"

definition vector_of :: "bytes \<Rightarrow> u32 \<Rightarrow> address_entry \<Rightarrow> bytes" where
  "vector_of content vb a = slice (unat (ae_offset a)) (unat vb) content"

definition payload_request :: "u32 \<Rightarrow> address_entry \<Rightarrow> nat \<Rightarrow> read_request" where
  "payload_request vb a buf = \<lparr>rq_buf = buf, rq_len = unat (ae_size a) - unat vb, rq_off = unat (ae_offset a) + unat vb\<rparr>"

text \<open>What a pending read is for.\<close>

definition io_ok :: "u32 \<Rightarrow> address_entry set \<Rightarrow> pending_io \<Rightarrow> bool" where
  "io_ok vb U io \<longleftrightarrow> io_addr io \<in> U \<and>
     (case io_type io of
        VEC_ONLY \<Rightarrow> io_read_offset io = ae_offset (io_addr io) \<and> io_read_length io = vb
      | VEC_ALL \<Rightarrow> io_read_offset io = ae_offset (io_addr io) \<and> io_read_length io = ae_size (io_addr io)
      | PAYLOAD \<Rightarrow> vb < ae_size (io_addr io) \<and> io_read_length io = ae_size (io_addr io) - vb
          \<and> unat (io_read_offset io) = unat (ae_offset (io_addr io)) + unat vb)"

definition pending_addrs :: "plan_queues \<Rightarrow> address_entry multiset" where
  "pending_addrs p = mset (map rp_addr (pq_all p)) + mset (drop (pq_vec_head p) (pq_vec p))"

definition table_part :: "(nat \<Rightarrow> nat) \<Rightarrow> address_entry set \<Rightarrow> u32 \<Rightarrow> slot_table \<Rightarrow> bool" where
  "table_part registered U vb t \<longleftrightarrow> table_inv t \<and> st_vec_bytes t = vb
     \<and> (\<forall>s \<in># busy t. io_ok vb U (ps_io s)) \<and> (\<forall>i < length (st_fixed t). st_fixed t ! i = registered i)"

definition queue_part :: "address_entry set \<Rightarrow> slot_table \<Rightarrow> plan_queues \<Rightarrow> bool" where
  "queue_part U t p \<longleftrightarrow> length (st_slots t) + size (pending_addrs p) < 4294967296 \<and> pq_vec_head p \<le> length (pq_vec p)
     \<and> (\<forall>r \<in> set (pq_all p). rp_read_length r = ae_size (rp_addr r)) \<and> set_mset (pending_addrs p) \<subseteq> U"

definition rerank_part :: "bytes \<Rightarrow> address_entry set \<Rightarrow> memory \<Rightarrow> rerank \<Rightarrow> bool" where
  "rerank_part content U m rk \<longleftrightarrow> rerank_inv rk
     \<and> (\<forall>(a, v) \<in> set (buffered_vectors rk). a \<in> U \<and> v = vector_of content (rk_vec_bytes rk) a)
     \<and> (\<forall>off pb. rk_payload rk off = Some pb \<longrightarrow>
          (\<exists>a \<in> U. ae_offset a = off \<and> rk_vec_bytes rk < ae_size a \<and> holds_read content m (payload_request (rk_vec_bytes rk) a pb)))"

text \<open>Buffers of cached payloads are nobody else's, and the allocator has new ones.\<close>

definition fresh_part :: "'r query_env \<Rightarrow> 'r query \<Rightarrow> bool" where
  "fresh_part en q \<longleftrightarrow> ran (rk_payload (qy_rerank q)) \<inter> set_mset (all_bufs (qy_table q)) = {}
     \<and> (\<forall>n \<ge> qy_clock q. \<forall>x. en_alloc en n = Some x \<longrightarrow>
          x \<notin># all_bufs (qy_table q) \<and> x \<notin> ran (rk_payload (qy_rerank q)))"

definition query_inv :: "bytes \<Rightarrow> (nat \<Rightarrow> nat) \<Rightarrow> address_entry set \<Rightarrow> 'r query_env \<Rightarrow> 'r query \<Rightarrow> bool" where
  "query_inv content registered U en q \<longleftrightarrow>
     table_part registered U (rk_vec_bytes (qy_rerank q)) (qy_table q)
     \<and> queue_part U (qy_table q) (qy_queues q) \<and> rerank_part content U (qy_mem q) (qy_rerank q) \<and> fresh_part en q"

text \<open>The allocator never fails and never answers the same twice, and sorting sorts.\<close>

definition env_ok :: "'r query_env \<Rightarrow> bool" where
  "env_ok en \<longleftrightarrow> (\<forall>n. en_alloc en n \<noteq> None) \<and> inj (en_alloc en) \<and> (\<forall>n. en_slab en n \<noteq> None)
     \<and> (\<forall>xs. mset (en_sort_addr en xs) = mset xs) \<and> sorts_by offset_less (en_sort_cand en)"

text \<open>Where an address is on its way from the queues to the buffered candidates, and the offsets whose
  payload is cached or being read.\<close>

definition account :: "'r query \<Rightarrow> address_entry multiset" where
  "account q = pending_addrs (qy_queues q)
     + image_mset (\<lambda>s. io_addr (ps_io s)) (filter_mset (\<lambda>s. io_type (ps_io s) \<noteq> PAYLOAD) (busy (qy_table q)))
     + mset (map fst (buffered_vectors (qy_rerank q)))"

definition payload_offsets :: "'r query \<Rightarrow> u64 set" where
  "payload_offsets q = dom (rk_payload (qy_rerank q))
     \<union> (\<lambda>s. ae_offset (io_addr (ps_io s))) ` {s. s \<in># busy (qy_table q) \<and> io_type (ps_io s) = PAYLOAD}"

definition follows :: "'r query_env \<Rightarrow> 'r query \<Rightarrow> 'r query \<Rightarrow> bool" where
  "follows en q q' \<longleftrightarrow> account q' = account q \<and> payload_offsets q \<subseteq> payload_offsets q'
     \<and> rk_vec_bytes (qy_rerank q') = rk_vec_bytes (qy_rerank q)
     \<and> length (st_slots (qy_table q')) + size (pending_addrs (qy_queues q'))
         \<le> length (st_slots (qy_table q)) + size (pending_addrs (qy_queues q))"

lemma follows_refl: "follows en q q"
  by (simp add: follows_def)

lemma follows_trans: "follows en q q' \<Longrightarrow> follows en q' q'' \<Longrightarrow> follows en q q''"
  by (auto simp: follows_def)

lemma rerank_part_mem:
  assumes "rerank_part content U m rk" and "\<forall>b \<in> ran (rk_payload rk). m' b = m b"
  shows "rerank_part content U m' rk"
proof -
  have "holds_read content m' (payload_request vb a pb) = holds_read content m (payload_request vb a pb)"
    if "rk_payload rk off = Some pb" for off pb vb a
  proof (rule holds_read_cong)
    have "pb \<in> ran (rk_payload rk)" by (rule ranI [where a = off]) (rule that)
    then show "m' (rq_buf (payload_request vb a pb)) = m (rq_buf (payload_request vb a pb))"
      using assms(2) by (simp add: payload_request_def)
  qed
  note same = this
  show ?thesis
    unfolding rerank_part_def
  proof (intro conjI allI impI)
    show "rerank_inv rk" "\<forall>(a, v) \<in> set (buffered_vectors rk). a \<in> U \<and> v = vector_of content (rk_vec_bytes rk) a"
      using assms(1) unfolding rerank_part_def by blast+
    fix off pb
    assume p: "rk_payload rk off = Some pb"
    then obtain a where "a \<in> U" "ae_offset a = off" "rk_vec_bytes rk < ae_size a"
        "holds_read content m (payload_request (rk_vec_bytes rk) a pb)"
      using assms(1) unfolding rerank_part_def by blast
    then show "\<exists>a \<in> U. ae_offset a = off \<and> rk_vec_bytes rk < ae_size a
        \<and> holds_read content m' (payload_request (rk_vec_bytes rk) a pb)" using same [OF p] by blast
  qed
qed

lemma query_inv_fresh:
  assumes "query_inv content registered U en q" and "qy_clock q \<le> n" and "en_alloc en n = Some x"
  shows "x \<notin># all_bufs (qy_table q)" and "x \<notin> ran (rk_payload (qy_rerank q))"
  using assms unfolding query_inv_def fresh_part_def by blast+

text \<open>Reading and polling write only into the buffers of requests.\<close>

lemma query_inv_io:
  assumes "query_inv content registered U en q" and "\<forall>b. b \<notin> bufs_of (slot_reads (qy_table q)) \<longrightarrow> m' b = qy_mem q b"
    and "qy_table q' = qy_table q" "qy_queues q' = qy_queues q" "qy_rerank q' = qy_rerank q" "qy_clock q' = qy_clock q"
    "qy_mem q' = m'"
  shows "query_inv content registered U en q'" and "follows en q q'"
proof -
  have "bufs_of (slot_reads (qy_table q)) \<subseteq> set_mset (all_bufs (qy_table q))"
    using assms(1) reads_in_bufs by (auto simp: query_inv_def table_part_def)
  then have "\<forall>b \<in> ran (rk_payload (qy_rerank q)). m' b = qy_mem q b"
    using assms(1,2) unfolding query_inv_def fresh_part_def by blast
  then have "rerank_part content U m' (qy_rerank q)" using assms(1) rerank_part_mem by (auto simp: query_inv_def)
  then show "query_inv content registered U en q'" using assms by (simp add: query_inv_def fresh_part_def)
  show "follows en q q'" using assms(3-6) by (simp add: follows_def account_def payload_offsets_def)
qed

section \<open>Emitting\<close>

text \<open>A new slot takes at most the allocator's current answer.\<close>

lemma new_slot_fresh:
  assumes "query_inv content registered U en q" and "env_ok en" and "en_alloc en (qy_clock q) = Some x"
    and "new_slot (qy_table q) io (Some x) t' slot_id buf"
    and "qy_table q' = t'" "qy_rerank q' = qy_rerank q" "qy_clock q' = qy_clock q + 1"
  shows "fresh_part en q'"
  unfolding fresh_part_def assms(5-7)
proof (intro conjI allI impI)
  have new: "x \<notin># all_bufs (qy_table q)" "x \<notin> ran (rk_payload (qy_rerank q))"
    using query_inv_fresh [OF assms(1) le_refl assms(3)] by simp_all
  have bufs: "set_mset (all_bufs t') \<subseteq> set_mset (all_bufs (qy_table q)) \<union> {x}" using assms(4) by (simp add: new_slot_def)
  show "ran (rk_payload (qy_rerank q)) \<inter> set_mset (all_bufs t') = {}"
    using assms(1) new(2) bufs unfolding query_inv_def fresh_part_def by blast
  fix n y
  assume n: "qy_clock q + 1 \<le> n" "en_alloc en n = Some y"
  have "y \<noteq> x" using n assms(2,3) unfolding env_ok_def by (metis Suc_eq_plus1 Suc_n_not_le_n injD)
  then have "y \<notin># all_bufs (qy_table q)" "y \<notin> ran (rk_payload (qy_rerank q))" "y \<noteq> x"
    using query_inv_fresh [OF assms(1), of n y] n by simp_all
  then show "y \<notin># all_bufs t'" "y \<notin> ran (rk_payload (qy_rerank q))" using bufs by auto
qed

lemma new_slot_table:
  assumes "table_part registered U vb t" and "new_slot t io answer t' slot_id buf" and "io_ok vb U io"
  shows "table_part registered U vb t'"
proof -
  obtain s where "busy t' = add_mset s (busy t)" "ps_io s = io" using assms(2) by (auto simp: new_slot_def)
  then show ?thesis using assms by (simp add: table_part_def new_slot_def)
qed

text \<open>A plan moves from the queues into a slot.\<close>

lemma emit_inv:
  assumes "query_inv content registered U en q" and "env_ok en" and "en_alloc en (qy_clock q) = Some x"
    and "new_slot (qy_table q) io (Some x) t' slot_id buf" and "io_ok (rk_vec_bytes (qy_rerank q)) U io" and "io_type io \<noteq> PAYLOAD"
    and "pending_addrs (qy_queues q) = add_mset (io_addr io) (pending_addrs p)"
    and "pq_vec_head p \<le> length (pq_vec p)" and "set (pq_all p) \<subseteq> set (pq_all (qy_queues q))"
    and "qy_table q' = t'" "qy_queues q' = p" "qy_rerank q' = qy_rerank q" "qy_clock q' = qy_clock q + 1" "qy_mem q' = qy_mem q"
  shows "query_inv content registered U en q' \<and> follows en q q'"
proof -
  obtain s where s: "busy t' = add_mset s (busy (qy_table q))" "ps_io s = io" using assms(4) by (auto simp: new_slot_def)
  have "fresh_part en q'" by (rule new_slot_fresh [OF assms(1-4,10,12,13)])
  moreover have "table_part registered U (rk_vec_bytes (qy_rerank q)) t'"
    by (rule new_slot_table [OF _ assms(4,5)]) (use assms(1) in \<open>simp add: query_inv_def\<close>)
  moreover have "length (st_slots t') \<le> Suc (length (st_slots (qy_table q)))" using assms(4) by (simp add: new_slot_def)
  then have "queue_part U t' p"
    using assms(1,7,8,9) by (auto simp: query_inv_def queue_part_def)
  ultimately have "query_inv content registered U en q'"
    using assms(1,10-14) by (simp add: query_inv_def)
  moreover have "follows en q q'"
    using assms(4,6,7) s unfolding follows_def account_def payload_offsets_def assms(10-12)
    by (auto simp: new_slot_def)
  ultimately show ?thesis ..
qed

text \<open>A payload read takes a slot too; no address moves.\<close>

lemma emit_payload_inv:
  assumes "query_inv content registered U en q" and "env_ok en" and "en_alloc en (qy_clock q) = Some x"
    and "new_slot (qy_table q) io (Some x) t' slot_id buf" and "io_ok (rk_vec_bytes (qy_rerank q)) U io" and "io_type io = PAYLOAD"
    and "length (st_slots (qy_table q)) + size (pending_addrs (qy_queues q)) < 4294967295"
    and "qy_table q' = t'" "qy_queues q' = qy_queues q" "qy_rerank q' = qy_rerank q" "qy_clock q' = qy_clock q + 1" "qy_mem q' = qy_mem q"
  shows "query_inv content registered U en q'" and "account q' = account q"
    and "payload_offsets q' = insert (ae_offset (io_addr io)) (payload_offsets q)"
proof -
  obtain s where s: "busy t' = add_mset s (busy (qy_table q))" "ps_io s = io" using assms(4) by (auto simp: new_slot_def)
  have "fresh_part en q'" by (rule new_slot_fresh [OF assms(1-4,8,10,11)])
  moreover have "table_part registered U (rk_vec_bytes (qy_rerank q)) t'"
    by (rule new_slot_table [OF _ assms(4,5)]) (use assms(1) in \<open>simp add: query_inv_def\<close>)
  moreover have "length (st_slots t') \<le> Suc (length (st_slots (qy_table q)))" using assms(4) by (simp add: new_slot_def)
  then have "queue_part U t' (qy_queues q)" using assms(1,7) by (simp add: query_inv_def queue_part_def)
  ultimately show "query_inv content registered U en q'" using assms(1,8-12) by (simp add: query_inv_def)
  show "account q' = account q" unfolding account_def assms(8-10) using s assms(6) by simp
  show "payload_offsets q' = insert (ae_offset (io_addr io)) (payload_offsets q)"
    unfolding payload_offsets_def assms(8,10) using s assms(6) by auto
qed

lemma release_buffer_fields [simp]:
  "st_fixed (release_buffer t k b i) = st_fixed t" "st_vec_bytes (release_buffer t k b i) = st_vec_bytes t"
  by (auto simp: release_buffer_def ReleaseFixedVecBuffer_def ReleaseVecOnlyBuffer_def split: pending_cleanup.splits)

lemma release_buffer_reads [simp]: "slot_reads (release_buffer t k b i) = slot_reads t"
  by (simp add: slot_reads_def fun_eq_iff)

lemma drop_slot_fields [simp]: "st_fixed (drop_slot t i) = st_fixed t" "st_vec_bytes (drop_slot t i) = st_vec_bytes t"
  by (simp_all add: drop_slot_def)

text \<open>The table after a completion: the slot is idle, its buffer is given back, or handed over.\<close>

lemma dispatch_table:
  assumes "table_inv t" and "slot_reads t i = Some q" and "i < 4294967296"
  shows "\<exists>t' s. dispatch_slot t i = (t', Some s) \<and> s = st_slots t ! i \<and> ps_buffer s = Some (rq_buf q) \<and> q = slot_request s
    \<and> table_inv t' \<and> busy t = add_mset s (busy t') \<and> slot_reads t' = (slot_reads t)(i := None)
    \<and> st_fixed t' = st_fixed t \<and> st_vec_bytes t' = st_vec_bytes t \<and> length (st_slots t') = length (st_slots t)
    \<and> set_mset (all_bufs t') \<subseteq> set_mset (all_bufs t)
    \<and> (io_type (ps_io s) = PAYLOAD \<longrightarrow> rq_buf q \<notin># all_bufs t')"
proof -
  let ?s = "st_slots t ! i"
  have i: "i < length (st_slots t)" "ps_in_use ?s" and q: "q = slot_request ?s"
    using assms(2) by (simp_all add: slot_reads_Some)
  note ok = slot_ok_of [OF assms(1) i]
  note forms = release_forms [OF assms(1) i]
  have get: "GetPendingSlot t i = Some ?s" using i assms(3) by (simp add: GetPendingSlot_def)
  let ?r = "drop_slot (release_buffer t (ps_cleanup ?s) (slot_buf ?s) (ps_fixed_index ?s)) i"
  have d: "dispatch_slot t i = ((if io_type (ps_io ?s) = PAYLOAD then drop_slot t i else ?r), Some ?s)"
    using get forms assms(3) by (cases "io_type (ps_io ?s)") (simp_all add: dispatch_slot_def Let_def)
  define t' where "t' = (if io_type (ps_io ?s) = PAYLOAD then drop_slot t i else ?r)"
  have d': "dispatch_slot t i = (t', Some ?s)" using d t'_def by simp
  note inv = dispatch_inv [OF assms(1), of i, unfolded d', simplified]
  have reads: "slot_reads t' = (slot_reads t)(i := None)" using drop_reads i(1) by (simp add: t'_def)
  have fields: "st_fixed t' = st_fixed t" "st_vec_bytes t' = st_vec_bytes t" by (simp_all add: t'_def)
  have bufs: "set_mset (all_bufs t') \<subseteq> set_mset (all_bufs t) \<and> (io_type (ps_io ?s) = PAYLOAD \<longrightarrow> slot_buf ?s \<notin># all_bufs t')"
  proof (cases "io_type (ps_io ?s) = PAYLOAD")
    case False
    then have "all_bufs t' = all_bufs t" using release_keeps_bufs(1) [OF assms(1) i] by (simp add: t'_def)
    then show ?thesis using False by simp
  next
    case True
    then have pool: "ps_cleanup ?s = Pool" using ok(1) by (simp add: slot_ok_def)
    have "busy t = add_mset ?s (busy t')" using busy_drop [OF i] True by (simp add: t'_def)
    then have "all_bufs t = add_mset (slot_buf ?s) (all_bufs t')"
      using True pool by (simp add: all_bufs_def t'_def drop_slot_def pooled_def)
    moreover from this have "slot_buf ?s \<notin># all_bufs t'"
      using assms(1) count_le_1_add unfolding table_inv_def by metis
    ultimately show ?thesis by auto
  qed
  have "busy t = add_mset ?s (busy t')" "table_inv t'" "length (st_slots t') = length (st_slots t)" using inv by simp_all
  moreover have "rq_buf q = slot_buf ?s" by (simp add: q slot_request_def)
  ultimately show ?thesis using d' ok(2) q reads fields bufs by (intro exI [of _ t'] exI [of _ ?s]) simp
qed

section \<open>Consuming\<close>

lemma take_slice:
  assumes "take n c = slice off n content" and "m \<le> n"
  shows "take m c = slice off m content" and "slice m (n - m) c = slice (off + m) (n - m) content"
proof -
  have "take m (take n c) = take m (slice off n content)" using assms(1) by simp
  then show "take m c = slice off m content" using assms(2) by (simp add: slice_def min_def)
  have "drop m (take n c) = drop m (slice off n content)" using assms(1) by simp
  then show "slice m (n - m) c = slice (off + m) (n - m) content"
    by (simp add: slice_def drop_take add.commute)
qed

lemma ConsumeAll_spec:
  assumes "rerank_inv rk" and "mem buf = Some c" and "rk_vec_bytes rk \<le> ae_size a" and "unat (ae_size a) \<le> length c"
  shows "\<exists>rk' mem' st'. ConsumeAll (Some g) (Some pb) mem buf a rk st = Some (rk', mem', st') \<and> rerank_inv rk'
    \<and> buffered_vectors rk' = buffered_vectors rk @ [(a, take (unat (rk_vec_bytes rk)) c)]
    \<and> rk_vec_bytes rk' = rk_vec_bytes rk
    \<and> (if rk_vec_bytes rk < ae_size a
       then rk_payload rk' = (rk_payload rk)(ae_offset a \<mapsto> pb)
         \<and> mem' = mem(pb \<mapsto> slice (unat (rk_vec_bytes rk)) (unat (ae_size a) - unat (rk_vec_bytes rk)) c)
       else rk_payload rk' = rk_payload rk \<and> mem' = mem)"
proof -
  have vb: "unat (rk_vec_bytes rk) \<le> length c" using assms(3,4) by (simp add: word_le_nat_alt)
  obtain rk1 st1 where c1: "ConsumeVec (Some g) mem buf a rk st = Some (rk1, st1)" "rerank_inv rk1"
      "buffered_vectors rk1 = buffered_vectors rk @ [(a, take (unat (rk_vec_bytes rk)) c)]"
      "rk_payload rk1 = rk_payload rk" "rk_vec_bytes rk1 = rk_vec_bytes rk"
    using ConsumeVec_spec [of rk mem buf c g a st, OF assms(1,2) vb] by blast
  show ?thesis
  proof (cases "rk_vec_bytes rk < ae_size a")
    case False
    then have "ae_size a \<le> rk_vec_bytes rk1" using c1 by simp
    then have "ConsumeAll (Some g) (Some pb) mem buf a rk st = Some (rk1, mem, st1)"
      using c1(1) by (simp add: ConsumeAll_def)
    then show ?thesis using c1 False by simp
  next
    case True
    let ?rk = "rk1\<lparr>rk_payload := (rk_payload rk1)(ae_offset a \<mapsto> pb)\<rparr>"
    have sub: "unat (ae_size a - rk_vec_bytes rk) = unat (ae_size a) - unat (rk_vec_bytes rk)"
      using assms(3) by (simp add: unat_sub)
    have "\<not> ae_size a \<le> rk_vec_bytes rk1" "\<not> length c < unat (ae_size a)" using True c1(5) assms(4) by simp_all
    then have "ConsumeAll (Some g) (Some pb) mem buf a rk st = Some (?rk,
        mem(pb \<mapsto> slice (unat (rk_vec_bytes rk)) (unat (ae_size a) - unat (rk_vec_bytes rk)) c),
        bump total_safein_payload_prefetched st1)"
      using c1(1,5) assms(2) sub by (simp add: ConsumeAll_def)
    moreover have "buffered_vectors ?rk = buffered_vectors rk1" "rerank_inv ?rk = rerank_inv rk1"
      by (simp_all add: buffered_vectors_def rerank_inv_def vec_at_def pointer_ok_def slab_size_def)
    ultimately show ?thesis using c1 True by simp
  qed
qed

section \<open>Dispatching a completion\<close>

text \<open>What is left to show when a vector read is consumed.\<close>

lemma consumed_vector:
  assumes inv: "query_inv content registered U en q" and env: "env_ok en"
    and t': "table_inv t'" "busy (qy_table q) = add_mset s (busy t')" "st_fixed t' = st_fixed (qy_table q)"
      "st_vec_bytes t' = st_vec_bytes (qy_table q)" "length (st_slots t') = length (st_slots (qy_table q))"
      "set_mset (all_bufs t') \<subseteq> set_mset (all_bufs (qy_table q))" "io_type (ps_io s) \<noteq> PAYLOAD"
    and rk': "rerank_inv rk'" "rk_vec_bytes rk' = rk_vec_bytes (qy_rerank q)"
      "buffered_vectors rk' = buffered_vectors (qy_rerank q) @ [(io_addr (ps_io s), vector_of content (rk_vec_bytes (qy_rerank q)) (io_addr (ps_io s)))]"
    and pay: "rk_payload rk' = rk_payload (qy_rerank q) \<and> m' = qy_mem q
      \<or> (\<exists>pb d. en_alloc en (qy_clock q) = Some pb \<and> m' = (qy_mem q)(pb \<mapsto> d)
          \<and> rk_payload rk' = (rk_payload (qy_rerank q))(ae_offset (io_addr (ps_io s)) \<mapsto> pb)
          \<and> rk_vec_bytes (qy_rerank q) < ae_size (io_addr (ps_io s))
          \<and> holds_read content m' (payload_request (rk_vec_bytes (qy_rerank q)) (io_addr (ps_io s)) pb))"
    and q': "qy_table q' = t'" "qy_queues q' = qy_queues q" "qy_rerank q' = rk'" "qy_mem q' = m'" "qy_clock q' = qy_clock q + 1"
  shows "query_inv content registered U en q' \<and> follows en q q'
    \<and> (\<forall>b. b \<in># all_bufs (qy_table q) \<longrightarrow> qy_mem q' b = qy_mem q b)"
proof -
  let ?a = "io_addr (ps_io s)" and ?vb = "rk_vec_bytes (qy_rerank q)"
  have ios: "\<forall>s \<in># add_mset s (busy t'). io_ok ?vb U (ps_io s)" using inv t'(2) unfolding query_inv_def table_part_def by metis
  then have a: "?a \<in> U" by (simp add: io_ok_def)
  have tp: "table_part registered U ?vb t'" using inv t' ios by (simp add: query_inv_def table_part_def)
  have qp: "queue_part U t' (qy_queues q)" using inv t'(5) by (simp add: query_inv_def queue_part_def)
  have vecs: "\<forall>(a, v) \<in> set (buffered_vectors rk'). a \<in> U \<and> v = vector_of content ?vb a"
    using inv a by (auto simp: rk'(3) query_inv_def rerank_part_def)
  have fr: "ran (rk_payload (qy_rerank q)) \<inter> set_mset (all_bufs (qy_table q)) = {}"
    using inv by (simp add: query_inv_def fresh_part_def)
  note new = query_inv_fresh [OF inv]
  have pays: "\<forall>off pb. rk_payload (qy_rerank q) off = Some pb \<longrightarrow> (\<exists>a \<in> U. ae_offset a = off \<and> ?vb < ae_size a
      \<and> holds_read content (qy_mem q) (payload_request ?vb a pb))"
    using inv by (simp add: query_inv_def rerank_part_def)
  have dom': "dom (rk_payload (qy_rerank q)) \<subseteq> dom (rk_payload rk')" using pay by auto
  have "{s'. s' \<in># busy (qy_table q) \<and> io_type (ps_io s') = PAYLOAD} = {s'. s' \<in># busy t' \<and> io_type (ps_io s') = PAYLOAD}"
    using t'(7) unfolding t'(2) by auto
  then have "payload_offsets q \<subseteq> payload_offsets q'" unfolding payload_offsets_def q' using dom' by auto
  moreover have "account q' = account q" unfolding account_def q' rk'(3) t'(2) using t'(7) by simp
  ultimately have acc: "follows en q q'" unfolding follows_def q' rk'(2) t'(5) by simp
  from pay show ?thesis
  proof (elim disjE exE conjE)
    assume p: "rk_payload rk' = rk_payload (qy_rerank q)" "m' = qy_mem q"
    have "rerank_part content U m' rk'" using rk'(1,2) vecs pays p by (simp add: rerank_part_def)
    moreover have "fresh_part en q'"
      unfolding fresh_part_def q' p
    proof (intro conjI allI impI)
      show "ran (rk_payload (qy_rerank q)) \<inter> set_mset (all_bufs t') = {}" using fr t'(6) by blast
      fix n y
      assume n: "qy_clock q + 1 \<le> n" "en_alloc en n = Some y"
      then show "y \<notin># all_bufs t'" "y \<notin> ran (rk_payload (qy_rerank q))" using new [of n y] t'(6) by auto
    qed
    ultimately show ?thesis using tp qp rk'(2) acc p by (simp add: query_inv_def q')
  next
    fix pb d
    assume p: "en_alloc en (qy_clock q) = Some pb" "m' = (qy_mem q)(pb \<mapsto> d)"
      "rk_payload rk' = (rk_payload (qy_rerank q))(ae_offset ?a \<mapsto> pb)" "?vb < ae_size ?a"
      "holds_read content m' (payload_request ?vb ?a pb)"
    have pb: "pb \<notin># all_bufs (qy_table q)" "pb \<notin> ran (rk_payload (qy_rerank q))" using new [OF le_refl p(1)] .
    have ran': "ran (rk_payload rk') \<subseteq> insert pb (ran (rk_payload (qy_rerank q)))" by (auto simp: p(3) ran_def)
    have later: "y \<noteq> pb" if "qy_clock q < n" "en_alloc en n = Some y" for n y
      using that env p(1) unfolding env_ok_def by (metis injD less_irrefl)
    have "\<exists>a \<in> U. ae_offset a = off \<and> ?vb < ae_size a \<and> holds_read content m' (payload_request ?vb a pb')"
      if "rk_payload rk' off = Some pb'" for off pb'
    proof (cases "off = ae_offset ?a")
      case True
      then have "pb' = pb" using that p(3) by simp
      then show ?thesis using a p(4,5) True by blast
    next
      case False
      then have o: "rk_payload (qy_rerank q) off = Some pb'" using that p(3) by simp
      then have "pb' \<noteq> pb" using pb(2) by (metis ranI)
      then have "holds_read content m' (payload_request ?vb a pb') = holds_read content (qy_mem q) (payload_request ?vb a pb')" for a
        by (intro holds_read_cong) (simp add: p(2) payload_request_def)
      then show ?thesis using pays o by metis
    qed
    then have "rerank_part content U m' rk'" using rk'(1,2) vecs by (simp add: rerank_part_def)
    moreover have "fresh_part en q'"
      unfolding fresh_part_def q'
    proof (intro conjI allI impI)
      show "ran (rk_payload rk') \<inter> set_mset (all_bufs t') = {}" using ran' fr pb(1) t'(6) by blast
      fix n y
      assume n: "qy_clock q + 1 \<le> n" "en_alloc en n = Some y"
      then have y: "y \<notin># all_bufs (qy_table q)" "y \<notin> ran (rk_payload (qy_rerank q))" "y \<noteq> pb"
        using new [of n y] later [of n y] by simp_all
      then show "y \<notin># all_bufs t'" "y \<notin> ran (rk_payload rk')" using ran' t'(6) by blast+
    qed
    moreover have "\<forall>b. b \<in># all_bufs (qy_table q) \<longrightarrow> m' b = qy_mem q b" using pb(1) by (auto simp: p(2))
    ultimately show ?thesis using tp qp rk'(2) acc by (simp add: query_inv_def q')
  qed
qed


text \<open>A payload's buffer goes to the cache.\<close>

lemma consumed_payload:
  assumes inv: "query_inv content registered U en q" and rec: "records_ok content (rk_vec_bytes (qy_rerank q)) U"
    and t': "table_inv t'" "busy (qy_table q) = add_mset s (busy t')" "st_fixed t' = st_fixed (qy_table q)"
      "st_vec_bytes t' = st_vec_bytes (qy_table q)" "length (st_slots t') = length (st_slots (qy_table q))"
      "set_mset (all_bufs t') \<subseteq> set_mset (all_bufs (qy_table q))" "io_type (ps_io s) = PAYLOAD" "slot_buf s \<notin># all_bufs t'"
    and held: "holds_read content (qy_mem q) (slot_request s)"
    and q': "qy_table q' = t'" "qy_queues q' = qy_queues q" "qy_mem q' = qy_mem q" "qy_clock q' = qy_clock q + 1"
      "qy_rerank q' = (qy_rerank q)\<lparr>rk_payload := (rk_payload (qy_rerank q))(ae_offset (io_addr (ps_io s)) \<mapsto> slot_buf s)\<rparr>"
  shows "query_inv content registered U en q' \<and> follows en q q'"
proof -
  let ?a = "io_addr (ps_io s)" and ?vb = "rk_vec_bytes (qy_rerank q)" and ?rk = "qy_rerank q'"
  have ios: "\<forall>s \<in># add_mset s (busy t'). io_ok ?vb U (ps_io s)" using inv t'(2) unfolding query_inv_def table_part_def by metis
  then have io: "io_ok ?vb U (ps_io s)" by simp
  then have a: "?a \<in> U" "?vb < ae_size ?a" "io_read_length (ps_io s) = ae_size ?a - ?vb"
      "unat (io_read_offset (ps_io s)) = unat (ae_offset ?a) + unat ?vb"
    using t'(7) by (simp_all add: io_ok_def)
  have req: "slot_request s = payload_request ?vb ?a (slot_buf s)"
    using a(2-4) by (simp add: slot_request_def payload_request_def unat_sub)
  have tp: "table_part registered U ?vb t'" using inv t' ios by (simp add: query_inv_def table_part_def)
  have qp: "queue_part U t' (qy_queues q)" using inv t'(5) by (simp add: query_inv_def queue_part_def)
  have same: "buffered_vectors ?rk = buffered_vectors (qy_rerank q)" "rerank_inv ?rk = rerank_inv (qy_rerank q)"
      "rk_vec_bytes ?rk = ?vb"
    by (simp_all add: q'(5) buffered_vectors_def rerank_inv_def vec_at_def pointer_ok_def slab_size_def)
  have buf: "slot_buf s \<in># all_bufs (qy_table q)"
    by (rule busy_in_bufs) (use inv t'(2) in \<open>simp_all add: query_inv_def table_part_def\<close>)
  have ran': "ran (rk_payload ?rk) \<subseteq> insert (slot_buf s) (ran (rk_payload (qy_rerank q)))" by (auto simp: q'(5) ran_def)
  have fr: "ran (rk_payload (qy_rerank q)) \<inter> set_mset (all_bufs (qy_table q)) = {}"
    using inv by (simp add: query_inv_def fresh_part_def)
  have "fresh_part en q'"
    unfolding fresh_part_def q'(1,4)
  proof (intro conjI allI impI)
    show "ran (rk_payload ?rk) \<inter> set_mset (all_bufs t') = {}" using ran' fr t'(6,8) by blast
    fix n y
    assume n: "qy_clock q + 1 \<le> n" "en_alloc en n = Some y"
    then have "y \<notin># all_bufs (qy_table q)" "y \<notin> ran (rk_payload (qy_rerank q))"
      using query_inv_fresh [OF inv, of n y] by simp_all
    then show "y \<notin># all_bufs t'" "y \<notin> ran (rk_payload ?rk)" using ran' t'(6) buf by blast+
  qed
  moreover have "rerank_part content U (qy_mem q) ?rk"
    unfolding rerank_part_def same
  proof (intro conjI allI impI)
    show "rerank_inv (qy_rerank q)" "\<forall>(a, v) \<in> set (buffered_vectors (qy_rerank q)). a \<in> U \<and> v = vector_of content ?vb a"
      using inv by (simp_all add: query_inv_def rerank_part_def)
    fix off pb
    assume "rk_payload ?rk off = Some pb"
    then show "\<exists>a \<in> U. ae_offset a = off \<and> ?vb < ae_size a \<and> holds_read content (qy_mem q) (payload_request ?vb a pb)"
      using inv a(1,2) held req by (cases "off = ae_offset ?a") (auto simp: q'(5) query_inv_def rerank_part_def)
  qed
  ultimately have "query_inv content registered U en q'" using tp qp same(3) by (simp add: query_inv_def q'(1-4))
  moreover have "payload_offsets q \<subseteq> payload_offsets q'"
    unfolding payload_offsets_def q'(1,5) t'(2) by auto
  moreover have "account q' = account q" unfolding account_def q'(1,2) same(1) t'(2) using t'(7) by simp
  ultimately show ?thesis using same(3) t'(5) by (simp add: follows_def q'(1,2))
qed

lemma Dispatch_query:
  assumes inv: "query_inv content registered U en q" and env: "env_ok en"
    and rec: "records_ok content (rk_vec_bytes (qy_rerank q)) U"
    and reads: "slot_reads (qy_table q) i = Some rq" and held: "holds_read content (qy_mem q) rq"
  shows "\<exists>q'. DispatchCompletion en i q = Some q' \<and> query_inv content registered U en q' \<and> follows en q q'
    \<and> slot_reads (qy_table q') = (slot_reads (qy_table q))(i := None) \<and> qy_reader q' = qy_reader q \<and> qy_queues q' = qy_queues q
    \<and> (\<forall>b. b \<in># all_bufs (qy_table q) \<longrightarrow> qy_mem q' b = qy_mem q b)"
proof -
  let ?vb = "rk_vec_bytes (qy_rerank q)"
  have ti: "table_inv (qy_table q)" using inv by (simp add: query_inv_def table_part_def)
  have "i < 4294967296" using reads inv by (simp add: slot_reads_Some query_inv_def queue_part_def)
  from dispatch_table [OF ti reads this] obtain t' s where d: "dispatch_slot (qy_table q) i = (t', Some s)"
      "ps_buffer s = Some (rq_buf rq)" "rq = slot_request s" "table_inv t'" "busy (qy_table q) = add_mset s (busy t')"
      "slot_reads t' = (slot_reads (qy_table q))(i := None)" "st_fixed t' = st_fixed (qy_table q)"
      "st_vec_bytes t' = st_vec_bytes (qy_table q)" "length (st_slots t') = length (st_slots (qy_table q))"
      "set_mset (all_bufs t') \<subseteq> set_mset (all_bufs (qy_table q))"
      "io_type (ps_io s) = PAYLOAD \<longrightarrow> rq_buf rq \<notin># all_bufs t'"
    by blast
  have buf: "rq_buf rq = slot_buf s" using d(3) by (simp add: slot_request_def)
  let ?a = "io_addr (ps_io s)"
  have "\<forall>s \<in># add_mset s (busy t'). io_ok ?vb U (ps_io s)" using inv d(5) unfolding query_inv_def table_part_def by metis
  then have io: "io_ok ?vb U (ps_io s)" by simp
  then have a: "?vb \<le> ae_size ?a" using rec by (simp add: io_ok_def records_ok_def)
  obtain c where c: "qy_mem q (rq_buf rq) = Some c" "rq_len rq \<le> length c"
      "take (rq_len rq) c = slice (rq_off rq) (rq_len rq) content"
    using held by (auto simp: holds_read_def)
  have rk: "rerank_inv (qy_rerank q)" using inv by (simp add: query_inv_def rerank_part_def)
  obtain g where g: "en_slab en (qy_clock q) = Some g" using env unfolding env_ok_def by blast
  obtain pb where pb: "en_alloc en (qy_clock q) = Some pb" using env unfolding env_ok_def by blast
  show ?thesis
  proof (cases "io_type (ps_io s)")
    case VEC_ONLY
    then have r: "rq_len rq = unat ?vb" "rq_off rq = unat (ae_offset ?a)" using io d(3) by (simp_all add: io_ok_def slot_request_def)
    obtain rk' st' where cv: "ConsumeVec (en_slab en (qy_clock q)) (qy_mem q) (rq_buf rq) ?a (qy_rerank q) (qy_stats q) = Some (rk', st')"
        "rerank_inv rk'" "buffered_vectors rk' = buffered_vectors (qy_rerank q) @ [(?a, take (unat ?vb) c)]"
        "rk_payload rk' = rk_payload (qy_rerank q)" "rk_vec_bytes rk' = ?vb"
      using ConsumeVec_spec [of "qy_rerank q" "qy_mem q" "rq_buf rq" c g ?a "qy_stats q", OF rk c(1)] c(2) r(1) g by auto
    let ?q = "tick (q\<lparr>qy_table := t', qy_rerank := rk', qy_stats := st'\<rparr>)"
    have "DispatchCompletion en i q = Some ?q"
      using d(1,2) cv(1) VEC_ONLY by (simp add: DispatchCompletion_def)
    moreover have "query_inv content registered U en ?q \<and> follows en q ?q
      \<and> (\<forall>b. b \<in># all_bufs (qy_table q) \<longrightarrow> qy_mem ?q b = qy_mem q b)"
      by (rule consumed_vector [OF inv env d(4,5,7-10) _ cv(2,5)])
        (use VEC_ONLY cv c(3) r in \<open>simp_all add: tick_def vector_of_def\<close>)
    ultimately show ?thesis using d(6) by (intro exI [of _ ?q]) (simp add: tick_def)
  next
    case VEC_ALL
    then have r: "rq_len rq = unat (ae_size ?a)" "rq_off rq = unat (ae_offset ?a)" using io d(3) by (simp_all add: io_ok_def slot_request_def)
    have le: "unat ?vb \<le> rq_len rq" using a r(1) by (simp add: word_le_nat_alt)
    note ts = take_slice [OF c(3) le]
    obtain rk' m' st' where ca: "ConsumeAll (en_slab en (qy_clock q)) (en_alloc en (qy_clock q)) (qy_mem q) (rq_buf rq) ?a
          (qy_rerank q) (qy_stats q) = Some (rk', m', st')"
        "rerank_inv rk'" "buffered_vectors rk' = buffered_vectors (qy_rerank q) @ [(?a, take (unat ?vb) c)]" "rk_vec_bytes rk' = ?vb"
        "if ?vb < ae_size ?a
         then rk_payload rk' = (rk_payload (qy_rerank q))(ae_offset ?a \<mapsto> pb)
           \<and> m' = (qy_mem q)(pb \<mapsto> slice (unat ?vb) (unat (ae_size ?a) - unat ?vb) c)
         else rk_payload rk' = rk_payload (qy_rerank q) \<and> m' = qy_mem q"
      using ConsumeAll_spec [of "qy_rerank q" "qy_mem q" "rq_buf rq" c ?a g pb "qy_stats q", OF rk c(1) a] c(2) r(1) g pb by auto
    let ?q = "tick (q\<lparr>qy_table := t', qy_rerank := rk', qy_mem := m', qy_stats := st'\<rparr>)"
    have "DispatchCompletion en i q = Some ?q"
      using d(1,2) ca(1) VEC_ALL by (simp add: DispatchCompletion_def)
    moreover have "query_inv content registered U en ?q \<and> follows en q ?q
      \<and> (\<forall>b. b \<in># all_bufs (qy_table q) \<longrightarrow> qy_mem ?q b = qy_mem q b)"
    proof (rule consumed_vector [OF inv env d(4,5,7-10) _ ca(2,4)])
      show "rk_payload rk' = rk_payload (qy_rerank q) \<and> m' = qy_mem q
        \<or> (\<exists>pb d. en_alloc en (qy_clock q) = Some pb \<and> m' = (qy_mem q)(pb \<mapsto> d)
          \<and> rk_payload rk' = (rk_payload (qy_rerank q))(ae_offset ?a \<mapsto> pb) \<and> ?vb < ae_size ?a
          \<and> holds_read content m' (payload_request ?vb ?a pb))"
      proof (cases "?vb < ae_size ?a")
        case True
        let ?d = "slice (unat ?vb) (unat (ae_size ?a) - unat ?vb) c"
        have len: "length ?d = unat (ae_size ?a) - unat ?vb" using c(2) r(1) by simp
        have "holds_read content m' (payload_request ?vb ?a pb)"
          unfolding holds_read_def payload_request_def read_request.select_convs
        proof (intro exI [of _ ?d] conjI)
          show "m' pb = Some ?d" using ca(5) True by simp
          show "unat (ae_size ?a) - unat ?vb \<le> length ?d" by (simp only: len)
          have "take (unat (ae_size ?a) - unat ?vb) ?d = ?d" by (rule take_all) (simp only: len)
          also have "\<dots> = slice (unat (ae_offset ?a) + unat ?vb) (unat (ae_size ?a) - unat ?vb) content"
            using ts(2) by (simp only: r)
          finally show "take (unat (ae_size ?a) - unat ?vb) ?d
            = slice (unat (ae_offset ?a) + unat ?vb) (unat (ae_size ?a) - unat ?vb) content" .
        qed
        then show ?thesis using ca(5) True pb by auto
      qed (use ca(5) in simp)
    qed (use VEC_ALL ca(3) ts(1) r in \<open>simp_all add: tick_def vector_of_def\<close>)
    ultimately show ?thesis using d(6) by (intro exI [of _ ?q]) (simp add: tick_def)
  next
    case PAYLOAD
    let ?q = "tick (q\<lparr>qy_table := t', qy_rerank := fst (ConsumePayload (rq_buf rq) ?a (qy_rerank q) (qy_stats q)),
      qy_stats := snd (ConsumePayload (rq_buf rq) ?a (qy_rerank q) (qy_stats q))\<rparr>)"
    have "DispatchCompletion en i q = Some ?q"
      using d(1,2) PAYLOAD by (simp add: DispatchCompletion_def ConsumePayload_def)
    moreover have "query_inv content registered U en ?q \<and> follows en q ?q"
      by (rule consumed_payload [OF inv rec d(4,5,7-10) PAYLOAD])
        (use d(3,11) PAYLOAD held buf in \<open>simp_all add: tick_def ConsumePayload_def\<close>)
    ultimately show ?thesis using d(6) by (intro exI [of _ ?q]) (simp add: tick_def)
  qed
qed


section \<open>The query's I/O over any reader with the contract\<close>

lemma dom_reads_card: "card (dom (slot_reads t)) \<le> length (st_slots t)"
  by (rule order_trans [OF card_mono [of "{..<length (st_slots t)}"]]) (auto simp: slot_reads_dom)

context faithful_reader
begin

definition working :: "address_entry set \<Rightarrow> 'r query_env \<Rightarrow> 'r query \<Rightarrow> bool" where
  "working U en q \<longleftrightarrow> en_ops en = ops \<and> en_fd en = fd \<and> env_ok en \<and> records_ok content (rk_vec_bytes (qy_rerank q)) U
     \<and> query_inv content registered U en q \<and> tracks (qy_reader q) (qy_mem q) (slot_reads (qy_table q))"

lemma workingD:
  assumes "working U en q"
  shows "en_ops en = ops" "en_fd en = fd" "env_ok en" "records_ok content (rk_vec_bytes (qy_rerank q)) U"
    "query_inv content registered U en q" "tracks (qy_reader q) (qy_mem q) (slot_reads (qy_table q))"
    "table_inv (qy_table q)" "st_vec_bytes (qy_table q) = rk_vec_bytes (qy_rerank q)"
    "queue_part U (qy_table q) (qy_queues q)"
    "\<And>i. i < length (st_fixed (qy_table q)) \<Longrightarrow> st_fixed (qy_table q) ! i = registered i"
  using assms by (simp_all add: working_def query_inv_def table_part_def)

text \<open>After a slot was taken and the read prepared, everything is in order.\<close>

lemma emitted:
  assumes w: "working U en q" and x: "en_alloc en (qy_clock q) = Some x"
    and new: "new_slot (qy_table q) io (Some x) t' slot_id buf" and io: "io_ok (rk_vec_bytes (qy_rerank q)) U io" "io_type io \<noteq> PAYLOAD"
    and p: "pending_addrs (qy_queues q) = add_mset (io_addr io) (pending_addrs p)" "pq_vec_head p \<le> length (pq_vec p)"
      "set (pq_all p) \<subseteq> set (pq_all (qy_queues q))"
    and r': "tracks r' (qy_mem q) ((slot_reads (qy_table q))(slot_id \<mapsto>
        \<lparr>rq_buf = buf, rq_len = unat (io_read_length io), rq_off = unat (io_read_offset io)\<rparr>))"
  shows "working U en (tick (q\<lparr>qy_table := t', qy_reader := r', qy_stats := st, qy_queues := p\<rparr>))"
    and "follows en q (tick (q\<lparr>qy_table := t', qy_reader := r', qy_stats := st, qy_queues := p\<rparr>))"
proof -
  let ?q = "tick (q\<lparr>qy_table := t', qy_reader := r', qy_stats := st, qy_queues := p\<rparr>)"
  have e: "query_inv content registered U en ?q \<and> follows en q ?q"
    by (rule emit_inv [OF workingD(5,3) [OF w] x new io p]) (simp_all add: tick_def)
  then show "follows en q ?q" by blast
  show "working U en ?q"
    using e workingD(1-4) [OF w] r' new by (simp add: working_def new_slot_def tick_def)
qed

text \<open>What \<open>prep\<close> asks for holds for a new slot.\<close>

lemma new_slot_preps:
  assumes w: "working U en q" and new: "new_slot (qy_table q) io answer t' slot_id buf"
    and io: "io_ok (rk_vec_bytes (qy_rerank q)) U io" and some: "pending_addrs (qy_queues q) \<noteq> {#}
      \<or> length (st_slots (qy_table q)) < 4294967295"
  shows "slot_reads (qy_table q) slot_id = None" and "card (dom (slot_reads (qy_table q))) < 4294967295"
    and "buf \<notin> bufs_of (slot_reads (qy_table q))"
    and "unat (io_read_offset io) + unat (io_read_length io) \<le> length content"
proof -
  show "slot_reads (qy_table q) slot_id = None" "buf \<notin> bufs_of (slot_reads (qy_table q))" using new by (simp_all add: new_slot_def)
  have "length (st_slots (qy_table q)) < 4294967295"
    using some workingD(9) [OF w] by (cases "pending_addrs (qy_queues q)") (auto simp: queue_part_def)
  then show "card (dom (slot_reads (qy_table q))) < 4294967295" using dom_reads_card le_less_trans by blast
  have "io_addr io \<in> U" using io by (simp add: io_ok_def)
  then have "rk_vec_bytes (qy_rerank q) \<le> ae_size (io_addr io)"
      "unat (ae_offset (io_addr io)) + unat (ae_size (io_addr io)) \<le> length content"
    using workingD(4) [OF w] by (simp_all add: records_ok_def)
  then show "unat (io_read_offset io) + unat (io_read_length io) \<le> length content"
    using io by (cases "io_type io") (auto simp: io_ok_def word_le_nat_alt unat_sub)
qed

lemma emit_all_step_ok:
  assumes w: "working U en q" and plan: "pq_all (qy_queues q) = plan # rest"
  shows "\<exists>q'. emit_all_step en q = Some q' \<and> working U en q' \<and> follows en q q'
    \<and> qy_queues q' = (qy_queues q)\<lparr>pq_all := rest\<rparr>"
proof -
  let ?p = "(qy_queues q)\<lparr>pq_all := rest\<rparr>"
  let ?io = "\<lparr>io_type = VEC_ALL, io_addr = rp_addr plan, io_read_offset = ae_offset (rp_addr plan),
    io_read_length = rp_read_length plan\<rparr>"
  have qp: "rp_read_length plan = ae_size (rp_addr plan)" "rp_addr plan \<in> U" "pq_vec_head (qy_queues q) \<le> length (pq_vec (qy_queues q))"
    using workingD(9) [OF w] plan by (auto simp: queue_part_def pending_addrs_def)
  have io: "io_ok (rk_vec_bytes (qy_rerank q)) U ?io" using qp by (simp add: io_ok_def)
  have addrs: "pending_addrs (qy_queues q) = add_mset (io_addr ?io) (pending_addrs ?p)" by (simp add: pending_addrs_def plan)
  obtain x where x: "en_alloc en (qy_clock q) = Some x" using workingD(3) [OF w] unfolding env_ok_def by blast
  have len: "length (st_slots (qy_table q)) < 4294967296" using workingD(9) [OF w] by (simp add: queue_part_def)
  obtain t' i buf where e: "emit_pooled (qy_table q) ?io (Some x) = Some (t', i, buf)"
      and new: "new_slot (qy_table q) ?io (Some x) t' i buf"
    using emit_pooled_new [OF workingD(7) [OF w] len query_inv_fresh(1) [OF workingD(5) [OF w] le_refl x], of ?io] by blast
  have some: "pending_addrs (qy_queues q) \<noteq> {#} \<or> length (st_slots (qy_table q)) < 4294967295" using addrs by simp
  note np = new_slot_preps [OF w new io some]
  let ?rq = "\<lparr>rq_buf = buf, rq_len = unat (io_read_length ?io), rq_off = unat (io_read_offset ?io)\<rparr>"
  obtain r' where r': "rd_prep ops (qy_reader q) fd buf (unat (io_read_length ?io)) (unat (io_read_offset ?io)) i = (r', Inr ())"
      and tr: "tracks r' (qy_mem q) ((slot_reads (qy_table q))(i \<mapsto> ?rq))"
    using prep [OF workingD(6) [OF w] np(1,2), of ?rq] np(3,4) by auto
  let ?q = "tick (q\<lparr>qy_table := t', qy_reader := r', qy_stats := bump all_read_requests (qy_stats q), qy_queues := ?p\<rparr>)"
  have "emit_all_step en q = Some ?q"
    using plan e x r' workingD(1,2) [OF w] by (simp add: emit_all_step_def CheckPrepRead_def)
  moreover have "set (pq_all ?p) \<subseteq> set (pq_all (qy_queues q))" using plan by auto
  then have "working U en ?q \<and> follows en q ?q"
    using emitted [OF w x new io _ addrs _ _ tr] qp(3) by simp
  ultimately show ?thesis by (intro exI [of _ ?q]) (simp add: tick_def)
qed

lemma prep_vector_ok:
  assumes en: "en_ops en = ops" "en_fd en = fd" and tr: "tracks r m R" and q: "R t = None" "card (dom R) < 4294967295"
    "rq_buf q \<notin> bufs_of R" "rq_off q + rq_len q \<le> length content" and fixed: "\<And>i. fixed = Some i \<Longrightarrow> registered i = rq_buf q"
  shows "\<exists>r'. prep_vector en r (rq_buf q) fixed (rq_len q) (rq_off q) t = (r', Inr ()) \<and> tracks r' m (R(t \<mapsto> q))"
proof (cases "fixed = None \<or> rd_fixed ops = None")
  case True
  then show ?thesis using prep [OF tr q] en by (auto simp: prep_vector_def split: option.splits)
next
  case False
  then obtain i a b where f: "fixed = Some i" "rd_fixed ops = Some (a, b)" by auto
  then show ?thesis using prep_fixed [OF tr q f(2) fixed [OF f(1)]] en by (auto simp: prep_vector_def)
qed

lemma emit_vec_step_ok:
  assumes w: "working U en q" and head: "pq_vec_head (qy_queues q) < length (pq_vec (qy_queues q))"
  shows "\<exists>q'. emit_vec_step en q = Some q' \<and> working U en q' \<and> follows en q q'
    \<and> qy_queues q' = (qy_queues q)\<lparr>pq_vec_head := pq_vec_head (qy_queues q) + 1\<rparr>"
proof -
  let ?h = "pq_vec_head (qy_queues q)" and ?vb = "rk_vec_bytes (qy_rerank q)"
  let ?p = "(qy_queues q)\<lparr>pq_vec_head := ?h + 1\<rparr>" and ?addr = "pq_vec (qy_queues q) ! ?h"
  let ?io = "\<lparr>io_type = VEC_ONLY, io_addr = ?addr, io_read_offset = ae_offset ?addr, io_read_length = st_vec_bytes (qy_table q)\<rparr>"
  have addrs: "pending_addrs (qy_queues q) = add_mset (io_addr ?io) (pending_addrs ?p)"
    using Cons_nth_drop_Suc [OF head] by (simp add: pending_addrs_def flip: mset.simps(2))
  have "?addr \<in> U" using workingD(9) [OF w] addrs by (simp add: queue_part_def)
  then have io: "io_ok ?vb U ?io" using workingD(8) [OF w] by (simp add: io_ok_def)
  obtain x where x: "en_alloc en (qy_clock q) = Some x" using workingD(3) [OF w] unfolding env_ok_def by blast
  have len: "length (st_slots (qy_table q)) < 4294967296" using workingD(9) [OF w] by (simp add: queue_part_def)
  obtain t' i buf fixed where e: "emit_vec_slot (qy_table q) ?addr (Some x) = Some (t', i, buf, fixed)"
      and new: "new_slot (qy_table q) ?io (Some x) t' i buf"
      and fx: "\<forall>j. fixed = Some j \<longrightarrow> j < length (st_fixed (qy_table q)) \<and> st_fixed (qy_table q) ! j = buf"
    using emit_vec_new [OF workingD(7) [OF w] len query_inv_fresh(1) [OF workingD(5) [OF w] le_refl x], of ?addr] by blast
  have some: "pending_addrs (qy_queues q) \<noteq> {#} \<or> length (st_slots (qy_table q)) < 4294967295" using addrs by simp
  note np = new_slot_preps [OF w new io some]
  let ?rq = "\<lparr>rq_buf = buf, rq_len = unat (io_read_length ?io), rq_off = unat (io_read_offset ?io)\<rparr>"
  have reg: "registered j = rq_buf ?rq" if "fixed = Some j" for j using fx that workingD(10) [OF w, of j] by simp
  obtain r' where r': "prep_vector en (qy_reader q) buf fixed (unat (io_read_length ?io)) (unat (io_read_offset ?io)) i = (r', Inr ())"
      and tr: "tracks r' (qy_mem q) ((slot_reads (qy_table q))(i \<mapsto> ?rq))"
    using prep_vector_ok [OF workingD(1,2,6) [OF w] np(1,2), of ?rq fixed] np(3,4) reg by auto
  let ?st = "bump vec_only_read_requests (bump (if fixed \<noteq> None then fixed_vec_buffer_hits else fixed_vec_buffer_misses) (qy_stats q))"
  let ?q = "tick (q\<lparr>qy_table := t', qy_reader := r', qy_stats := ?st, qy_queues := ?p\<rparr>)"
  have "emit_vec_step en q = Some ?q"
    using head e x r' by (simp add: emit_vec_step_def CheckPrepRead_def Let_def)
  moreover have "working U en ?q \<and> follows en q ?q"
    using emitted [OF w x new io _ addrs _ _ tr] head by simp
  ultimately show ?thesis by (intro exI [of _ ?q]) (simp add: tick_def)
qed

end


section \<open>Emitting everything\<close>

lemma mset_take_drop: "mset (take n xs) + mset (drop n xs) = mset xs"
  by (simp flip: mset_append)

lemma mset_sort_windows: "\<forall>ys. mset (srt ys) = mset ys \<Longrightarrow> mset (sort_windows srt w xs) = mset xs"
proof (induction srt w xs rule: sort_windows.induct)
  case (1 srt w xs)
  then show ?case
    by (subst sort_windows.simps) (auto simp: mset_take_drop)
qed

lemma mset_sorted_window:
  assumes "env_ok en" and "pq_vec_head (qy_queues q) \<le> length (pq_vec (qy_queues q))"
  shows "\<exists>st vs. sort_vec_only_window en n q = q\<lparr>qy_queues := (qy_queues q)\<lparr>pq_vec := vs\<rparr>, qy_stats := st\<rparr>
    \<and> mset (drop (pq_vec_head (qy_queues q)) vs) = mset (drop (pq_vec_head (qy_queues q)) (pq_vec (qy_queues q)))
    \<and> length vs = length (pq_vec (qy_queues q))"
proof -
  let ?p = "qy_queues q" and ?h = "pq_vec_head (qy_queues q)" and ?vs = "pq_vec (qy_queues q)"
  let ?e = "min (length ?vs) (?h + n)"
  let ?w = "unat (sc_address_sort_window (en_cfg en))"
  let ?part = "slice ?h (?e - ?h) ?vs"
  define sr where "sr = (if ?w = 0 \<or> ?e - ?h \<le> ?w then en_sort_addr en ?part else sort_windows (en_sort_addr en) ?w ?part)"
  have srt: "\<forall>ys. mset (en_sort_addr en ys) = mset ys" using assms(1) by (simp add: env_ok_def)
  have m: "mset sr = mset ?part" using srt mset_sort_windows by (auto simp: sr_def)
  have "length ?part = ?e - ?h" using assms(2) by simp
  then have len: "length sr = ?e - ?h" using m by (metis mset_eq_length)
  have drop_e: "drop ?e ?vs = drop (?e - ?h) (drop ?h ?vs)" using assms(2) by (simp add: min_def)
  let ?new = "take ?h ?vs @ sr @ drop ?e ?vs"
  have drop_new: "drop ?h ?new = sr @ drop ?e ?vs" using assms(2) by simp
  have "mset (drop ?h ?new) = mset sr + mset (drop ?e ?vs)" by (simp only: drop_new mset_append)
  also have "\<dots> = mset (take (?e - ?h) (drop ?h ?vs)) + mset (drop (?e - ?h) (drop ?h ?vs))"
    by (simp only: m drop_e slice_def)
  finally have "mset (drop ?h ?new) = mset (take (?e - ?h) (drop ?h ?vs)) + mset (drop (?e - ?h) (drop ?h ?vs))" .
  then have "mset (drop ?h ?new) = mset (drop ?h ?vs)" by (simp only: mset_take_drop)
  moreover have "length ?new = length ?vs" using len assms(2) by simp
  moreover have "sort_vec_only_window en n q = q
    \<or> (\<exists>st. sort_vec_only_window en n q = q\<lparr>qy_queues := ?p\<lparr>pq_vec := ?new\<rparr>, qy_stats := st\<rparr>)"
    unfolding sort_vec_only_window_def Let_def sr_def by auto
  moreover have "q = q\<lparr>qy_queues := ?p\<lparr>pq_vec := ?vs\<rparr>, qy_stats := qy_stats q\<rparr>" by simp
  ultimately show ?thesis by metis
qed

context faithful_reader
begin

lemma emit_all_loop:
  assumes "working U en q" and "n \<le> length (pq_all (qy_queues q))"
  shows "\<exists>q'. repeat_step (emit_all_step en) n q = Some q' \<and> working U en q' \<and> follows en q q'
    \<and> qy_queues q' = (qy_queues q)\<lparr>pq_all := drop n (pq_all (qy_queues q))\<rparr>"
  using assms
proof (induction n arbitrary: q)
  case 0
  then show ?case by (simp add: follows_refl)
next
  case (Suc n)
  then obtain plan rest where c: "pq_all (qy_queues q) = plan # rest" by (cases "pq_all (qy_queues q)") auto
  obtain q1 where q1: "emit_all_step en q = Some q1" "working U en q1" "follows en q q1"
      "qy_queues q1 = (qy_queues q)\<lparr>pq_all := rest\<rparr>"
    using emit_all_step_ok [OF Suc.prems(1) c] by blast
  obtain q2 where "repeat_step (emit_all_step en) n q1 = Some q2" "working U en q2" "follows en q1 q2"
      "qy_queues q2 = (qy_queues q1)\<lparr>pq_all := drop n (pq_all (qy_queues q1))\<rparr>"
    using Suc.IH [OF q1(2)] q1(4) Suc.prems(2) c by auto
  then show ?case using q1 c follows_trans by (intro exI [of _ q2]) auto
qed

lemma emit_vec_loop:
  assumes "working U en q" and "pq_vec_head (qy_queues q) + n \<le> length (pq_vec (qy_queues q))"
  shows "\<exists>q'. repeat_step (emit_vec_step en) n q = Some q' \<and> working U en q' \<and> follows en q q'
    \<and> qy_queues q' = (qy_queues q)\<lparr>pq_vec_head := pq_vec_head (qy_queues q) + n\<rparr>"
  using assms
proof (induction n arbitrary: q)
  case 0
  then show ?case by (simp add: follows_refl)
next
  case (Suc n)
  have "pq_vec_head (qy_queues q) < length (pq_vec (qy_queues q))" using Suc.prems(2) by simp
  then obtain q1 where q1: "emit_vec_step en q = Some q1" "working U en q1" "follows en q q1"
      "qy_queues q1 = (qy_queues q)\<lparr>pq_vec_head := pq_vec_head (qy_queues q) + 1\<rparr>"
    using emit_vec_step_ok [OF Suc.prems(1)] by blast
  obtain q2 where "repeat_step (emit_vec_step en) n q1 = Some q2" "working U en q2" "follows en q1 q2"
      "qy_queues q2 = (qy_queues q1)\<lparr>pq_vec_head := pq_vec_head (qy_queues q1) + n\<rparr>"
    using Suc.IH [OF q1(2)] q1(4) Suc.prems(2) by auto
  then show ?case using q1 follows_trans by (intro exI [of _ q2]) auto
qed

lemma sort_window_ok:
  assumes w: "working U en q"
  shows "working U en (sort_vec_only_window en n q) \<and> follows en q (sort_vec_only_window en n q)
    \<and> pq_all (qy_queues (sort_vec_only_window en n q)) = pq_all (qy_queues q)
    \<and> pq_vec_head (qy_queues (sort_vec_only_window en n q)) = pq_vec_head (qy_queues q)
    \<and> length (pq_vec (qy_queues (sort_vec_only_window en n q))) = length (pq_vec (qy_queues q))
    \<and> pq_deferred (qy_queues (sort_vec_only_window en n q)) = pq_deferred (qy_queues q)"
proof -
  have "pq_vec_head (qy_queues q) \<le> length (pq_vec (qy_queues q))" using workingD(9) [OF w] by (simp add: queue_part_def)
  then obtain st vs where s: "sort_vec_only_window en n q = q\<lparr>qy_queues := (qy_queues q)\<lparr>pq_vec := vs\<rparr>, qy_stats := st\<rparr>"
      and m: "mset (drop (pq_vec_head (qy_queues q)) vs) = mset (drop (pq_vec_head (qy_queues q)) (pq_vec (qy_queues q)))"
      "length vs = length (pq_vec (qy_queues q))"
    using mset_sorted_window [OF workingD(3) [OF w]] by blast
  have p: "pending_addrs ((qy_queues q)\<lparr>pq_vec := vs\<rparr>) = pending_addrs (qy_queues q)" using m(1) by (simp add: pending_addrs_def)
  show ?thesis
    using w p m unfolding s
    by (simp add: working_def query_inv_def queue_part_def fresh_part_def follows_def account_def payload_offsets_def)
qed

lemma pending_count:
  assumes "queue_part U t p"
  shows "PendingDataRequestCount p = length (pq_all p) + (length (pq_vec p) - pq_vec_head p)"
    and "size (pending_addrs p) = length (pq_all p) + (length (pq_vec p) - pq_vec_head p)"
  using assms by (auto simp: PendingDataRequestCount_def queue_part_def pending_addrs_def)

text \<open>Asked for all, \<open>EmitPendingDataRequests\<close> empties the queues.\<close>

lemma Emit_all_ok:
  assumes w: "working U en q" and all: "PendingDataRequestCount (qy_queues q) \<le> n"
  shows "\<exists>q'. EmitPendingDataRequests en n q = Some q' \<and> working U en q' \<and> follows en q q'
    \<and> pending_addrs (qy_queues q') = {#} \<and> pq_deferred (qy_queues q') = pq_deferred (qy_queues q)"
proof -
  let ?p = "qy_queues q"
  note qp = workingD(9) [OF w]
  note cnt = pending_count [OF qp]
  define v where "v = length (pq_vec ?p) - pq_vec_head ?p"
  have small: "length (pq_all ?p) < 4294967296" using qp cnt(2) by (simp add: queue_part_def)
  obtain q1 where q1: "repeat_step (emit_all_step en) (length (pq_all ?p)) q = Some q1" "working U en q1" "follows en q q1"
      "qy_queues q1 = ?p\<lparr>pq_all := []\<rparr>"
    using emit_all_loop [OF w order_refl] by auto
  let ?q2 = "sort_vec_only_window en v q1"
  note s = sort_window_ok [OF q1(2), of v]
  have "pq_vec_head (qy_queues ?q2) + v \<le> length (pq_vec (qy_queues ?q2))"
    using s q1(4) qp by (simp add: v_def queue_part_def)
  then obtain q3 where q3: "repeat_step (emit_vec_step en) v ?q2 = Some q3" "working U en q3" "follows en ?q2 q3"
      "qy_queues q3 = (qy_queues ?q2)\<lparr>pq_vec_head := pq_vec_head (qy_queues ?q2) + v\<rparr>"
    using emit_vec_loop s by blast
  have empty: "pending_addrs (qy_queues q3) = {#}"
    using s q1(4) qp by (simp add: pending_addrs_def q3(4) v_def queue_part_def)
  have f: "follows en q q3" using q1(3) s q3(3) follows_trans by blast
  show ?thesis
  proof (cases "n = 0 \<or> PendingDataRequestCount ?p = 0")
    case True
    then have "size (pending_addrs ?p) = 0" using all cnt by linarith
    then have "pending_addrs ?p = {#}" by simp
    moreover have "EmitPendingDataRequests en n q = Some q" using True by (auto simp: EmitPendingDataRequests_def)
    ultimately show ?thesis using w follows_refl by blast
  next
    case False
    have r: "min n (PendingDataRequestCount ?p) = length (pq_all ?p) + v" using all cnt(1) by (simp add: v_def)
    have nz: "length (pq_all ?p) + v \<noteq> 0" using False cnt(1) by (simp add: v_def)
    have "EmitPendingDataRequests en n q = Some q3"
      using False nz small q1(1) q3(1) unfolding EmitPendingDataRequests_def Let_def r by auto
    moreover have "pq_deferred (qy_queues q3) = pq_deferred ?p" using s q1(4) by (simp add: q3(4))
    ultimately show ?thesis using q3(2) f empty by blast
  qed
qed

lemma submit_ok:
  assumes w: "working U en q"
  shows "working U en (record_submit en q) \<and> follows en q (record_submit en q)
    \<and> rd_prepped ops (qy_reader (record_submit en q)) = 0 \<and> qy_queues (record_submit en q) = qy_queues q"
proof -
  obtain r' m' n where s: "rd_submit ops (qy_reader q) (qy_mem q) = (r', m', n)" by (rule prod_cases3)
  note sub = submit [OF workingD(6) [OF w] s]
  have f: "qy_reader (record_submit en q) = r'" "qy_mem (record_submit en q) = m'" "qy_table (record_submit en q) = qy_table q"
    "qy_queues (record_submit en q) = qy_queues q" "qy_rerank (record_submit en q) = qy_rerank q" "qy_clock (record_submit en q) = qy_clock q"
    using s workingD(1) [OF w] by (simp_all add: record_submit_def Let_def)
  have m: "\<forall>b. b \<notin> bufs_of (slot_reads (qy_table q)) \<longrightarrow> m' b = qy_mem q b" using sub by blast
  note inv = query_inv_io [OF workingD(5) [OF w] m f(3-6,2)]
  show ?thesis using inv sub w f by (simp add: working_def)
qed

end


section \<open>Polling and draining\<close>

lemma restrict_minus: "(R |` (- set (t # ts))) = (R(t := None)) |` (- set ts)"
  by (auto simp: restrict_map_def)

lemma restrict_UNIV: "m |` UNIV = m"
  by (simp add: restrict_map_def)

context faithful_reader
begin

text \<open>Between a poll and the end of its dispatch loop: \<open>ts\<close> are the tags still to dispatch.\<close>

definition dispatching :: "address_entry set \<Rightarrow> 'r query_env \<Rightarrow> nat list \<Rightarrow> 'r query \<Rightarrow> bool" where
  "dispatching U en ts q \<longleftrightarrow> env_ok en \<and> records_ok content (rk_vec_bytes (qy_rerank q)) U
     \<and> query_inv content registered U en q \<and> tracks (qy_reader q) (qy_mem q) (slot_reads (qy_table q) |` (- set ts))
     \<and> distinct ts \<and> (\<forall>t \<in> set ts. \<exists>rq. slot_reads (qy_table q) t = Some rq \<and> holds_read content (qy_mem q) rq)"

lemma dispatch_all_ok:
  "dispatching U en (tags_of cs) q \<Longrightarrow> \<exists>q'. dispatch_all en cs q = Some q' \<and> dispatching U en [] q' \<and> follows en q q'
    \<and> qy_reader q' = qy_reader q \<and> qy_queues q' = qy_queues q
    \<and> slot_reads (qy_table q') = slot_reads (qy_table q) |` (- set (tags_of cs))"
proof (induction cs arbitrary: q)
  case Nil
  then show ?case by (simp add: tags_of_def follows_refl)
next
  case (Cons c cs)
  let ?t = "ic_user_data c" and ?ts = "tags_of cs"
  have ts: "tags_of (c # cs) = ?t # ?ts" by (simp add: tags_of_def)
  have d: "env_ok en" "records_ok content (rk_vec_bytes (qy_rerank q)) U" "query_inv content registered U en q"
    "tracks (qy_reader q) (qy_mem q) (slot_reads (qy_table q) |` (- set (?t # ?ts)))" "distinct (?t # ?ts)"
    "\<forall>t \<in> set (?t # ?ts). \<exists>rq. slot_reads (qy_table q) t = Some rq \<and> holds_read content (qy_mem q) rq"
    using Cons.prems unfolding ts dispatching_def by blast+
  then obtain rq where rq: "slot_reads (qy_table q) ?t = Some rq" "holds_read content (qy_mem q) rq" by auto
  obtain q1 where q1: "DispatchCompletion en ?t q = Some q1" "query_inv content registered U en q1" "follows en q q1"
      "slot_reads (qy_table q1) = (slot_reads (qy_table q))(?t := None)" "qy_reader q1 = qy_reader q" "qy_queues q1 = qy_queues q"
      "\<forall>b. b \<in># all_bufs (qy_table q) \<longrightarrow> qy_mem q1 b = qy_mem q b"
    using Dispatch_query [OF d(3,1,2) rq] by blast
  have ti: "table_inv (qy_table q)" using d(3) by (simp add: query_inv_def table_part_def)
  have mem: "qy_mem q1 (rq_buf r) = qy_mem q (rq_buf r)" if "slot_reads (qy_table q) t = Some r" for t r
    using q1(7) reads_in_bufs [OF ti] bufs_of_I [of "slot_reads (qy_table q)", OF that] by blast
  have R: "slot_reads (qy_table q) |` (- set (?t # ?ts)) = slot_reads (qy_table q1) |` (- set ?ts)"
    unfolding q1(4) by (rule restrict_minus)
  have "\<forall>b \<in> bufs_of (slot_reads (qy_table q1) |` (- set ?ts)). qy_mem q1 b = qy_mem q b"
    using q1(7) reads_in_bufs [OF ti] bufs_of_restrict [of "slot_reads (qy_table q)"] unfolding R [symmetric] by blast
  then have "tracks (qy_reader q1) (qy_mem q1) (slot_reads (qy_table q1) |` (- set ?ts))"
    using tracks_frame [OF d(4) [unfolded R]] q1(5) by simp
  moreover have "\<forall>t \<in> set ?ts. \<exists>rq. slot_reads (qy_table q1) t = Some rq \<and> holds_read content (qy_mem q1) rq"
  proof
    fix t
    assume t: "t \<in> set ?ts"
    then obtain r where r: "slot_reads (qy_table q) t = Some r" "holds_read content (qy_mem q) r" using d(6) by auto
    then have "holds_read content (qy_mem q1) r" using holds_read_cong mem by metis
    then show "\<exists>rq. slot_reads (qy_table q1) t = Some rq \<and> holds_read content (qy_mem q1) rq"
      using r(1) t d(5) by (auto simp: q1(4))
  qed
  moreover have "rk_vec_bytes (qy_rerank q1) = rk_vec_bytes (qy_rerank q)" using q1(3) by (simp add: follows_def)
  ultimately have "dispatching U en ?ts q1" using d(1,2,5) q1(2) by (simp add: dispatching_def)
  from Cons.IH [OF this] obtain q2 where q2: "dispatch_all en cs q1 = Some q2" "dispatching U en [] q2" "follows en q1 q2"
      "qy_reader q2 = qy_reader q1" "qy_queues q2 = qy_queues q1"
      "slot_reads (qy_table q2) = slot_reads (qy_table q1) |` (- set ?ts)"
    by blast
  show ?case
    using q1(1,5,6) q2 R follows_trans [OF q1(3) q2(3)] by (intro exI [of _ q2]) (simp add: tags_of_def)
qed

text \<open>What a delivery leads to.\<close>

lemma delivered_ok:
  assumes w: "working U en q" and del: "delivery content tracks (slot_reads (qy_table q)) (qy_mem q) (r', m', cs)"
  shows "\<exists>q'. dispatch_all en cs (q\<lparr>qy_reader := r', qy_mem := m'\<rparr>) = Some q' \<and> working U en q' \<and> follows en q q'
    \<and> qy_reader q' = r' \<and> qy_queues q' = qy_queues q
    \<and> card (dom (slot_reads (qy_table q'))) + length cs = card (dom (slot_reads (qy_table q)))"
proof -
  let ?q = "q\<lparr>qy_reader := r', qy_mem := m'\<rparr>" and ?R = "slot_reads (qy_table q)"
  have del': "distinct (tags_of cs)" "tracks r' m' (?R |` (- set (tags_of cs)))"
    "\<forall>t \<in> set (tags_of cs). \<exists>rq. ?R t = Some rq \<and> holds_read content m' rq" "\<forall>b. b \<notin> bufs_of ?R \<longrightarrow> m' b = qy_mem q b"
    using del by (simp_all add: delivery_def)
  have inv: "query_inv content registered U en ?q" "follows en q ?q"
    by (rule query_inv_io [OF workingD(5) [OF w] del'(4)]; simp)+
  have "dispatching U en (tags_of cs) ?q" using inv(1) del' workingD(3,4) [OF w] by (simp add: dispatching_def)
  from dispatch_all_ok [OF this] obtain q' where q': "dispatch_all en cs ?q = Some q'" "dispatching U en [] q'" "follows en ?q q'"
      "qy_reader q' = r'" "qy_queues q' = qy_queues q" "slot_reads (qy_table q') = ?R |` (- set (tags_of cs))"
    by auto
  have "working U en q'" using q'(2) workingD(1,2) [OF w] by (simp add: dispatching_def working_def restrict_UNIV)
  moreover have "card (dom ?R) = card (dom (slot_reads (qy_table q'))) + length cs"
  proof -
    have "dom ?R = dom (slot_reads (qy_table q')) \<union> set (tags_of cs)" using del'(3) by (auto simp: q'(6))
    moreover have "dom (slot_reads (qy_table q')) \<inter> set (tags_of cs) = {}" by (auto simp: q'(6))
    moreover have "finite (dom ?R)" by (rule tracks_finite [OF workingD(6) [OF w]])
    ultimately have "card (dom ?R) = card (dom (slot_reads (qy_table q'))) + card (set (tags_of cs))"
      by (metis card_Un_disjoint finite_Un)
    moreover have "card (set (tags_of cs)) = length cs" using distinct_card [OF del'(1)] by (simp add: tags_of_def)
    ultimately show ?thesis by simp
  qed
  ultimately show ?thesis using q'(1,4,5) follows_trans [OF inv(2) q'(3)] by (intro exI [of _ q']) simp
qed

abbreviation outstanding :: "'r query \<Rightarrow> nat" where
  "outstanding q \<equiv> card (dom (slot_reads (qy_table q)))"

lemma poll_ok:
  assumes w: "working U en q"
  shows "\<exists>q' n. poll_once en q = Some (q', n) \<and> working U en q' \<and> follows en q q' \<and> qy_queues q' = qy_queues q
    \<and> outstanding q' + n = outstanding q
    \<and> (rd_prepped ops (qy_reader q) = 0 \<longrightarrow> rd_prepped ops (qy_reader q') = 0)
    \<and> (rd_in_flight ops (qy_reader q) = 0 \<longrightarrow> rd_in_flight ops (qy_reader q') = 0)
    \<and> (rd_prepped ops (qy_reader q) = 0 \<and> rd_in_flight ops (qy_reader q) = 0 \<and> outstanding q \<noteq> 0 \<longrightarrow> n \<noteq> 0)"
proof -
  obtain r' m' cs where p: "rd_poll ops (qy_reader q) (qy_mem q) 128 = (r', m', cs)" by (rule prod_cases3)
  note tr = workingD(6) [OF w]
  obtain q' where q': "dispatch_all en cs (q\<lparr>qy_reader := r', qy_mem := m'\<rparr>) = Some q'" "working U en q'" "follows en q q'"
      "qy_reader q' = r'" "qy_queues q' = qy_queues q" "outstanding q' + length cs = outstanding q"
    using delivered_ok [OF w poll [OF tr, of 128, unfolded p]] by blast
  have "poll_once en q = Some (q', length cs)" using p q'(1) workingD(1) [OF w] by (simp add: poll_once_def)
  moreover have "outstanding q \<noteq> 0 \<Longrightarrow> dom (slot_reads (qy_table q)) \<noteq> {}" by force
  ultimately show ?thesis
    using q' poll_counters [OF tr p] poll_progress [OF tr p] by (intro exI [of _ q'] exI [of _ "length cs"]) auto
qed

lemma wait_ok:
  assumes w: "working U en q"
  shows "\<exists>q'. wait_once en q = Some q' \<and> working U en q' \<and> follows en q q' \<and> qy_queues q' = qy_queues q
    \<and> (rd_prepped ops (qy_reader q) = 0 \<longrightarrow> rd_prepped ops (qy_reader q') = 0)
    \<and> (rd_in_flight ops (qy_reader q) \<noteq> 0 \<longrightarrow> outstanding q' < outstanding q)"
proof -
  obtain r' m' cs where p: "rd_wait ops (qy_reader q) (qy_mem q) 128 = (r', m', cs)" by (rule prod_cases3)
  note tr = workingD(6) [OF w]
  obtain q' where q': "dispatch_all en cs (q\<lparr>qy_reader := r', qy_mem := m'\<rparr>) = Some q'" "working U en q'" "follows en q q'"
      "qy_reader q' = r'" "qy_queues q' = qy_queues q" "outstanding q' + length cs = outstanding q"
    using delivered_ok [OF w wait [OF tr, of 128, unfolded p]] by blast
  have "wait_once en q = Some q'" using p q'(1) workingD(1) [OF w] by (simp add: wait_once_def)
  moreover have "outstanding q' < outstanding q" if "rd_in_flight ops (qy_reader q) \<noteq> 0"
    using wait_progress [OF tr p _ that] q'(6) by (cases cs) simp_all
  ultimately show ?thesis using q' wait_counters [OF tr p] by (intro exI [of _ q']) auto
qed

lemma wait_all_ok:
  assumes "working U en q" and "rd_prepped ops (qy_reader q) = 0"
  shows "\<exists>q'. wait_all en q = Some q' \<and> working U en q' \<and> follows en q q' \<and> qy_queues q' = qy_queues q
    \<and> rd_prepped ops (qy_reader q') = 0 \<and> rd_in_flight ops (qy_reader q') = 0"
  using assms
proof (induction "outstanding q" arbitrary: q rule: less_induct)
  case less
  have en: "en_ops en = ops" by (rule workingD(1) [OF less.prems(1)])
  show ?case
  proof (cases "rd_in_flight ops (qy_reader q) = 0")
    case True
    then have "wait_all en q = Some q" using en by (subst wait_all.simps) simp
    then show ?thesis using less.prems True follows_refl by blast
  next
    case False
    obtain q1 where q1: "wait_once en q = Some q1" "working U en q1" "follows en q q1" "qy_queues q1 = qy_queues q"
        "rd_prepped ops (qy_reader q1) = 0" "outstanding q1 < outstanding q"
      using wait_ok [OF less.prems(1)] less.prems(2) False by blast
    have "wait_all en q = wait_all en q1" using en False q1(1) by (subst wait_all.simps) simp
    then show ?thesis using less.hyps [OF q1(6,2,5)] q1(3,4) follows_trans by metis
  qed
qed

lemma poll_all_ok:
  assumes "working U en q" and "rd_prepped ops (qy_reader q) = 0" and "rd_in_flight ops (qy_reader q) = 0"
  shows "\<exists>q'. poll_all en q = Some q' \<and> working U en q' \<and> follows en q q' \<and> qy_queues q' = qy_queues q
    \<and> rd_prepped ops (qy_reader q') = 0 \<and> rd_in_flight ops (qy_reader q') = 0 \<and> slot_reads (qy_table q') = Map.empty"
  using assms
proof (induction "outstanding q" arbitrary: q rule: less_induct)
  case less
  obtain q1 n where q1: "poll_once en q = Some (q1, n)" "working U en q1" "follows en q q1" "qy_queues q1 = qy_queues q"
      "outstanding q1 + n = outstanding q" "rd_prepped ops (qy_reader q1) = 0" "rd_in_flight ops (qy_reader q1) = 0"
      "outstanding q \<noteq> 0 \<longrightarrow> n \<noteq> 0"
    using poll_ok [OF less.prems(1)] less.prems(2,3) by blast
  show ?case
  proof (cases "n = 0")
    case True
    then have "outstanding q1 = 0" using q1(5,8) by auto
    then have "slot_reads (qy_table q1) = Map.empty"
      using tracks_finite [OF workingD(6) [OF q1(2)]] by (simp add: card_eq_0_iff)
    moreover have "poll_all en q = Some q1" using q1(1) True by (subst poll_all.simps) simp
    ultimately show ?thesis using q1 by blast
  next
    case False
    then have "outstanding q1 < outstanding q" using q1(5) by simp
    moreover have "poll_all en q = poll_all en q1" using q1(1) False by (subst poll_all.simps) simp
    ultimately show ?thesis using less.hyps [OF _ q1(2,6,7)] q1(3,4) follows_trans by metis
  qed
qed

lemma drain_ok:
  assumes "working U en q" and "rd_prepped ops (qy_reader q) = 0"
  shows "\<exists>q'. drain_reader en q = Some q' \<and> working U en q' \<and> follows en q q' \<and> qy_queues q' = qy_queues q
    \<and> rd_prepped ops (qy_reader q') = 0 \<and> rd_in_flight ops (qy_reader q') = 0 \<and> slot_reads (qy_table q') = Map.empty"
proof -
  obtain q1 where q1: "wait_all en q = Some q1" "working U en q1" "follows en q q1" "qy_queues q1 = qy_queues q"
      "rd_prepped ops (qy_reader q1) = 0" "rd_in_flight ops (qy_reader q1) = 0"
    using wait_all_ok [OF assms] by blast
  from poll_all_ok [OF q1(2,5,6)] obtain q2 where "poll_all en q1 = Some q2" "working U en q2" "follows en q1 q2"
    "qy_queues q2 = qy_queues q1" "rd_prepped ops (qy_reader q2) = 0" "rd_in_flight ops (qy_reader q2) = 0"
    "slot_reads (qy_table q2) = Map.empty" by blast
  then show ?thesis using q1 follows_trans [OF q1(3)] by (intro exI [of _ q2]) (simp add: drain_reader_def)
qed

end


text \<open>With no slot in use, cleaning up does nothing.\<close>

lemma Cleanup_idle:
  assumes "slot_reads t = Map.empty"
  shows "CleanupPendingSlots t = t"
proof -
  have idle: "\<not> ps_in_use (st_slots t ! i)" if "i < length (st_slots t)" for i
    using that fun_cong [OF assms, of i] by (simp add: slot_reads_def split: if_splits)
  have "fold cleanup_step is t = t" if "set is \<subseteq> {..<length (st_slots t)}" for "is"
    using that by (induction "is") (simp_all add: cleanup_step_def idle)
  then show ?thesis by (simp add: CleanupPendingSlots_def lessThan_def subset_eq)
qed

lemma idle_busy: "slot_reads t = Map.empty \<Longrightarrow> busy t = {#}"
proof (rule ccontr)
  assume h: "slot_reads t = Map.empty" "busy t \<noteq> {#}"
  then obtain s where "s \<in># busy t" by blast
  then obtain i where "i < length (st_slots t)" "ps_in_use (st_slots t ! i)" by (auto simp: busy_def in_set_conv_nth)
  then show False using fun_cong [OF h(1), of i] by (simp add: slot_reads_def)
qed

context faithful_reader
begin

text \<open>\<open>FinalDrain\<close> returns, and then every address is buffered.\<close>

lemma FinalDrain_ok:
  assumes "working U en q" and "rd_prepped ops (qy_reader q) = 0" and "pending_addrs (qy_queues q) = {#}"
  shows "\<exists>q'. FinalDrain en q = Some q' \<and> working U en q' \<and> follows en q q' \<and> qy_queues q' = qy_queues q
    \<and> rd_prepped ops (qy_reader q') = 0 \<and> rd_in_flight ops (qy_reader q') = 0 \<and> slot_reads (qy_table q') = Map.empty
    \<and> mset (map fst (buffered_vectors (qy_rerank q'))) = account q"
proof -
  obtain q1 where q1: "drain_reader en q = Some q1" "working U en q1" "follows en q q1" "qy_queues q1 = qy_queues q"
      "rd_prepped ops (qy_reader q1) = 0" "rd_in_flight ops (qy_reader q1) = 0" "slot_reads (qy_table q1) = Map.empty"
    using drain_ok [OF assms(1,2)] by blast
  have "FinalDrain en q = Some q1" using q1(1) Cleanup_idle [OF q1(7)] by (simp add: FinalDrain_def)
  moreover have "account q1 = mset (map fst (buffered_vectors (qy_rerank q1)))"
    using idle_busy [OF q1(7)] assms(3) q1(4) by (simp add: account_def)
  moreover have "account q1 = account q" using q1(3) by (simp add: follows_def)
  ultimately show ?thesis using q1 by (intro exI [of _ q1]) simp
qed

end

end
