(* ===== verification/Query_Search.thy ===== *)
theory Query_Search
  imports Query_Reads Data_File
begin

text \<open>
  A whole query: \<open>Search\<close> of src/query/overlap_scheduler.cpp, from the clusters to probe to the assembled results.
  The coarse quantiser, the cluster prober and the distance kernels, whose results depend on
  floating-point arithmetic, are arguments: \<open>se_clusters\<close>, \<open>se_probe\<close>, \<open>se_l2\<close> and \<open>se_l2_batch\<close>.
\<close>

section \<open>What a query is given and what a scheduler keeps\<close>

record probe_counts =
  pr_s1_safein :: u32
  pr_s1_safeout :: u32
  pr_s1_uncertain :: u32
  pr_s2_safein :: u32
  pr_s2_safeout :: u32
  pr_s2_uncertain :: u32
  pr_s1_false_safein :: u32
  pr_s1_false_safeout :: u32
  pr_s2_false_safein :: u32
  pr_s2_false_safeout :: u32
  pr_fused_blocks :: u32
  pr_fused_safeout_lanes :: u32
  pr_fused_safein_lanes :: u32
  pr_envelope_tested :: u32
  pr_envelope_skipped :: u32
  pr_envelope_safeout_lanes :: u32

text \<open>\<open>se_preload\<close>: the answer of \<open>PreloadAllClusters\<close>, when the resident preload is not enabled yet;
  \<open>se_records\<close>: the resident clusters with their numbers of records; \<open>se_probe cid upper threshold\<close>: the
  batches \<open>ClusterProber::Probe\<close> hands to the sink; \<open>se_skip_dedup\<close>: the index assigns each record to one cluster.\<close>

record 'r search_env =
  se_io :: "'r query_env"
  se_preload :: "status option"
  se_clusters :: "nat list"
  se_records :: "nat \<Rightarrow> u32 option"
  se_probe :: "nat \<Rightarrow> f32 \<Rightarrow> f32 \<Rightarrow> candidate list list \<times> probe_counts"
  se_safein_d_k :: f32
  se_skip_dedup :: bool
  se_logical_dim :: nat
  se_l2 :: "bytes \<Rightarrow> f32"
  se_l2_batch :: "bytes list \<Rightarrow> f32 list"
  se_schemas :: "column_schema list"

record 'r scheduler =
  sv_query :: "'r query"
  sv_dedup :: dedup_set
  sv_frontier :: frontier

abbreviation se_cfg :: "'r search_env \<Rightarrow> search_config" where
  "se_cfg se \<equiv> en_cfg (se_io se)"

section \<open>Probing one cluster\<close>

text \<open>The prober's 32-bit counters end up in the statistics (its timings and 64-bit lane counts, which nothing
  reads, are left out).\<close>

definition add_probe_counts :: "probe_counts \<Rightarrow> search_stats \<Rightarrow> search_stats" where
  "add_probe_counts c st = fold (\<lambda>(counter, n). add_count counter n)
     [(stage1_fused_blocks, pr_fused_blocks c),
      (stage1_fused_safeout_lanes, pr_fused_safeout_lanes c),
      (stage1_fused_safein_lanes, pr_fused_safein_lanes c),
      (stage1_envelope_tested_blocks, pr_envelope_tested c),
      (stage1_envelope_skipped_blocks, pr_envelope_skipped c),
      (stage1_envelope_safeout_lanes, pr_envelope_safeout_lanes c),
      (total_safe_in, pr_s1_safein c),
      (total_safe_out, pr_s1_safeout c),
      (s1_uncertain_raw, pr_s1_uncertain c),
      (s2_safe_in, pr_s2_safein c),
      (s2_safe_out, pr_s2_safeout c),
      (s2_uncertain, pr_s2_uncertain c),
      (s1_false_safe_in, pr_s1_false_safein c),
      (s1_false_safe_out, pr_s1_false_safeout c),
      (s2_false_safe_in, pr_s2_false_safein c),
      (s2_false_safe_out, pr_s2_false_safeout c),
      (total_uncertain, pr_s1_uncertain c - pr_s2_safein c - pr_s2_safeout c)] st"

definition ProbeCluster :: "'r search_env \<Rightarrow> nat \<Rightarrow> u32 \<Rightarrow> 'r scheduler \<Rightarrow> 'r scheduler option" where
  "ProbeCluster se cid num_records s =
     (let cfg = se_cfg se; q = sv_query s; f = sv_frontier s; vb = st_vec_bytes (qy_table q);
          st0 = add_count total_probed num_records (qy_stats q);
          safeout_upper = (if ef_use_safeout f then SafeOutFrontierUpper f else f32_inf);
          (f1, st1) = UpdateDynamicSafeInState cfg True f st0;
          threshold = SafeInThresholdForProbe cfg (se_safein_d_k se) f1;
          (f2, st2) = RecordDynamicSafeInStats threshold (ef_current f1) f1 st1;
          (batches, counts) = se_probe se cid safeout_upper threshold
      in case feed_batches cfg vb (se_skip_dedup se) (map (\<lambda>b. (cid, f2, b)) batches)
             \<lparr>sn_dedup = sv_dedup s, sn_estimates = [], sn_pending = False, sn_queues = qy_queues q\<rparr> st2 of
           None \<Rightarrow> None
         | Some (sn, st3) \<Rightarrow>
             (let (sn1, f3, st4) = FinalizeCluster sn f2 st3;
                  (f4, st5) = UpdateDynamicSafeInState cfg False f3 st4;
                  (f5, hold) = ShouldHoldDeferredSafeInPlans cfg (length (pq_deferred (sn_queues sn1))) f4;
                  (p, st6) = (if hold then (sn_queues sn1, st5)
                    else FlushDeferredSafeInPlans cfg vb (SafeInThresholdForProbe cfg (se_safein_d_k se) f5) False
                           (sn_queues sn1) st5)
              in Some (s\<lparr>sv_query := q\<lparr>qy_queues := p, qy_stats := add_probe_counts counts st6\<rparr>,
                         sv_dedup := sn_dedup sn1, sv_frontier := f5\<rparr>)))"

section \<open>Probing the clusters of a query\<close>

definition emit_threshold :: "search_config \<Rightarrow> nat" where
  "emit_threshold cfg = (if sc_submit_batch_size cfg = 0 then 4294967295 else unat (sc_submit_batch_size cfg))"

definition count_flush :: "bool \<Rightarrow> 'r query \<Rightarrow> 'r query" where
  "count_flush tail q = q\<lparr>qy_stats := (let st = bump total_submit_window_flushes (qy_stats q)
     in if tail then bump total_submit_window_tail_flushes st else st)\<rparr>"

text \<open>After each cluster: whether the queued reads are emitted, submitted and polled once.  Both modes do the
  same with their reader.\<close>

definition flush_window :: "'r search_env \<Rightarrow> nat \<Rightarrow> bool \<Rightarrow> 'r query \<Rightarrow> ('r query \<times> nat) option" where
  "flush_window se since final_cluster q =
     (let en = se_io se; pending = PendingDataRequestCount (qy_queues q);
          vec_batch_ready = (emit_threshold (se_cfg se) \<le> pending);
          interval_hit = (4 \<le> since); pending_pressure = (32 \<le> pending)
      in if (vec_batch_ready \<or> pending_pressure \<or> (interval_hit \<and> emit_threshold (se_cfg se) \<le> pending) \<or> final_cluster)
            \<and> 0 < pending
         then do {
           q1 \<leftarrow> EmitPendingDataRequests en pending q;
           (q2, n) \<leftarrow> poll_once en (record_submit en (count_flush
              (final_cluster \<or> (interval_hit \<and> \<not> pending_pressure \<and> \<not> vec_batch_ready)) q1));
           Some (q2, 0)
         }
         else Some (q, since))"

definition early_submit :: "'r search_env \<Rightarrow> nat \<Rightarrow> 'r query \<Rightarrow> 'r query \<times> nat" where
  "early_submit se since q =
     (let cfg = se_cfg se
      in if sc_enable_early_submit cfg \<and> UseNonSafeOutCandidateBudget cfg
            \<and> unat (sc_candidate_budget cfg) \<le> length (pq_heap (qy_queues q))
            \<and> unat (sc_early_submit_interval cfg) \<le> since
         then (let (p, st) = EmitTopBudgetedReadPlans (en_sort_plan (se_io se)) cfg (sc_early_submit_count cfg)
                               (qy_queues q) (qy_stats q)
               in (q\<lparr>qy_queues := p, qy_stats := st\<rparr>, 0))
         else (q, since))"

fun probe_loop :: "'r search_env \<Rightarrow> nat list \<Rightarrow> nat \<Rightarrow> nat \<Rightarrow> 'r scheduler \<Rightarrow> 'r scheduler option" where
  "probe_loop se [] since since_early s = Some s"
| "probe_loop se (cid # rest) since since_early s = do {
     num_records \<leftarrow> se_records se cid;
     s1 \<leftarrow> ProbeCluster se cid num_records s;
     let (q1, since_early1) = early_submit se (wrap32 (since_early + 1)) (sv_query s1);
     (q2, since1) \<leftarrow> flush_window se (wrap32 (since + 1)) (rest = []) q1;
     probe_loop se rest since1 since_early1 (s1\<lparr>sv_query := q2\<rparr>)
   }"

definition ProbeResidentClusters :: "'r search_env \<Rightarrow> nat list \<Rightarrow> 'r scheduler \<Rightarrow> 'r scheduler option" where
  "ProbeResidentClusters se clusters s = do {
     s1 \<leftarrow> probe_loop se clusters 0 0 s;
     let cfg = se_cfg se;
     let en = se_io se;
     let q = sv_query s1;
     let (p1, st1) = FlushDeferredSafeInPlans cfg (st_vec_bytes (qy_table q))
           (SafeInThresholdForProbe cfg (se_safein_d_k se) (sv_frontier s1)) True (qy_queues q) (qy_stats q);
     let (p2, st2) = MaterializeBudgetedReadPlans cfg p1 st1;
     let q1 = q\<lparr>qy_queues := p2, qy_stats := st2\<rparr>;
     q2 \<leftarrow> (if 0 < PendingDataRequestCount (qy_queues q1)
          then map_option (\<lambda>q'. record_submit en (count_flush True q'))
                 (EmitPendingDataRequests en (PendingDataRequestCount (qy_queues q1)) q1)
          else Some q1);
     Some (s1\<lparr>sv_query := q2\<rparr>)
   }"

section \<open>Payloads\<close>

definition fetch_one :: "'r query_env \<Rightarrow> collector_entry \<Rightarrow> 'r query \<Rightarrow> 'r query option" where
  "fetch_one en entry q =
     (let addr = ce_addr entry; vb = st_vec_bytes (qy_table q)
      in if HasPayload (qy_rerank q) (ae_offset addr) then Some q
         else if ae_size addr \<le> vb then Some q
         else
           let payload_len = ae_size addr - vb; payload_off = ae_offset addr + ucast vb
           in do {
             (t, slot_id, buf) \<leftarrow> emit_pooled (qy_table q)
                \<lparr>io_type = PAYLOAD, io_addr = addr, io_read_offset = payload_off, io_read_length = payload_len\<rparr>
                (en_alloc en (qy_clock q));
             r \<leftarrow> CheckPrepRead (rd_prep (en_ops en) (qy_reader q) (en_fd en) buf (unat payload_len) (unat payload_off) slot_id);
             Some (tick (q\<lparr>qy_table := t, qy_reader := r, qy_stats := bump payload_read_requests (qy_stats q)\<rparr>))
           })"

fun fetch_all :: "'r query_env \<Rightarrow> collector_entry list \<Rightarrow> 'r query \<Rightarrow> 'r query option" where
  "fetch_all en [] q = Some q"
| "fetch_all en (e # es) q = (case fetch_one en e q of None \<Rightarrow> None | Some q1 \<Rightarrow> fetch_all en es q1)"

text \<open>The submission counts the reads as payload reads too.\<close>

definition submit_payloads :: "'r query_env \<Rightarrow> 'r query \<Rightarrow> 'r query" where
  "submit_payloads en q =
     (let (r, m, n) = rd_submit (en_ops en) (qy_reader q) (qy_mem q);
          st = add_count total_payload_fetched (of_nat n) (add_count total_io_submitted (of_nat n) (qy_stats q))
      in q\<lparr>qy_reader := r, qy_mem := m, qy_stats := (if 0 < n then bump total_submit_calls st else st)\<rparr>)"

definition FetchMissingPayloads :: "'r query_env \<Rightarrow> collector_entry list \<Rightarrow> 'r query \<Rightarrow> 'r query option" where
  "FetchMissingPayloads en results q = do {
     q1 \<leftarrow> fetch_all en results q;
     if 0 < rd_prepped (en_ops en) (qy_reader q1) \<or> 0 < rd_in_flight (en_ops en) (qy_reader q1)
     then drain_reader en (submit_payloads en q1)
     else Some q1
   }"

text \<open>What \<open>ParsePayload\<close> leaves in its output: \<open>AssembleResults\<close> does not look at the status, so the columns
  before an error stay.\<close>

fun columns_read :: "bytes \<Rightarrow> nat \<Rightarrow> nat \<Rightarrow> column_schema list \<Rightarrow> datum list option" where
  "columns_read buf buf_len offset [] = Some []"
| "columns_read buf buf_len offset (s # ss) =
     (if DTypeIsFixedWidth (cs_dtype s) then
        let sz = DTypeSize (cs_dtype s)
        in if buf_len < offset + sz then Some []
           else if length buf < offset + sz then None
           else map_option ((#) \<lparr>d_dtype = cs_dtype s, d_fixed = union_write (replicate 8 0) (slice offset sz buf), d_var = []\<rparr>)
                  (columns_read buf buf_len (wrap32 (offset + sz)) ss)
      else if buf_len < offset + 4 then Some []
      else if length buf < offset + 4 then None
      else
        let len = le_nat (slice offset 4 buf); offset1 = wrap32 (offset + 4)
        in if buf_len < wrap32 (offset1 + len) then Some []
           else if length buf < offset1 + len then None
           else map_option ((#) (datum_default\<lparr>d_dtype := cs_dtype s, d_var := slice offset1 len buf\<rparr>))
                  (columns_read buf buf_len (wrap32 (offset1 + len)) ss))"

record search_result =
  sr_distance :: f32
  sr_payload :: "datum list"

definition assemble_one ::
    "column_schema list \<Rightarrow> u32 \<Rightarrow> memory \<Rightarrow> collector_entry \<Rightarrow> rerank \<Rightarrow> (rerank \<times> search_result) option" where
  "assemble_one schemas vb m entry rk =
     (let addr = ce_addr entry; empty = \<lparr>sr_distance = ce_distance entry, sr_payload = []\<rparr>
      in if schemas = [] then Some (rk, empty)
         else case TakePayload rk (ae_offset addr) of
           (rk1, None) \<Rightarrow> Some (rk1, empty)
         | (rk1, Some buf) \<Rightarrow>
             (if ae_size addr \<le> vb then Some (rk1, empty)
              else do {
                content \<leftarrow> m buf;
                columns \<leftarrow> columns_read content (unat (ae_size addr - vb)) 0 schemas;
                Some (rk1, empty\<lparr>sr_payload := columns\<rparr>)
              }))"

fun AssembleResults ::
    "column_schema list \<Rightarrow> u32 \<Rightarrow> memory \<Rightarrow> collector_entry list \<Rightarrow> rerank \<Rightarrow> (rerank \<times> search_result list) option" where
  "AssembleResults schemas vb m [] rk = Some (rk, [])"
| "AssembleResults schemas vb m (e # es) rk = do {
     (rk1, r) \<leftarrow> assemble_one schemas vb m e rk;
     (rk2, rs) \<leftarrow> AssembleResults schemas vb m es rk1;
     Some (rk2, r # rs)
   }"

section \<open>The query\<close>

text \<open>The reset of the per-query state, the query's context and its reranker.\<close>

definition search_reset :: "'r search_env \<Rightarrow> 'r scheduler \<Rightarrow> 'r scheduler" where
  "search_reset se s =
     (let q = sv_query s
      in s\<lparr>sv_dedup := ds_Clear (sv_dedup s), sv_frontier := frontier_reset (sv_frontier s),
           sv_query := tick (q\<lparr>qy_table := CleanupPendingSlots (qy_table q), qy_queues := queues_new,
             qy_stats := stats_new, qy_rerank := rerank_new (en_slab (se_io se) (qy_clock q)) (se_logical_dim se)\<rparr>)\<rparr>)"

definition Search :: "'r search_env \<Rightarrow> 'r scheduler \<Rightarrow> ('r scheduler \<times> search_result list) option" where
  "Search se s0 =
     (let s = search_reset se s0; en = se_io se; cfg = se_cfg se
      in if (case se_preload se of None \<Rightarrow> False | Some answer \<Rightarrow> isl answer) then None
         else do {
           s1 \<leftarrow> ProbeResidentClusters se (se_clusters se) s;
           q1 \<leftarrow> FinalDrain en (sv_query s1);
           (rk, c, st) \<leftarrow> ExecuteBuffered (en_sort_cand en) (se_l2_batch se) (se_l2 se) cfg (qy_rerank q1)
              (collector_new (unat (sc_top_k cfg))) (qy_stats q1);
           let (c1, results) = rc_Finalize c;
           q2 \<leftarrow> FetchMissingPayloads en results (q1\<lparr>qy_rerank := rk, qy_stats := st\<rparr>);
           (rk1, found) \<leftarrow> AssembleResults (se_schemas se) (st_vec_bytes (qy_table q2)) (qy_mem q2) results (qy_rerank q2);
           Some (s1\<lparr>sv_query := q2\<lparr>qy_rerank := rk1\<rparr>\<rparr>, found)
         })"


section \<open>The columns of a stored payload\<close>

lemma columns_read_field:
  assumes "datum_fits d s" and "length (pre @ field_bytes d s) \<le> n" and "n < 4294967296"
  shows "columns_read (pre @ field_bytes d s @ post) n (length pre) (s # ss) =
    map_option ((#) d) (columns_read (pre @ field_bytes d s @ post) n (length (pre @ field_bytes d s)) ss)"
proof (cases "DTypeIsFixedWidth (cs_dtype s)")
  case True
  have f: "field_bytes d s = take (DTypeSize (cs_dtype s)) (d_fixed d)"
    using True by (simp add: field_bytes_def)
  have n: "length (field_bytes d s) = DTypeSize (cs_dtype s)"
    using length_field_bytes [OF assms(1)] True by simp
  have sl: "slice (length pre) (DTypeSize (cs_dtype s)) (pre @ field_bytes d s @ post) = field_bytes d s"
    using slice_mid [of pre "field_bytes d s" post] by (simp only: n)
  show ?thesis
    using True assms(2,3) n by (simp add: Let_def sl f [symmetric] union_of_fixed [OF assms(1), folded f])
next
  case False
  define v where "v = d_var d"
  have v: "length v < 4294967296" using assms(1) by (simp add: datum_fits_def v_def)
  have f: "field_bytes d s = le_bytes 4 (length v) @ v"
    using False v by (simp add: field_bytes_def v_def)
  have d: "datum_default\<lparr>d_dtype := cs_dtype s, d_var := v\<rparr> = d"
    using datum_fits_simps [OF assms(1)] False
    by (simp add: datum_default_def DTypeIsFixedWidth_def v_def)
  have s1: "slice (length pre) 4 (pre @ le_bytes 4 (length v) @ v @ post) = le_bytes 4 (length v)"
    using slice_mid [of pre "le_bytes 4 (length v)" "v @ post"] by simp
  have s2: "slice (length pre + 4) (length v) (pre @ le_bytes 4 (length v) @ v @ post) = v"
    using slice_mid [of "pre @ le_bytes 4 (length v)" v post] by simp
  have len: "le_nat (le_bytes 4 (length v)) = length v" using v by (simp add: le_nat_le_bytes)
  show ?thesis
    using False assms(2,3) v unfolding f
    by (simp add: Let_def s1 s2 len d add.assoc [symmetric])
qed

lemma columns_read_payload:
  assumes "list_all2 datum_fits ds ss" and "length (pre @ payload_bytes ds ss) \<le> n" and "n < 4294967296"
  shows "columns_read (pre @ payload_bytes ds ss @ post) n (length pre) ss = Some ds"
  using assms
proof (induction ds ss arbitrary: pre rule: list_all2_induct)
  case Nil
  show ?case by simp
next
  case (Cons d ds s ss)
  have pb: "payload_bytes (d # ds) (s # ss) = field_bytes d s @ payload_bytes ds ss"
    by (simp add: payload_bytes_def)
  have "columns_read ((pre @ field_bytes d s) @ payload_bytes ds ss @ post) n
      (length (pre @ field_bytes d s)) ss = Some ds"
    by (rule Cons.IH) (use Cons.prems in \<open>simp_all add: pb\<close>)
  with columns_read_field [OF Cons.hyps(1), of pre n "payload_bytes ds ss @ post" ss] Cons.prems
  show ?case by (simp add: pb)
qed

section \<open>The invariant of a query\<close>

text \<open>Every address on its way, with those whose plans are deferred.\<close>

definition on_the_way :: "'r query \<Rightarrow> address_entry multiset" where
  "on_the_way q = account q + mset (map dp_addr (pq_deferred (qy_queues q)))"

definition slot_bound :: "'r query \<Rightarrow> nat" where
  "slot_bound q = length (st_slots (qy_table q)) + length (planned (qy_queues q))"

lemma mset_planned: "mset (planned p) = pending_addrs p + mset (map dp_addr (pq_deferred p))"
  by (simp add: planned_def pending_addrs_def add.assoc)

lemma length_planned: "length (planned p) = size (pending_addrs p) + length (pq_deferred p)"
  using arg_cong [OF mset_planned [of p], of size] by simp

lemma queue_part_of:
  assumes "queues_ok cfg p" and "set (planned p) \<subseteq> U" and "length (st_slots t) + length (planned p) < 4294967296"
  shows "queue_part U t p"
proof -
  have "set_mset (pending_addrs p) \<subseteq> set (planned p)" by (auto simp: pending_addrs_def planned_def)
  then show ?thesis
    using assms by (auto simp: queue_part_def queues_ok_def length_planned)
qed

lemma queues_ok_empty:
  assumes "queue_part U t p" and "pending_addrs p = {#}"
  shows "queues_ok cfg p"
  using assms by (simp add: queues_ok_def queue_part_def pending_addrs_def)

text \<open>All the batches a prober hands over for a cluster.\<close>

definition emitted_by :: "'r search_env \<Rightarrow> nat \<times> f32 \<times> f32 \<Rightarrow> candidate list" where
  "emitted_by se call = (case call of (cid, upper, threshold) \<Rightarrow> concat (fst (se_probe se cid upper threshold)))"

lemma all_candidates_batches: "all_candidates (map (\<lambda>b. (cid, f, b)) bs) = concat bs"
  by (simp add: all_candidates_def comp_def)

text \<open>The environment of a query over the records \<open>U\<close>: the candidates are records, and the clusters are resident.\<close>

definition search_env_ok :: "address_entry set \<Rightarrow> 'r search_env \<Rightarrow> bool" where
  "search_env_ok U se \<longleftrightarrow> finite U \<and> (\<forall>cid \<in> set (se_clusters se). se_records se cid \<noteq> None)
     \<and> (\<forall>cid \<in> set (se_clusters se). \<forall>up thr. \<forall>c \<in> set (emitted_by se (cid, up, thr)). cd_addr c \<in> U \<and> cd_off c \<noteq> kEmpty)"

text \<open>Each record is in one of the clusters to probe, each probed once, and a probe emits a record at most once.\<close>

definition single_assignment :: "'r search_env \<Rightarrow> bool" where
  "single_assignment se \<longleftrightarrow> distinct (se_clusters se)
     \<and> (\<forall>cid \<in> set (se_clusters se). \<forall>up thr. distinct (map cd_off (emitted_by se (cid, up, thr))))
     \<and> (\<forall>cid \<in> set (se_clusters se). \<forall>cid' \<in> set (se_clusters se). cid \<noteq> cid' \<longrightarrow>
          (\<forall>up thr up' thr'. cd_off ` set (emitted_by se (cid, up, thr)) \<inter> cd_off ` set (emitted_by se (cid', up', thr')) = {}))"

text \<open>No candidate budget, and the deduplication set is skipped only with single assignment.\<close>

definition plain_search :: "address_entry set \<Rightarrow> 'r search_env \<Rightarrow> bool" where
  "plain_search U se \<longleftrightarrow> search_env_ok U se \<and> sc_candidate_budget (se_cfg se) = 0
     \<and> (se_skip_dedup se \<longrightarrow> single_assignment se)"

text \<open>The offsets of the candidates on the way; without skipping they are the keys of the deduplication set.\<close>

definition way_offsets :: "'r query \<Rightarrow> u64 set" where
  "way_offsets q = ae_offset ` set_mset (on_the_way q)"

context faithful_reader
begin

definition searching :: "address_entry set \<Rightarrow> nat \<Rightarrow> 'r search_env \<Rightarrow> 'r scheduler \<Rightarrow> bool" where
  "searching U N se s \<longleftrightarrow> working U (se_io se) (sv_query s) \<and> rd_prepped ops (qy_reader (sv_query s)) = 0
     \<and> queues_ok (se_cfg se) (qy_queues (sv_query s)) \<and> ds_inv (sv_dedup s)
     \<and> (se_skip_dedup se \<or> card (ae_offset ` U) \<le> length (ds_slots (sv_dedup s)))
     \<and> set_mset (on_the_way (sv_query s)) \<subseteq> U
     \<and> image_mset ae_offset (on_the_way (sv_query s)) = mset_set (way_offsets (sv_query s))
     \<and> slot_bound (sv_query s) \<le> N + size (on_the_way (sv_query s)) \<and> N + card U < 4294967296
     \<and> rk_vec_bytes (qy_rerank (sv_query s)) = of_nat (wrap32 (se_logical_dim se * 4))
     \<and> (se_skip_dedup se \<or> ds_keys (sv_dedup s) = way_offsets (sv_query s))"

lemma searchingD:
  assumes "searching U N se s"
  shows "working U (se_io se) (sv_query s)" "rd_prepped ops (qy_reader (sv_query s)) = 0"
    "queues_ok (se_cfg se) (qy_queues (sv_query s))" "ds_inv (sv_dedup s)"
    "se_skip_dedup se \<or> card (ae_offset ` U) \<le> length (ds_slots (sv_dedup s))" "set_mset (on_the_way (sv_query s)) \<subseteq> U"
    "image_mset ae_offset (on_the_way (sv_query s)) = mset_set (way_offsets (sv_query s))"
    "slot_bound (sv_query s) \<le> N + size (on_the_way (sv_query s))" "N + card U < 4294967296"
    "rk_vec_bytes (qy_rerank (sv_query s)) = of_nat (wrap32 (se_logical_dim se * 4))"
    "se_skip_dedup se \<or> ds_keys (sv_dedup s) = way_offsets (sv_query s)"
  using assms by (simp_all add: searching_def)

lemma working_queues:
  assumes "working U en q" and "queue_part U (qy_table q) p"
  shows "working U en (q\<lparr>qy_queues := p, qy_stats := st\<rparr>)"
  using assms by (simp add: working_def query_inv_def fresh_part_def)

lemma way_finite: "finite (way_offsets q)"
  by (simp add: way_offsets_def)

lemma on_the_way_size:
  assumes "searching U N se s"
  shows "size (on_the_way (sv_query s)) = card (way_offsets (sv_query s))"
    and "way_offsets (sv_query s) \<subseteq> ae_offset ` U"
proof -
  have "size (image_mset ae_offset (on_the_way (sv_query s))) = card (way_offsets (sv_query s))"
    unfolding searchingD(7) [OF assms] by simp
  then show "size (on_the_way (sv_query s)) = card (way_offsets (sv_query s))" by simp
  show "way_offsets (sv_query s) \<subseteq> ae_offset ` U" using searchingD(6) [OF assms] by (auto simp: way_offsets_def)
qed

end

section \<open>Probing keeps the invariant\<close>

lemma on_the_way_planned:
  "on_the_way q = mset (planned (qy_queues q))
     + image_mset (\<lambda>s. io_addr (ps_io s)) (filter_mset (\<lambda>s. io_type (ps_io s) \<noteq> PAYLOAD) (busy (qy_table q)))
     + mset (map fst (buffered_vectors (qy_rerank q)))"
  by (simp add: on_the_way_def account_def mset_planned)

lemma FinalizeCluster_keeps:
  "FinalizeCluster sn f st = (sn', f', st') \<Longrightarrow> sn_dedup sn' = sn_dedup sn \<and> sn_queues sn' = sn_queues sn"
  by (auto simp: FinalizeCluster_def split: if_splits prod.splits)

context faithful_reader
begin

text \<open>New plans: queues, statistics, deduplication set and frontier change.\<close>

lemma replan:
  assumes s: "searching U N se s" and fin: "finite U"
    and p: "queues_ok (se_cfg se) p" "mset (planned p) = mset (planned (qy_queues (sv_query s))) + M" "set_mset M \<subseteq> U"
    and M: "image_mset ae_offset M = mset_set W" "finite W" "W \<inter> way_offsets (sv_query s) = {}"
    and d: "ds_inv d" "length (ds_slots d) = length (ds_slots (sv_dedup s))"
      "se_skip_dedup se \<or> ds_keys d = way_offsets (sv_query s) \<union> W"
  shows "searching U N se (s\<lparr>sv_query := (sv_query s)\<lparr>qy_queues := p, qy_stats := st\<rparr>, sv_dedup := d, sv_frontier := f\<rparr>)"
    and "on_the_way ((sv_query s)\<lparr>qy_queues := p, qy_stats := st\<rparr>) = on_the_way (sv_query s) + M"
    and "way_offsets ((sv_query s)\<lparr>qy_queues := p, qy_stats := st\<rparr>) = way_offsets (sv_query s) \<union> W"
proof -
  let ?q = "(sv_query s)\<lparr>qy_queues := p, qy_stats := st\<rparr>"
  note sd = searchingD [OF s]
  show tot: "on_the_way ?q = on_the_way (sv_query s) + M" by (simp add: on_the_way_planned p(2))
  have "set_mset (image_mset ae_offset M) = W" unfolding M(1) using M(2) by simp
  then show way: "way_offsets ?q = way_offsets (sv_query s) \<union> W" by (simp add: way_offsets_def tot image_Un)
  have img: "image_mset ae_offset (on_the_way ?q) = mset_set (way_offsets ?q)"
  proof -
    have "image_mset ae_offset (on_the_way ?q) = mset_set (way_offsets (sv_query s)) + mset_set W"
      by (simp add: tot sd(7) M(1))
    also have "\<dots> = mset_set (way_offsets ?q)"
      unfolding way using M(2,3) way_finite by (intro mset_set_Union [symmetric]) auto
    finally show ?thesis .
  qed
  have sub: "set_mset (on_the_way ?q) \<subseteq> U" using sd(6) p(3) by (simp add: tot)
  then have keys: "way_offsets ?q \<subseteq> ae_offset ` U" by (auto simp: way_offsets_def)
  have "size (image_mset ae_offset (on_the_way ?q)) = card (way_offsets ?q)" by (simp only: img size_mset_set)
  then have "size (on_the_way ?q) \<le> card U"
    using card_mono [OF finite_imageI [OF fin] keys] card_image_le [OF fin, of ae_offset] by simp
  moreover have "length (planned p) = length (planned (qy_queues (sv_query s))) + size M"
    using arg_cong [OF p(2), of size] by simp
  then have bound: "slot_bound ?q \<le> N + size (on_the_way ?q)" using sd(8) by (simp add: slot_bound_def tot)
  ultimately have small: "length (st_slots (qy_table (sv_query s))) + length (planned p) < 4294967296"
    using sd(9) by (simp add: slot_bound_def)
  have "set (planned p) \<subseteq> set_mset (on_the_way ?q)" by (auto simp: on_the_way_planned)
  then have "queue_part U (qy_table (sv_query s)) p" using queue_part_of [OF p(1) _ small] sub by blast
  then have "working U (se_io se) ?q" by (rule working_queues [OF sd(1)])
  then show "searching U N se (s\<lparr>sv_query := ?q, sv_dedup := d, sv_frontier := f\<rparr>)"
    using sd p(1) d img sub bound way by (simp add: searching_def)
qed

lemma news_offset_mset: "image_mset ae_offset (mset (map cd_addr (news K cs))) = mset_set (cd_off ` set cs - K)"
proof -
  have "image_mset ae_offset (mset (map cd_addr (news K cs))) = mset (map cd_off (news K cs))"
    by (simp add: cd_off_def [abs_def] multiset.map_comp comp_def)
  also have "\<dots> = mset_set (set (map cd_off (news K cs)))" by (rule mset_set_set [symmetric]) (use news_offsets in blast)
  also have "set (map cd_off (news K cs)) = cd_off ` set cs - K" using news_offsets [of K cs] by simp
  finally show ?thesis .
qed

lemma news_subset: "set (news K cs) \<subseteq> set cs"
proof (induction cs arbitrary: K)
  case (Cons c cs)
  then show ?case by (cases "cd_off c \<in> K") (simp_all add: subset_insertI2)
qed simp

lemma ProbeCluster_ok:
  assumes s: "searching U N se s" and se: "plain_search U se" and cid: "cid \<in> set (se_clusters se)"
    and new: "\<And>up thr. se_skip_dedup se \<Longrightarrow> cd_off ` set (emitted_by se (cid, up, thr)) \<inter> way_offsets (sv_query s) = {}"
  shows "\<exists>s' upper threshold. ProbeCluster se cid n s = Some s' \<and> searching U N se s'
    \<and> on_the_way (sv_query s') = on_the_way (sv_query s)
        + mset (map cd_addr (news (way_offsets (sv_query s)) (emitted_by se (cid, upper, threshold))))
    \<and> way_offsets (sv_query s') = way_offsets (sv_query s) \<union> cd_off ` set (emitted_by se (cid, upper, threshold))
    \<and> length (ds_slots (sv_dedup s')) = length (ds_slots (sv_dedup s))
    \<and> qy_rerank (sv_query s') = qy_rerank (sv_query s) \<and> qy_table (sv_query s') = qy_table (sv_query s)"
proof -
  let ?cfg = "se_cfg se" and ?q = "sv_query s" and ?f = "sv_frontier s"
  let ?vb = "st_vec_bytes (qy_table ?q)"
  note sd = searchingD [OF s]
  have fin: "finite U" and nb: "sc_candidate_budget ?cfg = 0"
    and cand: "\<And>up thr c. c \<in> set (emitted_by se (cid, up, thr)) \<Longrightarrow> cd_addr c \<in> U \<and> cd_off c \<noteq> kEmpty"
    and once: "\<And>up thr. se_skip_dedup se \<Longrightarrow> distinct (map cd_off (emitted_by se (cid, up, thr)))"
    using se cid by (auto simp: plain_search_def search_env_ok_def single_assignment_def)
  obtain f1 st1 where f1: "UpdateDynamicSafeInState ?cfg True ?f (add_count total_probed n (qy_stats ?q)) = (f1, st1)" by fastforce
  let ?thr = "SafeInThresholdForProbe ?cfg (se_safein_d_k se) f1"
  obtain f2 st2 where f2: "RecordDynamicSafeInStats ?thr (ef_current f1) f1 st1 = (f2, st2)" by fastforce
  let ?up = "if ef_use_safeout ?f then SafeOutFrontierUpper ?f else f32_inf"
  obtain batches counts where pr: "se_probe se cid ?up ?thr = (batches, counts)" by fastforce
  let ?cs = "emitted_by se (cid, ?up, ?thr)"
  let ?bs = "map (\<lambda>b. (cid, f2, b)) batches"
  let ?sn = "\<lparr>sn_dedup = sv_dedup s, sn_estimates = [], sn_pending = False, sn_queues = qy_queues ?q\<rparr>"
  have all: "all_candidates ?bs = ?cs" by (simp add: all_candidates_batches emitted_by_def pr)
  have ne: "\<forall>c \<in> set (all_candidates ?bs). cd_off c \<noteq> kEmpty" unfolding all using cand by blast
  have offs: "cd_off ` set ?cs \<subseteq> ae_offset ` U" using cand by (auto simp: cd_off_def)
  let ?K = "way_offsets (sv_query s)" and ?skip = "se_skip_dedup se"
  have qs: "queues_ok ?cfg (sn_queues ?sn)" using sd(3) by simp
  have "\<exists>sn st3. feed_batches ?cfg ?vb ?skip ?bs ?sn st2 = Some (sn, st3) \<and> queues_ok ?cfg (sn_queues sn)
      \<and> ds_inv (sn_dedup sn) \<and> (?skip \<or> ds_keys (sn_dedup sn) = ?K \<union> cd_off ` set ?cs)
      \<and> length (ds_slots (sn_dedup sn)) = length (ds_slots (sv_dedup s))
      \<and> mset (planned (sn_queues sn)) = mset (planned (qy_queues ?q)) + mset (map cd_addr (news ?K ?cs))"
  proof (cases ?skip)
    case True
    have "kept_candidates True ?bs = ?cs" using kept_all [of ?bs True] once [OF True] all by simp
    moreover have "news ?K ?cs = ?cs" by (rule news_all [OF once [OF True] new [OF True]])
    ultimately show ?thesis
      using feed_batches_skip [OF nb qs, of ?vb ?bs st2] sd(4) True by (auto simp: kept_candidates_def)
  next
    case False
    have keys: "ds_keys (sv_dedup s) = ?K" using sd(11) False by simp
    have "?K \<union> cd_off ` set ?cs \<subseteq> ae_offset ` U" using on_the_way_size(2) [OF s] offs by blast
    then have "card (ds_keys (sn_dedup ?sn) \<union> cd_off ` set (all_candidates ?bs)) \<le> card (ae_offset ` U)"
      unfolding all by (simp add: card_mono fin keys)
    then have room: "card (ds_keys (sn_dedup ?sn) \<union> cd_off ` set (all_candidates ?bs)) \<le> length (ds_slots (sn_dedup ?sn))"
      using sd(5) False by simp
    have dq: "ds_inv (sn_dedup ?sn)" using sd(4) by simp
    show ?thesis
      using feed_batches_spec [OF nb dq ne room qs, of ?vb st2] False keys unfolding all by auto
  qed
  then obtain sn st3 where sn: "feed_batches ?cfg ?vb ?skip ?bs ?sn st2 = Some (sn, st3)" "queues_ok ?cfg (sn_queues sn)"
      "ds_inv (sn_dedup sn)" "?skip \<or> ds_keys (sn_dedup sn) = ?K \<union> cd_off ` set ?cs"
      "length (ds_slots (sn_dedup sn)) = length (ds_slots (sv_dedup s))"
      "mset (planned (sn_queues sn)) = mset (planned (qy_queues ?q)) + mset (map cd_addr (news ?K ?cs))" by blast
  obtain sn1 f3 st4 where sn1: "FinalizeCluster sn f2 st3 = (sn1, f3, st4)" by (rule prod_cases3)
  note keep = FinalizeCluster_keeps [OF sn1]
  obtain f4 st5 where f4: "UpdateDynamicSafeInState ?cfg False f3 st4 = (f4, st5)" by fastforce
  obtain f5 hold where f5: "ShouldHoldDeferredSafeInPlans ?cfg (length (pq_deferred (sn_queues sn1))) f4 = (f5, hold)" by fastforce
  have "\<exists>p st6. (if hold then (sn_queues sn1, st5)
      else FlushDeferredSafeInPlans ?cfg ?vb (SafeInThresholdForProbe ?cfg (se_safein_d_k se) f5) False (sn_queues sn1) st5) = (p, st6)
    \<and> queues_ok ?cfg p \<and> mset (planned p) = mset (planned (sn_queues sn))"
  proof (cases hold)
    case True
    then show ?thesis using keep sn(2) by auto
  next
    case False
    have "queues_ok ?cfg (sn_queues sn1)" using keep sn(2) by simp
    from Flush_spec [OF nb this, of ?vb "SafeInThresholdForProbe ?cfg (se_safein_d_k se) f5" False st5]
    show ?thesis using False keep by auto
  qed
  then obtain p st6 where p: "(if hold then (sn_queues sn1, st5)
      else FlushDeferredSafeInPlans ?cfg ?vb (SafeInThresholdForProbe ?cfg (se_safein_d_k se) f5) False (sn_queues sn1) st5) = (p, st6)"
    "queues_ok ?cfg p" "mset (planned p) = mset (planned (sn_queues sn))" by blast
  let ?M = "mset (map cd_addr (news ?K ?cs))"
  let ?s = "s\<lparr>sv_query := ?q\<lparr>qy_queues := p, qy_stats := add_probe_counts counts st6\<rparr>, sv_dedup := sn_dedup sn, sv_frontier := f5\<rparr>"
  have run: "ProbeCluster se cid n s = Some ?s"
    unfolding ProbeCluster_def Let_def f1 prod.case f2 pr sn(1) option.case sn1 f4 f5 p(1) using keep by simp
  have M: "set_mset ?M \<subseteq> U" using news_subset [of ?K ?cs] cand by auto
  have pl: "mset (planned p) = mset (planned (qy_queues ?q)) + ?M" using p(3) sn(6) by simp
  have img: "image_mset ae_offset ?M = mset_set (cd_off ` set ?cs - ?K)" by (rule news_offset_mset)
  have keys: "?skip \<or> ds_keys (sn_dedup sn) = ?K \<union> (cd_off ` set ?cs - ?K)" using sn(4) by auto
  have W: "finite (cd_off ` set ?cs - ?K)" "(cd_off ` set ?cs - ?K) \<inter> ?K = {}" by auto
  note re = replan [OF s fin p(2) pl M img W sn(3,5) keys]
  show ?thesis
    using run re(1) re(2) re(3) sn(5) by (intro exI [of _ ?s] exI [of _ ?up] exI [of _ ?thr]) simp
qed

end


section \<open>Submitting keeps the invariant\<close>

context faithful_reader
begin

lemma searching_follows:
  assumes s: "searching U N se s" and w: "working U (se_io se) q'" and f: "follows (se_io se) (sv_query s) q'"
    and p: "rd_prepped ops (qy_reader q') = 0" "queues_ok (se_cfg se) (qy_queues q')"
      "pq_deferred (qy_queues q') = pq_deferred (qy_queues (sv_query s))"
  shows "searching U N se (s\<lparr>sv_query := q'\<rparr>)" and "on_the_way q' = on_the_way (sv_query s)"
proof -
  show o: "on_the_way q' = on_the_way (sv_query s)" using f p(3) by (simp add: on_the_way_def follows_def)
  have "slot_bound q' \<le> slot_bound (sv_query s)" using f p(3) by (simp add: slot_bound_def follows_def length_planned)
  then show "searching U N se (s\<lparr>sv_query := q'\<rparr>)" using s w p(1,2) o f by (simp add: searching_def follows_def way_offsets_def)
qed

lemma working_stats: "working U en q \<Longrightarrow> working U en (count_flush tail q) \<and> follows en q (count_flush tail q)
  \<and> qy_queues (count_flush tail q) = qy_queues q \<and> qy_reader (count_flush tail q) = qy_reader q"
  by (simp add: working_def query_inv_def fresh_part_def count_flush_def follows_def account_def payload_offsets_def)

lemma emit_submit_ok:
  assumes s: "searching U N se s"
  shows "\<exists>q'. EmitPendingDataRequests (se_io se) (PendingDataRequestCount (qy_queues (sv_query s))) (sv_query s) = Some q'
    \<and> (\<forall>tail. working U (se_io se) (record_submit (se_io se) (count_flush tail q'))
        \<and> follows (se_io se) (sv_query s) (record_submit (se_io se) (count_flush tail q'))
        \<and> rd_prepped ops (qy_reader (record_submit (se_io se) (count_flush tail q'))) = 0
        \<and> pending_addrs (qy_queues (record_submit (se_io se) (count_flush tail q'))) = {#}
        \<and> pq_deferred (qy_queues (record_submit (se_io se) (count_flush tail q'))) = pq_deferred (qy_queues (sv_query s)))"
proof -
  let ?en = "se_io se"
  obtain q1 where q1: "EmitPendingDataRequests ?en (PendingDataRequestCount (qy_queues (sv_query s))) (sv_query s) = Some q1"
      "working U ?en q1" "follows ?en (sv_query s) q1" "pending_addrs (qy_queues q1) = {#}"
      "pq_deferred (qy_queues q1) = pq_deferred (qy_queues (sv_query s))"
    using Emit_all_ok [OF searchingD(1) [OF s] order_refl] by blast
  have "working U ?en (record_submit ?en (count_flush tail q1))
        \<and> follows ?en (sv_query s) (record_submit ?en (count_flush tail q1))
        \<and> rd_prepped ops (qy_reader (record_submit ?en (count_flush tail q1))) = 0
        \<and> pending_addrs (qy_queues (record_submit ?en (count_flush tail q1))) = {#}
        \<and> pq_deferred (qy_queues (record_submit ?en (count_flush tail q1))) = pq_deferred (qy_queues (sv_query s))" for tail
  proof -
    have c: "working U ?en (count_flush tail q1)" "follows ?en q1 (count_flush tail q1)"
      "qy_queues (count_flush tail q1) = qy_queues q1" using working_stats [OF q1(2)] by blast+
    note sub = submit_ok [OF c(1)]
    have "follows ?en (sv_query s) (record_submit ?en (count_flush tail q1))"
      using follows_trans [OF follows_trans [OF q1(3) c(2)]] sub by blast
    then show ?thesis using sub c(3) q1(4,5) by simp
  qed
  then show ?thesis using q1(1) by blast
qed

lemma flush_window_ok:
  assumes s: "searching U N se s"
  shows "\<exists>q' n. flush_window se since final_cluster (sv_query s) = Some (q', n) \<and> searching U N se (s\<lparr>sv_query := q'\<rparr>)
    \<and> on_the_way q' = on_the_way (sv_query s)"
proof -
  let ?en = "se_io se" and ?pending = "PendingDataRequestCount (qy_queues (sv_query s))"
  let ?go = "(emit_threshold (se_cfg se) \<le> ?pending \<or> 32 \<le> ?pending \<or> (4 \<le> since \<and> emit_threshold (se_cfg se) \<le> ?pending)
      \<or> final_cluster) \<and> 0 < ?pending"
  show ?thesis
  proof (cases ?go)
    case False
    then have "flush_window se since final_cluster (sv_query s) = Some (sv_query s, since)"
      unfolding flush_window_def Let_def by (simp only: if_not_P not_False_eq_True if_False)
    then show ?thesis using s by auto
  next
    case True
    let ?tail = "final_cluster \<or> (4 \<le> since \<and> \<not> 32 \<le> ?pending \<and> \<not> emit_threshold (se_cfg se) \<le> ?pending)"
    obtain q1 where e: "EmitPendingDataRequests ?en ?pending (sv_query s) = Some q1"
      and q1: "working U ?en (record_submit ?en (count_flush ?tail q1))"
        "follows ?en (sv_query s) (record_submit ?en (count_flush ?tail q1))"
        "rd_prepped ops (qy_reader (record_submit ?en (count_flush ?tail q1))) = 0"
        "pending_addrs (qy_queues (record_submit ?en (count_flush ?tail q1))) = {#}"
        "pq_deferred (qy_queues (record_submit ?en (count_flush ?tail q1))) = pq_deferred (qy_queues (sv_query s))"
      using emit_submit_ok [OF s] by blast
    obtain q2 n where q2: "poll_once ?en (record_submit ?en (count_flush ?tail q1)) = Some (q2, n)" "working U ?en q2"
        "follows ?en (record_submit ?en (count_flush ?tail q1)) q2"
        "qy_queues q2 = qy_queues (record_submit ?en (count_flush ?tail q1))" "rd_prepped ops (qy_reader q2) = 0"
      using poll_ok [OF q1(1)] q1(3) by blast
    have run: "flush_window se since final_cluster (sv_query s) = Some (q2, 0)"
      unfolding flush_window_def Let_def using True e q2(1) by (simp only: if_True) simp
    have "queues_ok (se_cfg se) (qy_queues q2)"
      using queues_ok_empty workingD(9) [OF q1(1)] q1(4) q2(4) by simp
    from searching_follows [OF s q2(2) follows_trans [OF q1(2) q2(3)] q2(5) this] q1(5) q2(4)
    show ?thesis using run by auto
  qed
qed

lemma early_submit_none: "plain_search U se \<Longrightarrow> early_submit se n q = (q, n)"
  by (simp add: early_submit_def plain_search_def no_budget Let_def)

lemma probe_loop_ok:
  assumes "searching U N se s" and "plain_search U se" and "set cids \<subseteq> set (se_clusters se)"
    and "se_skip_dedup se \<Longrightarrow> distinct cids"
    and "\<And>cid up thr. se_skip_dedup se \<Longrightarrow> cid \<in> set cids \<Longrightarrow>
      cd_off ` set (emitted_by se (cid, up, thr)) \<inter> way_offsets (sv_query s) = {}"
  shows "\<exists>s' calls. probe_loop se cids since since_early s = Some s' \<and> searching U N se s' \<and> map fst calls = cids
    \<and> on_the_way (sv_query s') = on_the_way (sv_query s)
        + mset (map cd_addr (news (way_offsets (sv_query s)) (concat (map (emitted_by se) calls))))"
  using assms
proof (induction cids arbitrary: s since since_early)
  case Nil
  then show ?case by (intro exI [of _ s] exI [of _ "[]"]) simp
next
  case (Cons cid cids)
  have cid: "cid \<in> set (se_clusters se)" and sub: "set cids \<subseteq> set (se_clusters se)" using Cons.prems(3) by simp_all
  obtain n where n: "se_records se cid = Some n"
    using Cons.prems(2) cid by (auto simp: plain_search_def search_env_ok_def)
  have new: "cd_off ` set (emitted_by se (cid, up, thr)) \<inter> way_offsets (sv_query s) = {}" if "se_skip_dedup se" for up thr
    using Cons.prems(5) [OF that] by simp
  obtain s1 up thr where s1: "ProbeCluster se cid n s = Some s1" "searching U N se s1"
      "on_the_way (sv_query s1) = on_the_way (sv_query s)
        + mset (map cd_addr (news (way_offsets (sv_query s)) (emitted_by se (cid, up, thr))))"
      "way_offsets (sv_query s1) = way_offsets (sv_query s) \<union> cd_off ` set (emitted_by se (cid, up, thr))"
    using ProbeCluster_ok [OF Cons.prems(1,2) cid new, of n] by blast
  obtain q2 since1 where q2: "flush_window se (wrap32 (since + 1)) (cids = []) (sv_query s1) = Some (q2, since1)"
      "searching U N se (s1\<lparr>sv_query := q2\<rparr>)" "on_the_way q2 = on_the_way (sv_query s1)"
    using flush_window_ok [OF s1(2)] by blast
  have way: "way_offsets q2 = way_offsets (sv_query s1)" by (simp add: way_offsets_def q2(3))
  have later: "cd_off ` set (emitted_by se (c, up', thr')) \<inter> way_offsets (sv_query (s1\<lparr>sv_query := q2\<rparr>)) = {}"
    if "se_skip_dedup se" "c \<in> set cids" for c up' thr'
  proof -
    have "c \<noteq> cid" using Cons.prems(4) [OF that(1)] that(2) by auto
    then have "cd_off ` set (emitted_by se (c, up', thr')) \<inter> cd_off ` set (emitted_by se (cid, up, thr)) = {}"
      using Cons.prems(2) that sub cid unfolding plain_search_def single_assignment_def by blast
    then show ?thesis using Cons.prems(5) [OF that(1), of c up' thr'] that(2) by (auto simp: way s1(4))
  qed
  have tail: "distinct cids" if "se_skip_dedup se" using Cons.prems(4) [OF that] by simp
  obtain s' calls where s': "probe_loop se cids since1 (wrap32 (since_early + 1)) (s1\<lparr>sv_query := q2\<rparr>) = Some s'"
      "searching U N se s'" "map fst calls = cids"
      "on_the_way (sv_query s') = on_the_way q2
        + mset (map cd_addr (news (way_offsets (sv_query s1)) (concat (map (emitted_by se) calls))))"
    using Cons.IH [OF q2(2) Cons.prems(2) sub tail later, of since1 "wrap32 (since_early + 1)"] way by auto
  have "probe_loop se (cid # cids) since since_early s = Some s'"
    using n s1(1) q2(1) s'(1) early_submit_none [OF Cons.prems(2)] by simp
  moreover have "on_the_way (sv_query s') = on_the_way (sv_query s)
      + mset (map cd_addr (news (way_offsets (sv_query s)) (concat (map (emitted_by se) ((cid, up, thr) # calls)))))"
    using s1(3,4) q2(3) s'(4) by (simp add: news_append)
  ultimately show ?case using s'(2,3) by (intro exI [of _ s'] exI [of _ "(cid, up, thr) # calls"]) simp
qed

lemma ProbeResidentClusters_ok:
  assumes s: "searching U N se s" and se: "plain_search U se" and start: "way_offsets (sv_query s) = {}"
  shows "\<exists>s' calls. ProbeResidentClusters se (se_clusters se) s = Some s' \<and> searching U N se s' \<and> map fst calls = se_clusters se
    \<and> on_the_way (sv_query s') = on_the_way (sv_query s)
        + mset (map cd_addr (news {} (concat (map (emitted_by se) calls))))
    \<and> planned (qy_queues (sv_query s')) = []"
proof -
  let ?cfg = "se_cfg se" and ?en = "se_io se"
  obtain s1 calls where s1: "probe_loop se (se_clusters se) 0 0 s = Some s1" "searching U N se s1" "map fst calls = se_clusters se"
      "on_the_way (sv_query s1) = on_the_way (sv_query s)
        + mset (map cd_addr (news {} (concat (map (emitted_by se) calls))))"
    using probe_loop_ok [OF s se order_refl, of 0 0] se start by (auto simp: plain_search_def single_assignment_def)
  have nb: "sc_candidate_budget ?cfg = 0" and fin: "finite U" using se by (simp_all add: plain_search_def search_env_ok_def)
  let ?q = "sv_query s1"
  obtain p1 st1 where p1: "FlushDeferredSafeInPlans ?cfg (st_vec_bytes (qy_table ?q))
        (SafeInThresholdForProbe ?cfg (se_safein_d_k se) (sv_frontier s1)) True (qy_queues ?q) (qy_stats ?q) = (p1, st1)"
      "queues_ok ?cfg p1" "pq_deferred p1 = []" "mset (planned p1) = mset (planned (qy_queues ?q))"
    using Flush_spec [OF nb searchingD(3) [OF s1(2)], of "st_vec_bytes (qy_table ?q)"
      "SafeInThresholdForProbe ?cfg (se_safein_d_k se) (sv_frontier s1)" True "qy_stats ?q"] by blast
  have mat: "MaterializeBudgetedReadPlans ?cfg p1 st1 = (p1, st1)"
    using no_budget [OF nb] by (simp add: MaterializeBudgetedReadPlans_def)
  let ?q1 = "?q\<lparr>qy_queues := p1, qy_stats := st1\<rparr>"
  have pl: "mset (planned p1) = mset (planned (qy_queues ?q)) + {#}" using p1(4) by simp
  have keys: "se_skip_dedup se \<or> ds_keys (sv_dedup s1) = way_offsets ?q \<union> {}" using searchingD(11) [OF s1(2)] by simp
  have none: "set_mset {#} \<subseteq> U" "image_mset ae_offset {#} = mset_set {}" "finite {}" "{} \<inter> way_offsets ?q = {}"
    by simp_all
  note re = replan [OF s1(2) fin p1(2) pl none searchingD(4) [OF s1(2)] refl keys]
  have s2: "searching U N se (s1\<lparr>sv_query := ?q1\<rparr>)" using re(1) [where st = st1 and f = "sv_frontier s1"] by simp
  have o2: "on_the_way ?q1 = on_the_way ?q" using re(2) [where st = st1] by simp
  show ?thesis
  proof (cases "0 < PendingDataRequestCount p1")
    case False
    have "queue_part U (qy_table ?q) p1" using workingD(9) [OF searchingD(1) [OF s2]] by simp
    then have "size (pending_addrs p1) = 0" using False pending_count [of U "qy_table ?q" p1] by linarith
    then have "planned p1 = []" using p1(3) length_planned [of p1] by simp
    moreover have "ProbeResidentClusters se (se_clusters se) s = Some (s1\<lparr>sv_query := ?q1\<rparr>)"
      using False s1(1) p1(1) mat by (simp add: ProbeResidentClusters_def Let_def)
    ultimately show ?thesis using s1(3,4) s2 o2 by (intro exI [of _ "s1\<lparr>sv_query := ?q1\<rparr>"] exI [of _ calls]) simp
  next
    case True
    obtain q2 where e: "EmitPendingDataRequests ?en (PendingDataRequestCount p1) ?q1 = Some q2"
      and q2: "working U ?en (record_submit ?en (count_flush True q2))"
        "follows ?en ?q1 (record_submit ?en (count_flush True q2))"
        "rd_prepped ops (qy_reader (record_submit ?en (count_flush True q2))) = 0"
        "pending_addrs (qy_queues (record_submit ?en (count_flush True q2))) = {#}"
        "pq_deferred (qy_queues (record_submit ?en (count_flush True q2))) = pq_deferred p1"
      using emit_submit_ok [OF s2] by auto
    let ?q3 = "record_submit ?en (count_flush True q2)"
    have qok: "queues_ok ?cfg (qy_queues ?q3)" using queues_ok_empty workingD(9) [OF q2(1)] q2(4) by blast
    note sf = searching_follows [OF s2, of ?q3, simplified, OF q2(1,2,3) qok q2(5)]
    have "planned (qy_queues ?q3) = []" using length_planned [of "qy_queues ?q3"] q2(4,5) p1(3) by simp
    moreover have "ProbeResidentClusters se (se_clusters se) s = Some (s1\<lparr>sv_query := ?q3\<rparr>)"
      using True s1(1) p1(1) mat e by (simp add: ProbeResidentClusters_def Let_def)
    ultimately show ?thesis using s1(3,4) sf o2 by (intro exI [of _ "s1\<lparr>sv_query := ?q3\<rparr>"] exI [of _ calls]) simp
  qed
qed

end


section \<open>Fetching the payloads of the results\<close>

context faithful_reader
begin

lemma fetch_one_ok:
  assumes w: "working U en q" and a: "ce_addr e \<in> U"
    and room: "length (st_slots (qy_table q)) + size (pending_addrs (qy_queues q)) < 4294967295"
  shows "\<exists>q'. fetch_one en e q = Some q' \<and> working U en q' \<and> account q' = account q \<and> payload_offsets q \<subseteq> payload_offsets q'
    \<and> (rk_vec_bytes (qy_rerank q) < ae_size (ce_addr e) \<longrightarrow> ae_offset (ce_addr e) \<in> payload_offsets q')
    \<and> rk_vec_bytes (qy_rerank q') = rk_vec_bytes (qy_rerank q) \<and> qy_queues q' = qy_queues q
    \<and> length (st_slots (qy_table q')) \<le> Suc (length (st_slots (qy_table q)))
    \<and> (q' = q \<or> rd_prepped ops (qy_reader q') \<noteq> 0)"
proof -
  let ?a = "ce_addr e" and ?vb = "rk_vec_bytes (qy_rerank q)"
  have vb: "st_vec_bytes (qy_table q) = ?vb" by (rule workingD(8) [OF w])
  show ?thesis
  proof (cases "HasPayload (qy_rerank q) (ae_offset ?a) \<or> ae_size ?a \<le> ?vb")
    case True
    then have "fetch_one en e q = Some q" using vb by (auto simp: fetch_one_def Let_def)
    moreover have "?vb < ae_size ?a \<longrightarrow> ae_offset ?a \<in> payload_offsets q"
      using True by (auto simp: HasPayload_def payload_offsets_def)
    ultimately show ?thesis using w by (intro exI [of _ q]) simp
  next
    case False
    let ?io = "\<lparr>io_type = PAYLOAD, io_addr = ?a, io_read_offset = ae_offset ?a + ucast ?vb, io_read_length = ae_size ?a - ?vb\<rparr>"
    have rec: "unat (ae_offset ?a) + unat (ae_size ?a) \<le> length content" "length content < 18446744073709551616"
      using workingD(4) [OF w] a by (simp_all add: records_ok_def)
    have less: "?vb < ae_size ?a" using False by (simp add: not_le)
    then have "unat ?vb < unat (ae_size ?a)" by (simp add: word_less_nat_alt)
    then have sum: "unat (ae_offset ?a) + unat ?vb < 18446744073709551616" using rec by linarith
    have cast: "unat (ucast ?vb :: u64) = unat ?vb" using unat_bound32 [of ?vb] by (simp add: unsigned_ucast_eq take_bit_nat_eq_self_iff)
    have "unat (ae_offset ?a + ucast ?vb) = unat (ae_offset ?a) + unat ?vb"
      using sum cast by (simp add: unat_word_ariths)
    then have io: "io_ok ?vb U ?io" using a less by (simp add: io_ok_def)
    obtain x where x: "en_alloc en (qy_clock q) = Some x" using workingD(3) [OF w] unfolding env_ok_def by blast
    have len: "length (st_slots (qy_table q)) < 4294967296" using room by simp
    obtain t' i buf where em: "emit_pooled (qy_table q) ?io (Some x) = Some (t', i, buf)"
        and new: "new_slot (qy_table q) ?io (Some x) t' i buf"
      using emit_pooled_new [OF workingD(7) [OF w] len query_inv_fresh(1) [OF workingD(5) [OF w] le_refl x], of ?io] by blast
    have "pending_addrs (qy_queues q) \<noteq> {#} \<or> length (st_slots (qy_table q)) < 4294967295" using room by linarith
    note np = new_slot_preps [OF w new io this]
    let ?rq = "\<lparr>rq_buf = buf, rq_len = unat (io_read_length ?io), rq_off = unat (io_read_offset ?io)\<rparr>"
    obtain r' where r': "rd_prep ops (qy_reader q) fd buf (unat (io_read_length ?io)) (unat (io_read_offset ?io)) i = (r', Inr ())"
        "rd_prepped ops r' \<noteq> 0" and tr: "tracks r' (qy_mem q) ((slot_reads (qy_table q))(i \<mapsto> ?rq))"
      using prep [OF workingD(6) [OF w] np(1,2), of ?rq] np(3,4) by auto
    let ?q = "tick (q\<lparr>qy_table := t', qy_reader := r', qy_stats := bump payload_read_requests (qy_stats q)\<rparr>)"
    have run: "fetch_one en e q = Some ?q"
      using False em x r' vb workingD(1,2) [OF w] by (simp add: fetch_one_def CheckPrepRead_def Let_def)
    have t: "io_type ?io = PAYLOAD" by simp
    have inv: "query_inv content registered U en ?q" "account ?q = account q"
      "payload_offsets ?q = insert (ae_offset (io_addr ?io)) (payload_offsets q)"
      by (rule emit_payload_inv [OF workingD(5,3) [OF w] x new io t room]; simp add: tick_def)+
    have "working U en ?q" using inv(1) workingD(1-4) [OF w] tr new by (simp add: working_def new_slot_def tick_def)
    moreover have "length (st_slots t') \<le> Suc (length (st_slots (qy_table q)))" using new by (simp add: new_slot_def)
    ultimately show ?thesis using run inv(2,3) r'(2) by (intro exI [of _ ?q]) (auto simp: tick_def)
  qed
qed

lemma fetch_all_ok:
  assumes "working U en q" and "ce_addr ` set es \<subseteq> U"
    and "length (st_slots (qy_table q)) + size (pending_addrs (qy_queues q)) + length es < 4294967296"
  shows "\<exists>q'. fetch_all en es q = Some q' \<and> working U en q' \<and> account q' = account q \<and> payload_offsets q \<subseteq> payload_offsets q'
    \<and> (\<forall>e \<in> set es. rk_vec_bytes (qy_rerank q) < ae_size (ce_addr e) \<longrightarrow> ae_offset (ce_addr e) \<in> payload_offsets q')
    \<and> rk_vec_bytes (qy_rerank q') = rk_vec_bytes (qy_rerank q) \<and> qy_queues q' = qy_queues q
    \<and> (q' = q \<or> rd_prepped ops (qy_reader q') \<noteq> 0)"
  using assms
proof (induction es arbitrary: q)
  case Nil
  then show ?case by simp
next
  case (Cons e es)
  have "length (st_slots (qy_table q)) + size (pending_addrs (qy_queues q)) < 4294967295" using Cons.prems(3) by simp
  then obtain q1 where q1: "fetch_one en e q = Some q1" "working U en q1" "account q1 = account q" "payload_offsets q \<subseteq> payload_offsets q1"
      "rk_vec_bytes (qy_rerank q) < ae_size (ce_addr e) \<longrightarrow> ae_offset (ce_addr e) \<in> payload_offsets q1"
      "rk_vec_bytes (qy_rerank q1) = rk_vec_bytes (qy_rerank q)" "qy_queues q1 = qy_queues q"
      "length (st_slots (qy_table q1)) \<le> Suc (length (st_slots (qy_table q)))" "q1 = q \<or> rd_prepped ops (qy_reader q1) \<noteq> 0"
    using fetch_one_ok [OF Cons.prems(1), of e] Cons.prems(2) by auto
  have "length (st_slots (qy_table q1)) + size (pending_addrs (qy_queues q1)) + length es < 4294967296"
    using Cons.prems(3) q1(7,8) by simp
  then obtain q2 where "fetch_all en es q1 = Some q2" "working U en q2" "account q2 = account q1" "payload_offsets q1 \<subseteq> payload_offsets q2"
      "\<forall>e \<in> set es. rk_vec_bytes (qy_rerank q1) < ae_size (ce_addr e) \<longrightarrow> ae_offset (ce_addr e) \<in> payload_offsets q2"
      "rk_vec_bytes (qy_rerank q2) = rk_vec_bytes (qy_rerank q1)" "qy_queues q2 = qy_queues q1"
      "q2 = q1 \<or> rd_prepped ops (qy_reader q2) \<noteq> 0"
    using Cons.IH [OF q1(2)] Cons.prems(2) by auto
  then show ?case using q1 by (intro exI [of _ q2]) auto
qed

lemma any_stats: "working U en q \<Longrightarrow> working U en (q\<lparr>qy_stats := st\<rparr>) \<and> follows en q (q\<lparr>qy_stats := st\<rparr>)"
  by (simp add: working_def query_inv_def fresh_part_def follows_def account_def payload_offsets_def)

lemma submit_payloads_ok:
  assumes w: "working U en q"
  shows "working U en (submit_payloads en q) \<and> follows en q (submit_payloads en q)
    \<and> rd_prepped ops (qy_reader (submit_payloads en q)) = 0 \<and> qy_queues (submit_payloads en q) = qy_queues q"
proof -
  obtain r m n where "rd_submit (en_ops en) (qy_reader q) (qy_mem q) = (r, m, n)" by (rule prod_cases3)
  then have "submit_payloads en q = (record_submit en q)\<lparr>qy_stats := qy_stats (submit_payloads en q)\<rparr>"
    by (simp add: submit_payloads_def record_submit_def Let_def)
  then obtain st where st: "submit_payloads en q = (record_submit en q)\<lparr>qy_stats := st\<rparr>" by blast
  show ?thesis unfolding st using submit_ok [OF w] any_stats [of U en "record_submit en q" st] follows_trans by auto
qed

lemma FetchMissingPayloads_ok:
  assumes w: "working U en q" and idle: "slot_reads (qy_table q) = Map.empty" "rd_prepped ops (qy_reader q) = 0"
    and es: "ce_addr ` set es \<subseteq> U"
    and room: "length (st_slots (qy_table q)) + size (pending_addrs (qy_queues q)) + length es < 4294967296"
  shows "\<exists>q'. FetchMissingPayloads en es q = Some q' \<and> working U en q' \<and> slot_reads (qy_table q') = Map.empty
    \<and> rd_prepped ops (qy_reader q') = 0 \<and> rd_in_flight ops (qy_reader q') = 0
    \<and> rk_vec_bytes (qy_rerank q') = rk_vec_bytes (qy_rerank q)
    \<and> (\<forall>e \<in> set es. rk_vec_bytes (qy_rerank q) < ae_size (ce_addr e) \<longrightarrow> ae_offset (ce_addr e) \<in> dom (rk_payload (qy_rerank q')))"
proof -
  obtain q1 where q1: "fetch_all en es q = Some q1" "working U en q1"
      "\<forall>e \<in> set es. rk_vec_bytes (qy_rerank q) < ae_size (ce_addr e) \<longrightarrow> ae_offset (ce_addr e) \<in> payload_offsets q1"
      "rk_vec_bytes (qy_rerank q1) = rk_vec_bytes (qy_rerank q)" "q1 = q \<or> rd_prepped ops (qy_reader q1) \<noteq> 0"
    using fetch_all_ok [OF w es room] by blast
  have ops: "en_ops en = ops" by (rule workingD(1) [OF w])
  have payloads: "payload_offsets q' = dom (rk_payload (qy_rerank q'))" if "slot_reads (qy_table q') = Map.empty" for q' :: "'r query"
    using idle_busy [OF that] by (simp add: payload_offsets_def)
  show ?thesis
  proof (cases "0 < rd_prepped ops (qy_reader q1) \<or> 0 < rd_in_flight ops (qy_reader q1)")
    case True
    note sub = submit_payloads_ok [OF q1(2)]
    obtain q2 where q2: "drain_reader en (submit_payloads en q1) = Some q2" "working U en q2" "follows en (submit_payloads en q1) q2"
        "rd_prepped ops (qy_reader q2) = 0" "rd_in_flight ops (qy_reader q2) = 0" "slot_reads (qy_table q2) = Map.empty"
      using drain_ok sub by blast
    have f: "follows en q1 q2" using sub q2(3) follows_trans by blast
    have "FetchMissingPayloads en es q = Some q2" using q1(1) True q2(1) ops by (auto simp: FetchMissingPayloads_def)
    then show ?thesis using q1(3,4) q2 f payloads [OF q2(6)] by (intro exI [of _ q2]) (auto simp: follows_def)
  next
    case False
    then have "q1 = q" using q1(5) by simp
    moreover have "FetchMissingPayloads en es q = Some q1" using q1(1) False ops by (simp add: FetchMissingPayloads_def)
    ultimately show ?thesis using False w idle q1(3) payloads [OF idle(1)] by (intro exI [of _ q]) auto
  qed
qed

end

section \<open>Assembling the results\<close>

text \<open>How a record is stored (\<open>DataFileWriter::WriteRecord\<close>): its payload follows the vector.\<close>

definition stored_payload :: "bytes \<Rightarrow> column_schema list \<Rightarrow> u32 \<Rightarrow> (address_entry \<Rightarrow> datum list) \<Rightarrow> address_entry \<Rightarrow> bool" where
  "stored_payload content schemas vb payload a \<longleftrightarrow>
     (if schemas = [] then payload a = []
      else vb < ae_size a \<and> list_all2 datum_fits (payload a) schemas
        \<and> slice (unat (ae_offset a) + unat vb) (unat (ae_size a) - unat vb) content = payload_bytes (payload a) schemas)"

lemma AssembleResults_ok:
  assumes "distinct (map (\<lambda>e. ae_offset (ce_addr e)) es)" and "\<forall>e \<in> set es. stored_payload content schemas vb payload (ce_addr e)"
    and "\<forall>e \<in> set es. unat (ae_offset (ce_addr e)) + unat (ae_size (ce_addr e)) \<le> length content"
    and "\<forall>e \<in> set es. schemas \<noteq> [] \<longrightarrow> (\<exists>pb. rk_payload rk (ae_offset (ce_addr e)) = Some pb
      \<and> holds_read content m (payload_request vb (ce_addr e) pb))"
  shows "\<exists>P. AssembleResults schemas vb m es rk =
      Some (rk\<lparr>rk_payload := P\<rparr>, map (\<lambda>e. \<lparr>sr_distance = ce_distance e, sr_payload = payload (ce_addr e)\<rparr>) es)
    \<and> ran P \<subseteq> ran (rk_payload rk)"
  using assms
proof (induction es arbitrary: rk)
  case Nil
  then show ?case by (intro exI [of _ "rk_payload rk"]) simp
next
  case (Cons e es)
  let ?a = "ce_addr e" and ?off = "ae_offset (ce_addr e)"
  let ?P1 = "if schemas = [] then rk_payload rk else (rk_payload rk)(?off := None)"
  have one: "assemble_one schemas vb m e rk =
      Some (rk\<lparr>rk_payload := ?P1\<rparr>, \<lparr>sr_distance = ce_distance e, sr_payload = payload ?a\<rparr>)"
  proof (cases "schemas = []")
    case True
    then show ?thesis using Cons.prems(2) by (simp add: assemble_one_def stored_payload_def)
  next
    case False
    then have st: "vb < ae_size ?a" "list_all2 datum_fits (payload ?a) schemas"
      "slice (unat ?off + unat vb) (unat (ae_size ?a) - unat vb) content = payload_bytes (payload ?a) schemas"
      using Cons.prems(2) by (simp_all add: stored_payload_def)
    obtain pb c where pb: "rk_payload rk ?off = Some pb" "m pb = Some c" "unat (ae_size ?a) - unat vb \<le> length c"
        "take (unat (ae_size ?a) - unat vb) c = payload_bytes (payload ?a) schemas"
      using Cons.prems(4) False st(3) by (auto simp: holds_read_def payload_request_def)
    let ?n = "unat (ae_size ?a) - unat vb"
    have n: "unat (ae_size ?a - vb) = ?n" using st(1) by (simp add: unat_sub)
    have c: "c = payload_bytes (payload ?a) schemas @ drop ?n c" by (simp flip: pb(4))
    have "length (payload_bytes (payload ?a) schemas) = ?n" using pb(3) by (simp flip: pb(4))
    moreover have "?n < 4294967296" using unat_bound32 [of "ae_size ?a"] by simp
    ultimately have "columns_read c ?n 0 schemas = Some (payload ?a)"
      using columns_read_payload [OF st(2), of "[]" ?n "drop ?n c"] c by simp
    moreover have "\<not> ae_size ?a \<le> vb" using st(1) by (simp add: not_le)
    ultimately show ?thesis using False pb(1,2) n by (simp add: assemble_one_def TakePayload_def Let_def)
  qed
  have "\<forall>e' \<in> set es. schemas \<noteq> [] \<longrightarrow> (\<exists>pb. rk_payload (rk\<lparr>rk_payload := ?P1\<rparr>) (ae_offset (ce_addr e')) = Some pb
      \<and> holds_read content m (payload_request vb (ce_addr e') pb))"
    using Cons.prems(1,4) by (auto simp: image_iff)
  then obtain P where P: "AssembleResults schemas vb m es (rk\<lparr>rk_payload := ?P1\<rparr>) =
      Some (rk\<lparr>rk_payload := P\<rparr>, map (\<lambda>e. \<lparr>sr_distance = ce_distance e, sr_payload = payload (ce_addr e)\<rparr>) es)"
      "ran P \<subseteq> ran ?P1"
    using Cons.IH [of "rk\<lparr>rk_payload := ?P1\<rparr>"] Cons.prems(1-3) by auto
  have "ran ?P1 \<subseteq> ran (rk_payload rk)" by (auto simp: ran_def)
  then show ?case using one P by (intro exI [of _ P]) auto
qed


section \<open>Reranking\<close>

lemma ResetVectorChunks_inv:
  assumes "rerank_inv rk"
  shows "rerank_inv (ResetVectorChunks (rk\<lparr>rk_buffered := []\<rparr>))"
  using assms by (auto simp: rerank_inv_def ResetVectorChunks_def slab_size_def)

text \<open>The results as addresses, with their distances.\<close>

definition nearest_of :: "nat \<Rightarrow> (address_entry \<Rightarrow> f32) \<Rightarrow> address_entry multiset \<Rightarrow> address_entry list \<Rightarrow> bool" where
  "nearest_of k dist addrs near \<longleftrightarrow> length near = min k (size addrs) \<and> mset near \<subseteq># addrs
     \<and> sorted (map (\<lambda>a. f32_key (dist a)) near)
     \<and> (\<forall>x \<in># addrs - mset near. \<forall>y \<in> set near. f32_le (dist y) (dist x))"

lemma rerank_nearest:
  assumes rk: "rerank_inv rk" and bufs: "\<forall>(a, v) \<in> set (buffered_vectors rk). v = vec a" "mset (map fst (buffered_vectors rk)) = addrs"
    and srt: "sorts_by offset_less srt" and k: "0 < k" and nan: "\<forall>a \<in># addrs. \<not> f32_is_nan (l2 (vec a))"
    and batch: "sc_batched_distance_simd cfg \<Longrightarrow> \<forall>vs. length vs \<le> 32 \<longrightarrow> l2_batch vs = map l2 vs"
  shows "\<exists>rk' c st' near. ExecuteBuffered srt l2_batch l2 cfg rk (collector_new k) st = Some (rk', c, st')
    \<and> rc_Finalize c = (c\<lparr>rc_heap := []\<rparr>, map (\<lambda>a. \<lparr>ce_distance = l2 (vec a), ce_addr = a\<rparr>) near)
    \<and> nearest_of k (\<lambda>a. l2 (vec a)) addrs near \<and> rk' = ResetVectorChunks (rk\<lparr>rk_buffered := []\<rparr>)"
proof -
  let ?f = "\<lambda>a. \<lparr>ce_distance = l2 (vec a), ce_addr = a\<rparr>"
  define es where "es = map (entry_of l2) (map (\<lambda>b. (bc_addr b, vec_at rk (bc_vec b))) (srt (rk_buffered rk)))"
  have "mset es = mset (map (entry_of l2) (buffered_vectors rk))"
    unfolding es_def by (rule sorted_candidates_mset [OF srt])
  also have "map (entry_of l2) (buffered_vectors rk) = map ?f (map fst (buffered_vectors rk))"
    using bufs(1) by (auto simp: entry_of_def)
  finally have es: "mset es = image_mset ?f addrs" by (simp add: multiset.map_comp flip: bufs(2))
  have "set_mset (mset es) = ?f ` set_mset addrs" unfolding es by simp
  then have ok: "\<forall>e \<in> set es. \<not> f32_is_nan (ce_distance e)" using nan by auto
  obtain c kept where c: "insert_all (collector_new k) es = Some c" "rc_Finalize c = (c\<lparr>rc_heap := []\<rparr>, kept)"
      "best_k entry_key k (mset es) (mset kept)" "sorted (map entry_key kept)"
    using collector_finalizes [OF k ok] by blast
  define near where "near = map ce_addr kept"
  have sub: "mset kept \<subseteq># mset es" using c(3) by (simp add: best_k_def)
  have "e = ?f (ce_addr e)" if "e \<in> set kept" for e
  proof -
    have "e \<in># image_mset ?f addrs" using sub that es by (metis mset_subset_eqD set_mset_mset)
    then show ?thesis by auto
  qed
  then have kept: "kept = map ?f near" by (simp add: near_def map_idI)
  have addrs: "addrs = image_mset ce_addr (mset es)" by (simp add: es multiset.map_comp comp_def)
  have near: "mset near = image_mset ce_addr (mset kept)" by (simp add: near_def)
  have sub': "mset near \<subseteq># addrs" unfolding near addrs by (rule image_mset_subseteq_mono [OF sub])
  have "length near = min k (size addrs)" using c(3) by (simp add: near_def addrs best_k_def)
  moreover have "sorted (map (\<lambda>a. f32_key (l2 (vec a))) near)"
    using c(4) unfolding kept by (simp add: entry_key_def comp_def)
  moreover have "f32_le (l2 (vec y)) (l2 (vec x))" if "x \<in># addrs - mset near" "y \<in> set near" for x y
  proof -
    have "?f x \<in># image_mset ?f (addrs - mset near)" using that(1) by (simp only: set_image_mset) (rule imageI)
    also have "image_mset ?f (addrs - mset near) = mset es - mset kept"
      using image_mset_Diff [OF sub', of ?f] by (simp add: es kept)
    finally have x: "?f x \<in># mset es - mset kept" .
    have "?f y \<in> set kept" using that(2) by (simp add: kept)
    then show ?thesis using best_k_le [OF c(3) ok x, of "?f y"] by simp
  qed
  ultimately have n: "nearest_of k (\<lambda>a. l2 (vec a)) addrs near" using sub' by (simp add: nearest_of_def)
  obtain rk' st' where "ExecuteBuffered srt l2_batch l2 cfg rk (collector_new k) st = Some (rk', c, st')"
    using Execute_spec [OF srt c(1) es_def batch] by blast
  moreover from this have "rk' = ResetVectorChunks (rk\<lparr>rk_buffered := []\<rparr>)"
    by (auto simp: ExecuteBuffered_def Let_def split: bind_splits)
  ultimately show ?thesis using c(2) kept n by auto
qed

section \<open>The whole query\<close>

text \<open>A scheduler between queries: no read is on its way, and the allocator has new buffers.\<close>

definition scheduler_idle :: "'r search_env \<Rightarrow> ('r \<Rightarrow> memory \<Rightarrow> (nat \<rightharpoonup> read_request) \<Rightarrow> bool) \<Rightarrow> 'r scheduler \<Rightarrow> bool" where
  "scheduler_idle se tracks s \<longleftrightarrow>
     (let q = sv_query s; ops = en_ops (se_io se)
      in table_inv (qy_table q) \<and> slot_reads (qy_table q) = Map.empty
         \<and> st_vec_bytes (qy_table q) = of_nat (wrap32 (se_logical_dim se * 4))
         \<and> tracks (qy_reader q) (qy_mem q) Map.empty \<and> rd_prepped ops (qy_reader q) = 0
         \<and> ds_inv (sv_dedup s)
         \<and> (\<forall>n \<ge> qy_clock q. \<forall>x. en_alloc (se_io se) n = Some x \<longrightarrow> x \<notin># all_bufs (qy_table q)))"

context faithful_reader
begin

lemma search_reset_ok:
  assumes idle: "scheduler_idle se tracks s" and dim: "se_logical_dim se * 4 \<le> 4190208"
    and en: "en_ops (se_io se) = ops" "en_fd (se_io se) = fd" "env_ok (se_io se)"
    and rec: "records_ok content (of_nat (wrap32 (se_logical_dim se * 4))) U" and fin: "finite U"
    and reg: "\<And>i. i < length (st_fixed (qy_table (sv_query s))) \<Longrightarrow> st_fixed (qy_table (sv_query s)) ! i = registered i"
    and room: "se_skip_dedup se \<or> card U \<le> length (ds_slots (sv_dedup s))"
      "length (st_slots (qy_table (sv_query s))) + card U < 4294967296"
  shows "searching U (length (st_slots (qy_table (sv_query s)))) se (search_reset se s)"
    and "on_the_way (sv_query (search_reset se s)) = {#}" and "ds_keys (sv_dedup (search_reset se s)) = {}"
    and "rk_vec_bytes (qy_rerank (sv_query (search_reset se s))) = of_nat (wrap32 (se_logical_dim se * 4))"
proof -
  let ?q = "sv_query s" and ?vb = "of_nat (wrap32 (se_logical_dim se * 4)) :: u32"
  let ?rk = "rerank_new (en_slab (se_io se) (qy_clock ?q)) (se_logical_dim se)"
  let ?q' = "sv_query (search_reset se s)"
  have i: "table_inv (qy_table ?q)" "slot_reads (qy_table ?q) = Map.empty" "st_vec_bytes (qy_table ?q) = ?vb"
    "tracks (qy_reader ?q) (qy_mem ?q) Map.empty" "rd_prepped ops (qy_reader ?q) = 0" "ds_inv (sv_dedup s)"
    "\<And>n x. qy_clock ?q \<le> n \<Longrightarrow> en_alloc (se_io se) n = Some x \<Longrightarrow> x \<notin># all_bufs (qy_table ?q)"
    using idle en(1) by (simp_all add: scheduler_idle_def Let_def)
  note rk = rerank_new_inv [OF dim, of "en_slab (se_io se) (qy_clock ?q)"]
  have "unat ?vb = se_logical_dim se * 4" using dim unfolding unat_of_nat by (simp del: of_nat_mult)
  then have vb: "rk_vec_bytes ?rk = ?vb" using rk(2) by (metis word_unat_eq_iff)
  have f: "qy_table ?q' = qy_table ?q" "qy_queues ?q' = queues_new" "qy_rerank ?q' = ?rk" "qy_reader ?q' = qy_reader ?q"
    "qy_mem ?q' = qy_mem ?q" "qy_clock ?q' = qy_clock ?q + 1"
    using Cleanup_idle [OF i(2)] by (simp_all add: search_reset_def tick_def Let_def)
  show rkv: "rk_vec_bytes (qy_rerank ?q') = ?vb" using vb f(3) by simp
  have busy: "busy (qy_table ?q) = {#}" by (rule idle_busy [OF i(2)])
  have bv: "buffered_vectors ?rk = []" by (simp add: buffered_vectors_def rk(3))
  note clear = Clear_inv [OF i(6)]
  have d: "sv_dedup (search_reset se s) = ds_Clear (sv_dedup s)" by (simp add: search_reset_def Let_def)
  show keys: "ds_keys (sv_dedup (search_reset se s)) = {}" using clear d by simp
  have pend: "pending_addrs queues_new = {#}" "planned queues_new = []"
    by (simp_all add: pending_addrs_def planned_def queues_new_def)
  show o: "on_the_way ?q' = {#}" by (simp add: on_the_way_planned f busy bv pend)
  have "query_inv content registered U (se_io se) ?q'"
    unfolding query_inv_def f vb
  proof (intro conjI)
    show "table_part registered U ?vb (qy_table ?q)" using i(1,3) busy reg by (simp add: table_part_def)
    show "queue_part U (qy_table ?q) queues_new" using room(2) pend by (simp add: queue_part_def queues_new_def)
    show "rerank_part content U (qy_mem ?q) ?rk" using rk(1,4) bv by (simp add: rerank_part_def)
    have "x \<notin># all_bufs (qy_table ?q)" if "qy_clock ?q + 1 \<le> n" "en_alloc (se_io se) n = Some x" for n x
      using i(7) [of n x] that by simp
    then show "fresh_part (se_io se) ?q'" unfolding fresh_part_def f rk(4) by simp
  qed
  then have "working U (se_io se) ?q'" using en rec vb i(2,4) f by (simp add: working_def)
  moreover have "se_skip_dedup se \<or> card (ae_offset ` U) \<le> length (ds_slots (sv_dedup (search_reset se s)))"
    using clear d room(1) card_image_le [OF fin, of ae_offset] by auto
  moreover have "queues_ok (se_cfg se) (qy_queues ?q')" by (simp add: f queues_ok_def queues_new_def)
  ultimately show "searching U (length (st_slots (qy_table ?q))) se (search_reset se s)"
    using i(5) clear d keys o f(1,2,4) pend room(2) rkv by (simp add: searching_def slot_bound_def way_offsets_def)
qed

end

lemma distinct_sub_set:
  assumes "mset xs \<subseteq># mset_set A"
  shows "distinct xs"
  unfolding distinct_count_atmost_1
proof
  fix x
  have "count (mset xs) x \<le> count (mset_set A) x" using assms by (rule mset_subset_eq_count)
  also have "\<dots> \<le> 1" by (simp add: count_mset_set')
  finally have "count (mset xs) x \<le> 1" .
  then show "count (mset xs) x = (if x \<in> set xs then 1 else 0)"
    by (metis count_mset_0_iff less_one nat_less_le)
qed

context faithful_reader
begin

lemma Search_ok:
  fixes se :: "'r search_env" and s :: "'r scheduler" and payload :: "address_entry \<Rightarrow> datum list"
  defines "vb \<equiv> of_nat (wrap32 (se_logical_dim se * 4)) :: u32"
  defines "dist \<equiv> \<lambda>a. se_l2 se (vector_of content vb a)"
  assumes idle: "scheduler_idle se tracks s" and dim: "se_logical_dim se * 4 \<le> 4190208"
    and en: "en_ops (se_io se) = ops" "en_fd (se_io se) = fd" "env_ok (se_io se)"
    and rec: "records_ok content vb U" "\<forall>a \<in> U. stored_payload content (se_schemas se) vb payload a"
    and reg: "\<And>i. i < length (st_fixed (qy_table (sv_query s))) \<Longrightarrow> st_fixed (qy_table (sv_query s)) ! i = registered i"
    and room: "se_skip_dedup se \<or> card U \<le> length (ds_slots (sv_dedup s))"
      "length (st_slots (qy_table (sv_query s))) + 2 * card U < 4294967296"
    and se: "plain_search U se" "0 < sc_top_k (se_cfg se)" "\<forall>answer. se_preload se = Some answer \<longrightarrow> answer = Inr ()"
    and l2: "\<forall>a \<in> U. \<not> f32_is_nan (dist a)"
      "sc_batched_distance_simd (se_cfg se) \<Longrightarrow> \<forall>vs. length vs \<le> 32 \<longrightarrow> se_l2_batch se vs = map (se_l2 se) vs"
  shows "\<exists>s' calls near. Search se s = Some (s', map (\<lambda>a. \<lparr>sr_distance = dist a, sr_payload = payload a\<rparr>) near)
    \<and> map fst calls = se_clusters se
    \<and> nearest_of (unat (sc_top_k (se_cfg se))) dist (mset (map cd_addr (news {} (concat (map (emitted_by se) calls))))) near
    \<and> scheduler_idle se tracks s'"
proof -
  let ?s0 = "search_reset se s" and ?en = "se_io se" and ?N = "length (st_slots (qy_table (sv_query s)))"
  have fin: "finite U" using se(1) by (simp add: plain_search_def search_env_ok_def)
  have room2: "?N + card U < 4294967296" using room(2) by simp
  have s0: "searching U ?N se ?s0" "on_the_way (sv_query ?s0) = {#}"
    using search_reset_ok [OF idle dim en rec(1) [unfolded vb_def] fin reg room(1) room2] by simp_all
  obtain s1 calls where s1: "ProbeResidentClusters se (se_clusters se) ?s0 = Some s1" "searching U ?N se s1"
      "map fst calls = se_clusters se" "planned (qy_queues (sv_query s1)) = []"
      "on_the_way (sv_query s1) = mset (map cd_addr (news {} (concat (map (emitted_by se) calls))))"
    using ProbeResidentClusters_ok [OF s0(1) se(1)] s0(2) by (auto simp: way_offsets_def)
  define addrs where "addrs = mset (map cd_addr (news {} (concat (map (emitted_by se) calls))))"
  note sd = searchingD [OF s1(2)]
  have o1: "on_the_way (sv_query s1) = addrs" using s1(5) addrs_def by simp
  have size: "size addrs \<le> card U"
    using on_the_way_size [OF s1(2)] card_mono [OF finite_imageI [OF fin], of "way_offsets (sv_query s1)" ae_offset]
      card_image_le [OF fin, of ae_offset] o1 by simp
  have pend: "pending_addrs (qy_queues (sv_query s1)) = {#}" "pq_deferred (qy_queues (sv_query s1)) = []"
    using s1(4) by (simp_all add: planned_def pending_addrs_def)
  obtain q1 where q1: "FinalDrain ?en (sv_query s1) = Some q1" "working U ?en q1" "follows ?en (sv_query s1) q1"
      "qy_queues q1 = qy_queues (sv_query s1)" "rd_prepped ops (qy_reader q1) = 0" "slot_reads (qy_table q1) = Map.empty"
      "mset (map fst (buffered_vectors (qy_rerank q1))) = account (sv_query s1)"
    using FinalDrain_ok [OF sd(1,2) pend(1)] by blast
  have buf: "mset (map fst (buffered_vectors (qy_rerank q1))) = addrs" using q1(7) o1 pend(2) by (simp add: on_the_way_def)
  have vb1: "rk_vec_bytes (qy_rerank q1) = vb"
    using sd(10) q1(3) by (simp add: follows_def vb_def)
  have rp: "rerank_part content U (qy_mem q1) (qy_rerank q1)" using workingD(5) [OF q1(2)] by (simp add: query_inv_def)
  have vecs: "\<forall>(a, v) \<in> set (buffered_vectors (qy_rerank q1)). v = vector_of content vb a"
    using rp vb1 by (auto simp: rerank_part_def)
  have inU: "set_mset addrs \<subseteq> U" using sd(6) o1 by simp
  have srt: "sorts_by offset_less (en_sort_cand ?en)" using en(3) by (simp add: env_ok_def)
  have k: "0 < unat (sc_top_k (se_cfg se))" using se(2) by (simp add: word_less_nat_alt)
  have nan: "\<forall>a \<in># addrs. \<not> f32_is_nan (se_l2 se (vector_of content vb a))" using l2(1) inU by (auto simp: dist_def)
  have rki: "rerank_inv (qy_rerank q1)" using rp by (simp add: rerank_part_def)
  obtain rk c st near where x: "ExecuteBuffered (en_sort_cand ?en) (se_l2_batch se) (se_l2 se) (se_cfg se) (qy_rerank q1)
        (collector_new (unat (sc_top_k (se_cfg se)))) (qy_stats q1) = Some (rk, c, st)"
      "rc_Finalize c = (c\<lparr>rc_heap := []\<rparr>, map (\<lambda>a. \<lparr>ce_distance = dist a, ce_addr = a\<rparr>) near)"
      "nearest_of (unat (sc_top_k (se_cfg se))) dist addrs near" "rk = ResetVectorChunks ((qy_rerank q1)\<lparr>rk_buffered := []\<rparr>)"
    using rerank_nearest [where cfg = "se_cfg se" and st = "qy_stats q1", OF rki vecs buf srt k nan l2(2)] unfolding dist_def by blast
  let ?res = "map (\<lambda>a. \<lparr>ce_distance = dist a, ce_addr = a\<rparr>) near"
  have sub: "mset near \<subseteq># addrs" using x(3) by (simp add: nearest_of_def)
  have nearU: "set near \<subseteq> U" using sub inU by (metis mset_subset_eqD set_mset_mset subset_iff)
  let ?q = "q1\<lparr>qy_rerank := rk, qy_stats := st\<rparr>"
  have rkf: "rk_payload rk = rk_payload (qy_rerank q1)" "rk_vec_bytes rk = vb" "buffered_vectors rk = []"
    using vb1 by (simp_all add: x(4) ResetVectorChunks_def buffered_vectors_def)
  have "rerank_part content U (qy_mem q1) rk"
    using rp ResetVectorChunks_inv [OF rki] rkf vb1 by (simp add: rerank_part_def x(4) [symmetric])
  then have w: "working U ?en ?q" using q1(2) rkf vb1 by (simp add: working_def query_inv_def fresh_part_def)
  have len: "length (st_slots (qy_table q1)) \<le> ?N + card U"
    using q1(3,4) sd(8) size o1 pend s1(4) by (simp add: follows_def slot_bound_def)
  have "length near \<le> card U" using x(3) size by (simp add: nearest_of_def)
  then have rm: "length (st_slots (qy_table ?q)) + size (pending_addrs (qy_queues ?q)) + length ?res < 4294967296"
    using len room(2) q1(4) pend(1) by simp
  have resU: "ce_addr ` set ?res \<subseteq> U" using nearU by auto
  have qi: "slot_reads (qy_table ?q) = Map.empty" "rd_prepped ops (qy_reader ?q) = 0" using q1(5,6) by simp_all
  obtain q2 where q2: "FetchMissingPayloads ?en ?res ?q = Some q2" "working U ?en q2" "slot_reads (qy_table q2) = Map.empty"
      "rd_prepped ops (qy_reader q2) = 0" "rk_vec_bytes (qy_rerank q2) = vb"
      "\<forall>e \<in> set ?res. vb < ae_size (ce_addr e) \<longrightarrow> ae_offset (ce_addr e) \<in> dom (rk_payload (qy_rerank q2))"
    using FetchMissingPayloads_ok [OF w qi resU rm] rkf(2) by auto
  have rp2: "rerank_part content U (qy_mem q2) (qy_rerank q2)" using workingD(5) [OF q2(2)] by (simp add: query_inv_def)
  have inj: "inj_on ae_offset U" and inside: "\<forall>a \<in> U. unat (ae_offset a) + unat (ae_size a) \<le> length content"
    using rec(1) by (simp_all add: records_ok_def)
  have have_payload: "\<exists>pb. rk_payload (qy_rerank q2) (ae_offset (ce_addr e)) = Some pb
      \<and> holds_read content (qy_mem q2) (payload_request vb (ce_addr e) pb)" if e: "e \<in> set ?res" and "se_schemas se \<noteq> []" for e
  proof -
    have a: "ce_addr e \<in> U" using e resU by blast
    then have "vb < ae_size (ce_addr e)" using rec(2) that(2) by (simp add: stored_payload_def)
    then obtain pb where pb: "rk_payload (qy_rerank q2) (ae_offset (ce_addr e)) = Some pb" using q2(6) e by blast
    then obtain a' where "a' \<in> U" "ae_offset a' = ae_offset (ce_addr e)" "holds_read content (qy_mem q2) (payload_request vb a' pb)"
      using rp2 unfolding rerank_part_def q2(5) by blast
    then show ?thesis using pb inj_onD [OF inj _ _ a] by metis
  qed
  have "mset (map ae_offset near) \<subseteq># mset_set (way_offsets (sv_query s1))"
    using image_mset_subseteq_mono [OF sub, of ae_offset] sd(7) o1 by simp
  then have "distinct (map ae_offset near)" by (rule distinct_sub_set)
  then have "distinct (map (\<lambda>e. ae_offset (ce_addr e)) ?res)" by (simp add: comp_def)
  moreover have "\<forall>e \<in> set ?res. stored_payload content (se_schemas se) vb payload (ce_addr e)" using resU rec(2) by blast
  moreover have "\<forall>e \<in> set ?res. unat (ae_offset (ce_addr e)) + unat (ae_size (ce_addr e)) \<le> length content" using resU inside by blast
  ultimately obtain P where asm: "AssembleResults (se_schemas se) vb (qy_mem q2) ?res (qy_rerank q2) =
      Some ((qy_rerank q2)\<lparr>rk_payload := P\<rparr>, map (\<lambda>e. \<lparr>sr_distance = ce_distance e, sr_payload = payload (ce_addr e)\<rparr>) ?res)"
    using AssembleResults_ok [of ?res content "se_schemas se" vb payload "qy_rerank q2" "qy_mem q2"] have_payload by blast
  let ?s' = "s1\<lparr>sv_query := q2\<lparr>qy_rerank := (qy_rerank q2)\<lparr>rk_payload := P\<rparr>\<rparr>\<rparr>"
  have pre: "(case se_preload se of None \<Rightarrow> False | Some answer \<Rightarrow> isl answer) = False"
    using se(3) by (auto split: option.split)
  have tv: "st_vec_bytes (qy_table q2) = vb" using workingD(8) [OF q2(2)] q2(5) by simp
  have "Search se s = Some (?s', map (\<lambda>a. \<lparr>sr_distance = dist a, sr_payload = payload a\<rparr>) near)"
    using s1(1) q1(1) x(1,2) q2(1) asm tv by (simp add: Search_def Let_def pre comp_def)
  moreover have "scheduler_idle se tracks ?s'"
    unfolding scheduler_idle_def Let_def
  proof (intro conjI allI impI)
    show "tracks (qy_reader (sv_query ?s')) (qy_mem (sv_query ?s')) Map.empty" using workingD(6) [OF q2(2)] q2(3) by simp
    fix n y
    assume "qy_clock (sv_query ?s') \<le> n" "en_alloc ?en n = Some y"
    then show "y \<notin># all_bufs (qy_table (sv_query ?s'))" using query_inv_fresh(1) [OF workingD(5) [OF q2(2)]] by simp
  qed (use workingD(7) [OF q2(2)] q2(3,4) en(1) tv sd(4) in \<open>simp_all add: vb_def\<close>)
  ultimately show ?thesis using s1(3) x(3) unfolding addrs_def by blast
qed

end



section \<open>What a query answers\<close>

text \<open>The bytes of a vector, and the exact distance of a record's vector to the query.\<close>

definition query_vec_bytes :: "'r search_env \<Rightarrow> u32" where
  "query_vec_bytes se = of_nat (wrap32 (se_logical_dim se * 4))"

definition record_dist :: "'r search_env \<Rightarrow> bytes \<Rightarrow> address_entry \<Rightarrow> f32" where
  "record_dist se content a = se_l2 se (vector_of content (query_vec_bytes se) a)"

text \<open>C1: With the pread fallback on the data file \<open>content\<close>, whose records \<open>U\<close> lie inside the file with their vectors
  and payloads, and without a candidate budget, a query on an idle scheduler returns: it probes each requested cluster
  once in their order, and its results are the nearest \<open>top_k\<close> (all, when there are fewer) of the distinct candidates the
  prober emitted, in ascending exact distance, each with the distance of the vector in the file and the columns stored
  with it; no candidate left out is nearer than one returned.  Afterwards the scheduler is idle again.  This holds in
  both modes of the sink: when it skips the deduplication set, as it does for an index with single assignment, the
  prober has to emit each record at most once; otherwise the records have to fit the deduplication set.
\<close>

theorem search_returns_nearest:
  assumes "reads_file pread fd content" and "en_ops (se_io se) = fallback_ops pread" and "en_fd (se_io se) = fd"
    and "env_ok (se_io se)" and "scheduler_idle se (fallback_tracks fd content) s"
    and "records_ok content (query_vec_bytes se) U" and "search_env_ok U se"
    and "sc_candidate_budget (se_cfg se) = 0"
    and "if se_skip_dedup se then single_assignment se else card U \<le> length (ds_slots (sv_dedup s))"
    and "\<forall>a \<in> U. stored_payload content (se_schemas se) (query_vec_bytes se) payload a"
    and "se_logical_dim se * 4 \<le> 4190208"
    and "length (st_slots (qy_table (sv_query s))) + 2 * card U < 4294967296"
    and "0 < sc_top_k (se_cfg se)" and "\<forall>answer. se_preload se = Some answer \<longrightarrow> answer = Inr ()"
    and "\<forall>a \<in> U. \<not> f32_is_nan (record_dist se content a)"
    and "sc_batched_distance_simd (se_cfg se) \<longrightarrow> (\<forall>vs. length vs \<le> 32 \<longrightarrow> se_l2_batch se vs = map (se_l2 se) vs)"
  shows "\<exists>s' calls near.
    Search se s = Some (s', map (\<lambda>a. \<lparr>sr_distance = record_dist se content a, sr_payload = payload a\<rparr>) near)
    \<and> map fst calls = se_clusters se
    \<and> nearest_of (unat (sc_top_k (se_cfg se))) (record_dist se content)
        (mset (map cd_addr (news {} (concat (map (emitted_by se) calls))))) near
    \<and> scheduler_idle se (fallback_tracks fd content) s'"
proof -
  note reader = fallback_faithful [OF assms(1), of "\<lambda>i. st_fixed (qy_table (sv_query s)) ! i"]
  have plain: "plain_search U se" and room: "se_skip_dedup se \<or> card U \<le> length (ds_slots (sv_dedup s))"
    using assms(7-9) by (auto simp: plain_search_def split: if_splits)
  note a = assms(2-6,10-16) [unfolded query_vec_bytes_def record_dist_def]
  show ?thesis unfolding record_dist_def query_vec_bytes_def
    by (rule faithful_reader.Search_ok [OF reader a(4,7) a(1-3) a(5,6) refl room a(8) plain a(9-11)]) (use a(12) in blast)+
qed

text \<open>Two records with a 32-bit column, the nearer one second; one cluster; \<open>top_k\<close> is 1.\<close>

definition ex_content :: bytes where
  "ex_content = [5, 0, 0, 0, 1, 0, 0, 0, 3, 0, 0, 0, 2, 0, 0, 0]"

definition ex_addr :: "nat \<Rightarrow> address_entry" where
  "ex_addr i = \<lparr>ae_offset = of_nat (8 * i), ae_size = 8\<rparr>"

definition ex_payload :: "address_entry \<Rightarrow> datum list" where
  "ex_payload a = [datum_default\<lparr>d_dtype := INT32,
     d_fixed := (if ae_offset a = 0 then [1, 0, 0, 0, 0, 0, 0, 0] else [2, 0, 0, 0, 0, 0, 0, 0])\<rparr>]"

definition ex_candidate :: "nat \<Rightarrow> candidate" where
  "ex_candidate i = \<lparr>cd_global_idx = i, cd_est_dist = 4, cd_est_error = 0, cd_lower_bound = 1, cd_safein_upper = 9,
     cd_cls = Uncertain, cd_addr = ex_addr i\<rparr>"

definition ex_env :: "fallback_reader search_env" where
  "ex_env = \<lparr>se_io = \<lparr>en_ops = fallback_ops (file_pread 3 ex_content), en_cfg = default_config\<lparr>sc_top_k := 1\<rparr>, en_fd = 3,
       en_alloc = (\<lambda>n. Some (4096 * n + 4096)), en_slab = (\<lambda>_. Some (\<lambda>_. 0)), en_sort_addr = (\<lambda>as. as),
       en_sort_plan = (\<lambda>ps. ps), en_sort_cand = sort_key (\<lambda>b. ae_offset (bc_addr b))\<rparr>,
     se_preload = None, se_clusters = [0], se_records = (\<lambda>_. Some 2),
     se_probe = (\<lambda>_ _ _. ([[ex_candidate 0, ex_candidate 1]],
       \<lparr>pr_s1_safein = 0, pr_s1_safeout = 0, pr_s1_uncertain = 2, pr_s2_safein = 0, pr_s2_safeout = 0, pr_s2_uncertain = 2, pr_s1_false_safein = 0, pr_s1_false_safeout = 0,
         pr_s2_false_safein = 0, pr_s2_false_safeout = 0, pr_fused_blocks = 0, pr_fused_safeout_lanes = 0, pr_fused_safein_lanes = 0, pr_envelope_tested = 0, pr_envelope_skipped = 0, pr_envelope_safeout_lanes = 0\<rparr>)),
     se_safein_d_k = 0, se_skip_dedup = True, se_logical_dim = 1,
     se_l2 = (\<lambda>v. ucast (v ! 0)), se_l2_batch = map (\<lambda>v. ucast (v ! 0)), se_schemas = [\<lparr>cs_id = 0, cs_name = ''tag'', cs_dtype = INT32, cs_nullable = False\<rparr>]\<rparr>"

definition ex_scheduler :: "fallback_reader scheduler" where
  "ex_scheduler = \<lparr>sv_query = \<lparr>qy_table = slot_table_new 4, qy_queues = queues_new, qy_reader = fallback_new, qy_mem = Map.empty,
       qy_rerank = rerank_new None 1, qy_stats = stats_new, qy_clock = 0\<rparr>,
     sv_dedup = \<lparr>ds_slots = replicate 16 kEmpty, ds_mask = 15, ds_size = 0\<rparr>, sv_frontier = frontier_new default_config\<rparr>"

lemma ex_vec_bytes: "query_vec_bytes ex_env = 4"
  by (simp add: query_vec_bytes_def ex_env_def)

lemma ex_top_k: "unat (sc_top_k (se_cfg ex_env)) = 1"
  by (simp add: ex_env_def)

lemma sort_key_sorts: "sorts_by offset_less (sort_key (\<lambda>b. ae_offset (bc_addr b)))"
proof -
  have "sorted_wrt (\<lambda>a b. \<not> offset_less b a) (sort_key (\<lambda>b. ae_offset (bc_addr b)) xs)" for xs
    using sorted_sort_key [of "\<lambda>b. ae_offset (bc_addr b)" xs] by (simp add: sorted_map offset_less_def not_less)
  then show ?thesis by (simp add: sorts_by_def)
qed

lemma ex_env_ok: "env_ok (se_io ex_env)"
  using sort_key_sorts by (simp add: env_ok_def ex_env_def inj_def)

lemma ex_scheduler_idle: "scheduler_idle ex_env (fallback_tracks 3 ex_content) ex_scheduler"
proof -
  have "ds_inv (sv_dedup ex_scheduler)"
    unfolding ds_inv_def by (rule exI [of _ 4]) (simp add: ex_scheduler_def nth_replicate)
  moreover have "table_inv (slot_table_new 4)"
    by (simp add: table_inv_def slots_listed_def slot_table_new_def busy_def held_def all_bufs_def pooled_def buffer_pool_new_def)
  moreover have "slot_reads (slot_table_new 4) = Map.empty"
    by (simp add: fun_eq_iff slot_reads_def slot_table_new_def)
  ultimately show ?thesis
    using fallback_new_tracks [of 3 ex_content]
    by (simp add: scheduler_idle_def ex_scheduler_def ex_env_def fallback_ops_def
        fr_prepped_def slot_table_new_def fallback_new_def all_bufs_def busy_def held_def pooled_def buffer_pool_new_def)
qed

lemma ex_records:
  "records_ok ex_content 4 (ex_addr ` {0, 1})"
  "search_env_ok (ex_addr ` {0, 1}) ex_env" "single_assignment ex_env"
  "\<forall>a \<in> ex_addr ` {0, 1}. stored_payload ex_content (se_schemas ex_env) 4 ex_payload a"
  "record_dist ex_env ex_content (ex_addr 0) = 5" "record_dist ex_env ex_content (ex_addr 1) = 3"
proof -
  show "records_ok ex_content 4 (ex_addr ` {0, 1})" by (simp add: records_ok_def ex_content_def ex_addr_def)
  show "search_env_ok (ex_addr ` {0, 1}) ex_env"
    by (auto simp: search_env_ok_def ex_env_def emitted_by_def ex_candidate_def cd_off_def ex_addr_def kEmpty_def)
  show "single_assignment ex_env"
    by (simp add: single_assignment_def ex_env_def emitted_by_def ex_candidate_def cd_off_def ex_addr_def)
  have four: "replicate 4 (0 :: u8) = [0, 0, 0, 0]" by (simp add: numeral_eq_Suc)
  show "\<forall>a \<in> ex_addr ` {0, 1}. stored_payload ex_content (se_schemas ex_env) 4 ex_payload a"
    by (simp add: stored_payload_def ex_env_def ex_addr_def ex_payload_def datum_fits_def datum_wf_def datum_default_def
        slice_def ex_content_def payload_bytes_def field_bytes_def DTypeIsFixedWidth_def four)
  show "record_dist ex_env ex_content (ex_addr 0) = 5" "record_dist ex_env ex_content (ex_addr 1) = 3"
    by (simp_all add: record_dist_def ex_vec_bytes vector_of_def ex_addr_def ex_content_def slice_def) (simp_all add: ex_env_def)
qed

theorem search_returns_nearest_witness:
  "\<exists>s'. Search ex_env ex_scheduler = Some (s', [\<lparr>sr_distance = 3, sr_payload = ex_payload (ex_addr 1)\<rparr>])"
proof -
  let ?U = "ex_addr ` {0, 1}"
  have "\<exists>s' calls near.
    Search ex_env ex_scheduler = Some (s', map (\<lambda>a. \<lparr>sr_distance = record_dist ex_env ex_content a, sr_payload = ex_payload a\<rparr>) near)
    \<and> map fst calls = se_clusters ex_env
    \<and> nearest_of (unat (sc_top_k (se_cfg ex_env))) (record_dist ex_env ex_content)
        (mset (map cd_addr (news {} (concat (map (emitted_by ex_env) calls))))) near
    \<and> scheduler_idle ex_env (fallback_tracks 3 ex_content) s'"
  proof (rule search_returns_nearest [where U = ?U, OF file_pread_reads])
    show "records_ok ex_content (query_vec_bytes ex_env) ?U" unfolding ex_vec_bytes by (rule ex_records(1))
    show "\<forall>a \<in> ?U. stored_payload ex_content (se_schemas ex_env) (query_vec_bytes ex_env) ex_payload a"
      unfolding ex_vec_bytes by (rule ex_records(4))
    show "\<forall>a \<in> ?U. \<not> f32_is_nan (record_dist ex_env ex_content a)"
      using ex_records(5,6) by (simp add: f32_is_nan_def f32_mag_def)
    have "card ?U \<le> 2" using card_image_le [of "{0, 1 :: nat}" ex_addr] by simp
    then show "length (st_slots (qy_table (sv_query ex_scheduler))) + 2 * card ?U < 4294967296"
      by (simp add: ex_scheduler_def slot_table_new_def)
    show "if se_skip_dedup ex_env then single_assignment ex_env else card ?U \<le> length (ds_slots (sv_dedup ex_scheduler))"
      using ex_records(3) by (simp add: ex_env_def)
  qed (use ex_env_ok ex_scheduler_idle ex_records(2) in \<open>simp_all add: ex_env_def default_config_def\<close>)
  then obtain s' calls near where s: "Search ex_env ex_scheduler = Some (s', map (\<lambda>a. \<lparr>sr_distance = record_dist ex_env ex_content a,
        sr_payload = ex_payload a\<rparr>) near)" "map fst calls = se_clusters ex_env"
      "nearest_of 1 (record_dist ex_env ex_content) (mset (map cd_addr (news {} (concat (map (emitted_by ex_env) calls))))) near"
    unfolding ex_top_k by auto
  obtain call where "calls = [call]" using s(2) by (auto simp: ex_env_def)
  then have "mset (map cd_addr (news {} (concat (map (emitted_by ex_env) calls)))) = {#ex_addr 0, ex_addr 1#}"
    by (cases call) (simp add: emitted_by_def ex_env_def ex_candidate_def cd_off_def ex_addr_def)
  then have n: "nearest_of 1 (record_dist ex_env ex_content) {#ex_addr 0, ex_addr 1#} near" using s(3) by simp
  then obtain a where a: "near = [a]" by (auto simp: nearest_of_def length_Suc_conv)
  then have "a = ex_addr 0 \<or> a = ex_addr 1" using n by (auto simp: nearest_of_def)
  moreover have "a \<noteq> ex_addr 0"
  proof
    assume "a = ex_addr 0"
    then have "f32_le 5 3" using n a ex_records(5,6) by (simp add: nearest_of_def)
    then show False by (simp add: f32_le_def f32_is_nan_def f32_key_def f32_neg_def f32_mag_def)
  qed
  ultimately show ?thesis using s(1) a ex_records(6) by (intro exI [of _ s']) simp
qed

end
