(* ===== verification/Spec2Isabelle.thy ===== *)
theory Spec2Isabelle
  imports Rabitq_Config Dict_Codec Address_Column Column_Store Data_File Result_Collector
    Buffer_Pool Pack_Codes Fastscan Async_Reader Resident_Preload Dedup_Set Read_Plans Query_Search
begin

text \<open>
  VecFetch (namespace \<open>vdb\<close>) is a disk-based vector search engine.  An index is a cluster store (one
  block per IVF cluster: RaBitQ codes in a FastScan layout, a stage-2 ExData region with finer codes,
  and an address column) and a data file with the records.  A query picks clusters, classifies their
  candidates with the codes, reads the surviving records asynchronously, reranks them with exact
  distances and returns the nearest \<open>top_k\<close>.  This development models the storage side and the query
  side around the floating-point kernels, from the sources under src/ (paths below are relative to
  src/src and src/include/vdb).

  \<^bold>\<open>Theories and sources.\<close>
  \<^item> Prelude: machine words, bytes as little-endian lists, wrap-around of counters (\<open>wrap32\<close>,
    \<open>wrap64\<close>).  Simd_Lanes: the vector instructions the SIMD paths use, and \<open>simd_build\<close>, the
    build (scalar, AVX2, AVX-512) a definition is compiled for.  Lane_Loops: the 32-bit loops over blocks of
    eight and the stores into output arrays that Prefix_Sum and Transpose share.
  \<^item> Status_Model, Common_Types, Rabitq_Config: common/status.h and common/types.h.  A \<open>Status\<close> is a
    sum type; a function that may also leave the defined behaviour (read out of range, abort) returns
    \<open>None\<close> there.
  \<^item> Float_Order, Float_Arith: \<open>float\<close> as its bit pattern; comparisons with NaN, and the four
    operators in round-to-nearest-even, where the code's decisions depend on them.
  \<^item> Bitpack, Prefix_Sum, Transpose, Dict_Codec: codec/, simd/bit_unpack.cpp, simd/prefix_sum.cpp,
    simd/transpose.cpp.  Every SIMD routine is proved to agree with its scalar one.
  \<^item> Address_Column: storage/address_column.cpp and simd/address_decode.cpp, both formats (V1 packed
    blocks, V2 raw table), all three decoders.
  \<^item> Append_Log is the interface of the append-only writers, File_IO the loops around \<open>pread\<close> and
    \<open>pwrite\<close>; Column_Chunk, Column_Store (columns/) and Data_File (storage/data_file_*.cpp) use both.  The
    \<open>std::ofstream\<close> of Data_File buffers: what it keeps is an argument (\<open>os_keep\<close>), and what does not fit the
    device is lost when it is passed on.  The stream of Cluster_Writer is modelled without a buffer;
    the theorems about it are about runs whose writes succeed.
  \<^item> Pack_Codes (storage/pack_codes.cpp), Ex_Magnitude (the packing half of simd/ip_exrabitq.cpp),
    Ex_Region and Ex_Roundtrip (the stage-2 region of storage/cluster_store.cpp, every layout of
    versions 11 to 15).  Fastscan: the tables and \<open>AccumulateBlock\<close> of simd/fastscan.cpp for every build,
    and the integer bound of the stage-1 envelope (index/cluster_prober.cpp).
  \<^item> Cluster_Format, Cluster_Writer, Cluster_File: the file format and \<open>ClusterStoreWriter\<close>;
    Parsed_Cluster (query/parsed_cluster.h), Cluster_Reader, Cluster_Session: \<open>ClusterStoreReader\<close> and
    the path from writer to reader; Resident_View, Resident_Preload: the resident form of a cluster
    and \<open>PreloadAllClusters\<close> in both modes.
  \<^item> Heap_Queue and Bounded_Heap: libstdc++'s array heap, the contract of a priority queue and
    bounded heaps; Result_Collector (query/result_collector.cpp) and the frontiers use them.
  \<^item> Buffer_Pool (query/buffer_pool.cpp) and Async_Reader (both readers of query/async_reader.h).
  \<^item> Search_Context (query/search_context.h), Dedup_Set, Est_Frontier, Pending_Slots, Read_Plans: the
    parts of query/overlap_scheduler.cpp (deduplication set, dynamic SafeOut and SafeIn frontiers,
    slots and buffers of pending reads, read plans and the candidate sink).
  \<^item> Rerank_Consumer (query/rerank_consumer.cpp); Query_Io, Data_Reader, Query_Reads: emission of the
    planned reads, dispatch of completions, and an asynchronous reader over a data file; Query_Search:
    \<open>OverlapScheduler::Search\<close> with its probe loop, payload fetching and result assembly.

  \<^bold>\<open>How state corresponds.\<close>  A class is a record of its members, a method a function from the record
  (and its arguments) to the new record and the result; members no modelled operation reads (timings)
  are left out.  Pointers into a buffer are a buffer and an offset (\<open>ptr\<close>); heap buffers of the query
  side are addresses.  What the operating system, the allocator, liburing and \<open>std::sort\<close> answer are
  arguments of the operations; what the documentation promises of them is a named hypothesis
  (\<open>pread_reads\<close> and \<open>reads_file\<close>: a read returns bytes of the file; \<open>env_ok\<close>: an allocator that never
  hands out a live buffer; \<open>sorts_by\<close>; \<open>submit_ok\<close>: how many entries a submission may take; \<open>search_env_ok\<close> and
  \<open>single_assignment\<close>: what the prober emits in a query), and each property with
  such a hypothesis has a witness with a concrete answer.  \<open>records_ok\<close> says that the candidates' records
  lie in the data file, \<open>scheduler_idle\<close> that no read is pending.

  \<^bold>\<open>What the lemmas show.\<close>  Round trips from writer to reader for every format (address column, column
  store, data file, cluster store, stage-2 codes), through short reads and writes; the exact bytes of
  the cluster file; agreement of SIMD and scalar code; the error behaviour of failing writes; the
  exact integer inner products out of the FastScan tables, with the dimensions up to which the 16-bit
  lanes cannot overflow, and the envelope's bound over every lane; the
  collector and the frontiers as order statistics over what was offered, and with them the soundness
  of SafeOut pruning; that the deduplication set answers exactly up to its number of slots, and does not return beyond;
  ownership of every buffer and slot of the query side over all interleavings; that each tag given to
  an asynchronous reader comes back at most once and none is lost, also when submissions fail or take only a part; and, over all of these, that \<open>Search\<close> returns the
  nearest \<open>top_k\<close> of the candidates the prober emitted, with exact distances and their stored columns
  (\<open>Query_Search.search_returns_nearest\<close>, without a candidate budget; in the mode that skips the deduplication
  set, which single assignment uses, and in the one that has it).  The interfaces are locales: \<open>append_log\<close> (chunk and
  data writers), \<open>max_queue\<close> and \<open>heap_order\<close> (collector, frontiers, budget), \<open>async_reader\<close> (both back
  ends), \<open>faithful_reader\<close> (what the scheduler needs of a reader), \<open>bit_layout\<close> (magnitude packings); each is interpreted on the model's definitions.

  \<^bold>\<open>Loops.\<close>  Loops over indices are recursion on the list of indices or \<open>function\<close>s with a measure.
  Loops that need not end (the probe of the deduplication set, \<open>pread\<close> and \<open>pwrite\<close> loops under a kernel
  that answers 0 for ever) are \<open>partial_function\<close>s; where the code returns, that is part of the
  theorem.  No fuel is used.

  \<^bold>\<open>Not modelled.\<close>  The floating-point kernels and what is built on them (quantisation and
  distances in simd/fastscan.cpp, the inner products of simd/ip_exrabitq.cpp, simd/hadamard.cpp, rabitq/,
  index/conann.cpp, the classification in index/cluster_prober.cpp, common/distance.cpp): their results depend on summation order and fused operations of the build;
  index training and construction (index/ivf_*.cpp, Faiss); io/ (file parsing of datasets);
  storage/segment.cpp, which only forwards to the cluster store and the data file reader; timings.
  PROJECT.json lists every component with its status.
\<close>


section \<open>Data file and address column together\<close>






end
